(* ===== verification/Prelude.thy ===== *)
theory Prelude
  imports Main "HOL-Library.Word" "HOL-Library.Multiset" "HOL-Library.Monad_Syntax"
begin

text \<open>
  Shared vocabulary of the development: the names of the machine types, the collections of
  simplification rules the component theories fill, and the generic facts on lists, multisets
  and bits that more than one component uses.

  A model function of type \<open>'a option\<close> returns \<open>None\<close> where the C++ code does not return
  normally: an \<open>IDE_ASSERT\<close> fires (the server process aborts) or a pointer chain is followed
  longer than its bound.  The component theories prove \<open>Some\<close> results wherever the code is
  claimed to return.
\<close>

unbundle bit_operations_syntax

type_synonym u16 = "16 word"
type_synonym u32 = "32 word"
type_synonym u64 = "64 word"

text \<open>Transactions are identified by their slot number, lock nodes and lock items by the
  address of the C++ object, here a number.\<close>

type_synonym slot_id = nat
type_synonym node_id = nat
type_synonym item_id = nat

named_theorems table_simps \<open>evaluation of the constant tables of the lock manager\<close>
named_theorems frame_simps \<open>which parts of the state an operation leaves alone\<close>

text \<open>The return code of a C++ function.\<close>

datatype IDE_RC = IDE_SUCCESS | IDE_FAILURE

text \<open>\<open>IDE_ASSERT\<close>: the process aborts unless the condition holds.\<close>

definition ide_assert :: "bool \<Rightarrow> unit option" where
  "ide_assert b = (if b then Some () else None)"

lemma ide_assert_simps [simp]:
  "ide_assert True = Some ()" "ide_assert False = None"
  "ide_assert b = Some u \<longleftrightarrow> b"
  by (simp_all add: ide_assert_def)

subsection \<open>Lists\<close>

lemma remove1_append_distinct [simp]:
  "distinct (xs @ x # ys) \<Longrightarrow> remove1 x (xs @ x # ys) = xs @ ys"
  by (auto simp: remove1_append)

lemma set_remove1_distinct: "distinct xs \<Longrightarrow> set (remove1 x xs) = set xs - {x}"
  by (rule set_remove1_eq)

lemma length_remove1_mem: "x \<in> set xs \<Longrightarrow> length (remove1 x xs) = length xs - 1"
  by (simp add: length_remove1)

lemma mset_remove1_mem: "mset (remove1 x xs) = mset xs - {#x#}"
  by simp

subsection \<open>Multisets\<close>

lemma image_mset_cong_upd:
  "x \<notin># M \<Longrightarrow> image_mset (f(x := v)) M = image_mset f M"
  by (rule image_mset_cong) auto

lemma image_mset_distinct_upd:
  assumes "distinct xs" "x \<in> set xs"
  shows "image_mset (f(x := v)) (mset xs) = add_mset v (image_mset f (mset xs) - {#f x#})"
proof -
  from assms obtain ys zs where xs: "xs = ys @ x # zs"
    by (meson split_list)
  with assms have "x \<notin> set ys" "x \<notin> set zs" by auto
  then have "image_mset (f(x := v)) (mset ys) = image_mset f (mset ys)"
    "image_mset (f(x := v)) (mset zs) = image_mset f (mset zs)"
    by (auto intro!: image_mset_cong)
  then show ?thesis by (simp add: xs)
qed

end
