(* ===== verification/LockModes.thy ===== *)
theory LockModes
  imports Prelude
begin

text \<open>
  The lock modes of \<open>src/src/sm/sml/smlLockMgr.cpp\<close> and its four constant tables:
  \<open>mCompatibleTBL\<close>, \<open>mConversionTBL\<close>, \<open>mDecisionTBL\<close> and \<open>mLockModeToMask\<close>.
  The conversion table makes the modes a lattice (an instance of \<open>semilattice_sup\<close>);
  compatibility is antitone in it, and the decision table computes the supremum of the
  modes whose mask bits are set.
\<close>

datatype smlLockMode =
    SML_NLOCK | SML_SLOCK | SML_XLOCK | SML_ISLOCK | SML_IXLOCK | SML_SIXLOCK

definition allLockModes :: "smlLockMode list" where
  "allLockModes = [SML_NLOCK, SML_SLOCK, SML_XLOCK, SML_ISLOCK, SML_IXLOCK, SML_SIXLOCK]"

text \<open>The enum's value, used as an index into the tables.\<close>

fun modeIndex :: "smlLockMode \<Rightarrow> nat" where
  "modeIndex SML_NLOCK = 0"
| "modeIndex SML_SLOCK = 1"
| "modeIndex SML_XLOCK = 2"
| "modeIndex SML_ISLOCK = 3"
| "modeIndex SML_IXLOCK = 4"
| "modeIndex SML_SIXLOCK = 5"

definition mCompatibleTBL :: "bool list list" where
  "mCompatibleTBL =
    [[True,  True,  True,  True,   True,   True],
     [True,  True,  False, True,   False,  False],
     [True,  False, False, False,  False,  False],
     [True,  True,  False, True,   True,   True],
     [True,  False, False, True,   True,   False],
     [True,  False, False, True,   False,  False]]"

definition mConversionTBL :: "smlLockMode list list" where
  "mConversionTBL =
    [[SML_NLOCK,   SML_SLOCK,   SML_XLOCK, SML_ISLOCK,  SML_IXLOCK,  SML_SIXLOCK],
     [SML_SLOCK,   SML_SLOCK,   SML_XLOCK, SML_SLOCK,   SML_SIXLOCK, SML_SIXLOCK],
     [SML_XLOCK,   SML_XLOCK,   SML_XLOCK, SML_XLOCK,   SML_XLOCK,   SML_XLOCK],
     [SML_ISLOCK,  SML_SLOCK,   SML_XLOCK, SML_ISLOCK,  SML_IXLOCK,  SML_SIXLOCK],
     [SML_IXLOCK,  SML_SIXLOCK, SML_XLOCK, SML_IXLOCK,  SML_IXLOCK,  SML_SIXLOCK],
     [SML_SIXLOCK, SML_SIXLOCK, SML_XLOCK, SML_SIXLOCK, SML_SIXLOCK, SML_SIXLOCK]]"

definition mDecisionTBL :: "smlLockMode list" where
  "mDecisionTBL =
    [SML_NLOCK,   SML_SLOCK,   SML_XLOCK, SML_XLOCK,
     SML_ISLOCK,  SML_SLOCK,   SML_XLOCK, SML_XLOCK,
     SML_IXLOCK,  SML_SIXLOCK, SML_XLOCK, SML_XLOCK,
     SML_IXLOCK,  SML_SIXLOCK, SML_XLOCK, SML_XLOCK,
     SML_SIXLOCK, SML_SIXLOCK, SML_XLOCK, SML_XLOCK,
     SML_SIXLOCK, SML_SIXLOCK, SML_XLOCK, SML_XLOCK,
     SML_SIXLOCK, SML_SIXLOCK, SML_XLOCK, SML_XLOCK,
     SML_SIXLOCK, SML_SIXLOCK, SML_XLOCK, SML_XLOCK]"

definition mLockModeToMask :: "smlLockMode \<Rightarrow> u32" where
  "mLockModeToMask m = [0x00, 0x01, 0x02, 0x04, 0x08, 0x10] ! modeIndex m"

definition compatible :: "smlLockMode \<Rightarrow> smlLockMode \<Rightarrow> bool" where
  "compatible a b = mCompatibleTBL ! modeIndex a ! modeIndex b"

definition getConversionLockMode :: "smlLockMode \<Rightarrow> smlLockMode \<Rightarrow> smlLockMode" where
  "getConversionLockMode aBaseLockMode aNewLockNode =
     mConversionTBL ! modeIndex aBaseLockMode ! modeIndex aNewLockNode"

abbreviation SML_FLAG_LIGHT_MODE :: u32 where "SML_FLAG_LIGHT_MODE \<equiv> 0x00000020"

text \<open>\<open>getDecision\<close> asserts that the flag is an index of the table; \<open>aFlag\<close> is a
  \<open>SInt\<close>, and a negative one would pass the assertion: the model reads the flag unsigned
  and \<open>getDecision_ok\<close> shows that no flag of the code has a bit above the fifth.\<close>

definition getDecision :: "u32 \<Rightarrow> smlLockMode option" where
  "getDecision aFlag =
     (if unat aFlag < 32 then Some (mDecisionTBL ! unat aFlag) else None)"

definition isNotISorS :: "smlLockMode \<Rightarrow> bool" where
  "isNotISorS aLockMode = (if aLockMode = SML_ISLOCK \<or> aLockMode = SML_SLOCK then False else True)"


subsection \<open>The tables evaluated\<close>

lemma mode_split:
  "P m \<longleftrightarrow> (m = SML_NLOCK \<longrightarrow> P SML_NLOCK) \<and> (m = SML_SLOCK \<longrightarrow> P SML_SLOCK) \<and>
     (m = SML_XLOCK \<longrightarrow> P SML_XLOCK) \<and> (m = SML_ISLOCK \<longrightarrow> P SML_ISLOCK) \<and>
     (m = SML_IXLOCK \<longrightarrow> P SML_IXLOCK) \<and> (m = SML_SIXLOCK \<longrightarrow> P SML_SIXLOCK)"
  by (cases m) auto

lemma compatible_table [table_simps]:
  "compatible SML_NLOCK b" "compatible a SML_NLOCK"
  "compatible SML_SLOCK b \<longleftrightarrow> b \<in> {SML_NLOCK, SML_SLOCK, SML_ISLOCK}"
  "compatible SML_XLOCK b \<longleftrightarrow> b = SML_NLOCK"
  "compatible SML_ISLOCK b \<longleftrightarrow> b \<noteq> SML_XLOCK"
  "compatible SML_IXLOCK b \<longleftrightarrow> b \<in> {SML_NLOCK, SML_ISLOCK, SML_IXLOCK}"
  "compatible SML_SIXLOCK b \<longleftrightarrow> b \<in> {SML_NLOCK, SML_ISLOCK}"
proof -
  show "compatible a SML_NLOCK"
    by (cases a; simp add: compatible_def mCompatibleTBL_def)
qed (cases b; simp add: compatible_def mCompatibleTBL_def)+

lemma conversion_ends [table_simps]:
  "getConversionLockMode SML_NLOCK b = b" "getConversionLockMode a SML_NLOCK = a"
  "getConversionLockMode SML_XLOCK b = SML_XLOCK" "getConversionLockMode a SML_XLOCK = SML_XLOCK"
proof -
  show "getConversionLockMode SML_NLOCK b = b" "getConversionLockMode SML_XLOCK b = SML_XLOCK"
    by (cases b; simp add: getConversionLockMode_def mConversionTBL_def)+
  show "getConversionLockMode a SML_NLOCK = a" "getConversionLockMode a SML_XLOCK = SML_XLOCK"
    by (cases a; simp add: getConversionLockMode_def mConversionTBL_def)+
qed

lemma conversion_table [table_simps]:
  "getConversionLockMode SML_SLOCK SML_SLOCK = SML_SLOCK"
  "getConversionLockMode SML_SLOCK SML_ISLOCK = SML_SLOCK"
  "getConversionLockMode SML_SLOCK SML_IXLOCK = SML_SIXLOCK"
  "getConversionLockMode SML_SLOCK SML_SIXLOCK = SML_SIXLOCK"
  "getConversionLockMode SML_ISLOCK SML_SLOCK = SML_SLOCK"
  "getConversionLockMode SML_ISLOCK SML_ISLOCK = SML_ISLOCK"
  "getConversionLockMode SML_ISLOCK SML_IXLOCK = SML_IXLOCK"
  "getConversionLockMode SML_ISLOCK SML_SIXLOCK = SML_SIXLOCK"
  "getConversionLockMode SML_IXLOCK SML_SLOCK = SML_SIXLOCK"
  "getConversionLockMode SML_IXLOCK SML_ISLOCK = SML_IXLOCK"
  "getConversionLockMode SML_IXLOCK SML_IXLOCK = SML_IXLOCK"
  "getConversionLockMode SML_IXLOCK SML_SIXLOCK = SML_SIXLOCK"
  "getConversionLockMode SML_SIXLOCK SML_SLOCK = SML_SIXLOCK"
  "getConversionLockMode SML_SIXLOCK SML_ISLOCK = SML_SIXLOCK"
  "getConversionLockMode SML_SIXLOCK SML_IXLOCK = SML_SIXLOCK"
  "getConversionLockMode SML_SIXLOCK SML_SIXLOCK = SML_SIXLOCK"
  by (simp_all add: getConversionLockMode_def mConversionTBL_def)

lemma mask_table [table_simps]:
  "mLockModeToMask SML_NLOCK = 0" "mLockModeToMask SML_SLOCK = 1"
  "mLockModeToMask SML_XLOCK = 2" "mLockModeToMask SML_ISLOCK = 4"
  "mLockModeToMask SML_IXLOCK = 8" "mLockModeToMask SML_SIXLOCK = 16"
  by (simp_all add: mLockModeToMask_def)

subsection \<open>The modes as a lattice\<close>

text \<open>The order is the one the conversion table induces; conversion is its supremum.\<close>

instantiation smlLockMode :: "{semilattice_sup, order_bot, order_top}"
begin

definition sup_smlLockMode :: "smlLockMode \<Rightarrow> smlLockMode \<Rightarrow> smlLockMode" where
  "sup_smlLockMode a b = getConversionLockMode a b"

definition less_eq_smlLockMode :: "smlLockMode \<Rightarrow> smlLockMode \<Rightarrow> bool" where
  "less_eq_smlLockMode a b \<longleftrightarrow> getConversionLockMode a b = b"

definition less_smlLockMode :: "smlLockMode \<Rightarrow> smlLockMode \<Rightarrow> bool" where
  "less_smlLockMode a b \<longleftrightarrow> getConversionLockMode a b = b \<and> a \<noteq> b"

definition bot_smlLockMode :: smlLockMode where
  "bot_smlLockMode = SML_NLOCK"

definition top_smlLockMode :: smlLockMode where
  "top_smlLockMode = SML_XLOCK"

instance
proof
  fix x y z :: smlLockMode
  note d = sup_smlLockMode_def less_eq_smlLockMode_def less_smlLockMode_def
    bot_smlLockMode_def top_smlLockMode_def
  show "(x < y) = (x \<le> y \<and> \<not> y \<le> x)"
    by (cases x; cases y) (simp_all add: d table_simps)
  show "x \<le> x" by (cases x) (simp_all add: d table_simps)
  show "x \<le> y \<Longrightarrow> y \<le> z \<Longrightarrow> x \<le> z"
    by (cases x; cases y; cases z) (simp_all add: d table_simps)
  show "x \<le> y \<Longrightarrow> y \<le> x \<Longrightarrow> x = y"
    by (cases x; cases y) (simp_all add: d table_simps)
  show "x \<le> sup x y" by (cases x; cases y) (simp_all add: d table_simps)
  show "y \<le> sup x y" by (cases x; cases y) (simp_all add: d table_simps)
  show "y \<le> x \<Longrightarrow> z \<le> x \<Longrightarrow> sup y z \<le> x"
    by (cases x; cases y; cases z) (simp_all add: d table_simps)
  show "bot \<le> x" by (simp add: d table_simps)
  show "x \<le> top" by (simp add: d table_simps)
qed

end

lemmas mode_order_defs = sup_smlLockMode_def less_eq_smlLockMode_def bot_smlLockMode_def
  top_smlLockMode_def

lemma conversion_sup: "getConversionLockMode a b = sup a b"
  by (simp add: sup_smlLockMode_def)

lemma SML_NLOCK_le [simp]: "SML_NLOCK \<le> m"
  using bot_least [of m] by (simp add: bot_smlLockMode_def)

lemma sup_NLOCK [simp]: "sup SML_NLOCK m = m" "sup m SML_NLOCK = (m :: smlLockMode)"
  by (simp_all add: sup_smlLockMode_def table_simps)

text \<open>Modes below a mode: the intention modes are closed downwards and under conversion.\<close>

definition lightMode :: "smlLockMode \<Rightarrow> bool" where
  "lightMode m \<longleftrightarrow> m \<noteq> SML_SLOCK \<and> m \<noteq> SML_XLOCK \<and> m \<noteq> SML_SIXLOCK"

lemma lightMode_cases: "lightMode m \<longleftrightarrow> m = SML_NLOCK \<or> m = SML_ISLOCK \<or> m = SML_IXLOCK"
  by (cases m) (simp_all add: lightMode_def)

lemma lightMode_simps [simp]:
  "lightMode SML_NLOCK" "lightMode SML_ISLOCK" "lightMode SML_IXLOCK"
  "\<not> lightMode SML_SLOCK" "\<not> lightMode SML_XLOCK" "\<not> lightMode SML_SIXLOCK"
  by (simp_all add: lightMode_def)

lemma lightMode_sup [simp]: "lightMode (sup a b) \<longleftrightarrow> lightMode a \<and> lightMode b"
  by (cases a; cases b) (simp_all add: mode_order_defs table_simps)

lemma lightMode_mono: "a \<le> b \<Longrightarrow> lightMode b \<Longrightarrow> lightMode a"
  by (cases a; cases b) (simp_all add: mode_order_defs table_simps)

lemma lightMode_compatible: "lightMode a \<Longrightarrow> lightMode b \<Longrightarrow> compatible a b"
  by (auto simp: lightMode_cases table_simps)

subsection \<open>Compatibility against the lattice\<close>

lemma compatible_sym: "compatible a b \<longleftrightarrow> compatible b a"
  by (cases a; cases b) (simp_all add: table_simps)

lemma compatible_sup: "compatible (sup a b) c \<longleftrightarrow> compatible a c \<and> compatible b c"
  by (cases a; cases b; cases c) (simp_all add: mode_order_defs table_simps)

lemma compatible_sup_right: "compatible c (sup a b) \<longleftrightarrow> compatible c a \<and> compatible c b"
  using compatible_sup compatible_sym by metis

lemma compatible_mono: "a \<le> b \<Longrightarrow> compatible b c \<Longrightarrow> compatible a c"
  by (metis compatible_sup sup.absorb2)

subsection \<open>Masks and the decision table\<close>

text \<open>The bit a mode's mask sets, if any.\<close>

definition maskBit :: "smlLockMode \<Rightarrow> nat" where
  "maskBit m = modeIndex m - 1"

lemma mask_push_bit:
  "mLockModeToMask m = (if m = SML_NLOCK then 0 else push_bit (maskBit m) 1)"
  by (cases m) (simp_all add: table_simps maskBit_def)

lemma maskBit_less: "maskBit m < 5"
  by (cases m) (simp_all add: maskBit_def)

lemma bit_mask: "bit (mLockModeToMask m) n \<longleftrightarrow> m \<noteq> SML_NLOCK \<and> n = maskBit m"
  using maskBit_less [of m]
  by (auto simp: mask_push_bit bit_exp_iff)

lemma maskBit_inj:
  "maskBit a = maskBit b \<Longrightarrow> a \<noteq> SML_NLOCK \<Longrightarrow> b \<noteq> SML_NLOCK \<Longrightarrow> a = b"
  by (cases a; cases b) (simp_all add: maskBit_def)

text \<open>\<open>flagModes f M\<close>: the flag's bits are exactly the masks of the modes in \<open>M\<close>.\<close>

definition flagModes :: "u32 \<Rightarrow> smlLockMode set \<Rightarrow> bool" where
  "flagModes f M \<longleftrightarrow> (\<forall>n. bit f n \<longleftrightarrow> (\<exists>m \<in> M. m \<noteq> SML_NLOCK \<and> n = maskBit m))"


lemma flagModes_empty [simp]: "flagModes 0 {}"
  by (simp add: flagModes_def)

lemma flagModes_insert:
  "flagModes f M \<Longrightarrow> flagModes (f OR mLockModeToMask m) (insert m M)"
  by (auto simp: flagModes_def bit_or_iff bit_mask)

lemma flagModes_mask: "flagModes (mLockModeToMask m) {m}"
  by (simp add: flagModes_def bit_mask)

lemma flagModes_remove:
  "flagModes f M \<Longrightarrow> flagModes (f AND NOT (mLockModeToMask m)) (M - {m})"
  by (auto simp: flagModes_def bit_and_iff bit_not_iff bit_mask
      dest: maskBit_inj intro: impossible_bit less_trans [OF maskBit_less])

lemma flagModes_zero: "flagModes 0 M \<Longrightarrow> m \<in> M \<Longrightarrow> m = SML_NLOCK"
  by (auto simp: flagModes_def)

lemma flagModes_NLOCK: "flagModes f M \<Longrightarrow> flagModes f (M - {SML_NLOCK})"
  by (auto simp: flagModes_def)

instance smlLockMode :: finite
proof
  have "UNIV = set allLockModes"
    by (auto simp: allLockModes_def) (metis smlLockMode.exhaust)
  then show "finite (UNIV :: smlLockMode set)" by (metis List.finite_set)
qed

text \<open>The least upper bound of a set of modes.\<close>

definition lubModes :: "smlLockMode set \<Rightarrow> smlLockMode" where
  "lubModes M = Sup_fin (insert SML_NLOCK M)"

lemma lubModes_simps [simp]:
  "lubModes {} = SML_NLOCK"
  "lubModes (insert m M) = sup m (lubModes M)"
proof -
  show "lubModes {} = SML_NLOCK" by (simp add: lubModes_def)
  have "Sup_fin (insert m (insert SML_NLOCK M)) = sup m (Sup_fin (insert SML_NLOCK M))"
    by (rule Sup_fin.insert) auto
  then show "lubModes (insert m M) = sup m (lubModes M)"
    by (simp add: lubModes_def insert_commute)
qed

lemma lubModes_upper: "m \<in> M \<Longrightarrow> m \<le> lubModes M"
  by (metis insert_absorb lubModes_simps(2) sup_ge1)

lemma lubModes_least: "(\<And>m. m \<in> M \<Longrightarrow> m \<le> u) \<Longrightarrow> lubModes M \<le> u"
proof -
  assume h: "\<And>m. m \<in> M \<Longrightarrow> m \<le> u"
  have "finite M" by simp
  then have "M \<subseteq> {m. m \<le> u} \<Longrightarrow> lubModes M \<le> u"
    by (induction M rule: finite_induct) auto
  with h show ?thesis by blast
qed

lemma lubModes_remove_NLOCK: "lubModes (M - {SML_NLOCK}) = lubModes M"
  by (metis insert_Diff_single lubModes_simps(2) sup_NLOCK(1))

lemma lubModes_mono: "M \<subseteq> M' \<Longrightarrow> lubModes M \<le> lubModes M'"
  by (rule lubModes_least) (auto intro: lubModes_upper)

text \<open>A flag is determined by the five modes it records.\<close>

definition flagOf :: "smlLockMode set \<Rightarrow> u32" where
  "flagOf M =
     (if SML_SLOCK \<in> M then 1 else 0) OR (if SML_XLOCK \<in> M then 2 else 0) OR
     (if SML_ISLOCK \<in> M then 4 else 0) OR (if SML_IXLOCK \<in> M then 8 else 0) OR
     (if SML_SIXLOCK \<in> M then 16 else 0)"

lemma flagModes_of: "flagModes (flagOf M) M"
proof -
  have "flagOf M = (if SML_SLOCK \<in> M then mLockModeToMask SML_SLOCK else 0)
      OR (if SML_XLOCK \<in> M then mLockModeToMask SML_XLOCK else 0)
      OR (if SML_ISLOCK \<in> M then mLockModeToMask SML_ISLOCK else 0)
      OR (if SML_IXLOCK \<in> M then mLockModeToMask SML_IXLOCK else 0)
      OR (if SML_SIXLOCK \<in> M then mLockModeToMask SML_SIXLOCK else 0)"
    by (simp add: flagOf_def table_simps)
  then have bits: "bit (flagOf M) n \<longleftrightarrow>
      (\<exists>m \<in> {SML_SLOCK, SML_XLOCK, SML_ISLOCK, SML_IXLOCK, SML_SIXLOCK}. m \<in> M \<and> n = maskBit m)" for n
    by (simp add: bit_or_iff bit_mask if_distrib [of "\<lambda>w. bit w n"] cong: if_cong)
  have "(\<exists>m \<in> {SML_SLOCK, SML_XLOCK, SML_ISLOCK, SML_IXLOCK, SML_SIXLOCK}. m \<in> M \<and> n = maskBit m) \<longleftrightarrow>
      (\<exists>m \<in> M. m \<noteq> SML_NLOCK \<and> n = maskBit m)" for n
  proof
    assume "\<exists>m \<in> M. m \<noteq> SML_NLOCK \<and> n = maskBit m"
    then obtain m where "m \<in> M" "m \<noteq> SML_NLOCK" "n = maskBit m" by blast
    then show "\<exists>m \<in> {SML_SLOCK, SML_XLOCK, SML_ISLOCK, SML_IXLOCK, SML_SIXLOCK}. m \<in> M \<and> n = maskBit m"
      by (cases m) auto
  qed auto
  with bits show ?thesis by (simp add: flagModes_def)
qed

lemma flagModes_flagOf: "flagModes f M \<Longrightarrow> f = flagOf M"
  using flagModes_of [of M] by (intro bit_word_eqI) (simp add: flagModes_def)

lemma lubModes_cases:
  "lubModes M =
     sup (if SML_SLOCK \<in> M then SML_SLOCK else SML_NLOCK)
     (sup (if SML_XLOCK \<in> M then SML_XLOCK else SML_NLOCK)
     (sup (if SML_ISLOCK \<in> M then SML_ISLOCK else SML_NLOCK)
     (sup (if SML_IXLOCK \<in> M then SML_IXLOCK else SML_NLOCK)
          (if SML_SIXLOCK \<in> M then SML_SIXLOCK else SML_NLOCK))))" (is "_ = ?r")
proof (rule antisym)
  show "?r \<le> lubModes M" by (simp add: lubModes_upper)
  show "lubModes M \<le> ?r"
  proof (rule lubModes_least)
    fix m assume "m \<in> M"
    then show "m \<le> ?r" by (cases m) (auto simp: le_supI1 le_supI2)
  qed
qed

text \<open>The decision table computes the supremum of the modes a flag records.\<close>

definition flagBits :: "bool \<Rightarrow> bool \<Rightarrow> bool \<Rightarrow> bool \<Rightarrow> bool \<Rightarrow> u32" where
  "flagBits s x is ix six =
     (if s then 1 else 0) OR (if x then 2 else 0) OR (if is then 4 else 0) OR
     (if ix then 8 else 0) OR (if six then 16 else 0)"

definition supBits :: "bool \<Rightarrow> bool \<Rightarrow> bool \<Rightarrow> bool \<Rightarrow> bool \<Rightarrow> smlLockMode" where
  "supBits s x is ix six =
     sup (if s then SML_SLOCK else SML_NLOCK) (sup (if x then SML_XLOCK else SML_NLOCK)
       (sup (if is then SML_ISLOCK else SML_NLOCK) (sup (if ix then SML_IXLOCK else SML_NLOCK)
          (if six then SML_SIXLOCK else SML_NLOCK))))"

lemma flagBits_less: "unat (flagBits s x is ix six) < 32"
  by (cases s; cases x; cases "is"; cases ix; cases six; simp add: flagBits_def)

lemma mDecisionTBL_bits: "mDecisionTBL ! unat (flagBits s x is ix six) = supBits s x is ix six"
  by (cases s; cases x; cases "is"; cases ix; cases six;
      simp add: flagBits_def supBits_def sup_smlLockMode_def mDecisionTBL_def table_simps)

lemma getDecision_lub:
  assumes "flagModes f M"
  shows "getDecision f = Some (lubModes M)"
  unfolding flagModes_flagOf [OF assms] lubModes_cases [of M] flagOf_def getDecision_def
    flagBits_def [symmetric] supBits_def [symmetric]
  by (simp add: flagBits_less mDecisionTBL_bits)

lemma flagModes_zero_iff: "flagModes f M \<Longrightarrow> f = 0 \<longleftrightarrow> M \<subseteq> {SML_NLOCK}"
proof
  assume f: "flagModes f M" and s: "M \<subseteq> {SML_NLOCK}"
  show "f = 0"
    by (rule bit_word_eqI) (use f s in \<open>auto simp: flagModes_def\<close>)
qed (use flagModes_zero in \<open>blast\<close>)

lemma flagModes_not_light: "flagModes f M \<Longrightarrow> f \<noteq> SML_FLAG_LIGHT_MODE"
proof
  assume f: "flagModes f M" and eq: "f = SML_FLAG_LIGHT_MODE"
  have "bit ((2 :: u32) ^ 5) 5" by (simp only: bit_exp_iff) simp
  then have "bit f 5" by (simp add: eq)
  then obtain m where "(5::nat) = maskBit m" using f by (auto simp: flagModes_def)
  with maskBit_less [of m] show False by simp
qed

end
