(* ===== verification/WaitTable.thy ===== *)
theory WaitTable
  imports Prelude
begin

text \<open>
  The waiting table of \<open>src/src/sm/sml/smlLockMgr.cpp\<close>: the matrix \<open>mWaitForTable\<close> whose
  entry \<open>[i][j]\<close> says that transaction slot \<open>i\<close> waits for slot \<open>j\<close>, the chain through a row
  (\<open>mNxtWaitTransItem\<close>: the slots a transaction waits for) and the chain through a column
  (\<open>mNxtWaitRecTransItem\<close>: the transactions queued for a record lock of the column's slot).

  Slot numbers and path lengths are \<open>UShort\<close> in the code; both stay below \<open>mTransCnt\<close>, which is
  at most \<open>SML_END_ITEM\<close> in every well-formed table, so they are natural numbers here.  A loop
  along a chain takes \<open>mTransCnt\<close> as fuel; it returns \<open>None\<close> when the chain is longer.
\<close>

abbreviation ID_USHORT_MAX :: nat where "ID_USHORT_MAX \<equiv> 65535"
abbreviation SML_END_ITEM :: nat where "SML_END_ITEM \<equiv> 65534"

record smlLockMatrixItem =
  mIndex :: nat
  mNxtWaitTransItem :: nat
  mNxtWaitRecTransItem :: nat

datatype smlDistDeadlockTxType =
    SML_DIST_DEADLOCK_TX_NON_DIST_INFO
  | SML_DIST_DEADLOCK_TX_FIRST_DIST_INFO
  | SML_DIST_DEADLOCK_TX_UNKNOWN

record smlDistDeadlockNode =
  mDistTransID :: u32
  mDistTxType :: smlDistDeadlockTxType

text \<open>The wait fields of \<open>mArrOfLockList[slot]\<close> (\<open>smlTransLockList\<close>) are functions of the slot.\<close>

record waitState =
  mTransCnt :: nat
  mWaitForTable :: "slot_id \<Rightarrow> slot_id \<Rightarrow> smlLockMatrixItem"
  mFstWaitTblTransItem :: "slot_id \<Rightarrow> nat"
  mFstWaitRecTransItem :: "slot_id \<Rightarrow> nat"
  mLstWaitRecTransItem :: "slot_id \<Rightarrow> nat"
  mTxList4DistDeadlock :: "slot_id \<Rightarrow> slot_id \<Rightarrow> smlDistDeadlockNode"

abbreviation idx :: "('a) waitState_scheme \<Rightarrow> slot_id \<Rightarrow> slot_id \<Rightarrow> nat" where
  "idx s i j \<equiv> mIndex (mWaitForTable s i j)"

abbreviation nxt :: "('a) waitState_scheme \<Rightarrow> slot_id \<Rightarrow> slot_id \<Rightarrow> nat" where
  "nxt s i j \<equiv> mNxtWaitTransItem (mWaitForTable s i j)"

abbreviation nxtRec :: "('a) waitState_scheme \<Rightarrow> slot_id \<Rightarrow> slot_id \<Rightarrow> nat" where
  "nxtRec s i j \<equiv> mNxtWaitRecTransItem (mWaitForTable s i j)"

text \<open>Assignment to \<open>mWaitForTable[i][j]\<close>.\<close>

definition updItem ::
  "slot_id \<Rightarrow> slot_id \<Rightarrow> (smlLockMatrixItem \<Rightarrow> smlLockMatrixItem) \<Rightarrow>
   'a waitState_scheme \<Rightarrow> 'a waitState_scheme" where
  "updItem i j f s =
     s\<lparr>mWaitForTable := (mWaitForTable s)(i := (mWaitForTable s i)(j := f (mWaitForTable s i j)))\<rparr>"

subsection \<open>Operations\<close>

text \<open>The table as \<open>initialize\<close> leaves it.\<close>

definition initWaitTable :: "nat \<Rightarrow> waitState" where
  "initWaitTable aTransCnt =
     \<lparr>mTransCnt = aTransCnt,
      mWaitForTable = (\<lambda>i j. \<lparr>mIndex = 0, mNxtWaitTransItem = ID_USHORT_MAX,
                              mNxtWaitRecTransItem = ID_USHORT_MAX\<rparr>),
      mFstWaitTblTransItem = (\<lambda>i. SML_END_ITEM),
      mFstWaitRecTransItem = (\<lambda>i. SML_END_ITEM),
      mLstWaitRecTransItem = (\<lambda>i. SML_END_ITEM),
      mTxList4DistDeadlock = (\<lambda>i j. \<lparr>mDistTransID = 0x7FFFFFFF,
                                     mDistTxType = SML_DIST_DEADLOCK_TX_NON_DIST_INFO\<rparr>)\<rparr>"

text \<open>The loop of \<open>clearWaitItemColsOfTrans\<close> at item \<open>cur\<close>.\<close>

fun clearWaitCols_loop ::
  "nat \<Rightarrow> bool \<Rightarrow> slot_id \<Rightarrow> nat \<Rightarrow> 'a waitState_scheme \<Rightarrow> 'a waitState_scheme option" where
  "clearWaitCols_loop fuel aDoInit aSlot cur s =
     (if cur = SML_END_ITEM then Some s else
      case fuel of 0 \<Rightarrow> None
      | Suc n \<Rightarrow>
        let s1 = updItem aSlot cur (mIndex_update (\<lambda>_. 0)) s;
            nextSlot = nxt s1 aSlot cur;
            s2 = (if aDoInit then updItem aSlot cur (mNxtWaitTransItem_update (\<lambda>_. ID_USHORT_MAX)) s1
                  else s1)
        in clearWaitCols_loop n aDoInit aSlot nextSlot s2)"

definition clearWaitItemColsOfTrans ::
  "bool \<Rightarrow> slot_id \<Rightarrow> 'a waitState_scheme \<Rightarrow> 'a waitState_scheme option" where
  "clearWaitItemColsOfTrans aDoInit aSlot s = do {
     s1 \<leftarrow> clearWaitCols_loop (mTransCnt s) aDoInit aSlot (mFstWaitTblTransItem s aSlot) s;
     Some (if aDoInit
           then s1\<lparr>mFstWaitTblTransItem := (mFstWaitTblTransItem s1)(aSlot := SML_END_ITEM)\<rparr>
           else s1)
   }"

text \<open>The loop of \<open>revertWaitItemColsOfTrans\<close>; it yields the item it stopped at.\<close>

fun revertWaitCols_loop ::
  "nat \<Rightarrow> slot_id \<Rightarrow> nat \<Rightarrow> 'a waitState_scheme \<Rightarrow> (nat \<times> 'a waitState_scheme) option" where
  "revertWaitCols_loop fuel aSlot cur s =
     (if cur \<noteq> SML_END_ITEM \<and> idx s aSlot cur > 1 then
      case fuel of 0 \<Rightarrow> None
      | Suc n \<Rightarrow>
        let s1 = updItem aSlot cur (mIndex_update (\<lambda>_. 0)) s;
            nextSlot = nxt s1 aSlot cur;
            s2 = updItem aSlot cur (mNxtWaitTransItem_update (\<lambda>_. ID_USHORT_MAX)) s1
        in revertWaitCols_loop n aSlot nextSlot s2
      else Some (cur, s))"

definition revertWaitItemColsOfTrans ::
  "slot_id \<Rightarrow> 'a waitState_scheme \<Rightarrow> 'a waitState_scheme option" where
  "revertWaitItemColsOfTrans aSlot s = do {
     (cur, s1) \<leftarrow> revertWaitCols_loop (mTransCnt s) aSlot (mFstWaitTblTransItem s aSlot) s;
     Some (if cur \<noteq> SML_END_ITEM
           then s1\<lparr>mFstWaitTblTransItem := (mFstWaitTblTransItem s1)(aSlot := cur)\<rparr>
           else s1)
   }"

text \<open>The lock nodes a caller passes are given by their \<open>mSlotID\<close> fields, in list order.\<close>

fun clearWaitTableRows ::
  "slot_id list \<Rightarrow> slot_id \<Rightarrow> 'a waitState_scheme \<Rightarrow> 'a waitState_scheme" where
  "clearWaitTableRows [] aSlot s = s"
| "clearWaitTableRows (sTransSlot # rest) aSlot s =
     clearWaitTableRows rest aSlot (updItem sTransSlot aSlot (mIndex_update (\<lambda>_. 0)) s)"

definition didLockReleased :: "slot_id \<Rightarrow> slot_id \<Rightarrow> 'a waitState_scheme \<Rightarrow> bool" where
  "didLockReleased aSlot aWaitSlot s = (if idx s aSlot aWaitSlot = 0 then True else False)"

definition registRecordLockWait ::
  "slot_id \<Rightarrow> slot_id \<Rightarrow> 'a waitState_scheme \<Rightarrow> 'a waitState_scheme option" where
  "registRecordLockWait aSlot aWaitSlot s = do {
     ide_assert (idx s aSlot aWaitSlot = 0);
     ide_assert (mFstWaitTblTransItem s aSlot = SML_END_ITEM);
     let s1 = updItem aSlot aWaitSlot (mIndex_update (\<lambda>_. 1)) s;
     s2 \<leftarrow> (if nxtRec s1 aSlot aWaitSlot = ID_USHORT_MAX then do {
              let sA = updItem aSlot aWaitSlot (mNxtWaitRecTransItem_update (\<lambda>_. SML_END_ITEM)) s1;
              if mFstWaitRecTransItem sA aWaitSlot = SML_END_ITEM then do {
                ide_assert (mLstWaitRecTransItem sA aWaitSlot = SML_END_ITEM);
                Some (sA\<lparr>mFstWaitRecTransItem := (mFstWaitRecTransItem sA)(aWaitSlot := aSlot),
                         mLstWaitRecTransItem := (mLstWaitRecTransItem sA)(aWaitSlot := aSlot)\<rparr>)
              } else do {
                ide_assert (mLstWaitRecTransItem sA aWaitSlot \<noteq> SML_END_ITEM);
                let sLstSlot = mLstWaitRecTransItem sA aWaitSlot;
                let sB = updItem sLstSlot aWaitSlot (mNxtWaitRecTransItem_update (\<lambda>_. aSlot)) sA;
                Some (sB\<lparr>mLstWaitRecTransItem := (mLstWaitRecTransItem sB)(aWaitSlot := aSlot)\<rparr>)
              }
            } else Some s1);
     ide_assert (mFstWaitTblTransItem s2 aSlot = SML_END_ITEM);
     let s3 = updItem aSlot aWaitSlot
                (mNxtWaitTransItem_update (\<lambda>_. mFstWaitTblTransItem s2 aSlot)) s2;
     Some (s3\<lparr>mFstWaitTblTransItem := (mFstWaitTblTransItem s3)(aSlot := aWaitSlot)\<rparr>)
   }"

text \<open>The loop of \<open>freeAllRecordLock\<close> at item \<open>i\<close>.  \<open>resumeTrans\<close> is the layer callback
  that wakes a transaction; the loop also collects the slots it was called for.\<close>

fun freeAllRecordLock_loop ::
  "(slot_id \<Rightarrow> IDE_RC) \<Rightarrow> nat \<Rightarrow> slot_id \<Rightarrow> nat \<Rightarrow> slot_id list \<Rightarrow> 'a waitState_scheme \<Rightarrow>
   (IDE_RC \<times> slot_id list \<times> 'a waitState_scheme) option" where
  "freeAllRecordLock_loop resumeTrans fuel aSlot i woken s =
     (if i = SML_END_ITEM then Some (IDE_SUCCESS, woken, s) else
      case fuel of 0 \<Rightarrow> None
      | Suc n \<Rightarrow> do {
        ide_assert (i \<noteq> ID_USHORT_MAX);
        let sNxtItem = nxtRec s i aSlot;
        let s1 = updItem i aSlot (mNxtWaitRecTransItem_update (\<lambda>_. ID_USHORT_MAX)) s;
        if idx s1 i aSlot = 1 \<and> resumeTrans i \<noteq> IDE_SUCCESS
        then Some (IDE_FAILURE, woken @ [i], s1)
        else freeAllRecordLock_loop resumeTrans n aSlot sNxtItem
               (if idx s1 i aSlot = 1 then woken @ [i] else woken)
               (updItem i aSlot (mIndex_update (\<lambda>_. 0)) s1)
      })"

definition freeAllRecordLock ::
  "(slot_id \<Rightarrow> IDE_RC) \<Rightarrow> slot_id \<Rightarrow> 'a waitState_scheme \<Rightarrow>
   (IDE_RC \<times> slot_id list \<times> 'a waitState_scheme) option" where
  "freeAllRecordLock resumeTrans aSlot s = do {
     (rc, woken, s1) \<leftarrow> freeAllRecordLock_loop resumeTrans (mTransCnt s) aSlot
                          (mFstWaitRecTransItem s aSlot) [] s;
     if rc = IDE_FAILURE then Some (rc, woken, s1)
     else Some (rc, woken,
            s1\<lparr>mFstWaitRecTransItem := (mFstWaitRecTransItem s1)(aSlot := SML_END_ITEM),
               mLstWaitRecTransItem := (mLstWaitRecTransItem s1)(aSlot := SML_END_ITEM)\<rparr>)
   }"

text \<open>One entry linked at the head of a row, as both registration loops do.\<close>

definition linkWait :: "slot_id \<Rightarrow> slot_id \<Rightarrow> 'a waitState_scheme \<Rightarrow> 'a waitState_scheme" where
  "linkWait aSlot sTransSlot s =
     (let s1 = updItem aSlot sTransSlot (mIndex_update (\<lambda>_. 1)) s;
          s2 = updItem aSlot sTransSlot
                 (mNxtWaitTransItem_update (\<lambda>_. mFstWaitTblTransItem s1 aSlot)) s1
      in s2\<lparr>mFstWaitTblTransItem := (mFstWaitTblTransItem s2)(aSlot := sTransSlot)\<rparr>)"

fun registTblLockWaitListByReq ::
  "slot_id \<Rightarrow> slot_id list \<Rightarrow> 'a waitState_scheme \<Rightarrow> 'a waitState_scheme option" where
  "registTblLockWaitListByReq aSlot [] s = Some s"
| "registTblLockWaitListByReq aSlot (sTransSlot # rest) s =
     (if aSlot \<noteq> sTransSlot then do {
        ide_assert (nxt s aSlot sTransSlot = ID_USHORT_MAX);
        registTblLockWaitListByReq aSlot rest (linkWait aSlot sTransSlot s)
      } else registTblLockWaitListByReq aSlot rest s)"

fun registTblLockWaitListByGrant ::
  "slot_id \<Rightarrow> slot_id list \<Rightarrow> 'a waitState_scheme \<Rightarrow> 'a waitState_scheme" where
  "registTblLockWaitListByGrant aSlot [] s = s"
| "registTblLockWaitListByGrant aSlot (sTransSlot # rest) s =
     registTblLockWaitListByGrant aSlot rest
       (if aSlot \<noteq> sTransSlot \<and> nxt s aSlot sTransSlot = ID_USHORT_MAX
        then linkWait aSlot sTransSlot s else s)"

declare clearWaitCols_loop.simps [simp del] revertWaitCols_loop.simps [simp del]
  freeAllRecordLock_loop.simps [simp del]

subsection \<open>Chains\<close>

text \<open>\<open>chain nx x xs\<close>: following \<open>nx\<close> from \<open>x\<close> visits \<open>xs\<close> and then \<open>SML_END_ITEM\<close>.\<close>

fun chain :: "(nat \<Rightarrow> nat) \<Rightarrow> nat \<Rightarrow> nat list \<Rightarrow> bool" where
  "chain nx x [] \<longleftrightarrow> x = SML_END_ITEM"
| "chain nx x (y # ys) \<longleftrightarrow> x = y \<and> y \<noteq> SML_END_ITEM \<and> chain nx (nx y) ys"

lemma chain_cong: "(\<And>y. y \<in> set xs \<Longrightarrow> nx' y = nx y) \<Longrightarrow> chain nx' x xs \<longleftrightarrow> chain nx x xs"
  by (induction xs arbitrary: x) auto

lemma chain_unique: "chain nx x xs \<Longrightarrow> chain nx x ys \<Longrightarrow> xs = ys"
proof (induction xs arbitrary: x ys)
  case Nil
  then show ?case by (cases ys) auto
next
  case (Cons a xs)
  then show ?case by (cases ys) auto
qed

lemma chain_not_END: "chain nx x xs \<Longrightarrow> y \<in> set xs \<Longrightarrow> y \<noteq> SML_END_ITEM"
  by (induction xs arbitrary: x) auto

lemma chain_head: "chain nx x xs \<Longrightarrow> x \<noteq> SML_END_ITEM \<Longrightarrow> \<exists>ys. xs = x # ys"
  by (cases xs) auto

lemma chain_nil_iff: "chain nx x xs \<Longrightarrow> x = SML_END_ITEM \<longleftrightarrow> xs = []"
  by (cases xs) auto

lemma chain_nx_in: "chain nx x xs \<Longrightarrow> y \<in> set xs \<Longrightarrow> nx y = SML_END_ITEM \<or> nx y \<in> set xs"
proof (induction xs arbitrary: x)
  case (Cons a xs)
  show ?case
  proof (cases "y = a")
    case True
    with Cons.prems show ?thesis by (cases xs) auto
  qed (use Cons in auto)
qed simp

lemma chain_last: "chain nx x xs \<Longrightarrow> xs \<noteq> [] \<Longrightarrow> nx (last xs) = SML_END_ITEM"
  by (induction xs arbitrary: x) auto

lemma chain_append:
  "chain nx x (xs @ [z]) \<longleftrightarrow>
     (if xs = [] then x = z else chain (nx(last xs := SML_END_ITEM)) x xs \<and> nx (last xs) = z)
     \<and> z \<noteq> SML_END_ITEM \<and> nx z = SML_END_ITEM" if "distinct xs"
  using that
proof (induction xs arbitrary: x)
  case (Cons a xs)
  show ?case
  proof (cases "xs = []")
    case False
    with Cons.prems have "last xs \<noteq> a" by auto
    with Cons False show ?thesis by auto
  qed auto
qed auto

subsection \<open>Row and table updates\<close>

text \<open>\<open>updRow\<close> rewrites a whole row.\<close>

definition updRow ::
  "slot_id \<Rightarrow> (slot_id \<Rightarrow> smlLockMatrixItem \<Rightarrow> smlLockMatrixItem) \<Rightarrow>
   'a waitState_scheme \<Rightarrow> 'a waitState_scheme" where
  "updRow i f s =
     s\<lparr>mWaitForTable := (mWaitForTable s)(i := \<lambda>j. f j (mWaitForTable s i j))\<rparr>"

lemma updItem_row: "updItem i c g s = updRow i (\<lambda>j. if j = c then g else id) s"
  by (cases s) (auto simp: updItem_def updRow_def fun_eq_iff)

lemma updRow_updRow [simp]: "updRow i f (updRow i g s) = updRow i (\<lambda>j. f j \<circ> g j) s"
  by (simp add: updRow_def)

lemma updRow_id: "(\<And>j. f j (mWaitForTable s i j) = mWaitForTable s i j) \<Longrightarrow> updRow i f s = s"
  by (simp add: updRow_def)

lemma updRow_cong:
  "(\<And>j. f j (mWaitForTable s i j) = g j (mWaitForTable s i j)) \<Longrightarrow> updRow i f s = updRow i g s"
  by (simp add: updRow_def)

lemma updRow_sel [simp]:
  "mTransCnt (updRow i f s) = mTransCnt s"
  "mWaitForTable (updRow i f s) = (mWaitForTable s)(i := \<lambda>j. f j (mWaitForTable s i j))"
  "mFstWaitTblTransItem (updRow i f s) = mFstWaitTblTransItem s"
  "mFstWaitRecTransItem (updRow i f s) = mFstWaitRecTransItem s"
  "mLstWaitRecTransItem (updRow i f s) = mLstWaitRecTransItem s"
  "mTxList4DistDeadlock (updRow i f s) = mTxList4DistDeadlock s"
  "waitState.more (updRow i f s) = waitState.more s"
  by (simp_all add: updRow_def)

lemma updItem_sel [simp]:
  "mTransCnt (updItem i j f s) = mTransCnt s"
  "mWaitForTable (updItem i j f s) =
     (mWaitForTable s)(i := (mWaitForTable s i)(j := f (mWaitForTable s i j)))"
  "mFstWaitTblTransItem (updItem i j f s) = mFstWaitTblTransItem s"
  "mFstWaitRecTransItem (updItem i j f s) = mFstWaitRecTransItem s"
  "mLstWaitRecTransItem (updItem i j f s) = mLstWaitRecTransItem s"
  "mTxList4DistDeadlock (updItem i j f s) = mTxList4DistDeadlock s"
  "waitState.more (updItem i j f s) = waitState.more s"
  by (simp_all add: updItem_def)

subsection \<open>Clearing a row\<close>

definition clearItem :: "bool \<Rightarrow> smlLockMatrixItem \<Rightarrow> smlLockMatrixItem" where
  "clearItem doInit it =
     (if doInit then it\<lparr>mIndex := 0, mNxtWaitTransItem := ID_USHORT_MAX\<rparr> else it\<lparr>mIndex := 0\<rparr>)"

lemma clearItem_sel [simp]:
  "mIndex (clearItem d it) = 0"
  "mNxtWaitTransItem (clearItem d it) = (if d then ID_USHORT_MAX else mNxtWaitTransItem it)"
  "mNxtWaitRecTransItem (clearItem d it) = mNxtWaitRecTransItem it"
  by (simp_all add: clearItem_def)

lemma clearWaitCols_loop_chain:
  assumes "chain (nxt s a) cur xs" "distinct xs" "length xs \<le> fuel"
  shows "clearWaitCols_loop fuel d a cur s =
    Some (updRow a (\<lambda>j. if j \<in> set xs then clearItem d else id) s)"
  using assms
proof (induction xs arbitrary: cur s fuel)
  case Nil
  then show ?case by (simp add: clearWaitCols_loop.simps updRow_id)
next
  case (Cons y ys)
  from Cons.prems obtain n where fuel: "fuel = Suc n" by (cases fuel) auto
  let ?s = "updRow a (\<lambda>j. if j = y then clearItem d else id) s"
  have upd: "(let s1 = updItem a y (mIndex_update (\<lambda>_. 0)) s in
      if d then updItem a y (mNxtWaitTransItem_update (\<lambda>_. ID_USHORT_MAX)) s1 else s1) = ?s"
    by (auto simp: Let_def updItem_row clearItem_def intro!: updRow_cong)
  have step: "clearWaitCols_loop fuel d a cur s = clearWaitCols_loop n d a (nxt s a y) ?s"
    using Cons.prems upd
    by (simp add: clearWaitCols_loop.simps [of "Suc n"] fuel Let_def)
  have "chain (nxt ?s a) (nxt s a y) ys"
    using Cons.prems by (subst chain_cong [where nx = "nxt s a"]) auto
  with Cons fuel have "clearWaitCols_loop n d a (nxt s a y) ?s =
      Some (updRow a (\<lambda>j. if j \<in> set ys then clearItem d else id) ?s)"
    by simp
  with step show ?case
    using Cons.prems by (auto intro!: updRow_cong)
qed

text \<open>The same row with the head index kept where it is: \<open>clearWaitItemColsOfTrans\<close>.\<close>

lemma clearWaitItemColsOfTrans_chain:
  assumes "chain (nxt s a) (mFstWaitTblTransItem s a) xs" "distinct xs" "length xs \<le> mTransCnt s"
  shows "clearWaitItemColsOfTrans d a s = Some
    (let s1 = updRow a (\<lambda>j. if j \<in> set xs then clearItem d else id) s in
     if d then s1\<lparr>mFstWaitTblTransItem := (mFstWaitTblTransItem s)(a := SML_END_ITEM)\<rparr> else s1)"
  using clearWaitCols_loop_chain [OF assms, of d]
  by (simp add: clearWaitItemColsOfTrans_def Let_def)

lemma revertWaitCols_loop_chain:
  assumes "chain (nxt s a) cur (xs @ ys)" "distinct (xs @ ys)" "length xs \<le> fuel"
    "\<And>x. x \<in> set xs \<Longrightarrow> idx s a x > 1" "ys = [] \<or> idx s a (hd ys) \<le> 1"
  shows "revertWaitCols_loop fuel a cur s = Some
    (case ys of [] \<Rightarrow> SML_END_ITEM | y # _ \<Rightarrow> y,
     updRow a (\<lambda>j. if j \<in> set xs then clearItem True else id) s)"
  using assms
proof (induction xs arbitrary: cur s fuel)
  case Nil
  then show ?case
    by (cases ys) (auto simp: revertWaitCols_loop.simps intro!: updRow_id [symmetric])
next
  case (Cons x xs)
  from Cons.prems obtain n where fuel: "fuel = Suc n" by (cases fuel) auto
  let ?s = "updRow a (\<lambda>j. if j = x then clearItem True else id) s"
  have upd: "updItem a x (mNxtWaitTransItem_update (\<lambda>_. ID_USHORT_MAX))
      (updItem a x (mIndex_update (\<lambda>_. 0)) s) = ?s"
    by (auto simp: updItem_row clearItem_def intro!: updRow_cong)
  have step: "revertWaitCols_loop fuel a cur s = revertWaitCols_loop n a (nxt s a x) ?s"
    using Cons.prems upd
    by (simp add: revertWaitCols_loop.simps [of "Suc n"] fuel Let_def)
  have "chain (nxt ?s a) (nxt s a x) (xs @ ys)"
    using Cons.prems by (subst chain_cong [where nx = "nxt s a"]) auto
  moreover have "idx ?s a z > 1" if "z \<in> set xs" for z using that Cons.prems by auto
  moreover have "ys = [] \<or> idx ?s a (hd ys) \<le> 1" using Cons.prems by auto
  ultimately have "revertWaitCols_loop n a (nxt s a x) ?s = Some
      (case ys of [] \<Rightarrow> SML_END_ITEM | y # _ \<Rightarrow> y,
       updRow a (\<lambda>j. if j \<in> set xs then clearItem True else id) ?s)"
    using Cons.IH [of ?s "nxt s a x" n] Cons.prems fuel by simp
  with step show ?case
    using Cons.prems by (auto intro!: updRow_cong)
qed

lemma revertWaitItemColsOfTrans_chain:
  assumes "chain (nxt s a) (mFstWaitTblTransItem s a) (xs @ ys)" "distinct (xs @ ys)"
    "length xs \<le> mTransCnt s" "\<And>x. x \<in> set xs \<Longrightarrow> idx s a x > 1" "ys \<noteq> []" "idx s a (hd ys) \<le> 1"
  shows "revertWaitItemColsOfTrans a s = Some
    ((updRow a (\<lambda>j. if j \<in> set xs then clearItem True else id) s)
       \<lparr>mFstWaitTblTransItem := (mFstWaitTblTransItem s)(a := hd ys)\<rparr>)"
proof -
  have "hd ys \<noteq> SML_END_ITEM"
    using chain_not_END [OF assms(1), of "hd ys"] assms(5) by auto
  then show ?thesis
    using revertWaitCols_loop_chain [OF assms(1-4)] assms(5,6)
    by (cases ys) (auto simp: revertWaitItemColsOfTrans_def)
qed

subsection \<open>Well-formed rows and columns\<close>

text \<open>\<open>rowOk s i xs\<close>: the chain of row \<open>i\<close> runs through exactly the slots \<open>xs\<close>; an entry off
  the chain is unlinked and has path length 0.  \<open>colOk s w q\<close>: the transactions queued for a
  record lock of slot \<open>w\<close> are \<open>q\<close>, and the last one is cached.\<close>

definition rowOk :: "'a waitState_scheme \<Rightarrow> slot_id \<Rightarrow> slot_id list \<Rightarrow> bool" where
  "rowOk s i xs \<longleftrightarrow>
     chain (nxt s i) (mFstWaitTblTransItem s i) xs \<and> distinct xs \<and> set xs \<subseteq> {..<mTransCnt s} \<and>
     (\<forall>j < mTransCnt s. j \<notin> set xs \<longrightarrow> nxt s i j = ID_USHORT_MAX \<and> idx s i j = 0)"

definition colOk :: "'a waitState_scheme \<Rightarrow> slot_id \<Rightarrow> slot_id list \<Rightarrow> bool" where
  "colOk s w q \<longleftrightarrow>
     chain (\<lambda>i. nxtRec s i w) (mFstWaitRecTransItem s w) q \<and> distinct q \<and>
     set q \<subseteq> {..<mTransCnt s} \<and>
     mLstWaitRecTransItem s w = (if q = [] then SML_END_ITEM else last q) \<and>
     (\<forall>i < mTransCnt s. i \<notin> set q \<longrightarrow> nxtRec s i w = ID_USHORT_MAX)"

definition waitInv :: "'a waitState_scheme \<Rightarrow> bool" where
  "waitInv s \<longleftrightarrow> mTransCnt s \<le> SML_END_ITEM \<and>
     (\<forall>i < mTransCnt s. \<exists>xs. rowOk s i xs) \<and> (\<forall>w < mTransCnt s. \<exists>q. colOk s w q)"

lemma rowOk_length: "rowOk s i xs \<Longrightarrow> length xs \<le> mTransCnt s"
  unfolding rowOk_def
  by (metis card_lessThan card_mono distinct_card finite_lessThan)

lemma colOk_length: "colOk s w q \<Longrightarrow> length q \<le> mTransCnt s"
  unfolding colOk_def
  by (metis card_lessThan card_mono distinct_card finite_lessThan)

lemma rowOk_unique: "rowOk s i xs \<Longrightarrow> rowOk s i ys \<Longrightarrow> xs = ys"
  by (auto simp: rowOk_def dest: chain_unique)

lemma colOk_unique: "colOk s w q \<Longrightarrow> colOk s w q' \<Longrightarrow> q = q'"
  by (auto simp: colOk_def dest: chain_unique)

lemma rowOk_cong:
  assumes "mTransCnt s' = mTransCnt s" "mFstWaitTblTransItem s' i = mFstWaitTblTransItem s i"
    "\<And>j. idx s' i j = idx s i j" "\<And>j. nxt s' i j = nxt s i j"
  shows "rowOk s' i xs \<longleftrightarrow> rowOk s i xs"
  using assms by (simp add: rowOk_def)

lemma colOk_cong:
  assumes "mTransCnt s' = mTransCnt s" "mFstWaitRecTransItem s' w = mFstWaitRecTransItem s w"
    "mLstWaitRecTransItem s' w = mLstWaitRecTransItem s w"
    "\<And>i. nxtRec s' i w = nxtRec s i w"
  shows "colOk s' w q \<longleftrightarrow> colOk s w q"
  using assms by (simp add: colOk_def)

lemma rowOk_linked:
  assumes "rowOk s i xs" "mTransCnt s \<le> SML_END_ITEM" "j < mTransCnt s"
  shows "nxt s i j = ID_USHORT_MAX \<longleftrightarrow> j \<notin> set xs"
proof
  assume "nxt s i j = ID_USHORT_MAX"
  with assms chain_nx_in [of "nxt s i" _ xs j] show "j \<notin> set xs"
    by (fastforce simp: rowOk_def)
qed (use assms in \<open>simp add: rowOk_def\<close>)

lemma colOk_linked:
  assumes "colOk s w q" "mTransCnt s \<le> SML_END_ITEM" "i < mTransCnt s"
  shows "nxtRec s i w = ID_USHORT_MAX \<longleftrightarrow> i \<notin> set q"
proof
  assume "nxtRec s i w = ID_USHORT_MAX"
  with assms chain_nx_in [of "\<lambda>i. nxtRec s i w" _ q i] show "i \<notin> set q"
    by (fastforce simp: colOk_def)
qed (use assms in \<open>simp add: colOk_def\<close>)

lemma rowOk_nil: "rowOk s i [] \<longleftrightarrow> mFstWaitTblTransItem s i = SML_END_ITEM \<and>
    (\<forall>j < mTransCnt s. nxt s i j = ID_USHORT_MAX \<and> idx s i j = 0)"
  by (auto simp: rowOk_def)

lemma rowOk_END: "rowOk s i xs \<Longrightarrow> mFstWaitTblTransItem s i = SML_END_ITEM \<longleftrightarrow> xs = []"
  by (auto simp: rowOk_def dest: chain_nil_iff)

lemma colOk_END: "colOk s w q \<Longrightarrow> mFstWaitRecTransItem s w = SML_END_ITEM \<longleftrightarrow> q = []"
  by (auto simp: colOk_def dest: chain_nil_iff)

lemma initWaitTable_inv:
  assumes "n \<le> SML_END_ITEM"
  shows "waitInv (initWaitTable n)"
proof -
  have "rowOk (initWaitTable n) i []" "colOk (initWaitTable n) i []" for i
    by (auto simp: rowOk_def colOk_def initWaitTable_def)
  then show ?thesis using assms unfolding waitInv_def by (auto simp: initWaitTable_def)
qed

text \<open>\<open>onlyRow a s s'\<close>: an operation changed nothing but row \<open>a\<close> and its chain.\<close>

definition onlyRow :: "slot_id \<Rightarrow> 'a waitState_scheme \<Rightarrow> 'a waitState_scheme \<Rightarrow> bool" where
  "onlyRow a s s' \<longleftrightarrow> mTransCnt s' = mTransCnt s \<and>
     (\<forall>i. i \<noteq> a \<longrightarrow> mWaitForTable s' i = mWaitForTable s i \<and>
                     mFstWaitTblTransItem s' i = mFstWaitTblTransItem s i) \<and>
     (\<forall>j. nxtRec s' a j = nxtRec s a j) \<and>
     mFstWaitRecTransItem s' = mFstWaitRecTransItem s \<and>
     mLstWaitRecTransItem s' = mLstWaitRecTransItem s \<and>
     waitState.more s' = waitState.more s"

lemma onlyRow_refl [simp]: "onlyRow a s s"
  by (simp add: onlyRow_def)

lemma onlyRow_trans: "onlyRow a s s' \<Longrightarrow> onlyRow a s' s'' \<Longrightarrow> onlyRow a s s''"
  by (simp add: onlyRow_def)

lemma onlyRow_TransCnt: "onlyRow a s s' \<Longrightarrow> mTransCnt s' = mTransCnt s"
  by (simp add: onlyRow_def)

lemma onlyRow_more: "onlyRow a s s' \<Longrightarrow> waitState.more s' = waitState.more s"
  by (simp add: onlyRow_def)

lemma onlyRow_idx: "onlyRow a s s' \<Longrightarrow> i \<noteq> a \<Longrightarrow> idx s' i j = idx s i j"
  by (simp add: onlyRow_def)

lemma onlyRow_rowOk: "onlyRow a s s' \<Longrightarrow> i \<noteq> a \<Longrightarrow> rowOk s' i xs \<longleftrightarrow> rowOk s i xs"
  by (rule rowOk_cong) (simp_all add: onlyRow_def)

lemma onlyRow_nxtRec: "onlyRow a s s' \<Longrightarrow> nxtRec s' i j = nxtRec s i j"
  by (cases "i = a") (auto simp: onlyRow_def)

lemma onlyRow_colOk: "onlyRow a s s' \<Longrightarrow> colOk s' w q \<longleftrightarrow> colOk s w q"
  by (rule colOk_cong) (simp_all add: onlyRow_nxtRec, simp_all add: onlyRow_def)

lemma onlyRow_waitInv:
  assumes "onlyRow a s s'" "waitInv s" "rowOk s' a xs"
  shows "waitInv s'"
proof -
  have "\<exists>xs. rowOk s' i xs" if "i < mTransCnt s'" for i
    using assms that onlyRow_rowOk [OF assms(1), of i] onlyRow_TransCnt [OF assms(1)]
    by (cases "i = a") (auto simp: waitInv_def)
  then show ?thesis
    using assms(2) onlyRow_TransCnt [OF assms(1)] onlyRow_colOk [OF assms(1)]
    by (simp add: waitInv_def)
qed

text \<open>Clearing a row with \<open>aDoInit\<close> empties its chain and touches nothing else.\<close>

lemma clearWaitItemColsOfTrans_init:
  assumes "rowOk s a xs"
  shows "\<exists>s'. clearWaitItemColsOfTrans True a s = Some s' \<and> rowOk s' a [] \<and> onlyRow a s s'"
proof -
  have "chain (nxt s a) (mFstWaitTblTransItem s a) xs" "distinct xs"
    using assms by (auto simp: rowOk_def)
  from clearWaitItemColsOfTrans_chain [OF this rowOk_length [OF assms], of True]
  show ?thesis
    using assms by (simp add: rowOk_def onlyRow_def)
qed

lemma rowOk_link:
  assumes "rowOk s a xs" "t < mTransCnt s" "t \<notin> set xs" "mTransCnt s \<le> SML_END_ITEM"
  shows "rowOk (linkWait a t s) a (t # xs)"
proof -
  have "chain ((nxt s a)(t := mFstWaitTblTransItem s a)) (mFstWaitTblTransItem s a) xs"
    using assms by (subst chain_cong [where nx = "nxt s a"]) (auto simp: rowOk_def)
  moreover have "nxt (linkWait a t s) a = (nxt s a)(t := mFstWaitTblTransItem s a)"
    by (simp add: linkWait_def Let_def fun_eq_iff)
  ultimately show ?thesis
    using assms by (auto simp: rowOk_def linkWait_def Let_def)
qed

lemma linkWait_onlyRow: "onlyRow a s (linkWait a t s)"
  by (simp add: linkWait_def Let_def onlyRow_def)

lemma linkWait_idx: "idx (linkWait a t s) a j = (if j = t then 1 else idx s a j)"
  by (simp add: linkWait_def Let_def)

text \<open>The slots the two registration loops link in front of a row's chain \<open>xs\<close>.\<close>

definition newWaits :: "slot_id \<Rightarrow> slot_id list \<Rightarrow> slot_id list \<Rightarrow> slot_id list" where
  "newWaits a ts xs = fold (\<lambda>t acc. if t \<noteq> a \<and> t \<notin> set acc then t # acc else acc) ts xs"

lemma newWaits_simps [simp]:
  "newWaits a [] xs = xs"
  "newWaits a (t # ts) xs = newWaits a ts (if t \<noteq> a \<and> t \<notin> set xs then t # xs else xs)"
  by (simp_all add: newWaits_def)

lemma set_newWaits: "set (newWaits a ts xs) = set xs \<union> (set ts - {a})"
  by (induction ts arbitrary: xs) auto

lemma registByGrant_ok:
  assumes "rowOk s a xs" "set ts \<subseteq> {..<mTransCnt s}" "mTransCnt s \<le> SML_END_ITEM"
  shows "rowOk (registTblLockWaitListByGrant a ts s) a (newWaits a ts xs) \<and>
    onlyRow a s (registTblLockWaitListByGrant a ts s) \<and>
    (\<forall>j < mTransCnt s. idx (registTblLockWaitListByGrant a ts s) a j =
       (if j \<in> set (newWaits a ts xs) - set xs then 1 else idx s a j))"
  using assms
proof (induction ts arbitrary: s xs)
  case (Cons t ts)
  let ?s = "if a \<noteq> t \<and> nxt s a t = ID_USHORT_MAX then linkWait a t s else s"
  let ?xs = "if t \<noteq> a \<and> t \<notin> set xs then t # xs else xs"
  define s1 where "s1 = ?s"
  define x1 where "x1 = ?xs"
  have link: "nxt s a t = ID_USHORT_MAX \<longleftrightarrow> t \<notin> set xs"
    using Cons.prems by (intro rowOk_linked) auto
  then have row: "rowOk ?s a ?xs" and only: "onlyRow a s ?s"
    using Cons.prems rowOk_link [of s a xs t] linkWait_onlyRow [of a s t] by auto
  have ix: "idx ?s a j = (if j \<in> set ?xs - set xs then 1 else idx s a j)" for j
    using link by (auto simp: linkWait_idx)
  have n: "mTransCnt ?s = mTransCnt s" using onlyRow_TransCnt [OF only] .
  let ?r = "registTblLockWaitListByGrant a ts ?s"
  have IH: "rowOk ?r a (newWaits a ts ?xs)" "onlyRow a ?s ?r"
    "\<forall>j < mTransCnt s. idx ?r a j =
       (if j \<in> set (newWaits a ts ?xs) - set ?xs then 1 else idx ?s a j)"
    using Cons.IH [OF row] Cons.prems(2,3) n by simp_all
  have "set ?xs \<subseteq> set (newWaits a ts ?xs)" by (auto simp: set_newWaits)
  moreover have "set xs \<subseteq> set ?xs" by auto
  ultimately have "\<forall>j < mTransCnt s. idx ?r a j =
       (if j \<in> set (newWaits a ts ?xs) - set xs then 1 else idx s a j)"
    using IH(3) ix unfolding s1_def [symmetric] x1_def [symmetric] by (metis Diff_iff subsetD)
  with IH(1,2) only show ?case
    by (auto intro: onlyRow_trans)
qed simp

lemma registByReq_ByGrant:
  assumes "rowOk s a xs" "set ts \<subseteq> {..<mTransCnt s}" "mTransCnt s \<le> SML_END_ITEM"
    "distinct ts" "set ts \<inter> set xs \<subseteq> {a}"
  shows "registTblLockWaitListByReq a ts s = Some (registTblLockWaitListByGrant a ts s)"
  using assms
proof (induction ts arbitrary: s xs)
  case (Cons t ts)
  show ?case
  proof (cases "t = a")
    case False
    with Cons.prems have t: "t \<notin> set xs" by auto
    then have un: "nxt s a t = ID_USHORT_MAX"
      using Cons.prems by (auto simp: rowOk_def)
    have "rowOk (linkWait a t s) a (t # xs)" using Cons.prems t by (intro rowOk_link) auto
    moreover have "mTransCnt (linkWait a t s) = mTransCnt s"
      by (rule onlyRow_TransCnt [OF linkWait_onlyRow])
    ultimately show ?thesis
      using Cons.IH [of "linkWait a t s" "t # xs"] Cons.prems False un by auto
  qed (use Cons in auto)
qed simp

subsection \<open>The record lock queue\<close>

text \<open>A transaction that starts to wait for a record lock of slot \<open>w\<close> is queued last, unless
  it is still queued from an earlier wait.\<close>

definition enqueueOnce :: "slot_id \<Rightarrow> slot_id list \<Rightarrow> slot_id list" where
  "enqueueOnce a q = (if a \<in> set q then q else q @ [a])"

lemma regist_queue_empty:
  assumes "rowOk s a []" "colOk s w []" "a < mTransCnt s" "w < mTransCnt s"
    "mTransCnt s \<le> SML_END_ITEM"
  shows "\<exists>s'. registRecordLockWait a w s = Some s' \<and> colOk s' w [a]"
proof -
  have "idx s a w = 0" "mFstWaitTblTransItem s a = SML_END_ITEM" "nxtRec s a w = ID_USHORT_MAX"
    "mFstWaitRecTransItem s w = SML_END_ITEM" "mLstWaitRecTransItem s w = SML_END_ITEM"
    using assms by (auto simp: rowOk_def colOk_def)
  then show ?thesis
    using assms by (simp add: registRecordLockWait_def Let_def colOk_def)
qed

lemma regist_queue_again:
  assumes "rowOk s a []" "colOk s w q" "a \<in> set q" "w < mTransCnt s"
    "mTransCnt s \<le> SML_END_ITEM"
  shows "\<exists>s'. registRecordLockWait a w s = Some s' \<and> colOk s' w q"
proof -
  have "a < mTransCnt s" using assms by (auto simp: colOk_def)
  then have eqs: "idx s a w = 0" "mFstWaitTblTransItem s a = SML_END_ITEM"
      "nxtRec s a w \<noteq> ID_USHORT_MAX"
    using assms colOk_linked [of s w q a] by (auto simp: rowOk_def)
  let ?s = "(updItem a w (mNxtWaitTransItem_update (\<lambda>_. SML_END_ITEM))
      (updItem a w (mIndex_update (\<lambda>_. 1)) s))
        \<lparr>mFstWaitTblTransItem := (mFstWaitTblTransItem s)(a := w)\<rparr>"
  have "registRecordLockWait a w s = Some ?s"
    using eqs by (simp add: registRecordLockWait_def Let_def)
  moreover have "colOk ?s w q"
    using assms(2) by (subst colOk_cong [where s = s]) auto
  ultimately show ?thesis by blast
qed

lemma regist_queue_last:
  assumes "rowOk s a []" "colOk s w q" "q \<noteq> []" "a \<notin> set q" "a < mTransCnt s" "w < mTransCnt s"
    "mTransCnt s \<le> SML_END_ITEM"
  shows "\<exists>s'. registRecordLockWait a w s = Some s' \<and> colOk s' w (q @ [a])"
proof -
  have eqs: "idx s a w = 0" "mFstWaitTblTransItem s a = SML_END_ITEM" "nxtRec s a w = ID_USHORT_MAX"
    "mFstWaitRecTransItem s w \<noteq> SML_END_ITEM" "mLstWaitRecTransItem s w = last q"
    using assms colOk_END [OF assms(2)] by (auto simp: rowOk_def colOk_def)
  have last: "last q \<in> set q" "last q < mTransCnt s" "last q \<noteq> a"
    using assms(2,3,4) subsetD [of "set q" "{..<mTransCnt s}" "last q"]
    by (auto simp: colOk_def)
  define nx where "nx = (\<lambda>i. if i = a then SML_END_ITEM else if i = last q then a else nxtRec s i w)"
  have "chain (\<lambda>i. nxtRec s i w) (mFstWaitRecTransItem s w) q" "distinct q"
    using assms(2) by (auto simp: colOk_def)
  then have "chain (nx(last q := SML_END_ITEM)) (mFstWaitRecTransItem s w) q"
    using chain_last [of "\<lambda>i. nxtRec s i w"] assms(3,4)
    by (subst chain_cong [where nx = "\<lambda>i. nxtRec s i w"]) (auto simp: nx_def)
  then have ch: "chain nx (mFstWaitRecTransItem s w) (q @ [a])"
    using \<open>distinct q\<close> assms(3,5,7) last(3) by (subst chain_append) (auto simp: nx_def)
  obtain s' where s': "registRecordLockWait a w s = Some s'" "mTransCnt s' = mTransCnt s"
      "\<And>i. nxtRec s' i w = nx i" "mFstWaitRecTransItem s' w = mFstWaitRecTransItem s w"
      "mLstWaitRecTransItem s' w = a"
    using eqs last assms(7) by (auto simp: registRecordLockWait_def Let_def nx_def)
  have "colOk s' w (q @ [a])"
    using ch assms s' last(1) by (auto simp: colOk_def nx_def)
  with s'(1) show ?thesis by blast
qed

text \<open>What a registration leaves alone: every other row, every other column's queue.\<close>

lemma regist_frame:
  assumes "registRecordLockWait a w s = Some s'" "rowOk s a []" "w < mTransCnt s"
    "mTransCnt s \<le> SML_END_ITEM"
  shows "mTransCnt s' = mTransCnt s" "rowOk s' a [w]"
    "i \<noteq> a \<Longrightarrow> rowOk s' i xs \<longleftrightarrow> rowOk s i xs"
    "v \<noteq> w \<Longrightarrow> colOk s' v q \<longleftrightarrow> colOk s v q"
    "idx s' i j = (if i = a \<and> j = w then 1 else idx s i j)"
proof -
  have eqs: "idx s a w = 0" "mFstWaitTblTransItem s a = SML_END_ITEM"
    using assms by (auto simp: rowOk_def)
  note def = registRecordLockWait_def Let_def
  show n: "mTransCnt s' = mTransCnt s"
    using assms(1) by (auto simp: def split: if_splits bind_splits)
  show ix: "idx s' i j = (if i = a \<and> j = w then 1 else idx s i j)" for i j
    using assms(1) by (auto simp: def split: if_splits bind_splits)
  have nx: "nxt s' i j = (if i = a \<and> j = w then SML_END_ITEM else nxt s i j)" for i j
    using assms(1) eqs by (auto simp: def split: if_splits bind_splits)
  have fst: "mFstWaitTblTransItem s' = (mFstWaitTblTransItem s)(a := w)"
    using assms(1) by (auto simp: def split: if_splits bind_splits)
  show "rowOk s' a [w]"
    using assms(2-4) by (auto simp: rowOk_def n ix nx fst)
  show "i \<noteq> a \<Longrightarrow> rowOk s' i xs \<longleftrightarrow> rowOk s i xs"
    by (rule rowOk_cong) (auto simp: n ix nx fst)
  show "v \<noteq> w \<Longrightarrow> colOk s' v q \<longleftrightarrow> colOk s v q"
    using assms(1) by (intro colOk_cong) (auto simp: def split: if_splits bind_splits)
qed

lemma registRecordLockWait_ok:
  assumes "rowOk s a []" "colOk s w q" "a < mTransCnt s" "w < mTransCnt s"
    "mTransCnt s \<le> SML_END_ITEM"
  shows "\<exists>s'. registRecordLockWait a w s = Some s' \<and> colOk s' w (enqueueOnce a q) \<and> rowOk s' a [w]"
proof -
  have "\<exists>s'. registRecordLockWait a w s = Some s' \<and> colOk s' w (enqueueOnce a q)"
    using regist_queue_empty [of s a w] regist_queue_again [of s a w q]
      regist_queue_last [of s a w q] assms
    by (cases "a \<in> set q"; cases "q = []") (auto simp: enqueueOnce_def)
  then show ?thesis using regist_frame(2) assms by blast
qed

text \<open>The wake-up loop: it visits the queue in order, resumes the transactions whose path
  length is still 1 and unlinks every entry it passes.\<close>

definition freeCol :: "slot_id \<Rightarrow> slot_id list \<Rightarrow> 'a waitState_scheme \<Rightarrow> 'a waitState_scheme" where
  "freeCol a q s = s\<lparr>mWaitForTable := (\<lambda>i j. if j = a \<and> i \<in> set q
      then (mWaitForTable s i j)\<lparr>mIndex := 0, mNxtWaitRecTransItem := ID_USHORT_MAX\<rparr>
      else mWaitForTable s i j)\<rparr>"

lemma freeAllRecordLock_loop_chain:
  assumes "chain (\<lambda>i. nxtRec s i a) i q" "distinct q" "length q \<le> fuel" "set q \<subseteq> {..<SML_END_ITEM}"
    "\<And>t. t \<in> set q \<Longrightarrow> idx s t a = 1 \<Longrightarrow> resumeTrans t = IDE_SUCCESS"
  shows "freeAllRecordLock_loop resumeTrans fuel a i woken s =
    Some (IDE_SUCCESS, woken @ filter (\<lambda>t. idx s t a = 1) q, freeCol a q s)"
  using assms
proof (induction q arbitrary: i s fuel woken)
  case Nil
  then show ?case by (simp add: freeAllRecordLock_loop.simps freeCol_def)
next
  case (Cons y ys)
  from Cons.prems obtain n where fuel: "fuel = Suc n" by (cases fuel) auto
  let ?w = "if idx s y a = 1 then woken @ [y] else woken"
  let ?s = "freeCol a [y] s"
  have upd: "updItem y a (mIndex_update (\<lambda>_. 0))
      (updItem y a (mNxtWaitRecTransItem_update (\<lambda>_. ID_USHORT_MAX)) s) = ?s"
    by (cases s) (auto simp: updItem_def freeCol_def fun_eq_iff)
  have step: "freeAllRecordLock_loop resumeTrans fuel a i woken s =
      freeAllRecordLock_loop resumeTrans n a (nxtRec s y a) ?w ?s"
    using Cons.prems upd by (auto simp: freeAllRecordLock_loop.simps [of _ "Suc n"] fuel Let_def)
  have "chain (\<lambda>i. nxtRec ?s i a) (nxtRec s y a) ys"
    using Cons.prems by (subst chain_cong [where nx = "\<lambda>i. nxtRec s i a"]) (auto simp: freeCol_def)
  moreover have same: "idx ?s t a = idx s t a" if "t \<in> set ys" for t
    using Cons.prems that by (auto simp: freeCol_def)
  ultimately have "freeAllRecordLock_loop resumeTrans n a (nxtRec s y a) ?w ?s =
      Some (IDE_SUCCESS, ?w @ filter (\<lambda>t. idx ?s t a = 1) ys, freeCol a ys ?s)"
    using Cons.prems fuel by (intro Cons.IH) auto
  moreover have "freeCol a ys ?s = freeCol a (y # ys) s"
    by (auto simp: freeCol_def fun_eq_iff)
  moreover have "filter (\<lambda>t. idx ?s t a = 1) ys = filter (\<lambda>t. idx s t a = 1) ys"
    using same by (auto intro: filter_cong)
  ultimately show ?case using step by auto
qed

lemma freeAllRecordLock_ok:
  assumes "colOk s a q" "mTransCnt s \<le> SML_END_ITEM"
    "\<And>t. t \<in> set q \<Longrightarrow> idx s t a = 1 \<Longrightarrow> resumeTrans t = IDE_SUCCESS"
  shows "\<exists>s'. freeAllRecordLock resumeTrans a s =
        Some (IDE_SUCCESS, filter (\<lambda>t. idx s t a = 1) q, s') \<and>
      colOk s' a [] \<and> (\<forall>t \<in> set q. didLockReleased t a s') \<and>
      (\<forall>w q'. w \<noteq> a \<longrightarrow> colOk s w q' \<longrightarrow> colOk s' w q') \<and> mTransCnt s' = mTransCnt s"
proof -
  have "chain (\<lambda>i. nxtRec s i a) (mFstWaitRecTransItem s a) q" "distinct q"
    "length q \<le> mTransCnt s" "set q \<subseteq> {..<SML_END_ITEM}"
    using assms(1,2) colOk_length [OF assms(1)] by (auto simp: colOk_def)
  from freeAllRecordLock_loop_chain [where woken = "[]", OF this assms(3)]
  have loop: "freeAllRecordLock_loop resumeTrans (mTransCnt s) a (mFstWaitRecTransItem s a) [] s =
      Some (IDE_SUCCESS, filter (\<lambda>t. idx s t a = 1) q, freeCol a q s)"
    by simp
  let ?s = "(freeCol a q s)\<lparr>mFstWaitRecTransItem := (mFstWaitRecTransItem s)(a := SML_END_ITEM),
      mLstWaitRecTransItem := (mLstWaitRecTransItem s)(a := SML_END_ITEM)\<rparr>"
  have "freeAllRecordLock resumeTrans a s =
      Some (IDE_SUCCESS, filter (\<lambda>t. idx s t a = 1) q, ?s)"
    using loop by (simp add: freeAllRecordLock_def freeCol_def)
  moreover have "colOk ?s a []"
    using assms(1) by (auto simp: colOk_def freeCol_def)
  moreover have "colOk s w q' \<Longrightarrow> colOk ?s w q'" if "w \<noteq> a" for w q'
    using that by (subst colOk_cong [where s = s]) (auto simp: freeCol_def)
  moreover have "\<forall>t \<in> set q. didLockReleased t a ?s" "mTransCnt ?s = mTransCnt s"
    by (auto simp: didLockReleased_def freeCol_def)
  ultimately show ?thesis by blast
qed

subsection \<open>Properties\<close>

text \<open>Several transactions start to wait for a record lock of slot \<open>w\<close>, one after another.\<close>

fun registAll :: "slot_id \<Rightarrow> slot_id list \<Rightarrow> 'a waitState_scheme \<Rightarrow> 'a waitState_scheme option" where
  "registAll w [] s = Some s"
| "registAll w (t # ts) s = do { s1 \<leftarrow> registRecordLockWait t w s; registAll w ts s1 }"

lemma registAll_queue:
  assumes "colOk s w q" "w < mTransCnt s" "mTransCnt s \<le> SML_END_ITEM" "distinct ts"
    "set ts \<subseteq> {..<mTransCnt s}" "set ts \<inter> set q = {}" "\<forall>t \<in> set ts. rowOk s t []"
  shows "\<exists>s1. registAll w ts s = Some s1 \<and> colOk s1 w (q @ ts) \<and> mTransCnt s1 = mTransCnt s \<and>
    (\<forall>i j. idx s1 i j = (if i \<in> set ts \<and> j = w then 1 else idx s i j))"
  using assms
proof (induction ts arbitrary: s q)
  case (Cons t ts)
  obtain s' where reg: "registRecordLockWait t w s = Some s'" and col: "colOk s' w (enqueueOnce t q)"
    using registRecordLockWait_ok [of s t w q] Cons.prems by auto
  have t: "rowOk s t []" using Cons.prems by simp
  note fr = regist_frame [OF reg t Cons.prems(2,3)]
  have "colOk s' w (q @ [t])" using col Cons.prems(6) by (simp add: enqueueOnce_def)
  moreover have "rowOk s' i []" if "i \<in> set ts" for i
    using that Cons.prems(4,7) fr(3) [of i] by auto
  ultimately obtain s1 where s1: "registAll w ts s' = Some s1" "colOk s1 w ((q @ [t]) @ ts)"
      "mTransCnt s1 = mTransCnt s'"
      "\<forall>i j. idx s1 i j = (if i \<in> set ts \<and> j = w then 1 else idx s' i j)"
    using Cons.IH [of s' "q @ [t]"] Cons.prems fr(1) by auto
  have "idx s1 i j = (if i \<in> set (t # ts) \<and> j = w then 1 else idx s i j)" for i j
    using s1(4) fr(5) by simp
  with reg s1(1-3) fr(1) show ?case by auto
qed simp



end
