(* ===== verification/LockState.thy ===== *)
theory LockState
  imports LockModes WaitTable
begin

text \<open>
  The state of the table lock manager, \<open>src/src/sm/sml/smlLockMgr.cpp\<close>, and its elementary
  operations.  A lock item (a table or tablespace) has a grant list and a request list of lock
  nodes; a transaction slot has a list of the lock nodes it holds and a list of its lock slots,
  one per mode it asked for on a node, numbered by a growing lock sequence.

  Lock nodes and items are addressed by numbers.  The doubly linked lists are lists of
  addresses here.
  A linked node is one that occurs in the list of its transaction.  Memory comes from a pool
  that can hand out \<open>mLockPoolLeft\<close> more nodes; the address of an allocated node is fresh.
\<close>

text \<open>The status of a transaction, \<open>smxStatus\<close>; the lock manager only tells blocked ones from others.\<close>

datatype smxStatus =
    SMX_TX_BEGIN | SMX_TX_PRECOMMIT | SMX_TX_COMMIT_IN_MEMORY | SMX_TX_COMMIT | SMX_TX_ABORT
  | SMX_TX_BLOCKED | SMX_TX_END | SMX_TX_PREPARED

datatype smiLockItemType = SMI_LOCK_ITEM_NONE | SMI_LOCK_ITEM_TABLESPACE | SMI_LOCK_ITEM_TABLE

record smlLockItem =
  mLockItemType :: smiLockItemType
  mSpaceID :: u16
  mItemID :: u64
  mGrantLockMode :: smlLockMode
  mGrantCnt :: int
  mRequestCnt :: int
  mItemFlag :: u32
  mArrLockCount :: "smlLockMode \<Rightarrow> int"
  mLockGrant :: "node_id list"
  mLockRequest :: "node_id list"

record smlLockNode =
  mNodeItemType :: smiLockItemType
  mNodeSpaceID :: u16
  mNodeItemID :: u64
  mSlotID :: slot_id
  mLockMode :: smlLockMode
  mCvsLockNode :: "node_id option"
  mLockCnt :: nat
  mBeGrant :: bool
  mLockItem :: item_id
  mNodeFlag :: u32
  mIsExplicitLock :: bool
  mDoRemove :: bool
  mLockSequence :: "smlLockMode \<Rightarrow> u64"

text \<open>A lock slot is named by its node and the mode, its index in \<open>mArrLockSlotList\<close>.\<close>

type_synonym lock_slot = "node_id \<times> smlLockMode"

record lockState = waitState +
  mLockNodes :: "node_id \<Rightarrow> smlLockNode"
  mLockItems :: "item_id \<Rightarrow> smlLockItem"
  mTransLockNodes :: "slot_id \<Rightarrow> node_id list"
  mTransLockSlots :: "slot_id \<Rightarrow> lock_slot list"
  mLockPoolLeft :: nat
  mNextLockNode :: node_id
  mStatus :: "slot_id \<Rightarrow> smxStatus"

abbreviation node :: "lockState \<Rightarrow> node_id \<Rightarrow> smlLockNode" where
  "node s n \<equiv> mLockNodes s n"

abbreviation item :: "lockState \<Rightarrow> item_id \<Rightarrow> smlLockItem" where
  "item s i \<equiv> mLockItems s i"

text \<open>Assignments through a node or item pointer, and to a transaction's lists.\<close>

definition updNode :: "node_id \<Rightarrow> (smlLockNode \<Rightarrow> smlLockNode) \<Rightarrow> lockState \<Rightarrow> lockState" where
  "updNode n f s = s\<lparr>mLockNodes := (mLockNodes s)(n := f (mLockNodes s n))\<rparr>"

definition updLockItem :: "item_id \<Rightarrow> (smlLockItem \<Rightarrow> smlLockItem) \<Rightarrow> lockState \<Rightarrow> lockState" where
  "updLockItem i f s = s\<lparr>mLockItems := (mLockItems s)(i := f (mLockItems s i))\<rparr>"

definition setTransNodes :: "slot_id \<Rightarrow> node_id list \<Rightarrow> lockState \<Rightarrow> lockState" where
  "setTransNodes t ns s = s\<lparr>mTransLockNodes := (mTransLockNodes s)(t := ns)\<rparr>"

definition setTransSlots :: "slot_id \<Rightarrow> lock_slot list \<Rightarrow> lockState \<Rightarrow> lockState" where
  "setTransSlots t ls s = s\<lparr>mTransLockSlots := (mTransLockSlots s)(t := ls)\<rparr>"

subsection \<open>Lock nodes\<close>

definition initLockNode :: "smlLockNode \<Rightarrow> smlLockNode" where
  "initLockNode nd =
     nd\<lparr>mLockMode := SML_NLOCK, mCvsLockNode := None, mDoRemove := False,
        mLockSequence := (\<lambda>m. 0)\<rparr>"

text \<open>A fresh node, or none when the pool is exhausted (\<open>IDE_FAILURE\<close>).\<close>

definition allocLockNodeNormal :: "lockState \<Rightarrow> (node_id \<times> lockState) option" where
  "allocLockNodeNormal s =
     (if mLockPoolLeft s = 0 then None
      else Some (mNextLockNode s,
        s\<lparr>mLockPoolLeft := mLockPoolLeft s - 1, mNextLockNode := mNextLockNode s + 1\<rparr>))"

definition freeLockNodeNormal :: "node_id \<Rightarrow> lockState \<Rightarrow> lockState" where
  "freeLockNodeNormal aLockNode s = s\<lparr>mLockPoolLeft := mLockPoolLeft s + 1\<rparr>"

text \<open>A list node whose neighbours are both null.\<close>

definition noNeighbours :: "node_id \<Rightarrow> node_id list \<Rightarrow> bool" where
  "noNeighbours n xs \<longleftrightarrow> n \<notin> set xs \<or> xs = [n]"

text \<open>\<open>freeLockNode\<close> asserts that the node is linked nowhere.\<close>

definition freeLockNode :: "node_id \<Rightarrow> lockState \<Rightarrow> lockState option" where
  "freeLockNode aLockNode s = do {
     let i = mLockItem (node s aLockNode);
     ide_assert (noNeighbours aLockNode (mLockGrant (item s i)) \<and>
                 noNeighbours aLockNode (mLockRequest (item s i)));
     ide_assert (aLockNode \<notin> set (mTransLockNodes s (mSlotID (node s aLockNode))));
     Some (freeLockNodeNormal aLockNode s)
   }"

definition allocLockNodeAndInit ::
  "slot_id \<Rightarrow> smlLockMode \<Rightarrow> item_id \<Rightarrow> bool \<Rightarrow> lockState \<Rightarrow> (node_id \<times> lockState) option" where
  "allocLockNodeAndInit aSlot aLockMode aLockItem aIsExplicitLock s =
     (case allocLockNodeNormal s of None \<Rightarrow> None
      | Some (sLockNode, s1) \<Rightarrow>
          Some (sLockNode, updNode sLockNode (\<lambda>nd. (initLockNode nd)
            \<lparr>mNodeItemType := mLockItemType (item s aLockItem),
             mNodeSpaceID := mSpaceID (item s aLockItem),
             mNodeItemID := mItemID (item s aLockItem),
             mSlotID := aSlot, mLockCnt := 0, mLockItem := aLockItem,
             mLockMode := aLockMode, mNodeFlag := mLockModeToMask aLockMode,
             mIsExplicitLock := aIsExplicitLock\<rparr>) s1))"

subsection \<open>The lock node list of a transaction\<close>

definition addLockNode :: "node_id \<Rightarrow> slot_id \<Rightarrow> lockState \<Rightarrow> lockState option" where
  "addLockNode aLockNode aSlot s = do {
     ide_assert (aLockNode \<notin> set (mTransLockNodes s aSlot));
     ide_assert (\<not> mDoRemove (node s aLockNode));
     ide_assert (mBeGrant (node s aLockNode));
     Some (setTransNodes aSlot (mTransLockNodes s aSlot @ [aLockNode]) s)
   }"

definition removeTransLockNode :: "node_id \<Rightarrow> lockState \<Rightarrow> lockState option" where
  "removeTransLockNode aLockNode s = do {
     ide_assert (\<not> mDoRemove (node s aLockNode));
     ide_assert (mBeGrant (node s aLockNode));
     let t = mSlotID (node s aLockNode);
     ide_assert (aLockNode \<in> set (mTransLockNodes s t));
     Some (setTransNodes t (remove1 aLockNode (mTransLockNodes s t)) s)
   }"

definition isLockNodeExist :: "node_id \<Rightarrow> lockState \<Rightarrow> bool" where
  "isLockNodeExist aLockNode s =
     (aLockNode \<in> set (rev (mTransLockNodes s (mSlotID (node s aLockNode)))))"

text \<open>The search of \<open>findLockNode\<close> from the end of the list.\<close>

fun findLockNode_loop :: "item_id \<Rightarrow> node_id list \<Rightarrow> lockState \<Rightarrow> node_id option option" where
  "findLockNode_loop aLockItem [] s = Some None"
| "findLockNode_loop aLockItem (n # rest) s = do {
     ide_assert (\<not> mDoRemove (node s n));
     ide_assert (mBeGrant (node s n));
     if mLockItem (node s n) = aLockItem then Some (Some n)
     else findLockNode_loop aLockItem rest s
   }"

definition findLockNode :: "item_id \<Rightarrow> slot_id \<Rightarrow> lockState \<Rightarrow> node_id option option" where
  "findLockNode aLockItem aSlot s = findLockNode_loop aLockItem (rev (mTransLockNodes s aSlot)) s"

subsection \<open>The lock slot list of a transaction\<close>

abbreviation slotSequence :: "lockState \<Rightarrow> lock_slot \<Rightarrow> u64" where
  "slotSequence s sl \<equiv> mLockSequence (node s (fst sl)) (snd sl)"

text \<open>\<open>getLastLockSequence\<close>: the sequence of the last lock slot, 0 (the header's) if none.\<close>

definition getLastLockSequence :: "slot_id \<Rightarrow> lockState \<Rightarrow> u64" where
  "getLastLockSequence aSlot s =
     (if mTransLockSlots s aSlot = [] then 0 else slotSequence s (last (mTransLockSlots s aSlot)))"

definition addLockSlot :: "lock_slot \<Rightarrow> slot_id \<Rightarrow> lockState \<Rightarrow> lockState option" where
  "addLockSlot aLockSlot aSlot s = do {
     let lastSeq = getLastLockSequence aSlot s;
     ide_assert (lastSeq \<noteq> 0xFFFFFFFFFFFFFFFF);
     ide_assert (slotSequence s aLockSlot = 0);
     let s1 = updNode (fst aLockSlot) (\<lambda>nd. nd\<lparr>mLockSequence :=
                (mLockSequence nd)(snd aLockSlot := lastSeq + 1)\<rparr>) s;
     Some (setTransSlots aSlot (mTransLockSlots s1 aSlot @ [aLockSlot]) s1)
   }"

text \<open>Unlinking a slot that is not linked would write through a null pointer.\<close>

definition removeLockSlot :: "lock_slot \<Rightarrow> lockState \<Rightarrow> lockState option" where
  "removeLockSlot aLockSlot s = do {
     let t = mSlotID (node s (fst aLockSlot));
     ide_assert (aLockSlot \<in> set (mTransLockSlots s t));
     let s1 = updNode (fst aLockSlot) (\<lambda>nd. nd\<lparr>mLockSequence :=
                (mLockSequence nd)(snd aLockSlot := 0)\<rparr>) s;
     Some (setTransSlots t (remove1 aLockSlot (mTransLockSlots s1 t)) s1)
   }"

text \<open>\<open>setLockModeAndAddLockSlot\<close>; the first result is \<open>*aCurLockMode\<close> and the second
  \<open>*aLockSlot\<close>, when they are set.\<close>

definition setLockModeAndAddLockSlot ::
  "slot_id \<Rightarrow> node_id option \<Rightarrow> smlLockMode \<Rightarrow> bool \<Rightarrow> lockState \<Rightarrow>
   (smlLockMode option \<times> lock_slot option \<times> lockState) option" where
  "setLockModeAndAddLockSlot aSlot aTxLockNode aLockMode aIsLocked s =
     (case aTxLockNode of
        None \<Rightarrow> Some (None, None, s)
      | Some n \<Rightarrow>
          let cur = Some (mLockMode (node s n)) in
          if aIsLocked then do {
            let s1 = updNode n (\<lambda>nd. nd\<lparr>mNodeFlag := mNodeFlag nd OR mLockModeToMask aLockMode\<rparr>) s;
            s2 \<leftarrow> addLockSlot (n, aLockMode) aSlot s1;
            Some (cur, Some (n, aLockMode), s2)
          } else Some (cur, None, s))"

subsection \<open>Lock items\<close>

definition decTblLockModeAndTryUpdate :: "smlLockMode \<Rightarrow> smlLockItem \<Rightarrow> smlLockItem option" where
  "decTblLockModeAndTryUpdate aLockMode it = do {
     let it1 = it\<lparr>mArrLockCount := (mArrLockCount it)(aLockMode := mArrLockCount it aLockMode - 1)\<rparr>;
     ide_assert (mArrLockCount it1 aLockMode \<ge> 0);
     Some (if mArrLockCount it1 aLockMode = 0
           then it1\<lparr>mItemFlag := mItemFlag it1 AND NOT (mLockModeToMask aLockMode)\<rparr> else it1)
   }"

definition incTblLockModeAndUpdate :: "smlLockMode \<Rightarrow> smlLockItem \<Rightarrow> smlLockItem option" where
  "incTblLockModeAndUpdate aLockMode it = do {
     let it1 = it\<lparr>mArrLockCount := (mArrLockCount it)(aLockMode := mArrLockCount it aLockMode + 1)\<rparr>;
     ide_assert (mArrLockCount it1 aLockMode \<ge> 0);
     Some (it1\<lparr>mItemFlag := mItemFlag it1 OR mLockModeToMask aLockMode\<rparr>)
   }"

definition clearLockItem :: "smlLockItem \<Rightarrow> smlLockItem" where
  "clearLockItem it =
     it\<lparr>mGrantLockMode := SML_NLOCK, mLockGrant := [], mLockRequest := [],
        mGrantCnt := 0, mRequestCnt := 0, mItemFlag := SML_FLAG_LIGHT_MODE,
        mArrLockCount := (\<lambda>m. 0)\<rparr>"

definition initLockItem :: "u16 \<Rightarrow> u64 \<Rightarrow> smiLockItemType \<Rightarrow> smlLockItem \<Rightarrow> smlLockItem" where
  "initLockItem aSpaceID aItemID aLockItemType it =
     clearLockItem (it\<lparr>mLockItemType := aLockItemType, mSpaceID := aSpaceID, mItemID := aItemID\<rparr>)"

text \<open>An operation that may assert, on one item of the state.\<close>

definition onItem ::
  "item_id \<Rightarrow> (smlLockItem \<Rightarrow> smlLockItem option) \<Rightarrow> lockState \<Rightarrow> lockState option" where
  "onItem i f s = do { it \<leftarrow> f (item s i); Some (updLockItem i (\<lambda>_. it) s) }"

definition addLockNodeToGrantTail :: "item_id \<Rightarrow> node_id \<Rightarrow> lockState \<Rightarrow> lockState" where
  "addLockNodeToGrantTail i n = updLockItem i (\<lambda>it. it\<lparr>mLockGrant := mLockGrant it @ [n]\<rparr>)"

text \<open>\<open>initTransLockList\<close> and \<open>initialize\<close>.\<close>

definition initTransLockList :: "slot_id \<Rightarrow> lockState \<Rightarrow> lockState" where
  "initTransLockList aSlot s =
     s\<lparr>mFstWaitTblTransItem := (mFstWaitTblTransItem s)(aSlot := SML_END_ITEM),
       mFstWaitRecTransItem := (mFstWaitRecTransItem s)(aSlot := SML_END_ITEM),
       mLstWaitRecTransItem := (mLstWaitRecTransItem s)(aSlot := SML_END_ITEM),
       mTransLockSlots := (mTransLockSlots s)(aSlot := []),
       mTransLockNodes := (mTransLockNodes s)(aSlot := [])\<rparr>"

end
