(* ===== verification/UnlockTable.thy ===== *)
theory UnlockTable
  imports LockState
begin

text \<open>
  Releasing table locks in \<open>src/src/sm/sml/smlLockMgr.cpp\<close>: \<open>unlockTable\<close>,
  \<open>unlockTableInternal\<close>, \<open>toLightMode\<close>, \<open>wakeupRequestLockNodeInLockItem\<close>, and the release of
  many locks at once (\<open>freeAllItemLock\<close>, \<open>freeAllItemLockExceptIS\<close>, \<open>partialItemUnlock\<close>).

  \<open>unlockTable\<close> first tries to release under the mutex of the transaction's own node list
  (light mode) and otherwise calls \<open>unlockTableInternal\<close> under the item's mutex.  Another
  transaction can run between the two, so they are separate steps of the model.
\<close>

text \<open>\<open>smxTrans::resume\<close>, which \<open>smLayerCallback::resumeTrans\<close> calls: a blocked transaction goes
  on; resuming another one trips a debug assertion.  Signalling the condition variable is
  taken to succeed.\<close>

definition setStatus :: "slot_id \<Rightarrow> smxStatus \<Rightarrow> lockState \<Rightarrow> lockState" where
  "setStatus t st s = s\<lparr>mStatus := (mStatus s)(t := st)\<rparr>"

definition resumeTrans :: "slot_id \<Rightarrow> lockState \<Rightarrow> lockState option" where
  "resumeTrans t s = do {
     ide_assert (mStatus s t = SMX_TX_BLOCKED);
     Some (setStatus t SMX_TX_BEGIN s)
   }"

abbreviation slotsOf :: "lockState \<Rightarrow> node_id list \<Rightarrow> slot_id list" where
  "slotsOf s ns \<equiv> map (\<lambda>n. mSlotID (node s n)) ns"

subsection \<open>\<open>toLightMode\<close>\<close>

fun toLight_grants :: "item_id \<Rightarrow> node_id list \<Rightarrow> lockState \<Rightarrow> lockState option" where
  "toLight_grants i [] s = Some s"
| "toLight_grants i (n # rest) s = do {
     ide_assert (mLockMode (node s n) \<noteq> SML_XLOCK \<and> mLockMode (node s n) \<noteq> SML_SLOCK \<and>
                 mLockMode (node s n) \<noteq> SML_SIXLOCK);
     let s1 = updLockItem i (\<lambda>it. it\<lparr>mLockGrant := remove1 n (mLockGrant it)\<rparr>) s;
     let s2 = updLockItem i (\<lambda>it. it\<lparr>mGrantCnt := mGrantCnt it - 1\<rparr>) s1;
     let s3 = clearWaitTableRows (slotsOf s2 (mLockRequest (item s2 i))) (mSlotID (node s2 n)) s2;
     toLight_grants i rest s3
   }"

fun toLight_requests :: "item_id \<Rightarrow> node_id list \<Rightarrow> lockState \<Rightarrow> lockState option" where
  "toLight_requests i [] s = Some s"
| "toLight_requests i (n # rest) s = do {
     ide_assert (mLockMode (node s n) \<noteq> SML_XLOCK \<and> mLockMode (node s n) \<noteq> SML_SLOCK \<and>
                 mLockMode (node s n) \<noteq> SML_SIXLOCK);
     let s1 = updLockItem i (\<lambda>it. it\<lparr>mLockRequest := remove1 n (mLockRequest it)\<rparr>) s;
     s2 \<leftarrow> (case mCvsLockNode (node s1 n) of
              Some c \<Rightarrow>
                Some (updNode n (\<lambda>nd. nd\<lparr>mDoRemove := True\<rparr>)
                  (updNode c (\<lambda>nd. nd\<lparr>mLockMode :=
                     getConversionLockMode (mLockMode nd) (mLockMode (node s1 n))\<rparr>) s1))
            | None \<Rightarrow> do {
                let sA = updNode n (\<lambda>nd. nd\<lparr>mBeGrant := True\<rparr>) s1;
                addLockNode n (mSlotID (node sA n)) sA
              });
     s3 \<leftarrow> clearWaitItemColsOfTrans False (mSlotID (node s2 n)) s2;
     s4 \<leftarrow> resumeTrans (mSlotID (node s3 n)) s3;
     toLight_requests i rest s4
   }"

definition toLightMode :: "item_id \<Rightarrow> lockState \<Rightarrow> lockState option" where
  "toLightMode i s = do {
     s1 \<leftarrow> (if mGrantCnt (item s i) > 0 then toLight_grants i (mLockGrant (item s i)) s else Some s);
     ide_assert (mGrantCnt (item s1 i) = 0);
     s2 \<leftarrow> toLight_requests i (mLockRequest (item s1 i)) s1;
     Some (updLockItem i clearLockItem s2)
   }"

subsection \<open>\<open>wakeupRequestLockNodeInLockItem\<close>\<close>

text \<open>The head request \<open>n\<close> is compatible with the granted mode.\<close>

definition wakeup_grant :: "item_id \<Rightarrow> node_id \<Rightarrow> lockState \<Rightarrow> lockState option" where
  "wakeup_grant i n s = do {
     let s1 = updLockItem i (\<lambda>it. it\<lparr>mLockRequest := remove1 n (mLockRequest it)\<rparr>) s;
     let s2 = updLockItem i (\<lambda>it. it\<lparr>mGrantLockMode :=
                getConversionLockMode (mGrantLockMode it) (mLockMode (node s1 n))\<rparr>) s1;
     case mCvsLockNode (node s2 n) of
       Some c \<Rightarrow> do {
         s3 \<leftarrow> onItem i (decTblLockModeAndTryUpdate (mLockMode (node s2 c))) s2;
         let s4 = updNode c (\<lambda>nd. nd\<lparr>mLockMode :=
                    getConversionLockMode (mLockMode nd) (mLockMode (node s3 n))\<rparr>) s3;
         s5 \<leftarrow> onItem i (incTblLockModeAndUpdate (mLockMode (node s4 c))) s4;
         Some (updNode n (\<lambda>nd. nd\<lparr>mDoRemove := True\<rparr>) s5)
       }
     | None \<Rightarrow> do {
         s3 \<leftarrow> onItem i (incTblLockModeAndUpdate (mLockMode (node s2 n))) s2;
         let s4 = addLockNodeToGrantTail i n s3;
         let s5 = updNode n (\<lambda>nd. nd\<lparr>mBeGrant := True\<rparr>) s4;
         let s6 = updLockItem i (\<lambda>it. it\<lparr>mGrantCnt := mGrantCnt it + 1\<rparr>) s5;
         addLockNode n (mSlotID (node s6 n)) s6
       }
   }"

text \<open>The head request \<open>n\<close> converts \<open>c\<close>, the only granted node.\<close>

definition wakeup_convert :: "item_id \<Rightarrow> node_id \<Rightarrow> node_id \<Rightarrow> lockState \<Rightarrow> lockState option" where
  "wakeup_convert i n c s = do {
     s1 \<leftarrow> onItem i (decTblLockModeAndTryUpdate (mLockMode (node s c))) s;
     let s2 = updLockItem i (\<lambda>it. it\<lparr>mGrantLockMode :=
                getConversionLockMode (mGrantLockMode it) (mLockMode (node s1 n))\<rparr>) s1;
     let s3 = updNode c (\<lambda>nd. nd\<lparr>mLockMode := mGrantLockMode (item s2 i)\<rparr>) s2;
     s4 \<leftarrow> onItem i (incTblLockModeAndUpdate (mGrantLockMode (item s3 i))) s3;
     let s5 = updLockItem i (\<lambda>it. it\<lparr>mLockRequest := remove1 n (mLockRequest it)\<rparr>) s4;
     Some (updNode n (\<lambda>nd. nd\<lparr>mDoRemove := True\<rparr>) s5)
   }"

text \<open>What both branches end with.\<close>

definition wakeup_finish :: "item_id \<Rightarrow> node_id \<Rightarrow> lockState \<Rightarrow> lockState option" where
  "wakeup_finish i n s = do {
     let s1 = updLockItem i (\<lambda>it. it\<lparr>mRequestCnt := mRequestCnt it - 1\<rparr>) s;
     s2 \<leftarrow> clearWaitItemColsOfTrans False (mSlotID (node s1 n)) s1;
     resumeTrans (mSlotID (node s2 n)) s2
   }"

fun wakeup_loop :: "item_id \<Rightarrow> node_id list \<Rightarrow> lockState \<Rightarrow> lockState option" where
  "wakeup_loop i [] s = Some s"
| "wakeup_loop i (n # rest) s =
     (if compatible (mLockMode (node s n)) (mGrantLockMode (item s i)) then do {
        s1 \<leftarrow> wakeup_grant i n s;
        s2 \<leftarrow> wakeup_finish i n s1;
        wakeup_loop i rest s2
      }
      else if mGrantCnt (item s i) = 1 then
        (case mCvsLockNode (node s n) of
           Some c \<Rightarrow> do {
             s1 \<leftarrow> wakeup_convert i n c s;
             s2 \<leftarrow> wakeup_finish i n s1;
             wakeup_loop i rest s2
           }
         | None \<Rightarrow> Some s)
      else Some s)"

definition wakeupRequestLockNodeInLockItem :: "item_id \<Rightarrow> lockState \<Rightarrow> lockState option" where
  "wakeupRequestLockNodeInLockItem i s = wakeup_loop i (mLockRequest (item s i)) s"

subsection \<open>\<open>unlockTable\<close> and \<open>unlockTableInternal\<close>\<close>

text \<open>The assertions on a node of an item in light mode.\<close>

definition lightNodeAsserts :: "item_id \<Rightarrow> node_id \<Rightarrow> lockState \<Rightarrow> unit option" where
  "lightNodeAsserts i n s = do {
     ide_assert (noNeighbours n (mLockGrant (item s i)) \<and> noNeighbours n (mLockRequest (item s i)));
     ide_assert (mLockMode (node s n) \<noteq> SML_XLOCK);
     ide_assert (mLockMode (node s n) \<noteq> SML_SLOCK);
     ide_assert (mLockMode (node s n) \<noteq> SML_SIXLOCK);
     ide_assert (mBeGrant (node s n))
   }"

text \<open>\<open>aLockNode->mFlag &= ~(aLockSlot->mMask)\<close>.\<close>

definition clearNodeFlag :: "lock_slot \<Rightarrow> lockState \<Rightarrow> lockState" where
  "clearNodeFlag sl =
     updNode (fst sl) (\<lambda>nd. nd\<lparr>mNodeFlag := mNodeFlag nd AND NOT (mLockModeToMask (snd sl))\<rparr>)"

text \<open>\<open>aLockNode->mLockMode = getDecision( aLockNode->mFlag )\<close>.\<close>

definition decideNodeMode :: "node_id \<Rightarrow> lockState \<Rightarrow> lockState option" where
  "decideNodeMode n s = do {
     m \<leftarrow> getDecision (mNodeFlag (node s n));
     Some (updNode n (\<lambda>nd. nd\<lparr>mLockMode := m\<rparr>) s)
   }"

text \<open>Releasing one slot, or all of a node, in light mode: the result says whether the node
  is to be freed.\<close>

definition unlock_light :: "node_id \<Rightarrow> lock_slot option \<Rightarrow> lockState \<Rightarrow> (bool \<times> lockState) option" where
  "unlock_light n aLockSlot s =
     (case aLockSlot of
        Some sl \<Rightarrow> do {
          s1 \<leftarrow> removeLockSlot sl (clearNodeFlag sl s);
          if mNodeFlag (node s1 n) \<noteq> 0
          then do { s2 \<leftarrow> decideNodeMode n s1; Some (False, s2) }
          else Some (True, s1)
        }
      | None \<Rightarrow> Some (True, s))"

definition removeIfLinked :: "node_id \<Rightarrow> lockState \<Rightarrow> lockState option" where
  "removeIfLinked n s =
     (if n \<in> set (mTransLockNodes s (mSlotID (node s n))) then removeTransLockNode n s else Some s)"

datatype unlockNext = UnlockDone | UnlockInternal node_id

definition unlockTable ::
  "slot_id \<Rightarrow> node_id option \<Rightarrow> lock_slot option \<Rightarrow> lockState \<Rightarrow> (unlockNext \<times> lockState) option" where
  "unlockTable aSlot aLockNode aLockSlot s = do {
     n \<leftarrow> (case aLockNode of Some n \<Rightarrow> Some n
           | None \<Rightarrow> (case aLockSlot of Some sl \<Rightarrow> Some (fst sl) | None \<Rightarrow> None));
     let i = mLockItem (node s n);
     if \<not> mDoRemove (node s n) \<and> mItemFlag (item s i) = SML_FLAG_LIGHT_MODE then do {
       lightNodeAsserts i n s;
       (doFree, s1) \<leftarrow> unlock_light n aLockSlot s;
       if \<not> doFree then Some (UnlockDone, s1)
       else do {
         s2 \<leftarrow> removeIfLinked n s1;
         s3 \<leftarrow> freeLockNode n s2;
         Some (UnlockDone, s3)
       }
     } else Some (UnlockInternal n, s)
   }"

text \<open>The branch of \<open>unlockTableInternal\<close> for a granted node.\<close>

definition unlock_granted ::
  "item_id \<Rightarrow> node_id \<Rightarrow> lock_slot option \<Rightarrow> lockState \<Rightarrow> (bool \<times> lockState) option" where
  "unlock_granted i n aLockSlot s = do {
     s1 \<leftarrow> onItem i (decTblLockModeAndTryUpdate (mLockMode (node s n))) s;
     let s2 = (case aLockSlot of Some sl \<Rightarrow> clearNodeFlag sl s1 | None \<Rightarrow> s1);
     (doFree, s3) \<leftarrow>
       (if aLockSlot \<noteq> None \<and> mNodeFlag (node s2 n) \<noteq> 0 then do {
          sA \<leftarrow> decideNodeMode n s2;
          sB \<leftarrow> onItem i (incTblLockModeAndUpdate (mLockMode (node sA n))) sA;
          Some (False, sB)
        } else Some (True, updLockItem i
            (\<lambda>it. it\<lparr>mLockGrant := remove1 n (mLockGrant it), mGrantCnt := mGrantCnt it - 1\<rparr>) s2));
     m \<leftarrow> getDecision (mItemFlag (item s3 i));
     Some (doFree, updLockItem i (\<lambda>it. it\<lparr>mGrantLockMode := m\<rparr>) s3)
   }"

definition unlock_requested :: "item_id \<Rightarrow> node_id \<Rightarrow> lockState \<Rightarrow> lockState" where
  "unlock_requested i n = updLockItem i
     (\<lambda>it. it\<lparr>mLockRequest := remove1 n (mLockRequest it), mRequestCnt := mRequestCnt it - 1\<rparr>)"

text \<open>\<open>sUnlinkAll\<close>: only intention locks are granted, and only intention locks requested.\<close>

definition unlinkAll :: "item_id \<Rightarrow> lockState \<Rightarrow> bool" where
  "unlinkAll i s =
     (if mGrantLockMode (item s i) = SML_ISLOCK \<or> mGrantLockMode (item s i) = SML_IXLOCK \<or>
         mGrantLockMode (item s i) = SML_NLOCK
      then \<not> (\<exists>n \<in> set (mLockRequest (item s i)). mLockMode (node s n) = SML_XLOCK \<or>
               mLockMode (node s n) = SML_SLOCK \<or> mLockMode (node s n) = SML_SIXLOCK)
      else False)"

text \<open>The end of \<open>unlockTableInternal\<close>, label \<open>unlock_COMPLETE\<close>.\<close>

definition unlock_complete :: "node_id \<Rightarrow> bool \<Rightarrow> lockState \<Rightarrow> lockState option" where
  "unlock_complete n doFree s =
     (if doFree then do { s1 \<leftarrow> removeIfLinked n s; freeLockNode n s1 } else Some s)"

definition unlockTableInternal ::
  "slot_id \<Rightarrow> item_id \<Rightarrow> node_id \<Rightarrow> lock_slot option \<Rightarrow> bool \<Rightarrow> lockState \<Rightarrow> lockState option" where
  "unlockTableInternal aSlot i n aLockSlot aDoMutexLock s =
     (if mDoRemove (node s n) then do {
        ide_assert (\<not> aDoMutexLock);
        ide_assert (mCvsLockNode (node s n) \<noteq> None);
        ide_assert (noNeighbours n (mLockGrant (item s i)) \<and> noNeighbours n (mLockRequest (item s i)));
        unlock_complete n True s
      }
      else if mItemFlag (item s i) = SML_FLAG_LIGHT_MODE then do {
        ide_assert aDoMutexLock;
        lightNodeAsserts i n s;
        (doFree, s1) \<leftarrow> unlock_light n aLockSlot s;
        unlock_complete n doFree s1
      }
      else do {
        (doFree, s1) \<leftarrow> (if mBeGrant (node s n) then unlock_granted i n aLockSlot s
                         else Some (True, unlock_requested i n s));
        let s2 = (if doFree \<and> mCvsLockNode (node s1 n) = None
                  then clearWaitTableRows (slotsOf s1 (mLockRequest (item s1 i))) aSlot s1 else s1);
        s3 \<leftarrow> (if unlinkAll i s2 then toLightMode i s2 else wakeupRequestLockNodeInLockItem i s2);
        s4 \<leftarrow> (case aLockSlot of Some sl \<Rightarrow> removeLockSlot sl s3 | None \<Rightarrow> Some s3);
        unlock_complete n doFree s4
      })"

text \<open>Both steps at once, as the callers that release several locks run them.\<close>

definition unlockTable_run ::
  "slot_id \<Rightarrow> node_id option \<Rightarrow> lock_slot option \<Rightarrow> bool \<Rightarrow> lockState \<Rightarrow> lockState option" where
  "unlockTable_run aSlot aLockNode aLockSlot aDoMutexLock s = do {
     (next, s1) \<leftarrow> unlockTable aSlot aLockNode aLockSlot s;
     case next of UnlockDone \<Rightarrow> Some s1
     | UnlockInternal n \<Rightarrow>
         unlockTableInternal aSlot (mLockItem (node s1 n)) n aLockSlot aDoMutexLock s1
   }"

subsection \<open>Releasing many locks\<close>

text \<open>The loops run backwards along the list of the transaction; the element before the current
  one is read before the release, which removes only the current one.\<close>

fun freeAllItemLock_loop :: "slot_id \<Rightarrow> node_id list \<Rightarrow> lockState \<Rightarrow> lockState option" where
  "freeAllItemLock_loop aSlot [] s = Some s"
| "freeAllItemLock_loop aSlot (n # rest) s = do {
     s1 \<leftarrow> unlockTable_run aSlot (Some n) None True s;
     freeAllItemLock_loop aSlot rest s1
   }"

definition freeAllItemLock :: "slot_id \<Rightarrow> lockState \<Rightarrow> lockState option" where
  "freeAllItemLock aSlot s = freeAllItemLock_loop aSlot (rev (mTransLockNodes s aSlot)) s"

fun freeAllItemLockExceptIS_loop :: "slot_id \<Rightarrow> lock_slot list \<Rightarrow> lockState \<Rightarrow> lockState option" where
  "freeAllItemLockExceptIS_loop aSlot [] s = Some s"
| "freeAllItemLockExceptIS_loop aSlot (sl # rest) s = do {
     s1 \<leftarrow> (if mLockModeToMask SML_ISLOCK \<noteq> mLockModeToMask (snd sl)
           then unlockTable_run aSlot None (Some sl) True s else Some s);
     freeAllItemLockExceptIS_loop aSlot rest s1
   }"

definition freeAllItemLockExceptIS :: "slot_id \<Rightarrow> lockState \<Rightarrow> lockState option" where
  "freeAllItemLockExceptIS aSlot s =
     freeAllItemLockExceptIS_loop aSlot (rev (mTransLockSlots s aSlot)) s"

text \<open>\<open>isTempTableSpace\<close> is a function of the tablespace manager.  The header slot, which ends
  the list, has sequence 0 and stops the loop.\<close>

fun partialItemUnlock_loop ::
  "(u16 \<Rightarrow> bool) \<Rightarrow> slot_id \<Rightarrow> u64 \<Rightarrow> bool \<Rightarrow> lock_slot list \<Rightarrow> lockState \<Rightarrow> lockState option" where
  "partialItemUnlock_loop isTempTableSpace aSlot aLockSequence aIsSeveralLock [] s = Some s"
| "partialItemUnlock_loop isTempTableSpace aSlot aLockSequence aIsSeveralLock (sl # rest) s =
     (if slotSequence s sl > aLockSequence then do {
        s1 \<leftarrow>
          (if \<not> aIsSeveralLock then unlockTable_run aSlot None (Some sl) True s
           else if mLockModeToMask SML_ISLOCK = mLockModeToMask (snd sl) then
             (if mIsExplicitLock (node s (fst sl)) \<noteq> True
              then unlockTable_run aSlot None (Some sl) True s else Some s)
           else if mLockModeToMask SML_IXLOCK = mLockModeToMask (snd sl) then
             (if isTempTableSpace (mNodeSpaceID (node s (fst sl)))
              then unlockTable_run aSlot None (Some sl) True s else Some s)
           else Some s);
        partialItemUnlock_loop isTempTableSpace aSlot aLockSequence aIsSeveralLock rest s1
      } else Some s)"

definition partialItemUnlock ::
  "(u16 \<Rightarrow> bool) \<Rightarrow> slot_id \<Rightarrow> u64 \<Rightarrow> bool \<Rightarrow> lockState \<Rightarrow> lockState option" where
  "partialItemUnlock isTempTableSpace aSlot aLockSequence aIsSeveralLock s =
     partialItemUnlock_loop isTempTableSpace aSlot aLockSequence aIsSeveralLock
       (rev (mTransLockSlots s aSlot)) s"

end
