(* ===== verification/LockTable.thy ===== *)
theory LockTable
  imports UnlockTable
begin

text \<open>
  Acquiring table locks in \<open>src/src/sm/sml/smlLockMgr.cpp\<close>: \<open>lockTable\<close> and
  \<open>lockTableInternal\<close>, cut where the code lets other transactions run.  \<open>lockTable\<close> decides
  under the transaction's own mutex (light mode) or asks for \<open>lockTableInternal\<close>;
  \<open>lockTableInternal\<close> runs under the item's mutex up to its end or to the call of
  \<open>waitForLock\<close>; \<open>lockTable_waked\<close> and \<open>lockTable_failed\<close> are what follows that call.
\<close>

datatype lockError =
    smERR_REBUILD_smiTableModified
  | smERR_ABORT_TableLockUse
  | smERR_ABORT_TablespaceLockUse
  | smERR_ABORT_smcExceedLockTimeWait
  | insufficient_memory
  | err_wait_lock

text \<open>Success carries \<open>*aCurLockMode\<close> and \<open>*aLockSlot\<close>.  A transaction that must wait goes on
  with the request node and the node its lock slot will belong to.\<close>

datatype lockOutcome =
    LockSuccess "smlLockMode option" "lock_slot option"
  | LockFailure lockError
  | LockMustWait node_id node_id

datatype lockStart = LockDone lockOutcome | LockInternal "node_id option"

record lockProps =
  getTableLockEnable :: u32
  getTablespaceLockEnable :: u32

definition heavyMode :: "smlLockMode \<Rightarrow> bool" where
  "heavyMode m \<longleftrightarrow> m = SML_SLOCK \<or> m = SML_XLOCK \<or> m = SML_SIXLOCK"

subsection \<open>Light mode\<close>

text \<open>Without a held node a new one is allocated and linked; none is the pool's failure.\<close>

definition lightGrant ::
  "slot_id \<Rightarrow> item_id \<Rightarrow> smlLockMode \<Rightarrow> node_id option \<Rightarrow> bool \<Rightarrow> lockState \<Rightarrow>
   (node_id option \<times> lockState) option" where
  "lightGrant aSlot i aLockMode cur aIsExplicit s =
     (case cur of
        Some c \<Rightarrow>
          let s1 = updNode c (\<lambda>nd. nd\<lparr>mLockMode :=
                     getConversionLockMode (mLockMode nd) aLockMode\<rparr>) s
          in Some (Some c, updNode c (\<lambda>nd. nd\<lparr>mLockCnt := mLockCnt nd + 1\<rparr>) s1)
      | None \<Rightarrow>
          (case allocLockNodeAndInit aSlot aLockMode i aIsExplicit s of
             None \<Rightarrow> Some (None, s)
           | Some (n, s1) \<Rightarrow> do {
               s2 \<leftarrow> addLockNode n aSlot (updNode n (\<lambda>nd. nd\<lparr>mBeGrant := True\<rparr>) s1);
               Some (Some n, updNode n (\<lambda>nd. nd\<lparr>mLockCnt := mLockCnt nd + 1\<rparr>) s2)
             }))"

text \<open>Case 1 of \<open>lockTable\<close>: the held mode covers the requested one.  An IS lock is still
  recorded when no IS slot is linked.\<close>

definition alreadyLocked :: "node_id \<Rightarrow> smlLockMode \<Rightarrow> lockState \<Rightarrow> bool" where
  "alreadyLocked c aLockMode s =
     (if getConversionLockMode (mLockMode (node s c)) aLockMode = mLockMode (node s c)
      then (if aLockMode = SML_ISLOCK \<and> mLockSequence (node s c) aLockMode = 0 then False else True)
      else False)"

definition lockEnabled :: "lockProps \<Rightarrow> item_id \<Rightarrow> lockState \<Rightarrow> bool" where
  "lockEnabled props i s =
     (if mLockItemType (item s i) = SMI_LOCK_ITEM_TABLE then getTableLockEnable props \<noteq> 0
      else if mLockItemType (item s i) = SMI_LOCK_ITEM_TABLESPACE then getTablespaceLockEnable props \<noteq> 0
      else True)"

definition lockTable ::
  "lockProps \<Rightarrow> slot_id \<Rightarrow> item_id option \<Rightarrow> smlLockMode \<Rightarrow> bool \<Rightarrow> lockState \<Rightarrow>
   (lockStart \<times> lockState) option" where
  "lockTable props aSlot aLockItem aLockMode aIsExplicit s =
     (case aLockItem of
        None \<Rightarrow> Some (LockDone (LockFailure smERR_REBUILD_smiTableModified), s)
      | Some i \<Rightarrow>
          if \<not> lockEnabled props i s then
            Some (LockDone
              (if heavyMode aLockMode
               then LockFailure (if mLockItemType (item s i) = SMI_LOCK_ITEM_TABLE
                                 then smERR_ABORT_TableLockUse else smERR_ABORT_TablespaceLockUse)
               else LockSuccess (Some aLockMode) None), s)
          else do {
            cur \<leftarrow> findLockNode i aSlot s;
            if (case cur of Some c \<Rightarrow> alreadyLocked c aLockMode s | None \<Rightarrow> False)
            then Some (LockDone (LockSuccess (Some (mLockMode (node s (the cur)))) None), s)
            else if (aLockMode = SML_ISLOCK \<or> aLockMode = SML_IXLOCK) \<and>
                    mItemFlag (item s i) = SML_FLAG_LIGHT_MODE
            then do {
              (got, s1) \<leftarrow> lightGrant aSlot i aLockMode cur aIsExplicit s;
              case got of
                None \<Rightarrow> Some (LockDone (LockFailure insufficient_memory), s1)
              | Some n \<Rightarrow> do {
                  (curMode, slot, s2) \<leftarrow> setLockModeAndAddLockSlot aSlot (Some n) aLockMode True s1;
                  ide_assert (mLockMode (node s2 n) \<noteq> SML_XLOCK);
                  Some (LockDone (LockSuccess curMode slot), s2)
                }
            }
            else Some (LockInternal cur, s)
          })"

subsection \<open>\<open>lockTableInternal\<close>\<close>

text \<open>The first S, X or SIX request on a light item collects the intention locks that
  transactions hold on it into the grant list.\<close>

fun buildGrant_loop :: "item_id \<Rightarrow> slot_id list \<Rightarrow> lockState \<Rightarrow> lockState option" where
  "buildGrant_loop i [] s = Some s"
| "buildGrant_loop i (t # rest) s = do {
     found \<leftarrow> findLockNode i t s;
     s1 \<leftarrow> (case found of
              None \<Rightarrow> Some s
            | Some n \<Rightarrow> do {
                ide_assert (compatible (mGrantLockMode (item s i)) (mLockMode (node s n)));
                let sA = addLockNodeToGrantTail i n s;
                let sB = updLockItem i (\<lambda>it. it\<lparr>mGrantCnt := mGrantCnt it + 1\<rparr>) sA;
                sC \<leftarrow> onItem i (incTblLockModeAndUpdate (mLockMode (node sB n))) sB;
                Some (updLockItem i (\<lambda>it. it\<lparr>mGrantLockMode :=
                  getConversionLockMode (mGrantLockMode it) (mLockMode (node sC n))\<rparr>) sC)
              });
     buildGrant_loop i rest s1
   }"

definition toHeavyMode :: "item_id \<Rightarrow> lockState \<Rightarrow> lockState option" where
  "toHeavyMode i s =
     buildGrant_loop i [0..<mTransCnt s] (updLockItem i (\<lambda>it. it\<lparr>mItemFlag := 0\<rparr>) s)"

text \<open>Case 2: the granted mode is compatible with the requested one.\<close>

definition internalGrant ::
  "slot_id \<Rightarrow> item_id \<Rightarrow> smlLockMode \<Rightarrow> node_id option \<Rightarrow> bool \<Rightarrow> lockState \<Rightarrow>
   (node_id option \<times> lockState) option" where
  "internalGrant aSlot i aLockMode cur aIsExplicit s = do {
     (got, s1) \<leftarrow>
       (case cur of
          Some c \<Rightarrow> do {
            sA \<leftarrow> onItem i (decTblLockModeAndTryUpdate (mLockMode (node s c))) s;
            Some (Some c, sA)
          }
        | None \<Rightarrow>
            (case allocLockNodeAndInit aSlot aLockMode i aIsExplicit s of
               None \<Rightarrow> Some (None, s)
             | Some (n, sA) \<Rightarrow> do {
                 let sB = addLockNodeToGrantTail i n sA;
                 let sC = updNode n (\<lambda>nd. nd\<lparr>mBeGrant := True\<rparr>) sB;
                 let sD = updLockItem i (\<lambda>it. it\<lparr>mGrantCnt := mGrantCnt it + 1\<rparr>) sC;
                 sE \<leftarrow> addLockNode n aSlot sD;
                 Some (Some n, sE)
               }));
     case got of
       None \<Rightarrow> Some (None, s1)
     | Some n \<Rightarrow> do {
         let s2 = updNode n (\<lambda>nd. nd\<lparr>mLockMode := getConversionLockMode (mLockMode nd) aLockMode\<rparr>) s1;
         s3 \<leftarrow> onItem i (incTblLockModeAndUpdate (mLockMode (node s2 n))) s2;
         let s4 = updLockItem i (\<lambda>it. it\<lparr>mGrantLockMode :=
                    getConversionLockMode (mGrantLockMode it) aLockMode\<rparr>) s3;
         Some (Some n, updNode n (\<lambda>nd. nd\<lparr>mLockCnt := mLockCnt nd + 1\<rparr>) s4)
       }
   }"

text \<open>Case 3.1: the only granted node is the transaction's own.\<close>

definition internalConvert :: "item_id \<Rightarrow> smlLockMode \<Rightarrow> node_id \<Rightarrow> lockState \<Rightarrow> lockState option" where
  "internalConvert i aLockMode c s = do {
     s1 \<leftarrow> onItem i (decTblLockModeAndTryUpdate (mLockMode (node s c))) s;
     let s2 = updNode c (\<lambda>nd. nd\<lparr>mLockMode := getConversionLockMode (mLockMode nd) aLockMode\<rparr>) s1;
     let s3 = updLockItem i (\<lambda>it. it\<lparr>mGrantLockMode :=
                getConversionLockMode (mGrantLockMode it) aLockMode\<rparr>) s2;
     onItem i (incTblLockModeAndUpdate (mLockMode (node s3 c))) s3
   }"

text \<open>Case 3.2: the request is queued, in front when it converts a held node, and the
  transaction's waits are registered.\<close>

definition internalEnqueue ::
  "slot_id \<Rightarrow> item_id \<Rightarrow> smlLockMode \<Rightarrow> node_id option \<Rightarrow> bool \<Rightarrow> lockState \<Rightarrow>
   (node_id option \<times> lockState) option" where
  "internalEnqueue aSlot i aLockMode cur aIsExplicit s =
     (case allocLockNodeAndInit aSlot aLockMode i aIsExplicit s of
        None \<Rightarrow> Some (None, s)
      | Some (n, sA) \<Rightarrow> do {
          let s1 = updNode n (\<lambda>nd. nd\<lparr>mBeGrant := False\<rparr>) sA;
          s2 \<leftarrow>
            (case cur of
               Some c \<Rightarrow> Some (updLockItem i (\<lambda>it. it\<lparr>mLockRequest := n # mLockRequest it\<rparr>)
                           (updNode n (\<lambda>nd. nd\<lparr>mCvsLockNode := Some c\<rparr>) s1))
             | None \<Rightarrow> do {
                 sB \<leftarrow> registTblLockWaitListByReq aSlot (slotsOf s1 (mLockRequest (item s1 i))) s1;
                 Some (updLockItem i (\<lambda>it. it\<lparr>mLockRequest := mLockRequest it @ [n]\<rparr>) sB)
               });
          let s3 = registTblLockWaitListByGrant aSlot (slotsOf s2 (mLockGrant (item s2 i))) s2;
          Some (Some n, updLockItem i (\<lambda>it. it\<lparr>mRequestCnt := mRequestCnt it + 1\<rparr>) s3)
        })"

text \<open>Label \<open>lock_SUCCESS\<close>, with the lock taken.\<close>

definition internalSuccess ::
  "slot_id \<Rightarrow> smlLockMode \<Rightarrow> node_id \<Rightarrow> lockState \<Rightarrow> (lockOutcome \<times> lockState) option" where
  "internalSuccess aSlot aLockMode n s = do {
     (curMode, slot, s1) \<leftarrow> setLockModeAndAddLockSlot aSlot (Some n) aLockMode True s;
     Some (LockSuccess curMode slot, s1)
   }"

text \<open>The exception end: the transaction's row of the waiting table is cleared.\<close>

definition internalFailure ::
  "slot_id \<Rightarrow> lockError \<Rightarrow> lockState \<Rightarrow> (lockOutcome \<times> lockState) option" where
  "internalFailure aSlot err s = do {
     s1 \<leftarrow> clearWaitItemColsOfTrans True aSlot s;
     Some (LockFailure err, s1)
   }"

definition grantedOrFailure ::
  "slot_id \<Rightarrow> smlLockMode \<Rightarrow> (node_id option \<times> lockState) \<Rightarrow> (lockOutcome \<times> lockState) option" where
  "grantedOrFailure aSlot aLockMode r =
     (case r of (None, s) \<Rightarrow> internalFailure aSlot insufficient_memory s
      | (Some n, s) \<Rightarrow> internalSuccess aSlot aLockMode n s)"

text \<open>Case 3, label \<open>lock_conflict\<close>.\<close>

definition internalConflict ::
  "slot_id \<Rightarrow> item_id \<Rightarrow> smlLockMode \<Rightarrow> bool \<Rightarrow> node_id option \<Rightarrow> bool \<Rightarrow> bool \<Rightarrow> lockState \<Rightarrow>
   (lockOutcome \<times> lockState) option" where
  "internalConflict aSlot i aLockMode canWait cur aIsExplicit isFirstDDL s =
     (if mGrantCnt (item s i) = 1 \<and> cur \<noteq> None then do {
        s1 \<leftarrow> internalConvert i aLockMode (the cur) s;
        internalSuccess aSlot aLockMode (the cur) s1
      }
      else if canWait then do {
        (got, s1) \<leftarrow> internalEnqueue aSlot i aLockMode cur aIsExplicit s;
        case got of
          None \<Rightarrow> internalFailure aSlot insufficient_memory s1
        | Some n \<Rightarrow> Some (LockMustWait n (case cur of Some c \<Rightarrow> c | None \<Rightarrow> n), s1)
      }
      else do {
        s1 \<leftarrow> (if isFirstDDL then toLightMode i s else Some s);
        internalFailure aSlot smERR_ABORT_smcExceedLockTimeWait s1
      })"

text \<open>\<open>canWait\<close> says \<open>aLockWaitMicroSec != 0\<close>.\<close>

definition lockTableInternal ::
  "slot_id \<Rightarrow> item_id \<Rightarrow> smlLockMode \<Rightarrow> bool \<Rightarrow> node_id option \<Rightarrow> bool \<Rightarrow> lockState \<Rightarrow>
   (lockOutcome \<times> lockState) option" where
  "lockTableInternal aSlot i aLockMode canWait cur aIsExplicit s =
     (let light = (mItemFlag (item s i) = SML_FLAG_LIGHT_MODE) in
      if light \<and> (aLockMode = SML_ISLOCK \<or> aLockMode = SML_IXLOCK) then do {
        r \<leftarrow> lightGrant aSlot i aLockMode cur aIsExplicit s;
        grantedOrFailure aSlot aLockMode r
      }
      else do {
        s1 \<leftarrow> (if light then toHeavyMode i s else Some s);
        if compatible (mGrantLockMode (item s1 i)) aLockMode \<and>
           (cur \<noteq> None \<or> mRequestCnt (item s1 i) = 0)
        then do {
          r \<leftarrow> internalGrant aSlot i aLockMode cur aIsExplicit s1;
          grantedOrFailure aSlot aLockMode r
        }
        else internalConflict aSlot i aLockMode canWait cur aIsExplicit light s1
      })"

subsection \<open>After \<open>waitForLock\<close>\<close>

text \<open>\<open>waitForLock\<close> returned success: the request has been granted.\<close>

definition lockTable_waked ::
  "slot_id \<Rightarrow> item_id \<Rightarrow> smlLockMode \<Rightarrow> node_id \<Rightarrow> node_id \<Rightarrow> lockState \<Rightarrow>
   (lockOutcome \<times> lockState) option" where
  "lockTable_waked aSlot i aLockMode newNode cur s = do {
     s1 \<leftarrow> (if mCvsLockNode (node s newNode) \<noteq> None then do {
              ide_assert (newNode \<notin> set (mTransLockNodes s aSlot));
              ide_assert (noNeighbours newNode (mLockGrant (item s i)) \<and>
                          noNeighbours newNode (mLockRequest (item s i)));
              ide_assert (mDoRemove (node s newNode));
              ide_assert (\<not> mBeGrant (node s newNode));
              freeLockNode newNode s
            } else Some s);
     internalSuccess aSlot aLockMode cur s1
   }"

text \<open>\<open>waitForLock\<close> failed (deadlock or timeout): the request is withdrawn, or the lock, when
  it was granted at the last moment, released.\<close>

definition lockTable_failed ::
  "slot_id \<Rightarrow> node_id \<Rightarrow> lockState \<Rightarrow> (lockOutcome \<times> lockState) option" where
  "lockTable_failed aSlot newNode s = do {
     s1 \<leftarrow> unlockTable_run aSlot (Some newNode) None False s;
     internalFailure aSlot err_wait_lock s1
   }"

end
