(* ===== verification/LockInv.thy ===== *)
theory LockInv
  imports LockTable
begin

text \<open>
  The consistency of the table lock manager: what holds of lock items, of the nodes and slots of
  a transaction and of the waiting table between any two steps of any threads, stated over the
  state of \<open>LockState\<close> and the program counter of each transaction's thread.  The lemmas say how
  the parts of the invariant depend on the state, for the theories \<open>LockFrame\<close> to
  \<open>LockProtocol\<close>.
\<close>

subsection \<open>Threads\<close>

text \<open>Where the thread of a transaction is: outside the lock manager, in \<open>waitForLock\<close> for a
  request (item, mode, the request's node, the node its slot will belong to, whether the deadlock
  search was done), or releasing its locks at the end of the transaction.\<close>

datatype txPhase =
    TxRunning
  | TxWaiting item_id smlLockMode node_id node_id bool
  | TxEnding

type_synonym phases = "slot_id \<Rightarrow> txPhase"

definition queuedOn :: "phases \<Rightarrow> lockState \<Rightarrow> item_id \<Rightarrow> slot_id \<Rightarrow> node_id \<Rightarrow> bool" where
  "queuedOn w s i t n \<longleftrightarrow>
     (\<exists>m c k. w t = TxWaiting i m n c k) \<and> mStatus s t = SMX_TX_BLOCKED"

subsection \<open>Lock items\<close>

definition heldBy :: "lockState \<Rightarrow> item_id \<Rightarrow> slot_id \<Rightarrow> node_id set" where
  "heldBy s i t = {n \<in> set (mTransLockNodes s t). mLockItem (node s n) = i}"

definition heldOn :: "lockState \<Rightarrow> item_id \<Rightarrow> node_id set" where
  "heldOn s i = (\<Union>t < mTransCnt s. heldBy s i t)"

definition queuedNodes :: "phases \<Rightarrow> lockState \<Rightarrow> item_id \<Rightarrow> node_id set" where
  "queuedNodes w s i = {n. \<exists>t < mTransCnt s. queuedOn w s i t n}"

text \<open>The counters of an item against the multiset of the granted modes.\<close>

definition itemCounts :: "smlLockItem \<Rightarrow> smlLockMode multiset \<Rightarrow> bool" where
  "itemCounts it M \<longleftrightarrow>
     (\<forall>m. mArrLockCount it m = int (count M m)) \<and> flagModes (mItemFlag it) (set_mset M)"

abbreviation modesOf :: "lockState \<Rightarrow> node_id list \<Rightarrow> smlLockMode multiset" where
  "modesOf s ns \<equiv> image_mset (\<lambda>n. mLockMode (node s n)) (mset ns)"

text \<open>An item in light mode records nothing; nodes in \<open>X\<close> are on their way out.\<close>

definition lightItem :: "node_id set \<Rightarrow> phases \<Rightarrow> lockState \<Rightarrow> item_id \<Rightarrow> bool" where
  "lightItem X w s i \<longleftrightarrow> clearLockItem (item s i) = item s i \<and>
     (\<forall>n \<in> heldOn s i - X. lightMode (mLockMode (node s n))) \<and> queuedNodes w s i = {}"

definition compatibleNodes :: "lockState \<Rightarrow> node_id set \<Rightarrow> bool" where
  "compatibleNodes s G \<longleftrightarrow>
     (\<forall>a \<in> G. \<forall>b \<in> G. a \<noteq> b \<longrightarrow> compatible (mLockMode (node s a)) (mLockMode (node s b)))"

definition grantsOk :: "node_id set \<Rightarrow> lockState \<Rightarrow> item_id \<Rightarrow> bool" where
  "grantsOk X s i \<longleftrightarrow> (let it = item s i; G = mLockGrant it in
     distinct G \<and> set G = heldOn s i - X \<and> mGrantCnt it = int (length G) \<and>
     itemCounts it (modesOf s G) \<and> mGrantLockMode it = lubModes (set_mset (modesOf s G)) \<and>
     compatibleNodes s (set G))"

definition requestsOk :: "phases \<Rightarrow> lockState \<Rightarrow> item_id \<Rightarrow> bool" where
  "requestsOk w s i \<longleftrightarrow> (let it = item s i; R = mLockRequest it in
     distinct R \<and> set R = queuedNodes w s i \<and> mRequestCnt it = int (length R))"

text \<open>The transactions a queued request waits for: every other one with a granted node or an
  earlier request.\<close>

definition blockers :: "lockState \<Rightarrow> item_id \<Rightarrow> slot_id \<Rightarrow> node_id \<Rightarrow> slot_id set" where
  "blockers s i t n =
     set (slotsOf s (mLockGrant (item s i) @ takeWhile (\<lambda>r. r \<noteq> n) (mLockRequest (item s i)))) - {t}"

definition waitsRecorded :: "phases \<Rightarrow> lockState \<Rightarrow> item_id \<Rightarrow> bool" where
  "waitsRecorded w s i \<longleftrightarrow>
     (\<forall>t < mTransCnt s. \<forall>n. queuedOn w s i t n \<longrightarrow> (\<forall>u \<in> blockers s i t n. idx s t u = 1))"

definition itemOk :: "node_id set \<Rightarrow> phases \<Rightarrow> lockState \<Rightarrow> item_id \<Rightarrow> bool" where
  "itemOk X w s i \<longleftrightarrow>
     (if mItemFlag (item s i) = SML_FLAG_LIGHT_MODE then lightItem X w s i
      else grantsOk X s i \<and> requestsOk w s i \<and> waitsRecorded w s i)"

text \<open>No lost wake-up: the first request is neither compatible with the granted mode nor the
  conversion of the only granted node.\<close>

definition headStuck :: "lockState \<Rightarrow> item_id \<Rightarrow> bool" where
  "headStuck s i \<longleftrightarrow> (case mLockRequest (item s i) of [] \<Rightarrow> True
     | n # _ \<Rightarrow> \<not> compatible (mLockMode (node s n)) (mGrantLockMode (item s i)) \<and>
                \<not> (mGrantCnt (item s i) = 1 \<and> mCvsLockNode (node s n) \<noteq> None))"

subsection \<open>Transactions\<close>

definition heldNodeOk :: "lockState \<Rightarrow> slot_id \<Rightarrow> node_id \<Rightarrow> bool" where
  "heldNodeOk s t n \<longleftrightarrow> n < mNextLockNode s \<and> mSlotID (node s n) = t \<and> mBeGrant (node s n) \<and>
     \<not> mDoRemove (node s n) \<and> mCvsLockNode (node s n) = None"

definition nodesOk :: "lockState \<Rightarrow> slot_id \<Rightarrow> bool" where
  "nodesOk s t \<longleftrightarrow> distinct (map (\<lambda>n. mLockItem (node s n)) (mTransLockNodes s t)) \<and>
     (\<forall>n \<in> set (mTransLockNodes s t). heldNodeOk s t n)"

abbreviation slotModes :: "lockState \<Rightarrow> slot_id \<Rightarrow> node_id \<Rightarrow> smlLockMode set" where
  "slotModes s t n \<equiv> {m. (n, m) \<in> set (mTransLockSlots s t)}"

text \<open>The lock slots, in ascending order of their sequence, are the slots of held nodes with a
  sequence; the flag of a node has the modes of its slots and of a slot still to come (\<open>P\<close>), and
  the node's mode covers them.\<close>

definition slotsOk :: "(node_id \<Rightarrow> smlLockMode set) \<Rightarrow> lockState \<Rightarrow> slot_id \<Rightarrow> bool" where
  "slotsOk P s t \<longleftrightarrow>
     sorted_wrt (<) (map (slotSequence s) (mTransLockSlots s t)) \<and>
     set (mTransLockSlots s t) =
       {(n, m). n \<in> set (mTransLockNodes s t) \<and> mLockSequence (node s n) m \<noteq> 0} \<and>
     (\<forall>n \<in> set (mTransLockNodes s t). mLockSequence (node s n) SML_NLOCK = 0 \<and>
        flagModes (mNodeFlag (node s n)) (slotModes s t n \<union> P n) \<and>
        lubModes (slotModes s t n \<union> P n) \<le> mLockMode (node s n))"

fun pendingSlot :: "txPhase \<Rightarrow> node_id \<Rightarrow> smlLockMode set" where
  "pendingSlot (TxWaiting i m n c k) x = (if n = c \<and> x = n then {m} else {})"
| "pendingSlot _ x = {}"

text \<open>A request node before it is granted.\<close>

definition requestNode :: "lockState \<Rightarrow> slot_id \<Rightarrow> item_id \<Rightarrow> smlLockMode \<Rightarrow> node_id \<Rightarrow> bool" where
  "requestNode s t i m n \<longleftrightarrow> n < mNextLockNode s \<and> mSlotID (node s n) = t \<and>
     mLockItem (node s n) = i \<and> mLockMode (node s n) = m \<and>
     mNodeFlag (node s n) = mLockModeToMask m \<and> mLockSequence (node s n) = (\<lambda>_. 0) \<and>
     n \<notin> set (mTransLockNodes s t) \<and> \<not> mBeGrant (node s n)"

text \<open>A waiting transaction is blocked and queued, or has been resumed: then its lock is granted,
  either on the request's node itself or by converting the node it held.\<close>

definition waitingOk ::
  "lockState \<Rightarrow> slot_id \<Rightarrow> item_id \<Rightarrow> smlLockMode \<Rightarrow> node_id \<Rightarrow> node_id \<Rightarrow> bool" where
  "waitingOk s t i m n c \<longleftrightarrow> m \<noteq> SML_NLOCK \<and>
     (if c = n then
        mLockSequence (node s n) = (\<lambda>_. 0) \<and> mLockItem (node s n) = i \<and>
        (if mStatus s t = SMX_TX_BLOCKED
         then requestNode s t i m n \<and> \<not> mDoRemove (node s n) \<and> mCvsLockNode (node s n) = None \<and>
              heldBy s i t = {}
         else mStatus s t = SMX_TX_BEGIN \<and> n \<in> set (mTransLockNodes s t))
      else c \<in> heldBy s i t \<and> mLockSequence (node s c) m = 0 \<and> requestNode s t i m n \<and>
        mCvsLockNode (node s n) = Some c \<and>
        (if mStatus s t = SMX_TX_BLOCKED then \<not> mDoRemove (node s n)
         else mStatus s t = SMX_TX_BEGIN \<and> mDoRemove (node s n) \<and> m \<le> mLockMode (node s c)))"

definition phaseOk :: "phases \<Rightarrow> lockState \<Rightarrow> slot_id \<Rightarrow> bool" where
  "phaseOk w s t \<longleftrightarrow> (case w t of
       TxWaiting i m n c k \<Rightarrow> waitingOk s t i m n c
     | _ \<Rightarrow> mStatus s t = SMX_TX_BEGIN)"

definition txOk :: "phases \<Rightarrow> lockState \<Rightarrow> slot_id \<Rightarrow> bool" where
  "txOk w s t \<longleftrightarrow> phaseOk w s t \<and> (w t \<noteq> TxEnding \<longrightarrow> slotsOk (pendingSlot (w t)) s t)"

text \<open>The row of the waiting table is empty but for a waiting transaction; before its deadlock
  search it is as \<open>isCycle\<close> expects it, and when the transaction was resumed all entries are
  cleared.\<close>

definition rowPhase :: "phases \<Rightarrow> lockState \<Rightarrow> slot_id \<Rightarrow> bool" where
  "rowPhase w s t \<longleftrightarrow> (case w t of
       TxWaiting i m n c k \<Rightarrow>
         (\<exists>xs. rowOk s t xs \<and> (\<not> k \<longrightarrow> t \<notin> set xs \<and> (\<forall>x \<in> set xs. idx s t x \<le> 1))) \<and>
         (mStatus s t \<noteq> SMX_TX_BLOCKED \<longrightarrow> (\<forall>j < mTransCnt s. idx s t j = 0))
     | _ \<Rightarrow> rowOk s t [])"

subsection \<open>The whole state\<close>

text \<open>What every intermediate state satisfies.  No transaction waits for a record lock here.\<close>

definition stateOk :: "lockState \<Rightarrow> bool" where
  "stateOk s \<longleftrightarrow> waitInv s \<and> (\<forall>u < mTransCnt s. colOk s u []) \<and>
     (\<forall>t \<ge> mTransCnt s. mTransLockNodes s t = []) \<and> (\<forall>t < mTransCnt s. nodesOk s t)"

text \<open>The invariant while item \<open>i\<close> is worked on by the transactions \<open>F\<close>, with the nodes \<open>X\<close> of
  the item on their way out.\<close>

definition midBase :: "slot_id set \<Rightarrow> node_id set \<Rightarrow> item_id \<Rightarrow> phases \<Rightarrow> lockState \<Rightarrow> bool" where
  "midBase F X i w s \<longleftrightarrow> stateOk s \<and> (\<forall>t \<in> F. \<forall>j n. \<not> queuedOn w s j t n) \<and>
     (\<forall>x \<in> X. \<exists>t \<in> F. x \<in> heldBy s i t) \<and>
     (\<forall>t < mTransCnt s. t \<notin> F \<longrightarrow> txOk w s t \<and> rowPhase w s t) \<and>
     (\<forall>j. j \<noteq> i \<longrightarrow> itemOk {} w s j \<and> headStuck s j)"

definition midInv :: "slot_id set \<Rightarrow> node_id set \<Rightarrow> item_id \<Rightarrow> phases \<Rightarrow> lockState \<Rightarrow> bool" where
  "midInv F X i w s \<longleftrightarrow> midBase F X i w s \<and> itemOk X w s i"

definition lockInv :: "phases \<Rightarrow> lockState \<Rightarrow> bool" where
  "lockInv w s \<longleftrightarrow> stateOk s \<and> (\<forall>t < mTransCnt s. txOk w s t \<and> rowPhase w s t) \<and>
     (\<forall>i. itemOk {} w s i \<and> headStuck s i)"

subsection \<open>Selectors after elementary updates\<close>

lemma lock_sel [simp]:
  "mLockNodes (updNode n f s) = (mLockNodes s)(n := f (mLockNodes s n))"
  "mLockItems (updNode n f s) = mLockItems s"
  "mLockNodes (updLockItem i g s) = mLockNodes s"
  "mLockItems (updLockItem i g s) = (mLockItems s)(i := g (mLockItems s i))"
  "mLockNodes (setTransNodes t ns s) = mLockNodes s"
  "mLockItems (setTransNodes t ns s) = mLockItems s"
  "mTransLockNodes (setTransNodes t ns s) = (mTransLockNodes s)(t := ns)"
  "mTransLockSlots (setTransNodes t ns s) = mTransLockSlots s"
  "mLockNodes (setTransSlots t ls s) = mLockNodes s"
  "mLockItems (setTransSlots t ls s) = mLockItems s"
  "mTransLockNodes (setTransSlots t ls s) = mTransLockNodes s"
  "mTransLockSlots (setTransSlots t ls s) = (mTransLockSlots s)(t := ls)"
  "mLockNodes (setStatus t st s) = mLockNodes s"
  "mLockItems (setStatus t st s) = mLockItems s"
  "mStatus (setStatus t st s) = (mStatus s)(t := st)"
  by (simp_all add: updNode_def updLockItem_def setTransNodes_def setTransSlots_def setStatus_def)

lemma lock_frame [simp]:
  "mTransLockNodes (updNode n f s) = mTransLockNodes s"
  "mTransLockSlots (updNode n f s) = mTransLockSlots s"
  "mTransLockNodes (updLockItem i g s) = mTransLockNodes s"
  "mTransLockSlots (updLockItem i g s) = mTransLockSlots s"
  "mTransLockNodes (setStatus t st s) = mTransLockNodes s"
  "mTransLockSlots (setStatus t st s) = mTransLockSlots s"
  "mStatus (updNode n f s) = mStatus s" "mStatus (updLockItem i g s) = mStatus s"
  "mStatus (setTransNodes t ns s) = mStatus s" "mStatus (setTransSlots t ls s) = mStatus s"
  "mNextLockNode (updNode n f s) = mNextLockNode s"
  "mNextLockNode (updLockItem i g s) = mNextLockNode s"
  "mNextLockNode (setTransNodes t ns s) = mNextLockNode s"
  "mNextLockNode (setTransSlots t ls s) = mNextLockNode s"
  "mNextLockNode (setStatus t st s) = mNextLockNode s"
  by (simp_all add: updNode_def updLockItem_def setTransNodes_def setTransSlots_def setStatus_def)

lemma wait_frame [simp]:
  "mTransCnt (updNode n f s) = mTransCnt s" "mTransCnt (updLockItem i g s) = mTransCnt s"
  "mTransCnt (setTransNodes t ns s) = mTransCnt s" "mTransCnt (setTransSlots t ls s) = mTransCnt s"
  "mTransCnt (setStatus t st s) = mTransCnt s"
  "mWaitForTable (updNode n f s) = mWaitForTable s"
  "mWaitForTable (updLockItem i g s) = mWaitForTable s"
  "mWaitForTable (setTransNodes t ns s) = mWaitForTable s"
  "mWaitForTable (setTransSlots t ls s) = mWaitForTable s"
  "mWaitForTable (setStatus t st s) = mWaitForTable s"
  "mFstWaitTblTransItem (updNode n f s) = mFstWaitTblTransItem s"
  "mFstWaitTblTransItem (updLockItem i g s) = mFstWaitTblTransItem s"
  "mFstWaitTblTransItem (setTransNodes t ns s) = mFstWaitTblTransItem s"
  "mFstWaitTblTransItem (setTransSlots t ls s) = mFstWaitTblTransItem s"
  "mFstWaitTblTransItem (setStatus t st s) = mFstWaitTblTransItem s"
  "mFstWaitRecTransItem (updNode n f s) = mFstWaitRecTransItem s"
  "mFstWaitRecTransItem (updLockItem i g s) = mFstWaitRecTransItem s"
  "mFstWaitRecTransItem (setTransNodes t ns s) = mFstWaitRecTransItem s"
  "mFstWaitRecTransItem (setTransSlots t ls s) = mFstWaitRecTransItem s"
  "mFstWaitRecTransItem (setStatus t st s) = mFstWaitRecTransItem s"
  "mLstWaitRecTransItem (updNode n f s) = mLstWaitRecTransItem s"
  "mLstWaitRecTransItem (updLockItem i g s) = mLstWaitRecTransItem s"
  "mLstWaitRecTransItem (setTransNodes t ns s) = mLstWaitRecTransItem s"
  "mLstWaitRecTransItem (setTransSlots t ls s) = mLstWaitRecTransItem s"
  "mLstWaitRecTransItem (setStatus t st s) = mLstWaitRecTransItem s"
  by (simp_all add: updNode_def updLockItem_def setTransNodes_def setTransSlots_def setStatus_def)

lemma row_frame [simp]:
  "rowOk (updNode n f s) a xs = rowOk s a xs" "rowOk (updLockItem i g s) a xs = rowOk s a xs"
  "rowOk (setTransNodes t ns s) a xs = rowOk s a xs" "rowOk (setTransSlots t ls s) a xs = rowOk s a xs"
  "rowOk (setStatus t st s) a xs = rowOk s a xs"
  "colOk (updNode n f s) a xs = colOk s a xs" "colOk (updLockItem i g s) a xs = colOk s a xs"
  "colOk (setTransNodes t ns s) a xs = colOk s a xs" "colOk (setTransSlots t ls s) a xs = colOk s a xs"
  "colOk (setStatus t st s) a xs = colOk s a xs"
  by (simp_all add: rowOk_def colOk_def)

lemma waitInv_frame [simp]:
  "waitInv (updNode n f s) = waitInv s" "waitInv (updLockItem i g s) = waitInv s"
  "waitInv (setTransNodes t ns s) = waitInv s" "waitInv (setTransSlots t ls s) = waitInv s"
  "waitInv (setStatus t st s) = waitInv s"
  by (simp_all add: waitInv_def)

text \<open>An operation on the waiting table leaves the rest of the state alone.\<close>

lemma more_lock:
  assumes "waitState.more s' = waitState.more (s :: lockState)"
  shows "mLockNodes s' = mLockNodes s" "mLockItems s' = mLockItems s"
    "mTransLockNodes s' = mTransLockNodes s" "mTransLockSlots s' = mTransLockSlots s"
    "mNextLockNode s' = mNextLockNode s" "mStatus s' = mStatus s" "mLockPoolLeft s' = mLockPoolLeft s"
  using assms by (cases s; cases s'; simp)+

end
