(* ===== verification/LockFrame.thy ===== *)
theory LockFrame
  imports LockInv
begin

text \<open>
  What a step of some transactions on one lock item leaves alone, and the parts of the lock
  manager's invariant that follow from it: transactions that do not take part keep their nodes,
  slots and waits, and every other item stays consistent.
\<close>

subsection \<open>Steps of the transactions \<open>T\<close> on item \<open>i\<close>\<close>

definition onlyOn ::
  "slot_id set \<Rightarrow> item_id \<Rightarrow> phases \<Rightarrow> lockState \<Rightarrow> phases \<Rightarrow> lockState \<Rightarrow> bool" where
  "onlyOn T i w s w' s' \<longleftrightarrow>
     mTransCnt s' = mTransCnt s \<and> mNextLockNode s \<le> mNextLockNode s' \<and>
     mFstWaitRecTransItem s' = mFstWaitRecTransItem s \<and>
     mLstWaitRecTransItem s' = mLstWaitRecTransItem s \<and> (\<forall>a b. nxtRec s' a b = nxtRec s a b) \<and>
     (\<forall>j. j \<noteq> i \<longrightarrow> item s' j = item s j) \<and>
     (\<forall>t. t \<notin> T \<longrightarrow> w' t = w t \<and> mStatus s' t = mStatus s t \<and>
        mTransLockNodes s' t = mTransLockNodes s t \<and> mTransLockSlots s' t = mTransLockSlots s t \<and>
        mWaitForTable s' t = mWaitForTable s t \<and>
        mFstWaitTblTransItem s' t = mFstWaitTblTransItem s t) \<and>
     (\<forall>n < mNextLockNode s. mSlotID (node s n) \<notin> T \<or> mLockItem (node s n) \<noteq> i \<longrightarrow>
        node s' n = node s n) \<and>
     (\<forall>t \<in> T. \<forall>j. j \<noteq> i \<longrightarrow> heldBy s' j t = heldBy s j t \<and>
        (\<forall>n. \<not> queuedOn w s j t n \<and> \<not> queuedOn w' s' j t n))"

lemma onlyOnD:
  assumes "onlyOn T i w s w' s'"
  shows "mTransCnt s' = mTransCnt s" "mNextLockNode s \<le> mNextLockNode s'"
    "j \<noteq> i \<Longrightarrow> item s' j = item s j"
    "t \<notin> T \<Longrightarrow> w' t = w t" "t \<notin> T \<Longrightarrow> mStatus s' t = mStatus s t"
    "t \<notin> T \<Longrightarrow> mTransLockNodes s' t = mTransLockNodes s t"
    "t \<notin> T \<Longrightarrow> mTransLockSlots s' t = mTransLockSlots s t"
    "t \<notin> T \<Longrightarrow> mWaitForTable s' t = mWaitForTable s t"
    "t \<notin> T \<Longrightarrow> mFstWaitTblTransItem s' t = mFstWaitTblTransItem s t"
    "n < mNextLockNode s \<Longrightarrow> mSlotID (node s n) \<notin> T \<Longrightarrow> node s' n = node s n"
    "n < mNextLockNode s \<Longrightarrow> mLockItem (node s n) \<noteq> i \<Longrightarrow> node s' n = node s n"
    "t \<in> T \<Longrightarrow> j \<noteq> i \<Longrightarrow> heldBy s' j t = heldBy s j t"
    "t \<in> T \<Longrightarrow> j \<noteq> i \<Longrightarrow> \<not> queuedOn w s j t n" "t \<in> T \<Longrightarrow> j \<noteq> i \<Longrightarrow> \<not> queuedOn w' s' j t n"
  using assms unfolding onlyOn_def by blast+

lemma onlyOn_colOk: "onlyOn T i w s w' s' \<Longrightarrow> colOk s' u q \<longleftrightarrow> colOk s u q"
  by (rule colOk_cong) (simp_all add: onlyOn_def)

lemma nodesOkD:
  assumes "nodesOk s t" "n \<in> set (mTransLockNodes s t)"
  shows "n < mNextLockNode s" "mSlotID (node s n) = t" "mBeGrant (node s n)"
    "\<not> mDoRemove (node s n)" "mCvsLockNode (node s n) = None"
  using assms by (auto simp: nodesOk_def heldNodeOk_def)

subsection \<open>Transactions that do not take part\<close>

lemma onlyOn_nodes:
  assumes "onlyOn T i w s w' s'" "t \<notin> T" "nodesOk s t" "n \<in> set (mTransLockNodes s t)"
  shows "node s' n = node s n"
  using onlyOnD(10) [OF assms(1)] nodesOkD [OF assms(3,4)] assms(2) by simp

lemma onlyOn_nodesOk:
  assumes "onlyOn T i w s w' s'" "t \<notin> T" "nodesOk s t"
  shows "nodesOk s' t"
proof -
  note D = onlyOnD [OF assms(1)]
  note eq = onlyOn_nodes [OF assms]
  have "map (\<lambda>n. mLockItem (node s' n)) (mTransLockNodes s t) =
      map (\<lambda>n. mLockItem (node s n)) (mTransLockNodes s t)"
    by (rule map_cong) (simp_all add: eq)
  then have "distinct (map (\<lambda>n. mLockItem (node s' n)) (mTransLockNodes s t))"
    using assms(3) unfolding nodesOk_def by metis
  moreover have "heldNodeOk s' t n" if "n \<in> set (mTransLockNodes s t)" for n
    using nodesOkD [OF assms(3) that] D(2) that by (simp add: heldNodeOk_def eq)
  ultimately show ?thesis
    using assms(2,3) D(6) by (simp add: nodesOk_def)
qed

lemma onlyOn_slotsOk:
  assumes "onlyOn T i w s w' s'" "t \<notin> T" "nodesOk s t" "slotsOk P s t"
  shows "slotsOk P s' t"
proof -
  note D = onlyOnD [OF assms(1)]
  note eq = onlyOn_nodes [OF assms(1-3)]
  have L: "set (mTransLockSlots s t) =
      {(n, m). n \<in> set (mTransLockNodes s t) \<and> mLockSequence (node s n) m \<noteq> 0}"
    using assms(4) by (simp add: slotsOk_def)
  have "map (slotSequence s') (mTransLockSlots s t) = map (slotSequence s) (mTransLockSlots s t)"
    by (rule map_cong) (use L eq in auto)
  then have "sorted_wrt (<) (map (slotSequence s') (mTransLockSlots s t))"
    using assms(4) unfolding slotsOk_def by metis
  moreover have "{(n, m). n \<in> set (mTransLockNodes s t) \<and> mLockSequence (node s' n) m \<noteq> 0} =
      {(n, m). n \<in> set (mTransLockNodes s t) \<and> mLockSequence (node s n) m \<noteq> 0}"
    using eq by auto
  ultimately show ?thesis
    using assms(4) L eq unfolding slotsOk_def D(6) [OF assms(2)] D(7) [OF assms(2)] by simp
qed

lemma onlyOn_heldBy:
  assumes "onlyOn T i w s w' s'" "t \<notin> T" "nodesOk s t"
  shows "heldBy s' j t = heldBy s j t"
  using onlyOn_nodes [OF assms] onlyOnD(6) [OF assms(1,2)] by (auto simp: heldBy_def)

lemma onlyOn_txOk:
  assumes "onlyOn T i w s w' s'" "t \<notin> T" "nodesOk s t" "txOk w s t"
  shows "txOk w' s' t"
proof -
  note D = onlyOnD [OF assms(1)]
  note eq = onlyOn_nodes [OF assms(1-3)] and held = onlyOn_heldBy [OF assms(1-3)]
  have wt: "w' t = w t" and st: "mStatus s' t = mStatus s t"
    using D(4,5) assms(2) by blast+
  have "phaseOk w' s' t"
  proof (cases "w t")
    case (TxWaiting j m n c k)
    then have ok: "waitingOk s t j m n c"
      using assms(4) by (simp add: txOk_def phaseOk_def)
    have own: "n < mNextLockNode s \<and> mSlotID (node s n) = t"
      using ok nodesOkD(1,2) [OF assms(3), of n]
      by (auto simp: waitingOk_def requestNode_def split: if_splits)
    then have n: "node s' n = node s n"
      using D(10) assms(2) by blast
    have c: "c = n \<or> c \<in> set (mTransLockNodes s t)"
      using ok by (auto simp: waitingOk_def heldBy_def split: if_splits)
    have "waitingOk s' t j m n c \<longleftrightarrow> waitingOk s t j m n c"
    proof (cases "c = n")
      case True
      then show ?thesis
        using own D(2) D(6) [OF assms(2)] by (auto simp: waitingOk_def requestNode_def n st held)
    next
      case False
      with c have "node s' c = node s c" by (simp add: eq)
      with False show ?thesis
        using own D(2) D(6) [OF assms(2)] by (auto simp: waitingOk_def requestNode_def n st held)
    qed
    then show ?thesis
      using ok TxWaiting by (simp add: phaseOk_def wt)
  qed (use assms(4) in \<open>simp_all add: txOk_def phaseOk_def wt st\<close>)
  then show ?thesis
    using onlyOn_slotsOk [OF assms(1-3)] assms(4) by (simp add: txOk_def wt)
qed

lemma onlyOn_rowOk:
  assumes "onlyOn T i w s w' s'" "t \<notin> T"
  shows "rowOk s' t xs \<longleftrightarrow> rowOk s t xs" "idx s' t u = idx s t u"
proof -
  note D = onlyOnD(1) [OF assms(1)] onlyOnD(8,9) [OF assms]
  show "rowOk s' t xs \<longleftrightarrow> rowOk s t xs" by (rule rowOk_cong) (simp_all add: D)
  show "idx s' t u = idx s t u" by (simp add: D)
qed

lemma onlyOn_rowPhase:
  assumes "onlyOn T i w s w' s'" "t \<notin> T"
  shows "rowPhase w' s' t \<longleftrightarrow> rowPhase w s t"
  unfolding rowPhase_def onlyOnD(4,5) [OF assms] onlyOn_rowOk [OF assms] onlyOnD(1) [OF assms(1)] ..

lemma rowPhase_row: "rowPhase w s t \<Longrightarrow> \<exists>xs. rowOk s t xs"
  unfolding rowPhase_def by (cases "w t") auto

lemma onlyOn_queuedOn:
  assumes "onlyOn T i w s w' s'" "t \<notin> T"
  shows "queuedOn w' s' j t n \<longleftrightarrow> queuedOn w s j t n"
  using onlyOnD(4,5) [OF assms] by (simp add: queuedOn_def)

lemma queuedOn_node:
  assumes "txOk w s t" "queuedOn w s j t n"
  shows "n < mNextLockNode s" "mSlotID (node s n) = t" "mLockItem (node s n) = j"
    "\<not> mBeGrant (node s n)" "\<not> mDoRemove (node s n)"
proof -
  obtain m c k where "w t = TxWaiting j m n c k" "mStatus s t = SMX_TX_BLOCKED"
    using assms(2) by (auto simp: queuedOn_def)
  then show "n < mNextLockNode s" "mSlotID (node s n) = t" "mLockItem (node s n) = j"
    "\<not> mBeGrant (node s n)" "\<not> mDoRemove (node s n)"
    using assms(1) by (auto simp: txOk_def phaseOk_def waitingOk_def requestNode_def split: if_splits)
qed

subsection \<open>Other items\<close>

lemma heldOn_node:
  assumes "stateOk s" "n \<in> heldOn s j"
  shows "\<exists>t < mTransCnt s. n \<in> set (mTransLockNodes s t) \<and> mSlotID (node s n) = t \<and>
    n < mNextLockNode s \<and> mLockItem (node s n) = j \<and> mBeGrant (node s n) \<and>
    \<not> mDoRemove (node s n) \<and> mCvsLockNode (node s n) = None"
proof -
  from assms(2) obtain t where t: "t < mTransCnt s" "n \<in> set (mTransLockNodes s t)"
      "mLockItem (node s n) = j"
    by (auto simp: heldOn_def heldBy_def)
  then have "nodesOk s t" using assms(1) by (simp add: stateOk_def)
  with t nodesOkD [OF this t(2)] show ?thesis by auto
qed

lemma onlyOn_heldOn:
  assumes "onlyOn T i w s w' s'" "stateOk s" "j \<noteq> i"
  shows "heldOn s' j = heldOn s j"
proof -
  have "heldBy s' j t = heldBy s j t" if "t < mTransCnt s" for t
    using onlyOnD(12) [OF assms(1)] onlyOn_heldBy [OF assms(1), of t j] that assms(2,3)
    by (cases "t \<in> T") (auto simp: stateOk_def)
  then show ?thesis
    using onlyOnD(1) [OF assms(1)] by (simp add: heldOn_def)
qed

lemma onlyOn_queued:
  assumes "onlyOn T i w s w' s'" "j \<noteq> i"
  shows "queuedOn w' s' j t n \<longleftrightarrow> queuedOn w s j t n"
  using onlyOn_queuedOn [OF assms(1)] onlyOnD(13,14) [OF assms(1)] assms(2) by (cases "t \<in> T") auto

lemma onlyOn_queuedNodes:
  assumes "onlyOn T i w s w' s'" "j \<noteq> i"
  shows "queuedNodes w' s' j = queuedNodes w s j"
  using onlyOn_queued [OF assms] onlyOnD(1) [OF assms(1)] by (simp add: queuedNodes_def)

lemma onlyOn_held_same:
  assumes "onlyOn T i w s w' s'" "stateOk s" "j \<noteq> i" "n \<in> heldOn s j"
  shows "node s' n = node s n"
  using heldOn_node [OF assms(2,4)] onlyOnD(11) [OF assms(1), of n] assms(3) by auto

lemma onlyOn_queued_same:
  assumes "onlyOn T i w s w' s'" "j \<noteq> i" "n \<in> queuedNodes w s j"
    "\<And>t n. t < mTransCnt s \<Longrightarrow> queuedOn w s j t n \<Longrightarrow> txOk w s t"
  shows "node s' n = node s n"
proof -
  obtain t where "t < mTransCnt s" "queuedOn w s j t n"
    using assms(3) by (auto simp: queuedNodes_def)
  then show ?thesis
    using queuedOn_node(1,3) [OF assms(4)] onlyOnD(11) [OF assms(1), of n] assms(2) by blast
qed

lemma lightItem_sel:
  assumes "lightItem X w s i"
  shows "mLockGrant (item s i) = []" "mLockRequest (item s i) = []" "mGrantCnt (item s i) = 0"
    "mRequestCnt (item s i) = 0" "mGrantLockMode (item s i) = SML_NLOCK"
    "mArrLockCount (item s i) m = 0" "mItemFlag (item s i) = SML_FLAG_LIGHT_MODE"
proof -
  have eq: "item s i = clearLockItem (item s i)" using assms by (simp add: lightItem_def)
  show "mLockGrant (item s i) = []" "mLockRequest (item s i) = []" "mGrantCnt (item s i) = 0"
    "mRequestCnt (item s i) = 0" "mGrantLockMode (item s i) = SML_NLOCK"
    "mArrLockCount (item s i) m = 0" "mItemFlag (item s i) = SML_FLAG_LIGHT_MODE"
    by (subst eq; simp add: clearLockItem_def)+
qed

lemma modesOf_cong: "(\<And>n. n \<in> set G \<Longrightarrow> mLockMode (node s' n) = mLockMode (node s n)) \<Longrightarrow>
    modesOf s' G = modesOf s G"
  by (rule image_mset_cong) simp

lemma onlyOn_grantsOk:
  assumes "onlyOn T i w s w' s'" "stateOk s" "j \<noteq> i" "grantsOk {} s j"
  shows "grantsOk {} s' j"
proof -
  have same: "node s' n = node s n" if "n \<in> set (mLockGrant (item s j))" for n
    using onlyOn_held_same [OF assms(1-3)] that assms(4) by (simp add: grantsOk_def Let_def)
  have "modesOf s' (mLockGrant (item s j)) = modesOf s (mLockGrant (item s j))"
    by (rule modesOf_cong) (simp add: same)
  moreover have "(\<lambda>n. mLockMode (node s' n)) ` set (mLockGrant (item s j)) =
      (\<lambda>n. mLockMode (node s n)) ` set (mLockGrant (item s j))"
    by (rule image_cong) (simp_all add: same)
  moreover have "compatibleNodes s' (set (mLockGrant (item s j)))"
    using assms(4) by (simp add: grantsOk_def Let_def compatibleNodes_def same)
  ultimately show ?thesis
    using assms(4) onlyOnD(3) [OF assms(1,3)] onlyOn_heldOn [OF assms(1-3)]
    by (simp add: grantsOk_def Let_def)
qed

lemma onlyOn_waitsRecorded:
  assumes "onlyOn T i w s w' s'" "stateOk s" "j \<noteq> i" "grantsOk {} s j" "requestsOk w s j"
    "\<And>t n. t < mTransCnt s \<Longrightarrow> queuedOn w s j t n \<Longrightarrow> txOk w s t" "waitsRecorded w s j"
  shows "waitsRecorded w' s' j"
  unfolding waitsRecorded_def
proof (intro allI impI ballI)
  fix t n u
  assume t: "t < mTransCnt s'" "queuedOn w' s' j t n" and u: "u \<in> blockers s' j t n"
  have q: "t < mTransCnt s" "queuedOn w s j t n"
    using t onlyOnD(1) [OF assms(1)] onlyOn_queued [OF assms(1,3)] by auto
  have "mSlotID (node s' x) = mSlotID (node s x)"
    if "x \<in> set (mLockGrant (item s j) @ mLockRequest (item s j))" for x
    using that onlyOn_held_same [OF assms(1-3)] onlyOn_queued_same [OF assms(1,3) _ assms(6)] assms(4,5)
    by (auto simp: grantsOk_def requestsOk_def Let_def)
  then have "blockers s' j t n = blockers s j t n"
    unfolding blockers_def onlyOnD(3) [OF assms(1,3)]
    by (intro arg_cong2 [where f = minus] arg_cong [where f = set] map_cong refl)
      (auto dest: set_takeWhileD)
  then have "idx s t u = 1"
    using u q assms(7) by (auto simp: waitsRecorded_def)
  moreover have "t \<notin> T"
    using q(2) onlyOnD(13) [OF assms(1)] assms(3) by blast
  ultimately show "idx s' t u = 1"
    using onlyOn_rowOk(2) [OF assms(1)] by simp
qed

lemma onlyOn_itemOk:
  assumes "onlyOn T i w s w' s'" "stateOk s" "j \<noteq> i" "itemOk {} w s j"
    "\<And>t n. t < mTransCnt s \<Longrightarrow> queuedOn w s j t n \<Longrightarrow> txOk w s t"
  shows "itemOk {} w' s' j"
proof (cases "mItemFlag (item s j) = SML_FLAG_LIGHT_MODE")
  case True
  have "lightMode (mLockMode (node s' n))" if "n \<in> heldOn s j" for n
    using onlyOn_held_same [OF assms(1-3) that] assms(4) that True
    by (auto simp: itemOk_def lightItem_def)
  with True show ?thesis
    using assms(4) onlyOnD(3) [OF assms(1,3)] onlyOn_heldOn [OF assms(1-3)]
      onlyOn_queuedNodes [OF assms(1,3)]
    by (auto simp: itemOk_def lightItem_def)
next
  case False
  then have ok: "grantsOk {} s j" "requestsOk w s j" "waitsRecorded w s j"
    using assms(4) by (auto simp: itemOk_def)
  have "requestsOk w' s' j"
    using ok(2) onlyOnD(3) [OF assms(1,3)] onlyOn_queuedNodes [OF assms(1,3)]
    by (simp add: requestsOk_def)
  with False show ?thesis
    using onlyOn_grantsOk [OF assms(1-3) ok(1)]
      onlyOn_waitsRecorded [OF assms(1-3) ok(1,2) assms(5) ok(3)] onlyOnD(3) [OF assms(1,3)]
    by (simp add: itemOk_def)
qed

lemma onlyOn_headStuck:
  assumes "onlyOn T i w s w' s'" "j \<noteq> i" "headStuck s j" "itemOk {} w s j"
    "\<And>t n. t < mTransCnt s \<Longrightarrow> queuedOn w s j t n \<Longrightarrow> txOk w s t"
  shows "headStuck s' j"
proof (cases "mLockRequest (item s j)")
  case Nil
  then show ?thesis using onlyOnD(3) [OF assms(1,2)] by (simp add: headStuck_def)
next
  case (Cons n rest)
  then have "mItemFlag (item s j) \<noteq> SML_FLAG_LIGHT_MODE"
    using lightItem_sel(2) [of "{}" w s j] assms(4) by (auto simp: itemOk_def)
  then have "n \<in> queuedNodes w s j"
    using assms(4) Cons by (simp add: itemOk_def requestsOk_def Let_def) blast
  then have "node s' n = node s n"
    by (rule onlyOn_queued_same [OF assms(1,2)]) (use assms(5) in blast)
  with Cons show ?thesis
    using assms(3) onlyOnD(3) [OF assms(1,2)] by (simp add: headStuck_def)
qed

subsection \<open>Composing steps\<close>

lemma midBaseD:
  assumes "midBase F X i w s"
  shows "stateOk s" "t \<in> F \<Longrightarrow> \<not> queuedOn w s j t n"
    "t < mTransCnt s \<Longrightarrow> t \<notin> F \<Longrightarrow> txOk w s t" "t < mTransCnt s \<Longrightarrow> t \<notin> F \<Longrightarrow> rowPhase w s t"
    "j \<noteq> i \<Longrightarrow> itemOk {} w s j" "j \<noteq> i \<Longrightarrow> headStuck s j"
    "t < mTransCnt s \<Longrightarrow> queuedOn w s j t n \<Longrightarrow> txOk w s t"
    "x \<in> X \<Longrightarrow> \<exists>t \<in> F. x \<in> heldBy s i t"
  using assms unfolding midBase_def by blast+

lemma midInvD:
  assumes "midInv F X i w s"
  shows "midBase F X i w s" "itemOk X w s i"
  using assms unfolding midInv_def by blast+

lemma stateOkD:
  assumes "stateOk s"
  shows "waitInv s" "u < mTransCnt s \<Longrightarrow> colOk s u []"
    "mTransCnt s \<le> t \<Longrightarrow> mTransLockNodes s t = []" "t < mTransCnt s \<Longrightarrow> nodesOk s t"
    "mTransCnt s \<le> SML_END_ITEM"
  using assms by (auto simp: stateOk_def waitInv_def)

lemma onlyOn_stateOk:
  assumes "onlyOn T i w s w' s'" "stateOk s"
    "\<And>t. t \<in> T \<Longrightarrow> t < mTransCnt s \<and> nodesOk s' t \<and> (\<exists>xs. rowOk s' t xs)"
  shows "stateOk s'"
proof -
  note D = onlyOnD [OF assms(1)] and S = stateOkD [OF assms(2)]
  have "\<exists>xs. rowOk s' t xs" if "t < mTransCnt s" for t
    using assms(3) onlyOn_rowOk [OF assms(1)] S(1) that by (cases "t \<in> T") (auto simp: waitInv_def)
  moreover have "nodesOk s' t" if "t < mTransCnt s" for t
    using assms(3) onlyOn_nodesOk [OF assms(1)] S(4) that by (cases "t \<in> T") auto
  moreover have "mTransLockNodes s' t = []" if "mTransCnt s \<le> t" for t
    using assms(3) [of t] D(6) [of t] S(3) [OF that] that by (cases "t \<in> T") auto
  ultimately show ?thesis
    using S D(1) onlyOn_colOk [OF assms(1)] unfolding stateOk_def waitInv_def by metis
qed

text \<open>The steps of the library: some transactions work on item \<open>i\<close>; those not in \<open>F'\<close> end in
  order.\<close>

lemma midBase_step:
  assumes mid: "midBase F X i w s" and on: "onlyOn T i w s w' s'"
    and T: "\<And>t. t \<in> T \<Longrightarrow> t < mTransCnt s \<and> nodesOk s' t \<and> (\<exists>xs. rowOk s' t xs)"
    and fin: "\<And>t. t \<in> T \<Longrightarrow> t \<notin> F' \<Longrightarrow> txOk w' s' t \<and> rowPhase w' s' t"
    and F: "F \<subseteq> F' \<union> T" "\<And>t j n. t \<in> F' \<Longrightarrow> \<not> queuedOn w' s' j t n"
    and X: "\<And>x. x \<in> X' \<Longrightarrow> \<exists>t \<in> F'. x \<in> heldBy s' i t"
  shows "midBase F' X' i w' s'"
proof -
  note D = onlyOnD [OF on] and M = midBaseD [OF mid]
  have "txOk w' s' t \<and> rowPhase w' s' t" if "t < mTransCnt s'" "t \<notin> F'" for t
  proof (cases "t \<in> T")
    case False
    with that F(1) have "t \<notin> F" "t < mTransCnt s" using D(1) by auto
    then show ?thesis
      using M(3,4) onlyOn_txOk [OF on False] onlyOn_rowPhase [OF on False] stateOkD(4) [OF M(1)]
      by blast
  qed (use fin that in blast)
  then show ?thesis
    using onlyOn_stateOk [OF on M(1) T] F(2) X onlyOn_itemOk [OF on M(1) _ M(5)]
      onlyOn_headStuck [OF on _ M(6,5)] M(7)
    unfolding midBase_def by blast
qed

lemma lockInv_mid: "lockInv w s \<longleftrightarrow> midInv {} {} i w s \<and> headStuck s i"
  unfolding lockInv_def midInv_def midBase_def by (cases "\<exists>j. j \<noteq> i") auto

text \<open>The same when the transactions in between are not those that work.\<close>

lemma midBase_others:
  assumes mid: "midBase F X i w s" and on: "onlyOn T i w s w' s'" and F: "T \<inter> F = {}"
    and T: "\<And>t. t \<in> T \<Longrightarrow> t < mTransCnt s \<and> nodesOk s' t \<and> txOk w' s' t \<and> rowPhase w' s' t"
  shows "midBase F X i w' s'"
proof (rule midBase_step [OF mid on])
  fix t assume "t \<in> T"
  then show "t < mTransCnt s \<and> nodesOk s' t \<and> (\<exists>xs. rowOk s' t xs)" "txOk w' s' t \<and> rowPhase w' s' t"
    using T rowPhase_row by blast+
next
  fix t j n assume "t \<in> F"
  then show "\<not> queuedOn w' s' j t n"
    using midBaseD(2) [OF mid] onlyOn_queuedOn [OF on] F by blast
next
  fix x assume "x \<in> X"
  then obtain t where "t \<in> F" "x \<in> heldBy s i t" using midBaseD(8) [OF mid] by blast
  moreover have "nodesOk s t"
  proof (cases "t < mTransCnt s")
    case False
    then show ?thesis using stateOkD(3) [OF midBaseD(1) [OF mid]] by (simp add: nodesOk_def)
  qed (use stateOkD(4) midBaseD(1) [OF mid] in blast)
  ultimately show "\<exists>t \<in> F. x \<in> heldBy s' i t"
    using onlyOn_heldBy [OF on] F by blast
qed (use F in blast)

text \<open>A transaction that is not queued can be taken out for a while.\<close>

lemma midBase_out:
  assumes "midBase F X i w s" "\<And>j n. \<not> queuedOn w s j t n"
  shows "midBase (insert t F) X i w s"
  using assms unfolding midBase_def by blast

lemma midBase_in:
  assumes "midBase (insert t F) {} i w s" "txOk w s t" "rowPhase w s t"
  shows "midBase F {} i w s"
  using assms unfolding midBase_def by blast

end
