(* ===== verification/LockItems.thy ===== *)
theory LockItems
  imports LockFrame
begin

text \<open>
  The arithmetic of a lock item: the counters and the flag follow the multiset of the granted
  modes, and the grant list stays consistent when a node is added, removed or changes its mode.
\<close>

subsection \<open>Counters and flag\<close>

definition setCounts :: "smlLockMode multiset \<Rightarrow> smlLockItem \<Rightarrow> smlLockItem" where
  "setCounts M it = it\<lparr>mArrLockCount := (\<lambda>m. int (count M m)), mItemFlag := flagOf (set_mset M)\<rparr>"

lemma setCounts_sel [simp]:
  "mGrantLockMode (setCounts M it) = mGrantLockMode it" "mGrantCnt (setCounts M it) = mGrantCnt it"
  "mRequestCnt (setCounts M it) = mRequestCnt it" "mLockGrant (setCounts M it) = mLockGrant it"
  "mLockRequest (setCounts M it) = mLockRequest it"
  "mLockItemType (setCounts M it) = mLockItemType it" "mSpaceID (setCounts M it) = mSpaceID it"
  "mItemID (setCounts M it) = mItemID it" "mItemFlag (setCounts M it) = flagOf (set_mset M)"
  "mArrLockCount (setCounts M it) m = int (count M m)"
  by (simp_all add: setCounts_def)

lemma itemCounts_setCounts [simp]: "itemCounts (setCounts M it) M"
  by (simp add: itemCounts_def flagModes_of)

lemma flagOf_not_light [simp]: "flagOf M \<noteq> SML_FLAG_LIGHT_MODE"
  using flagModes_not_light [OF flagModes_of] .

lemma itemCounts_cong:
  "mArrLockCount it' = mArrLockCount it \<Longrightarrow> mItemFlag it' = mItemFlag it \<Longrightarrow>
   itemCounts it' M \<longleftrightarrow> itemCounts it M"
  by (simp add: itemCounts_def)

lemma itemCounts_empty: "mItemFlag it = 0 \<Longrightarrow> (\<And>m. mArrLockCount it m = 0) \<Longrightarrow> itemCounts it {#}"
  by (simp add: itemCounts_def)

lemma decTbl_counts:
  assumes "itemCounts it M" "m \<in># M"
  shows "decTblLockModeAndTryUpdate m it = Some (setCounts (M - {#m#}) it)"
proof -
  have c: "mArrLockCount it x = int (count M x)" and f: "mItemFlag it = flagOf (set_mset M)" for x
    using assms(1) flagModes_flagOf by (auto simp: itemCounts_def)
  have pos: "count M m > 0" using assms(2) by simp
  have arr: "(mArrLockCount it)(m := mArrLockCount it m - 1) = (\<lambda>x. int (count (M - {#m#}) x))"
    using pos by (auto simp: c fun_eq_iff)
  show ?thesis
  proof (cases "count M m = 1")
    case True
    then have "set_mset (M - {#m#}) = set_mset M - {m}"
      by (auto simp: in_diff_count simp flip: count_greater_zero_iff split: if_splits)
    then have "mItemFlag it AND NOT (mLockModeToMask m) = flagOf (set_mset (M - {#m#}))"
      using flagModes_remove [OF flagModes_of, of "set_mset M" m]
      by (intro flagModes_flagOf) (simp add: f)
    then show ?thesis
      using True arr by (simp add: decTblLockModeAndTryUpdate_def setCounts_def Let_def c)
  next
    case False
    with pos have "set_mset (M - {#m#}) = set_mset M"
      by (auto simp: in_diff_count simp flip: count_greater_zero_iff split: if_splits)
    then show ?thesis
      using False pos arr f by (simp add: decTblLockModeAndTryUpdate_def setCounts_def Let_def c)
  qed
qed

lemma incTbl_counts:
  assumes "itemCounts it M"
  shows "incTblLockModeAndUpdate m it = Some (setCounts (add_mset m M) it)"
proof -
  have c: "mArrLockCount it x = int (count M x)" and f: "mItemFlag it = flagOf (set_mset M)" for x
    using assms(1) flagModes_flagOf by (auto simp: itemCounts_def)
  have "(mArrLockCount it)(m := mArrLockCount it m + 1) = (\<lambda>x. int (count (add_mset m M) x))"
    by (auto simp: c fun_eq_iff)
  moreover have "mItemFlag it OR mLockModeToMask m = flagOf (set_mset (add_mset m M))"
    using flagModes_insert [OF flagModes_of, of "set_mset M" m] by (intro flagModes_flagOf) (simp add: f)
  ultimately show ?thesis
    by (simp add: incTblLockModeAndUpdate_def setCounts_def Let_def c)
qed

lemma updLockItem_const: "updLockItem i (\<lambda>_. f (item s i)) s = updLockItem i f s"
  by (simp add: updLockItem_def)

lemma onItem_dec:
  "itemCounts (item s i) M \<Longrightarrow> m \<in># M \<Longrightarrow>
   onItem i (decTblLockModeAndTryUpdate m) s = Some (updLockItem i (setCounts (M - {#m#})) s)"
  by (simp add: onItem_def decTbl_counts updLockItem_const)

lemma onItem_inc:
  "itemCounts (item s i) M \<Longrightarrow>
   onItem i (incTblLockModeAndUpdate m) s = Some (updLockItem i (setCounts (add_mset m M)) s)"
  by (simp add: onItem_def incTbl_counts updLockItem_const)

lemma getDecision_counts: "itemCounts it M \<Longrightarrow> getDecision (mItemFlag it) = Some (lubModes (set_mset M))"
  by (simp add: itemCounts_def getDecision_lub)

subsection \<open>The grant list\<close>

lemma grantsOkD:
  assumes "grantsOk X s i"
  shows "distinct (mLockGrant (item s i))" "set (mLockGrant (item s i)) = heldOn s i - X"
    "mGrantCnt (item s i) = int (length (mLockGrant (item s i)))"
    "itemCounts (item s i) (modesOf s (mLockGrant (item s i)))"
    "mGrantLockMode (item s i) = lubModes (set_mset (modesOf s (mLockGrant (item s i))))"
    "compatibleNodes s (set (mLockGrant (item s i)))"
  using assms unfolding grantsOk_def Let_def by blast+

lemma grantsOkI:
  assumes "distinct (mLockGrant (item s i))" "set (mLockGrant (item s i)) = heldOn s i - X"
    "mGrantCnt (item s i) = int (length (mLockGrant (item s i)))"
    "itemCounts (item s i) (modesOf s (mLockGrant (item s i)))"
    "mGrantLockMode (item s i) = lubModes (set_mset (modesOf s (mLockGrant (item s i))))"
    "compatibleNodes s (set (mLockGrant (item s i)))"
  shows "grantsOk X s i"
  using assms unfolding grantsOk_def Let_def by blast

text \<open>A mode compatible with the granted mode is compatible with every granted node.\<close>

lemma grant_compatible:
  assumes "grantsOk X s i" "compatible m (mGrantLockMode (item s i))" "a \<in> set (mLockGrant (item s i))"
  shows "compatible m (mLockMode (node s a))"
proof -
  have "mLockMode (node s a) \<le> mGrantLockMode (item s i)"
    unfolding grantsOkD(5) [OF assms(1)] using assms(3) by (intro lubModes_upper) simp
  then show ?thesis
    using assms(2) compatible_mono compatible_sym by blast
qed

lemma grantsOk_add:
  assumes ok: "grantsOk X s i" and n: "n \<notin> heldOn s i" "n \<notin> X"
    and held: "heldOn s' i = insert n (heldOn s i)"
    and same: "\<And>a. a \<in> heldOn s i \<Longrightarrow> mLockMode (node s' a) = mLockMode (node s a)"
    and mode: "compatible (mLockMode (node s' n)) (mGrantLockMode (item s i))"
    and it: "mLockGrant (item s' i) = mLockGrant (item s i) @ [n]"
      "mGrantCnt (item s' i) = mGrantCnt (item s i) + 1"
      "itemCounts (item s' i) (add_mset (mLockMode (node s' n)) (modesOf s (mLockGrant (item s i))))"
      "mGrantLockMode (item s' i) = sup (mGrantLockMode (item s i)) (mLockMode (node s' n))"
  shows "grantsOk X s' i"
proof -
  let ?G = "mLockGrant (item s i)"
  note G = grantsOkD [OF ok]
  have modes: "modesOf s' ?G = modesOf s ?G"
    by (rule modesOf_cong) (use G(2) same in auto)
  have "compatible (mLockMode (node s' n)) (mLockMode (node s a))" if "a \<in> set ?G" for a
    using grant_compatible [OF ok mode that] .
  then have "compatibleNodes s' (insert n (set ?G))"
    using G(2,6) n same compatible_sym by (auto simp: compatibleNodes_def)
  then show ?thesis
    using G n held by (intro grantsOkI) (auto simp: it modes sup_commute simp del: set_image_mset)
qed

text \<open>A granted node gets a new mode \<open>v\<close>.\<close>

lemma grantsOk_change:
  assumes ok: "grantsOk X s i" and c: "c \<in> set (mLockGrant (item s i))"
    and held: "heldOn s' i = heldOn s i"
    and modes: "\<And>a. a \<in> set (mLockGrant (item s i)) \<Longrightarrow>
      mLockMode (node s' a) = (if a = c then v else mLockMode (node s a))"
    and v: "\<And>a. a \<in> set (mLockGrant (item s i)) \<Longrightarrow> a \<noteq> c \<Longrightarrow> compatible v (mLockMode (node s a))"
    and M: "M = add_mset v (modesOf s (mLockGrant (item s i)) - {#mLockMode (node s c)#})"
    and it: "mLockGrant (item s' i) = mLockGrant (item s i)"
      "mGrantCnt (item s' i) = mGrantCnt (item s i)" "itemCounts (item s' i) M"
      "mGrantLockMode (item s' i) = lubModes (set_mset M)"
  shows "grantsOk X s' i"
proof -
  let ?G = "mLockGrant (item s i)"
  note G = grantsOkD [OF ok]
  have "modesOf s' ?G = image_mset ((\<lambda>a. mLockMode (node s a))(c := v)) (mset ?G)"
    by (rule image_mset_cong) (use modes in auto)
  then have MG: "modesOf s' ?G = M"
    using image_mset_distinct_upd [OF G(1) c] by (simp add: M)
  have "compatibleNodes s' (set ?G)"
    using G(6) v compatible_sym by (auto simp: compatibleNodes_def modes)
  then show ?thesis
    using G held by (intro grantsOkI) (simp_all add: it MG del: set_image_mset)
qed

lemma lub_upgrade:
  assumes "c \<in># M" "v = sup c m"
  shows "lubModes (set_mset (add_mset v (M - {#c#}))) = sup (lubModes (set_mset M)) m"
proof (rule antisym)
  have le: "x \<le> lubModes (set_mset M)" if "x \<in># M - {#c#}" for x
    using that by (intro lubModes_upper) (meson in_diffD)
  show "lubModes (set_mset (add_mset v (M - {#c#}))) \<le> sup (lubModes (set_mset M)) m"
    using lubModes_upper [of c "set_mset M"] assms le
    by (intro lubModes_least) (auto intro: le_supI1 le_supI2)
  have "x \<le> lubModes (set_mset (add_mset v (M - {#c#})))" if "x \<in># M" for x
  proof (cases "x = c")
    case True
    then show ?thesis using assms(2) by (simp add: le_supI1)
  next
    case False
    then have "x \<in># M - {#c#}" using that by (simp add: in_diff_count)
    then show ?thesis by (intro lubModes_upper) auto
  qed
  then show "sup (lubModes (set_mset M)) m \<le> lubModes (set_mset (add_mset v (M - {#c#})))"
    using assms(2) by (intro le_supI lubModes_least) (auto intro: le_supI1)
qed

text \<open>A granted node is converted by \<open>m\<close>.\<close>

lemma grantsOk_upgrade:
  assumes ok: "grantsOk X s i" and c: "c \<in> set (mLockGrant (item s i))"
    and held: "heldOn s' i = heldOn s i"
    and v: "v = sup (mLockMode (node s c)) m"
    and modes: "\<And>a. a \<in> set (mLockGrant (item s i)) \<Longrightarrow>
      mLockMode (node s' a) = (if a = c then v else mLockMode (node s a))"
    and comp: "\<And>a. a \<in> set (mLockGrant (item s i)) \<Longrightarrow> a \<noteq> c \<Longrightarrow> compatible m (mLockMode (node s a))"
    and it: "mLockGrant (item s' i) = mLockGrant (item s i)"
      "mGrantCnt (item s' i) = mGrantCnt (item s i)"
      "itemCounts (item s' i)
        (add_mset v (modesOf s (mLockGrant (item s i)) - {#mLockMode (node s c)#}))"
      "mGrantLockMode (item s' i) = sup (mGrantLockMode (item s i)) m"
  shows "grantsOk X s' i"
proof (rule grantsOk_change [OF ok c held modes _ refl it(1,2,3)])
  fix a
  assume "a \<in> set (mLockGrant (item s i))" "a \<noteq> c"
  then show "compatible v (mLockMode (node s a))"
    using comp grantsOkD(6) [OF ok] c by (auto simp: v compatible_sup compatibleNodes_def)
next
  show "mGrantLockMode (item s' i) = lubModes (set_mset
      (add_mset v (modesOf s (mLockGrant (item s i)) - {#mLockMode (node s c)#})))"
    unfolding it(4) grantsOkD(5) [OF ok] using c by (intro lub_upgrade [symmetric] v) simp
qed

lemma grantsOk_remove:
  assumes ok: "grantsOk X s i" and c: "c \<in> set (mLockGrant (item s i))"
    and held: "heldOn s' i = heldOn s i"
    and modes: "\<And>a. a \<in> set (mLockGrant (item s i)) \<Longrightarrow> a \<noteq> c \<Longrightarrow>
      mLockMode (node s' a) = mLockMode (node s a)"
    and M: "M = modesOf s (mLockGrant (item s i)) - {#mLockMode (node s c)#}"
    and it: "mLockGrant (item s' i) = remove1 c (mLockGrant (item s i))"
      "mGrantCnt (item s' i) = mGrantCnt (item s i) - 1" "itemCounts (item s' i) M"
      "mGrantLockMode (item s' i) = lubModes (set_mset M)"
  shows "grantsOk (insert c X) s' i"
proof -
  let ?G = "mLockGrant (item s i)"
  note G = grantsOkD [OF ok]
  have "modesOf s' (remove1 c ?G) = modesOf s (remove1 c ?G)"
    by (rule modesOf_cong) (use G(1) modes in \<open>auto simp: set_remove1_distinct\<close>)
  also have "\<dots> = M"
    using c by (simp add: M image_mset_Diff)
  finally have MG: "modesOf s' (remove1 c ?G) = M" .
  have "int (length ?G - Suc 0) = int (length ?G) - 1" using c by (cases ?G) auto
  moreover have "compatibleNodes s' (set ?G - {c})"
    using G(6) modes by (auto simp: compatibleNodes_def)
  ultimately show ?thesis
    using G held c by (intro grantsOkI)
      (auto simp: it MG set_remove1_distinct length_remove1_mem simp del: mset_remove1)
qed

end
