(* ===== verification/LockWake.thy ===== *)
theory LockWake
  imports LockItems
begin

text \<open>
  Waking the requests of an item: granting the head request, converting the only granted node,
  and the loop \<open>wakeupRequestLockNodeInLockItem\<close>, which leaves the head of the queue stuck.
\<close>

subsection \<open>The waiting table under a step of one transaction\<close>

definition waitsOnly :: "slot_id \<Rightarrow> lockState \<Rightarrow> lockState \<Rightarrow> bool" where
  "waitsOnly t s s' \<longleftrightarrow> mTransCnt s' = mTransCnt s \<and>
     (\<forall>a. a \<noteq> t \<longrightarrow> mWaitForTable s' a = mWaitForTable s a \<and>
        mFstWaitTblTransItem s' a = mFstWaitTblTransItem s a) \<and>
     (\<forall>a b. nxtRec s' a b = nxtRec s a b) \<and> mFstWaitRecTransItem s' = mFstWaitRecTransItem s \<and>
     mLstWaitRecTransItem s' = mLstWaitRecTransItem s"

definition sameWaits :: "lockState \<Rightarrow> lockState \<Rightarrow> bool" where
  "sameWaits s s' \<longleftrightarrow> mTransCnt s' = mTransCnt s \<and> mWaitForTable s' = mWaitForTable s \<and>
     mFstWaitTblTransItem s' = mFstWaitTblTransItem s \<and>
     mFstWaitRecTransItem s' = mFstWaitRecTransItem s \<and>
     mLstWaitRecTransItem s' = mLstWaitRecTransItem s"

lemma sameWaits_refl [simp]: "sameWaits s s"
  by (simp add: sameWaits_def)

lemma sameWaits_trans: "sameWaits s s' \<Longrightarrow> sameWaits s' s'' \<Longrightarrow> sameWaits s s''"
  by (simp add: sameWaits_def)

lemma sameWaits_upd [simp]:
  "sameWaits s (updNode n f s') = sameWaits s s'" "sameWaits s (updLockItem i g s') = sameWaits s s'"
  "sameWaits s (setTransNodes t ns s') = sameWaits s s'"
  "sameWaits s (setTransSlots t ls s') = sameWaits s s'"
  "sameWaits s (setStatus t st s') = sameWaits s s'"
  by (simp_all add: sameWaits_def)

lemma sameWaitsD:
  assumes "sameWaits s s'"
  shows "mTransCnt s' = mTransCnt s" "rowOk s' a xs \<longleftrightarrow> rowOk s a xs" "colOk s' a xs \<longleftrightarrow> colOk s a xs"
    "idx s' a b = idx s a b" "nxtRec s' a b = nxtRec s a b" "waitInv s' \<longleftrightarrow> waitInv s"
  using assms by (simp_all add: sameWaits_def rowOk_def colOk_def waitInv_def)

lemma sameWaits_only: "sameWaits s s' \<Longrightarrow> waitsOnly t s s'"
  by (simp add: sameWaits_def waitsOnly_def)

lemma waitsOnly_trans: "waitsOnly t s s' \<Longrightarrow> waitsOnly t s' s'' \<Longrightarrow> waitsOnly t s s''"
  by (simp add: waitsOnly_def)

lemma onlyRow_waitsOnly: "onlyRow t s s' \<Longrightarrow> waitsOnly t s s'"
  using onlyRow_nxtRec [of t s s'] by (simp add: onlyRow_def waitsOnly_def)

text \<open>Clearing a row without \<open>aDoInit\<close> keeps its chain and zeroes its path lengths.\<close>

lemma clearWaitItemColsOfTrans_keep:
  assumes "rowOk s a xs"
  shows "\<exists>s'. clearWaitItemColsOfTrans False a s = Some s' \<and> rowOk s' a xs \<and> onlyRow a s s' \<and>
    (\<forall>j < mTransCnt s. idx s' a j = 0)"
proof -
  have "chain (nxt s a) (mFstWaitTblTransItem s a) xs" "distinct xs"
    using assms by (simp_all add: rowOk_def)
  from clearWaitItemColsOfTrans_chain [OF this rowOk_length [OF assms], of False]
  have "clearWaitItemColsOfTrans False a s =
      Some (updRow a (\<lambda>j. if j \<in> set xs then clearItem False else id) s)"
    by simp
  moreover have "chain (nxt (updRow a (\<lambda>j. if j \<in> set xs then clearItem False else id) s) a)
      (mFstWaitTblTransItem s a) xs"
    using assms by (subst chain_cong [where nx = "nxt s a"]) (simp_all add: rowOk_def)
  ultimately show ?thesis
    using assms by (auto simp: rowOk_def onlyRow_def)
qed

subsection \<open>Steps of one transaction\<close>

lemma onlyOn_single:
  assumes "waitsOnly t s s'" "mNextLockNode s \<le> mNextLockNode s'" "\<And>j. j \<noteq> i \<Longrightarrow> item s' j = item s j"
    "\<And>u. u \<noteq> t \<Longrightarrow> w' u = w u \<and> mStatus s' u = mStatus s u \<and>
       mTransLockNodes s' u = mTransLockNodes s u \<and> mTransLockSlots s' u = mTransLockSlots s u"
    "\<And>n. n < mNextLockNode s \<Longrightarrow> mSlotID (node s n) \<noteq> t \<or> mLockItem (node s n) \<noteq> i \<Longrightarrow>
       node s' n = node s n"
    "\<And>j. j \<noteq> i \<Longrightarrow> heldBy s' j t = heldBy s j t"
    "\<And>j n. j \<noteq> i \<Longrightarrow> \<not> queuedOn w s j t n \<and> \<not> queuedOn w' s' j t n"
  shows "onlyOn {t} i w s w' s'"
  using assms unfolding onlyOn_def waitsOnly_def by simp

text \<open>What a step leaves to a transaction that does not take part.\<close>

definition keeps :: "slot_id \<Rightarrow> lockState \<Rightarrow> lockState \<Rightarrow> bool" where
  "keeps u s s' \<longleftrightarrow> mTransCnt s' = mTransCnt s \<and> mNextLockNode s \<le> mNextLockNode s' \<and>
     mStatus s' u = mStatus s u \<and>
     mTransLockNodes s' u = mTransLockNodes s u \<and> mTransLockSlots s' u = mTransLockSlots s u \<and>
     (\<forall>n < mNextLockNode s. mSlotID (node s n) = u \<longrightarrow> node s' n = node s n) \<and>
     mWaitForTable s' u = mWaitForTable s u \<and> mFstWaitTblTransItem s' u = mFstWaitTblTransItem s u"

lemma keeps_refl [simp]: "keeps u s s"
  by (simp add: keeps_def)

lemma keeps_trans: "keeps u s s' \<Longrightarrow> keeps u s' s'' \<Longrightarrow> keeps u s s''"
  by (auto simp: keeps_def)

lemma onlyOn_keeps: "onlyOn T i w s w' s' \<Longrightarrow> u \<notin> T \<Longrightarrow> keeps u s s'"
  using onlyOnD [of T i w s w' s'] unfolding keeps_def by blast

lemma keepsD:
  assumes "keeps u s s'"
  shows "mTransCnt s' = mTransCnt s" "mNextLockNode s \<le> mNextLockNode s'"
    "mStatus s' u = mStatus s u" "mTransLockNodes s' u = mTransLockNodes s u"
    "mTransLockSlots s' u = mTransLockSlots s u"
    "n < mNextLockNode s \<Longrightarrow> mSlotID (node s n) = u \<Longrightarrow> node s' n = node s n"
    "rowOk s' u xs \<longleftrightarrow> rowOk s u xs"
  using assms by (auto simp: keeps_def rowOk_def)

subsection \<open>Granting the head request\<close>

lemma itemCounts_upd [simp]:
  "itemCounts (mLockRequest_update f it) M = itemCounts it M"
  "itemCounts (mLockGrant_update f it) M = itemCounts it M"
  "itemCounts (mGrantLockMode_update g it) M = itemCounts it M"
  "itemCounts (mGrantCnt_update h it) M = itemCounts it M"
  "itemCounts (mRequestCnt_update h it) M = itemCounts it M"
  by (simp_all add: itemCounts_def)

lemma wakeup_grant_fresh:
  assumes "mCvsLockNode (node s n) = None" "itemCounts (item s i) M"
    "mLockRequest (item s i) = n # rest" "mSlotID (node s n) = t"
    "n \<notin> set (mTransLockNodes s t)" "\<not> mDoRemove (node s n)" "mLockMode (node s n) = m"
  shows "\<exists>s'. wakeup_grant i n s = Some s' \<and>
    mLockNodes s' = (mLockNodes s)(n := (node s n)\<lparr>mBeGrant := True\<rparr>) \<and>
    (\<forall>j. j \<noteq> i \<longrightarrow> item s' j = item s j) \<and>
    mLockGrant (item s' i) = mLockGrant (item s i) @ [n] \<and>
    mGrantCnt (item s' i) = mGrantCnt (item s i) + 1 \<and> mLockRequest (item s' i) = rest \<and>
    mRequestCnt (item s' i) = mRequestCnt (item s i) \<and>
    mGrantLockMode (item s' i) = sup (mGrantLockMode (item s i)) m \<and>
    itemCounts (item s' i) (add_mset m M) \<and>
    mItemFlag (item s' i) \<noteq> SML_FLAG_LIGHT_MODE \<and>
    mTransLockNodes s' = (mTransLockNodes s)(t := mTransLockNodes s t @ [n]) \<and>
    mTransLockSlots s' = mTransLockSlots s \<and> mNextLockNode s' = mNextLockNode s \<and>
    mStatus s' = mStatus s \<and> sameWaits s s'"
  using assms by (simp add: wakeup_grant_def Let_def onItem_inc addLockNodeToGrantTail_def
      addLockNode_def conversion_sup)

lemma wakeup_grant_cvs:
  assumes "mCvsLockNode (node s n) = Some c" "c \<noteq> n" "itemCounts (item s i) M"
    "mLockRequest (item s i) = n # rest" "mLockMode (node s c) \<in># M" "mLockMode (node s n) = m"
    "v = sup (mLockMode (node s c)) m"
  shows "\<exists>s'. wakeup_grant i n s = Some s' \<and>
    mLockNodes s' = (mLockNodes s)(c := (node s c)\<lparr>mLockMode := v\<rparr>,
      n := (node s n)\<lparr>mDoRemove := True\<rparr>) \<and>
    (\<forall>j. j \<noteq> i \<longrightarrow> item s' j = item s j) \<and>
    mLockGrant (item s' i) = mLockGrant (item s i) \<and>
    mGrantCnt (item s' i) = mGrantCnt (item s i) \<and> mLockRequest (item s' i) = rest \<and>
    mRequestCnt (item s' i) = mRequestCnt (item s i) \<and>
    mGrantLockMode (item s' i) = sup (mGrantLockMode (item s i)) m \<and>
    itemCounts (item s' i) (add_mset v (M - {#mLockMode (node s c)#})) \<and>
    mItemFlag (item s' i) \<noteq> SML_FLAG_LIGHT_MODE \<and>
    mTransLockNodes s' = mTransLockNodes s \<and>
    mTransLockSlots s' = mTransLockSlots s \<and> mNextLockNode s' = mNextLockNode s \<and>
    mStatus s' = mStatus s \<and> sameWaits s s'"
  using assms by (auto simp: wakeup_grant_def Let_def onItem_dec conversion_sup
      onItem_inc [where M = "M - {#mLockMode (node s c)#}"])

lemma wakeup_convert_only:
  assumes "c \<noteq> n" "itemCounts (item s i) M"
    "mLockRequest (item s i) = n # rest" "mLockMode (node s c) \<in># M" "mLockMode (node s n) = m"
    "v = sup (mGrantLockMode (item s i)) m"
  shows "\<exists>s'. wakeup_convert i n c s = Some s' \<and>
    mLockNodes s' = (mLockNodes s)(c := (node s c)\<lparr>mLockMode := v\<rparr>,
      n := (node s n)\<lparr>mDoRemove := True\<rparr>) \<and>
    (\<forall>j. j \<noteq> i \<longrightarrow> item s' j = item s j) \<and>
    mLockGrant (item s' i) = mLockGrant (item s i) \<and>
    mGrantCnt (item s' i) = mGrantCnt (item s i) \<and> mLockRequest (item s' i) = rest \<and>
    mRequestCnt (item s' i) = mRequestCnt (item s i) \<and>
    mGrantLockMode (item s' i) = v \<and>
    itemCounts (item s' i) (add_mset v (M - {#mLockMode (node s c)#})) \<and>
    mItemFlag (item s' i) \<noteq> SML_FLAG_LIGHT_MODE \<and>
    mTransLockNodes s' = mTransLockNodes s \<and>
    mTransLockSlots s' = mTransLockSlots s \<and> mNextLockNode s' = mNextLockNode s \<and>
    mStatus s' = mStatus s \<and> sameWaits s s'"
  using assms by (auto simp: wakeup_convert_def Let_def onItem_dec conversion_sup
      onItem_inc [where M = "M - {#mLockMode (node s c)#}"])

lemma wakeup_finish_ok:
  assumes "mSlotID (node s n) = t" "mStatus s t = SMX_TX_BLOCKED" "rowOk s t xs"
  shows "\<exists>s'. wakeup_finish i n s = Some s' \<and> mLockNodes s' = mLockNodes s \<and>
    mLockItems s' = (mLockItems s)(i := (item s i)\<lparr>mRequestCnt := mRequestCnt (item s i) - 1\<rparr>) \<and>
    mTransLockNodes s' = mTransLockNodes s \<and> mTransLockSlots s' = mTransLockSlots s \<and>
    mNextLockNode s' = mNextLockNode s \<and> mStatus s' = (mStatus s)(t := SMX_TX_BEGIN) \<and>
    waitsOnly t s s' \<and> rowOk s' t xs \<and> (\<forall>j < mTransCnt s. idx s' t j = 0)"
proof -
  let ?s1 = "updLockItem i (\<lambda>it. it\<lparr>mRequestCnt := mRequestCnt it - 1\<rparr>) s"
  have "rowOk ?s1 t xs" using assms(3) by simp
  from clearWaitItemColsOfTrans_keep [OF this] obtain s2 where
    s2: "clearWaitItemColsOfTrans False t ?s1 = Some s2" "rowOk s2 t xs" "onlyRow t ?s1 s2"
      "\<forall>j < mTransCnt s. idx s2 t j = 0"
    by auto
  note more = more_lock [OF onlyRow_more [OF s2(3)]]
  have "waitsOnly t s s2"
    using onlyRow_waitsOnly [OF s2(3)] by (simp add: waitsOnly_def)
  then show ?thesis
    using assms(1,2) s2 more
    by (auto simp: wakeup_finish_def Let_def resumeTrans_def waitsOnly_def)
qed

subsection \<open>Requests and recorded waits when the head request leaves\<close>

lemma itemOk_heavyD:
  assumes "itemOk X w s i" "mItemFlag (item s i) \<noteq> SML_FLAG_LIGHT_MODE"
  shows "grantsOk X s i" "requestsOk w s i" "waitsRecorded w s i"
  using assms by (auto simp: itemOk_def)

lemma itemOk_heavyI:
  assumes "mItemFlag (item s i) \<noteq> SML_FLAG_LIGHT_MODE" "grantsOk X s i" "requestsOk w s i"
    "waitsRecorded w s i"
  shows "itemOk X w s i"
  using assms by (simp add: itemOk_def)

lemma requestsOkD:
  assumes "requestsOk w s i"
  shows "distinct (mLockRequest (item s i))" "set (mLockRequest (item s i)) = queuedNodes w s i"
    "mRequestCnt (item s i) = int (length (mLockRequest (item s i)))"
  using assms unfolding requestsOk_def Let_def by blast+

text \<open>A queued request and its transaction.\<close>

lemma midBase_queued:
  assumes mid: "midBase F X i w s" and n: "n \<in> queuedNodes w s i"
  obtains t m c k where "t < mTransCnt s" "t \<notin> F" "w t = TxWaiting i m n c k"
    "mStatus s t = SMX_TX_BLOCKED" "waitingOk s t i m n c" "mSlotID (node s n) = t"
    "mLockItem (node s n) = i" "mLockMode (node s n) = m" "n < mNextLockNode s"
    "n \<notin> set (mTransLockNodes s t)"
proof -
  from n obtain t where t: "t < mTransCnt s" "queuedOn w s i t n"
    by (auto simp: queuedNodes_def)
  then obtain m c k where w: "w t = TxWaiting i m n c k" "mStatus s t = SMX_TX_BLOCKED"
    by (auto simp: queuedOn_def)
  note tx = midBaseD(7) [OF mid t]
  then have "waitingOk s t i m n c" by (simp add: txOk_def phaseOk_def w)
  moreover have "t \<notin> F" using midBaseD(2) [OF mid] t by blast
  ultimately show ?thesis
    using that [OF t(1) _ w] w(2) by (auto simp: waitingOk_def requestNode_def split: if_splits)
qed

lemma midBase_X:
  assumes "midBase F X i w s"
  shows "X \<subseteq> heldOn s i"
proof
  fix x assume "x \<in> X"
  then obtain t where "x \<in> heldBy s i t" using midBaseD(8) [OF assms] by blast
  moreover from this have "t < mTransCnt s"
    using stateOkD(3) [OF midBaseD(1) [OF assms], of t] by (cases "t < mTransCnt s") (auto simp: heldBy_def)
  ultimately show "x \<in> heldOn s i" by (auto simp: heldOn_def)
qed

lemma queuedOn_same_tx: "queuedOn w s i t n \<Longrightarrow> queuedOn w s j t n' \<Longrightarrow> i = j \<and> n = n'"
  by (auto simp: queuedOn_def)

lemma requests_pop:
  assumes ok: "distinct R" "set R = insert n (queuedNodes w' s' i)" "n \<notin> queuedNodes w' s' i" "cnt = int (length R)"
    and s': "mLockRequest (item s' i) = remove1 n R" "mRequestCnt (item s' i) = cnt - 1"
  shows "requestsOk w' s' i"
proof -
  have "length R > 0" using ok(2) by (cases R) auto
  then have "int (length R - Suc 0) = int (length R) - 1" by linarith
  then show ?thesis
    using ok s' by (auto simp: requestsOk_def Let_def length_remove1 set_remove1_distinct)
qed

lemma takeWhile_remove1: "x \<noteq> n \<Longrightarrow> set (takeWhile (\<lambda>r. r \<noteq> x) (remove1 n R)) \<subseteq> set (takeWhile (\<lambda>r. r \<noteq> x) R)"
proof (induction R)
  case (Cons a R)
  then show ?case by (cases "a = n"; cases "a = x") (simp_all add: subset_insertI2)
qed simp

lemma waits_pop:
  assumes ok: "waitsRecorded w s i"
    and s': "mLockRequest (item s' i) = remove1 n (mLockRequest (item s i))" "mTransCnt s' = mTransCnt s"
      "\<And>u x. u < mTransCnt s \<Longrightarrow> queuedOn w' s' i u x \<Longrightarrow> queuedOn w s i u x \<and> x \<noteq> n \<and> u \<noteq> t"
      "\<And>x. mSlotID (node s' x) = mSlotID (node s x)"
      "\<And>u v. u \<noteq> t \<Longrightarrow> idx s' u v = idx s u v"
      "set (slotsOf s (mLockGrant (item s' i))) \<subseteq> set (slotsOf s (mLockGrant (item s i))) \<or>
        mLockRequest (item s i) \<noteq> [] \<and> hd (mLockRequest (item s i)) = n \<and>
        set (mLockGrant (item s' i)) \<subseteq> insert n (set (mLockGrant (item s i)))"
  shows "waitsRecorded w' s' i"
  unfolding waitsRecorded_def
proof (intro allI impI ballI)
  fix u x v
  assume u: "u < mTransCnt s'" "queuedOn w' s' i u x" and v: "v \<in> blockers s' i u x"
  then have q: "u < mTransCnt s" "u \<noteq> t" "queuedOn w s i u x" "x \<noteq> n" using s'(2,3) by auto
  have "set (slotsOf s (mLockGrant (item s' i))) \<subseteq> set (slotsOf s (mLockGrant (item s i) @
      takeWhile (\<lambda>r. r \<noteq> x) (mLockRequest (item s i))))"
    using s'(6) q(4) by (cases "mLockRequest (item s i)") auto
  moreover have "set (slotsOf s (takeWhile (\<lambda>r. r \<noteq> x) (mLockRequest (item s' i)))) \<subseteq>
      set (slotsOf s (takeWhile (\<lambda>r. r \<noteq> x) (mLockRequest (item s i))))"
    using takeWhile_remove1 [OF q(4)] unfolding s'(1) by (simp add: image_mono)
  ultimately have "v \<in> blockers s i u x"
    using v unfolding blockers_def by (simp add: s'(4)) blast
  then have "idx s u v = 1"
    using ok q by (auto simp: waitsRecorded_def)
  then show "idx s' u v = 1"
    using s'(5) q(2) by simp
qed

lemma midBase_slot:
  assumes "midBase F X i w s" "u < mTransCnt s" "queuedOn w s j u x"
  shows "mSlotID (node s x) = u"
  using queuedOn_node(2) midBaseD(7) [OF assms] assms(3) by blast

text \<open>The queue when \<open>t\<close> leaves it.\<close>

lemma queued_leave:
  assumes mid: "midBase F X i w s"
    and n: "n \<in> queuedNodes w s i" "mSlotID (node s n) = t" and N: "mTransCnt s' = mTransCnt s"
    and q: "\<And>u x. queuedOn w' s' i u x \<longleftrightarrow> u \<noteq> t \<and> queuedOn w s i u x"
  shows "queuedNodes w s i = insert n (queuedNodes w' s' i)" "n \<notin> queuedNodes w' s' i"
proof -
  have slot: "mSlotID (node s x) = u" if "u < mTransCnt s" "queuedOn w s i u x" for u x
    using midBase_slot [OF mid that] .
  obtain v where v: "v < mTransCnt s" "queuedOn w s i v n"
    using n(1) by (auto simp: queuedNodes_def)
  have vt: "v = t" using slot [OF v] n(2) by simp
  show nn: "n \<notin> queuedNodes w' s' i"
    using slot n(2) unfolding queuedNodes_def N q by blast
  have "x = n" if "queuedOn w s i t x" for x
    using queuedOn_same_tx [OF that v(2) [unfolded vt]] by simp
  then show "queuedNodes w s i = insert n (queuedNodes w' s' i)"
    using n(1) unfolding queuedNodes_def N q by blast
qed

subsection \<open>One request woken\<close>

lemma slotsOkD:
  assumes "slotsOk P s t"
  shows "sorted_wrt (<) (map (slotSequence s) (mTransLockSlots s t))"
    "set (mTransLockSlots s t) =
       {(n, m). n \<in> set (mTransLockNodes s t) \<and> mLockSequence (node s n) m \<noteq> 0}"
    "n \<in> set (mTransLockNodes s t) \<Longrightarrow> flagModes (mNodeFlag (node s n)) (slotModes s t n \<union> P n)"
    "n \<in> set (mTransLockNodes s t) \<Longrightarrow> lubModes (slotModes s t n \<union> P n) \<le> mLockMode (node s n)"
    "n \<in> set (mTransLockNodes s t) \<Longrightarrow> mLockSequence (node s n) SML_NLOCK = 0"
  using assms unfolding slotsOk_def by blast+

lemma slotsOkI:
  assumes "sorted_wrt (<) (map (slotSequence s) (mTransLockSlots s t))"
    "set (mTransLockSlots s t) =
       {(n, m). n \<in> set (mTransLockNodes s t) \<and> mLockSequence (node s n) m \<noteq> 0}"
    "\<And>n. n \<in> set (mTransLockNodes s t) \<Longrightarrow> flagModes (mNodeFlag (node s n)) (slotModes s t n \<union> P n) \<and>
       lubModes (slotModes s t n \<union> P n) \<le> mLockMode (node s n) \<and> mLockSequence (node s n) SML_NLOCK = 0"
  shows "slotsOk P s t"
  using assms unfolding slotsOk_def by blast

text \<open>The sequences seen through the slot list.\<close>

lemma slotSequence_cong:
  assumes "\<And>n m. (n, m) \<in> set L \<Longrightarrow> mLockSequence (node s' n) = mLockSequence (node s n)"
  shows "map (slotSequence s') L = map (slotSequence s) L"
  by (rule map_cong) (use assms in auto)

lemma slotsOk_mono:
  assumes ok: "slotsOk P s t" and same: "mTransLockSlots s' t = mTransLockSlots s t"
      "mTransLockNodes s' t = mTransLockNodes s t"
    and nodes: "\<And>n. n \<in> set (mTransLockNodes s t) \<Longrightarrow>
      mLockSequence (node s' n) = mLockSequence (node s n) \<and>
      mNodeFlag (node s' n) = mNodeFlag (node s n) \<and> mLockMode (node s n) \<le> mLockMode (node s' n)"
  shows "slotsOk P s' t"
proof -
  note O = slotsOkD [OF ok] and L = slotsOkD(2) [OF ok]
  have "map (slotSequence s') (mTransLockSlots s t) = map (slotSequence s) (mTransLockSlots s t)"
    by (rule slotSequence_cong) (use L nodes in auto)
  then have "sorted_wrt (<) (map (slotSequence s') (mTransLockSlots s t))"
    using O(1) by (simp only:)
  moreover have "set (mTransLockSlots s t) =
      {(n, m). n \<in> set (mTransLockNodes s t) \<and> mLockSequence (node s' n) m \<noteq> 0}"
    unfolding L using nodes by auto
  moreover have "flagModes (mNodeFlag (node s' n)) (slotModes s t n \<union> P n) \<and>
      lubModes (slotModes s t n \<union> P n) \<le> mLockMode (node s' n) \<and>
      mLockSequence (node s' n) SML_NLOCK = 0" if "n \<in> set (mTransLockNodes s t)" for n
    using O(3-5) [OF that] nodes [OF that] by (simp add: order_trans [of _ "mLockMode (node s n)"])
  ultimately show ?thesis
    by (intro slotsOkI) (simp_all only: same)
qed

text \<open>A node without slots is linked.\<close>

lemma slotsOk_link:
  assumes ok: "slotsOk P s t" and n: "n \<notin> set (mTransLockNodes s t)"
    and s': "mTransLockSlots s' t = mTransLockSlots s t"
      "mTransLockNodes s' t = mTransLockNodes s t @ [n]"
    and same: "\<And>x. x \<in> set (mTransLockNodes s t) \<Longrightarrow> node s' x = node s x \<and> P' x = P x"
    and new: "mLockSequence (node s' n) = (\<lambda>_. 0)" "flagModes (mNodeFlag (node s' n)) (P' n)"
      "lubModes (P' n) \<le> mLockMode (node s' n)"
  shows "slotsOk P' s' t"
proof -
  note O = slotsOkD [OF ok] and L = slotsOkD(2) [OF ok]
  have "map (slotSequence s') (mTransLockSlots s t) = map (slotSequence s) (mTransLockSlots s t)"
    by (rule slotSequence_cong) (use L same in auto)
  then have "sorted_wrt (<) (map (slotSequence s') (mTransLockSlots s t))"
    using O(1) by (simp only:)
  moreover have "set (mTransLockSlots s t) =
      {(x, m). x \<in> set (mTransLockNodes s t @ [n]) \<and> mLockSequence (node s' x) m \<noteq> 0}"
    unfolding L using same new(1) by auto
  moreover have "flagModes (mNodeFlag (node s' x)) (slotModes s t x \<union> P' x) \<and>
      lubModes (slotModes s t x \<union> P' x) \<le> mLockMode (node s' x) \<and>
      mLockSequence (node s' x) SML_NLOCK = 0"
    if "x \<in> set (mTransLockNodes s t @ [n])" for x
  proof (cases "x = n")
    case True
    then have "slotModes s t x = {}" using L n by auto
    with True new show ?thesis by simp
  next
    case False
    with that have "x \<in> set (mTransLockNodes s t)" by simp
    then show ?thesis using O(3-5) same by simp
  qed
  ultimately show ?thesis
    by (intro slotsOkI) (simp_all only: s')
qed

lemma nodesOk_link:
  assumes ok: "nodesOk s t" and held: "heldBy s i t = {}"
    and s': "mTransLockNodes s' t = mTransLockNodes s t @ [n]"
    and same: "\<And>x. x \<in> set (mTransLockNodes s t) \<Longrightarrow> node s' x = node s x"
    and new: "heldNodeOk s' t n" "mLockItem (node s' n) = i" and mono: "mNextLockNode s \<le> mNextLockNode s'"
  shows "nodesOk s' t"
proof -
  have "map (\<lambda>n. mLockItem (node s' n)) (mTransLockNodes s t) =
      map (\<lambda>n. mLockItem (node s n)) (mTransLockNodes s t)"
    by (rule map_cong) (use same in auto)
  then have "distinct (map (\<lambda>n. mLockItem (node s' n)) (mTransLockNodes s t))"
    using ok unfolding nodesOk_def by metis
  moreover have "mLockItem (node s' x) \<noteq> i" if "x \<in> set (mTransLockNodes s t)" for x
    using held same [OF that] that by (auto simp: heldBy_def)
  moreover have "heldNodeOk s' t x" if "x \<in> set (mTransLockNodes s t)" for x
    using nodesOkD [OF ok that] same [OF that] mono by (simp add: heldNodeOk_def)
  ultimately show ?thesis
    using new unfolding nodesOk_def s' by (auto simp: image_iff) metis
qed

lemma heldOn_eq:
  assumes "mTransCnt s' = mTransCnt s" "\<And>u. u < mTransCnt s \<Longrightarrow> u \<noteq> t \<Longrightarrow> heldBy s' i u = heldBy s i u"
    "t < mTransCnt s" "heldBy s' i t = A \<union> heldBy s i t"
  shows "heldOn s' i = A \<union> heldOn s i"
proof -
  have "{..<mTransCnt s} = insert t {..<mTransCnt s}" using assms(3) by auto
  then have "heldOn s' i = heldBy s' i t \<union> (\<Union>u \<in> {..<mTransCnt s} - {t}. heldBy s' i u)"
    "heldOn s i = heldBy s i t \<union> (\<Union>u \<in> {..<mTransCnt s} - {t}. heldBy s i u)"
    using assms(1) unfolding heldOn_def by auto
  moreover have "(\<Union>u \<in> {..<mTransCnt s} - {t}. heldBy s' i u) =
      (\<Union>u \<in> {..<mTransCnt s} - {t}. heldBy s i u)"
    using assms(2) by auto
  ultimately show ?thesis using assms(4) by auto
qed

lemma rowPhase_cleared:
  assumes "w t = TxWaiting i m n c k" "rowPhase w s t" "rowOk s t xs" "rowOk s' t xs"
    "mTransCnt s' = mTransCnt s" "\<And>j. j < mTransCnt s \<Longrightarrow> idx s' t j = 0"
  shows "rowPhase w s' t"
proof -
  obtain ys where ys: "rowOk s t ys" "\<not> k \<longrightarrow> t \<notin> set ys"
    using assms(1,2) by (auto simp: rowPhase_def)
  then have "ys = xs" using rowOk_unique assms(3) by blast
  moreover have "set xs \<subseteq> {..<mTransCnt s}" using assms(3) by (simp add: rowOk_def)
  ultimately have "rowOk s' t xs \<and> (\<not> k \<longrightarrow> t \<notin> set xs \<and> (\<forall>x \<in> set xs. idx s' t x \<le> 1))"
    using assms(4,6) ys(2) by auto
  then show ?thesis
    using assms(1,5,6) by (auto simp: rowPhase_def)
qed

lemma held_unique:
  assumes "stateOk s" "u < mTransCnt s" "t < mTransCnt s" "n \<in> heldBy s i u" "n \<in> heldBy s j t"
  shows "u = t"
  using nodesOkD(2) [OF stateOkD(4) [OF assms(1,2)]] nodesOkD(2) [OF stateOkD(4) [OF assms(1,3)]]
    assms(4,5) by (auto simp: heldBy_def)

text \<open>The state after \<open>t\<close>, queued on item \<open>i\<close>, has been resumed.\<close>

definition resumed :: "slot_id \<Rightarrow> item_id \<Rightarrow> lockState \<Rightarrow> lockState \<Rightarrow> bool" where
  "resumed t i s s' \<longleftrightarrow> (\<forall>j. j \<noteq> i \<longrightarrow> item s' j = item s j) \<and>
     mTransLockSlots s' = mTransLockSlots s \<and> mNextLockNode s' = mNextLockNode s \<and>
     mStatus s' = (mStatus s)(t := SMX_TX_BEGIN) \<and> waitsOnly t s s' \<and>
     (\<forall>xs. rowOk s t xs \<longrightarrow> rowOk s' t xs) \<and> (\<forall>j < mTransCnt s. idx s' t j = 0)"

lemma resumedD:
  assumes "resumed t i s s'"
  shows "j \<noteq> i \<Longrightarrow> item s' j = item s j" "mTransLockSlots s' = mTransLockSlots s"
    "mNextLockNode s' = mNextLockNode s" "mStatus s' = (mStatus s)(t := SMX_TX_BEGIN)"
    "waitsOnly t s s'" "rowOk s t xs \<Longrightarrow> rowOk s' t xs" "j < mTransCnt s \<Longrightarrow> idx s' t j = 0"
    "mTransCnt s' = mTransCnt s"
    "queuedOn w s' j u x \<longleftrightarrow> u \<noteq> t \<and> queuedOn w s j u x"
    "u \<noteq> t \<Longrightarrow> idx s' u v = idx s u v"
  using assms by (auto simp: resumed_def waitsOnly_def queuedOn_def)

text \<open>The request \<open>n\<close> of \<open>t\<close> becomes a granted node.\<close>

lemma granted_fresh:
  assumes mid: "midBase F X i w s" and n: "n \<in> queuedNodes w s i" "mSlotID (node s n) = t"
    and cvs: "mCvsLockNode (node s n) = None" and s': "resumed t i s s'"
      "mLockNodes s' = (mLockNodes s)(n := (node s n)\<lparr>mBeGrant := True\<rparr>)"
      "mTransLockNodes s' = (mTransLockNodes s)(t := mTransLockNodes s t @ [n])"
  shows "midBase F X i w s'" "\<forall>u \<in> F. keeps u s s'" "heldOn s' i = insert n (heldOn s i)"
    "n \<notin> heldOn s i"
proof -
  note M = midBaseD [OF mid] and R = resumedD [OF s'(1)]
  obtain m c k where t: "t < mTransCnt s" "t \<notin> F" "w t = TxWaiting i m n c k"
      "mStatus s t = SMX_TX_BLOCKED" and wait: "waitingOk s t i m n c"
      and n: "mSlotID (node s n) = t" "mLockItem (node s n) = i" "mLockMode (node s n) = m"
        "n < mNextLockNode s" "n \<notin> set (mTransLockNodes s t)"
    using midBase_queued [OF mid n(1)] n(2) by metis
  have c: "c = n" "m \<noteq> SML_NLOCK" and req: "requestNode s t i m n" "\<not> mDoRemove (node s n)" "heldBy s i t = {}"
    using wait cvs t(4) by (auto simp: waitingOk_def split: if_splits)
  note tx = M(3) [OF t(1,2)] and row = M(4) [OF t(1,2)] and nodes = stateOkD(4) [OF M(1) t(1)]
  obtain xs where xs: "rowOk s t xs" using rowPhase_row [OF row] by blast
  have held: "heldBy s' j u = (if j = i \<and> u = t then {n} \<union> heldBy s j u else heldBy s j u)" for j u
    using n(2) by (auto simp: heldBy_def s'(2,3))
  have on: "onlyOn {t} i w s w s'"
    by (rule onlyOn_single [OF R(5)])
      (use n t(3) R(1) in \<open>auto simp: s'(2,3) R(2-4) R(9) held queuedOn_def\<close>)
  have "nodesOk s' t"
    by (rule nodesOk_link [OF nodes req(3), of _ n])
      (use n nodesOkD [OF nodes] req cvs in \<open>auto simp: heldNodeOk_def R(3) s'(2,3)\<close>)
  moreover have "slotsOk (pendingSlot (w t)) s' t"
    by (rule slotsOk_link [of "pendingSlot (w t)" s t n])
      (use tx t(3) c n(3,5) req(1) flagModes_mask in
        \<open>auto simp: txOk_def R(2) s'(2,3) requestNode_def\<close>)
  moreover have "waitingOk s' t i m n c"
    using c n req by (auto simp: waitingOk_def requestNode_def R(4) s'(2,3))
  moreover have "rowPhase w s' t"
    by (rule rowPhase_cleared [OF t(3) row xs R(6) [OF xs] R(8) R(7)])
  ultimately show "midBase F X i w s'"
    by (intro midBase_others [OF mid on]) (use t in \<open>auto simp: txOk_def phaseOk_def\<close>)
  show "\<forall>u \<in> F. keeps u s s'"
    using onlyOn_keeps [OF on] t(2) by (metis singletonD)
  show "heldOn s' i = insert n (heldOn s i)"
    using heldOn_eq [of s' s t i "{n}"] R(8) t(1) held by auto
  show "n \<notin> heldOn s i" using heldOn_node [OF M(1), of n i] n by auto
qed

text \<open>The request \<open>n\<close> of \<open>t\<close> converts the node \<open>c\<close> that \<open>t\<close> holds.\<close>

lemma queued_cvs:
  assumes mid: "midBase F X i w s" and n: "n \<in> queuedNodes w s i" "mSlotID (node s n) = t"
    and cvs: "mCvsLockNode (node s n) = Some c"
  shows "c \<in> heldOn s i - X" "c \<noteq> n" "n \<notin> heldOn s i"
proof -
  note M = midBaseD [OF mid]
  obtain m c' k where t: "t < mTransCnt s" "t \<notin> F" "mStatus s t = SMX_TX_BLOCKED"
      "waitingOk s t i m n c'" "mSlotID (node s n) = t" "n \<notin> set (mTransLockNodes s t)"
    using midBase_queued [OF mid n(1)] n(2) by metis
  then have c: "c \<noteq> n" "c \<in> heldBy s i t"
    using cvs by (auto simp: waitingOk_def split: if_splits)
  have "c \<notin> X"
  proof
    assume "c \<in> X"
    then obtain u where u: "u \<in> F" "c \<in> heldBy s i u" using M(8) by blast
    moreover have "u < mTransCnt s"
      using u(2) stateOkD(3) [OF M(1), of u] by (cases "u < mTransCnt s") (auto simp: heldBy_def)
    ultimately have "u = t"
      using c(2) t(1) held_unique [OF M(1)] by blast
    with u(1) t(2) show False by simp
  qed
  moreover have "c \<in> heldOn s i" using c(2) t(1) by (auto simp: heldOn_def)
  ultimately show "c \<in> heldOn s i - X" "c \<noteq> n" using c(1) by auto
  show "n \<notin> heldOn s i" using heldOn_node [OF M(1), of n i] t(5,6) by auto
qed

lemma granted_cvs:
  assumes mid: "midBase F X i w s" and n: "n \<in> queuedNodes w s i" "mSlotID (node s n) = t"
    and cvs: "mCvsLockNode (node s n) = Some c"
    and v: "v = sup (mLockMode (node s c)) (mLockMode (node s n))" and s': "resumed t i s s'"
      "mLockNodes s' = (mLockNodes s)(c := (node s c)\<lparr>mLockMode := v\<rparr>,
        n := (node s n)\<lparr>mDoRemove := True\<rparr>)"
      "mTransLockNodes s' = mTransLockNodes s"
  shows "midBase F X i w s'" "\<forall>u \<in> F. keeps u s s'" "heldOn s' i = heldOn s i"
proof -
  note M = midBaseD [OF mid] and R = resumedD [OF s'(1)]
  obtain m c' k where t: "t < mTransCnt s" "t \<notin> F" "w t = TxWaiting i m n c' k"
      "mStatus s t = SMX_TX_BLOCKED" and wait: "waitingOk s t i m n c'"
      and n: "mSlotID (node s n) = t" "mLockItem (node s n) = i" "mLockMode (node s n) = m"
        "n < mNextLockNode s" "n \<notin> set (mTransLockNodes s t)"
    using midBase_queued [OF mid n(1)] n(2) by metis
  have c: "c' = c" "c \<noteq> n" "m \<noteq> SML_NLOCK" and held: "c \<in> set (mTransLockNodes s t)" "mLockItem (node s c) = i"
    and req: "requestNode s t i m n" "mLockSequence (node s c) m = 0"
    using wait cvs t(4) n by (auto simp: waitingOk_def heldBy_def requestNode_def split: if_splits)
  note tx = M(3) [OF t(1,2)] and row = M(4) [OF t(1,2)] and nodes = stateOkD(4) [OF M(1) t(1)]
  note cn = nodesOkD [OF nodes held(1)]
  obtain xs where xs: "rowOk s t xs" using rowPhase_row [OF row] by blast
  have heldBy2: "heldBy s' j u = heldBy s j u" for j u
    by (auto simp: heldBy_def s'(2,3))
  show "heldOn s' i = heldOn s i"
    by (simp add: heldOn_def heldBy2 R(8))
  have on: "onlyOn {t} i w s w s'"
    by (rule onlyOn_single [OF R(5)])
      (use n t(3) R(1) held cn in \<open>auto simp: s'(2,3) R(2-4) R(9) heldBy2 queuedOn_def\<close>)
  have mode: "mLockMode (node s x) \<le> mLockMode (node s' x)" for x
    using c by (auto simp: s'(2) v)
  have same: "mLockItem (node s' x) = mLockItem (node s x)" "mSlotID (node s' x) = mSlotID (node s x)"
    "mLockSequence (node s' x) = mLockSequence (node s x)" "mNodeFlag (node s' x) = mNodeFlag (node s x)"
    "mCvsLockNode (node s' x) = mCvsLockNode (node s x)" "mBeGrant (node s' x) = mBeGrant (node s x)"
    "x \<noteq> n \<Longrightarrow> mDoRemove (node s' x) = mDoRemove (node s x)" for x
    by (auto simp: s'(2))
  have "heldNodeOk s' t x" if "x \<in> set (mTransLockNodes s t)" for x
    using nodesOkD [OF nodes that] same that n(5)
    by (cases "x = n") (auto simp: heldNodeOk_def R(3))
  then have "nodesOk s' t"
    using nodes by (simp add: nodesOk_def s'(3) same)
  moreover have "slotsOk (pendingSlot (w t)) s' t"
    by (rule slotsOk_mono [of "pendingSlot (w t)" s t])
      (use tx t(3) mode in \<open>auto simp: txOk_def s'(3) R(2) same\<close>)
  moreover have "waitingOk s' t i m n c"
    using c cvs req held mode [of c] n(3) by (simp add: waitingOk_def requestNode_def heldBy2 same
        s'(3) R(3,4)) (simp add: heldBy_def s'(2) v)
  moreover have "rowPhase w s' t"
    by (rule rowPhase_cleared [OF t(3) row xs R(6) [OF xs] R(8) R(7)])
  ultimately show "midBase F X i w s'"
    by (intro midBase_others [OF mid on]) (use t c in \<open>auto simp: txOk_def phaseOk_def\<close>)
  show "\<forall>u \<in> F. keeps u s s'"
    using onlyOn_keeps [OF on] t(2) by (metis singletonD)
qed

text \<open>Both with the item in heavy mode.\<close>

lemma finish_resumed:
  assumes "wakeup_finish i n s1 = Some s2"
    "\<forall>j. j \<noteq> i \<longrightarrow> item s1 j = item s j" "mTransLockSlots s1 = mTransLockSlots s"
    "mNextLockNode s1 = mNextLockNode s" "mStatus s1 = mStatus s" "sameWaits s s1"
    "mSlotID (node s1 n) = t" "mStatus s t = SMX_TX_BLOCKED" "rowOk s t xs"
  shows "resumed t i s s2" "mLockNodes s2 = mLockNodes s1" "mTransLockNodes s2 = mTransLockNodes s1"
    "item s2 i = (item s1 i)\<lparr>mRequestCnt := mRequestCnt (item s1 i) - 1\<rparr>"
proof -
  have "mStatus s1 t = SMX_TX_BLOCKED" "rowOk s1 t xs"
    using assms(5,8,9) sameWaitsD(2) [OF assms(6)] by auto
  from wakeup_finish_ok [OF assms(7) this, of i] assms(1)
  have s2: "mLockNodes s2 = mLockNodes s1"
      "mLockItems s2 = (mLockItems s1)(i := (item s1 i)\<lparr>mRequestCnt := mRequestCnt (item s1 i) - 1\<rparr>)"
      "mTransLockNodes s2 = mTransLockNodes s1" "mTransLockSlots s2 = mTransLockSlots s1"
      "mNextLockNode s2 = mNextLockNode s1" "mStatus s2 = (mStatus s1)(t := SMX_TX_BEGIN)"
      "waitsOnly t s1 s2" "rowOk s2 t xs" "\<forall>j < mTransCnt s1. idx s2 t j = 0"
    by auto
  have "waitsOnly t s s2"
    using waitsOnly_trans [OF sameWaits_only [OF assms(6)] s2(7)] .
  moreover have "rowOk s t ys \<Longrightarrow> ys = xs" for ys using assms(9) rowOk_unique by blast
  ultimately show "resumed t i s s2"
    using assms(2-5) s2 sameWaitsD(1) [OF assms(6)] by (auto simp: resumed_def)
  show "mLockNodes s2 = mLockNodes s1" "mTransLockNodes s2 = mTransLockNodes s1"
    "item s2 i = (item s1 i)\<lparr>mRequestCnt := mRequestCnt (item s1 i) - 1\<rparr>"
    by (simp_all add: s2)
qed

lemma wake_requests:
  assumes mid: "midInv F X i w s" and heavy: "mItemFlag (item s i) \<noteq> SML_FLAG_LIGHT_MODE"
    and R: "mLockRequest (item s i) = n # rest" and t: "mSlotID (node s n) = t" and s': "resumed t i s s'"
      "mLockRequest (item s' i) = rest" "mRequestCnt (item s' i) = mRequestCnt (item s i) - 1"
      "\<And>x. mSlotID (node s' x) = mSlotID (node s x)"
      "set (mLockGrant (item s' i)) \<subseteq> insert n (set (mLockGrant (item s i)))"
  shows "requestsOk w s' i" "waitsRecorded w s' i"
proof -
  note H = itemOk_heavyD [OF midInvD(2) [OF mid] heavy] and D = resumedD [OF s'(1)]
  note Q = requestsOkD [OF H(2)]
  have n: "n \<in> queuedNodes w s i" using Q(2) R by auto
  have slot: "mSlotID (node s x) = u" if "u < mTransCnt s" "queuedOn w s i u x" for u x
    using midBase_slot [OF midInvD(1) [OF mid] that] .
  note leave = queued_leave [OF midInvD(1) [OF mid] n t D(8,9)]
  show "requestsOk w s' i"
    by (rule requests_pop [OF Q(1) Q(2) [unfolded leave(1)] leave(2) Q(3) _ s'(3)]) (simp add: R s'(2))
  show "waitsRecorded w s' i"
  proof (rule waits_pop [OF H(3) _ D(8) _ s'(4) D(10)])
    show "mLockRequest (item s' i) = remove1 n (mLockRequest (item s i))" by (simp add: R s'(2))
    show "queuedOn w s i u x \<and> x \<noteq> n \<and> u \<noteq> t" if "u < mTransCnt s" "queuedOn w s' i u x" for u x
      using that slot t unfolding D(9) by blast
  qed (use s'(5) R in auto)
qed

lemma wake_fresh_mid:
  assumes mid: "midInv F X i w s" and heavy: "mItemFlag (item s i) \<noteq> SML_FLAG_LIGHT_MODE"
    and R: "mLockRequest (item s i) = n # rest"
    and comp: "compatible (mLockMode (node s n)) (mGrantLockMode (item s i))"
    and cvs: "mCvsLockNode (node s n) = None"
  shows "\<exists>s'. (wakeup_grant i n s \<bind> wakeup_finish i n) = Some s' \<and> midInv F X i w s' \<and>
    mLockRequest (item s' i) = rest \<and> mItemFlag (item s' i) \<noteq> SML_FLAG_LIGHT_MODE \<and>
    (\<forall>u \<in> F. keeps u s s')"
proof -
  note B = midInvD(1) [OF mid] and H = itemOk_heavyD [OF midInvD(2) [OF mid] heavy]
  note G = grantsOkD [OF H(1)]
  have q: "n \<in> queuedNodes w s i" using requestsOkD(2) [OF H(2)] R by auto
  obtain t m c k where t: "t < mTransCnt s" "t \<notin> F" "w t = TxWaiting i m n c k"
      "mStatus s t = SMX_TX_BLOCKED" and wait: "waitingOk s t i m n c"
      and n: "mSlotID (node s n) = t" "n \<notin> set (mTransLockNodes s t)"
    using midBase_queued [OF B q] by metis
  have nr: "\<not> mDoRemove (node s n)"
    using wait cvs t(4) by (auto simp: waitingOk_def split: if_splits)
  obtain xs where xs: "rowOk s t xs" using rowPhase_row midBaseD(4) [OF B t(1,2)] by blast
  obtain s1 where s1: "wakeup_grant i n s = Some s1"
      "mLockNodes s1 = (mLockNodes s)(n := (node s n)\<lparr>mBeGrant := True\<rparr>)"
      "\<forall>j. j \<noteq> i \<longrightarrow> item s1 j = item s j"
      "mLockGrant (item s1 i) = mLockGrant (item s i) @ [n]"
      "mGrantCnt (item s1 i) = mGrantCnt (item s i) + 1" "mLockRequest (item s1 i) = rest"
      "mRequestCnt (item s1 i) = mRequestCnt (item s i)"
      "mGrantLockMode (item s1 i) = sup (mGrantLockMode (item s i)) (mLockMode (node s n))"
      "itemCounts (item s1 i) (add_mset (mLockMode (node s n)) (modesOf s (mLockGrant (item s i))))"
      "mItemFlag (item s1 i) \<noteq> SML_FLAG_LIGHT_MODE"
      "mTransLockNodes s1 = (mTransLockNodes s)(t := mTransLockNodes s t @ [n])"
      "mTransLockSlots s1 = mTransLockSlots s" "mNextLockNode s1 = mNextLockNode s"
      "mStatus s1 = mStatus s" "sameWaits s s1"
    using wakeup_grant_fresh [OF cvs G(4) R n nr refl] by blast
  have "mSlotID (node s1 n) = t" "mStatus s1 t = SMX_TX_BLOCKED" "rowOk s1 t xs"
    using n t(4) xs sameWaitsD(2) [OF s1(15)] by (auto simp: s1)
  then obtain s2 where fin: "wakeup_finish i n s1 = Some s2"
    using wakeup_finish_ok by blast
  have "mSlotID (node s1 n) = t" by (simp add: s1(2) n)
  note F2 = finish_resumed [OF fin s1(3,12-15) this t(4) xs]
  note node2 = F2(2) [unfolded s1(2)] and nodes2 = F2(3) [unfolded s1(11)]
  note gr = granted_fresh [OF B q n(1) cvs F2(1) node2 nodes2]
  have "itemOk X w s2 i"
  proof (rule itemOk_heavyI)
    have "n \<notin> X" using gr(4) midBase_X [OF B] by blast
    then show "grantsOk X s2 i"
      by (rule grantsOk_add [OF H(1) gr(4) _ gr(3)])
        (use comp gr(4) in \<open>simp_all add: node2 F2(4) s1(4,5,8,9)\<close>)
    show "requestsOk w s2 i" "waitsRecorded w s2 i"
      by (rule wake_requests [OF mid heavy R n(1) F2(1)];
        simp add: F2(4) s1(4,6,7) node2)+
    show "mItemFlag (item s2 i) \<noteq> SML_FLAG_LIGHT_MODE" using s1(10) by (simp add: F2(4))
  qed
  then show ?thesis
    using gr(1,2) s1(10) by (intro exI [of _ s2]) (simp add: midInv_def s1(1,6) fin F2(4))
qed

lemma wake_cvs_mid:
  assumes mid: "midInv F X i w s" and heavy: "mItemFlag (item s i) \<noteq> SML_FLAG_LIGHT_MODE"
    and R: "mLockRequest (item s i) = n # rest" and cvs: "mCvsLockNode (node s n) = Some c"
    and m: "mLockMode (node s n) = m" and v: "v = sup (mLockMode (node s c)) m"
    and comp: "\<And>a. a \<in> set (mLockGrant (item s i)) \<Longrightarrow> a \<noteq> c \<Longrightarrow> compatible m (mLockMode (node s a))"
    and s1: "mLockNodes s1 = (mLockNodes s)(c := (node s c)\<lparr>mLockMode := v\<rparr>,
        n := (node s n)\<lparr>mDoRemove := True\<rparr>)"
      "\<forall>j. j \<noteq> i \<longrightarrow> item s1 j = item s j"
      "mLockGrant (item s1 i) = mLockGrant (item s i)" "mGrantCnt (item s1 i) = mGrantCnt (item s i)"
      "mLockRequest (item s1 i) = rest" "mRequestCnt (item s1 i) = mRequestCnt (item s i)"
      "mGrantLockMode (item s1 i) = sup (mGrantLockMode (item s i)) m"
      "itemCounts (item s1 i)
        (add_mset v (modesOf s (mLockGrant (item s i)) - {#mLockMode (node s c)#}))"
      "mItemFlag (item s1 i) \<noteq> SML_FLAG_LIGHT_MODE"
      "mTransLockNodes s1 = mTransLockNodes s" "mTransLockSlots s1 = mTransLockSlots s"
      "mNextLockNode s1 = mNextLockNode s" "mStatus s1 = mStatus s" "sameWaits s s1"
  shows "\<exists>s'. wakeup_finish i n s1 = Some s' \<and> midInv F X i w s' \<and>
    mLockRequest (item s' i) = rest \<and> mItemFlag (item s' i) \<noteq> SML_FLAG_LIGHT_MODE \<and>
    (\<forall>u \<in> F. keeps u s s')"
proof -
  note B = midInvD(1) [OF mid] and H = itemOk_heavyD [OF midInvD(2) [OF mid] heavy]
  have q: "n \<in> queuedNodes w s i" using requestsOkD(2) [OF H(2)] R by auto
  obtain t where t: "t < mTransCnt s" "t \<notin> F" "mStatus s t = SMX_TX_BLOCKED"
      and n: "mSlotID (node s n) = t"
    using midBase_queued [OF B q] by metis
  note c = queued_cvs [OF B q n cvs]
  obtain xs where xs: "rowOk s t xs" using rowPhase_row midBaseD(4) [OF B t(1,2)] by blast
  have sl: "mSlotID (node s1 n) = t" using n c(2) by (simp add: s1(1))
  moreover have "mStatus s1 t = SMX_TX_BLOCKED" "rowOk s1 t xs"
    using t(3) xs sameWaitsD(2) [OF s1(14)] by (auto simp: s1(13))
  ultimately obtain s2 where fin: "wakeup_finish i n s1 = Some s2"
    using wakeup_finish_ok by blast
  note F2 = finish_resumed [OF fin s1(2,11-14) sl t(3) xs]
  note node2 = F2(2) [unfolded s1(1)] and nodes2 = F2(3) [unfolded s1(10)]
  note gr = granted_cvs [OF B q n cvs v [folded m] F2(1) node2 nodes2]
  have "itemOk X w s2 i"
  proof (rule itemOk_heavyI)
    have g: "c \<in> set (mLockGrant (item s i))" "n \<notin> set (mLockGrant (item s i))"
      using c grantsOkD(2) [OF H(1)] by auto
    from g(1) show "grantsOk X s2 i"
      by (rule grantsOk_upgrade [OF H(1) _ gr(3) v _ comp])
        (use g(2) c(2) in \<open>auto simp: node2 F2(4) s1(3,4,7,8)\<close>)
    show "requestsOk w s2 i" "waitsRecorded w s2 i"
      by (rule wake_requests [OF mid heavy R n(1) F2(1)];
        auto simp: F2(4) s1(3,5,6) node2)+
    show "mItemFlag (item s2 i) \<noteq> SML_FLAG_LIGHT_MODE" using s1(9) by (simp add: F2(4))
  qed
  then show ?thesis
    using gr(1,2) s1(9) by (intro exI [of _ s2]) (simp add: midInv_def s1(5) fin F2(4))
qed

subsection \<open>The loop\<close>

text \<open>One round of the loop: it goes on with the rest, or stops at a request that is stuck.\<close>

lemma wakeup_round:
  assumes mid: "midInv F X i w s" and heavy: "mItemFlag (item s i) \<noteq> SML_FLAG_LIGHT_MODE"
    and R: "mLockRequest (item s i) = n # rest"
  shows "wakeup_loop i (n # rest) s = Some s \<and> headStuck s i \<or>
    (\<exists>s'. wakeup_loop i (n # rest) s = wakeup_loop i rest s' \<and> midInv F X i w s' \<and>
      mLockRequest (item s' i) = rest \<and> mItemFlag (item s' i) \<noteq> SML_FLAG_LIGHT_MODE \<and>
      (\<forall>u \<in> F. keeps u s s'))"
proof -
  note B = midInvD(1) [OF mid] and H = itemOk_heavyD [OF midInvD(2) [OF mid] heavy]
  note G = grantsOkD [OF H(1)]
  have "n \<in> queuedNodes w s i" using requestsOkD(2) [OF H(2)] R by auto
  then have cvs: "c \<in> set (mLockGrant (item s i))" "c \<noteq> n" if "mCvsLockNode (node s n) = Some c" for c
    using queued_cvs [OF B _ refl that] G(2) by auto
  consider (grant) "compatible (mLockMode (node s n)) (mGrantLockMode (item s i))"
      "mCvsLockNode (node s n) = None"
    | (grant_cvs) c where "compatible (mLockMode (node s n)) (mGrantLockMode (item s i))"
      "mCvsLockNode (node s n) = Some c"
    | (convert) c where "\<not> compatible (mLockMode (node s n)) (mGrantLockMode (item s i))"
      "mGrantCnt (item s i) = 1" "mCvsLockNode (node s n) = Some c"
    | (stuck) "\<not> compatible (mLockMode (node s n)) (mGrantLockMode (item s i))"
      "\<not> (mGrantCnt (item s i) = 1 \<and> mCvsLockNode (node s n) \<noteq> None)"
    by blast
  then show ?thesis
  proof cases
    case grant
    from wake_fresh_mid [OF mid heavy R grant] grant(1) show ?thesis
      by (auto simp: bind_eq_Some_conv)
  next
    case grant_cvs
    let ?v = "sup (mLockMode (node s c)) (mLockMode (node s n))"
    have "mLockMode (node s c) \<in># modesOf s (mLockGrant (item s i))"
      using cvs(1) [OF grant_cvs(2)] by simp
    from wakeup_grant_cvs [OF grant_cvs(2) cvs(2) [OF grant_cvs(2)] G(4) R this refl refl]
    obtain s1 where s1: "wakeup_grant i n s = Some s1"
        "mLockNodes s1 = (mLockNodes s)(c := (node s c)\<lparr>mLockMode := ?v\<rparr>,
          n := (node s n)\<lparr>mDoRemove := True\<rparr>)"
        "\<forall>j. j \<noteq> i \<longrightarrow> item s1 j = item s j"
        "mLockGrant (item s1 i) = mLockGrant (item s i)" "mGrantCnt (item s1 i) = mGrantCnt (item s i)"
        "mLockRequest (item s1 i) = rest" "mRequestCnt (item s1 i) = mRequestCnt (item s i)"
        "mGrantLockMode (item s1 i) = sup (mGrantLockMode (item s i)) (mLockMode (node s n))"
        "itemCounts (item s1 i)
          (add_mset ?v (modesOf s (mLockGrant (item s i)) - {#mLockMode (node s c)#}))"
        "mItemFlag (item s1 i) \<noteq> SML_FLAG_LIGHT_MODE"
        "mTransLockNodes s1 = mTransLockNodes s" "mTransLockSlots s1 = mTransLockSlots s"
        "mNextLockNode s1 = mNextLockNode s" "mStatus s1 = mStatus s" "sameWaits s s1"
      by blast
    from wake_cvs_mid [OF mid heavy R grant_cvs(2) refl refl grant_compatible [OF H(1) grant_cvs(1)] s1(2-)]
    show ?thesis using grant_cvs(1) s1(1) by auto
  next
    case convert
    have only: "mLockGrant (item s i) = [c]"
      using cvs(1) [OF convert(3)] G(3) convert(2) by (cases "mLockGrant (item s i)") auto
    then have gm: "mGrantLockMode (item s i) = mLockMode (node s c)" using G(5) by simp
    let ?v = "sup (mLockMode (node s c)) (mLockMode (node s n))"
    have "mLockMode (node s c) \<in># modesOf s (mLockGrant (item s i))" by (simp add: only)
    from wakeup_convert_only [OF cvs(2) [OF convert(3)] G(4) R this refl refl]
    obtain s1 where s1: "wakeup_convert i n c s = Some s1"
        "mLockNodes s1 = (mLockNodes s)(c := (node s c)\<lparr>mLockMode := ?v\<rparr>,
          n := (node s n)\<lparr>mDoRemove := True\<rparr>)"
        "\<forall>j. j \<noteq> i \<longrightarrow> item s1 j = item s j"
        "mLockGrant (item s1 i) = mLockGrant (item s i)" "mGrantCnt (item s1 i) = mGrantCnt (item s i)"
        "mLockRequest (item s1 i) = rest" "mRequestCnt (item s1 i) = mRequestCnt (item s i)"
        "mGrantLockMode (item s1 i) = sup (mGrantLockMode (item s i)) (mLockMode (node s n))"
        "itemCounts (item s1 i)
          (add_mset ?v (modesOf s (mLockGrant (item s i)) - {#mLockMode (node s c)#}))"
        "mItemFlag (item s1 i) \<noteq> SML_FLAG_LIGHT_MODE"
        "mTransLockNodes s1 = mTransLockNodes s" "mTransLockSlots s1 = mTransLockSlots s"
        "mNextLockNode s1 = mNextLockNode s" "mStatus s1 = mStatus s" "sameWaits s s1"
      unfolding gm by blast
    have "compatible (mLockMode (node s n)) (mLockMode (node s a))"
      if "a \<in> set (mLockGrant (item s i))" "a \<noteq> c" for a
      using that by (simp add: only)
    from wake_cvs_mid [OF mid heavy R convert(3) refl refl this s1(2-)]
    show ?thesis using convert s1(1) by auto
  next
    case stuck
    then show ?thesis by (auto simp: headStuck_def R split: option.split)
  qed
qed

lemma wakeup_loop_ok:
  assumes "midInv F X i w s" "mItemFlag (item s i) \<noteq> SML_FLAG_LIGHT_MODE"
    "mLockRequest (item s i) = R"
  shows "\<exists>s'. wakeup_loop i R s = Some s' \<and> midInv F X i w s' \<and> headStuck s' i \<and>
    mItemFlag (item s' i) \<noteq> SML_FLAG_LIGHT_MODE \<and> (\<forall>u \<in> F. keeps u s s')"
  using assms
proof (induction R arbitrary: s)
  case Nil
  then show ?case by (simp add: headStuck_def)
next
  case (Cons n rest)
  from wakeup_round [OF Cons.prems] show ?case
  proof
    assume "wakeup_loop i (n # rest) s = Some s \<and> headStuck s i"
    then show ?thesis using Cons.prems by auto
  next
    assume "\<exists>s'. wakeup_loop i (n # rest) s = wakeup_loop i rest s' \<and> midInv F X i w s' \<and>
      mLockRequest (item s' i) = rest \<and> mItemFlag (item s' i) \<noteq> SML_FLAG_LIGHT_MODE \<and>
      (\<forall>u \<in> F. keeps u s s')"
    then obtain s1 where s1: "wakeup_loop i (n # rest) s = wakeup_loop i rest s1" "midInv F X i w s1"
        "mLockRequest (item s1 i) = rest" "mItemFlag (item s1 i) \<noteq> SML_FLAG_LIGHT_MODE"
        "\<forall>u \<in> F. keeps u s s1"
      by blast
    from Cons.IH [OF s1(2,4,3)] s1(1,5) keeps_trans show ?thesis by metis
  qed
qed

lemma wakeup_ok:
  assumes "midInv F X i w s" "mItemFlag (item s i) \<noteq> SML_FLAG_LIGHT_MODE"
  shows "\<exists>s'. wakeupRequestLockNodeInLockItem i s = Some s' \<and> midInv F X i w s' \<and> headStuck s' i \<and>
    (\<forall>u \<in> F. keeps u s s')"
  using wakeup_loop_ok [OF assms refl] by (auto simp: wakeupRequestLockNodeInLockItem_def)

end
