(* ===== verification/LockLight.thy ===== *)
theory LockLight
  imports LockWake
begin

text \<open>
  An item's way back to light mode, \<open>toLightMode\<close>: the grant list is dissolved and every waiting
  request, all for intention modes, is granted.
\<close>

subsection \<open>Clearing entries of the waiting table\<close>

definition rowsCleared :: "slot_id set \<Rightarrow> slot_id set \<Rightarrow> lockState \<Rightarrow> lockState \<Rightarrow> bool" where
  "rowsCleared A B s s' \<longleftrightarrow> mTransCnt s' = mTransCnt s \<and>
     (\<forall>a b. idx s' a b = (if a \<in> A \<and> b \<in> B then 0 else idx s a b) \<and> nxt s' a b = nxt s a b \<and>
        nxtRec s' a b = nxtRec s a b) \<and>
     (\<forall>a. a \<notin> A \<longrightarrow> mWaitForTable s' a = mWaitForTable s a) \<and>
     mFstWaitTblTransItem s' = mFstWaitTblTransItem s \<and>
     mFstWaitRecTransItem s' = mFstWaitRecTransItem s \<and> mLstWaitRecTransItem s' = mLstWaitRecTransItem s"

lemma rowsCleared_same: "sameWaits s s' \<Longrightarrow> rowsCleared A {} s s'"
  by (simp add: rowsCleared_def sameWaits_def)

lemma rowsCleared_trans:
  assumes "rowsCleared A B s s'" "rowsCleared A C s' s''"
  shows "rowsCleared A (B \<union> C) s s''"
  using assms unfolding rowsCleared_def by auto

lemma rowsClearedD:
  assumes "rowsCleared A B s s'"
  shows "mTransCnt s' = mTransCnt s" "idx s' a b = (if a \<in> A \<and> b \<in> B then 0 else idx s a b)"
    "rowOk s a xs \<Longrightarrow> rowOk s' a xs" "colOk s' a xs \<longleftrightarrow> colOk s a xs" "waitInv s \<Longrightarrow> waitInv s'"
    "rowPhase w s a \<Longrightarrow> mStatus s' a = mStatus s a \<Longrightarrow> rowPhase w s' a"
    "a \<notin> A \<Longrightarrow> mWaitForTable s' a = mWaitForTable s a"
proof -
  show n: "mTransCnt s' = mTransCnt s" and ix: "idx s' a b = (if a \<in> A \<and> b \<in> B then 0 else idx s a b)" for a b
    using assms by (simp_all add: rowsCleared_def)
  have nx: "nxt s' a b = nxt s a b" for a b using assms by (simp add: rowsCleared_def)
  then have fn: "nxt s' a = nxt s a" for a by (simp add: fun_eq_iff)
  show row: "rowOk s' a xs" if "rowOk s a xs" for a xs
    using that assms by (auto simp: rowOk_def ix n fn) (auto simp: rowsCleared_def)
  show col: "colOk s' a xs \<longleftrightarrow> colOk s a xs" for a xs
    by (rule colOk_cong) (use assms in \<open>simp_all add: rowsCleared_def\<close>)
  show "waitInv s'" if "waitInv s" using that row unfolding waitInv_def n col by blast
  have le: "idx s' a x \<le> 1" if "idx s a x \<le> 1" for x using that by (simp add: ix)
  show "rowPhase w s' a" if "rowPhase w s a" and st: "mStatus s' a = mStatus s a"
  proof (cases "w a")
    case (TxWaiting i m n c k)
    with that obtain xs where "rowOk s a xs" "\<not> k \<longrightarrow> a \<notin> set xs \<and> (\<forall>x \<in> set xs. idx s a x \<le> 1)"
      by (auto simp: rowPhase_def)
    with row le have "rowOk s' a xs \<and> (\<not> k \<longrightarrow> a \<notin> set xs \<and> (\<forall>x \<in> set xs. idx s' a x \<le> 1))"
      by blast
    moreover have "mStatus s' a \<noteq> SMX_TX_BLOCKED \<longrightarrow> (\<forall>j < mTransCnt s'. idx s' a j = 0)"
      using that(1) TxWaiting by (simp add: rowPhase_def st n ix)
    ultimately show ?thesis using TxWaiting unfolding rowPhase_def by auto
  qed (use that row in \<open>simp_all add: rowPhase_def\<close>)
  show "mWaitForTable s' a = mWaitForTable s a" if "a \<notin> A"
    using that assms by (simp add: rowsCleared_def)
qed

lemma clearWaitTableRows_ok:
  "rowsCleared (set ts) {u} s (clearWaitTableRows ts u s) \<and>
   waitState.more (clearWaitTableRows ts u s) = waitState.more s"
proof (induction ts arbitrary: s)
  case (Cons t ts)
  let ?s = "updItem t u (mIndex_update (\<lambda>_. 0)) s"
  have "rowsCleared {t} {u} s ?s" by (auto simp: rowsCleared_def)
  with Cons [of ?s] show ?case
    by (auto simp: rowsCleared_def)
qed (simp add: rowsCleared_def)

subsection \<open>Steps that only touch item \<open>i\<close> and clear waits on it\<close>

definition sameLocks :: "item_id \<Rightarrow> lockState \<Rightarrow> lockState \<Rightarrow> bool" where
  "sameLocks i s s' \<longleftrightarrow> mLockNodes s' = mLockNodes s \<and> mTransLockNodes s' = mTransLockNodes s \<and>
     mTransLockSlots s' = mTransLockSlots s \<and> mNextLockNode s' = mNextLockNode s \<and>
     mStatus s' = mStatus s \<and> mTransCnt s' = mTransCnt s \<and> (\<forall>j. j \<noteq> i \<longrightarrow> item s' j = item s j)"

lemma sameLocks_trans: "sameLocks i s s' \<Longrightarrow> sameLocks i s' s'' \<Longrightarrow> sameLocks i s s''"
  by (simp add: sameLocks_def)

lemma sameLocksD:
  assumes "sameLocks i s s'"
  shows "mLockNodes s' = mLockNodes s" "mTransLockNodes s' = mTransLockNodes s"
    "mTransLockSlots s' = mTransLockSlots s" "mNextLockNode s' = mNextLockNode s"
    "mStatus s' = mStatus s" "mTransCnt s' = mTransCnt s" "j \<noteq> i \<Longrightarrow> item s' j = item s j"
  using assms by (simp_all add: sameLocks_def)

lemma sameLocks_eq:
  assumes "sameLocks i s s'"
  shows "nodesOk s' t = nodesOk s t" "txOk w s' t = txOk w s t" "queuedOn w s' = queuedOn w s"
    "heldBy s' = heldBy s" "heldOn s' = heldOn s" "queuedNodes w s' = queuedNodes w s"
    "j \<noteq> i \<Longrightarrow> grantsOk Y s' j = grantsOk Y s j" "j \<noteq> i \<Longrightarrow> requestsOk w s' j = requestsOk w s j"
    "j \<noteq> i \<Longrightarrow> lightItem Y w s' j = lightItem Y w s j" "j \<noteq> i \<Longrightarrow> headStuck s' j = headStuck s j"
    "j \<noteq> i \<Longrightarrow> blockers s' j = blockers s j"
proof -
  note D = sameLocksD [OF assms]
  show q: "queuedOn w s' = queuedOn w s" and h: "heldBy s' = heldBy s" for w
    by (simp_all add: fun_eq_iff queuedOn_def heldBy_def D)
  then show ho: "heldOn s' = heldOn s" and qn: "queuedNodes w s' = queuedNodes w s" for w
    by (simp_all add: fun_eq_iff heldOn_def queuedNodes_def D)
  show "nodesOk s' t = nodesOk s t"
    by (simp add: nodesOk_def heldNodeOk_def D)
  show "txOk w s' t = txOk w s t"
    by (simp add: txOk_def phaseOk_def waitingOk_def requestNode_def slotsOk_def h D split: txPhase.split)
  show "grantsOk Y s' j = grantsOk Y s j" if "j \<noteq> i"
    using D(7) [OF that] by (simp add: grantsOk_def compatibleNodes_def ho D(1))
  show "requestsOk w s' j = requestsOk w s j" "lightItem Y w s' j = lightItem Y w s j"
    "headStuck s' j = headStuck s j" "blockers s' j = blockers s j" if "j \<noteq> i"
    using D(7) [OF that]
    by (simp_all add: requestsOk_def lightItem_def headStuck_def blockers_def fun_eq_iff qn ho D(1)
        split: list.split)
qed

lemma midBase_cleared:
  assumes mid: "midBase F X i w s" and same: "sameLocks i s s'" and cl: "rowsCleared A B s s'"
    and A: "A \<subseteq> {t. \<exists>n. queuedOn w s i t n}"
  shows "midBase F X i w s'" "u \<in> F \<Longrightarrow> keeps u s s'"
proof -
  note M = midBaseD [OF mid] and E = sameLocks_eq [OF same] and C = rowsClearedD [OF cl]
  have "itemOk {} w s' j" if "j \<noteq> i" for j
  proof -
    have "idx s' t u = 1" if q: "queuedOn w s j t n" and ix: "idx s t u = 1" for t u n
    proof -
      have "t \<notin> A" using A q \<open>j \<noteq> i\<close> queuedOn_same_tx [OF q] by blast
      then show ?thesis using ix C(2) by simp
    qed
    then have "waitsRecorded w s j \<Longrightarrow> waitsRecorded w s' j"
      unfolding waitsRecorded_def E(3) E(11) [OF that] C(1) by blast
    then show ?thesis
      using M(5) [OF that] unfolding itemOk_def E(7-9) [OF that] sameLocksD(7) [OF same that] by metis
  qed
  moreover have "stateOk s'"
    using M(1) C(5) unfolding stateOk_def E(1) C(1,4) sameLocksD(2) [OF same] by blast
  ultimately show "midBase F X i w s'"
    using M(2,3,4,6,8) C(6) [OF _ fun_cong [OF sameLocksD(5) [OF same]]] E(10)
    unfolding midBase_def E(2,3,4) C(1) by blast
  show "keeps u s s'" if "u \<in> F"
  proof -
    have "u \<notin> A" using A M(2) [OF that] by blast
    then show ?thesis
      using cl sameLocksD [OF same] by (simp add: keeps_def rowsCleared_def)
  qed
qed

subsection \<open>Dissolving the grant list\<close>

lemma not_heavy_modes: "lightMode m \<longleftrightarrow> m \<noteq> SML_XLOCK \<and> m \<noteq> SML_SLOCK \<and> m \<noteq> SML_SIXLOCK"
  by (cases m) simp_all

lemma toLight_grants_ok:
  assumes "distinct ns" "mLockGrant (item s i) = ns" "\<And>n. n \<in> set ns \<Longrightarrow> lightMode (mLockMode (node s n))"
  shows "\<exists>s'. toLight_grants i ns s = Some s' \<and> sameLocks i s s' \<and>
    mGrantCnt (item s' i) = mGrantCnt (item s i) - int (length ns) \<and>
    mLockRequest (item s' i) = mLockRequest (item s i) \<and>
    rowsCleared (set (slotsOf s (mLockRequest (item s i)))) (set (slotsOf s ns)) s s'"
  using assms
proof (induction ns arbitrary: s)
  case Nil
  then show ?case by (simp add: sameLocks_def rowsCleared_same)
next
  case (Cons n ns)
  let ?s1 = "updLockItem i (\<lambda>it. it\<lparr>mGrantCnt := mGrantCnt it - 1\<rparr>)
      (updLockItem i (\<lambda>it. it\<lparr>mLockGrant := remove1 n (mLockGrant it)\<rparr>) s)"
  let ?R = "slotsOf s (mLockRequest (item s i))"
  define s2 where "s2 = clearWaitTableRows ?R (mSlotID (node s n)) ?s1"
  have cl: "rowsCleared (set ?R) {mSlotID (node s n)} s s2" and more: "waitState.more s2 = waitState.more ?s1"
    using clearWaitTableRows_ok [of ?R "mSlotID (node s n)" ?s1]
    unfolding s2_def by (auto simp: rowsCleared_def)
  note m = more_lock [OF more]
  have same: "sameLocks i s s2" using m rowsClearedD(1) [OF cl] by (simp add: sameLocks_def)
  have eq: "toLight_grants i (n # ns) s = toLight_grants i ns s2"
    using Cons.prems(3) [of n] by (simp add: s2_def not_heavy_modes)
  have "mLockGrant (item s2 i) = ns" using Cons.prems(2) m by simp
  moreover have "lightMode (mLockMode (node s2 x))" if "x \<in> set ns" for x
    using Cons.prems(3) that m by simp
  ultimately obtain s' where s': "toLight_grants i ns s2 = Some s'" "sameLocks i s2 s'"
      "mGrantCnt (item s' i) = mGrantCnt (item s2 i) - int (length ns)"
      "mLockRequest (item s' i) = mLockRequest (item s2 i)"
      "rowsCleared (set (slotsOf s2 (mLockRequest (item s2 i)))) (set (slotsOf s2 ns)) s2 s'"
    using Cons.IH [of s2] Cons.prems(1) by auto
  have "rowsCleared (set ?R) ({mSlotID (node s n)} \<union> set (slotsOf s ns)) s s'"
    using rowsCleared_trans [OF cl] s'(5) m by simp
  with eq s'(1-4) sameLocks_trans [OF same s'(2)] m show ?case by simp
qed

subsection \<open>Granting the requests\<close>

text \<open>The state of the item while its requests are granted: all modes are intention modes.\<close>

definition lightening :: "node_id set \<Rightarrow> phases \<Rightarrow> lockState \<Rightarrow> item_id \<Rightarrow> bool" where
  "lightening X w s i \<longleftrightarrow> distinct (mLockRequest (item s i)) \<and>
     set (mLockRequest (item s i)) = queuedNodes w s i \<and>
     (\<forall>n \<in> queuedNodes w s i \<union> (heldOn s i - X). lightMode (mLockMode (node s n)))"

lemma resumed_I:
  assumes "sameWaits s s1" "\<forall>j. j \<noteq> i \<longrightarrow> item s1 j = item s j" "mTransLockSlots s1 = mTransLockSlots s"
    "mNextLockNode s1 = mNextLockNode s" "mStatus s1 = mStatus s" "mStatus s t = SMX_TX_BLOCKED"
    "rowOk s t xs"
  shows "\<exists>s2. (clearWaitItemColsOfTrans False t s1 \<bind> resumeTrans t) = Some s2 \<and> resumed t i s s2 \<and>
    mLockNodes s2 = mLockNodes s1 \<and> mTransLockNodes s2 = mTransLockNodes s1 \<and> mLockItems s2 = mLockItems s1"
proof -
  have "rowOk s1 t xs" using assms(7) sameWaitsD(2) [OF assms(1)] by simp
  from clearWaitItemColsOfTrans_keep [OF this] obtain s2 where
    s2: "clearWaitItemColsOfTrans False t s1 = Some s2" "rowOk s2 t xs" "onlyRow t s1 s2"
      "\<forall>j < mTransCnt s1. idx s2 t j = 0"
    by auto
  note more = more_lock [OF onlyRow_more [OF s2(3)]]
  have "waitsOnly t s (setStatus t SMX_TX_BEGIN s2)"
    using waitsOnly_trans [OF sameWaits_only [OF assms(1)] onlyRow_waitsOnly [OF s2(3)]]
    by (simp add: waitsOnly_def)
  moreover have "rowOk s t ys \<Longrightarrow> ys = xs" for ys using assms(7) rowOk_unique by blast
  ultimately show ?thesis
    using assms(2-6) s2 more sameWaitsD(1) [OF assms(1)] by (auto simp: resumed_def resumeTrans_def)
qed

lemma toLight_request:
  assumes mid: "midBase F X i w s" and light: "lightening X w s i" and R: "mLockRequest (item s i) = n # rest"
  shows "\<exists>s'. toLight_requests i (n # rest) s = toLight_requests i rest s' \<and> midBase F X i w s' \<and>
    lightening X w s' i \<and> mLockRequest (item s' i) = rest \<and> (\<forall>u \<in> F. keeps u s s')"
proof -
  have q: "n \<in> queuedNodes w s i" and dist: "distinct (n # rest)"
    and L: "\<And>x. x \<in> queuedNodes w s i \<union> (heldOn s i - X) \<Longrightarrow> lightMode (mLockMode (node s x))"
    using light R unfolding lightening_def by auto
  obtain t m c k where t: "t < mTransCnt s" "t \<notin> F" "mStatus s t = SMX_TX_BLOCKED"
      and wait: "waitingOk s t i m n c" and n: "mSlotID (node s n) = t" "n \<notin> set (mTransLockNodes s t)"
    using midBase_queued [OF mid q] by metis
  have nr: "\<not> mDoRemove (node s n)"
    using wait t(3) by (auto simp: waitingOk_def split: if_splits)
  obtain xs where xs: "rowOk s t xs" using rowPhase_row midBaseD(4) [OF mid t(1,2)] by blast
  let ?s1 = "updLockItem i (\<lambda>it. it\<lparr>mLockRequest := remove1 n (mLockRequest it)\<rparr>) s"
  have queued: "queuedNodes w s' i = set rest" if "resumed t i s s'" for s'
  proof -
    note leave = queued_leave [OF mid q n(1) resumedD(8,9) [OF that]]
    show ?thesis using light R dist leave unfolding lightening_def by auto
  qed
  show ?thesis
  proof (cases "mCvsLockNode (node s n)")
    case None
    let ?s2 = "setTransNodes t (mTransLockNodes s t @ [n]) (updNode n (\<lambda>nd. nd\<lparr>mBeGrant := True\<rparr>) ?s1)"
    obtain s2 where s2: "(clearWaitItemColsOfTrans False t ?s2 \<bind> resumeTrans t) = Some s2"
        "resumed t i s s2" "mLockNodes s2 = mLockNodes ?s2" "mTransLockNodes s2 = mTransLockNodes ?s2"
        "mLockItems s2 = mLockItems ?s2"
      using resumed_I [of s ?s2 i t xs] t(3) xs by auto
    have eq: "toLight_requests i (n # rest) s = toLight_requests i rest s2"
      using s2(1,3) L [of n] q None n nr
      by (auto simp: addLockNode_def not_heavy_modes Let_def bind_eq_Some_conv resumeTrans_def)
    have nodes: "mLockNodes s2 = (mLockNodes s)(n := (node s n)\<lparr>mBeGrant := True\<rparr>)"
      "mTransLockNodes s2 = (mTransLockNodes s)(t := mTransLockNodes s t @ [n])"
      by (simp_all add: s2(3,4))
    note gr = granted_fresh [OF mid q n(1) None s2(2) nodes]
    have "lightening X w s2 i"
      using L q dist R unfolding lightening_def queued [OF s2(2)] gr(3)
      by (auto simp: s2(5) nodes(1)) (use light R in \<open>auto simp: lightening_def\<close>)
    then show ?thesis
      using eq gr(1,2) R by (intro exI [of _ s2]) (simp add: s2(5))
  next
    case (Some c)
    let ?v = "sup (mLockMode (node s c)) (mLockMode (node s n))"
    let ?s2 = "updNode n (\<lambda>nd. nd\<lparr>mDoRemove := True\<rparr>)
        (updNode c (\<lambda>nd. nd\<lparr>mLockMode := getConversionLockMode (mLockMode nd) (mLockMode (node s n))\<rparr>) ?s1)"
    note c = queued_cvs [OF mid q n(1) Some]
    obtain s2 where s2: "(clearWaitItemColsOfTrans False t ?s2 \<bind> resumeTrans t) = Some s2"
        "resumed t i s s2" "mLockNodes s2 = mLockNodes ?s2" "mTransLockNodes s2 = mTransLockNodes ?s2"
        "mLockItems s2 = mLockItems ?s2"
      using resumed_I [of s ?s2 i t xs] t(3) xs by auto
    have eq: "toLight_requests i (n # rest) s = toLight_requests i rest s2"
      using s2(1,3) L [of n] q Some n nr c(2)
      by (auto simp: not_heavy_modes Let_def bind_eq_Some_conv resumeTrans_def)
    have nodes: "mLockNodes s2 = (mLockNodes s)(c := (node s c)\<lparr>mLockMode := ?v\<rparr>,
        n := (node s n)\<lparr>mDoRemove := True\<rparr>)"
      "mTransLockNodes s2 = mTransLockNodes s"
      using c(2) by (simp_all add: s2(3,4) conversion_sup)
    note gr = granted_cvs [OF mid q n(1) Some refl s2(2) nodes]
    have "lightMode (mLockMode (node s2 x))" if "x \<in> set rest \<union> (heldOn s i - X)" for x
      using that L c q light R by (auto simp: nodes(1) lightening_def)
    then have "lightening X w s2 i"
      using dist R unfolding lightening_def queued [OF s2(2)] gr(3) by (simp add: s2(5))
    then show ?thesis
      using eq gr(1,2) R by (intro exI [of _ s2]) (simp add: s2(5))
  qed
qed

lemma toLight_requests_ok:
  assumes "midBase F X i w s" "lightening X w s i" "mLockRequest (item s i) = R"
  shows "\<exists>s'. toLight_requests i R s = Some s' \<and> midBase F X i w s' \<and> lightening X w s' i \<and>
    mLockRequest (item s' i) = [] \<and> (\<forall>u \<in> F. keeps u s s')"
  using assms
proof (induction R arbitrary: s)
  case (Cons n rest)
  from toLight_request [OF Cons.prems] obtain s1 where
    s1: "toLight_requests i (n # rest) s = toLight_requests i rest s1" "midBase F X i w s1"
      "lightening X w s1 i" "mLockRequest (item s1 i) = rest" "\<forall>u \<in> F. keeps u s s1"
    by blast
  from Cons.IH [OF s1(2-4)] s1(1,5) keeps_trans show ?case by metis
qed auto

lemma clearLockItem_idem [simp]: "clearLockItem (clearLockItem it) = clearLockItem it"
  by (simp add: clearLockItem_def)

lemma toLightMode_ok:
  assumes mid: "midInv F X i w s" and heavy: "mItemFlag (item s i) \<noteq> SML_FLAG_LIGHT_MODE"
    and grants: "lightMode (mGrantLockMode (item s i))"
    and requests: "\<And>n. n \<in> set (mLockRequest (item s i)) \<Longrightarrow> lightMode (mLockMode (node s n))"
  shows "\<exists>s'. toLightMode i s = Some s' \<and> midInv F X i w s' \<and> headStuck s' i \<and>
    (\<forall>u \<in> F. keeps u s s')"
proof -
  note B = midInvD(1) [OF mid] and H = itemOk_heavyD [OF midInvD(2) [OF mid] heavy]
  note G = grantsOkD [OF H(1)] and Q = requestsOkD [OF H(2)]
  let ?G = "mLockGrant (item s i)" and ?R = "mLockRequest (item s i)"
  have lightG: "lightMode (mLockMode (node s n))" if "n \<in> set ?G" for n
    using lightMode_mono [OF _ grants] that unfolding G(5) by (simp add: lubModes_upper)
  obtain s1 where s1: "toLight_grants i ?G s = Some s1" "sameLocks i s s1"
      "mGrantCnt (item s1 i) = 0" "mLockRequest (item s1 i) = ?R"
      "rowsCleared (set (slotsOf s ?R)) (set (slotsOf s ?G)) s s1"
    using toLight_grants_ok [OF G(1) refl lightG] G(3) by auto
  have "(if mGrantCnt (item s i) > 0 then toLight_grants i ?G s else Some s) = Some s1 \<or>
      (mGrantCnt (item s i) = 0 \<and> ?G = [])"
    using s1(1) G(3) by auto
  then have start: "(if mGrantCnt (item s i) > 0 then toLight_grants i ?G s else Some s) = Some s1"
    using s1(1) by auto
  have "set (slotsOf s ?R) \<subseteq> {t. \<exists>n. queuedOn w s i t n}"
  proof
    fix t assume "t \<in> set (slotsOf s ?R)"
    then obtain n where "n \<in> queuedNodes w s i" "mSlotID (node s n) = t" using Q(2) by auto
    then obtain u where "u < mTransCnt s" "queuedOn w s i u n" "mSlotID (node s n) = t"
      by (auto simp: queuedNodes_def)
    then show "t \<in> {t. \<exists>n. queuedOn w s i t n}" using midBase_slot [OF B] by blast
  qed
  note mid1 = midBase_cleared [OF B s1(2,5) this]
  note E = sameLocks_eq [OF s1(2)]
  have "lightening X w s1 i"
    unfolding lightening_def s1(4) E(5,6) sameLocksD(1) [OF s1(2)]
    using Q(1,2) requests lightG G(2) by auto
  from toLight_requests_ok [OF mid1(1) this s1(4)] obtain s2 where
    s2: "toLight_requests i ?R s1 = Some s2" "midBase F X i w s2" "lightening X w s2 i"
      "mLockRequest (item s2 i) = []" "\<forall>u \<in> F. keeps u s1 s2"
    by blast
  let ?s3 = "updLockItem i clearLockItem s2"
  have same3: "sameLocks i s2 ?s3" by (simp add: sameLocks_def)
  have cl3: "rowsCleared {} {} s2 ?s3" by (simp add: rowsCleared_def)
  note mid3 = midBase_cleared [OF s2(2) same3 cl3]
  have "lightItem X w ?s3 i"
    using s2(3,4) unfolding lightItem_def lightening_def sameLocks_eq(5,6) [OF same3]
    by (auto simp: sameLocks_eq(5,6) [OF same3])
  moreover have "mItemFlag (item ?s3 i) = SML_FLAG_LIGHT_MODE" "headStuck ?s3 i"
    by (simp_all add: clearLockItem_def headStuck_def)
  ultimately have "midInv F X i w ?s3 \<and> headStuck ?s3 i"
    using mid3(1) by (simp add: midInv_def itemOk_def)
  moreover have "\<forall>u \<in> F. keeps u s ?s3"
    using mid1(2) s2(5) mid3(2) keeps_trans by (metis empty_subsetI)
  moreover have "toLightMode i s = Some ?s3"
    using start s1(3,4) s2(1) by (simp add: toLightMode_def)
  ultimately show ?thesis by blast
qed

end
