(* ===== verification/LockOthers.thy ===== *)
theory LockOthers
  imports LockLight
begin

text \<open>
  What a step of transaction \<open>t\<close> does to the others: a transaction that is not blocked keeps its
  locks, and a blocked one is either resumed or keeps its row of the waiting table, in which at
  most the entries of \<open>t\<close> are cleared.
\<close>

subsection \<open>Rows of blocked transactions\<close>

definition quiet :: "slot_id set \<Rightarrow> slot_id set \<Rightarrow> lockState \<Rightarrow> lockState \<Rightarrow> bool" where
  "quiet B T s s' \<longleftrightarrow> (\<forall>v. v \<notin> T \<and> mStatus s' v = SMX_TX_BLOCKED \<longrightarrow> mStatus s v = SMX_TX_BLOCKED \<and>
     mFstWaitTblTransItem s' v = mFstWaitTblTransItem s v \<and>
     (\<forall>u. nxt s' v u = nxt s v u \<and> (idx s' v u = idx s v u \<or> idx s' v u = 0 \<and> u \<in> B)))"

lemma quiet_refl [simp]: "quiet B T s s"
  by (simp add: quiet_def)

lemma quiet_trans:
  assumes "quiet B T s s'" "quiet B T s' s''"
  shows "quiet B T s s''"
  unfolding quiet_def
proof (intro allI impI)
  fix v assume v: "v \<notin> T \<and> mStatus s'' v = SMX_TX_BLOCKED"
  then have 2: "mStatus s' v = SMX_TX_BLOCKED" "mFstWaitTblTransItem s'' v = mFstWaitTblTransItem s' v"
    "\<And>u. nxt s'' v u = nxt s' v u" "\<And>u. idx s'' v u = idx s' v u \<or> idx s'' v u = 0 \<and> u \<in> B"
    using assms(2) by (simp_all add: quiet_def)
  then have 1: "mStatus s v = SMX_TX_BLOCKED" "mFstWaitTblTransItem s' v = mFstWaitTblTransItem s v"
    "\<And>u. nxt s' v u = nxt s v u" "\<And>u. idx s' v u = idx s v u \<or> idx s' v u = 0 \<and> u \<in> B"
    using assms(1) v by (simp_all add: quiet_def)
  show "mStatus s v = SMX_TX_BLOCKED \<and> mFstWaitTblTransItem s'' v = mFstWaitTblTransItem s v \<and>
      (\<forall>u. nxt s'' v u = nxt s v u \<and> (idx s'' v u = idx s v u \<or> idx s'' v u = 0 \<and> u \<in> B))"
    using 1 2 by metis
qed

lemma quiet_mono: "quiet B T s s' \<Longrightarrow> B \<subseteq> B' \<Longrightarrow> T \<subseteq> T' \<Longrightarrow> quiet B' T' s s'"
  unfolding quiet_def by blast

lemma quiet_same:
  "mStatus s' = mStatus s \<Longrightarrow> sameWaits s s' \<Longrightarrow> quiet B T s s'"
  by (simp add: quiet_def sameWaits_def)

lemma onItem_waits: "onItem i f s = Some s' \<Longrightarrow> sameWaits s0 s' = sameWaits s0 s \<and> mStatus s' = mStatus s"
  by (auto simp: onItem_def bind_eq_Some_conv)

lemma addLockNode_waits:
  "addLockNode n t s = Some s' \<Longrightarrow> sameWaits s0 s' = sameWaits s0 s \<and> mStatus s' = mStatus s \<and> mLockNodes s' = mLockNodes s"
  by (auto simp: addLockNode_def bind_eq_Some_conv)

lemma clearCols_other:
  "clearWaitCols_loop fuel d a cur s = Some s' \<Longrightarrow> v \<noteq> a \<Longrightarrow>
     mWaitForTable s' v = mWaitForTable s v \<and> mFstWaitTblTransItem s' = mFstWaitTblTransItem s \<and>
     waitState.more s' = waitState.more s"
proof (induction fuel arbitrary: cur s)
  case 0
  then show ?case by (simp add: clearWaitCols_loop.simps split: if_splits)
next
  case (Suc fuel)
  show ?case
  proof (cases "cur = SML_END_ITEM")
    case True
    then show ?thesis using Suc.prems by (simp add: clearWaitCols_loop.simps)
  next
    case False
    let ?s1 = "updItem a cur (mIndex_update (\<lambda>_. 0)) s"
    let ?s2 = "if d then updItem a cur (mNxtWaitTransItem_update (\<lambda>_. ID_USHORT_MAX)) ?s1 else ?s1"
    have "clearWaitCols_loop fuel d a (nxt ?s1 a cur) ?s2 = Some s'"
      using Suc.prems(1) False by (simp add: clearWaitCols_loop.simps [of "Suc fuel"] Let_def)
    from Suc.IH [OF this Suc.prems(2)] show ?thesis using Suc.prems(2) by (auto simp: updItem_def)
  qed
qed

lemma clearWait_other:
  assumes "clearWaitItemColsOfTrans d a s = Some (s' :: lockState)" "v \<noteq> a"
  shows "mWaitForTable s' v = mWaitForTable s v" "mFstWaitTblTransItem s' v = mFstWaitTblTransItem s v"
    "waitState.more s' = waitState.more s"
  using assms clearCols_other [of "mTransCnt s" d a "mFstWaitTblTransItem s a" s _ v]
  by (auto simp: clearWaitItemColsOfTrans_def bind_eq_Some_conv split: if_splits)

text \<open>Clearing the row of a transaction and resuming it.\<close>

lemma resume_quiet:
  assumes "clearWaitItemColsOfTrans d a s = Some s1" "resumeTrans a s1 = Some s2"
  shows "quiet B T s s2" "mStatus s2 = (mStatus s)(a := SMX_TX_BEGIN)" "mLockNodes s2 = mLockNodes s"
    "v \<noteq> a \<Longrightarrow> mWaitForTable s2 v = mWaitForTable s v \<and> mFstWaitTblTransItem s2 v = mFstWaitTblTransItem s v"
proof -
  have more: "waitState.more s1 = waitState.more s"
    using clearWait_other(3) [OF assms(1), of "Suc a"] by simp
  note E = more_lock [OF more]
  have s2: "s2 = setStatus a SMX_TX_BEGIN s1"
    using assms(2) by (auto simp: resumeTrans_def bind_eq_Some_conv)
  show st: "mStatus s2 = (mStatus s)(a := SMX_TX_BEGIN)" and "mLockNodes s2 = mLockNodes s" by (simp_all add: s2 E)
  show row: "v \<noteq> a \<Longrightarrow> mWaitForTable s2 v = mWaitForTable s v \<and> mFstWaitTblTransItem s2 v = mFstWaitTblTransItem s v" for v
    using clearWait_other(1,2) [OF assms(1)] by (simp add: s2)
  show "quiet B T s s2" unfolding quiet_def st using row by auto
qed


subsection \<open>Waking up\<close>

lemma wakeup_grant_waits:
  assumes "wakeup_grant i n s = Some s'"
  shows "sameWaits s s' \<and> mStatus s' = mStatus s"
proof -
  let ?s2 = "updLockItem i (\<lambda>it. it\<lparr>mGrantLockMode := getConversionLockMode (mGrantLockMode it) (mLockMode (node s n))\<rparr>)
    (updLockItem i (\<lambda>it. it\<lparr>mLockRequest := remove1 n (mLockRequest it)\<rparr>) s)"
  show ?thesis
  proof (cases "mCvsLockNode (node s n)")
    case (Some c)
    then obtain s3 s5 where "onItem i (decTblLockModeAndTryUpdate (mLockMode (node s c))) ?s2 = Some s3"
      "onItem i (incTblLockModeAndUpdate (mLockMode (node (updNode c (\<lambda>nd. nd\<lparr>mLockMode :=
          getConversionLockMode (mLockMode nd) (mLockMode (node s3 n))\<rparr>) s3) c)))
        (updNode c (\<lambda>nd. nd\<lparr>mLockMode := getConversionLockMode (mLockMode nd) (mLockMode (node s3 n))\<rparr>) s3) = Some s5"
      "s' = updNode n (\<lambda>nd. nd\<lparr>mDoRemove := True\<rparr>) s5"
      using assms by (simp add: wakeup_grant_def Let_def bind_eq_Some_conv) blast
    then show ?thesis
      using onItem_waits [of i "decTblLockModeAndTryUpdate (mLockMode (node s c))" ?s2 s3 s] onItem_waits [of i _ _ s5 s]
      by simp
  next
    case None
    then obtain s3 where "onItem i (incTblLockModeAndUpdate (mLockMode (node s n))) ?s2 = Some s3"
      and add: "addLockNode n (mSlotID (node s3 n)) (updLockItem i (\<lambda>it. it\<lparr>mGrantCnt := mGrantCnt it + 1\<rparr>)
        (updNode n (\<lambda>nd. nd\<lparr>mBeGrant := True\<rparr>) (addLockNodeToGrantTail i n s3))) = Some s'"
      using assms by (auto simp: wakeup_grant_def Let_def bind_eq_Some_conv addLockNodeToGrantTail_def)
    then show ?thesis
      using onItem_waits [of i "incTblLockModeAndUpdate (mLockMode (node s n))" ?s2 s3 s] addLockNode_waits [OF add, of s]
      by (simp add: addLockNodeToGrantTail_def)
  qed
qed

lemma wakeup_convert_waits:
  assumes "wakeup_convert i n c s = Some s'"
  shows "sameWaits s s' \<and> mStatus s' = mStatus s"
proof -
  obtain s1 s4 where s1: "onItem i (decTblLockModeAndTryUpdate (mLockMode (node s c))) s = Some s1"
    and s4: "onItem i (incTblLockModeAndUpdate (getConversionLockMode (mGrantLockMode (item s1 i)) (mLockMode (node s1 n))))
      (updNode c (\<lambda>nd. nd\<lparr>mLockMode := getConversionLockMode (mGrantLockMode (item s1 i)) (mLockMode (node s1 n))\<rparr>)
        (updLockItem i (\<lambda>it. it\<lparr>mGrantLockMode := getConversionLockMode (mGrantLockMode it) (mLockMode (node s1 n))\<rparr>) s1)) = Some s4"
    and s': "s' = updNode n (\<lambda>nd. nd\<lparr>mDoRemove := True\<rparr>)
      (updLockItem i (\<lambda>it. it\<lparr>mLockRequest := remove1 n (mLockRequest it)\<rparr>) s4)"
    using assms by (simp add: wakeup_convert_def Let_def bind_eq_Some_conv) blast
  then show ?thesis using onItem_waits [OF s1, of s] onItem_waits [OF s4, of s] by simp
qed

lemma wakeup_finish_quiet: "wakeup_finish i n s = Some s' \<Longrightarrow> quiet B T s s'"
proof -
  assume "wakeup_finish i n s = Some s'"
  then obtain s2 where s2: "clearWaitItemColsOfTrans False (mSlotID (node s n))
      (updLockItem i (\<lambda>it. it\<lparr>mRequestCnt := mRequestCnt it - 1\<rparr>) s) = Some s2"
    "resumeTrans (mSlotID (node s2 n)) s2 = Some s'"
    by (auto simp: wakeup_finish_def Let_def bind_eq_Some_conv)
  have "waitState.more s2 = waitState.more (updLockItem i (\<lambda>it. it\<lparr>mRequestCnt := mRequestCnt it - 1\<rparr>) s)"
    using clearWait_other(3) [OF s2(1), of "Suc (mSlotID (node s n))"] by simp
  from more_lock(1) [OF this] have "mLockNodes s2 = mLockNodes s" by simp
  then have "quiet B T (updLockItem i (\<lambda>it. it\<lparr>mRequestCnt := mRequestCnt it - 1\<rparr>) s) s'"
    using resume_quiet(1) [OF s2(1)] s2(2) by simp
  then show ?thesis by (simp add: quiet_def)
qed

lemma wakeup_loop_quiet: "wakeup_loop i R s = Some s' \<Longrightarrow> quiet B T s s'"
proof (induction R arbitrary: s)
  case (Cons n rest)
  let ?fits = "compatible (mLockMode (node s n)) (mGrantLockMode (item s i))"
  have one: "quiet B T s s'" if "sameWaits s s1 \<and> mStatus s1 = mStatus s" "wakeup_finish i n s1 = Some s2"
    "wakeup_loop i rest s2 = Some s'" for s1 s2
    using quiet_trans [OF quiet_same quiet_trans [OF wakeup_finish_quiet [OF that(2)] Cons.IH [OF that(3)]]] that(1) by blast
  show ?case
  proof (cases ?fits)
    case True
    then obtain s1 s2 where "wakeup_grant i n s = Some s1" "wakeup_finish i n s1 = Some s2"
      "wakeup_loop i rest s2 = Some s'" using Cons.prems by (auto simp: bind_eq_Some_conv)
    then show ?thesis using one wakeup_grant_waits by blast
  next
    case False
    show ?thesis
    proof (cases "mGrantCnt (item s i) = 1 \<and> mCvsLockNode (node s n) \<noteq> None")
      case True
      then obtain c s1 s2 where "wakeup_convert i n c s = Some s1" "wakeup_finish i n s1 = Some s2"
        "wakeup_loop i rest s2 = Some s'" using Cons.prems False by (auto simp: bind_eq_Some_conv)
      then show ?thesis using one wakeup_convert_waits by blast
    next
      case none: False
      have "s' = s" using Cons.prems False none by (auto split: option.splits if_splits)
      then show ?thesis by simp
    qed
  qed
qed simp

subsection \<open>To light mode\<close>

lemma clearRows_other:
  "v \<notin> set ts \<Longrightarrow> mWaitForTable (clearWaitTableRows ts a s) v = mWaitForTable (s :: lockState) v"
  using rowsClearedD(7) [of "set ts" "{a}" s] clearWaitTableRows_ok by blast

lemma toLight_grants_rows:
  "toLight_grants i G s = Some s' \<Longrightarrow> mStatus s' = mStatus s \<and> mLockNodes s' = mLockNodes s \<and>
     mLockRequest (item s' i) = mLockRequest (item s i) \<and>
     mFstWaitTblTransItem s' = mFstWaitTblTransItem s \<and>
     (\<forall>v. v \<notin> set (slotsOf s (mLockRequest (item s i))) \<longrightarrow> mWaitForTable s' v = mWaitForTable s v)"
proof (induction G arbitrary: s)
  case (Cons n rest)
  let ?s2 = "updLockItem i (\<lambda>it. it\<lparr>mGrantCnt := mGrantCnt it - 1\<rparr>)
    (updLockItem i (\<lambda>it. it\<lparr>mLockGrant := remove1 n (mLockGrant it)\<rparr>) s)"
  let ?ts = "slotsOf s (mLockRequest (item s i))" and ?a = "mSlotID (node s n)"
  let ?s3 = "clearWaitTableRows ?ts ?a ?s2"
  have run: "toLight_grants i rest ?s3 = Some s'"
    using Cons.prems by (simp add: Let_def bind_eq_Some_conv)
  have ok: "rowsCleared (set ?ts) {?a} ?s2 ?s3 \<and> waitState.more ?s3 = waitState.more ?s2"
    by (rule clearWaitTableRows_ok)
  then have more: "waitState.more ?s3 = waitState.more ?s2" and fst: "mFstWaitTblTransItem ?s3 = mFstWaitTblTransItem s"
    by (simp_all add: rowsCleared_def)
  note E = more_lock [OF more]
  from Cons.IH [OF run] show ?case
    using clearRows_other [of _ ?ts ?a ?s2] by (simp add: E fst)
qed simp

lemma toLight_requests_rows:
  "toLight_requests i R s = Some s' \<Longrightarrow> quiet {} {} s s' \<and>
     (\<forall>n \<in> set R. mStatus s' (mSlotID (node s n)) \<noteq> SMX_TX_BLOCKED)"
proof (induction R arbitrary: s)
  case (Cons n rest)
  let ?s1 = "updLockItem i (\<lambda>it. it\<lparr>mLockRequest := remove1 n (mLockRequest it)\<rparr>) s"
  obtain s2 s3 s4 where s2: "(case mCvsLockNode (node ?s1 n) of
       Some c \<Rightarrow> Some (updNode n (\<lambda>nd. nd\<lparr>mDoRemove := True\<rparr>)
         (updNode c (\<lambda>nd. nd\<lparr>mLockMode := getConversionLockMode (mLockMode nd) (mLockMode (node ?s1 n))\<rparr>) ?s1))
     | None \<Rightarrow> (let sA = updNode n (\<lambda>nd. nd\<lparr>mBeGrant := True\<rparr>) ?s1 in addLockNode n (mSlotID (node sA n)) sA)) = Some s2"
    and s3: "clearWaitItemColsOfTrans False (mSlotID (node s2 n)) s2 = Some s3"
    and s4: "resumeTrans (mSlotID (node s3 n)) s3 = Some s4" "toLight_requests i rest s4 = Some s'"
    using Cons.prems unfolding toLight_requests.simps Let_def bind_eq_Some_conv by blast
  have pre: "sameWaits s s2 \<and> mStatus s2 = mStatus s \<and> (\<forall>x. mSlotID (node s2 x) = mSlotID (node s x))"
    using s2 by (auto simp: Let_def dest!: addLockNode_waits [where ?s0.0 = s] split: option.splits)
  have "waitState.more s3 = waitState.more s2"
    using clearWait_other(3) [OF s3, of "Suc (mSlotID (node s2 n))"] by simp
  then have "mLockNodes s3 = mLockNodes s2" using more_lock(1) by blast
  then have s4': "resumeTrans (mSlotID (node s2 n)) s3 = Some s4" using s4(1) by simp
  note R = resume_quiet [OF s3 s4']
  note IH = Cons.IH [OF s4(2)]
  have slots: "mSlotID (node s4 x) = mSlotID (node s x)" for x using R(3) pre by simp
  have st4: "mStatus s4 (mSlotID (node s n)) \<noteq> SMX_TX_BLOCKED" using R(2) pre by simp
  have "mStatus s' (mSlotID (node s n)) \<noteq> SMX_TX_BLOCKED"
    using IH st4 unfolding quiet_def by blast
  moreover have "quiet {} {} s s'"
    using quiet_trans [OF quiet_same quiet_trans [OF R(1)]] pre IH by blast
  ultimately show ?case using IH slots by auto
qed simp

lemma toLightMode_quiet: "toLightMode i s = Some s' \<Longrightarrow> quiet {} {} s s'"
proof -
  assume run: "toLightMode i s = Some s'"
  obtain s1 s2 where s1: "(if mGrantCnt (item s i) > 0 then toLight_grants i (mLockGrant (item s i)) s else Some s) = Some s1"
    and s2: "toLight_requests i (mLockRequest (item s1 i)) s1 = Some s2" "s' = updLockItem i clearLockItem s2"
    using run unfolding toLightMode_def bind_eq_Some_conv by blast
  have g: "mStatus s1 = mStatus s \<and> mLockNodes s1 = mLockNodes s \<and>
     mLockRequest (item s1 i) = mLockRequest (item s i) \<and> mFstWaitTblTransItem s1 = mFstWaitTblTransItem s \<and>
     (\<forall>v. v \<notin> set (slotsOf s (mLockRequest (item s i))) \<longrightarrow> mWaitForTable s1 v = mWaitForTable s v)"
    using s1 toLight_grants_rows [of i "mLockGrant (item s i)" s s1] by (auto split: if_splits)
  from toLight_requests_rows [OF s2(1)] have q: "quiet {} {} s1 s2"
    and off: "\<And>v. v \<in> set (slotsOf s (mLockRequest (item s i))) \<Longrightarrow> mStatus s2 v \<noteq> SMX_TX_BLOCKED"
    using g by auto
  show ?thesis
    unfolding quiet_def
  proof (intro allI impI)
    fix v assume "v \<notin> {} \<and> mStatus s' v = SMX_TX_BLOCKED"
    then have v: "mStatus s2 v = SMX_TX_BLOCKED" by (simp add: s2(2))
    then have "v \<notin> set (slotsOf s (mLockRequest (item s i)))" using off by blast
    then have "mWaitForTable s1 v = mWaitForTable s v" using g by blast
    then show "mStatus s v = SMX_TX_BLOCKED \<and> mFstWaitTblTransItem s' v = mFstWaitTblTransItem s v \<and>
        (\<forall>u. nxt s' v u = nxt s v u \<and> (idx s' v u = idx s v u \<or> idx s' v u = 0 \<and> u \<in> {}))"
      using q v g by (simp add: quiet_def s2(2))
  qed
qed

subsection \<open>Steps of one transaction\<close>

definition others :: "slot_id \<Rightarrow> lockState \<Rightarrow> lockState \<Rightarrow> bool" where
  "others t s s' \<longleftrightarrow> quiet {t} {t} s s' \<and> (\<forall>v. v \<noteq> t \<and> mStatus s v \<noteq> SMX_TX_BLOCKED \<longrightarrow> keeps v s s')"

lemma others_refl [simp]: "others t s s"
  by (simp add: others_def)

lemma others_trans: "others t s s' \<Longrightarrow> others t s' s'' \<Longrightarrow> others t s s''"
  unfolding others_def using quiet_trans keeps_trans keepsD(3) by metis

lemma onlyOn_others:
  assumes "onlyOn {t} i w s w' s'"
  shows "others t s s'"
proof -
  note D = onlyOnD [OF assms]
  have "quiet {t} {t} s s'" unfolding quiet_def using D(5,8,9) by auto
  then show ?thesis using onlyOn_keeps [OF assms] by (simp add: others_def)
qed

text \<open>A transaction that is not blocked is not queued: it may be added to those that are out.\<close>

definition idle :: "lockState \<Rightarrow> slot_id set" where
  "idle s = {v. mStatus s v \<noteq> SMX_TX_BLOCKED}"

lemma idle_not_queued: "v \<in> idle s \<Longrightarrow> \<not> queuedOn w s j v n"
  by (simp add: idle_def queuedOn_def)

lemma midInv_idle: "midInv F X i w s \<Longrightarrow> midInv (F \<union> idle s) X i w s"
  unfolding midInv_def midBase_def using idle_not_queued by blast

lemma clear_own_others:
  assumes mid: "midInv {t} X i w s" and heavy: "mItemFlag (item s i) \<noteq> SML_FLAG_LIGHT_MODE"
  shows "others t s (clearWaitTableRows (slotsOf s (mLockRequest (item s i))) t s)"
proof -
  let ?ts = "slotsOf s (mLockRequest (item s i))"
  let ?s' = "clearWaitTableRows ?ts t s"
  have ok: "rowsCleared (set ?ts) {t} s ?s'" "waitState.more ?s' = waitState.more s"
    using clearWaitTableRows_ok by blast+
  note E = more_lock [OF ok(2)] and B = midInvD(1) [OF mid]
  have "quiet {t} {t} s ?s'"
    using ok(1) by (auto simp: quiet_def E rowsCleared_def)
  moreover have "keeps v s ?s'" if v: "v \<noteq> t" "mStatus s v \<noteq> SMX_TX_BLOCKED" for v
  proof -
    note req = itemOk_heavyD(2) [OF midInvD(2) [OF mid] heavy]
    have "v \<notin> set ?ts"
    proof
      assume "v \<in> set ?ts"
      then obtain x where x: "x \<in> set (mLockRequest (item s i))" "mSlotID (node s x) = v" by auto
      then have "x \<in> queuedNodes w s i" using requestsOkD(2) [OF req] by blast
      then show False using midBase_queued [OF B] x(2) v(2) by metis
    qed
    then show ?thesis
      using ok(1) clearRows_other [of v ?ts t s] by (simp add: keeps_def E rowsCleared_def)
  qed
  ultimately show ?thesis by (simp add: others_def)
qed

end
