(* ===== verification/LockRelease.thy ===== *)
theory LockRelease
  imports LockOthers
begin

text \<open>
  Releasing a lock: one slot of a node, or the whole node; the item is left consistent, with the
  requests that became possible granted, and only the releasing transaction's own node, slot list
  and node list change for it.
\<close>

subsection \<open>Steps of the transaction that is out\<close>

lemma midBase_own:
  assumes mid: "midBase {t} X i w s" and t: "t < mTransCnt s" and on: "onlyOn {t} i w s w s'"
    and own: "nodesOk s' t" "\<exists>xs. rowOk s' t xs" "mStatus s' t = mStatus s t" "X' \<subseteq> heldBy s' i t"
  shows "midBase {t} X' i w s'"
  by (rule midBase_step [OF mid on]) (use t own midBaseD(2) [OF mid] in \<open>auto simp: queuedOn_def\<close>)

lemma itemOk_same:
  assumes "item s' i = item s i" "mTransCnt s' = mTransCnt s" "heldOn s' i = heldOn s i"
    "\<And>t n. t < mTransCnt s \<Longrightarrow> queuedOn w' s' i t n = queuedOn w s i t n"
    "\<And>n. n \<in> heldOn s i \<Longrightarrow> mLockMode (node s' n) = mLockMode (node s n)"
    "\<And>n. n \<in> heldOn s i \<union> queuedNodes w s i \<Longrightarrow> mSlotID (node s' n) = mSlotID (node s n)"
    "\<And>t u n. t < mTransCnt s \<Longrightarrow> queuedOn w s i t n \<Longrightarrow> idx s' t u = idx s t u"
    and ok: "itemOk X w s i"
  shows "itemOk X w' s' i"
proof -
  have q: "queuedNodes w' s' i = queuedNodes w s i"
    using assms(2,4) by (auto simp: queuedNodes_def)
  show ?thesis
  proof (cases "mItemFlag (item s i) = SML_FLAG_LIGHT_MODE")
    case True
    then show ?thesis using ok assms(1,3,5) q by (auto simp: itemOk_def lightItem_def)
  next
    case False
    note H = itemOk_heavyD [OF ok False] and G = grantsOkD [OF itemOk_heavyD(1) [OF ok False]]
    note Q = requestsOkD [OF H(2)]
    have modes: "modesOf s' (mLockGrant (item s i)) = modesOf s (mLockGrant (item s i))"
      by (rule modesOf_cong) (use G(2) assms(5) in auto)
    have "compatibleNodes s' (set (mLockGrant (item s i)))"
      using G(2,6) assms(5) by (auto simp: compatibleNodes_def)
    then have "grantsOk X s' i"
      using G assms(3) by (intro grantsOkI) (simp_all add: assms(1) modes del: set_image_mset)
    moreover have "requestsOk w' s' i"
      using H(2) assms(1) q by (simp add: requestsOk_def)
    moreover have "waitsRecorded w' s' i"
    proof -
      have "blockers s' i t n = blockers s i t n" for t n
        unfolding blockers_def assms(1)
        by (intro arg_cong2 [where f = minus] arg_cong [where f = set] map_cong refl)
          (use G(2) Q(2) assms(6) set_takeWhileD in fastforce)
      then show ?thesis
        using H(3) assms(2,4,7) unfolding waitsRecorded_def by metis
    qed
    ultimately show ?thesis using False assms(1) by (simp add: itemOk_def)
  qed
qed

lemma headStuck_same:
  assumes "item s' i = item s i"
    "\<And>n. n \<in> set (mLockRequest (item s i)) \<Longrightarrow> mLockMode (node s' n) = mLockMode (node s n) \<and>
       mCvsLockNode (node s' n) = mCvsLockNode (node s n)" "headStuck s i"
  shows "headStuck s' i"
  using assms by (auto simp: headStuck_def split: list.splits)

subsection \<open>A granted node of an item in heavy mode\<close>

text \<open>The flag of the node without the slot's mode; 0 when the whole node is released.\<close>

definition leftFlag :: "node_id \<Rightarrow> lock_slot option \<Rightarrow> lockState \<Rightarrow> u32" where
  "leftFlag n sl s = (case sl of None \<Rightarrow> 0
     | Some l \<Rightarrow> mNodeFlag (node s n) AND NOT (mLockModeToMask (snd l)))"

definition flagCleared :: "node_id \<Rightarrow> lock_slot option \<Rightarrow> lockState \<Rightarrow> smlLockNode" where
  "flagCleared n sl s = (case sl of None \<Rightarrow> node s n
     | Some l \<Rightarrow> (node s n)\<lparr>mNodeFlag := leftFlag n sl s\<rparr>)"

lemma flagCleared_sel [simp]:
  "mSlotID (flagCleared n sl s) = mSlotID (node s n)" "mLockItem (flagCleared n sl s) = mLockItem (node s n)"
  "mLockMode (flagCleared n sl s) = mLockMode (node s n)" "mBeGrant (flagCleared n sl s) = mBeGrant (node s n)"
  "mDoRemove (flagCleared n sl s) = mDoRemove (node s n)"
  "mCvsLockNode (flagCleared n sl s) = mCvsLockNode (node s n)"
  "mLockSequence (flagCleared n sl s) = mLockSequence (node s n)"
  by (simp_all add: flagCleared_def split: option.split)

lemma unlock_granted_free:
  assumes "itemCounts (item s i) M" "mLockMode (node s n) \<in># M" "sl = None \<or> fst (the sl) = n"
    "leftFlag n sl s = 0"
  shows "\<exists>s'. unlock_granted i n sl s = Some (True, s') \<and>
    mLockNodes s' = (mLockNodes s)(n := flagCleared n sl s) \<and>
    (\<forall>j. j \<noteq> i \<longrightarrow> item s' j = item s j) \<and>
    mLockGrant (item s' i) = remove1 n (mLockGrant (item s i)) \<and>
    mGrantCnt (item s' i) = mGrantCnt (item s i) - 1 \<and>
    mLockRequest (item s' i) = mLockRequest (item s i) \<and>
    mRequestCnt (item s' i) = mRequestCnt (item s i) \<and>
    mGrantLockMode (item s' i) = lubModes (set_mset (M - {#mLockMode (node s n)#})) \<and>
    itemCounts (item s' i) (M - {#mLockMode (node s n)#}) \<and>
    mItemFlag (item s' i) \<noteq> SML_FLAG_LIGHT_MODE \<and>
    mTransLockNodes s' = mTransLockNodes s \<and> mTransLockSlots s' = mTransLockSlots s \<and>
    mNextLockNode s' = mNextLockNode s \<and> mStatus s' = mStatus s \<and> sameWaits s s'"
proof -
  have dec: "getDecision (flagOf (set_mset (M - {#mLockMode (node s n)#}))) =
      Some (lubModes (set_mset (M - {#mLockMode (node s n)#})))"
    using getDecision_lub [OF flagModes_of] .
  show ?thesis
  proof (cases sl)
    case None
    then show ?thesis
      using assms dec by (simp add: unlock_granted_def onItem_dec flagCleared_def)
  next
    case (Some l)
    then show ?thesis
      using assms dec
      by (simp add: unlock_granted_def onItem_dec flagCleared_def leftFlag_def clearNodeFlag_def)
  qed
qed

lemma unlock_granted_keep:
  assumes "itemCounts (item s i) M" "mLockMode (node s n) \<in># M" "fst l = n"
    "leftFlag n (Some l) s \<noteq> 0" "getDecision (leftFlag n (Some l) s) = Some v"
  shows "\<exists>s'. unlock_granted i n (Some l) s = Some (False, s') \<and>
    mLockNodes s' = (mLockNodes s)(n := (node s n)\<lparr>mNodeFlag := leftFlag n (Some l) s, mLockMode := v\<rparr>) \<and>
    (\<forall>j. j \<noteq> i \<longrightarrow> item s' j = item s j) \<and>
    mLockGrant (item s' i) = mLockGrant (item s i) \<and> mGrantCnt (item s' i) = mGrantCnt (item s i) \<and>
    mLockRequest (item s' i) = mLockRequest (item s i) \<and>
    mRequestCnt (item s' i) = mRequestCnt (item s i) \<and>
    mGrantLockMode (item s' i) = lubModes (set_mset (add_mset v (M - {#mLockMode (node s n)#}))) \<and>
    itemCounts (item s' i) (add_mset v (M - {#mLockMode (node s n)#})) \<and>
    mItemFlag (item s' i) \<noteq> SML_FLAG_LIGHT_MODE \<and>
    mTransLockNodes s' = mTransLockNodes s \<and> mTransLockSlots s' = mTransLockSlots s \<and>
    mNextLockNode s' = mNextLockNode s \<and> mStatus s' = mStatus s \<and> sameWaits s s'"
proof -
  let ?M = "add_mset v (M - {#mLockMode (node s n)#})"
  have "getDecision (flagOf (set_mset ?M)) = Some (lubModes (set_mset ?M))"
    using getDecision_lub [OF flagModes_of] .
  then show ?thesis
    using assms by (simp add: unlock_granted_def onItem_dec leftFlag_def clearNodeFlag_def
        decideNodeMode_def onItem_inc [where M = "M - {#mLockMode (node s n)#}"])
qed

subsection \<open>Changing an own node\<close>

lemma held_single:
  assumes "nodesOk s t" "n \<in> heldBy s i t"
  shows "heldBy s i t = {n}"
proof -
  have "x = n" if "x \<in> heldBy s i t" for x
  proof -
    have "inj_on (\<lambda>n. mLockItem (node s n)) (set (mTransLockNodes s t))"
      using assms(1) by (simp add: nodesOk_def distinct_map)
    then show ?thesis
      using that assms(2) by (auto simp: heldBy_def dest: inj_onD)
  qed
  then show ?thesis using assms(2) by blast
qed

text \<open>\<open>ownNode t i n s s'\<close>: the node \<open>n\<close> that \<open>t\<close> holds on item \<open>i\<close> changed, apart from what links
  it, and the item and the slots of \<open>t\<close> may have.\<close>

definition ownNode :: "slot_id \<Rightarrow> item_id \<Rightarrow> node_id \<Rightarrow> lockState \<Rightarrow> lockState \<Rightarrow> bool" where
  "ownNode t i n s s' \<longleftrightarrow> (\<forall>x. x \<noteq> n \<longrightarrow> node s' x = node s x) \<and>
     mSlotID (node s' n) = mSlotID (node s n) \<and> mLockItem (node s' n) = mLockItem (node s n) \<and>
     mBeGrant (node s' n) = mBeGrant (node s n) \<and> mDoRemove (node s' n) = mDoRemove (node s n) \<and>
     mCvsLockNode (node s' n) = mCvsLockNode (node s n) \<and>
     (\<forall>j. j \<noteq> i \<longrightarrow> item s' j = item s j) \<and> mTransLockNodes s' = mTransLockNodes s \<and>
     (\<forall>u. u \<noteq> t \<longrightarrow> mTransLockSlots s' u = mTransLockSlots s u) \<and>
     mNextLockNode s' = mNextLockNode s \<and> mStatus s' = mStatus s \<and> sameWaits s s'"

lemma ownNodeD:
  assumes "ownNode t i n s s'"
  shows "mSlotID (node s' x) = mSlotID (node s x)" "mLockItem (node s' x) = mLockItem (node s x)"
    "mBeGrant (node s' x) = mBeGrant (node s x)" "mDoRemove (node s' x) = mDoRemove (node s x)"
    "mCvsLockNode (node s' x) = mCvsLockNode (node s x)" "x \<noteq> n \<Longrightarrow> node s' x = node s x"
    "j \<noteq> i \<Longrightarrow> item s' j = item s j" "mTransLockNodes s' = mTransLockNodes s"
    "mNextLockNode s' = mNextLockNode s" "mStatus s' = mStatus s" "sameWaits s s'"
    "mTransCnt s' = mTransCnt s" "queuedOn w s' = queuedOn w s" "heldBy s' = heldBy s"
    "heldOn s' = heldOn s" "queuedNodes w s' = queuedNodes w s" "idx s' a b = idx s a b"
proof -
  have *: "mSlotID (node s' x) = mSlotID (node s x)" "mLockItem (node s' x) = mLockItem (node s x)"
    "mBeGrant (node s' x) = mBeGrant (node s x)" "mDoRemove (node s' x) = mDoRemove (node s x)"
    "mCvsLockNode (node s' x) = mCvsLockNode (node s x)" for x
    using assms unfolding ownNode_def by (cases "x = n"; simp)+
  show "mSlotID (node s' x) = mSlotID (node s x)" "mLockItem (node s' x) = mLockItem (node s x)"
    "mBeGrant (node s' x) = mBeGrant (node s x)" "mDoRemove (node s' x) = mDoRemove (node s x)"
    "mCvsLockNode (node s' x) = mCvsLockNode (node s x)"
    by (rule *)+
  show "x \<noteq> n \<Longrightarrow> node s' x = node s x" "j \<noteq> i \<Longrightarrow> item s' j = item s j"
    and H: "mTransLockNodes s' = mTransLockNodes s"
    and "mNextLockNode s' = mNextLockNode s" and st: "mStatus s' = mStatus s" and sw: "sameWaits s s'"
    using assms by (simp_all add: ownNode_def)
  show cnt: "mTransCnt s' = mTransCnt s" "idx s' a b = idx s a b" using sameWaitsD [OF sw] by auto
  show q: "queuedOn w s' = queuedOn w s" and h: "heldBy s' = heldBy s"
    using *(2) by (simp_all add: fun_eq_iff queuedOn_def heldBy_def st H)
  then show "heldOn s' = heldOn s" "queuedNodes w s' = queuedNodes w s"
    by (simp_all add: fun_eq_iff heldOn_def queuedNodes_def cnt(1))
qed

lemma ownNode_only:
  assumes mid: "midBase {t} X i w s" and t: "t < mTransCnt s" and n: "n \<in> heldBy s i t"
    and own: "ownNode t i n s s'"
  shows "onlyOn {t} i w s w s'"
proof -
  note D = ownNodeD [OF own] and M = midBaseD [OF mid]
  have slot: "mSlotID (node s n) = t" "mLockItem (node s n) = i"
    using nodesOkD(2) [OF stateOkD(4) [OF M(1) t]] n by (auto simp: heldBy_def)
  have same: "node s' x = node s x" if "mSlotID (node s x) \<noteq> t \<or> mLockItem (node s x) \<noteq> i" for x
    using D(6) [of x] that slot by auto
  show ?thesis
    by (rule onlyOn_single [OF sameWaits_only [OF D(11)]])
      (use own same midBaseD(2) [OF mid] D in \<open>auto simp: ownNode_def\<close>)
qed

lemma ownNode_mid:
  assumes mid: "midBase {t} X i w s" and t: "t < mTransCnt s" and n: "n \<in> heldBy s i t"
    and own: "ownNode t i n s s'" and X: "X' \<subseteq> heldBy s i t"
  shows "midBase {t} X' i w s'"
proof -
  note D = ownNodeD [OF own] and M = midBaseD [OF mid]
  have "nodesOk s' t"
    using stateOkD(4) [OF M(1) t] by (simp add: nodesOk_def heldNodeOk_def D)
  moreover have "\<exists>xs. rowOk s' t xs"
    using stateOkD(1) [OF M(1)] t sameWaitsD(2) [OF D(11)] by (simp add: waitInv_def)
  ultimately show ?thesis
    by (intro midBase_own [OF mid t ownNode_only [OF mid t n own]]) (use X in \<open>simp_all add: D\<close>)
qed

lemmas ownNode_others = onlyOn_others [OF ownNode_only]

lemma queued_other_node:
  assumes "midBase {t} X i w s" "x \<in> queuedNodes w s j" "mSlotID (node s n) = t"
  shows "x \<noteq> n"
proof -
  obtain u where u: "u < mTransCnt s" "queuedOn w s j u x" using assms(2) by (auto simp: queuedNodes_def)
  then have "mSlotID (node s x) = u" using midBase_slot [OF assms(1)] by blast
  moreover have "u \<noteq> t" using u(2) midBaseD(2) [OF assms(1)] by blast
  ultimately show ?thesis using assms(3) by blast
qed

lemma itemOk_requests:
  assumes "itemOk X w s i"
  shows "set (mLockRequest (item s i)) = queuedNodes w s i"
proof (cases "mItemFlag (item s i) = SML_FLAG_LIGHT_MODE")
  case True
  then show ?thesis using assms lightItem_sel(2) [of X w s i] by (auto simp: itemOk_def lightItem_def)
qed (use assms in \<open>simp add: itemOk_def requestsOk_def Let_def\<close>)

lemma itemOk_grants:
  assumes "itemOk X w s i"
  shows "set (mLockGrant (item s i)) \<subseteq> heldOn s i - X"
  using assms lightItem_sel(1) [of X w s i]
  by (cases "mItemFlag (item s i) = SML_FLAG_LIGHT_MODE") (auto simp: itemOk_def grantsOk_def Let_def)

text \<open>Changes of an own node that is not granted any more, or keeps its mode.\<close>

lemma ownNode_inv:
  assumes mid: "midInv {t} X i w s" and t: "t < mTransCnt s" and n: "n \<in> heldBy s i t"
    and own: "ownNode t i n s s'" and it: "item s' i = item s i"
    and mode: "mLockMode (node s' n) = mLockMode (node s n) \<or>
      mItemFlag (item s i) = SML_FLAG_LIGHT_MODE \<and> mLockMode (node s' n) \<le> mLockMode (node s n)"
    and X: "X' = X \<or> mItemFlag (item s i) = SML_FLAG_LIGHT_MODE \<and> X \<subseteq> X' \<and> X' \<subseteq> heldBy s i t"
  shows "midInv {t} X' i w s'" "headStuck s i \<Longrightarrow> headStuck s' i"
proof -
  note D = ownNodeD [OF own] and B = midInvD(1) [OF mid] and M = midBaseD [OF midInvD(1) [OF mid]]
  have slot: "mSlotID (node s n) = t"
    using nodesOkD(2) [OF stateOkD(4) [OF M(1) t]] n by (auto simp: heldBy_def)
  have "X' \<subseteq> heldBy s i t"
    using X M(8) by auto
  then have "midBase {t} X' i w s'" using ownNode_mid [OF B t n own] by blast
  moreover have "itemOk X' w s' i"
  proof (cases "mItemFlag (item s i) = SML_FLAG_LIGHT_MODE")
    case True
    have "lightMode (mLockMode (node s' x))" if "lightMode (mLockMode (node s x))" for x
      using that mode D(6) [of x] lightMode_mono by (cases "x = n") auto
    then show ?thesis
      using True midInvD(2) [OF mid] X by (auto simp: itemOk_def lightItem_def D it)
  next
    case False
    then have "mLockMode (node s' x) = mLockMode (node s x)" for x
      using mode D(6) [of x] by (cases "x = n") auto
    then show ?thesis
      using False X midInvD(2) [OF mid] by (intro itemOk_same [of s' i s w w]) (auto simp: it D)
  qed
  ultimately show "midInv {t} X' i w s'" by (simp add: midInv_def)
  show "headStuck s' i" if "headStuck s i"
    by (rule headStuck_same [OF it _ that])
      (use queued_other_node [OF B _ slot] itemOk_requests [OF midInvD(2) [OF mid]] D(6) in auto)
qed

subsection \<open>The parts of a release\<close>

text \<open>What stays of the own state when node \<open>n\<close> is released.\<close>

definition ownKept :: "slot_id \<Rightarrow> node_id \<Rightarrow> lockState \<Rightarrow> lockState \<Rightarrow> bool" where
  "ownKept t n s s' \<longleftrightarrow> mTransCnt s' = mTransCnt s \<and> mNextLockNode s \<le> mNextLockNode s' \<and>
     mStatus s' t = mStatus s t \<and> mSlotID (node s' n) = mSlotID (node s n) \<and>
     (\<forall>x < mNextLockNode s. mSlotID (node s x) = t \<and> x \<noteq> n \<longrightarrow> node s' x = node s x) \<and>
     mWaitForTable s' t = mWaitForTable s t \<and> mFstWaitTblTransItem s' t = mFstWaitTblTransItem s t"

lemma ownKept_refl [simp]: "ownKept t n s s"
  by (simp add: ownKept_def)

lemma ownKept_trans: "ownKept t n s s' \<Longrightarrow> ownKept t n s' s'' \<Longrightarrow> ownKept t n s s''"
  by (auto simp: ownKept_def)

lemma keeps_ownKept: "keeps t s s' \<Longrightarrow> n < mNextLockNode s \<Longrightarrow> mSlotID (node s n) = t \<Longrightarrow> ownKept t n s s'"
  by (simp add: keeps_def ownKept_def)

lemma ownNode_ownKept: "ownNode t i n s s' \<Longrightarrow> ownKept t n s s'"
  by (simp add: ownNode_def ownKept_def sameWaits_def)

lemma ownKept_row: "ownKept t n s s' \<Longrightarrow> rowOk s' t xs \<longleftrightarrow> rowOk s t xs"
  by (simp add: ownKept_def rowOk_def)

lemma waits_subset:
  assumes "waitsRecorded w s i" "mTransCnt s' = mTransCnt s" "\<And>u x. queuedOn w s' i u x = queuedOn w s i u x"
    "\<And>x. mSlotID (node s' x) = mSlotID (node s x)"
    "set (mLockGrant (item s' i)) \<subseteq> set (mLockGrant (item s i))"
    "mLockRequest (item s' i) = mLockRequest (item s i)" "\<And>u v. idx s' u v = idx s u v"
  shows "waitsRecorded w s' i"
proof -
  have "blockers s' i u x \<subseteq> blockers s i u x" for u x
    using assms(4-6) by (auto simp: blockers_def)
  then show ?thesis
    using assms(1-3,7) unfolding waitsRecorded_def by (metis subsetD)
qed

lemma release_heavy_free:
  assumes mid: "midInv {t} {} i w s" and heavy: "mItemFlag (item s i) \<noteq> SML_FLAG_LIGHT_MODE"
    and t: "t < mTransCnt s" and n: "n \<in> heldBy s i t" and sl: "sl = None \<or> fst (the sl) = n"
    and free: "leftFlag n sl s = 0"
  shows "\<exists>s'. unlock_granted i n sl s = Some (True, s') \<and> midInv {t} {n} i w s' \<and>
    mItemFlag (item s' i) \<noteq> SML_FLAG_LIGHT_MODE \<and> ownNode t i n s s' \<and> mTransLockSlots s' = mTransLockSlots s \<and>
    node s' n = flagCleared n sl s"
proof -
  note B = midInvD(1) [OF mid] and H = itemOk_heavyD [OF midInvD(2) [OF mid] heavy]
  note G = grantsOkD [OF H(1)]
  have gr: "n \<in> set (mLockGrant (item s i))"
    using n t G(2) by (auto simp: heldOn_def)
  then have "mLockMode (node s n) \<in># modesOf s (mLockGrant (item s i))" by simp
  from unlock_granted_free [OF G(4) this sl free] obtain s' where s':
    "unlock_granted i n sl s = Some (True, s')" "mLockNodes s' = (mLockNodes s)(n := flagCleared n sl s)"
    "\<forall>j. j \<noteq> i \<longrightarrow> item s' j = item s j" "mLockGrant (item s' i) = remove1 n (mLockGrant (item s i))"
    "mGrantCnt (item s' i) = mGrantCnt (item s i) - 1"
    "mLockRequest (item s' i) = mLockRequest (item s i)"
    "mRequestCnt (item s' i) = mRequestCnt (item s i)"
    "mGrantLockMode (item s' i) =
      lubModes (set_mset (modesOf s (mLockGrant (item s i)) - {#mLockMode (node s n)#}))"
    "itemCounts (item s' i) (modesOf s (mLockGrant (item s i)) - {#mLockMode (node s n)#})"
    "mItemFlag (item s' i) \<noteq> SML_FLAG_LIGHT_MODE"
    "mTransLockNodes s' = mTransLockNodes s" "mTransLockSlots s' = mTransLockSlots s"
    "mNextLockNode s' = mNextLockNode s" "mStatus s' = mStatus s" "sameWaits s s'"
    by blast
  have own: "ownNode t i n s s'"
    using s'(3) by (simp add: ownNode_def s'(2,11-15))
  note D = ownNodeD [OF own]
  have "itemOk {n} w s' i"
  proof (rule itemOk_heavyI [OF s'(10)])
    show "grantsOk {n} s' i"
      by (rule grantsOk_remove [OF H(1) gr fun_cong [OF D(15)] _ refl s'(4,5,9,8)]) (simp add: s'(2))
    show "requestsOk w s' i"
      using H(2) by (simp add: requestsOk_def Let_def s'(6,7) D)
    show "waitsRecorded w s' i"
      by (rule waits_subset [OF H(3)]) (simp_all add: D s'(4,6) set_remove1_subset)
  qed
  then show ?thesis
    using ownNode_mid [OF B t n own] n s'(1,2,10,12) own by (intro exI [of _ s']) (simp add: midInv_def)
qed

lemma release_heavy_keep:
  assumes mid: "midInv {t} {} i w s" and heavy: "mItemFlag (item s i) \<noteq> SML_FLAG_LIGHT_MODE"
    and t: "t < mTransCnt s" and n: "n \<in> heldBy s i t" and l: "fst l = n"
    and keep: "leftFlag n (Some l) s \<noteq> 0" and v: "getDecision (leftFlag n (Some l) s) = Some v"
    and le: "v \<le> mLockMode (node s n)"
  shows "\<exists>s'. unlock_granted i n (Some l) s = Some (False, s') \<and> midInv {t} {} i w s' \<and>
    mItemFlag (item s' i) \<noteq> SML_FLAG_LIGHT_MODE \<and> ownNode t i n s s' \<and>
    mTransLockSlots s' = mTransLockSlots s \<and>
    node s' n = (node s n)\<lparr>mNodeFlag := leftFlag n (Some l) s, mLockMode := v\<rparr>"
proof -
  note B = midInvD(1) [OF mid] and H = itemOk_heavyD [OF midInvD(2) [OF mid] heavy]
  note G = grantsOkD [OF H(1)]
  have gr: "n \<in> set (mLockGrant (item s i))"
    using n t G(2) by (auto simp: heldOn_def)
  then have "mLockMode (node s n) \<in># modesOf s (mLockGrant (item s i))" by simp
  from unlock_granted_keep [OF G(4) this l keep v] obtain s' where s':
    "unlock_granted i n (Some l) s = Some (False, s')"
    "mLockNodes s' = (mLockNodes s)(n := (node s n)\<lparr>mNodeFlag := leftFlag n (Some l) s, mLockMode := v\<rparr>)"
    "\<forall>j. j \<noteq> i \<longrightarrow> item s' j = item s j" "mLockGrant (item s' i) = mLockGrant (item s i)"
    "mGrantCnt (item s' i) = mGrantCnt (item s i)"
    "mLockRequest (item s' i) = mLockRequest (item s i)"
    "mRequestCnt (item s' i) = mRequestCnt (item s i)"
    "mGrantLockMode (item s' i) =
      lubModes (set_mset (add_mset v (modesOf s (mLockGrant (item s i)) - {#mLockMode (node s n)#})))"
    "itemCounts (item s' i) (add_mset v (modesOf s (mLockGrant (item s i)) - {#mLockMode (node s n)#}))"
    "mItemFlag (item s' i) \<noteq> SML_FLAG_LIGHT_MODE"
    "mTransLockNodes s' = mTransLockNodes s" "mTransLockSlots s' = mTransLockSlots s"
    "mNextLockNode s' = mNextLockNode s" "mStatus s' = mStatus s" "sameWaits s s'"
    by blast
  have own: "ownNode t i n s s'"
    using s'(3) by (simp add: ownNode_def s'(2,11-15))
  note D = ownNodeD [OF own]
  have comp: "compatible v (mLockMode (node s a))" if "a \<in> set (mLockGrant (item s i))" "a \<noteq> n" for a
    using G(6) gr that compatible_mono [OF le] by (auto simp: compatibleNodes_def)
  have "itemOk {} w s' i"
  proof (rule itemOk_heavyI [OF s'(10)])
    show "grantsOk {} s' i"
      by (rule grantsOk_change [OF H(1) gr fun_cong [OF D(15)] _ comp refl s'(4,5,9,8)]) (simp_all add: s'(2))
    show "requestsOk w s' i"
      using H(2) by (simp add: requestsOk_def Let_def s'(6,7) D)
    show "waitsRecorded w s' i"
      by (rule waits_subset [OF H(3)]) (simp_all add: D s'(4,6))
  qed
  then show ?thesis
    using ownNode_mid [OF B t n own] s'(1,2,10,12) own by (intro exI [of _ s']) (simp add: midInv_def)
qed

text \<open>The releasing transaction's entries in the rows of the waiting requests.\<close>

lemma clear_own:
  assumes mid: "midInv F X i w s" and heavy: "mItemFlag (item s i) \<noteq> SML_FLAG_LIGHT_MODE"
    and t: "t \<in> F" "t \<notin> set (slotsOf s (mLockGrant (item s i)))"
  defines "s' \<equiv> clearWaitTableRows (slotsOf s (mLockRequest (item s i))) t s"
  shows "midInv F X i w s'" "sameLocks i s s'" "item s' i = item s i" "u \<in> F \<Longrightarrow> keeps u s s'"
proof -
  note B = midInvD(1) [OF mid] and H = itemOk_heavyD [OF midInvD(2) [OF mid] heavy]
  let ?A = "set (slotsOf s (mLockRequest (item s i)))"
  have cl: "rowsCleared ?A {t} s s'" and m: "waitState.more s' = waitState.more s"
    using clearWaitTableRows_ok unfolding s'_def by blast+
  note more = more_lock [OF m]
  show same: "sameLocks i s s'" "item s' i = item s i"
    using more rowsClearedD(1) [OF cl] by (simp_all add: sameLocks_def)
  have A: "?A \<subseteq> {u. \<exists>n. queuedOn w s i u n}"
  proof
    fix u assume "u \<in> ?A"
    then obtain n where "n \<in> queuedNodes w s i" "mSlotID (node s n) = u"
      using requestsOkD(2) [OF H(2)] by auto
    then obtain v where "v < mTransCnt s" "queuedOn w s i v n" "mSlotID (node s n) = u"
      by (auto simp: queuedNodes_def)
    then show "u \<in> {u. \<exists>n. queuedOn w s i u n}" using midBase_slot [OF B] by blast
  qed
  note base = midBase_cleared [OF B same(1) cl A]
  note E = sameLocks_eq [OF same(1)]
  have "t \<notin> ?A" using A t(1) midBaseD(2) [OF B] by blast
  then have notB: "t \<notin> blockers s i u x" for u x
    using t(2) by (auto simp: blockers_def dest: set_takeWhileD)
  have bl: "blockers s' i = blockers s i"
    by (simp add: blockers_def fun_eq_iff same(2) more(1))
  have "waitsRecorded w s' i"
    unfolding waitsRecorded_def E(3) rowsClearedD(1) [OF cl] bl
  proof (intro allI impI ballI)
    fix u x v assume u: "u < mTransCnt s" "queuedOn w s i u x" "v \<in> blockers s i u x"
    then have "v \<noteq> t" using notB by blast
    with u H(3) show "idx s' u v = 1"
      unfolding rowsClearedD(2) [OF cl] by (simp add: waitsRecorded_def)
  qed
  moreover have "grantsOk X s' i" "requestsOk w s' i"
    using H(1,2) by (simp_all add: grantsOk_def requestsOk_def compatibleNodes_def E(5,6) same(2) more(1))
  ultimately have "itemOk X w s' i"
    using heavy by (intro itemOk_heavyI) (simp_all add: same(2))
  then show "midInv F X i w s'" using base(1) by (simp add: midInv_def)
  show "u \<in> F \<Longrightarrow> keeps u s s'" by (rule base(2))
qed

lemma unlink_or_wake:
  assumes mid: "midInv F X i w s" and heavy: "mItemFlag (item s i) \<noteq> SML_FLAG_LIGHT_MODE"
  shows "\<exists>s'. (if unlinkAll i s then toLightMode i s else wakeupRequestLockNodeInLockItem i s) = Some s' \<and>
    midInv F X i w s' \<and> headStuck s' i \<and> (\<forall>u \<in> F. keeps u s s')"
proof (cases "unlinkAll i s")
  case True
  then have "lightMode (mGrantLockMode (item s i))"
    and "\<And>n. n \<in> set (mLockRequest (item s i)) \<Longrightarrow> lightMode (mLockMode (node s n))"
    by (auto simp: unlinkAll_def lightMode_def split: if_splits)
  from toLightMode_ok [OF mid heavy this] True show ?thesis by simp
next
  case False
  then show ?thesis using wakeup_ok [OF mid heavy] by simp
qed


lemma unlink_or_wake_others:
  assumes mid: "midInv {t} X i w s" and heavy: "mItemFlag (item s i) \<noteq> SML_FLAG_LIGHT_MODE"
    and run: "(if unlinkAll i s then toLightMode i s else wakeupRequestLockNodeInLockItem i s) = Some s'"
  shows "others t s s'"
proof -
  have "quiet {} {} s s'"
    using run toLightMode_quiet wakeup_loop_quiet
    by (auto simp: wakeupRequestLockNodeInLockItem_def split: if_splits)
  then have "quiet {t} {t} s s'" by (rule quiet_mono) auto
  moreover have "keeps v s s'" if "mStatus s v \<noteq> SMX_TX_BLOCKED" for v
    using unlink_or_wake [OF midInv_idle [OF mid] heavy] run that by (auto simp: idle_def)
  ultimately show ?thesis by (simp add: others_def)
qed

lemma toLightMode_others:
  assumes mid: "midInv {t} X i w s" and heavy: "mItemFlag (item s i) \<noteq> SML_FLAG_LIGHT_MODE"
    and light: "lightMode (mGrantLockMode (item s i))"
      "\<And>n. n \<in> set (mLockRequest (item s i)) \<Longrightarrow> lightMode (mLockMode (node s n))"
    and run: "toLightMode i s = Some s'"
  shows "others t s s'"
proof -
  have "quiet {t} {t} s s'" using toLightMode_quiet [OF run] by (rule quiet_mono) auto
  moreover have "keeps v s s'" if "mStatus s v \<noteq> SMX_TX_BLOCKED" for v
    using toLightMode_ok [OF midInv_idle [OF mid] heavy light] run that by (auto simp: idle_def)
  ultimately show ?thesis by (simp add: others_def)
qed

lemma removeSlot_ok:
  assumes mid: "midInv {t} X i w s" and t: "t < mTransCnt s" and n: "n \<in> heldBy s i t"
    and l: "fst l = n" "l \<in> set (mTransLockSlots s t)"
  shows "\<exists>s'. removeLockSlot l s = Some s' \<and> midInv {t} X i w s' \<and> (headStuck s i \<longrightarrow> headStuck s' i) \<and>
    ownNode t i n s s' \<and> item s' i = item s i \<and>
    mTransLockSlots s' t = remove1 l (mTransLockSlots s t) \<and>
    node s' n = (node s n)\<lparr>mLockSequence := (mLockSequence (node s n))(snd l := 0)\<rparr>"
proof -
  have "n \<in> set (mTransLockNodes s t)" using n by (simp add: heldBy_def)
  then have slot: "mSlotID (node s n) = t"
    using nodesOkD(2) stateOkD(4) [OF midBaseD(1) [OF midInvD(1) [OF mid]] t] by blast
  define s' where "s' = setTransSlots t (remove1 l (mTransLockSlots s t))
    (updNode n (\<lambda>nd. nd\<lparr>mLockSequence := (mLockSequence nd)(snd l := 0)\<rparr>) s)"
  have own: "ownNode t i n s s'" by (simp add: ownNode_def s'_def)
  have "removeLockSlot l s = Some s'" using l slot by (simp add: removeLockSlot_def s'_def)
  moreover have "midInv {t} X i w s'" "headStuck s i \<Longrightarrow> headStuck s' i"
    using ownNode_inv [OF mid t n own, of X] by (simp_all add: s'_def)
  ultimately show ?thesis using own by (intro exI [of _ s']) (simp add: s'_def)
qed

text \<open>The release of a node that is not granted any more.\<close>

lemma complete_free:
  assumes mid: "midInv {t} {n} i w s" and t: "t < mTransCnt s"
  shows "\<exists>s'. unlock_complete n True s = Some s' \<and> midInv {t} {} i w s' \<and>
    (headStuck s i \<longrightarrow> headStuck s' i) \<and> mLockNodes s' = mLockNodes s \<and>
    mTransLockNodes s' = (mTransLockNodes s)(t := remove1 n (mTransLockNodes s t)) \<and>
    mTransLockSlots s' = mTransLockSlots s \<and> ownKept t n s s' \<and> others t s s'"
proof -
  note B = midInvD(1) [OF mid] and M = midBaseD [OF midInvD(1) [OF mid]]
  have n: "n \<in> heldBy s i t" using M(8) [of n] by simp
  note nodes = stateOkD(4) [OF M(1) t]
  have own: "n \<in> set (mTransLockNodes s t)" "mLockItem (node s n) = i"
    using n by (auto simp: heldBy_def)
  note N = nodesOkD [OF nodes own(1)]
  define s' where "s' = freeLockNodeNormal n (setTransNodes t (remove1 n (mTransLockNodes s t)) s)"
  have sel: "mLockNodes s' = mLockNodes s" "mLockItems s' = mLockItems s"
    "mTransLockNodes s' = (mTransLockNodes s)(t := remove1 n (mTransLockNodes s t))"
    "mTransLockSlots s' = mTransLockSlots s" "mNextLockNode s' = mNextLockNode s" "mStatus s' = mStatus s"
    "sameWaits s s'"
    by (simp_all add: s'_def freeLockNodeNormal_def setTransNodes_def sameWaits_def)
  note W = sameWaitsD [OF sel(7)]
  have dist: "distinct (map (\<lambda>n. mLockItem (node s n)) (mTransLockNodes s t))"
    "distinct (mTransLockNodes s t)"
    using nodes by (auto simp: nodesOk_def distinct_map)
  have rem: "set (remove1 n (mTransLockNodes s t)) = set (mTransLockNodes s t) - {n}"
    using dist(2) by (rule set_remove1_distinct)
  have "n \<notin> set (mLockGrant (item s i))" "n \<notin> set (mLockRequest (item s i))"
    using itemOk_grants [OF midInvD(2) [OF mid]] itemOk_requests [OF midInvD(2) [OF mid]]
      queued_other_node [OF B _ N(2)] by auto
  then have "unlock_complete n True s = Some s'"
    using own N rem by (simp add: unlock_complete_def removeIfLinked_def removeTransLockNode_def
        freeLockNode_def s'_def noNeighbours_def)
  moreover have "nodesOk s' t"
  proof -
    have "inj_on (\<lambda>n. mLockItem (node s n)) (set (mTransLockNodes s t))"
      using dist(1) by (simp add: distinct_map)
    then have "distinct (map (\<lambda>n. mLockItem (node s n)) (remove1 n (mTransLockNodes s t)))"
      using dist(2) rem by (simp add: distinct_map inj_on_diff)
    then show ?thesis
      using nodes rem by (simp add: nodesOk_def heldNodeOk_def sel)
  qed
  moreover have held: "heldBy s' j u = heldBy s j u - {n}" if "u < mTransCnt s" for j u
  proof (cases "u = t")
    case True
    then show ?thesis using rem by (auto simp: heldBy_def sel)
  next
    case False
    have "n \<notin> set (mTransLockNodes s u)"
      using nodesOkD(2) [OF stateOkD(4) [OF M(1) that]] N(2) False by blast
    then show ?thesis using False by (auto simp: heldBy_def sel)
  qed
  moreover have q: "queuedOn w s' = queuedOn w s"
    by (simp add: fun_eq_iff queuedOn_def sel)
  moreover have on: "onlyOn {t} i w s w s'"
  proof -
    have "heldBy s' j t = heldBy s j t" if "j \<noteq> i" for j
      unfolding held [OF t] using own(2) that by (auto simp: heldBy_def)
    then show ?thesis
      by (intro onlyOn_single [OF sameWaits_only [OF sel(7)]]) (use M(2) in \<open>simp_all add: sel q\<close>)
  qed
  moreover have mid': "midInv {t} {} i w s'"
  proof -
    have "midBase {t} {} i w s'"
      using \<open>nodesOk s' t\<close> stateOkD(1) [OF M(1)] t
      by (intro midBase_own [OF B t on]) (simp_all add: sel W(2) waitInv_def)
    moreover have "itemOk {} w s' i"
    proof -
      have heldOn: "heldOn s' i = heldOn s i - {n}" using held W(1) by (auto simp: heldOn_def)
      have qn: "queuedNodes w s' i = queuedNodes w s i" by (simp add: queuedNodes_def q W(1))
      have bl: "blockers s' i = blockers s i" by (simp add: fun_eq_iff blockers_def sel)
      show ?thesis
        using midInvD(2) [OF mid]
        by (simp add: itemOk_def lightItem_def grantsOk_def requestsOk_def waitsRecorded_def
            compatibleNodes_def heldOn qn bl q sel W Let_def cong: if_cong)
    qed
    ultimately show ?thesis by (simp add: midInv_def)
  qed
  moreover have "ownKept t n s s'"
    using sel by (simp add: ownKept_def sameWaits_def)
  moreover have "headStuck s i \<Longrightarrow> headStuck s' i" by (rule headStuck_same) (simp_all add: sel)
  ultimately show ?thesis using sel onlyOn_others [OF on] by (intro exI [of _ s']) simp
qed


subsection \<open>A release from either mode\<close>

definition slotReleased :: "slot_id \<Rightarrow> node_id \<Rightarrow> lock_slot option \<Rightarrow> lockState \<Rightarrow> lockState \<Rightarrow> bool" where
  "slotReleased t n sl s s' \<longleftrightarrow> ownKept t n s s' \<and> (case sl of
       None \<Rightarrow> mTransLockSlots s' t = mTransLockSlots s t
     | Some l \<Rightarrow> mTransLockSlots s' t = remove1 l (mTransLockSlots s t) \<and>
         (leftFlag n sl s \<noteq> 0 \<longrightarrow> (\<exists>v. getDecision (leftFlag n sl s) = Some v \<and>
            node s' n = (node s n)\<lparr>mNodeFlag := leftFlag n sl s, mLockMode := v,
              mLockSequence := (mLockSequence (node s n))(snd l := 0)\<rparr>)))"

definition released :: "slot_id \<Rightarrow> node_id \<Rightarrow> lock_slot option \<Rightarrow> lockState \<Rightarrow> lockState \<Rightarrow> bool" where
  "released t n sl s s' \<longleftrightarrow> slotReleased t n sl s s' \<and> mTransLockNodes s' t =
     (if leftFlag n sl s = 0 then remove1 n (mTransLockNodes s t) else mTransLockNodes s t)"

text \<open>What is asked of the slot.\<close>

definition slotFits :: "slot_id \<Rightarrow> node_id \<Rightarrow> lock_slot option \<Rightarrow> lockState \<Rightarrow> bool" where
  "slotFits t n sl s \<longleftrightarrow> (case sl of None \<Rightarrow> True
     | Some l \<Rightarrow> fst l = n \<and> l \<in> set (mTransLockSlots s t) \<and>
         (\<exists>v. getDecision (leftFlag n sl s) = Some v \<and> v \<le> mLockMode (node s n)))"

lemma slotFits_of:
  assumes ok: "slotsOk P s t" and l: "(n, m) \<in> set (mTransLockSlots s t)" and P: "P n = {}"
  shows "slotFits t n (Some (n, m)) s"
proof -
  have n: "n \<in> set (mTransLockNodes s t)" using slotsOkD(2) [OF ok] l by blast
  have "flagModes (leftFlag n (Some (n, m)) s) (slotModes s t n - {m})"
    using flagModes_remove slotsOkD(3) [OF ok n] P by (simp add: leftFlag_def)
  then have "getDecision (leftFlag n (Some (n, m)) s) = Some (lubModes (slotModes s t n - {m}))"
    by (rule getDecision_lub)
  moreover have "lubModes (slotModes s t n - {m}) \<le> mLockMode (node s n)"
    using slotsOkD(4) [OF ok n] order.trans [OF lubModes_mono [of "slotModes s t n - {m}" "slotModes s t n"]] P
    by auto
  ultimately show ?thesis using l by (simp add: slotFits_def)
qed

text \<open>The light mode branch of \<open>unlockTable\<close> and \<open>unlockTableInternal\<close>.\<close>

lemma light_unlinked:
  assumes mid: "midInv {t} X i w s" and light: "mItemFlag (item s i) = SML_FLAG_LIGHT_MODE"
    and t: "t < mTransCnt s" and n: "n \<in> heldBy s i t" "n \<notin> X"
  shows "lightNodeAsserts i n s = Some ()"
proof -
  note M = midBaseD [OF midInvD(1) [OF mid]]
  have own: "n \<in> set (mTransLockNodes s t)" and held: "n \<in> heldOn s i"
    using n t by (auto simp: heldBy_def heldOn_def)
  have li: "lightItem X w s i" using midInvD(2) [OF mid] light by (simp add: itemOk_def)
  have "lightMode (mLockMode (node s n))"
    using li held n by (simp add: lightItem_def)
  then show ?thesis
    using lightItem_sel [OF li] nodesOkD(3) [OF stateOkD(4) [OF M(1) t] own]
    by (auto simp: lightNodeAsserts_def noNeighbours_def lightMode_cases)
qed

lemma unlock_light_ok:
  assumes mid: "midInv {t} {} i w s" and light: "mItemFlag (item s i) = SML_FLAG_LIGHT_MODE"
    and t: "t < mTransCnt s" and n: "n \<in> heldBy s i t" and fits: "slotFits t n sl s"
  shows "\<exists>doFree s'. unlock_light n sl s = Some (doFree, s') \<and> doFree = (leftFlag n sl s = 0) \<and>
    midInv {t} (if doFree then {n} else {}) i w s' \<and> (headStuck s i \<longrightarrow> headStuck s' i) \<and>
    ownNode t i n s s' \<and> slotReleased t n sl s s'"
proof (cases sl)
  case None
  moreover have "ownNode t i n s s" by (simp add: ownNode_def)
  from ownNode_inv(1) [OF mid t n this, of "{n}"] have "midInv {t} {n} i w s" using light n by simp
  ultimately show ?thesis
    by (intro exI [of _ True] exI [of _ s])
      (simp add: unlock_light_def leftFlag_def slotReleased_def ownNode_def)
next
  case (Some l)
  then obtain v where l: "fst l = n" "l \<in> set (mTransLockSlots s t)"
    and v: "getDecision (leftFlag n sl s) = Some v" "v \<le> mLockMode (node s n)"
    using fits by (auto simp: slotFits_def)
  have own: "n \<in> set (mTransLockNodes s t)" using n by (simp add: heldBy_def)
  then have slot: "mSlotID (node s n) = t"
    using nodesOkD(2) stateOkD(4) [OF midBaseD(1) [OF midInvD(1) [OF mid]] t] by blast
  let ?f = "leftFlag n sl s" and ?q = "(mLockSequence (node s n))(snd l := 0)"
  define s1 where "s1 = setTransSlots t (remove1 l (mTransLockSlots s t))
    (updNode n (\<lambda>nd. nd\<lparr>mNodeFlag := ?f, mLockSequence := ?q\<rparr>) s)"
  define s2 where "s2 = (if ?f = 0 then s1 else updNode n (\<lambda>nd. nd\<lparr>mLockMode := v\<rparr>) s1)"
  have rem: "removeLockSlot l (clearNodeFlag l s) = Some s1"
    using l slot Some by (simp add: removeLockSlot_def s1_def clearNodeFlag_def leftFlag_def
        updNode_def setTransSlots_def)
  have n1: "node s1 n = (node s n)\<lparr>mNodeFlag := ?f, mLockSequence := ?q\<rparr>" by (simp add: s1_def)
  have "unlock_light n sl s = Some (?f = 0, s2)"
    using v(1) unfolding Some by (simp add: unlock_light_def rem n1 decideNodeMode_def s2_def Some)
  moreover have owns: "ownNode t i n s s2" by (simp add: ownNode_def s2_def s1_def)
  moreover have "midInv {t} (if ?f = 0 then {n} else {}) i w s2" "headStuck s i \<longrightarrow> headStuck s2 i"
    using ownNode_inv [OF mid t n owns, of "if ?f = 0 then {n} else {}"] light n v(2)
    by (simp_all add: s2_def s1_def)
  moreover have "slotReleased t n sl s s2"
    using ownNode_ownKept [OF owns] v(1)
    by (simp add: slotReleased_def Some s2_def s1_def)
  ultimately show ?thesis by blast
qed


text \<open>The end of a release.\<close>

lemma finish_release:
  assumes mid: "midInv {t} (if doFree then {n} else {}) i w s'" and t: "t < mTransCnt s"
    and part: "slotReleased t n sl s s'" and free: "doFree = (leftFlag n sl s = 0)"
    and nodes: "mTransLockNodes s' t = mTransLockNodes s t" and stuck: "headStuck s' i"
  shows "\<exists>s''. unlock_complete n doFree s' = Some s'' \<and> midInv {t} {} i w s'' \<and> headStuck s'' i \<and>
    released t n sl s s'' \<and> others t s' s''"
proof (cases doFree)
  case False
  then show ?thesis
    using mid stuck part free nodes by (simp add: unlock_complete_def released_def)
next
  case True
  have kept: "ownKept t n s s'" using part by (simp add: slotReleased_def)
  then have "t < mTransCnt s'" using t by (simp add: ownKept_def)
  from complete_free [OF _ this] mid True obtain s'' where s'': "unlock_complete n True s' = Some s''"
    "midInv {t} {} i w s''" "headStuck s' i \<longrightarrow> headStuck s'' i" "mLockNodes s'' = mLockNodes s'"
    "mTransLockNodes s'' = (mTransLockNodes s')(t := remove1 n (mTransLockNodes s' t))"
    "mTransLockSlots s'' = mTransLockSlots s'" "ownKept t n s' s''" "others t s' s''" by fastforce
  have "slotReleased t n sl s s''"
    using part s''(4,6) ownKept_trans [OF kept s''(7)] by (cases sl) (simp_all add: slotReleased_def)
  then show ?thesis
    using s'' True stuck free nodes by (auto simp: released_def)
qed

lemma release_heavy:
  assumes mid: "midInv {t} {} i w s" and heavy: "mItemFlag (item s i) \<noteq> SML_FLAG_LIGHT_MODE"
    and t: "t < mTransCnt s" and n: "n \<in> heldBy s i t" and fits: "slotFits t n sl s"
  shows "\<exists>s'. unlockTableInternal t i n sl b s = Some s' \<and> midInv {t} {} i w s' \<and> headStuck s' i \<and>
    released t n sl s s' \<and> others t s s'"
proof -
  note M = midBaseD [OF midInvD(1) [OF mid]]
  let ?free = "leftFlag n sl s = 0" and ?X = "if leftFlag n sl s = 0 then {n} else {}"
  note nodes = stateOkD(4) [OF M(1) t]
  have own: "n \<in> set (mTransLockNodes s t)" using n by (simp add: heldBy_def)
  note N = nodesOkD [OF nodes own]
  have sl: "sl = None \<or> fst (the sl) = n" using fits by (auto simp: slotFits_def split: option.splits)
  obtain s1 where s1: "unlock_granted i n sl s = Some (?free, s1)" "midInv {t} ?X i w s1"
    "mItemFlag (item s1 i) \<noteq> SML_FLAG_LIGHT_MODE" "ownNode t i n s s1"
    "mTransLockSlots s1 = mTransLockSlots s"
    "?free \<or> (\<exists>v. getDecision (leftFlag n sl s) = Some v \<and>
       node s1 n = (node s n)\<lparr>mNodeFlag := leftFlag n sl s, mLockMode := v\<rparr>)"
    "?free \<longrightarrow> mLockSequence (node s1 n) = mLockSequence (node s n)"
  proof (cases ?free)
    case True
    from release_heavy_free [OF mid heavy t n sl True] True show ?thesis
      by (auto intro: that simp: flagCleared_def split: option.splits)
  next
    case False
    then obtain l v where l: "sl = Some l" "fst l = n" "getDecision (leftFlag n sl s) = Some v"
      "v \<le> mLockMode (node s n)" using fits by (auto simp: slotFits_def leftFlag_def split: option.splits)
    from release_heavy_keep [OF mid heavy t n l(2)] False l show ?thesis by (auto intro: that)
  qed
  note D = ownNodeD [OF s1(4)]
  define s2 where "s2 = (if ?free then clearWaitTableRows (slotsOf s1 (mLockRequest (item s1 i))) t s1 else s1)"
  have s2: "midInv {t} ?X i w s2" "mItemFlag (item s2 i) \<noteq> SML_FLAG_LIGHT_MODE" "keeps t s1 s2"
  proof -
    have "t \<notin> set (slotsOf s1 (mLockGrant (item s1 i)))" if ?free
    proof
      assume "t \<in> set (slotsOf s1 (mLockGrant (item s1 i)))"
      then obtain x where x: "x \<in> set (mLockGrant (item s1 i))" "mSlotID (node s1 x) = t" by auto
      then have "x \<in> heldOn s1 i" "x \<noteq> n" using itemOk_grants [OF midInvD(2) [OF s1(2)]] that by auto
      then obtain u where u: "u < mTransCnt s" "x \<in> heldBy s i u" by (auto simp: D heldOn_def)
      then have "u = t"
        using nodesOkD(2) [OF stateOkD(4) [OF M(1) u(1)]] x(2) by (auto simp: heldBy_def D)
      then show False using held_single [OF nodes n] u(2) \<open>x \<noteq> n\<close> by blast
    qed
    then show "midInv {t} ?X i w s2" "mItemFlag (item s2 i) \<noteq> SML_FLAG_LIGHT_MODE" "keeps t s1 s2"
      using clear_own [OF s1(2,3), of t] s1(2,3) by (cases ?free; simp add: s2_def)+
  qed
  obtain s3 where s3: "(if unlinkAll i s2 then toLightMode i s2
      else wakeupRequestLockNodeInLockItem i s2) = Some s3" "midInv {t} ?X i w s3" "headStuck s3 i"
    "keeps t s2 s3" using unlink_or_wake [OF s2(1,2)] by blast
  have o2: "others t s1 s2"
    using clear_own_others [OF s1(2,3)] by (simp add: s2_def)
  note o1 = ownNode_others [OF midInvD(1) [OF mid] t n s1(4)] and o3 = unlink_or_wake_others [OF s2(1,2) s3(1)]
  note o13 = others_trans [OF o1 others_trans [OF o2 o3]]
  have k: "keeps t s1 s3" using keeps_trans [OF s2(3) s3(4)] .
  have s1n: "n < mNextLockNode s1" "mSlotID (node s1 n) = t" using N(1,2) by (simp_all add: D)
  have n3: "node s3 n = node s1 n" using keepsD(6) [OF k s1n] .
  have nodes3: "mTransLockNodes s3 t = mTransLockNodes s t" using keepsD(4) [OF k] by (simp add: D)
  have slots3: "mTransLockSlots s3 t = mTransLockSlots s t" using keepsD(5) [OF k] by (simp add: s1(5))
  have t3: "t < mTransCnt s3" using keepsD(1) [OF k] t by (simp add: D)
  have held3: "n \<in> heldBy s3 i t" using n own by (simp add: heldBy_def nodes3 n3 D)
  have kept3: "ownKept t n s s3"
    using ownKept_trans [OF ownNode_ownKept [OF s1(4)] keeps_ownKept [OF k s1n]] .
  obtain s4 where s4: "(case sl of Some l \<Rightarrow> removeLockSlot l s3 | None \<Rightarrow> Some s3) = Some s4"
    "midInv {t} ?X i w s4" "headStuck s4 i" "slotReleased t n sl s s4"
    "mTransLockNodes s4 t = mTransLockNodes s t" "others t s s4"
  proof (cases sl)
    case None
    then show ?thesis
      using that [of s3] s3(2,3) kept3 nodes3 slots3 o13 by (simp add: slotReleased_def)
  next
    case (Some l)
    then have l: "fst l = n" "l \<in> set (mTransLockSlots s3 t)"
      using fits by (auto simp: slotFits_def slots3)
    from removeSlot_ok [OF s3(2) t3 held3 l] obtain s4 where s4: "removeLockSlot l s3 = Some s4"
      "midInv {t} ?X i w s4" "headStuck s4 i" "ownNode t i n s3 s4"
      "mTransLockSlots s4 t = remove1 l (mTransLockSlots s t)"
      "node s4 n = (node s1 n)\<lparr>mLockSequence := (mLockSequence (node s1 n))(snd l := 0)\<rparr>"
      using s3(3) by (auto simp: n3 slots3)
    have "slotReleased t n sl s s4"
      using ownKept_trans [OF kept3 ownNode_ownKept [OF s4(4)]] s1(6) s4(5,6)
      by (auto simp: slotReleased_def Some)
    then show ?thesis
      using that [of s4] s4(1-3) ownNodeD(8) [OF s4(4)] nodes3 Some
        others_trans [OF o13 ownNode_others [OF midInvD(1) [OF s3(2)] t3 held3 s4(4)]] by simp
  qed
  obtain s5 where s5: "unlock_complete n ?free s4 = Some s5" "midInv {t} {} i w s5" "headStuck s5 i"
    "released t n sl s s5" "others t s4 s5"
    using finish_release [OF s4(2) t s4(4) refl s4(5) s4(3)] by blast
  have "unlockTableInternal t i n sl b s = Some s5"
    using N(3-5) heavy s1(1) s3(1) s4(1) s5(1)
    by (cases "unlinkAll i s2") (simp_all add: unlockTableInternal_def D Let_def flip: s2_def)
  then show ?thesis using s5(2-4) others_trans [OF s4(6) s5(5)] by blast
qed

lemma unlockTableInternal_ok:
  assumes mid: "midInv {t} {} i w s" and stuck: "headStuck s i"
    and t: "t < mTransCnt s" and n: "n \<in> heldBy s i t" and fits: "slotFits t n sl s"
  shows "\<exists>s'. unlockTableInternal t i n sl True s = Some s' \<and> midInv {t} {} i w s' \<and> headStuck s' i \<and>
    released t n sl s s' \<and> others t s s'"
proof (cases "mItemFlag (item s i) = SML_FLAG_LIGHT_MODE")
  case False
  then show ?thesis using release_heavy [OF mid _ t n fits] by blast
next
  case True
  have own: "n \<in> set (mTransLockNodes s t)" using n by (simp add: heldBy_def)
  note N = nodesOkD [OF stateOkD(4) [OF midBaseD(1) [OF midInvD(1) [OF mid]] t] own]
  obtain doFree s1 where s1: "unlock_light n sl s = Some (doFree, s1)" "doFree = (leftFlag n sl s = 0)"
    "midInv {t} (if doFree then {n} else {}) i w s1" "headStuck s i \<longrightarrow> headStuck s1 i" "ownNode t i n s s1"
    "slotReleased t n sl s s1" using unlock_light_ok [OF mid True t n fits] by blast
  obtain s2 where "unlock_complete n doFree s1 = Some s2" "midInv {t} {} i w s2" "headStuck s2 i"
    "released t n sl s s2" "others t s1 s2"
    using finish_release [OF s1(3) t s1(6,2) fun_cong [OF ownNodeD(8) [OF s1(5)]]] s1(4) stuck by blast
  then show ?thesis
    using others_trans [OF ownNode_others [OF midInvD(1) [OF mid] t n s1(5)]] N(4) True s1(1) light_unlinked [OF mid True t n] by (simp add: unlockTableInternal_def)
qed

lemma unlockTable_ok:
  assumes mid: "midInv {t} {} i w s" and stuck: "headStuck s i"
    and t: "t < mTransCnt s" and n: "n \<in> heldBy s i t" and fits: "slotFits t n sl s"
    and arg: "an = Some n \<or> an = None \<and> sl \<noteq> None"
  shows "\<exists>next s'. unlockTable t an sl s = Some (next, s') \<and>
    (if mItemFlag (item s i) = SML_FLAG_LIGHT_MODE
     then next = UnlockDone \<and> midInv {t} {} i w s' \<and> headStuck s' i \<and> released t n sl s s' \<and> others t s s'
     else next = UnlockInternal n \<and> s' = s)"
proof -
  have own: "n \<in> set (mTransLockNodes s t)" and i: "mLockItem (node s n) = i"
    using n by (auto simp: heldBy_def)
  note N = nodesOkD [OF stateOkD(4) [OF midBaseD(1) [OF midInvD(1) [OF mid]] t] own]
  have arg': "(case an of Some n \<Rightarrow> Some n | None \<Rightarrow> (case sl of Some sl \<Rightarrow> Some (fst sl) | None \<Rightarrow> None)) = Some n"
    using arg fits by (auto simp: slotFits_def)
  show ?thesis
  proof (cases "mItemFlag (item s i) = SML_FLAG_LIGHT_MODE")
    case False
    then show ?thesis by (simp add: unlockTable_def arg' i)
  next
    case True
    obtain doFree s1 where s1: "unlock_light n sl s = Some (doFree, s1)" "doFree = (leftFlag n sl s = 0)"
      "midInv {t} (if doFree then {n} else {}) i w s1" "headStuck s i \<longrightarrow> headStuck s1 i" "ownNode t i n s s1"
      "slotReleased t n sl s s1" using unlock_light_ok [OF mid True t n fits] by blast
    obtain s2 where "unlock_complete n doFree s1 = Some s2" "midInv {t} {} i w s2" "headStuck s2 i"
      "released t n sl s s2" "others t s1 s2"
      using finish_release [OF s1(3) t s1(6,2) fun_cong [OF ownNodeD(8) [OF s1(5)]]] s1(4) stuck by blast
    then show ?thesis
      using others_trans [OF ownNode_others [OF midInvD(1) [OF mid] t n s1(5)]] N(4) True s1(1)
        light_unlinked [OF mid True t n] arg'
      by (cases doFree) (auto simp: unlockTable_def i unlock_complete_def bind_eq_Some_conv)
  qed
qed


subsection \<open>The slots after a release\<close>

lemma slots_remove1:
  assumes "slotsOk P s t"
  shows "remove1 l (mTransLockSlots s t) = filter (\<lambda>x. x \<noteq> l) (mTransLockSlots s t)"
proof -
  have "distinct (mTransLockSlots s t)"
    using slotsOkD(1) [OF assms] by (auto simp: strict_sorted_iff distinct_map)
  then show ?thesis by (simp add: distinct_remove1_removeAll removeAll_filter_not_eq eq_commute)
qed

lemma released_slotsOk:
  assumes ok: "slotsOk P s t" and P: "P n = {}" and nodes: "nodesOk s t"
    and l: "(n, m) \<in> set (mTransLockSlots s t)" and rel: "released t n (Some (n, m)) s s'"
  shows "slotsOk P s' t"
proof -
  note O = slotsOkD [OF ok] and L = slotsOkD(2) [OF ok]
  let ?L = "mTransLockSlots s t" and ?H = "mTransLockNodes s t" and ?f = "leftFlag n (Some (n, m)) s"
  have kept: "ownKept t n s s'" and L': "mTransLockSlots s' t = filter (\<lambda>x. x \<noteq> (n, m)) ?L"
    and H': "mTransLockNodes s' t = (if ?f = 0 then remove1 n ?H else ?H)"
    and stays: "?f \<noteq> 0 \<Longrightarrow> \<exists>v. getDecision ?f = Some v \<and> node s' n = (node s n)\<lparr>mNodeFlag := ?f, mLockMode := v,
      mLockSequence := (mLockSequence (node s n))(m := 0)\<rparr>"
    using rel by (auto simp: released_def slotReleased_def slots_remove1 [OF ok])
  have n: "n \<in> set ?H" using L l by blast
  have dist: "distinct ?H" using nodes by (auto simp: nodesOk_def distinct_map)
  have flag: "flagModes ?f (slotModes s t n - {m})"
    using flagModes_remove O(3) [OF n] P by (simp add: leftFlag_def)
  have free: "slotModes s t n \<subseteq> {m}" if "?f = 0"
    using flagModes_zero_iff [OF flag] that L O(5) [OF n] by auto
  have same: "node s' x = node s x" if "x \<in> set ?H" "x \<noteq> n" for x
    using kept nodesOkD(1,2) [OF nodes that(1)] that(2) by (simp add: ownKept_def)
  have seq: "mLockSequence (node s' x) k = mLockSequence (node s x) k" if "(x, k) \<in> set (mTransLockSlots s' t)" for x k
  proof (cases "x = n")
    case True
    then have "k \<noteq> m" "k \<in> slotModes s t n" using that by (auto simp: L')
    then show ?thesis using stays free True by (cases "?f = 0") auto
  next
    case False
    then show ?thesis using that same L by (auto simp: L')
  qed
  then have map: "map (slotSequence s') (mTransLockSlots s' t) = map (slotSequence s) (mTransLockSlots s' t)"
    by (intro map_cong) auto
  show ?thesis
  proof (rule slotsOkI)
    show "sorted_wrt (<) (map (slotSequence s') (mTransLockSlots s' t))"
      unfolding map unfolding L' using O(1) by (simp add: sorted_wrt_map sorted_wrt_filter)
    have "(x, k) \<in> set ?L \<and> (x, k) \<noteq> (n, m) \<longleftrightarrow>
        x \<in> set (mTransLockNodes s' t) \<and> mLockSequence (node s' x) k \<noteq> 0" for x k
    proof (cases "x = n")
      case True
      then show ?thesis
        using free stays L n dist by (cases "?f = 0") (auto simp: H' set_remove1_distinct split: if_splits)
    next
      case False
      then show ?thesis using L same by (auto simp: H' set_remove1_distinct [OF dist])
    qed
    then show "set (mTransLockSlots s' t) =
        {(x, k). x \<in> set (mTransLockNodes s' t) \<and> mLockSequence (node s' x) k \<noteq> 0}"
      by (auto simp: L')
  next
    fix x assume x: "x \<in> set (mTransLockNodes s' t)"
    show "flagModes (mNodeFlag (node s' x)) (slotModes s' t x \<union> P x) \<and>
        lubModes (slotModes s' t x \<union> P x) \<le> mLockMode (node s' x) \<and> mLockSequence (node s' x) SML_NLOCK = 0"
    proof (cases "x = n")
      case False
      have "x \<in> set ?H" using x dist by (auto simp: H' set_remove1_distinct split: if_splits)
      with False show ?thesis
        using O(3-5) [of x] same by (simp add: L')
    next
      case True
      then have nz: "?f \<noteq> 0" using x dist by (auto simp: H' set_remove1_distinct)
      obtain v where v: "getDecision ?f = Some v" "node s' n = (node s n)\<lparr>mNodeFlag := ?f, mLockMode := v,
        mLockSequence := (mLockSequence (node s n))(m := 0)\<rparr>" using stays [OF nz] by blast
      have "slotModes s' t n = slotModes s t n - {m}" by (auto simp: L')
      moreover have "lubModes (slotModes s t n - {m}) = v" using getDecision_lub [OF flag] v(1) by simp
      ultimately show ?thesis
        using flag O(5) [OF n] P by (simp add: True v(2))
    qed
  qed
qed

end
