(* ===== verification/Deadlock.thy ===== *)
theory Deadlock
  imports WaitTable "HOL-Library.Product_Lexorder"
begin

text \<open>
  Deadlock detection of \<open>src/src/sm/sml/smlLockMgr.cpp\<close>: the breadth-first search \<open>isCycle\<close>
  over the waiting table, and the distributed deadlock detection (\<open>detectDistDeadlock\<close>,
  \<open>compareTx4DistDeadlock\<close>) that ranks a waiter against the transactions it waits for.

  The transaction objects are a parameter \<open>getTransBySID\<close>, the layer callback of that name.
  The search re-reads entries that another thread may have cleared meanwhile; the model is one
  thread's run, where a re-read sees the value just read.
\<close>

datatype smiDistLevel =
  SMI_DIST_LEVEL_INIT | SMI_DIST_LEVEL_SINGLE | SMI_DIST_LEVEL_MULTI | SMI_DIST_LEVEL_PARALLEL

fun distLevelValue :: "smiDistLevel \<Rightarrow> nat" where
  "distLevelValue SMI_DIST_LEVEL_INIT = 0"
| "distLevelValue SMI_DIST_LEVEL_SINGLE = 1"
| "distLevelValue SMI_DIST_LEVEL_MULTI = 2"
| "distLevelValue SMI_DIST_LEVEL_PARALLEL = 3"

definition distLevelValid :: "smiDistLevel \<Rightarrow> bool" where
  "distLevelValid aLevel \<longleftrightarrow> aLevel = SMI_DIST_LEVEL_SINGLE \<or> aLevel = SMI_DIST_LEVEL_MULTI \<or>
     aLevel = SMI_DIST_LEVEL_PARALLEL"

record smiDistTxInfo =
  mFirstStmtViewSCN :: u64
  mFirstStmtTimeSec :: int
  mFirstStmtTimeUsec :: int
  mShardPin :: u64
  mDistLevel :: smiDistLevel

record smxTransDist =
  mTransID :: u32
  mStatusEnd :: bool
  mDistTxInfo :: smiDistTxInfo

abbreviation SM_NULL_TID :: u32 where "SM_NULL_TID \<equiv> 0x7FFFFFFF"

subsection \<open>\<open>isCycle\<close>\<close>

definition setDistTx ::
  "slot_id \<Rightarrow> slot_id \<Rightarrow> smlDistDeadlockTxType \<Rightarrow> u32 \<Rightarrow> 'a waitState_scheme \<Rightarrow>
   'a waitState_scheme" where
  "setDistTx i j ty tid s =
     s\<lparr>mTxList4DistDeadlock := (mTxList4DistDeadlock s)
         (i := (mTxList4DistDeadlock s i)(j := \<lparr>mDistTransID = tid, mDistTxType = ty\<rparr>))\<rparr>"

definition clearTxList4DistDeadlock ::
  "slot_id \<Rightarrow> 'a waitState_scheme \<Rightarrow> 'a waitState_scheme" where
  "clearTxList4DistDeadlock aWaitSlot s =
     fold (\<lambda>i. setDistTx aWaitSlot i SML_DIST_DEADLOCK_TX_NON_DIST_INFO SM_NULL_TID)
       [0..<mTransCnt s] s"

text \<open>The classification of slot \<open>j\<close> with the wait entry \<open>[w][j]\<close> re-read after the store.\<close>

definition markFirstDist ::
  "(slot_id \<Rightarrow> smxTransDist) \<Rightarrow> slot_id \<Rightarrow> slot_id \<Rightarrow> slot_id \<Rightarrow> 'a waitState_scheme \<Rightarrow>
   'a waitState_scheme" where
  "markFirstDist getTransBySID aSlot w j s =
     (let s1 = setDistTx aSlot j SML_DIST_DEADLOCK_TX_FIRST_DIST_INFO
                 (mTransID (getTransBySID j)) s
      in if idx s1 w j \<noteq> 1
         then setDistTx aSlot j SML_DIST_DEADLOCK_TX_UNKNOWN SM_NULL_TID s1 else s1)"

definition markDirect ::
  "(slot_id \<Rightarrow> smxTransDist) \<Rightarrow> slot_id \<Rightarrow> slot_id \<Rightarrow> 'a waitState_scheme \<Rightarrow> 'a waitState_scheme" where
  "markDirect getTransBySID aSlot i s =
     (if distLevelValid (mDistLevel (mDistTxInfo (getTransBySID i)))
      then markFirstDist getTransBySID aSlot aSlot i s
      else setDistTx aSlot i SML_DIST_DEADLOCK_TX_NON_DIST_INFO SM_NULL_TID s)"

definition markIndirect ::
  "(slot_id \<Rightarrow> smxTransDist) \<Rightarrow> slot_id \<Rightarrow> slot_id \<Rightarrow> slot_id \<Rightarrow> 'a waitState_scheme \<Rightarrow>
   'a waitState_scheme" where
  "markIndirect getTransBySID aSlot i j s =
     (case mDistTxType (mTxList4DistDeadlock s aSlot i) of
        SML_DIST_DEADLOCK_TX_NON_DIST_INFO \<Rightarrow>
          (if distLevelValid (mDistLevel (mDistTxInfo (getTransBySID j)))
           then markFirstDist getTransBySID aSlot i j s else s)
      | _ \<Rightarrow> setDistTx aSlot j SML_DIST_DEADLOCK_TX_UNKNOWN SM_NULL_TID s)"

text \<open>The innermost loop: the slots that \<open>i\<close> waits for, from item \<open>j\<close>.  The result says
  whether \<open>isCycle\<close> returned from within the loop, and \<open>sExitPathFlag\<close>.\<close>

fun isCycle_succ ::
  "(slot_id \<Rightarrow> smxTransDist) \<Rightarrow> bool \<Rightarrow> nat \<Rightarrow> slot_id \<Rightarrow> nat \<Rightarrow> slot_id \<Rightarrow> nat \<Rightarrow> bool \<Rightarrow>
   'a waitState_scheme \<Rightarrow> (bool \<times> bool \<times> 'a waitState_scheme) option" where
  "isCycle_succ trs ready fuel aSlot sPathLen i j flag s =
     (if \<not> j < SML_END_ITEM then Some (False, flag, s) else
      case fuel of 0 \<Rightarrow> None
      | Suc n \<Rightarrow>
        if idx s i j = 1 \<and> nxt s aSlot j = ID_USHORT_MAX then do {
          ide_assert (j < mTransCnt s);
          let s1 = updItem aSlot j (mIndex_update (\<lambda>_. sPathLen + 1)) s;
          let s2 = updItem aSlot j (mNxtWaitTransItem_update (\<lambda>_. mFstWaitTblTransItem s1 aSlot)) s1;
          let s3 = s2\<lparr>mFstWaitTblTransItem := (mFstWaitTblTransItem s2)(aSlot := j)\<rparr>;
          let s4 = (if ready then markIndirect trs aSlot i j s3 else s3);
          if aSlot = j then Some (True, flag, s4)
          else isCycle_succ trs ready n aSlot sPathLen i (nxt s4 i j) True s4
        } else isCycle_succ trs ready n aSlot sPathLen i (nxt s i j) flag s)"

text \<open>The loop over the slots at distance \<open>sPathLen\<close>, from item \<open>i\<close>.\<close>

fun isCycle_level ::
  "(slot_id \<Rightarrow> smxTransDist) \<Rightarrow> bool \<Rightarrow> nat \<Rightarrow> slot_id \<Rightarrow> nat \<Rightarrow> nat \<Rightarrow> bool \<Rightarrow>
   'a waitState_scheme \<Rightarrow> (bool \<times> bool \<times> 'a waitState_scheme) option" where
  "isCycle_level trs ready fuel aSlot sPathLen i flag s =
     (if \<not> (i \<noteq> SML_END_ITEM \<and> nxt s aSlot aSlot = ID_USHORT_MAX) then Some (False, flag, s) else
      case fuel of 0 \<Rightarrow> None
      | Suc n \<Rightarrow> do {
        ide_assert (i < mTransCnt s);
        if idx s aSlot i = sPathLen then do {
          let s1 = (if sPathLen = 1 \<and> ready then markDirect trs aSlot i s else s);
          (ret, flag1, s2) \<leftarrow> isCycle_succ trs ready (mTransCnt s) aSlot sPathLen i
                                (mFstWaitTblTransItem s1 i) flag s1;
          if ret then Some (True, flag1, s2)
          else isCycle_level trs ready n aSlot sPathLen (nxt s2 aSlot i) flag1 s2
        } else isCycle_level trs ready n aSlot sPathLen (nxt s aSlot i) flag s
      })"

text \<open>The outer loop; it runs at most \<open>mTransCnt\<close> times.\<close>

fun isCycle_while ::
  "(slot_id \<Rightarrow> smxTransDist) \<Rightarrow> bool \<Rightarrow> nat \<Rightarrow> slot_id \<Rightarrow> nat \<Rightarrow> bool \<Rightarrow>
   'a waitState_scheme \<Rightarrow> (bool \<times> 'a waitState_scheme) option" where
  "isCycle_while trs ready fuel aSlot sPathLen flag s =
     (if \<not> (flag \<and> idx s aSlot aSlot = 0 \<and> sPathLen < mTransCnt s)
      then Some (if idx s aSlot aSlot = 0 then False else True, s) else
      case fuel of 0 \<Rightarrow> None
      | Suc n \<Rightarrow> do {
        (ret, flag1, s1) \<leftarrow> isCycle_level trs ready (mTransCnt s) aSlot sPathLen
                              (mFstWaitTblTransItem s aSlot) False s;
        if ret then Some (True, s1)
        else isCycle_while trs ready n aSlot (sPathLen + 1) flag1 s1
      })"

definition isCycle ::
  "(slot_id \<Rightarrow> smxTransDist) \<Rightarrow> slot_id \<Rightarrow> bool \<Rightarrow> 'a waitState_scheme \<Rightarrow>
   (bool \<times> 'a waitState_scheme) option" where
  "isCycle getTransBySID aSlot aIsReadyDistDeadlock s =
     (let s1 = (if aIsReadyDistDeadlock then clearTxList4DistDeadlock aSlot s else s)
      in isCycle_while getTransBySID aIsReadyDistDeadlock (mTransCnt s1) aSlot 1 True s1)"

declare isCycle_succ.simps [simp del] isCycle_level.simps [simp del] isCycle_while.simps [simp del]

subsection \<open>The waits-for graph and extensions of a row\<close>

definition waitsFor :: "'a waitState_scheme \<Rightarrow> (slot_id \<times> slot_id) set" where
  "waitsFor s = {(i, j). i < mTransCnt s \<and> j < mTransCnt s \<and> idx s i j = 1}"

lemma rowOk_waitsFor: "rowOk s i xs \<Longrightarrow> (i, j) \<in> waitsFor s \<Longrightarrow> j \<in> set xs"
  by (auto simp: rowOk_def waitsFor_def)

lemma chain_suffix:
  "chain nx x (ys @ zs) \<Longrightarrow> chain nx (case zs of [] \<Rightarrow> SML_END_ITEM | z # _ \<Rightarrow> z) zs"
proof (induction ys arbitrary: x)
  case Nil
  then show ?case by (cases zs) auto
qed auto

text \<open>\<open>rowExt a k s xs s' ys\<close>: row \<open>a\<close>, whose chain was \<open>xs\<close>, got the new slots \<open>ys\<close> in front,
  all at distance \<open>k\<close>.\<close>

definition rowExt ::
  "slot_id \<Rightarrow> nat \<Rightarrow> 'a waitState_scheme \<Rightarrow> slot_id list \<Rightarrow> 'a waitState_scheme \<Rightarrow>
   slot_id list \<Rightarrow> bool" where
  "rowExt a k s xs s' ys \<longleftrightarrow>
     onlyRow a s s' \<and> rowOk s' a (ys @ xs) \<and>
     (\<forall>j. idx s' a j = (if j \<in> set ys then k else idx s a j)) \<and>
     (\<forall>j. j \<notin> set ys \<longrightarrow> nxt s' a j = nxt s a j)"

lemma rowExt_refl: "rowOk s a xs \<Longrightarrow> rowExt a k s xs s []"
  by (simp add: rowExt_def)

lemma rowExt_trans:
  assumes "rowExt a k s xs s1 ys" "rowExt a k s1 (ys @ xs) s2 zs"
  shows "rowExt a k s xs s2 (zs @ ys)"
  using assms by (auto simp: rowExt_def intro: onlyRow_trans)

lemma rowExt_dist [simp]:
  "rowExt a k s xs (setDistTx i j ty tid s') ys \<longleftrightarrow> rowExt a k s xs s' ys"
  "rowExt a k s xs (markFirstDist trs i w j s') ys \<longleftrightarrow> rowExt a k s xs s' ys"
  "rowExt a k s xs (markDirect trs i j s') ys \<longleftrightarrow> rowExt a k s xs s' ys"
  "rowExt a k s xs (markIndirect trs i w j s') ys \<longleftrightarrow> rowExt a k s xs s' ys"
  by (simp_all add: rowExt_def onlyRow_def rowOk_def setDistTx_def markFirstDist_def markDirect_def
      markIndirect_def Let_def split: smlDistDeadlockTxType.split)

lemma dist_sel [simp]:
  "mTransCnt (setDistTx i j ty tid s) = mTransCnt s"
  "mWaitForTable (setDistTx i j ty tid s) = mWaitForTable s"
  "mFstWaitTblTransItem (setDistTx i j ty tid s) = mFstWaitTblTransItem s"
  "mTransCnt (markDirect trs a j s) = mTransCnt s"
  "mWaitForTable (markDirect trs a j s) = mWaitForTable s"
  "mFstWaitTblTransItem (markDirect trs a j s) = mFstWaitTblTransItem s"
  "mTransCnt (markIndirect trs a w j s) = mTransCnt s"
  "mWaitForTable (markIndirect trs a w j s) = mWaitForTable s"
  "mFstWaitTblTransItem (markIndirect trs a w j s) = mFstWaitTblTransItem s"
  by (simp_all add: setDistTx_def markFirstDist_def markDirect_def
      markIndirect_def Let_def split: smlDistDeadlockTxType.split)

lemma rowExt_push:
  assumes "rowOk s a xs" "j < mTransCnt s" "j \<notin> set xs" "mTransCnt s \<le> SML_END_ITEM"
  shows "rowExt a k s xs ((updItem a j (mNxtWaitTransItem_update (\<lambda>_. mFstWaitTblTransItem s a))
       (updItem a j (mIndex_update (\<lambda>_. k)) s))
         \<lparr>mFstWaitTblTransItem := (mFstWaitTblTransItem s)(a := j)\<rparr>) [j]"
proof -
  have "chain ((nxt s a)(j := mFstWaitTblTransItem s a)) (mFstWaitTblTransItem s a) xs"
    using assms by (subst chain_cong [where nx = "nxt s a"]) (auto simp: rowOk_def)
  then show ?thesis
    using assms by (auto simp: rowExt_def rowOk_def onlyRow_def fun_upd_def if_distrib
        cong: if_cong)
qed

text \<open>A slot that released its lock while \<open>a\<close> waited is still linked in row \<open>a\<close>, with path
  length 0; the search does not enter it again.  \<open>liveWaits\<close> is the graph without the edges
  into such slots.\<close>

definition liveWaits :: "'a waitState_scheme \<Rightarrow> slot_id \<Rightarrow> slot_id list \<Rightarrow> (slot_id \<times> slot_id) set" where
  "liveWaits s a xs = {(i, j) \<in> waitsFor s. \<not> (j \<in> set xs \<and> idx s a j = 0)}"

lemma liveWaits_all: "\<forall>x \<in> set xs. idx s a x = 1 \<Longrightarrow> liveWaits s a xs = waitsFor s"
  by (auto simp: liveWaits_def)

subsection \<open>One breadth-first step\<close>

text \<open>What the innermost loop returns: it stops at \<open>aSlot\<close> (\<open>ret\<close>), or has linked every
  waited-for slot of the list that was not yet on the chain.\<close>

definition succSpec ::
  "slot_id \<Rightarrow> nat \<Rightarrow> slot_id \<Rightarrow> slot_id list \<Rightarrow> bool \<Rightarrow> 'a waitState_scheme \<Rightarrow> slot_id list \<Rightarrow>
   (bool \<times> bool \<times> 'a waitState_scheme) \<Rightarrow> slot_id list \<Rightarrow> bool" where
  "succSpec a k i js flag s xs r ys \<longleftrightarrow>
     (case r of (ret, flag', s') \<Rightarrow>
        rowExt a k s xs s' ys \<and> set ys \<subseteq> {j \<in> set js. idx s i j = 1} \<and>
        (ret \<longrightarrow> a \<in> set ys) \<and>
        (\<not> ret \<longrightarrow> a \<notin> set ys \<and> flag' = (flag \<or> ys \<noteq> []) \<and>
           (\<forall>j \<in> set js. idx s i j = 1 \<longrightarrow> j \<in> set ys \<union> set xs)))"

lemma isCycle_succ_spec:
  assumes "chain (nxt s i) j js" "length js \<le> fuel" "set js \<subseteq> {..<mTransCnt s}" "i \<noteq> a"
    "rowOk s a xs" "a \<notin> set xs" "mTransCnt s \<le> SML_END_ITEM"
  shows "\<exists>r ys. isCycle_succ trs ready fuel a k i j flag s = Some r \<and>
    succSpec a (k + 1) i js flag s xs r ys"
  using assms
proof (induction js arbitrary: j fuel flag s xs)
  case Nil
  then show ?case
    by (auto simp: isCycle_succ.simps succSpec_def rowExt_refl intro!: exI [of _ "[]"])
next
  case (Cons y js)
  from Cons.prems obtain n where fuel: "fuel = Suc n" by (cases fuel) auto
  have j: "j = y" "y < SML_END_ITEM" "y < mTransCnt s" using Cons.prems by auto
  show ?case
  proof (cases "idx s i y = 1 \<and> nxt s a y = ID_USHORT_MAX")
    case False
    have "y \<in> set xs" if "idx s i y = 1"
      using that False rowOk_linked [OF Cons.prems(5,7), of y] j by auto
    moreover have "isCycle_succ trs ready fuel a k i j flag s =
        isCycle_succ trs ready n a k i (nxt s i y) flag s"
      using False j by (auto simp: isCycle_succ.simps [of _ _ "Suc n"] fuel)
    moreover obtain r ys where "isCycle_succ trs ready n a k i (nxt s i y) flag s = Some r"
        "succSpec a (k + 1) i js flag s xs r ys"
      using Cons.IH [of s "nxt s i y" n xs flag] Cons.prems fuel by auto
    ultimately show ?thesis
      by (auto simp: succSpec_def split: prod.splits intro!: exI [of _ ys])
  next
    case True
    then have y: "y \<notin> set xs" using rowOk_linked [OF Cons.prems(5,7), of y] j by simp
    let ?s3 = "(updItem a y (mNxtWaitTransItem_update (\<lambda>_. mFstWaitTblTransItem s a))
       (updItem a y (mIndex_update (\<lambda>_. k + 1)) s))
         \<lparr>mFstWaitTblTransItem := (mFstWaitTblTransItem s)(a := y)\<rparr>"
    define s4 where "s4 = (if ready then markIndirect trs a i y ?s3 else ?s3)"
    have ext: "rowExt a (k + 1) s xs s4 [y]"
      using rowExt_push [OF Cons.prems(5) j(3) y Cons.prems(7), of "k + 1"] by (simp add: s4_def)
    have nx: "\<And>j. nxt s4 i j = nxt s i j" "\<And>j. idx s4 i j = idx s i j" "mTransCnt s4 = mTransCnt s"
      using Cons.prems(4) by (auto simp: s4_def)
    have run: "isCycle_succ trs ready fuel a k i j flag s =
       (if a = y then Some (True, flag, s4)
        else isCycle_succ trs ready n a k i (nxt s i y) True s4)"
      using True j Cons.prems(4)
      by (simp add: isCycle_succ.simps [of _ _ "Suc n"] fuel Let_def s4_def)
    show ?thesis
    proof (cases "a = y")
      case eq: True
      then show ?thesis
        using run ext True by (auto simp: succSpec_def intro!: exI [of _ "[y]"])
    next
      case False
      have "rowOk s4 a (y # xs)" using ext by (simp add: rowExt_def)
      with Cons.IH [of s4 "nxt s i y" n "y # xs" True] Cons.prems False nx fuel
      obtain r ys where r: "isCycle_succ trs ready n a k i (nxt s i y) True s4 = Some r"
          "succSpec a (k + 1) i js True s4 (y # xs) r ys" by auto
      obtain ret fl s' where ret: "r = (ret, fl, s')" by (cases r) auto
      have "rowExt a (k + 1) s xs s' (ys @ [y])"
        using rowExt_trans [OF ext, of s' ys] r(2) by (simp add: succSpec_def ret)
      then have "succSpec a (k + 1) i (y # js) flag s xs r (ys @ [y])"
        using r(2) nx(2) False True by (auto simp: succSpec_def ret)
      then show ?thesis using run r False by auto
    qed
  qed
qed

text \<open>One pass over the chain, at distance \<open>k\<close>: every successor of a slot at that distance
  in the rest of the chain gets linked, unless the pass finds \<open>aSlot\<close> itself.\<close>

definition levelSpec ::
  "slot_id \<Rightarrow> nat \<Rightarrow> slot_id list \<Rightarrow> bool \<Rightarrow> 'a waitState_scheme \<Rightarrow> slot_id list \<Rightarrow>
   (bool \<times> bool \<times> 'a waitState_scheme) \<Rightarrow> slot_id list \<Rightarrow> bool" where
  "levelSpec a k rest flag s xs r ys \<longleftrightarrow>
     (case r of (ret, flag', s') \<Rightarrow>
        rowExt a (k + 1) s xs s' ys \<and>
        (\<forall>y \<in> set ys. \<exists>x \<in> set rest. idx s a x = k \<and> idx s x y = 1) \<and>
        (ret \<longrightarrow> a \<in> set ys) \<and>
        (\<not> ret \<longrightarrow> a \<notin> set ys \<and> flag' = (flag \<or> ys \<noteq> []) \<and>
           (\<forall>x \<in> set rest. idx s a x = k \<longrightarrow> (\<forall>y. (x, y) \<in> waitsFor s \<longrightarrow> y \<in> set ys \<union> set xs))))"

abbreviation headOf :: "slot_id list \<Rightarrow> nat" where
  "headOf xs \<equiv> (case xs of [] \<Rightarrow> SML_END_ITEM | z # _ \<Rightarrow> z)"

lemma isCycle_level_spec:
  assumes "rowOk s a (pre @ rest)" "a \<notin> set (pre @ rest)" "length rest \<le> fuel"
    "mTransCnt s \<le> SML_END_ITEM" "\<forall>i < mTransCnt s. \<exists>xs. rowOk s i xs" "a < mTransCnt s"
  shows "\<exists>r ys. isCycle_level trs ready fuel a k (headOf rest) flag s = Some r \<and>
    levelSpec a k rest flag s (pre @ rest) r ys"
  using assms
proof (induction rest arbitrary: pre fuel flag s)
  case Nil
  then show ?case
    by (auto simp: isCycle_level.simps levelSpec_def rowExt_refl intro!: exI [of _ "[]"])
next
  case (Cons x rest)
  from Cons.prems obtain n where fuel: "fuel = Suc n" by (cases fuel) auto
  have x: "x < mTransCnt s" "x \<noteq> SML_END_ITEM" "x \<noteq> a"
    using Cons.prems by (auto simp: rowOk_def)
  have un: "nxt s a a = ID_USHORT_MAX" using Cons.prems by (auto simp: rowOk_def)
  have nx: "nxt s a x = headOf rest"
    using chain_suffix [of "nxt s a" "mFstWaitTblTransItem s a" "pre @ [x]" rest]
      chain_suffix [of "nxt s a" "mFstWaitTblTransItem s a" pre "x # rest"] Cons.prems(1)
    by (cases rest) (auto simp: rowOk_def)
  show ?case
  proof (cases "idx s a x = k")
    case False
    have "isCycle_level trs ready fuel a k (headOf (x # rest)) flag s =
        isCycle_level trs ready n a k (headOf rest) flag s"
      using False x un nx by (simp add: isCycle_level.simps [of _ _ "Suc n"] fuel)
    moreover obtain r ys where "isCycle_level trs ready n a k (headOf rest) flag s = Some r"
        "levelSpec a k rest flag s ((pre @ [x]) @ rest) r ys"
      using Cons.IH [of s "pre @ [x]" n flag] Cons.prems fuel by auto
    ultimately show ?thesis
      using False by (auto simp: levelSpec_def split: prod.splits intro!: exI [of _ ys])
  next
    case True
    let ?s1 = "if k = 1 \<and> ready then markDirect trs a x s else s"
    have s1: "mWaitForTable ?s1 = mWaitForTable s" "mTransCnt ?s1 = mTransCnt s"
        "mFstWaitTblTransItem ?s1 = mFstWaitTblTransItem s" by auto
    have ok1: "rowOk ?s1 i l \<longleftrightarrow> rowOk s i l" for i l by (rule rowOk_cong) (simp_all add: s1)
    obtain js where js: "rowOk s x js" using Cons.prems x by blast
    obtain ret fl s2 ys where succ: "isCycle_succ trs ready (mTransCnt ?s1) a k x
          (mFstWaitTblTransItem ?s1 x) flag ?s1 = Some (ret, fl, s2)"
        and spec: "succSpec a (k + 1) x js flag ?s1 (pre @ x # rest) (ret, fl, s2) ys"
      using isCycle_succ_spec [of ?s1 x "mFstWaitTblTransItem ?s1 x" js "mTransCnt ?s1" a
          "pre @ x # rest" trs ready k flag] js x Cons.prems rowOk_length [OF js] ok1 s1
      by (auto simp: rowOk_def)
    have ext: "rowExt a (k + 1) s (pre @ x # rest) s2 ys"
      using spec unfolding succSpec_def
      by (simp split: if_splits add: rowExt_def onlyRow_def markDirect_def markFirstDist_def
          setDistTx_def Let_def)
    have run: "isCycle_level trs ready fuel a k (headOf (x # rest)) flag s =
       (if ret then Some (True, fl, s2)
        else isCycle_level trs ready n a k (nxt s2 a x) fl s2)"
      using True x un succ by (auto simp: isCycle_level.simps [of _ _ "Suc n"] fuel Let_def)
    have new: "\<forall>y \<in> set ys. idx s x y = 1" using spec s1 by (auto simp: succSpec_def)
    show ?thesis
    proof (cases ret)
      case ret: True
      then have "levelSpec a k (x # rest) flag s (pre @ x # rest) (ret, fl, s2) ys"
        using ext new True spec by (auto simp: levelSpec_def succSpec_def)
      then show ?thesis using run ret by auto
    next
      case ret: False
      have old: "idx s2 a z = idx s a z" if "z \<in> set (pre @ x # rest)" for z
        using ext that by (auto simp: rowExt_def rowOk_def)
      have only: "onlyRow a s s2" and row2: "rowOk s2 a (ys @ pre @ x # rest)"
        using ext by (auto simp: rowExt_def)
      have a2: "a \<notin> set (ys @ pre @ x # rest)" using spec ret Cons.prems by (auto simp: succSpec_def)
      have n2: "mTransCnt s2 = mTransCnt s" by (rule onlyRow_TransCnt [OF only])
      have all2: "\<forall>i < mTransCnt s2. \<exists>xs. rowOk s2 i xs"
        using Cons.prems(5) row2 onlyRow_rowOk [OF only] n2 by metis
      have "x \<notin> set ys" using row2 by (auto simp: rowOk_def)
      then have "nxt s2 a x = headOf rest" using ext nx by (auto simp: rowExt_def)
      with Cons.IH [of s2 "ys @ pre @ [x]" n fl] row2 a2 Cons.prems n2 all2 fuel
      obtain r zs where r: "isCycle_level trs ready n a k (nxt s2 a x) fl s2 = Some r"
          "levelSpec a k rest fl s2 ((ys @ pre @ [x]) @ rest) r zs" by auto
      obtain ret' fl' s3 where r': "r = (ret', fl', s3)" by (cases r) auto
      have wf: "(z, y) \<in> waitsFor s2 \<longleftrightarrow> (z, y) \<in> waitsFor s" if "z \<noteq> a" for z y
        using only that by (auto simp: waitsFor_def onlyRow_def)
      have ne: "z \<noteq> a" if "z \<in> set rest" for z using that a2 by auto
      have ix: "idx s2 z y = idx s z y" if "z \<in> set rest" for z y
        using onlyRow_idx [OF only ne [OF that]] .
      have "rowExt a (k + 1) s (pre @ x # rest) s3 (zs @ ys)"
        using rowExt_trans [OF ext, of s3 zs] r(2) by (simp add: levelSpec_def r')
      moreover have "\<forall>y \<in> set (zs @ ys). \<exists>z \<in> set (x # rest). idx s a z = k \<and> idx s z y = 1"
      proof
        fix y assume "y \<in> set (zs @ ys)"
        then consider "y \<in> set zs" | "y \<in> set ys" by auto
        then show "\<exists>z \<in> set (x # rest). idx s a z = k \<and> idx s z y = 1"
        proof cases
          case 1
          then obtain z where "z \<in> set rest" "idx s2 a z = k" "idx s2 z y = 1"
            using r(2) by (auto simp: levelSpec_def r')
          then show ?thesis using old ix by auto
        qed (use new True in auto)
      qed
      moreover have "y \<in> set (zs @ ys) \<union> set (pre @ x # rest)"
        if "\<not> ret'" "z \<in> set (x # rest)" "idx s a z = k" "(z, y) \<in> waitsFor s" for z y
      proof (cases "z \<in> set rest")
        case True
        then have "idx s2 a z = k" "(z, y) \<in> waitsFor s2"
          using that old ne wf by auto
        then show ?thesis using r(2) that(1) True by (auto simp: levelSpec_def r')
      next
        case False
        then have "z = x" using that by auto
        then have "y \<in> set js" "idx s x y = 1"
          using that js rowOk_waitsFor by (auto simp: waitsFor_def)
        then show ?thesis using spec ret s1 by (auto simp: succSpec_def)
      qed
      moreover have "ret' \<longrightarrow> a \<in> set (zs @ ys)"
        "\<not> ret' \<longrightarrow> a \<notin> set (zs @ ys) \<and> fl' = (flag \<or> zs @ ys \<noteq> [])"
        using r(2) spec ret by (auto simp: levelSpec_def succSpec_def r')
      ultimately have "levelSpec a k (x # rest) flag s (pre @ x # rest) r (zs @ ys)"
        unfolding levelSpec_def r' by auto
      then show ?thesis using run ret r by auto
    qed
  qed
qed

subsection \<open>The search\<close>

text \<open>The state of the search before the pass at distance \<open>k\<close>: the chain \<open>xs\<close> of row \<open>a\<close> grew
  out of \<open>xs0\<close>, its slots of nonzero distance are reached by \<open>a\<close>, it is closed under waiting up to distance
  \<open>k - 1\<close>, and every distance up to \<open>k\<close> occurs as long as the last pass found something.\<close>

definition bfsInv ::
  "slot_id \<Rightarrow> 'a waitState_scheme \<Rightarrow> slot_id list \<Rightarrow> nat \<Rightarrow> bool \<Rightarrow> 'a waitState_scheme \<Rightarrow>
   slot_id list \<Rightarrow> bool" where
  "bfsInv a s0 xs0 k flag s xs \<longleftrightarrow>
     onlyRow a s0 s \<and> rowOk s a xs \<and> a \<notin> set xs \<and> k \<ge> 1 \<and>
     (\<exists>ys. xs = ys @ xs0 \<and> (\<forall>x \<in> set ys. idx s a x > 1) \<and> (xs0 = [] \<longrightarrow> ys = [])) \<and>
     (\<forall>x \<in> set xs0. idx s a x = idx s0 a x \<and> idx s0 a x \<le> 1) \<and>
     (\<forall>x \<in> set xs. idx s a x \<le> k \<and> (idx s a x \<noteq> 0 \<longrightarrow> (a, x) \<in> (liveWaits s0 a xs0)\<^sup>+)) \<and>
     (\<forall>x y. x \<in> set xs \<longrightarrow> idx s a x \<noteq> 0 \<longrightarrow> idx s a x < k \<longrightarrow>
        (x, y) \<in> liveWaits s0 a xs0 \<longrightarrow> y \<in> set xs) \<and>
     (if flag then k = 1 \<or> (\<forall>d \<in> {1..k}. \<exists>x \<in> set xs. idx s a x = d)
      else \<forall>x \<in> set xs. idx s a x < k)"

lemma bfsInvD:
  assumes "bfsInv a s0 xs0 k flag s xs"
  shows "onlyRow a s0 s" "rowOk s a xs" "a \<notin> set xs" "k \<ge> 1"
    "\<exists>ys. xs = ys @ xs0 \<and> (\<forall>x \<in> set ys. idx s a x > 1) \<and> (xs0 = [] \<longrightarrow> ys = [])"
    "\<forall>x \<in> set xs0. idx s a x = idx s0 a x \<and> idx s0 a x \<le> 1"
    "\<And>x. x \<in> set xs \<Longrightarrow> idx s a x \<le> k"
    "\<And>x. x \<in> set xs \<Longrightarrow> idx s a x \<noteq> 0 \<Longrightarrow> (a, x) \<in> (liveWaits s0 a xs0)\<^sup>+"
    "\<And>x y. x \<in> set xs \<Longrightarrow> idx s a x \<noteq> 0 \<Longrightarrow> idx s a x < k \<Longrightarrow>
       (x, y) \<in> liveWaits s0 a xs0 \<Longrightarrow> y \<in> set xs"
    "flag \<Longrightarrow> k = 1 \<or> (\<forall>d \<in> {1..k}. \<exists>x \<in> set xs. idx s a x = d)"
    "\<not> flag \<Longrightarrow> \<forall>x \<in> set xs. idx s a x < k"
    "set xs0 \<subseteq> set xs"
  using assms unfolding bfsInv_def by (simp_all split: if_splits) auto

lemma bfsInv_waitsFor:
  assumes "bfsInv a s0 xs0 k flag s xs" "z \<noteq> a"
  shows "(z, y) \<in> waitsFor s \<longleftrightarrow> (z, y) \<in> waitsFor s0"
  using bfsInvD(1) [OF assms(1)] assms(2) by (simp add: waitsFor_def onlyRow_def)

text \<open>The outcome: the answer is whether \<open>a\<close> reaches itself, and the row only grew in front.\<close>

definition cycleSpec ::
  "slot_id \<Rightarrow> 'a waitState_scheme \<Rightarrow> slot_id list \<Rightarrow> bool \<Rightarrow> 'a waitState_scheme \<Rightarrow>
   slot_id list \<Rightarrow> bool" where
  "cycleSpec a s0 xs0 b s' ys \<longleftrightarrow>
     (b \<longleftrightarrow> (a, a) \<in> (liveWaits s0 a xs0)\<^sup>+) \<and> onlyRow a s0 s' \<and> rowOk s' a (ys @ xs0) \<and>
     (\<forall>x \<in> set ys. idx s' a x > 1) \<and>
     (\<forall>x \<in> set xs0. idx s' a x = idx s0 a x \<and> idx s0 a x \<le> 1) \<and> (xs0 = [] \<longrightarrow> ys = [])"

lemma bfsInv_exhausted:
  assumes "bfsInv a s0 xs0 k True s xs" "k = mTransCnt s" "a < mTransCnt s"
  shows "\<forall>x \<in> set xs. idx s a x < k"
proof -
  note inv = bfsInvD [OF assms(1)]
  have xs: "set xs \<subseteq> {..<k} - {a}" using inv(2,3) assms(2) by (auto simp: rowOk_def)
  show ?thesis
  proof (cases "k = 1")
    case True
    with xs assms(2,3) show ?thesis by auto
  next
    case False
    then have "{1..k} \<subseteq> (\<lambda>x. idx s a x) ` set xs"
      using inv(10) by fast
    then have "card {1..k} \<le> card (set xs)"
      by (meson List.finite_set card_image_le card_mono finite_imageI order_trans)
    also have "\<dots> \<le> card ({..<k} - {a})" using xs by (intro card_mono) auto
    also have "\<dots> = k - 1" using assms(2,3) by simp
    finally show ?thesis using assms(2,3) by simp
  qed
qed

lemma bfsInv_no_cycle:
  assumes "bfsInv a s0 xs0 k flag s xs" "\<not> flag \<or> k = mTransCnt s" "a < mTransCnt s"
    "rowOk s0 a xs0"
  shows "(a, a) \<notin> (liveWaits s0 a xs0)\<^sup>+"
proof
  note inv = bfsInvD [OF assms(1)]
  assume cyc: "(a, a) \<in> (liveWaits s0 a xs0)\<^sup>+"
  have lt: "\<forall>x \<in> set xs. idx s a x < k"
    using assms(1,2,3) bfsInv_exhausted [of a s0 xs0 k s xs] inv(11) by (cases flag) simp_all
  obtain ys where ys: "xs = ys @ xs0" "\<forall>x \<in> set ys. idx s a x > 1" using inv(5) by blast
  have live: "idx s a y \<noteq> 0" if "y \<in> set xs" "(x, y) \<in> liveWaits s0 a xs0" for x y
    using that ys inv(6) by (auto simp: liveWaits_def)
  have "y \<in> set xs \<and> idx s a y \<noteq> 0" if "(a, y) \<in> (liveWaits s0 a xs0)\<^sup>+" for y
    using that
  proof (induction rule: trancl_induct)
    case (base y)
    then have "y \<in> set xs0" using rowOk_waitsFor [OF assms(4)] by (auto simp: liveWaits_def)
    then show ?case using inv(12) live base by blast
  next
    case (step x y)
    then have "y \<in> set xs" using inv(9) lt by blast
    then show ?case using live step by blast
  qed
  with cyc inv(3) show False by blast
qed

lemma bfsInv_step:
  assumes inv: "bfsInv a s0 xs0 k flag s xs" and "flag" "k < mTransCnt s"
    and spec: "levelSpec a k xs False s xs (False, fl, s') ys"
  shows "bfsInv a s0 xs0 (k + 1) fl s' (ys @ xs)"
proof -
  note I = bfsInvD [OF inv]
  have ext: "rowExt a (k + 1) s xs s' ys" and nret: "a \<notin> set ys" "fl = (ys \<noteq> [])"
    and fr: "\<And>y. y \<in> set ys \<Longrightarrow> \<exists>x \<in> set xs. idx s a x = k \<and> idx s x y = 1"
    and cov: "\<And>x y. x \<in> set xs \<Longrightarrow> idx s a x = k \<Longrightarrow> (x, y) \<in> waitsFor s \<Longrightarrow> y \<in> set ys \<union> set xs"
    using spec by (simp_all add: levelSpec_def)
  have row: "rowOk s' a (ys @ xs)" and only: "onlyRow a s s'"
    and ix: "\<And>j. idx s' a j = (if j \<in> set ys then k + 1 else idx s a j)"
    using ext by (simp_all add: rowExt_def)
  have dis: "set ys \<inter> set xs = {}" using row by (auto simp: rowOk_def)
  have old: "idx s' a x = idx s a x" if "x \<in> set xs" for x using that dis ix by auto
  obtain ys0 where ys0: "xs = ys0 @ xs0" "\<forall>x \<in> set ys0. idx s a x > 1" "xs0 = [] \<longrightarrow> ys0 = []"
    using I(5) by blast
  have rowlt: "set (ys @ xs) \<subseteq> {..<mTransCnt s}"
    using row onlyRow_TransCnt [OF only] by (auto simp: rowOk_def)
  have edge: "(x, y) \<in> waitsFor s \<longleftrightarrow> (x, y) \<in> waitsFor s0" if "x \<in> set xs" for x y
    using bfsInv_waitsFor [OF inv] I(3) that by metis
  have 1: "(a, y) \<in> (liveWaits s0 a xs0)\<^sup>+" if "y \<in> set (ys @ xs)" "idx s' a y \<noteq> 0" for y
  proof (cases "y \<in> set xs")
    case False
    with that obtain x where x: "x \<in> set xs" "idx s a x = k" "idx s x y = 1" using fr by auto
    then have "(x, y) \<in> waitsFor s" using rowlt that by (auto simp: waitsFor_def)
    then have "(x, y) \<in> waitsFor s0" using edge x(1) by blast
    then have "(x, y) \<in> liveWaits s0 a xs0" using False I(12) by (auto simp: liveWaits_def)
    with I(8) [OF x(1)] x(2) I(4) show ?thesis by (auto intro: trancl_into_trancl)
  qed (use I(8) old that in auto)
  have 2: "y \<in> set (ys @ xs)"
    if "x \<in> set (ys @ xs)" "idx s' a x \<noteq> 0" "idx s' a x < k + 1" "(x, y) \<in> liveWaits s0 a xs0" for x y
  proof -
    have x: "x \<in> set xs" "idx s a x \<le> k" "idx s a x \<noteq> 0"
      using that ix by (auto split: if_splits)
    have "(x, y) \<in> waitsFor s" using edge [OF x(1)] that(4) by (simp add: liveWaits_def)
    then show ?thesis
      using I(9) [OF x(1,3) _ that(4)] cov [OF x(1)] x(2) by (cases "idx s a x = k") auto
  qed
  have 3: "\<exists>x \<in> set (ys @ xs). idx s' a x = d" if fl: "fl" and d: "d \<in> {1..k + 1}" for d
  proof -
    have "hd ys \<in> set ys" using fl nret(2) by simp
    then obtain y x where y: "y \<in> set ys" "x \<in> set xs" "idx s a x = k"
      using fr by blast
    show ?thesis
    proof (cases "d = k + 1")
      case False
      then have "d \<in> {1..k}" using d by auto
      then obtain x' where "x' \<in> set xs" "idx s a x' = d"
        using I(10) [OF \<open>flag\<close>] y by (cases "k = 1") force+
      then show ?thesis using old by auto
    qed (use y ix in auto)
  qed
  have 4: "idx s' a x < k + 1" if "\<not> fl" "x \<in> set (ys @ xs)" for x
    using that nret(2) old I(7) by fastforce
  have 5: "\<forall>x \<in> set (ys @ ys0). idx s' a x > 1"
    using ix ys0(2) I(4) by auto
  have 6: "\<forall>x \<in> set xs0. idx s' a x = idx s0 a x \<and> idx s0 a x \<le> 1" using I(6,12) old by auto
  have 7: "xs0 = [] \<longrightarrow> ys @ ys0 = []" using fr [of "hd ys"] ys0 by (cases "ys = []") auto
  have 8: "idx s' a x \<le> k + 1" if "x \<in> set (ys @ xs)" for x
    using I(7) ix that by fastforce
  have 9: "onlyRow a s0 s'" using I(1) only by (rule onlyRow_trans)
  have 10: "\<exists>zs. ys @ xs = zs @ xs0 \<and> (\<forall>x \<in> set zs. idx s' a x > 1) \<and> (xs0 = [] \<longrightarrow> zs = [])"
    using 5 7 ys0(1) by (intro exI [of _ "ys @ ys0"]) simp
  have 11: "a \<notin> set (ys @ xs)" "1 \<le> k + 1" using nret(1) I(3) by auto
  show ?thesis
    unfolding bfsInv_def using 9 row 11 10 6 8 1 2 3 4 by (simp add: Ball_def)
qed

lemma isCycle_while_spec:
  assumes "bfsInv a s0 xs0 k flag s xs" "k \<le> mTransCnt s" "mTransCnt s - k \<le> fuel"
    "waitInv s" "a < mTransCnt s" "rowOk s0 a xs0"
  shows "\<exists>b s' ys. isCycle_while trs ready fuel a k flag s = Some (b, s') \<and>
    cycleSpec a s0 xs0 b s' ys"
  using assms
proof (induction fuel arbitrary: k flag s xs)
  case 0
  note I = bfsInvD [OF 0(1)]
  have "(a, a) \<notin> (liveWaits s0 a xs0)\<^sup>+" using 0 by (intro bfsInv_no_cycle [OF 0(1)]) auto
  moreover have "idx s a a = 0" using I(2,3) 0(5) by (auto simp: rowOk_def)
  moreover obtain ys where "xs = ys @ xs0" "\<forall>x \<in> set ys. idx s a x > 1" "xs0 = [] \<longrightarrow> ys = []"
    using I(5) by blast
  ultimately show ?case
    using I(1,2,6) 0(2,3) by (auto simp: isCycle_while.simps cycleSpec_def intro!: exI [of _ ys])
next
  case (Suc n)
  note inv = Suc.prems(1)
  note I = bfsInvD [OF inv]
  have zero: "idx s a a = 0" using I(2,3) Suc.prems(5) by (auto simp: rowOk_def)
  obtain ys0 where ys0: "xs = ys0 @ xs0" "\<forall>x \<in> set ys0. idx s a x > 1" "xs0 = [] \<longrightarrow> ys0 = []"
    using I(5) by blast
  show ?case
  proof (cases "flag \<and> k < mTransCnt s")
    case False
    then have "(a, a) \<notin> (liveWaits s0 a xs0)\<^sup>+"
      using Suc.prems by (intro bfsInv_no_cycle [OF inv]) auto
    then show ?thesis
      using False zero I(1,2,6) ys0
      by (auto simp: isCycle_while.simps [of _ _ "Suc n"] cycleSpec_def intro!: exI [of _ ys0])
  next
    case True
    have head: "mFstWaitTblTransItem s a = headOf xs"
      using I(2) by (cases xs) (auto simp: rowOk_def)
    obtain ret fl s' ys where run:
        "isCycle_level trs ready (mTransCnt s) a k (mFstWaitTblTransItem s a) False s = Some (ret, fl, s')"
      and spec: "levelSpec a k xs False s xs (ret, fl, s') ys"
      using isCycle_level_spec [of s a "[]" xs "mTransCnt s" trs ready k False] I(2,3)
        rowOk_length [OF I(2)] Suc.prems(4,5) head
      by (auto simp: waitInv_def)
    have wh: "isCycle_while trs ready (Suc n) a k flag s =
        (if ret then Some (True, s') else isCycle_while trs ready n a (k + 1) fl s')"
      using True zero run by (simp add: isCycle_while.simps [of _ _ "Suc n"])
    have only: "onlyRow a s s'" and row: "rowOk s' a (ys @ xs)"
      and ix: "\<And>j. idx s' a j = (if j \<in> set ys then k + 1 else idx s a j)"
      using spec by (simp_all add: levelSpec_def rowExt_def)
    have n: "mTransCnt s' = mTransCnt s" by (rule onlyRow_TransCnt [OF only])
    show ?thesis
    proof (cases ret)
      case False
      have "bfsInv a s0 xs0 (k + 1) fl s' (ys @ xs)"
        using bfsInv_step [OF inv] True spec False by auto
      moreover have "waitInv s'"
        using onlyRow_waitInv [OF only Suc.prems(4) row] .
      ultimately show ?thesis
        using Suc.IH [of "k + 1" fl s' "ys @ xs"] Suc.prems True n wh False by auto
    next
      case ret: True
      then have "a \<in> set ys" using spec by (simp add: levelSpec_def)
      then obtain x where x: "x \<in> set xs" "idx s a x = k" "idx s x a = 1"
        using spec by (auto simp: levelSpec_def)
      have "x < mTransCnt s" "x \<noteq> a" using x I(2,3) by (auto simp: rowOk_def)
      then have "(x, a) \<in> waitsFor s0"
        using x Suc.prems(5) bfsInv_waitsFor [OF inv] by (auto simp: waitsFor_def)
      then have "(x, a) \<in> liveWaits s0 a xs0" using I(3,12) by (auto simp: liveWaits_def)
      then have "(a, a) \<in> (liveWaits s0 a xs0)\<^sup>+"
        using I(8) [OF x(1)] x(2) I(4) by (auto intro: trancl_into_trancl)
      moreover have "onlyRow a s0 s'" using I(1) only by (rule onlyRow_trans)
      moreover have "\<forall>x \<in> set (ys @ ys0). idx s' a x > 1" using ix ys0(2) I(4) by auto
      moreover have "set ys \<inter> set xs0 = {}" using row I(12) by (auto simp: rowOk_def)
      then have "\<forall>x \<in> set xs0. idx s' a x = idx s0 a x \<and> idx s0 a x \<le> 1" using I(6) ix by auto
      moreover have "xs0 = [] \<longrightarrow> ys @ ys0 = []" using x ys0 by (cases xs) auto
      moreover have "rowOk s' a ((ys @ ys0) @ xs0)" using row ys0(1) by simp
      ultimately have "cycleSpec a s0 xs0 True s' (ys @ ys0)"
        unfolding cycleSpec_def by blast
      with wh ret show ?thesis by auto
    qed
  qed
qed

lemma clearTxList4DistDeadlock_sel [simp]:
  "mTransCnt (clearTxList4DistDeadlock a s) = mTransCnt s"
  "mWaitForTable (clearTxList4DistDeadlock a s) = mWaitForTable s"
  "mFstWaitTblTransItem (clearTxList4DistDeadlock a s) = mFstWaitTblTransItem s"
  "mFstWaitRecTransItem (clearTxList4DistDeadlock a s) = mFstWaitRecTransItem s"
  "mLstWaitRecTransItem (clearTxList4DistDeadlock a s) = mLstWaitRecTransItem s"
  "waitState.more (clearTxList4DistDeadlock a s) = waitState.more s"
proof -
  let ?d = "SML_DIST_DEADLOCK_TX_NON_DIST_INFO"
  have "mTransCnt (fold (\<lambda>i. setDistTx a i ?d SM_NULL_TID) xs s) = mTransCnt s \<and>
    mWaitForTable (fold (\<lambda>i. setDistTx a i ?d SM_NULL_TID) xs s) = mWaitForTable s \<and>
    mFstWaitTblTransItem (fold (\<lambda>i. setDistTx a i ?d SM_NULL_TID) xs s) = mFstWaitTblTransItem s \<and>
    mFstWaitRecTransItem (fold (\<lambda>i. setDistTx a i ?d SM_NULL_TID) xs s) = mFstWaitRecTransItem s \<and>
    mLstWaitRecTransItem (fold (\<lambda>i. setDistTx a i ?d SM_NULL_TID) xs s) = mLstWaitRecTransItem s \<and>
    waitState.more (fold (\<lambda>i. setDistTx a i ?d SM_NULL_TID) xs s) = waitState.more s" for xs
    by (induction xs arbitrary: s) (simp_all add: setDistTx_def)
  then show "mTransCnt (clearTxList4DistDeadlock a s) = mTransCnt s"
    "mWaitForTable (clearTxList4DistDeadlock a s) = mWaitForTable s"
    "mFstWaitTblTransItem (clearTxList4DistDeadlock a s) = mFstWaitTblTransItem s"
    "mFstWaitRecTransItem (clearTxList4DistDeadlock a s) = mFstWaitRecTransItem s"
    "mLstWaitRecTransItem (clearTxList4DistDeadlock a s) = mLstWaitRecTransItem s"
    "waitState.more (clearTxList4DistDeadlock a s) = waitState.more s"
    by (simp_all add: clearTxList4DistDeadlock_def)
qed

text \<open>The row of a waiting transaction before the search: its chain lists distinct other
  slots, at distance 1, or 0 when the slot has released its lock since.\<close>

definition waitRow :: "'a waitState_scheme \<Rightarrow> slot_id \<Rightarrow> slot_id list \<Rightarrow> bool" where
  "waitRow s a xs \<longleftrightarrow> rowOk s a xs \<and> a \<notin> set xs \<and> (\<forall>x \<in> set xs. idx s a x \<le> 1)"

lemma waitRow_bfsInv:
  assumes "waitRow s a xs" "waitInv s" "a < mTransCnt s"
  shows "bfsInv a s xs 1 True s xs"
proof -
  have "(a, x) \<in> (liveWaits s a xs)\<^sup>+" if "x \<in> set xs" "idx s a x \<noteq> 0" for x
  proof -
    have "idx s a x = 1" "x < mTransCnt s"
      using assms that le_Suc_eq by (auto simp: waitRow_def rowOk_def)
    then show ?thesis
      using assms(3) that by (intro r_into_trancl) (auto simp: waitsFor_def liveWaits_def)
  qed
  then show ?thesis
    using assms by (auto simp: bfsInv_def waitRow_def)
qed

lemma isCycle_spec:
  assumes "waitInv s" "a < mTransCnt s" "waitRow s a xs"
  shows "\<exists>b s' ys. isCycle trs a ready s = Some (b, s') \<and> cycleSpec a s xs b s' ys"
proof -
  define s1 where "s1 = (if ready then clearTxList4DistDeadlock a s else s)"
  have sel: "mTransCnt s1 = mTransCnt s" "mWaitForTable s1 = mWaitForTable s"
    "mFstWaitTblTransItem s1 = mFstWaitTblTransItem s"
    "mFstWaitRecTransItem s1 = mFstWaitRecTransItem s"
    "mLstWaitRecTransItem s1 = mLstWaitRecTransItem s" "waitState.more s1 = waitState.more s"
    by (simp_all add: s1_def)
  have row: "rowOk s1 i l \<longleftrightarrow> rowOk s i l" for i l by (rule rowOk_cong) (simp_all add: sel)
  have col: "colOk s1 i l \<longleftrightarrow> colOk s i l" for i l by (rule colOk_cong) (simp_all add: sel)
  have inv: "waitInv s1" "waitRow s1 a xs" "a < mTransCnt s1" "rowOk s1 a xs"
    using assms by (simp_all add: waitInv_def waitRow_def row col sel)
  have wf: "liveWaits s1 = liveWaits s" by (simp add: fun_eq_iff liveWaits_def waitsFor_def sel)
  obtain b s' ys where "isCycle_while trs ready (mTransCnt s1) a 1 True s1 = Some (b, s')"
      "cycleSpec a s1 xs b s' ys"
    using isCycle_while_spec [OF waitRow_bfsInv [OF inv(2,1,3)], of "mTransCnt s1" trs ready]
      inv by auto
  moreover from this have "cycleSpec a s xs b s' ys"
    by (simp add: cycleSpec_def wf onlyRow_def sel)
  ultimately show ?thesis by (auto simp: isCycle_def s1_def [symmetric])
qed

lemma chain_determines:
  "chain nx x xs \<Longrightarrow> chain nx' x xs \<Longrightarrow> y \<in> set xs \<Longrightarrow> nx y = nx' y"
proof (induction xs arbitrary: x)
  case (Cons z xs)
  show ?case
  proof (cases "y \<in> set xs")
    case True
    then obtain w ws where "xs = w # ws" by (cases xs) auto
    with Cons True show ?thesis by (intro Cons.IH [of "nx z"]) auto
  next
    case False
    then show ?thesis using Cons.prems by (cases xs) auto
  qed
qed simp

lemma isCycle_revert:
  assumes "waitInv s" "a < mTransCnt s" "waitRow s a xs" "isCycle trs a ready s = Some (b, s1)"
  shows "\<exists>s2. revertWaitItemColsOfTrans a s1 = Some s2 \<and> rowOk s2 a xs \<and> onlyRow a s s2 \<and>
    (\<forall>j < mTransCnt s. idx s2 a j = idx s a j)"
proof -
  obtain ys where spec: "cycleSpec a s xs b s1 ys"
    using isCycle_spec [OF assms(1-3), of trs ready] assms(4) by auto
  have row: "rowOk s1 a (ys @ xs)" and only: "onlyRow a s s1"
    and gt: "\<forall>x \<in> set ys. idx s1 a x > 1"
    and one: "\<forall>x \<in> set xs. idx s1 a x = idx s a x \<and> idx s a x \<le> 1"
    and nil: "xs = [] \<longrightarrow> ys = []"
    using spec by (simp_all add: cycleSpec_def)
  have n: "mTransCnt s1 = mTransCnt s" by (rule onlyRow_TransCnt [OF only])
  have fresh: "rowOk s a xs"
    using assms(3) by (simp add: waitRow_def)
  have len: "length ys \<le> mTransCnt s1" using rowOk_length [OF row] by simp
  have ch: "chain (nxt s1 a) (mFstWaitTblTransItem s1 a) (ys @ xs)" "distinct (ys @ xs)"
    using row by (auto simp: rowOk_def)
  show ?thesis
  proof (cases "xs = []")
    case True
    then have "revertWaitItemColsOfTrans a s1 = Some s1"
      using row nil by (simp add: revertWaitItemColsOfTrans_def revertWaitCols_loop.simps rowOk_def)
    moreover have "idx s1 a j = idx s a j" if "j < mTransCnt s" for j
      using row fresh True nil that n by (auto simp: rowOk_def)
    ultimately show ?thesis using row only True nil by auto
  next
    case False
    let ?s2 = "(updRow a (\<lambda>j. if j \<in> set ys then clearItem True else id) s1)
       \<lparr>mFstWaitTblTransItem := (mFstWaitTblTransItem s1)(a := hd xs)\<rparr>"
    have "revertWaitItemColsOfTrans a s1 = Some ?s2"
      using ch len gt one False by (intro revertWaitItemColsOfTrans_chain) auto
    moreover have "onlyRow a s ?s2"
      using only by (auto simp: onlyRow_def)
    moreover have "idx ?s2 a j = idx s a j" if "j < mTransCnt s" for j
      using row fresh one that n ch(2) by (cases "j \<in> set xs"; cases "j \<in> set ys") (auto simp: rowOk_def)
    moreover have "chain (nxt s1 a) (hd xs) xs"
      using chain_suffix [OF ch(1)] False by (cases xs) auto
    then have "chain (nxt ?s2 a) (hd xs) xs"
      using ch(2) by (subst chain_cong [where nx = "nxt s1 a"]) auto
    then have "rowOk ?s2 a xs"
      using row ch(2) by (auto simp: rowOk_def)
    ultimately show ?thesis by blast
  qed
qed

subsection \<open>Distributed deadlock detection\<close>

datatype smxDistDeadlockDetection =
    SMX_DIST_DEADLOCK_DETECTION_NONE
  | SMX_DIST_DEADLOCK_DETECTION_VIEWSCN
  | SMX_DIST_DEADLOCK_DETECTION_TIME
  | SMX_DIST_DEADLOCK_DETECTION_SHARD_PIN_SEQ
  | SMX_DIST_DEADLOCK_DETECTION_SHARD_PIN_NODE_ID
  | SMX_DIST_DEADLOCK_DETECTION_ALL_EQUAL

datatype smlDistDeadlockRiskType =
    SML_DIST_DEADLOCK_RISK_NONE | SML_DIST_DEADLOCK_RISK_LOW
  | SML_DIST_DEADLOCK_RISK_MID | SML_DIST_DEADLOCK_RISK_HIGH

definition mDistDeadlockRisk :: "smlDistDeadlockRiskType list list" where
  "mDistDeadlockRisk =
    [[SML_DIST_DEADLOCK_RISK_NONE, SML_DIST_DEADLOCK_RISK_NONE, SML_DIST_DEADLOCK_RISK_NONE, SML_DIST_DEADLOCK_RISK_NONE],
     [SML_DIST_DEADLOCK_RISK_NONE, SML_DIST_DEADLOCK_RISK_LOW, SML_DIST_DEADLOCK_RISK_LOW,  SML_DIST_DEADLOCK_RISK_LOW],
     [SML_DIST_DEADLOCK_RISK_NONE, SML_DIST_DEADLOCK_RISK_LOW, SML_DIST_DEADLOCK_RISK_LOW,  SML_DIST_DEADLOCK_RISK_MID],
     [SML_DIST_DEADLOCK_RISK_NONE, SML_DIST_DEADLOCK_RISK_MID, SML_DIST_DEADLOCK_RISK_MID,  SML_DIST_DEADLOCK_RISK_HIGH]]"

text \<open>The three wait times are properties of the server, arguments here.\<close>

fun getDistDeadlockWaitTime :: "u64 \<times> u64 \<times> u64 \<Rightarrow> smlDistDeadlockRiskType \<Rightarrow> u64" where
  "getDistDeadlockWaitTime (low, mid, high) aRisk =
     (case aRisk of SML_DIST_DEADLOCK_RISK_LOW \<Rightarrow> low
      | SML_DIST_DEADLOCK_RISK_MID \<Rightarrow> mid
      | SML_DIST_DEADLOCK_RISK_HIGH \<Rightarrow> high
      | _ \<Rightarrow> 0)"

text \<open>\<open>SMI_DIVIDE_SHARD_PIN\<close>: version in byte 7, node id in bytes 4 and 5, sequence in the low
  four bytes.\<close>

definition shardPinNodeId :: "u64 \<Rightarrow> u16" where
  "shardPinNodeId aShardPIN = ucast (drop_bit 32 (aShardPIN AND push_bit 32 0xffff))"

definition shardPinSequence :: "u64 \<Rightarrow> u32" where
  "shardPinSequence aShardPIN = ucast (drop_bit 0 (aShardPIN AND push_bit 0 0xffffffff))"

text \<open>\<open>PDL_Time_Value\<close> compares seconds, then microseconds.\<close>

definition timeGreater :: "smiDistTxInfo \<Rightarrow> smiDistTxInfo \<Rightarrow> bool" where
  "timeGreater a b \<longleftrightarrow>
     (if mFirstStmtTimeSec a > mFirstStmtTimeSec b then True
      else if mFirstStmtTimeSec a = mFirstStmtTimeSec b \<and>
              mFirstStmtTimeUsec a > mFirstStmtTimeUsec b then True
      else False)"

definition compareTx4DistDeadlock ::
  "smiDistTxInfo \<Rightarrow> smiDistTxInfo \<Rightarrow> smxDistDeadlockDetection" where
  "compareTx4DistDeadlock aWaitTx aHoldTx =
     (if mFirstStmtViewSCN aWaitTx > mFirstStmtViewSCN aHoldTx
      then SMX_DIST_DEADLOCK_DETECTION_NONE
      else if mFirstStmtViewSCN aWaitTx < mFirstStmtViewSCN aHoldTx
      then SMX_DIST_DEADLOCK_DETECTION_VIEWSCN
      else if timeGreater aWaitTx aHoldTx then SMX_DIST_DEADLOCK_DETECTION_NONE
      else if timeGreater aHoldTx aWaitTx then SMX_DIST_DEADLOCK_DETECTION_TIME
      else
        let sWaitTxNodeID = shardPinNodeId (mShardPin aWaitTx);
            sWaitTxSequence = shardPinSequence (mShardPin aWaitTx);
            sHoldTxNodeID = shardPinNodeId (mShardPin aHoldTx);
            sHoldTxSequence = shardPinSequence (mShardPin aHoldTx)
        in if sWaitTxSequence > sHoldTxSequence then SMX_DIST_DEADLOCK_DETECTION_NONE
           else if sWaitTxSequence < sHoldTxSequence
           then SMX_DIST_DEADLOCK_DETECTION_SHARD_PIN_SEQ
           else if sWaitTxNodeID > sHoldTxNodeID then SMX_DIST_DEADLOCK_DETECTION_NONE
           else if sWaitTxNodeID < sHoldTxNodeID
           then SMX_DIST_DEADLOCK_DETECTION_SHARD_PIN_NODE_ID
           else SMX_DIST_DEADLOCK_DETECTION_ALL_EQUAL)"

text \<open>The loop of \<open>detectDistDeadlock\<close> over the slots still to be visited; it returns
  \<open>sFirstDetection\<close> and \<open>sMaxDistLevel\<close>.\<close>

fun detectDist_loop ::
  "(slot_id \<Rightarrow> smxTransDist) \<Rightarrow> slot_id \<Rightarrow> slot_id list \<Rightarrow> smiDistLevel \<Rightarrow>
   smxDistDeadlockDetection \<Rightarrow> 'a waitState_scheme \<Rightarrow> smxDistDeadlockDetection \<times> smiDistLevel" where
  "detectDist_loop trs aWaitSlot [] sMaxDistLevel sFirstDetection s =
     (sFirstDetection, sMaxDistLevel)"
| "detectDist_loop trs aWaitSlot (i # rest) sMaxDistLevel sFirstDetection s =
     (if i = aWaitSlot then detectDist_loop trs aWaitSlot rest sMaxDistLevel sFirstDetection s
      else if idx s aWaitSlot i = 0
      then detectDist_loop trs aWaitSlot rest sMaxDistLevel sFirstDetection s
      else
        let sHoldTrans = trs i; sHoldLevel = mDistLevel (mDistTxInfo sHoldTrans)
        in if \<not> distLevelValid sHoldLevel
           then detectDist_loop trs aWaitSlot rest sMaxDistLevel sFirstDetection s
           else
             let sLastMaxDistLevel = sMaxDistLevel;
                 sMax1 = (if distLevelValue sHoldLevel > distLevelValue sMaxDistLevel
                          then sHoldLevel else sMaxDistLevel)
             in if mDistTxType (mTxList4DistDeadlock s aWaitSlot i)
                     \<noteq> SML_DIST_DEADLOCK_TX_FIRST_DIST_INFO
                then detectDist_loop trs aWaitSlot rest sMax1 sFirstDetection s
                else
                  let sDetected = compareTx4DistDeadlock (mDistTxInfo (trs aWaitSlot))
                                    (mDistTxInfo sHoldTrans)
                  in if mStatusEnd sHoldTrans \<or>
                        mDistTransID (mTxList4DistDeadlock s aWaitSlot i) \<noteq> mTransID sHoldTrans
                     then detectDist_loop trs aWaitSlot rest
                            (if sLastMaxDistLevel \<noteq> sMax1 then sLastMaxDistLevel else sMax1)
                            sFirstDetection s
                     else if sDetected \<noteq> SMX_DIST_DEADLOCK_DETECTION_NONE
                     then let sFirst1 = (if sFirstDetection = SMX_DIST_DEADLOCK_DETECTION_NONE
                                         then sDetected else sFirstDetection)
                          in if sMax1 = SMI_DIST_LEVEL_PARALLEL then (sFirst1, sMax1)
                             else detectDist_loop trs aWaitSlot rest sMax1 sFirst1 s
                     else detectDist_loop trs aWaitSlot rest sMax1 sFirstDetection s)"

definition detectDistDeadlock ::
  "u64 \<times> u64 \<times> u64 \<Rightarrow> (slot_id \<Rightarrow> smxTransDist) \<Rightarrow> slot_id \<Rightarrow> 'a waitState_scheme \<Rightarrow>
   smxDistDeadlockDetection \<times> u64" where
  "detectDistDeadlock waitTimes getTransBySID aWaitSlot s =
     (let (sFirstDetection, sMaxDistLevel) =
            detectDist_loop getTransBySID aWaitSlot [0..<mTransCnt s] SMI_DIST_LEVEL_INIT
              SMX_DIST_DEADLOCK_DETECTION_NONE s
      in (sFirstDetection,
          if sFirstDetection \<noteq> SMX_DIST_DEADLOCK_DETECTION_NONE
          then getDistDeadlockWaitTime waitTimes
                 (mDistDeadlockRisk ! distLevelValue (mDistLevel (mDistTxInfo (getTransBySID aWaitSlot)))
                    ! distLevelValue sMaxDistLevel)
          else 0))"

text \<open>The comparison ranks transactions by one key, lexicographically: a waiter is left alone
  exactly when its key is greater than the holder's.\<close>

definition distKey :: "smiDistTxInfo \<Rightarrow> u64 \<times> int \<times> int \<times> u32 \<times> u16" where
  "distKey t = (mFirstStmtViewSCN t, mFirstStmtTimeSec t, mFirstStmtTimeUsec t,
     shardPinSequence (mShardPin t), shardPinNodeId (mShardPin t))"

lemma timeGreater_iff: "timeGreater a b \<longleftrightarrow>
    mFirstStmtTimeSec a > mFirstStmtTimeSec b \<or>
    mFirstStmtTimeSec a = mFirstStmtTimeSec b \<and> mFirstStmtTimeUsec a > mFirstStmtTimeUsec b"
  by (auto simp: timeGreater_def)

lemma compareTx4DistDeadlock_none:
  "compareTx4DistDeadlock w h = SMX_DIST_DEADLOCK_DETECTION_NONE \<longleftrightarrow> distKey h < distKey w"
  by (auto simp: compareTx4DistDeadlock_def distKey_def timeGreater_iff Let_def less_prod_def'
      split: if_splits)

lemma compareTx4DistDeadlock_equal:
  "compareTx4DistDeadlock w h = SMX_DIST_DEADLOCK_DETECTION_ALL_EQUAL \<longleftrightarrow> distKey h = distKey w"
  by (auto simp: compareTx4DistDeadlock_def distKey_def timeGreater_iff Let_def split: if_splits)

text \<open>A holder the detection compares the waiter with.\<close>

definition distCandidate :: "(slot_id \<Rightarrow> smxTransDist) \<Rightarrow> 'a waitState_scheme \<Rightarrow> slot_id \<Rightarrow> slot_id \<Rightarrow> bool" where
  "distCandidate trs s w i \<longleftrightarrow> i \<noteq> w \<and> idx s w i \<noteq> 0 \<and>
     distLevelValid (mDistLevel (mDistTxInfo (trs i))) \<and>
     mDistTxType (mTxList4DistDeadlock s w i) = SML_DIST_DEADLOCK_TX_FIRST_DIST_INFO \<and>
     \<not> mStatusEnd (trs i) \<and> mDistTransID (mTxList4DistDeadlock s w i) = mTransID (trs i)"

definition distDetects :: "(slot_id \<Rightarrow> smxTransDist) \<Rightarrow> 'a waitState_scheme \<Rightarrow> slot_id \<Rightarrow> slot_id \<Rightarrow> bool" where
  "distDetects trs s w i \<longleftrightarrow> distCandidate trs s w i \<and>
     \<not> distKey (mDistTxInfo (trs i)) < distKey (mDistTxInfo (trs w))"

lemma detectDist_loop_keeps:
  "f \<noteq> SMX_DIST_DEADLOCK_DETECTION_NONE \<Longrightarrow> fst (detectDist_loop trs w is m f s) = f"
  by (induction "is" arbitrary: m) (auto simp: Let_def)

lemma detectDist_loop_first:
  "fst (detectDist_loop trs w is m SMX_DIST_DEADLOCK_DETECTION_NONE s) =
     (case filter (distDetects trs s w) is of
        [] \<Rightarrow> SMX_DIST_DEADLOCK_DETECTION_NONE
      | i # _ \<Rightarrow> compareTx4DistDeadlock (mDistTxInfo (trs w)) (mDistTxInfo (trs i)))"
proof (induction "is" arbitrary: m)
  case (Cons i "is")
  show ?case
  proof (cases "distDetects trs s w i")
    case True
    then show ?thesis
      by (auto simp: Let_def distDetects_def distCandidate_def compareTx4DistDeadlock_none
          detectDist_loop_keeps)
  next
    case False
    then show ?thesis
      using Cons by (auto simp: Let_def distDetects_def distCandidate_def
          compareTx4DistDeadlock_none)
  qed
qed simp

subsection \<open>Properties\<close>


text \<open>Three transactions that wait for each other in a ring.\<close>

definition ringWaits :: waitState where
  "ringWaits = linkWait 2 0 (linkWait 1 2 (linkWait 0 1 (initWaitTable 3)))"

definition noDistTx :: "slot_id \<Rightarrow> smxTransDist" where
  "noDistTx i = \<lparr>mTransID = of_nat i, mStatusEnd = False,
     mDistTxInfo = \<lparr>mFirstStmtViewSCN = 0, mFirstStmtTimeSec = 0, mFirstStmtTimeUsec = 0,
                    mShardPin = 0, mDistLevel = SMI_DIST_LEVEL_INIT\<rparr>\<rparr>"

lemma linkWait_waitInv:
  assumes "waitInv s" "rowOk s a xs" "t < mTransCnt s" "t \<notin> set xs"
  shows "waitInv (linkWait a t s)"
  by (rule onlyRow_waitInv [OF linkWait_onlyRow assms(1) rowOk_link [OF assms(2-4)]])
    (use assms(1) in \<open>simp add: waitInv_def\<close>)

lemma ringWaits_ok:
  "waitInv ringWaits" "mTransCnt ringWaits = 3" "waitRow ringWaits 0 [1]"
  "{(0, 1), (1, 2), (2, 0)} \<subseteq> waitsFor ringWaits" "idx ringWaits 0 1 = 1"
proof -
  let ?t0 = "initWaitTable 3"
  have r0: "rowOk ?t0 i []" for i by (simp add: rowOk_def initWaitTable_def)
  have n0: "mTransCnt ?t0 = 3" by (simp add: initWaitTable_def)
  let ?t1 = "linkWait 0 1 ?t0"
  have n1: "mTransCnt ?t1 = 3" and r1: "rowOk ?t1 0 [1]" "i \<noteq> 0 \<Longrightarrow> rowOk ?t1 i []" for i
    using rowOk_link [OF r0, of 1 0] onlyRow_rowOk [OF linkWait_onlyRow, of i 0 1 ?t0 "[]"] r0 n0
      onlyRow_TransCnt [OF linkWait_onlyRow, of 0 1 ?t0] by auto
  let ?t2 = "linkWait 1 2 ?t1"
  have n2: "mTransCnt ?t2 = 3" and r2: "rowOk ?t2 0 [1]" "rowOk ?t2 2 []"
    using onlyRow_rowOk [OF linkWait_onlyRow, of _ 1 2 ?t1] r1 n1
      onlyRow_TransCnt [OF linkWait_onlyRow, of 1 2 ?t1] by auto
  have "waitInv ?t1" using linkWait_waitInv [OF initWaitTable_inv r0] n0 by simp
  then have "waitInv ?t2" using linkWait_waitInv [OF _ r1(2)] n1 by simp
  then show inv: "waitInv ringWaits"
    unfolding ringWaits_def using linkWait_waitInv [OF _ r2(2)] n2 by simp
  show n3: "mTransCnt ringWaits = 3"
    unfolding ringWaits_def using onlyRow_TransCnt [OF linkWait_onlyRow, of 2 0 ?t2] n2 by simp
  have "rowOk ringWaits 0 [1]"
    unfolding ringWaits_def using onlyRow_rowOk [OF linkWait_onlyRow, of 0 2 0 ?t2] r2 by simp
  moreover have ix: "idx ringWaits 0 1 = 1" "idx ringWaits 1 2 = 1" "idx ringWaits 2 0 = 1"
    by (simp_all add: ringWaits_def linkWait_def Let_def)
  ultimately show "waitRow ringWaits 0 [1]" by (simp add: waitRow_def)
  show "{(0, 1), (1, 2), (2, 0)} \<subseteq> waitsFor ringWaits"
    using ix n3 by (simp add: waitsFor_def)
  show "idx ringWaits 0 1 = 1" by (rule ix(1))
qed

lemma ringWaits_cycle: "(0, 0) \<in> (waitsFor ringWaits)\<^sup>+"
proof -
  have "(0, 1) \<in> (waitsFor ringWaits)\<^sup>+" using ringWaits_ok(4) by (intro r_into_trancl) auto
  then have "(0, 2) \<in> (waitsFor ringWaits)\<^sup>+"
    using ringWaits_ok(4) by (auto intro: trancl_into_trancl)
  then show ?thesis using ringWaits_ok(4) by (auto intro: trancl_into_trancl)
qed


text \<open>\<open>revertWaitItemColsOfTrans\<close> undoes the search: the row of the transaction has
  its old chain and path lengths again, and nothing else was touched.\<close>

theorem revert_undoes_isCycle:
  assumes "waitInv s" "a < mTransCnt s" "waitRow s a xs"
    "isCycle getTransBySID a ready s = Some (b, s1)"
  shows "\<exists>s2. revertWaitItemColsOfTrans a s1 = Some s2 \<and> rowOk s2 a xs \<and> onlyRow a s s2 \<and>
    (\<forall>j < mTransCnt s. idx s2 a j = idx s a j)"
  by (rule isCycle_revert [OF assms])

theorem revert_undoes_isCycle_witness:
  "\<exists>b s1 s2. isCycle noDistTx 0 True ringWaits = Some (b, s1) \<and>
     revertWaitItemColsOfTrans 0 s1 = Some s2 \<and> rowOk s2 0 [1]"
proof -
  have n: "(0::nat) < mTransCnt ringWaits" using ringWaits_ok(2) by simp
  from isCycle_spec [OF ringWaits_ok(1) n ringWaits_ok(3)]
  obtain b s1 where c: "isCycle noDistTx 0 True ringWaits = Some (b, s1)" by blast
  from revert_undoes_isCycle [OF ringWaits_ok(1) n ringWaits_ok(3) c] c show ?thesis by blast
qed

text \<open>C16: when transactions wait for each other in a ring (one per shard node, so that no
  single node sees the ring), the comparison detects a deadlock for at least one of the
  waiters: no distributed deadlock stays undetected.\<close>

theorem distributed_ring_detected:
  assumes "ts \<noteq> []"
  shows "\<exists>i < length ts. compareTx4DistDeadlock (ts ! i) (ts ! (Suc i mod length ts)) \<noteq>
    SMX_DIST_DEADLOCK_DETECTION_NONE"
proof (rule ccontr)
  assume "\<not> ?thesis"
  then have less: "distKey (ts ! (Suc i mod length ts)) < distKey (ts ! i)" if "i < length ts" for i
    using that by (auto simp: compareTx4DistDeadlock_none)
  let ?K = "(\<lambda>i. distKey (ts ! i)) ` {..<length ts}"
  have "Min ?K \<in> ?K" using assms by (intro Min_in) auto
  then obtain i where i: "i < length ts" "Min ?K = distKey (ts ! i)" by auto
  have "distKey (ts ! (Suc i mod length ts)) \<in> ?K" using assms by auto
  then have "Min ?K \<le> distKey (ts ! (Suc i mod length ts))" by (intro Min_le) auto
  with less [OF i(1)] i(2) show False by simp
qed

theorem distributed_ring_detected_witness:
  "\<exists>i < 2. compareTx4DistDeadlock
     ([mDistTxInfo (noDistTx 0)\<lparr>mFirstStmtViewSCN := 7\<rparr>, mDistTxInfo (noDistTx 1)] ! i)
     ([mDistTxInfo (noDistTx 0)\<lparr>mFirstStmtViewSCN := 7\<rparr>, mDistTxInfo (noDistTx 1)] ! (Suc i mod 2))
     \<noteq> SMX_DIST_DEADLOCK_DETECTION_NONE"
  using distributed_ring_detected
    [of "[mDistTxInfo (noDistTx 0)\<lparr>mFirstStmtViewSCN := 7\<rparr>, mDistTxInfo (noDistTx 1)]"]
  by (simp add: numeral_2_eq_2)

text \<open>Of two distributed transactions that wait for each other exactly one is chosen,
  unless their start times and shard pins are equal; then both are.\<close>

theorem compare_chooses_one:
  "(compareTx4DistDeadlock w h = SMX_DIST_DEADLOCK_DETECTION_NONE \<longleftrightarrow>
     compareTx4DistDeadlock h w \<noteq> SMX_DIST_DEADLOCK_DETECTION_NONE) \<or>
   compareTx4DistDeadlock w h = SMX_DIST_DEADLOCK_DETECTION_ALL_EQUAL \<and>
     compareTx4DistDeadlock h w = SMX_DIST_DEADLOCK_DETECTION_ALL_EQUAL"
  unfolding compareTx4DistDeadlock_none compareTx4DistDeadlock_equal by auto

text \<open>The detection reports the first holder (in slot order) that is still the transaction
  the search marked and does not rank below the waiter, and nothing if there is none.\<close>

theorem detectDistDeadlock_first:
  "fst (detectDistDeadlock waitTimes trs w s) =
     (case filter (distDetects trs s w) [0..<mTransCnt s] of
        [] \<Rightarrow> SMX_DIST_DEADLOCK_DETECTION_NONE
      | i # _ \<Rightarrow> compareTx4DistDeadlock (mDistTxInfo (trs w)) (mDistTxInfo (trs i)))"
  unfolding detectDistDeadlock_def
  by (simp add: case_prod_unfold detectDist_loop_first)

end
