(* ===== verification/WaitForLock.thy ===== *)
theory WaitForLock
  imports LockTable Deadlock
begin

text \<open>
  Waiting for a table lock: \<open>smxTransMgr::waitForLock\<close>, \<open>src/src/sm/smx/smxTransMgr.cpp\<close>, cut
  where the thread sleeps in \<open>suspend\<close> with the item's mutex released, and the calls of it in
  \<open>smlLockMgr::lockTableInternal\<close> and \<open>lockTable\<close> with what follows them.  Distributed deadlock
  detection is off here (\<open>sCheckDistDeadlock\<close> false); how long a thread sleeps is not modelled,
  so each part is a step of its own.
\<close>

subsection \<open>\<open>waitForLock\<close>\<close>

text \<open>Up to the first \<open>suspend\<close>.\<close>

definition waitForLock_block :: "slot_id \<Rightarrow> lockState \<Rightarrow> lockState" where
  "waitForLock_block t s = setStatus t SMX_TX_BLOCKED s"

text \<open>After the first \<open>suspend\<close>, when the transaction is still blocked: the deadlock search.\<close>

definition waitForLock_check ::
  "(slot_id \<Rightarrow> smxTransDist) \<Rightarrow> slot_id \<Rightarrow> lockState \<Rightarrow> (bool \<times> lockState) option" where
  "waitForLock_check getTransBySID t s = isCycle getTransBySID t False s"

text \<open>Label \<open>WAKED_UP\<close>: the transaction was resumed.\<close>

definition waitForLock_waked :: "slot_id \<Rightarrow> lockState \<Rightarrow> lockState option" where
  "waitForLock_waked t s = do {
     s1 \<leftarrow> clearWaitItemColsOfTrans True t s;
     Some (setStatus t SMX_TX_BEGIN s1)
   }"

text \<open>The exception end: a deadlock, a time-out, or an event of the session.\<close>

definition waitForLock_failed :: "slot_id \<Rightarrow> lockState \<Rightarrow> lockState" where
  "waitForLock_failed t s = setStatus t SMX_TX_BEGIN s"

subsection \<open>The thread of a request\<close>

text \<open>\<open>lockTableInternal\<close> up to the sleep: a request that must wait blocks its transaction.\<close>

definition lockTable_request ::
  "slot_id \<Rightarrow> item_id \<Rightarrow> smlLockMode \<Rightarrow> bool \<Rightarrow> node_id option \<Rightarrow> bool \<Rightarrow> lockState \<Rightarrow>
   (lockOutcome \<times> lockState) option" where
  "lockTable_request aSlot i aLockMode canWait cur aIsExplicit s = do {
     (out, s1) \<leftarrow> lockTableInternal aSlot i aLockMode canWait cur aIsExplicit s;
     case out of LockMustWait n c \<Rightarrow> Some (out, waitForLock_block aSlot s1)
     | _ \<Rightarrow> Some (out, s1)
   }"

text \<open>The two ends of the wait.\<close>

definition lockTable_resume ::
  "slot_id \<Rightarrow> item_id \<Rightarrow> smlLockMode \<Rightarrow> node_id \<Rightarrow> node_id \<Rightarrow> lockState \<Rightarrow>
   (lockOutcome \<times> lockState) option" where
  "lockTable_resume aSlot i aLockMode newNode cur s = do {
     s1 \<leftarrow> waitForLock_waked aSlot s;
     lockTable_waked aSlot i aLockMode newNode cur s1
   }"

definition lockTable_giveUp ::
  "slot_id \<Rightarrow> node_id \<Rightarrow> lockState \<Rightarrow> (lockOutcome \<times> lockState) option" where
  "lockTable_giveUp aSlot newNode s = lockTable_failed aSlot newNode (waitForLock_failed aSlot s)"

end
