(* ===== verification/LockWait.thy ===== *)
theory LockWait
  imports LockRelease WaitForLock
begin

text \<open>
  A wait that fails: the request is withdrawn when it is still queued, and released when it was
  granted at the last moment; and a wait that ends with the lock granted.
\<close>

subsection \<open>Returning a node to the pool\<close>

lemma pool_sel [simp]:
  "mLockNodes (freeLockNodeNormal n s) = mLockNodes s" "mLockItems (freeLockNodeNormal n s) = mLockItems s"
  "mTransLockNodes (freeLockNodeNormal n s) = mTransLockNodes s"
  "mTransLockSlots (freeLockNodeNormal n s) = mTransLockSlots s"
  "mNextLockNode (freeLockNodeNormal n s) = mNextLockNode s" "mStatus (freeLockNodeNormal n s) = mStatus s"
  "mTransCnt (freeLockNodeNormal n s) = mTransCnt s" "mWaitForTable (freeLockNodeNormal n s) = mWaitForTable s"
  "mFstWaitTblTransItem (freeLockNodeNormal n s) = mFstWaitTblTransItem s"
  "mFstWaitRecTransItem (freeLockNodeNormal n s) = mFstWaitRecTransItem s"
  "mLstWaitRecTransItem (freeLockNodeNormal n s) = mLstWaitRecTransItem s"
  by (simp_all add: freeLockNodeNormal_def)

lemma pool_row [simp]: "rowOk (freeLockNodeNormal n s) t xs = rowOk s t xs"
  "colOk (freeLockNodeNormal n s) t xs = colOk s t xs"
  by (simp_all add: rowOk_def colOk_def)

lemma pool_keeps [simp]: "keeps u s (freeLockNodeNormal n s')  = keeps u s s'"
  "sameWaits s (freeLockNodeNormal n s') = sameWaits s s'"
  by (simp_all add: keeps_def sameWaits_def)

lemma pool_others [simp]: "others t s (freeLockNodeNormal n s') = others t s s'"
  "others t (freeLockNodeNormal n s) s' = others t s s'"
  by (simp_all add: others_def quiet_def) (simp add: keeps_def)

lemma pool_inv [simp]:
  "midInv F X i w (freeLockNodeNormal n s) = midInv F X i w s"
  "headStuck (freeLockNodeNormal n s) i = headStuck s i"
proof -
  let ?s = "freeLockNodeNormal n s"
  have [simp]: "heldBy ?s = heldBy s" "queuedOn w ?s = queuedOn w s"
    by (simp_all add: fun_eq_iff heldBy_def queuedOn_def)
  have [simp]: "heldOn ?s = heldOn s" "queuedNodes w ?s = queuedNodes w s" "blockers ?s = blockers s"
    by (simp_all add: fun_eq_iff heldOn_def queuedNodes_def blockers_def)
  have [simp]: "itemOk X' w ?s j = itemOk X' w s j" for X' j
    by (simp add: itemOk_def lightItem_def grantsOk_def requestsOk_def waitsRecorded_def compatibleNodes_def)
  have [simp]: "headStuck ?s j = headStuck s j" for j by (simp add: headStuck_def split: list.split)
  have [simp]: "nodesOk ?s t = nodesOk s t" "slotsOk P ?s t = slotsOk P s t" for t P
    by (simp_all add: nodesOk_def heldNodeOk_def slotsOk_def)
  have [simp]: "waitingOk ?s = waitingOk s"
    by (simp add: fun_eq_iff waitingOk_def requestNode_def)
  have [simp]: "txOk w ?s t = txOk w s t" "rowPhase w ?s t = rowPhase w s t" for t
    by (simp_all add: txOk_def phaseOk_def rowPhase_def cong: txPhase.case_cong)
  have [simp]: "stateOk ?s = stateOk s" by (simp add: stateOk_def waitInv_def)
  show "midInv F X i w ?s = midInv F X i w s" "headStuck ?s i = headStuck s i"
    by (simp_all add: midInv_def midBase_def)
qed

lemma free_unlinked:
  assumes mid: "midInv F X i w s" and n: "mLockItem (node s n) = i" "mSlotID (node s n) = t"
    "t < mTransCnt s" "n \<notin> set (mTransLockNodes s t)" "n \<notin> queuedNodes w s i"
  shows "freeLockNode n s = Some (freeLockNodeNormal n s)"
proof -
  have "n \<notin> heldOn s i"
    using heldOn_node [OF midBaseD(1) [OF midInvD(1) [OF mid]], of n i] n by auto
  then have "n \<notin> set (mLockGrant (item s i))" "n \<notin> set (mLockRequest (item s i))"
    using itemOk_grants [OF midInvD(2) [OF mid]] itemOk_requests [OF midInvD(2) [OF mid]] n(5) by auto
  then show ?thesis using n by (simp add: freeLockNode_def noNeighbours_def)
qed


subsection \<open>Withdrawing a queued request\<close>

lemma withdrawn_mid:
  assumes inv: "lockInv w s" and t: "t < mTransCnt s" and w: "w t = TxWaiting i m n c k"
    and st: "mStatus s t = SMX_TX_BLOCKED"
  defines "s1 \<equiv> unlock_requested i n (setStatus t SMX_TX_BEGIN s)" and "w' \<equiv> w(t := TxRunning)"
  shows "midInv {t} {} i w' s1" "mItemFlag (item s1 i) \<noteq> SML_FLAG_LIGHT_MODE" "others t s s1"
proof -
  note mid = conjunct1 [OF inv [unfolded lockInv_mid [of w s i]]]
  note B = midInvD(1) [OF mid] and M = midBaseD [OF midInvD(1) [OF mid]]
  have wait: "waitingOk s t i m n c" using M(3) [OF t] w by (simp add: txOk_def phaseOk_def)
  then have req: "requestNode s t i m n" using st by (auto simp: waitingOk_def split: if_splits)
  then have slot: "mSlotID (node s n) = t" by (simp add: requestNode_def)
  have n: "n \<in> queuedNodes w s i" using t w st by (auto simp: queuedNodes_def queuedOn_def)
  then have heavy: "mItemFlag (item s i) \<noteq> SML_FLAG_LIGHT_MODE"
    using midInvD(2) [OF mid] by (auto simp: itemOk_def lightItem_def)
  note H = itemOk_heavyD [OF midInvD(2) [OF mid] heavy] and Q = requestsOkD [OF itemOk_heavyD(2) [OF midInvD(2) [OF mid] heavy]]
  have sel: "mLockNodes s1 = mLockNodes s" "mTransLockNodes s1 = mTransLockNodes s"
    "mTransLockSlots s1 = mTransLockSlots s" "mStatus s1 = (mStatus s)(t := SMX_TX_BEGIN)"
    "mNextLockNode s1 = mNextLockNode s" "j \<noteq> i \<Longrightarrow> item s1 j = item s j" "sameWaits s s1"
    "item s1 i = (item s i)\<lparr>mLockRequest := remove1 n (mLockRequest (item s i)),
      mRequestCnt := mRequestCnt (item s i) - 1\<rparr>" for j
    by (simp_all add: s1_def unlock_requested_def)
  note W = sameWaitsD [OF sel(7)]
  have q: "queuedOn w' s1 j u x \<longleftrightarrow> u \<noteq> t \<and> queuedOn w s j u x" for j u x
    by (simp add: queuedOn_def w'_def sel(4))
  have held: "heldBy s1 = heldBy s" "heldOn s1 = heldOn s"
    by (simp_all add: fun_eq_iff heldBy_def heldOn_def sel W(1))
  have on: "onlyOn {t} i w s w' s1"
    by (rule onlyOn_single [OF sameWaits_only [OF sel(7)]])
      (use w in \<open>auto simp: sel held queuedOn_def w'_def\<close>)
  then show "others t s s1" by (rule onlyOn_others)
  note on
  moreover have "nodesOk s1 t"
    using stateOkD(4) [OF M(1) t] by (simp add: nodesOk_def heldNodeOk_def sel)
  moreover have "\<exists>xs. rowOk s1 t xs" using rowPhase_row M(4) [OF t] W(2) by blast
  ultimately have "midBase {t} {} i w' s1"
    by (intro midBase_step [OF B]) (use t q in auto)
  moreover have "itemOk {} w' s1 i"
  proof (rule itemOk_heavyI)
    show "mItemFlag (item s1 i) \<noteq> SML_FLAG_LIGHT_MODE" using heavy by (simp add: sel(8))
    show "grantsOk {} s1 i"
      using H(1) by (simp add: grantsOk_def compatibleNodes_def Let_def sel(1,8) held del: set_image_mset)
    note leave = queued_leave [OF B n slot W(1) q]
    show "requestsOk w' s1 i"
      by (rule requests_pop [OF Q(1) Q(2) [unfolded leave(1)] leave(2) Q(3)]) (simp_all add: sel(8))
    show "waitsRecorded w' s1 i"
      by (rule waits_pop [OF H(3) _ W(1), of n w' t])
        (use midBase_slot [OF B] slot in \<open>auto simp: sel(1,8) q W(4)\<close>)
  qed
  ultimately show "midInv {t} {} i w' s1" by (simp add: midInv_def)
  show "mItemFlag (item s1 i) \<noteq> SML_FLAG_LIGHT_MODE" using heavy by (simp add: sel(8))
qed

lemma withdraw_ok:
  assumes inv: "lockInv w s" and t: "t < mTransCnt s" and w: "w t = TxWaiting i m n c k"
    and st: "mStatus s t = SMX_TX_BLOCKED"
  defines "s0 \<equiv> setStatus t SMX_TX_BEGIN s" and "w' \<equiv> w(t := TxRunning)"
  shows "\<exists>s'. unlockTable_run t (Some n) None False s0 = Some s' \<and> midInv {t} {} i w' s' \<and>
    headStuck s' i \<and> keeps t s0 s' \<and> others t s s'"
proof -
  define s1 where "s1 = unlock_requested i n s0"
  note mid = withdrawn_mid [OF inv t w st, folded s0_def w'_def, folded s1_def]
  have "txOk w s t" using inv t by (simp add: lockInv_def)
  then have wait: "waitingOk s t i m n c" using w by (simp add: txOk_def phaseOk_def)
  then have req: "requestNode s t i m n" "\<not> mDoRemove (node s n)"
    and fresh: "mCvsLockNode (node s n) = None \<Longrightarrow> heldBy s i t = {}"
    using st by (auto simp: waitingOk_def split: if_splits)
  have sel: "mLockNodes s1 = mLockNodes s" "mTransLockNodes s1 = mTransLockNodes s"
    "mNextLockNode s1 = mNextLockNode s" "mTransCnt s1 = mTransCnt s"
    "mLockNodes s0 = mLockNodes s" "mItemFlag (item s0 i) = mItemFlag (item s1 i)"
    by (simp_all add: s1_def s0_def unlock_requested_def)
  have keep01: "keeps t s0 s1" by (simp add: keeps_def s1_def unlock_requested_def)
  have n: "n < mNextLockNode s1" "mSlotID (node s1 n) = t" "mLockItem (node s1 n) = i"
    "n \<notin> set (mTransLockNodes s1 t)" "\<not> mBeGrant (node s1 n)"
    using req by (simp_all add: requestNode_def sel)
  define s2 where "s2 = (if mCvsLockNode (node s1 n) = None
    then clearWaitTableRows (slotsOf s1 (mLockRequest (item s1 i))) t s1 else s1)"
  have o2: "others t s1 s2" using clear_own_others [OF mid(1,2)] by (simp add: s2_def)
  have s2: "midInv {t} {} i w' s2" "mItemFlag (item s2 i) \<noteq> SML_FLAG_LIGHT_MODE" "keeps t s1 s2"
  proof -
    have "t \<notin> set (slotsOf s1 (mLockGrant (item s1 i)))" if cvs: "mCvsLockNode (node s1 n) = None"
    proof
      assume "t \<in> set (slotsOf s1 (mLockGrant (item s1 i)))"
      then obtain x where x: "x \<in> heldOn s1 i" "mSlotID (node s1 x) = t"
        using itemOk_grants [OF midInvD(2) [OF mid(1)]] by auto
      from heldOn_node [OF midBaseD(1) [OF midInvD(1) [OF mid(1)]] x(1)] x(2)
      have "x \<in> heldBy s i t" by (auto simp: heldBy_def sel)
      then show False using fresh cvs by (simp add: sel)
    qed
    then show "midInv {t} {} i w' s2" "mItemFlag (item s2 i) \<noteq> SML_FLAG_LIGHT_MODE" "keeps t s1 s2"
      using clear_own [OF mid(1,2), of t] mid(1,2)
      by (cases "mCvsLockNode (node s1 n) = None"; simp add: s2_def)+
  qed
  obtain s3 where s3: "(if unlinkAll i s2 then toLightMode i s2
      else wakeupRequestLockNodeInLockItem i s2) = Some s3" "midInv {t} {} i w' s3" "headStuck s3 i"
    "keeps t s2 s3" using unlink_or_wake [OF s2(1,2)] by blast
  have o: "others t s s3"
    using others_trans [OF mid(3) others_trans [OF o2 unlink_or_wake_others [OF s2(1,2) s3(1)]]] .
  have k: "keeps t s1 s3" using keeps_trans [OF s2(3) s3(4)] .
  note K = keepsD [OF k]
  have n3: "node s3 n = node s1 n" using K(6) [OF n(1,2)] .
  have linked: "n \<notin> set (mTransLockNodes s3 t)" using n(4) K(4) by simp
  have "n \<notin> queuedNodes w' s3 i"
    using queued_other_node [OF midInvD(1) [OF s3(2)], of n i n] n(2) n3 by auto
  then have "freeLockNode n s3 = Some (freeLockNodeNormal n s3)"
    using free_unlinked [OF s3(2), of n t] n(2,3) n3 linked K(1) t sel(4) by simp
  then have "unlock_complete n True s3 = Some (freeLockNodeNormal n s3)"
    using linked n(2) n3 by (simp add: unlock_complete_def removeIfLinked_def)
  then have "unlockTable_run t (Some n) None False s0 = Some (freeLockNodeNormal n s3)"
    using req(2) mid(2) n(3,5) s3(1)
    by (cases "unlinkAll i s2"; cases "mCvsLockNode (node s n)")
      (simp_all add: unlockTable_run_def unlockTable_def unlockTableInternal_def sel s2_def flip: s1_def)
  then show ?thesis using s3(2,3) keeps_trans [OF keep01 k] o by simp
qed


subsection \<open>A transaction leaves and enters\<close>

text \<open>A transaction that is not queued is taken out, whatever its phase.\<close>

lemma phase_out:
  assumes mid: "midInv F X i w s" and t: "t < mTransCnt s" and q: "\<And>j n. \<not> queuedOn w s j t n"
    and p: "p = TxRunning \<or> p = TxEnding"
  shows "midInv (insert t F) X i (w(t := p)) s"
proof -
  note B = midInvD(1) [OF mid] and M = midBaseD [OF midInvD(1) [OF mid]]
  let ?w = "w(t := p)"
  have "queuedOn ?w s j u x = queuedOn w s j u x" for j u x
    using q [of j x] p by (cases "u = t") (auto simp: queuedOn_def)
  then have q': "queuedOn ?w s = queuedOn w s" by (simp add: fun_eq_iff)
  have on: "onlyOn {t} i w s ?w s"
    by (rule onlyOn_single) (use q in \<open>auto simp: waitsOnly_def q'\<close>)
  have "midBase (insert t F) X i ?w s"
    by (rule midBase_step [OF B on])
      (use t stateOkD(1,4) [OF M(1)] q M(2,8) in \<open>auto simp: q' waitInv_def\<close>)
  moreover have "itemOk X ?w s i"
    by (rule itemOk_same [OF refl refl refl _ _ _ _ midInvD(2) [OF mid]]) (simp_all add: q')
  ultimately show ?thesis by (simp add: midInv_def)
qed

text \<open>It comes back with an empty row.\<close>

lemma mid_back:
  assumes mid: "midInv {t} {} i w s" and stuck: "headStuck s i" and t: "t < mTransCnt s"
    and w: "w t = TxRunning \<or> w t = TxEnding" and st: "mStatus s t = SMX_TX_BEGIN"
    and row: "rowOk s t []" and slots: "w t \<noteq> TxEnding \<Longrightarrow> slotsOk (\<lambda>_. {}) s t"
  shows "lockInv w s"
proof -
  have "pendingSlot (w t) = (\<lambda>_. {})" using w by auto
  then have "txOk w s t" using w st slots by (auto simp: txOk_def phaseOk_def)
  moreover have "rowPhase w s t" using w row by (auto simp: rowPhase_def)
  ultimately have "midBase {} {} i w s" using midBase_in midInvD(1) [OF mid] by blast
  then show ?thesis using midInvD(2) [OF mid] stuck by (simp add: lockInv_mid [of w s i] midInv_def)
qed

lemma clear_row:
  assumes mid: "midInv {t} {} i w s" and stuck: "headStuck s i" and t: "t < mTransCnt s"
  shows "\<exists>s'. clearWaitItemColsOfTrans True t s = Some s' \<and> rowOk s' t [] \<and> midInv {t} {} i w s' \<and>
    headStuck s' i \<and> waitState.more s' = waitState.more s \<and> mTransCnt s' = mTransCnt s \<and> others t s s'"
proof -
  note B = midInvD(1) [OF mid] and M = midBaseD [OF midInvD(1) [OF mid]]
  obtain xs where "rowOk s t xs" using stateOkD(1) [OF M(1)] t by (auto simp: waitInv_def)
  from clearWaitItemColsOfTrans_init [OF this] obtain s' where s':
    "clearWaitItemColsOfTrans True t s = Some s'" "rowOk s' t []" "onlyRow t s s'" by blast
  have more: "waitState.more s' = waitState.more s" using s'(3) by (simp add: onlyRow_def)
  note E = more_lock [OF more] and W = onlyRow_waitsOnly [OF s'(3)]
  have cnt: "mTransCnt s' = mTransCnt s" using W by (simp add: waitsOnly_def)
  have held: "heldBy s' = heldBy s" "queuedOn w s' = queuedOn w s"
    by (simp_all add: fun_eq_iff heldBy_def queuedOn_def E)
  have on: "onlyOn {t} i w s w s'"
    by (rule onlyOn_single [OF W]) (use M(2) in \<open>auto simp: E held\<close>)
  have "nodesOk s' t" using stateOkD(4) [OF M(1) t] by (simp add: nodesOk_def heldNodeOk_def E)
  then have "midBase {t} {} i w s'"
    using s'(2) by (intro midBase_own [OF B t on]) (auto simp: E)
  moreover have "itemOk {} w s' i"
    by (rule itemOk_same [OF _ cnt _ _ _ _ _ midInvD(2) [OF mid]])
      (use W M(2) [of t i] in \<open>simp_all add: E held heldOn_def cnt waitsOnly_def\<close>, metis)
  moreover have "headStuck s' i" by (rule headStuck_same [OF _ _ stuck]) (simp_all add: E)
  ultimately show ?thesis using s'(1,2) more cnt onlyOn_others [OF on] by (auto simp: midInv_def)
qed

lemma clear_back:
  assumes mid: "midInv {t} {} i w s" and stuck: "headStuck s i" and t: "t < mTransCnt s"
    and w: "w t = TxRunning" and st: "mStatus s t = SMX_TX_BEGIN" and slots: "slotsOk (\<lambda>_. {}) s t"
  shows "\<exists>s'. clearWaitItemColsOfTrans True t s = Some s' \<and> lockInv w s' \<and>
    waitState.more s' = waitState.more s \<and> mTransCnt s' = mTransCnt s \<and> others t s s'"
proof -
  obtain s' where s': "clearWaitItemColsOfTrans True t s = Some s'" "rowOk s' t []" "midInv {t} {} i w s'"
    "headStuck s' i" "waitState.more s' = waitState.more s" "mTransCnt s' = mTransCnt s" "others t s s'"
    using clear_row [OF mid stuck t] by blast
  note E = more_lock [OF s'(5)]
  have "lockInv w s'"
    by (rule mid_back [OF s'(3,4)]) (use s'(2,6) t w st slots in \<open>auto simp: E slotsOk_def\<close>)
  then show ?thesis using s' by blast
qed

text \<open>The slots of a transaction whose newest node, with none, goes away.\<close>

lemma slots_unlinked:
  assumes ok: "slotsOk P s t" and n: "mLockSequence (node s n) = (\<lambda>_. 0)"
    and dist: "distinct (mTransLockNodes s t)"
    and s': "mTransLockSlots s' t = mTransLockSlots s t"
      "mTransLockNodes s' t = remove1 n (mTransLockNodes s t)"
      "\<And>x. x \<in> set (mTransLockNodes s t) \<Longrightarrow> x \<noteq> n \<Longrightarrow> node s' x = node s x \<and> P' x = P x"
  shows "slotsOk P' s' t"
proof -
  note O = slotsOkD [OF ok] and L = slotsOkD(2) [OF ok]
  have rem: "set (mTransLockNodes s' t) = set (mTransLockNodes s t) - {n}"
    using dist s'(2) by (simp add: set_remove1_distinct)
  have "x \<noteq> n" if "mLockSequence (node s x) k \<noteq> 0" for x k
    using n that by auto
  then have same: "node s' x = node s x" "x \<noteq> n" if "x \<in> set (mTransLockNodes s t)" "mLockSequence (node s x) k \<noteq> 0" for x k
    using s'(3) that by blast+
  have map: "map (slotSequence s') (mTransLockSlots s t) = map (slotSequence s) (mTransLockSlots s t)"
    by (rule slotSequence_cong) (use L same in auto)
  show ?thesis
  proof (rule slotsOkI)
    show "sorted_wrt (<) (map (slotSequence s') (mTransLockSlots s' t))"
      unfolding s'(1) map by (rule O(1))
    show "set (mTransLockSlots s' t) =
        {(x, k). x \<in> set (mTransLockNodes s' t) \<and> mLockSequence (node s' x) k \<noteq> 0}"
      unfolding s'(1) rem using L same s'(3) by auto
  qed (use O(3-5) s' rem in auto)
qed


subsection \<open>A wait that fails\<close>

lemma slotsOk_pending:
  "slotsOk P s t \<Longrightarrow> (\<And>x. x \<in> set (mTransLockNodes s t) \<Longrightarrow> P' x = P x) \<Longrightarrow> slotsOk P' s t"
  by (rule slotsOkI) (use slotsOkD [of P s t] in simp_all)

lemma queued_end: "w t = TxRunning \<or> w t = TxEnding \<or> mStatus s t \<noteq> SMX_TX_BLOCKED \<Longrightarrow> \<not> queuedOn w s j t n"
  by (auto simp: queuedOn_def)

text \<open>The request was granted before the thread noticed that it gives up.\<close>

lemma giveUp_granted:
  assumes inv: "lockInv w s" and t: "t < mTransCnt s" and w: "w t = TxWaiting i m n c k"
    and st: "mStatus s t \<noteq> SMX_TX_BLOCKED"
  defines "s0 \<equiv> setStatus t SMX_TX_BEGIN s" and "w' \<equiv> w(t := TxRunning)"
  shows "\<exists>s'. unlockTable_run t (Some n) None False s0 = Some s' \<and> midInv {t} {} i w' s' \<and>
    headStuck s' i \<and> mTransCnt s' = mTransCnt s \<and> mStatus s' t = SMX_TX_BEGIN \<and> slotsOk (\<lambda>_. {}) s' t \<and>
    others t s s' \<and> mTransLockSlots s' t = mTransLockSlots s t"
proof -
  have tx: "txOk w s t" using inv t by (simp add: lockInv_def)
  then have wait: "waitingOk s t i m n c" and slots: "slotsOk (pendingSlot (TxWaiting i m n c k)) s t"
    using w by (simp_all add: txOk_def phaseOk_def)
  then have running: "mStatus s t = SMX_TX_BEGIN" using st by (auto simp: waitingOk_def split: if_splits)
  then have s0: "s0 = s" by (simp add: s0_def setStatus_def fun_upd_idem)
  note inv' = inv [unfolded lockInv_mid [of w s i]]
  have "midInv (insert t {}) {} i w' s"
    unfolding w'_def by (rule phase_out [OF conjunct1 [OF inv'] t queued_end]) (use st in auto)
  then have mid: "midInv {t} {} i w' s" by simp
  note stuck = conjunct2 [OF inv'] and nodes = stateOkD(4) [OF midBaseD(1) [OF midInvD(1) [OF mid]] t]
  show ?thesis
  proof (cases "c = n")
    case True
    then have n: "n \<in> heldBy s i t" "mLockSequence (node s n) = (\<lambda>_. 0)"
      using wait st by (auto simp: waitingOk_def heldBy_def split: if_splits)
    have fits: "slotFits t n None s" by (simp add: slotFits_def)
    from unlockTable_ok [OF mid stuck t n(1) fits, of "Some n"] obtain nx s1 where s1:
      "unlockTable t (Some n) None s = Some (nx, s1)"
      "if mItemFlag (item s i) = SML_FLAG_LIGHT_MODE
       then nx = UnlockDone \<and> midInv {t} {} i w' s1 \<and> headStuck s1 i \<and> released t n None s s1 \<and> others t s s1
       else nx = UnlockInternal n \<and> s1 = s" by blast
    have own: "mLockItem (node s n) = i" using n(1) by (simp add: heldBy_def)
    obtain s' where s': "unlockTable_run t (Some n) None False s = Some s'" "midInv {t} {} i w' s'"
      "headStuck s' i" "released t n None s s'" "others t s s'"
    proof (cases "mItemFlag (item s i) = SML_FLAG_LIGHT_MODE")
      case True
      then show ?thesis using that [of s1] s1 by (simp add: unlockTable_run_def)
    next
      case False
      from release_heavy [OF mid False t n(1) fits, of False] obtain s' where
        "unlockTableInternal t i n None False s = Some s'" "midInv {t} {} i w' s'" "headStuck s' i"
        "released t n None s s'" "others t s s'" by blast
      then show ?thesis using that [of s'] s1 False own by (simp add: unlockTable_run_def)
    qed
    have kept: "ownKept t n s s'" and H: "mTransLockNodes s' t = remove1 n (mTransLockNodes s t)"
      "mTransLockSlots s' t = mTransLockSlots s t"
      using s'(4) by (simp_all add: released_def slotReleased_def leftFlag_def)
    have "distinct (mTransLockNodes s t)" using nodes by (auto simp: nodesOk_def distinct_map)
    then have "slotsOk (\<lambda>_. {}) s' t"
      using kept nodesOkD(1,2) [OF nodes]
      by (intro slots_unlinked [OF slots n(2) _ H(2,1)]) (auto simp: ownKept_def)
    then show ?thesis
      using s' kept running H(2) by (simp add: s0 ownKept_def)
  next
    case False
    then have cvs: "mDoRemove (node s n)" "mCvsLockNode (node s n) \<noteq> None" and req: "requestNode s t i m n"
      using wait st by (auto simp: waitingOk_def split: if_splits)
    then have n: "mLockItem (node s n) = i" "mSlotID (node s n) = t" "n \<notin> set (mTransLockNodes s t)"
      by (simp_all add: requestNode_def)
    have "n \<notin> queuedNodes w' s i" using queued_other_node [OF midInvD(1) [OF mid]] n(2) by blast
    then have free: "freeLockNode n s = Some (freeLockNodeNormal n s)"
      and un: "n \<notin> set (mLockGrant (item s i))" "n \<notin> set (mLockRequest (item s i))"
      using free_unlinked [OF mid n(1,2) t n(3)] itemOk_requests [OF midInvD(2) [OF mid]]
        itemOk_grants [OF midInvD(2) [OF mid]] heldOn_node [OF midBaseD(1) [OF midInvD(1) [OF mid]], of n i] n
      by auto
    have "unlockTable_run t (Some n) None False s = Some (freeLockNodeNormal n s)"
      using cvs n un free by (simp add: unlockTable_run_def unlockTable_def unlockTableInternal_def
          noNeighbours_def unlock_complete_def removeIfLinked_def)
    moreover have "slotsOk (\<lambda>_. {}) s t" by (intro slotsOk_pending [OF slots]) (use False in auto)
    then have "slotsOk (\<lambda>_. {}) (freeLockNodeNormal n s) t" by (rule slotsOk_mono) simp_all
    ultimately show ?thesis using mid stuck running by (simp add: s0)
  qed
qed

theorem giveUp_ok:
  assumes inv: "lockInv w s" and t: "t < mTransCnt s" and w: "w t = TxWaiting i m n c k"
  shows "\<exists>s'. lockTable_giveUp t n s = Some (LockFailure err_wait_lock, s') \<and>
    lockInv (w(t := TxRunning)) s' \<and> mTransCnt s' = mTransCnt s \<and> others t s s' \<and>
    mTransLockSlots s' t = mTransLockSlots s t"
proof -
  define s0 where "s0 = setStatus t SMX_TX_BEGIN s"
  obtain s1 where s1: "unlockTable_run t (Some n) None False s0 = Some s1"
    "midInv {t} {} i (w(t := TxRunning)) s1" "headStuck s1 i" "mTransCnt s1 = mTransCnt s"
    "mStatus s1 t = SMX_TX_BEGIN" "slotsOk (\<lambda>_. {}) s1 t" "others t s s1"
    "mTransLockSlots s1 t = mTransLockSlots s t"
  proof (cases "mStatus s t = SMX_TX_BLOCKED")
    case False
    from giveUp_granted [OF inv t w this] that show ?thesis unfolding s0_def by blast
  next
    case True
    from withdraw_ok [OF inv t w True] obtain s1 where s1:
      "unlockTable_run t (Some n) None False s0 = Some s1" "midInv {t} {} i (w(t := TxRunning)) s1"
      "headStuck s1 i" "keeps t s0 s1" "others t s s1" unfolding s0_def by blast
    note K = keepsD [OF s1(4)]
    have tx: "txOk w s t" and nodes: "nodesOk s t" using inv t by (simp_all add: lockInv_def stateOk_def)
    then have slots: "slotsOk (pendingSlot (TxWaiting i m n c k)) s t" and wait: "waitingOk s t i m n c"
      using w by (simp_all add: txOk_def phaseOk_def)
    have "n \<notin> set (mTransLockNodes s t)"
      using wait True by (auto simp: waitingOk_def requestNode_def split: if_splits)
    then have "slotsOk (\<lambda>_. {}) s t" by (intro slotsOk_pending [OF slots]) auto
    then have "slotsOk (\<lambda>_. {}) s1 t"
      by (rule slotsOk_mono)
        (use K(4-6) nodesOkD(1,2) [OF nodes] in \<open>simp_all add: s0_def\<close>)
    then show ?thesis using that [OF s1(1-3)] K(1,3,5) s1(5) by (simp add: s0_def)
  qed
  obtain s2 where "clearWaitItemColsOfTrans True t s1 = Some s2" "lockInv (w(t := TxRunning)) s2"
    "mTransCnt s2 = mTransCnt s1" "others t s1 s2" and s2m: "waitState.more s2 = waitState.more s1"
    using clear_back [OF s1(2,3)] t s1(4-6) by auto
  then show ?thesis
    using s1(1,4,8) others_trans [OF s1(7)] more_lock(4) [OF s2m] by (simp add: lockTable_giveUp_def lockTable_failed_def waitForLock_failed_def
        internalFailure_def flip: s0_def)
qed


subsection \<open>A new lock slot\<close>

text \<open>The slot list has room for one more sequence number.\<close>

definition slotLeft :: "slot_id \<Rightarrow> lockState \<Rightarrow> bool" where
  "slotLeft t s \<longleftrightarrow> getLastLockSequence t s \<noteq> 0xFFFFFFFFFFFFFFFF"

lemma word_less_succ:
  assumes "(a :: u64) \<le> b" "b \<noteq> 0xFFFFFFFFFFFFFFFF"
  shows "a < b + 1"
proof -
  have "unat b \<noteq> unat (0xFFFFFFFFFFFFFFFF :: u64)" using assms(2) unsigned_word_eqI by blast
  moreover have "unat b < 2 ^ 64" using unsigned_less [of b] by simp
  ultimately have "unat (b + 1) = unat b + 1" by (subst unat_word_ariths) simp
  then show ?thesis using assms(1) by (simp add: word_less_nat_alt word_le_nat_alt)
qed

lemma slots_below_last:
  assumes "slotsOk P s t" "l \<in> set (mTransLockSlots s t)"
  shows "slotSequence s l \<le> getLastLockSequence t s"
proof -
  obtain L x where L: "mTransLockSlots s t = L @ [x]" using assms(2) by (cases "mTransLockSlots s t" rule: rev_cases) auto
  then show ?thesis
    using slotsOkD(1) [OF assms(1)] assms(2) by (auto simp: getLastLockSequence_def sorted_wrt_append less_imp_le)
qed

lemma addSlot_ok:
  assumes mid: "midInv {t} X i w s" and t: "t < mTransCnt s" and c: "c \<in> heldBy s i t"
    and m: "mLockSequence (node s c) m = 0" "m \<noteq> SML_NLOCK" "m \<le> mLockMode (node s c)"
    and ok: "slotsOk P s t" and P: "P c \<subseteq> {m}" "\<And>x. x \<noteq> c \<Longrightarrow> P x = {}" and room: "slotLeft t s"
  shows "\<exists>s'. setLockModeAndAddLockSlot t (Some c) m True s = Some (Some (mLockMode (node s c)), Some (c, m), s') \<and>
    midInv {t} X i w s' \<and> (headStuck s i \<longrightarrow> headStuck s' i) \<and> ownNode t i c s s' \<and> slotsOk (\<lambda>_. {}) s' t \<and>
    item s' i = item s i \<and> mLockMode (node s' c) = mLockMode (node s c) \<and>
    mTransLockSlots s' t = mTransLockSlots s t @ [(c, m)]"
proof -
  note O = slotsOkD [OF ok] and L = slotsOkD(2) [OF ok]
  let ?q = "getLastLockSequence t s + 1" and ?L = "mTransLockSlots s t"
  define s' where "s' = setTransSlots t (?L @ [(c, m)])
    (updNode c (\<lambda>nd. nd\<lparr>mNodeFlag := mNodeFlag nd OR mLockModeToMask m,
       mLockSequence := (mLockSequence nd)(m := ?q)\<rparr>) s)"
  have last: "getLastLockSequence t (updNode c (\<lambda>nd. nd\<lparr>mNodeFlag := mNodeFlag nd OR mLockModeToMask m\<rparr>) s) =
      getLastLockSequence t s"
    by (simp add: getLastLockSequence_def)
  have "setLockModeAndAddLockSlot t (Some c) m True s = Some (Some (mLockMode (node s c)), Some (c, m), s')"
    using m(1) room last by (simp add: setLockModeAndAddLockSlot_def addLockSlot_def slotLeft_def s'_def
        updNode_def setTransSlots_def)
  moreover have own: "ownNode t i c s s'" by (simp add: ownNode_def s'_def)
  moreover have "item s' i = item s i" "mLockMode (node s' c) = mLockMode (node s c)"
    "mTransLockSlots s' t = ?L @ [(c, m)]" by (simp_all add: s'_def)
  moreover have "midInv {t} X i w s'" "headStuck s i \<Longrightarrow> headStuck s' i"
    using ownNode_inv [OF mid t c own, of X] by (simp_all add: s'_def)
  moreover have "slotsOk (\<lambda>_. {}) s' t"
  proof (rule slotsOkI)
    have q: "l \<in> set ?L \<Longrightarrow> slotSequence s l < ?q" for l
      using word_less_succ slots_below_last [OF ok] room by (simp add: slotLeft_def)
    have "(c, m) \<notin> set ?L" using L m(1) by auto
    then have old: "map (slotSequence s') ?L = map (slotSequence s) ?L"
      by (intro map_cong) (auto simp: s'_def)
    have new: "slotSequence s' (c, m) = ?q" by (simp add: s'_def)
    show "sorted_wrt (<) (map (slotSequence s') (mTransLockSlots s' t))"
      using O(1) q new by (simp add: s'_def [THEN arg_cong, of "\<lambda>s. mTransLockSlots s t"] sorted_wrt_append old)
    have "?q \<noteq> 0" using word_less_succ [of 0 "getLastLockSequence t s"] room by (auto simp: slotLeft_def)
    moreover have "mLockSequence (node s' x) k = (if x = c \<and> k = m then ?q else mLockSequence (node s x) k)" for x k
      by (simp add: s'_def)
    moreover have "mTransLockNodes s' t = mTransLockNodes s t" "c \<in> set (mTransLockNodes s t)"
      using c by (simp_all add: s'_def heldBy_def)
    moreover have "set (mTransLockSlots s' t) = insert (c, m) (set ?L)" by (simp add: s'_def)
    ultimately show "set (mTransLockSlots s' t) =
        {(x, k). x \<in> set (mTransLockNodes s' t) \<and> mLockSequence (node s' x) k \<noteq> 0}"
      using L by auto
  next
    fix x assume "x \<in> set (mTransLockNodes s' t)"
    then have x: "x \<in> set (mTransLockNodes s t)" by (simp add: s'_def)
    have sm: "slotModes s' t x = (if x = c then insert m (slotModes s t c) else slotModes s t x)"
      by (auto simp: s'_def)
    show "flagModes (mNodeFlag (node s' x)) (slotModes s' t x \<union> {}) \<and>
        lubModes (slotModes s' t x \<union> {}) \<le> mLockMode (node s' x) \<and> mLockSequence (node s' x) SML_NLOCK = 0"
    proof (cases "x = c")
      case False
      then show ?thesis using O(3-5) [OF x] P(2) unfolding sm by (simp add: s'_def)
    next
      case True
      have "insert m (slotModes s t c \<union> P c) = insert m (slotModes s t c)" using P(1) by blast
      then have "flagModes (mNodeFlag (node s c) OR mLockModeToMask m) (insert m (slotModes s t c))"
        using flagModes_insert [OF O(3) [OF x], of m] True by simp
      moreover have "lubModes (insert m (slotModes s t c)) \<le> mLockMode (node s c)"
      proof (rule lubModes_least)
        fix y assume "y \<in> insert m (slotModes s t c)"
        then have "y = m \<or> y \<le> lubModes (slotModes s t c \<union> P c)"
          using lubModes_upper [of y "slotModes s t c \<union> P c"] by auto
        then show "y \<le> mLockMode (node s c)"
          using m(3) order.trans [OF _ O(4) [OF x]] True by metis
      qed
      ultimately show ?thesis
        unfolding sm using True O(5) [OF x] m(2) by (simp add: s'_def)
    qed
  qed
  ultimately show ?thesis by (intro exI [of _ s']) simp
qed


subsection \<open>A wait that ends with the lock\<close>

text \<open>The lock is taken and its slot linked: the end of every successful request.\<close>

lemma success_ok:
  assumes mid: "midInv {t} {} i w s" and stuck: "headStuck s i" and t: "t < mTransCnt s"
    and w: "w t = TxRunning" and st: "mStatus s t = SMX_TX_BEGIN" and row: "rowOk s t []"
    and c: "c \<in> heldBy s i t" "mLockSequence (node s c) m = 0" "m \<noteq> SML_NLOCK" "m \<le> mLockMode (node s c)"
    and ok: "slotsOk P s t" "P c \<subseteq> {m}" "\<And>x. x \<noteq> c \<Longrightarrow> P x = {}" and room: "slotLeft t s"
  shows "\<exists>s'. internalSuccess t m c s = Some (LockSuccess (Some (mLockMode (node s c))) (Some (c, m)), s') \<and>
    lockInv w s' \<and> mTransCnt s' = mTransCnt s \<and>
    mTransLockSlots s' t = mTransLockSlots s t @ [(c, m)] \<and> others t s s'"
proof -
  from addSlot_ok [OF mid t c ok room] obtain s' where s':
    "setLockModeAndAddLockSlot t (Some c) m True s = Some (Some (mLockMode (node s c)), Some (c, m), s')"
    "midInv {t} {} i w s'" "headStuck s' i" "ownNode t i c s s'" "slotsOk (\<lambda>_. {}) s' t"
    "mTransLockSlots s' t = mTransLockSlots s t @ [(c, m)]" using stuck by blast
  note D = ownNodeD [OF s'(4)]
  have "lockInv w s'"
    by (rule mid_back [OF s'(2,3)]) (use s'(5) t w st row sameWaitsD(2) [OF D(11)] in \<open>simp_all add: D\<close>)
  then show ?thesis
    using s'(1,6) ownNode_others [OF midInvD(1) [OF mid] t c(1) s'(4)] by (simp add: internalSuccess_def D)
qed

lemma resume_ok:
  assumes inv: "lockInv w s" and t: "t < mTransCnt s" and w: "w t = TxWaiting i m n c k"
    and st: "mStatus s t \<noteq> SMX_TX_BLOCKED" and room: "slotLeft t s"
  shows "\<exists>s' cm. lockTable_resume t i m n c s = Some (LockSuccess cm (Some (c, m)), s') \<and>
    lockInv (w(t := TxRunning)) s' \<and> mTransCnt s' = mTransCnt s \<and>
    mTransLockSlots s' t = mTransLockSlots s t @ [(c, m)] \<and>
    others t s s'"
proof -
  let ?w = "w(t := TxRunning)"
  have tx: "txOk w s t" using inv t by (simp add: lockInv_def)
  then have wait: "waitingOk s t i m n c" and slots: "slotsOk (pendingSlot (TxWaiting i m n c k)) s t"
    using w by (simp_all add: txOk_def phaseOk_def)
  then have running: "mStatus s t = SMX_TX_BEGIN" using st by (auto simp: waitingOk_def split: if_splits)
  note inv' = inv [unfolded lockInv_mid [of w s i]]
  have "midInv (insert t {}) {} i ?w s"
    by (rule phase_out [OF conjunct1 [OF inv'] t queued_end]) (use st in auto)
  then have mid0: "midInv {t} {} i ?w s" by simp
  obtain s1 where s1: "clearWaitItemColsOfTrans True t s = Some s1" "rowOk s1 t []" "midInv {t} {} i ?w s1"
    "headStuck s1 i" "waitState.more s1 = waitState.more s" "mTransCnt s1 = mTransCnt s" "others t s s1"
    using clear_row [OF mid0 conjunct2 [OF inv'] t] by blast
  note E = more_lock [OF s1(5)]
  have waked: "waitForLock_waked t s = Some s1"
    using s1(1) running by (simp add: waitForLock_waked_def setStatus_def E fun_upd_idem)
  define s2 where "s2 = (if mCvsLockNode (node s1 n) = None then s1 else freeLockNodeNormal n s1)"
  have s2: "midInv {t} {} i ?w s2" "headStuck s2 i" "mLockNodes s2 = mLockNodes s"
    "mTransLockNodes s2 = mTransLockNodes s" "mTransLockSlots s2 = mTransLockSlots s" "mStatus s2 = mStatus s"
    "rowOk s2 t []" "mTransCnt s2 = mTransCnt s" "others t s s2"
    using s1 by (simp_all add: s2_def E)
  have c: "c \<in> heldBy s i t" "mLockSequence (node s c) m = 0" "m \<noteq> SML_NLOCK" and cn: "c = n \<or> m \<le> mLockMode (node s c)"
    using wait st by (auto simp: waitingOk_def heldBy_def split: if_splits)
  have cm: "m \<le> mLockMode (node s c)"
  proof (cases "c = n")
    case True
    then have "lubModes (slotModes s t c \<union> {m}) \<le> mLockMode (node s c)"
      using slotsOkD(4) [OF slots, of c] c(1) by (simp add: heldBy_def)
    moreover have "m \<le> lubModes (slotModes s t c \<union> {m})" by (rule lubModes_upper) simp
    ultimately show ?thesis by (rule order.trans [rotated])
  qed (use cn in simp)
  have ran: "lockTable_waked t i m n c s1 = internalSuccess t m c s2"
  proof (cases "mCvsLockNode (node s1 n)")
    case None
    then show ?thesis by (simp add: lockTable_waked_def s2_def)
  next
    case (Some c')
    have "c \<noteq> n"
      using nodesOkD(5) [OF stateOkD(4) [OF midBaseD(1) [OF midInvD(1) [OF mid0]] t], of c] c(1) Some
      by (auto simp: heldBy_def E)
    then have n: "requestNode s t i m n" "mDoRemove (node s n)"
      using wait st by (auto simp: waitingOk_def split: if_splits)
    then have n': "mLockItem (node s1 n) = i" "mSlotID (node s1 n) = t" "n \<notin> set (mTransLockNodes s1 t)"
      "\<not> mBeGrant (node s1 n)"
      by (simp_all add: requestNode_def E)
    have q: "n \<notin> queuedNodes ?w s1 i" using queued_other_node [OF midInvD(1) [OF s1(3)]] n'(2) by blast
    have "n \<notin> heldOn s1 i"
      using heldOn_node [OF midBaseD(1) [OF midInvD(1) [OF s1(3)]], of n i] n' by auto
    then have "n \<notin> set (mLockGrant (item s1 i))" "n \<notin> set (mLockRequest (item s1 i))"
      using itemOk_requests [OF midInvD(2) [OF s1(3)]] itemOk_grants [OF midInvD(2) [OF s1(3)]] q by auto
    then show ?thesis
      using Some n' n(2) free_unlinked [OF s1(3) n'(1,2) _ n'(3) q] t s1(6)
      by (simp add: lockTable_waked_def s2_def noNeighbours_def E)
  qed
  have "slotsOk (pendingSlot (TxWaiting i m n c k)) s2 t"
    by (rule slotsOk_mono [OF slots]) (simp_all add: s2)
  moreover have "slotLeft t s2" using room by (simp add: slotLeft_def getLastLockSequence_def s2 split: if_splits)
  moreover have "c \<in> heldBy s2 i t" using c(1) by (simp add: heldBy_def s2)
  moreover have "pendingSlot (TxWaiting i m n c k) c \<subseteq> {m}"
    "x \<noteq> c \<Longrightarrow> pendingSlot (TxWaiting i m n c k) x = {}" for x by auto
  ultimately obtain s3 where
    "internalSuccess t m c s2 = Some (LockSuccess (Some (mLockMode (node s2 c))) (Some (c, m)), s3)"
    "lockInv ?w s3" "mTransCnt s3 = mTransCnt s2"
    "mTransLockSlots s3 t = mTransLockSlots s t @ [(c, m)]" "others t s2 s3"
    using success_ok [OF s2(1,2), of c m "pendingSlot (TxWaiting i m n c k)"] t running c(2,3) cm s2
    by (auto simp del: pendingSlot.simps)
  then show ?thesis
    using waked ran s2(8) others_trans [OF s2(9)] by (auto simp: lockTable_resume_def)
qed

end
