(* ===== verification/LockAcquire.thy ===== *)
theory LockAcquire
  imports LockWait
begin

text \<open>
  Acquiring a lock: the search for a held node, the change of an item to heavy mode, the grant
  of a new node and the conversion of a held one, each with the item and the requesting
  transaction left consistent.
\<close>

subsection \<open>The node a transaction holds on an item\<close>

lemma findLockNode_loop_ok:
  assumes "\<And>n. n \<in> set ns \<Longrightarrow> \<not> mDoRemove (node s n) \<and> mBeGrant (node s n)"
  shows "\<exists>r. findLockNode_loop i ns s = Some r \<and>
    (case r of None \<Rightarrow> \<forall>n \<in> set ns. mLockItem (node s n) \<noteq> i
     | Some n \<Rightarrow> n \<in> set ns \<and> mLockItem (node s n) = i)"
  using assms
proof (induction ns)
  case (Cons n ns)
  then obtain r where "findLockNode_loop i ns s = Some r"
    "case r of None \<Rightarrow> \<forall>n \<in> set ns. mLockItem (node s n) \<noteq> i
     | Some n \<Rightarrow> n \<in> set ns \<and> mLockItem (node s n) = i" by auto
  then show ?case using Cons.prems [of n] by (cases r) auto
qed simp

lemma findLockNode_ok:
  assumes "nodesOk s t"
  shows "\<exists>r. findLockNode i t s = Some r \<and> heldBy s i t = (case r of None \<Rightarrow> {} | Some n \<Rightarrow> {n})"
proof -
  obtain r where r: "findLockNode i t s = Some r"
    "case r of None \<Rightarrow> \<forall>n \<in> set (mTransLockNodes s t). mLockItem (node s n) \<noteq> i
     | Some n \<Rightarrow> n \<in> set (mTransLockNodes s t) \<and> mLockItem (node s n) = i"
    using findLockNode_loop_ok [of "rev (mTransLockNodes s t)" s i] nodesOkD(3,4) [OF assms]
    unfolding findLockNode_def set_rev by blast
  then show ?thesis
    using held_single [OF assms] by (cases r) (auto simp: heldBy_def)
qed

subsection \<open>To heavy mode\<close>

text \<open>The grant list collects the nodes of the transactions \<open>U\<close>.\<close>

definition partGrants :: "slot_id set \<Rightarrow> lockState \<Rightarrow> item_id \<Rightarrow> bool" where
  "partGrants U s i \<longleftrightarrow> (let it = item s i; G = mLockGrant it in
     distinct G \<and> set G = (\<Union>u \<in> U. heldBy s i u) \<and> mGrantCnt it = int (length G) \<and>
     itemCounts it (modesOf s G) \<and> mGrantLockMode it = lubModes (set_mset (modesOf s G)))"

lemma partGrantsD:
  assumes "partGrants U s i"
  shows "distinct (mLockGrant (item s i))" "set (mLockGrant (item s i)) = (\<Union>u \<in> U. heldBy s i u)"
    "mGrantCnt (item s i) = int (length (mLockGrant (item s i)))"
    "itemCounts (item s i) (modesOf s (mLockGrant (item s i)))"
    "mGrantLockMode (item s i) = lubModes (set_mset (modesOf s (mLockGrant (item s i))))"
  using assms unfolding partGrants_def Let_def by blast+

lemma lightMode_le: "lightMode m \<Longrightarrow> m \<le> SML_IXLOCK"
  by (cases m) (simp_all add: mode_order_defs table_simps)

lemma lubModes_light: "(\<And>m. m \<in> M \<Longrightarrow> lightMode m) \<Longrightarrow> lightMode (lubModes M)"
  by (rule lightMode_mono [OF lubModes_least [OF lightMode_le]]) simp_all

definition onlyItem :: "item_id \<Rightarrow> lockState \<Rightarrow> lockState \<Rightarrow> bool" where
  "onlyItem i s s' \<longleftrightarrow> sameLocks i s s' \<and> sameWaits s s'"

lemma onlyItem_trans: "onlyItem i s s' \<Longrightarrow> onlyItem i s' s'' \<Longrightarrow> onlyItem i s s''"
  using sameLocks_trans sameWaits_trans by (auto simp: onlyItem_def)

lemma onlyItem_upd [simp]: "onlyItem i s (updLockItem i f s)"
  by (simp add: onlyItem_def sameLocks_def)

lemma onlyItem_mid:
  assumes "midBase F X i w s" "onlyItem i s s'"
  shows "midBase F X i w s'" "u \<in> F \<Longrightarrow> keeps u s s'"
  using midBase_cleared [OF assms(1), of s' "{}" "{}"] assms(2) rowsCleared_same
  by (auto simp: onlyItem_def)

lemma buildGrant_step:
  assumes st: "stateOk s" and u: "u < mTransCnt s" "u \<notin> U" and U: "\<And>v. v \<in> U \<Longrightarrow> v < mTransCnt s"
    and part: "partGrants U s i" and light: "\<And>n. n \<in> heldOn s i \<Longrightarrow> lightMode (mLockMode (node s n))"
  shows "\<exists>s1. buildGrant_loop i (u # us) s = buildGrant_loop i us s1 \<and> onlyItem i s s1 \<and>
    partGrants (insert u U) s1 i \<and> mLockRequest (item s1 i) = mLockRequest (item s i) \<and>
    mRequestCnt (item s1 i) = mRequestCnt (item s i)"
proof -
  note P = partGrantsD [OF part]
  obtain r where r: "findLockNode i u s = Some r" "heldBy s i u = (case r of None \<Rightarrow> {} | Some n \<Rightarrow> {n})"
    using findLockNode_ok [OF stateOkD(4) [OF st u(1)]] by blast
  show ?thesis
  proof (cases r)
    case None
    then have "partGrants (insert u U) s i" using part r(2) by (simp add: partGrants_def)
    then show ?thesis
      using r None by (intro exI [of _ s]) (simp add: onlyItem_def sameLocks_def)
  next
    case (Some n)
    let ?G = "mLockGrant (item s i)" and ?m = "mLockMode (node s n)"
    have n: "n \<in> heldBy s i u" using r(2) Some by simp
    have new: "n \<notin> set ?G"
      using held_unique [OF st _ u(1) _ n] U u(2) P(2) by auto
    have lightG: "lightMode (mGrantLockMode (item s i))"
      unfolding P(5) using light P(2) U by (intro lubModes_light) (auto simp: heldOn_def)
    have lightn: "lightMode ?m" using light n u(1) by (auto simp: heldOn_def)
    define s1 where "s1 = updLockItem i (\<lambda>it. it\<lparr>mGrantLockMode := sup (mGrantLockMode it) ?m\<rparr>)
      (updLockItem i (setCounts (add_mset ?m (modesOf s ?G)))
        (updLockItem i (\<lambda>it. it\<lparr>mGrantCnt := mGrantCnt it + 1\<rparr>) (addLockNodeToGrantTail i n s)))"
    have "buildGrant_loop i (u # us) s = buildGrant_loop i us s1"
      using r(1) Some lightMode_compatible [OF lightG lightn] P(4)
      by (simp add: addLockNodeToGrantTail_def onItem_inc [where M = "modesOf s ?G"] conversion_sup s1_def)
    moreover have only: "onlyItem i s s1"
      by (simp add: s1_def addLockNodeToGrantTail_def onlyItem_def sameLocks_def)
    moreover have "partGrants (insert u U) s1 i"
    proof -
      have "heldBy s1 = heldBy s" using sameLocks_eq(4) only unfolding onlyItem_def by blast
      then have "set (?G @ [n]) = (\<Union>v \<in> insert u U. heldBy s1 i v)" using P(2) r(2) Some by simp
      moreover have "lubModes (insert ?m (set_mset (modesOf s ?G))) = sup ?m (lubModes (set_mset (modesOf s ?G)))"
        by simp
      ultimately show ?thesis
        using P(1,3,5) new by (simp add: partGrants_def Let_def s1_def addLockNodeToGrantTail_def sup_commute add.commute del: set_image_mset)
    qed
    ultimately show ?thesis by (intro exI [of _ s1]) (simp add: s1_def addLockNodeToGrantTail_def)
  qed
qed


lemma buildGrant_ok:
  assumes "midBase F X i w s" "distinct us" "set us \<inter> U = {}" "U \<union> set us \<subseteq> {..<mTransCnt s}"
    "partGrants U s i" "\<And>n. n \<in> heldOn s i \<Longrightarrow> lightMode (mLockMode (node s n))"
  shows "\<exists>s'. buildGrant_loop i us s = Some s' \<and> onlyItem i s s' \<and> partGrants (U \<union> set us) s' i \<and>
    mLockRequest (item s' i) = mLockRequest (item s i) \<and> mRequestCnt (item s' i) = mRequestCnt (item s i)"
  using assms
proof (induction us arbitrary: U s)
  case (Cons u us)
  from buildGrant_step [OF midBaseD(1) [OF Cons.prems(1)] _ _ _ Cons.prems(5,6), of u us] Cons.prems(3,4)
  obtain s1 where s1: "buildGrant_loop i (u # us) s = buildGrant_loop i us s1" "onlyItem i s s1"
    "partGrants (insert u U) s1 i" "mLockRequest (item s1 i) = mLockRequest (item s i)"
    "mRequestCnt (item s1 i) = mRequestCnt (item s i)" by auto
  have L: "sameLocks i s s1" using s1(2) by (simp add: onlyItem_def)
  note E = sameLocks_eq [OF L] and D = sameLocksD [OF L]
  from Cons.IH [OF onlyItem_mid(1) [OF Cons.prems(1) s1(2)], of "insert u U"] s1(3) Cons.prems(2-4,6)
  obtain s' where "buildGrant_loop i us s1 = Some s'" "onlyItem i s1 s'" "partGrants (insert u U \<union> set us) s' i"
    "mLockRequest (item s' i) = mLockRequest (item s1 i)" "mRequestCnt (item s' i) = mRequestCnt (item s1 i)"
    by (auto simp: E(5) D(1,6))
  then show ?case using s1 onlyItem_trans by (intro exI [of _ s']) auto
qed (simp add: onlyItem_def sameLocks_def)

lemma onlyItem_others:
  assumes "midBase {t} X i w s" "onlyItem i s s'"
  shows "others t s s'"
proof -
  have "midBase ({t} \<union> idle s) X i w s"
    using assms(1) idle_not_queued unfolding midBase_def by blast
  then have "keeps v s s'" if "mStatus s v \<noteq> SMX_TX_BLOCKED" for v
    using onlyItem_mid(2) [OF _ assms(2), of "{t} \<union> idle s" X w v] that by (simp add: idle_def)
  moreover have "quiet {t} {t} s s'"
    using assms(2) sameLocksD [of i s s'] by (intro quiet_same) (simp_all add: onlyItem_def)
  ultimately show ?thesis by (simp add: others_def)
qed

lemma toHeavyMode_ok:
  assumes mid: "midInv F {} i w s" and light: "mItemFlag (item s i) = SML_FLAG_LIGHT_MODE"
  shows "\<exists>s'. toHeavyMode i s = Some s' \<and> midInv F {} i w s' \<and> onlyItem i s s' \<and>
    mItemFlag (item s' i) \<noteq> SML_FLAG_LIGHT_MODE \<and> lightMode (mGrantLockMode (item s' i)) \<and>
    mLockRequest (item s' i) = [] \<and> mRequestCnt (item s' i) = 0"
proof -
  note B = midInvD(1) [OF mid]
  have li: "lightItem {} w s i" using midInvD(2) [OF mid] light by (simp add: itemOk_def)
  note S = lightItem_sel [OF li]
  let ?s = "updLockItem i (\<lambda>it. it\<lparr>mItemFlag := 0\<rparr>) s"
  note E = sameLocks_eq [of i s ?s]
  have L: "sameLocks i s ?s" by (simp add: sameLocks_def)
  note E = sameLocks_eq [OF L]
  have "partGrants {} ?s i"
    by (simp add: partGrants_def Let_def S itemCounts_def)
  moreover have "lightMode (mLockMode (node ?s n))" if "n \<in> heldOn ?s i" for n
    using li that unfolding E(5) by (simp add: lightItem_def)
  ultimately obtain s' where s': "buildGrant_loop i [0..<mTransCnt s] ?s = Some s'" "onlyItem i ?s s'"
    "partGrants {..<mTransCnt s} s' i" "mLockRequest (item s' i) = []" "mRequestCnt (item s' i) = 0"
    using buildGrant_ok [of F "{}" i w ?s "[0..<mTransCnt s]" "{}"] onlyItem_mid(1) [OF B, of ?s] S(2,4)
    by (auto simp: atLeast_upt lessThan_atLeast0)
  have only: "onlyItem i s s'" using onlyItem_trans [OF _ s'(2)] by simp
  then have L': "sameLocks i s s'" by (simp add: onlyItem_def)
  note E' = sameLocks_eq [OF L'] and D' = sameLocksD [OF L'] and P = partGrantsD [OF s'(3)]
  have held: "(\<Union>u<mTransCnt s. heldBy s' i u) = heldOn s' i"
    by (simp add: heldOn_def D'(6))
  have lightn: "lightMode (mLockMode (node s' n))" if "n \<in> set (mLockGrant (item s' i))" for n
    using that li P(2) unfolding held E'(5) D'(1) by (simp add: lightItem_def)
  have heavy: "mItemFlag (item s' i) \<noteq> SML_FLAG_LIGHT_MODE"
    using P(4) flagModes_not_light by (auto simp: itemCounts_def)
  have "itemOk {} w s' i"
  proof (rule itemOk_heavyI [OF heavy])
    show "grantsOk {} s' i"
      using P held lightn lightMode_compatible by (intro grantsOkI) (auto simp: compatibleNodes_def)
    show "requestsOk w s' i"
      using li by (simp add: requestsOk_def s'(4,5) E'(6) lightItem_def)
    show "waitsRecorded w s' i"
      using li unfolding waitsRecorded_def E'(3) D'(6) by (auto simp: lightItem_def queuedNodes_def)
  qed
  moreover have "lightMode (mGrantLockMode (item s' i))"
    unfolding P(5) using lightn by (intro lubModes_light) auto
  ultimately show ?thesis
    using s'(1,4,5) only heavy onlyItem_mid(1) [OF B only] by (simp add: toHeavyMode_def midInv_def)
qed


subsection \<open>A new node\<close>

definition newNode :: "slot_id \<Rightarrow> smlLockMode \<Rightarrow> item_id \<Rightarrow> bool \<Rightarrow> lockState \<Rightarrow> smlLockNode" where
  "newNode t m i b s = (initLockNode (node s (mNextLockNode s)))
     \<lparr>mNodeItemType := mLockItemType (item s i), mNodeSpaceID := mSpaceID (item s i),
      mNodeItemID := mItemID (item s i), mSlotID := t, mLockCnt := 0, mLockItem := i,
      mLockMode := m, mNodeFlag := mLockModeToMask m, mIsExplicitLock := b\<rparr>"

lemma newNode_sel [simp]:
  "mSlotID (newNode t m i b s) = t" "mLockItem (newNode t m i b s) = i" "mLockMode (newNode t m i b s) = m"
  "mNodeFlag (newNode t m i b s) = mLockModeToMask m" "mLockSequence (newNode t m i b s) = (\<lambda>_. 0)"
  "\<not> mDoRemove (newNode t m i b s)" "mCvsLockNode (newNode t m i b s) = None"
  by (simp_all add: newNode_def initLockNode_def)

definition allocd :: "slot_id \<Rightarrow> smlLockMode \<Rightarrow> item_id \<Rightarrow> bool \<Rightarrow> lockState \<Rightarrow> lockState" where
  "allocd t m i b s = s\<lparr>mLockPoolLeft := mLockPoolLeft s - 1, mNextLockNode := mNextLockNode s + 1,
     mLockNodes := (mLockNodes s)(mNextLockNode s := newNode t m i b s)\<rparr>"

lemma allocd_sel [simp]:
  "mLockNodes (allocd t m i b s) = (mLockNodes s)(mNextLockNode s := newNode t m i b s)"
  "mNextLockNode (allocd t m i b s) = mNextLockNode s + 1" "mLockItems (allocd t m i b s) = mLockItems s"
  "mTransLockNodes (allocd t m i b s) = mTransLockNodes s"
  "mTransLockSlots (allocd t m i b s) = mTransLockSlots s" "mStatus (allocd t m i b s) = mStatus s"
  "mTransCnt (allocd t m i b s) = mTransCnt s" "mWaitForTable (allocd t m i b s) = mWaitForTable s"
  "mFstWaitTblTransItem (allocd t m i b s) = mFstWaitTblTransItem s"
  "mFstWaitRecTransItem (allocd t m i b s) = mFstWaitRecTransItem s"
  "mLstWaitRecTransItem (allocd t m i b s) = mLstWaitRecTransItem s"
  "sameWaits s0 (allocd t m i b s) = sameWaits s0 s"
  by (simp_all add: allocd_def sameWaits_def)

lemma allocLockNodeAndInit_eq:
  "allocLockNodeAndInit t m i b s =
     (if mLockPoolLeft s = 0 then None else Some (mNextLockNode s, allocd t m i b s))"
  by (simp add: allocLockNodeAndInit_def allocLockNodeNormal_def allocd_def newNode_def updNode_def)

text \<open>What every acquisition leaves for \<open>internalSuccess\<close>: the transaction holds node \<open>c\<close> with a
  mode that covers \<open>m\<close>, and the slot is still to come.\<close>

definition acquired :: "slot_id \<Rightarrow> item_id \<Rightarrow> smlLockMode \<Rightarrow> node_id \<Rightarrow> lockState \<Rightarrow> lockState \<Rightarrow> bool" where
  "acquired t i m c s s' \<longleftrightarrow> c \<in> heldBy s' i t \<and> mLockSequence (node s' c) m = 0 \<and>
     m \<le> mLockMode (node s' c) \<and> (\<exists>P. slotsOk P s' t \<and> P c \<subseteq> {m} \<and> (\<forall>x. x \<noteq> c \<longrightarrow> P x = {})) \<and>
     mStatus s' t = mStatus s t \<and> sameWaits s s' \<and> (slotLeft t s \<longrightarrow> slotLeft t s') \<and> others t s s' \<and>
     mTransLockSlots s' t = mTransLockSlots s t"

lemma slotLeft_cong:
  assumes "slotLeft t s" "mTransLockSlots s' t = mTransLockSlots s t"
    "\<And>n m. (n, m) \<in> set (mTransLockSlots s t) \<Longrightarrow> mLockSequence (node s' n) = mLockSequence (node s n)"
  shows "slotLeft t s'"
proof (cases "mTransLockSlots s t" rule: rev_cases)
  case (snoc L x)
  then have "mLockSequence (node s' (fst x)) = mLockSequence (node s (fst x))"
    using assms(3) [of "fst x" "snd x"] by simp
  then show ?thesis
    using assms(1,2) snoc by (simp add: slotLeft_def getLastLockSequence_def)
qed (use assms in \<open>simp add: slotLeft_def getLastLockSequence_def\<close>)

text \<open>The step that links a new node.\<close>

definition linkNew :: "slot_id \<Rightarrow> item_id \<Rightarrow> smlLockMode \<Rightarrow> lockState \<Rightarrow> lockState \<Rightarrow> bool" where
  "linkNew t i m s s' \<longleftrightarrow> (let n = mNextLockNode s in
     (\<forall>x. x \<noteq> n \<longrightarrow> node s' x = node s x) \<and> mNextLockNode s' = n + 1 \<and>
     mTransLockNodes s' = (mTransLockNodes s)(t := mTransLockNodes s t @ [n]) \<and>
     mTransLockSlots s' = mTransLockSlots s \<and> mStatus s' = mStatus s \<and> sameWaits s s' \<and>
     (\<forall>j. j \<noteq> i \<longrightarrow> item s' j = item s j) \<and> mSlotID (node s' n) = t \<and> mLockItem (node s' n) = i \<and>
     mBeGrant (node s' n) \<and> \<not> mDoRemove (node s' n) \<and> mCvsLockNode (node s' n) = None \<and>
     mLockMode (node s' n) = m \<and> mNodeFlag (node s' n) = mLockModeToMask m \<and>
     mLockSequence (node s' n) = (\<lambda>_. 0))"

lemma linkNew_ok:
  assumes mid: "midBase {t} X i w s" and t: "t < mTransCnt s" and none: "heldBy s i t = {}"
    and link: "linkNew t i m s s'" and slots: "slotsOk (\<lambda>_. {}) s t"
  shows "midBase {t} {} i w s'" "acquired t i m (mNextLockNode s) s s'"
    "heldOn s' i = insert (mNextLockNode s) (heldOn s i)" "mNextLockNode s \<notin> heldOn s i"
    "queuedOn w s' = queuedOn w s" "x \<in> heldOn s i \<union> queuedNodes w s i \<Longrightarrow> node s' x = node s x"
proof -
  let ?n = "mNextLockNode s"
  note M = midBaseD [OF mid]
  have s': "\<And>x. x \<noteq> ?n \<Longrightarrow> node s' x = node s x" "mNextLockNode s' = ?n + 1"
    "mTransLockNodes s' = (mTransLockNodes s)(t := mTransLockNodes s t @ [?n])"
    "mTransLockSlots s' = mTransLockSlots s" "mStatus s' = mStatus s" "sameWaits s s'"
    "\<And>j. j \<noteq> i \<Longrightarrow> item s' j = item s j" "mSlotID (node s' ?n) = t" "mLockItem (node s' ?n) = i"
    "mBeGrant (node s' ?n)" "\<not> mDoRemove (node s' ?n)" "mCvsLockNode (node s' ?n) = None"
    "mLockMode (node s' ?n) = m" "mNodeFlag (node s' ?n) = mLockModeToMask m"
    "mLockSequence (node s' ?n) = (\<lambda>_. 0)"
    using link by (simp_all add: linkNew_def Let_def)
  note nodes = stateOkD(4) [OF M(1)] and W = sameWaitsD [OF s'(6)]
  have old: "x \<noteq> ?n" if "x \<in> set (mTransLockNodes s u)" for u x
  proof (cases "u < mTransCnt s")
    case True
    then show ?thesis using nodesOkD(1) [OF nodes that] by fastforce
  next
    case False
    then show ?thesis using stateOkD(3) [OF M(1)] that by simp
  qed
  have held: "heldBy s' j u = (if j = i \<and> u = t then {?n} \<union> heldBy s j u else heldBy s j u)" for j u
  proof -
    have "x \<in> heldBy s' j u \<longleftrightarrow> x \<in> (if j = i \<and> u = t then {?n} \<union> heldBy s j u else heldBy s j u)" for x
      using s'(1) [of x] s'(3,9) old [of x u] by (auto simp: heldBy_def)
    then show ?thesis by blast
  qed
  show q: "queuedOn w s' = queuedOn w s" by (simp add: fun_eq_iff queuedOn_def s'(5))
  have on: "onlyOn {t} i w s w s'"
    by (rule onlyOn_single [OF sameWaits_only [OF s'(6)]])
      (use s'(1-5,7) M(2) in \<open>auto simp: held q\<close>)
  have "nodesOk s' t"
    by (rule nodesOk_link [OF nodes [OF t] none])
      (use s' nodesOkD(1) [OF nodes [OF t]] old in \<open>auto simp: heldNodeOk_def\<close>)
  then show "midBase {t} {} i w s'"
    using stateOkD(1) [OF M(1)] t W(2) by (intro midBase_own [OF mid t on]) (auto simp: s'(5) waitInv_def)
  have "?n \<notin> set (mTransLockNodes s t)" using old by blast
  then have "slotsOk (\<lambda>x. if x = ?n then {m} else {}) s' t"
    by (rule slotsOk_link [OF slots])
      (use s' old flagModes_mask in \<open>simp_all\<close>)
  moreover have "slotLeft t s'" if "slotLeft t s"
  proof (rule slotLeft_cong [OF that])
    fix x k assume "(x, k) \<in> set (mTransLockSlots s t)"
    then have "x \<in> set (mTransLockNodes s t)" using slotsOkD(2) [OF slots] by blast
    then show "mLockSequence (node s' x) = mLockSequence (node s x)" using s'(1) old by metis
  qed (simp add: s'(4))
  ultimately show "acquired t i m ?n s s'"
    unfolding acquired_def using s'(4-6,13,15) held onlyOn_others [OF on] by fastforce
  show "heldOn s' i = insert ?n (heldOn s i)"
    using heldOn_eq [of s' s t i "{?n}"] W(1) t held by auto
  show "?n \<notin> heldOn s i" using old by (auto simp: heldOn_def heldBy_def)
  show "node s' x = node s x" if "x \<in> heldOn s i \<union> queuedNodes w s i"
  proof -
    have "x < ?n"
      using that heldOn_node [OF M(1)] midBase_queued [OF mid] by blast
    then show ?thesis by (intro s'(1)) simp
  qed
qed


subsection \<open>Granting\<close>

text \<open>The node a caller found; its slot for \<open>m\<close> is free.\<close>

definition curOk :: "slot_id \<Rightarrow> item_id \<Rightarrow> smlLockMode \<Rightarrow> node_id option \<Rightarrow> lockState \<Rightarrow> bool" where
  "curOk t i m cur s \<longleftrightarrow> (case cur of None \<Rightarrow> heldBy s i t = {}
     | Some c \<Rightarrow> c \<in> heldBy s i t \<and> mLockSequence (node s c) m = 0)"

lemma upgrade_acquired:
  assumes mid: "midBase {t} X i w s" and t: "t < mTransCnt s" and own: "ownNode t i c s s'" and c: "c \<in> heldBy s i t" "mLockSequence (node s c) m = 0"
    and up: "mLockMode (node s' c) = sup (mLockMode (node s c)) m" "mNodeFlag (node s' c) = mNodeFlag (node s c)"
      "mLockSequence (node s' c) = mLockSequence (node s c)" "mTransLockSlots s' t = mTransLockSlots s t"
    and slots: "slotsOk (\<lambda>_. {}) s t"
  shows "acquired t i m c s s'"
proof -
  note D = ownNodeD [OF own]
  have same: "mLockSequence (node s' x) = mLockSequence (node s x) \<and> mNodeFlag (node s' x) = mNodeFlag (node s x) \<and>
      mLockMode (node s x) \<le> mLockMode (node s' x)" for x
    using D(6) [of x] up by (cases "x = c") auto
  have "slotsOk (\<lambda>_. {}) s' t"
    by (rule slotsOk_mono [OF slots]) (simp_all add: up(4) D(8) same)
  moreover have "slotLeft t s'" if "slotLeft t s" by (rule slotLeft_cong [OF that]) (simp_all add: up(4) same)
  ultimately show ?thesis
    unfolding acquired_def using c up(1,3,4) D(10,11) ownNode_others [OF mid t c(1) own] by (auto simp: D(14))
qed

lemma headStuck_up:
  assumes "headStuck s i" "mLockRequest (item s' i) = mLockRequest (item s i)"
    "\<And>n. n \<in> set (mLockRequest (item s i)) \<Longrightarrow> mLockMode (node s' n) = mLockMode (node s n) \<and>
       mCvsLockNode (node s' n) = mCvsLockNode (node s n)"
    "mGrantCnt (item s' i) = mGrantCnt (item s i)" "mGrantLockMode (item s i) \<le> mGrantLockMode (item s' i)"
  shows "headStuck s' i"
proof (cases "mLockRequest (item s i)")
  case (Cons n rest)
  then have "mLockMode (node s' n) = mLockMode (node s n)" "mCvsLockNode (node s' n) = mCvsLockNode (node s n)"
    using assms(3) by simp_all
  then show ?thesis
    using assms(1,2,4) compatible_mono [OF assms(5)] compatible_sym Cons by (auto simp: headStuck_def)
qed (use assms in \<open>simp add: headStuck_def\<close>)

lemma lightGrant_ok:
  assumes mid: "midInv {t} {} i w s" and stuck: "headStuck s i" and t: "t < mTransCnt s"
    and light: "mItemFlag (item s i) = SML_FLAG_LIGHT_MODE" "lightMode m"
    and cur: "curOk t i m cur s" and slots: "slotsOk (\<lambda>_. {}) s t"
  shows "\<exists>r s'. lightGrant t i m cur b s = Some (r, s') \<and> (case r of None \<Rightarrow> s' = s
    | Some c \<Rightarrow> midInv {t} {} i w s' \<and> headStuck s' i \<and> acquired t i m c s s' \<and> lightMode (mLockMode (node s' c)))"
proof (cases cur)
  case (Some c)
  then have c: "c \<in> heldBy s i t" "mLockSequence (node s c) m = 0" using cur by (simp_all add: curOk_def)
  define s' where "s' = updNode c (\<lambda>nd. nd\<lparr>mLockCnt := mLockCnt nd + 1\<rparr>)
    (updNode c (\<lambda>nd. nd\<lparr>mLockMode := sup (mLockMode nd) m\<rparr>) s)"
  have run: "lightGrant t i m cur b s = Some (Some c, s')"
    by (simp add: lightGrant_def Some conversion_sup s'_def)
  have own: "ownNode t i c s s'" by (simp add: ownNode_def s'_def)
  note D = ownNodeD [OF own] and B = midInvD(1) [OF mid]
  have li: "lightItem {} w s i" using midInvD(2) [OF mid] light(1) by (simp add: itemOk_def)
  have lightc: "lightMode (mLockMode (node s' c))"
    using li c t light(2) by (auto simp: lightItem_def s'_def heldOn_def)
  have "lightMode (mLockMode (node s' x))" if "x \<in> heldOn s i" for x
    using li that lightc D(6) [of x] by (cases "x = c") (auto simp: lightItem_def)
  then have "lightItem {} w s' i"
    using li by (simp add: lightItem_def D(15,16)) (simp add: s'_def)
  then have "midInv {t} {} i w s'"
    using ownNode_mid [OF B t c(1) own, of "{}"] light(1) by (simp add: midInv_def itemOk_def s'_def)
  moreover have "headStuck s' i" using lightItem_sel(2) [OF li] by (simp add: headStuck_def s'_def)
  moreover have "acquired t i m c s s'"
    by (rule upgrade_acquired [OF B t own c _ _ _ _ slots]) (simp_all add: s'_def)
  ultimately show ?thesis using run lightc by (intro exI [of _ "Some c"] exI [of _ s']) simp
next
  case None
  then have none: "heldBy s i t = {}" using cur by (simp add: curOk_def)
  note B = midInvD(1) [OF mid] and M = midBaseD [OF midInvD(1) [OF mid]]
  let ?n = "mNextLockNode s"
  have li: "lightItem {} w s i" using midInvD(2) [OF mid] light(1) by (simp add: itemOk_def)
  show ?thesis
  proof (cases "mLockPoolLeft s = 0")
    case True
    then show ?thesis by (simp add: lightGrant_def None allocLockNodeAndInit_eq)
  next
    case False
    define s' where "s' = updNode ?n (\<lambda>nd. nd\<lparr>mLockCnt := mLockCnt nd + 1\<rparr>)
      (setTransNodes t (mTransLockNodes s t @ [?n]) (updNode ?n (\<lambda>nd. nd\<lparr>mBeGrant := True\<rparr>) (allocd t m i b s)))"
    have "?n \<notin> set (mTransLockNodes s t)" using nodesOkD(1) [OF stateOkD(4) [OF M(1) t]] by blast
    then have run: "lightGrant t i m cur b s = Some (Some ?n, s')"
      using False by (simp add: lightGrant_def None allocLockNodeAndInit_eq addLockNode_def s'_def)
    have link: "linkNew t i m s s'" by (simp add: linkNew_def Let_def s'_def)
    note L = linkNew_ok [OF B t none link slots]
    have items: "item s' i = item s i" by (simp add: s'_def)
    have mode: "mLockMode (node s' ?n) = m" using link by (simp add: linkNew_def Let_def)
    have "lightItem {} w s' i"
      using li L(3,5,6) mode light(2) sameWaitsD(1) [of s s'] link
      by (auto simp: lightItem_def items queuedNodes_def linkNew_def Let_def)
    then have "midInv {t} {} i w s'" using L(1) light(1) items by (simp add: midInv_def itemOk_def)
    moreover have "headStuck s' i" using lightItem_sel(2) [OF li] by (simp add: headStuck_def items)
    ultimately show ?thesis
      using run L(2) mode light(2) by (intro exI [of _ "Some ?n"] exI [of _ s']) simp
  qed
qed


lemma itemCounts_heavy: "itemCounts it M \<Longrightarrow> mItemFlag it \<noteq> SML_FLAG_LIGHT_MODE"
  using flagModes_not_light by (auto simp: itemCounts_def)

text \<open>Raising the mode of an own granted node.\<close>

lemma upgrade_heavy:
  assumes mid: "midInv {t} {} i w s" and stuck: "headStuck s i" and t: "t < mTransCnt s"
    and heavy: "mItemFlag (item s i) \<noteq> SML_FLAG_LIGHT_MODE"
    and c: "c \<in> heldBy s i t" "mLockSequence (node s c) m = 0" and slots: "slotsOk (\<lambda>_. {}) s t"
    and own: "ownNode t i c s s'"
    and up: "mLockMode (node s' c) = sup (mLockMode (node s c)) m" "mNodeFlag (node s' c) = mNodeFlag (node s c)"
      "mLockSequence (node s' c) = mLockSequence (node s c)" "mTransLockSlots s' t = mTransLockSlots s t"
    and it: "mLockGrant (item s' i) = mLockGrant (item s i)" "mGrantCnt (item s' i) = mGrantCnt (item s i)"
      "itemCounts (item s' i) (add_mset (sup (mLockMode (node s c)) m)
         (modesOf s (mLockGrant (item s i)) - {#mLockMode (node s c)#}))"
      "mGrantLockMode (item s' i) = sup (mGrantLockMode (item s i)) m"
      "mLockRequest (item s' i) = mLockRequest (item s i)" "mRequestCnt (item s' i) = mRequestCnt (item s i)"
    and comp: "\<And>a. a \<in> set (mLockGrant (item s i)) \<Longrightarrow> a \<noteq> c \<Longrightarrow> compatible m (mLockMode (node s a))"
  shows "midInv {t} {} i w s' \<and> headStuck s' i \<and> acquired t i m c s s'"
proof -
  note D = ownNodeD [OF own] and B = midInvD(1) [OF mid]
  note H = itemOk_heavyD [OF midInvD(2) [OF mid] heavy] and G = grantsOkD [OF itemOk_heavyD(1) [OF midInvD(2) [OF mid] heavy]]
  have slot: "mSlotID (node s c) = t"
    using nodesOkD(2) [OF stateOkD(4) [OF midBaseD(1) [OF B] t]] c(1) by (auto simp: heldBy_def)
  have gr: "c \<in> set (mLockGrant (item s i))" using G(2) c(1) t by (auto simp: heldOn_def)
  have "itemOk {} w s' i"
  proof (rule itemOk_heavyI [OF itemCounts_heavy [OF it(3)]])
    show "grantsOk {} s' i"
      by (rule grantsOk_upgrade [OF H(1) gr fun_cong [OF D(15)] refl _ comp it(1-4)]) (auto simp: up(1) D(6))
    show "requestsOk w s' i" using H(2) by (simp add: requestsOk_def Let_def it(5,6) D)
    show "waitsRecorded w s' i" by (rule waits_subset [OF H(3)]) (simp_all add: D it(1,5))
  qed
  then have "midInv {t} {} i w s'" using ownNode_mid [OF B t c(1) own, of "{}"] by (simp add: midInv_def)
  moreover have "headStuck s' i"
  proof (rule headStuck_up [OF stuck it(5) _ it(2)])
    fix n assume "n \<in> set (mLockRequest (item s i))"
    then have "n \<noteq> c" using queued_other_node [OF B _ slot] requestsOkD(2) [OF H(2)] by blast
    then show "mLockMode (node s' n) = mLockMode (node s n) \<and> mCvsLockNode (node s' n) = mCvsLockNode (node s n)"
      using D(6) by simp
  qed (simp add: it(4))
  ultimately show ?thesis using upgrade_acquired [OF B t own c up slots] by blast
qed

lemma internalConvert_ok:
  assumes mid: "midInv {t} {} i w s" and stuck: "headStuck s i" and t: "t < mTransCnt s"
    and heavy: "mItemFlag (item s i) \<noteq> SML_FLAG_LIGHT_MODE"
    and c: "c \<in> heldBy s i t" "mLockSequence (node s c) m = 0" and slots: "slotsOk (\<lambda>_. {}) s t"
    and one: "mGrantCnt (item s i) = 1"
  shows "\<exists>s'. internalConvert i m c s = Some s' \<and> midInv {t} {} i w s' \<and> headStuck s' i \<and> acquired t i m c s s'"
proof -
  note G = grantsOkD [OF itemOk_heavyD(1) [OF midInvD(2) [OF mid] heavy]]
  let ?G = "mLockGrant (item s i)" and ?m = "mLockMode (node s c)"
  have gr: "c \<in> set ?G" using G(2) c(1) t by (auto simp: heldOn_def)
  have only: "?G = [c]" using one G(3) gr by (cases ?G) auto
  let ?M = "modesOf s ?G - {#?m#}"
  define s' where "s' = updLockItem i (setCounts (add_mset (sup ?m m) ?M))
    (updLockItem i (\<lambda>it. it\<lparr>mGrantLockMode := sup (mGrantLockMode it) m\<rparr>)
      (updNode c (\<lambda>nd. nd\<lparr>mLockMode := sup (mLockMode nd) m\<rparr>) (updLockItem i (setCounts ?M) s)))"
  have mem: "?m \<in># modesOf s ?G" using gr by simp
  have "internalConvert i m c s = Some s'"
    using onItem_dec [OF G(4) mem] onItem_inc [where M = ?M]
    by (simp add: internalConvert_def conversion_sup s'_def del: image_mset_add_mset)
  moreover have "midInv {t} {} i w s' \<and> headStuck s' i \<and> acquired t i m c s s'"
    by (rule upgrade_heavy [OF mid stuck t heavy c slots]) (simp_all add: ownNode_def s'_def only)
  ultimately show ?thesis by blast
qed

lemma internalGrant_ok:
  assumes mid: "midInv {t} {} i w s" and stuck: "headStuck s i" and t: "t < mTransCnt s"
    and heavy: "mItemFlag (item s i) \<noteq> SML_FLAG_LIGHT_MODE"
    and cur: "curOk t i m cur s" and slots: "slotsOk (\<lambda>_. {}) s t"
    and comp: "compatible (mGrantLockMode (item s i)) m" and queue: "cur \<noteq> None \<or> mRequestCnt (item s i) = 0"
  shows "\<exists>r s'. internalGrant t i m cur b s = Some (r, s') \<and> (case r of None \<Rightarrow> s' = s
    | Some c \<Rightarrow> midInv {t} {} i w s' \<and> headStuck s' i \<and> acquired t i m c s s')"
proof (cases cur)
  case (Some c)
  then have c: "c \<in> heldBy s i t" "mLockSequence (node s c) m = 0" using cur by (simp_all add: curOk_def)
  note H = itemOk_heavyD [OF midInvD(2) [OF mid] heavy] and G = grantsOkD [OF itemOk_heavyD(1) [OF midInvD(2) [OF mid] heavy]]
  let ?G = "mLockGrant (item s i)" and ?m = "mLockMode (node s c)"
  have gr: "c \<in> set ?G" using G(2) c(1) t by (auto simp: heldOn_def)
  let ?M = "modesOf s ?G - {#?m#}"
  define s' where "s' = updNode c (\<lambda>nd. nd\<lparr>mLockCnt := mLockCnt nd + 1\<rparr>)
    (updLockItem i (\<lambda>it. it\<lparr>mGrantLockMode := sup (mGrantLockMode it) m\<rparr>)
      (updLockItem i (setCounts (add_mset (sup ?m m) ?M))
        (updNode c (\<lambda>nd. nd\<lparr>mLockMode := sup (mLockMode nd) m\<rparr>) (updLockItem i (setCounts ?M) s))))"
  have mem: "?m \<in># modesOf s ?G" using gr by simp
  have "internalGrant t i m cur b s = Some (Some c, s')"
    using onItem_dec [OF G(4) mem] onItem_inc [where M = ?M]
    by (simp add: internalGrant_def Some conversion_sup s'_def)
  moreover have "midInv {t} {} i w s' \<and> headStuck s' i \<and> acquired t i m c s s'"
    by (rule upgrade_heavy [OF mid stuck t heavy c slots])
      (use grant_compatible [OF H(1)] comp compatible_sym in \<open>auto simp: ownNode_def s'_def\<close>)
  ultimately show ?thesis by (intro exI [of _ "Some c"] exI [of _ s']) simp
next
  case None
  then have none: "heldBy s i t = {}" and zero: "mRequestCnt (item s i) = 0"
    using cur queue by (simp_all add: curOk_def)
  note B = midInvD(1) [OF mid] and M = midBaseD [OF midInvD(1) [OF mid]]
  note H = itemOk_heavyD [OF midInvD(2) [OF mid] heavy] and G = grantsOkD [OF itemOk_heavyD(1) [OF midInvD(2) [OF mid] heavy]]
  have empty: "mLockRequest (item s i) = []" using requestsOkD(3) [OF H(2)] zero by simp
  let ?n = "mNextLockNode s" and ?G = "mLockGrant (item s i)"
  show ?thesis
  proof (cases "mLockPoolLeft s = 0")
    case True
    then show ?thesis by (simp add: internalGrant_def None allocLockNodeAndInit_eq)
  next
    case False
    define s4 where "s4 = updNode ?n (\<lambda>nd. nd\<lparr>mLockMode := sup (mLockMode nd) m\<rparr>)
      (setTransNodes t (mTransLockNodes s t @ [?n])
      (updLockItem i (\<lambda>it. it\<lparr>mGrantCnt := mGrantCnt it + 1\<rparr>)
      (updNode ?n (\<lambda>nd. nd\<lparr>mBeGrant := True\<rparr>)
      (updLockItem i (\<lambda>it. it\<lparr>mLockGrant := mLockGrant it @ [?n]\<rparr>) (allocd t m i b s)))))"
    define s' where "s' = updNode ?n (\<lambda>nd. nd\<lparr>mLockCnt := mLockCnt nd + 1\<rparr>)
      (updLockItem i (\<lambda>it. it\<lparr>mGrantLockMode := sup (mGrantLockMode it) m\<rparr>)
      (updLockItem i (setCounts (add_mset m (modesOf s ?G))) s4))"
    have "?n \<notin> set (mTransLockNodes s t)" using nodesOkD(1) [OF stateOkD(4) [OF M(1) t]] by blast
    moreover have "itemCounts (item s4 i) (modesOf s ?G)" using G(4) by (simp add: s4_def)
    then have "onItem i (incTblLockModeAndUpdate m) s4 = Some (updLockItem i (setCounts (add_mset m (modesOf s ?G))) s4)"
      by (rule onItem_inc)
    ultimately have run: "internalGrant t i m cur b s = Some (Some ?n, s')"
      using False by (simp add: internalGrant_def None allocLockNodeAndInit_eq addLockNode_def conversion_sup
          addLockNodeToGrantTail_def s'_def s4_def)
    have link: "linkNew t i m s s'" by (simp add: linkNew_def Let_def s'_def s4_def)
    note L = linkNew_ok [OF B t none link slots]
    have mode: "mLockMode (node s' ?n) = m" using link by (simp add: linkNew_def Let_def)
    have cnt: "mTransCnt s' = mTransCnt s" by (simp add: s'_def s4_def)
    have counts: "itemCounts (item s' i) (add_mset m (modesOf s ?G))" by (simp add: s'_def s4_def)
    have q: "queuedNodes w s i = {}" using requestsOkD(2) [OF H(2)] empty by simp
    have "itemOk {} w s' i"
    proof (rule itemOk_heavyI [OF itemCounts_heavy [OF counts]])
      show "grantsOk {} s' i"
        by (rule grantsOk_add [OF H(1) L(4) _ L(3)])
          (use L(6) comp compatible_sym counts in \<open>auto simp: mode s'_def s4_def\<close>)
      show "requestsOk w s' i"
        using requestsOkD [OF H(2)] q by (simp add: requestsOk_def Let_def queuedNodes_def L(5) cnt)
          (simp add: s'_def s4_def empty)
      show "waitsRecorded w s' i"
        using q by (auto simp: waitsRecorded_def L(5) cnt queuedNodes_def)
    qed
    then have "midInv {t} {} i w s'" using L(1) by (simp add: midInv_def)
    moreover have "headStuck s' i" by (simp add: headStuck_def s'_def s4_def empty)
    ultimately show ?thesis
      using run L(2) by (intro exI [of _ "Some ?n"] exI [of _ s']) simp
  qed
qed

end
