(* ===== verification/LockRequest.thy ===== *)
theory LockRequest
  imports LockAcquire
begin

text \<open>
  Queueing a request, and whole requests: \<open>lockTable\<close> and \<open>lockTableInternal\<close> up to the sleep
  never trip an assertion and leave the lock manager consistent on every path.
\<close>

subsection \<open>Queueing\<close>

lemma requests_slots:
  assumes mid: "midBase F X i w s" and ok: "requestsOk w s i"
  shows "distinct (slotsOf s (mLockRequest (item s i)))"
    "set (slotsOf s (mLockRequest (item s i))) \<subseteq> {u. u < mTransCnt s \<and> u \<notin> F}"
proof -
  note Q = requestsOkD [OF ok]
  have one: "\<exists>u < mTransCnt s. u \<notin> F \<and> queuedOn w s i u x \<and> mSlotID (node s x) = u" if "x \<in> set (mLockRequest (item s i))" for x
  proof -
    have "x \<in> queuedNodes w s i" using that Q(2) by blast
    then obtain u where u: "u < mTransCnt s" "queuedOn w s i u x" unfolding queuedNodes_def by blast
    then show ?thesis using midBase_slot [OF mid u] midBaseD(2) [OF mid] by blast
  qed
  have "inj_on (\<lambda>x. mSlotID (node s x)) (set (mLockRequest (item s i)))"
  proof (rule inj_onI)
    fix x y assume "x \<in> set (mLockRequest (item s i))" "y \<in> set (mLockRequest (item s i))"
      "mSlotID (node s x) = mSlotID (node s y)"
    then show "x = y" using one [of x] one [of y] queuedOn_same_tx [of w s i _ x i y] by auto
  qed
  then show "distinct (slotsOf s (mLockRequest (item s i)))" using Q(1) by (simp add: distinct_map)
  show "set (slotsOf s (mLockRequest (item s i))) \<subseteq> {u. u < mTransCnt s \<and> u \<notin> F}" using one by fastforce
qed

lemma grants_slots:
  assumes st: "stateOk s" and ok: "grantsOk X s i"
  shows "set (slotsOf s (mLockGrant (item s i))) \<subseteq> {..<mTransCnt s}"
proof
  fix u assume "u \<in> set (slotsOf s (mLockGrant (item s i)))"
  then obtain x where "x \<in> heldOn s i" "mSlotID (node s x) = u" using grantsOkD(2) [OF ok] by auto
  then show "u \<in> {..<mTransCnt s}" using heldOn_node [OF st, of x i] by auto
qed

lemma updNode_cvs_None: "mCvsLockNode (node s n) = None \<Longrightarrow> updNode n (\<lambda>nd. nd\<lparr>mCvsLockNode := None\<rparr>) s = s"
  by (cases "node s n") (simp add: updNode_def fun_upd_idem)

lemma waitsOnly_upd [simp]:
  "waitsOnly t s (updNode n f s') = waitsOnly t s s'" "waitsOnly t s (updLockItem i g s') = waitsOnly t s s'"
  "waitsOnly t s (setStatus u st s') = waitsOnly t s s'"
  by (simp_all add: waitsOnly_def)

lemma register_row:
  assumes row: "rowOk s t xs" and ts: "set ts \<subseteq> {..<mTransCnt s}" and N: "mTransCnt s \<le> SML_END_ITEM"
    and one: "\<And>x. x \<in> set xs \<Longrightarrow> idx s t x = 1"
  defines "s' \<equiv> registTblLockWaitListByGrant t ts s"
  shows "\<exists>ys. rowOk s' t ys \<and> set ys = set xs \<union> (set ts - {t}) \<and> (\<forall>y \<in> set ys. idx s' t y = 1)"
    "onlyRow t s s'"
proof -
  note R = registByGrant_ok [OF row ts N, folded s'_def]
  show "onlyRow t s s'" using R by simp
  have "set (newWaits t ts xs) = set xs \<union> (set ts - {t})" by (simp add: set_newWaits)
  moreover have "idx s' t y = 1" if "y \<in> set (newWaits t ts xs)" for y
  proof -
    have "y < mTransCnt s"
      using that R onlyRow_TransCnt [of t s s'] by (auto simp: rowOk_def)
    then show ?thesis using R that one by (cases "y \<in> set xs") auto
  qed
  ultimately show "\<exists>ys. rowOk s' t ys \<and> set ys = set xs \<union> (set ts - {t}) \<and> (\<forall>y \<in> set ys. idx s' t y = 1)"
    using R by blast
qed

text \<open>The state with the request in the queue.\<close>

definition requested :: "slot_id \<Rightarrow> item_id \<Rightarrow> smlLockMode \<Rightarrow> node_id option \<Rightarrow> lockState \<Rightarrow> lockState \<Rightarrow> bool" where
  "requested t i m cur s s' \<longleftrightarrow> (let n = mNextLockNode s; it = item s i; R = mLockRequest it in
     (\<forall>x. x \<noteq> n \<longrightarrow> node s' x = node s x) \<and> mNextLockNode s' = n + 1 \<and>
     (\<exists>b. node s' n = (newNode t m i b s)\<lparr>mBeGrant := False, mCvsLockNode := cur\<rparr>) \<and>
     mTransLockNodes s' = mTransLockNodes s \<and> mTransLockSlots s' = mTransLockSlots s \<and>
     mStatus s' = mStatus s \<and> (\<forall>j. j \<noteq> i \<longrightarrow> item s' j = item s j) \<and>
     item s' i = it\<lparr>mLockRequest := (case cur of None \<Rightarrow> R @ [n] | Some _ \<Rightarrow> n # R),
       mRequestCnt := mRequestCnt it + 1\<rparr> \<and>
     waitsOnly t s s' \<and> (\<exists>xs. rowOk s' t xs \<and>
       set xs = set (slotsOf s ((case cur of None \<Rightarrow> R | Some _ \<Rightarrow> []) @ mLockGrant it)) - {t} \<and>
       (\<forall>x \<in> set xs. idx s' t x = 1)))"

lemma enqueue_run:
  assumes mid: "midInv {t} {} i w s" and heavy: "mItemFlag (item s i) \<noteq> SML_FLAG_LIGHT_MODE"
    and t: "t < mTransCnt s" and row: "rowOk s t []"
  shows "internalEnqueue t i m cur b s = Some (None, s) \<or>
    (\<exists>s'. internalEnqueue t i m cur b s = Some (Some (mNextLockNode s), s') \<and> requested t i m cur s s')"
proof (cases "mLockPoolLeft s = 0")
  case True
  then show ?thesis by (simp add: internalEnqueue_def allocLockNodeAndInit_eq)
next
  case False
  note B = midInvD(1) [OF mid] and M = midBaseD [OF midInvD(1) [OF mid]]
  note H = itemOk_heavyD [OF midInvD(2) [OF mid] heavy]
  let ?n = "mNextLockNode s" and ?R = "mLockRequest (item s i)" and ?G = "mLockGrant (item s i)"
  let ?s1 = "updNode ?n (\<lambda>nd. nd\<lparr>mBeGrant := False\<rparr>) (allocd t m i b s)"
  have N: "mTransCnt s \<le> SML_END_ITEM" using stateOkD(5) [OF M(1)] .
  have old: "x \<noteq> ?n" if "x \<in> set ?R \<union> set ?G" for x
  proof -
    have "x \<in> queuedNodes w s i \<union> heldOn s i"
      using that requestsOkD(2) [OF H(2)] grantsOkD(2) [OF H(1)] by auto
    then have "x < ?n" using midBase_queued [OF B] heldOn_node [OF M(1)] by blast
    then show ?thesis by simp
  qed
  have slots: "slotsOf ?s1 ?R = slotsOf s ?R" using old by auto
  have row1: "rowOk ?s1 t []" using row by (simp add: rowOk_def)
  let ?A = "case cur of None \<Rightarrow> slotsOf s ?R | Some _ \<Rightarrow> []"
  have A: "set ?A \<subseteq> {..<mTransCnt s}" "distinct ?A"
    using requests_slots [OF B H(2)] by (auto split: option.split)
  define sA where "sA = updNode ?n (\<lambda>nd. nd\<lparr>mCvsLockNode := cur\<rparr>) ?s1"
  define sR where "sR = registTblLockWaitListByGrant t ?A sA"
  define s2 where "s2 = updLockItem i (\<lambda>it. it\<lparr>mLockRequest :=
      (case cur of None \<Rightarrow> mLockRequest it @ [?n] | Some _ \<Rightarrow> ?n # mLockRequest it)\<rparr>)
    sR"
  have rowA: "rowOk sA t []" "mTransCnt sA = mTransCnt s" using row1 by (simp_all add: sA_def)
  note R1 = register_row [OF rowA(1), of ?A]
  from R1(1) obtain xs where xs: "rowOk s2 t xs" "set xs = set ?A - {t}" "\<forall>x \<in> set xs. idx s2 t x = 1"
    using A(1) N rowA(2) unfolding s2_def sR_def by auto
  have more: "waitState.more sR = waitState.more sA" and W1: "waitsOnly t sA sR"
    using R1(2) A(1) N rowA(2) onlyRow_waitsOnly unfolding sR_def by (auto simp: onlyRow_def)
  note E1 = more_lock [OF more]
  have sel2: "mLockNodes s2 = mLockNodes sA" "mTransLockNodes s2 = mTransLockNodes s"
    "mTransLockSlots s2 = mTransLockSlots s" "mStatus s2 = mStatus s" "mNextLockNode s2 = ?n + 1"
    "\<And>j. j \<noteq> i \<Longrightarrow> item s2 j = item s j" "mTransCnt s2 = mTransCnt s" "waitsOnly t s s2"
    "item s2 i = (item s i)\<lparr>mLockRequest := (case cur of None \<Rightarrow> ?R @ [?n] | Some _ \<Rightarrow> ?n # ?R)\<rparr>"
  proof -
    have "sameWaits s sA" by (simp add: sA_def)
    then have "waitsOnly t s sR"
      using waitsOnly_trans [OF sameWaits_only W1] by blast
    then have "waitsOnly t s s2" by (simp add: s2_def)
    then show "waitsOnly t s s2" "mTransCnt s2 = mTransCnt s" by (simp_all add: waitsOnly_def)
  qed (simp_all add: s2_def E1 cong: option.case_cong, simp_all add: sA_def cong: option.case_cong)
  define s3 where "s3 = registTblLockWaitListByGrant t (slotsOf s ?G) s2"
  define s' where "s' = updLockItem i (\<lambda>it. it\<lparr>mRequestCnt := mRequestCnt it + 1\<rparr>) s3"
  have "set (slotsOf s ?G) \<subseteq> {..<mTransCnt s2}" using grants_slots [OF M(1) H(1)] sel2(7) by simp
  note R2 = register_row [OF xs(1) this, folded s3_def]
  obtain ys where ys: "rowOk s3 t ys" "set ys = set xs \<union> (set (slotsOf s ?G) - {t})" "\<forall>y \<in> set ys. idx s3 t y = 1"
    using R2(1) xs(3) N sel2(7) by auto
  have only3: "onlyRow t s2 s3" using R2(2) xs(3) N sel2(7) by auto
  then have more3: "waitState.more s3 = waitState.more s2" by (simp add: onlyRow_def)
  note E3 = more_lock [OF more3]
  have "internalEnqueue t i m cur b s = Some (Some ?n, s')"
  proof -
    have grants: "slotsOf s2 (mLockGrant (item s2 i)) = slotsOf s ?G" using old by (auto simp: sel2(1,9) sA_def)
    have end2: "Some (Some ?n, updLockItem i (\<lambda>it. it\<lparr>mRequestCnt := mRequestCnt it + 1\<rparr>)
        (registTblLockWaitListByGrant t (slotsOf s2 (mLockGrant (item s2 i))) s2)) = Some (Some ?n, s')"
      by (simp only: s'_def s3_def grants)
    have items1: "mLockItems ?s1 = mLockItems s" by simp
    show ?thesis
    proof (cases cur)
      case None
      have reg: "registTblLockWaitListByReq t (slotsOf s ?R) ?s1 =
          Some (registTblLockWaitListByGrant t (slotsOf s ?R) ?s1)"
        using registByReq_ByGrant [OF row1, of "slotsOf s ?R"] A N None by simp
      have "sA = ?s1" unfolding sA_def None by (rule updNode_cvs_None) simp
      then have "s2 = updLockItem i (\<lambda>it. it\<lparr>mLockRequest := mLockRequest it @ [?n]\<rparr>)
          (registTblLockWaitListByGrant t (slotsOf s ?R) ?s1)"
        unfolding s2_def sR_def by (simp only: None option.case)
      then show ?thesis
        using False end2 unfolding internalEnqueue_def allocLockNodeAndInit_eq None items1 Let_def
        by (simp only: if_False option.case prod.case slots reg items1 bind.bind_lunit)
    next
      case (Some c)
      have "s2 = updLockItem i (\<lambda>it. it\<lparr>mLockRequest := ?n # mLockRequest it\<rparr>)
          (updNode ?n (\<lambda>nd. nd\<lparr>mCvsLockNode := Some c\<rparr>) ?s1)"
        unfolding s2_def sR_def sA_def by (simp only: Some option.case registTblLockWaitListByGrant.simps)
      then show ?thesis
        using False end2 unfolding internalEnqueue_def allocLockNodeAndInit_eq Some Let_def
        by (simp only: if_False option.case prod.case bind.bind_lunit)
    qed
  qed
  moreover have "requested t i m cur s s'"
  proof -
    have "waitsOnly t s s'"
      using waitsOnly_trans [OF sel2(8) onlyRow_waitsOnly [OF only3]] by (simp add: s'_def)
    moreover have "rowOk s' t ys" using ys(1) by (simp add: s'_def)
    moreover have "set ys = set (slotsOf s ((case cur of None \<Rightarrow> ?R | Some _ \<Rightarrow> []) @ ?G)) - {t}"
      using ys(2) xs(2) by (cases cur) auto
    moreover have "node s' ?n = (newNode t m i b s)\<lparr>mBeGrant := False, mCvsLockNode := cur\<rparr>"
      by (simp add: s'_def E3 sel2(1) sA_def)
    ultimately show ?thesis
      using ys(3) by (auto simp: requested_def Let_def s'_def E3 sel2 sA_def)
  qed
  ultimately show ?thesis by blast
qed


lemma requestedD:
  assumes "requested t i m cur s s'"
  shows "x \<noteq> mNextLockNode s \<Longrightarrow> node s' x = node s x" "mNextLockNode s' = mNextLockNode s + 1"
    "mTransLockNodes s' = mTransLockNodes s" "mTransLockSlots s' = mTransLockSlots s"
    "mStatus s' = mStatus s" "j \<noteq> i \<Longrightarrow> item s' j = item s j"
    "item s' i = (item s i)\<lparr>mLockRequest := (case cur of None \<Rightarrow> mLockRequest (item s i) @ [mNextLockNode s]
       | Some _ \<Rightarrow> mNextLockNode s # mLockRequest (item s i)), mRequestCnt := mRequestCnt (item s i) + 1\<rparr>"
    "waitsOnly t s s'" "mTransCnt s' = mTransCnt s"
    "mSlotID (node s' (mNextLockNode s)) = t" "mLockItem (node s' (mNextLockNode s)) = i"
    "mLockMode (node s' (mNextLockNode s)) = m" "mNodeFlag (node s' (mNextLockNode s)) = mLockModeToMask m"
    "mLockSequence (node s' (mNextLockNode s)) = (\<lambda>_. 0)" "\<not> mBeGrant (node s' (mNextLockNode s))"
    "\<not> mDoRemove (node s' (mNextLockNode s))" "mCvsLockNode (node s' (mNextLockNode s)) = cur"
proof -
  obtain b where n: "node s' (mNextLockNode s) = (newNode t m i b s)\<lparr>mBeGrant := False, mCvsLockNode := cur\<rparr>"
    using assms unfolding requested_def Let_def by blast
  show "mSlotID (node s' (mNextLockNode s)) = t" "mLockItem (node s' (mNextLockNode s)) = i"
    "mLockMode (node s' (mNextLockNode s)) = m" "mNodeFlag (node s' (mNextLockNode s)) = mLockModeToMask m"
    "mLockSequence (node s' (mNextLockNode s)) = (\<lambda>_. 0)" "\<not> mBeGrant (node s' (mNextLockNode s))"
    "\<not> mDoRemove (node s' (mNextLockNode s))" "mCvsLockNode (node s' (mNextLockNode s)) = cur"
    by (simp_all add: n)
qed (use assms in \<open>auto simp: requested_def Let_def waitsOnly_def\<close>)

lemma enqueue_ok:
  assumes mid: "midInv {t} {} i w s" and stuck: "headStuck s i" and t: "t < mTransCnt s"
    and heavy: "mItemFlag (item s i) \<noteq> SML_FLAG_LIGHT_MODE" and m: "m \<noteq> SML_NLOCK"
    and cur: "curOk t i m cur s" and slots: "slotsOk (\<lambda>_. {}) s t" and req: "requested t i m cur s s1"
    and conflict: "\<not> (compatible (mGrantLockMode (item s i)) m \<and> (cur \<noteq> None \<or> mRequestCnt (item s i) = 0))"
      "\<not> (mGrantCnt (item s i) = 1 \<and> cur \<noteq> None)"
  defines "n \<equiv> mNextLockNode s"
  defines "w' \<equiv> w(t := TxWaiting i m n (case cur of None \<Rightarrow> n | Some c \<Rightarrow> c) False)"
    and "s' \<equiv> waitForLock_block t s1"
  shows "lockInv w' s'" "others t s s'"
proof -
  note B = midInvD(1) [OF mid] and M = midBaseD [OF midInvD(1) [OF mid]]
  note H = itemOk_heavyD [OF midInvD(2) [OF mid] heavy]
  note G = grantsOkD [OF H(1)] and Q = requestsOkD [OF H(2)] and R = requestedD [OF req, folded n_def]
  let ?R = "mLockRequest (item s i)" and ?G = "mLockGrant (item s i)"
  obtain xs where xs: "rowOk s1 t xs" "set xs = set (slotsOf s ((case cur of None \<Rightarrow> ?R | Some _ \<Rightarrow> []) @ ?G)) - {t}"
    "\<forall>x \<in> set xs. idx s1 t x = 1" using req by (auto simp: requested_def Let_def)
  have sel: "mLockNodes s' = mLockNodes s1" "mTransLockNodes s' = mTransLockNodes s"
    "mTransLockSlots s' = mTransLockSlots s" "mStatus s' = (mStatus s)(t := SMX_TX_BLOCKED)"
    "mNextLockNode s' = n + 1" "mLockItems s' = mLockItems s1" "mTransCnt s' = mTransCnt s"
    "waitsOnly t s s'" "idx s' = idx s1"
    by (simp_all add: s'_def waitForLock_block_def R(2-5,8,9) fun_eq_iff)
  have old: "x \<noteq> n" if "x \<in> set (mTransLockNodes s u)" for u x
  proof (cases "u < mTransCnt s")
    case True
    then show ?thesis using nodesOkD(1) [OF stateOkD(4) [OF M(1) True] that] by (simp add: n_def)
  qed (use stateOkD(3) [OF M(1), of u] that in simp)
  have oldq: "x \<noteq> n" if "x \<in> queuedNodes w s i" for x
    using midBase_queued [OF B that] unfolding n_def by (metis less_irrefl)
  have oldG: "x \<noteq> n" if "x \<in> set ?G" for x
    using that G(2) old by (auto simp: heldOn_def heldBy_def)
  have held: "heldBy s' j u = heldBy s j u" for j u
    using old R(1) by (auto simp: heldBy_def sel(1,2))
  have heldOn: "heldOn s' j = heldOn s j" for j by (simp add: heldOn_def held sel(7))
  have q: "queuedOn w' s' j u x \<longleftrightarrow> (if u = t then j = i \<and> x = n else queuedOn w s j u x)" for j u x
    by (auto simp: queuedOn_def w'_def sel(4))
  have qn: "queuedNodes w' s' i = insert n (queuedNodes w s i)"
  proof -
    have "(\<exists>u < mTransCnt s. queuedOn w' s' i u x) \<longleftrightarrow> x = n \<or> (\<exists>u < mTransCnt s. queuedOn w s i u x)" for x
      using M(2) [of t i x] t unfolding q by (metis singletonI)
    then show ?thesis by (auto simp: queuedNodes_def sel(7))
  qed
  have wo: "w' u = w u" if "u \<noteq> t" for u using that by (simp add: w'_def)
  have on: "onlyOn {t} i w s w' s'"
    by (rule onlyOn_single [OF sel(8)])
      (use R(1,6) [folded n_def] M(2) wo in \<open>auto simp: sel held q\<close>, simp_all add: n_def)
  show "others t s s'" by (rule onlyOn_others [OF on])
  have nodes: "nodesOk s' t"
  proof -
    have "node s' x = node s x" if "x \<in> set (mTransLockNodes s t)" for x
      using R(1) old [OF that] by (simp add: sel(1))
    then have "map (\<lambda>n. mLockItem (node s' n)) (mTransLockNodes s t) = map (\<lambda>n. mLockItem (node s n)) (mTransLockNodes s t)"
      and "\<forall>x \<in> set (mTransLockNodes s t). heldNodeOk s t x \<longrightarrow> heldNodeOk s' t x"
      by (auto simp: heldNodeOk_def sel(5) n_def)
    then show ?thesis
      using stateOkD(4) [OF M(1) t] unfolding nodesOk_def sel(2) by metis
  qed
  have row: "rowOk s' t xs" "\<forall>x \<in> set xs. idx s' t x = 1" "t \<notin> set xs"
    using xs by (simp_all add: s'_def waitForLock_block_def)
  have nH: "n \<notin> set (mTransLockNodes s t)" using old by blast
  have tx: "txOk w' s' t"
  proof -
    have reqn: "requestNode s' t i m n"
      using R(10-15) nH by (simp add: requestNode_def sel)
    have "waitingOk s' t i m n (case cur of None \<Rightarrow> n | Some c \<Rightarrow> c)"
    proof (cases cur)
      case None
      then show ?thesis
        using cur m reqn R(11,14,16,17) by (simp add: waitingOk_def curOk_def held sel(1,4))
    next
      case (Some c)
      then have c: "c \<in> heldBy s i t" "mLockSequence (node s c) m = 0" using cur by (simp_all add: curOk_def)
      then have "c \<noteq> n" using nH by (auto simp: heldBy_def)
      then show ?thesis
        using Some c m reqn R(1,16,17) by (simp add: waitingOk_def held sel(1,4))
    qed
    moreover have "slotsOk (\<lambda>_. {}) s' t"
      by (rule slotsOk_mono [OF slots]) (use R(1) old in \<open>simp_all add: sel\<close>)
    then have "slotsOk (pendingSlot (w' t)) s' t"
      by (rule slotsOk_pending) (use nH in \<open>auto simp: w'_def sel(2)\<close>)
    ultimately show ?thesis by (simp add: txOk_def phaseOk_def w'_def)
  qed
  have "rowPhase w' s' t" using row by (auto simp: rowPhase_def w'_def sel(4))
  then have "midBase {} {} i w' s'"
    by (intro midBase_step [OF B on]) (use t nodes row tx in auto)
  moreover have it: "mItemFlag (item s' i) \<noteq> SML_FLAG_LIGHT_MODE" "mLockGrant (item s' i) = ?G"
    "mGrantCnt (item s' i) = mGrantCnt (item s i)" "mGrantLockMode (item s' i) = mGrantLockMode (item s i)"
    "mLockRequest (item s' i) = (case cur of None \<Rightarrow> ?R @ [n] | Some _ \<Rightarrow> n # ?R)"
    using heavy by (simp_all add: sel(6) R(7))
  moreover have "itemOk {} w' s' i"
  proof (rule itemOk_heavyI [OF it(1)])
    have modes: "mLockMode (node s' x) = mLockMode (node s x)" if "x \<in> set ?G" for x
      using oldG [OF that] R(1) by (simp add: sel(1))
    then have "modesOf s' ?G = modesOf s ?G" by (intro modesOf_cong)
    then show "grantsOk {} s' i"
      using G modes it by (intro grantsOkI) (auto simp: heldOn compatibleNodes_def sel(6) R(7) simp del: set_image_mset)
    have "n \<notin> set ?R" using Q(2) oldq by blast
    then show "requestsOk w' s' i"
      using Q by (auto simp: requestsOk_def Let_def qn it(5) sel(6) R(7) split: option.splits)
    show "waitsRecorded w' s' i"
      unfolding waitsRecorded_def
    proof (intro allI impI ballI)
      fix u x v assume u: "u < mTransCnt s'" "queuedOn w' s' i u x" and v: "v \<in> blockers s' i u x"
      have slotG: "mSlotID (node s' y) = mSlotID (node s y)" if "y \<in> set ?G \<union> set ?R" for y
        using that oldG Q(2) oldq R(1) by (metis UnE sel(1))
      show "idx s' u v = 1"
      proof (cases "u = t")
        case True
        then have x: "x = n" using u(2) by (simp add: q)
        have "takeWhile (\<lambda>r. r \<noteq> n) (?R @ [n]) = ?R" using \<open>n \<notin> set ?R\<close> by (subst takeWhile_append2) auto
        then have "v \<in> set xs"
          using v x True slotG xs(2) by (cases cur) (auto simp: blockers_def it(2,5))
        then show ?thesis using row(2) True by simp
      next
        case False
        then have qu: "u < mTransCnt s" "queuedOn w s i u x" using u by (simp_all add: q sel(7))
        then have xR: "x \<in> set ?R" using Q(2) by (auto simp: queuedNodes_def)
        have "v \<in> blockers s i u x"
        proof (cases cur)
          case None
          have "takeWhile (\<lambda>r. r \<noteq> x) (?R @ [n]) = takeWhile (\<lambda>r. r \<noteq> x) ?R" using xR by (intro takeWhile_append1) auto
          then show ?thesis
            using v slotG set_takeWhileD [of _ "\<lambda>r. r \<noteq> x" ?R] None by (fastforce simp: blockers_def it(2,5))
        next
          case (Some c)
          then have c: "c \<in> heldBy s i t" using cur by (simp add: curOk_def)
          then have "c \<in> set ?G" using G(2) t by (auto simp: heldOn_def)
          moreover have "mSlotID (node s c) = t"
            using nodesOkD(2) [OF stateOkD(4) [OF M(1) t]] c by (auto simp: heldBy_def)
          ultimately have tG: "t \<in> set (slotsOf s ?G)" by force
          have "n \<noteq> x" using xR \<open>n \<notin> set ?R\<close> by blast
          then have "v = t \<or> v \<in> blockers s i u x"
            using v slotG set_takeWhileD [of _ "\<lambda>r. r \<noteq> x" ?R] Some R(10)
            by (fastforce simp: blockers_def it(2,5) sel(1))
          then show ?thesis using tG False by (auto simp: blockers_def)
        qed
        then have "idx s u v = 1" using H(3) qu by (simp add: waitsRecorded_def)
        moreover have "idx s' u v = idx s u v" using sel(8) False by (simp add: waitsOnly_def)
        ultimately show ?thesis by simp
      qed
    qed
  qed
  moreover have "headStuck s' i"
  proof (cases "\<exists>a rest. ?R = a # rest \<and> cur = None")
    case True
    then obtain a rest where a: "?R = a # rest" "cur = None" by blast
    then have "a \<in> queuedNodes w s i" using Q(2) by auto
    then have "node s' a = node s a" using oldq [of a] R(1) by (simp add: sel(1))
    then show ?thesis using stuck a it by (simp add: headStuck_def)
  next
    case False
    then have h: "\<exists>rest. mLockRequest (item s' i) = n # rest" and "cur \<noteq> None \<or> ?R = []"
      using it(5) by (cases cur; cases ?R; simp)+
    then have "\<not> compatible (mGrantLockMode (item s i)) m" using conflict(1) Q(3) by auto
    then show ?thesis
      using h conflict(2) it(3,4) R(12,17) compatible_sym by (auto simp: headStuck_def sel(1))
  qed
  ultimately show "lockInv w' s'" by (simp add: lockInv_mid [of w' s' i] midInv_def)
qed


subsection \<open>A whole request\<close>

lemma pendingSlot_running: "pendingSlot TxRunning = (\<lambda>_. {})"
  by (simp add: fun_eq_iff)

lemma lockInv_out:
  assumes "lockInv w s" "t < mTransCnt s" "w t = TxRunning \<or> w t = TxEnding"
  shows "midInv {t} {} i w s" "headStuck s i" "mStatus s t = SMX_TX_BEGIN" "rowOk s t []"
    "w t = TxRunning \<Longrightarrow> slotsOk (\<lambda>_. {}) s t"
proof -
  note inv = assms(1) [unfolded lockInv_mid [of w s i]]
  have "midBase (insert t {}) {} i w s"
    by (rule midBase_out [OF midInvD(1) [OF conjunct1 [OF inv]] queued_end]) (use assms(3) in blast)
  then show "midInv {t} {} i w s" "headStuck s i" using inv by (simp_all add: midInv_def)
  have "txOk w s t" "rowPhase w s t" using assms(1,2) by (simp_all add: lockInv_def)
  then show "mStatus s t = SMX_TX_BEGIN" "rowOk s t []" "w t = TxRunning \<Longrightarrow> slotsOk (\<lambda>_. {}) s t"
    using assms(3) pendingSlot_running by (auto simp: txOk_def phaseOk_def rowPhase_def)
qed

text \<open>What a finished call promises.\<close>

definition outcomeOk ::
  "phases \<Rightarrow> slot_id \<Rightarrow> item_id \<Rightarrow> smlLockMode \<Rightarrow> lockState \<Rightarrow> lockOutcome \<Rightarrow> lockState \<Rightarrow> bool" where
  "outcomeOk w t i m s out s' \<longleftrightarrow> mTransCnt s' = mTransCnt s \<and> others t s s' \<and> (case out of
     LockSuccess cm sl \<Rightarrow> lockInv w s' \<and>
       (\<exists>c. sl = Some (c, m) \<and> mTransLockSlots s' t = mTransLockSlots s t @ [(c, m)] \<and> mLockItem (node s' c) = i)
   | LockFailure e \<Rightarrow> lockInv w s' \<and> mTransLockSlots s' t = mTransLockSlots s t
   | LockMustWait n c \<Rightarrow> mTransLockSlots s' t = mTransLockSlots s t \<and> lockInv (w(t := TxWaiting i m n c False)) s' \<and> mStatus s' t = SMX_TX_BLOCKED \<and>
       n = mNextLockNode s \<and> (\<forall>x < mTransCnt s. nxt s' t x \<noteq> ID_USHORT_MAX \<longrightarrow> idx s' t x = 1))"

text \<open>The same just before the transaction of a queued request is blocked.\<close>

definition beforeSleep :: "slot_id \<Rightarrow> lockOutcome \<Rightarrow> lockState \<Rightarrow> lockState" where
  "beforeSleep t out s = (case out of LockMustWait n c \<Rightarrow> waitForLock_block t s | _ \<Rightarrow> s)"

lemma beforeSleep_simps [simp]:
  "beforeSleep t (LockSuccess cm sl) s = s" "beforeSleep t (LockFailure e) s = s"
  "beforeSleep t (LockMustWait n c) s = waitForLock_block t s"
  by (simp_all add: beforeSleep_def)

lemma failure_outcome:
  assumes mid: "midInv {t} {} i w s" and stuck: "headStuck s i" and t: "t < mTransCnt s"
    and w: "w t = TxRunning" and st: "mStatus s t = SMX_TX_BEGIN" and slots: "slotsOk (\<lambda>_. {}) s t"
    and N: "mTransCnt s = mTransCnt s0" "others t s0 s" "mTransLockSlots s t = mTransLockSlots s0 t"
  shows "\<exists>s'. internalFailure t e s = Some (LockFailure e, s') \<and> outcomeOk w t i m s0 (LockFailure e) s'"
proof -
  obtain s' where s': "clearWaitItemColsOfTrans True t s = Some s'" "lockInv w s'" "mTransCnt s' = mTransCnt s"
    "others t s s'" and more: "waitState.more s' = waitState.more s"
    using clear_back [OF mid stuck t w st slots] by blast
  show ?thesis
    using s' N(1,3) others_trans [OF N(2) s'(4)] more_lock(4) [OF more] by (simp add: internalFailure_def outcomeOk_def)
qed

lemma success_outcome:
  assumes mid: "midInv {t} {} i w s1" and stuck: "headStuck s1 i" and got: "acquired t i m c s s1"
    and t: "t < mTransCnt s" and w: "w t = TxRunning" and st: "mStatus s t = SMX_TX_BEGIN"
    and row: "rowOk s t []" and m: "m \<noteq> SML_NLOCK" and room: "slotLeft t s" and N: "mTransCnt s = mTransCnt s0" "others t s0 s" "mTransLockSlots s t = mTransLockSlots s0 t"
  shows "\<exists>cm s'. internalSuccess t m c s1 = Some (LockSuccess cm (Some (c, m)), s') \<and>
    outcomeOk w t i m s0 (LockSuccess cm (Some (c, m))) s'"
proof -
  obtain P where P: "slotsOk P s1 t" "P c \<subseteq> {m}" "\<And>x. x \<noteq> c \<Longrightarrow> P x = {}" and c: "c \<in> heldBy s1 i t"
    "mLockSequence (node s1 c) m = 0" "m \<le> mLockMode (node s1 c)" and st1: "mStatus s1 t = SMX_TX_BEGIN"
    and W: "sameWaits s s1" and room1: "slotLeft t s1" and o1: "others t s s1"
    and sl: "mTransLockSlots s1 t = mTransLockSlots s t"
    using got st room by (auto simp: acquired_def)
  have t1: "t < mTransCnt s1" and N1: "mTransCnt s1 = mTransCnt s" and row1: "rowOk s1 t []"
    using sameWaitsD [OF W] t row by simp_all
  from success_ok [OF mid stuck t1 w st1 row1 c(1,2) m c(3) P room1] obtain s' where s':
    "internalSuccess t m c s1 = Some (LockSuccess (Some (mLockMode (node s1 c))) (Some (c, m)), s')"
    "lockInv w s'" "mTransCnt s' = mTransCnt s1" "mTransLockSlots s' t = mTransLockSlots s1 t @ [(c, m)]" "others t s1 s'" by blast
  have "mLockItem (node s' c) = i"
    using s'(1) c(1) by (auto simp: internalSuccess_def setLockModeAndAddLockSlot_def addLockSlot_def
        heldBy_def Let_def bind_eq_Some_conv)
  then show ?thesis
    using s' N(1,3) N1 sl others_trans [OF N(2) others_trans [OF o1 s'(5)]] by (auto simp: outcomeOk_def)
qed

lemma granted_outcome:
  assumes r: "case r of None \<Rightarrow> s1 = s | Some c \<Rightarrow> midInv {t} {} i w s1 \<and> headStuck s1 i \<and> acquired t i m c s s1"
    and mid: "midInv {t} {} i w s" and stuck: "headStuck s i" and t: "t < mTransCnt s"
    and w: "w t = TxRunning" and st: "mStatus s t = SMX_TX_BEGIN" and row: "rowOk s t []"
    and slots: "slotsOk (\<lambda>_. {}) s t" and m: "m \<noteq> SML_NLOCK" and room: "slotLeft t s" and N: "mTransCnt s = mTransCnt s0" "others t s0 s" "mTransLockSlots s t = mTransLockSlots s0 t"
  shows "\<exists>out s'. grantedOrFailure t m (r, s1) = Some (out, s') \<and> outcomeOk w t i m s0 out (beforeSleep t out s')"
proof (cases r)
  case None
  then show ?thesis
    using failure_outcome [OF mid stuck t w st slots N, of insufficient_memory m] r
    by (auto simp: grantedOrFailure_def intro!: exI [of _ "LockFailure insufficient_memory"])
next
  case (Some c)
  then show ?thesis
    using success_outcome [of t i w s1 m c s, OF _ _ _ t w st row m room N] r
    by (fastforce simp: grantedOrFailure_def)
qed

text \<open>The state a request works on: the caller has taken its transaction out.\<close>

lemma conflict_outcome:
  assumes mid: "midInv {t} {} i w s" and stuck: "headStuck s i" and t: "t < mTransCnt s"
    and w: "w t = TxRunning" and st: "mStatus s t = SMX_TX_BEGIN" and row: "rowOk s t []"
    and slots: "slotsOk (\<lambda>_. {}) s t" and m: "m \<noteq> SML_NLOCK" and room: "slotLeft t s" and N: "mTransCnt s = mTransCnt s0" "others t s0 s" "mTransLockSlots s t = mTransLockSlots s0 t"
      "mNextLockNode s = mNextLockNode s0"
    and heavy: "mItemFlag (item s i) \<noteq> SML_FLAG_LIGHT_MODE" and cur: "curOk t i m cur s"
    and conflict: "\<not> (compatible (mGrantLockMode (item s i)) m \<and> (cur \<noteq> None \<or> mRequestCnt (item s i) = 0))"
    and light: "d \<Longrightarrow> lightMode (mGrantLockMode (item s i)) \<and> mLockRequest (item s i) = []"
  shows "\<exists>out s1. internalConflict t i m cw cur b d s = Some (out, s1) \<and> outcomeOk w t i m s0 out (beforeSleep t out s1)"
proof (cases "mGrantCnt (item s i) = 1 \<and> cur \<noteq> None")
  case True
  then obtain c where c: "cur = Some c" "c \<in> heldBy s i t" "mLockSequence (node s c) m = 0" "mGrantCnt (item s i) = 1"
    using cur by (auto simp: curOk_def)
  from internalConvert_ok [OF mid stuck t heavy c(2,3) slots c(4)] obtain s1 where s1:
    "internalConvert i m c s = Some s1" "midInv {t} {} i w s1" "headStuck s1 i" "acquired t i m c s s1" by blast
  from success_outcome [OF s1(2-4) t w st row m room N(1-3)] s1(1) c show ?thesis
    by (fastforce simp: internalConflict_def)
next
  case False
  then have run: "internalConflict t i m cw cur b d s = (if cw then do {
        (got, s1) \<leftarrow> internalEnqueue t i m cur b s;
        case got of None \<Rightarrow> internalFailure t insufficient_memory s1
        | Some n \<Rightarrow> Some (LockMustWait n (case cur of Some c \<Rightarrow> c | None \<Rightarrow> n), s1)
      } else do {
        s1 \<leftarrow> (if d then toLightMode i s else Some s);
        internalFailure t smERR_ABORT_smcExceedLockTimeWait s1 })"
    unfolding internalConflict_def by (simp only: if_False)
  have fails: "\<exists>out s2. internalFailure t e s = Some (out, s2) \<and> outcomeOk w t i m s0 out (beforeSleep t out s2)" for e
    using failure_outcome [OF mid stuck t w st slots N(1-3), of e m] by (auto intro!: exI [of _ "LockFailure e"])
  show ?thesis
  proof (cases cw)
    case True
    from enqueue_run [OF mid heavy t row, of m cur b] show ?thesis
    proof (elim disjE exE conjE)
      assume "internalEnqueue t i m cur b s = Some (None, s)"
      then show ?thesis using run True fails by simp
    next
      fix s1 assume s1: "internalEnqueue t i m cur b s = Some (Some (mNextLockNode s), s1)" "requested t i m cur s s1"
      note inv = enqueue_ok [OF mid stuck t heavy m cur slots s1(2) conflict False]
      obtain xs where "rowOk s1 t xs" "\<forall>x \<in> set xs. idx s1 t x = 1"
        using s1(2) by (auto simp: requested_def Let_def)
      then have "x < mTransCnt s1 \<Longrightarrow> nxt s1 t x \<noteq> ID_USHORT_MAX \<Longrightarrow> idx s1 t x = 1" for x
        by (cases "x \<in> set xs") (auto simp: rowOk_def)
      then have "outcomeOk w t i m s0 (LockMustWait (mNextLockNode s) (case cur of Some c \<Rightarrow> c | None \<Rightarrow> mNextLockNode s))
          (waitForLock_block t s1)"
        using inv requestedD(4,9) [OF s1(2)] N others_trans [OF N(2) inv(2)]
        by (simp add: outcomeOk_def waitForLock_block_def)
      then show ?thesis using run True s1(1) by (auto intro!: exI [of _ "LockMustWait _ _"])
    qed
  next
    case False
    show ?thesis
    proof (cases d)
      case True
      from toLightMode_ok [OF mid heavy] light [OF True] obtain s1 where s1:
        "toLightMode i s = Some s1" "midInv {t} {} i w s1" "headStuck s1 i" "keeps t s s1" by auto
      have o1: "others t s0 s1"
        using others_trans [OF N(2) toLightMode_others [OF mid heavy _ _ s1(1)]] light [OF True] by simp
      note K = keepsD [OF s1(4)]
      have "slotsOk (\<lambda>_. {}) s1 t"
        by (rule slotsOk_mono [OF slots])
          (use K(4-6) nodesOkD(1,2) [OF stateOkD(4) [OF midBaseD(1) [OF midInvD(1) [OF mid]] t]] in simp_all)
      then show ?thesis
        using failure_outcome [OF s1(2,3) _ w, of s0 smERR_ABORT_smcExceedLockTimeWait m] K(1,3,5) t st N(1,3) o1
          run False True s1(1) by (auto intro!: exI [of _ "LockFailure _"])
    next
      case False
      then show ?thesis using run \<open>\<not> cw\<close> fails by simp
    qed
  qed
qed

theorem request_ok:
  assumes inv: "lockInv w s" and t: "t < mTransCnt s" and w: "w t = TxRunning" and m: "m \<noteq> SML_NLOCK"
    and cur: "curOk t i m cur s" and room: "slotLeft t s"
  shows "\<exists>out s'. lockTable_request t i m cw cur b s = Some (out, s') \<and> outcomeOk w t i m s out s'"
proof -
  note mid = lockInv_out(1) [OF inv t disjI1 [OF w], of i] and stuck = lockInv_out(2) [OF inv t disjI1 [OF w], of i]
    and st = lockInv_out(3) [OF inv t disjI1 [OF w]] and row = lockInv_out(4) [OF inv t disjI1 [OF w]]
    and slots = lockInv_out(5) [OF inv t disjI1 [OF w] w]
  let ?light = "mItemFlag (item s i) = SML_FLAG_LIGHT_MODE"
  have "\<exists>out s1. lockTableInternal t i m cw cur b s = Some (out, s1) \<and> outcomeOk w t i m s out (beforeSleep t out s1)"
  proof (cases "?light \<and> (m = SML_ISLOCK \<or> m = SML_IXLOCK)")
    case True
    then have "lightMode m" by auto
    from lightGrant_ok [OF mid stuck t _ this cur slots, of b] True obtain r s1 where
      r: "lightGrant t i m cur b s = Some (r, s1)" "case r of None \<Rightarrow> s1 = s
        | Some c \<Rightarrow> midInv {t} {} i w s1 \<and> headStuck s1 i \<and> acquired t i m c s s1"
      by (auto split: option.splits)
    from granted_outcome [OF r(2) mid stuck t w st row slots m room refl others_refl refl] r(1) True show ?thesis
      by (simp add: lockTableInternal_def)
  next
    case False
    obtain s1 where s1: "(if ?light then toHeavyMode i s else Some s) = Some s1" "midInv {t} {} i w s1"
      "onlyItem i s s1" "mItemFlag (item s1 i) \<noteq> SML_FLAG_LIGHT_MODE" "headStuck s1 i"
      "?light \<Longrightarrow> lightMode (mGrantLockMode (item s1 i)) \<and> mLockRequest (item s1 i) = []"
    proof (cases ?light)
      case True
      from toHeavyMode_ok [OF mid True] obtain s1 where "toHeavyMode i s = Some s1" "midInv {t} {} i w s1"
        "onlyItem i s s1" "mItemFlag (item s1 i) \<noteq> SML_FLAG_LIGHT_MODE" "lightMode (mGrantLockMode (item s1 i))"
        "mLockRequest (item s1 i) = []" by blast
      then show ?thesis using that [of s1] True by (simp add: headStuck_def)
    qed (use that [of s] mid stuck in \<open>simp add: onlyItem_def sameLocks_def\<close>)
    have L: "sameLocks i s s1" and W: "sameWaits s s1" using s1(3) by (simp_all add: onlyItem_def)
    note D = sameLocksD [OF L] and E = sameLocks_eq [OF L]
    have t1: "t < mTransCnt s1" "mStatus s1 t = SMX_TX_BEGIN" "rowOk s1 t []" "mTransCnt s1 = mTransCnt s"
      using t st row sameWaitsD(2) [OF W] by (simp_all add: D)
    have o1: "others t s s1" by (rule onlyItem_others [OF midInvD(1) [OF mid] s1(3)])
    have next1: "mTransLockSlots s1 t = mTransLockSlots s t" "mNextLockNode s1 = mNextLockNode s" by (simp_all add: D)
    have slots1: "slotsOk (\<lambda>_. {}) s1 t" by (rule slotsOk_mono [OF slots]) (simp_all add: D)
    have room1: "slotLeft t s1" by (rule slotLeft_cong [OF room]) (simp_all add: D)
    have cur1: "curOk t i m cur s1" using cur by (simp add: curOk_def E(4) D split: option.splits)
    show ?thesis
    proof (cases "compatible (mGrantLockMode (item s1 i)) m \<and> (cur \<noteq> None \<or> mRequestCnt (item s1 i) = 0)")
      case True
      from internalGrant_ok [OF s1(2,5) t1(1) s1(4) cur1 slots1, of b] True obtain r s2 where
        r: "internalGrant t i m cur b s1 = Some (r, s2)" "case r of None \<Rightarrow> s2 = s1
          | Some c \<Rightarrow> midInv {t} {} i w s2 \<and> headStuck s2 i \<and> acquired t i m c s1 s2" by blast
      have "lockTableInternal t i m cw cur b s = grantedOrFailure t m (r, s2)"
        using s1(1) r(1) True \<open>\<not> (?light \<and> _)\<close> unfolding lockTableInternal_def Let_def
        by (simp only: if_False if_True bind.bind_lunit simp_thms)
      then show ?thesis
        using granted_outcome [OF r(2) s1(2,5) t1(1) w t1(2,3) slots1 m room1 t1(4) o1 next1(1)] by simp
    next
      case False
      from conflict_outcome [OF s1(2,5) t1(1) w t1(2,3) slots1 m room1 t1(4) o1 next1 s1(4) cur1 False, of ?light cw b] s1(6)
      obtain out s2 where out: "internalConflict t i m cw cur b ?light s1 = Some (out, s2)"
        "outcomeOk w t i m s out (beforeSleep t out s2)" by blast
      then have "lockTableInternal t i m cw cur b s = Some (out, s2)"
        using s1(1) False \<open>\<not> (?light \<and> _)\<close> unfolding lockTableInternal_def Let_def by (simp only: if_False bind.bind_lunit)
      then show ?thesis using out(2) by blast
    qed
  qed
  then obtain out s1 where "lockTableInternal t i m cw cur b s = Some (out, s1)"
    "outcomeOk w t i m s out (beforeSleep t out s1)" by blast
  then show ?thesis
    by (cases out) (auto simp: lockTable_request_def)
qed


text \<open>\<open>lockTable\<close> itself: the lock is held already, or taken in light mode, or left to
  \<open>lockTableInternal\<close> with the node found.\<close>

lemma curOk_find:
  assumes held: "heldBy s i t = (case cur of None \<Rightarrow> {} | Some n \<Rightarrow> {n})" and slots: "slotsOk (\<lambda>_. {}) s t"
    and need: "\<not> (case cur of Some c \<Rightarrow> alreadyLocked c m s | None \<Rightarrow> False)"
  shows "curOk t i m cur s"
proof (cases cur)
  case (Some c)
  then have c: "c \<in> heldBy s i t" using held by simp
  have "mLockSequence (node s c) m = 0"
  proof (rule ccontr)
    assume q: "mLockSequence (node s c) m \<noteq> 0"
    have cH: "c \<in> set (mTransLockNodes s t)" using c by (simp add: heldBy_def)
    then have "m \<in> slotModes s t c" using slotsOkD(2) [OF slots] q by simp
    then have "m \<le> lubModes (slotModes s t c)" by (rule lubModes_upper)
    then have "m \<le> mLockMode (node s c)" using slotsOkD(4) [OF slots cH] by simp
    then have "getConversionLockMode (mLockMode (node s c)) m = mLockMode (node s c)"
      by (simp add: conversion_sup sup_absorb1)
    then show False using need q by (simp add: Some alreadyLocked_def split: if_splits)
  qed
  then show ?thesis using c by (simp add: curOk_def Some)
qed (use held in \<open>simp add: curOk_def\<close>)

lemma setLock_mode:
  "setLockModeAndAddLockSlot t cur m b s = Some (cm, sl, s') \<Longrightarrow> mLockMode (node s' x) = mLockMode (node s x)"
  by (auto simp: setLockModeAndAddLockSlot_def addLockSlot_def Let_def bind_eq_Some_conv split: option.splits if_splits)

theorem lockTable_ok:
  assumes inv: "lockInv w s" and t: "t < mTransCnt s" and w: "w t = TxRunning" and m: "m \<noteq> SML_NLOCK"
    and room: "slotLeft t s"
  shows "\<exists>r s'. lockTable props t (Some i) m b s = Some (r, s') \<and> (case r of
      LockDone out \<Rightarrow> lockInv w s' \<and> mTransCnt s' = mTransCnt s \<and> others t s s' \<and>
        (\<exists>cm c. out = LockSuccess cm (Some (c, m)) \<and> mTransLockSlots s' t = mTransLockSlots s t @ [(c, m)] \<and>
           mLockItem (node s' c) = i \<or> (\<exists>cm e. out = LockSuccess cm None \<or> out = LockFailure e) \<and> s' = s)
    | LockInternal cur \<Rightarrow> s' = s \<and> curOk t i m cur s)"
proof (cases "lockEnabled props i s")
  case False
  then show ?thesis using inv by (simp add: lockTable_def)
next
  case True
  note mid = lockInv_out(1) [OF inv t disjI1 [OF w], of i] and stuck = lockInv_out(2) [OF inv t disjI1 [OF w], of i]
    and st = lockInv_out(3) [OF inv t disjI1 [OF w]] and row = lockInv_out(4) [OF inv t disjI1 [OF w]]
    and slots = lockInv_out(5) [OF inv t disjI1 [OF w] w]
  obtain cur where cur: "findLockNode i t s = Some cur" "heldBy s i t = (case cur of None \<Rightarrow> {} | Some n \<Rightarrow> {n})"
    using findLockNode_ok [OF stateOkD(4) [OF midBaseD(1) [OF midInvD(1) [OF mid]] t]] by blast
  let ?have = "case cur of Some c \<Rightarrow> alreadyLocked c m s | None \<Rightarrow> False"
  let ?light = "(m = SML_ISLOCK \<or> m = SML_IXLOCK) \<and> mItemFlag (item s i) = SML_FLAG_LIGHT_MODE"
  show ?thesis
  proof (cases ?have)
    case True
    then show ?thesis using \<open>lockEnabled props i s\<close> cur(1) inv by (simp add: lockTable_def)
  next
    case False
    note curok = curOk_find [OF cur(2) slots False]
    show ?thesis
    proof (cases ?light)
      case False
      have "lockTable props t (Some i) m b s = Some (LockInternal cur, s)"
        using \<open>lockEnabled props i s\<close> cur(1) \<open>\<not> ?have\<close> False unfolding lockTable_def
        by (simp only: option.case if_False bind.bind_lunit simp_thms)
      then show ?thesis using curok by simp
    next
      case light: True
      then have "lightMode m" by auto
      from lightGrant_ok [OF mid stuck t _ this curok slots, of b] light obtain r s1 where
        r: "lightGrant t i m cur b s = Some (r, s1)" "case r of None \<Rightarrow> s1 = s
          | Some c \<Rightarrow> midInv {t} {} i w s1 \<and> headStuck s1 i \<and> acquired t i m c s s1 \<and> lightMode (mLockMode (node s1 c))"
        by blast
      have run: "lockTable props t (Some i) m b s = (case r of None \<Rightarrow> Some (LockDone (LockFailure insufficient_memory), s1)
         | Some n \<Rightarrow> do {
             (curMode, slot, s2) \<leftarrow> setLockModeAndAddLockSlot t (Some n) m True s1;
             ide_assert (mLockMode (node s2 n) \<noteq> SML_XLOCK);
             Some (LockDone (LockSuccess curMode slot), s2) })"
        using \<open>lockEnabled props i s\<close> cur(1) \<open>\<not> ?have\<close> light r(1) unfolding lockTable_def
        by (simp only: option.case if_False if_True bind.bind_lunit simp_thms prod.case)
      show ?thesis
      proof (cases r)
        case None
        then show ?thesis using run r(2) inv by simp
      next
        case (Some c)
        from success_outcome [of t i w s1 m c s s, OF _ _ _ t w st row m room refl others_refl refl] r(2) Some obtain cm s2 where
          s2: "internalSuccess t m c s1 = Some (LockSuccess cm (Some (c, m)), s2)"
          "outcomeOk w t i m s (LockSuccess cm (Some (c, m))) s2" by auto
        then have sl: "setLockModeAndAddLockSlot t (Some c) m True s1 = Some (cm, Some (c, m), s2)"
          by (auto simp: internalSuccess_def bind_eq_Some_conv)
        have "mLockMode (node s2 c) \<noteq> SML_XLOCK"
          using setLock_mode [OF sl, of c] r(2) Some by (auto simp: lightMode_cases)
        then show ?thesis using run Some sl s2(2) by (simp add: outcomeOk_def)
      qed
    qed
  qed
qed

end
