(* ===== verification/LockProtocol.thy ===== *)
theory LockProtocol
  imports LockRequest
begin

text \<open>
  The threads of all transactions together: the steps of \<open>lockTable\<close>, \<open>unlockTable\<close> and
  \<open>waitForLock\<close> between two points where another thread can run, interleaved in any order, and
  the invariant they keep.

  A step is what a thread does under one mutex.  Between \<open>lockTable\<close> and \<open>lockTableInternal\<close>,
  and between \<open>unlockTable\<close> and \<open>unlockTableInternal\<close>, other threads may change the item, so the
  second call is a step of its own that only relies on what the thread found of its own
  transaction.  A transaction that ends releases all its nodes, as \<open>freeAllItemLock\<close> does, and
  has its lists reset by \<open>initTransLockList\<close>.
\<close>

subsection \<open>Steps\<close>

type_synonym config = "phases \<times> lockState"

inductive lockStep ::
  "lockProps \<Rightarrow> (slot_id \<Rightarrow> smxTransDist) \<Rightarrow> slot_id \<Rightarrow> config \<Rightarrow> config \<Rightarrow> bool"
  for props :: lockProps and trs :: "slot_id \<Rightarrow> smxTransDist" and t :: slot_id where
  light: "\<lbrakk>t < mTransCnt s; w t = TxRunning; m \<noteq> SML_NLOCK; slotLeft t s;
    lockTable props t (Some i) m b s = Some (LockDone out, s')\<rbrakk>
    \<Longrightarrow> lockStep props trs t (w, s) (w, s')"
| request: "\<lbrakk>t < mTransCnt s; w t = TxRunning; m \<noteq> SML_NLOCK; slotLeft t s;
    findLockNode i t s = Some cur; \<not> (case cur of Some c \<Rightarrow> alreadyLocked c m s | None \<Rightarrow> False);
    lockTable_request t i m canWait cur b s = Some (out, s');
    w' = (case out of LockMustWait n c \<Rightarrow> w(t := TxWaiting i m n c False) | _ \<Rightarrow> w)\<rbrakk>
    \<Longrightarrow> lockStep props trs t (w, s) (w', s')"
| resume: "\<lbrakk>t < mTransCnt s; w t = TxWaiting i m n c k; mStatus s t \<noteq> SMX_TX_BLOCKED; slotLeft t s;
    lockTable_resume t i m n c s = Some (out, s')\<rbrakk>
    \<Longrightarrow> lockStep props trs t (w, s) (w(t := TxRunning), s')"
| check: "\<lbrakk>t < mTransCnt s; w t = TxWaiting i m n c False; mStatus s t = SMX_TX_BLOCKED;
    waitForLock_check trs t s = Some (False, s')\<rbrakk>
    \<Longrightarrow> lockStep props trs t (w, s) (w(t := TxWaiting i m n c True), s')"
| deadlock: "\<lbrakk>t < mTransCnt s; w t = TxWaiting i m n c False; mStatus s t = SMX_TX_BLOCKED;
    waitForLock_check trs t s = Some (True, s1); lockTable_giveUp t n s1 = Some (out, s')\<rbrakk>
    \<Longrightarrow> lockStep props trs t (w, s) (w(t := TxRunning), s')"
| giveUp: "\<lbrakk>t < mTransCnt s; w t = TxWaiting i m n c k; lockTable_giveUp t n s = Some (out, s')\<rbrakk>
    \<Longrightarrow> lockStep props trs t (w, s) (w(t := TxRunning), s')"
| unlock: "\<lbrakk>t < mTransCnt s; w t = TxRunning; l \<in> set (mTransLockSlots s t);
    unlockTable t None (Some l) s = Some (nx, s')\<rbrakk>
    \<Longrightarrow> lockStep props trs t (w, s) (w, s')"
| unlockInternal: "\<lbrakk>t < mTransCnt s; w t = TxRunning; (n, m) \<in> set (mTransLockSlots s t);
    unlockTableInternal t (mLockItem (node s n)) n (Some (n, m)) True s = Some s'\<rbrakk>
    \<Longrightarrow> lockStep props trs t (w, s) (w, s')"
| end_tx: "\<lbrakk>t < mTransCnt s; w t = TxRunning\<rbrakk> \<Longrightarrow> lockStep props trs t (w, s) (w(t := TxEnding), s)"
| free: "\<lbrakk>t < mTransCnt s; w t = TxEnding; n \<in> set (mTransLockNodes s t);
    unlockTable t (Some n) None s = Some (nx, s')\<rbrakk>
    \<Longrightarrow> lockStep props trs t (w, s) (w, s')"
| freeInternal: "\<lbrakk>t < mTransCnt s; w t = TxEnding; n \<in> set (mTransLockNodes s t);
    unlockTableInternal t (mLockItem (node s n)) n None True s = Some s'\<rbrakk>
    \<Longrightarrow> lockStep props trs t (w, s) (w, s')"
| begin_tx: "\<lbrakk>t < mTransCnt s; w t = TxEnding; mTransLockNodes s t = []\<rbrakk>
    \<Longrightarrow> lockStep props trs t (w, s) (w(t := TxRunning), initTransLockList t s)"

text \<open>The lock manager after its initialisation: all items in light mode, nothing held or
  waited for.\<close>

definition lockInit :: "config \<Rightarrow> bool" where
  "lockInit c \<longleftrightarrow> (case c of (w, s) \<Rightarrow> w = (\<lambda>_. TxRunning) \<and> mTransCnt s \<le> SML_END_ITEM \<and>
     (\<forall>t. mTransLockNodes s t = [] \<and> mTransLockSlots s t = [] \<and> mStatus s t = SMX_TX_BEGIN) \<and>
     (\<forall>i. clearLockItem (item s i) = item s i) \<and>
     (\<forall>t < mTransCnt s. rowOk s t [] \<and> colOk s t []))"

text \<open>Every configuration that some interleaving of the threads leads to.\<close>

inductive reachable :: "lockProps \<Rightarrow> (slot_id \<Rightarrow> smxTransDist) \<Rightarrow> config \<Rightarrow> bool"
  for props :: lockProps and trs :: "slot_id \<Rightarrow> smxTransDist" where
  init: "lockInit c \<Longrightarrow> reachable props trs c"
| step: "reachable props trs c \<Longrightarrow> lockStep props trs t c c' \<Longrightarrow> reachable props trs c'"


subsection \<open>Every step keeps the invariant\<close>

lemma lockInit_inv: "lockInit (w, s) \<Longrightarrow> lockInv w s"
proof -
  assume h: "lockInit (w, s)"
  then have w: "w = (\<lambda>_. TxRunning)" and N: "mTransCnt s \<le> SML_END_ITEM"
    and tx: "\<And>t. mTransLockNodes s t = []" "\<And>t. mTransLockSlots s t = []" "\<And>t. mStatus s t = SMX_TX_BEGIN"
    and it: "\<And>i. clearLockItem (item s i) = item s i"
    and rows: "\<And>t. t < mTransCnt s \<Longrightarrow> rowOk s t [] \<and> colOk s t []"
    by (simp_all add: lockInit_def)
  have q: "\<not> queuedOn w s j u x" for j u x by (simp add: queuedOn_def w)
  have li: "lightItem {} w s i" for i
    by (simp add: lightItem_def it queuedNodes_def q heldOn_def heldBy_def tx)
  have "itemOk {} w s i" for i using li lightItem_sel(7) [OF li] by (simp add: itemOk_def)
  moreover have "headStuck s i" for i using lightItem_sel(2) [OF li] by (simp add: headStuck_def)
  moreover have "stateOk s"
    using N rows tx(1) by (auto simp: stateOk_def waitInv_def nodesOk_def)
  moreover have "txOk w s t" for t by (simp add: txOk_def phaseOk_def w tx slotsOk_def)
  moreover have "rowPhase w s t" if "t < mTransCnt s" for t using rows [OF that] by (simp add: rowPhase_def w)
  ultimately show "lockInv w s" by (simp add: lockInv_def)
qed

text \<open>The deadlock search of a waiting transaction.\<close>

lemma check_ok:
  assumes inv: "lockInv w s" and t: "t < mTransCnt s" and w: "w t = TxWaiting i m n c False"
    and st: "mStatus s t = SMX_TX_BLOCKED"
  shows "\<exists>b s' xs. waitForLock_check trs t s = Some (b, s') \<and> waitRow s t xs \<and>
    (b \<longleftrightarrow> (t, t) \<in> (liveWaits s t xs)\<^sup>+) \<and>
    lockInv (w(t := TxWaiting i m n c True)) s' \<and> onlyRow t s s' \<and> others t s s' \<and>
    (\<exists>ys. rowOk s' t (ys @ xs) \<and> (\<forall>x \<in> set xs. idx s' t x = idx s t x) \<and> (\<forall>x \<in> set ys. idx s' t x > 1))"
proof -
  let ?w = "w(t := TxWaiting i m n c True)"
  note inv' = inv [unfolded lockInv_mid [of w s i]]
  note mid = conjunct1 [OF inv'] and B = midInvD(1) [OF conjunct1 [OF inv']]
  note M = midBaseD [OF B]
  have "rowPhase w s t" and tx: "txOk w s t" using inv t by (simp_all add: lockInv_def)
  then obtain xs where xs: "rowOk s t xs" "t \<notin> set xs" "\<forall>x \<in> set xs. idx s t x \<le> 1"
    using w by (auto simp: rowPhase_def)
  then have wr: "waitRow s t xs" by (simp add: waitRow_def)
  from isCycle_spec [OF stateOkD(1) [OF M(1)] t wr, of trs False] obtain b s' ys where
    s': "isCycle trs t False s = Some (b, s')" "cycleSpec t s xs b s' ys" by blast
  then have only: "onlyRow t s s'" and row: "rowOk s' t (ys @ xs)" and gt: "\<forall>x \<in> set ys. idx s' t x > 1"
    and old: "\<forall>x \<in> set xs. idx s' t x = idx s t x" and b: "b \<longleftrightarrow> (t, t) \<in> (liveWaits s t xs)\<^sup>+"
    by (simp_all add: cycleSpec_def)
  have more: "waitState.more s' = waitState.more s" using only by (simp add: onlyRow_def)
  note E = more_lock [OF more] and W = onlyRow_waitsOnly [OF only]
  have N: "mTransCnt s' = mTransCnt s" using W by (simp add: waitsOnly_def)
  have one: "idx s' t u = 1" if "idx s t u = 1" "u < mTransCnt s" for u
  proof -
    have "u \<in> set xs" using xs(1) that by (auto simp: rowOk_def)
    then show ?thesis using old that by simp
  qed
  have q: "queuedOn ?w s' j u x = queuedOn w s j u x" for j u x
    using w by (cases "u = t") (auto simp: queuedOn_def E)
  have held: "heldBy s' = heldBy s" by (simp add: fun_eq_iff heldBy_def E)
  have on: "onlyOn {t} i w s ?w s'"
    by (rule onlyOn_single [OF W]) (use w in \<open>auto simp: E held q queuedOn_def\<close>)
  have "nodesOk s' t" using stateOkD(4) [OF M(1) t] by (simp add: nodesOk_def heldNodeOk_def E)
  moreover have "txOk ?w s' t"
  proof -
    have "waitingOk s' = waitingOk s" by (simp add: fun_eq_iff waitingOk_def requestNode_def held E)
    moreover have "slotsOk (pendingSlot (?w t)) s' t"
    proof -
      have "slotsOk (pendingSlot (TxWaiting i m n c False)) s t" using tx by (simp add: txOk_def w)
      then have "slotsOk (pendingSlot (TxWaiting i m n c False)) s' t" by (rule slotsOk_mono) (simp_all add: E)
      then show ?thesis by (rule slotsOk_pending) simp
    qed
    ultimately show ?thesis using tx w by (simp add: txOk_def phaseOk_def)
  qed
  moreover have "rowPhase ?w s' t" using row st by (auto simp: rowPhase_def E)
  ultimately have "midBase {} {} i ?w s'"
    by (intro midBase_step [OF B on]) (use t row in auto)
  moreover have "itemOk {} ?w s' i"
  proof -
    have qn: "queuedNodes ?w s' i = queuedNodes w s i" "heldOn s' i = heldOn s i"
      by (simp_all add: queuedNodes_def heldOn_def q N held)
    have bl: "blockers s' i = blockers s i" by (simp add: fun_eq_iff blockers_def E)
    have ix: "idx s' u v = 1" if "idx s u v = 1" "v < mTransCnt s" for u v
      using one that W by (cases "u = t") (auto simp: waitsOnly_def)
    show ?thesis
    proof (cases "mItemFlag (item s i) = SML_FLAG_LIGHT_MODE")
      case True
      then show ?thesis using midInvD(2) [OF mid] by (simp add: itemOk_def lightItem_def E qn)
    next
      case False
      note H = itemOk_heavyD [OF midInvD(2) [OF mid] False]
      have "v < mTransCnt s" if "v \<in> blockers s i u x" for u x v
        using that grants_slots [OF M(1) H(1)] requests_slots(2) [OF B H(2)]
        by (auto simp: blockers_def dest!: set_takeWhileD)
      then have "waitsRecorded ?w s' i"
        using H(3) ix unfolding waitsRecorded_def q N bl by blast
      moreover have "grantsOk {} s' i" "requestsOk ?w s' i"
        using H(1,2) by (simp_all add: grantsOk_def requestsOk_def compatibleNodes_def E qn)
      ultimately show ?thesis using False by (simp add: itemOk_def E)
    qed
  qed
  moreover have "headStuck s' i" by (rule headStuck_same [OF _ _ conjunct2 [OF inv']]) (simp_all add: E)
  ultimately have "lockInv ?w s'" by (simp add: lockInv_mid [of ?w s' i] midInv_def)
  then show ?thesis
    using s'(1) wr b only row gt old onlyOn_others [OF on] unfolding waitForLock_check_def by blast
qed


text \<open>A release, in one or two calls.\<close>

lemma released_inv:
  assumes inv: "lockInv w s" and t: "t < mTransCnt s" and w: "w t = TxRunning \<and> sl \<noteq> None \<or> w t = TxEnding"
    and mid: "midInv {t} {} i w s'" "headStuck s' i" and rel: "released t n sl s s'"
    and l: "\<And>l. sl = Some l \<Longrightarrow> fst l = n \<and> l \<in> set (mTransLockSlots s t)"
  shows "lockInv w s' \<and> mTransCnt s' = mTransCnt s"
proof -
  have w': "w t = TxRunning \<or> w t = TxEnding" using w by blast
  note st = lockInv_out(3) [OF inv t w'] and row = lockInv_out(4) [OF inv t w']
  have nodes: "nodesOk s t" using inv t by (simp add: lockInv_def stateOk_def)
  have kept: "ownKept t n s s'" using rel by (simp add: released_def slotReleased_def)
  then have N: "mTransCnt s' = mTransCnt s" "mStatus s' t = SMX_TX_BEGIN" "rowOk s' t []"
    using st row ownKept_row [OF kept] by (simp_all add: ownKept_def)
  have "slotsOk (\<lambda>_. {}) s' t" if run: "w t \<noteq> TxEnding"
  proof -
    have run': "w t = TxRunning" using w run by blast
    then obtain m where m: "sl = Some (n, m)" "(n, m) \<in> set (mTransLockSlots s t)"
      using w run l by (cases sl) auto
    show ?thesis
      using released_slotsOk [OF lockInv_out(5) [OF inv t w' run'] refl nodes m(2)] rel m(1) by simp
  qed
  then have "lockInv w s'" using mid_back [OF mid] N t w' by auto
  then show ?thesis using N by simp
qed

lemma unlock_inv:
  assumes inv: "lockInv w s" and t: "t < mTransCnt s" and w: "w t = TxRunning \<and> sl \<noteq> None \<or> w t = TxEnding \<and> sl = None"
    and n: "n \<in> set (mTransLockNodes s t)" and l: "\<And>l. sl = Some l \<Longrightarrow> fst l = n \<and> l \<in> set (mTransLockSlots s t)"
    and arg: "an = Some n \<or> an = None \<and> sl \<noteq> None"
  shows "\<exists>nx s'. unlockTable t an sl s = Some (nx, s') \<and> lockInv w s' \<and> mTransCnt s' = mTransCnt s \<and> others t s s' \<and>
      (nx = UnlockInternal n \<and> s' = s \<or> nx = UnlockDone \<and> released t n sl s s')"
    "\<exists>s'. unlockTableInternal t (mLockItem (node s n)) n sl True s = Some s' \<and> lockInv w s' \<and>
      mTransCnt s' = mTransCnt s \<and> others t s s' \<and> released t n sl s s'"
proof -
  let ?i = "mLockItem (node s n)"
  have w': "w t = TxRunning \<or> w t = TxEnding" and w2: "w t = TxRunning \<and> sl \<noteq> None \<or> w t = TxEnding" using w by auto
  note mid = lockInv_out(1,2) [OF inv t w', of ?i]
  have held: "n \<in> heldBy s ?i t" using n by (simp add: heldBy_def)
  have fits: "slotFits t n sl s"
  proof (cases sl)
    case (Some l')
    then obtain m where m: "l' = (n, m)" "(n, m) \<in> set (mTransLockSlots s t)" using l by (cases l') auto
    have run: "w t = TxRunning" using w Some by auto
    show ?thesis
      using slotFits_of [OF lockInv_out(5) [OF inv t w' run] m(2)] Some m(1) by simp
  qed (simp add: slotFits_def)
  note again = released_inv [OF inv t w2 _ _ _ l]
  from unlockTable_ok [OF mid t held fits arg] show "\<exists>nx s'. unlockTable t an sl s = Some (nx, s') \<and>
      lockInv w s' \<and> mTransCnt s' = mTransCnt s \<and> others t s s' \<and>
      (nx = UnlockInternal n \<and> s' = s \<or> nx = UnlockDone \<and> released t n sl s s')"
    using again inv by (auto split: if_splits)
  from unlockTableInternal_ok [OF mid t held fits]
  show "\<exists>s'. unlockTableInternal t ?i n sl True s = Some s' \<and> lockInv w s' \<and>
      mTransCnt s' = mTransCnt s \<and> others t s s' \<and> released t n sl s s'"
    using again by auto
qed

lemma begin_inv:
  assumes inv: "lockInv w s" and t: "t < mTransCnt s" and w: "w t = TxEnding" and none: "mTransLockNodes s t = []"
  shows "lockInv (w(t := TxRunning)) (initTransLockList t s)" "others t s (initTransLockList t s)"
proof -
  let ?w = "w(t := TxRunning)" and ?s = "initTransLockList t s"
  note st = lockInv_out(3) [OF inv t disjI2 [OF w]] and row = lockInv_out(4) [OF inv t disjI2 [OF w]]
  note mid = lockInv_out(1,2) [OF inv t disjI2 [OF w], of 0]
  have "colOk s t []" using stateOkD(2) [OF midBaseD(1) [OF midInvD(1) [OF mid(1)]] t] .
  then have "mFstWaitTblTransItem s t = SML_END_ITEM" "mFstWaitRecTransItem s t = SML_END_ITEM"
    "mLstWaitRecTransItem s t = SML_END_ITEM" using row by (simp_all add: rowOk_def colOk_def)
  then have eq: "?s = setTransSlots t [] s"
    using none by (simp add: initTransLockList_def setTransSlots_def fun_upd_idem)
  have "midInv (insert t {t}) {} 0 ?w s"
    by (rule phase_out [OF mid(1) t queued_end]) (use w in auto)
  then have mid1: "midInv {t} {} 0 ?w s" by simp
  note B = midInvD(1) [OF mid1] and M = midBaseD [OF midInvD(1) [OF mid1]]
  have held: "heldBy ?s = heldBy s" "queuedOn ?w ?s = queuedOn ?w s"
    by (simp_all add: fun_eq_iff heldBy_def queuedOn_def eq)
  have on: "onlyOn {t} 0 ?w s ?w ?s"
    by (rule onlyOn_single) (use M(2) in \<open>auto simp: eq waitsOnly_def held [unfolded eq]\<close>)
  then show "others t s ?s" by (rule onlyOn_others)
  note on
  moreover have "nodesOk ?s t" using none by (simp add: nodesOk_def eq)
  ultimately have "midBase {t} {} 0 ?w ?s"
    using row by (intro midBase_own [OF B t]) (auto simp: eq)
  moreover have "itemOk {} ?w ?s 0"
    by (rule itemOk_same [OF _ _ _ _ _ _ _ midInvD(2) [OF mid1]]) (simp_all add: eq heldOn_def held [unfolded eq])
  moreover have "headStuck ?s 0" by (rule headStuck_same [OF _ _ mid(2)]) (simp_all add: eq)
  ultimately show "lockInv ?w ?s"
    using t row st none by (intro mid_back [of t 0]) (auto simp: midInv_def eq slotsOk_def)
qed

text \<open>What a step of \<open>t\<close> leaves of its own wait: \<open>t\<close> is not blocked; or it has just been queued, with
  a new node and every entry of its row at 1; or it is past its search, which found no cycle.\<close>

definition ownWait :: "slot_id \<Rightarrow> config \<Rightarrow> config \<Rightarrow> bool" where
  "ownWait t c c' \<longleftrightarrow> (case (c, c') of ((w, s), (w', s')) \<Rightarrow>
     mStatus s' t \<noteq> SMX_TX_BLOCKED \<or>
     (\<exists>i m c. w' t = TxWaiting i m (mNextLockNode s) c False \<and>
        (\<forall>z < mTransCnt s. nxt s' t z \<noteq> ID_USHORT_MAX \<longrightarrow> idx s' t z = 1)) \<or>
     (\<exists>i m n c xs. w t = TxWaiting i m n c False \<and> w' t = TxWaiting i m n c True \<and>
        mStatus s t = SMX_TX_BLOCKED \<and> waitRow s t xs \<and> (t, t) \<notin> (liveWaits s t xs)\<^sup>+ \<and>
        (\<forall>v z. v \<noteq> t \<longrightarrow> idx s' v z = idx s v z) \<and>
        (\<forall>z < mTransCnt s. (idx s' t z = 1 \<longrightarrow> idx s t z = 1) \<and>
          (nxt s' t z \<noteq> ID_USHORT_MAX \<and> idx s' t z = 0 \<longrightarrow> nxt s t z \<noteq> ID_USHORT_MAX \<and> idx s t z = 0))))"

definition stepOk :: "slot_id \<Rightarrow> config \<Rightarrow> config \<Rightarrow> bool" where
  "stepOk t c c' \<longleftrightarrow> lockInv (fst c') (snd c') \<and> mTransCnt (snd c') = mTransCnt (snd c) \<and>
     others t (snd c) (snd c') \<and> (\<forall>u. u \<noteq> t \<longrightarrow> fst c' u = fst c u) \<and> ownWait t c c'"

text \<open>A step after which \<open>t\<close> runs.\<close>

lemma stepOk_running:
  assumes "t < mTransCnt s" "w' = w \<or> w' = w(t := w' t)" "w' t = TxRunning \<or> w' t = TxEnding" "lockInv w' s'"
    "mTransCnt s' = mTransCnt s" "others t s s'"
  shows "stepOk t (w, s) (w', s')"
proof -
  have "mStatus s' t = SMX_TX_BEGIN" using lockInv_out(3) [OF assms(4) _ assms(3)] assms(1,5) by simp
  moreover have "w' u = w u" if "u \<noteq> t" for u
    using assms(2) that by (metis fun_upd_other)
  ultimately show ?thesis using assms by (auto simp: stepOk_def ownWait_def)
qed

lemma check_step:
  assumes inv: "lockInv w s" and t: "t < mTransCnt s" and w: "w t = TxWaiting i m n c False"
    and st: "mStatus s t = SMX_TX_BLOCKED" and run: "waitForLock_check trs t s = Some (False, s')"
  shows "stepOk t (w, s) (w(t := TxWaiting i m n c True), s')"
proof -
  obtain xs ys where xs: "waitRow s t xs" "(t, t) \<notin> (liveWaits s t xs)\<^sup>+"
    and inv': "lockInv (w(t := TxWaiting i m n c True)) s'" "onlyRow t s s'" "others t s s'"
    and row: "rowOk s' t (ys @ xs)" "\<forall>x \<in> set xs. idx s' t x = idx s t x" "\<forall>x \<in> set ys. idx s' t x > 1"
    using check_ok [OF inv t w st, of trs] run by auto
  have N: "mTransCnt s' = mTransCnt s" using onlyRow_TransCnt [OF inv'(2)] .
  have N0: "mTransCnt s \<le> SML_END_ITEM" using inv stateOkD(5) [of s] by (simp add: lockInv_def)
  have linked: "nxt s t z \<noteq> ID_USHORT_MAX" if "z \<in> set xs" "z < mTransCnt s" for z
    using xs(1) that rowOk_linked [of s t xs z] N0 by (simp add: waitRow_def)
  have "(idx s' t z = 1 \<longrightarrow> idx s t z = 1) \<and>
      (nxt s' t z \<noteq> ID_USHORT_MAX \<and> idx s' t z = 0 \<longrightarrow> nxt s t z \<noteq> ID_USHORT_MAX \<and> idx s t z = 0)"
    if "z < mTransCnt s" for z
  proof (cases "z \<in> set xs")
    case True
    then show ?thesis using row(2) linked that by simp
  next
    case False
    then show ?thesis using row(1,3) that N by (cases "z \<in> set ys") (auto simp: rowOk_def)
  qed
  then have "ownWait t (w, s) (w(t := TxWaiting i m n c True), s')"
    unfolding ownWait_def using w st xs onlyRow_waitsOnly [OF inv'(2)] by (auto simp: waitsOnly_def)
  then show ?thesis using inv' N by (simp add: stepOk_def)
qed

theorem lockStep_ok:
  assumes "lockStep props trs t (w, s) (w', s')" "lockInv w s"
  shows "stepOk t (w, s) (w', s')"
  using assms
proof (cases rule: lockStep.cases)
  case (light m i b out)
  from lockTable_ok [OF assms(2) light(2-5), of props i b] light(1,3,6)
  show ?thesis by (intro stepOk_running [OF light(2)]) auto
next
  case (request m i cur canWait b out)
  have w: "w t = TxRunning \<or> w t = TxEnding" using request(2) by simp
  note slots = lockInv_out(5) [OF assms(2) request(1) w request(2)]
  have "nodesOk s t" using assms(2) request(1) by (simp add: lockInv_def stateOk_def)
  from findLockNode_ok [OF this, of i] request(5)
  have "heldBy s i t = (case cur of None \<Rightarrow> {} | Some n \<Rightarrow> {n})" by auto
  note cur = curOk_find [OF this slots request(6)]
  from request_ok [OF assms(2) request(1,2,3) cur request(4), of canWait b] request(7)
  have ok: "outcomeOk w t i m s out s'" by auto
  show ?thesis
  proof (cases out)
    case (LockMustWait n c)
    then show ?thesis using ok request(8) by (auto simp: outcomeOk_def stepOk_def ownWait_def)
  qed (use ok request(2,8) in \<open>auto simp: outcomeOk_def intro!: stepOk_running [OF request(1)]\<close>)
next
  case (resume i m n c k out)
  from resume_ok [OF assms(2) resume(2-5)] resume(1,6) show ?thesis
    by (intro stepOk_running [OF resume(2)]) auto
next
  case (check i m n c)
  from check_step [OF assms(2) check(2-5)] check(1) show ?thesis by simp
next
  case (deadlock i m n c s1 out)
  from check_ok [OF assms(2) deadlock(2-4), of trs] deadlock(5) onlyRow_TransCnt [of t s s1]
  have s1: "lockInv (w(t := TxWaiting i m n c True)) s1" "mTransCnt s1 = mTransCnt s" "others t s s1" by auto
  have "\<exists>s'. lockTable_giveUp t n s1 = Some (LockFailure err_wait_lock, s') \<and>
      lockInv (w(t := TxWaiting i m n c True, t := TxRunning)) s' \<and> mTransCnt s' = mTransCnt s1 \<and> others t s1 s' \<and>
      mTransLockSlots s' t = mTransLockSlots s1 t"
    by (rule giveUp_ok [OF s1(1), of t i m n c True]) (use s1(2) deadlock(2) in simp_all)
  then show ?thesis
    using deadlock(1,6) s1(2) others_trans [OF s1(3)] by (intro stepOk_running [OF deadlock(2)]) auto
next
  case (giveUp i m n c k out)
  from giveUp_ok [OF assms(2) giveUp(2,3)] giveUp(1,4) show ?thesis
    by (intro stepOk_running [OF giveUp(2)]) auto
next
  case (unlock l nx)
  have w: "w t = TxRunning \<or> w t = TxEnding" using unlock(3) by simp
  have n: "fst l \<in> set (mTransLockNodes s t)"
    using slotsOkD(2) [OF lockInv_out(5) [OF assms(2) unlock(2) w unlock(3)]] unlock(4) by (cases l) auto
  have "\<exists>nx s'. unlockTable t None (Some l) s = Some (nx, s') \<and> lockInv w s' \<and> mTransCnt s' = mTransCnt s \<and>
      others t s s' \<and> (nx = UnlockInternal (fst l) \<and> s' = s \<or> nx = UnlockDone \<and> released t (fst l) (Some l) s s')"
    by (rule unlock_inv(1) [OF assms(2) unlock(2) _ n]) (use unlock(3,4) in auto)
  then show ?thesis using unlock(1,3,5) by (intro stepOk_running [OF unlock(2)]) auto
next
  case (unlockInternal n m)
  have w: "w t = TxRunning \<or> w t = TxEnding" using unlockInternal(3) by simp
  have n: "n \<in> set (mTransLockNodes s t)"
    using slotsOkD(2) [OF lockInv_out(5) [OF assms(2) unlockInternal(2) w unlockInternal(3)]] unlockInternal(4) by auto
  have "\<exists>s'. unlockTableInternal t (mLockItem (node s n)) n (Some (n, m)) True s = Some s' \<and> lockInv w s' \<and>
      mTransCnt s' = mTransCnt s \<and> others t s s' \<and> released t n (Some (n, m)) s s'"
    by (rule unlock_inv(2) [OF assms(2) unlockInternal(2) _ n, of _ "Some n"]) (use unlockInternal(3,4) in auto)
  then show ?thesis using unlockInternal(1,3,5) by (intro stepOk_running [OF unlockInternal(2)]) auto
next
  case end_tx
  have w: "w t = TxRunning \<or> w t = TxEnding" using end_tx(4) by simp
  note mid = lockInv_out(1,2) [OF assms(2) end_tx(3) w, of 0]
  have "midInv (insert t {t}) {} 0 (w(t := TxEnding)) s"
    by (rule phase_out [OF mid(1) end_tx(3) queued_end]) (use end_tx(4) in auto)
  then have "lockInv (w(t := TxEnding)) s"
    using mid(2) end_tx(3) lockInv_out(3,4) [OF assms(2) end_tx(3) w] by (intro mid_back [of t 0]) auto
  then show ?thesis using end_tx(1,2) by (intro stepOk_running [OF end_tx(3)]) auto
next
  case (free n nx)
  have "\<exists>nx s'. unlockTable t (Some n) None s = Some (nx, s') \<and> lockInv w s' \<and> mTransCnt s' = mTransCnt s \<and>
      others t s s' \<and> (nx = UnlockInternal n \<and> s' = s \<or> nx = UnlockDone \<and> released t n None s s')"
    by (rule unlock_inv(1) [OF assms(2) free(2) _ free(4)]) (use free(3) in auto)
  then show ?thesis using free(1,3,5) by (intro stepOk_running [OF free(2)]) auto
next
  case (freeInternal n)
  have "\<exists>s'. unlockTableInternal t (mLockItem (node s n)) n None True s = Some s' \<and> lockInv w s' \<and>
      mTransCnt s' = mTransCnt s \<and> others t s s' \<and> released t n None s s'"
    by (rule unlock_inv(2) [OF assms(2) freeInternal(2) _ freeInternal(4), of _ "Some n"]) (use freeInternal(3) in auto)
  then show ?thesis using freeInternal(1,3,5) by (intro stepOk_running [OF freeInternal(2)]) auto
next
  case begin_tx
  then show ?thesis
    using begin_inv [OF assms(2) begin_tx(3-5)]
    by (intro stepOk_running [OF begin_tx(3)]) (simp_all add: initTransLockList_def)
qed

lemma reachable_inv: "reachable props trs c \<Longrightarrow> lockInv (fst c) (snd c)"
proof (induction rule: reachable.induct)
  case (init c)
  then show ?case using lockInit_inv by (cases c) auto
next
  case (step c t c')
  then show ?case using lockStep_ok [of props trs t "fst c" "snd c" "fst c'" "snd c'"] by (simp add: stepOk_def)
qed

end
