(* ===== verification/LockViews.thy ===== *)
theory LockViews
  imports LockProtocol
begin

text \<open>
  The locks of a transaction as its callers see them: for every lock slot, in the order of the
  lock sequence, the item and the mode.  The operations of the lock manager change this view of
  the calling transaction only, by one slot at the end or one slot removed; the lemmas need no
  invariant.
\<close>

subsection \<open>What no operation changes\<close>

text \<open>An allocated node keeps its item and its transaction.\<close>

definition frozen :: "lockState \<Rightarrow> lockState \<Rightarrow> bool" where
  "frozen s s' \<longleftrightarrow> mNextLockNode s' = mNextLockNode s \<and> mTransLockSlots s' = mTransLockSlots s \<and>
     (\<forall>x. mLockItem (node s' x) = mLockItem (node s x) \<and> mSlotID (node s' x) = mSlotID (node s x))"

definition stable :: "slot_id \<Rightarrow> lockState \<Rightarrow> lockState \<Rightarrow> bool" where
  "stable t s s' \<longleftrightarrow> mNextLockNode s \<le> mNextLockNode s' \<and>
     (\<forall>x < mNextLockNode s. mLockItem (node s' x) = mLockItem (node s x) \<and> mSlotID (node s' x) = mSlotID (node s x)) \<and>
     (\<forall>v. v \<noteq> t \<longrightarrow> mTransLockSlots s' v = mTransLockSlots s v)"

lemma frozen_refl [simp]: "frozen s s"
  by (simp add: frozen_def)

lemma frozen_trans: "frozen s s' \<Longrightarrow> frozen s' s'' \<Longrightarrow> frozen s s''"
  by (simp add: frozen_def)

lemma stable_refl [simp]: "stable t s s"
  by (simp add: stable_def)

lemma frozen_stable: "frozen s s' \<Longrightarrow> stable t s s'"
  by (simp add: frozen_def stable_def)

lemma stable_trans: "stable t s s' \<Longrightarrow> stable t s' s'' \<Longrightarrow> stable t s s''"
  by (auto simp: stable_def)

lemmas stable_frozen_trans = stable_trans [OF _ frozen_stable]
lemmas frozen_stable_trans = stable_trans [OF frozen_stable]

lemma frozen_upd [simp]:
  "frozen s (updLockItem i g s') = frozen s s'" "frozen s (setTransNodes t ns s') = frozen s s'"
  "frozen s (setStatus t st s') = frozen s s'" "frozen s (freeLockNodeNormal n s') = frozen s s'"
  by (simp_all add: frozen_def setTransNodes_def setTransSlots_def setStatus_def freeLockNodeNormal_def)

lemma frozen_node [simp]:
  "(\<And>nd. mLockItem (f nd) = mLockItem nd \<and> mSlotID (f nd) = mSlotID nd) \<Longrightarrow> frozen s (updNode n f s') = frozen s s'"
  unfolding frozen_def by (simp, metis)

lemma frozen_iff: "frozen a b \<Longrightarrow> frozen s b \<longleftrightarrow> frozen s a"
  by (auto simp: frozen_def)

lemma frozen_more: "waitState.more s' = waitState.more (s :: lockState) \<Longrightarrow> frozen s s'"
  using more_lock [of s' s] by (simp add: frozen_def)

lemma frozen_onItem: "onItem i f s = Some s' \<Longrightarrow> frozen s s'"
  by (auto simp: onItem_def bind_eq_Some_conv)

lemma frozen_addLockNode: "addLockNode n t s = Some s' \<Longrightarrow> frozen s s'"
  by (auto simp: addLockNode_def bind_eq_Some_conv)

lemma frozen_removeIfLinked: "removeIfLinked n s = Some s' \<Longrightarrow> frozen s s'"
  by (auto simp: removeIfLinked_def removeTransLockNode_def Let_def bind_eq_Some_conv split: if_splits)

lemma frozen_freeLockNode: "freeLockNode n s = Some s' \<Longrightarrow> frozen s s'"
  by (auto simp: freeLockNode_def Let_def bind_eq_Some_conv)

lemma frozen_complete: "unlock_complete n b s = Some s' \<Longrightarrow> frozen s s'"
  by (auto simp: unlock_complete_def bind_eq_Some_conv split: if_splits
      dest!: frozen_iff [OF frozen_removeIfLinked, where s = s] frozen_iff [OF frozen_freeLockNode, where s = s])

lemma frozen_clearRow: "clearWaitItemColsOfTrans d t s = Some (s' :: lockState) \<Longrightarrow> frozen s s'"
  using clearWait_other(3) [of d t s s' "Suc t"] frozen_more by simp

lemma frozen_clearRows: "frozen s (clearWaitTableRows ts t (s :: lockState))"
  using clearWaitTableRows_ok [of ts t s] frozen_more by blast

lemma frozen_resume: "resumeTrans t s = Some s' \<Longrightarrow> frozen s s'"
  by (auto simp: resumeTrans_def bind_eq_Some_conv)

subsection \<open>Waking up\<close>

lemma frozen_wakeup_grant:
  assumes "wakeup_grant i n s = Some s'"
  shows "frozen s s'"
proof -
  let ?s2 = "updLockItem i (\<lambda>it. it\<lparr>mGrantLockMode := getConversionLockMode (mGrantLockMode it) (mLockMode (node s n))\<rparr>)
    (updLockItem i (\<lambda>it. it\<lparr>mLockRequest := remove1 n (mLockRequest it)\<rparr>) s)"
  show ?thesis
  proof (cases "mCvsLockNode (node s n)")
    case (Some c)
    then obtain s3 s5 where s3: "onItem i (decTblLockModeAndTryUpdate (mLockMode (node s c))) ?s2 = Some s3"
      and s5: "onItem i (incTblLockModeAndUpdate (mLockMode (node (updNode c (\<lambda>nd. nd\<lparr>mLockMode :=
          getConversionLockMode (mLockMode nd) (mLockMode (node s3 n))\<rparr>) s3) c)))
        (updNode c (\<lambda>nd. nd\<lparr>mLockMode := getConversionLockMode (mLockMode nd) (mLockMode (node s3 n))\<rparr>) s3) = Some s5"
        "s' = updNode n (\<lambda>nd. nd\<lparr>mDoRemove := True\<rparr>) s5"
      using assms by (simp add: wakeup_grant_def Let_def bind_eq_Some_conv) blast
    have "frozen s s3" using frozen_trans [OF _ frozen_onItem [OF s3]] by simp
    then show ?thesis using frozen_trans [OF _ frozen_onItem [OF s5(1)]] s5(2) by simp
  next
    case None
    then obtain s3 where s3: "onItem i (incTblLockModeAndUpdate (mLockMode (node s n))) ?s2 = Some s3"
      and add: "addLockNode n (mSlotID (node s3 n)) (updLockItem i (\<lambda>it. it\<lparr>mGrantCnt := mGrantCnt it + 1\<rparr>)
        (updNode n (\<lambda>nd. nd\<lparr>mBeGrant := True\<rparr>) (addLockNodeToGrantTail i n s3))) = Some s'"
      using assms by (auto simp: wakeup_grant_def Let_def bind_eq_Some_conv addLockNodeToGrantTail_def)
    have "frozen s s3" using frozen_trans [OF _ frozen_onItem [OF s3]] by simp
    then show ?thesis using frozen_trans [OF _ frozen_addLockNode [OF add]] by (simp add: addLockNodeToGrantTail_def)
  qed
qed

lemma frozen_wakeup_convert:
  assumes "wakeup_convert i n c s = Some s'"
  shows "frozen s s'"
proof -
  obtain s1 s4 where s1: "onItem i (decTblLockModeAndTryUpdate (mLockMode (node s c))) s = Some s1"
    and s4: "onItem i (incTblLockModeAndUpdate (getConversionLockMode (mGrantLockMode (item s1 i)) (mLockMode (node s1 n))))
      (updNode c (\<lambda>nd. nd\<lparr>mLockMode := getConversionLockMode (mGrantLockMode (item s1 i)) (mLockMode (node s1 n))\<rparr>)
        (updLockItem i (\<lambda>it. it\<lparr>mGrantLockMode := getConversionLockMode (mGrantLockMode it) (mLockMode (node s1 n))\<rparr>) s1)) = Some s4"
    and s': "s' = updNode n (\<lambda>nd. nd\<lparr>mDoRemove := True\<rparr>)
      (updLockItem i (\<lambda>it. it\<lparr>mLockRequest := remove1 n (mLockRequest it)\<rparr>) s4)"
    using assms by (simp add: wakeup_convert_def Let_def bind_eq_Some_conv) blast
  show ?thesis using frozen_trans [OF _ frozen_onItem [OF s4]] frozen_onItem [OF s1] by (simp add: s')
qed

lemma frozen_wakeup_finish: "wakeup_finish i n s = Some s' \<Longrightarrow> frozen s s'"
  by (auto simp: wakeup_finish_def Let_def bind_eq_Some_conv
      dest!: frozen_iff [OF frozen_clearRow, where s = s] frozen_iff [OF frozen_resume, where s = s])

lemma frozen_wakeup_loop: "wakeup_loop i R s = Some s' \<Longrightarrow> frozen s s'"
proof (induction R arbitrary: s)
  case (Cons n rest)
  have one: "frozen s s'" if "frozen s s1" "wakeup_finish i n s1 = Some s2" "wakeup_loop i rest s2 = Some s'" for s1 s2
    using frozen_trans [OF that(1) frozen_trans [OF frozen_wakeup_finish [OF that(2)] Cons.IH [OF that(3)]]] .
  let ?fits = "compatible (mLockMode (node s n)) (mGrantLockMode (item s i))"
  show ?case
  proof (cases ?fits)
    case True
    then obtain s1 s2 where "wakeup_grant i n s = Some s1" "wakeup_finish i n s1 = Some s2"
      "wakeup_loop i rest s2 = Some s'" using Cons.prems by (auto simp: bind_eq_Some_conv)
    then show ?thesis using one frozen_wakeup_grant by blast
  next
    case False
    show ?thesis
    proof (cases "mGrantCnt (item s i) = 1 \<and> mCvsLockNode (node s n) \<noteq> None")
      case True
      then obtain c s1 s2 where "wakeup_convert i n c s = Some s1" "wakeup_finish i n s1 = Some s2"
        "wakeup_loop i rest s2 = Some s'" using Cons.prems False by (auto simp: bind_eq_Some_conv)
      then show ?thesis using one frozen_wakeup_convert by blast
    next
      case none: False
      then show ?thesis using Cons.prems False by (auto split: option.splits if_splits)
    qed
  qed
qed simp

subsection \<open>To light mode and back\<close>

lemma frozen_toLight_grants: "toLight_grants i G s = Some s' \<Longrightarrow> frozen s s'"
proof (induction G arbitrary: s)
  case (Cons n rest)
  let ?s2 = "updLockItem i (\<lambda>it. it\<lparr>mGrantCnt := mGrantCnt it - 1\<rparr>)
    (updLockItem i (\<lambda>it. it\<lparr>mLockGrant := remove1 n (mLockGrant it)\<rparr>) s)"
  have "toLight_grants i rest (clearWaitTableRows (slotsOf s (mLockRequest (item s i))) (mSlotID (node s n)) ?s2) = Some s'"
    using Cons.prems by (simp add: Let_def bind_eq_Some_conv)
  from frozen_trans [OF frozen_clearRows Cons.IH [OF this]] have "frozen ?s2 s'" .
  then show ?case by (rule frozen_trans [rotated]) simp
qed simp

lemma frozen_toLight_requests: "toLight_requests i R s = Some s' \<Longrightarrow> frozen s s'"
proof (induction R arbitrary: s)
  case (Cons n rest)
  let ?s1 = "updLockItem i (\<lambda>it. it\<lparr>mLockRequest := remove1 n (mLockRequest it)\<rparr>) s"
  obtain s2 s3 s4 where s2: "(case mCvsLockNode (node ?s1 n) of
       Some c \<Rightarrow> Some (updNode n (\<lambda>nd. nd\<lparr>mDoRemove := True\<rparr>)
         (updNode c (\<lambda>nd. nd\<lparr>mLockMode := getConversionLockMode (mLockMode nd) (mLockMode (node ?s1 n))\<rparr>) ?s1))
     | None \<Rightarrow> (let sA = updNode n (\<lambda>nd. nd\<lparr>mBeGrant := True\<rparr>) ?s1 in addLockNode n (mSlotID (node sA n)) sA)) = Some s2"
    and s3: "clearWaitItemColsOfTrans False (mSlotID (node s2 n)) s2 = Some s3"
    and s4: "resumeTrans (mSlotID (node s3 n)) s3 = Some s4" "toLight_requests i rest s4 = Some s'"
    using Cons.prems unfolding toLight_requests.simps Let_def bind_eq_Some_conv by blast
  have "frozen s s2"
    using s2 by (auto simp: Let_def dest!: frozen_iff [OF frozen_addLockNode, where s = s] split: option.splits)
  from frozen_trans [OF this frozen_trans [OF frozen_clearRow [OF s3] frozen_resume [OF s4(1)]]]
  show ?case using frozen_trans Cons.IH [OF s4(2)] by blast
qed simp

lemma frozen_toLightMode: "toLightMode i s = Some s' \<Longrightarrow> frozen s s'"
proof -
  assume "toLightMode i s = Some s'"
  then obtain s1 s2 where "(if mGrantCnt (item s i) > 0 then toLight_grants i (mLockGrant (item s i)) s else Some s) = Some s1"
    "toLight_requests i (mLockRequest (item s1 i)) s1 = Some s2" "s' = updLockItem i clearLockItem s2"
    unfolding toLightMode_def bind_eq_Some_conv by blast
  then show ?thesis
    by (auto split: if_splits
        dest!: frozen_iff [OF frozen_toLight_grants, where s = s] frozen_iff [OF frozen_toLight_requests, where s = s])
qed

lemma frozen_buildGrant: "buildGrant_loop i ts s = Some s' \<Longrightarrow> frozen s s'"
proof (induction ts arbitrary: s)
  case (Cons t rest)
  obtain found s1 where found: "findLockNode i t s = Some found"
    and s1: "(case found of None \<Rightarrow> Some s | Some n \<Rightarrow> do {
                ide_assert (compatible (mGrantLockMode (item s i)) (mLockMode (node s n)));
                let sA = addLockNodeToGrantTail i n s;
                let sB = updLockItem i (\<lambda>it. it\<lparr>mGrantCnt := mGrantCnt it + 1\<rparr>) sA;
                sC \<leftarrow> onItem i (incTblLockModeAndUpdate (mLockMode (node sB n))) sB;
                Some (updLockItem i (\<lambda>it. it\<lparr>mGrantLockMode :=
                  getConversionLockMode (mGrantLockMode it) (mLockMode (node sC n))\<rparr>) sC)
              }) = Some s1" and rest: "buildGrant_loop i rest s1 = Some s'"
    using Cons.prems by (auto simp: bind_eq_Some_conv)
  have "frozen s s1"
    using s1 by (auto simp: Let_def bind_eq_Some_conv addLockNodeToGrantTail_def
        dest!: frozen_iff [OF frozen_onItem, where s = s] split: option.splits)
  then show ?case using frozen_trans Cons.IH [OF rest] by blast
qed simp

lemma frozen_toHeavyMode: "toHeavyMode i s = Some s' \<Longrightarrow> frozen s s'"
  by (auto simp: toHeavyMode_def dest!: frozen_iff [OF frozen_buildGrant, where s = s])

subsection \<open>Requests\<close>

lemma stable_upd [simp]:
  "stable t s (updLockItem i g s') = stable t s s'" "stable t s (setTransNodes u ns s') = stable t s s'"
  "stable t s (setStatus u st s') = stable t s s'" "stable t s (setTransSlots t ls s') = stable t s s'"
  "stable t s (freeLockNodeNormal n s') = stable t s s'"
  by (simp_all add: stable_def setTransNodes_def setTransSlots_def setStatus_def freeLockNodeNormal_def)

lemma stable_node [simp]:
  "(\<And>nd. mLockItem (f nd) = mLockItem nd \<and> mSlotID (f nd) = mSlotID nd) \<Longrightarrow> stable t s (updNode n f s') = stable t s s'"
  by (rule iffI) (auto simp: stable_def fun_upd_def split: if_splits)

lemma stable_iff: "frozen a b \<Longrightarrow> stable t s b \<longleftrightarrow> stable t s a"
  by (auto simp: frozen_def stable_def)

lemma stable_allocd [simp]: "stable t s (allocd u m i b s)"
  by (simp add: stable_def)

lemma stable_lightGrant: "lightGrant t i m cur b s = Some (r, s') \<Longrightarrow> stable t s s'"
  by (auto simp: lightGrant_def allocLockNodeAndInit_eq Let_def bind_eq_Some_conv
      dest!: stable_iff [OF frozen_addLockNode, where s = s and t = t] split: option.splits if_splits)

lemma stable_internalGrant:
  assumes "internalGrant t i m cur b s = Some (r, s')"
  shows "stable t s s'"
  using assms unfolding internalGrant_def
  by (auto simp: allocLockNodeAndInit_eq Let_def bind_eq_Some_conv addLockNodeToGrantTail_def
      dest!: stable_iff [OF frozen_addLockNode, where s = s and t = t] stable_iff [OF frozen_onItem, where s = s and t = t]
      split: option.splits if_splits)

lemma stable_internalConvert: "internalConvert i m c s = Some s' \<Longrightarrow> stable t s s'"
  by (auto simp: internalConvert_def Let_def bind_eq_Some_conv
      dest!: stable_iff [OF frozen_onItem, where s = s and t = t])

lemma more_registByReq:
  "registTblLockWaitListByReq t ts s = Some (s' :: lockState) \<Longrightarrow> waitState.more s' = waitState.more s"
proof (induction ts arbitrary: s)
  case (Cons u ts)
  then show ?case
    using onlyRow_more [OF linkWait_onlyRow, of t u s] by (auto simp: bind_eq_Some_conv split: if_splits)
qed simp

lemma more_registByGrant: "waitState.more (registTblLockWaitListByGrant t ts (s :: lockState)) = waitState.more s"
proof (induction ts arbitrary: s)
  case (Cons u ts)
  then show ?case using onlyRow_more [OF linkWait_onlyRow, of t u s] by auto
qed simp

lemmas frozen_registByReq = frozen_more [OF more_registByReq]
lemmas frozen_registByGrant = frozen_more [OF more_registByGrant]

lemma stable_enqueue:
  assumes "internalEnqueue t i m cur b s = Some (r, s')"
  shows "stable t s s'"
  using assms unfolding internalEnqueue_def
  by (auto simp: allocLockNodeAndInit_eq Let_def bind_eq_Some_conv stable_iff [OF frozen_registByGrant]
      dest!: stable_iff [OF frozen_registByReq, where s = s and t = t] split: option.splits if_splits)

lemma stable_success: "internalSuccess t m c s = Some (out, s') \<Longrightarrow> stable t s s'"
  unfolding internalSuccess_def setLockModeAndAddLockSlot_def addLockSlot_def
  by (auto simp: Let_def bind_eq_Some_conv stable_def setTransSlots_def)

lemma stable_failure: "internalFailure t e s = Some (out, s') \<Longrightarrow> stable t s s'"
  by (auto simp: internalFailure_def bind_eq_Some_conv intro: frozen_stable frozen_clearRow)

lemma stable_granted:
  "grantedOrFailure t m (r, s) = Some (out, s') \<Longrightarrow> stable t s s'"
  using stable_success stable_failure by (auto simp: grantedOrFailure_def split: option.splits)

lemma stable_conflict:
  assumes "internalConflict t i m cw cur b d s = Some (out, s')"
  shows "stable t s s'"
proof -
  have enq: "stable t s s'" if "internalEnqueue t i m cur b s = Some (got, s1)"
    "(case got of None \<Rightarrow> internalFailure t insufficient_memory s1
        | Some n \<Rightarrow> Some (LockMustWait n (case cur of Some c \<Rightarrow> c | None \<Rightarrow> n), s1)) = Some (out, s')" for got s1
    using stable_enqueue [OF that(1)] stable_trans [OF _ stable_failure] that(2) by (cases got) auto
  have conv: "stable t s s'" if "internalConvert i m c s = Some s1" "internalSuccess t m c s1 = Some (out, s')" for c s1
    using stable_trans [OF stable_internalConvert [OF that(1)] stable_success [OF that(2)]] .
  have fail: "stable t s s'" if "(if d then toLightMode i s else Some s) = Some s1"
    "internalFailure t smERR_ABORT_smcExceedLockTimeWait s1 = Some (out, s')" for s1
    using that frozen_stable_trans [OF frozen_toLightMode stable_failure] stable_failure by (auto split: if_splits)
  show ?thesis
    using assms enq conv fail unfolding internalConflict_def by (auto simp: bind_eq_Some_conv split: if_splits)
qed

lemma stable_internal:
  assumes "lockTableInternal t i m cw cur b s = Some (out, s')"
  shows "stable t s s'"
proof -
  let ?light = "mItemFlag (item s i) = SML_FLAG_LIGHT_MODE"
  have lg: "stable t s s'" if "lightGrant t i m cur b s = Some r" "grantedOrFailure t m r = Some (out, s')" for r
    using stable_trans [OF stable_lightGrant stable_granted] that by (cases r) auto
  have hv: "stable t s s1" if "(if ?light then toHeavyMode i s else Some s) = Some s1" for s1
    using that frozen_stable [OF frozen_toHeavyMode] by (auto split: if_splits)
  have ig: "stable t s1 s'" if "internalGrant t i m cur b s1 = Some r" "grantedOrFailure t m r = Some (out, s')" for r s1
    using stable_trans [OF stable_internalGrant stable_granted] that by (cases r) auto
  from assms show ?thesis
    unfolding lockTableInternal_def Let_def
    using lg stable_trans [OF hv ig] stable_trans [OF hv stable_conflict] by (auto simp: bind_eq_Some_conv split: if_splits)
qed

lemma stable_request: "lockTable_request t i m cw cur b s = Some (out, s') \<Longrightarrow> stable t s s'"
proof -
  assume "lockTable_request t i m cw cur b s = Some (out, s')"
  then obtain o1 s1 where s1: "lockTableInternal t i m cw cur b s = Some (o1, s1)"
    "(case o1 of LockMustWait n c \<Rightarrow> Some (o1, waitForLock_block t s1) | _ \<Rightarrow> Some (o1, s1)) = Some (out, s')"
    by (auto simp: lockTable_request_def bind_eq_Some_conv)
  then show ?thesis using stable_internal [OF s1(1)] by (cases o1) (auto simp: waitForLock_block_def)
qed

lemma stable_lockTable:
  assumes "lockTable props t (Some i) m b s = Some (r, s')"
  shows "stable t s s'"
proof -
  have lg: "stable t s s'" if "lightGrant t i m cur b s = Some (Some n, s1)"
    "setLockModeAndAddLockSlot t (Some n) m True s1 = Some (cm, sl, s')" for cur n s1 cm sl
    using stable_trans [OF stable_lightGrant [OF that(1)] stable_success [of t m n s1]] that(2)
    by (simp add: internalSuccess_def)
  from assms show ?thesis
    unfolding lockTable_def using lg stable_lightGrant
    by (auto simp: bind_eq_Some_conv split: if_splits option.splits)
qed

subsection \<open>Releases\<close>

lemma stable_removeLockSlot:
  "removeLockSlot l s = Some s' \<Longrightarrow> mSlotID (node s (fst l)) = t \<Longrightarrow> stable t s s'"
  by (auto simp: removeLockSlot_def Let_def bind_eq_Some_conv stable_def setTransSlots_def)

lemma frozen_decide: "decideNodeMode n s = Some s' \<Longrightarrow> frozen s s'"
  by (auto simp: decideNodeMode_def bind_eq_Some_conv)

lemma frozen_clearNodeFlag [simp]: "frozen s (clearNodeFlag l s') = frozen s s'"
  by (simp add: clearNodeFlag_def)

lemma stable_clearNodeFlag [simp]: "stable t s (clearNodeFlag l s') = stable t s s'"
  by (simp add: clearNodeFlag_def)

lemma stable_unlock_light:
  assumes "unlock_light n sl s = Some (b, s')" "\<And>l. sl = Some l \<Longrightarrow> fst l = n" "mSlotID (node s n) = t"
  shows "stable t s s'"
proof (cases sl)
  case (Some l)
  have slot: "mSlotID (node (clearNodeFlag l s) (fst l)) = t" using assms Some by (simp add: clearNodeFlag_def)
  have rm: "stable t s s1" if "removeLockSlot l (clearNodeFlag l s) = Some s1" for s1
    using stable_trans [OF _ stable_removeLockSlot [OF that slot], of s] by simp
  then show ?thesis
    using assms(1) Some by (auto simp: unlock_light_def bind_eq_Some_conv
        dest!: stable_iff [OF frozen_decide, where s = s and t = t] split: if_splits)
qed (use assms in \<open>simp add: unlock_light_def\<close>)

lemma frozen_unlock_granted: "unlock_granted i n sl s = Some (b, s') \<Longrightarrow> frozen s s'"
  unfolding unlock_granted_def
  by (cases sl) (auto simp: Let_def bind_eq_Some_conv split: if_splits
      dest!: frozen_iff [OF frozen_decide, where s = s] frozen_iff [OF frozen_onItem, where s = s])

lemma stable_unlockTable:
  assumes "unlockTable t an sl s = Some (nx, s')" "an = Some n \<or> an = None"
    "\<And>l. sl = Some l \<Longrightarrow> fst l = n" "mSlotID (node s n) = t"
  shows "stable t s s'"
proof -
  have light: "stable t s s2" if "unlock_light n sl s = Some (b, s1)" "removeIfLinked n s1 = Some s1'"
    "freeLockNode n s1' = Some s2" for b s1 s1' s2
    using stable_frozen_trans [OF stable_frozen_trans [OF stable_unlock_light [OF that(1) assms(3,4)]]]
      frozen_removeIfLinked [OF that(2)] frozen_freeLockNode [OF that(3)] by blast
  have n: "(case an of Some n \<Rightarrow> Some n | None \<Rightarrow> (case sl of Some sl \<Rightarrow> Some (fst sl) | None \<Rightarrow> None)) = Some n'
      \<Longrightarrow> n' = n" for n'
    using assms(2,3) by (auto split: option.splits)
  from assms(1) show ?thesis
    unfolding unlockTable_def Let_def
    using light stable_unlock_light [OF _ assms(3,4)]
    by (auto simp: bind_eq_Some_conv dest!: n split: if_splits)
qed

lemma stable_unlockTableInternal:
  assumes "unlockTableInternal t i n sl b s = Some s'" "\<And>l. sl = Some l \<Longrightarrow> fst l = n"
    "mSlotID (node s n) = t" "n < mNextLockNode s"
  shows "stable t s s'"
proof -
  let ?rest = "\<lambda>doFree s1. do {
        let s2 = (if doFree \<and> mCvsLockNode (node s1 n) = None
                  then clearWaitTableRows (slotsOf s1 (mLockRequest (item s1 i))) t s1 else s1);
        s3 \<leftarrow> (if unlinkAll i s2 then toLightMode i s2 else wakeupRequestLockNodeInLockItem i s2);
        s4 \<leftarrow> (case sl of Some sl \<Rightarrow> removeLockSlot sl s3 | None \<Rightarrow> Some s3);
        unlock_complete n doFree s4 }"
  have heavy: "stable t s s'" if "?rest doFree s1 = Some s'" "frozen s s1" for doFree s1
  proof -
    define s2 where "s2 = (if doFree \<and> mCvsLockNode (node s1 n) = None
                  then clearWaitTableRows (slotsOf s1 (mLockRequest (item s1 i))) t s1 else s1)"
    have run: "do {
        s3 \<leftarrow> (if unlinkAll i s2 then toLightMode i s2 else wakeupRequestLockNodeInLockItem i s2);
        s4 \<leftarrow> (case sl of Some sl \<Rightarrow> removeLockSlot sl s3 | None \<Rightarrow> Some s3);
        unlock_complete n doFree s4 } = Some s'"
      using that(1) by (simp only: Let_def s2_def)
    obtain s3 s4 where s3: "(if unlinkAll i s2 then toLightMode i s2 else wakeupRequestLockNodeInLockItem i s2) = Some s3"
      and s4: "(case sl of Some sl \<Rightarrow> removeLockSlot sl s3 | None \<Rightarrow> Some s3) = Some s4"
      and fin: "unlock_complete n doFree s4 = Some s'"
      using run unfolding bind_eq_Some_conv by blast
    have "frozen s s2" using that(2) frozen_iff [OF frozen_clearRows, of s] by (simp add: s2_def)
    moreover have "frozen s2 s3"
      using s3 frozen_toLightMode frozen_wakeup_loop
      by (auto simp: wakeupRequestLockNodeInLockItem_def split: if_splits)
    ultimately have f3: "frozen s s3" using frozen_trans by blast
    then have "mSlotID (node s3 n) = t" using assms(3) by (simp add: frozen_def)
    then have "stable t s3 s4" using s4 stable_removeLockSlot assms(2) by (cases sl) auto
    then show ?thesis
      using stable_frozen_trans [OF frozen_stable_trans [OF f3] frozen_complete [OF fin]] by blast
  qed
  have light: "stable t s s'" if "unlock_light n sl s = Some (doFree, s1)" "unlock_complete n doFree s1 = Some s'" for doFree s1
    using stable_frozen_trans [OF stable_unlock_light [OF that(1) assms(2,3)] frozen_complete [OF that(2)]] .
  consider "mDoRemove (node s n)" | "\<not> mDoRemove (node s n)" "mItemFlag (item s i) = SML_FLAG_LIGHT_MODE"
    | "\<not> mDoRemove (node s n)" "mItemFlag (item s i) \<noteq> SML_FLAG_LIGHT_MODE" by blast
  then show ?thesis
  proof cases
    case 1
    then show ?thesis using assms(1) frozen_stable [OF frozen_complete]
      by (auto simp: unlockTableInternal_def bind_eq_Some_conv)
  next
    case 2
    then show ?thesis using assms(1) light by (auto simp: unlockTableInternal_def bind_eq_Some_conv)
  next
    case 3
    obtain doFree s1 where first: "(if mBeGrant (node s n) then unlock_granted i n sl s
        else Some (True, unlock_requested i n s)) = Some (doFree, s1)" and rest: "?rest doFree s1 = Some s'"
      using assms(1) 3 unfolding unlockTableInternal_def by (auto simp only: bind_eq_Some_conv if_False)
    have "frozen s s1" using first frozen_unlock_granted by (auto simp: unlock_requested_def split: if_splits)
    then show ?thesis using heavy [OF rest] by blast
  qed
qed

end
