(* ===== verification/LockSpec.thy ===== *)
theory LockSpec
  imports LockViews
begin

text \<open>
  What the lock manager promises its callers, as an abstract table that only says which locks
  each transaction has, and the proof that every step of the concrete lock manager is a step of
  that table.
\<close>

subsection \<open>The abstract lock table\<close>

text \<open>The locks of each transaction, in the order it took them.\<close>

type_synonym lockTab = "slot_id \<Rightarrow> (item_id \<times> smlLockMode) list"

definition mayTake :: "lockTab \<Rightarrow> slot_id \<Rightarrow> item_id \<Rightarrow> smlLockMode \<Rightarrow> bool" where
  "mayTake A t i m \<longleftrightarrow> (\<forall>u m'. u \<noteq> t \<and> (i, m') \<in> set (A u) \<longrightarrow> compatible m m')"

inductive tabStep :: "slot_id \<Rightarrow> lockTab \<Rightarrow> lockTab \<Rightarrow> bool" for t :: slot_id where
  keep: "tabStep t A A"
| take: "mayTake A t i m \<Longrightarrow> tabStep t A (A(t := A t @ [(i, m)]))"
| drop: "l \<in> set (A t) \<Longrightarrow> tabStep t A (A(t := remove1 l (A t)))"
| finish: "tabStep t A (A(t := []))"

text \<open>Two transactions never have incompatible locks on one item.\<close>

definition tabSafe :: "lockTab \<Rightarrow> bool" where
  "tabSafe A \<longleftrightarrow> (\<forall>t u i m m'. t \<noteq> u \<and> (i, m) \<in> set (A t) \<and> (i, m') \<in> set (A u) \<longrightarrow> compatible m m')"

lemma tabStep_safe: "tabStep t A A' \<Longrightarrow> tabSafe A \<Longrightarrow> tabSafe A'"
proof (induction rule: tabStep.induct)
  case (take A i m)
  have *: "compatible m' m" if "u \<noteq> t" "(i, m') \<in> set (A u)" for u m'
    using take(1) that compatible_sym by (auto simp: mayTake_def)
  show ?case
    unfolding tabSafe_def
  proof (intro allI impI, elim conjE)
    fix v u j k k' assume vu: "v \<noteq> u" and k: "(j, k) \<in> set ((A(t := A t @ [(i, m)])) v)"
      "(j, k') \<in> set ((A(t := A t @ [(i, m)])) u)"
    show "compatible k k'"
    proof (cases "(j, k) \<in> set (A v) \<and> (j, k') \<in> set (A u)")
      case True
      then show ?thesis using take(2) vu unfolding tabSafe_def by blast
    next
      case False
      then show ?thesis using k vu * [of u k'] * [of v k] compatible_sym by (auto split: if_splits)
    qed
  qed
next
  case (drop l A)
  have "set ((A(t := remove1 l (A t))) v) \<subseteq> set (A v)" for v using set_remove1_subset [of l "A t"] by simp
  then show ?case using drop(2) unfolding tabSafe_def by blast
qed (auto simp: tabSafe_def)


subsection \<open>The view of the concrete state\<close>

text \<open>A transaction that is releasing its locks at its end counts as having none.\<close>

definition locksOf :: "lockState \<Rightarrow> lock_slot list \<Rightarrow> (item_id \<times> smlLockMode) list" where
  "locksOf s ls = map (\<lambda>(n, m). (mLockItem (node s n), m)) ls"

definition view :: "phases \<Rightarrow> lockState \<Rightarrow> lockTab" where
  "view w s = (\<lambda>t. if t < mTransCnt s \<and> w t \<noteq> TxEnding then locksOf s (mTransLockSlots s t) else [])"

lemma locksOf_append [simp]: "locksOf s (xs @ ys) = locksOf s xs @ locksOf s ys"
  by (simp add: locksOf_def)

lemma locksOf_cong: "(\<And>n m. (n, m) \<in> set ls \<Longrightarrow> mLockItem (node s' n) = mLockItem (node s n)) \<Longrightarrow> locksOf s' ls = locksOf s ls"
  by (auto simp: locksOf_def)

lemma map_remove1_inj: "inj_on f (set xs) \<Longrightarrow> x \<in> set xs \<Longrightarrow> map f (remove1 x xs) = remove1 (f x) (map f xs)"
  by (induction xs) (auto simp: inj_on_def)

lemma lockInv_tx:
  assumes "lockInv w s" "t < mTransCnt s"
  shows "stateOk s" "nodesOk s t" "w t \<noteq> TxEnding \<Longrightarrow> slotsOk (pendingSlot (w t)) s t" "itemOk {} w s i" "headStuck s i"
  using assms stateOkD(4) by (auto simp: lockInv_def txOk_def)

lemma slot_held:
  assumes "lockInv w s" "t < mTransCnt s" "w t \<noteq> TxEnding" "(n, m) \<in> set (mTransLockSlots s t)"
  shows "n \<in> heldBy s (mLockItem (node s n)) t" "m \<le> mLockMode (node s n)" "n < mNextLockNode s"
    "m \<noteq> SML_NLOCK"
proof -
  note ok = slotsOkD [OF lockInv_tx(3) [OF assms(1-3)]] and nodes = lockInv_tx(2) [OF assms(1,2)]
  have n: "n \<in> set (mTransLockNodes s t)" "mLockSequence (node s n) m \<noteq> 0" using ok(2) assms(4) by auto
  show "n \<in> heldBy s (mLockItem (node s n)) t" using n by (simp add: heldBy_def)
  show "n < mNextLockNode s" using nodesOkD(1) [OF nodes n(1)] .
  have "m \<le> lubModes (slotModes s t n \<union> pendingSlot (w t) n)" by (rule lubModes_upper) (use assms(4) in simp)
  then show "m \<le> mLockMode (node s n)" using ok(4) [OF n(1)] by (rule order.trans)
  show "m \<noteq> SML_NLOCK" using ok(5) [OF n(1)] n(2) by auto
qed

text \<open>Two transactions' nodes on one item are compatible.\<close>

lemma held_compatible:
  assumes inv: "lockInv w s" and t: "t < mTransCnt s" and u: "u < mTransCnt s" "t \<noteq> u"
    and n: "n \<in> heldBy s i t" "n' \<in> heldBy s i u"
  shows "compatible (mLockMode (node s n)) (mLockMode (node s n'))"
proof (cases "mItemFlag (item s i) = SML_FLAG_LIGHT_MODE")
  case True
  then have "lightItem {} w s i" using lockInv_tx(4) [OF inv t] by (simp add: itemOk_def)
  then show ?thesis
    using n t u(1) by (intro lightMode_compatible) (auto simp: lightItem_def heldOn_def)
next
  case False
  note G = grantsOkD [OF itemOk_heavyD(1) [OF lockInv_tx(4) [OF inv t] False]]
  have "n \<noteq> n'" using held_unique [OF lockInv_tx(1) [OF inv t] t u(1), of n i i] n u(2) by auto
  moreover have "n \<in> set (mLockGrant (item s i))" "n' \<in> set (mLockGrant (item s i))"
    using G(2) n t u(1) by (auto simp: heldOn_def)
  ultimately show ?thesis using G(6) by (auto simp: compatibleNodes_def)
qed

lemma view_mem:
  assumes "(i, m) \<in> set (view w s t)"
  obtains n where "t < mTransCnt s" "w t \<noteq> TxEnding" "(n, m) \<in> set (mTransLockSlots s t)" "mLockItem (node s n) = i"
  using assms by (auto simp: view_def locksOf_def split: if_splits)

lemma view_safe:
  assumes inv: "lockInv w s"
  shows "tabSafe (view w s)"
  unfolding tabSafe_def
proof (intro allI impI, elim conjE)
  fix t u i m m' assume tu: "t \<noteq> u" and m: "(i, m) \<in> set (view w s t)" and m': "(i, m') \<in> set (view w s u)"
  obtain n where n: "t < mTransCnt s" "w t \<noteq> TxEnding" "(n, m) \<in> set (mTransLockSlots s t)" "mLockItem (node s n) = i"
    using view_mem [OF m] .
  obtain n' where n': "u < mTransCnt s" "w u \<noteq> TxEnding" "(n', m') \<in> set (mTransLockSlots s u)" "mLockItem (node s n') = i"
    using view_mem [OF m'] .
  note h = slot_held [OF inv n(1-3)] and h' = slot_held [OF inv n'(1-3)]
  have "compatible (mLockMode (node s n)) (mLockMode (node s n'))"
    by (rule held_compatible [OF inv n(1) n'(1) tu]) (use h(1) h'(1) n(4) n'(4) in simp_all)
  then show "compatible m m'"
    using h(2) h'(2) compatible_mono compatible_sym by blast
qed


subsection \<open>Every step of the lock manager is a step of the table\<close>

text \<open>What a step of \<open>t\<close> does to its own slots.\<close>

definition ownSlots :: "slot_id \<Rightarrow> lockState \<Rightarrow> lockState \<Rightarrow> bool" where
  "ownSlots t s s' \<longleftrightarrow> mTransLockSlots s' t = mTransLockSlots s t \<or>
     (\<exists>l. mTransLockSlots s' t = mTransLockSlots s t @ [l]) \<or>
     (\<exists>l \<in> set (mTransLockSlots s t). mTransLockSlots s' t = remove1 l (mTransLockSlots s t))"

lemma released_slots: "released t n sl s s' \<Longrightarrow> mTransLockSlots s' t =
    (case sl of None \<Rightarrow> mTransLockSlots s t | Some l \<Rightarrow> remove1 l (mTransLockSlots s t))"
  by (cases sl) (simp_all add: released_def slotReleased_def)

lemma stable_more: "waitState.more s' = waitState.more s \<Longrightarrow> stable t s s'"
  by (rule frozen_stable [OF frozen_more])

lemma stable_giveUp:
  assumes inv: "lockInv w s" and t: "t < mTransCnt s" and w: "w t = TxWaiting i m n c k"
    and run: "lockTable_giveUp t n s = Some (out, s')"
  shows "stable t s s'"
proof -
  have "waitingOk s t i m n c" using inv t w by (auto simp: lockInv_def txOk_def phaseOk_def)
  then have n: "mSlotID (node s n) = t" "n < mNextLockNode s"
    using nodesOkD(1,2) [OF lockInv_tx(2) [OF inv t], of n]
    by (auto simp: waitingOk_def requestNode_def split: if_splits)
  define s0 where "s0 = setStatus t SMX_TX_BEGIN s"
  obtain s1 where s1: "unlockTable_run t (Some n) None False s0 = Some s1" "internalFailure t err_wait_lock s1 = Some (out, s')"
    using run by (auto simp: lockTable_giveUp_def lockTable_failed_def waitForLock_failed_def bind_eq_Some_conv s0_def)
  have n0: "mSlotID (node s0 n) = t" "n < mNextLockNode s0" using n by (simp_all add: s0_def)
  obtain nx s2 where s2: "unlockTable t (Some n) None s0 = Some (nx, s2)"
    "(case nx of UnlockDone \<Rightarrow> Some s2
     | UnlockInternal n \<Rightarrow> unlockTableInternal t (mLockItem (node s2 n)) n None False s2) = Some s1"
    using s1(1) by (auto simp: unlockTable_run_def bind_eq_Some_conv)
  have st2: "stable t s0 s2" by (rule stable_unlockTable [OF s2(1), of n]) (use n0 in simp_all)
  then have n2: "mSlotID (node s2 n) = t" "n < mNextLockNode s2" using n0 by (auto simp: stable_def)
  have nx: "nx' = n" if "nx = UnlockInternal nx'" for nx'
    using s2(1) that by (auto simp: unlockTable_def Let_def bind_eq_Some_conv split: if_splits)
  have "stable t s2 s1"
  proof (cases nx)
    case (UnlockInternal nx')
    then show ?thesis
      using stable_unlockTableInternal [of t _ n None False s2 s1] s2(2) nx n2 by simp
  qed (use s2(2) in simp)
  then have "stable t s0 s'" using stable_trans [OF stable_trans [OF st2] stable_failure [OF s1(2)]] by blast
  moreover have "stable t s s0" by (simp add: s0_def)
  ultimately show ?thesis by (rule stable_trans [rotated])
qed

lemma stable_resume:
  assumes "lockTable_resume t i m n c s = Some (out, s')"
  shows "stable t s s'"
proof -
  obtain s1 s2 s3 where s1: "clearWaitItemColsOfTrans True t s = Some s1" "s2 = setStatus t SMX_TX_BEGIN s1"
    and s3: "s3 = s2 \<or> freeLockNode n s2 = Some s3" "internalSuccess t m c s3 = Some (out, s')"
    using assms by (auto simp: lockTable_resume_def waitForLock_waked_def lockTable_waked_def bind_eq_Some_conv split: if_splits)
  have "frozen s s2" using frozen_clearRow [OF s1(1)] s1(2) by simp
  moreover have "frozen s2 s3" using s3(1) frozen_freeLockNode by auto
  ultimately show ?thesis using frozen_stable_trans [OF frozen_trans stable_success [OF s3(2)]] by blast
qed

text \<open>The slots after a step of a transaction that is not at its end.\<close>

lemma lockStep_slots:
  assumes step: "lockStep props trs t (w, s) (w', s')" and inv: "lockInv w s" and w: "w t \<noteq> TxEnding"
  shows "stable t s s' \<and> ownSlots t s s'"
  using step inv w
proof (cases rule: lockStep.cases)
  case (light m i b out)
  from lockTable_ok [OF inv light(2-5), of props i b] light(6) stable_lockTable [OF light(6)]
  show ?thesis by (auto simp: ownSlots_def)
next
  case (request m i cur canWait b out)
  have w: "w t = TxRunning \<or> w t = TxEnding" using request(2) by simp
  note slots = lockInv_out(5) [OF inv request(1) w request(2)]
  from findLockNode_ok [OF lockInv_tx(2) [OF inv request(1)], of i] request(5)
  have "heldBy s i t = (case cur of None \<Rightarrow> {} | Some n \<Rightarrow> {n})" by auto
  note cur = curOk_find [OF this slots request(6)]
  from request_ok [OF inv request(1,2,3) cur request(4), of canWait b] request(7)
  have "outcomeOk w t i m s out s'" by auto
  then show ?thesis using stable_request [OF request(7)] by (cases out) (auto simp: outcomeOk_def ownSlots_def)
next
  case (resume i m n c k out)
  from resume_ok [OF inv resume(2-5)] resume(6) stable_resume [OF resume(6)] show ?thesis by (auto simp: ownSlots_def)
next
  case (check i m n c)
  from check_ok [OF inv check(2-4), of trs] check(5) have "onlyRow t s s'" by auto
  then have more: "waitState.more s' = waitState.more s" by (simp add: onlyRow_def)
  then show ?thesis using stable_more more_lock(4) [OF more] by (simp add: ownSlots_def)
next
  case (deadlock i m n c s1 out)
  from check_ok [OF inv deadlock(2-4), of trs] deadlock(5) onlyRow_TransCnt [of t s s1]
  have s1: "lockInv (w(t := TxWaiting i m n c True)) s1" "mTransCnt s1 = mTransCnt s" "onlyRow t s s1" by auto
  then have more: "waitState.more s1 = waitState.more s" by (simp add: onlyRow_def)
  have w1: "(w(t := TxWaiting i m n c True)) t = TxWaiting i m n c True" by simp
  have t1: "t < mTransCnt s1" using deadlock(2) s1(2) by simp
  from giveUp_ok [OF s1(1) t1 w1] deadlock(6) have "mTransLockSlots s' t = mTransLockSlots s1 t" by auto
  moreover have "stable t s s'"
    using stable_trans [OF stable_more [OF more] stable_giveUp [OF s1(1) t1 w1 deadlock(6)]] .
  ultimately show ?thesis using more_lock(4) [OF more] by (simp add: ownSlots_def)
next
  case (giveUp i m n c k out)
  from giveUp_ok [OF inv giveUp(2,3)] giveUp(4) have "mTransLockSlots s' t = mTransLockSlots s t" by auto
  then show ?thesis using stable_giveUp [OF inv giveUp(2-4)] by (simp add: ownSlots_def)
next
  case (unlock l nx)
  obtain n m where l: "l = (n, m)" by (cases l)
  have n: "n \<in> set (mTransLockNodes s t)" "mSlotID (node s n) = t"
    using slot_held(1) [OF inv unlock(2) w, of n m] unlock(4) l nodesOkD(2) [OF lockInv_tx(2) [OF inv unlock(2)]]
    by (auto simp: heldBy_def)
  have "\<exists>nx s'. unlockTable t None (Some l) s = Some (nx, s') \<and> lockInv w s' \<and> mTransCnt s' = mTransCnt s \<and>
      others t s s' \<and> (nx = UnlockInternal n \<and> s' = s \<or> nx = UnlockDone \<and> released t n (Some l) s s')"
    by (rule unlock_inv(1) [OF inv unlock(2) _ n(1)]) (use unlock(3,4) l in auto)
  then have "s' = s \<or> mTransLockSlots s' t = remove1 l (mTransLockSlots s t)"
    using unlock(5) released_slots [of t n "Some l" s s'] by auto
  moreover have "stable t s s'" by (rule stable_unlockTable [OF unlock(5), of n]) (use l n(2) in auto)
  ultimately show ?thesis using unlock(4) by (auto simp: ownSlots_def)
next
  case (unlockInternal n m)
  have n: "n \<in> set (mTransLockNodes s t)" "mSlotID (node s n) = t" "n < mNextLockNode s"
    using slot_held(1) [OF inv unlockInternal(2) w unlockInternal(4)] nodesOkD(1,2) [OF lockInv_tx(2) [OF inv unlockInternal(2)]]
    by (auto simp: heldBy_def)
  have "\<exists>s'. unlockTableInternal t (mLockItem (node s n)) n (Some (n, m)) True s = Some s' \<and> lockInv w s' \<and>
      mTransCnt s' = mTransCnt s \<and> others t s s' \<and> released t n (Some (n, m)) s s'"
    by (rule unlock_inv(2) [OF inv unlockInternal(2) _ n(1), of _ "Some n"]) (use unlockInternal(3,4) in auto)
  then have "mTransLockSlots s' t = remove1 (n, m) (mTransLockSlots s t)"
    using unlockInternal(5) released_slots [of t n "Some (n, m)" s s'] by auto
  moreover have "stable t s s'" by (rule stable_unlockTableInternal [OF unlockInternal(5)]) (use n in auto)
  ultimately show ?thesis using unlockInternal(4) by (auto simp: ownSlots_def)
qed (simp_all add: ownSlots_def)

lemma lockStep_t: "lockStep props trs t (w, s) (w', s') \<Longrightarrow> t < mTransCnt s"
  by (auto elim: lockStep.cases)

lemma lockStep_ending:
  assumes "lockStep props trs t (w, s) (w', s')" "w t \<noteq> TxEnding" "w' t = TxEnding"
  shows "s' = s \<and> w' = w(t := TxEnding)"
  using assms by (cases rule: lockStep.cases) (auto split: lockOutcome.splits)

lemma lockStep_begin:
  assumes "lockStep props trs t (w, s) (w', s')" "w t = TxEnding" "w' t \<noteq> TxEnding"
  shows "s' = initTransLockList t s"
  using assms by (cases rule: lockStep.cases) auto

lemma lockStep_stable_end:
  assumes step: "lockStep props trs t (w, s) (w', s')" and inv: "lockInv w s" and w: "w t = TxEnding" "w' t = TxEnding"
  shows "stable t s s'"
  using step inv w
proof (cases rule: lockStep.cases)
  case (free n nx)
  then show ?thesis
    using stable_unlockTable [OF free(5), of n] nodesOkD(2) [OF lockInv_tx(2) [OF inv free(2)] free(4)] by simp
next
  case (freeInternal n)
  then show ?thesis
    using stable_unlockTableInternal [OF freeInternal(5)] nodesOkD(1,2) [OF lockInv_tx(2) [OF inv freeInternal(2)] freeInternal(4)]
    by simp
qed auto

lemma view_other:
  assumes inv: "lockInv w s" and ok: "stepOk t (w, s) (w', s')" and st: "stable t s s'" and u: "u \<noteq> t"
  shows "view w' s' u = view w s u"
proof (cases "u < mTransCnt s \<and> w u \<noteq> TxEnding")
  case True
  have N: "mTransCnt s' = mTransCnt s" and wu: "w' u = w u" using ok u by (simp_all add: stepOk_def)
  have slots: "mTransLockSlots s' u = mTransLockSlots s u" using st u by (simp add: stable_def)
  have "locksOf s' (mTransLockSlots s u) = locksOf s (mTransLockSlots s u)"
    by (rule locksOf_cong) (use slot_held(3) [OF inv] True st in \<open>auto simp: stable_def\<close>)
  then show ?thesis using N wu slots by (simp add: view_def)
next
  case False
  then show ?thesis using ok u by (auto simp: view_def stepOk_def)
qed

lemma locks_inj:
  assumes "lockInv w s" "t < mTransCnt s" "w t \<noteq> TxEnding"
  shows "inj_on (\<lambda>(n, m). (mLockItem (node s n), m)) (set (mTransLockSlots s t))"
proof (rule inj_onI, clarsimp)
  fix n m n' assume "(n, m) \<in> set (mTransLockSlots s t)" "(n', m) \<in> set (mTransLockSlots s t)"
    and eq: "mLockItem (node s n) = mLockItem (node s n')"
  then have "n \<in> set (mTransLockNodes s t)" "n' \<in> set (mTransLockNodes s t)"
    using slot_held(1) [OF assms] by (auto simp: heldBy_def)
  moreover have "inj_on (\<lambda>n. mLockItem (node s n)) (set (mTransLockNodes s t))"
    using lockInv_tx(2) [OF assms(1,2)] by (simp add: nodesOk_def distinct_map)
  ultimately show "n = n'" using eq by (auto dest: inj_onD)
qed

lemma step_refines:
  assumes step: "lockStep props trs t (w, s) (w', s')" and inv: "lockInv w s"
  shows "tabStep t (view w s) (view w' s')"
proof -
  have t: "t < mTransCnt s" using lockStep_t [OF step] .
  have ok: "stepOk t (w, s) (w', s')" by (rule lockStep_ok [OF step inv])
  then have N: "mTransCnt s' = mTransCnt s" and inv': "lockInv w' s'" and wu: "\<And>u. u \<noteq> t \<Longrightarrow> w' u = w u"
    by (simp_all add: stepOk_def)
  show ?thesis
  proof (cases "w t = TxEnding")
    case True
    have st: "stable t s s'" if "w' t \<noteq> TxEnding"
      using lockStep_begin [OF step True that] by (simp add: stable_def initTransLockList_def)
    show ?thesis
    proof (cases "w' t = TxEnding")
      case False
      have "view w' s' = view w s"
      proof
        fix u show "view w' s' u = view w s u"
          using view_other [OF inv ok st [OF False]] lockStep_begin [OF step True False] True
          by (cases "u = t") (auto simp: view_def locksOf_def initTransLockList_def)
      qed
      then show ?thesis by (simp add: tabStep.keep)
    next
      case end': True
      have "view w' s' = view w s"
      proof
        fix u show "view w' s' u = view w s u"
        proof (cases "u = t")
          case False
          then show ?thesis using view_other [OF inv ok lockStep_stable_end [OF step inv True end']] by blast
        qed (use True end' in \<open>simp add: view_def\<close>)
      qed
      then show ?thesis by (simp add: tabStep.keep)
    qed
  next
    case False
    from lockStep_slots [OF step inv False] have st: "stable t s s'" and own: "ownSlots t s s'" by blast+
    have view': "view w' s' = (view w s)(t := view w' s' t)"
      using view_other [OF inv ok st] by (simp add: fun_eq_iff)
    show ?thesis
    proof (cases "w' t = TxEnding")
      case True
      then have "view w' s' t = []" by (simp add: view_def)
      then show ?thesis using view' tabStep.finish [of t "view w s"] by simp
    next
      case run: False
      have v: "view w s t = locksOf s (mTransLockSlots s t)" "view w' s' t = locksOf s' (mTransLockSlots s' t)"
        using t N False run by (simp_all add: view_def)
      have old: "locksOf s' ls = locksOf s ls" if "set ls \<subseteq> set (mTransLockSlots s t)" for ls
        by (rule locksOf_cong) (use slot_held(3) [OF inv t False] that st in \<open>auto simp: stable_def\<close>)
      from own consider "mTransLockSlots s' t = mTransLockSlots s t"
        | n m where "mTransLockSlots s' t = mTransLockSlots s t @ [(n, m)]"
        | l where "l \<in> set (mTransLockSlots s t)" "mTransLockSlots s' t = remove1 l (mTransLockSlots s t)"
        unfolding ownSlots_def by fast
      then show ?thesis
      proof cases
        case 1
        then have "view w' s' t = view w s t" using v old by simp
        then have "view w' s' = view w s" using view' by simp
        then show ?thesis by (simp add: tabStep.keep)
      next
        case 2
        let ?l = "(mLockItem (node s' n), m)"
        have vt: "view w' s' t = view w s t @ [?l]"
          using v old [OF order_refl] 2 locksOf_append [of s' "mTransLockSlots s t" "[(n, m)]"] by (simp add: locksOf_def [of s' "[_]"])
        have "mayTake (view w s) t (mLockItem (node s' n)) m"
          unfolding mayTake_def
        proof (intro allI impI, elim conjE)
          fix u m' assume u: "u \<noteq> t" "(mLockItem (node s' n), m') \<in> set (view w s u)"
          then have "(mLockItem (node s' n), m') \<in> set (view w' s' u)" using view_other [OF inv ok st] by simp
          moreover have "?l \<in> set (view w' s' t)" using vt by simp
          ultimately show "compatible m m'" using view_safe [OF inv'] u(1) unfolding tabSafe_def by metis
        qed
        from tabStep.take [OF this] show ?thesis using view' vt by simp
      next
        case 3
        let ?f = "\<lambda>(n, m). (mLockItem (node s n), m)"
        have "view w' s' t = remove1 (?f l) (view w s t)"
          using v old [of "remove1 l (mTransLockSlots s t)"] 3 map_remove1_inj [OF locks_inj [OF inv t False] 3(1)]
            set_remove1_subset [of l "mTransLockSlots s t"] by (simp add: locksOf_def [of s])
        moreover have "?f l \<in> set (view w s t)" using v(1) 3(1) by (force simp: locksOf_def)
        ultimately show ?thesis using view' tabStep.drop [of "?f l" "view w s" t] by simp
      qed
    qed
  qed
qed

end
