(* ===== verification/LockDeadlock.thy ===== *)
theory LockDeadlock
  imports LockSpec
begin

text \<open>
  Deadlocks between the transactions of the lock protocol: the search that \<open>waitForLock\<close> makes
  once per wait finds every cycle, because the transaction that was blocked last searches when all
  others of the cycle are blocked already.  Request nodes are numbered as they are allocated, so
  the number of a transaction's request says when it was blocked.
\<close>

definition blocked :: "lockState \<Rightarrow> slot_id set" where
  "blocked s = {t. t < mTransCnt s \<and> mStatus s t = SMX_TX_BLOCKED}"

definition requestNo :: "phases \<Rightarrow> slot_id \<Rightarrow> node_id" where
  "requestNo w t = (case w t of TxWaiting i m n c k \<Rightarrow> n | _ \<Rightarrow> 0)"

text \<open>The search of \<open>t\<close> is still to come.\<close>

definition searchPending :: "phases \<Rightarrow> slot_id \<Rightarrow> bool" where
  "searchPending w t = (case w t of TxWaiting i m n c k \<Rightarrow> \<not> k | _ \<Rightarrow> False)"

text \<open>The waits recorded between blocked transactions.\<close>

definition blockedWaits :: "lockState \<Rightarrow> (slot_id \<times> slot_id) set" where
  "blockedWaits s = {(u, v). u \<in> blocked s \<and> v \<in> blocked s \<and> idx s u v = 1}"

definition olderWaits :: "phases \<Rightarrow> lockState \<Rightarrow> node_id \<Rightarrow> (slot_id \<times> slot_id) set" where
  "olderWaits w s n = {(u, v) \<in> blockedWaits s. requestNo w u \<le> n \<and> requestNo w v \<le> n}"

text \<open>A blocked transaction that is linked in a row with a cleared entry was blocked after the
  row's owner; no transaction that has searched is on a cycle of earlier requests.\<close>

definition searchInv :: "phases \<Rightarrow> lockState \<Rightarrow> bool" where
  "searchInv w s \<longleftrightarrow> (\<forall>t \<in> blocked s.
     (\<forall>z \<in> blocked s. nxt s t z \<noteq> ID_USHORT_MAX \<and> idx s t z = 0 \<longrightarrow> requestNo w t < requestNo w z) \<and>
     (\<not> searchPending w t \<longrightarrow> (t, t) \<notin> (olderWaits w s (requestNo w t))\<^sup>+))"

lemma blocked_waiting:
  assumes inv: "lockInv w s" and t: "t \<in> blocked s"
  obtains i m n c k where "w t = TxWaiting i m n c k" "requestNo w t = n" "requestNode s t i m n"
proof -
  have t': "t < mTransCnt s" "mStatus s t = SMX_TX_BLOCKED" using t by (simp_all add: blocked_def)
  then have "phaseOk w s t" using inv by (simp add: lockInv_def txOk_def)
  then obtain i m n c k where w: "w t = TxWaiting i m n c k" "waitingOk s t i m n c"
    using t'(2) by (cases "w t") (auto simp: phaseOk_def)
  then have "requestNode s t i m n" using t'(2) by (auto simp: waitingOk_def split: if_splits)
  then show ?thesis using that w(1) by (simp add: requestNo_def)
qed

lemma requestNo_bound: "lockInv w s \<Longrightarrow> t \<in> blocked s \<Longrightarrow> requestNo w t < mNextLockNode s"
  by (erule blocked_waiting) (auto simp: requestNode_def)

subsection \<open>Every step keeps the invariant\<close>

text \<open>Others stay blocked with the same request; their rows only lose entries of \<open>t\<close>.\<close>

lemma blocked_other:
  assumes ok: "stepOk t (w, s) (w', s')" and v: "v \<in> blocked s'" "v \<noteq> t"
  shows "v \<in> blocked s" "requestNo w' v = requestNo w v" "searchPending w' v = searchPending w v"
    "nxt s' v u = nxt s v u" "idx s' v u = idx s v u \<or> idx s' v u = 0 \<and> u = t"
  using ok v unfolding stepOk_def others_def quiet_def
  by (auto simp: blocked_def requestNo_def searchPending_def)

text \<open>After a step \<open>t\<close> is not blocked, or has a request that is younger than all others, or
  keeps the one it has.\<close>

definition freshRequest :: "slot_id \<Rightarrow> phases \<Rightarrow> lockState \<Rightarrow> phases \<Rightarrow> lockState \<Rightarrow> bool" where
  "freshRequest t w s w' s' \<longleftrightarrow> (t \<in> blocked s' \<longrightarrow> mNextLockNode s \<le> requestNo w' t \<and>
     searchPending w' t \<and> (\<forall>z < mTransCnt s'. nxt s' t z \<noteq> ID_USHORT_MAX \<longrightarrow> idx s' t z = 1))"

definition searched :: "slot_id \<Rightarrow> phases \<Rightarrow> lockState \<Rightarrow> phases \<Rightarrow> lockState \<Rightarrow> bool" where
  "searched t w s w' s' \<longleftrightarrow> t \<in> blocked s \<and> requestNo w' t = requestNo w t \<and>
     (\<exists>xs. waitRow s t xs \<and> (t, t) \<notin> (liveWaits s t xs)\<^sup>+) \<and> (\<forall>v z. v \<noteq> t \<longrightarrow> idx s' v z = idx s v z) \<and>
     (\<forall>z < mTransCnt s. (idx s' t z = 1 \<longrightarrow> idx s t z = 1) \<and>
        (nxt s' t z \<noteq> ID_USHORT_MAX \<and> idx s' t z = 0 \<longrightarrow> nxt s t z \<noteq> ID_USHORT_MAX \<and> idx s t z = 0))"

lemma own_step:
  assumes t: "t < mTransCnt s" and ok: "stepOk t (w, s) (w', s')"
  shows "freshRequest t w s w' s' \<or> searched t w s w' s'"
proof -
  have N: "mTransCnt s' = mTransCnt s" and own: "ownWait t (w, s) (w', s')" using ok by (simp_all add: stepOk_def)
  from own consider "mStatus s' t \<noteq> SMX_TX_BLOCKED"
    | i m c where "w' t = TxWaiting i m (mNextLockNode s) c False"
        "\<forall>z < mTransCnt s. nxt s' t z \<noteq> ID_USHORT_MAX \<longrightarrow> idx s' t z = 1"
    | i m n c xs where "w t = TxWaiting i m n c False" "w' t = TxWaiting i m n c True"
        "mStatus s t = SMX_TX_BLOCKED" "waitRow s t xs" "(t, t) \<notin> (liveWaits s t xs)\<^sup>+"
        "\<forall>v z. v \<noteq> t \<longrightarrow> idx s' v z = idx s v z"
        "\<forall>z < mTransCnt s. (idx s' t z = 1 \<longrightarrow> idx s t z = 1) \<and>
          (nxt s' t z \<noteq> ID_USHORT_MAX \<and> idx s' t z = 0 \<longrightarrow> nxt s t z \<noteq> ID_USHORT_MAX \<and> idx s t z = 0)"
    unfolding ownWait_def prod.case by blast
  then show ?thesis
  proof cases
    case 3
    then have "searched t w s w' s'"
      using t unfolding searched_def by (auto simp: blocked_def requestNo_def)
    then show ?thesis ..
  qed (use N in \<open>auto simp: freshRequest_def blocked_def requestNo_def searchPending_def\<close>)
qed

lemma searched_kept:
  assumes inv: "searchInv w s" and ok: "stepOk t (w, s) (w', s')" and sr: "searched t w s w' s'"
    and lock: "lockInv w s"
  shows "searchInv w' s'"
proof -
  have N: "mTransCnt s' = mTransCnt s" using ok by (simp add: stepOk_def)
  obtain xs where xs: "waitRow s t xs" "(t, t) \<notin> (liveWaits s t xs)\<^sup>+" and t: "t \<in> blocked s"
    using sr by (auto simp: searched_def)
  have no: "requestNo w' v = requestNo w v" "v \<in> blocked s" if "v \<in> blocked s'" for v
    using blocked_other [OF ok that] sr by (cases "v = t"; simp add: searched_def)+
  have edge: "(u, v) \<in> olderWaits w s n" if "(u, v) \<in> olderWaits w' s' n" for u v n
  proof -
    have uv: "u \<in> blocked s'" "v \<in> blocked s'" "idx s' u v = 1" "requestNo w' u \<le> n" "requestNo w' v \<le> n"
      using that by (auto simp: olderWaits_def blockedWaits_def)
    have "idx s u v = 1"
    proof (cases "u = t")
      case True
      then show ?thesis using sr uv(2,3) N by (auto simp: searched_def blocked_def)
    next
      case False
      then show ?thesis using blocked_other(5) [OF ok uv(1), of v] uv(3) by auto
    qed
    then show ?thesis using no uv by (simp add: olderWaits_def blockedWaits_def)
  qed
  then have sub: "olderWaits w' s' n \<subseteq> olderWaits w s n" for n by auto
  have stale: "requestNo w v < requestNo w z"
    if "v \<in> blocked s" "z \<in> blocked s" "nxt s v z \<noteq> ID_USHORT_MAX" "idx s v z = 0" for v z
    using inv that unfolding searchInv_def by blast
  have "olderWaits w s (requestNo w t) \<subseteq> liveWaits s t xs"
  proof
    fix e assume "e \<in> olderWaits w s (requestNo w t)"
    then obtain u v where e: "e = (u, v)" "u \<in> blocked s" "v \<in> blocked s" "idx s u v = 1"
      "requestNo w v \<le> requestNo w t" by (auto simp: olderWaits_def blockedWaits_def)
    have "\<not> (v \<in> set xs \<and> idx s t v = 0)"
    proof
      assume v: "v \<in> set xs \<and> idx s t v = 0"
      have "mTransCnt s \<le> SML_END_ITEM" using lock stateOkD(5) [of s] by (simp add: lockInv_def)
      then have "nxt s t v \<noteq> ID_USHORT_MAX"
        using rowOk_linked [of s t xs v] xs(1) v e(3) by (simp add: waitRow_def blocked_def)
      then show False using stale [OF t e(3)] v e(5) by simp
    qed
    then show "e \<in> liveWaits s t xs" using e by (simp add: liveWaits_def waitsFor_def blocked_def)
  qed
  then have none: "(t, t) \<notin> (olderWaits w s (requestNo w t))\<^sup>+" using xs(2) trancl_mono by blast
  show ?thesis
    unfolding searchInv_def
  proof (intro ballI conjI impI)
    fix v z assume v: "v \<in> blocked s'" and z: "z \<in> blocked s'" and l: "nxt s' v z \<noteq> ID_USHORT_MAX \<and> idx s' v z = 0"
    show "requestNo w' v < requestNo w' z"
    proof (cases "v = t")
      case True
      then show ?thesis
        using sr l z no N stale [OF t, of z] by (auto simp: searched_def blocked_def)
    next
      case False
      note B = blocked_other [OF ok v False]
      have "idx s v z = 0" using sr False l unfolding searched_def by metis
      then show ?thesis using stale [OF B(1) no(2) [OF z]] l B(4) no v z by simp
    qed
  next
    fix v assume v: "v \<in> blocked s'" and s: "\<not> searchPending w' v"
    have "(v, v) \<notin> (olderWaits w s (requestNo w v))\<^sup>+"
    proof (cases "v = t")
      case False
      then show ?thesis using inv no(2) [OF v] s blocked_other(3) [OF ok v False] unfolding searchInv_def by blast
    qed (use none in simp)
    then show "(v, v) \<notin> (olderWaits w' s' (requestNo w' v))\<^sup>+"
      using trancl_mono [OF _ sub] no(1) [OF v] by metis
  qed
qed

lemma fresh_kept:
  assumes inv: "searchInv w s" and ok: "stepOk t (w, s) (w', s')" and fresh: "freshRequest t w s w' s'"
    and lock: "lockInv w s"
  shows "searchInv w' s'"
proof -
  have N: "mTransCnt s' = mTransCnt s" using ok by (simp add: stepOk_def)
  have young: "requestNo w v < requestNo w' t" if "t \<in> blocked s'" "v \<in> blocked s" for v
    using fresh that requestNo_bound [OF lock that(2)] by (simp add: freshRequest_def)
  have old: "olderWaits w' s' (requestNo w v) \<subseteq> olderWaits w s (requestNo w v)" if "v \<in> blocked s" for v
  proof
    fix e assume "e \<in> olderWaits w' s' (requestNo w v)"
    then obtain x y where e: "e = (x, y)" "x \<in> blocked s'" "y \<in> blocked s'" "idx s' x y = 1"
      "requestNo w' x \<le> requestNo w v" "requestNo w' y \<le> requestNo w v"
      by (auto simp: olderWaits_def blockedWaits_def)
    have xy: "x \<noteq> t" "y \<noteq> t" using e young [OF _ that] by auto
    note X = blocked_other [OF ok e(2) xy(1)] and Y = blocked_other(1,2) [OF ok e(3) xy(2)]
    have "idx s x y = 1" using X(5) [of y] e(4) by auto
    then show "e \<in> olderWaits w s (requestNo w v)"
      using X(1,2) Y e(1,5,6) by (simp add: olderWaits_def blockedWaits_def)
  qed
  show ?thesis
    unfolding searchInv_def
  proof (intro ballI conjI impI)
    fix v z assume v: "v \<in> blocked s'" and z: "z \<in> blocked s'" and l: "nxt s' v z \<noteq> ID_USHORT_MAX \<and> idx s' v z = 0"
    show "requestNo w' v < requestNo w' z"
    proof (cases "v = t")
      case True
      then show ?thesis using fresh v z l by (auto simp: freshRequest_def blocked_def)
    next
      case False
      note B = blocked_other [OF ok v False]
      show ?thesis
      proof (cases "z = t")
        case True
        then show ?thesis using young z B(1,2) by simp
      next
        case zt: False
        then have "idx s v z = 0" using B(5) [of z] l by auto
        then have "requestNo w v < requestNo w z"
          using inv B(1) blocked_other(1) [OF ok z zt] l B(4) unfolding searchInv_def by auto
        then show ?thesis using B(2) blocked_other(2) [OF ok z zt] by simp
      qed
    qed
  next
    fix v assume v: "v \<in> blocked s'" and s: "\<not> searchPending w' v"
    have vt: "v \<noteq> t" using fresh v s by (auto simp: freshRequest_def)
    note B = blocked_other [OF ok v vt]
    have "(v, v) \<notin> (olderWaits w s (requestNo w v))\<^sup>+"
      using inv B(1,3) s unfolding searchInv_def by auto
    then show "(v, v) \<notin> (olderWaits w' s' (requestNo w' v))\<^sup>+"
      using trancl_mono [OF _ old [OF B(1)]] B(2) by metis
  qed
qed

lemma step_search:
  assumes "lockStep props trs t (w, s) (w', s')" "lockInv w s" "searchInv w s"
  shows "searchInv w' s'"
proof -
  note ok = lockStep_ok [OF assms(1,2)]
  from own_step [OF lockStep_t [OF assms(1)] ok] show ?thesis
    using fresh_kept [OF assms(3) ok] searched_kept [OF assms(3) ok] assms(2) by blast
qed

lemma reachable_search: "reachable props trs c \<Longrightarrow> searchInv (fst c) (snd c)"
proof (induction rule: reachable.induct)
  case (init c)
  then show ?case by (auto simp: lockInit_def searchInv_def blocked_def)
next
  case (step c t c')
  then show ?case
    using step_search [of props trs t "fst c" "snd c" "fst c'" "snd c'"] reachable_inv [OF step(1)] by simp
qed

subsection \<open>No deadlock without a pending search\<close>

text \<open>The part of a cycle stays inside the cycle.\<close>

lemma trancl_cycle:
  assumes "(x, y) \<in> r\<^sup>+" "(y, x) \<in> r\<^sup>*"
  shows "(x, y) \<in> {(a, b) \<in> r. {a, b} \<subseteq> {c. (x, c) \<in> r\<^sup>* \<and> (c, x) \<in> r\<^sup>*}}\<^sup>+"
  using assms
proof (induction rule: trancl_induct)
  case (base y)
  then show ?case by (intro r_into_trancl) auto
next
  case (step y z)
  have yx: "(y, x) \<in> r\<^sup>*" using step.hyps(2) step.prems by (meson converse_rtrancl_into_rtrancl)
  have "(x, y) \<in> r\<^sup>*" "(x, z) \<in> r\<^sup>*" using step.hyps by (auto intro: trancl_into_rtrancl trancl_into_trancl)
  then have "(y, z) \<in> {(a, b) \<in> r. {a, b} \<subseteq> {c. (x, c) \<in> r\<^sup>* \<and> (c, x) \<in> r\<^sup>*}}"
    using step.hyps(2) yx step.prems by simp
  then show ?case using step.IH [OF yx] by (rule trancl_into_trancl [rotated])
qed

lemma cycle_pending:
  assumes inv: "searchInv w s" and t: "(t, t) \<in> (blockedWaits s)\<^sup>+"
  obtains u where "(t, u) \<in> (blockedWaits s)\<^sup>*" "(u, t) \<in> (blockedWaits s)\<^sup>*" "u \<in> blocked s" "searchPending w u"
proof -
  let ?G = "blockedWaits s"
  let ?C = "{c. (t, c) \<in> ?G\<^sup>* \<and> (c, t) \<in> ?G\<^sup>*}"
  have dom: "a \<in> blocked s \<and> b \<in> blocked s" if "(a, b) \<in> ?G\<^sup>+" for a b
    using that by (induction rule: trancl_induct) (auto simp: blockedWaits_def)
  have C: "?C \<subseteq> blocked s"
  proof
    fix c assume c: "c \<in> ?C"
    then have "(t, c) \<in> ?G\<^sup>+ \<or> t = c" by (auto simp: rtrancl_eq_or_trancl)
    then show "c \<in> blocked s" using dom t by blast
  qed
  then have "finite ?C" by (rule finite_subset) (auto simp: blocked_def)
  moreover have "t \<in> ?C" by simp
  ultimately have fin: "finite (requestNo w ` ?C)" "requestNo w ` ?C \<noteq> {}" by auto
  from Max_in [OF this] obtain x where x': "x \<in> ?C" "Max (requestNo w ` ?C) = requestNo w x" by blast
  have x: "requestNo w y \<le> requestNo w x" if "y \<in> ?C" for y
    using x' Max_ge [OF fin(1) imageI [OF that]] by simp
  have xx: "(x, x) \<in> ?G\<^sup>+" using x'(1) t by (auto simp: rtrancl_eq_or_trancl intro: trancl_trans)
  have "{(a, b) \<in> ?G. {a, b} \<subseteq> {c. (x, c) \<in> ?G\<^sup>* \<and> (c, x) \<in> ?G\<^sup>*}} \<subseteq> olderWaits w s (requestNo w x)"
  proof clarsimp
    fix a b assume "(a, b) \<in> ?G" "(x, a) \<in> ?G\<^sup>*" "(a, x) \<in> ?G\<^sup>*" "(x, b) \<in> ?G\<^sup>*" "(b, x) \<in> ?G\<^sup>*"
    moreover from this have "a \<in> ?C" "b \<in> ?C" using x'(1) by (auto intro: rtrancl_trans)
    ultimately show "(a, b) \<in> olderWaits w s (requestNo w x)" using x by (simp add: olderWaits_def)
  qed
  with trancl_cycle [OF xx] have "(x, x) \<in> (olderWaits w s (requestNo w x))\<^sup>+" using trancl_mono by blast
  moreover have "x \<in> blocked s" using x'(1) C by blast
  ultimately have "searchPending w x" using inv unfolding searchInv_def by blast
  then show ?thesis using that x'(1) \<open>x \<in> blocked s\<close> by blast
qed

subsection \<open>No deadlock is reported without a cycle\<close>

lemma wait_blocked:
  assumes inv: "lockInv w s" and e: "(u, v) \<in> waitsFor s"
  shows "u \<in> blocked s"
proof (rule ccontr)
  assume no: "u \<notin> blocked s"
  have uv: "u < mTransCnt s" "v < mTransCnt s" "idx s u v = 1" using e by (simp_all add: waitsFor_def)
  then have "rowPhase w s u" "mStatus s u \<noteq> SMX_TX_BLOCKED" using inv no by (simp_all add: lockInv_def blocked_def)
  then have "idx s u v = 0"
    using uv(2) by (cases "w u") (auto simp: rowPhase_def rowOk_nil)
  then show False using uv(3) by simp
qed

lemma search_sound:
  assumes inv: "lockInv w s" and c: "(t, t) \<in> (liveWaits s t xs)\<^sup>+"
  shows "(t, t) \<in> (blockedWaits s)\<^sup>+"
proof -
  have sub: "liveWaits s t xs \<subseteq> waitsFor s" by (auto simp: liveWaits_def)
  have t: "(t, t) \<in> (waitsFor s)\<^sup>+" using c trancl_mono [OF _ sub] by blast
  have "(t, v) \<in> (blockedWaits s)\<^sup>+" if "(t, v) \<in> (waitsFor s)\<^sup>+" "v \<in> blocked s" for v
    using that
  proof (induction rule: trancl_induct)
    case (base y)
    then show ?case using wait_blocked [OF inv base(1)] by (auto simp: blockedWaits_def waitsFor_def)
  next
    case (step y z)
    have "(y, z) \<in> blockedWaits s"
      using step wait_blocked [OF inv step.hyps(2)] by (simp add: blockedWaits_def waitsFor_def)
    then show ?case using step.IH [OF wait_blocked [OF inv step.hyps(2)]] by (rule trancl_into_trancl [rotated])
  qed
  moreover have "t \<in> blocked s" using t wait_blocked [OF inv] by (meson tranclD)
  ultimately show ?thesis using t by blast
qed

end
