(* ===== verification/LockExample.thy ===== *)
theory LockExample
  imports LockDeadlock
begin

text \<open>
  Two transactions and two tables, from the initial state to a deadlock: each takes an X lock on
  one table and then asks for the other's.  The states show that the properties of the lock
  protocol speak of something.
\<close>

definition startState :: "nat \<Rightarrow> nat \<Rightarrow> lockState" where
  "startState N pool = waitState.extend (initWaitTable N) (lockState.fields
     (\<lambda>_. \<lparr>mNodeItemType = SMI_LOCK_ITEM_NONE, mNodeSpaceID = 0, mNodeItemID = 0, mSlotID = 0,
        mLockMode = SML_NLOCK, mCvsLockNode = None, mLockCnt = 0, mBeGrant = False, mLockItem = 0,
        mNodeFlag = 0, mIsExplicitLock = False, mDoRemove = False, mLockSequence = (\<lambda>_. 0)\<rparr>)
     (\<lambda>i. clearLockItem \<lparr>mLockItemType = SMI_LOCK_ITEM_TABLE, mSpaceID = 0, mItemID = 0,
        mGrantLockMode = SML_NLOCK, mGrantCnt = 0, mRequestCnt = 0, mItemFlag = 0,
        mArrLockCount = (\<lambda>_. 0), mLockGrant = [], mLockRequest = []\<rparr>)
     (\<lambda>_. []) (\<lambda>_. []) pool 0 (\<lambda>_. SMX_TX_BEGIN))"

definition demoNode :: "slot_id \<Rightarrow> item_id \<Rightarrow> smlLockMode \<Rightarrow> bool \<Rightarrow> smlLockNode" where
  "demoNode t i m granted =
     \<lparr>mNodeItemType = SMI_LOCK_ITEM_TABLE, mNodeSpaceID = 0, mNodeItemID = 0, mSlotID = t,
      mLockMode = m, mCvsLockNode = None, mLockCnt = (if granted then 1 else 0), mBeGrant = granted,
      mLockItem = i, mNodeFlag = mLockModeToMask m, mIsExplicitLock = False, mDoRemove = False,
      mLockSequence = (if granted then (\<lambda>m. 0)(m := 1) else (\<lambda>m. 0))\<rparr>"

text \<open>Transaction \<open>t\<close> gets its first lock, X on \<open>i\<close>, with the new node \<open>n\<close>.\<close>

definition takenX :: "slot_id \<Rightarrow> item_id \<Rightarrow> lockState \<Rightarrow> lockState" where
  "takenX t i s = (let n = mNextLockNode s in
     s\<lparr>mLockNodes := (mLockNodes s)(n := demoNode t i SML_XLOCK True),
       mLockItems := (mLockItems s)(i := \<lparr>mLockItemType = SMI_LOCK_ITEM_TABLE, mSpaceID = 0, mItemID = 0,
         mGrantLockMode = SML_XLOCK, mGrantCnt = 1, mRequestCnt = 0, mItemFlag = 2,
         mArrLockCount = (\<lambda>m. 0)(SML_XLOCK := 1), mLockGrant = [n], mLockRequest = []\<rparr>),
       mTransLockNodes := (mTransLockNodes s)(t := [n]),
       mTransLockSlots := (mTransLockSlots s)(t := [(n, SML_XLOCK)]),
       mLockPoolLeft := mLockPoolLeft s - 1, mNextLockNode := n + 1\<rparr>)"

text \<open>It asks for an X lock on \<open>i\<close>, which only \<open>u\<close> has, and is queued and blocked.\<close>

definition queuedX :: "slot_id \<Rightarrow> item_id \<Rightarrow> slot_id \<Rightarrow> lockState \<Rightarrow> lockState" where
  "queuedX t i u s = (let n = mNextLockNode s in linkWait t u
     (s\<lparr>mLockNodes := (mLockNodes s)(n := demoNode t i SML_XLOCK False),
       mLockItems := (mLockItems s)(i := (item s i)\<lparr>mRequestCnt := 1, mLockRequest := [n]\<rparr>),
       mLockPoolLeft := mLockPoolLeft s - 1, mNextLockNode := n + 1,
       mStatus := (mStatus s)(t := SMX_TX_BLOCKED)\<rparr>))"

lemmas start_defs = startState_def lockState.defs waitState.defs initWaitTable_def clearLockItem_def

lemmas request_defs = lockTable_request_def lockTableInternal_def toHeavyMode_def findLockNode_def
  internalGrant_def grantedOrFailure_def internalSuccess_def setLockModeAndAddLockSlot_def addLockSlot_def
  addLockNode_def allocLockNodeAndInit_def allocLockNodeNormal_def initLockNode_def getLastLockSequence_def
  onItem_def incTblLockModeAndUpdate_def addLockNodeToGrantTail_def conversion_sup
  updNode_def updLockItem_def setTransNodes_def setTransSlots_def internalConflict_def internalEnqueue_def
  waitForLock_block_def setStatus_def linkWait_def updItem_def updRow_def table_simps

lemma upt_two: "[0..<2] = [0, Suc 0]"
  by (simp add: upt_rec)

lemma startState_init: "N \<le> SML_END_ITEM \<Longrightarrow> lockInit (\<lambda>_. TxRunning, startState N pool)"
  by (auto simp: lockInit_def start_defs rowOk_def colOk_def)

definition "demo0 = startState 2 10"
definition "demo1 = takenX 0 0 demo0"
definition "demo2 = takenX 1 1 demo1"
definition "demo3 = queuedX 0 1 1 demo2"
definition "demo4 = queuedX 1 0 0 demo3"

lemmas demo_defs = demo4_def demo3_def demo2_def demo1_def demo0_def queuedX_def takenX_def demoNode_def

lemma demo_take:
  "lockTable_request 0 0 SML_XLOCK True None False demo0 =
     Some (LockSuccess (Some SML_XLOCK) (Some (0, SML_XLOCK)), demo1)"
  "lockTable_request 1 1 SML_XLOCK True None False demo1 =
     Some (LockSuccess (Some SML_XLOCK) (Some (1, SML_XLOCK)), demo2)"
  by (simp_all add: demo_defs start_defs request_defs upt_two)

lemma demo_queue:
  "lockTable_request 0 1 SML_XLOCK True None False demo2 = Some (LockMustWait 2 2, demo3)"
  "lockTable_request 1 0 SML_XLOCK True None False demo3 = Some (LockMustWait 3 3, demo4)"
  by (simp_all add: demo_defs start_defs request_defs upt_two)

subsection \<open>The states are reachable\<close>

definition demoProps :: lockProps where
  "demoProps = \<lparr>getTableLockEnable = 1, getTablespaceLockEnable = 1\<rparr>"

definition running :: phases where
  "running = (\<lambda>_. TxRunning)"

definition demoW3 :: phases where "demoW3 = running(0 := TxWaiting 1 SML_XLOCK 2 2 False)"
definition demoW4 :: phases where "demoW4 = demoW3(1 := TxWaiting 0 SML_XLOCK 3 3 False)"

lemma demo_find:
  "findLockNode 0 0 demo0 = Some None" "findLockNode 1 1 demo1 = Some None"
  "findLockNode 1 0 demo2 = Some None" "findLockNode 0 1 demo3 = Some None"
  "slotLeft 0 demo0" "slotLeft 1 demo1" "slotLeft 0 demo2" "slotLeft 1 demo3"
  by (simp_all add: demo_defs start_defs findLockNode_def slotLeft_def getLastLockSequence_def
      linkWait_def updItem_def updRow_def)

lemma demo_TransCnt [simp]: "mTransCnt demo0 = 2" "mTransCnt demo1 = 2" "mTransCnt demo2 = 2" "mTransCnt demo3 = 2" "mTransCnt demo4 = 2"
  by (simp_all add: demo_defs start_defs linkWait_def updItem_def updRow_def)

lemma demo_reachable:
  "reachable demoProps noDistTx (running, demo0)" "reachable demoProps noDistTx (running, demo1)"
  "reachable demoProps noDistTx (running, demo2)" "reachable demoProps noDistTx (demoW3, demo3)"
  "reachable demoProps noDistTx (demoW4, demo4)"
proof -
  note req = lockStep.request [where m = SML_XLOCK and canWait = True and cur = None and b = False]
  show 0: "reachable demoProps noDistTx (running, demo0)"
    unfolding running_def demo0_def by (intro reachable.init startState_init) simp
  have "lockStep demoProps noDistTx 0 (running, demo0) (running, demo1)"
    by (rule req [where out = "LockSuccess (Some SML_XLOCK) (Some (0, SML_XLOCK))"]) (use demo_take(1) demo_find in \<open>simp_all add: running_def\<close>)
  then show 1: "reachable demoProps noDistTx (running, demo1)" by (rule reachable.step [OF 0])
  have "lockStep demoProps noDistTx 1 (running, demo1) (running, demo2)"
    by (rule req [where out = "LockSuccess (Some SML_XLOCK) (Some (1, SML_XLOCK))"]) (use demo_take(2) demo_find in \<open>simp_all add: running_def\<close>)
  then show 2: "reachable demoProps noDistTx (running, demo2)" by (rule reachable.step [OF 1])
  have "lockStep demoProps noDistTx 0 (running, demo2) (demoW3, demo3)"
    by (rule req [where out = "LockMustWait 2 2"]) (use demo_queue(1) demo_find in \<open>simp_all add: running_def demoW3_def\<close>)
  then show 3: "reachable demoProps noDistTx (demoW3, demo3)" by (rule reachable.step [OF 2])
  have "lockStep demoProps noDistTx 1 (demoW3, demo3) (demoW4, demo4)"
    by (rule req [where out = "LockMustWait 3 3"]) (use demo_queue(2) demo_find in \<open>simp_all add: running_def demoW3_def demoW4_def\<close>)
  then show "reachable demoProps noDistTx (demoW4, demo4)" by (rule reachable.step [OF 3])
qed

text \<open>Two intention locks on a table in light mode.\<close>

definition takenLight :: "slot_id \<Rightarrow> item_id \<Rightarrow> smlLockMode \<Rightarrow> lockState \<Rightarrow> lockState" where
  "takenLight t i m s = (let n = mNextLockNode s in
     s\<lparr>mLockNodes := (mLockNodes s)(n := demoNode t i m True), mTransLockNodes := (mTransLockNodes s)(t := [n]),
       mTransLockSlots := (mTransLockSlots s)(t := [(n, m)]),
       mLockPoolLeft := mLockPoolLeft s - 1, mNextLockNode := n + 1\<rparr>)"

definition "light1 = takenLight 0 0 SML_ISLOCK demo0"
definition "light2 = takenLight 1 0 SML_IXLOCK light1"

lemmas light_defs = light2_def light1_def demo0_def takenLight_def demoNode_def

lemma light_take:
  "lockTable demoProps 0 (Some 0) SML_ISLOCK False demo0 =
     Some (LockDone (LockSuccess (Some SML_ISLOCK) (Some (0, SML_ISLOCK))), light1)"
  "lockTable demoProps 1 (Some 0) SML_IXLOCK False light1 =
     Some (LockDone (LockSuccess (Some SML_IXLOCK) (Some (1, SML_IXLOCK))), light2)"
  by (simp_all add: lockTable_def lockEnabled_def demoProps_def lightGrant_def light_defs start_defs request_defs)

lemma light_reachable: "reachable demoProps noDistTx (running, light1)" "reachable demoProps noDistTx (running, light2)"
proof -
  have "slotLeft 1 light1" "mTransCnt light1 = 2"
    by (simp_all add: light_defs start_defs slotLeft_def getLastLockSequence_def)
  note left = this
  have "lockStep demoProps noDistTx 0 (running, demo0) (running, light1)"
    by (rule lockStep.light [where m = SML_ISLOCK]) (use light_take(1) demo_find(5) in \<open>simp_all add: running_def\<close>)
  then show 1: "reachable demoProps noDistTx (running, light1)" by (rule reachable.step [OF demo_reachable(1)])
  have "lockStep demoProps noDistTx 1 (running, light1) (running, light2)"
    by (rule lockStep.light [where m = SML_IXLOCK]) (use light_take(2) left in \<open>simp_all add: running_def\<close>)
  then show "reachable demoProps noDistTx (running, light2)" by (rule reachable.step [OF 1])
qed

text \<open>What the properties ask of the states.\<close>

lemma demo_state:
  "mTransLockSlots demo2 0 = [(0, SML_XLOCK)]" "mTransLockSlots demo2 1 = [(1, SML_XLOCK)]"
  "mLockItem (node demo2 0) = 0" "mLockItem (node demo2 1) = 1" "mStatus demo4 0 = SMX_TX_BLOCKED"
  "mStatus demo4 1 = SMX_TX_BLOCKED" "mStatus demo3 0 = SMX_TX_BLOCKED" "mStatus demo3 1 = SMX_TX_BEGIN"
  "mTransLockSlots demo3 1 = [(1, SML_XLOCK)]" "mLockItem (node demo3 1) = 1"
  "idx demo4 0 1 = 1" "idx demo4 1 0 = 1" "mTransLockNodes demo2 1 = [1]" "mTransLockNodes demo2 0 = [0]"
  "slotLeft 0 demo3" "mItemFlag (item demo2 0) = 2"
  "mTransLockSlots light2 0 = [(0, SML_ISLOCK)]" "mTransLockSlots light2 1 = [(1, SML_IXLOCK)]"
  "mLockItem (node light2 0) = 0" "mLockItem (node light2 1) = 0" "mTransCnt light2 = 2"
  "mItemFlag (item light2 0) = SML_FLAG_LIGHT_MODE" "mStatus demo2 0 = SMX_TX_BEGIN" "mStatus demo2 1 = SMX_TX_BEGIN"
  "mTransLockNodes demo4 1 = [1]" "mLockItem (node demo4 1) = 1"
  by (simp_all add: demo_defs light_defs start_defs linkWait_def updItem_def updRow_def slotLeft_def getLastLockSequence_def table_simps)

lemmas demo_facts = demo_state demo_state [unfolded One_nat_def]

end
