(* ===== verification/LockSafety.thy ===== *)
theory LockSafety
  imports LockExample
begin

text \<open>
  What the table lock manager guarantees in every state that some interleaving of the threads
  reaches (\<open>reachable\<close> in \<open>LockProtocol\<close>): exclusion, the refinement of the abstract table,
  wake-ups, deadlocks, the accounting of an item, and that requests, waits and releases never trip
  an assertion of the code.
\<close>

subsection \<open>Facts of reachable states\<close>

lemma reach_inv: "reachable props trs (w, s) \<Longrightarrow> lockInv w s"
  using reachable_inv [of props trs "(w, s)"] by simp

text \<open>A queued request: its item is in heavy mode.\<close>

lemma queued_heavy:
  assumes inv: "lockInv w s" and t: "t < mTransCnt s" and w: "w t = TxWaiting i m n c k" and st: "mStatus s t = SMX_TX_BLOCKED"
  shows "grantsOk {} s i" "requestsOk w s i" "waitsRecorded w s i" "n \<in> set (mLockRequest (item s i))"
    "queuedOn w s i t n"
proof -
  show q: "queuedOn w s i t n" using w st by (simp add: queuedOn_def)
  then have qn: "n \<in> queuedNodes w s i" using t by (auto simp: queuedNodes_def)
  have "mItemFlag (item s i) \<noteq> SML_FLAG_LIGHT_MODE"
    using lockInv_tx(4) [OF inv t, of i] qn by (auto simp: itemOk_def lightItem_def)
  note H = itemOk_heavyD [OF lockInv_tx(4) [OF inv t] this]
  show "grantsOk {} s i" "requestsOk w s i" "waitsRecorded w s i" by (fact H)+
  show "n \<in> set (mLockRequest (item s i))" using requestsOkD(2) [OF H(2)] qn by simp
qed

lemma held_one:
  assumes "lockInv w s" "t < mTransCnt s" "a \<in> heldBy s i t" "b \<in> heldBy s i t"
  shows "a = b"
proof -
  have "inj_on (\<lambda>n. mLockItem (node s n)) (set (mTransLockNodes s t))"
    using lockInv_tx(2) [OF assms(1,2)] by (simp add: nodesOk_def distinct_map)
  then show ?thesis using assms(3,4) by (auto simp: heldBy_def dest: inj_onD)
qed

text \<open>The first request of a queue has an opponent.\<close>

lemma head_blocked:
  assumes inv: "lockInv w s" and t: "t < mTransCnt s" and R: "mLockRequest (item s i) = h # rest"
    and G: "grantsOk {} s i" and Q: "requestsOk w s i" and W: "waitsRecorded w s i"
  shows "\<exists>v m c k u g. v < mTransCnt s \<and> w v = TxWaiting i m h c k \<and> mStatus s v = SMX_TX_BLOCKED \<and>
    \<not> compatible m (mGrantLockMode (item s i)) \<and> u \<noteq> v \<and> u < mTransCnt s \<and> g \<in> heldBy s i u \<and> idx s v u = 1"
proof -
  note D = grantsOkD [OF G] and B = midInvD(1) [OF conjunct1 [OF inv [unfolded lockInv_mid [of w s i]]]]
  have "h \<in> queuedNodes w s i" using requestsOkD(2) [OF Q] R by auto
  from midBase_queued [OF B this] obtain v m c k where v: "v < mTransCnt s" "w v = TxWaiting i m h c k"
    "mStatus s v = SMX_TX_BLOCKED" "waitingOk s v i m h c" "mLockMode (node s h) = m" by metis
  have stuck: "\<not> compatible m (mGrantLockMode (item s i))" "\<not> (mGrantCnt (item s i) = 1 \<and> mCvsLockNode (node s h) \<noteq> None)"
    using lockInv_tx(5) [OF inv t, of i] v(5) by (simp_all add: headStuck_def R)
  have ne: "mLockGrant (item s i) \<noteq> []" using stuck(1) D(5) by (auto simp: compatible_table(2))
  obtain g where g: "g \<in> set (mLockGrant (item s i))" "g \<notin> heldBy s i v"
  proof (cases "mCvsLockNode (node s h)")
    case None
    then have "heldBy s i v = {}" using v(3,4) by (auto simp: waitingOk_def split: if_splits)
    then show ?thesis using that ne by (metis empty_iff list.set_sel(1))
  next
    case (Some c')
    then have "length (mLockGrant (item s i)) \<noteq> 1" using stuck(2) D(3) by simp
    then obtain a b where ab: "a \<in> set (mLockGrant (item s i))" "b \<in> set (mLockGrant (item s i))" "a \<noteq> b"
      using ne D(1) by (cases "mLockGrant (item s i)"; cases "tl (mLockGrant (item s i))") auto
    then show ?thesis using that held_one [OF inv v(1)] by metis
  qed
  have gh: "g \<in> heldOn s i" using g(1) D(2) by simp
  then obtain u where u: "u < mTransCnt s" "g \<in> heldBy s i u" by (auto simp: heldOn_def)
  have uv: "u \<noteq> v" using g(2) u(2) by blast
  have slot: "mSlotID (node s g) = u"
    using nodesOkD(2) [OF lockInv_tx(2) [OF inv u(1)]] u(2) by (auto simp: heldBy_def)
  have "u \<in> blockers s i v h" using g(1) slot uv by (force simp: blockers_def)
  moreover have "queuedOn w s i v h" using v by (simp add: queuedOn_def)
  ultimately have "idx s v u = 1" using W v(1) unfolding waitsRecorded_def by blast
  then show ?thesis using v(1-3) stuck(1) u uv by blast
qed

subsection \<open>Exclusion\<close>

text \<open>C1: locks of two transactions on the same item are compatible, at any time and however
  they were acquired (in light or heavy mode, at once, by conversion or after waiting).\<close>

theorem held_locks_compatible:
  assumes "reachable props trs (w, s)" "t < mTransCnt s" "u < mTransCnt s" "t \<noteq> u"
    "w t \<noteq> TxEnding" "w u \<noteq> TxEnding" "(n, m) \<in> set (mTransLockSlots s t)" "(n', m') \<in> set (mTransLockSlots s u)"
    "mLockItem (node s n) = mLockItem (node s n')"
  shows "compatible m m'"
proof -
  have "(mLockItem (node s n), m) \<in> set (view w s t)" "(mLockItem (node s n), m') \<in> set (view w s u)"
    using assms by (force simp: view_def locksOf_def)+
  then show ?thesis using view_safe [OF reach_inv [OF assms(1)]] assms(4) unfolding tabSafe_def by blast
qed

theorem held_locks_compatible_witness:
  "reachable demoProps noDistTx (running, light2) \<and> compatible SML_ISLOCK SML_IXLOCK"
  using held_locks_compatible [OF light_reachable(2), of 0 1 0 SML_ISLOCK 1 SML_IXLOCK] light_reachable(2)
  by (simp add: demo_facts running_def)

text \<open>C2: the lock manager refines the abstract lock table: seen through the lock slots, every
  step of any thread leaves the table as it is, adds one lock that no other transaction's lock
  conflicts with, removes one lock of the thread's own, or ends its transaction.\<close>

theorem refines_lock_table:
  assumes "reachable props trs (w, s)" "lockStep props trs t (w, s) (w', s')"
  shows "tabStep t (view w s) (view w' s')"
  by (rule step_refines [OF assms(2) reach_inv [OF assms(1)]])

theorem refines_lock_table_witness:
  "tabStep 0 (view running demo0) (view running demo1)"
proof -
  have "lockStep demoProps noDistTx 0 (running, demo0) (running, demo1)"
    by (rule lockStep.request [where m = SML_XLOCK and canWait = True and cur = None and b = False
          and out = "LockSuccess (Some SML_XLOCK) (Some (0, SML_XLOCK))"])
      (use demo_take(1) demo_find in \<open>simp_all add: running_def\<close>)
  then show ?thesis by (rule refines_lock_table [OF demo_reachable(1)])
qed

text \<open>A step of one thread leaves the locks of every other transaction that is not blocked
  as they are: its nodes with their modes, its slots, and its status.\<close>

theorem others_keep_locks:
  assumes "reachable props trs (w, s)" "lockStep props trs t (w, s) (w', s')" "u \<noteq> t"
    "u < mTransCnt s" "mStatus s u \<noteq> SMX_TX_BLOCKED"
  shows "mTransLockNodes s' u = mTransLockNodes s u \<and> mTransLockSlots s' u = mTransLockSlots s u \<and>
    (\<forall>n \<in> set (mTransLockNodes s u). node s' n = node s n) \<and> mStatus s' u = mStatus s u"
proof -
  have "stepOk t (w, s) (w', s')" by (rule lockStep_ok [OF assms(2) reach_inv [OF assms(1)]])
  then have K: "keeps u s s'" using assms(3,5) by (simp add: stepOk_def others_def)
  have "node s' n = node s n" if "n \<in> set (mTransLockNodes s u)" for n
    using nodesOkD(1,2) [OF lockInv_tx(2) [OF reach_inv [OF assms(1)] assms(4)] that] K by (simp add: keeps_def)
  then show ?thesis using K by (simp add: keeps_def)
qed

theorem others_keep_locks_witness:
  "mTransLockNodes demo3 1 = [1]"
proof -
  have "lockStep demoProps noDistTx 0 (running, demo2) (demoW3, demo3)"
    by (rule lockStep.request [where m = SML_XLOCK and canWait = True and cur = None and b = False
          and out = "LockMustWait 2 2"])
      (use demo_queue(1) demo_find in \<open>simp_all add: running_def demoW3_def\<close>)
  from others_keep_locks [OF demo_reachable(3) this, of 1] show ?thesis
    by (simp add: demo_facts running_def)
qed

subsection \<open>Waiting\<close>

text \<open>C4: no wake-up is lost.  When a transaction sleeps, its request is in the queue of its item,
  and the first request of that queue belongs to a blocked transaction, conflicts with the
  granted mode, and waits for another transaction that holds a lock on the item.\<close>

theorem no_lost_wakeup:
  assumes "reachable props trs (w, s)" "t < mTransCnt s" "w t = TxWaiting i m n c k" "mStatus s t = SMX_TX_BLOCKED"
  shows "\<exists>h rest v m' c' k' u g. mLockRequest (item s i) = h # rest \<and> n \<in> set (h # rest) \<and>
    v < mTransCnt s \<and> w v = TxWaiting i m' h c' k' \<and> mStatus s v = SMX_TX_BLOCKED \<and>
    \<not> compatible m' (mGrantLockMode (item s i)) \<and>
    u \<noteq> v \<and> u < mTransCnt s \<and> g \<in> heldBy s i u \<and> idx s v u = 1"
proof -
  note inv = reach_inv [OF assms(1)] and Q = queued_heavy [OF reach_inv [OF assms(1)] assms(2-4)]
  obtain h rest where R: "mLockRequest (item s i) = h # rest" using Q(4) by (cases "mLockRequest (item s i)") auto
  show ?thesis using head_blocked [OF inv assms(2) R Q(1-3)] R Q(4) by metis
qed

theorem no_lost_wakeup_witness:
  "\<exists>h rest. mLockRequest (item demo4 1) = h # rest \<and> 2 \<in> set (h # rest)"
  using no_lost_wakeup [OF demo_reachable(5), of 0 1 SML_XLOCK 2 2 False] demo_state(5)
  by (auto simp: demoW4_def demoW3_def)

text \<open>C15: the waiting table records every wait: a blocked transaction has an entry for each other
  transaction that holds a lock on the item or whose request is ahead of it in the queue.\<close>

theorem waits_are_recorded:
  assumes "reachable props trs (w, s)" "t < mTransCnt s" "w t = TxWaiting i m n c k" "mStatus s t = SMX_TX_BLOCKED"
    "u < mTransCnt s" "u \<noteq> t"
    "heldBy s i u \<noteq> {} \<or> (\<exists>m' n' c' k'. w u = TxWaiting i m' n' c' k' \<and> mStatus s u = SMX_TX_BLOCKED \<and>
       n' \<in> set (takeWhile (\<lambda>r. r \<noteq> n) (mLockRequest (item s i))))"
  shows "idx s t u = 1"
proof -
  note inv = reach_inv [OF assms(1)]
  note Q = queued_heavy [OF inv assms(2-4)] and B = midInvD(1) [OF conjunct1 [OF inv [unfolded lockInv_mid [of w s i]]]]
  have "u \<in> blockers s i t n"
  proof (cases "heldBy s i u = {}")
    case False
    then obtain g where g: "g \<in> heldBy s i u" by blast
    then have "mSlotID (node s g) = u" using nodesOkD(2) [OF lockInv_tx(2) [OF inv assms(5)]] by (auto simp: heldBy_def)
    moreover have "g \<in> set (mLockGrant (item s i))" using g assms(5) grantsOkD(2) [OF Q(1)] by (auto simp: heldOn_def)
    ultimately show ?thesis using assms(6) by (force simp: blockers_def)
  next
    case True
    then obtain m' n' c' k' where n': "w u = TxWaiting i m' n' c' k'" "mStatus s u = SMX_TX_BLOCKED"
      "n' \<in> set (takeWhile (\<lambda>r. r \<noteq> n) (mLockRequest (item s i)))" using assms(7) by blast
    have "queuedOn w s i u n'" using n' by (simp add: queuedOn_def)
    then have "mSlotID (node s n') = u" using midBase_slot [OF B assms(5)] by blast
    then show ?thesis using n'(3) assms(6) by (force simp: blockers_def)
  qed
  then show ?thesis using Q(3,5) assms(2) unfolding waitsRecorded_def by blast
qed

theorem waits_are_recorded_witness:
  "idx demo4 0 1 = 1"
proof -
  have "1 \<in> heldBy demo4 1 1" by (simp add: heldBy_def demo_facts)
  then show ?thesis
    using waits_are_recorded [OF demo_reachable(5), of 0 1 SML_XLOCK 2 2 False 1] demo_facts
    by (auto simp: demoW4_def demoW3_def)
qed

text \<open>C3: no deadlock goes unnoticed: on every cycle of blocked transactions in the waiting table
  there is one whose deadlock search is still to come.\<close>

theorem deadlock_search_complete:
  assumes "reachable props trs (w, s)" "(t, t) \<in> (blockedWaits s)\<^sup>+"
  shows "\<exists>u. (t, u) \<in> (blockedWaits s)\<^sup>* \<and> (u, t) \<in> (blockedWaits s)\<^sup>* \<and> u \<in> blocked s \<and> searchPending w u"
proof -
  have "searchInv w s" using reachable_search [OF assms(1)] by simp
  from cycle_pending [OF this assms(2)] show ?thesis by metis
qed

theorem deadlock_search_complete_witness:
  "\<exists>u. (0, u) \<in> (blockedWaits demo4)\<^sup>* \<and> searchPending demoW4 u"
proof -
  have "(0, 1) \<in> blockedWaits demo4" "(1, 0) \<in> blockedWaits demo4"
    using demo_facts by (simp_all add: blockedWaits_def blocked_def)
  then have "(0, 0) \<in> (blockedWaits demo4)\<^sup>+" by (meson r_into_trancl trancl_into_trancl)
  from deadlock_search_complete [OF demo_reachable(5) this] show ?thesis by blast
qed



subsection \<open>Requests, waits and releases\<close>

text \<open>What a finished or queued request leaves, seen from outside.\<close>

definition requestDone ::
  "slot_id \<Rightarrow> item_id \<Rightarrow> smlLockMode \<Rightarrow> lockState \<Rightarrow> lockOutcome \<Rightarrow> lockState \<Rightarrow> bool" where
  "requestDone t i m s out s' \<longleftrightarrow> (case out of
     LockSuccess cm None \<Rightarrow> s' = s
   | LockSuccess cm (Some l) \<Rightarrow> snd l = m \<and> mLockItem (node s' (fst l)) = i \<and>
       mTransLockSlots s' t = mTransLockSlots s t @ [l]
   | LockFailure e \<Rightarrow> mTransLockSlots s' t = mTransLockSlots s t \<and> mStatus s' t = SMX_TX_BEGIN
   | LockMustWait n c \<Rightarrow> mTransLockSlots s' t = mTransLockSlots s t \<and> mStatus s' t = SMX_TX_BLOCKED)"

lemma lockTable_internal:
  assumes "lockTable props t (Some i) m b s = Some (LockInternal cur, s')"
  shows "findLockNode i t s = Some cur" "\<not> (case cur of Some c \<Rightarrow> alreadyLocked c m s | None \<Rightarrow> False)"
  using assms by (auto simp: lockTable_def bind_eq_Some_conv split: if_splits option.splits)

text \<open>C8: a request never trips an assertion and ends in one of four ways: the lock is covered by
  a held one (or locking is disabled) and nothing changes; it is granted and exactly one slot is
  added; it fails and the slots are as before; or it is queued and the transaction blocked.  The
  second part takes up where \<open>lockTable\<close> leaves the decision to \<open>lockTableInternal\<close>.\<close>

theorem request_total:
  assumes reach: "reachable props trs (w, s)" and t: "t < mTransCnt s" and w: "w t = TxRunning"
    and m: "m \<noteq> SML_NLOCK" and room: "slotLeft t s"
  shows "(\<exists>out s'. lockTable props t (Some i) m b s = Some (LockDone out, s') \<and> requestDone t i m s out s' \<and>
      reachable props trs (w, s')) \<or>
    (\<exists>cur out s' w'. lockTable props t (Some i) m b s = Some (LockInternal cur, s) \<and>
      lockTable_request t i m canWait cur b s = Some (out, s') \<and> requestDone t i m s out s' \<and>
      reachable props trs (w', s') \<and> (\<forall>u. u \<noteq> t \<longrightarrow> w' u = w u))"
proof -
  note inv = reach_inv [OF reach]
  from lockTable_ok [OF inv t w m room, of props i b] obtain r s' where
    r: "lockTable props t (Some i) m b s = Some (r, s')" "case r of
      LockDone out \<Rightarrow> lockInv w s' \<and> mTransCnt s' = mTransCnt s \<and> others t s s' \<and>
        (\<exists>cm c. out = LockSuccess cm (Some (c, m)) \<and> mTransLockSlots s' t = mTransLockSlots s t @ [(c, m)] \<and>
           mLockItem (node s' c) = i \<or> (\<exists>cm e. out = LockSuccess cm None \<or> out = LockFailure e) \<and> s' = s)
    | LockInternal cur \<Rightarrow> s' = s \<and> curOk t i m cur s" by blast
  have st: "mStatus s t = SMX_TX_BEGIN" using lockInv_out(3) [OF inv t disjI1 [OF w]] .
  show ?thesis
  proof (cases r)
    case (LockDone out)
    have "requestDone t i m s out s'" using r(2) LockDone st by (auto simp: requestDone_def)
    moreover have "lockStep props trs t (w, s) (w, s')" using lockStep.light [where w = w and t = t, OF t w m room] r(1) LockDone by blast
    ultimately show ?thesis using r(1) LockDone reachable.step [OF reach] by blast
  next
    case (LockInternal cur)
    then have s': "s' = s" "curOk t i m cur s" using r(2) by simp_all
    note find = lockTable_internal [OF r(1) [unfolded LockInternal]]
    from request_ok [OF inv t w m s'(2) room, of canWait b] obtain out s2 where
      out: "lockTable_request t i m canWait cur b s = Some (out, s2)" "outcomeOk w t i m s out s2" by blast
    define w' where "w' = (case out of LockMustWait n c \<Rightarrow> w(t := TxWaiting i m n c False) | _ \<Rightarrow> w)"
    have step: "lockStep props trs t (w, s) (w', s2)"
      by (rule lockStep.request [where w = w and t = t, OF t w m room find out(1) w'_def])
    have "requestDone t i m s out s2"
    proof (cases out)
      case (LockFailure e)
      then have "mStatus s2 t = SMX_TX_BEGIN"
        using out(2) t w lockInv_out(3) [of w s2 t] by (simp add: outcomeOk_def)
      then show ?thesis using out(2) LockFailure by (simp add: requestDone_def outcomeOk_def)
    qed (use out(2) in \<open>auto simp: requestDone_def outcomeOk_def\<close>)
    moreover have "\<forall>u. u \<noteq> t \<longrightarrow> w' u = w u" by (cases out) (simp_all add: w'_def)
    ultimately show ?thesis
      using r(1) LockInternal s'(1) out(1) reachable.step [OF reach step] by blast
  qed
qed

theorem request_total_witness:
  "\<exists>r s'. lockTable demoProps 0 (Some 0) SML_XLOCK False demo0 = Some (r, s')"
  using request_total [OF demo_reachable(1), of 0 SML_XLOCK 0 False True] demo_find(5)
  by (auto simp: running_def)

text \<open>C9: a wait ends well: once it was resumed, the transaction gets exactly the lock it asked
  for; and whenever it gives up (time-out, session event, deadlock), in whatever state the
  request is by then, it fails with its slots as they were.\<close>

theorem wait_ends:
  assumes reach: "reachable props trs (w, s)" and t: "t < mTransCnt s" and w: "w t = TxWaiting i m n c k"
    and room: "slotLeft t s"
  shows "(mStatus s t \<noteq> SMX_TX_BLOCKED \<longrightarrow> (\<exists>cm s'. lockTable_resume t i m n c s = Some (LockSuccess cm (Some (c, m)), s') \<and>
      mTransLockSlots s' t = mTransLockSlots s t @ [(c, m)] \<and> reachable props trs (w(t := TxRunning), s'))) \<and>
    (\<exists>s'. lockTable_giveUp t n s = Some (LockFailure err_wait_lock, s') \<and>
      mTransLockSlots s' t = mTransLockSlots s t \<and> reachable props trs (w(t := TxRunning), s'))"
proof (intro conjI impI)
  note inv = reach_inv [OF reach]
  assume st: "mStatus s t \<noteq> SMX_TX_BLOCKED"
  from resume_ok [OF inv t w st room] obtain s' cm where
    s': "lockTable_resume t i m n c s = Some (LockSuccess cm (Some (c, m)), s')"
    "mTransLockSlots s' t = mTransLockSlots s t @ [(c, m)]" by blast
  have "lockStep props trs t (w, s) (w(t := TxRunning), s')" by (rule lockStep.resume [where w = w and t = t, OF t w st room s'(1)])
  then show "\<exists>cm s'. lockTable_resume t i m n c s = Some (LockSuccess cm (Some (c, m)), s') \<and>
      mTransLockSlots s' t = mTransLockSlots s t @ [(c, m)] \<and> reachable props trs (w(t := TxRunning), s')"
    using s' reachable.step [OF reach] by blast
next
  from giveUp_ok [OF reach_inv [OF reach] t w] obtain s' where
    s': "lockTable_giveUp t n s = Some (LockFailure err_wait_lock, s')" "mTransLockSlots s' t = mTransLockSlots s t"
    by blast
  have "lockStep props trs t (w, s) (w(t := TxRunning), s')" by (rule lockStep.giveUp [where w = w and t = t, OF t w s'(1)])
  then show "\<exists>s'. lockTable_giveUp t n s = Some (LockFailure err_wait_lock, s') \<and>
      mTransLockSlots s' t = mTransLockSlots s t \<and> reachable props trs (w(t := TxRunning), s')"
    using s' reachable.step [OF reach] by blast
qed

theorem wait_ends_witness:
  "\<exists>s'. lockTable_giveUp 0 2 demo3 = Some (LockFailure err_wait_lock, s')"
  using wait_ends [OF demo_reachable(4), of 0 1 SML_XLOCK 2 2 False] demo_facts by (auto simp: demoW3_def)

lemma release_slot:
  assumes reach: "reachable props trs (w, s)" and t: "t < mTransCnt s" and w: "w t = TxRunning"
    and l: "(n, m) \<in> set (mTransLockSlots s t)"
  shows "\<exists>s'. (unlockTable t None (Some (n, m)) s = Some (UnlockDone, s') \<or>
      unlockTable t None (Some (n, m)) s = Some (UnlockInternal n, s) \<and>
      unlockTableInternal t (mLockItem (node s n)) n (Some (n, m)) True s = Some s') \<and>
    released t n (Some (n, m)) s s' \<and> mTransCnt s' = mTransCnt s \<and> reachable props trs (w, s')"
proof -
  note inv = reach_inv [OF reach]
  have n: "n \<in> set (mTransLockNodes s t)" using slot_held(1) [OF inv t _ l] w by (simp add: heldBy_def)
  have w': "w t = TxRunning \<and> Some (n, m) \<noteq> None \<or> w t = TxEnding \<and> Some (n, m) = None" using w by simp
  have sl: "\<And>l'. Some (n, m) = Some l' \<Longrightarrow> fst l' = n \<and> l' \<in> set (mTransLockSlots s t)" using l by auto
  from unlock_inv(1) [OF inv t w' n sl, of None] obtain nx s1 where s1: "unlockTable t None (Some (n, m)) s = Some (nx, s1)"
    "mTransCnt s1 = mTransCnt s"
    "nx = UnlockInternal n \<and> s1 = s \<or> nx = UnlockDone \<and> released t n (Some (n, m)) s s1" by auto
  from unlock_inv(2) [OF inv t w' n sl, of "Some n"] obtain s2 where
    s2: "unlockTableInternal t (mLockItem (node s n)) n (Some (n, m)) True s = Some s2" "released t n (Some (n, m)) s s2"
      "mTransCnt s2 = mTransCnt s" by auto
  have r1: "reachable props trs (w, s1)"
    using reachable.step [OF reach lockStep.unlock [where w = w and t = t, OF t w l s1(1)]] .
  have r2: "reachable props trs (w, s2)"
    using reachable.step [OF reach lockStep.unlockInternal [where w = w and t = t, OF t w l s2(1)]] .
  from s1(3) show ?thesis
  proof
    assume "nx = UnlockInternal n \<and> s1 = s"
    then show ?thesis using s1(1) s2 r2 by blast
  next
    assume "nx = UnlockDone \<and> released t n (Some (n, m)) s s1"
    then show ?thesis using s1(1,2) r1 by blast
  qed
qed

text \<open>C10: releasing a lock slot never trips an assertion and removes exactly that slot, at once
  for an item in light mode or in \<open>unlockTableInternal\<close>.\<close>

theorem release_total:
  assumes "reachable props trs (w, s)" "t < mTransCnt s" "w t = TxRunning" "(n, m) \<in> set (mTransLockSlots s t)"
  shows "\<exists>s'. (unlockTable t None (Some (n, m)) s = Some (UnlockDone, s') \<or>
      unlockTable t None (Some (n, m)) s = Some (UnlockInternal n, s) \<and>
      unlockTableInternal t (mLockItem (node s n)) n (Some (n, m)) True s = Some s') \<and>
    mTransLockSlots s' t = remove1 (n, m) (mTransLockSlots s t) \<and> reachable props trs (w, s')"
  using release_slot [OF assms] released_slots by fastforce

theorem release_total_witness:
  "\<exists>r s'. unlockTable 0 None (Some (0, SML_XLOCK)) demo2 = Some (r, s')"
  using release_total [OF demo_reachable(3), of 0 0 SML_XLOCK] demo_facts by (auto simp: running_def)

subsection \<open>Accounting\<close>

text \<open>C14: the books of an item in heavy mode are exact: its grant list is the list of the nodes
  that transactions hold on it, each counter is the number of them with that mode, the granted
  mode is their least upper bound, and they are pairwise compatible.\<close>

theorem item_accounting:
  assumes "reachable props trs (w, s)" "mItemFlag (item s i) \<noteq> SML_FLAG_LIGHT_MODE"
  shows "distinct (mLockGrant (item s i)) \<and> set (mLockGrant (item s i)) = heldOn s i \<and>
    mGrantCnt (item s i) = int (card (heldOn s i)) \<and>
    mArrLockCount (item s i) m = int (card {n \<in> heldOn s i. mLockMode (node s n) = m}) \<and>
    mGrantLockMode (item s i) = lubModes ((\<lambda>n. mLockMode (node s n)) ` heldOn s i) \<and>
    compatibleNodes s (heldOn s i) \<and> mRequestCnt (item s i) = int (length (mLockRequest (item s i)))"
proof -
  have "itemOk {} w s i" using reach_inv [OF assms(1)] by (simp add: lockInv_def)
  note H = itemOk_heavyD [OF this assms(2)]
  note G = grantsOkD [OF H(1)]
  let ?G = "mLockGrant (item s i)"
  have "count (modesOf s ?G) m = card {n \<in> heldOn s i. mLockMode (node s n) = m}"
  proof -
    have "count (modesOf s xs) m = length (filter (\<lambda>n. mLockMode (node s n) = m) xs)" for xs
      by (induction xs) auto
    then have "count (modesOf s ?G) m = length (filter (\<lambda>n. mLockMode (node s n) = m) ?G)" .
    also have "\<dots> = card (set (filter (\<lambda>n. mLockMode (node s n) = m) ?G))"
      by (rule distinct_card [symmetric, OF distinct_filter [OF G(1)]])
    finally show ?thesis using G(2) by simp
  qed
  then show ?thesis
    using G requestsOkD(3) [OF H(2)] by (simp add: itemCounts_def distinct_card [symmetric])
qed

theorem item_accounting_witness:
  "mArrLockCount (item demo2 0) SML_XLOCK = int (card {n \<in> heldOn demo2 0. mLockMode (node demo2 n) = SML_XLOCK})"
  using item_accounting [OF demo_reachable(3), of 0 SML_XLOCK] demo_facts by simp

text \<open>On an item in light mode only intention locks are held, nothing is recorded at the item,
  and nobody waits for it.\<close>

theorem light_items:
  assumes "reachable props trs (w, s)" "mItemFlag (item s i) = SML_FLAG_LIGHT_MODE"
  shows "clearLockItem (item s i) = item s i \<and> (\<forall>n \<in> heldOn s i. lightMode (mLockMode (node s n))) \<and>
    queuedNodes w s i = {}"
proof -
  have "itemOk {} w s i" using reach_inv [OF assms(1)] by (simp add: lockInv_def)
  then show ?thesis using assms(2) by (simp add: itemOk_def lightItem_def)
qed

theorem light_items_witness:
  "clearLockItem (item light2 0) = item light2 0 \<and> queuedNodes running light2 0 = {}"
  using light_items [OF light_reachable(2), of 0] demo_facts by simp

text \<open>The lock slots of a transaction are in strictly ascending order of their lock sequence,
  belong to nodes it holds, one per item, and no slot asks for more than its node's mode.\<close>

theorem slots_ordered:
  assumes "reachable props trs (w, s)" "t < mTransCnt s" "w t \<noteq> TxEnding"
  shows "sorted_wrt (<) (map (slotSequence s) (mTransLockSlots s t)) \<and>
    distinct (map (\<lambda>n. mLockItem (node s n)) (mTransLockNodes s t)) \<and>
    (\<forall>(n, m) \<in> set (mTransLockSlots s t). n \<in> set (mTransLockNodes s t) \<and> m \<noteq> SML_NLOCK \<and>
       m \<le> mLockMode (node s n) \<and> slotSequence s (n, m) \<noteq> 0)"
proof -
  note inv = reach_inv [OF assms(1)]
  note ok = slotsOkD [OF lockInv_tx(3) [OF inv assms(2,3)]]
  have "n \<in> set (mTransLockNodes s t) \<and> m \<noteq> SML_NLOCK \<and> m \<le> mLockMode (node s n) \<and> slotSequence s (n, m) \<noteq> 0"
    if "(n, m) \<in> set (mTransLockSlots s t)" for n m
    using slot_held [OF inv assms(2,3) that] ok(2) that by (auto simp: heldBy_def)
  then show ?thesis using ok(1) lockInv_tx(2) [OF inv assms(2)] by (auto simp: nodesOk_def)
qed

theorem slots_ordered_witness:
  "slotSequence demo2 (0, SML_XLOCK) \<noteq> 0"
  using slots_ordered [OF demo_reachable(3), of 0] demo_facts by (simp add: running_def)

end
