(* ===== verification/LockBulk.thy ===== *)
theory LockBulk
  imports LockSafety
begin

text \<open>
  Releasing many locks at once: all locks at the end of a transaction (\<open>freeAllItemLock\<close>), all
  but the IS locks (\<open>freeAllItemLockExceptIS\<close>), and those taken after a point of the lock
  sequence, for a rollback to a savepoint or the end of a statement (\<open>partialItemUnlock\<close>).  Run
  without other threads in between, they release exactly what they are to release and end in a
  reachable state.
\<close>

subsection \<open>One slot\<close>

text \<open>The other slots of the transaction and what their nodes say about them.\<close>

definition sameSlot :: "lockState \<Rightarrow> lockState \<Rightarrow> lock_slot \<Rightarrow> bool" where
  "sameSlot s s' l \<longleftrightarrow> slotSequence s' l = slotSequence s l \<and>
     mIsExplicitLock (node s' (fst l)) = mIsExplicitLock (node s (fst l)) \<and>
     mNodeSpaceID (node s' (fst l)) = mNodeSpaceID (node s (fst l))"

lemma run_slot:
  assumes reach: "reachable props trs (w, s)" and t: "t < mTransCnt s" and w: "w t = TxRunning"
    and l: "l \<in> set (mTransLockSlots s t)"
  obtains s' where "unlockTable_run t None (Some l) True s = Some s'" "reachable props trs (w, s')"
    "mTransCnt s' = mTransCnt s" "mTransLockSlots s' t = remove1 l (mTransLockSlots s t)"
    "\<And>l'. l' \<in> set (mTransLockSlots s t) \<Longrightarrow> l' \<noteq> l \<Longrightarrow> sameSlot s s' l'"
proof -
  obtain n m where nm: "l = (n, m)" by (cases l)
  note l' = l [unfolded nm] and inv = reach_inv [OF reach]
  from release_slot [OF reach t w l'] obtain s' where s':
    "unlockTable t None (Some l) s = Some (UnlockDone, s') \<or> unlockTable t None (Some l) s = Some (UnlockInternal n, s) \<and>
      unlockTableInternal t (mLockItem (node s n)) n (Some l) True s = Some s'"
    "released t n (Some l) s s'" "mTransCnt s' = mTransCnt s" "reachable props trs (w, s')" unfolding nm by blast
  have run: "unlockTable_run t None (Some l) True s = Some s'"
    using s'(1) by (auto simp: unlockTable_run_def)
  have slots: "mTransLockSlots s' t = remove1 l (mTransLockSlots s t)" using released_slots [OF s'(2)] by simp
  have run_w: "w t \<noteq> TxEnding" using w by simp
  have same: "sameSlot s s' k" if k: "k \<in> set (mTransLockSlots s t)" "k \<noteq> l" for k
  proof -
    obtain n' m' where k': "k = (n', m')" by (cases k)
    note h = slot_held [OF inv t run_w k(1) [unfolded k']]
    have slot: "mSlotID (node s n') = t"
      using h(1) nodesOkD(2) [OF lockInv_tx(2) [OF inv t]] by (auto simp: heldBy_def)
    have kept: "ownKept t n s s'" using s'(2) by (simp add: released_def slotReleased_def)
    show ?thesis
    proof (cases "n' = n")
      case False
      then have "node s' n' = node s n'" using kept slot h(3) by (simp add: ownKept_def)
      then show ?thesis by (simp add: sameSlot_def k')
    next
      case True
      have k2: "(n, m') \<in> set (mTransLockSlots s' t)" using k k' True slots by simp
      have t': "t < mTransCnt s'" using t s'(3) by simp
      have "n \<in> set (mTransLockNodes s' t)"
        using slot_held(1) [OF reach_inv [OF s'(4)] t' run_w k2] by (simp add: heldBy_def)
      moreover have "distinct (mTransLockNodes s t)"
        using lockInv_tx(2) [OF inv t] by (auto simp: nodesOk_def distinct_map)
      ultimately have "leftFlag n (Some l) s \<noteq> 0" using s'(2) by (auto simp: released_def split: if_splits)
      then obtain v where "node s' n = (node s n)\<lparr>mNodeFlag := leftFlag n (Some l) s, mLockMode := v,
          mLockSequence := (mLockSequence (node s n))(m := 0)\<rparr>"
        using s'(2) by (auto simp: released_def slotReleased_def nm)
      moreover have "m' \<noteq> m" using k k' True nm by simp
      ultimately show ?thesis by (simp add: sameSlot_def k' True)
    qed
  qed
  show ?thesis by (rule that [OF run s'(4,3) slots same])
qed

text \<open>The slot list: distinct, and in the order of the sequence.\<close>

lemma slots_list:
  assumes "reachable props trs (w, s)" "t < mTransCnt s" "w t = TxRunning"
  shows "sorted_wrt (<) (map (slotSequence s) (mTransLockSlots s t))" "distinct (mTransLockSlots s t)"
proof -
  have "w t \<noteq> TxEnding" using assms(3) by simp
  note ok = slotsOkD [OF lockInv_tx(3) [OF reach_inv [OF assms(1)] assms(2) this]]
  show "sorted_wrt (<) (map (slotSequence s) (mTransLockSlots s t))" by (rule ok(1))
  then have "distinct (map (slotSequence s) (mTransLockSlots s t))"
    by (metis sorted_wrt_mono_rel strict_sorted_iff)
  then show "distinct (mTransLockSlots s t)" by (simp add: distinct_map)
qed

lemma last_slot_run:
  assumes reach: "reachable props trs (w, s)" and t: "t < mTransCnt s" and w: "w t = TxRunning"
    and L: "mTransLockSlots s t = ys @ l # zs"
  obtains s' where "unlockTable_run t None (Some l) True s = Some s'" "reachable props trs (w, s')"
    "mTransCnt s' = mTransCnt s" "mTransLockSlots s' t = ys @ zs" "\<And>k. k \<in> set (ys @ zs) \<Longrightarrow> sameSlot s s' k"
proof -
  have l: "l \<in> set (mTransLockSlots s t)" using L by simp
  have d: "l \<notin> set ys" "l \<notin> set zs" using slots_list(2) [OF reach t w] L by auto
  from run_slot [OF reach t w l] obtain s' where s': "unlockTable_run t None (Some l) True s = Some s'"
    "reachable props trs (w, s')" "mTransCnt s' = mTransCnt s" "mTransLockSlots s' t = remove1 l (mTransLockSlots s t)"
    "\<And>k. k \<in> set (mTransLockSlots s t) \<Longrightarrow> k \<noteq> l \<Longrightarrow> sameSlot s s' k" by metis
  have "mTransLockSlots s' t = ys @ zs" using s'(4) L d by (simp add: remove1_append)
  moreover have "sameSlot s s' k" if "k \<in> set (ys @ zs)" for k using s'(5) [of k] that L d by auto
  ultimately show ?thesis using that s'(1-3) by blast
qed

subsection \<open>Back to a point of the lock sequence\<close>

text \<open>The locks that go when the statement has several: implicit IS locks and IX locks of
  temporary tablespaces.\<close>

definition goes :: "(u16 \<Rightarrow> bool) \<Rightarrow> u64 \<Rightarrow> bool \<Rightarrow> lockState \<Rightarrow> lock_slot \<Rightarrow> bool" where
  "goes isTemp q several s l \<longleftrightarrow> slotSequence s l > q \<and> (\<not> several \<or>
     snd l = SML_ISLOCK \<and> \<not> mIsExplicitLock (node s (fst l)) \<or>
     snd l = SML_IXLOCK \<and> isTemp (mNodeSpaceID (node s (fst l))))"

lemma goes_same: "sameSlot s s' l \<Longrightarrow> goes isTemp q several s' l = goes isTemp q several s l"
  by (simp add: goes_def sameSlot_def)

lemma mask_eq: "mLockModeToMask a = mLockModeToMask b \<longleftrightarrow> a = b"
  by (cases a; cases b) (simp_all add: table_simps)

lemma partial_loop:
  assumes "reachable props trs (w, s)" "t < mTransCnt s" "w t = TxRunning" "mTransLockSlots s t = ys @ zs"
  shows "\<exists>s'. partialItemUnlock_loop isTemp t q several (rev ys) s = Some s' \<and> reachable props trs (w, s') \<and>
    mTransLockSlots s' t = filter (\<lambda>l. \<not> goes isTemp q several s l) ys @ zs"
  using assms
proof (induction ys arbitrary: s zs rule: rev_induct)
  case (snoc l ys)
  let ?go = "goes isTemp q several s"
  have L: "mTransLockSlots s t = ys @ l # zs" using snoc.prems(4) by simp
  show ?case
  proof (cases "slotSequence s l > q")
    case False
    have "\<not> ?go k" if "k \<in> set (ys @ [l])" for k
    proof -
      have "slotSequence s k \<le> slotSequence s l"
        using slots_list(1) [OF snoc.prems(1-3)] that unfolding L by (auto simp: sorted_wrt_append intro: less_imp_le)
      then show ?thesis using False by (auto simp: goes_def)
    qed
    then have "filter (\<lambda>l. \<not> ?go l) (ys @ [l]) = ys @ [l]" by (intro filter_True) auto
    then show ?thesis using False snoc.prems(1) L by (simp del: filter_append)
  next
    case seq: True
    show ?thesis
    proof (cases "?go l")
      case False
      have "partialItemUnlock_loop isTemp t q several (rev (ys @ [l])) s = partialItemUnlock_loop isTemp t q several (rev ys) s"
        using False seq by (auto simp: goes_def mask_eq)
      then show ?thesis using snoc.IH [OF snoc.prems(1-3) L] False by simp
    next
      case True
      from last_slot_run [OF snoc.prems(1-3) L] obtain s1 where s1: "unlockTable_run t None (Some l) True s = Some s1"
        "reachable props trs (w, s1)" "mTransCnt s1 = mTransCnt s" "mTransLockSlots s1 t = ys @ zs"
        "\<And>k. k \<in> set (ys @ zs) \<Longrightarrow> sameSlot s s1 k" by metis
      have "partialItemUnlock_loop isTemp t q several (rev (ys @ [l])) s = partialItemUnlock_loop isTemp t q several (rev ys) s1"
        using True seq s1(1) by (auto simp: goes_def mask_eq)
      moreover have "filter (\<lambda>l. \<not> goes isTemp q several s1 l) ys = filter (\<lambda>l. \<not> ?go l) ys"
        by (rule filter_cong) (use goes_same [OF s1(5)] in auto)
      ultimately show ?thesis
        using snoc.IH [OF s1(2) _ snoc.prems(3) s1(4)] snoc.prems(2) s1(3) True by simp
    qed
  qed
qed simp

text \<open>C11: a partial unlock releases exactly the locks taken after the given point of the lock
  sequence (all of them, or for a statement with several only implicit IS locks and IX locks of
  temporary tablespaces); all others stay, in the same order.\<close>

theorem partial_unlock_exact:
  assumes "reachable props trs (w, s)" "t < mTransCnt s" "w t = TxRunning"
  shows "\<exists>s'. partialItemUnlock isTemp t q several s = Some s' \<and> reachable props trs (w, s') \<and>
    mTransLockSlots s' t = filter (\<lambda>l. \<not> (slotSequence s l > q \<and> (\<not> several \<or>
      snd l = SML_ISLOCK \<and> \<not> mIsExplicitLock (node s (fst l)) \<or>
      snd l = SML_IXLOCK \<and> isTemp (mNodeSpaceID (node s (fst l)))))) (mTransLockSlots s t)"
  using partial_loop [OF assms, of "mTransLockSlots s t" "[]" isTemp q several]
  by (simp add: partialItemUnlock_def goes_def)

theorem partial_unlock_exact_witness:
  "\<exists>s'. partialItemUnlock (\<lambda>_. False) 0 0 False demo2 = Some s' \<and> mTransLockSlots s' 0 = []"
proof -
  have "slotSequence demo2 (0, SML_XLOCK) = 1" by (simp add: demo_defs start_defs)
  then show ?thesis
    using partial_unlock_exact [OF demo_reachable(3), of 0 "\<lambda>_. False" 0 False] demo_facts by (auto simp: running_def)
qed

subsection \<open>All but the IS locks\<close>

lemma exceptIS_loop:
  assumes "reachable props trs (w, s)" "t < mTransCnt s" "w t = TxRunning" "mTransLockSlots s t = ys @ zs"
  shows "\<exists>s'. freeAllItemLockExceptIS_loop t (rev ys) s = Some s' \<and> reachable props trs (w, s') \<and>
    mTransLockSlots s' t = filter (\<lambda>l. snd l = SML_ISLOCK) ys @ zs"
  using assms
proof (induction ys arbitrary: s zs rule: rev_induct)
  case (snoc l ys)
  have L: "mTransLockSlots s t = ys @ l # zs" using snoc.prems(4) by simp
  show ?case
  proof (cases "snd l = SML_ISLOCK")
    case True
    then have "freeAllItemLockExceptIS_loop t (rev (ys @ [l])) s = freeAllItemLockExceptIS_loop t (rev ys) s" by simp
    then show ?thesis using snoc.IH [OF snoc.prems(1-3) L] True by simp
  next
    case False
    from last_slot_run [OF snoc.prems(1-3) L] obtain s1 where s1: "unlockTable_run t None (Some l) True s = Some s1"
      "reachable props trs (w, s1)" "mTransCnt s1 = mTransCnt s" "mTransLockSlots s1 t = ys @ zs" by metis
    have "freeAllItemLockExceptIS_loop t (rev (ys @ [l])) s = freeAllItemLockExceptIS_loop t (rev ys) s1"
      using False s1(1) mask_eq [of SML_ISLOCK "snd l"] by auto
    then show ?thesis
      using snoc.IH [OF s1(2) _ snoc.prems(3) s1(4)] snoc.prems(2) s1(3) False by simp
  qed
qed simp

text \<open>\<open>freeAllItemLockExceptIS\<close> releases every lock of the transaction but its IS locks.\<close>

theorem exceptIS_exact:
  assumes "reachable props trs (w, s)" "t < mTransCnt s" "w t = TxRunning"
  shows "\<exists>s'. freeAllItemLockExceptIS t s = Some s' \<and> reachable props trs (w, s') \<and>
    mTransLockSlots s' t = filter (\<lambda>l. snd l = SML_ISLOCK) (mTransLockSlots s t)"
  using exceptIS_loop [OF assms, of "mTransLockSlots s t" "[]"] by (simp add: freeAllItemLockExceptIS_def)

theorem exceptIS_exact_witness:
  "\<exists>s'. freeAllItemLockExceptIS 0 light2 = Some s' \<and> mTransLockSlots s' 0 = [(0, SML_ISLOCK)]"
  using exceptIS_exact [OF light_reachable(2), of 0] demo_facts by (auto simp: running_def)

subsection \<open>The end of a transaction\<close>

lemma freeAll_loop:
  assumes "reachable props trs (w, s)" "t < mTransCnt s" "w t = TxEnding" "mTransLockNodes s t = ys"
  shows "\<exists>s'. freeAllItemLock_loop t (rev ys) s = Some s' \<and> reachable props trs (w, s') \<and> mTransLockNodes s' t = []"
  using assms
proof (induction ys arbitrary: s rule: rev_induct)
  case (snoc n ys)
  note reach = snoc.prems(1) and t = snoc.prems(2) and w = snoc.prems(3) and inv = reach_inv [OF snoc.prems(1)]
  have n: "n \<in> set (mTransLockNodes s t)" using snoc.prems(4) by simp
  have w': "w t = TxRunning \<and> None \<noteq> (None :: lock_slot option) \<or> w t = TxEnding \<and> (None :: lock_slot option) = None"
    using w by simp
  from unlock_inv(1) [OF inv t w' n, of "Some n"] obtain nx s1 where s1: "unlockTable t (Some n) None s = Some (nx, s1)"
    "mTransCnt s1 = mTransCnt s" "nx = UnlockInternal n \<and> s1 = s \<or> nx = UnlockDone \<and> released t n None s s1" by auto
  from unlock_inv(2) [OF inv t w' n, of "Some n"] obtain s2 where
    s2: "unlockTableInternal t (mLockItem (node s n)) n None True s = Some s2" "released t n None s s2"
      "mTransCnt s2 = mTransCnt s" by auto
  define s' where "s' = (if nx = UnlockDone then s1 else s2)"
  have "unlockTable_run t (Some n) None True s = Some s'" using s1 s2(1) by (auto simp: unlockTable_run_def s'_def)
  moreover have "released t n None s s'" "mTransCnt s' = mTransCnt s" using s1 s2 by (auto simp: s'_def)
  moreover have "reachable props trs (w, s')"
    using reachable.step [OF reach lockStep.free [where w = w and t = t, OF t w n s1(1)]]
      reachable.step [OF reach lockStep.freeInternal [where w = w and t = t, OF t w n s2(1)]] by (simp add: s'_def)
  moreover have "distinct (mTransLockNodes s t)" using lockInv_tx(2) [OF inv t] by (auto simp: nodesOk_def distinct_map)
  moreover from this have "remove1 n (mTransLockNodes s t) = ys"
    unfolding snoc.prems(4) by (simp add: remove1_append)
  ultimately show ?case
    using snoc.IH [of s'] t w by (simp add: released_def leftFlag_def)
qed simp

text \<open>C12: at its end a transaction gives back every lock it holds: \<open>freeAllItemLock\<close> runs to its
  end, leaves the transaction without a lock node, and hence no item with one of it.\<close>

theorem end_releases_all:
  assumes "reachable props trs (w, s)" "t < mTransCnt s" "w t = TxEnding"
  shows "\<exists>s'. freeAllItemLock t s = Some s' \<and> reachable props trs (w, s') \<and> mTransLockNodes s' t = [] \<and>
    heldBy s' i t = {}"
  using freeAll_loop [OF assms refl] by (auto simp: freeAllItemLock_def heldBy_def)

theorem end_releases_all_witness:
  "\<exists>s'. freeAllItemLock 0 demo2 = Some s' \<and> mTransLockNodes s' 0 = []"
proof -
  have "lockStep demoProps noDistTx 0 (running, demo2) (running(0 := TxEnding), demo2)"
    by (rule lockStep.end_tx) (simp_all add: running_def)
  from end_releases_all [OF reachable.step [OF demo_reachable(3) this], of 0] show ?thesis by auto
qed

end
