(* ===== verification/KeyOrder.thy ===== *)
theory KeyOrder
  imports Prelude
begin

text \<open>
  The contract between index key ranges and the data types: what the range code of
  \<open>src/src/mt/mtk/mtk.cpp\<close> expects of a type module's key comparison and null test, for each
  column of an index.  Nulls sort last whatever the direction.
\<close>

locale key_order =
  fixes cmp :: "'v \<Rightarrow> 'v \<Rightarrow> int" and isNull :: "'v \<Rightarrow> bool"
  assumes cmp_flip: "cmp a b < 0 \<longleftrightarrow> cmp b a > 0"
    and cmp_trans: "cmp a b \<le> 0 \<Longrightarrow> cmp b c \<le> 0 \<Longrightarrow> cmp a c \<le> 0"
    and null_last: "isNull a \<Longrightarrow> \<not> isNull b \<Longrightarrow> cmp a b > 0"
begin

lemma cmp_zero_flip: "cmp a b = 0 \<longleftrightarrow> cmp b a = 0"
  using cmp_flip [of a b] cmp_flip [of b a] by auto

lemma cmp_refl [simp]: "cmp a a = 0"
  using cmp_flip [of a a] by auto

lemma cmp_total: "cmp a b \<le> 0 \<or> cmp b a \<le> 0"
  using cmp_flip [of a b] cmp_flip [of b a] by auto

lemma cmp_less_le: "cmp a b < 0 \<Longrightarrow> cmp b c \<le> 0 \<Longrightarrow> cmp a c < 0"
  by (smt (verit) cmp_flip cmp_trans)

lemma cmp_le_less: "cmp a b \<le> 0 \<Longrightarrow> cmp b c < 0 \<Longrightarrow> cmp a c < 0"
  by (smt (verit) cmp_flip cmp_trans)

lemma cmp_eq_left: "cmp a b = 0 \<Longrightarrow> sgn (cmp c a) = sgn (cmp c b)"
  by (smt (verit) cmp_flip cmp_less_le cmp_le_less sgn_if)

text \<open>A value above the greater of two keys is above the smaller one.\<close>

lemma cmp_above: "cmp k1 k2 < 0 \<Longrightarrow> cmp v k2 \<ge> 0 \<Longrightarrow> cmp v k1 > 0"
  by (smt (verit) cmp_flip cmp_less_le)

lemma cmp_below: "cmp k1 k2 < 0 \<Longrightarrow> cmp v k1 \<le> 0 \<Longrightarrow> cmp v k2 < 0"
  by (smt (verit) cmp_flip cmp_le_less)

end

text \<open>A comparison that is the sign of a difference of ranks is a key order.\<close>

lemma rank_key_order:
  assumes "\<And>a b. cmp a b = sgn (rank a - rank b)"
    and "\<And>a b. isN a \<Longrightarrow> \<not> isN b \<Longrightarrow> rank b < (rank a :: int)"
  shows "key_order cmp isN"
proof
  fix a b c
  show "cmp a b < 0 \<longleftrightarrow> cmp b a > 0"
    by (auto simp: assms(1))
  show "cmp a b \<le> 0 \<Longrightarrow> cmp b c \<le> 0 \<Longrightarrow> cmp a c \<le> 0"
    by (auto simp: assms(1) sgn_if split: if_splits)
  show "isN a \<Longrightarrow> \<not> isN b \<Longrightarrow> cmp a b > 0"
    using assms(2) [of a b] by (simp add: assms(1))
qed

text \<open>Keys read through a function are ordered like what they are read as.\<close>

lemma key_order_image:
  assumes "key_order cmp isN"
  shows "key_order (\<lambda>a b. cmp (f a) (f b)) (\<lambda>a. isN (f a))"
proof -
  have "\<And>a b. cmp a b < 0 \<longleftrightarrow> cmp b a > 0"
    and "\<And>a b c. cmp a b \<le> 0 \<Longrightarrow> cmp b c \<le> 0 \<Longrightarrow> cmp a c \<le> 0"
    and "\<And>a b. isN a \<Longrightarrow> \<not> isN b \<Longrightarrow> cmp a b > 0"
    using assms unfolding key_order_def by blast+
  then show ?thesis
    unfolding key_order_def by blast
qed

subsection \<open>What the range code sees of a column\<close>

text \<open>What a comparison reads through an \<open>mtdValueInfo\<close>: the memory its pointer leads to, the
  length and whether \<open>MTD_PARTIAL_KEY_ON\<close> is set.\<close>

record 'v mtdValueInfo =
  viValue :: 'v
  viLength :: nat
  viPartialKey :: bool

definition valueInfo :: "'v \<Rightarrow> nat \<Rightarrow> bool \<Rightarrow> 'v mtdValueInfo" where
  "valueInfo v n p = \<lparr> viValue = v, viLength = n, viPartialKey = p \<rparr>"

lemma valueInfo_sel [simp]:
  "viValue (valueInfo v n p) = v" "viLength (valueInfo v n p) = n"
  "viPartialKey (valueInfo v n p) = p"
  by (simp_all add: valueInfo_def)

text \<open>
  The part of \<open>mtcColumn\<close> and its module's function table that key ranges use, for a column whose
  values read as \<open>'v\<close> and search keys as \<open>'k\<close>: the comparison of a column value with a key and of
  two keys in the direction of the index column (for keys of one type, and the one
  \<open>mtd::findCompareFunc\<close> finds for a group of types), the null test, \<open>mtd::valueForModule\<close>, and
  what a stored null is recognised by.
\<close>

record ('v, 'k) mtcColumn =
  keyCompare :: "'v mtdValueInfo \<Rightarrow> 'k mtdValueInfo \<Rightarrow> int"
  valueCompare :: "'k mtdValueInfo \<Rightarrow> 'k mtdValueInfo \<Rightarrow> int"
  groupCompare :: "'k mtdValueInfo \<Rightarrow> 'k mtdValueInfo \<Rightarrow> int"
  isNull :: "'k \<Rightarrow> bool"
  columnValue :: "'v \<Rightarrow> 'k"
  isCompressed :: bool
  isVariable :: bool
  equalsStaticNull :: "'v \<Rightarrow> bool"
  compressionValue :: "'v \<Rightarrow> 'k"

text \<open>A column value as the storage manager hands it over (\<open>smiValue\<close>), and an index key.\<close>

record 'v smiValue =
  smValue :: 'v
  smLength :: nat

abbreviation keyInfo :: "'k \<Rightarrow> 'k mtdValueInfo" where
  "keyInfo k \<equiv> valueInfo k 0 False"

definition keyOrd :: "('v, 'k) mtcColumn \<Rightarrow> 'k \<Rightarrow> 'k \<Rightarrow> int" where
  "keyOrd c a b = valueCompare c (keyInfo a) (keyInfo b)"

end
