(* ===== verification/CInt.thy ===== *)
theory CInt
  imports Prelude "HOL-Library.Signed_Division"
begin

text \<open>
  Integers of the C++ code as numbers: conversion to a signed type of 32 or 64 bits
  (\<open>SInt\<close>, \<open>SLong\<close>) wraps around, division rounds towards zero (\<open>sdiv\<close>) and the remainder has
  the sign of the dividend (\<open>smod\<close>).  The lemmas bring both back to the arithmetic of the library.
\<close>

definition toSInt :: "int \<Rightarrow> int" where
  "toSInt x = (x + 2147483648) mod 4294967296 - 2147483648"

definition toSLong :: "int \<Rightarrow> int" where
  "toSLong x = (x + 9223372036854775808) mod 18446744073709551616 - 9223372036854775808"

lemma toSInt_id: "- 2147483648 \<le> x \<Longrightarrow> x < 2147483648 \<Longrightarrow> toSInt x = x"
  by (simp add: toSInt_def)

lemma toSLong_id: "- 9223372036854775808 \<le> x \<Longrightarrow> x < 9223372036854775808 \<Longrightarrow> toSLong x = x"
  by (simp add: toSLong_def)

lemma toSLong_range: "- 9223372036854775808 \<le> toSLong x" "toSLong x < 9223372036854775808"
  by (simp_all add: toSLong_def)

lemma toSLong_add [simp]:
  "toSLong (toSLong x + y) = toSLong (x + y)" "toSLong (x + toSLong y) = toSLong (x + y)"
proof -
  have *: "(a mod k - k' + b) mod k = (a - k' + b) mod k" for a b k k' :: int
    by (metis mod_add_left_eq mod_diff_left_eq)
  show "toSLong (toSLong x + y) = toSLong (x + y)" for x y
    using * [of "x + 9223372036854775808" 18446744073709551616 9223372036854775808 "y + 9223372036854775808"]
    by (simp add: toSLong_def algebra_simps)
  from this [of y x] show "toSLong (x + toSLong y) = toSLong (x + y)"
    by (simp add: add.commute)
qed

lemma sdiv_nonneg: "0 \<le> a \<Longrightarrow> 0 < b \<Longrightarrow> (a :: int) sdiv b = a div b"
  by (cases "a = 0") (auto simp: signed_divide_int_def)

lemma sdiv_nonpos: "a \<le> 0 \<Longrightarrow> 0 < b \<Longrightarrow> (a :: int) sdiv b = - ((- a) div b)"
  by (cases "a = 0") (auto simp: signed_divide_int_def)

lemma smod_nonneg: "0 \<le> a \<Longrightarrow> 0 < b \<Longrightarrow> (a :: int) smod b = a mod b"
  by (cases "a = 0") (auto simp: smod_int_alt_def)

lemma smod_nonpos: "a \<le> 0 \<Longrightarrow> 0 < b \<Longrightarrow> (a :: int) smod b = - ((- a) mod b)"
  by (cases "a = 0") (auto simp: smod_int_alt_def)

lemma smod_eq_0_iff: "(a :: int) smod b = 0 \<longleftrightarrow> b dvd a"
  by (cases "a = 0") (auto simp: smod_int_alt_def sgn_if dvd_eq_mod_eq_0 [symmetric])

text \<open>What truncation leaves: quotient and remainder with the sign of the dividend.\<close>

lemma sdiv_smod:
  fixes a b :: int
  assumes "0 < b"
  shows "a = a sdiv b * b + a smod b" "\<bar>a smod b\<bar> < b"
    "0 \<le> a \<Longrightarrow> 0 \<le> a smod b \<and> 0 \<le> a sdiv b" "a \<le> 0 \<Longrightarrow> a smod b \<le> 0 \<and> a sdiv b \<le> 0"
proof -
  show "a = a sdiv b * b + a smod b" by (simp add: sdiv_mult_smod_eq)
  show "\<bar>a smod b\<bar> < b"
    using assms smod_int_compares [of a b] by (cases "0 \<le> a") auto
  show "0 \<le> a \<Longrightarrow> 0 \<le> a smod b \<and> 0 \<le> a sdiv b"
    using assms by (simp add: sdiv_nonneg smod_nonneg pos_imp_zdiv_nonneg_iff)
  show "a \<le> 0 \<Longrightarrow> a smod b \<le> 0 \<and> a sdiv b \<le> 0"
    using assms by (simp add: sdiv_nonpos smod_nonpos pos_imp_zdiv_nonneg_iff)
qed

text \<open>Integer division steps at the multiples.\<close>

lemma div_step: "0 < k \<Longrightarrow> (a + 1) div k = a div k + (if k dvd a + 1 then 1 else (0 :: int))"
proof -
  assume k: "0 < k"
  have a: "a = a div k * k + a mod k" "0 \<le> a mod k" "a mod k < k" using k by simp_all
  show ?thesis
  proof (cases "a mod k = k - 1")
    case True
    then have e: "a + 1 = (a div k + 1) * k" unfolding distrib_right using a(1) by linarith
    have "k dvd a + 1" unfolding e by simp
    moreover have "(a + 1) div k = a div k + 1" unfolding e using k by simp
    ultimately show ?thesis by simp
  next
    case False
    then have lt: "a mod k + 1 < k" using a(3) by simp
    have e: "a + 1 = k * (a div k) + (a mod k + 1)" using a(1) by (simp only: mult.commute)
    have "(a + 1) mod k = a mod k + 1" "(a + 1) div k = a div k"
      using int_mod_pos_eq [OF e] int_div_pos_eq [OF e] lt a(2) by simp_all
    then have "\<not> k dvd a + 1" and "(a + 1) div k = a div k" using a(2) by (simp_all add: dvd_eq_mod_eq_0)
    then show ?thesis by simp
  qed
qed

end
