(* ===== verification/MtdDate.thy ===== *)
theory MtdDate
  imports KeyOrder CInt
begin

text \<open>
  The \<open>DATE\<close> type: its packed representation and \<open>mtdDateInterface\<close>'s access to it
  (\<open>src/src/mt/include/mtdTypes.h\<close>, \<open>src/src/mt/mtd/mtdDate.cpp\<close>) and the checks of a date.

  A date is a signed 16 bit year, a word with month, day and hour, and a word with minute, second
  and microsecond.  A setter that returns \<open>IDE_FAILURE\<close> is \<open>None\<close>; the callers then give up the
  date it was to write.
\<close>

subsection \<open>The representation\<close>

record mtdDateType =
  year :: "16 word"
  mon_day_hour :: "16 word"
  min_sec_mic :: "32 word"

abbreviation MTD_DATE_MON_SHIFT :: nat where "MTD_DATE_MON_SHIFT \<equiv> 10"
abbreviation MTD_DATE_DAY_SHIFT :: nat where "MTD_DATE_DAY_SHIFT \<equiv> 5"
abbreviation MTD_DATE_MIN_SHIFT :: nat where "MTD_DATE_MIN_SHIFT \<equiv> 26"
abbreviation MTD_DATE_SEC_SHIFT :: nat where "MTD_DATE_SEC_SHIFT \<equiv> 20"
abbreviation MTD_DATE_MON_MASK :: "16 word" where "MTD_DATE_MON_MASK \<equiv> 0x3C00"
abbreviation MTD_DATE_DAY_MASK :: "16 word" where "MTD_DATE_DAY_MASK \<equiv> 0x03E0"
abbreviation MTD_DATE_HOUR_MASK :: "16 word" where "MTD_DATE_HOUR_MASK \<equiv> 0x001F"
abbreviation MTD_DATE_MIN_MASK :: "32 word" where "MTD_DATE_MIN_MASK \<equiv> 0xFC000000"
abbreviation MTD_DATE_SEC_MASK :: "32 word" where "MTD_DATE_SEC_MASK \<equiv> 0x03F00000"
abbreviation MTD_DATE_MSEC_MASK :: "32 word" where "MTD_DATE_MSEC_MASK \<equiv> 0x000FFFFF"

definition mtdDateNull :: mtdDateType where
  "mtdDateNull = \<lparr> year = -32768, mon_day_hour = 0, min_sec_mic = 0 \<rparr>"

definition MTD_DATE_IS_NULL :: "mtdDateType \<Rightarrow> bool" where
  "MTD_DATE_IS_NULL d \<longleftrightarrow> year d = year mtdDateNull \<and> mon_day_hour d = mon_day_hour mtdDateNull \<and>
     min_sec_mic d = min_sec_mic mtdDateNull"

definition month :: "mtdDateType \<Rightarrow> 8 word" where
  "month aDate = ucast (drop_bit MTD_DATE_MON_SHIFT (mon_day_hour aDate AND MTD_DATE_MON_MASK))"

definition day :: "mtdDateType \<Rightarrow> 8 word" where
  "day aDate = ucast (drop_bit MTD_DATE_DAY_SHIFT (mon_day_hour aDate AND MTD_DATE_DAY_MASK))"

definition hour :: "mtdDateType \<Rightarrow> 8 word" where
  "hour aDate = ucast (mon_day_hour aDate AND MTD_DATE_HOUR_MASK)"

definition minute :: "mtdDateType \<Rightarrow> 8 word" where
  "minute aDate = ucast (drop_bit MTD_DATE_MIN_SHIFT (min_sec_mic aDate AND MTD_DATE_MIN_MASK))"

definition second :: "mtdDateType \<Rightarrow> 8 word" where
  "second aDate = ucast (drop_bit MTD_DATE_SEC_SHIFT (min_sec_mic aDate AND MTD_DATE_SEC_MASK))"

definition microSecond :: "mtdDateType \<Rightarrow> 32 word" where
  "microSecond aDate = min_sec_mic aDate AND MTD_DATE_MSEC_MASK"

text \<open>\<open>mtdDateInterface::compare\<close>: the year is signed, the packed words are not.\<close>

definition dateCompare :: "mtdDateType \<Rightarrow> mtdDateType \<Rightarrow> int" where
  "dateCompare aDate1 aDate2 =
     (if sint (year aDate1) > sint (year aDate2) then 1
      else if sint (year aDate1) < sint (year aDate2) then -1
      else if mon_day_hour aDate1 > mon_day_hour aDate2 then 1
      else if mon_day_hour aDate1 < mon_day_hour aDate2 then -1
      else if min_sec_mic aDate1 > min_sec_mic aDate2 then 1
      else if min_sec_mic aDate1 < min_sec_mic aDate2 then -1
      else 0)"

definition isLeapYear :: "16 word \<Rightarrow> bool" where
  "isLeapYear aYear \<longleftrightarrow> (sint aYear smod 4 = 0) \<and>
     (sint aYear < 1583 \<or> sint aYear smod 100 \<noteq> 0 \<or> sint aYear smod 400 = 0)"

definition mDaysOfMonth :: "int list list" where
  "mDaysOfMonth = [[0, 31, 28, 31, 30, 31, 30, 31, 31, 30, 31, 30, 31],
     [0, 31, 29, 31, 30, 31, 30, 31, 31, 30, 31, 30, 31]]"

definition setYear :: "mtdDateType \<Rightarrow> 16 word \<Rightarrow> mtdDateType option" where
  "setYear aDate aYear = Some (aDate\<lparr>year := aYear\<rparr>)"

definition setMonth :: "mtdDateType \<Rightarrow> 8 word \<Rightarrow> mtdDateType option" where
  "setMonth aDate aMonth =
     (let sMonth = ucast aMonth :: 16 word in
      if sMonth < 1 \<or> sMonth > 12 then None
      else Some (aDate\<lparr>mon_day_hour := (mon_day_hour aDate AND NOT MTD_DATE_MON_MASK) OR
        push_bit MTD_DATE_MON_SHIFT sMonth\<rparr>))"

definition setDay :: "mtdDateType \<Rightarrow> 8 word \<Rightarrow> mtdDateType option" where
  "setDay aDate aDay =
     (let sDay = ucast aDay :: 16 word in
      if sDay < 1 \<or> sDay > 31 then None
      else Some (aDate\<lparr>mon_day_hour := (mon_day_hour aDate AND NOT MTD_DATE_DAY_MASK) OR
        push_bit MTD_DATE_DAY_SHIFT sDay\<rparr>))"

definition setHour :: "mtdDateType \<Rightarrow> 8 word \<Rightarrow> mtdDateType option" where
  "setHour aDate aHour =
     (let sHour = ucast aHour :: 16 word in
      if sHour > 23 then None
      else Some (aDate\<lparr>mon_day_hour := (mon_day_hour aDate AND NOT MTD_DATE_HOUR_MASK) OR sHour\<rparr>))"

definition setMinute :: "mtdDateType \<Rightarrow> 8 word \<Rightarrow> mtdDateType option" where
  "setMinute aDate aMinute =
     (let sMinute = ucast aMinute :: 32 word in
      if sMinute > 59 then None
      else Some (aDate\<lparr>min_sec_mic := (min_sec_mic aDate AND NOT MTD_DATE_MIN_MASK) OR
        push_bit MTD_DATE_MIN_SHIFT sMinute\<rparr>))"

definition setSecond :: "mtdDateType \<Rightarrow> 8 word \<Rightarrow> mtdDateType option" where
  "setSecond aDate aSec =
     (let sSec = ucast aSec :: 32 word in
      if sSec > 59 then None
      else Some (aDate\<lparr>min_sec_mic := (min_sec_mic aDate AND NOT MTD_DATE_SEC_MASK) OR
        push_bit MTD_DATE_SEC_SHIFT sSec\<rparr>))"

definition setMicroSecond :: "mtdDateType \<Rightarrow> 32 word \<Rightarrow> mtdDateType option" where
  "setMicroSecond aDate aMicroSec =
     (if aMicroSec > 999999 then None
      else Some (aDate\<lparr>min_sec_mic := (min_sec_mic aDate AND NOT MTD_DATE_MSEC_MASK) OR aMicroSec\<rparr>))"

text \<open>The day numbers 5 to 14 of October 1582 do not exist and are taken for the 15th.\<close>

definition checkYearMonthDayAndSetDateValue ::
  "mtdDateType \<Rightarrow> 16 word \<Rightarrow> 8 word \<Rightarrow> 8 word \<Rightarrow> mtdDateType option" where
  "checkYearMonthDayAndSetDateValue aDate aYear aMonth aDay = do {
     d1 \<leftarrow> setYear aDate aYear;
     d2 \<leftarrow> setMonth d1 aMonth;
     (if aYear = 1582 \<and> aMonth = 10 \<and> 4 < aDay \<and> aDay < 15 then setDay d2 15
      else do {
        d3 \<leftarrow> setDay d2 aDay;
        (if isLeapYear aYear
         then (if uint aDay > mDaysOfMonth ! 1 ! unat aMonth then None else Some d3)
         else (if uint aDay > mDaysOfMonth ! 0 ! unat aMonth then None else Some d3)) }) }"

definition makeDate :: "mtdDateType \<Rightarrow> 16 word \<Rightarrow> 8 word \<Rightarrow> 8 word \<Rightarrow> 8 word \<Rightarrow> 8 word \<Rightarrow> 8 word \<Rightarrow>
    32 word \<Rightarrow> mtdDateType option" where
  "makeDate aDate aYear aMonth aDay aHour aMinute aSec aMicroSec = do {
     d0 \<leftarrow> Some (aDate\<lparr>mon_day_hour := 0, min_sec_mic := 0\<rparr>);
     d1 \<leftarrow> checkYearMonthDayAndSetDateValue d0 aYear aMonth aDay;
     d2 \<leftarrow> setHour d1 aHour;
     d3 \<leftarrow> setMinute d2 aMinute;
     d4 \<leftarrow> setSecond d3 aSec;
     setMicroSecond d4 aMicroSec }"

lemma MTD_DATE_IS_NULL_iff: "MTD_DATE_IS_NULL d \<longleftrightarrow> d = mtdDateNull"
  by (auto simp: MTD_DATE_IS_NULL_def intro: mtdDateType.equality)

subsection \<open>The fields\<close>

lemma date_masks:
  "(0x3C00 :: 16 word) = push_bit 10 (mask 4)" "(0x03E0 :: 16 word) = push_bit 5 (mask 5)"
  "(0x001F :: 16 word) = mask 5" "(0xFC000000 :: 32 word) = push_bit 26 (mask 6)"
  "(0x03F00000 :: 32 word) = push_bit 20 (mask 6)" "(0x000FFFFF :: 32 word) = mask 20"
  by (simp_all add: mask_eq_exp_minus_1)

lemma field_values:
  "month d = ucast (take_bit 4 (drop_bit 10 (mon_day_hour d)))"
  "day d = ucast (take_bit 5 (drop_bit 5 (mon_day_hour d)))"
  "hour d = ucast (take_bit 5 (mon_day_hour d))"
  "minute d = ucast (drop_bit 26 (min_sec_mic d))"
  "second d = ucast (take_bit 6 (drop_bit 20 (min_sec_mic d)))"
  "microSecond d = take_bit 20 (min_sec_mic d)"
  unfolding month_def day_def hour_def minute_def second_def microSecond_def date_masks
  by (rule bit_word_eqI; auto simp: bit_simps dest: bit_imp_le_length)+

lemma field_uint:
  "uint (month d) = uint (mon_day_hour d) div 1024 mod 16"
  "uint (day d) = uint (mon_day_hour d) div 32 mod 32"
  "uint (hour d) = uint (mon_day_hour d) mod 32"
  "uint (minute d) = uint (min_sec_mic d) div 67108864"
  "uint (second d) = uint (min_sec_mic d) div 1048576 mod 64"
  "uint (microSecond d) = uint (min_sec_mic d) mod 1048576"
proof -
  have 1: "uint (take_bit n (x :: 'a::len word)) = uint x mod 2 ^ n" if "n \<le> LENGTH('a)" for n x
    unfolding unsigned_take_bit_eq by (rule take_bit_eq_mod)
  have 2: "uint (drop_bit n (x :: 'a::len word)) = uint x div 2 ^ n" for n x
    unfolding unsigned_drop_bit_eq by (simp add: drop_bit_eq_div take_bit_int_eq_self)
  have 3: "uint (ucast x :: 'b::len word) = uint x mod 2 ^ LENGTH('b)" for x :: "'a::len word"
    by (simp add: unsigned_ucast_eq take_bit_eq_mod)
  have b: "uint (min_sec_mic d) div 67108864 < 256" using uint_lt2p [of "min_sec_mic d"] by simp
  show "uint (month d) = uint (mon_day_hour d) div 1024 mod 16"
    "uint (day d) = uint (mon_day_hour d) div 32 mod 32"
    "uint (hour d) = uint (mon_day_hour d) mod 32"
    "uint (second d) = uint (min_sec_mic d) div 1048576 mod 64"
    "uint (microSecond d) = uint (min_sec_mic d) mod 1048576"
    by (simp_all add: field_values 1 2 3 mod_mod_cancel)
  show "uint (minute d) = uint (min_sec_mic d) div 67108864"
    using b by (simp add: field_values 1 2 3 mod_pos_pos_trivial pos_imp_zdiv_nonneg_iff)
qed

text \<open>What writing a field leaves of the others.\<close>

lemma uint_set_field:
  fixes a m :: "'a::len word"
  assumes "uint m < 2 ^ w" "s + w \<le> LENGTH('a)"
  shows "uint ((a AND NOT (push_bit s (mask w))) OR push_bit s m) =
    uint a div 2 ^ (s + w) * 2 ^ (s + w) + uint m * 2 ^ s + uint a mod 2 ^ s"
proof -
  have m: "take_bit w (uint m) = uint m" using assms(1) by (simp add: take_bit_int_eq_self)
  have low: "bit m n \<Longrightarrow> n < w" for n
    using m by (metis bit_take_bit_iff bit_uint_iff bit_imp_le_length)
  have "uint ((a AND NOT (push_bit s (mask w))) OR push_bit s m) =
    concat_bit s (uint a) (concat_bit w (uint m) (drop_bit (s + w) (uint a)))"
    using assms(2) low
    by (intro bit_eqI) (auto simp: bit_simps bit_concat_bit_iff bit_uint_iff not_less dest: bit_imp_le_length)
  also have "\<dots> = uint a div 2 ^ (s + w) * 2 ^ (s + w) + uint m * 2 ^ s + uint a mod 2 ^ s"
    unfolding concat_bit_eq m
    by (simp add: push_bit_eq_mult drop_bit_eq_div take_bit_eq_mod power_add algebra_simps)
  finally show ?thesis .
qed

lemma set_fields:
  fixes a :: "16 word" and b :: "32 word"
  shows "uint m < 16 \<Longrightarrow> uint ((a AND NOT MTD_DATE_MON_MASK) OR push_bit 10 m) =
      uint a div 16384 * 16384 + uint m * 1024 + uint a mod 1024"
    "uint m < 32 \<Longrightarrow> uint ((a AND NOT MTD_DATE_DAY_MASK) OR push_bit 5 m) =
      uint a div 1024 * 1024 + uint m * 32 + uint a mod 32"
    "uint m < 32 \<Longrightarrow> uint ((a AND NOT MTD_DATE_HOUR_MASK) OR m) =
      uint a div 32 * 32 + uint m"
    "uint k < 64 \<Longrightarrow> uint ((b AND NOT MTD_DATE_MIN_MASK) OR push_bit 26 k) =
      uint k * 67108864 + uint b mod 67108864"
    "uint k < 64 \<Longrightarrow> uint ((b AND NOT MTD_DATE_SEC_MASK) OR push_bit 20 k) =
      uint b div 67108864 * 67108864 + uint k * 1048576 + uint b mod 1048576"
    "uint k < 1048576 \<Longrightarrow> uint ((b AND NOT MTD_DATE_MSEC_MASK) OR k) =
      uint b div 1048576 * 1048576 + uint k"
  using uint_set_field [of m 4 10 a] uint_set_field [of m 5 5 a] uint_set_field [of m 5 0 a]
    uint_set_field [of k 6 26 b] uint_set_field [of k 6 20 b] uint_set_field [of k 20 0 b]
    uint_lt2p [of b]
  by (simp_all add: date_masks)

text \<open>The calendar: length of a month, and the days left out in October 1582.\<close>

definition leap :: "int \<Rightarrow> bool" where
  "leap y \<longleftrightarrow> 4 dvd y \<and> (y < 1583 \<or> \<not> 100 dvd y \<or> 400 dvd y)"

definition daysIn :: "int \<Rightarrow> int \<Rightarrow> int" where
  "daysIn y m = (if m = 2 then if leap y then 29 else 28 else if m \<in> {4, 6, 9, 11} then 30 else 31)"

definition gapDay :: "int \<Rightarrow> int \<Rightarrow> int \<Rightarrow> bool" where
  "gapDay y m d \<longleftrightarrow> y = 1582 \<and> m = 10 \<and> 4 < d \<and> d < 15"

lemma isLeapYear_leap: "isLeapYear y = leap (sint y)"
  by (simp add: isLeapYear_def leap_def smod_eq_0_iff)

lemma month_cases:
  fixes m :: int
  assumes "1 \<le> m" "m \<le> 12"
  obtains "m = 1" | "m = 2" | "m = 3" | "m = 4" | "m = 5" | "m = 6" | "m = 7" | "m = 8" | "m = 9"
    | "m = 10" | "m = 11" | "m = 12"
proof -
  have "m = 1 \<or> m = 2 \<or> m = 3 \<or> m = 4 \<or> m = 5 \<or> m = 6 \<or> m = 7 \<or> m = 8 \<or> m = 9 \<or>
    m = 10 \<or> m = 11 \<or> m = 12" using assms by presburger
  then show thesis using that by blast
qed

lemma mDaysOfMonth_nth:
  assumes "1 \<le> m" "m \<le> 12"
  shows "mDaysOfMonth ! (if leap y then 1 else 0) ! nat m = daysIn y m"
  using assms by (rule month_cases) (simp_all add: mDaysOfMonth_def daysIn_def)

text \<open>The setters on the words as numbers.\<close>

definition w16 :: "int \<Rightarrow> 16 word" where
  "w16 n = word_of_int n"

definition w32 :: "int \<Rightarrow> 32 word" where
  "w32 n = word_of_int n"

lemma uint_w:
  "0 \<le> n \<Longrightarrow> n < 65536 \<Longrightarrow> uint (w16 n) = n"
  "0 \<le> n \<Longrightarrow> n < 4294967296 \<Longrightarrow> uint (w32 n) = n"
  by (simp_all add: w16_def w32_def uint_word_of_int mod_pos_pos_trivial)

lemma set_date_words:
  "setMonth d m = (if 1 \<le> uint m \<and> uint m \<le> 12 then Some (d\<lparr>mon_day_hour := w16
     (uint (mon_day_hour d) div 16384 * 16384 + uint m * 1024 + uint (mon_day_hour d) mod 1024)\<rparr>) else None)"
  "setDay d x = (if 1 \<le> uint x \<and> uint x \<le> 31 then Some (d\<lparr>mon_day_hour := w16
     (uint (mon_day_hour d) div 1024 * 1024 + uint x * 32 + uint (mon_day_hour d) mod 32)\<rparr>) else None)"
  "setHour d h = (if uint h \<le> 23 then Some (d\<lparr>mon_day_hour := w16
     (uint (mon_day_hour d) div 32 * 32 + uint h)\<rparr>) else None)"
  "setMinute d mi = (if uint mi \<le> 59 then Some (d\<lparr>min_sec_mic := w32
     (uint mi * 67108864 + uint (min_sec_mic d) mod 67108864)\<rparr>) else None)"
  "setSecond d s = (if uint s \<le> 59 then Some (d\<lparr>min_sec_mic := w32
     (uint (min_sec_mic d) div 67108864 * 67108864 + uint s * 1048576 + uint (min_sec_mic d) mod 1048576)\<rparr>) else None)"
  "setMicroSecond d us = (if uint us \<le> 999999 then Some (d\<lparr>min_sec_mic := w32
     (uint (min_sec_mic d) div 1048576 * 1048576 + uint us)\<rparr>) else None)"
proof -
  have u: "uint (ucast x :: 16 word) = uint x" "uint (ucast x :: 32 word) = uint x" for x :: "8 word"
    by (simp_all add: unsigned_ucast_eq take_bit_int_eq_self uint_ge_0
        order.strict_trans2 [OF uint_lt2p [of x]])
  have w: "uint x = n \<Longrightarrow> x = w16 n" "uint z = n \<Longrightarrow> z = w32 n" for x z n
    by (auto simp: w16_def w32_def)
  show "setMonth d m = (if 1 \<le> uint m \<and> uint m \<le> 12 then Some (d\<lparr>mon_day_hour := w16
     (uint (mon_day_hour d) div 16384 * 16384 + uint m * 1024 + uint (mon_day_hour d) mod 1024)\<rparr>) else None)"
    using w(1) [OF set_fields(1) [of "ucast m" "mon_day_hour d"]]
    by (auto simp: setMonth_def Let_def word_less_def u)
  show "setDay d x = (if 1 \<le> uint x \<and> uint x \<le> 31 then Some (d\<lparr>mon_day_hour := w16
     (uint (mon_day_hour d) div 1024 * 1024 + uint x * 32 + uint (mon_day_hour d) mod 32)\<rparr>) else None)"
    using w(1) [OF set_fields(2) [of "ucast x" "mon_day_hour d"]]
    by (auto simp: setDay_def Let_def word_less_def u)
  show "setHour d h = (if uint h \<le> 23 then Some (d\<lparr>mon_day_hour := w16
     (uint (mon_day_hour d) div 32 * 32 + uint h)\<rparr>) else None)"
    using w(1) [OF set_fields(3) [of "ucast h" "mon_day_hour d"]]
    by (auto simp: setHour_def Let_def word_less_def u)
  show "setMinute d mi = (if uint mi \<le> 59 then Some (d\<lparr>min_sec_mic := w32
     (uint mi * 67108864 + uint (min_sec_mic d) mod 67108864)\<rparr>) else None)"
    using w(2) [OF set_fields(4) [of "ucast mi" "min_sec_mic d"]]
    by (auto simp: setMinute_def Let_def word_less_def u)
  show "setSecond d s = (if uint s \<le> 59 then Some (d\<lparr>min_sec_mic := w32
     (uint (min_sec_mic d) div 67108864 * 67108864 + uint s * 1048576 + uint (min_sec_mic d) mod 1048576)\<rparr>) else None)"
    using w(2) [OF set_fields(5) [of "ucast s" "min_sec_mic d"]]
    by (auto simp: setSecond_def Let_def word_less_def u)
  show "setMicroSecond d us = (if uint us \<le> 999999 then Some (d\<lparr>min_sec_mic := w32
     (uint (min_sec_mic d) div 1048576 * 1048576 + uint us)\<rparr>) else None)"
    using w(2) [OF set_fields(6) [of us "min_sec_mic d"]]
    by (auto simp: setMicroSecond_def word_less_def)
qed

text \<open>\<open>makeDate\<close> as a function of its arguments.\<close>

definition fieldsOk :: "int \<Rightarrow> int \<Rightarrow> int \<Rightarrow> int \<Rightarrow> int \<Rightarrow> int \<Rightarrow> int \<Rightarrow> bool" where
  "fieldsOk y m d h mi s us \<longleftrightarrow> 1 \<le> m \<and> m \<le> 12 \<and> 1 \<le> d \<and> d \<le> daysIn y m \<and>
     0 \<le> h \<and> h \<le> 23 \<and> 0 \<le> mi \<and> mi \<le> 59 \<and> 0 \<le> s \<and> s \<le> 59 \<and> 0 \<le> us \<and> us \<le> 999999"

definition packDate :: "int \<Rightarrow> int \<Rightarrow> int \<Rightarrow> int \<Rightarrow> int \<Rightarrow> int \<Rightarrow> int \<Rightarrow> mtdDateType" where
  "packDate y m d h mi s us = \<lparr> year = word_of_int y, mon_day_hour = w16 (m * 1024 + d * 32 + h),
     min_sec_mic = w32 (mi * 67108864 + s * 1048576 + us) \<rparr>"

lemma daysIn_bounds: "28 \<le> daysIn y m" "daysIn y m \<le> 31"
  by (auto simp: daysIn_def)

lemma checkYearMonthDay_pack:
  assumes "mon_day_hour D = 0"
  shows "checkYearMonthDayAndSetDateValue D y m d =
    (if 1 \<le> uint m \<and> uint m \<le> 12 \<and> 1 \<le> uint d \<and> uint d \<le> daysIn (sint y) (uint m)
     then Some (D\<lparr>year := y, mon_day_hour := w16 (uint m * 1024 +
       (if gapDay (sint y) (uint m) (uint d) then 15 else uint d) * 32)\<rparr>) else None)"
proof (cases "1 \<le> uint m \<and> uint m \<le> 12")
  case m: True
  have y: "y = 1582 \<longleftrightarrow> sint y = 1582"
    using signed_word_eqI [of y 1582] by auto
  have gap: "y = 1582 \<and> m = 10 \<and> 4 < d \<and> d < 15 \<longleftrightarrow> gapDay (sint y) (uint m) (uint d)"
    unfolding gapDay_def y word_uint_eq_iff [of m] word_less_def [of 4] word_less_def [of d] by simp
  have set: "setDay (D\<lparr>year := y, mon_day_hour := w16 (uint m * 1024)\<rparr>) x =
      (if 1 \<le> uint x \<and> uint x \<le> 31
       then Some (D\<lparr>year := y, mon_day_hour := w16 (uint m * 1024 + uint x * 32)\<rparr>) else None)" for x
    using m by (simp add: set_date_words(2) uint_w)
  have table: "mDaysOfMonth ! (if isLeapYear y then 1 else 0) ! unat m = daysIn (sint y) (uint m)"
    using mDaysOfMonth_nth [of "uint m" "sint y"] m unfolding isLeapYear_leap nat_uint_eq by blast
  have run: "checkYearMonthDayAndSetDateValue D y m d =
    (if gapDay (sint y) (uint m) (uint d) then setDay (D\<lparr>year := y, mon_day_hour := w16 (uint m * 1024)\<rparr>) 15
     else do { d3 \<leftarrow> setDay (D\<lparr>year := y, mon_day_hour := w16 (uint m * 1024)\<rparr>) d;
       (if uint d > daysIn (sint y) (uint m) then None else Some d3) })"
    unfolding checkYearMonthDayAndSetDateValue_def gap setYear_def
    using m table assms by (cases "isLeapYear y") (simp_all add: set_date_words(1))
  show ?thesis
  proof (cases "gapDay (sint y) (uint m) (uint d)")
    case True
    then have "daysIn (sint y) (uint m) = 31" "1 \<le> uint d" "uint d \<le> 31"
      by (simp_all add: gapDay_def daysIn_def)
    then show ?thesis using m True unfolding run set by simp
  next
    case False
    then show ?thesis using m daysIn_bounds [of "sint y" "uint m"] unfolding run set by simp
  qed
next
  case False
  then have "setMonth d' m = None" for d' by (simp add: set_date_words(1))
  then show ?thesis using False by (auto simp: checkYearMonthDayAndSetDateValue_def setYear_def)
qed

lemma makeDate_pack:
  "makeDate D y m d h mi s us =
    (if fieldsOk (sint y) (uint m) (uint d) (uint h) (uint mi) (uint s) (uint us)
     then Some (packDate (sint y) (uint m) (if gapDay (sint y) (uint m) (uint d) then 15 else uint d)
       (uint h) (uint mi) (uint s) (uint us)) else None)"
proof (cases "1 \<le> uint m \<and> uint m \<le> 12 \<and> 1 \<le> uint d \<and> uint d \<le> daysIn (sint y) (uint m)")
  case True
  define d' where "d' = (if gapDay (sint y) (uint m) (uint d) then 15 else uint d)"
  have d': "1 \<le> d'" "d' \<le> 31" using True daysIn_bounds(2) [of "sint y" "uint m"] by (auto simp: d'_def)
  let ?D = "\<lparr>year = y, mon_day_hour = w16 (uint m * 1024 + d' * 32), min_sec_mic = 0\<rparr>"
  have "makeDate D y m d h mi s us = do {
      d2 \<leftarrow> setHour ?D h; d3 \<leftarrow> setMinute d2 mi; d4 \<leftarrow> setSecond d3 s; setMicroSecond d4 us }"
    using True by (cases D) (simp add: makeDate_def checkYearMonthDay_pack d'_def)
  also have "\<dots> = (if uint h \<le> 23 \<and> uint mi \<le> 59 \<and> uint s \<le> 59 \<and> uint us \<le> 999999
      then Some (packDate (sint y) (uint m) d' (uint h) (uint mi) (uint s) (uint us)) else None)"
  proof -
    have "(uint m * 1024 + d' * 32) div 32 = uint m * 32 + d'" by simp
    moreover have "(uint mi * 67108864 + uint s * 1048576) div 1048576 = uint mi * 64 + uint s" by simp
    ultimately show ?thesis
      using True d' by (simp add: set_date_words uint_w packDate_def mult.commute)
  qed
  finally show ?thesis
    using True by (simp add: fieldsOk_def d'_def)
qed (auto simp: makeDate_def checkYearMonthDay_pack fieldsOk_def)

subsection \<open>Valid dates\<close>

text \<open>The dates of the calendar, from year -9999 (10000 BC is not reached; year 0 is 1 BC) to 9999.\<close>

definition validDate :: "mtdDateType \<Rightarrow> bool" where
  "validDate d \<longleftrightarrow> - 9999 \<le> sint (year d) \<and> sint (year d) \<le> 9999 \<and>
     fieldsOk (sint (year d)) (uint (month d)) (uint (day d)) (uint (hour d)) (uint (minute d))
       (uint (second d)) (uint (microSecond d)) \<and>
     \<not> gapDay (sint (year d)) (uint (month d)) (uint (day d)) \<and> uint (mon_day_hour d) < 16384"

lemma fieldsOk_bounds:
  "fieldsOk y m d h mi s us \<Longrightarrow> 0 \<le> m \<and> m < 16 \<and> 0 \<le> d \<and> d < 32 \<and> 0 \<le> h \<and> h < 32 \<and>
     0 \<le> mi \<and> mi < 64 \<and> 0 \<le> s \<and> s < 64 \<and> 0 \<le> us \<and> us < 1048576"
  using daysIn_bounds(2) [of y m] by (auto simp: fieldsOk_def)

lemma packDate_fields:
  assumes "fieldsOk y m d h mi s us" "- 32768 \<le> y" "y < 32768"
  shows "sint (year (packDate y m d h mi s us)) = y" "uint (month (packDate y m d h mi s us)) = m"
    "uint (day (packDate y m d h mi s us)) = d" "uint (hour (packDate y m d h mi s us)) = h"
    "uint (minute (packDate y m d h mi s us)) = mi" "uint (second (packDate y m d h mi s us)) = s"
    "uint (microSecond (packDate y m d h mi s us)) = us"
    "uint (mon_day_hour (packDate y m d h mi s us)) < 16384"
proof -
  note b = fieldsOk_bounds [OF assms(1)]
  have w: "uint (w16 (m * 1024 + d * 32 + h)) = m * 1024 + d * 32 + h"
    "uint (w32 (mi * 67108864 + s * 1048576 + us)) = mi * 67108864 + s * 1048576 + us"
    using b by (simp_all add: uint_w)
  have dm: "(p * k + q) div k = p \<and> (p * k + q) mod k = q" if "0 \<le> q" "q < k" for p q k :: int
    using int_div_pos_eq [of "p * k + q" k p q] int_mod_pos_eq [of "p * k + q" k p q] that
    by (simp add: mult.commute)
  have hi: "(m * 1024 + d * 32 + h) div 1024 = m" "(m * 1024 + d * 32 + h) div 32 = m * 32 + d"
    "(m * 1024 + d * 32 + h) mod 32 = h" "(m * 32 + d) mod 32 = d" "m mod 16 = m"
    using b dm [of "d * 32 + h" 1024 m] dm [of h 32 "m * 32 + d"] dm [of d 32 m] by (simp_all add: algebra_simps)
  have lo: "(mi * 67108864 + s * 1048576 + us) div 67108864 = mi"
    "(mi * 67108864 + s * 1048576 + us) div 1048576 = mi * 64 + s"
    "(mi * 67108864 + s * 1048576 + us) mod 1048576 = us" "(mi * 64 + s) mod 64 = s"
    using b dm [of "s * 1048576 + us" 67108864 mi] dm [of us 1048576 "mi * 64 + s"] dm [of s 64 mi] by (simp_all add: algebra_simps)
  show "sint (year (packDate y m d h mi s us)) = y"
    using assms(2,3) by (simp add: packDate_def signed_of_int signed_take_bit_int_eq_self)
  show "uint (month (packDate y m d h mi s us)) = m" "uint (day (packDate y m d h mi s us)) = d"
    "uint (hour (packDate y m d h mi s us)) = h" "uint (minute (packDate y m d h mi s us)) = mi"
    "uint (second (packDate y m d h mi s us)) = s" "uint (microSecond (packDate y m d h mi s us)) = us"
    unfolding field_uint by (simp_all only: packDate_def mtdDateType.simps w hi lo)
  show "uint (mon_day_hour (packDate y m d h mi s us)) < 16384"
    using b by (simp add: packDate_def w)
qed

lemma packDate_valid:
  assumes "fieldsOk y m d h mi s us" "- 9999 \<le> y" "y \<le> 9999" "\<not> gapDay y m d"
  shows "validDate (packDate y m d h mi s us)"
  using assms packDate_fields [OF assms(1)] by (simp add: validDate_def)

text \<open>A date whose two spare bits are clear is its fields.\<close>

lemma words_of_fields:
  "uint (mon_day_hour x) < 16384 \<Longrightarrow>
     uint (mon_day_hour x) = uint (month x) * 1024 + uint (day x) * 32 + uint (hour x)"
  "uint (min_sec_mic x) = uint (minute x) * 67108864 + uint (second x) * 1048576 + uint (microSecond x)"
proof -
  let ?n = "uint (mon_day_hour x)"
  assume "?n < 16384"
  then have "?n div 1024 mod 16 = ?n div 1024"
    by (simp add: mod_pos_pos_trivial pos_imp_zdiv_nonneg_iff)
  moreover have "?n div 1024 = ?n div 32 div 32" by (simp add: zdiv_zmult2_eq [symmetric])
  ultimately show "?n = uint (month x) * 1024 + uint (day x) * 32 + uint (hour x)"
    unfolding field_uint using div_mult_mod_eq [of ?n 32] div_mult_mod_eq [of "?n div 32" 32] by linarith
next
  let ?n = "uint (min_sec_mic x)"
  have "?n div 67108864 = ?n div 1048576 div 64" by (simp add: zdiv_zmult2_eq [symmetric])
  then show "?n = uint (minute x) * 67108864 + uint (second x) * 1048576 + uint (microSecond x)"
    unfolding field_uint using div_mult_mod_eq [of ?n 1048576] div_mult_mod_eq [of "?n div 1048576" 64] by linarith
qed

lemma pack_of_fields:
  assumes "uint (mon_day_hour x) < 16384"
  shows "packDate (sint (year x)) (uint (month x)) (uint (day x)) (uint (hour x)) (uint (minute x))
    (uint (second x)) (uint (microSecond x)) = x"
  using words_of_fields(1) [OF assms, symmetric] words_of_fields(2) [of x, symmetric]
  by (simp add: packDate_def w16_def w32_def)

lemma validDateD:
  assumes "validDate x"
  shows "fieldsOk (sint (year x)) (uint (month x)) (uint (day x)) (uint (hour x)) (uint (minute x))
       (uint (second x)) (uint (microSecond x))"
    "\<not> gapDay (sint (year x)) (uint (month x)) (uint (day x))"
    "- 9999 \<le> sint (year x)" "sint (year x) \<le> 9999" "\<not> MTD_DATE_IS_NULL x"
    "packDate (sint (year x)) (uint (month x)) (uint (day x)) (uint (hour x)) (uint (minute x))
      (uint (second x)) (uint (microSecond x)) = x"
  using assms pack_of_fields [of x]
  by (auto simp: validDate_def MTD_DATE_IS_NULL_def mtdDateNull_def)

text \<open>What \<open>makeDate\<close> makes of any arguments in the range of years is a valid date.\<close>

lemma makeDate_valid:
  assumes "makeDate D y m d h mi s us = Some x" "- 9999 \<le> sint y" "sint y \<le> 9999"
  shows "validDate x"
proof -
  let ?d = "if gapDay (sint y) (uint m) (uint d) then 15 else uint d"
  have ok: "fieldsOk (sint y) (uint m) (uint d) (uint h) (uint mi) (uint s) (uint us)"
    and x: "x = packDate (sint y) (uint m) ?d (uint h) (uint mi) (uint s) (uint us)"
    using assms(1) by (simp_all add: makeDate_pack split: if_splits)
  have "fieldsOk (sint y) (uint m) ?d (uint h) (uint mi) (uint s) (uint us)" "\<not> gapDay (sint y) (uint m) ?d"
    using ok by (auto simp: fieldsOk_def gapDay_def daysIn_def)
  then show ?thesis unfolding x using assms(2,3) by (intro packDate_valid)
qed

lemma makeDate_of_valid:
  assumes "validDate x"
  shows "makeDate D (year x) (month x) (day x) (hour x) (minute x) (second x) (microSecond x) = Some x"
  using validDateD [OF assms] by (simp add: makeDate_pack)

subsection \<open>Validation, conversion of stored values\<close>

text \<open>\<open>mtdValidate\<close>; \<open>initColumn\<close> is the outcome of \<open>mtc::initializeColumn\<close>.\<close>

definition mtdValidate :: "bool \<Rightarrow> mtdDateType option \<Rightarrow> nat \<Rightarrow> IDE_RC" where
  "mtdValidate initColumn aValue aValueSize =
     (case aValue of None \<Rightarrow> IDE_FAILURE | Some sVal \<Rightarrow>
      if aValueSize \<noteq> 8 then IDE_FAILURE
      else if \<not> initColumn then IDE_FAILURE
      else if MTD_DATE_IS_NULL sVal then IDE_SUCCESS
      else if month sVal < 1 \<or> month sVal > 12 \<or> day sVal < 1 \<or> day sVal > 31 \<or> hour sVal > 23 \<or>
          minute sVal > 59 \<or> microSecond sVal > 999999 then IDE_FAILURE
      else if (if month sVal = 4 \<or> month sVal = 6 \<or> month sVal = 9 \<or> month sVal = 11 then day sVal = 31
          else if month sVal = 2 then (if isLeapYear (year sVal) then day sVal > 29 else day sVal > 28)
          else False) then IDE_FAILURE
      else if year sVal = 1582 \<and> month sVal = 10 \<and> 4 < day sVal \<and> day sVal < 15 then IDE_FAILURE
      else IDE_SUCCESS)"

text \<open>It accepts the null and the dates of the calendar, of any year, except that it does not look
  at the second: the field can hold up to 63.\<close>

lemma mtdValidate_iff:
  "mtdValidate True (Some x) 8 = IDE_SUCCESS \<longleftrightarrow> MTD_DATE_IS_NULL x \<or>
     fieldsOk (sint (year x)) (uint (month x)) (uint (day x)) (uint (hour x)) (uint (minute x)) 0
       (uint (microSecond x)) \<and> \<not> gapDay (sint (year x)) (uint (month x)) (uint (day x))"
proof -
  have y: "year x = 1582 \<longleftrightarrow> sint (year x) = 1582"
    using signed_word_eqI [of "year x" 1582] by auto
  have c1: "(month x < 1 \<or> month x > 12 \<or> day x < 1 \<or> day x > 31 \<or> hour x > 23 \<or> minute x > 59 \<or>
        microSecond x > 999999) =
      (uint (month x) < 1 \<or> uint (month x) > 12 \<or> uint (day x) < 1 \<or> uint (day x) > 31 \<or>
        uint (hour x) > 23 \<or> uint (minute x) > 59 \<or> uint (microSecond x) > 999999)"
    by (simp add: word_less_def)
  have c2: "(if month x = 4 \<or> month x = 6 \<or> month x = 9 \<or> month x = 11 then day x = 31
        else if month x = 2 then (if isLeapYear (year x) then day x > 29 else day x > 28) else False) =
      (if uint (month x) \<in> {4, 6, 9, 11} then uint (day x) = 31
        else if uint (month x) = 2 then (if leap (sint (year x)) then uint (day x) > 29 else uint (day x) > 28)
        else False)"
    by (simp add: isLeapYear_leap word_less_def word_uint_eq_iff [of "month x"] word_uint_eq_iff [of "day x"])
  have c3: "(year x = 1582 \<and> month x = 10 \<and> 4 < day x \<and> day x < 15) =
      gapDay (sint (year x)) (uint (month x)) (uint (day x))"
    by (simp add: gapDay_def y word_less_def word_uint_eq_iff [of "month x"])
  have key: "\<not> (m < 1 \<or> 12 < m \<or> d < 1 \<or> 31 < d \<or> 23 < h \<or> 59 < mi \<or> 999999 < us) \<and>
      \<not> (if m \<in> {4, 6, 9, 11} then d = 31
         else if m = 2 then (if leap z then 29 < d else 28 < d) else False) \<longleftrightarrow> fieldsOk z m d h mi 0 us"
    if "0 \<le> h" "0 \<le> mi" "0 \<le> us" for z m d h mi us :: int
    using that by (auto simp: fieldsOk_def daysIn_def)
  have "mtdValidate True (Some x) 8 = IDE_SUCCESS \<longleftrightarrow> MTD_DATE_IS_NULL x \<or> (\<not> B \<and> \<not> C) \<and> \<not> G"
    if "(month x < 1 \<or> month x > 12 \<or> day x < 1 \<or> day x > 31 \<or> hour x > 23 \<or> minute x > 59 \<or>
        microSecond x > 999999) = B"
      "(if month x = 4 \<or> month x = 6 \<or> month x = 9 \<or> month x = 11 then day x = 31
        else if month x = 2 then (if isLeapYear (year x) then day x > 29 else day x > 28) else False) = C"
      "(year x = 1582 \<and> month x = 10 \<and> 4 < day x \<and> day x < 15) = G" for B C G
    unfolding mtdValidate_def option.case that by simp
  from this [OF c1 c2 c3] show ?thesis
    using key [of "uint (hour x)" "uint (minute x)" "uint (microSecond x)" "uint (month x)" "uint (day x)" "sint (year x)"]
      uint_ge_0 by blast
qed

end
