(* ===== verification/DateKeys.thy ===== *)
theory DateKeys
  imports MtdDate
begin

text \<open>
  The null handling, stored form and key comparisons of the \<open>DATE\<close> module
  (\<open>src/src/mt/mtd/mtdDate.cpp\<close>): each comparison ascending and descending, for values in memory
  and for stored values, which are eight bytes or, in a compressed column, the identifier of a
  dictionary entry.  They are one order, of the packed words with the null last, and interpret the
  contract \<open>key_order\<close> of the key ranges.
\<close>

subsection \<open>Null, stored values\<close>

definition dateSetNull :: "mtdDateType option \<Rightarrow> mtdDateType option" where
  "dateSetNull aRow = (case aRow of None \<Rightarrow> None | Some _ \<Rightarrow> Some mtdDateNull)"

definition dateIsNull :: "mtdDateType \<Rightarrow> bool" where
  "dateIsNull aRow = (let sResult = MTD_DATE_IS_NULL aRow in if sResult then True else False)"

definition dateForModule :: "mtdDateType option \<Rightarrow> mtdDateType" where
  "dateForModule v = (case v of None \<Rightarrow> mtdDateNull | Some x \<Rightarrow> x)"

text \<open>\<open>ID_SHORT_BYTE_ASSIGN\<close> and \<open>ID_INT_BYTE_ASSIGN\<close> copy two and four bytes, little endian.\<close>

definition shortAt :: "8 word list \<Rightarrow> nat \<Rightarrow> 16 word" where
  "shortAt b n = ucast (b ! n) OR push_bit 8 (ucast (b ! Suc n))"

definition intAt :: "8 word list \<Rightarrow> nat \<Rightarrow> 32 word" where
  "intAt b n = ucast (b ! n) OR push_bit 8 (ucast (b ! (n + 1))) OR push_bit 16 (ucast (b ! (n + 2))) OR
     push_bit 24 (ucast (b ! (n + 3)))"

definition dateOfBytes :: "8 word list \<Rightarrow> mtdDateType" where
  "dateOfBytes b = \<lparr> year = shortAt b 0, mon_day_hour = shortAt b 2, min_sec_mic = intAt b 4 \<rparr>"

definition bytesOfDate :: "mtdDateType \<Rightarrow> 8 word list" where
  "bytesOfDate d = [ucast (year d), ucast (drop_bit 8 (year d)),
     ucast (mon_day_hour d), ucast (drop_bit 8 (mon_day_hour d)),
     ucast (min_sec_mic d), ucast (drop_bit 8 (min_sec_mic d)), ucast (drop_bit 16 (min_sec_mic d)),
     ucast (drop_bit 24 (min_sec_mic d))]"

text \<open>The value a stored comparison reads.\<close>

definition storedDate :: "bool \<Rightarrow> (8 word list \<Rightarrow> mtdDateType) \<Rightarrow> 8 word list mtdValueInfo \<Rightarrow> mtdDateType" where
  "storedDate compressed dict a =
     (if \<not> compressed then dateOfBytes (viValue a) else dict (viValue a))"

text \<open>\<open>mtdStoredValue2MtdValue\<close>: no bytes are the null, any other length than the column's fails.\<close>

definition dateStoredValue2MtdValue :: "nat \<Rightarrow> nat \<Rightarrow> 8 word list \<Rightarrow> mtdDateType option" where
  "dateStoredValue2MtdValue aColumnSize aLength aValue =
     (if aLength = 0 then Some mtdDateNull
      else if aLength \<noteq> aColumnSize then None
      else Some (dateOfBytes aValue))"

text \<open>\<open>mtdEndian\<close> swaps the bytes of each of the three parts.\<close>

definition dateEndian :: "mtdDateType \<Rightarrow> mtdDateType" where
  "dateEndian d = (let b = bytesOfDate d in
     dateOfBytes [b ! 1, b ! 0, b ! 3, b ! 2, b ! 7, b ! 6, b ! 5, b ! 4])"

subsection \<open>The comparisons\<close>

definition mtdDateLogicalAscComp ::
  "mtdDateType mtdValueInfo \<Rightarrow> mtdDateType mtdValueInfo \<Rightarrow> int" where
  "mtdDateLogicalAscComp a1 a2 =
     (let sValue1 = viValue a1;
          sValue2 = viValue a2;
          sNull1 = MTD_DATE_IS_NULL sValue1;
          sNull2 = MTD_DATE_IS_NULL sValue2 in
      if \<not> sNull1 \<and> \<not> sNull2 then dateCompare sValue1 sValue2
      else if sNull1 \<and> \<not> sNull2 then 1
      else if \<not> sNull1 then -1
      else 0)"

definition mtdDateLogicalDescComp ::
  "mtdDateType mtdValueInfo \<Rightarrow> mtdDateType mtdValueInfo \<Rightarrow> int" where
  "mtdDateLogicalDescComp a1 a2 =
     (let sValue1 = viValue a1;
          sValue2 = viValue a2;
          sNull1 = MTD_DATE_IS_NULL sValue1;
          sNull2 = MTD_DATE_IS_NULL sValue2 in
      if \<not> sNull1 \<and> \<not> sNull2 then dateCompare sValue2 sValue1
      else if sNull1 \<and> \<not> sNull2 then 1
      else if \<not> sNull1 then -1
      else 0)"

definition mtdDateFixedMtdFixedMtdKeyAscComp ::
  "mtdDateType mtdValueInfo \<Rightarrow> mtdDateType mtdValueInfo \<Rightarrow> int" where
  "mtdDateFixedMtdFixedMtdKeyAscComp a1 a2 =
     (let sValue1 = viValue a1;
          sValue2 = viValue a2;
          sNull1 = MTD_DATE_IS_NULL sValue1;
          sNull2 = MTD_DATE_IS_NULL sValue2 in
      if \<not> sNull1 \<and> \<not> sNull2 then dateCompare sValue1 sValue2
      else if sNull1 \<and> \<not> sNull2 then 1
      else if \<not> sNull1 then -1
      else 0)"

definition mtdDateFixedMtdFixedMtdKeyDescComp ::
  "mtdDateType mtdValueInfo \<Rightarrow> mtdDateType mtdValueInfo \<Rightarrow> int" where
  "mtdDateFixedMtdFixedMtdKeyDescComp a1 a2 =
     (let sValue1 = viValue a1;
          sValue2 = viValue a2;
          sNull1 = MTD_DATE_IS_NULL sValue1;
          sNull2 = MTD_DATE_IS_NULL sValue2 in
      if \<not> sNull1 \<and> \<not> sNull2 then dateCompare sValue2 sValue1
      else if sNull1 \<and> \<not> sNull2 then 1
      else if \<not> sNull1 then -1
      else 0)"

definition mtdDateMtdMtdKeyAscComp ::
  "mtdDateType option mtdValueInfo \<Rightarrow> mtdDateType option mtdValueInfo \<Rightarrow> int" where
  "mtdDateMtdMtdKeyAscComp a1 a2 =
     (let sValue1 = dateForModule (viValue a1);
          sValue2 = dateForModule (viValue a2);
          sNull1 = MTD_DATE_IS_NULL sValue1;
          sNull2 = MTD_DATE_IS_NULL sValue2 in
      if \<not> sNull1 \<and> \<not> sNull2 then dateCompare sValue1 sValue2
      else if sNull1 \<and> \<not> sNull2 then 1
      else if \<not> sNull1 then -1
      else 0)"

definition mtdDateMtdMtdKeyDescComp ::
  "mtdDateType option mtdValueInfo \<Rightarrow> mtdDateType option mtdValueInfo \<Rightarrow> int" where
  "mtdDateMtdMtdKeyDescComp a1 a2 =
     (let sValue1 = dateForModule (viValue a1);
          sValue2 = dateForModule (viValue a2);
          sNull1 = MTD_DATE_IS_NULL sValue1;
          sNull2 = MTD_DATE_IS_NULL sValue2 in
      if \<not> sNull1 \<and> \<not> sNull2 then dateCompare sValue2 sValue1
      else if sNull1 \<and> \<not> sNull2 then 1
      else if \<not> sNull1 then -1
      else 0)"

definition mtdDateStoredMtdKeyAscComp ::
  "bool \<Rightarrow> (8 word list \<Rightarrow> mtdDateType) \<Rightarrow>
    8 word list mtdValueInfo \<Rightarrow> mtdDateType option mtdValueInfo \<Rightarrow> int" where
  "mtdDateStoredMtdKeyAscComp compressed dict a1 a2 =
     (let sValue1 = storedDate compressed dict a1;
          sValue2 = dateForModule (viValue a2);
          sNull1 = MTD_DATE_IS_NULL sValue1;
          sNull2 = MTD_DATE_IS_NULL sValue2 in
      if \<not> sNull1 \<and> \<not> sNull2 then dateCompare sValue1 sValue2
      else if sNull1 \<and> \<not> sNull2 then 1
      else if \<not> sNull1 then -1
      else 0)"

definition mtdDateStoredMtdKeyDescComp ::
  "bool \<Rightarrow> (8 word list \<Rightarrow> mtdDateType) \<Rightarrow>
    8 word list mtdValueInfo \<Rightarrow> mtdDateType option mtdValueInfo \<Rightarrow> int" where
  "mtdDateStoredMtdKeyDescComp compressed dict a1 a2 =
     (let sValue1 = storedDate compressed dict a1;
          sValue2 = dateForModule (viValue a2);
          sNull1 = MTD_DATE_IS_NULL sValue1;
          sNull2 = MTD_DATE_IS_NULL sValue2 in
      if \<not> sNull1 \<and> \<not> sNull2 then dateCompare sValue2 sValue1
      else if sNull1 \<and> \<not> sNull2 then 1
      else if \<not> sNull1 then -1
      else 0)"

definition mtdDateStoredStoredKeyAscComp ::
  "bool \<Rightarrow> bool \<Rightarrow> (8 word list \<Rightarrow> mtdDateType) \<Rightarrow>
    8 word list mtdValueInfo \<Rightarrow> 8 word list mtdValueInfo \<Rightarrow> int" where
  "mtdDateStoredStoredKeyAscComp compressed1 compressed2 dict a1 a2 =
     (let sValue1 = storedDate compressed1 dict a1;
          sValue2 = storedDate compressed2 dict a2;
          sNull1 = MTD_DATE_IS_NULL sValue1;
          sNull2 = MTD_DATE_IS_NULL sValue2 in
      if \<not> sNull1 \<and> \<not> sNull2 then dateCompare sValue1 sValue2
      else if sNull1 \<and> \<not> sNull2 then 1
      else if \<not> sNull1 then -1
      else 0)"

definition mtdDateStoredStoredKeyDescComp ::
  "bool \<Rightarrow> bool \<Rightarrow> (8 word list \<Rightarrow> mtdDateType) \<Rightarrow>
    8 word list mtdValueInfo \<Rightarrow> 8 word list mtdValueInfo \<Rightarrow> int" where
  "mtdDateStoredStoredKeyDescComp compressed1 compressed2 dict a1 a2 =
     (let sValue1 = storedDate compressed1 dict a1;
          sValue2 = storedDate compressed2 dict a2;
          sNull1 = MTD_DATE_IS_NULL sValue1;
          sNull2 = MTD_DATE_IS_NULL sValue2 in
      if \<not> sNull1 \<and> \<not> sNull2 then dateCompare sValue2 sValue1
      else if sNull1 \<and> \<not> sNull2 then 1
      else if \<not> sNull1 then -1
      else 0)"

subsection \<open>One order\<close>

text \<open>The order of the comparisons, and the place of a date in it.\<close>

definition dateKey :: "bool \<Rightarrow> mtdDateType \<Rightarrow> mtdDateType \<Rightarrow> int" where
  "dateKey desc x y =
     (if \<not> MTD_DATE_IS_NULL x \<and> \<not> MTD_DATE_IS_NULL y then (if desc then dateCompare y x else dateCompare x y)
      else if MTD_DATE_IS_NULL x \<and> \<not> MTD_DATE_IS_NULL y then 1
      else if \<not> MTD_DATE_IS_NULL x then -1 else 0)"

lemma mtdDate_agree:
  "mtdDateLogicalAscComp a1 a2 = dateKey False (viValue a1) (viValue a2)"
  "mtdDateLogicalDescComp a1 a2 = dateKey True (viValue a1) (viValue a2)"
  "mtdDateFixedMtdFixedMtdKeyAscComp a1 a2 = dateKey False (viValue a1) (viValue a2)"
  "mtdDateFixedMtdFixedMtdKeyDescComp a1 a2 = dateKey True (viValue a1) (viValue a2)"
  "mtdDateMtdMtdKeyAscComp b1 b2 = dateKey False (dateForModule (viValue b1)) (dateForModule (viValue b2))"
  "mtdDateMtdMtdKeyDescComp b1 b2 = dateKey True (dateForModule (viValue b1)) (dateForModule (viValue b2))"
  "mtdDateStoredMtdKeyAscComp c dict s1 b2 = dateKey False (storedDate c dict s1) (dateForModule (viValue b2))"
  "mtdDateStoredMtdKeyDescComp c dict s1 b2 = dateKey True (storedDate c dict s1) (dateForModule (viValue b2))"
  "mtdDateStoredStoredKeyAscComp c c' dict s1 s2 = dateKey False (storedDate c dict s1) (storedDate c' dict s2)"
  "mtdDateStoredStoredKeyDescComp c c' dict s1 s2 = dateKey True (storedDate c dict s1) (storedDate c' dict s2)"
  by (simp_all add: dateKey_def Let_def mtdDateLogicalAscComp_def mtdDateLogicalDescComp_def
      mtdDateFixedMtdFixedMtdKeyAscComp_def mtdDateFixedMtdFixedMtdKeyDescComp_def
      mtdDateMtdMtdKeyAscComp_def mtdDateMtdMtdKeyDescComp_def
      mtdDateStoredMtdKeyAscComp_def mtdDateStoredMtdKeyDescComp_def
      mtdDateStoredStoredKeyAscComp_def mtdDateStoredStoredKeyDescComp_def)

definition dateRank :: "mtdDateType \<Rightarrow> int" where
  "dateRank d = (sint (year d) * 65536 + uint (mon_day_hour d)) * 4294967296 + uint (min_sec_mic d)"

lemma sgn_lex:
  fixes a b c d k :: int
  assumes "0 \<le> b" "b < k" "0 \<le> d" "d < k"
  shows "sgn (a * k + b - (c * k + d)) = (if a = c then sgn (b - d) else sgn (a - c))"
proof -
  have less: "a' * k + b' < c' * k + d'" if "a' < c'" "0 \<le> d'" "b' < k" for a' b' c' d' :: int
  proof -
    have "(a' + 1) * k \<le> c' * k" using that assms by (intro mult_right_mono) auto
    then show ?thesis using that by (simp add: algebra_simps)
  qed
  show ?thesis
    using less [of a c d b] less [of c a b d] assms by (cases a c rule: linorder_cases) (simp_all add: sgn_if)
qed

lemma dateCompare_rank: "dateCompare a b = sgn (dateRank a - dateRank b)"
proof -
  have m: "uint (mon_day_hour x) < 65536" and s: "uint (min_sec_mic x) < 4294967296" for x
    using uint_lt2p [of "mon_day_hour x"] uint_lt2p [of "min_sec_mic x"] by simp_all
  let ?h = "\<lambda>x. sint (year x) * 65536 + uint (mon_day_hour x)"
  have "sgn (?h a - ?h b) = (if sint (year a) = sint (year b)
      then sgn (uint (mon_day_hour a) - uint (mon_day_hour b)) else sgn (sint (year a) - sint (year b)))"
    by (rule sgn_lex) (simp_all add: m)
  moreover have "sgn (dateRank a - dateRank b) =
      (if ?h a = ?h b then sgn (uint (min_sec_mic a) - uint (min_sec_mic b)) else sgn (?h a - ?h b))"
    unfolding dateRank_def by (rule sgn_lex) (simp_all add: s)
  moreover have "?h a = ?h b \<longleftrightarrow> sgn (?h a - ?h b) = 0" by (simp add: sgn_0_0)
  ultimately have "sgn (dateRank a - dateRank b) =
      (if sint (year a) = sint (year b) then
         if uint (mon_day_hour a) = uint (mon_day_hour b)
         then sgn (uint (min_sec_mic a) - uint (min_sec_mic b))
         else sgn (uint (mon_day_hour a) - uint (mon_day_hour b))
       else sgn (sint (year a) - sint (year b)))"
    by (auto simp: sgn_0_0)
  then show ?thesis
    by (simp add: dateCompare_def word_less_def sgn_if)
qed

text \<open>The null is above every date, in either direction.\<close>

definition dateOrd :: "bool \<Rightarrow> mtdDateType \<Rightarrow> int" where
  "dateOrd desc d = (if MTD_DATE_IS_NULL d then 2 ^ 70 else if desc then - dateRank d else dateRank d)"

lemma dateRank_bounds: "- (2 ^ 70) < dateRank d" "dateRank d < 2 ^ 70"
proof -
  have "- 32768 \<le> sint (year d)" "sint (year d) < 32768"
    using sint_greater_eq [of "year d"] sint_less [of "year d"] by simp_all
  moreover have "0 \<le> uint (mon_day_hour d)" "uint (mon_day_hour d) < 65536" "0 \<le> uint (min_sec_mic d)"
    "uint (min_sec_mic d) < 4294967296"
    using uint_lt2p [of "mon_day_hour d"] uint_lt2p [of "min_sec_mic d"] by simp_all
  ultimately have "- (2 ^ 70) < dateRank d \<and> dateRank d < 2 ^ 70"
    unfolding dateRank_def by (simp, linarith)
  then show "- (2 ^ 70) < dateRank d" "dateRank d < 2 ^ 70" by simp_all
qed

lemma dateKey_rank: "dateKey desc a b = sgn (dateOrd desc a - dateOrd desc b)"
  using dateRank_bounds [of a] dateRank_bounds [of b]
  by (auto simp: dateKey_def dateOrd_def dateCompare_rank sgn_if)

lemma dateKey_order: "key_order (dateKey desc) dateIsNull"
proof (rule rank_key_order [OF dateKey_rank])
  fix a b
  show "dateIsNull a \<Longrightarrow> \<not> dateIsNull b \<Longrightarrow> dateOrd desc b < dateOrd desc a"
    using dateRank_bounds [of b] by (auto simp: dateOrd_def dateIsNull_def Let_def split: if_splits)
qed

interpretation dateAsc: key_order "dateKey False" dateIsNull
  by (rule dateKey_order)

interpretation dateDesc: key_order "dateKey True" dateIsNull
  by (rule dateKey_order)

subsection \<open>Stored values\<close>

lemma dateOfBytes_bytesOfDate [simp]: "dateOfBytes (bytesOfDate d) = d"
proof -
  have "shortAt (bytesOfDate d) 0 = year d" "shortAt (bytesOfDate d) 2 = mon_day_hour d"
    "intAt (bytesOfDate d) 4 = min_sec_mic d"
    by (simp_all add: shortAt_def intAt_def bytesOfDate_def)
      (rule bit_word_eqI; auto simp: bit_simps not_less dest: bit_imp_le_length intro: ccontr)+
  then show ?thesis by (simp add: dateOfBytes_def)
qed

lemma bytesOfDate_dateOfBytes:
  assumes "length b = 8"
  shows "bytesOfDate (dateOfBytes b) = b"
proof -
  obtain b0 b1 b2 b3 b4 b5 b6 b7 where b: "b = [b0, b1, b2, b3, b4, b5, b6, b7]"
    using assms by (auto simp: length_Suc_conv numeral_eq_Suc)
  show ?thesis
    unfolding b bytesOfDate_def dateOfBytes_def mtdDateType.simps shortAt_def intAt_def
    by (simp; intro conjI; (rule bit_word_eqI; auto simp: bit_simps not_less dest: bit_imp_le_length))
qed

lemma bytesOfDate_length [simp]: "length (bytesOfDate d) = 8"
  by (simp add: bytesOfDate_def)

text \<open>A date written as its bytes, or as no bytes where it is null, is read back.\<close>

lemma stored_roundtrip:
  "dateStoredValue2MtdValue 8 (length (bytesOfDate d)) (bytesOfDate d) = Some d"
  "dateStoredValue2MtdValue 8 0 bs = Some mtdDateNull"
  by (simp_all add: dateStoredValue2MtdValue_def)

text \<open>The bytes of a date with its byte order changed twice.\<close>

lemma dateEndian_twice: "dateEndian (dateEndian d) = d"
proof -
  obtain b0 b1 b2 b3 b4 b5 b6 b7 where b: "bytesOfDate d = [b0, b1, b2, b3, b4, b5, b6, b7]"
    using bytesOfDate_length [of d] by (auto simp: length_Suc_conv numeral_eq_Suc simp del: bytesOfDate_length)
  have "bytesOfDate (dateEndian d) = [b1, b0, b3, b2, b7, b6, b5, b4]"
    by (simp add: dateEndian_def b bytesOfDate_dateOfBytes)
  then show ?thesis
    using dateOfBytes_bytesOfDate [of d] by (simp add: dateEndian_def [of "dateEndian d"] b)
qed

subsection \<open>Index columns of the type\<close>

definition dateMtdColumn :: "bool \<Rightarrow> (mtdDateType option, mtdDateType option) mtcColumn" where
  "dateMtdColumn desc = \<lparr>
     keyCompare = (if desc then mtdDateMtdMtdKeyDescComp else mtdDateMtdMtdKeyAscComp),
     valueCompare = (if desc then mtdDateMtdMtdKeyDescComp else mtdDateMtdMtdKeyAscComp),
     groupCompare = (if desc then mtdDateMtdMtdKeyDescComp else mtdDateMtdMtdKeyAscComp),
     isNull = dateIsNull \<circ> dateForModule,
     columnValue = (\<lambda>v. Some (dateForModule v)),
     isCompressed = False, isVariable = False,
     equalsStaticNull = (\<lambda>v. dateForModule v = mtdDateNull),
     compressionValue = id \<rparr>"

definition dateStoredColumn ::
  "bool \<Rightarrow> bool \<Rightarrow> (8 word list \<Rightarrow> mtdDateType) \<Rightarrow> (8 word list, mtdDateType option) mtcColumn" where
  "dateStoredColumn desc compressed dict = \<lparr>
     keyCompare = (if desc then mtdDateStoredMtdKeyDescComp compressed dict
                   else mtdDateStoredMtdKeyAscComp compressed dict),
     valueCompare = (if desc then mtdDateMtdMtdKeyDescComp else mtdDateMtdMtdKeyAscComp),
     groupCompare = (if desc then mtdDateMtdMtdKeyDescComp else mtdDateMtdMtdKeyAscComp),
     isNull = dateIsNull \<circ> dateForModule,
     columnValue = (\<lambda>v. Some (dateOfBytes v)),
     isCompressed = compressed, isVariable = False,
     equalsStaticNull = (\<lambda>v. v = bytesOfDate mtdDateNull),
     compressionValue = (\<lambda>v. Some (dict v)) \<rparr>"

lemma date_column_order:
  "key_order (\<lambda>a b. dateKey desc (dateForModule a) (dateForModule b)) (dateIsNull \<circ> dateForModule)"
  using key_order_image [OF dateKey_order, where f = dateForModule] by (simp add: comp_def)

lemma date_ord [simp]:
  "keyOrd (dateMtdColumn desc) a b = dateKey desc (dateForModule a) (dateForModule b)"
  "keyOrd (dateStoredColumn desc compressed dict) a b = dateKey desc (dateForModule a) (dateForModule b)"
  by (simp_all add: keyOrd_def dateMtdColumn_def dateStoredColumn_def mtdDate_agree)

lemma date_compare [simp]:
  "keyCompare (dateMtdColumn desc) (valueInfo v n p) (valueInfo k m q) =
     dateKey desc (dateForModule v) (dateForModule k)"
  "keyCompare (dateStoredColumn desc compressed dict) (valueInfo b n p) (valueInfo k m q) =
     dateKey desc (if compressed then dict b else dateOfBytes b) (dateForModule k)"
  by (simp_all add: dateMtdColumn_def dateStoredColumn_def mtdDate_agree storedDate_def)

end
