(* ===== verification/MtdInteger.thy ===== *)
theory MtdInteger
  imports KeyOrder
begin

text \<open>
  The key comparisons of the \<open>INTEGER\<close> type, \<open>src/src/mt/mtd/mtdInteger.cpp\<close>: a 32 bit signed
  integer whose least value is the null.  Each comparison exists ascending and descending, for
  values in memory and for values stored as four bytes.
\<close>

type_synonym mtdIntegerType = "32 word"

abbreviation MTD_INTEGER_NULL :: mtdIntegerType where
  "MTD_INTEGER_NULL \<equiv> 0x80000000"

definition mtdIsNull :: "mtdIntegerType \<Rightarrow> bool" where
  "mtdIsNull v = (if v = MTD_INTEGER_NULL then True else False)"

definition mtdSetNull :: "mtdIntegerType option \<Rightarrow> mtdIntegerType option" where
  "mtdSetNull aRow = (case aRow of None \<Rightarrow> None | Some _ \<Rightarrow> Some MTD_INTEGER_NULL)"

definition mtdIntegerLogicalAscComp :: "mtdIntegerType \<Rightarrow> mtdIntegerType \<Rightarrow> int" where
  "mtdIntegerLogicalAscComp v1 v2 =
     (if v1 \<noteq> MTD_INTEGER_NULL \<and> v2 \<noteq> MTD_INTEGER_NULL
      then (if sint v1 > sint v2 then 1 else if sint v1 < sint v2 then -1 else 0)
      else if sint v1 < sint v2 then 1
      else if sint v1 > sint v2 then -1 else 0)"

definition mtdIntegerLogicalDescComp :: "mtdIntegerType \<Rightarrow> mtdIntegerType \<Rightarrow> int" where
  "mtdIntegerLogicalDescComp v1 v2 =
     (if v1 \<noteq> MTD_INTEGER_NULL \<and> v2 \<noteq> MTD_INTEGER_NULL
      then (if sint v1 < sint v2 then 1 else if sint v1 > sint v2 then -1 else 0)
      else if sint v1 < sint v2 then 1
      else if sint v1 > sint v2 then -1 else 0)"

text \<open>\<open>MTD_VALUE_FIXED\<close> reads the value at the column's offset, \<open>mtd::valueForModule\<close> reads it or
  the static null when there is no value.\<close>

definition valueForModule :: "mtdIntegerType option \<Rightarrow> mtdIntegerType" where
  "valueForModule v = (case v of None \<Rightarrow> MTD_INTEGER_NULL | Some x \<Rightarrow> x)"

definition mtdIntegerFixedMtdFixedMtdKeyAscComp :: "mtdIntegerType \<Rightarrow> mtdIntegerType \<Rightarrow> int" where
  "mtdIntegerFixedMtdFixedMtdKeyAscComp v1 v2 =
     (if v1 \<noteq> MTD_INTEGER_NULL \<and> v2 \<noteq> MTD_INTEGER_NULL
      then (if sint v1 > sint v2 then 1 else if sint v1 < sint v2 then -1 else 0)
      else if sint v1 < sint v2 then 1
      else if sint v1 > sint v2 then -1 else 0)"

definition mtdIntegerFixedMtdFixedMtdKeyDescComp :: "mtdIntegerType \<Rightarrow> mtdIntegerType \<Rightarrow> int" where
  "mtdIntegerFixedMtdFixedMtdKeyDescComp v1 v2 =
     (if v1 \<noteq> MTD_INTEGER_NULL \<and> v2 \<noteq> MTD_INTEGER_NULL
      then (if sint v1 < sint v2 then 1 else if sint v1 > sint v2 then -1 else 0)
      else if sint v1 < sint v2 then 1
      else if sint v1 > sint v2 then -1 else 0)"

definition mtdIntegerMtdMtdKeyAscComp ::
  "mtdIntegerType option \<Rightarrow> mtdIntegerType option \<Rightarrow> int" where
  "mtdIntegerMtdMtdKeyAscComp a1 a2 =
     (let v1 = valueForModule a1; v2 = valueForModule a2 in
      if v1 \<noteq> MTD_INTEGER_NULL \<and> v2 \<noteq> MTD_INTEGER_NULL
      then (if sint v1 > sint v2 then 1 else if sint v1 < sint v2 then -1 else 0)
      else if sint v1 < sint v2 then 1
      else if sint v1 > sint v2 then -1 else 0)"

definition mtdIntegerMtdMtdKeyDescComp ::
  "mtdIntegerType option \<Rightarrow> mtdIntegerType option \<Rightarrow> int" where
  "mtdIntegerMtdMtdKeyDescComp a1 a2 =
     (let v1 = valueForModule a1; v2 = valueForModule a2 in
      if v1 \<noteq> MTD_INTEGER_NULL \<and> v2 \<noteq> MTD_INTEGER_NULL
      then (if sint v1 < sint v2 then 1 else if sint v1 > sint v2 then -1 else 0)
      else if sint v1 < sint v2 then 1
      else if sint v1 > sint v2 then -1 else 0)"

text \<open>\<open>ID_INT_BYTE_ASSIGN\<close> copies four bytes; the machines the server runs on are little endian.\<close>

type_synonym bytes4 = "8 word \<times> 8 word \<times> 8 word \<times> 8 word"

fun intOfBytes :: "bytes4 \<Rightarrow> mtdIntegerType" where
  "intOfBytes (b0, b1, b2, b3) =
     ucast b0 OR push_bit 8 (ucast b1) OR push_bit 16 (ucast b2) OR push_bit 24 (ucast b3)"

definition bytesOfInt :: "mtdIntegerType \<Rightarrow> bytes4" where
  "bytesOfInt v = (ucast v, ucast (drop_bit 8 v), ucast (drop_bit 16 v), ucast (drop_bit 24 v))"

definition mtdIntegerStoredMtdKeyAscComp :: "bytes4 \<Rightarrow> mtdIntegerType option \<Rightarrow> int" where
  "mtdIntegerStoredMtdKeyAscComp a1 a2 =
     (let v1 = intOfBytes a1; v2 = valueForModule a2 in
      if v1 \<noteq> MTD_INTEGER_NULL \<and> v2 \<noteq> MTD_INTEGER_NULL
      then (if sint v1 > sint v2 then 1 else if sint v1 < sint v2 then -1 else 0)
      else if sint v1 < sint v2 then 1
      else if sint v1 > sint v2 then -1 else 0)"

definition mtdIntegerStoredMtdKeyDescComp :: "bytes4 \<Rightarrow> mtdIntegerType option \<Rightarrow> int" where
  "mtdIntegerStoredMtdKeyDescComp a1 a2 =
     (let v1 = intOfBytes a1; v2 = valueForModule a2 in
      if v1 \<noteq> MTD_INTEGER_NULL \<and> v2 \<noteq> MTD_INTEGER_NULL
      then (if sint v1 < sint v2 then 1 else if sint v1 > sint v2 then -1 else 0)
      else if sint v1 < sint v2 then 1
      else if sint v1 > sint v2 then -1 else 0)"

definition mtdIntegerStoredStoredKeyAscComp :: "bytes4 \<Rightarrow> bytes4 \<Rightarrow> int" where
  "mtdIntegerStoredStoredKeyAscComp a1 a2 =
     (let v1 = intOfBytes a1; v2 = intOfBytes a2 in
      if v1 \<noteq> MTD_INTEGER_NULL \<and> v2 \<noteq> MTD_INTEGER_NULL
      then (if sint v1 > sint v2 then 1 else if sint v1 < sint v2 then -1 else 0)
      else if sint v1 < sint v2 then 1
      else if sint v1 > sint v2 then -1 else 0)"

definition mtdIntegerStoredStoredKeyDescComp :: "bytes4 \<Rightarrow> bytes4 \<Rightarrow> int" where
  "mtdIntegerStoredStoredKeyDescComp a1 a2 =
     (let v1 = intOfBytes a1; v2 = intOfBytes a2 in
      if v1 \<noteq> MTD_INTEGER_NULL \<and> v2 \<noteq> MTD_INTEGER_NULL
      then (if sint v1 < sint v2 then 1 else if sint v1 > sint v2 then -1 else 0)
      else if sint v1 < sint v2 then 1
      else if sint v1 > sint v2 then -1 else 0)"

subsection \<open>The comparisons agree\<close>

lemma intOfBytes_bytesOfInt [simp]: "intOfBytes (bytesOfInt v) = v"
  by (rule bit_word_eqI)
    (auto simp: bytesOfInt_def bit_simps not_less dest: bit_imp_le_length intro: ccontr)

lemma mtdInteger_asc_agree:
  "mtdIntegerFixedMtdFixedMtdKeyAscComp = mtdIntegerLogicalAscComp"
  "mtdIntegerMtdMtdKeyAscComp a1 a2 = mtdIntegerLogicalAscComp (valueForModule a1) (valueForModule a2)"
  "mtdIntegerStoredMtdKeyAscComp b1 a2 = mtdIntegerLogicalAscComp (intOfBytes b1) (valueForModule a2)"
  "mtdIntegerStoredStoredKeyAscComp b1 b2 = mtdIntegerLogicalAscComp (intOfBytes b1) (intOfBytes b2)"
  by (simp_all add: fun_eq_iff mtdIntegerFixedMtdFixedMtdKeyAscComp_def mtdIntegerLogicalAscComp_def
      mtdIntegerMtdMtdKeyAscComp_def mtdIntegerStoredMtdKeyAscComp_def
      mtdIntegerStoredStoredKeyAscComp_def Let_def)

lemma mtdInteger_desc_agree:
  "mtdIntegerFixedMtdFixedMtdKeyDescComp = mtdIntegerLogicalDescComp"
  "mtdIntegerMtdMtdKeyDescComp a1 a2 = mtdIntegerLogicalDescComp (valueForModule a1) (valueForModule a2)"
  "mtdIntegerStoredMtdKeyDescComp b1 a2 = mtdIntegerLogicalDescComp (intOfBytes b1) (valueForModule a2)"
  "mtdIntegerStoredStoredKeyDescComp b1 b2 = mtdIntegerLogicalDescComp (intOfBytes b1) (intOfBytes b2)"
  by (simp_all add: fun_eq_iff mtdIntegerFixedMtdFixedMtdKeyDescComp_def mtdIntegerLogicalDescComp_def
      mtdIntegerMtdMtdKeyDescComp_def mtdIntegerStoredMtdKeyDescComp_def
      mtdIntegerStoredStoredKeyDescComp_def Let_def)

subsection \<open>The comparisons are key orders\<close>

lemma sint_null: "sint (MTD_INTEGER_NULL) = - (2 ^ 31)"
  by simp

lemma sint_not_null: "v \<noteq> MTD_INTEGER_NULL \<Longrightarrow> sint (v :: mtdIntegerType) > - (2 ^ 31)"
proof (rule ccontr)
  assume "v \<noteq> MTD_INTEGER_NULL" and "\<not> sint v > - (2 ^ 31)"
  then have "sint v = sint (MTD_INTEGER_NULL)"
    using sint_greater_eq [of v] by simp
  then have "v = MTD_INTEGER_NULL"
    by (rule signed_word_eqI)
  then show False
    using \<open>v \<noteq> MTD_INTEGER_NULL\<close> by simp
qed

lemma sint_min: "sint (v :: mtdIntegerType) \<ge> - (2 ^ 31)"
  using sint_greater_eq [of v] by simp

text \<open>Either order reads as an order on integers with the null above every value.\<close>

definition ascRank :: "mtdIntegerType \<Rightarrow> int" where
  "ascRank v = (if v = MTD_INTEGER_NULL then 2 ^ 31 else sint v)"

definition descRank :: "mtdIntegerType \<Rightarrow> int" where
  "descRank v = (if v = MTD_INTEGER_NULL then 2 ^ 31 else - sint v)"

lemma sint_max: "sint (v :: mtdIntegerType) < 2 ^ 31"
  using sint_less [of v] by simp

lemma asc_rank: "mtdIntegerLogicalAscComp a b = sgn (ascRank a - ascRank b)"
  using sint_not_null [of a] sint_not_null [of b] sint_max [of a] sint_max [of b]
  by (cases "a = MTD_INTEGER_NULL"; cases "b = MTD_INTEGER_NULL")
    (simp_all add: mtdIntegerLogicalAscComp_def ascRank_def)

lemma desc_rank: "mtdIntegerLogicalDescComp a b = sgn (descRank a - descRank b)"
  using sint_not_null [of a] sint_not_null [of b] sint_max [of a] sint_max [of b]
  by (cases "a = MTD_INTEGER_NULL"; cases "b = MTD_INTEGER_NULL")
    (simp_all add: mtdIntegerLogicalDescComp_def descRank_def)

lemma rank_null:
  "mtdIsNull a \<Longrightarrow> \<not> mtdIsNull b \<Longrightarrow> ascRank b < ascRank a"
  "mtdIsNull a \<Longrightarrow> \<not> mtdIsNull b \<Longrightarrow> descRank b < descRank a"
  using sint_not_null [of b] sint_max [of b]
  by (auto simp: mtdIsNull_def ascRank_def descRank_def split: if_splits)

lemma asc_key_order: "key_order mtdIntegerLogicalAscComp mtdIsNull"
  by (rule rank_key_order [OF asc_rank rank_null(1)])

lemma desc_key_order: "key_order mtdIntegerLogicalDescComp mtdIsNull"
  by (rule rank_key_order [OF desc_rank rank_null(2)])

interpretation intAsc: key_order mtdIntegerLogicalAscComp mtdIsNull
  by (rule asc_key_order)

interpretation intDesc: key_order mtdIntegerLogicalDescComp mtdIsNull
  by (rule desc_key_order)

subsection \<open>Index columns of the type\<close>

definition integerMtdColumn :: "bool \<Rightarrow> (mtdIntegerType option, mtdIntegerType option) mtcColumn" where
  "integerMtdColumn desc = \<lparr>
     keyCompare = (\<lambda>a b. (if desc then mtdIntegerMtdMtdKeyDescComp else mtdIntegerMtdMtdKeyAscComp)
       (viValue a) (viValue b)),
     valueCompare = (\<lambda>a b. (if desc then mtdIntegerMtdMtdKeyDescComp else mtdIntegerMtdMtdKeyAscComp)
       (viValue a) (viValue b)),
     groupCompare = (\<lambda>a b. (if desc then mtdIntegerMtdMtdKeyDescComp else mtdIntegerMtdMtdKeyAscComp)
       (viValue a) (viValue b)),
     isNull = mtdIsNull \<circ> valueForModule,
     columnValue = (\<lambda>v. Some (valueForModule v)),
     isCompressed = False, isVariable = False,
     equalsStaticNull = (\<lambda>v. valueForModule v = MTD_INTEGER_NULL),
     compressionValue = id \<rparr>"

definition integerStoredColumn :: "bool \<Rightarrow> (bytes4, mtdIntegerType option) mtcColumn" where
  "integerStoredColumn desc = \<lparr>
     keyCompare = (\<lambda>a b. (if desc then mtdIntegerStoredMtdKeyDescComp else mtdIntegerStoredMtdKeyAscComp)
       (viValue a) (viValue b)),
     valueCompare = (\<lambda>a b. (if desc then mtdIntegerMtdMtdKeyDescComp else mtdIntegerMtdMtdKeyAscComp)
       (viValue a) (viValue b)),
     groupCompare = (\<lambda>a b. (if desc then mtdIntegerMtdMtdKeyDescComp else mtdIntegerMtdMtdKeyAscComp)
       (viValue a) (viValue b)),
     isNull = mtdIsNull \<circ> valueForModule,
     columnValue = (\<lambda>v. Some (intOfBytes v)),
     isCompressed = False, isVariable = False,
     equalsStaticNull = (\<lambda>v. v = bytesOfInt MTD_INTEGER_NULL),
     compressionValue = (\<lambda>v. Some (intOfBytes v)) \<rparr>"

definition integerKey :: "bool \<Rightarrow> mtdIntegerType \<Rightarrow> mtdIntegerType \<Rightarrow> int" where
  "integerKey desc = (if desc then mtdIntegerLogicalDescComp else mtdIntegerLogicalAscComp)"

lemma integer_key_order:
  "key_order (\<lambda>a b. integerKey desc (valueForModule a) (valueForModule b)) (mtdIsNull \<circ> valueForModule)"
  using key_order_image [where f = valueForModule and isN = mtdIsNull and cmp = "integerKey desc"]
    asc_key_order desc_key_order by (auto simp: integerKey_def comp_def)

lemma integer_ord [simp]:
  "keyOrd (integerMtdColumn desc) a b = integerKey desc (valueForModule a) (valueForModule b)"
  "keyOrd (integerStoredColumn desc) a b = integerKey desc (valueForModule a) (valueForModule b)"
  by (simp_all add: keyOrd_def integerMtdColumn_def integerStoredColumn_def integerKey_def
      mtdInteger_asc_agree mtdInteger_desc_agree)

lemma integer_compare [simp]:
  "keyCompare (integerMtdColumn desc) (valueInfo v n p) (valueInfo k m q) =
     integerKey desc (valueForModule v) (valueForModule k)"
  "keyCompare (integerStoredColumn desc) (valueInfo b n p) (valueInfo k m q) =
     integerKey desc (intOfBytes b) (valueForModule k)"
  by (simp_all add: integerMtdColumn_def integerStoredColumn_def integerKey_def
      mtdInteger_asc_agree mtdInteger_desc_agree)

lemma bytesOfInt_intOfBytes [simp]: "bytesOfInt (intOfBytes b) = b"
  by (cases b) (auto simp: bytesOfInt_def bit_eq_iff bit_simps not_less dest: bit_imp_le_length)

end
