(* ===== verification/MtdVarchar.thy ===== *)
theory MtdVarchar
  imports KeyOrder
begin

text \<open>
  The \<open>VARCHAR\<close> type, \<open>src/src/mt/mtd/mtdVarchar.cpp\<close>: its key comparisons for values in memory
  (\<open>mtdCharType\<close>, a 16 bit length and the bytes), stored values (bytes and a length, or the
  identifier of a dictionary entry when the column is compressed) and direct keys of an index,
  which may hold only the first bytes of a value.

  A value is its list of bytes; the length field is the length of the list and the empty value
  is the null.  \<open>lexCmp\<close> is the reference order: bytewise, a proper prefix first.
\<close>

type_synonym mtdCharType = "8 word list"

text \<open>\<open>memcmp\<close> of the C library, by the sign of its result.\<close>

fun memcmp :: "8 word list \<Rightarrow> 8 word list \<Rightarrow> nat \<Rightarrow> int" where
  "memcmp _ _ 0 = 0"
| "memcmp (x # xs) (y # ys) (Suc n) =
     (if x < y then -1 else if y < x then 1 else memcmp xs ys n)"
| "memcmp _ _ (Suc n) = 0"

definition varcharSetNull :: "mtdCharType option \<Rightarrow> mtdCharType option" where
  "varcharSetNull aRow = (case aRow of None \<Rightarrow> None | Some _ \<Rightarrow> Some [])"

definition varcharIsNull :: "mtdCharType \<Rightarrow> bool" where
  "varcharIsNull v = (if length v = 0 then True else False)"

definition varcharForModule :: "mtdCharType option \<Rightarrow> mtdCharType" where
  "varcharForModule v = (case v of None \<Rightarrow> [] | Some x \<Rightarrow> x)"

text \<open>The block every ascending comparison ends with, and the one of every descending comparison.\<close>

definition varcharCompareAsc :: "nat \<Rightarrow> mtdCharType \<Rightarrow> nat \<Rightarrow> mtdCharType \<Rightarrow> int" where
  "varcharCompareAsc sLength1 sValue1 sLength2 sValue2 =
     (if sLength1 \<noteq> 0 \<and> sLength2 \<noteq> 0 then
        (if sLength1 > sLength2 then (if memcmp sValue1 sValue2 sLength2 \<ge> 0 then 1 else -1)
         else if sLength1 < sLength2 then (if memcmp sValue1 sValue2 sLength1 > 0 then 1 else -1)
         else memcmp sValue1 sValue2 sLength1)
      else if sLength1 < sLength2 then 1
      else if sLength1 > sLength2 then -1
      else 0)"

definition varcharCompareDesc :: "nat \<Rightarrow> mtdCharType \<Rightarrow> nat \<Rightarrow> mtdCharType \<Rightarrow> int" where
  "varcharCompareDesc sLength1 sValue1 sLength2 sValue2 =
     (if sLength1 \<noteq> 0 \<and> sLength2 \<noteq> 0 then
        (if sLength2 > sLength1 then (if memcmp sValue2 sValue1 sLength1 \<ge> 0 then 1 else -1)
         else if sLength2 < sLength1 then (if memcmp sValue2 sValue1 sLength2 > 0 then 1 else -1)
         else memcmp sValue2 sValue1 sLength2)
      else if sLength1 < sLength2 then 1
      else if sLength1 > sLength2 then -1
      else 0)"

subsection \<open>Values in memory\<close>

definition mtdVarcharLogicalAscComp :: "mtdCharType mtdValueInfo \<Rightarrow> mtdCharType mtdValueInfo \<Rightarrow> int" where
  "mtdVarcharLogicalAscComp a1 a2 =
     varcharCompareAsc (length (viValue a1)) (viValue a1) (length (viValue a2)) (viValue a2)"

definition mtdVarcharLogicalDescComp :: "mtdCharType mtdValueInfo \<Rightarrow> mtdCharType mtdValueInfo \<Rightarrow> int" where
  "mtdVarcharLogicalDescComp a1 a2 =
     varcharCompareDesc (length (viValue a1)) (viValue a1) (length (viValue a2)) (viValue a2)"

definition mtdVarcharFixedMtdFixedMtdKeyAscComp ::
  "mtdCharType mtdValueInfo \<Rightarrow> mtdCharType mtdValueInfo \<Rightarrow> int" where
  "mtdVarcharFixedMtdFixedMtdKeyAscComp a1 a2 =
     varcharCompareAsc (length (viValue a1)) (viValue a1) (length (viValue a2)) (viValue a2)"

definition mtdVarcharFixedMtdFixedMtdKeyDescComp ::
  "mtdCharType mtdValueInfo \<Rightarrow> mtdCharType mtdValueInfo \<Rightarrow> int" where
  "mtdVarcharFixedMtdFixedMtdKeyDescComp a1 a2 =
     varcharCompareDesc (length (viValue a1)) (viValue a1) (length (viValue a2)) (viValue a2)"

definition mtdVarcharMtdMtdKeyAscComp ::
  "mtdCharType option mtdValueInfo \<Rightarrow> mtdCharType option mtdValueInfo \<Rightarrow> int" where
  "mtdVarcharMtdMtdKeyAscComp a1 a2 =
     (let v1 = varcharForModule (viValue a1); v2 = varcharForModule (viValue a2) in
      varcharCompareAsc (length v1) v1 (length v2) v2)"

definition mtdVarcharMtdMtdKeyDescComp ::
  "mtdCharType option mtdValueInfo \<Rightarrow> mtdCharType option mtdValueInfo \<Rightarrow> int" where
  "mtdVarcharMtdMtdKeyDescComp a1 a2 =
     (let v1 = varcharForModule (viValue a1); v2 = varcharForModule (viValue a2) in
      varcharCompareDesc (length v1) v1 (length v2) v2)"

subsection \<open>Stored values\<close>

text \<open>
  A stored value of a column that is not compressed is \<open>length\<close> bytes, cut to 16 bits; of a
  compressed one it is the identifier the dictionary (\<open>mtc::getCompressionColumn\<close>, the argument
  \<open>dict\<close>) maps to a value in memory.
\<close>

definition storedVarchar ::
  "bool \<Rightarrow> (8 word list \<Rightarrow> mtdCharType) \<Rightarrow> 8 word list mtdValueInfo \<Rightarrow> nat \<times> mtdCharType" where
  "storedVarchar compressed dict a =
     (if \<not> compressed then (viLength a mod 65536, viValue a)
      else (length (dict (viValue a)), dict (viValue a)))"

definition mtdVarcharStoredMtdKeyAscComp :: "bool \<Rightarrow> (8 word list \<Rightarrow> mtdCharType) \<Rightarrow>
    8 word list mtdValueInfo \<Rightarrow> mtdCharType option mtdValueInfo \<Rightarrow> int" where
  "mtdVarcharStoredMtdKeyAscComp compressed dict a1 a2 =
     (let (sLength1, sValue1) = storedVarchar compressed dict a1;
          v2 = varcharForModule (viValue a2) in
      varcharCompareAsc sLength1 sValue1 (length v2) v2)"

definition mtdVarcharStoredMtdKeyDescComp :: "bool \<Rightarrow> (8 word list \<Rightarrow> mtdCharType) \<Rightarrow>
    8 word list mtdValueInfo \<Rightarrow> mtdCharType option mtdValueInfo \<Rightarrow> int" where
  "mtdVarcharStoredMtdKeyDescComp compressed dict a1 a2 =
     (let (sLength1, sValue1) = storedVarchar compressed dict a1;
          v2 = varcharForModule (viValue a2) in
      varcharCompareDesc sLength1 sValue1 (length v2) v2)"

definition mtdVarcharStoredStoredKeyAscComp :: "bool \<Rightarrow> bool \<Rightarrow> (8 word list \<Rightarrow> mtdCharType) \<Rightarrow>
    8 word list mtdValueInfo \<Rightarrow> 8 word list mtdValueInfo \<Rightarrow> int" where
  "mtdVarcharStoredStoredKeyAscComp compressed1 compressed2 dict a1 a2 =
     (let (sLength1, sValue1) = storedVarchar compressed1 dict a1;
          (sLength2, sValue2) = storedVarchar compressed2 dict a2 in
      varcharCompareAsc sLength1 sValue1 sLength2 sValue2)"

definition mtdVarcharStoredStoredKeyDescComp :: "bool \<Rightarrow> bool \<Rightarrow> (8 word list \<Rightarrow> mtdCharType) \<Rightarrow>
    8 word list mtdValueInfo \<Rightarrow> 8 word list mtdValueInfo \<Rightarrow> int" where
  "mtdVarcharStoredStoredKeyDescComp compressed1 compressed2 dict a1 a2 =
     (let (sLength1, sValue1) = storedVarchar compressed1 dict a1;
          (sLength2, sValue2) = storedVarchar compressed2 dict a2 in
      varcharCompareDesc sLength1 sValue1 sLength2 sValue2)"

subsection \<open>Direct keys\<close>

definition mtdHeaderSize :: nat where
  "mtdHeaderSize = 2"

text \<open>The length correction for a partial direct key, applied to both values; the difference is
  that of unsigned 32 bit integers, cut to 16 bits.\<close>

definition partialLength :: "'v mtdValueInfo \<Rightarrow> nat \<Rightarrow> nat" where
  "partialLength a sLength =
     (if viPartialKey a then
        (let sDirectKeyPartialSize = viLength a in
         if sDirectKeyPartialSize \<noteq> 0 then
           (if sLength + mtdHeaderSize > sDirectKeyPartialSize
            then ((sDirectKeyPartialSize + 2 ^ 32 - mtdHeaderSize) mod 2 ^ 32) mod 2 ^ 16
            else sLength)
         else sLength)
      else sLength)"

definition mtdVarcharIndexKeyFixedMtdKeyAscComp ::
  "mtdCharType mtdValueInfo \<Rightarrow> mtdCharType mtdValueInfo \<Rightarrow> int" where
  "mtdVarcharIndexKeyFixedMtdKeyAscComp a1 a2 =
     (let v1 = viValue a1; v2 = viValue a2 in
      varcharCompareAsc (partialLength a1 (length v1)) v1 (partialLength a1 (length v2)) v2)"

definition mtdVarcharIndexKeyFixedMtdKeyDescComp ::
  "mtdCharType mtdValueInfo \<Rightarrow> mtdCharType mtdValueInfo \<Rightarrow> int" where
  "mtdVarcharIndexKeyFixedMtdKeyDescComp a1 a2 =
     (let v1 = viValue a1; v2 = viValue a2 in
      varcharCompareDesc (partialLength a1 (length v1)) v1 (partialLength a1 (length v2)) v2)"

definition mtdVarcharIndexKeyMtdKeyAscComp ::
  "mtdCharType option mtdValueInfo \<Rightarrow> mtdCharType option mtdValueInfo \<Rightarrow> int" where
  "mtdVarcharIndexKeyMtdKeyAscComp a1 a2 =
     (let v1 = varcharForModule (viValue a1); v2 = varcharForModule (viValue a2) in
      varcharCompareAsc (partialLength a1 (length v1)) v1 (partialLength a1 (length v2)) v2)"

definition mtdVarcharIndexKeyMtdKeyDescComp ::
  "mtdCharType option mtdValueInfo \<Rightarrow> mtdCharType option mtdValueInfo \<Rightarrow> int" where
  "mtdVarcharIndexKeyMtdKeyDescComp a1 a2 =
     (let v1 = varcharForModule (viValue a1); v2 = varcharForModule (viValue a2) in
      varcharCompareDesc (partialLength a1 (length v1)) v1 (partialLength a1 (length v2)) v2)"

subsection \<open>The reference order\<close>

fun lexCmp :: "8 word list \<Rightarrow> 8 word list \<Rightarrow> int" where
  "lexCmp [] [] = 0"
| "lexCmp [] (_ # _) = -1"
| "lexCmp (_ # _) [] = 1"
| "lexCmp (x # xs) (y # ys) = (if x < y then -1 else if y < x then 1 else lexCmp xs ys)"

lemma lexCmp_flip: "lexCmp b a = - lexCmp a b"
  by (induction a b rule: lexCmp.induct) auto

lemma lexCmp_Nil_right [simp]: "lexCmp a [] = (if a = [] then 0 else 1)"
  by (cases a) auto

lemma lexCmp_Nil_left [simp]: "lexCmp [] a = (if a = [] then 0 else -1)"
  by (cases a) auto

lemma lexCmp_trans: "lexCmp a b \<le> 0 \<Longrightarrow> lexCmp b c \<le> 0 \<Longrightarrow> lexCmp a c \<le> 0"
proof (induction a b arbitrary: c rule: lexCmp.induct)
  case (4 x xs y ys)
  then show ?case
    by (cases c) (auto split: if_splits)
qed (auto split: if_splits)

lemma lexCmp_eq: "lexCmp a b = 0 \<longleftrightarrow> a = b"
  by (induction a b rule: lexCmp.induct) auto

lemma lexCmp_range: "lexCmp a b \<in> {-1, 0, 1}"
  by (induction a b rule: lexCmp.induct) auto

lemma memcmp_longer: "length b < length a \<Longrightarrow>
    lexCmp a b = (if memcmp a b (length b) \<ge> 0 then 1 else -1)"
  by (induction a b rule: lexCmp.induct) auto

lemma memcmp_shorter: "length a < length b \<Longrightarrow>
    lexCmp a b = (if memcmp a b (length a) > 0 then 1 else -1)"
  by (induction a b rule: lexCmp.induct) auto

lemma memcmp_same: "length a = length b \<Longrightarrow> lexCmp a b = memcmp a b (length a)"
  by (induction a b rule: list_induct2) simp_all

lemma memcmp_take: "memcmp (take m a) (take k b) n = memcmp a b n" if "n \<le> m" "n \<le> k"
  using that by (induction a b n arbitrary: m k rule: memcmp.induct) (auto simp: take_Cons')

definition ascKey :: "mtdCharType \<Rightarrow> mtdCharType \<Rightarrow> int" where
  "ascKey a b = (if a \<noteq> [] \<and> b \<noteq> [] then lexCmp a b
     else if a = [] \<and> b \<noteq> [] then 1 else if a \<noteq> [] \<and> b = [] then -1 else 0)"

definition descKey :: "mtdCharType \<Rightarrow> mtdCharType \<Rightarrow> int" where
  "descKey a b = (if a \<noteq> [] \<and> b \<noteq> [] then lexCmp b a
     else if a = [] \<and> b \<noteq> [] then 1 else if a \<noteq> [] \<and> b = [] then -1 else 0)"

text \<open>One block of the comparison, on values cut to the lengths compared.\<close>

lemma memcmp_block:
  assumes "n \<le> length a" "m \<le> length b"
  shows "(if n > m then (if memcmp a b m \<ge> 0 then 1 else -1)
     else if n < m then (if memcmp a b n > 0 then 1 else -1)
     else memcmp a b n) = lexCmp (take n a) (take m b)"
proof -
  have len: "length (take n a) = n" "length (take m b) = m"
    using assms by simp_all
  consider "m < n" | "n < m" | "n = m"
    by linarith
  then show ?thesis
  proof cases
    case 1
    then show ?thesis
      using memcmp_longer [of "take m b" "take n a"] memcmp_take [of m n m a b] len by simp
  next
    case 2
    then show ?thesis
      using memcmp_shorter [of "take n a" "take m b"] memcmp_take [of n n m a b] len by simp
  next
    case 3
    then show ?thesis
      using memcmp_same [of "take n a" "take m b"] memcmp_take [of n n m a b] len by simp
  qed
qed

lemma take_empty: "n \<le> length a \<Longrightarrow> take n a = [] \<longleftrightarrow> n = 0"
  by auto

lemma varcharCompareAsc_take:
  assumes "n \<le> length a" "m \<le> length b"
  shows "varcharCompareAsc n a m b = ascKey (take n a) (take m b)"
  unfolding varcharCompareAsc_def ascKey_def memcmp_block [OF assms]
  using assms by (auto simp: take_empty)

lemma varcharCompareDesc_take:
  assumes "n \<le> length a" "m \<le> length b"
  shows "varcharCompareDesc n a m b = descKey (take n a) (take m b)"
  unfolding varcharCompareDesc_def descKey_def memcmp_block [OF assms(2,1)]
  using assms by (auto simp: take_empty)

lemmas varcharCompare_whole =
  varcharCompareAsc_take [of "length a" a "length b" b for a b, simplified]
  varcharCompareDesc_take [of "length a" a "length b" b for a b, simplified]

subsection \<open>The comparisons agree with it and are key orders\<close>

lemma varcharAsc_key_order: "key_order ascKey varcharIsNull"
proof
  fix a b c
  show "ascKey a b < 0 \<longleftrightarrow> ascKey b a > 0"
    using lexCmp_flip [of a b] by (auto simp: ascKey_def)
  show "ascKey a b \<le> 0 \<Longrightarrow> ascKey b c \<le> 0 \<Longrightarrow> ascKey a c \<le> 0"
    using lexCmp_trans [of a b c] by (auto simp: ascKey_def split: if_splits)
  show "varcharIsNull a \<Longrightarrow> \<not> varcharIsNull b \<Longrightarrow> ascKey a b > 0"
    by (auto simp: ascKey_def varcharIsNull_def split: if_splits)
qed

lemma varcharDesc_key_order: "key_order descKey varcharIsNull"
proof
  fix a b c
  show "descKey a b < 0 \<longleftrightarrow> descKey b a > 0"
    using lexCmp_flip [of a b] by (auto simp: descKey_def)
  show "descKey a b \<le> 0 \<Longrightarrow> descKey b c \<le> 0 \<Longrightarrow> descKey a c \<le> 0"
    using lexCmp_trans [of c b a] by (auto simp: descKey_def split: if_splits)
  show "varcharIsNull a \<Longrightarrow> \<not> varcharIsNull b \<Longrightarrow> descKey a b > 0"
    by (auto simp: descKey_def varcharIsNull_def split: if_splits)
qed

interpretation varcharAsc: key_order ascKey varcharIsNull
  by (rule varcharAsc_key_order)

interpretation varcharDesc: key_order descKey varcharIsNull
  by (rule varcharDesc_key_order)

text \<open>Cutting both values to the length of a partial direct key never reverses their order.\<close>

lemma lexCmp_take: "lexCmp (take n a) (take n b) \<noteq> 0 \<Longrightarrow> lexCmp (take n a) (take n b) = lexCmp a b"
proof (induction a b arbitrary: n rule: lexCmp.induct)
  case (2 y ys)
  then show ?case by (cases n) auto
next
  case (3 x xs)
  then show ?case by (cases n) auto
next
  case (4 x xs y ys)
  then show ?case by (cases n) (auto split: if_splits)
qed simp

lemma key_take:
  "ascKey (take n a) (take n b) \<noteq> 0 \<Longrightarrow> ascKey (take n a) (take n b) = ascKey a b"
  "descKey (take n a) (take n b) \<noteq> 0 \<Longrightarrow> descKey (take n a) (take n b) = descKey a b"
  using lexCmp_take [of n a b] lexCmp_take [of n b a]
  by (auto simp: ascKey_def descKey_def split: if_splits)

lemma partialLength_off [simp]: "\<not> viPartialKey a \<Longrightarrow> partialLength a n = n"
  by (simp add: partialLength_def)

lemma partialLength_on:
  assumes "viPartialKey a" "2 \<le> viLength a" "n < 65536"
  shows "partialLength a n = min n (viLength a - 2)"
proof (cases "n + 2 > viLength a")
  case True
  have e: "viLength a + 2 ^ 32 - 2 = (viLength a - 2) + 2 ^ 32"
    using assms(2) by simp
  have "viLength a - 2 < 2 ^ 16"
    using True assms(3) by simp
  then have "(viLength a + 2 ^ 32 - 2) mod 2 ^ 32 mod 2 ^ 16 = viLength a - 2"
    unfolding e mod_add_self2 by simp
  then show ?thesis
    using True assms(1,2) by (simp add: partialLength_def mtdHeaderSize_def)
next
  case False
  then show ?thesis
    using assms by (simp add: partialLength_def mtdHeaderSize_def)
qed

subsection \<open>Index columns of the type\<close>

definition varcharMtdColumn :: "bool \<Rightarrow> (mtdCharType option, mtdCharType option) mtcColumn" where
  "varcharMtdColumn desc = \<lparr>
     keyCompare = (if desc then mtdVarcharMtdMtdKeyDescComp else mtdVarcharMtdMtdKeyAscComp),
     valueCompare = (if desc then mtdVarcharMtdMtdKeyDescComp else mtdVarcharMtdMtdKeyAscComp),
     groupCompare = (if desc then mtdVarcharMtdMtdKeyDescComp else mtdVarcharMtdMtdKeyAscComp),
     isNull = varcharIsNull \<circ> varcharForModule,
     columnValue = (\<lambda>v. Some (varcharForModule v)),
     isCompressed = False, isVariable = True,
     equalsStaticNull = (\<lambda>v. varcharForModule v = []),
     compressionValue = id \<rparr>"

text \<open>The columns of a direct key index: values and direct keys compare by the same function.\<close>

definition varcharIndexKeyColumn :: "bool \<Rightarrow> (mtdCharType option, mtdCharType option) mtcColumn" where
  "varcharIndexKeyColumn desc = (varcharMtdColumn desc)
     \<lparr> keyCompare := (if desc then mtdVarcharIndexKeyMtdKeyDescComp
                      else mtdVarcharIndexKeyMtdKeyAscComp) \<rparr>"

definition varcharStoredColumn ::
  "bool \<Rightarrow> bool \<Rightarrow> (8 word list \<Rightarrow> mtdCharType) \<Rightarrow> (8 word list, mtdCharType option) mtcColumn" where
  "varcharStoredColumn desc compressed dict = \<lparr>
     keyCompare = (if desc then mtdVarcharStoredMtdKeyDescComp compressed dict
                   else mtdVarcharStoredMtdKeyAscComp compressed dict),
     valueCompare = (if desc then mtdVarcharMtdMtdKeyDescComp else mtdVarcharMtdMtdKeyAscComp),
     groupCompare = (if desc then mtdVarcharMtdMtdKeyDescComp else mtdVarcharMtdMtdKeyAscComp),
     isNull = varcharIsNull \<circ> varcharForModule,
     columnValue = Some,
     isCompressed = compressed, isVariable = True,
     equalsStaticNull = (\<lambda>v. v = []),
     compressionValue = (\<lambda>v. Some (dict v)) \<rparr>"

definition varcharKey :: "bool \<Rightarrow> mtdCharType \<Rightarrow> mtdCharType \<Rightarrow> int" where
  "varcharKey desc = (if desc then descKey else ascKey)"

lemma varcharKey_order: "key_order (varcharKey desc) varcharIsNull"
  by (simp add: varcharKey_def varcharAsc_key_order varcharDesc_key_order)

lemma varchar_key_order:
  "key_order (\<lambda>a b. varcharKey desc (varcharForModule a) (varcharForModule b))
     (varcharIsNull \<circ> varcharForModule)"
  using key_order_image [OF varcharKey_order, where f = varcharForModule] by (simp add: comp_def)

lemma varcharMtd_ord [simp]:
  "keyOrd (varcharMtdColumn desc) a b = varcharKey desc (varcharForModule a) (varcharForModule b)"
  "keyOrd (varcharIndexKeyColumn desc) a b = varcharKey desc (varcharForModule a) (varcharForModule b)"
  "keyOrd (varcharStoredColumn desc compressed dict) a b =
     varcharKey desc (varcharForModule a) (varcharForModule b)"
  by (simp_all add: keyOrd_def varcharMtdColumn_def varcharIndexKeyColumn_def
      varcharStoredColumn_def varcharKey_def mtdVarcharMtdMtdKeyAscComp_def
      mtdVarcharMtdMtdKeyDescComp_def varcharCompare_whole)

lemma varcharMtd_compare [simp]:
  "keyCompare (varcharMtdColumn desc) (valueInfo v n False) (keyInfo k) =
     varcharKey desc (varcharForModule v) (varcharForModule k)"
  "keyCompare (varcharIndexKeyColumn desc) (valueInfo v n False) (keyInfo k) =
     varcharKey desc (varcharForModule v) (varcharForModule k)"
  by (simp_all add: varcharMtdColumn_def varcharIndexKeyColumn_def varcharKey_def
      mtdVarcharMtdMtdKeyAscComp_def mtdVarcharMtdMtdKeyDescComp_def
      mtdVarcharIndexKeyMtdKeyAscComp_def mtdVarcharIndexKeyMtdKeyDescComp_def
      varcharCompare_whole)

text \<open>What a stored value reads as, when its length is that of its bytes.\<close>

definition storedOk :: "bool \<Rightarrow> 8 word list smiValue \<Rightarrow> bool" where
  "storedOk compressed x \<longleftrightarrow>
     compressed \<or> smLength x = length (smValue x) \<and> length (smValue x) < 65536"

lemma varcharStored_compare:
  assumes "storedOk compressed x"
  shows "keyCompare (varcharStoredColumn desc compressed dict)
      (valueInfo (smValue x) (smLength x) False) (keyInfo k) =
    varcharKey desc (if compressed then dict (smValue x) else smValue x) (varcharForModule k)"
  using assms
  by (cases compressed)
    (auto simp: storedOk_def varcharStoredColumn_def varcharKey_def storedVarchar_def Let_def
      mtdVarcharStoredMtdKeyAscComp_def mtdVarcharStoredMtdKeyDescComp_def varcharCompare_whole)

end
