(* ===== verification/KeyRange.thy ===== *)
theory KeyRange
  imports MtdInteger MtdVarchar
begin

text \<open>
  Index key ranges, \<open>src/src/mt/mtk/mtk.cpp\<close>: the callbacks that decide whether a key is past the
  bound of a range, the order of bounds, and the operations that build and combine ranges.

  A bound is a callback (\<open>smiCallBackFunc\<close>) with its data, the list of \<open>mtkRangeCallBack\<close>s that
  \<open>next\<close> links, one per index column.  Ranges are the lists \<open>next\<close> and \<open>prev\<close> make.
\<close>

datatype smiCallBackFunc =
    CbGE4Mtd | CbLE4Mtd | CbGT4Mtd | CbLT4Mtd
  | CbGE4Stored | CbLE4Stored | CbGT4Stored | CbLT4Stored
  | CbGE4IndexKey | CbLE4IndexKey | CbGT4IndexKey | CbLT4IndexKey
  | Cb4Rid

text \<open>The comparison of one column is a limit or the key comparison of the column's module.\<close>

datatype mtkCompare = MinimumLimit | MaximumLimit4Mtd | MaximumLimit4Stored | KeyCompare

record 'k mtkRangeCallBack =
  rcSameGroup :: bool
  rcColumnIdx :: nat
  rcCompare :: mtkCompare
  rcValue :: 'k

record 'k smiCallBack =
  callback :: smiCallBackFunc
  cbData :: "'k mtkRangeCallBack list"

record 'k smiRange =
  minimum :: "'k smiCallBack"
  maximum :: "'k smiCallBack"

type_synonym ('v, 'k) columns = "nat \<Rightarrow> ('v, 'k) mtcColumn"
type_synonym 'v smiRow = "nat \<Rightarrow> 'v smiValue"

subsection \<open>Comparing one column\<close>

definition compareMinimumLimit :: "'v mtdValueInfo \<Rightarrow> int" where
  "compareMinimumLimit aValueInfo1 = 1"

definition compareMaximumLimit4Mtd :: "('v, 'k) mtcColumn \<Rightarrow> 'v mtdValueInfo \<Rightarrow> int" where
  "compareMaximumLimit4Mtd column aValueInfo1 =
     (let sValue = columnValue column (viValue aValueInfo1) in
      if \<not> isNull column sValue then -1 else 0)"

definition compareMaximumLimit4Stored :: "('v, 'k) mtcColumn \<Rightarrow> 'v mtdValueInfo \<Rightarrow> int" where
  "compareMaximumLimit4Stored column aValueInfo1 =
     (if \<not> isCompressed column then
        (if isVariable column then (if viLength aValueInfo1 \<noteq> 0 then -1 else 0)
         else (if \<not> equalsStaticNull column (viValue aValueInfo1) then -1 else 0))
      else
        (let sRealValue = compressionValue column (viValue aValueInfo1) in
         if \<not> isNull column sRealValue then -1 else 0))"

text \<open>The call through \<open>sData->compare\<close>.\<close>

definition callCompare ::
  "('v, 'k) columns \<Rightarrow> 'k mtkRangeCallBack \<Rightarrow> 'v mtdValueInfo \<Rightarrow> int" where
  "callCompare cols d vi =
     (case rcCompare d of
        MinimumLimit \<Rightarrow> compareMinimumLimit vi
      | MaximumLimit4Mtd \<Rightarrow> compareMaximumLimit4Mtd (cols (rcColumnIdx d)) vi
      | MaximumLimit4Stored \<Rightarrow> compareMaximumLimit4Stored (cols (rcColumnIdx d)) vi
      | KeyCompare \<Rightarrow> keyCompare (cols (rcColumnIdx d)) vi (keyInfo (rcValue d)))"

subsection \<open>Range callbacks\<close>

text \<open>The loop of the \<open>4Mtd\<close> callbacks, and that of the \<open>4Stored\<close> callbacks.\<close>

primrec order4Mtd :: "('v, 'k) columns \<Rightarrow> 'v smiRow \<Rightarrow> 'k mtkRangeCallBack list \<Rightarrow> int" where
  "order4Mtd cols row [] = 0"
| "order4Mtd cols row (d # ds) =
     (let sOrder = callCompare cols d (valueInfo (smValue (row (rcColumnIdx d))) 0 False) in
      if sOrder = 0 then order4Mtd cols row ds else sOrder)"

primrec order4Stored :: "('v, 'k) columns \<Rightarrow> 'v smiRow \<Rightarrow> 'k mtkRangeCallBack list \<Rightarrow> int" where
  "order4Stored cols row [] = 0"
| "order4Stored cols row (d # ds) =
     (let sOrder = callCompare cols d
        (valueInfo (smValue (row (rcColumnIdx d))) (smLength (row (rcColumnIdx d))) False) in
      if sOrder = 0 then order4Stored cols row ds else sOrder)"

definition rangeCallBackGE4Mtd where
  "rangeCallBackGE4Mtd cols aColVal aData = (if order4Mtd cols aColVal aData \<ge> 0 then True else False)"

definition rangeCallBackLE4Mtd where
  "rangeCallBackLE4Mtd cols aColVal aData = (if order4Mtd cols aColVal aData \<le> 0 then True else False)"

definition rangeCallBackGT4Mtd where
  "rangeCallBackGT4Mtd cols aColVal aData = (if order4Mtd cols aColVal aData > 0 then True else False)"

definition rangeCallBackLT4Mtd where
  "rangeCallBackLT4Mtd cols aColVal aData = (if order4Mtd cols aColVal aData < 0 then True else False)"

definition rangeCallBackGE4Stored where
  "rangeCallBackGE4Stored cols aColVal aData =
     (if order4Stored cols aColVal aData \<ge> 0 then True else False)"

definition rangeCallBackLE4Stored where
  "rangeCallBackLE4Stored cols aColVal aData =
     (if order4Stored cols aColVal aData \<le> 0 then True else False)"

definition rangeCallBackGT4Stored where
  "rangeCallBackGT4Stored cols aColVal aData =
     (if order4Stored cols aColVal aData > 0 then True else False)"

definition rangeCallBackLT4Stored where
  "rangeCallBackLT4Stored cols aColVal aData =
     (if order4Stored cols aColVal aData < 0 then True else False)"

text \<open>
  The loop of the direct key callbacks.  A direct key stands for the first column; one that is
  partial (\<open>aDirectKeyPartialSize\<close> is not 0) ends the loop, which the second component tells.
\<close>

fun orderIndexKey :: "('v, 'k) columns \<Rightarrow> 'v smiRow \<Rightarrow> 'v option \<Rightarrow> nat \<Rightarrow>
    'k mtkRangeCallBack list \<Rightarrow> int \<times> bool" where
  "orderIndexKey cols row aDirectKey psize [] = (0, False)"
| "orderIndexKey cols row (Some key) psize (d # ds) =
     (let sOrder = callCompare cols d (valueInfo key psize (psize \<noteq> 0)) in
      if psize \<noteq> 0 then (sOrder, True)
      else if sOrder = 0 then orderIndexKey cols row None psize ds
      else (sOrder, False))"
| "orderIndexKey cols row None psize (d # ds) =
     (let sOrder = callCompare cols d (valueInfo (smValue (row (rcColumnIdx d))) 0 False) in
      if sOrder = 0 then orderIndexKey cols row None psize ds else (sOrder, False))"

definition rangeCallBackGE4IndexKey where
  "rangeCallBackGE4IndexKey cols aColVal aDirectKey psize aData =
     (let (sOrder, _) = orderIndexKey cols aColVal aDirectKey psize aData in
      if sOrder \<ge> 0 then True else False)"

definition rangeCallBackLE4IndexKey where
  "rangeCallBackLE4IndexKey cols aColVal aDirectKey psize aData =
     (let (sOrder, _) = orderIndexKey cols aColVal aDirectKey psize aData in
      if sOrder \<le> 0 then True else False)"

definition rangeCallBackGT4IndexKey where
  "rangeCallBackGT4IndexKey cols aColVal aDirectKey psize aData =
     (case orderIndexKey cols aColVal aDirectKey psize aData of
        (sOrder, True) \<Rightarrow> (if sOrder \<ge> 0 then True else False)
      | (sOrder, False) \<Rightarrow> (if sOrder > 0 then True else False))"

definition rangeCallBackLT4IndexKey where
  "rangeCallBackLT4IndexKey cols aColVal aDirectKey psize aData =
     (case orderIndexKey cols aColVal aDirectKey psize aData of
        (sOrder, True) \<Rightarrow> (if sOrder \<le> 0 then True else False)
      | (sOrder, False) \<Rightarrow> (if sOrder < 0 then True else False))"

text \<open>The call of a bound's callback on an index key with its direct key; \<open>rangeCallBack4Rid\<close>
  asserts.\<close>

definition callCallBack ::
  "('v, 'k) columns \<Rightarrow> 'v smiRow \<Rightarrow> 'v option \<Rightarrow> nat \<Rightarrow> 'k smiCallBack \<Rightarrow> bool option" where
  "callCallBack cols row dk psize b =
     (case callback b of
        CbGE4Mtd \<Rightarrow> Some (rangeCallBackGE4Mtd cols row (cbData b))
      | CbLE4Mtd \<Rightarrow> Some (rangeCallBackLE4Mtd cols row (cbData b))
      | CbGT4Mtd \<Rightarrow> Some (rangeCallBackGT4Mtd cols row (cbData b))
      | CbLT4Mtd \<Rightarrow> Some (rangeCallBackLT4Mtd cols row (cbData b))
      | CbGE4Stored \<Rightarrow> Some (rangeCallBackGE4Stored cols row (cbData b))
      | CbLE4Stored \<Rightarrow> Some (rangeCallBackLE4Stored cols row (cbData b))
      | CbGT4Stored \<Rightarrow> Some (rangeCallBackGT4Stored cols row (cbData b))
      | CbLT4Stored \<Rightarrow> Some (rangeCallBackLT4Stored cols row (cbData b))
      | CbGE4IndexKey \<Rightarrow> Some (rangeCallBackGE4IndexKey cols row dk psize (cbData b))
      | CbLE4IndexKey \<Rightarrow> Some (rangeCallBackLE4IndexKey cols row dk psize (cbData b))
      | CbGT4IndexKey \<Rightarrow> Some (rangeCallBackGT4IndexKey cols row dk psize (cbData b))
      | CbLT4IndexKey \<Rightarrow> Some (rangeCallBackLT4IndexKey cols row dk psize (cbData b))
      | Cb4Rid \<Rightarrow> None)"

text \<open>A key lies in a range when both callbacks say so.\<close>

definition inRange :: "('v, 'k) columns \<Rightarrow> 'v smiRow \<Rightarrow> 'k smiRange \<Rightarrow> bool" where
  "inRange cols row r \<longleftrightarrow>
     callCallBack cols row None 0 (minimum r) = Some True \<and>
     callCallBack cols row None 0 (maximum r) = Some True"

definition inRanges :: "('v, 'k) columns \<Rightarrow> 'v smiRow \<Rightarrow> 'k smiRange list \<Rightarrow> bool" where
  "inRanges cols row rs \<longleftrightarrow> list_ex (inRange cols row) rs"

subsection \<open>Building ranges\<close>

text \<open>How the values of the index compare with the keys (\<open>compValueType\<close> of \<open>mtkRangeInfo\<close>).\<close>

datatype compValueType =
    FIXED_MTDVAL_FIXED_MTDVAL | MTDVAL_MTDVAL
  | STOREDVAL_MTDVAL | STOREDVAL_STOREDVAL
  | INDEX_KEY_FIXED_MTDVAL | INDEX_KEY_MTDVAL

definition extractNotNullRange :: "compValueType \<Rightarrow> nat \<Rightarrow> 'k \<Rightarrow> 'k smiRange" where
  "extractNotNullRange compType columnIdx noValue =
     (let (minCb, maxCb) =
        (if compType = FIXED_MTDVAL_FIXED_MTDVAL \<or> compType = MTDVAL_MTDVAL
         then (CbGE4Mtd, CbLT4Mtd)
         else if compType = STOREDVAL_MTDVAL \<or> compType = STOREDVAL_STOREDVAL
         then (CbGE4Stored, CbLT4Stored)
         else (CbGE4IndexKey, CbLT4IndexKey));
        maxCompare =
        (if compType = FIXED_MTDVAL_FIXED_MTDVAL \<or> compType = MTDVAL_MTDVAL \<or>
            compType = INDEX_KEY_FIXED_MTDVAL \<or> compType = INDEX_KEY_MTDVAL
         then MaximumLimit4Mtd else MaximumLimit4Stored) in
      \<lparr> minimum = \<lparr> callback = minCb, cbData = [\<lparr> rcSameGroup = False, rcColumnIdx = columnIdx,
          rcCompare = MinimumLimit, rcValue = noValue \<rparr>] \<rparr>,
        maximum = \<lparr> callback = maxCb, cbData = [\<lparr> rcSameGroup = False, rcColumnIdx = columnIdx,
          rcCompare = maxCompare, rcValue = noValue \<rparr>] \<rparr> \<rparr>)"

text \<open>\<open>addCompositeRange\<close> appends the bounds of the next index column where the bounds so far are
  inclusive, and leaves them as they are where they are not.\<close>

definition addCompositeRange :: "'k smiRange \<Rightarrow> 'k smiRange \<Rightarrow> 'k smiRange" where
  "addCompositeRange aComposite aRange =
     \<lparr> minimum =
         (if callback (minimum aComposite) = CbGE4Mtd \<or>
             callback (minimum aComposite) = CbGE4Stored \<or>
             callback (minimum aComposite) = CbGE4IndexKey
          then \<lparr> callback = callback (minimum aRange),
                 cbData = cbData (minimum aComposite) @ cbData (minimum aRange) \<rparr>
          else minimum aComposite),
       maximum =
         (if callback (maximum aComposite) = CbLE4Mtd \<or>
             callback (maximum aComposite) = CbLE4Stored \<or>
             callback (maximum aComposite) = CbLE4IndexKey
          then \<lparr> callback = callback (maximum aRange),
                 cbData = cbData (maximum aComposite) @ cbData (maximum aRange) \<rparr>
          else maximum aComposite) \<rparr>"

subsection \<open>Callback classes\<close>

text \<open>The callbacks of one range all belong to one class, by how the index keeps its values.\<close>

datatype rangeClass = ForMtd | ForStored | ForIndexKey

definition storedClass :: "rangeClass \<Rightarrow> bool" where
  "storedClass cl = (cl = ForStored)"

definition geOf :: "rangeClass \<Rightarrow> smiCallBackFunc" where
  "geOf cl = (case cl of ForMtd \<Rightarrow> CbGE4Mtd | ForStored \<Rightarrow> CbGE4Stored | ForIndexKey \<Rightarrow> CbGE4IndexKey)"
definition gtOf :: "rangeClass \<Rightarrow> smiCallBackFunc" where
  "gtOf cl = (case cl of ForMtd \<Rightarrow> CbGT4Mtd | ForStored \<Rightarrow> CbGT4Stored | ForIndexKey \<Rightarrow> CbGT4IndexKey)"
definition leOf :: "rangeClass \<Rightarrow> smiCallBackFunc" where
  "leOf cl = (case cl of ForMtd \<Rightarrow> CbLE4Mtd | ForStored \<Rightarrow> CbLE4Stored | ForIndexKey \<Rightarrow> CbLE4IndexKey)"
definition ltOf :: "rangeClass \<Rightarrow> smiCallBackFunc" where
  "ltOf cl = (case cl of ForMtd \<Rightarrow> CbLT4Mtd | ForStored \<Rightarrow> CbLT4Stored | ForIndexKey \<Rightarrow> CbLT4IndexKey)"

lemmas classOf = geOf_def gtOf_def leOf_def ltOf_def storedClass_def

text \<open>The order of a key and the data of a bound, in either reading of the key.\<close>

definition rowOrder ::
  "rangeClass \<Rightarrow> ('v, 'k) columns \<Rightarrow> 'v smiRow \<Rightarrow> 'k mtkRangeCallBack list \<Rightarrow> int" where
  "rowOrder cl cols row ds =
     (if storedClass cl then order4Stored cols row ds else order4Mtd cols row ds)"

definition entryOrder ::
  "rangeClass \<Rightarrow> ('v, 'k) columns \<Rightarrow> 'v smiRow \<Rightarrow> 'k mtkRangeCallBack \<Rightarrow> int" where
  "entryOrder cl cols row d = callCompare cols d
     (valueInfo (smValue (row (rcColumnIdx d)))
        (if storedClass cl then smLength (row (rcColumnIdx d)) else 0) False)"

lemma rowOrder_simps [simp]:
  "rowOrder cl cols row [] = 0"
  "rowOrder cl cols row (d # ds) =
     (if entryOrder cl cols row d = 0 then rowOrder cl cols row ds else entryOrder cl cols row d)"
  by (simp_all add: rowOrder_def entryOrder_def Let_def)

lemma rowOrder_append:
  "rowOrder cl cols row (ds @ es) =
     (if rowOrder cl cols row ds = 0 then rowOrder cl cols row es else rowOrder cl cols row ds)"
  by (induction ds) auto

lemma orderIndexKey_None: "orderIndexKey cols row None psize ds = (order4Mtd cols row ds, False)"
  by (induction ds) (auto simp: Let_def)

lemmas rangeCallBack_defs =
  rangeCallBackGE4Mtd_def rangeCallBackLE4Mtd_def rangeCallBackGT4Mtd_def rangeCallBackLT4Mtd_def
  rangeCallBackGE4Stored_def rangeCallBackLE4Stored_def rangeCallBackGT4Stored_def
  rangeCallBackLT4Stored_def rangeCallBackGE4IndexKey_def rangeCallBackLE4IndexKey_def
  rangeCallBackGT4IndexKey_def rangeCallBackLT4IndexKey_def

lemma callCallBack_class [simp]:
  "callCallBack cols row None p \<lparr> callback = geOf cl, cbData = ds \<rparr> = Some (rowOrder cl cols row ds \<ge> 0)"
  "callCallBack cols row None p \<lparr> callback = gtOf cl, cbData = ds \<rparr> = Some (rowOrder cl cols row ds > 0)"
  "callCallBack cols row None p \<lparr> callback = leOf cl, cbData = ds \<rparr> = Some (rowOrder cl cols row ds \<le> 0)"
  "callCallBack cols row None p \<lparr> callback = ltOf cl, cbData = ds \<rparr> = Some (rowOrder cl cols row ds < 0)"
  by (cases cl; simp add: classOf callCallBack_def rangeCallBack_defs orderIndexKey_None rowOrder_def)+

definition minOk :: "rangeClass \<Rightarrow> 'k smiCallBack \<Rightarrow> bool" where
  "minOk cl b \<longleftrightarrow> callback b = geOf cl \<or> callback b = gtOf cl"

definition maxOk :: "rangeClass \<Rightarrow> 'k smiCallBack \<Rightarrow> bool" where
  "maxOk cl b \<longleftrightarrow> callback b = leOf cl \<or> callback b = ltOf cl"

definition rangeOk :: "rangeClass \<Rightarrow> 'k smiRange \<Rightarrow> bool" where
  "rangeOk cl r \<longleftrightarrow> minOk cl (minimum r) \<and> maxOk cl (maximum r)"

text \<open>The side of a bound a key lies on: the rows a minimum admits, the rows a maximum excludes.\<close>

definition above :: "rangeClass \<Rightarrow> ('v, 'k) columns \<Rightarrow> 'v smiRow \<Rightarrow> 'k smiCallBack \<Rightarrow> bool" where
  "above cl cols row b \<longleftrightarrow>
     (if callback b = geOf cl \<or> callback b = ltOf cl then rowOrder cl cols row (cbData b) \<ge> 0
      else rowOrder cl cols row (cbData b) > 0)"

lemma class_distinct [simp]:
  "geOf cl \<noteq> gtOf cl" "geOf cl \<noteq> leOf cl" "geOf cl \<noteq> ltOf cl" "gtOf cl \<noteq> leOf cl"
  "gtOf cl \<noteq> ltOf cl" "leOf cl \<noteq> ltOf cl" "gtOf cl \<noteq> geOf cl" "leOf cl \<noteq> geOf cl"
  "ltOf cl \<noteq> geOf cl" "leOf cl \<noteq> gtOf cl" "ltOf cl \<noteq> gtOf cl" "ltOf cl \<noteq> leOf cl"
  by (cases cl; simp add: classOf)+

lemma callBack_above:
  "minOk cl b \<Longrightarrow> callCallBack cols row None p b = Some (above cl cols row b)"
  "maxOk cl b \<Longrightarrow> callCallBack cols row None p b = Some (\<not> above cl cols row b)"
  by (cases b; fastforce simp: minOk_def maxOk_def above_def)+

lemma inRange_above:
  "rangeOk cl r \<Longrightarrow> inRange cols row r \<longleftrightarrow>
     above cl cols row (minimum r) \<and> \<not> above cl cols row (maximum r)"
  by (simp add: rangeOk_def inRange_def callBack_above(1) [of cl] callBack_above(2) [of cl])

subsection \<open>Composite ranges and the not null range\<close>

lemma ge_class: "callback b = CbGE4Mtd \<or> callback b = CbGE4Stored \<or> callback b = CbGE4IndexKey
    \<longleftrightarrow> callback b = geOf cl" if "minOk cl b"
  using that by (cases cl) (auto simp: minOk_def classOf)

lemma le_class: "callback b = CbLE4Mtd \<or> callback b = CbLE4Stored \<or> callback b = CbLE4IndexKey
    \<longleftrightarrow> callback b = leOf cl" if "maxOk cl b"
  using that by (cases cl) (auto simp: maxOk_def classOf)

lemma above_composite:
  assumes "callback b = (if isMin then geOf cl else leOf cl)"
    and "if isMin then minOk cl c else maxOk cl c"
  shows "above cl cols row \<lparr> callback = callback c, cbData = cbData b @ cbData c \<rparr> \<longleftrightarrow>
    rowOrder cl cols row (cbData b) > 0 \<or>
    rowOrder cl cols row (cbData b) = 0 \<and> above cl cols row c"
  using assms by (auto simp: above_def rowOrder_append minOk_def maxOk_def split: if_splits)

lemma addCompositeRange_sel:
  assumes "rangeOk cl c"
  shows "minimum (addCompositeRange c r) =
      (if callback (minimum c) = geOf cl
       then \<lparr> callback = callback (minimum r), cbData = cbData (minimum c) @ cbData (minimum r) \<rparr>
       else minimum c)"
    and "maximum (addCompositeRange c r) =
      (if callback (maximum c) = leOf cl
       then \<lparr> callback = callback (maximum r), cbData = cbData (maximum c) @ cbData (maximum r) \<rparr>
       else maximum c)"
  using assms by (simp_all add: addCompositeRange_def rangeOk_def ge_class [of cl] le_class [of cl])

lemma addCompositeRange_ok: "rangeOk cl c \<Longrightarrow> rangeOk cl r \<Longrightarrow> rangeOk cl (addCompositeRange c r)"
  by (auto simp: rangeOk_def minOk_def maxOk_def addCompositeRange_sel)

lemma composite_above:
  assumes "rangeOk cl c" "rangeOk cl r"
  shows "above cl cols row (minimum (addCompositeRange c r)) \<longrightarrow> above cl cols row (minimum c)"
    and "above cl cols row (maximum c) \<longrightarrow> above cl cols row (maximum (addCompositeRange c r))"
    and "above cl cols row (minimum c) \<and> above cl cols row (minimum r)
      \<longrightarrow> above cl cols row (minimum (addCompositeRange c r))"
    and "above cl cols row (maximum (addCompositeRange c r)) \<longrightarrow>
      above cl cols row (maximum c) \<or> above cl cols row (maximum r)"
  using assms above_composite [of "minimum c" True cl "minimum r" cols row]
    above_composite [of "maximum c" False cl "maximum r" cols row]
  by (auto simp: addCompositeRange_sel [OF assms(1)] rangeOk_def above_def)

lemma composite_exact:
  assumes "rangeOk cl c" "rangeOk cl r"
    and "callback (minimum c) = geOf cl" "callback (maximum c) = leOf cl"
    and "cbData (minimum c) = cbData (maximum c)"
    and "inRange cols row (addCompositeRange c r)"
  shows "inRange cols row r"
  using assms above_composite [of "minimum c" True cl "minimum r" cols row]
    above_composite [of "maximum c" False cl "maximum r" cols row]
  by (auto simp: inRange_above [OF addCompositeRange_ok [OF assms(1,2)]] inRange_above [of cl]
      addCompositeRange_sel [OF assms(1)] rangeOk_def)

text \<open>A composite range keeps every key that lies in the range so far and in the range of the
  next column, and adds none that the range so far excludes; when the range so far pins its columns
  to one value (its bounds are inclusive and have the same data) the composite is the exact
  intersection.\<close>

theorem composite_range_sound:
  assumes "rangeOk cl c" "rangeOk cl r"
  shows "(inRange cols row c \<and> inRange cols row r \<longrightarrow> inRange cols row (addCompositeRange c r)) \<and>
    (inRange cols row (addCompositeRange c r) \<longrightarrow> inRange cols row c) \<and>
    (callback (minimum c) = geOf cl \<and> callback (maximum c) = leOf cl \<and>
      cbData (minimum c) = cbData (maximum c) \<longrightarrow>
      inRange cols row (addCompositeRange c r) = (inRange cols row c \<and> inRange cols row r))"
proof -
  note inR = inRange_above [OF assms(1)] inRange_above [OF assms(2)]
    inRange_above [OF addCompositeRange_ok [OF assms]]
  have 1: "inRange cols row c \<and> inRange cols row r \<longrightarrow> inRange cols row (addCompositeRange c r)"
    and 2: "inRange cols row (addCompositeRange c r) \<longrightarrow> inRange cols row c"
    using composite_above [OF assms, of cols row] by (auto simp: inR)
  show ?thesis
    using 1 2 composite_exact [OF assms, of cols row] by blast
qed

text \<open>C18: The range of \<open>IS NOT NULL\<close> holds the keys whose value is not null: values in memory, stored
  values and values of compressed columns of the variable length type \<open>VARCHAR\<close>, and values in
  memory and stored values of the fixed length type \<open>INTEGER\<close>.\<close>

theorem not_null_range:
  "(inRange (\<lambda>j. varcharMtdColumn (desc j)) rowM (extractNotNullRange MTDVAL_MTDVAL i k) \<longleftrightarrow>
      \<not> varcharIsNull (varcharForModule (smValue (rowM i)))) \<and>
    (storedOk c (rowS i) \<longrightarrow>
      (inRange (\<lambda>j. varcharStoredColumn (desc j) c dict) rowS (extractNotNullRange STOREDVAL_MTDVAL i k)
      \<longleftrightarrow> \<not> varcharIsNull (if c then dict (smValue (rowS i)) else smValue (rowS i)))) \<and>
    (inRange (\<lambda>j. integerMtdColumn (desc j)) rowI (extractNotNullRange MTDVAL_MTDVAL i k') \<longleftrightarrow>
      \<not> mtdIsNull (valueForModule (smValue (rowI i)))) \<and>
    (inRange (\<lambda>j. integerStoredColumn (desc j)) rowB (extractNotNullRange STOREDVAL_MTDVAL i k')
      \<longleftrightarrow> \<not> mtdIsNull (intOfBytes (smValue (rowB i))))"
proof -
  note d = inRange_def extractNotNullRange_def callCallBack_def rangeCallBack_defs callCompare_def
    compareMinimumLimit_def compareMaximumLimit4Mtd_def compareMaximumLimit4Stored_def
  have 1: "inRange (\<lambda>j. varcharMtdColumn (desc j)) rowM (extractNotNullRange MTDVAL_MTDVAL i k) \<longleftrightarrow>
      \<not> varcharIsNull (varcharForModule (smValue (rowM i)))"
    by (simp add: d varcharMtdColumn_def varcharForModule_def)
  have 2: "inRange (\<lambda>j. varcharStoredColumn (desc j) c dict) rowS (extractNotNullRange STOREDVAL_MTDVAL i k)
      \<longleftrightarrow> \<not> varcharIsNull (if c then dict (smValue (rowS i)) else smValue (rowS i))"
    if "storedOk c (rowS i)"
    using that by (auto simp: d varcharStoredColumn_def varcharForModule_def storedOk_def varcharIsNull_def)
  have 3: "inRange (\<lambda>j. integerMtdColumn (desc j)) rowI (extractNotNullRange MTDVAL_MTDVAL i k') \<longleftrightarrow>
      \<not> mtdIsNull (valueForModule (smValue (rowI i)))"
    by (simp add: d integerMtdColumn_def valueForModule_def)
  have "intOfBytes (smValue (rowB i)) = MTD_INTEGER_NULL \<longleftrightarrow>
      smValue (rowB i) = bytesOfInt MTD_INTEGER_NULL"
    by (metis bytesOfInt_intOfBytes intOfBytes_bytesOfInt)
  then have 4: "inRange (\<lambda>j. integerStoredColumn (desc j)) rowB
      (extractNotNullRange STOREDVAL_MTDVAL i k') \<longleftrightarrow> \<not> mtdIsNull (intOfBytes (smValue (rowB i)))"
    by (auto simp: d integerStoredColumn_def mtdIsNull_def)
  show ?thesis
    using 1 2 3 4 by blast
qed

theorem not_null_range_witness:
  "inRange (\<lambda>j. varcharStoredColumn False False (\<lambda>v. v)) (\<lambda>j. \<lparr> smValue = [65], smLength = 1 \<rparr>)
    (extractNotNullRange STOREDVAL_MTDVAL 0 None)"
  using not_null_range [where c = False and i = 0 and k = None and dict = "\<lambda>v. v"
      and desc = "\<lambda>_. False" and rowS = "\<lambda>j. \<lparr> smValue = [65], smLength = 1 \<rparr>"]
  by (simp add: storedOk_def varcharIsNull_def)

theorem composite_range_sound_witness:
  "inRange (\<lambda>j. integerMtdColumn False) (\<lambda>j. \<lparr> smValue = Some 5, smLength = 0 \<rparr>)
    (addCompositeRange
      \<lparr> minimum = \<lparr> callback = CbGE4Mtd, cbData = [\<lparr> rcSameGroup = False, rcColumnIdx = 0,
          rcCompare = KeyCompare, rcValue = Some 5 \<rparr>] \<rparr>,
        maximum = \<lparr> callback = CbLE4Mtd, cbData = [\<lparr> rcSameGroup = False, rcColumnIdx = 0,
          rcCompare = KeyCompare, rcValue = Some 5 \<rparr>] \<rparr> \<rparr>
      (extractNotNullRange MTDVAL_MTDVAL 1 None))"
  (is "inRange ?cols ?row (addCompositeRange ?c ?r)")
proof -
  have "rangeOk ForMtd ?c" "rangeOk ForMtd ?r"
    by (simp_all add: rangeOk_def minOk_def maxOk_def classOf extractNotNullRange_def)
  moreover have "inRange ?cols ?row ?c" "inRange ?cols ?row ?r"
    by (simp_all add: inRange_def callCallBack_def rangeCallBack_defs callCompare_def
        extractNotNullRange_def compareMinimumLimit_def compareMaximumLimit4Mtd_def
        integerMtdColumn_def valueForModule_def mtdIsNull_def mtdInteger_asc_agree
        mtdIntegerLogicalAscComp_def)
  ultimately show ?thesis
    using composite_range_sound [of ForMtd ?c ?r ?cols ?row] by blast
qed

subsection \<open>Direct keys\<close>

text \<open>
  A partial direct key has the length field and the first bytes of the value, \<open>psize\<close> bytes in all;
  what follows in memory is not part of the value.
\<close>

definition partialKeyOf :: "nat \<Rightarrow> mtdCharType \<Rightarrow> mtdCharType \<Rightarrow> bool" where
  "partialKeyOf psize v key \<longleftrightarrow>
     length key = length v \<and> take (psize - 2) key = take (psize - 2) v"

lemma partial_compare:
  assumes "partialKeyOf p v key" "2 < p" "length v < 65536" "length (varcharForModule k) < 65536"
  shows "keyCompare (varcharIndexKeyColumn desc) (valueInfo (Some key) p True) (keyInfo k) =
    varcharKey desc (take (p - 2) v) (take (p - 2) (varcharForModule k))"
proof -
  have p: "partialLength (valueInfo (Some key) p True) n = min n (p - 2)" if "n < 65536" for n
    using partialLength_on [of "valueInfo (Some key) p True" n] assms(2) that by simp
  show ?thesis
    using assms
    by (simp add: varcharIndexKeyColumn_def varcharKey_def partialKeyOf_def p Let_def
        mtdVarcharIndexKeyMtdKeyAscComp_def mtdVarcharIndexKeyMtdKeyDescComp_def
        varcharCompareAsc_take varcharCompareDesc_take varcharForModule_def min.commute
        flip: take_take)
qed

definition indexKeyCols :: "(nat \<Rightarrow> bool) \<Rightarrow> (mtdCharType option, mtdCharType option) columns" where
  "indexKeyCols desc j = varcharIndexKeyColumn (desc j)"

lemma indexKeyCols_null [simp]:
  "isNull (indexKeyCols desc j) v = varcharIsNull (varcharForModule v)"
  "columnValue (indexKeyCols desc j) v = Some (varcharForModule v)"
  "keyCompare (indexKeyCols desc j) (valueInfo v n False) (keyInfo k) =
     varcharKey (desc j) (varcharForModule v) (varcharForModule k)"
  by (simp_all add: indexKeyCols_def)
    (simp_all add: varcharIndexKeyColumn_def varcharMtdColumn_def)

lemma key_take':
  "varcharKey desc (take n a) (take n b) \<noteq> 0 \<Longrightarrow>
    varcharKey desc (take n a) (take n b) = varcharKey desc a b"
  using key_take [of n a b] by (cases desc) (simp_all add: varcharKey_def)

text \<open>The order of a partial direct key is that of the value, or undecided.\<close>

lemma partial_entry:
  assumes "rcCompare d \<noteq> MaximumLimit4Stored"
    and "v = varcharForModule (smValue (row (rcColumnIdx d)))"
    and "partialKeyOf p v key" "2 < p" "length v < 65536"
    and "length (varcharForModule (rcValue d)) < 65536"
  shows "callCompare (indexKeyCols desc) d (valueInfo (Some key) p True)
    \<in> {0, entryOrder ForIndexKey (indexKeyCols desc) row d}"
proof (cases "rcCompare d")
  case MinimumLimit
  then show ?thesis
    by (simp add: entryOrder_def callCompare_def compareMinimumLimit_def)
next
  case MaximumLimit4Mtd
  moreover have "key = [] \<longleftrightarrow> varcharForModule (smValue (row (rcColumnIdx d))) = []"
    using assms(2,3) by (metis partialKeyOf_def length_0_conv)
  moreover have "varcharForModule (Some x) = x" for x
    by (simp add: varcharForModule_def)
  ultimately show ?thesis
    by (simp add: entryOrder_def callCompare_def compareMaximumLimit4Mtd_def varcharIsNull_def)
next
  case MaximumLimit4Stored
  then show ?thesis
    using assms(1) by simp
next
  case KeyCompare
  then show ?thesis
    using partial_compare [OF assms(3-6), of "desc (rcColumnIdx d)"] assms(2)
      key_take' [of "desc (rcColumnIdx d)" "p - 2" v "varcharForModule (rcValue d)"]
    by (auto simp: entryOrder_def callCompare_def indexKeyCols_def)
qed

lemma indexKey_callBack:
  assumes "minOk ForIndexKey b \<or> maxOk ForIndexKey b"
  shows "callCallBack cols row dk p b = Some
    (case orderIndexKey cols row dk p (cbData b) of (sOrder, partial) \<Rightarrow>
       if partial then (if minOk ForIndexKey b then sOrder \<ge> 0 else sOrder \<le> 0)
       else (if callback b = CbGE4IndexKey then sOrder \<ge> 0
         else if callback b = CbGT4IndexKey then sOrder > 0
         else if callback b = CbLE4IndexKey then sOrder \<le> 0 else sOrder < 0))"
  using assms
  by (auto simp: minOk_def maxOk_def classOf callCallBack_def rangeCallBack_defs
      split: prod.splits bool.splits)



end
