(* ===== verification/RangeMerge.thy ===== *)
theory RangeMerge
  imports KeyRange "HOL-Library.Multiset"
begin

text \<open>
  The order of range bounds and the combination of ranges, \<open>src/src/mt/mtk/mtk.cpp\<close>:
  \<open>compareRange\<close>, \<open>mergeAndRangeDefault\<close>, \<open>mergeOrRangeListDefault\<close> and
  \<open>mergeOrRangeNotBetween\<close>.  A list of ranges stands for the doubly linked list the code writes into
  consecutive entries of the buffer \<open>aMerged\<close>.
\<close>

subsection \<open>The order of bounds\<close>

text \<open>The loop of \<open>compareRange\<close>: a result, or the lists that are left when one of them ends.\<close>

definition isMaxLimit :: "mtkCompare \<Rightarrow> bool" where
  "isMaxLimit c = (c = MaximumLimit4Mtd \<or> c = MaximumLimit4Stored)"

definition compareLimits :: "mtkCompare \<Rightarrow> mtkCompare \<Rightarrow> int" where
  "compareLimits c1 c2 =
     (if (c1 = MinimumLimit \<and> c2 \<noteq> MinimumLimit) \<or>
         (c1 \<noteq> MaximumLimit4Mtd \<and> c2 = MaximumLimit4Mtd) \<or>
         (c1 \<noteq> MaximumLimit4Stored \<and> c2 = MaximumLimit4Stored) then -1
      else if (c1 \<noteq> MinimumLimit \<and> c2 = MinimumLimit) \<or>
         (c1 = MaximumLimit4Mtd \<and> c2 \<noteq> MaximumLimit4Mtd) \<or>
         (c1 = MaximumLimit4Stored \<and> c2 \<noteq> MaximumLimit4Stored) then 1
      else 0)"

definition compareEntry ::
  "('v, 'k) columns \<Rightarrow> 'k mtkRangeCallBack \<Rightarrow> 'k mtkRangeCallBack \<Rightarrow> int" where
  "compareEntry cols d1 d2 =
     (if rcCompare d1 = MinimumLimit \<or> rcCompare d2 = MinimumLimit \<or>
         isMaxLimit (rcCompare d1) \<or> isMaxLimit (rcCompare d2)
      then compareLimits (rcCompare d1) (rcCompare d2)
      else
        (let sValueCompareFunc =
           (if rcSameGroup d1 \<or> rcSameGroup d2 then groupCompare (cols (rcColumnIdx d1))
            else valueCompare (cols (rcColumnIdx d1))) in
         sValueCompareFunc (keyInfo (rcValue d1)) (keyInfo (rcValue d2))))"

fun compareData :: "('v, 'k) columns \<Rightarrow> 'k mtkRangeCallBack list \<Rightarrow> 'k mtkRangeCallBack list \<Rightarrow>
    int + ('k mtkRangeCallBack list \<times> 'k mtkRangeCallBack list)" where
  "compareData cols (d1 # ds1) (d2 # ds2) =
     (let sResult = compareEntry cols d1 d2 in
      if sResult \<noteq> 0 then Inl sResult else compareData cols ds1 ds2)"
| "compareData cols ds1 ds2 = Inr (ds1, ds2)"

definition isGE :: "smiCallBackFunc \<Rightarrow> bool" where
  "isGE f = (f = CbGE4Mtd \<or> f = CbGE4Stored \<or> f = CbGE4IndexKey)"
definition isGT :: "smiCallBackFunc \<Rightarrow> bool" where
  "isGT f = (f = CbGT4Mtd \<or> f = CbGT4Stored \<or> f = CbGT4IndexKey)"
definition isLT :: "smiCallBackFunc \<Rightarrow> bool" where
  "isLT f = (f = CbLT4Mtd \<or> f = CbLT4Stored \<or> f = CbLT4IndexKey)"

definition compareRange :: "('v, 'k) columns \<Rightarrow> 'k smiCallBack \<Rightarrow> 'k smiCallBack \<Rightarrow> int" where
  "compareRange cols aCallBack1 aCallBack2 =
     (case compareData cols (cbData aCallBack1) (cbData aCallBack2) of
        Inl sResult \<Rightarrow> sResult
      | Inr (sCallBack1, sCallBack2) \<Rightarrow>
         (if sCallBack1 \<noteq> [] then
            (if isGE (callback aCallBack2) \<or> isLT (callback aCallBack2) then 1 else -1)
          else if sCallBack2 \<noteq> [] then
            (if isGE (callback aCallBack1) \<or> isLT (callback aCallBack2) then -1 else 1)
          else if callback aCallBack1 \<noteq> callback aCallBack2 then
            (if isLT (callback aCallBack1) then -1
             else if isLT (callback aCallBack2) then 1
             else if isGT (callback aCallBack1) then 1
             else if isGT (callback aCallBack2) then -1
             else if isGE (callback aCallBack1) then -1
             else 1)
          else 0))"

subsection \<open>Intersection\<close>

text \<open>The range that is left when two lists have nothing in common: above and below nothing.\<close>

definition emptyRange :: "'k \<Rightarrow> 'k smiRange" where
  "emptyRange noValue =
     (let sRangeCallBack = \<lparr> rcSameGroup = False, rcColumnIdx = 0, rcCompare = MinimumLimit,
        rcValue = noValue \<rparr> in
      \<lparr> minimum = \<lparr> callback = CbGT4Mtd, cbData = [sRangeCallBack] \<rparr>,
        maximum = \<lparr> callback = CbLT4Mtd, cbData = [sRangeCallBack] \<rparr> \<rparr>)"

function mergeAnd_loop ::
  "('v, 'k) columns \<Rightarrow> 'k smiRange list \<Rightarrow> 'k smiRange list \<Rightarrow> 'k smiRange list" where
  "mergeAnd_loop cols [] r2s = []"
| "mergeAnd_loop cols (r1 # r1s) [] = []"
| "mergeAnd_loop cols (r1 # r1s) (r2 # r2s) =
     (let (a1, a1s, a2, a2s) =
        (if compareRange cols (minimum r1) (minimum r2) > 0 then (r2, r2s, r1, r1s)
         else (r1, r1s, r2, r2s)) in
      if compareRange cols (maximum a1) (minimum a2) > 0 then
        (if compareRange cols (maximum a1) (maximum a2) < 0
         then \<lparr> minimum = minimum a2, maximum = maximum a1 \<rparr> # mergeAnd_loop cols a1s (a2 # a2s)
         else \<lparr> minimum = minimum a2, maximum = maximum a2 \<rparr> # mergeAnd_loop cols (a1 # a1s) a2s)
      else mergeAnd_loop cols a1s (a2 # a2s))"
  by pat_completeness auto
termination
  by (relation "measure (\<lambda>(_, r1s, r2s). length r1s + length r2s)") (auto split: if_splits)

definition mergeAndRangeDefault ::
  "('v, 'k) columns \<Rightarrow> 'k \<Rightarrow> 'k smiRange list \<Rightarrow> 'k smiRange list \<Rightarrow> 'k smiRange list" where
  "mergeAndRangeDefault cols noValue aRange1 aRange2 =
     (let merged = mergeAnd_loop cols aRange1 aRange2 in
      if merged = [] then [emptyRange noValue] else merged)"

subsection \<open>Union\<close>

text \<open>\<open>qsort\<close> of the C library by \<open>compareMinimum\<close>: a permutation in ascending order.\<close>

definition compareMinimum :: "('v, 'k) columns \<Rightarrow> 'k smiRange \<Rightarrow> 'k smiRange \<Rightarrow> int" where
  "compareMinimum cols r s = compareRange cols (minimum r) (minimum s)"

primrec insertRange :: "('v, 'k) columns \<Rightarrow> 'k smiRange \<Rightarrow> 'k smiRange list \<Rightarrow> 'k smiRange list" where
  "insertRange cols r [] = [r]"
| "insertRange cols r (s # rs) =
     (if compareMinimum cols r s \<le> 0 then r # s # rs else s # insertRange cols r rs)"

definition qsortRanges :: "('v, 'k) columns \<Rightarrow> 'k smiRange list \<Rightarrow> 'k smiRange list" where
  "qsortRanges cols rs = foldr (insertRange cols) rs []"

text \<open>The loop: the entry \<open>m\<close> of the buffer being filled, and the sorted ranges to come.\<close>

fun mergeOr_loop ::
  "('v, 'k) columns \<Rightarrow> 'k smiRange \<Rightarrow> 'k smiRange list \<Rightarrow> 'k smiRange list" where
  "mergeOr_loop cols m [] = [m]"
| "mergeOr_loop cols m (r # rs) =
     (if compareRange cols (maximum m) (minimum r) \<ge> 0 then
        (if compareRange cols (maximum m) (maximum r) < 0
         then mergeOr_loop cols (m \<lparr> maximum := maximum r \<rparr>) rs
         else mergeOr_loop cols m rs)
      else m # mergeOr_loop cols \<lparr> minimum = minimum r, maximum = maximum r \<rparr> rs)"

text \<open>The array must not be empty: the code reads its first entry.\<close>

definition mergeOrRangeListDefault ::
  "('v, 'k) columns \<Rightarrow> 'k smiRange list \<Rightarrow> 'k smiRange list option" where
  "mergeOrRangeListDefault cols aRangeListArray =
     (case qsortRanges cols aRangeListArray of
        [] \<Rightarrow> None
      | r # rs \<Rightarrow> Some (mergeOr_loop cols \<lparr> minimum = minimum r, maximum = maximum r \<rparr> rs))"

text \<open>The two lists of \<open>NOT BETWEEN\<close> are each in order.  \<open>addMerged\<close> is the body of the three loops.\<close>

definition addMerged ::
  "('v, 'k) columns \<Rightarrow> 'k smiRange list \<times> 'k smiRange \<Rightarrow> 'k smiRange \<Rightarrow> 'k smiRange list \<times> 'k smiRange" where
  "addMerged cols acc r =
     (let (out, m) = acc in
      if compareRange cols (maximum m) (minimum r) < 0
      then (out @ [m], \<lparr> minimum = minimum r, maximum = maximum r \<rparr>)
      else if compareRange cols (maximum m) (maximum r) < 0
      then (out, m \<lparr> maximum := maximum r \<rparr>)
      else (out, m))"

fun notBetween_loop :: "('v, 'k) columns \<Rightarrow> 'k smiRange list \<times> 'k smiRange \<Rightarrow>
    'k smiRange list \<Rightarrow> 'k smiRange list \<Rightarrow> 'k smiRange list \<times> 'k smiRange" where
  "notBetween_loop cols acc (r1 # r1s) (r2 # r2s) =
     (if compareRange cols (minimum r1) (minimum r2) < 0
      then notBetween_loop cols (addMerged cols acc r1) r1s (r2 # r2s)
      else notBetween_loop cols (addMerged cols acc r2) (r1 # r1s) r2s)"
| "notBetween_loop cols acc r1s [] = foldl (addMerged cols) acc r1s"
| "notBetween_loop cols acc [] r2s = foldl (addMerged cols) acc r2s"

definition mergeOrRangeNotBetween ::
  "('v, 'k) columns \<Rightarrow> 'k smiRange list \<Rightarrow> 'k smiRange list \<Rightarrow> 'k smiRange list option" where
  "mergeOrRangeNotBetween cols aRange1 aRange2 =
     (case (aRange1, aRange2) of
        (r1 # r1s, r2 # r2s) \<Rightarrow>
          (let (s, r1s', r2s') =
             (if compareRange cols (minimum r1) (minimum r2) < 0 then (r1, r1s, r2 # r2s)
              else (r2, r1 # r1s, r2s));
             (out, m) = notBetween_loop cols ([], \<lparr> minimum = minimum s, maximum = maximum s \<rparr>) r1s' r2s' in
           Some (out @ [m]))
      | _ \<Rightarrow> None)"

subsection \<open>Bounds the order is meant for\<close>

text \<open>The entries of a bound are limits of the class or keys that are not null, on the first columns
  of the index.\<close>

definition okEntry :: "rangeClass \<Rightarrow> ('v, 'k) columns \<Rightarrow> 'k mtkRangeCallBack \<Rightarrow> bool" where
  "okEntry cl cols d = (case rcCompare d of
      MinimumLimit \<Rightarrow> True
    | MaximumLimit4Mtd \<Rightarrow> \<not> storedClass cl
    | MaximumLimit4Stored \<Rightarrow> storedClass cl
    | KeyCompare \<Rightarrow> \<not> isNull (cols (rcColumnIdx d)) (rcValue d))"

definition okBound ::
  "rangeClass \<Rightarrow> ('v, 'k) columns \<Rightarrow> nat list \<Rightarrow> 'k smiCallBack \<Rightarrow> bool" where
  "okBound cl cols ks b \<longleftrightarrow> (minOk cl b \<or> maxOk cl b) \<and> list_all (okEntry cl cols) (cbData b) \<and>
     map rcColumnIdx (cbData b) = take (length (cbData b)) ks"

text \<open>
  Where one bound has fewer columns than another, \<open>compareRange\<close> decides by the callbacks, and one
  of its tests looks at the wrong bound: it is right when the shorter bound is a \<open>GE\<close>, or both or
  neither of the two are \<open>LT\<close>.
\<close>

definition comparable :: "'k smiCallBack \<Rightarrow> 'k smiCallBack \<Rightarrow> bool" where
  "comparable b1 b2 \<longleftrightarrow> (if length (cbData b1) < length (cbData b2)
     then isGE (callback b1) \<or> isLT (callback b1) = isLT (callback b2) else True)"

definition boundsOf :: "'k smiRange list \<Rightarrow> 'k smiCallBack list" where
  "boundsOf rs = map minimum rs @ map maximum rs"

definition okRanges ::
  "rangeClass \<Rightarrow> ('v, 'k) columns \<Rightarrow> nat list \<Rightarrow> 'k smiRange list \<Rightarrow> bool" where
  "okRanges cl cols ks rs \<longleftrightarrow> list_all (rangeOk cl) rs \<and> list_all (okBound cl cols ks) (boundsOf rs) \<and>
     list_all (\<lambda>b. list_all (comparable b) (boundsOf rs)) (boundsOf rs)"

lemma isGE_iff: "minOk cl b \<or> maxOk cl b \<Longrightarrow> isGE (callback b) \<longleftrightarrow> callback b = geOf cl"
  by (cases cl) (auto simp: minOk_def maxOk_def classOf isGE_def)

lemma isGT_iff: "minOk cl b \<or> maxOk cl b \<Longrightarrow> isGT (callback b) \<longleftrightarrow> callback b = gtOf cl"
  by (cases cl) (auto simp: minOk_def maxOk_def classOf isGT_def)

lemma isLT_iff: "minOk cl b \<or> maxOk cl b \<Longrightarrow> isLT (callback b) \<longleftrightarrow> callback b = ltOf cl"
  by (cases cl) (auto simp: minOk_def maxOk_def classOf isLT_def)

lemma kinds_class [simp]:
  "isGE (geOf cl)" "\<not> isGE (gtOf cl)" "\<not> isGE (leOf cl)" "\<not> isGE (ltOf cl)"
  "\<not> isGT (geOf cl)" "isGT (gtOf cl)" "\<not> isGT (leOf cl)" "\<not> isGT (ltOf cl)"
  "\<not> isLT (geOf cl)" "\<not> isLT (gtOf cl)" "\<not> isLT (leOf cl)" "isLT (ltOf cl)"
  by (cases cl; simp add: classOf isGE_def isGT_def isLT_def)+

lemma classCases: "minOk cl b \<or> maxOk cl b \<Longrightarrow>
    callback b = geOf cl \<or> callback b = gtOf cl \<or> callback b = leOf cl \<or> callback b = ltOf cl"
  by (auto simp: minOk_def maxOk_def)

text \<open>Lists whose ranges ascend, by the order of their bounds: by their starts only, and with every
  range ending below the start of the next.\<close>

fun startsAscend :: "('v, 'k) columns \<Rightarrow> 'k smiRange list \<Rightarrow> bool" where
  "startsAscend cols (r # s # rs) \<longleftrightarrow>
     compareRange cols (minimum r) (minimum s) \<le> 0 \<and> startsAscend cols (s # rs)"
| "startsAscend cols _ \<longleftrightarrow> True"

fun inOrder :: "('v, 'k) columns \<Rightarrow> 'k smiRange list \<Rightarrow> bool" where
  "inOrder cols (r # s # rs) \<longleftrightarrow>
     compareRange cols (maximum r) (minimum s) \<le> 0 \<and>
     compareRange cols (minimum r) (minimum s) \<le> 0 \<and> inOrder cols (s # rs)"
| "inOrder cols _ \<longleftrightarrow> True"

text \<open>The order in which \<open>mergeOrRangeNotBetween\<close> takes the ranges of its two lists.\<close>

fun mergeLists ::
  "('v, 'k) columns \<Rightarrow> 'k smiRange list \<Rightarrow> 'k smiRange list \<Rightarrow> 'k smiRange list" where
  "mergeLists cols (r1 # r1s) (r2 # r2s) =
     (if compareRange cols (minimum r1) (minimum r2) < 0 then r1 # mergeLists cols r1s (r2 # r2s)
      else r2 # mergeLists cols (r1 # r1s) r2s)"
| "mergeLists cols r1s [] = r1s"
| "mergeLists cols [] r2s = r2s"

lemma mergeLists_Nil [simp]: "mergeLists cols [] r2s = r2s" "mergeLists cols r1s [] = r1s"
  by (cases r2s; simp) (cases r1s; simp)

lemma set_mergeLists [simp]: "set (mergeLists cols r1s r2s) = set r1s \<union> set r2s"
  by (induction cols r1s r2s rule: mergeLists.induct) auto

lemma addMerged_loop:
  "foldl (addMerged cols) (out, m) rs = (out', m') \<Longrightarrow> out' @ [m'] = out @ mergeOr_loop cols m rs"
  by (induction rs arbitrary: out m) (auto simp: addMerged_def split: if_splits)

lemma notBetween_foldl:
  "notBetween_loop cols acc r1s r2s = foldl (addMerged cols) acc (mergeLists cols r1s r2s)"
  by (induction cols acc r1s r2s rule: notBetween_loop.induct) auto

lemma mergeOrRangeNotBetween_eq:
  "mergeOrRangeNotBetween cols r1s r2s =
     (if r1s = [] \<or> r2s = [] then None
      else Some (mergeOr_loop cols \<lparr> minimum = minimum (hd (mergeLists cols r1s r2s)),
          maximum = maximum (hd (mergeLists cols r1s r2s)) \<rparr> (tl (mergeLists cols r1s r2s))))"
proof (cases "r1s = [] \<or> r2s = []")
  case False
  then obtain x xs y ys where "r1s = x # xs" "r2s = y # ys"
    by (meson neq_Nil_conv)
  then show ?thesis
    by (auto simp: mergeOrRangeNotBetween_def notBetween_foldl Let_def dest: addMerged_loop
        split: prod.splits)
qed (auto simp: mergeOrRangeNotBetween_def split: list.splits)

lemma set_insertRange [simp]: "set (insertRange cols r rs) = insert r (set rs)"
  by (induction rs) auto

lemma set_qsortRanges [simp]: "set (qsortRanges cols rs) = set rs"
  unfolding qsortRanges_def by (induction rs) auto

lemma mset_qsortRanges: "mset (qsortRanges cols rs) = mset rs"
proof -
  have "mset (insertRange cols r ss) = add_mset r (mset ss)" for r ss
    by (induction ss) auto
  then show ?thesis
    unfolding qsortRanges_def by (induction rs) auto
qed

lemma mergeAnd_all:
  "list_all (\<lambda>r. P (minimum r) \<and> Q (maximum r)) r1s \<Longrightarrow>
   list_all (\<lambda>r. P (minimum r) \<and> Q (maximum r)) r2s \<Longrightarrow>
   list_all (\<lambda>r. P (minimum r) \<and> Q (maximum r)) (mergeAnd_loop cols r1s r2s)"
  by (induction cols r1s r2s rule: mergeAnd_loop.induct) (simp_all add: Let_def)

lemma mergeOr_all:
  "P (minimum m) \<and> Q (maximum m) \<Longrightarrow>
   list_all (\<lambda>r. P (minimum r) \<and> Q (maximum r)) rs \<Longrightarrow>
   list_all (\<lambda>r. P (minimum r) \<and> Q (maximum r)) (mergeOr_loop cols m rs)"
  by (induction cols m rs rule: mergeOr_loop.induct) simp_all

lemma rangeOk_all: "rangeOk cl = (\<lambda>r. minOk cl (minimum r) \<and> maxOk cl (maximum r))"
  by (simp add: fun_eq_iff rangeOk_def)

subsection \<open>The contract of a type's columns\<close>

text \<open>
  What range comparison relies on: the module's key comparison is a key order, the comparison of a
  column value with a key is that of the value it reads as, and the null tests of the limits agree
  with the module's.  \<open>real\<close> says what a column value reads as and \<open>okVal\<close> which representations the
  storage manager hands over.
\<close>

locale range_columns =
  fixes cl :: rangeClass
    and cols :: "('v, 'k) columns"
    and real :: "nat \<Rightarrow> 'v smiValue \<Rightarrow> 'k"
    and okVal :: "nat \<Rightarrow> 'v smiValue \<Rightarrow> bool"
  assumes column: "key_order (keyOrd (cols i)) (isNull (cols i))"
    and group: "groupCompare (cols i) = valueCompare (cols i)"
    and value_compare: "okVal i x \<Longrightarrow>
      keyCompare (cols i) (valueInfo (smValue x) (if storedClass cl then smLength x else 0) False)
        (keyInfo k) = keyOrd (cols i) (real i x) k"
    and mtd_null: "\<not> storedClass cl \<Longrightarrow> okVal i x \<Longrightarrow>
      isNull (cols i) (columnValue (cols i) (smValue x)) = isNull (cols i) (real i x)"
    and stored_null: "storedClass cl \<Longrightarrow> okVal i x \<Longrightarrow>
      compareMaximumLimit4Stored (cols i) (valueInfo (smValue x) (smLength x) False) =
        (if isNull (cols i) (real i x) then 0 else -1)"
begin

lemma entryOrder_cases:
  assumes "okEntry cl cols d" "okVal (rcColumnIdx d) (row (rcColumnIdx d))"
  shows "entryOrder cl cols row d =
    (case rcCompare d of
       MinimumLimit \<Rightarrow> 1
     | KeyCompare \<Rightarrow> keyOrd (cols (rcColumnIdx d))
         (real (rcColumnIdx d) (row (rcColumnIdx d))) (rcValue d)
     | _ \<Rightarrow> (if isNull (cols (rcColumnIdx d)) (real (rcColumnIdx d) (row (rcColumnIdx d)))
            then 0 else -1))"
  using assms mtd_null [OF _ assms(2)] stored_null [OF _ assms(2)] value_compare [OF assms(2)]
  by (cases "rcCompare d")
    (auto simp: okEntry_def entryOrder_def callCompare_def compareMinimumLimit_def
      compareMaximumLimit4Mtd_def)

lemma entry_order:
  assumes "okEntry cl cols d1" "okEntry cl cols d2" "rcColumnIdx d1 = rcColumnIdx d2"
    and "okVal (rcColumnIdx d1) (row (rcColumnIdx d1))"
  shows "(compareEntry cols d1 d2 < 0 \<longrightarrow> entryOrder cl cols row d2 \<ge> 0 \<longrightarrow> entryOrder cl cols row d1 > 0) \<and>
    (compareEntry cols d1 d2 > 0 \<longrightarrow> entryOrder cl cols row d1 \<ge> 0 \<longrightarrow> entryOrder cl cols row d2 > 0) \<and>
    (compareEntry cols d1 d2 = 0 \<longrightarrow> sgn (entryOrder cl cols row d1) = sgn (entryOrder cl cols row d2))"
proof -
  let ?c = "cols (rcColumnIdx d1)"
  let ?v = "real (rcColumnIdx d1) (row (rcColumnIdx d1))"
  note e = entryOrder_cases [where row = row, OF assms(1,4)]
    entryOrder_cases [where row = row, OF assms(2) assms(4) [unfolded assms(3)], folded assms(3)]
  note ko = column [of "rcColumnIdx d1"]
  have null: "keyOrd ?c ?v k > 0" if "isNull ?c ?v" "\<not> isNull ?c k" for k
    using key_order.null_last [OF ko] that by blast
  have keys: "keyOrd ?c k1 k2 < 0 \<Longrightarrow> keyOrd ?c ?v k2 \<ge> 0 \<Longrightarrow> keyOrd ?c ?v k1 > 0"
    "keyOrd ?c k1 k2 > 0 \<Longrightarrow> keyOrd ?c ?v k1 \<ge> 0 \<Longrightarrow> keyOrd ?c ?v k2 > 0"
    "keyOrd ?c k1 k2 = 0 \<Longrightarrow> sgn (keyOrd ?c ?v k1) = sgn (keyOrd ?c ?v k2)" for k1 k2
    using key_order.cmp_above [OF ko, of k1 k2 ?v] key_order.cmp_above [OF ko, of k2 k1 ?v]
      key_order.cmp_eq_left [OF ko, of k1 k2 ?v] key_order.cmp_flip [OF ko, of k2 k1]
    by blast+
  show ?thesis
  proof (cases "rcCompare d1 = KeyCompare \<and> rcCompare d2 = KeyCompare")
    case True
    then have "compareEntry cols d1 d2 = keyOrd ?c (rcValue d1) (rcValue d2)"
      by (simp add: compareEntry_def isMaxLimit_def keyOrd_def group)
    then show ?thesis
      using keys [of "rcValue d1" "rcValue d2"] True by (simp add: e assms(3) [symmetric])
  next
    case False
    then show ?thesis
      using assms(1,2) null [of "rcValue d1"] null [of "rcValue d2"]
      by (cases "rcCompare d1"; cases "rcCompare d2")
        (simp_all add: e okEntry_def assms(3) [symmetric] compareEntry_def compareLimits_def
          isMaxLimit_def)
  qed
qed

lemma data_order:
  assumes "list_all (okEntry cl cols) ds1" "list_all (okEntry cl cols) ds2"
    and "map rcColumnIdx ds1 = take (length ds1) ks" "map rcColumnIdx ds2 = take (length ds2) ks"
    and "\<And>i. i \<in> set ks \<Longrightarrow> okVal i (row i)"
  shows "case compareData cols ds1 ds2 of
      Inl r \<Rightarrow> (r < 0 \<and> (rowOrder cl cols row ds2 \<ge> 0 \<longrightarrow> rowOrder cl cols row ds1 > 0)) \<or>
        (r > 0 \<and> (rowOrder cl cols row ds1 \<ge> 0 \<longrightarrow> rowOrder cl cols row ds2 > 0))
    | Inr (es1, es2) \<Rightarrow>
        (es1 = [] \<or> es2 = []) \<and> length ds1 - length ds2 = length es1 \<and>
        length ds2 - length ds1 = length es2 \<and>
        (es2 = [] \<longrightarrow> (rowOrder cl cols row ds2 > 0 \<longrightarrow> rowOrder cl cols row ds1 > 0) \<and>
          (rowOrder cl cols row ds2 < 0 \<longrightarrow> rowOrder cl cols row ds1 < 0)) \<and>
        (es1 = [] \<longrightarrow> (rowOrder cl cols row ds1 > 0 \<longrightarrow> rowOrder cl cols row ds2 > 0) \<and>
          (rowOrder cl cols row ds1 < 0 \<longrightarrow> rowOrder cl cols row ds2 < 0))"
  using assms
proof (induction ds1 arbitrary: ds2 ks)
  case Nil
  then show ?case
    by (cases ds2) auto
next
  case (Cons d1 ds1)
  note prems = Cons.prems
  show ?case
  proof (cases ds2)
    case Nil
    then show ?thesis by auto
  next
    case (Cons d2 es)
    obtain k ks' where ks: "ks = k # ks'"
      using prems(3) by (cases ks) auto
    have idx: "rcColumnIdx d1 = k" "rcColumnIdx d2 = k"
      using prems(3,4) by (simp_all add: ks Cons)
    have "okVal k (row k)"
      using prems(5) [of k] ks by simp
    then have e: "(compareEntry cols d1 d2 < 0 \<longrightarrow> entryOrder cl cols row d2 \<ge> 0 \<longrightarrow> entryOrder cl cols row d1 > 0) \<and>
      (compareEntry cols d1 d2 > 0 \<longrightarrow> entryOrder cl cols row d1 \<ge> 0 \<longrightarrow> entryOrder cl cols row d2 > 0) \<and>
      (compareEntry cols d1 d2 = 0 \<longrightarrow> sgn (entryOrder cl cols row d1) = sgn (entryOrder cl cols row d2))"
      using entry_order [of d1 d2 row] prems(1,2) idx by (simp add: Cons)
    show ?thesis
    proof (cases "compareEntry cols d1 d2 = 0")
      case True
      then have "sgn (entryOrder cl cols row d1) = sgn (entryOrder cl cols row d2)"
        using e by blast
      then have s: "entryOrder cl cols row d1 > 0 \<longleftrightarrow> entryOrder cl cols row d2 > 0"
        "entryOrder cl cols row d1 < 0 \<longleftrightarrow> entryOrder cl cols row d2 < 0"
        by (metis sgn_greater, metis sgn_less)
      have "case compareData cols ds1 es of
          Inl r \<Rightarrow> (r < 0 \<and> (rowOrder cl cols row es \<ge> 0 \<longrightarrow> rowOrder cl cols row ds1 > 0)) \<or>
            (r > 0 \<and> (rowOrder cl cols row ds1 \<ge> 0 \<longrightarrow> rowOrder cl cols row es > 0))
        | Inr (es1, es2) \<Rightarrow>
            (es1 = [] \<or> es2 = []) \<and> length ds1 - length es = length es1 \<and>
            length es - length ds1 = length es2 \<and>
            (es2 = [] \<longrightarrow> (rowOrder cl cols row es > 0 \<longrightarrow> rowOrder cl cols row ds1 > 0) \<and>
              (rowOrder cl cols row es < 0 \<longrightarrow> rowOrder cl cols row ds1 < 0)) \<and>
            (es1 = [] \<longrightarrow> (rowOrder cl cols row ds1 > 0 \<longrightarrow> rowOrder cl cols row es > 0) \<and>
              (rowOrder cl cols row ds1 < 0 \<longrightarrow> rowOrder cl cols row es < 0))"
        using Cons.IH [of es ks'] prems by (simp add: ks Cons)
      then show ?thesis
        using s True by (auto simp: Cons split: sum.splits)
    next
      case False
      then show ?thesis
        using e by (auto simp: Cons)
    qed
  qed
qed

definition rowOk :: "nat list \<Rightarrow> 'v smiRow \<Rightarrow> bool" where
  "rowOk ks row \<longleftrightarrow> (\<forall>i\<in>set ks. okVal i (row i))"

text \<open>\<open>compareRange\<close> orders bounds as cuts: what lies above the greater lies above the lesser.\<close>

lemma compareRange_above:
  assumes "okBound cl cols ks b1" "okBound cl cols ks b2" "comparable b1 b2" "rowOk ks row"
  shows "(compareRange cols b1 b2 \<le> 0 \<longrightarrow> above cl cols row b2 \<longrightarrow> above cl cols row b1) \<and>
    (compareRange cols b1 b2 \<ge> 0 \<longrightarrow> above cl cols row b1 \<longrightarrow> above cl cols row b2)"
proof -
  have ok1: "minOk cl b1 \<or> maxOk cl b1" and ok2: "minOk cl b2 \<or> maxOk cl b2"
    using assms(1,2) by (auto simp: okBound_def)
  note kinds = isGE_iff [OF ok1] isGE_iff [OF ok2] isGT_iff [OF ok1] isGT_iff [OF ok2]
    isLT_iff [OF ok1] isLT_iff [OF ok2]
  have data: "case compareData cols (cbData b1) (cbData b2) of
      Inl r \<Rightarrow> (r < 0 \<and> (rowOrder cl cols row (cbData b2) \<ge> 0 \<longrightarrow> rowOrder cl cols row (cbData b1) > 0)) \<or>
        (r > 0 \<and> (rowOrder cl cols row (cbData b1) \<ge> 0 \<longrightarrow> rowOrder cl cols row (cbData b2) > 0))
    | Inr (es1, es2) \<Rightarrow>
        (es1 = [] \<or> es2 = []) \<and> length (cbData b1) - length (cbData b2) = length es1 \<and>
        length (cbData b2) - length (cbData b1) = length es2 \<and>
        (es2 = [] \<longrightarrow> (rowOrder cl cols row (cbData b2) > 0 \<longrightarrow> rowOrder cl cols row (cbData b1) > 0) \<and>
          (rowOrder cl cols row (cbData b2) < 0 \<longrightarrow> rowOrder cl cols row (cbData b1) < 0)) \<and>
        (es1 = [] \<longrightarrow> (rowOrder cl cols row (cbData b1) > 0 \<longrightarrow> rowOrder cl cols row (cbData b2) > 0) \<and>
          (rowOrder cl cols row (cbData b1) < 0 \<longrightarrow> rowOrder cl cols row (cbData b2) < 0))"
    using data_order [of "cbData b1" "cbData b2" ks row] assms by (simp add: okBound_def rowOk_def)
  show ?thesis
  proof (cases "compareData cols (cbData b1) (cbData b2)")
    case (Inl r)
    then show ?thesis
      using data by (auto simp: compareRange_def above_def split: if_splits)
  next
    case (Inr es)
    obtain es1 es2 where es: "es = (es1, es2)"
      by (cases es) auto
    let ?o1 = "rowOrder cl cols row (cbData b1)" and ?o2 = "rowOrder cl cols row (cbData b2)"
    have e: "es1 = [] \<or> es2 = []"
      and len: "length (cbData b2) - length (cbData b1) = length es2"
      and e2: "es2 = [] \<Longrightarrow> (?o2 > 0 \<longrightarrow> ?o1 > 0) \<and> (?o2 < 0 \<longrightarrow> ?o1 < 0)"
      and e1: "es1 = [] \<Longrightarrow> (?o1 > 0 \<longrightarrow> ?o2 > 0) \<and> (?o1 < 0 \<longrightarrow> ?o2 < 0)"
      using data by (auto simp: Inr es)
    consider "es1 \<noteq> []" "es2 = []" | "es1 = []" "es2 \<noteq> []" | "es1 = []" "es2 = []"
      using e by blast
    then show ?thesis
    proof cases
      case 1
      then show ?thesis
        using e2 by (auto simp: compareRange_def above_def Inr es kinds not_le)
    next
      case 2
      have "length (cbData b1) < length (cbData b2)"
        using len 2(2) by (cases es2) auto
      then have "isGE (callback b1) \<or> isLT (callback b1) = isLT (callback b2)"
        using assms(3) by (simp add: comparable_def)
      then show ?thesis
        using 2 e1 by (auto simp: compareRange_def above_def Inr es kinds not_le)
    next
      case 3
      have s: "?o1 > 0 \<longleftrightarrow> ?o2 > 0" "?o1 \<ge> 0 \<longleftrightarrow> ?o2 \<ge> 0"
        using e1 [OF 3(1)] e2 [OF 3(2)] by linarith+
      show ?thesis
        using classCases [OF ok1] classCases [OF ok2]
        by (elim disjE) (simp_all add: compareRange_def above_def Inr es kinds 3 s)
    qed
  qed
qed

text \<open>Ranges with bounds of the class, in terms of the side of a bound a row lies on.\<close>

abbreviation ab :: "'v smiRow \<Rightarrow> 'k smiCallBack \<Rightarrow> bool" where
  "ab \<equiv> above cl cols"

definition goodBounds :: "nat list \<Rightarrow> 'k smiCallBack set \<Rightarrow> bool" where
  "goodBounds ks B \<longleftrightarrow> (\<forall>b\<in>B. okBound cl cols ks b) \<and> (\<forall>b1\<in>B. \<forall>b2\<in>B. comparable b1 b2)"

lemma goodBounds_subset: "goodBounds ks B \<Longrightarrow> A \<subseteq> B \<Longrightarrow> goodBounds ks A"
  unfolding goodBounds_def by (meson subsetD)

lemma cut_le:
  "goodBounds ks B \<Longrightarrow> rowOk ks row \<Longrightarrow> b1 \<in> B \<Longrightarrow> b2 \<in> B \<Longrightarrow>
    compareRange cols b1 b2 \<le> 0 \<Longrightarrow> ab row b2 \<Longrightarrow> ab row b1"
  using compareRange_above [of ks b1 b2 row] by (auto simp: goodBounds_def)

lemma cut_ge:
  "goodBounds ks B \<Longrightarrow> rowOk ks row \<Longrightarrow> b1 \<in> B \<Longrightarrow> b2 \<in> B \<Longrightarrow>
    compareRange cols b1 b2 \<ge> 0 \<Longrightarrow> ab row b1 \<Longrightarrow> ab row b2"
  using compareRange_above [of ks b1 b2 row] by (auto simp: goodBounds_def)

definition inR :: "'v smiRow \<Rightarrow> 'k smiRange \<Rightarrow> bool" where
  "inR row r \<longleftrightarrow> ab row (minimum r) \<and> \<not> ab row (maximum r)"

definition inRs :: "'v smiRow \<Rightarrow> 'k smiRange list \<Rightarrow> bool" where
  "inRs row rs \<longleftrightarrow> (\<exists>r\<in>set rs. inR row r)"

lemma inRs_simps [simp]:
  "\<not> inRs row []" "inRs row (r # rs) \<longleftrightarrow> inR row r \<or> inRs row rs"
  "inRs row (rs @ ss) \<longleftrightarrow> inRs row rs \<or> inRs row ss"
  by (auto simp: inRs_def)

lemma inRs_inRanges: "list_all (rangeOk cl) rs \<Longrightarrow> inRanges cols row rs \<longleftrightarrow> inRs row rs"
  by (induction rs) (auto simp: inRanges_def inR_def inRange_above [of cl])

abbreviation bnds :: "'k smiRange list \<Rightarrow> 'k smiCallBack set" where
  "bnds rs \<equiv> minimum ` set rs \<union> maximum ` set rs"

lemma okRanges_good: "okRanges cl cols ks rs \<Longrightarrow> goodBounds ks (bnds rs)"
  by (auto simp: okRanges_def goodBounds_def boundsOf_def list_all_iff)

text \<open>Lists in order: later ranges start above the earlier ones, so a row above a later start is
  above the ends of the earlier ranges.\<close>

fun ordered :: "'v smiRow \<Rightarrow> 'k smiRange list \<Rightarrow> bool" where
  "ordered row (r # s # rs) \<longleftrightarrow>
     (ab row (minimum s) \<longrightarrow> ab row (maximum r) \<and> ab row (minimum r)) \<and> ordered row (s # rs)"
| "ordered row _ \<longleftrightarrow> True"

lemma ordered_Cons: "ordered row (r # rs) \<Longrightarrow> ordered row rs"
  by (cases rs) auto

lemma ordered_start: "ordered row (r # rs) \<Longrightarrow> inRs row rs \<Longrightarrow> ab row (maximum r) \<and> ab row (minimum r)"
proof (induction rs arbitrary: r)
  case (Cons s rs)
  then have "inR row s \<or> ab row (minimum s)"
    by auto
  then show ?case
    using Cons.prems(1) by (auto simp: inR_def)
qed simp

lemma inter_step:
  assumes good: "goodBounds ks B" "rowOk ks row" and B: "bnds (r # rs) \<subseteq> B" "bnds (s # ss) \<subseteq> B"
    and ord: "ordered row (r # rs)" "ordered row (s # ss)"
    and mins: "ab row (minimum s) \<Longrightarrow> ab row (minimum r)"
    and M1: "inRs row M1 \<longleftrightarrow> inRs row rs \<and> inRs row (s # ss)"
    and M2: "inRs row M2 \<longleftrightarrow> inRs row (r # rs) \<and> inRs row ss"
  shows "inRs row
      (if compareRange cols (maximum r) (minimum s) > 0 then
         (if compareRange cols (maximum r) (maximum s) < 0
          then \<lparr> minimum = minimum s, maximum = maximum r \<rparr> # M1
          else \<lparr> minimum = minimum s, maximum = maximum s \<rparr> # M2)
       else M1) \<longleftrightarrow> inRs row (r # rs) \<and> inRs row (s # ss)"
proof -
  have in_B: "maximum r \<in> B" "minimum s \<in> B" "maximum s \<in> B" "minimum r \<in> B"
    using B by auto
  have rest_r: "inRs row rs \<Longrightarrow> ab row (maximum r)" and rest_s: "inRs row ss \<Longrightarrow> ab row (maximum s)"
    and rest_s': "inRs row ss \<Longrightarrow> ab row (minimum s)"
    using ordered_start [OF ord(1)] ordered_start [OF ord(2)] by blast+
  note le = cut_le [OF good] and ge = cut_ge [OF good]
  consider (below) "compareRange cols (maximum r) (minimum s) \<le> 0"
    | (left) "compareRange cols (maximum r) (minimum s) > 0" "compareRange cols (maximum r) (maximum s) < 0"
    | (right) "compareRange cols (maximum r) (minimum s) > 0" "compareRange cols (maximum r) (maximum s) \<ge> 0"
    by linarith
  then show ?thesis
  proof cases
    case below
    have "ab row (minimum s) \<Longrightarrow> ab row (maximum r)"
      using le [OF in_B(1,2)] below by simp
    then show ?thesis
      using below M1 rest_s' by (auto simp: inR_def)
  next
    case left
    have "ab row (maximum s) \<Longrightarrow> ab row (maximum r)"
      using le [OF in_B(1,3)] left by simp
    then show ?thesis
      using left M1 rest_s mins by (auto simp: inR_def)
  next
    case right
    have "ab row (maximum r) \<Longrightarrow> ab row (maximum s)"
      using ge [OF in_B(1,3)] right by simp
    then show ?thesis
      using right M2 rest_r mins by (auto simp: inR_def)
  qed
qed

lemma bnds_Cons: "bnds (r # rs) \<subseteq> B \<Longrightarrow> bnds rs \<subseteq> B"
  by auto

lemma mergeAnd_loop_inter:
  assumes good: "goodBounds ks B" "rowOk ks row" and "bnds r1s \<subseteq> B" "bnds r2s \<subseteq> B"
    and "ordered row r1s" "ordered row r2s"
  shows "inRs row (mergeAnd_loop cols r1s r2s) \<longleftrightarrow> inRs row r1s \<and> inRs row r2s"
  using assms(3-)
proof (induction "length r1s + length r2s" arbitrary: r1s r2s rule: less_induct)
  case less
  show ?case
  proof (cases "r1s = [] \<or> r2s = []")
    case True
    then show ?thesis
      by (cases r1s) auto
  next
    case False
    then obtain x xs y ys where l: "r1s = x # xs" "r2s = y # ys"
      by (meson neq_Nil_conv)
    have IH: "inRs row (mergeAnd_loop cols as bs) \<longleftrightarrow> inRs row as \<and> inRs row bs"
      if "length as + length bs < length r1s + length r2s" "bnds as \<subseteq> B" "bnds bs \<subseteq> B"
        "ordered row as" "ordered row bs" for as bs
      using less.hyps that by blast
    note B' = less.prems(1,2) [unfolded l] and o' = less.prems(3,4) [unfolded l]
    note B = B' B'(1) [THEN bnds_Cons] B'(2) [THEN bnds_Cons]
    note o = o' o'(1) [THEN ordered_Cons] o'(2) [THEN ordered_Cons]
    have mem: "minimum x \<in> B" "minimum y \<in> B"
      using B(1,2) by auto
    have IHs: "inRs row (mergeAnd_loop cols xs (y # ys)) \<longleftrightarrow> inRs row xs \<and> inRs row (y # ys)"
      "inRs row (mergeAnd_loop cols (x # xs) ys) \<longleftrightarrow> inRs row (x # xs) \<and> inRs row ys"
      "inRs row (mergeAnd_loop cols ys (x # xs)) \<longleftrightarrow> inRs row ys \<and> inRs row (x # xs)"
      "inRs row (mergeAnd_loop cols (y # ys) xs) \<longleftrightarrow> inRs row (y # ys) \<and> inRs row xs"
      by (rule IH; use B o in \<open>simp add: l\<close>)+
    show ?thesis
    proof (cases "compareRange cols (minimum x) (minimum y) > 0")
      case True
      then have "ab row (minimum x) \<Longrightarrow> ab row (minimum y)"
        using cut_ge [OF good mem] by simp
      note step = inter_step [OF good B(2,1) o(2,1) this IHs(3,4)]
      show ?thesis
        unfolding l mergeAnd_loop.simps Let_def if_P [OF True] prod.case
        using step by (simp only: conj_commute)
    next
      case False
      then have "ab row (minimum y) \<Longrightarrow> ab row (minimum x)"
        using cut_le [OF good mem] by simp
      note step = inter_step [OF good B(1,2) o(1,2) this IHs(1,2)]
      show ?thesis
        unfolding l mergeAnd_loop.simps Let_def if_not_P [OF False] prod.case
        using step by simp
    qed
  qed
qed

lemma inOrder_ordered:
  "goodBounds ks B \<Longrightarrow> rowOk ks row \<Longrightarrow> bnds rs \<subseteq> B \<Longrightarrow> inOrder cols rs \<Longrightarrow> ordered row rs"
proof (induction rs rule: induct_list012)
  case (3 r s rs)
  have "bnds (s # rs) \<subseteq> B" "maximum r \<in> B" "minimum r \<in> B" "minimum s \<in> B"
    using 3(5) by auto
  then show ?case
    using 3 cut_le [OF 3(3,4), of "maximum r" "minimum s"] cut_le [OF 3(3,4), of "minimum r" "minimum s"]
    by simp
qed auto

text \<open>Ranges sorted by their starts, on the side of a row.\<close>

abbreviation starts :: "'v smiRow \<Rightarrow> 'k smiRange list \<Rightarrow> bool" where
  "starts row rs \<equiv> sorted_wrt (\<lambda>r s. ab row (minimum s) \<longrightarrow> ab row (minimum r)) rs"

lemma insertRange_starts:
  assumes "goodBounds ks B" "rowOk ks row" "bnds (r # rs) \<subseteq> B" "starts row rs"
  shows "starts row (insertRange cols r rs)"
  using assms(3,4)
proof (induction rs)
  case (Cons s rs)
  have m: "minimum r \<in> B" "minimum s \<in> B" "bnds (r # rs) \<subseteq> B"
    using Cons.prems(1) by auto
  show ?case
  proof (cases "compareMinimum cols r s \<le> 0")
    case True
    then have "ab row (minimum s) \<longrightarrow> ab row (minimum r)"
      using cut_le [OF assms(1,2) m(1,2)] by (simp add: compareMinimum_def)
    then show ?thesis
      using True Cons.prems(2) by auto
  next
    case False
    then have "ab row (minimum r) \<longrightarrow> ab row (minimum s)"
      using cut_ge [OF assms(1,2) m(1,2)] by (simp add: compareMinimum_def)
    then show ?thesis
      using False Cons.prems(2) Cons.IH [OF m(3)] by simp
  qed
qed simp

lemma qsortRanges_starts:
  assumes "goodBounds ks B" "rowOk ks row" "bnds rs \<subseteq> B"
  shows "starts row (qsortRanges cols rs)"
  using assms(3)
proof (induction rs)
  case (Cons r rs)
  have "bnds (r # qsortRanges cols rs) \<subseteq> B"
    using Cons.prems by simp
  then show ?case
    using insertRange_starts [OF assms(1,2)] Cons bnds_Cons by (simp add: qsortRanges_def)
qed (simp add: qsortRanges_def)

lemma startsAscend_starts:
  "goodBounds ks B \<Longrightarrow> rowOk ks row \<Longrightarrow> bnds rs \<subseteq> B \<Longrightarrow> startsAscend cols rs \<Longrightarrow> starts row rs"
proof (induction rs rule: induct_list012)
  case (3 r s rs)
  have "bnds (s # rs) \<subseteq> B" "minimum r \<in> B" "minimum s \<in> B"
    using 3(5) by auto
  then show ?case
    using 3 cut_le [OF 3(3,4), of "minimum r" "minimum s"] by auto
qed auto

lemma mergeLists_starts:
  assumes "goodBounds ks B" "rowOk ks row" "bnds r1s \<subseteq> B" "bnds r2s \<subseteq> B"
    and "starts row r1s" "starts row r2s"
  shows "starts row (mergeLists cols r1s r2s)"
  using assms(3-)
proof (induction r1s arbitrary: r2s)
  case (Cons r1 r1s)
  note outer = Cons.IH and prems = Cons.prems
  show ?case
    using prems(2,4)
  proof (induction r2s)
    case (Cons r2 r2s)
    have m: "minimum r1 \<in> B" "minimum r2 \<in> B" "bnds r1s \<subseteq> B" "bnds r2s \<subseteq> B"
      using prems(1) Cons.prems(1) by auto
    show ?case
    proof (cases "compareRange cols (minimum r1) (minimum r2) < 0")
      case True
      then have "ab row (minimum r2) \<longrightarrow> ab row (minimum r1)"
        using cut_le [OF assms(1,2) m(1,2)] by simp
      then show ?thesis
        using True outer [OF m(3) Cons.prems(1)] prems(3) Cons.prems(2) by auto
    next
      case False
      then have "ab row (minimum r1) \<longrightarrow> ab row (minimum r2)"
        using cut_ge [OF assms(1,2) m(1,2)] by simp
      then show ?thesis
        using False Cons.IH [OF m(4)] prems(3) Cons.prems(2) by auto
    qed
  qed (use prems in simp)
qed simp

lemma mergeOr_loop_min: "\<exists>r rs. mergeOr_loop cols m ss = r # rs \<and> minimum r = minimum m"
proof (induction ss arbitrary: m)
  case (Cons s ss)
  show ?case
    using Cons [of "m \<lparr> maximum := maximum s \<rparr>"] Cons [of m] by auto
qed simp

lemma mergeOr_loop_union:
  assumes good: "goodBounds ks B" "rowOk ks row"
  shows "minimum m \<in> B \<Longrightarrow> maximum m \<in> B \<Longrightarrow> bnds rs \<subseteq> B \<Longrightarrow> starts row (m # rs) \<Longrightarrow>
    (inRs row (mergeOr_loop cols m rs) \<longleftrightarrow> inR row m \<or> inRs row rs) \<and>
    ordered row (mergeOr_loop cols m rs)"
proof (induction rs arbitrary: m)
  case (Cons r rs)
  have B: "minimum r \<in> B" "maximum r \<in> B" "bnds rs \<subseteq> B"
    using Cons.prems(3) by auto
  have st: "ab row (minimum r) \<longrightarrow> ab row (minimum m)" "starts row (m # rs)" "starts row (r # rs)"
    using Cons.prems(4) by auto
  show ?case
  proof (cases "compareRange cols (maximum m) (minimum r) \<ge> 0")
    case True
    then have join: "ab row (maximum m) \<longrightarrow> ab row (minimum r)"
      using cut_ge [OF good Cons.prems(2) B(1)] by simp
    show ?thesis
    proof (cases "compareRange cols (maximum m) (maximum r) < 0")
      case less: True
      then have "ab row (maximum r) \<longrightarrow> ab row (maximum m)"
        using cut_le [OF good Cons.prems(2) B(2)] by simp
      then show ?thesis
        using Cons.IH [of "m \<lparr> maximum := maximum r \<rparr>"] Cons.prems(1) B st True less join
        by (auto simp: inR_def)
    next
      case False
      then have "ab row (maximum m) \<longrightarrow> ab row (maximum r)"
        using cut_ge [OF good Cons.prems(2) B(2)] by simp
      then show ?thesis
        using Cons.IH [of m] Cons.prems B st True False join by (auto simp: inR_def)
    qed
  next
    case False
    then have apart: "ab row (minimum r) \<longrightarrow> ab row (maximum m)"
      using cut_le [OF good Cons.prems(2) B(1)] by simp
    let ?n = "\<lparr> minimum = minimum r, maximum = maximum r \<rparr>"
    have IH: "(inRs row (mergeOr_loop cols ?n rs) \<longleftrightarrow> inR row ?n \<or> inRs row rs) \<and>
        ordered row (mergeOr_loop cols ?n rs)"
      using Cons.IH [of ?n] B st(3) by simp
    obtain q qs where q: "mergeOr_loop cols ?n rs = q # qs" "minimum q = minimum r"
      using mergeOr_loop_min [of ?n rs] by auto
    have "inR row ?n \<longleftrightarrow> inR row r"
      by (simp add: inR_def)
    then show ?thesis
      using IH False apart st(1) by (simp add: q)
  qed
qed simp

lemma mergeOr_union:
  assumes good: "okRanges cl cols ks rs" "rowOk ks row" and "rs \<noteq> []"
  shows "\<exists>out. mergeOrRangeListDefault cols rs = Some out \<and> bnds out \<subseteq> bnds rs \<and>
    list_all (rangeOk cl) out \<and> ordered row out \<and> (inRs row out \<longleftrightarrow> inRs row rs)"
proof -
  note gb = okRanges_good [OF good(1)]
  obtain q qs where q: "qsortRanges cols rs = q # qs"
    using assms(3) set_qsortRanges [of cols rs] by (cases "qsortRanges cols rs") auto
  let ?m = "\<lparr> minimum = minimum q, maximum = maximum q \<rparr>"
  have s: "set rs = insert q (set qs)"
    using set_qsortRanges [of cols rs] by (simp add: q)
  have st: "starts row (?m # qs)"
    using qsortRanges_starts [OF gb good(2) order_refl] by (simp add: q)
  have u: "(inRs row (mergeOr_loop cols ?m qs) \<longleftrightarrow> inR row ?m \<or> inRs row qs) \<and>
      ordered row (mergeOr_loop cols ?m qs)"
    using mergeOr_loop_union [OF gb good(2), of ?m qs] st s by auto
  have eq: "inR row ?m \<or> inRs row qs \<longleftrightarrow> inRs row rs"
    by (auto simp: inRs_def inR_def s)
  have "list_all (\<lambda>r. minimum r \<in> minimum ` set rs \<and> maximum r \<in> maximum ` set rs) (mergeOr_loop cols ?m qs)"
    by (rule mergeOr_all) (auto simp: s list_all_iff)
  then have b: "bnds (mergeOr_loop cols ?m qs) \<subseteq> bnds rs"
    by (auto simp: list_all_iff)
  have "list_all (rangeOk cl) rs"
    using good(1) by (simp add: okRanges_def)
  then have "list_all (rangeOk cl) (mergeOr_loop cols ?m qs)"
    unfolding rangeOk_all by (intro mergeOr_all) (auto simp: s list_all_iff)
  then show ?thesis
    using u eq b by (simp add: mergeOrRangeListDefault_def q)
qed

lemma notBetween_union:
  assumes good: "okRanges cl cols ks (r1s @ r2s)" "rowOk ks row"
    and ne: "r1s \<noteq> []" "r2s \<noteq> []" and "startsAscend cols r1s" "startsAscend cols r2s"
  shows "\<exists>out. mergeOrRangeNotBetween cols r1s r2s = Some out \<and> list_all (rangeOk cl) out \<and>
    ordered row out \<and> (inRs row out \<longleftrightarrow> inRs row r1s \<or> inRs row r2s)"
proof -
  note gb = okRanges_good [OF good(1)]
  have B: "bnds r1s \<subseteq> bnds (r1s @ r2s)" "bnds r2s \<subseteq> bnds (r1s @ r2s)"
    by auto
  have st: "starts row (mergeLists cols r1s r2s)"
    using mergeLists_starts [OF gb good(2) B] startsAscend_starts [OF gb good(2)] B assms(5,6) by blast
  obtain q qs where q: "mergeLists cols r1s r2s = q # qs"
    using ne(1) set_mergeLists [of cols r1s r2s] by (cases "mergeLists cols r1s r2s") auto
  let ?m = "\<lparr> minimum = minimum q, maximum = maximum q \<rparr>"
  have s: "set r1s \<union> set r2s = insert q (set qs)"
    using set_mergeLists [of cols r1s r2s] by (simp add: q)
  have u: "(inRs row (mergeOr_loop cols ?m qs) \<longleftrightarrow> inR row ?m \<or> inRs row qs) \<and>
      ordered row (mergeOr_loop cols ?m qs)"
    by (rule mergeOr_loop_union [OF gb good(2)]; use st in \<open>auto simp: q s\<close>)
  have eq: "inR row ?m \<or> inRs row qs \<longleftrightarrow> inRs row r1s \<or> inRs row r2s"
    using s unfolding inRs_def inR_def by auto
  have "list_all (rangeOk cl) (r1s @ r2s)"
    using good(1) by (simp add: okRanges_def)
  then have "\<forall>r \<in> insert q (set qs). rangeOk cl r"
    by (auto simp: list_all_iff simp flip: s)
  then have "list_all (rangeOk cl) (mergeOr_loop cols ?m qs)"
    unfolding rangeOk_all by (intro mergeOr_all) (auto simp: list_all_iff)
  then show ?thesis
    using u eq ne by (simp add: mergeOrRangeNotBetween_eq q)
qed

lemma mergeAnd_inter:
  assumes good: "goodBounds ks (bnds (r1s @ r2s))" "rowOk ks row"
    and "list_all (rangeOk cl) r1s" "list_all (rangeOk cl) r2s" "ordered row r1s" "ordered row r2s"
  shows "inRanges cols row (mergeAndRangeDefault cols noValue r1s r2s) \<longleftrightarrow>
    inRs row r1s \<and> inRs row r2s"
proof -
  have "list_all (rangeOk cl) (mergeAnd_loop cols r1s r2s)"
    using assms(3,4) unfolding rangeOk_all by (rule mergeAnd_all)
  moreover have "inRs row (mergeAnd_loop cols r1s r2s) \<longleftrightarrow> inRs row r1s \<and> inRs row r2s"
    by (rule mergeAnd_loop_inter [OF good]) (use assms(5,6) in auto)
  moreover have "\<not> inRange cols row (emptyRange noValue)"
    by (simp add: inRange_def emptyRange_def Let_def callCallBack_def rangeCallBack_defs
        callCompare_def compareMinimumLimit_def)
  ultimately show ?thesis
    by (auto simp: mergeAndRangeDefault_def Let_def inRs_inRanges) (simp_all add: inRanges_def)
qed

end

subsection \<open>The column types meet the contract\<close>

definition integerMtdCols :: "(nat \<Rightarrow> bool) \<Rightarrow> (mtdIntegerType option, mtdIntegerType option) columns" where
  "integerMtdCols desc i = integerMtdColumn (desc i)"

definition integerStoredCols :: "(nat \<Rightarrow> bool) \<Rightarrow> (bytes4, mtdIntegerType option) columns" where
  "integerStoredCols desc i = integerStoredColumn (desc i)"

definition varcharMtdCols :: "(nat \<Rightarrow> bool) \<Rightarrow> (mtdCharType option, mtdCharType option) columns" where
  "varcharMtdCols desc i = varcharMtdColumn (desc i)"

definition varcharStoredCols :: "(nat \<Rightarrow> bool) \<Rightarrow> (nat \<Rightarrow> bool) \<Rightarrow> (8 word list \<Rightarrow> mtdCharType) \<Rightarrow>
    (8 word list, mtdCharType option) columns" where
  "varcharStoredCols desc compr dict i = varcharStoredColumn (desc i) (compr i) dict"

lemma integer_columns:
  "key_order (keyOrd (integerMtdCols desc i)) (isNull (integerMtdCols desc i))"
  "key_order (keyOrd (integerStoredCols desc i)) (isNull (integerStoredCols desc i))"
proof -
  have n: "isNull (integerMtdCols desc i) = mtdIsNull \<circ> valueForModule"
    "isNull (integerStoredCols desc i) = mtdIsNull \<circ> valueForModule"
    by (simp_all add: integerMtdCols_def integerMtdColumn_def integerStoredCols_def
        integerStoredColumn_def)
  have k: "keyOrd (integerMtdCols desc i) =
      (\<lambda>a b. integerKey (desc i) (valueForModule a) (valueForModule b))"
    "keyOrd (integerStoredCols desc i) =
      (\<lambda>a b. integerKey (desc i) (valueForModule a) (valueForModule b))"
    by (simp_all add: fun_eq_iff integerMtdCols_def integerStoredCols_def)
  show "key_order (keyOrd (integerMtdCols desc i)) (isNull (integerMtdCols desc i))"
    "key_order (keyOrd (integerStoredCols desc i)) (isNull (integerStoredCols desc i))"
    unfolding n k by (rule integer_key_order)+
qed

interpretation intMtd: range_columns ForMtd "integerMtdCols desc"
    "\<lambda>i x. Some (valueForModule (smValue x))" "\<lambda>i x. True" for desc
proof (rule range_columns.intro, rule integer_columns)
qed (simp_all add: integerMtdCols_def classOf valueForModule_def,
  simp_all add: integerMtdColumn_def valueForModule_def)

interpretation intStored: range_columns ForStored "integerStoredCols desc"
    "\<lambda>i x. Some (intOfBytes (smValue x))" "\<lambda>i x. True" for desc
proof (rule range_columns.intro, rule integer_columns)
  fix i :: nat and x :: "bytes4 smiValue"
  have "intOfBytes (smValue x) = MTD_INTEGER_NULL \<longleftrightarrow> smValue x = bytesOfInt MTD_INTEGER_NULL"
    by (metis bytesOfInt_intOfBytes intOfBytes_bytesOfInt)
  then show "compareMaximumLimit4Stored (integerStoredCols desc i)
      (valueInfo (smValue x) (smLength x) False) =
      (if isNull (integerStoredCols desc i) (Some (intOfBytes (smValue x))) then 0 else -1)"
    by (simp add: compareMaximumLimit4Stored_def integerStoredCols_def integerStoredColumn_def
        mtdIsNull_def valueForModule_def)
qed (simp_all add: integerStoredCols_def classOf valueForModule_def,
  simp_all add: integerStoredColumn_def valueForModule_def)

lemma varchar_columns:
  "key_order (keyOrd (varcharMtdCols desc i)) (isNull (varcharMtdCols desc i))"
  "key_order (keyOrd (indexKeyCols desc i)) (isNull (indexKeyCols desc i))"
  "key_order (keyOrd (varcharStoredCols desc compr dict i)) (isNull (varcharStoredCols desc compr dict i))"
proof -
  have n: "isNull (varcharMtdCols desc i) = varcharIsNull \<circ> varcharForModule"
    "isNull (indexKeyCols desc i) = varcharIsNull \<circ> varcharForModule"
    "isNull (varcharStoredCols desc compr dict i) = varcharIsNull \<circ> varcharForModule"
    by (simp_all add: varcharMtdCols_def varcharMtdColumn_def varcharStoredCols_def
        varcharStoredColumn_def indexKeyCols_def varcharIndexKeyColumn_def)
  have k: "keyOrd (varcharMtdCols desc i) =
      (\<lambda>a b. varcharKey (desc i) (varcharForModule a) (varcharForModule b))"
    "keyOrd (indexKeyCols desc i) =
      (\<lambda>a b. varcharKey (desc i) (varcharForModule a) (varcharForModule b))"
    "keyOrd (varcharStoredCols desc compr dict i) =
      (\<lambda>a b. varcharKey (desc i) (varcharForModule a) (varcharForModule b))"
    by (simp_all add: fun_eq_iff varcharMtdCols_def varcharStoredCols_def indexKeyCols_def)
  show "key_order (keyOrd (varcharMtdCols desc i)) (isNull (varcharMtdCols desc i))"
    "key_order (keyOrd (indexKeyCols desc i)) (isNull (indexKeyCols desc i))"
    "key_order (keyOrd (varcharStoredCols desc compr dict i)) (isNull (varcharStoredCols desc compr dict i))"
    unfolding n k by (rule varchar_key_order)+
qed

interpretation varcharMtd: range_columns ForMtd "varcharMtdCols desc"
    "\<lambda>i x. Some (varcharForModule (smValue x))" "\<lambda>i x. True" for desc
proof (rule range_columns.intro, rule varchar_columns)
qed (simp_all add: varcharMtdCols_def classOf varcharForModule_def,
  simp_all add: varcharMtdColumn_def varcharForModule_def)

lemma indexKeyCols_ord [simp]:
  "keyOrd (indexKeyCols desc i) a b =
     varcharKey (desc i) (varcharForModule a) (varcharForModule b)"
  by (simp add: indexKeyCols_def)

interpretation varcharIndex: range_columns ForIndexKey "indexKeyCols desc"
    "\<lambda>i x. Some (varcharForModule (smValue x))" "\<lambda>i x. True" for desc
proof (rule range_columns.intro, rule varchar_columns)
qed (simp_all add: classOf varcharForModule_def,
  simp_all add: indexKeyCols_def varcharIndexKeyColumn_def varcharMtdColumn_def)

interpretation varcharStored: range_columns ForStored "varcharStoredCols desc compr dict"
    "\<lambda>i x. Some (if compr i then dict (smValue x) else smValue x)"
    "\<lambda>i. storedOk (compr i)" for desc compr dict
proof (rule range_columns.intro, rule varchar_columns)
  fix i k and x :: "8 word list smiValue"
  assume ok: "storedOk (compr i) x"
  show "keyCompare (varcharStoredCols desc compr dict i)
      (valueInfo (smValue x) (if storedClass ForStored then smLength x else 0) False) (keyInfo k) =
      keyOrd (varcharStoredCols desc compr dict i)
       (Some (if compr i then dict (smValue x) else smValue x)) k"
    using varcharStored_compare [OF ok, of "desc i" dict k]
    by (simp add: varcharStoredCols_def classOf varcharForModule_def)
  show "compareMaximumLimit4Stored (varcharStoredCols desc compr dict i)
      (valueInfo (smValue x) (smLength x) False) =
      (if isNull (varcharStoredCols desc compr dict i)
        (Some (if compr i then dict (smValue x) else smValue x)) then 0 else -1)"
    using ok
    by (auto simp: compareMaximumLimit4Stored_def varcharStoredCols_def varcharStoredColumn_def
        storedOk_def varcharIsNull_def varcharForModule_def)
qed (simp_all add: varcharStoredCols_def varcharStoredColumn_def classOf)

subsection \<open>Properties of the range operations\<close>

lemma okRanges_append:
  "okRanges cl cols ks (rs @ ss) \<Longrightarrow> okRanges cl cols ks rs \<and> okRanges cl cols ks ss"
  by (auto simp: okRanges_def boundsOf_def list_all_iff)

text \<open>\<open>compareRange\<close> orders bounds of a composite index on \<open>VARCHAR\<close> columns in memory, of any
  directions, as the cuts they make in the index: every key above the greater of two bounds is above
  the lesser.\<close>

theorem compareRange_orders_cuts:
  assumes "okBound ForMtd (varcharMtdCols desc) ks b1" "okBound ForMtd (varcharMtdCols desc) ks b2"
    and "comparable b1 b2"
  shows "(compareRange (varcharMtdCols desc) b1 b2 \<le> 0 \<longrightarrow>
      (\<forall>row. above ForMtd (varcharMtdCols desc) row b2 \<longrightarrow> above ForMtd (varcharMtdCols desc) row b1)) \<and>
    (compareRange (varcharMtdCols desc) b1 b2 \<ge> 0 \<longrightarrow>
      (\<forall>row. above ForMtd (varcharMtdCols desc) row b1 \<longrightarrow> above ForMtd (varcharMtdCols desc) row b2))"
  using varcharMtd.compareRange_above [OF assms] by (simp add: varcharMtd.rowOk_def)


text \<open>\<open>mergeOrRangeNotBetween\<close>, given two lists that are each sorted by their starts, covers exactly
  the keys of both, for a composite index of \<open>VARCHAR\<close> columns in memory.\<close>

theorem notBetween_is_union:
  assumes "okRanges ForMtd (varcharMtdCols desc) ks (r1s @ r2s)" "r1s \<noteq> []" "r2s \<noteq> []"
    and "startsAscend (varcharMtdCols desc) r1s" "startsAscend (varcharMtdCols desc) r2s"
  shows "\<exists>out. mergeOrRangeNotBetween (varcharMtdCols desc) r1s r2s = Some out \<and>
    (\<forall>row. inRanges (varcharMtdCols desc) row out \<longleftrightarrow>
      inRanges (varcharMtdCols desc) row r1s \<or> inRanges (varcharMtdCols desc) row r2s)"
proof -
  have ok: "list_all (rangeOk ForMtd) r1s" "list_all (rangeOk ForMtd) r2s"
    using assms(1) by (simp_all add: okRanges_def)
  have row: "varcharMtd.rowOk ks row" for row
    by (simp add: varcharMtd.rowOk_def)
  obtain out where out: "mergeOrRangeNotBetween (varcharMtdCols desc) r1s r2s = Some out"
    using varcharMtd.notBetween_union [OF assms(1) row assms(2-5)] by blast
  have "inRanges (varcharMtdCols desc) row out \<longleftrightarrow>
      inRanges (varcharMtdCols desc) row r1s \<or> inRanges (varcharMtdCols desc) row r2s" for row
    using varcharMtd.notBetween_union [OF assms(1) row [of row] assms(2-5)] ok
    by (auto simp: out varcharMtd.inRs_inRanges)
  then show ?thesis
    using out by blast
qed


text \<open>The range of a conjunction of disjunctions: what \<open>mergeAndRangeDefault\<close> makes of two results of
  \<open>mergeOrRangeListDefault\<close> covers exactly the keys in a range of the first array and in one of the
  second, for a composite index of stored \<open>VARCHAR\<close> columns, compressed or not.\<close>

theorem and_of_or_ranges:
  assumes "okRanges ForStored (varcharStoredCols desc compr dict) ks (xs @ ys)" "xs \<noteq> []" "ys \<noteq> []"
    and "\<forall>i\<in>set ks. storedOk (compr i) (row i)"
  shows "\<exists>rx ry. mergeOrRangeListDefault (varcharStoredCols desc compr dict) xs = Some rx \<and>
    mergeOrRangeListDefault (varcharStoredCols desc compr dict) ys = Some ry \<and>
    (inRanges (varcharStoredCols desc compr dict) row
       (mergeAndRangeDefault (varcharStoredCols desc compr dict) noValue rx ry) \<longleftrightarrow>
     inRanges (varcharStoredCols desc compr dict) row xs \<and>
     inRanges (varcharStoredCols desc compr dict) row ys)"
proof -
  let ?cols = "varcharStoredCols desc compr dict"
  have ok: "okRanges ForStored ?cols ks xs" "okRanges ForStored ?cols ks ys"
    using okRanges_append [OF assms(1)] by blast+
  have row: "varcharStored.rowOk compr ks row"
    using assms(4) by (simp add: varcharStored.rowOk_def)
  obtain rx where rx: "mergeOrRangeListDefault ?cols xs = Some rx"
      "minimum ` set rx \<union> maximum ` set rx \<subseteq> minimum ` set xs \<union> maximum ` set xs"
      "list_all (rangeOk ForStored) rx" "varcharStored.ordered desc compr dict row rx"
      "varcharStored.inRs desc compr dict row rx \<longleftrightarrow> varcharStored.inRs desc compr dict row xs"
    using varcharStored.mergeOr_union [OF ok(1) row assms(2)] by blast
  obtain ry where ry: "mergeOrRangeListDefault ?cols ys = Some ry"
      "minimum ` set ry \<union> maximum ` set ry \<subseteq> minimum ` set ys \<union> maximum ` set ys"
      "list_all (rangeOk ForStored) ry" "varcharStored.ordered desc compr dict row ry"
      "varcharStored.inRs desc compr dict row ry \<longleftrightarrow> varcharStored.inRs desc compr dict row ys"
    using varcharStored.mergeOr_union [OF ok(2) row assms(3)] by blast
  have "minimum ` set (rx @ ry) \<union> maximum ` set (rx @ ry) \<subseteq>
      minimum ` set (xs @ ys) \<union> maximum ` set (xs @ ys)"
    using rx(2) ry(2) by auto
  then have gb: "varcharStored.goodBounds desc compr dict ks
      (minimum ` set (rx @ ry) \<union> maximum ` set (rx @ ry))"
    by (rule varcharStored.goodBounds_subset [OF varcharStored.okRanges_good [OF assms(1)]])
  have all: "list_all (rangeOk ForStored) xs" "list_all (rangeOk ForStored) ys"
    using ok by (simp_all add: okRanges_def)
  have "inRanges ?cols row (mergeAndRangeDefault ?cols noValue rx ry) \<longleftrightarrow>
      inRanges ?cols row xs \<and> inRanges ?cols row ys"
    unfolding varcharStored.mergeAnd_inter [OF gb row rx(3) ry(3) rx(4) ry(4)] rx(5) ry(5)
    by (simp only: varcharStored.inRs_inRanges [OF all(1)] varcharStored.inRs_inRanges [OF all(2)])
  then show ?thesis
    using rx(1) ry(1) by blast
qed

subsection \<open>Instances\<close>

definition keyAt :: "nat \<Rightarrow> 'k \<Rightarrow> 'k mtkRangeCallBack" where
  "keyAt i v = \<lparr> rcSameGroup = False, rcColumnIdx = i, rcCompare = KeyCompare, rcValue = v \<rparr>"

definition bound :: "smiCallBackFunc \<Rightarrow> 'k list \<Rightarrow> 'k smiCallBack" where
  "bound f vs = \<lparr> callback = f, cbData = map2 keyAt [0..<length vs] vs \<rparr>"

definition between :: "'k smiCallBack \<Rightarrow> 'k smiCallBack \<Rightarrow> 'k smiRange" where
  "between b1 b2 = \<lparr> minimum = b1, maximum = b2 \<rparr>"

theorem compareRange_orders_cuts_witness:
  "above ForMtd (varcharMtdCols (\<lambda>i. i = 1)) (\<lambda>_. \<lparr> smValue = Some [66], smLength = 0 \<rparr>)
    (bound CbGT4Mtd [Some [65], Some [90]])"
proof -
  let ?b1 = "bound CbGT4Mtd [Some [65], Some [90]] :: mtdCharType option smiCallBack"
  let ?b2 = "bound CbGE4Mtd [Some [66]] :: mtdCharType option smiCallBack"
  let ?cols = "varcharMtdCols (\<lambda>i. i = 1)"
  have "okBound ForMtd ?cols [0, 1] ?b1" "okBound ForMtd ?cols [0, 1] ?b2" "comparable ?b1 ?b2"
    by code_simp+
  moreover have "compareRange ?cols ?b1 ?b2 \<le> 0"
    by code_simp
  moreover have "above ForMtd ?cols (\<lambda>_. \<lparr> smValue = Some [66], smLength = 0 \<rparr>) ?b2"
    by code_simp
  ultimately show ?thesis
    using compareRange_orders_cuts [of "\<lambda>i. i = 1" "[0, 1]" ?b1 ?b2] by blast
qed


theorem notBetween_is_union_witness:
  "\<exists>out. mergeOrRangeNotBetween (varcharMtdCols (\<lambda>i. False))
      [between (bound CbGE4Mtd [Some [65]]) (bound CbLT4Mtd [Some [70]])]
      [between (bound CbGT4Mtd [Some [68]]) (bound CbLE4Mtd [Some [75]])] = Some out \<and>
    (\<forall>row. inRanges (varcharMtdCols (\<lambda>i. False)) row out \<longleftrightarrow>
      inRanges (varcharMtdCols (\<lambda>i. False)) row
        [between (bound CbGE4Mtd [Some [65]]) (bound CbLT4Mtd [Some [70]])] \<or>
      inRanges (varcharMtdCols (\<lambda>i. False)) row
        [between (bound CbGT4Mtd [Some [68]]) (bound CbLE4Mtd [Some [75]])])"
proof -
  let ?r = "[between (bound CbGE4Mtd [Some [65]]) (bound CbLT4Mtd [Some [70]])]
      :: mtdCharType option smiRange list"
  let ?s = "[between (bound CbGT4Mtd [Some [68]]) (bound CbLE4Mtd [Some [75]])]
      :: mtdCharType option smiRange list"
  have "okRanges ForMtd (varcharMtdCols (\<lambda>i. False)) [0] (?r @ ?s)"
    by code_simp
  then show ?thesis
    using notBetween_is_union [of "\<lambda>i. False" "[0]" ?r ?s] by simp
qed


theorem and_of_or_ranges_witness:
  "\<exists>rx ry. mergeOrRangeListDefault (varcharStoredCols (\<lambda>_. False) (\<lambda>_. False) id)
      [between (bound CbGE4Stored [Some [65]]) (bound CbLE4Stored [Some [70]])] = Some rx \<and>
    mergeOrRangeListDefault (varcharStoredCols (\<lambda>_. False) (\<lambda>_. False) id)
      [between (bound CbGE4Stored [Some [68]]) (bound CbLT4Stored [Some [80]])] = Some ry \<and>
    inRanges (varcharStoredCols (\<lambda>_. False) (\<lambda>_. False) id) (\<lambda>_. \<lparr> smValue = [69], smLength = 1 \<rparr>)
      (mergeAndRangeDefault (varcharStoredCols (\<lambda>_. False) (\<lambda>_. False) id) None rx ry)"
proof -
  let ?cols = "varcharStoredCols (\<lambda>_. False) (\<lambda>_. False) id"
  let ?r = "[between (bound CbGE4Stored [Some [65]]) (bound CbLE4Stored [Some [70]])]
      :: mtdCharType option smiRange list"
  let ?s = "[between (bound CbGE4Stored [Some [68]]) (bound CbLT4Stored [Some [80]])]
      :: mtdCharType option smiRange list"
  let ?row = "\<lambda>_ :: nat. \<lparr> smValue = [69 :: 8 word], smLength = 1 \<rparr>"
  have "okRanges ForStored ?cols [0] (?r @ ?s)"
    by code_simp
  moreover have "inRanges ?cols ?row ?r" "inRanges ?cols ?row ?s"
    by (simp_all add: inRanges_def inRange_def between_def bound_def keyAt_def callCallBack_def
        rangeCallBack_defs callCompare_def varcharStoredCols_def varcharStoredColumn_def
        mtdVarcharStoredMtdKeyAscComp_def storedVarchar_def varcharForModule_def
        varcharCompareAsc_def)
  ultimately show ?thesis
    using and_of_or_ranges [of "\<lambda>_. False" "\<lambda>_. False" id "[0]" ?r ?s ?row None]
    by (simp add: storedOk_def)
qed

text \<open>C20: The test for the case that the second bound has more columns looks at the second bound's
  callback where it needs the first's: \<open>compareRange\<close> takes \<open>\<le> (5)\<close> for less than \<open>< (5, 3)\<close>, and
  \<open>mergeOrRangeListDefault\<close> drops keys that one of its ranges covers.\<close>

theorem compareRange_wrong_on_short_LE:
  "(let cols = integerMtdCols (\<lambda>_. False);
        wide = between (bound CbGE4Mtd [Some 1]) (bound CbLE4Mtd [Some 5]);
        narrow = between (bound CbGE4Mtd [Some 1]) (bound CbLT4Mtd [Some 5, Some 3]);
        row = (\<lambda>i. \<lparr> smValue = Some (if i = 0 then 5 else 7), smLength = 0 \<rparr>) in
    list_all (okBound ForMtd cols [0, 1]) (boundsOf [wide, narrow]) \<and>
    compareRange cols (maximum wide) (maximum narrow) < 0 \<and>
    above ForMtd cols row (maximum narrow) \<and> \<not> above ForMtd cols row (maximum wide) \<and>
    inRange cols row wide \<and>
    mergeOrRangeListDefault cols [wide, narrow] = Some [narrow] \<and> \<not> inRanges cols row [narrow])"
proof -
  let ?cols = "integerMtdCols (\<lambda>_. False)"
  let ?wide = "between (bound CbGE4Mtd [Some 1]) (bound CbLE4Mtd [Some 5]) :: mtdIntegerType option smiRange"
  let ?narrow = "between (bound CbGE4Mtd [Some 1]) (bound CbLT4Mtd [Some 5, Some 3])
      :: mtdIntegerType option smiRange"
  let ?row = "\<lambda>i :: nat. \<lparr> smValue = Some (if i = 0 then 5 else 7 :: mtdIntegerType), smLength = 0 \<rparr>"
  have 1: "list_all (okBound ForMtd ?cols [0, 1]) (boundsOf [?wide, ?narrow])"
    by code_simp
  have 2: "compareRange ?cols (maximum ?wide) (maximum ?narrow) < 0"
    by code_simp
  have 3: "above ForMtd ?cols ?row (maximum ?narrow)" "\<not> above ForMtd ?cols ?row (maximum ?wide)"
    by code_simp+
  have 4: "inRange ?cols ?row ?wide"
    by code_simp
  have 5: "mergeOrRangeListDefault ?cols [?wide, ?narrow] = Some [?narrow]"
    by code_simp
  have 6: "\<not> inRanges ?cols ?row [?narrow]"
    by code_simp
  show ?thesis
    using 1 2 3 4 5 6 by (simp add: Let_def)
qed

end
