(* ===== verification/DateRange.thy ===== *)
theory DateRange
  imports DateKeys RangeMerge
begin

text \<open>
  Key ranges on \<open>DATE\<close> columns: the columns of the type interpret the contract \<open>range_columns\<close>, so
  that merging ranges of dates has the properties proved there, for values in memory and for stored
  values, compressed or not.
\<close>

definition dateMtdCols :: "(nat \<Rightarrow> bool) \<Rightarrow> (mtdDateType option, mtdDateType option) columns" where
  "dateMtdCols desc = (\<lambda>i. dateMtdColumn (desc i))"

definition dateStoredCols :: "(nat \<Rightarrow> bool) \<Rightarrow> (nat \<Rightarrow> bool) \<Rightarrow> (8 word list \<Rightarrow> mtdDateType) \<Rightarrow>
    (8 word list, mtdDateType option) columns" where
  "dateStoredCols desc compr dict = (\<lambda>i. dateStoredColumn (desc i) (compr i) dict)"

lemma date_columns:
  "key_order (keyOrd (dateMtdCols desc i)) (isNull (dateMtdCols desc i))"
  "key_order (keyOrd (dateStoredCols desc compr dict i)) (isNull (dateStoredCols desc compr dict i))"
proof -
  have n: "isNull (dateMtdCols desc i) = dateIsNull \<circ> dateForModule"
    "isNull (dateStoredCols desc compr dict i) = dateIsNull \<circ> dateForModule"
    by (simp_all add: dateMtdCols_def dateMtdColumn_def dateStoredCols_def dateStoredColumn_def)
  have k: "keyOrd (dateMtdCols desc i) =
      (\<lambda>a b. dateKey (desc i) (dateForModule a) (dateForModule b))"
    "keyOrd (dateStoredCols desc compr dict i) =
      (\<lambda>a b. dateKey (desc i) (dateForModule a) (dateForModule b))"
    by (simp_all add: fun_eq_iff dateMtdCols_def dateStoredCols_def)
  show "key_order (keyOrd (dateMtdCols desc i)) (isNull (dateMtdCols desc i))"
    "key_order (keyOrd (dateStoredCols desc compr dict i)) (isNull (dateStoredCols desc compr dict i))"
    unfolding n k by (rule date_column_order)+
qed

interpretation dateMtd: range_columns ForMtd "dateMtdCols desc"
    "\<lambda>i x. Some (dateForModule (smValue x))" "\<lambda>i x. True" for desc
proof (rule range_columns.intro, rule date_columns)
qed (simp_all add: dateMtdCols_def classOf dateForModule_def,
  simp_all add: dateMtdColumn_def dateForModule_def)

text \<open>A stored date that is not compressed is eight bytes.\<close>

interpretation dateStored: range_columns ForStored "dateStoredCols desc compr dict"
    "\<lambda>i x. Some (if compr i then dict (smValue x) else dateOfBytes (smValue x))"
    "\<lambda>i x. compr i \<or> length (smValue x) = 8" for desc compr dict
proof (rule range_columns.intro, rule date_columns)
  fix i :: nat and x :: "8 word list smiValue"
  assume ok: "compr i \<or> length (smValue x) = 8"
  have "dateOfBytes (smValue x) = mtdDateNull \<longleftrightarrow> smValue x = bytesOfDate mtdDateNull" if "\<not> compr i"
    using ok that bytesOfDate_dateOfBytes [of "smValue x"] by (metis dateOfBytes_bytesOfDate)
  then show "compareMaximumLimit4Stored (dateStoredCols desc compr dict i)
      (valueInfo (smValue x) (smLength x) False) =
      (if isNull (dateStoredCols desc compr dict i)
          (Some (if compr i then dict (smValue x) else dateOfBytes (smValue x))) then 0 else -1)"
    by (simp add: compareMaximumLimit4Stored_def dateStoredCols_def dateStoredColumn_def
        dateIsNull_def dateForModule_def Let_def MTD_DATE_IS_NULL_iff)
qed (simp_all add: dateStoredCols_def classOf dateForModule_def,
  simp_all add: dateStoredColumn_def dateForModule_def)

end
