(* ===== verification/FuncRegistry.thy ===== *)
theory FuncRegistry
  imports Prelude "HOL-Library.Multiset"
begin

text \<open>
  The registry of range callbacks and comparison functions, \<open>src/src/mt/mtk/mtk.cpp\<close>:
  \<open>mtk::initialize\<close> collects the functions of the server, its modules and its extensions without
  repetition, and builds an index sorted by address; \<open>rangeByFunc\<close>, \<open>rangeById\<close>, \<open>compareByFunc\<close> and
  \<open>compareById\<close> turn a function into a number and back when a plan is shared or sent.

  A function is its address; 0 is \<open>NULL\<close>.  A failing \<open>IDE_ASSERT\<close> is \<open>None\<close>.
\<close>

type_synonym func = nat

abbreviation NULL :: func where
  "NULL \<equiv> 0"

definition MTK_MAX_RANGE_FUNC_CNT :: nat where
  "MTK_MAX_RANGE_FUNC_CNT = 128"

definition MTK_MAX_COMPARE_FUNC_CNT :: nat where
  "MTK_MAX_COMPARE_FUNC_CNT = 128 + 128 * 6 * 2"

record funcTable =
  mAllFuncs :: "func list"
  mAllFuncsIndex :: "(func \<times> nat) list"

subsection \<open>Building the tables\<close>

text \<open>One function: looked for among those found so far, appended when it is new.\<close>

definition addFunc :: "nat \<Rightarrow> func \<Rightarrow> func list \<Rightarrow> func list option" where
  "addFunc cap f funcs =
     (let sExist = list_ex (\<lambda>g. g = f) funcs in
      if \<not> sExist then (if length funcs < cap then Some (funcs @ [f]) else None)
      else Some funcs)"

primrec addFuncs :: "nat \<Rightarrow> func list \<Rightarrow> func list \<Rightarrow> func list option" where
  "addFuncs cap [] funcs = Some funcs"
| "addFuncs cap (f # fs) funcs =
     (case addFunc cap f funcs of None \<Rightarrow> None | Some funcs' \<Rightarrow> addFuncs cap fs funcs')"

text \<open>A group ends at its \<open>NULL\<close>.\<close>

definition groupFuncs :: "func list \<Rightarrow> func list" where
  "groupFuncs g = takeWhile (\<lambda>f. f \<noteq> NULL) g"

text \<open>A module's comparisons, ascending and descending for each way of storing the values.\<close>

definition moduleFuncs :: "(func \<times> func) list \<Rightarrow> func list" where
  "moduleFuncs keyCompare = concat (map (\<lambda>(asc, desc). [asc, desc]) keyCompare)"

text \<open>\<open>qsort\<close> by address; the addresses of the table differ.\<close>

definition buildIndex :: "func list \<Rightarrow> (func \<times> nat) list" where
  "buildIndex funcs =
     (let index = zip funcs [0..<length funcs] in
      if length funcs > 1 then sort_key fst index else index)"

definition initRangeFuncs :: "func list \<Rightarrow> func list list \<Rightarrow> funcTable option" where
  "initRangeFuncs internal extGroups =
     (case addFuncs MTK_MAX_RANGE_FUNC_CNT
        (groupFuncs internal @ concat (map groupFuncs extGroups)) [] of
        None \<Rightarrow> None
      | Some funcs \<Rightarrow> Some \<lparr> mAllFuncs = funcs, mAllFuncsIndex = buildIndex funcs \<rparr>)"

definition initCompareFuncs ::
  "func list \<Rightarrow> (func \<times> func) list list \<Rightarrow> func list list \<Rightarrow> funcTable option" where
  "initCompareFuncs internal modules extGroups =
     (case addFuncs MTK_MAX_COMPARE_FUNC_CNT
        (groupFuncs internal @ concat (map moduleFuncs modules) @ concat (map groupFuncs extGroups)) [] of
        None \<Rightarrow> None
      | Some funcs \<Rightarrow> Some \<lparr> mAllFuncs = funcs, mAllFuncsIndex = buildIndex funcs \<rparr>)"

subsection \<open>Looking functions up\<close>

text \<open>\<open>bsearch\<close> of the C library on \<open>index[lo ..< hi]\<close>.\<close>

function bsearch :: "(func \<times> nat) list \<Rightarrow> func \<Rightarrow> nat \<Rightarrow> nat \<Rightarrow> (func \<times> nat) option" where
  "bsearch index key lo hi =
     (if lo < hi then
        (let mid = (lo + hi) div 2 in
         if key < fst (index ! mid) then bsearch index key lo mid
         else if key > fst (index ! mid) then bsearch index key (mid + 1) hi
         else Some (index ! mid))
      else None)"
  by pat_completeness auto
termination
  by (relation "measure (\<lambda>(_, _, lo, hi). hi - lo)") auto

declare bsearch.simps [simp del]

definition rangeByFunc :: "funcTable \<Rightarrow> func \<Rightarrow> nat option" where
  "rangeByFunc t aRangeFunc =
     (if aRangeFunc \<noteq> NULL then
        (case bsearch (mAllFuncsIndex t) aRangeFunc 0 (length (mAllFuncs t)) of
           None \<Rightarrow> None
         | Some sRangeFunc \<Rightarrow> Some (snd sRangeFunc))
      else Some (length (mAllFuncs t)))"

definition compareByFunc :: "funcTable \<Rightarrow> func \<Rightarrow> nat option" where
  "compareByFunc t aCompareFunc =
     (if aCompareFunc \<noteq> NULL then
        (case bsearch (mAllFuncsIndex t) aCompareFunc 0 (length (mAllFuncs t)) of
           None \<Rightarrow> None
         | Some sCompareFunc \<Rightarrow> Some (snd sCompareFunc))
      else Some (length (mAllFuncs t)))"

definition rangeById :: "funcTable \<Rightarrow> nat \<Rightarrow> func option" where
  "rangeById t aId =
     (if aId \<le> length (mAllFuncs t)
      then Some (if aId < length (mAllFuncs t) then mAllFuncs t ! aId else NULL)
      else None)"

definition compareById :: "funcTable \<Rightarrow> nat \<Rightarrow> func option" where
  "compareById t aId =
     (if aId \<le> length (mAllFuncs t)
      then Some (if aId < length (mAllFuncs t) then mAllFuncs t ! aId else NULL)
      else None)"

subsection \<open>The tables hold every function once\<close>

lemma addFuncs_some:
  "addFuncs cap fs funcs = Some funcs' \<Longrightarrow> distinct funcs \<Longrightarrow> length funcs \<le> cap \<Longrightarrow>
    distinct funcs' \<and> set funcs' = set funcs \<union> set fs \<and> length funcs' \<le> cap"
  by (induction fs arbitrary: funcs)
    (force simp: addFunc_def Let_def list_ex_iff split: option.splits if_splits)+

lemma addFuncs_fits:
  "card (set funcs \<union> set fs) \<le> cap \<Longrightarrow> distinct funcs \<Longrightarrow> \<exists>funcs'. addFuncs cap fs funcs = Some funcs'"
proof (induction fs arbitrary: funcs)
  case (Cons f fs)
  show ?case
  proof (cases "f \<in> set funcs")
    case True
    then have "addFunc cap f funcs = Some funcs"
      by (auto simp: addFunc_def list_ex_iff)
    then show ?thesis
      using Cons True by (simp add: insert_absorb)
  next
    case False
    have "Suc (length funcs) = card (insert f (set funcs))"
      using Cons.prems(2) False by (simp add: distinct_card)
    also have "\<dots> \<le> card (set funcs \<union> set (f # fs))"
      by (rule card_mono) auto
    finally have "addFunc cap f funcs = Some (funcs @ [f])"
      using Cons.prems(1) False by (auto simp: addFunc_def list_ex_iff)
    then show ?thesis
      using Cons.IH [of "funcs @ [f]"] Cons.prems False by simp
  qed
qed simp

text \<open>The index: the functions in ascending order, each with its number.\<close>

lemma buildIndex_sorted:
  assumes "distinct funcs"
  shows "sorted_wrt (<) (map fst (buildIndex funcs))" "length (buildIndex funcs) = length funcs"
    "set (buildIndex funcs) = {(funcs ! i, i) | i. i < length funcs}"
proof -
  have "mset (map fst (buildIndex funcs)) = mset (map fst (zip funcs [0..<length funcs]))"
    unfolding mset_map by (simp add: buildIndex_def Let_def)
  from mset_eq_imp_distinct_iff [OF this] have "distinct (map fst (buildIndex funcs))"
    using assms by simp
  moreover have "sorted (map fst (buildIndex funcs))"
    by (cases funcs) (auto simp: buildIndex_def Let_def)
  ultimately show "sorted_wrt (<) (map fst (buildIndex funcs))"
    by (simp add: strict_sorted_iff)
  show "length (buildIndex funcs) = length funcs"
    by (simp add: buildIndex_def Let_def)
  show "set (buildIndex funcs) = {(funcs ! i, i) | i. i < length funcs}"
    by (auto simp: buildIndex_def Let_def set_zip)
qed

lemma bsearch_found:
  assumes "sorted_wrt (<) (map fst index)"
  shows "hi \<le> length index \<Longrightarrow> lo \<le> i \<Longrightarrow> i < hi \<Longrightarrow> fst (index ! i) = key \<Longrightarrow>
    bsearch index key lo hi = Some (index ! i)"
  using assms
proof (induction index key lo hi rule: bsearch.induct)
  case (1 index key lo hi)
  let ?mid = "(lo + hi) div 2"
  have less: "fst (index ! a) < fst (index ! b)" if "a < b" "b < length index" for a b
    using sorted_wrt_nth_less [OF 1(7), of a b] that by simp
  have bounds: "lo \<le> ?mid" "?mid < hi"
    using 1(4,5) by auto
  consider "i < ?mid" | "i = ?mid" | "?mid < i"
    by linarith
  then show ?case
  proof cases
    case 1
    then have "key < fst (index ! ?mid)"
      using less [of i ?mid] bounds \<open>hi \<le> length index\<close> \<open>fst (index ! i) = key\<close> by simp
    then show ?thesis
      using 1 "1.IH"(1) "1.prems" bounds by (simp add: bsearch.simps [of index key lo hi])
  next
    case 2
    then show ?thesis
      using "1.prems" bounds by (simp add: bsearch.simps [of index key lo hi])
  next
    case 3
    then have "fst (index ! ?mid) < key"
      using less [of ?mid i] "1.prems" by auto
    then show ?thesis
      using 3 "1.IH"(2) "1.prems" bounds by (simp add: bsearch.simps [of index key lo hi])
  qed
qed

lemma bsearch_sound: "bsearch index key lo hi = Some e \<Longrightarrow> hi \<le> length index \<Longrightarrow>
    e \<in> set index \<and> fst e = key"
proof (induction index key lo hi rule: bsearch.induct)
  case (1 index key lo hi)
  let ?mid = "(lo + hi) div 2"
  have "lo < hi"
    using 1(3) by (auto simp: bsearch.simps [of index key lo hi] split: if_splits)
  then show ?case
    using 1 by (auto simp: bsearch.simps [of index key lo hi] Let_def split: if_splits)
qed

text \<open>A table as \<open>initialize\<close> leaves it.\<close>

definition tableOk :: "funcTable \<Rightarrow> bool" where
  "tableOk t \<longleftrightarrow> distinct (mAllFuncs t) \<and> mAllFuncsIndex t = buildIndex (mAllFuncs t)"

lemma lookup_index:
  assumes "tableOk t" "i < length (mAllFuncs t)"
  shows "bsearch (mAllFuncsIndex t) (mAllFuncs t ! i) 0 (length (mAllFuncs t)) = Some (mAllFuncs t ! i, i)"
proof -
  have t: "distinct (mAllFuncs t)" "mAllFuncsIndex t = buildIndex (mAllFuncs t)"
    using assms(1) by (simp_all add: tableOk_def)
  note b = buildIndex_sorted [OF t(1)]
  have "(mAllFuncs t ! i, i) \<in> set (mAllFuncsIndex t)"
    using b(3) assms(2) t(2) by auto
  then obtain j where j: "j < length (mAllFuncsIndex t)" "mAllFuncsIndex t ! j = (mAllFuncs t ! i, i)"
    by (auto simp: in_set_conv_nth)
  then show ?thesis
    using bsearch_found [of "mAllFuncsIndex t" "length (mAllFuncs t)" 0 j "mAllFuncs t ! i"] b t(2)
    by simp
qed

lemma lookup_unknown:
  assumes "tableOk t" "f \<notin> set (mAllFuncs t)"
  shows "bsearch (mAllFuncsIndex t) f 0 (length (mAllFuncs t)) = None"
proof (cases "bsearch (mAllFuncsIndex t) f 0 (length (mAllFuncs t))")
  case (Some e)
  have t: "distinct (mAllFuncs t)" "mAllFuncsIndex t = buildIndex (mAllFuncs t)"
    using assms(1) by (simp_all add: tableOk_def)
  have "e \<in> set (mAllFuncsIndex t) \<and> fst e = f"
    using bsearch_sound [OF Some] buildIndex_sorted(2) [OF t(1)] t(2) by simp
  then show ?thesis
    using buildIndex_sorted(3) [OF t(1)] t(2) assms(2) by auto
qed

lemma initRangeFuncs_ok:
  assumes "initRangeFuncs internal groups = Some t"
  shows "tableOk t" "set (mAllFuncs t) = set (groupFuncs internal) \<union> (\<Union>g\<in>set groups. set (groupFuncs g))"
  using assms addFuncs_some [of MTK_MAX_RANGE_FUNC_CNT
      "groupFuncs internal @ concat (map groupFuncs groups)" "[]"]
  by (auto simp: initRangeFuncs_def tableOk_def split: option.splits)

lemma initCompareFuncs_ok:
  assumes "initCompareFuncs internal modules groups = Some t"
  shows "tableOk t" "set (mAllFuncs t) = set (groupFuncs internal) \<union>
    (\<Union>m\<in>set modules. set (moduleFuncs m)) \<union> (\<Union>g\<in>set groups. set (groupFuncs g))"
  using assms addFuncs_some [of MTK_MAX_COMPARE_FUNC_CNT
      "groupFuncs internal @ concat (map moduleFuncs modules) @ concat (map groupFuncs groups)" "[]"]
  by (auto simp: initCompareFuncs_def tableOk_def split: option.splits)

lemma range_lookup:
  assumes "tableOk t" "i < length (mAllFuncs t)" "mAllFuncs t ! i \<noteq> NULL"
  shows "rangeByFunc t (mAllFuncs t ! i) = Some i" "compareByFunc t (mAllFuncs t ! i) = Some i"
  using assms lookup_index [OF assms(1,2)] by (simp_all add: rangeByFunc_def compareByFunc_def)

lemma groupFuncs_not_NULL: "NULL \<notin> set (groupFuncs g)"
  by (auto simp: groupFuncs_def dest: set_takeWhileD)

text \<open>Every range callback of the server and of its extensions, and \<open>NULL\<close>, gets a number from which
  \<open>rangeById\<close> gives it back; every number up to the count stands for a function that has this number;
  a function that was not registered trips the assertion.\<close>

theorem range_ids_roundtrip:
  assumes "initRangeFuncs internal groups = Some t"
  shows "(\<forall>f. f = NULL \<or> f \<in> set (groupFuncs internal) \<or> (\<exists>g\<in>set groups. f \<in> set (groupFuncs g)) \<longrightarrow>
      (\<exists>i \<le> length (mAllFuncs t). rangeByFunc t f = Some i \<and> rangeById t i = Some f)) \<and>
    (\<forall>i \<le> length (mAllFuncs t). \<exists>f. rangeById t i = Some f \<and> rangeByFunc t f = Some i) \<and>
    (\<forall>f. f \<noteq> NULL \<and> f \<notin> set (mAllFuncs t) \<longrightarrow> rangeByFunc t f = None)"
proof -
  note ok = initRangeFuncs_ok [OF assms]
  have all: "f \<in> set (mAllFuncs t)"
    if "f \<in> set (groupFuncs internal) \<or> (\<exists>g\<in>set groups. f \<in> set (groupFuncs g))" for f
    using that ok(2) by auto
  have "NULL \<notin> set (mAllFuncs t)"
    using ok(2) groupFuncs_not_NULL by simp
  then have nz: "mAllFuncs t ! i \<noteq> NULL" if "i < length (mAllFuncs t)" for i
    using nth_mem [OF that] by metis
  have 1: "\<exists>i \<le> length (mAllFuncs t). rangeByFunc t f = Some i \<and> rangeById t i = Some f"
    if "f \<in> set (mAllFuncs t)" for f
  proof -
    obtain i where i: "i < length (mAllFuncs t)" "mAllFuncs t ! i = f"
      using \<open>f \<in> set (mAllFuncs t)\<close> by (auto simp: in_set_conv_nth)
    then have "rangeByFunc t f = Some i" "rangeById t i = Some f"
      using range_lookup(1) [OF ok(1) i(1) nz [OF i(1)]] by (auto simp: rangeById_def)
    then show ?thesis
      using i(1) by (intro exI [of _ i]) simp
  qed
  have 2: "\<exists>i \<le> length (mAllFuncs t). rangeByFunc t NULL = Some i \<and> rangeById t i = Some NULL"
    by (simp add: rangeByFunc_def rangeById_def)
  have 3: "\<exists>f. rangeById t i = Some f \<and> rangeByFunc t f = Some i" if "i \<le> length (mAllFuncs t)" for i
  proof (cases "i < length (mAllFuncs t)")
    case True
    then show ?thesis
      using range_lookup(1) [OF ok(1) True nz [OF True]] by (simp add: rangeById_def)
  next
    case False
    then show ?thesis
      using that by (simp add: rangeByFunc_def rangeById_def)
  qed
  show ?thesis
    using 1 2 3 all lookup_unknown [OF ok(1)] by (auto simp: rangeByFunc_def [of t])
qed

text \<open>Every comparison function of the server, of a type module or of an extension, and \<open>NULL\<close>, gets a
  number from which \<open>compareById\<close> gives it back, and different functions get different numbers.\<close>

theorem compare_ids_roundtrip:
  assumes "initCompareFuncs internal modules groups = Some t"
    and "f = NULL \<or> f \<in> set (groupFuncs internal) \<or> (\<exists>m\<in>set modules. f \<in> set (moduleFuncs m)) \<or>
      (\<exists>g\<in>set groups. f \<in> set (groupFuncs g))"
  shows "\<exists>i. compareByFunc t f = Some i \<and> compareById t i = Some f \<and> i \<le> length (mAllFuncs t)"
proof (cases "f = NULL")
  case True
  then show ?thesis
    by (simp add: compareByFunc_def compareById_def)
next
  case False
  note ok = initCompareFuncs_ok [OF assms(1)]
  have "f \<in> set (mAllFuncs t)"
    using assms(2) False ok(2) by auto
  then obtain i where i: "i < length (mAllFuncs t)" "mAllFuncs t ! i = f"
    by (auto simp: in_set_conv_nth)
  then have "compareByFunc t f = Some i" "compareById t i = Some f"
    using range_lookup(2) [OF ok(1) i(1)] False by (auto simp: compareById_def)
  then show ?thesis
    using i(1) by auto
qed

lemma sample_range_table: "initRangeFuncs [7, 3, 0] [[3, 9, 0, 5]] =
    Some \<lparr> mAllFuncs = [7, 3, 9], mAllFuncsIndex = [(3, 1), (7, 0), (9, 2)] \<rparr>"
  by (simp add: initRangeFuncs_def groupFuncs_def addFunc_def buildIndex_def
      MTK_MAX_RANGE_FUNC_CNT_def)

theorem range_ids_roundtrip_witness:
  "rangeByFunc \<lparr> mAllFuncs = [7, 3, 9], mAllFuncsIndex = [(3, 1), (7, 0), (9, 2)] \<rparr> 5 = None"
  using range_ids_roundtrip [OF sample_range_table] by simp

theorem compare_ids_roundtrip_witness:
  "\<exists>i. compareByFunc \<lparr> mAllFuncs = [7, 4, 8], mAllFuncsIndex = [(4, 1), (7, 0), (8, 2)] \<rparr> 8 = Some i \<and>
    compareById \<lparr> mAllFuncs = [7, 4, 8], mAllFuncsIndex = [(4, 1), (7, 0), (8, 2)] \<rparr> i = Some 8"
proof -
  have "initCompareFuncs [7, 0] [[(4, 8)], [(4, 7)]] [] =
      Some \<lparr> mAllFuncs = [7, 4, 8], mAllFuncsIndex = [(4, 1), (7, 0), (8, 2)] \<rparr>"
    by (simp add: initCompareFuncs_def groupFuncs_def moduleFuncs_def addFunc_def buildIndex_def
        MTK_MAX_COMPARE_FUNC_CNT_def)
  from compare_ids_roundtrip [OF this, of 8] show ?thesis
    by (auto simp: moduleFuncs_def)
qed

end
