(* ===== verification/DateCalendar.thy ===== *)
theory DateCalendar
  imports MtdDate
begin

text \<open>
  The calendar behind dates: day numbers, weekdays and weeks (\<open>src/src/mt/include/mtc.h\<close>,
  \<open>src/src/mt/mtc/mtc.cpp\<close>) and the conversions between a date and the time since
  0001-01-01 00:00:00 (\<open>convertDate2Interval\<close> and \<open>convertInterval2Date\<close> in
  \<open>src/src/mt/mtd/mtdDate.cpp\<close>).  Until 1582-10-04 the calendar is the Julian one, from 1582-10-15
  the Gregorian; year 0 is 1 BC.

  The \<open>SInt\<close> and \<open>SLong\<close> variables of these functions are numbers here: the lemmas on their range
  show that no operation on a valid date leaves it.  The result of a narrowing conversion in an
  argument of \<open>makeDate\<close> is the word of the number.
\<close>

subsection \<open>Days and weeks\<close>

text \<open>The table \<open>sDays\<close> of \<open>dayOfYear\<close>.\<close>

definition dayTable :: "int list list" where
  "dayTable = [[0, 0, 31, 59, 90, 120, 151, 181, 212, 243, 273, 304, 334, 365],
     [0, 0, 31, 60, 91, 121, 152, 182, 213, 244, 274, 305, 335, 366]]"

definition dayOfYear :: "int \<Rightarrow> int \<Rightarrow> int \<Rightarrow> int" where
  "dayOfYear aYear aMonth aDay =
     (if isLeapYear (word_of_int aYear) then dayTable ! 1 ! nat aMonth + aDay
      else dayTable ! 0 ! nat aMonth + aDay)"

definition dayOfCommonEra :: "int \<Rightarrow> int \<Rightarrow> int \<Rightarrow> int" where
  "dayOfCommonEra aYear aMonth aDay =
     (if aYear < 1582 then
        (if aYear \<le> 0 then aYear * 365 + aYear sdiv 4 + dayOfYear aYear aMonth aDay - 366
         else (aYear - 1) * 365 + (aYear - 1) sdiv 4 + dayOfYear aYear aMonth aDay)
      else if aYear = 1582 then
        (if aMonth < 10 \<or> aMonth = 10 \<and> aDay < 15
         then (aYear - 1) * 365 + (aYear - 1) sdiv 4 + dayOfYear aYear aMonth aDay
         else (aYear - 1) * 365 + (aYear - 1) sdiv 4 + dayOfYear aYear aMonth aDay - 10)
      else
        (if aYear \<le> 1600
         then (aYear - 1) * 365 + (aYear - 1) sdiv 4 + dayOfYear aYear aMonth aDay - 10
         else (aYear - 1) * 365 + (aYear - 1) sdiv 4
           - (aYear - 1 - 1600) sdiv 100 + (aYear - 1 - 1600) sdiv 400
           + dayOfYear aYear aMonth aDay - 10)) - 1"

text \<open>Sunday is 0.\<close>

definition dayOfWeek :: "int \<Rightarrow> int \<Rightarrow> int \<Rightarrow> int" where
  "dayOfWeek aYear aMonth aDay = (dayOfCommonEra aYear aMonth aDay smod 7 + 6) smod 7"

text \<open>\<open>ceil\<close> of the quotient as a double: the operands are small, so that it is the exact ceiling.\<close>

definition weekOfYear :: "int \<Rightarrow> int \<Rightarrow> int \<Rightarrow> int" where
  "weekOfYear aYear aMonth aDay = - (- (dayOfWeek aYear 1 1 + dayOfYear aYear aMonth aDay) div 7)"

definition weekOfYearForOracle :: "int \<Rightarrow> int \<Rightarrow> int \<Rightarrow> int" where
  "weekOfYearForOracle aYear aMonth aDay = (dayOfYear aYear aMonth aDay + 6) sdiv 7"

subsection \<open>Intervals\<close>

record mtdIntervalType =
  ivSecond :: int
  ivMicrosecond :: int

abbreviation MTD_DATE_MAX_YEAR_PER_SECOND :: int where
  "MTD_DATE_MAX_YEAR_PER_SECOND \<equiv> 315538070399"

abbreviation MTD_DATE_MIN_YEAR_PER_SECOND :: int where
  "MTD_DATE_MIN_YEAR_PER_SECOND \<equiv> -315576000000"

text \<open>The test that raises \<open>ERR_INVALID_YEAR\<close>.\<close>

definition invalidYear :: "mtdIntervalType \<Rightarrow> bool" where
  "invalidYear i \<longleftrightarrow> ivSecond i > MTD_DATE_MAX_YEAR_PER_SECOND \<or>
     ivSecond i < MTD_DATE_MIN_YEAR_PER_SECOND \<or>
     ivSecond i = MTD_DATE_MIN_YEAR_PER_SECOND \<and> ivMicrosecond i < 0"

definition convertDate2Interval :: "mtdDateType \<Rightarrow> mtdIntervalType option" where
  "convertDate2Interval aDate =
     (if MTD_DATE_IS_NULL aDate then None
      else
        let s1 = dayOfCommonEra (sint (year aDate)) (uint (month aDate)) (uint (day aDate)) * 86400;
            s2 = s1 + (uint (hour aDate) * 3600 + uint (minute aDate) * 60 + uint (second aDate));
            us = uint (microSecond aDate);
            i = (if s2 < 0 \<and> us > 0 then \<lparr> ivSecond = s2 + 1, ivMicrosecond = us - 1000000 \<rparr>
                 else \<lparr> ivSecond = s2, ivMicrosecond = us \<rparr>) in
        if invalidYear i then None else Some i)"

text \<open>The year of a day number, and the day of that year, from 0.  First the days before
  0001-01-01 in cycles of four years, with the day counted from the end of the cycle.\<close>

definition yearBC :: "int \<Rightarrow> int \<times> int" where
  "yearBC sDays = (let
     s4Years = sDays sdiv 1461;
     r = sDays smod 1461;
     (s4Years, r) = (if s4Years < 0 \<and> r = 0 then (s4Years + 1, -1461) else (s4Years, r));
     (s1Years, r) = (if r < -1096 then (-3, r + 1461)
       else if r < -731 then (-2, r + 1096)
       else if r < -366 then (-1, r + 731)
       else (0, r + 366)) in
     (s4Years * 4 + s1Years, r))"

text \<open>Then the days since: cycles of four years until 1600, of 400, 100 and 4 years after it.\<close>

definition yearAD :: "int \<Rightarrow> int \<times> int" where
  "yearAD sDays = (let
     (s400Years, s100Years, s4Years, r) =
       (if sDays < 577737 then (0, 0, sDays sdiv 1461, sDays smod 1461)
        else let n = sDays + 10 in
          if n \<le> 400 * 1461 then (0, 0, n sdiv 1461, n smod 1461)
          else let
            n1 = n - 400 * 1461;
            s400Years = n1 sdiv 146097;
            n2 = n1 smod 146097;
            s100Years = n2 sdiv 36524;
            n3 = n2 smod 36524;
            (s100Years, n3) = (if s100Years = 4 then (3, n3 + 36524) else (s100Years, n3)) in
            (s400Years, s100Years, 400 + n3 sdiv 1461, n3 smod 1461));
     (s1Years, r) = (if r \<ge> 1095 then (3, r - 1095)
       else if r \<ge> 730 then (2, r - 730)
       else if r \<ge> 365 then (1, r - 365)
       else (0, r)) in
     (s400Years * 400 + s100Years * 100 + s4Years * 4 + s1Years + 1, r))"

definition sStartDayOfMonth :: "int list list" where
  "sStartDayOfMonth = [[0, 31, 59, 90, 120, 151, 181, 212, 243, 273, 304, 334, 365],
     [0, 31, 60, 91, 121, 152, 182, 213, 244, 274, 305, 335, 366]]"

text \<open>The loop over the months, from \<open>sMonth\<close> on.\<close>

function monthLoop :: "int list \<Rightarrow> int \<Rightarrow> nat \<Rightarrow> nat" where
  "monthLoop starts n sMonth =
     (if sMonth < 13 then (if starts ! sMonth \<ge> n then sMonth else monthLoop starts n (sMonth + 1))
      else sMonth)"
  by pat_completeness auto
termination by (relation "measure (\<lambda>(_, _, sMonth). 13 - sMonth)") auto

declare monthLoop.simps [simp del]

text \<open>The parts of an interval: year, day of the year, second of the day and microsecond.\<close>

definition intervalParts :: "mtdIntervalType \<Rightarrow> int \<times> int \<times> int \<times> int" where
  "intervalParts aInterval =
     (let
        sDays = ivSecond aInterval sdiv 86400;
        sSeconds = ivSecond aInterval smod 86400;
        sMicroSecond = toSInt (ivMicrosecond aInterval) in
      if sDays < 0 \<or> sSeconds < 0 \<or> sMicroSecond < 0 then
        let (sSeconds, sMicroSecond) =
              (if sMicroSecond < 0 then (sSeconds - 1, sMicroSecond + 1000000) else (sSeconds, sMicroSecond));
            (sDays, sSeconds) =
              (if sSeconds < 0 then (sDays - 1, sSeconds + 86400) else (sDays, sSeconds));
            (sYear, sDays) = yearBC sDays in
        (sYear, sDays, sSeconds, sMicroSecond)
      else
        let (sYear, sDays) = yearAD sDays in (sYear, sDays, sSeconds, sMicroSecond))"

definition convertInterval2Date :: "mtdIntervalType \<Rightarrow> mtdDateType \<Rightarrow> mtdDateType option" where
  "convertInterval2Date aInterval aDate =
     (if invalidYear aInterval then None
      else case intervalParts aInterval of (sYear, sDays, sSeconds, sMicroSecond) \<Rightarrow>
        let
          sYear = word_of_int sYear :: 16 word;
          sDays = sDays + 1;
          sLeap = (if isLeapYear sYear then 1 else 0);
          sMonth = monthLoop (sStartDayOfMonth ! sLeap) sDays 1;
          sDay = sDays - sStartDayOfMonth ! sLeap ! (sMonth - 1);
          sHour = sSeconds sdiv 3600;
          sSeconds = sSeconds smod 3600;
          sMinute = sSeconds sdiv 60;
          sSecond = sSeconds smod 60 in
        makeDate aDate sYear (word_of_int (int sMonth)) (word_of_int sDay) (word_of_int sHour)
          (word_of_int sMinute) (word_of_int sSecond) (word_of_int sMicroSecond))"

subsection \<open>Years as days\<close>

text \<open>The day on which a year starts, had no days been left out in 1582.\<close>

definition yearStart :: "int \<Rightarrow> int" where
  "yearStart y = 365 * (y - 1) + (y - 1) div 4 -
     (if y > 1600 then (y - 1601) div 100 - (y - 1601) div 400 else 0)"

definition yearLength :: "int \<Rightarrow> int" where
  "yearLength y = (if leap y then 366 else 365)"

lemma dvd_shift: "400 dvd (y - 1600 :: int) \<longleftrightarrow> 400 dvd y" "100 dvd (y - 1600 :: int) \<longleftrightarrow> 100 dvd y"
  by presburger+

lemma yearStart_step: "yearStart (y + 1) = yearStart y + yearLength y"
proof -
  have quarter: "y div 4 = (y - 1) div 4 + (if 4 dvd y then 1 else 0)"
    using div_step [of 4 "y - 1"] by simp
  consider "y < 1583" | "1583 \<le> y" "y < 1600" | "y = 1600" | "1600 < y" by linarith
  then show ?thesis
  proof cases
    case 1
    then show ?thesis using quarter by (simp add: yearStart_def yearLength_def leap_def)
  next
    case 2
    then have "\<not> 100 dvd y" by presburger
    then show ?thesis using 2 quarter by (simp add: yearStart_def yearLength_def leap_def)
  next
    case 3
    then show ?thesis by (simp add: yearStart_def yearLength_def leap_def)
  next
    case 4
    have "(y - 1600) div 100 = (y - 1601) div 100 + (if 100 dvd y then 1 else 0)"
      "(y - 1600) div 400 = (y - 1601) div 400 + (if 400 dvd y then 1 else 0)"
      using div_step [of 100 "y - 1601"] div_step [of 400 "y - 1601"] dvd_shift [of y] by simp_all
    moreover have "400 dvd y \<Longrightarrow> 100 dvd y" "100 dvd y \<Longrightarrow> 4 dvd y" by presburger+
    moreover have "365 * y + a' - (b' - c') = 365 * (y - 1) + a - (b - c) + (if P \<and> (\<not> Q \<or> R) then 366 else 365)"
      if "a' = a + (if P then 1 else 0)" "b' = b + (if Q then 1 else 0)" "c' = c + (if R then 1 else 0)"
        "R \<Longrightarrow> Q" "Q \<Longrightarrow> P" for a b c a' b' c' :: int and P Q R
      using that by (cases P; cases Q; cases R) simp_all
    ultimately have "365 * y + y div 4 - ((y - 1600) div 100 - (y - 1600) div 400) =
        365 * (y - 1) + (y - 1) div 4 - ((y - 1601) div 100 - (y - 1601) div 400) +
        (if 4 dvd y \<and> (\<not> 100 dvd y \<or> 400 dvd y) then 366 else 365)"
      using quarter by blast
    then show ?thesis using 4 by (simp add: yearStart_def yearLength_def leap_def)
  qed
qed

lemma yearLength_bounds: "365 \<le> yearLength y" "yearLength y \<le> 366"
  by (simp_all add: yearLength_def)

lemma yearStart_add: "yearStart y + 365 * int n \<le> yearStart (y + int n)"
proof (induction n)
  case (Suc n)
  then show ?case using yearStart_step [of "y + int n"] yearLength_bounds(1) [of "y + int n"]
    by (simp add: algebra_simps)
qed simp

lemma yearStart_mono: "y < z \<Longrightarrow> yearStart y + yearLength y \<le> yearStart z"
proof -
  assume "y < z"
  then obtain n where "z - (y + 1) = int n" using nonneg_int_cases [of "z - (y + 1)"] by auto
  then have "z = (y + 1) + int n" by simp
  then show ?thesis using yearStart_add [of "y + 1" n] yearStart_step [of y] by simp
qed

lemma yearStart_unique:
  assumes "yearStart y + r = yearStart z + q" "0 \<le> r" "r < yearLength y" "0 \<le> q" "q < yearLength z"
  shows "y = z \<and> r = q"
  using assms yearStart_mono [of y z] yearStart_mono [of z y] by (cases y z rule: linorder_cases) auto

text \<open>The years that \<open>convertInterval2Date\<close> finds.\<close>

lemma yearBC_correct:
  assumes "n < 0" "yearBC n = (y, r)"
  shows "yearStart y + r = n \<and> 0 \<le> r \<and> r < yearLength y \<and> y \<le> 0"
proof -
  define q p where "q = (- n) div 1461" and "p = (- n) mod 1461"
  have n: "n = - (q * 1461 + p)" "0 \<le> p" "p < 1461" "0 \<le> q" and pos: "0 < p \<or> 0 < q"
    using assms(1) div_mult_mod_eq [of "- n" 1461] unfolding q_def p_def
    by (simp_all add: pos_imp_zdiv_nonneg_iff, linarith+)
  have sd: "n sdiv 1461 = - q" "n smod 1461 = - p"
    using assms(1) by (simp_all add: sdiv_nonpos smod_nonpos q_def p_def)
  have div: "(- 4 * q - 4) div 4 = - q - 1" "(- 4 * q - 3) div 4 = - q - 1" "(- 4 * q - 2) div 4 = - q - 1"
    "(- 4 * q - 1) div 4 = - q - 1" "(- 4 * q) div 4 = - q" by presburger+
  have dvd: "4 dvd - 4 * q" "\<not> 4 dvd - 4 * q - 1" "\<not> 4 dvd - 4 * q - 2" "\<not> 4 dvd - 4 * q - 3"
    "\<not> 4 dvd 1 - 4 * q" by presburger+
  consider "p = 0" | "p > 1096" | "731 < p" "p \<le> 1096" | "366 < p" "p \<le> 731" | "0 < p" "p \<le> 366"
    using n(2) by linarith
  then show ?thesis
  proof cases
    case 1
    then have "0 < q" using pos by simp
    have "y = 1 - 4 * q" "r = 0"
      using assms(2) 1 \<open>0 < q\<close> unfolding yearBC_def sd by (simp_all add: Let_def)
    then show ?thesis using 1 n(1) div(5) dvd(5) \<open>0 < q\<close> by (simp add: yearStart_def yearLength_def leap_def)
  next
    case 2
    have "y = - 4 * q - 3" "r = 1461 - p"
      using assms(2) 2 unfolding yearBC_def sd by (simp_all add: Let_def)
    then show ?thesis using 2 n div(1) dvd(4) by (simp add: yearStart_def yearLength_def leap_def)
  next
    case 3
    have "y = - 4 * q - 2" "r = 1096 - p"
      using assms(2) 3 unfolding yearBC_def sd by (simp_all add: Let_def)
    then show ?thesis using 3 n div(2) dvd(3) by (simp add: yearStart_def yearLength_def leap_def)
  next
    case 4
    have "y = - 4 * q - 1" "r = 731 - p"
      using assms(2) 4 unfolding yearBC_def sd by (simp_all add: Let_def)
    then show ?thesis using 4 n div(3) dvd(2) by (simp add: yearStart_def yearLength_def leap_def)
  next
    case 5
    have "y = - 4 * q" "r = 366 - p"
      using assms(2) 5 unfolding yearBC_def sd by (simp_all add: Let_def)
    then show ?thesis using 5 n div(4) dvd(1) by (simp add: yearStart_def yearLength_def leap_def)
  qed
qed

lemma div_mod_pos:
  "0 \<le> v \<Longrightarrow> 0 < k \<Longrightarrow> v = v div k * k + v mod k \<and> 0 \<le> v mod k \<and> v mod k < k \<and> 0 \<le> v div (k :: int)"
  by (simp add: pos_imp_zdiv_nonneg_iff)

lemma leap_julian: "y \<le> 1601 \<Longrightarrow> leap y \<longleftrightarrow> 4 dvd y"
  unfolding leap_def by presburger

lemma yearStart_julian: "y \<le> 1601 \<Longrightarrow> yearStart y = 365 * (y - 1) + (y - 1) div 4"
  by (cases "y = 1601") (simp_all add: yearStart_def)

text \<open>The year within a cycle of four, as the code splits the days of the cycle.\<close>

definition yearOfCycle :: "int \<Rightarrow> int \<times> int" where
  "yearOfCycle r = (if r \<ge> 1095 then (3, r - 1095) else if r \<ge> 730 then (2, r - 730)
     else if r \<ge> 365 then (1, r - 365) else (0, r))"

lemma yearOfCycle_correct:
  assumes "yearOfCycle r = (e, r')" "0 \<le> r" "r < 1461"
  shows "r = 365 * e + r'" "0 \<le> e" "e \<le> 3" "0 \<le> r'" "r' < 365 \<or> e = 3 \<and> r' = 365 \<and> r = 1460"
  using assms by (auto simp: yearOfCycle_def split: if_splits)

lemma julian_cycle:
  assumes "0 \<le> v" "v \<le> 584400" "yearOfCycle (v mod 1461) = (e, r)" "y = v div 1461 * 4 + e + 1"
  shows "yearStart y + r = v \<and> 0 \<le> r \<and> r < yearLength y \<and> 1 \<le> y"
proof -
  define q p where "q = v div 1461" and "p = v mod 1461"
  have v: "v = q * 1461 + p" "0 \<le> p" "p < 1461" "0 \<le> q"
    using div_mod_pos [OF assms(1), of 1461] by (simp_all add: q_def p_def)
  have q: "q \<le> 400" "q = 400 \<Longrightarrow> p = 0" using v assms(2) by linarith+
  note C = yearOfCycle_correct [OF assms(3) [folded p_def] v(2,3)]
  have "y = 4 * q + e + 1" using assms(4) unfolding q_def by simp
  moreover have "4 * q + e \<le> 1600"
  proof (cases "q = 400")
    case True
    then show ?thesis using q(2) C(1,2,4) by simp
  next
    case False
    then show ?thesis using q(1) C(3) by simp
  qed
  ultimately have y: "y = 4 * q + e + 1" "y \<le> 1601" by simp_all
  have "(y - 1) div 4 = q" using C(2,3) y by presburger
  moreover have "e = 3 \<Longrightarrow> 4 dvd y" using y by presburger
  ultimately show ?thesis
    using v y C unfolding yearStart_julian [OF y(2)] yearLength_def leap_julian [OF y(2)] by auto
qed

lemma gregorian_cycle:
  assumes "0 < n1" "b0 = n1 mod 146097 div 36524" "n0 = n1 mod 146097 mod 36524"
    and "(b, n3) = (if b0 = 4 then (3, n0 + 36524) else (b0, n0))"
    and "yearOfCycle (n3 mod 1461) = (e, r)"
    and "y = n1 div 146097 * 400 + b * 100 + (400 + n3 div 1461) * 4 + e + 1"
  shows "yearStart y + r = 584400 + n1 \<and> 0 \<le> r \<and> r < yearLength y \<and> 1600 < y"
proof -
  define a n2 c r4 where "a = n1 div 146097" and "n2 = n1 mod 146097" and "c = n3 div 1461" and "r4 = n3 mod 1461"
  have n1: "n1 = a * 146097 + n2" "0 \<le> n2" "n2 < 146097" "0 \<le> a"
    using div_mod_pos [of n1 146097] assms(1) by (simp_all add: a_def n2_def)
  have n2: "n2 = b0 * 36524 + n0" "0 \<le> n0" "n0 < 36524" "0 \<le> b0"
    using div_mod_pos [OF n1(2), of 36524] unfolding assms(2,3) n2_def [symmetric] by simp_all
  have b0: "b0 \<le> 4" "b0 = 4 \<Longrightarrow> n0 = 0" using n1(3) n2 by linarith+
  have b: "n2 = b * 36524 + n3" "0 \<le> n3" "0 \<le> b" "b \<le> 3" "n3 \<le> 36524" "n3 = 36524 \<Longrightarrow> b = 3"
    using n2 b0 assms(4) by (auto split: if_splits)
  have n3': "n3 = c * 1461 + r4" "0 \<le> r4" "r4 < 1461" "0 \<le> c"
    using div_mod_pos [OF b(2), of 1461] by (simp_all add: c_def r4_def)
  have n3: "n3 = c * 1461 + r4" "0 \<le> r4" "r4 < 1461" "0 \<le> c" "c \<le> 24" "c = 24 \<Longrightarrow> r4 = 1460 \<Longrightarrow> b = 3"
    using n3' b(5,6) by linarith+
  note C = yearOfCycle_correct [OF assms(5) [folded r4_def] n3(2,3)]
  have y: "y = 400 * a + 100 * b + 4 * c + e + 1601"
    using assms(6) unfolding a_def [symmetric] c_def [symmetric] by simp
  have s: "0 \<le> 4 * c + e" "4 * c + e < 100" using n3(4,5) C(2,3) by auto
  have "(y - 1601) div 100 = 4 * a + b"
    by (rule int_div_pos_eq [of _ _ _ "4 * c + e"]) (use s y in auto)
  moreover have "(y - 1601) div 400 = a"
    by (rule int_div_pos_eq [of _ _ _ "100 * b + 4 * c + e"]) (use s b y in auto)
  moreover have "(y - 1) div 4 = 400 + 100 * a + 25 * b + c"
    by (rule int_div_pos_eq [of _ _ _ e]) (use C(2,3) y in auto)
  moreover have "1600 < y" using y n1(4) b(3) s by simp
  moreover have "r4 = 1460 \<Longrightarrow> e = 3 \<Longrightarrow> leap y"
  proof -
    assume *: "r4 = 1460" "e = 3"
    have "4 dvd y" using y * by presburger
    moreover have "400 dvd y" if "100 dvd y"
    proof -
      have "100 dvd 4 * c + 4" using that y * by presburger
      then have "c = 24" using n3(4,5) by presburger
      then show ?thesis using n3(6) * y by presburger
    qed
    ultimately show "leap y" by (auto simp: leap_def)
  qed
  ultimately show ?thesis
    using n1(1) b(1) n3(1) C y by (auto simp: yearStart_def yearLength_def)
qed

text \<open>The day number with the ten days of 1582 counted.\<close>

definition withGap :: "int \<Rightarrow> int" where
  "withGap n = (if n < 577737 then n else n + 10)"

lemma yearAD_correct:
  assumes "0 \<le> n" "yearAD n = (y, r)"
  shows "yearStart y + r = withGap n \<and> 0 \<le> r \<and> r < yearLength y \<and> 1 \<le> y"
proof (cases "withGap n \<le> 584400")
  case True
  let ?v = "withGap n"
  have v: "0 \<le> ?v" using assms(1) by (simp add: withGap_def)
  obtain e r' where C: "yearOfCycle (?v mod 1461) = (e, r')" by (cases "yearOfCycle (?v mod 1461)")
  have "yearAD n = (?v div 1461 * 4 + e + 1, r')"
  proof -
    have "?v sdiv 1461 = ?v div 1461" "?v smod 1461 = ?v mod 1461" using v by (simp_all add: sdiv_nonneg smod_nonneg)
    note v' = this
    show ?thesis
    proof (cases "n < 577737")
      case True
      then have n: "(n < 577737) = True" "n = ?v" by (simp_all add: withGap_def)
      show ?thesis
        unfolding yearAD_def yearOfCycle_def [symmetric] Let_def n(1) if_True prod.case
        unfolding n(2) [symmetric] using v' C n(2) by simp
    next
      case False
      then have n: "(n < 577737) = False" "(n + 10 \<le> 400 * 1461) = True" "n + 10 = ?v"
        using True by (simp_all add: withGap_def)
      show ?thesis
        unfolding yearAD_def yearOfCycle_def [symmetric] Let_def n(1,2) if_True if_False prod.case
        unfolding n(3) using v' C by simp
    qed
  qed
  then show ?thesis using julian_cycle [OF v True C] assms(2) by simp
next
  case False
  then have n: "577737 \<le> n" "584400 < n + 10" "withGap n = n + 10" using assms(1) by (auto simp: withGap_def split: if_splits)
  define n1 where "n1 = n + 10 - 584400"
  have n1: "0 < n1" "withGap n = 584400 + n1" using n by (simp_all add: n1_def)
  define b0 n0 where "b0 = n1 mod 146097 div 36524" and "n0 = n1 mod 146097 mod 36524"
  obtain b n3 where B: "(b, n3) = (if b0 = 4 then (3, n0 + 36524) else (b0, n0))" by (metis prod.exhaust)
  obtain e r' where C: "yearOfCycle (n3 mod 1461) = (e, r')" by (cases "yearOfCycle (n3 mod 1461)")
  have n3: "0 \<le> n3" using B by (auto simp: n0_def split: if_splits)
  have d: "n + 10 - 400 * 1461 = n1" "(n < 577737) = False" "(n + 10 \<le> 400 * 1461) = False"
    using n by (simp_all add: n1_def)
  have s: "n1 smod 146097 = n1 mod 146097" "n1 sdiv 146097 = n1 div 146097"
    "(n1 mod 146097) sdiv 36524 = b0" "(n1 mod 146097) smod 36524 = n0"
    "n3 sdiv 1461 = n3 div 1461" "n3 smod 1461 = n3 mod 1461"
    using n1(1) n3 by (simp_all add: sdiv_nonneg smod_nonneg b0_def n0_def)
  have "yearAD n = (n1 div 146097 * 400 + b * 100 + (400 + n3 div 1461) * 4 + e + 1, r')"
    unfolding yearAD_def yearOfCycle_def [symmetric] Let_def d if_False
    unfolding s B [symmetric] prod.case
    unfolding s prod.case C by simp
  then show ?thesis
    using gregorian_cycle [OF n1(1) b0_def n0_def B C refl] assms(2) n1(2) by simp
qed

subsection \<open>Months\<close>

definition monthStart :: "int \<Rightarrow> int \<Rightarrow> int" where
  "monthStart y m = sStartDayOfMonth ! (if leap y then 1 else 0) ! nat (m - 1)"

lemma leap_word: "- 32768 \<le> y \<Longrightarrow> y < 32768 \<Longrightarrow> isLeapYear (word_of_int y) = leap y"
  by (simp add: isLeapYear_leap signed_of_int signed_take_bit_int_eq_self)

lemma dayOfYear_start:
  assumes "1 \<le> m" "m \<le> 12" "- 32768 \<le> y" "y < 32768"
  shows "dayOfYear y m d = monthStart y m + d"
  using assms(1,2)
  by (rule month_cases)
    (simp_all add: dayOfYear_def leap_word [OF assms(3,4)] monthStart_def dayTable_def sStartDayOfMonth_def)

lemma monthStart_next:
  assumes "1 \<le> m" "m \<le> 12"
  shows "sStartDayOfMonth ! (if leap y then 1 else 0) ! nat m = monthStart y m + daysIn y m"
  using assms by (rule month_cases) (simp_all add: monthStart_def sStartDayOfMonth_def daysIn_def)

lemma monthStart_bounds:
  assumes "1 \<le> m" "m \<le> 12"
  shows "0 \<le> monthStart y m" "monthStart y m + daysIn y m \<le> yearLength y"
  using assms by (rule month_cases; simp add: monthStart_def sStartDayOfMonth_def daysIn_def yearLength_def)+

lemma monthStart_mono:
  assumes "1 \<le> m" "m < k" "k \<le> 12"
  shows "monthStart y m + daysIn y m \<le> monthStart y k"
proof -
  have "sorted (sStartDayOfMonth ! (if leap y then 1 else 0))" by (simp add: sStartDayOfMonth_def)
  moreover have "nat m \<le> nat (k - 1)" "nat (k - 1) < length (sStartDayOfMonth ! (if leap y then 1 else 0))"
    using assms by (simp_all add: sStartDayOfMonth_def)
  ultimately show ?thesis
    using monthStart_next [of m y] assms sorted_nth_mono by (fastforce simp: monthStart_def)
qed

text \<open>The month of a day of the year.\<close>

lemma monthLoop_finds:
  assumes "i \<le> m" "m < 13" "starts ! m \<ge> n" "\<And>j. i \<le> j \<Longrightarrow> j < m \<Longrightarrow> starts ! j < n"
  shows "monthLoop starts n i = m"
  using assms
proof (induction "m - i" arbitrary: i)
  case 0
  then show ?case by (simp add: monthLoop.simps [of _ _ i])
next
  case (Suc k)
  have "starts ! i < n" using Suc.prems Suc.hyps(2) by simp
  moreover have "monthLoop starts n (i + 1) = m" using Suc by simp
  ultimately show ?case using Suc.prems by (simp add: monthLoop.simps [of _ _ i])
qed

lemma monthLoop_month:
  assumes "1 \<le> m" "m \<le> 12" "1 \<le> d" "d \<le> daysIn y m"
  shows "monthLoop (sStartDayOfMonth ! (if leap y then 1 else 0)) (monthStart y m + d) 1 = nat m"
proof (rule monthLoop_finds)
  let ?t = "sStartDayOfMonth ! (if leap y then 1 else 0)"
  show "?t ! nat m \<ge> monthStart y m + d" using monthStart_next [OF assms(1,2)] assms(4) by simp
  show "?t ! j < monthStart y m + d" if "1 \<le> j" "j < nat m" for j
  proof -
    have j: "1 \<le> int j" "int j < m" "int j \<le> 12" using that assms(2) by linarith+
    then show ?thesis
      using monthStart_next [OF j(1,3), of y] monthStart_mono [OF j(1,2) assms(2), of y] assms(3) by simp
  qed
qed (use assms in auto)

lemma month_of_day:
  assumes "1 \<le> k" "k \<le> yearLength y"
  obtains m where "1 \<le> m" "m \<le> 12" "monthStart y m < k" "k \<le> monthStart y m + daysIn y m"
proof -
  have "\<exists>m. 1 \<le> m \<and> m \<le> 12 \<and> monthStart y m < k \<and> k \<le> monthStart y m + daysIn y m"
  proof (rule ccontr)
    assume "\<not> ?thesis"
    then have step: "monthStart y m < k \<Longrightarrow> monthStart y m + daysIn y m < k" if "1 \<le> m" "m \<le> 12" for m
      using that by (meson not_less)
    have "monthStart y (m + 1) = monthStart y m + daysIn y m" if "1 \<le> m" "m \<le> 11" for m
      using monthStart_next [of m y] that by (simp add: monthStart_def)
    then have up: "monthStart y (m + 1) < k" if "monthStart y m < k" "1 \<le> m" "m \<le> 11" for m
      using step [of m] that by simp
    have "monthStart y (1 + int n) < k" if "n \<le> 11" for n
      using that
    proof (induction n)
      case 0
      then show ?case using assms(1) by (simp add: monthStart_def sStartDayOfMonth_def)
    next
      case (Suc n)
      then show ?case using up [of "1 + int n"] by (simp add: add.commute)
    qed
    from this [of 11] have "monthStart y 12 < k" by simp
    then have "monthStart y 12 + daysIn y 12 < k" by (rule step [rotated 2]) simp_all
    then show False
      using assms(2) by (simp add: monthStart_def sStartDayOfMonth_def daysIn_def yearLength_def split: if_splits)
  qed
  then show thesis using that by blast
qed

end
