(* ===== verification/DateInstant.thy ===== *)
theory DateInstant
  imports DateCalendar
begin

text \<open>
  Dates as points of time: the microseconds since 0001-01-01 00:00:00.  A
  date goes to the interval that lasts from there to its instant, and the comparison of the packed
  words is the order of time.
\<close>

subsection \<open>Day numbers\<close>

text \<open>From 1582-10-15 on.\<close>

definition gregorian :: "int \<Rightarrow> int \<Rightarrow> int \<Rightarrow> bool" where
  "gregorian y m d \<longleftrightarrow> y > 1582 \<or> y = 1582 \<and> (m > 10 \<or> m = 10 \<and> d \<ge> 15)"

lemma dayOfCommonEra_eq:
  assumes "1 \<le> m" "m \<le> 12" "- 32768 \<le> y" "y < 32768"
  shows "dayOfCommonEra y m d =
    yearStart y + monthStart y m + d - 1 - (if gregorian y m d then 10 else 0)"
proof -
  note doy = dayOfYear_start [OF assms]
  consider "y \<le> 0" | "0 < y" "y < 1582" | "y = 1582" | "1582 < y" "y \<le> 1600" | "1600 < y" by linarith
  then show ?thesis
  proof cases
    case 1
    have "(y - 1) div 4 = - ((- y) div 4) - 1" by presburger
    then show ?thesis
      using 1 by (simp add: dayOfCommonEra_def doy yearStart_def gregorian_def sdiv_nonpos)
  next
    case 3
    then show ?thesis using assms(1,2) doy
      by (auto simp: dayOfCommonEra_def yearStart_def gregorian_def sdiv_nonneg)
  next
    case 5
    then show ?thesis
      by (simp add: dayOfCommonEra_def doy yearStart_def gregorian_def sdiv_nonneg algebra_simps)
  qed (simp_all add: dayOfCommonEra_def doy yearStart_def gregorian_def sdiv_nonneg)
qed

definition calendarDay :: "int \<Rightarrow> int \<Rightarrow> int \<Rightarrow> bool" where
  "calendarDay y m d \<longleftrightarrow> 1 \<le> m \<and> m \<le> 12 \<and> 1 \<le> d \<and> d \<le> daysIn y m \<and> \<not> gapDay y m d"

lemma gregorian_1582: "yearStart 1582 = 577460" "monthStart 1582 10 = 273" "\<not> leap 1582"
  by (simp_all add: yearStart_def monthStart_def sStartDayOfMonth_def leap_def)

text \<open>The days before the reform and from it on.\<close>

lemma gregorian_day:
  assumes "calendarDay y m d"
  shows "gregorian y m d \<Longrightarrow> 577747 \<le> yearStart y + monthStart y m + d - 1"
    "\<not> gregorian y m d \<Longrightarrow> yearStart y + monthStart y m + d - 1 < 577737"
proof -
  have md: "1 \<le> m" "m \<le> 12" "1 \<le> d" "d \<le> daysIn y m" using assms by (simp_all add: calendarDay_def)
  note M = monthStart_bounds [OF md(1,2), of y]
  { assume g: "gregorian y m d"
    show "577747 \<le> yearStart y + monthStart y m + d - 1"
    proof (cases "y = 1582")
      case True
      then show ?thesis
        using g md monthStart_mono [of 10 m y] by (cases "m = 10") (auto simp: gregorian_def gregorian_1582 daysIn_def)
    next
      case False
      then show ?thesis
        using g md(3) M(1) yearStart_mono [of 1582 y] by (auto simp: gregorian_def gregorian_1582 yearLength_def)
    qed }
  { assume g: "\<not> gregorian y m d"
    show "yearStart y + monthStart y m + d - 1 < 577737"
    proof (cases "y = 1582")
      case True
      then have "m < 10 \<or> m = 10 \<and> d < 15" using g by (auto simp: gregorian_def)
      then show ?thesis
        using assms md monthStart_mono [of m 10 y] True by (auto simp: calendarDay_def gapDay_def gregorian_1582)
    next
      case False
      then have "y < 1582" using g by (simp add: gregorian_def)
      then show ?thesis
        using md(4) M(2) yearStart_mono [of y 1582] by (simp add: gregorian_1582)
    qed }
qed

lemma withGap_day:
  assumes "calendarDay y m d" "- 32768 \<le> y" "y < 32768"
  shows "withGap (dayOfCommonEra y m d) = yearStart y + monthStart y m + d - 1"
proof -
  have md: "1 \<le> m" "m \<le> 12" using assms(1) by (simp_all add: calendarDay_def)
  show ?thesis
    using gregorian_day [OF assms(1)] by (auto simp: withGap_def dayOfCommonEra_eq [OF md assms(2,3)])
qed

text \<open>Day numbers are ordered like dates.\<close>

lemma withGap_mono: "withGap a < withGap b \<longleftrightarrow> a < b" "withGap a = withGap b \<longleftrightarrow> a = b"
  by (auto simp: withGap_def)

lemma dayOfCommonEra_less:
  assumes "calendarDay y m d" "calendarDay y' m' d'" "- 32768 \<le> y" "y < 32768" "- 32768 \<le> y'" "y' < 32768"
    and "y < y' \<or> y = y' \<and> (m < m' \<or> m = m' \<and> d < d')"
  shows "dayOfCommonEra y m d < dayOfCommonEra y' m' d'"
proof -
  have md: "1 \<le> m" "m \<le> 12" "1 \<le> d" "d \<le> daysIn y m" "1 \<le> m'" "m' \<le> 12" "1 \<le> d'" "d' \<le> daysIn y' m'"
    using assms(1,2) by (simp_all add: calendarDay_def)
  have "yearStart y + monthStart y m + d < yearStart y' + monthStart y' m' + d'"
    using assms(7)
  proof (elim disjE conjE)
    assume "y < y'"
    then show ?thesis
      using yearStart_mono [of y y'] monthStart_bounds [OF md(1,2), of y] monthStart_bounds [OF md(5,6), of y'] md by linarith
  next
    assume "y = y'" "m < m'"
    then show ?thesis using monthStart_mono [OF md(1) _ md(6), of y] md by simp
  qed simp
  then have "withGap (dayOfCommonEra y m d) < withGap (dayOfCommonEra y' m' d')"
    using withGap_day [OF assms(1,3,4)] withGap_day [OF assms(2,5,6)] by simp
  then show ?thesis by (simp only: withGap_mono)
qed

lemma dayOfCommonEra_range:
  assumes "calendarDay y m d" "- 9999 \<le> y" "y \<le> 9999"
  shows "- 3652500 \<le> dayOfCommonEra y m d" "dayOfCommonEra y m d \<le> 3652060"
proof -
  have md: "1 \<le> m" "m \<le> 12" "1 \<le> d" "d \<le> daysIn y m" using assms(1) by (simp_all add: calendarDay_def)
  have e: "yearStart (- 9999) = - 3652500" "yearStart 10000 = 3652071"
    by (simp_all add: yearStart_def)
  have "yearStart (- 9999) \<le> yearStart y"
    using yearStart_mono [of "- 9999" y] yearLength_bounds(1) [of "- 9999"] assms(2) by (cases "y = - 9999") auto
  moreover have "yearStart y + yearLength y \<le> yearStart 10000"
    using yearStart_mono [of y 10000] assms(3) by simp
  ultimately have "- 3652500 \<le> withGap (dayOfCommonEra y m d)" "withGap (dayOfCommonEra y m d) < 3652071"
    using withGap_day [OF assms(1)] assms(2,3) monthStart_bounds [OF md(1,2), of y] md e by auto
  then show "- 3652500 \<le> dayOfCommonEra y m d" "dayOfCommonEra y m d \<le> 3652060"
    by (auto simp: withGap_def split: if_splits)
qed

subsection \<open>Points of time\<close>

definition dayNumber :: "mtdDateType \<Rightarrow> int" where
  "dayNumber x = dayOfCommonEra (sint (year x)) (uint (month x)) (uint (day x))"

definition secondOfDay :: "mtdDateType \<Rightarrow> int" where
  "secondOfDay x = uint (hour x) * 3600 + uint (minute x) * 60 + uint (second x)"

definition instant :: "mtdDateType \<Rightarrow> int" where
  "instant x = dayNumber x * 86400000000 + secondOfDay x * 1000000 + uint (microSecond x)"

definition duration :: "mtdIntervalType \<Rightarrow> int" where
  "duration i = ivSecond i * 1000000 + ivMicrosecond i"

text \<open>Second and microsecond of an interval have the same sign.\<close>

definition normalInterval :: "mtdIntervalType \<Rightarrow> bool" where
  "normalInterval i \<longleftrightarrow> \<bar>ivMicrosecond i\<bar> < 1000000 \<and> (ivSecond i > 0 \<longrightarrow> ivMicrosecond i \<ge> 0) \<and>
     (ivSecond i < 0 \<longrightarrow> ivMicrosecond i \<le> 0)"

abbreviation firstInstant :: int where "firstInstant \<equiv> -315576000000000000"
abbreviation lastInstant :: int where "lastInstant \<equiv> 315538070399999999"

lemma invalidYear_duration:
  assumes "normalInterval i"
  shows "invalidYear i \<longleftrightarrow> duration i < firstInstant \<or> duration i > lastInstant"
  using assms by (auto simp: invalidYear_def duration_def normalInterval_def abs_if split: if_splits)

lemma validDate_calendar:
  "validDate x \<Longrightarrow> calendarDay (sint (year x)) (uint (month x)) (uint (day x))"
  by (simp add: validDate_def fieldsOk_def calendarDay_def)

lemma validDate_time:
  assumes "validDate x"
  shows "0 \<le> secondOfDay x" "secondOfDay x < 86400" "0 \<le> uint (microSecond x)" "uint (microSecond x) < 1000000"
  using validDateD(1) [OF assms] by (auto simp: fieldsOk_def secondOfDay_def)

lemma validDate_day:
  assumes "validDate x"
  shows "- 3652500 \<le> dayNumber x" "dayNumber x \<le> 3652060"
  using dayOfCommonEra_range [OF validDate_calendar [OF assms]] assms
  by (simp_all add: dayNumber_def validDate_def)

lemma instant_range:
  assumes "validDate x"
  shows "firstInstant \<le> instant x" "instant x \<le> lastInstant"
  unfolding instant_def using validDate_time [OF assms] validDate_day [OF assms] by linarith+

text \<open>The comparison of packed dates is the order of time.\<close>

lemma instant_less:
  assumes "validDate x" "validDate y" "dayNumber x < dayNumber y"
  shows "instant x < instant y"
  using validDate_time [OF assms(1)] validDate_time [OF assms(2)] assms(3) unfolding instant_def by linarith

lemma packed_less:
  assumes "validDate x" "validDate y"
    and "sint (year x) < sint (year y) \<or> sint (year x) = sint (year y) \<and>
      (uint (mon_day_hour x) < uint (mon_day_hour y) \<or> uint (mon_day_hour x) = uint (mon_day_hour y) \<and>
        uint (min_sec_mic x) < uint (min_sec_mic y))"
  shows "instant x < instant y"
proof -
  note X = validDateD(1,3,4) [OF assms(1)] and Y = validDateD(1,3,4) [OF assms(2)]
  note T = validDate_time [OF assms(1)] validDate_time [OF assms(2)]
  have w: "uint (mon_day_hour x) < 16384" "uint (mon_day_hour y) < 16384"
    using assms(1,2) by (simp_all add: validDate_def)
  note W = words_of_fields(1) [OF w(1)] words_of_fields(1) [OF w(2)] words_of_fields(2) [of x] words_of_fields(2) [of y]
  note B = fieldsOk_bounds [OF X(1)] fieldsOk_bounds [OF Y(1)]
  have less: "instant x < instant y"
    if "sint (year x) < sint (year y) \<or> sint (year x) = sint (year y) \<and>
      (uint (month x) < uint (month y) \<or> uint (month x) = uint (month y) \<and> uint (day x) < uint (day y))"
    using dayOfCommonEra_less [OF validDate_calendar [OF assms(1)] validDate_calendar [OF assms(2)] _ _ _ _ that]
      X(2,3) Y(2,3) by (intro instant_less assms(1,2)) (simp add: dayNumber_def)
  show ?thesis
  proof (cases "sint (year x) < sint (year y) \<or> sint (year x) = sint (year y) \<and>
      (uint (month x) < uint (month y) \<or> uint (month x) = uint (month y) \<and> uint (day x) < uint (day y))")
    case False
    then have y: "sint (year x) = sint (year y)"
      and le: "uint (mon_day_hour x) \<le> uint (mon_day_hour y)" using assms(3) by auto
    then have md: "uint (month x) = uint (month y)" "uint (day x) = uint (day y)"
      using False W(1,2) B by linarith+
    then have day: "dayNumber x = dayNumber y" using y by (simp add: dayNumber_def)
    have "uint (hour x) < uint (hour y) \<or> uint (hour x) = uint (hour y) \<and>
        uint (min_sec_mic x) < uint (min_sec_mic y)" using assms(3) y md W(1,2) by linarith
    then have hms: "uint (hour x) < uint (hour y) \<or> uint (hour x) = uint (hour y) \<and>
        (uint (minute x) < uint (minute y) \<or> uint (minute x) = uint (minute y) \<and>
          (uint (second x) < uint (second y) \<or> uint (second x) = uint (second y) \<and>
            uint (microSecond x) < uint (microSecond y)))" using W(3,4) B by linarith
    then show ?thesis
    proof -
      have "uint (hour x) * 3600000000 + uint (minute x) * 60000000 + uint (second x) * 1000000 +
          uint (microSecond x) < uint (hour y) * 3600000000 + uint (minute y) * 60000000 +
          uint (second y) * 1000000 + uint (microSecond y)"
        using hms X(1) Y(1) unfolding fieldsOk_def by linarith
      then show ?thesis by (simp add: instant_def day secondOfDay_def)
    qed
  qed (rule less)
qed

lemma dateCompare_instant:
  assumes "validDate x" "validDate y"
  shows "dateCompare x y = sgn (instant x - instant y)"
proof -
  let ?less = "\<lambda>x y. sint (year x) < sint (year y) \<or> sint (year x) = sint (year y) \<and>
      (uint (mon_day_hour x) < uint (mon_day_hour y) \<or> uint (mon_day_hour x) = uint (mon_day_hour y) \<and>
        uint (min_sec_mic x) < uint (min_sec_mic y))"
  have "x = y" if "\<not> ?less x y" "\<not> ?less y x"
  proof (rule mtdDateType.equality)
    have "sint (year x) = sint (year y)" using that by linarith
    then show "year x = year y" by (rule signed_word_eqI)
    show "mon_day_hour x = mon_day_hour y" "min_sec_mic x = min_sec_mic y"
      using that unfolding word_uint_eq_iff by linarith+
  qed simp
  then consider "?less x y" | "?less y x" | "x = y" by blast
  then show ?thesis
  proof cases
    case 1
    then have "dateCompare x y = -1" by (auto simp: dateCompare_def word_less_def)
    then show ?thesis using packed_less [OF assms 1] by simp
  next
    case 2
    then have "dateCompare x y = 1" by (auto simp: dateCompare_def word_less_def)
    then show ?thesis using packed_less [OF assms(2,1) 2] by simp
  next
    case 3
    then show ?thesis by (simp add: dateCompare_def)
  qed
qed

end
