(* ===== verification/DateConvert.thy ===== *)
theory DateConvert
  imports DateInstant
begin

text \<open>
  The conversions between dates and intervals are inverse to each other on the whole range of
  years.  The locale \<open>timeline\<close> is what the arithmetic on dates uses of them: each operation adds to
  the interval of a date and turns the result into a date again.
\<close>

subsection \<open>From a date to its interval\<close>

lemma convertDate2Interval_ok:
  assumes "validDate x"
  shows "\<exists>i. convertDate2Interval x = Some i \<and> normalInterval i \<and> duration i = instant x"
proof -
  define s where "s = dayNumber x * 86400 + secondOfDay x"
  define us where "us = uint (microSecond x)"
  define i where "i = (if s < 0 \<and> us > 0 then \<lparr> ivSecond = s + 1, ivMicrosecond = us - 1000000 \<rparr>
    else \<lparr> ivSecond = s, ivMicrosecond = us \<rparr>)"
  have us: "0 \<le> us" "us < 1000000" using validDate_time [OF assms] by (simp_all add: us_def)
  have "normalInterval i" "duration i = s * 1000000 + us"
    using us by (auto simp: i_def normalInterval_def duration_def)
  then have i: "normalInterval i" "duration i = instant x"
    by (simp_all add: instant_def s_def us_def)
  have "\<not> invalidYear i"
    using invalidYear_duration [OF i(1)] instant_range [OF assms] i(2) by simp
  moreover have "convertDate2Interval x = (if invalidYear i then None else Some i)"
    using validDateD(5) [OF assms]
    by (simp add: convertDate2Interval_def Let_def i_def s_def us_def dayNumber_def secondOfDay_def)
  ultimately show ?thesis using i by simp
qed

subsection \<open>From an interval to its date\<close>

lemma uint_word_of_int_small:
  "0 \<le> n \<Longrightarrow> n < 256 \<Longrightarrow> uint (word_of_int n :: 8 word) = n"
  "0 \<le> n \<Longrightarrow> n < 4294967296 \<Longrightarrow> uint (word_of_int n :: 32 word) = n"
  by (simp_all add: uint_word_of_int mod_pos_pos_trivial)

lemma year_range:
  assumes "yearStart y + k = withGap n" "0 \<le> k" "k < yearLength y" "- 3652500 \<le> n" "n \<le> 3652060"
  shows "- 9999 \<le> y" "y \<le> 9999"
proof -
  have e: "yearStart (- 9999) = - 3652500" "yearStart 10000 = 3652071"
    by (simp_all add: yearStart_def)
  have g: "- 3652500 \<le> withGap n" "withGap n \<le> 3652070" using assms(4,5) by (auto simp: withGap_def)
  show "- 9999 \<le> y"
    using yearStart_mono [of y "- 9999"] e g assms by (cases "y < - 9999") auto
  show "y \<le> 9999"
    using yearStart_mono [of 10000 y] yearLength_bounds(1) [of 10000] e g assms
    by (cases "y = 10000"; cases "10000 < y") auto
qed

lemma makeDate_day:
  fixes sLeap :: nat and sMonth :: nat
  assumes n: "yearStart y + k = withGap n" "0 \<le> k" "k < yearLength y" "- 3652500 \<le> n" "n \<le> 3652060"
    and sec: "0 \<le> sec" "sec < 86400" and us: "0 \<le> us" "us < 1000000"
    and l: "sLeap = (if isLeapYear (word_of_int y) then 1 else 0)"
    and m: "sMonth = monthLoop (sStartDayOfMonth ! sLeap) (k + 1) 1"
  shows "\<exists>x. makeDate D (word_of_int y) (word_of_int (int sMonth))
      (word_of_int (k + 1 - sStartDayOfMonth ! sLeap ! (sMonth - 1)))
      (word_of_int (sec sdiv 3600)) (word_of_int (sec smod 3600 sdiv 60)) (word_of_int (sec smod 3600 smod 60))
      (word_of_int us) = Some x \<and>
    validDate x \<and> dayNumber x = n \<and> secondOfDay x = sec \<and> uint (microSecond x) = us"
proof -
  note y = year_range [OF n]
  have leap: "sLeap = (if leap y then 1 else 0)" using leap_word [of y] y l by simp
  obtain m' where m': "1 \<le> m'" "m' \<le> 12" "monthStart y m' < k + 1" "k + 1 \<le> monthStart y m' + daysIn y m'"
    using month_of_day [of "k + 1" y] n(2,3) by auto
  define d where "d = k + 1 - monthStart y m'"
  have d: "1 \<le> d" "d \<le> daysIn y m'" using m' by (simp_all add: d_def)
  have M: "sMonth = nat m'" using monthLoop_month [OF m'(1,2) d] by (simp add: m leap d_def)
  have dm: "k + 1 - sStartDayOfMonth ! sLeap ! (sMonth - 1) = d"
    using m'(1) by (simp add: d_def M leap monthStart_def nat_diff_distrib)
  have gap: "\<not> gapDay y m' d"
  proof
    assume "gapDay y m' d"
    then have "y = 1582" "m' = 10" "4 < d" "d < 15" by (simp_all add: gapDay_def)
    then show False using n(1) by (auto simp: d_def gregorian_1582 withGap_def split: if_splits)
  qed
  have w: "sint (word_of_int y :: 16 word) = y"
    using y by (simp add: signed_of_int signed_take_bit_int_eq_self)
  have hms: "sec sdiv 3600 = sec div 3600" "sec smod 3600 sdiv 60 = sec mod 3600 div 60"
    "sec smod 3600 smod 60 = sec mod 3600 mod 60"
    using sec by (simp_all add: sdiv_nonneg smod_nonneg)
  have f: "fieldsOk y m' d (sec div 3600) (sec mod 3600 div 60) (sec mod 3600 mod 60) us"
    using m' d sec us unfolding fieldsOk_def by (simp add: pos_imp_zdiv_nonneg_iff) linarith
  note b = fieldsOk_bounds [OF f]
  let ?x = "packDate y m' d (sec div 3600) (sec mod 3600 div 60) (sec mod 3600 mod 60) us"
  have "makeDate D (word_of_int y) (word_of_int (int sMonth))
      (word_of_int (k + 1 - sStartDayOfMonth ! sLeap ! (sMonth - 1)))
      (word_of_int (sec sdiv 3600)) (word_of_int (sec smod 3600 sdiv 60)) (word_of_int (sec smod 3600 smod 60))
      (word_of_int us) = Some ?x"
    using f gap b m'(1) unfolding dm hms
    unfolding makeDate_pack w M by (simp add: uint_word_of_int_small)
  moreover have "validDate ?x" by (rule packDate_valid [OF f y gap])
  moreover have y': "- 32768 \<le> y" "y < 32768" using y by simp_all
  note P = packDate_fields [OF f y']
  have "dayNumber ?x = n"
  proof -
    have "calendarDay y m' d" using m' d gap by (simp add: calendarDay_def)
    then have "withGap (dayOfCommonEra y m' d) = withGap n"
      using withGap_day [of y m' d] y n(1) by (simp add: d_def)
    then show ?thesis by (simp only: dayNumber_def P withGap_mono)
  qed
  moreover have "secondOfDay ?x = sec"
    unfolding secondOfDay_def P using div_mult_mod_eq [of sec 3600] div_mult_mod_eq [of "sec mod 3600" 60] by linarith
  moreover have "uint (microSecond ?x) = us" by (rule P)
  ultimately show ?thesis by blast
qed

lemma intervalParts_eq:
  assumes "ivSecond i sdiv 86400 = q" "ivSecond i smod 86400 = r" "toSInt (ivMicrosecond i) = u"
  shows "q < 0 \<or> r < 0 \<or> u < 0 \<Longrightarrow> (if u < 0 then (r - 1, u + 1000000) else (r, u)) = (r1, us) \<Longrightarrow>
      (if r1 < 0 then (q - 1, r1 + 86400) else (q, r1)) = (n, sec) \<Longrightarrow> yearBC n = (y, k) \<Longrightarrow>
      intervalParts i = (y, k, sec, us)"
    "\<not> (q < 0 \<or> r < 0 \<or> u < 0) \<Longrightarrow> yearAD q = (y, k) \<Longrightarrow> intervalParts i = (y, k, r, u)"
  unfolding intervalParts_def assms Let_def by (simp_all only: if_True if_False prod.case)

lemma if_distrib_pair: "(if c then (a, b) else (a', b')) = (if c then a else a', if c then b else b')"
  by simp

lemma convertInterval2Date_ok:
  assumes "normalInterval i" "firstInstant \<le> duration i" "duration i \<le> lastInstant"
  shows "\<exists>x. convertInterval2Date i D = Some x \<and> validDate x \<and> instant x = duration i"
proof -
  define q r where "q = ivSecond i sdiv 86400" and "r = ivSecond i smod 86400"
  have qr: "ivSecond i sdiv 86400 = q" "ivSecond i smod 86400 = r" "ivSecond i = q * 86400 + r"
    "\<bar>r\<bar> < 86400" "0 \<le> ivSecond i \<Longrightarrow> 0 \<le> r \<and> 0 \<le> q" "ivSecond i \<le> 0 \<Longrightarrow> r \<le> 0 \<and> q \<le> 0"
    using sdiv_smod [of 86400 "ivSecond i"] unfolding q_def r_def by simp_all
  define u where "u = ivMicrosecond i"
  have u: "\<bar>u\<bar> < 1000000" "ivSecond i > 0 \<Longrightarrow> u \<ge> 0" "ivSecond i < 0 \<Longrightarrow> u \<le> 0" "toSInt u = u"
    using assms(1) by (auto simp: normalInterval_def u_def intro!: toSInt_id)
  have ok: "\<not> invalidYear i" using invalidYear_duration [OF assms(1)] assms(2,3) by simp
  have dur: "duration i = q * 86400000000 + r * 1000000 + u"
    using qr(3) by (simp add: duration_def u_def)
  define neg where "neg \<longleftrightarrow> q < 0 \<or> r < 0 \<or> u < 0"
  define us where "us = (if u < 0 then u + 1000000 else u)"
  define r1 where "r1 = (if u < 0 then r - 1 else r)"
  define sec where "sec = (if neg \<and> r1 < 0 then r1 + 86400 else r1)"
  define n where "n = (if neg \<and> r1 < 0 then q - 1 else q)"
  have "q \<le> 0 \<and> r \<le> 0" if neg
    using that qr(5,6) u(2) unfolding neg_def by (cases "0 < ivSecond i"; cases "ivSecond i = 0") auto
  moreover have "0 \<le> q \<and> 0 \<le> r \<and> 0 \<le> u" if "\<not> neg" using that by (simp add: neg_def)
  ultimately have sgn: "neg \<and> q \<le> 0 \<and> r \<le> 0 \<or> \<not> neg \<and> 0 \<le> q \<and> 0 \<le> r \<and> 0 \<le> u" by blast
  have us: "0 \<le> us" "us < 1000000" using u(1) by (auto simp: us_def)
  have r1: "u < 0 \<and> r1 = r - 1 \<and> us = u + 1000000 \<or> 0 \<le> u \<and> r1 = r \<and> us = u"
    by (simp add: r1_def us_def)
  have step: "neg \<and> r1 < 0 \<and> sec = r1 + 86400 \<and> n = q - 1 \<or> \<not> (neg \<and> r1 < 0) \<and> sec = r1 \<and> n = q"
    by (simp add: sec_def n_def)
  have split: "0 \<le> sec" "sec < 86400" "0 \<le> us" "us < 1000000"
    "duration i = n * 86400000000 + sec * 1000000 + us" "neg \<longleftrightarrow> n < 0"
  proof -
    show "0 \<le> sec" "sec < 86400" using sgn r1 step qr(4) by linarith+
    show "duration i = n * 86400000000 + sec * 1000000 + us" using dur r1 step by linarith
    show "neg \<longleftrightarrow> n < 0" using sgn r1 step neg_def by linarith
  qed (fact us)+
  have n: "- 3652500 \<le> n" "n \<le> 3652060" using split(1-5) assms(2,3) by linarith+
  obtain y k where yk: "(if n < 0 then yearBC n else yearAD n) = (y, k)" by (cases "if n < 0 then yearBC n else yearAD n")
  have Y: "yearStart y + k = withGap n" "0 \<le> k" "k < yearLength y"
    using yk yearBC_correct [of n y k] yearAD_correct [of n y k] by (auto simp: withGap_def split: if_splits)
  define sLeap where "sLeap = (if isLeapYear (word_of_int y) then 1 else (0 :: nat))"
  define sMonth where "sMonth = monthLoop (sStartDayOfMonth ! sLeap) (k + 1) 1"
  have e: "(if u < 0 then (r - 1, u + 1000000) else (r, u)) = (r1, us)"
    unfolding r1_def us_def by (rule if_distrib_pair)
  have "intervalParts i = (y, k, sec, us)"
  proof (cases neg)
    case True
    have "(if r1 < 0 then (q - 1, r1 + 86400) else (q, r1)) = (n, sec)"
      unfolding n_def sec_def using True by (cases "r1 < 0") simp_all
    moreover have "yearBC n = (y, k)" using True yk split(6) by simp
    ultimately show ?thesis
      using intervalParts_eq(1) [OF qr(1,2), of u r1 us n sec y k] True e u(4) by (simp only: neg_def u_def)
  next
    case False
    then have "r1 = r" "us = u" by (simp_all add: neg_def r1_def us_def)
    moreover have "sec = r1" "n = q" using False by (simp_all add: sec_def n_def)
    moreover have "yearAD n = (y, k)" using False yk split(6) by simp
    ultimately show ?thesis
      using intervalParts_eq(2) [OF qr(1,2), of u y k] False u(4) by (simp only: neg_def u_def simp_thms)
  qed
  then have "convertInterval2Date i D = makeDate D (word_of_int y) (word_of_int (int sMonth))
      (word_of_int (k + 1 - sStartDayOfMonth ! sLeap ! (sMonth - 1)))
      (word_of_int (sec sdiv 3600)) (word_of_int (sec smod 3600 sdiv 60)) (word_of_int (sec smod 3600 smod 60))
      (word_of_int us)"
    unfolding convertInterval2Date_def Let_def sLeap_def sMonth_def using ok by (simp only: if_False prod.case)
  then show ?thesis
    using makeDate_day [OF Y n split(1-4) sLeap_def sMonth_def, of D] split(5) by (auto simp: instant_def)
qed

lemma convertInterval2Date_out:
  "normalInterval i \<Longrightarrow> duration i < firstInstant \<or> duration i > lastInstant \<Longrightarrow> convertInterval2Date i D = None"
  using invalidYear_duration [of i] by (simp add: convertInterval2Date_def)

subsection \<open>Points of time and their dates\<close>

lemma instant_inj:
  assumes "validDate x" "validDate y" "instant x = instant y"
  shows "x = y"
proof -
  have "dateCompare x y = 0" using dateCompare_instant [OF assms(1,2)] assms(3) by simp
  then have "sint (year x) = sint (year y)" "mon_day_hour x = mon_day_hour y" "min_sec_mic x = min_sec_mic y"
    by (auto simp: dateCompare_def split: if_splits)
  then show ?thesis by (intro mtdDateType.equality) (simp_all add: signed_word_eqI)
qed

lemma normalInterval_le:
  assumes "normalInterval i" "normalInterval j" "duration i = duration j"
  shows "ivSecond i \<le> ivSecond j"
proof (rule ccontr)
  assume less: "\<not> ivSecond i \<le> ivSecond j"
  have e: "ivSecond i * 1000000 + ivMicrosecond i = ivSecond j * 1000000 + ivMicrosecond j"
    using assms(3) by (simp add: duration_def)
  have j: "ivMicrosecond j < 1000000" "ivSecond j < 0 \<Longrightarrow> ivMicrosecond j \<le> 0"
    and i: "- 1000000 < ivMicrosecond i" "ivSecond i > 0 \<Longrightarrow> ivMicrosecond i \<ge> 0"
    using assms(1,2) by (auto simp: normalInterval_def)
  have "0 < ivMicrosecond j" using e less i(1) by linarith
  then have "0 < ivSecond i" using j(2) less by linarith
  then show False using i(2) j(1) e less by linarith
qed

lemma normalInterval_unique:
  assumes "normalInterval i" "normalInterval j" "duration i = duration j"
  shows "i = j"
proof (rule mtdIntervalType.equality)
  show s: "ivSecond i = ivSecond j"
    using normalInterval_le [OF assms] normalInterval_le [OF assms(2,1)] assms(3) by simp
  show "ivMicrosecond i = ivMicrosecond j" using s assms(3) by (simp add: duration_def)
qed simp

text \<open>The answer of an operation whose result is the point of time \<open>t\<close>: its date, or an error where
  no date of the years from -9999 to 9999 is at \<open>t\<close>.\<close>

definition dateAt :: "int \<Rightarrow> mtdDateType option \<Rightarrow> bool" where
  "dateAt t r \<longleftrightarrow> (case r of Some x \<Rightarrow> validDate x \<and> instant x = t
     | None \<Rightarrow> t < firstInstant \<or> t > lastInstant)"

lemma dateAt_unique: "dateAt t r \<Longrightarrow> dateAt t r' \<Longrightarrow> r = r'"
  using instant_range by (fastforce simp: dateAt_def intro: instant_inj split: option.splits)

subsection \<open>The contract of the conversions\<close>

locale timeline =
  fixes valid :: "'d \<Rightarrow> bool"
    and time :: "'d \<Rightarrow> int"
    and toInterval :: "'d \<Rightarrow> mtdIntervalType option"
    and fromInterval :: "mtdIntervalType \<Rightarrow> 'd option"
  assumes to_interval: "valid x \<Longrightarrow> \<exists>i. toInterval x = Some i \<and> normalInterval i \<and> duration i = time x"
    and from_interval: "normalInterval i \<Longrightarrow> firstInstant \<le> duration i \<Longrightarrow> duration i \<le> lastInstant \<Longrightarrow>
      \<exists>x. fromInterval i = Some x \<and> valid x \<and> time x = duration i"
    and from_out: "normalInterval i \<Longrightarrow> duration i < firstInstant \<or> duration i > lastInstant \<Longrightarrow>
      fromInterval i = None"
    and in_range: "valid x \<Longrightarrow> firstInstant \<le> time x \<and> time x \<le> lastInstant"
    and time_inj: "valid x \<Longrightarrow> valid y \<Longrightarrow> time x = time y \<Longrightarrow> x = y"
begin

lemma to_from:
  assumes "valid x"
  shows "toInterval x \<bind> fromInterval = Some x"
proof -
  obtain i where i: "toInterval x = Some i" "normalInterval i" "duration i = time x"
    using to_interval [OF assms] by blast
  obtain y where "fromInterval i = Some y" "valid y" "time y = time x"
    using from_interval [of i] i in_range [OF assms] by auto
  then show ?thesis using i(1) time_inj [OF _ assms, of y] by simp
qed

lemma from_to:
  assumes "normalInterval i" "firstInstant \<le> duration i" "duration i \<le> lastInstant"
  shows "fromInterval i \<bind> toInterval = Some i"
proof -
  obtain x where x: "fromInterval i = Some x" "valid x" "time x = duration i"
    using from_interval [OF assms] by blast
  obtain j where "toInterval x = Some j" "normalInterval j" "duration j = time x"
    using to_interval [OF x(2)] by blast
  then show ?thesis using x normalInterval_unique [OF _ assms(1), of j] by simp
qed

text \<open>An operation that computes the interval of the result, and refuses it by the test of the code.\<close>

lemma from_spec:
  assumes "normalInterval i"
  shows "case (if invalidYear i then None else fromInterval i) of
    Some x \<Rightarrow> valid x \<and> time x = duration i | None \<Rightarrow> duration i < firstInstant \<or> duration i > lastInstant"
  using invalidYear_duration [OF assms] from_interval [OF assms] by (cases "invalidYear i") auto

lemma shift:
  assumes "valid x" "\<And>i. normalInterval i \<Longrightarrow> duration i = time x \<Longrightarrow> normalInterval (f i) \<and> duration (f i) = t"
  shows "case toInterval x \<bind> (\<lambda>i. if invalidYear (f i) then None else fromInterval (f i)) of
    Some y \<Rightarrow> valid y \<and> time y = t | None \<Rightarrow> t < firstInstant \<or> t > lastInstant"
proof -
  obtain i where "toInterval x = Some i" "normalInterval i" "duration i = time x"
    using to_interval [OF assms(1)] by blast
  then show ?thesis using from_spec [of "f i"] assms(2) [of i] by (cases "invalidYear (f i)") auto
qed

end

interpretation dateTime: timeline validDate instant convertDate2Interval "\<lambda>i. convertInterval2Date i D" for D
  by unfold_locales
    (blast intro: convertDate2Interval_ok convertInterval2Date_ok convertInterval2Date_out instant_range
      instant_inj)+

text \<open>C22: The conversion of a date to an interval and back gives the date again, for every date of the
  calendar from the year -9999 to 9999, across the ten days left out in 1582 and the change from
  BC to AD, where seconds and microseconds change their sign.\<close>

theorem date_interval_date:
  assumes "validDate x"
  shows "convertDate2Interval x \<bind> (\<lambda>i. convertInterval2Date i D) = Some x"
  by (rule dateTime.to_from [OF assms])

lemma validDate_epoch: "validDate (packDate 1 1 1 0 0 0 0)"
  by (rule packDate_valid) (simp_all add: fieldsOk_def daysIn_def gapDay_def)

lemma date_interval_date_witness:
  "validDate (packDate 1582 10 4 23 59 59 999999) \<and>
   convertDate2Interval (packDate 1582 10 4 23 59 59 999999) \<bind> (\<lambda>i. convertInterval2Date i mtdDateNull) =
     Some (packDate 1582 10 4 23 59 59 999999)"
proof -
  have "validDate (packDate 1582 10 4 23 59 59 999999)"
    by (rule packDate_valid) (simp_all add: fieldsOk_def daysIn_def gapDay_def)
  then show ?thesis using date_interval_date by blast
qed

text \<open>Every normalised interval from the first to the last instant of the calendar is turned into a
  date whose interval it is: no day of the time line lacks a date, in particular none is one of the
  ten days that the calendar leaves out.\<close>

theorem interval_date_interval:
  assumes "normalInterval i" "firstInstant \<le> duration i" "duration i \<le> lastInstant"
  shows "\<exists>x. convertInterval2Date i D = Some x \<and> validDate x \<and> convertDate2Interval x = Some i"
proof -
  obtain x where x: "convertInterval2Date i D = Some x" "validDate x"
    using convertInterval2Date_ok [OF assms] by blast
  then show ?thesis using dateTime.from_to [OF assms, of D] by simp
qed

lemma interval_date_interval_witness:
  "\<exists>x. convertInterval2Date \<lparr> ivSecond = - 1, ivMicrosecond = - 5 \<rparr> mtdDateNull = Some x \<and> validDate x \<and>
     convertDate2Interval x = Some \<lparr> ivSecond = - 1, ivMicrosecond = - 5 \<rparr>"
  by (rule interval_date_interval) (simp_all add: normalInterval_def duration_def)

end
