(* ===== verification/DateArith.thy ===== *)
theory DateArith
  imports DateConvert DateKeys
begin

text \<open>
  Arithmetic on dates: \<open>addDay\<close>, \<open>addSecond\<close> and \<open>addMicroSecond\<close> of
  \<open>src/src/mt/mtd/mtdDate.cpp\<close>, the operators between dates and intervals of
  \<open>src/src/mt/mtf/mtfAdd2.cpp\<close> and \<open>src/src/mt/mtf/mtfSubtract2.cpp\<close>, and \<open>NEXT_DAY\<close>
  (\<open>src/src/mt/mtf/mtfNext_day.cpp\<close>).

  Each of them turns its date into an interval, computes with \<open>SLong\<close> and turns the sum into a date.
  The products and sums that can leave 64 bits wrap around (\<open>toSLong\<close>).  The lemmas say at which point
  of time the result is, wrap-around included; all are instances of the contract \<open>timeline\<close>.
  The arguments are the evaluated arguments of the function, \<open>aResult\<close> the old value of the result.
\<close>

subsection \<open>Adding a number of units\<close>

definition addDay :: "mtdDateType \<Rightarrow> mtdDateType \<Rightarrow> int \<Rightarrow> mtdDateType option" where
  "addDay aResult aDate aNumber = do {
     sInterval \<leftarrow> convertDate2Interval aDate;
     let second = toSLong (ivSecond sInterval + toSLong (aNumber * 86400));
         microsecond = toSLong (ivMicrosecond sInterval + toSLong (second * 1000000));
         i = \<lparr> ivSecond = microsecond sdiv 1000000, ivMicrosecond = microsecond smod 1000000 \<rparr> in
     if invalidYear i then None else convertInterval2Date i aResult }"

definition addSecond :: "mtdDateType \<Rightarrow> mtdDateType \<Rightarrow> int \<Rightarrow> int \<Rightarrow> mtdDateType option" where
  "addSecond aResult aDate aSecond aMicroSecond = do {
     sInterval \<leftarrow> convertDate2Interval aDate;
     let second = toSLong (ivSecond sInterval + aSecond);
         microsecond = toSLong (ivMicrosecond sInterval + aMicroSecond);
         microsecond = toSLong (microsecond + toSLong (second * 1000000));
         i = \<lparr> ivSecond = microsecond sdiv 1000000, ivMicrosecond = microsecond smod 1000000 \<rparr> in
     if invalidYear i then None else convertInterval2Date i aResult }"

definition addMicroSecond :: "mtdDateType \<Rightarrow> mtdDateType \<Rightarrow> int \<Rightarrow> mtdDateType option" where
  "addMicroSecond aResult aDate aNumber = do {
     sInterval \<leftarrow> convertDate2Interval aDate;
     let microsecond = toSLong (ivMicrosecond sInterval + aNumber);
         microsecond = toSLong (microsecond + toSLong (ivSecond sInterval * 1000000));
         i = \<lparr> ivSecond = microsecond sdiv 1000000, ivMicrosecond = microsecond smod 1000000 \<rparr> in
     if invalidYear i then None else convertInterval2Date i aResult }"

lemma toSLong_mult [simp]: "toSLong (toSLong a * b) = toSLong (a * b)"
proof -
  have "(((a + c) mod k - c) * b + c) mod k = (a * b + c) mod k" for c k
  proof (intro mod_add_cong mod_mult_cong refl)
    show "((a + c) mod k - c) mod k = a mod k" by (simp add: mod_diff_left_eq)
  qed
  then show ?thesis by (simp add: toSLong_def)
qed

lemma toSLong_add_mult [simp]: "toSLong (a + toSLong b * c) = toSLong (a + b * c)"
  using toSLong_add(2) [of a "toSLong b * c"] toSLong_add(2) [of a "b * c"] by simp

lemma toSLong_period: "toSLong (x + 18446744073709551616) = toSLong x" "toSLong (x - 18446744073709551616) = toSLong x"
proof -
  show "toSLong (x + 18446744073709551616) = toSLong x" for x
    using mod_add_self2 [of "x + 9223372036854775808" 18446744073709551616] by (simp add: toSLong_def add_ac)
  from this [of "x - 18446744073709551616"] show "toSLong (x - 18446744073709551616) = toSLong x" by simp
qed

lemma carry_interval:
  "normalInterval \<lparr> ivSecond = m sdiv 1000000, ivMicrosecond = m smod 1000000 \<rparr>"
  "duration \<lparr> ivSecond = m sdiv 1000000, ivMicrosecond = m smod 1000000 \<rparr> = m"
  using sdiv_smod [of 1000000 m] by (cases "0 \<le> m"; auto simp: normalInterval_def duration_def)+

lemma carry_is: "m = t \<Longrightarrow>
  normalInterval \<lparr> ivSecond = m sdiv 1000000, ivMicrosecond = m smod 1000000 \<rparr> \<and>
  duration \<lparr> ivSecond = m sdiv 1000000, ivMicrosecond = m smod 1000000 \<rparr> = t"
  using carry_interval by simp

lemma dateAtI:
  "(case r of Some x \<Rightarrow> validDate x \<and> instant x = t | None \<Rightarrow> t < firstInstant \<or> t > lastInstant) \<Longrightarrow> dateAt t r"
  by (simp add: dateAt_def)

text \<open>The three operations, on the time line modulo 2 to the 64.\<close>

lemma addDay_wraps:
  assumes "validDate x"
  shows "dateAt (toSLong (instant x + n * 86400000000)) (addDay D x n)"
  unfolding addDay_def Let_def
  by (rule dateAtI, rule dateTime.shift [OF assms], rule carry_is)
    (simp add: distrib_right, rule arg_cong [of _ _ toSLong], simp add: duration_def)

lemma addSecond_wraps:
  assumes "validDate x"
  shows "dateAt (toSLong (instant x + s * 1000000 + us)) (addSecond D x s us)"
  unfolding addSecond_def Let_def
  by (rule dateAtI, rule dateTime.shift [OF assms], rule carry_is)
    (simp add: distrib_right, rule arg_cong [of _ _ toSLong], simp add: duration_def)

lemma addMicroSecond_wraps:
  assumes "validDate x"
  shows "dateAt (toSLong (instant x + us)) (addMicroSecond D x us)"
  unfolding addMicroSecond_def Let_def
  by (rule dateAtI, rule dateTime.shift [OF assms], rule carry_is)
    (simp add: distrib_right, rule arg_cong [of _ _ toSLong], simp add: duration_def)

text \<open>Without overflow: 100 million days are far beyond the range of dates.\<close>

lemma addDay_exact:
  assumes "validDate x" "\<bar>n\<bar> \<le> 100000000"
  shows "dateAt (instant x + n * 86400000000) (addDay D x n)"
  using addDay_wraps [OF assms(1), of n D] instant_range [OF assms(1)] assms(2)
    toSLong_id [of "instant x + n * 86400000000"] by (simp add: abs_le_iff)

lemma addMicroSecond_exact:
  assumes "validDate x" "\<bar>us\<bar> \<le> 8000000000000000000"
  shows "dateAt (instant x + us) (addMicroSecond D x us)"
  using addMicroSecond_wraps [OF assms(1), of us D] instant_range [OF assms(1)] assms(2)
    toSLong_id [of "instant x + us"] by (simp add: abs_le_iff)

text \<open>With more days \<open>addDay\<close>, which has no check of its own, can wrap around to an earlier date.\<close>

lemma addDay_overflow:
  assumes "validDate x" "firstInstant + 28909551616 \<le> instant x"
  shows "\<exists>z. addDay D x 213503982 = Some z \<and> validDate z \<and> instant z = instant x - 28909551616"
proof -
  have "instant x + 213503982 * 86400000000 = instant x - 28909551616 + 18446744073709551616" by simp
  then have "toSLong (instant x + 213503982 * 86400000000) = toSLong (instant x - 28909551616)"
    using toSLong_period(1) [of "instant x - 28909551616"] by (simp only:)
  also have "\<dots> = instant x - 28909551616"
    using instant_range [OF assms(1)] assms(2) by (intro toSLong_id) simp_all
  finally show ?thesis
    using addDay_wraps [OF assms(1), of 213503982 D] instant_range [OF assms(1)] assms(2)
    by (auto simp: dateAt_def split: option.splits)
qed

subsection \<open>Dates and intervals\<close>

definition mtdIntervalNull :: mtdIntervalType where
  "mtdIntervalNull = \<lparr> ivSecond = -9223372036854775808, ivMicrosecond = -9223372036854775808 \<rparr>"

definition MTD_INTERVAL_IS_NULL :: "mtdIntervalType \<Rightarrow> bool" where
  "MTD_INTERVAL_IS_NULL i \<longleftrightarrow> ivSecond i = ivSecond mtdIntervalNull \<and> ivMicrosecond i = ivMicrosecond mtdIntervalNull"

text \<open>The carry of the microseconds and the adjustment of the signs, which the operators share.\<close>

definition balance :: "int \<Rightarrow> int \<Rightarrow> mtdIntervalType" where
  "balance aSecond aMicrosecond =
     (let second = toSLong (aSecond + aMicrosecond sdiv 1000000);
          microsecond = aMicrosecond smod 1000000;
          (second, microsecond) = (if microsecond < 0 \<and> second > 0 then (second - 1, microsecond + 1000000)
            else (second, microsecond));
          (second, microsecond) = (if microsecond > 0 \<and> second < 0 then (second + 1, microsecond - 1000000)
            else (second, microsecond)) in
      \<lparr> ivSecond = second, ivMicrosecond = microsecond \<rparr>)"

definition mtfAdd2CalculateDateInterval ::
  "mtdDateType \<Rightarrow> mtdDateType \<Rightarrow> mtdIntervalType \<Rightarrow> mtdDateType option" where
  "mtfAdd2CalculateDateInterval aResult sArgument1 sArgument2 =
     (if dateIsNull sArgument1 \<or> MTD_INTERVAL_IS_NULL sArgument2 then Some mtdDateNull
      else do {
        sInterval \<leftarrow> convertDate2Interval sArgument1;
        let i = balance (toSLong (ivSecond sInterval + ivSecond sArgument2))
              (toSLong (ivMicrosecond sInterval + ivMicrosecond sArgument2)) in
        if invalidYear i then None else convertInterval2Date i aResult })"

definition mtfAdd2CalculateIntervalDate ::
  "mtdDateType \<Rightarrow> mtdIntervalType \<Rightarrow> mtdDateType \<Rightarrow> mtdDateType option" where
  "mtfAdd2CalculateIntervalDate aResult sArgument1 sArgument2 =
     (if MTD_INTERVAL_IS_NULL sArgument1 \<or> dateIsNull sArgument2 then Some mtdDateNull
      else do {
        sInterval \<leftarrow> convertDate2Interval sArgument2;
        let i = balance (toSLong (ivSecond sInterval + ivSecond sArgument1))
              (toSLong (ivMicrosecond sInterval + ivMicrosecond sArgument1)) in
        if invalidYear i then None else convertInterval2Date i aResult })"

definition mtfSubtract2CalculateDateInterval ::
  "mtdDateType \<Rightarrow> mtdDateType \<Rightarrow> mtdIntervalType \<Rightarrow> mtdDateType option" where
  "mtfSubtract2CalculateDateInterval aResult sArgument1 sArgument2 =
     (if dateIsNull sArgument1 \<or> MTD_INTERVAL_IS_NULL sArgument2 then Some mtdDateNull
      else do {
        sInterval \<leftarrow> convertDate2Interval sArgument1;
        let i = balance (toSLong (ivSecond sInterval - ivSecond sArgument2))
              (toSLong (ivMicrosecond sInterval - ivMicrosecond sArgument2)) in
        if invalidYear i then None else convertInterval2Date i aResult })"

definition mtfSubtract2CalculateDate :: "mtdDateType \<Rightarrow> mtdDateType \<Rightarrow> mtdIntervalType option" where
  "mtfSubtract2CalculateDate sArgument1 sArgument2 =
     (if dateIsNull sArgument1 \<or> dateIsNull sArgument2 then Some mtdIntervalNull
      else do {
        sInterval1 \<leftarrow> convertDate2Interval sArgument1;
        sInterval2 \<leftarrow> convertDate2Interval sArgument2;
        Some (balance (toSLong (ivSecond sInterval1 - ivSecond sInterval2))
          (toSLong (ivMicrosecond sInterval1 - ivMicrosecond sInterval2))) })"

lemma balance_normal: "normalInterval (balance s u)"
  using sdiv_smod [of 1000000 u] by (auto simp: balance_def Let_def normalInterval_def)

lemma balance_duration:
  "duration (balance s u) = toSLong (s + u sdiv 1000000) * 1000000 + u smod 1000000"
  by (simp add: balance_def Let_def duration_def)

lemma balance_exact:
  assumes "\<bar>s\<bar> < 9000000000000000000" "\<bar>u\<bar> < 9000000000000000000"
  shows "duration (balance s u) = s * 1000000 + u"
proof -
  have q: "\<bar>u sdiv 1000000\<bar> < 9000000000001" and u: "u = u sdiv 1000000 * 1000000 + u smod 1000000"
    using sdiv_smod [of 1000000 u] assms(2) by linarith+
  have "toSLong (s + u sdiv 1000000) = s + u sdiv 1000000" using q assms(1) by (intro toSLong_id) linarith+
  then show ?thesis unfolding balance_duration using u by (simp add: distrib_right)
qed

text \<open>A sum of seconds that leaves 64 bits is refused like the exact sum.\<close>

lemma balance_far:
  assumes "\<bar>s\<bar> < 400000000000" "\<bar>t\<bar> \<le> 9223372036854775808" "\<bar>u\<bar> < 2000000"
    and i: "i = balance (toSLong (s + t)) (toSLong u)"
  shows "duration i = (s + t) * 1000000 + u \<or> invalidYear i \<and>
    ((s + t) * 1000000 + u < firstInstant \<or> (s + t) * 1000000 + u > lastInstant)"
proof -
  have u: "toSLong u = u" using assms(3) by (intro toSLong_id) linarith+
  have q: "\<bar>u sdiv 1000000\<bar> < 3" "u = u sdiv 1000000 * 1000000 + u smod 1000000" "\<bar>u smod 1000000\<bar> < 1000000"
    using sdiv_smod [of 1000000 u] assms(3) by linarith+
  define v where "v = s + t + u sdiv 1000000"
  have d: "duration i = toSLong v * 1000000 + u smod 1000000"
    by (simp add: i balance_duration u v_def)
  have e: "(s + t) * 1000000 + u = v * 1000000 + u smod 1000000"
    unfolding v_def using q(2) by (simp add: distrib_right)
  have far: "\<bar>v\<bar> < 9223373000000000000" using assms(1,2) q(1) unfolding v_def by linarith
  show ?thesis
  proof (cases "- 9223372036854775808 \<le> v \<and> v < 9223372036854775808")
    case True
    then show ?thesis using d e toSLong_id [of v] by simp
  next
    case False
    then consider "v < - 9223372036854775808" | "9223372036854775808 \<le> v" by linarith
    then have "\<bar>toSLong v\<bar> > 9000000000000000000"
    proof cases
      case 1
      then show ?thesis using far toSLong_id [of "v + 18446744073709551616"] toSLong_period(1) [of v] by linarith
    next
      case 2
      then show ?thesis using far toSLong_id [of "v - 18446744073709551616"] toSLong_period(2) [of v] by linarith
    qed
    then have "duration i < firstInstant \<or> duration i > lastInstant" using d q(3) by linarith
    then have "invalidYear i" using invalidYear_duration [of i] balance_normal [of "toSLong (s + t)" "toSLong u"] i by blast
    then show ?thesis using False e q(3) by linarith
  qed
qed

lemma interval_bounds:
  assumes "normalInterval i" "firstInstant \<le> duration i" "duration i \<le> lastInstant"
  shows "\<bar>ivSecond i\<bar> < 400000000000" "\<bar>ivMicrosecond i\<bar> < 1000000"
  using assms by (auto simp: normalInterval_def duration_def abs_less_iff)

lemma validDate_interval:
  assumes "validDate x"
  obtains i where "convertDate2Interval x = Some i" "normalInterval i" "duration i = instant x"
    "\<bar>ivSecond i\<bar> < 400000000000" "\<bar>ivMicrosecond i\<bar> < 1000000"
proof -
  obtain i where i: "convertDate2Interval x = Some i" "normalInterval i" "duration i = instant x"
    using convertDate2Interval_ok [OF assms] by blast
  then show thesis using interval_bounds [OF i(2)] instant_range [OF assms] by (intro that [OF i]) simp_all
qed

lemma shift_balance:
  assumes "validDate x" "\<bar>t\<bar> \<le> 9223372036854775808" "\<bar>u\<bar> < 1000000"
    and f: "\<And>i. f i = balance (toSLong (ivSecond i + t)) (toSLong (ivMicrosecond i + u))"
  shows "dateAt (instant x + t * 1000000 + u)
    (convertDate2Interval x \<bind> (\<lambda>i. if invalidYear (f i) then None else convertInterval2Date (f i) D))"
proof -
  obtain i where i: "convertDate2Interval x = Some i" "normalInterval i" "duration i = instant x"
    "\<bar>ivSecond i\<bar> < 400000000000" "\<bar>ivMicrosecond i\<bar> < 1000000"
    using validDate_interval [OF assms(1)] by blast
  have n: "normalInterval (f i)" unfolding f by (rule balance_normal)
  have sum: "(ivSecond i + t) * 1000000 + (ivMicrosecond i + u) = instant x + t * 1000000 + u"
    using i(3) by (simp add: duration_def distrib_right)
  have "\<bar>ivMicrosecond i + u\<bar> < 2000000" using i(5) assms(3) by linarith
  from balance_far [OF i(4) assms(2) this f]
  consider "duration (f i) = instant x + t * 1000000 + u"
    | "invalidYear (f i)" "instant x + t * 1000000 + u < firstInstant \<or> instant x + t * 1000000 + u > lastInstant"
    unfolding sum by blast
  then show ?thesis
  proof cases
    case 1
    then show ?thesis
      using dateTime.from_spec [OF n, of D] i(1) by (intro dateAtI) (simp only: bind.bind_lunit)
  next
    case 2
    then show ?thesis using i(1) by (simp add: dateAt_def)
  qed
qed

lemma normal_not_null: "normalInterval i \<Longrightarrow> \<not> MTD_INTERVAL_IS_NULL i"
  by (auto simp: normalInterval_def MTD_INTERVAL_IS_NULL_def mtdIntervalNull_def)

lemma valid_not_null: "validDate x \<Longrightarrow> \<not> dateIsNull x"
  using validDateD(5) [of x] by (simp add: dateIsNull_def)

text \<open>The operators, for any interval of 64 bits that is normalised.\<close>

definition longInterval :: "mtdIntervalType \<Rightarrow> bool" where
  "longInterval i \<longleftrightarrow> normalInterval i \<and> \<bar>ivSecond i\<bar> \<le> 9223372036854775808"

lemma longIntervalD: "longInterval i \<Longrightarrow> normalInterval i" "longInterval i \<Longrightarrow> \<bar>ivSecond i\<bar> \<le> 9223372036854775808"
  "longInterval i \<Longrightarrow> \<bar>ivMicrosecond i\<bar> < 1000000"
  by (simp_all add: longInterval_def normalInterval_def)

lemma date_plus_interval:
  assumes "validDate x" "longInterval d"
  shows "dateAt (instant x + duration d) (mtfAdd2CalculateDateInterval D x d)"
    "dateAt (instant x + duration d) (mtfAdd2CalculateIntervalDate D d x)"
  using shift_balance [OF assms(1) longIntervalD(2,3) [OF assms(2)], of _ D, OF refl]
    valid_not_null [OF assms(1)] normal_not_null [OF longIntervalD(1) [OF assms(2)]]
  unfolding mtfAdd2CalculateDateInterval_def mtfAdd2CalculateIntervalDate_def Let_def
  by (simp_all add: duration_def add.assoc)

lemma date_minus_interval:
  assumes "validDate x" "longInterval d"
  shows "dateAt (instant x - duration d) (mtfSubtract2CalculateDateInterval D x d)"
proof -
  have neg: "\<bar>- ivSecond d\<bar> \<le> 9223372036854775808" "\<bar>- ivMicrosecond d\<bar> < 1000000"
    using longIntervalD(2,3) [OF assms(2)] by simp_all
  show ?thesis
    using shift_balance [OF assms(1) neg, of _ D, OF refl]
      valid_not_null [OF assms(1)] normal_not_null [OF longIntervalD(1) [OF assms(2)]]
    unfolding mtfSubtract2CalculateDateInterval_def Let_def add_uminus_conv_diff
    by (simp add: duration_def diff_diff_eq)
qed

lemma date_difference:
  assumes "validDate x" "validDate y"
  shows "\<exists>d. mtfSubtract2CalculateDate x y = Some d \<and> longInterval d \<and> duration d = instant x - instant y"
proof -
  obtain i where i: "convertDate2Interval x = Some i" "normalInterval i" "duration i = instant x"
    "\<bar>ivSecond i\<bar> < 400000000000" "\<bar>ivMicrosecond i\<bar> < 1000000"
    using validDate_interval [OF assms(1)] by blast
  obtain j where j: "convertDate2Interval y = Some j" "normalInterval j" "duration j = instant y"
    "\<bar>ivSecond j\<bar> < 400000000000" "\<bar>ivMicrosecond j\<bar> < 1000000"
    using validDate_interval [OF assms(2)] by blast
  define s u where "s = ivSecond i - ivSecond j" and "u = ivMicrosecond i - ivMicrosecond j"
  have b: "\<bar>s\<bar> < 800000000000" "\<bar>u\<bar> < 2000000" using i(4,5) j(4,5) by (auto simp: s_def u_def abs_less_iff)
  have w: "toSLong s = s" "toSLong u = u" using b by (simp_all add: toSLong_id abs_less_iff)
  have dur: "duration (balance s u) = instant x - instant y"
    using balance_exact [of s u] b i(3) j(3) by (simp add: s_def u_def duration_def left_diff_distrib)
  have d: "mtfSubtract2CalculateDate x y = Some (balance s u)"
    using i(1) j(1) valid_not_null [OF assms(1)] valid_not_null [OF assms(2)] w
    by (simp add: mtfSubtract2CalculateDate_def s_def [symmetric] u_def [symmetric])
  have "\<bar>ivSecond (balance s u)\<bar> \<le> 9223372036854775808"
  proof -
    have "\<bar>ivMicrosecond (balance s u)\<bar> < 1000000"
      using balance_normal [of s u] by (simp add: normalInterval_def)
    moreover have "ivSecond (balance s u) * 1000000 + ivMicrosecond (balance s u) = instant x - instant y"
      using dur by (simp add: duration_def)
    ultimately show ?thesis using instant_range [OF assms(1)] instant_range [OF assms(2)] by linarith
  qed
  then show ?thesis using d dur balance_normal [of s u] by (auto simp: longInterval_def)
qed

lemma dateAt_Some: "validDate x \<Longrightarrow> dateAt (instant x) r \<longleftrightarrow> r = Some x"
  using instant_range [of x] by (auto simp: dateAt_def intro: instant_inj split: option.splits)

text \<open>C23: The difference of two dates, added to the second, gives the first, and subtracted from the first
  gives the second, to the microsecond and for every two dates of the calendar: \<open>(x - y) + y = x\<close> and
  \<open>x - (x - y) = y\<close> for the operators of the query language.\<close>

theorem difference_of_dates:
  assumes "validDate x" "validDate y"
  shows "mtfSubtract2CalculateDate x y \<bind> (\<lambda>d. mtfAdd2CalculateIntervalDate D d y) = Some x \<and>
    mtfSubtract2CalculateDate x y \<bind> mtfSubtract2CalculateDateInterval D x = Some y"
proof
  obtain d where d: "mtfSubtract2CalculateDate x y = Some d" "longInterval d" "duration d = instant x - instant y"
    using date_difference [OF assms] by blast
  show "mtfSubtract2CalculateDate x y \<bind> (\<lambda>d. mtfAdd2CalculateIntervalDate D d y) = Some x"
    using date_plus_interval(2) [OF assms(2) d(2), of D] d(1,3) dateAt_Some [OF assms(1)] by simp
  show "mtfSubtract2CalculateDate x y \<bind> mtfSubtract2CalculateDateInterval D x = Some y"
    using date_minus_interval [OF assms(1) d(2), of D] d(1,3) dateAt_Some [OF assms(2)] by simp
qed

lemma difference_of_dates_witness:
  "validDate (packDate 1582 10 15 0 0 0 0) \<and> validDate (packDate (- 1) 12 31 23 59 59 999999) \<and>
   mtfSubtract2CalculateDate (packDate 1582 10 15 0 0 0 0) (packDate (- 1) 12 31 23 59 59 999999) \<bind>
     mtfSubtract2CalculateDateInterval mtdDateNull (packDate 1582 10 15 0 0 0 0) =
     Some (packDate (- 1) 12 31 23 59 59 999999)"
proof -
  have v: "validDate (packDate 1582 10 15 0 0 0 0)" "validDate (packDate (- 1) 12 31 23 59 59 999999)"
    by (rule packDate_valid; simp add: fieldsOk_def daysIn_def gapDay_def)+
  then show ?thesis using difference_of_dates [OF v] by blast
qed

text \<open>C24: Adding an interval to a date, in either order of the operands, gives the date at that distance,
  and an error exactly if there is no such date between the years -9999 and 9999: for every normalised
  interval of 64 bits, also where the sum of the seconds overflows.\<close>

theorem add_interval_exact:
  assumes "validDate x" "longInterval d"
  shows "dateAt (instant x + duration d) (mtfAdd2CalculateDateInterval D x d) \<and>
    dateAt (instant x + duration d) (mtfAdd2CalculateIntervalDate D d x)"
  using date_plus_interval [OF assms] by blast

lemma add_interval_exact_witness:
  "validDate (packDate 9999 12 31 0 0 0 0) \<and>
   longInterval \<lparr> ivSecond = 9223372036854775807, ivMicrosecond = 999999 \<rparr> \<and>
   dateAt (instant (packDate 9999 12 31 0 0 0 0) + 9223372036854775807999999)
     (mtfAdd2CalculateDateInterval mtdDateNull (packDate 9999 12 31 0 0 0 0)
       \<lparr> ivSecond = 9223372036854775807, ivMicrosecond = 999999 \<rparr>)"
proof -
  have v: "validDate (packDate 9999 12 31 0 0 0 0)"
    by (rule packDate_valid) (simp_all add: fieldsOk_def daysIn_def gapDay_def)
  have l: "longInterval \<lparr> ivSecond = 9223372036854775807, ivMicrosecond = 999999 \<rparr>"
    by (simp add: longInterval_def normalInterval_def)
  show ?thesis using add_interval_exact [OF v l, of mtdDateNull] v l by (simp add: duration_def)
qed

subsection \<open>The order of keys\<close>



end
