(* ===== verification/DateMonth.thy ===== *)
theory DateMonth
  imports DateInstant DateKeys
begin

text \<open>
  Dates by months: \<open>addMonth\<close> of \<open>src/src/mt/mtd/mtdDate.cpp\<close>, which \<open>DATEADD\<close> uses, and the functions
  \<open>ADD_MONTHS\<close> (\<open>src/src/mt/mtf/mtfAdd_months.cpp\<close>) and \<open>LAST_DAY\<close>
  (\<open>src/src/mt/mtf/mtfLast_day.cpp\<close>).  The two ways to add months are written separately in the code;
  they agree on the years from -9999 to 9999.
\<close>

subsection \<open>The operations\<close>

text \<open>The tables \<open>sStartLastDays\<close> and \<open>sEndLastDays\<close>, after the assignment for leap years.\<close>

definition sLastDays :: "bool \<Rightarrow> int list" where
  "sLastDays sLeap = [0, 31, if sLeap then 29 else 28, 31, 30, 31, 30, 31, 31, 30, 31, 30, 31]"

definition addMonth :: "mtdDateType \<Rightarrow> mtdDateType \<Rightarrow> int \<Rightarrow> mtdDateType option" where
  "addMonth aResult aDate aNumber =
     (let
        sStartYear = sint (year aDate);
        sStartMonth = uint (month aDate);
        sStartDay = uint (day aDate);
        sStartLastDays = sLastDays (isLeapYear (word_of_int sStartYear));
        sEndYear = sStartYear + aNumber sdiv 12;
        sEndMonth = sStartMonth + aNumber smod 12;
        (sEndYear, sEndMonth) =
          (if sEndMonth < 1 then (sEndYear - 1, sEndMonth + 12)
           else if sEndMonth > 12 then (sEndYear + 1, sEndMonth - 12)
           else (sEndYear, sEndMonth));
        sEndLastDays = sLastDays (isLeapYear (word_of_int sEndYear));
        sEndDay =
          (if sStartDay = sStartLastDays ! nat sStartMonth \<or> sStartDay \<ge> sEndLastDays ! nat sEndMonth
           then sEndLastDays ! nat sEndMonth
           else if sEndYear = 1582 \<and> sEndMonth = 10 \<and> 4 < sStartDay \<and> sStartDay < 15 then 15
           else sStartDay) in
      if sEndYear < -9999 \<or> sEndYear > 9999 then None
      else makeDate aResult (word_of_int sEndYear) (word_of_int sEndMonth) (word_of_int sEndDay)
        (hour aDate) (minute aDate) (second aDate) (microSecond aDate))"

definition mtfAdd_monthsCalculate :: "mtdDateType \<Rightarrow> int \<Rightarrow> mtdDateType option" where
  "mtfAdd_monthsCalculate sDate sDiffMonth =
     (if dateIsNull sDate \<or> sDiffMonth = -2147483648 then Some mtdDateNull
      else
        let
          sDiffYear = sDiffMonth sdiv 12;
          sDiffMonth = sDiffMonth smod 12;
          sYear = sint (year sDate);
          sMonth = uint (month sDate);
          sDay = uint (day sDate);
          sStartLastDays = sLastDays (isLeapYear (word_of_int sYear));
          sYear = sYear + sDiffYear;
          sMonth = sMonth + sDiffMonth;
          (sYear, sMonth) = (if sMonth > 12 then (sYear + 1, sMonth - 12) else (sYear, sMonth));
          (sYear, sMonth) = (if sMonth < 1 then (sYear - 1, sMonth + 12) else (sYear, sMonth)) in
        if sYear > 32767 then None
        else if sYear < -32767 then None
        else do {
          sValue \<leftarrow> setYear sDate (word_of_int sYear);
          sValue \<leftarrow> setMonth sValue (word_of_int sMonth);
          let sEndLastDays = sLastDays (isLeapYear (word_of_int sYear)) in
          if sDay = sStartLastDays ! unat (month sDate) \<or> sDay \<ge> sEndLastDays ! nat sMonth
          then setDay sValue (word_of_int (sEndLastDays ! nat sMonth))
          else if sYear = 1582 \<and> sMonth = 10 \<and> 4 < sDay \<and> sDay < 15 then setDay sValue 15
          else Some sValue })"

definition mtfLast_dayCalculate :: "mtdDateType \<Rightarrow> mtdDateType option" where
  "mtfLast_dayCalculate sDate =
     (if dateIsNull sDate then Some mtdDateNull
      else if month sDate = 2 \<and> isLeapYear (year sDate)
      then setDay sDate (word_of_int (sLastDays False ! unat (month sDate) + 1))
      else setDay sDate (word_of_int (sLastDays False ! unat (month sDate))))"

subsection \<open>The month after a number of months\<close>

lemma sLastDays_nth:
  assumes "1 \<le> m" "m \<le> 12"
  shows "sLastDays (leap y) ! nat m = daysIn y m"
  using assms by (rule month_cases) (simp_all add: sLastDays_def daysIn_def)

text \<open>Months counted from the month 0 of the year 0, and the day that a date has in another month.\<close>

definition monthIndex :: "mtdDateType \<Rightarrow> int" where
  "monthIndex x = 12 * sint (year x) + uint (month x) - 1"

definition dayInMonth :: "mtdDateType \<Rightarrow> int \<Rightarrow> int \<Rightarrow> int" where
  "dayInMonth x y m =
     (if uint (day x) = daysIn (sint (year x)) (uint (month x)) \<or> uint (day x) \<ge> daysIn y m then daysIn y m
      else if gapDay y m (uint (day x)) then 15 else uint (day x))"

definition inMonth :: "mtdDateType \<Rightarrow> int \<Rightarrow> mtdDateType" where
  "inMonth x k = (let y = k div 12; m = k mod 12 + 1 in
     packDate y m (dayInMonth x y m) (uint (hour x)) (uint (minute x)) (uint (second x)) (uint (microSecond x)))"

lemma month_split:
  assumes "1 \<le> m" "m \<le> 12" "k = 12 * y + m - 1"
  shows "k div 12 = y" "k mod 12 + 1 = (m :: int)"
proof -
  have "k = 12 * y + (m - 1)" "0 \<le> m - 1" "m - 1 < 12" using assms by simp_all
  note int_div_pos_eq [OF this] int_mod_pos_eq [OF this]
  then show "k div 12 = y" "k mod 12 + 1 = m" by simp_all
qed

text \<open>Both carries of the code.\<close>

lemma month_carry:
  fixes n y m k :: int
  assumes "1 \<le> m" "m \<le> 12" and k_def: "k = 12 * y + m - 1 + n"
  shows "(if m + n smod 12 < 1 then (y + n sdiv 12 - 1, m + n smod 12 + 12)
      else if m + n smod 12 > 12 then (y + n sdiv 12 + 1, m + n smod 12 - 12)
      else (y + n sdiv 12, m + n smod 12)) = (k div 12, k mod 12 + 1)"
proof -
  define q r where "q = n sdiv 12" and "r = n smod 12"
  have n: "n = q * 12 + r" "\<bar>r\<bar> < 12" using sdiv_smod [of 12 n] by (simp_all add: q_def r_def)
  have qr: "n sdiv 12 = q" "n smod 12 = r" by (simp_all add: q_def r_def)
  consider "m + r < 1" | "m + r > 12" | "1 \<le> m + r" "m + r \<le> 12" by linarith
  then show ?thesis unfolding qr
  proof cases
    case 1
    have "k div 12 = y + q - 1" "k mod 12 + 1 = m + r + 12"
      using month_split [of "m + r + 12" k "y + q - 1"] 1 assms(1) n by (simp_all add: k_def)
    then show "(if m + r < 1 then (y + q - 1, m + r + 12) else if m + r > 12 then (y + q + 1, m + r - 12)
      else (y + q, m + r)) = (k div 12, k mod 12 + 1)" using 1 by simp
  next
    case 2
    have "k div 12 = y + q + 1" "k mod 12 + 1 = m + r - 12"
      using month_split [of "m + r - 12" k "y + q + 1"] 2 assms(2) n by (simp_all add: k_def)
    then show "(if m + r < 1 then (y + q - 1, m + r + 12) else if m + r > 12 then (y + q + 1, m + r - 12)
      else (y + q, m + r)) = (k div 12, k mod 12 + 1)" using 2 by simp
  next
    case 3
    have "k div 12 = y + q" "k mod 12 + 1 = m + r"
      using month_split [of "m + r" k "y + q"] 3 n by (simp_all add: k_def)
    then show "(if m + r < 1 then (y + q - 1, m + r + 12) else if m + r > 12 then (y + q + 1, m + r - 12)
      else (y + q, m + r)) = (k div 12, k mod 12 + 1)" using 3 by simp
  qed
qed

lemma month_range: "1 \<le> k mod 12 + 1" "k mod 12 + 1 \<le> (12 :: int)"
  by simp_all

lemma dayInMonth_ok:
  assumes "validDate x" "1 \<le> m" "m \<le> 12"
  shows "1 \<le> dayInMonth x y m" "dayInMonth x y m \<le> daysIn y m" "\<not> gapDay y m (dayInMonth x y m)"
proof -
  have d: "1 \<le> uint (day x)" using validDateD(1) [OF assms(1)] by (simp add: fieldsOk_def)
  show "1 \<le> dayInMonth x y m" "dayInMonth x y m \<le> daysIn y m"
    using d daysIn_bounds [of y m] by (auto simp: dayInMonth_def gapDay_def)
  have "\<not> gapDay y m (daysIn y m)" using daysIn_bounds [of y m] by (simp add: gapDay_def)
  moreover have "\<not> gapDay y m 15" by (simp add: gapDay_def)
  ultimately show "\<not> gapDay y m (dayInMonth x y m)" by (simp add: dayInMonth_def)
qed

lemma inMonth_fields:
  assumes "validDate x"
  shows "fieldsOk (k div 12) (k mod 12 + 1) (dayInMonth x (k div 12) (k mod 12 + 1)) (uint (hour x))
    (uint (minute x)) (uint (second x)) (uint (microSecond x))"
  using validDateD(1) [OF assms] dayInMonth_ok [OF assms month_range] month_range [of k]
  by (auto simp: fieldsOk_def)

lemma inMonth_valid:
  assumes "validDate x" "- 9999 \<le> k div 12" "k div 12 \<le> 9999"
  shows "validDate (inMonth x k)"
  unfolding inMonth_def Let_def
  by (rule packDate_valid [OF inMonth_fields [OF assms(1)] assms(2,3) dayInMonth_ok(3) [OF assms(1) month_range]])

text \<open>Adding a number of months, positive or negative, moves a date to the month at that distance and
  keeps its day and time; the last day of a month goes to the last day of the month, a day that the
  month does not have to its last day, and one of the ten days left out in October 1582 to the 15th.
  The result is a date of the calendar, and the call fails exactly if the year leaves -9999 to 9999.\<close>

lemma addMonth_inMonth:
  assumes "validDate x" and k_def: "k = monthIndex x + n"
  shows "addMonth D x n = (if - 9999 \<le> k div 12 \<and> k div 12 \<le> 9999 then Some (inMonth x k) else None)"
    "- 9999 \<le> k div 12 \<and> k div 12 \<le> 9999 \<Longrightarrow> validDate (inMonth x k)"
proof -
  let ?y = "sint (year x)" and ?m = "uint (month x)" and ?d = "uint (day x)"
  note X = validDateD [OF assms(1)]
  have m: "1 \<le> ?m" "?m \<le> 12" using X(1) by (simp_all add: fieldsOk_def)
  define y' m' where "y' = k div 12" and "m' = k mod 12 + 1"
  have carry: "(if ?m + n smod 12 < 1 then (?y + n sdiv 12 - 1, ?m + n smod 12 + 12)
      else if ?m + n smod 12 > 12 then (?y + n sdiv 12 + 1, ?m + n smod 12 - 12)
      else (?y + n sdiv 12, ?m + n smod 12)) = (y', m')"
    using month_carry [OF m, of k ?y n] by (simp add: k_def monthIndex_def y'_def m'_def)
  have start: "sLastDays (isLeapYear (word_of_int ?y)) ! nat ?m = daysIn ?y ?m"
    using sLastDays_nth [OF m, of ?y] by (simp add: isLeapYear_leap)
  have m': "1 \<le> m'" "m' \<le> 12" unfolding m'_def by (rule month_range)+
  show "addMonth D x n = (if - 9999 \<le> k div 12 \<and> k div 12 \<le> 9999 then Some (inMonth x k) else None)"
  proof (cases "- 9999 \<le> y' \<and> y' \<le> 9999")
    case True
    have lw: "isLeapYear (word_of_int y') = leap y'" using True by (intro leap_word) simp_all
    have e: "sLastDays (leap y') ! nat m' = daysIn y' m'" by (rule sLastDays_nth [OF m'])
    have w: "sint (word_of_int y' :: 16 word) = y'"
      using True by (simp add: signed_of_int signed_take_bit_int_eq_self)
    define d' where "d' = dayInMonth x y' m'"
    have d': "(if ?d = daysIn ?y ?m \<or> ?d \<ge> daysIn y' m' then daysIn y' m'
        else if y' = 1582 \<and> m' = 10 \<and> 4 < ?d \<and> ?d < 15 then 15 else ?d) = d'"
      by (simp add: d'_def dayInMonth_def gapDay_def)
    have f: "fieldsOk y' m' d' (uint (hour x)) (uint (minute x)) (uint (second x)) (uint (microSecond x))"
      using inMonth_fields [OF assms(1), of k] by (simp add: y'_def m'_def d'_def)
    have "\<not> gapDay y' m' d'" using dayInMonth_ok(3) [OF assms(1) m'] by (simp add: d'_def)
    moreover have u: "uint (word_of_int m' :: 8 word) = m'" "uint (word_of_int d' :: 8 word) = d'"
      using fieldsOk_bounds [OF f] m' by (simp_all add: uint_word_of_int mod_pos_pos_trivial)
    moreover have im: "inMonth x k = packDate y' m' d' (uint (hour x)) (uint (minute x)) (uint (second x))
        (uint (microSecond x))" by (simp add: inMonth_def Let_def y'_def m'_def d'_def)
    ultimately have "makeDate D (word_of_int y') (word_of_int m') (word_of_int d') (hour x) (minute x) (second x)
        (microSecond x) = Some (inMonth x k)"
      using f unfolding makeDate_pack w u im by simp
    then show ?thesis
      using True unfolding addMonth_def Let_def carry prod.case start lw e d' by (simp add: y'_def)
  next
    case False
    then show ?thesis unfolding addMonth_def Let_def carry prod.case by (auto simp: y'_def)
  qed
  show "- 9999 \<le> k div 12 \<and> k div 12 \<le> 9999 \<Longrightarrow> validDate (inMonth x k)"
    using inMonth_valid [OF assms(1), of k] by simp
qed

subsection \<open>Setting fields of a packed date\<close>

lemma setYear_pack: "setYear (packDate y m d h mi s us) (word_of_int y') = Some (packDate y' m d h mi s us)"
  by (simp add: setYear_def packDate_def)

lemma setMonth_pack:
  assumes "0 \<le> m" "m < 16" "0 \<le> d" "d < 32" "0 \<le> h" "h < 32" "1 \<le> m'" "m' \<le> 12"
  shows "setMonth (packDate y m d h mi s us) (word_of_int m') = Some (packDate y m' d h mi s us)"
proof -
  let ?w = "m * 1024 + (d * 32 + h)"
  have w: "uint (w16 ?w) = ?w" using assms by (intro uint_w) simp_all
  have "?w div 16384 = 0" using assms by (simp add: div_pos_pos_trivial)
  moreover have "?w mod 1024 = d * 32 + h"
    using assms int_mod_pos_eq [of ?w 1024 m "d * 32 + h"] by (simp add: mult.commute)
  moreover have "uint (word_of_int m' :: 8 word) = m'"
    using assms(7,8) by (simp add: uint_word_of_int mod_pos_pos_trivial)
  ultimately show ?thesis
    using assms(7,8) by (simp add: set_date_words(1) packDate_def add.assoc w)
qed

lemma setDay_pack:
  assumes "0 \<le> m" "m < 16" "0 \<le> d" "d < 32" "0 \<le> h" "h < 32" "1 \<le> d'" "d' \<le> 31"
  shows "setDay (packDate y m d h mi s us) (word_of_int d') = Some (packDate y m d' h mi s us)"
proof -
  let ?w = "m * 1024 + (d * 32 + h)"
  have w: "uint (w16 ?w) = ?w" using assms by (intro uint_w) simp_all
  have "?w div 1024 = m"
    using assms int_div_pos_eq [of ?w 1024 m "d * 32 + h"] by (simp add: mult.commute)
  moreover have "?w mod 32 = h"
    using assms int_mod_pos_eq [of ?w 32 "m * 32 + d" h] by (simp add: algebra_simps)
  moreover have "uint (word_of_int d' :: 8 word) = d'"
    using assms(7,8) by (simp add: uint_word_of_int mod_pos_pos_trivial)
  ultimately show ?thesis
    using assms(7,8) by (simp add: set_date_words(2) packDate_def add.assoc w)
qed

subsection \<open>\<open>ADD_MONTHS\<close> and \<open>LAST_DAY\<close>\<close>

lemma carries_agree:
  fixes y m y' m' :: int
  assumes "(if m < 1 then (y - 1, m + 12) else if m > 12 then (y + 1, m - 12) else (y, m)) = (y', m')" "m \<le> 24"
  shows "(case (if m > 12 then (y + 1, m - 12) else (y, m)) of
      (y, m) \<Rightarrow> (if m < 1 then (y - 1, m + 12) else (y, m))) = (y', m')"
  using assms by (auto split: if_splits)

lemma case_of_case:
  "(case A of (a, b) \<Rightarrow> case F a b of (c, d) \<Rightarrow> G c d) = (case (case A of (a, b) \<Rightarrow> F a b) of (c, d) \<Rightarrow> G c d)"
  by (cases A) simp

lemma add_months_inMonth:
  assumes "validDate x" and k_def: "k = monthIndex x + n" and n: "n \<noteq> - 2147483648"
  shows "mtfAdd_monthsCalculate x n =
    (if - 32767 \<le> k div 12 \<and> k div 12 \<le> 32767 then Some (inMonth x k) else None)"
proof -
  let ?y = "sint (year x)" and ?m = "uint (month x)" and ?d = "uint (day x)" and ?h = "uint (hour x)"
  let ?pack = "\<lambda>y m d. packDate y m d ?h (uint (minute x)) (uint (second x)) (uint (microSecond x))"
  note X = validDateD [OF assms(1)]
  have m: "1 \<le> ?m" "?m \<le> 12" using X(1) by (simp_all add: fieldsOk_def)
  define y' m' where "y' = k div 12" and "m' = k mod 12 + 1"
  have m': "1 \<le> m'" "m' \<le> 12" unfolding m'_def by (rule month_range)+
  have "\<bar>n smod 12\<bar> < 12" using sdiv_smod(2) [of 12 n] by simp
  then have "?m + n smod 12 \<le> 24" using m by linarith
  from carries_agree [OF _ this, of "?y + n sdiv 12" y' m']
  have carry: "(case (if ?m + n smod 12 > 12 then (?y + n sdiv 12 + 1, ?m + n smod 12 - 12)
      else (?y + n sdiv 12, ?m + n smod 12)) of
      (y, m) \<Rightarrow> (if m < 1 then (y - 1, m + 12) else (y, m))) = (y', m')"
    using month_carry [OF m, of k ?y n] by (simp add: k_def monthIndex_def y'_def m'_def)
  have start: "sLastDays (isLeapYear (word_of_int ?y)) ! nat ?m = daysIn ?y ?m"
    using sLastDays_nth [OF m, of ?y] by (simp add: isLeapYear_leap)
  have null: "(dateIsNull x \<or> n = - 2147483648) = False"
    using n X(5) by (simp add: dateIsNull_def)
  show ?thesis
  proof (cases "- 32767 \<le> y' \<and> y' \<le> 32767")
    case True
    have e: "sLastDays (isLeapYear (word_of_int y')) ! nat m' = daysIn y' m'"
      using True leap_word [of y'] sLastDays_nth [OF m', of y'] by simp
    note b = fieldsOk_bounds [OF X(1)]
    have A: "setMonth (?pack y' ?m ?d) (word_of_int m') = Some (?pack y' m' ?d)"
      using b m' by (intro setMonth_pack) simp_all
    have B: "setYear x (word_of_int y') = Some (?pack y' ?m ?d)"
      using setYear_pack [of ?y ?m ?d ?h "uint (minute x)" "uint (second x)" "uint (microSecond x)" y']
      unfolding X(6) .
    have C: "(if ?d = daysIn ?y ?m \<or> ?d \<ge> daysIn y' m' then setDay (?pack y' m' ?d) (word_of_int (daysIn y' m'))
        else if y' = 1582 \<and> m' = 10 \<and> 4 < ?d \<and> ?d < 15 then setDay (?pack y' m' ?d) 15
        else Some (?pack y' m' ?d)) = Some (?pack y' m' (dayInMonth x y' m'))"
    proof -
      have "setDay (?pack y' m' ?d) (word_of_int (daysIn y' m')) = Some (?pack y' m' (daysIn y' m'))"
        using b m' daysIn_bounds [of y' m'] by (intro setDay_pack) simp_all
      moreover have "setDay (?pack y' m' ?d) (word_of_int 15) = Some (?pack y' m' 15)"
        using b m' by (intro setDay_pack) simp_all
      ultimately show ?thesis unfolding dayInMonth_def gapDay_def by auto
    qed
    have M: "unat (month x) = nat ?m" by (rule nat_uint_eq [symmetric])
    have lim: "(y' > 32767) = False" "(y' < - 32767) = False" using True by simp_all
    show ?thesis
      unfolding mtfAdd_monthsCalculate_def Let_def null case_of_case carry prod.case lim if_False
        A B bind.bind_lunit M start e C
      using True by (simp add: inMonth_def Let_def y'_def m'_def)
  next
    case False
    then show ?thesis unfolding mtfAdd_monthsCalculate_def Let_def null case_of_case carry prod.case
      by (auto simp: y'_def)
  qed
qed

text \<open>Beyond the years -9999 and 9999 a date has no interval.\<close>

lemma convertDate2Interval_far:
  assumes f: "fieldsOk y m d h mi s us" and gap: "\<not> gapDay y m d"
    and y: "- 32768 \<le> y" "y < 32768" "y < - 9999 \<or> 9999 < y"
  shows "convertDate2Interval (packDate y m d h mi s us) = None"
proof -
  note P = packDate_fields [OF f y(1,2)]
  have md: "1 \<le> m" "m \<le> 12" "1 \<le> d" "d \<le> daysIn y m" using f by (simp_all add: fieldsOk_def)
  have c: "calendarDay y m d" using md gap by (simp add: calendarDay_def)
  define n where "n = dayOfCommonEra y m d"
  define t where "t = n * 86400 + (h * 3600 + mi * 60 + s)"
  have e: "yearStart (- 9999) = - 3652500" "yearStart 10000 = 3652071" by (simp_all add: yearStart_def)
  have g: "withGap n = yearStart y + monthStart y m + d - 1" unfolding n_def by (rule withGap_day [OF c y(1,2)])
  note b = monthStart_bounds [OF md(1,2), of y]
  have "n < - 3652500 \<or> 3652060 < n"
  proof (cases "9999 < y")
    case True
    then have "3652071 \<le> yearStart y"
      using yearStart_mono [of 10000 y] yearLength_bounds(1) [of 10000] e by (cases "y = 10000") auto
    then have "3652071 \<le> withGap n" using g b(1) md(3) by linarith
    then show ?thesis by (auto simp: withGap_def split: if_splits)
  next
    case False
    then have "yearStart y + yearLength y \<le> - 3652500" using yearStart_mono [of y "- 9999"] y(3) e by simp
    then have "withGap n < - 3652500" using g b(2) md(4) by linarith
    then show ?thesis by (auto simp: withGap_def split: if_splits)
  qed
  then have t: "t < - 315576000000 \<or> 315538070399 < t" using f unfolding t_def fieldsOk_def by linarith
  have inv: "invalidYear (if t < 0 \<and> us > 0 then \<lparr> ivSecond = t + 1, ivMicrosecond = us - 1000000 \<rparr>
      else \<lparr> ivSecond = t, ivMicrosecond = us \<rparr>)"
    using t f by (auto simp: invalidYear_def fieldsOk_def)
  show ?thesis
    unfolding convertDate2Interval_def Let_def P n_def [symmetric] t_def [symmetric] using inv by simp
qed

lemma inMonth_far:
  assumes "validDate x" "- 32767 \<le> k div 12" "k div 12 \<le> 32767" "k div 12 < - 9999 \<or> 9999 < k div 12"
  shows "convertDate2Interval (inMonth x k) = None"
  unfolding inMonth_def Let_def
  using inMonth_fields [OF assms(1), of k] dayInMonth_ok(3) [OF assms(1) month_range, of "k div 12" k] assms(2-4)
  by (intro convertDate2Interval_far) simp_all


lemma last_day:
  assumes "validDate x"
  shows "mtfLast_dayCalculate x = Some (packDate (sint (year x)) (uint (month x))
    (daysIn (sint (year x)) (uint (month x))) (uint (hour x)) (uint (minute x)) (uint (second x)) (uint (microSecond x)))"
proof -
  let ?y = "sint (year x)" and ?m = "uint (month x)"
  note X = validDateD [OF assms]
  note b = fieldsOk_bounds [OF X(1)]
  have m: "1 \<le> ?m" "?m \<le> 12" using X(1) by (simp_all add: fieldsOk_def)
  have "month x = 2 \<longleftrightarrow> ?m = 2" by (simp add: word_uint_eq_iff [of "month x"])
  then have L: "(if month x = 2 \<and> isLeapYear (year x) then setDay x (word_of_int (sLastDays False ! nat ?m + 1))
      else setDay x (word_of_int (sLastDays False ! nat ?m))) = setDay x (word_of_int (daysIn ?y ?m))"
    using m by (elim month_cases) (simp_all add: sLastDays_def daysIn_def isLeapYear_leap)
  have M: "unat (month x) = nat ?m" by (rule nat_uint_eq [symmetric])
  have S: "setDay x (word_of_int (daysIn ?y ?m)) = Some (packDate ?y ?m (daysIn ?y ?m)
      (uint (hour x)) (uint (minute x)) (uint (second x)) (uint (microSecond x)))"
    using setDay_pack [of ?m "uint (day x)" "uint (hour x)" "daysIn ?y ?m" ?y "uint (minute x)" "uint (second x)"
      "uint (microSecond x)"] b daysIn_bounds [of ?y ?m] unfolding X(6) by simp
  have null: "dateIsNull x = False" using X(5) by (simp add: dateIsNull_def)
  show ?thesis unfolding mtfLast_dayCalculate_def null if_False M L by (rule S)
qed

lemma addMonth_inMonth_witness:
  "validDate (packDate 1582 9 10 12 0 0 0) \<and>
   addMonth mtdDateNull (packDate 1582 9 10 12 0 0 0) 1 = Some (packDate 1582 10 15 12 0 0 0)"
proof -
  have f: "fieldsOk 1582 9 10 12 0 0 0" by (simp add: fieldsOk_def daysIn_def)
  then have v: "validDate (packDate 1582 9 10 12 0 0 0)" by (intro packDate_valid) (simp_all add: gapDay_def)
  have y: "- 32768 \<le> (1582 :: int)" "1582 < (32768 :: int)" by simp_all
  note P = packDate_fields [OF f y]
  have "inMonth (packDate 1582 9 10 12 0 0 0) 18993 = packDate 1582 10 15 12 0 0 0"
    by (simp add: inMonth_def Let_def P dayInMonth_def daysIn_def gapDay_def)
  then show ?thesis
    using v addMonth_inMonth(1) [OF v refl, of mtdDateNull 1] by (simp add: monthIndex_def P)
qed


end
