(* ===== verification/MtlAscii.thy ===== *)
theory MtlAscii
  imports Prelude
begin

text \<open>
  The words of the ASCII language module (\<open>src/src/mt/mtl/mtlASCII.cpp\<close>): the names of the fields of
  a date and of the days of the week, in any case, with \<open>idlOS::strCaselessMatch\<close> of
  \<open>src/src/id/include/idl.i\<close>.  A function on dates reaches them through the function sets of the
  language of its argument.  A string is the list of its bytes, without its length.
\<close>

subsection \<open>Comparison without case\<close>

definition idlOS_toupper :: "char \<Rightarrow> char" where
  "idlOS_toupper c = (let n = of_char c :: nat in if 97 \<le> n \<and> n \<le> 122 then char_of (n - 32) else c)"

text \<open>Clearing bit 5 of a lower case letter takes 32 off its code.  The loop over the bytes, of two strings of the same length.\<close>

fun caselessLoop :: "string \<Rightarrow> string \<Rightarrow> int" where
  "caselessLoop (c # cs) (d # ds) = (if idlOS_toupper c \<noteq> idlOS_toupper d then -1 else caselessLoop cs ds)"
| "caselessLoop _ _ = 0"

definition strCaselessMatch :: "string \<Rightarrow> string \<Rightarrow> int" where
  "strCaselessMatch aValue1 aValue2 =
     (if length aValue1 \<noteq> length aValue2 then -1 else caselessLoop aValue1 aValue2)"

lemma caselessLoop_0: "length s = length t \<Longrightarrow> caselessLoop s t = 0 \<longleftrightarrow> map idlOS_toupper s = map idlOS_toupper t"
  by (induction s t rule: list_induct2) auto

lemma strCaselessMatch_0: "strCaselessMatch s t = 0 \<longleftrightarrow> map idlOS_toupper s = map idlOS_toupper t"
  using caselessLoop_0 [of s t] by (auto simp: strCaselessMatch_def dest: map_eq_imp_length_eq)

subsection \<open>The fields of a date\<close>

type_synonym mtlMatchFunc = "string \<Rightarrow> int"

record mtlExtractFuncSet =
  matchCentury :: mtlMatchFunc
  matchYear :: mtlMatchFunc
  matchQuarter :: mtlMatchFunc
  matchMonth :: mtlMatchFunc
  matchWeek :: mtlMatchFunc
  matchWeekOfMonth :: mtlMatchFunc
  matchDay :: mtlMatchFunc
  matchDayOfYear :: mtlMatchFunc
  matchDayOfWeek :: mtlMatchFunc
  matchHour :: mtlMatchFunc
  matchMinute :: mtlMatchFunc
  matchSecond :: mtlMatchFunc
  matchMicroSec :: mtlMatchFunc
  matchISOWeek :: mtlMatchFunc

definition mtlAsciiExtract_MatchCentury :: mtlMatchFunc where
  "mtlAsciiExtract_MatchCentury aSource =
     (if strCaselessMatch aSource ''CENTURY'' = 0 \<or> strCaselessMatch aSource ''SCC'' = 0 \<or>
      strCaselessMatch aSource ''CC'' = 0
     then 0 else 1)"

definition mtlAsciiExtract_MatchYear :: mtlMatchFunc where
  "mtlAsciiExtract_MatchYear aSource =
     (if strCaselessMatch aSource ''YEAR'' = 0 \<or> strCaselessMatch aSource ''SYYYY'' = 0 \<or>
      strCaselessMatch aSource ''YYYY'' = 0 \<or> strCaselessMatch aSource ''YYY'' = 0 \<or>
      strCaselessMatch aSource ''YY'' = 0 \<or> strCaselessMatch aSource ''Y'' = 0
     then 0 else 1)"

definition mtlAsciiExtract_MatchQuarter :: mtlMatchFunc where
  "mtlAsciiExtract_MatchQuarter aSource =
     (if strCaselessMatch aSource ''QUARTER'' = 0 \<or> strCaselessMatch aSource ''Q'' = 0
     then 0 else 1)"

definition mtlAsciiExtract_MatchMonth :: mtlMatchFunc where
  "mtlAsciiExtract_MatchMonth aSource =
     (if strCaselessMatch aSource ''MONTH'' = 0 \<or> strCaselessMatch aSource ''MON'' = 0 \<or>
      strCaselessMatch aSource ''MM'' = 0 \<or> strCaselessMatch aSource ''RM'' = 0
     then 0 else 1)"

definition mtlAsciiExtract_MatchWeek :: mtlMatchFunc where
  "mtlAsciiExtract_MatchWeek aSource =
     (if strCaselessMatch aSource ''WEEK'' = 0 \<or> strCaselessMatch aSource ''WW'' = 0
     then 0 else 1)"

definition mtlAsciiExtract_MatchWeekOfMonth :: mtlMatchFunc where
  "mtlAsciiExtract_MatchWeekOfMonth aSource =
     (if strCaselessMatch aSource ''WEEKOFMONTH'' = 0 \<or> strCaselessMatch aSource ''W'' = 0
     then 0 else 1)"

definition mtlAsciiExtract_MatchDay :: mtlMatchFunc where
  "mtlAsciiExtract_MatchDay aSource =
     (if strCaselessMatch aSource ''DAY'' = 0 \<or> strCaselessMatch aSource ''DDD'' = 0 \<or>
      strCaselessMatch aSource ''DD'' = 0 \<or> strCaselessMatch aSource ''J'' = 0
     then 0 else 1)"

definition mtlAsciiExtract_MatchDayOfYear :: mtlMatchFunc where
  "mtlAsciiExtract_MatchDayOfYear aSource =
     strCaselessMatch aSource ''DAYOFYEAR''"

definition mtlAsciiExtract_MatchDayOfWeek :: mtlMatchFunc where
  "mtlAsciiExtract_MatchDayOfWeek aSource =
     (if strCaselessMatch aSource ''DAYOFWEEK'' = 0 \<or> strCaselessMatch aSource ''DY'' = 0 \<or>
      strCaselessMatch aSource ''D'' = 0
     then 0 else 1)"

definition mtlAsciiExtract_MatchHour :: mtlMatchFunc where
  "mtlAsciiExtract_MatchHour aSource =
     (if strCaselessMatch aSource ''HOUR'' = 0 \<or> strCaselessMatch aSource ''HH'' = 0 \<or>
      strCaselessMatch aSource ''HH12'' = 0 \<or> strCaselessMatch aSource ''HH24'' = 0
     then 0 else 1)"

definition mtlAsciiExtract_MatchMinute :: mtlMatchFunc where
  "mtlAsciiExtract_MatchMinute aSource =
     (if strCaselessMatch aSource ''MINUTE'' = 0 \<or> strCaselessMatch aSource ''MI'' = 0
     then 0 else 1)"

definition mtlAsciiExtract_MatchSecond :: mtlMatchFunc where
  "mtlAsciiExtract_MatchSecond aSource =
     strCaselessMatch aSource ''SECOND''"

definition mtlAsciiExtract_MatchMicroSec :: mtlMatchFunc where
  "mtlAsciiExtract_MatchMicroSec aSource =
     strCaselessMatch aSource ''MICROSECOND''"

definition mtlAsciiExtract_MatchISOWeek :: mtlMatchFunc where
  "mtlAsciiExtract_MatchISOWeek aSource =
     (if strCaselessMatch aSource ''IW'' = 0
     then 0 else 1)"

definition mtlAsciiExtractSet :: mtlExtractFuncSet where
  "mtlAsciiExtractSet = \<lparr>
     matchCentury = mtlAsciiExtract_MatchCentury,
     matchYear = mtlAsciiExtract_MatchYear,
     matchQuarter = mtlAsciiExtract_MatchQuarter,
     matchMonth = mtlAsciiExtract_MatchMonth,
     matchWeek = mtlAsciiExtract_MatchWeek,
     matchWeekOfMonth = mtlAsciiExtract_MatchWeekOfMonth,
     matchDay = mtlAsciiExtract_MatchDay,
     matchDayOfYear = mtlAsciiExtract_MatchDayOfYear,
     matchDayOfWeek = mtlAsciiExtract_MatchDayOfWeek,
     matchHour = mtlAsciiExtract_MatchHour,
     matchMinute = mtlAsciiExtract_MatchMinute,
     matchSecond = mtlAsciiExtract_MatchSecond,
     matchMicroSec = mtlAsciiExtract_MatchMicroSec,
     matchISOWeek = mtlAsciiExtract_MatchISOWeek \<rparr>"

subsection \<open>The days of the week\<close>

record mtlNextDayFuncSet =
  matchSunDay :: mtlMatchFunc
  matchMonDay :: mtlMatchFunc
  matchTueDay :: mtlMatchFunc
  matchWedDay :: mtlMatchFunc
  matchThuDay :: mtlMatchFunc
  matchFriDay :: mtlMatchFunc
  matchSatDay :: mtlMatchFunc

definition mtlAsciiNextDay_MatchSunDay :: mtlMatchFunc where
  "mtlAsciiNextDay_MatchSunDay aSource =
     (if strCaselessMatch aSource ''SUNDAY'' = 0 \<or> strCaselessMatch aSource ''SUN'' = 0
     then 0 else 1)"

definition mtlAsciiNextDay_MatchMonDay :: mtlMatchFunc where
  "mtlAsciiNextDay_MatchMonDay aSource =
     (if strCaselessMatch aSource ''MONDAY'' = 0 \<or> strCaselessMatch aSource ''MON'' = 0
     then 0 else 1)"

definition mtlAsciiNextDay_MatchTueDay :: mtlMatchFunc where
  "mtlAsciiNextDay_MatchTueDay aSource =
     (if strCaselessMatch aSource ''TUESDAY'' = 0 \<or> strCaselessMatch aSource ''TUE'' = 0
     then 0 else 1)"

definition mtlAsciiNextDay_MatchWedDay :: mtlMatchFunc where
  "mtlAsciiNextDay_MatchWedDay aSource =
     (if strCaselessMatch aSource ''WEDNESDAY'' = 0 \<or> strCaselessMatch aSource ''WED'' = 0
     then 0 else 1)"

definition mtlAsciiNextDay_MatchThuDay :: mtlMatchFunc where
  "mtlAsciiNextDay_MatchThuDay aSource =
     (if strCaselessMatch aSource ''THURSDAY'' = 0 \<or> strCaselessMatch aSource ''THU'' = 0
     then 0 else 1)"

definition mtlAsciiNextDay_MatchFriDay :: mtlMatchFunc where
  "mtlAsciiNextDay_MatchFriDay aSource =
     (if strCaselessMatch aSource ''FRIDAY'' = 0 \<or> strCaselessMatch aSource ''FRI'' = 0
     then 0 else 1)"

definition mtlAsciiNextDay_MatchSatDay :: mtlMatchFunc where
  "mtlAsciiNextDay_MatchSatDay aSource =
     (if strCaselessMatch aSource ''SATURDAY'' = 0 \<or> strCaselessMatch aSource ''SAT'' = 0
     then 0 else 1)"

definition mtlAsciiNextDaySet :: mtlNextDayFuncSet where
  "mtlAsciiNextDaySet = \<lparr>
     matchSunDay = mtlAsciiNextDay_MatchSunDay,
     matchMonDay = mtlAsciiNextDay_MatchMonDay,
     matchTueDay = mtlAsciiNextDay_MatchTueDay,
     matchWedDay = mtlAsciiNextDay_MatchWedDay,
     matchThuDay = mtlAsciiNextDay_MatchThuDay,
     matchFriDay = mtlAsciiNextDay_MatchFriDay,
     matchSatDay = mtlAsciiNextDay_MatchSatDay \<rparr>"

end
