(* ===== verification/DateFunctions.thy ===== *)
theory DateFunctions
  imports Complex_Main DateArith DateMonth DateDiff MtlAscii
begin

text \<open>
  Functions of the query language on dates: \<open>DATEADD\<close> (\<open>src/src/mt/mtf/mtfDateadd.cpp\<close>), \<open>DATEDIFF\<close>
  (\<open>src/src/mt/mtf/mtfDatediff.cpp\<close>), \<open>NEXT_DAY\<close> (\<open>src/src/mt/mtf/mtfNext_day.cpp\<close>),
  \<open>MONTHS_BETWEEN\<close> (\<open>src/src/mt/mtf/mtfMonths_between.cpp\<close>), \<open>DATE_TO_UNIX\<close>
  (\<open>src/src/mt/mtf/mtfDateToUnix.cpp\<close>) and \<open>UNIX_TO_DATE\<close> (\<open>src/src/mt/mtf/mtfUnixToDate.cpp\<close>).  They find the field or the weekday with
  the functions of the argument's language (\<open>MtlAscii\<close> for ASCII), check the number, and call the
  operations on dates.  The limits on the number keep every product inside 64 bits, so that nothing
  wraps around.  \<open>None\<close> is \<open>IDE_FAILURE\<close>, for any of the errors.
\<close>

subsection \<open>The field of a word\<close>

abbreviation mtdBigintNull :: int where "mtdBigintNull \<equiv> -9223372036854775808"

text \<open>The chain of tests of \<open>DATEDIFF\<close>; \<open>DATEADD\<close> makes the same tests.\<close>

definition dateFieldOf :: "mtlExtractFuncSet \<Rightarrow> string \<Rightarrow> mtdDateField option" where
  "dateFieldOf extractSet sDateFmt =
     (if matchCentury extractSet sDateFmt = 0 then Some MTD_DATE_DIFF_CENTURY
      else if matchYear extractSet sDateFmt = 0 then Some MTD_DATE_DIFF_YEAR
      else if matchQuarter extractSet sDateFmt = 0 then Some MTD_DATE_DIFF_QUARTER
      else if matchMonth extractSet sDateFmt = 0 then Some MTD_DATE_DIFF_MONTH
      else if matchWeek extractSet sDateFmt = 0 then Some MTD_DATE_DIFF_WEEK
      else if matchDay extractSet sDateFmt = 0 then Some MTD_DATE_DIFF_DAY
      else if matchHour extractSet sDateFmt = 0 then Some MTD_DATE_DIFF_HOUR
      else if matchMinute extractSet sDateFmt = 0 then Some MTD_DATE_DIFF_MINUTE
      else if matchSecond extractSet sDateFmt = 0 then Some MTD_DATE_DIFF_SECOND
      else if matchMicroSec extractSet sDateFmt = 0 then Some MTD_DATE_DIFF_MICROSEC
      else None)"

definition mtfDatediffCalculate ::
  "mtlExtractFuncSet \<Rightarrow> mtdDateType \<Rightarrow> mtdDateType \<Rightarrow> string \<Rightarrow> int option" where
  "mtfDatediffCalculate extractSet sStartDate sEndDate sDateFmt =
     (if dateIsNull sStartDate \<or> dateIsNull sEndDate \<or> sDateFmt = [] then Some mtdBigintNull
      else do {
        sDateField \<leftarrow> dateFieldOf extractSet sDateFmt;
        dateDiff sStartDate sEndDate sDateField })"

definition mtfDateaddCalculate ::
  "mtlExtractFuncSet \<Rightarrow> mtdDateType \<Rightarrow> mtdDateType \<Rightarrow> int \<Rightarrow> string \<Rightarrow> mtdDateType option" where
  "mtfDateaddCalculate extractSet sResult sDate sNumber sVarchar =
     (if dateIsNull sDate \<or> sNumber = mtdBigintNull \<or> sVarchar = [] then Some mtdDateNull
      else if matchCentury extractSet sVarchar = 0 then
        (if sNumber > 100 \<or> sNumber < -100 then None
         else addMonth sResult sDate (sNumber * 12 * 100))
      else if matchYear extractSet sVarchar = 0 then
        (if sNumber > 10000 \<or> sNumber < -10000 then None
         else addMonth sResult sDate (sNumber * 12))
      else if matchQuarter extractSet sVarchar = 0 then
        (if sNumber > 40000 \<or> sNumber < -40000 then None
         else addMonth sResult sDate (sNumber * 3))
      else if matchMonth extractSet sVarchar = 0 then
        (if sNumber > 120000 \<or> sNumber < -120000 then None
         else addMonth sResult sDate sNumber)
      else if matchWeek extractSet sVarchar = 0 then
        (if sNumber > 600000 \<or> sNumber < -600000 then None
         else addDay sResult sDate (sNumber * 7))
      else if matchDay extractSet sVarchar = 0 then
        (if sNumber > 3660000 \<or> sNumber < -3660000 then None
         else addDay sResult sDate sNumber)
      else if matchHour extractSet sVarchar = 0 then
        (if sNumber > 87840000 \<or> sNumber < -87840000 then None
         else addMicroSecond sResult sDate (sNumber * 1000000 * 60 * 60))
      else if matchMinute extractSet sVarchar = 0 then
        (if sNumber > 5270400000 \<or> sNumber < -5270400000 then None
         else addMicroSecond sResult sDate (sNumber * 1000000 * 60))
      else if matchSecond extractSet sVarchar = 0 then
        (if sNumber > 2185574400 \<or> sNumber < -2185574400 then None
         else addMicroSecond sResult sDate (sNumber * 1000000))
      else if matchMicroSec extractSet sVarchar = 0 then
        (if sNumber > 2592000000000 \<or> sNumber < -2592000000000 then None
         else addMicroSecond sResult sDate sNumber)
      else None)"

subsection \<open>\<open>DATEADD\<close>\<close>

text \<open>What \<open>DATEADD\<close> promises for a field: the largest number, the months or the microseconds of a unit.\<close>

fun fieldLimit :: "mtdDateField \<Rightarrow> int" where
  "fieldLimit MTD_DATE_DIFF_CENTURY = 100"
| "fieldLimit MTD_DATE_DIFF_YEAR = 10000"
| "fieldLimit MTD_DATE_DIFF_QUARTER = 40000"
| "fieldLimit MTD_DATE_DIFF_MONTH = 120000"
| "fieldLimit MTD_DATE_DIFF_WEEK = 600000"
| "fieldLimit MTD_DATE_DIFF_DAY = 3660000"
| "fieldLimit MTD_DATE_DIFF_HOUR = 87840000"
| "fieldLimit MTD_DATE_DIFF_MINUTE = 5270400000"
| "fieldLimit MTD_DATE_DIFF_SECOND = 2185574400"
| "fieldLimit MTD_DATE_DIFF_MICROSEC = 2592000000000"

datatype dateUnit = Months int | Micros int

fun fieldUnit :: "mtdDateField \<Rightarrow> dateUnit" where
  "fieldUnit MTD_DATE_DIFF_CENTURY = Months 1200"
| "fieldUnit MTD_DATE_DIFF_YEAR = Months 12"
| "fieldUnit MTD_DATE_DIFF_QUARTER = Months 3"
| "fieldUnit MTD_DATE_DIFF_MONTH = Months 1"
| "fieldUnit MTD_DATE_DIFF_WEEK = Micros 604800000000"
| "fieldUnit MTD_DATE_DIFF_DAY = Micros 86400000000"
| "fieldUnit MTD_DATE_DIFF_HOUR = Micros 3600000000"
| "fieldUnit MTD_DATE_DIFF_MINUTE = Micros 60000000"
| "fieldUnit MTD_DATE_DIFF_SECOND = Micros 1000000"
| "fieldUnit MTD_DATE_DIFF_MICROSEC = Micros 1"

definition dateAdded :: "mtdDateField \<Rightarrow> mtdDateType \<Rightarrow> int \<Rightarrow> mtdDateType option \<Rightarrow> bool" where
  "dateAdded f x n r \<longleftrightarrow>
     (if \<bar>n\<bar> > fieldLimit f then r = None
      else case fieldUnit f of
        Months u \<Rightarrow> let k = monthIndex x + n * u in
          r = (if - 9999 \<le> k div 12 \<and> k div 12 \<le> 9999 then Some (inMonth x k) else None)
      | Micros u \<Rightarrow> dateAt (instant x + n * u) r)"

lemma limit_test: "(n > b \<or> n < - b) \<longleftrightarrow> \<not> \<bar>n\<bar> \<le> (b :: int)"
  by auto

lemma added_months:
  assumes "validDate x" "fieldUnit f = Months u" "m = n * u"
  shows "dateAdded f x n (if n > fieldLimit f \<or> n < - fieldLimit f then None else addMonth D x m)"
  using addMonth_inMonth(1) [OF assms(1), of _ m D, OF refl] assms(2,3) unfolding limit_test
  by (simp add: dateAdded_def Let_def)

lemma added_days:
  assumes "validDate x" "fieldUnit f = Micros (86400000000 * u)" "m = n * u" "fieldLimit f * u \<le> 100000000" "0 < u"
  shows "dateAdded f x n (if n > fieldLimit f \<or> n < - fieldLimit f then None else addDay D x m)"
proof (cases "\<bar>n\<bar> \<le> fieldLimit f")
  case True
  then have "\<bar>m\<bar> \<le> fieldLimit f * u" using assms(3,5) by (simp add: abs_mult)
  then have "dateAt (instant x + m * 86400000000) (addDay D x m)"
    using assms(1,4) by (intro addDay_exact) simp_all
  then show ?thesis using True assms(2,3) unfolding limit_test by (simp add: dateAdded_def mult_ac)
next
  case False
  then show ?thesis unfolding limit_test by (simp add: dateAdded_def)
qed

lemma added_micros:
  assumes "validDate x" "fieldUnit f = Micros u" "m = n * u" "fieldLimit f * u \<le> 8000000000000000000" "0 < u"
  shows "dateAdded f x n (if n > fieldLimit f \<or> n < - fieldLimit f then None else addMicroSecond D x m)"
proof (cases "\<bar>n\<bar> \<le> fieldLimit f")
  case True
  then have "\<bar>m\<bar> \<le> fieldLimit f * u" using assms(3,5) by (simp add: abs_mult)
  then have "dateAt (instant x + m) (addMicroSecond D x m)"
    using assms(1,4) by (intro addMicroSecond_exact) simp_all
  then show ?thesis using True assms(2,3) unfolding limit_test by (simp add: dateAdded_def)
next
  case False
  then show ?thesis unfolding limit_test by (simp add: dateAdded_def)
qed

lemma added_fields:
  assumes "validDate x"
  shows "dateAdded MTD_DATE_DIFF_CENTURY x n (if n > 100 \<or> n < -100 then None else addMonth D x (n * 12 * 100))"
    "dateAdded MTD_DATE_DIFF_YEAR x n (if n > 10000 \<or> n < -10000 then None else addMonth D x (n * 12))"
    "dateAdded MTD_DATE_DIFF_QUARTER x n (if n > 40000 \<or> n < -40000 then None else addMonth D x (n * 3))"
    "dateAdded MTD_DATE_DIFF_MONTH x n (if n > 120000 \<or> n < -120000 then None else addMonth D x n)"
    "dateAdded MTD_DATE_DIFF_WEEK x n (if n > 600000 \<or> n < -600000 then None else addDay D x (n * 7))"
    "dateAdded MTD_DATE_DIFF_DAY x n (if n > 3660000 \<or> n < -3660000 then None else addDay D x n)"
    "dateAdded MTD_DATE_DIFF_HOUR x n
      (if n > 87840000 \<or> n < -87840000 then None else addMicroSecond D x (n * 1000000 * 60 * 60))"
    "dateAdded MTD_DATE_DIFF_MINUTE x n
      (if n > 5270400000 \<or> n < -5270400000 then None else addMicroSecond D x (n * 1000000 * 60))"
    "dateAdded MTD_DATE_DIFF_SECOND x n
      (if n > 2185574400 \<or> n < -2185574400 then None else addMicroSecond D x (n * 1000000))"
    "dateAdded MTD_DATE_DIFF_MICROSEC x n
      (if n > 2592000000000 \<or> n < -2592000000000 then None else addMicroSecond D x n)"
  using added_months [OF assms, of MTD_DATE_DIFF_CENTURY 1200 "n * 12 * 100" n D]
    added_months [OF assms, of MTD_DATE_DIFF_YEAR 12 "n * 12" n D]
    added_months [OF assms, of MTD_DATE_DIFF_QUARTER 3 "n * 3" n D]
    added_months [OF assms, of MTD_DATE_DIFF_MONTH 1 n n D]
    added_days [OF assms, of MTD_DATE_DIFF_WEEK 7 "n * 7" n D]
    added_days [OF assms, of MTD_DATE_DIFF_DAY 1 n n D]
    added_micros [OF assms, of MTD_DATE_DIFF_HOUR 3600000000 "n * 1000000 * 60 * 60" n D]
    added_micros [OF assms, of MTD_DATE_DIFF_MINUTE 60000000 "n * 1000000 * 60" n D]
    added_micros [OF assms, of MTD_DATE_DIFF_SECOND 1000000 "n * 1000000" n D]
    added_micros [OF assms, of MTD_DATE_DIFF_MICROSEC 1 n n D]
  by simp_all

definition fieldAdded :: "mtdDateType \<Rightarrow> int \<Rightarrow> mtdDateField option \<Rightarrow> mtdDateType option \<Rightarrow> bool" where
  "fieldAdded x n field r \<longleftrightarrow> (case field of None \<Rightarrow> r = None | Some f \<Rightarrow> dateAdded f x n r)"

lemma fieldAdded_test:
  "dateAdded f x n a \<Longrightarrow> fieldAdded x n field r \<Longrightarrow>
    fieldAdded x n (if c then Some f else field) (if c then a else r)"
  by (simp add: fieldAdded_def)

lemma dateadd_field:
  assumes "validDate x" "n \<noteq> mtdBigintNull" "s \<noteq> []"
  shows "fieldAdded x n (dateFieldOf E s) (mtfDateaddCalculate E D x n s)"
proof -
  have null: "(dateIsNull x \<or> n = mtdBigintNull \<or> s = []) = False"
    using assms valid_not_null by simp
  show ?thesis
    unfolding dateFieldOf_def mtfDateaddCalculate_def null if_False
    by (intro fieldAdded_test added_fields [OF assms(1)]) (simp add: fieldAdded_def)
qed

text \<open>The words of the ASCII module.\<close>

lemma ascii_words:
  "dateFieldOf mtlAsciiExtractSet ''month'' = Some MTD_DATE_DIFF_MONTH"
  "dateFieldOf mtlAsciiExtractSet ''Hh24'' = Some MTD_DATE_DIFF_HOUR"
  "dateFieldOf mtlAsciiExtractSet ''MINUTES'' = None"
  by code_simp+

text \<open>C26: \<open>DATEADD\<close> adds the number of units of the named field to any date of the calendar: the date of
  the month at that distance for centuries, years, quarters and months, the date at that distance on
  the time line for the others, without overflow; it fails exactly for an unknown field, a number beyond
  the limit of the field, and a result outside the years -9999 to 9999.\<close>

theorem dateadd_by_field:
  assumes "validDate x" "n \<noteq> mtdBigintNull" "s \<noteq> []"
  shows "fieldAdded x n (dateFieldOf E s) (mtfDateaddCalculate E D x n s)"
  by (rule dateadd_field [OF assms])

lemma dateadd_by_field_witness:
  "validDate (packDate 2024 1 31 8 0 0 0) \<and>
   dateAdded MTD_DATE_DIFF_MONTH (packDate 2024 1 31 8 0 0 0) 1
     (mtfDateaddCalculate mtlAsciiExtractSet mtdDateNull (packDate 2024 1 31 8 0 0 0) 1 ''month'')"
proof -
  have v: "validDate (packDate 2024 1 31 8 0 0 0)"
    by (rule packDate_valid) (simp_all add: fieldsOk_def daysIn_def gapDay_def)
  show ?thesis
    using dateadd_by_field [OF v, of 1 "''month''" mtlAsciiExtractSet mtdDateNull] v
    by (simp add: ascii_words fieldAdded_def)
qed

subsection \<open>\<open>NEXT_DAY\<close>\<close>

text \<open>\<open>sFound\<close>, by the functions of the language.\<close>

definition weekdayOf :: "mtlNextDayFuncSet \<Rightarrow> string \<Rightarrow> int option" where
  "weekdayOf nextDaySet sDay =
     (if matchSunDay nextDaySet sDay = 0 then Some 0
      else if matchMonDay nextDaySet sDay = 0 then Some 1
      else if matchTueDay nextDaySet sDay = 0 then Some 2
      else if matchWedDay nextDaySet sDay = 0 then Some 3
      else if matchThuDay nextDaySet sDay = 0 then Some 4
      else if matchFriDay nextDaySet sDay = 0 then Some 5
      else if matchSatDay nextDaySet sDay = 0 then Some 6
      else None)"

definition mtfNext_dayCalculate ::
  "mtlNextDayFuncSet \<Rightarrow> mtdDateType \<Rightarrow> mtdDateType \<Rightarrow> string \<Rightarrow> mtdDateType option" where
  "mtfNext_dayCalculate nextDaySet sResult sDate sDay =
     (if dateIsNull sDate \<or> sDay = [] then Some mtdDateNull
      else do {
        sFound \<leftarrow> weekdayOf nextDaySet sDay;
        sInterval \<leftarrow> convertDate2Interval sDate;
        let sWday = dayOfWeek (sint (year sDate)) (uint (month sDate)) (uint (day sDate));
            second = (if sFound > sWday then ivSecond sInterval + (sFound - sWday) * 86400
              else ivSecond sInterval + (sFound + 7 - sWday) * 86400);
            i = (if second > 0 \<and> ivMicrosecond sInterval < 0
              then \<lparr> ivSecond = second - 1, ivMicrosecond = ivMicrosecond sInterval + 1000000 \<rparr>
              else \<lparr> ivSecond = second, ivMicrosecond = ivMicrosecond sInterval \<rparr>) in
        if invalidYear i then None else convertInterval2Date i sResult })"

definition weekday :: "mtdDateType \<Rightarrow> int" where
  "weekday x = dayOfWeek (sint (year x)) (uint (month x)) (uint (day x))"

lemma weekday_number: "weekday x = (dayNumber x + 6) mod 7"
  by (simp add: weekday_def dayOfWeek_mod dayNumber_def)

lemma weekdayOf_range: "weekdayOf S s = Some w \<Longrightarrow> 0 \<le> w \<and> w \<le> 6"
  by (auto simp: weekdayOf_def split: if_splits)

lemma next_day:
  assumes "validDate x" "weekdayOf S s = Some w" "s \<noteq> []"
  shows "\<exists>k. 1 \<le> k \<and> k \<le> 7 \<and> (dayNumber x + k + 6) mod 7 = w \<and>
    dateAt (instant x + k * 86400000000) (mtfNext_dayCalculate S D x s) \<and>
    (\<forall>z. mtfNext_dayCalculate S D x s = Some z \<longrightarrow>
      weekday z = w \<and> dayNumber z = dayNumber x + k \<and> secondOfDay z = secondOfDay x \<and> microSecond z = microSecond x)"
proof -
  define k where "k = (if w > weekday x then w - weekday x else w + 7 - weekday x)"
  have w: "0 \<le> w" "w \<le> 6" "0 \<le> weekday x" "weekday x \<le> 6"
    using weekdayOf_range [OF assms(2)] by (simp_all add: weekday_number)
  then have k: "1 \<le> k" "k \<le> 7" by (auto simp: k_def)
  have "dayNumber x + 6 = (dayNumber x + 6) div 7 * 7 + weekday x" by (simp add: weekday_number)
  then have e: "dayNumber x + k + 6 = w + ((dayNumber x + 6) div 7 + (if w > weekday x then 0 else 1)) * 7"
    by (auto simp: k_def distrib_right)
  have wk: "(dayNumber x + k + 6) mod 7 = w" unfolding e mod_mult_self1 using w by (simp add: mod_pos_pos_trivial)
  define f where "f i = (let s = ivSecond i + k * 86400 in
    if s > 0 \<and> ivMicrosecond i < 0 then \<lparr> ivSecond = s - 1, ivMicrosecond = ivMicrosecond i + 1000000 \<rparr>
    else \<lparr> ivSecond = s, ivMicrosecond = ivMicrosecond i \<rparr>)" for i :: mtdIntervalType
  have f: "normalInterval (f i) \<and> duration (f i) = instant x + k * 86400000000"
    if "normalInterval i" "duration i = instant x" for i
    using that k by (auto simp: f_def Let_def normalInterval_def duration_def)
  have run: "mtfNext_dayCalculate S D x s =
      convertDate2Interval x \<bind> (\<lambda>i. if invalidYear (f i) then None else convertInterval2Date (f i) D)"
  proof -
    have null: "(dateIsNull x \<or> s = []) = False" using assms(3) valid_not_null [OF assms(1)] by simp
    have sum: "(if w > weekday x then a + (w - weekday x) * 86400 else a + (w + 7 - weekday x) * 86400) =
      a + k * 86400" for a by (simp add: k_def)
    show ?thesis
      unfolding mtfNext_dayCalculate_def null if_False assms(2) bind.bind_lunit Let_def weekday_def [symmetric]
        sum f_def ..
  qed
  have at: "dateAt (instant x + k * 86400000000) (mtfNext_dayCalculate S D x s)"
    unfolding run by (rule dateAtI, rule dateTime.shift [OF assms(1)]) (rule f)
  moreover have "weekday z = w \<and> dayNumber z = dayNumber x + k \<and> secondOfDay z = secondOfDay x \<and>
      microSecond z = microSecond x" if "mtfNext_dayCalculate S D x s = Some z" for z
  proof -
    have z: "validDate z" "instant z = instant x + k * 86400000000" using at that by (simp_all add: dateAt_def)
    have "instant x div 86400000000 + k = instant z div 86400000000" unfolding z(2) by simp
    then have d: "dayNumber z = dayNumber x + k"
      using instant_units(1) [OF assms(1)] instant_units(1) [OF z(1)] by simp
    then have e: "secondOfDay z * 1000000 + uint (microSecond z) = secondOfDay x * 1000000 + uint (microSecond x)"
      using z(2) by (simp add: instant_def distrib_right)
    then have t: "secondOfDay z = secondOfDay x"
      using validDate_time(3,4) [OF assms(1)] validDate_time(3,4) [OF z(1)] by linarith
    moreover have "microSecond z = microSecond x" using e t by (intro word_uint_eqI) simp
    ultimately show ?thesis using d wk by (simp add: weekday_number)
  qed
  ultimately show ?thesis using k wk by blast
qed

text \<open>\<open>NEXT_DAY\<close> gives the first date after a date that has the named weekday, at the same time of the
  day, at most seven days later; also across the ten days left out in 1582 and from BC to AD.  It fails
  exactly if that date lies beyond the year 9999.\<close>

theorem next_day_first:
  assumes "validDate x" "weekdayOf S s = Some w" "s \<noteq> []"
  shows "\<exists>k. 1 \<le> k \<and> k \<le> 7 \<and> (dayNumber x + k + 6) mod 7 = w \<and>
    dateAt (instant x + k * 86400000000) (mtfNext_dayCalculate S D x s) \<and>
    (\<forall>z. mtfNext_dayCalculate S D x s = Some z \<longrightarrow>
      weekday z = w \<and> dayNumber z = dayNumber x + k \<and> secondOfDay z = secondOfDay x \<and> microSecond z = microSecond x)"
  by (rule next_day [OF assms])

lemma next_day_first_witness:
  "validDate (packDate 1582 10 4 9 0 0 0) \<and> weekdayOf mtlAsciiNextDaySet ''fri'' = Some 5 \<and>
   (\<exists>k. 1 \<le> k \<and> k \<le> 7 \<and>
     dateAt (instant (packDate 1582 10 4 9 0 0 0) + k * 86400000000)
       (mtfNext_dayCalculate mtlAsciiNextDaySet mtdDateNull (packDate 1582 10 4 9 0 0 0) ''fri''))"
proof -
  have v: "validDate (packDate 1582 10 4 9 0 0 0)"
    by (rule packDate_valid) (simp_all add: fieldsOk_def daysIn_def gapDay_def)
  have w: "weekdayOf mtlAsciiNextDaySet ''fri'' = Some 5" by code_simp
  show ?thesis using next_day_first [OF v w, of mtdDateNull] v w by blast
qed

subsection \<open>\<open>MONTHS_BETWEEN\<close>\<close>

text \<open>The result is a double; here it is the rational number that the code computes with rounding.
  The microseconds are subtracted as \<open>UInt\<close>, so that a negative difference wraps around before it
  becomes a double; the other fields are promoted to \<open>int\<close> and keep their sign.\<close>

definition monthsBetween :: "mtdDateType \<Rightarrow> mtdDateType \<Rightarrow> rat" where
  "monthsBetween sStartDate sEndDate =
     (let
        sStartDay = uint (day sStartDate);
        sEndDay = uint (day sEndDate);
        sDiffYear = of_int (sint (year sStartDate) - sint (year sEndDate));
        sDiffMonth = of_int (uint (month sStartDate) - uint (month sEndDate));
        sDiffDay = of_int (sStartDay - sEndDay);
        sDiffHour = of_int (uint (hour sStartDate) - uint (hour sEndDate));
        sDiffMinute = of_int (uint (minute sStartDate) - uint (minute sEndDate));
        sDiffSecond = of_int (uint (second sStartDate) - uint (second sEndDate));
        sDiffMicroSecond = of_int (uint (microSecond sStartDate - microSecond sEndDate));
        sStartDateLastDays = sLastDays (isLeapYear (year sStartDate));
        sEndDateLastDays = sLastDays (isLeapYear (year sEndDate)) in
      if sStartDay = sEndDay \<or>
         sStartDay = sStartDateLastDays ! unat (month sStartDate) \<and> sEndDay = sEndDateLastDays ! unat (month sEndDate)
      then sDiffMonth + sDiffYear * 12
      else sDiffYear * 12 + sDiffMonth + sDiffDay / 31 + sDiffHour / 24 / 31 + sDiffMinute / 60 / 24 / 31 +
        sDiffSecond / 60 / 60 / 24 / 31 + sDiffMicroSecond / 1000000 / 60 / 60 / 24 / 31)"

text \<open>\<open>None\<close> is the null of the type, the result for a null date.\<close>

definition mtfMonths_betweenCalculate :: "mtdDateType \<Rightarrow> mtdDateType \<Rightarrow> rat option" where
  "mtfMonths_betweenCalculate sStartDate sEndDate =
     (if dateIsNull sStartDate \<or> dateIsNull sEndDate then None else Some (monthsBetween sStartDate sEndDate))"

text \<open>Swapping the dates should negate the number of months.  It does where the microseconds are equal
  or the result is a whole number; otherwise one of the two results is too large by 2 to the 32
  microseconds, more than an hour.\<close>

lemma uint_minus_swap:
  fixes a b :: "32 word"
  shows "uint (a - b) + uint (b - a) = (if a = b then 0 else 4294967296)"
proof (cases "a = b")
  case False
  define c where "c = a - b"
  have c: "b - a = - c" "c \<noteq> 0" using False by (simp_all add: c_def)
  then have "0 < uint c" using uint_0_iff [of c] uint_ge_0 [of c] by linarith
  moreover have "uint c < 4294967296" using uint_lt2p [of c] by simp
  ultimately have "(- uint c) mod 4294967296 = 4294967296 - uint c"
    using int_mod_pos_eq [of "- uint c" 4294967296 "- 1" "4294967296 - uint c"] by simp
  moreover have "uint (- c) = (- uint c) mod 2 ^ LENGTH(32)" by (rule uint_word_ariths)
  ultimately have "uint (- c) = 4294967296 - uint c" by simp
  then have "uint c + uint (- c) = 4294967296" by linarith
  then show ?thesis unfolding c(1) c_def [symmetric] using False by (simp only: if_False)
qed simp

lemma lastDays_month:
  assumes "validDate x"
  shows "sLastDays (isLeapYear (year x)) ! unat (month x) = daysIn (sint (year x)) (uint (month x))"
  using sLastDays_nth [of "uint (month x)" "sint (year x)"] validDateD(1) [OF assms]
  by (simp add: isLeapYear_leap fieldsOk_def nat_uint_eq)

lemma months_sum:
  fixes y m d h mi s u v :: rat
  shows "y * 12 + m + d / 31 + h / 24 / 31 + mi / 60 / 24 / 31 + s / 60 / 60 / 24 / 31 + u / 1000000 / 60 / 60 / 24 / 31 +
    (- y * 12 + - m + - d / 31 + - h / 24 / 31 + - mi / 60 / 24 / 31 + - s / 60 / 60 / 24 / 31 +
     v / 1000000 / 60 / 60 / 24 / 31) = (u + v) / 2678400000000"
  by (simp add: field_simps)

lemma of_int_swap: "rat_of_int (q - p) = - of_int (p - q)"
  by simp

lemma months_between_swap:
  assumes "validDate x" "validDate y"
  shows "monthsBetween x y + monthsBetween y x =
    (if uint (day x) = uint (day y) \<or> uint (day x) = daysIn (sint (year x)) (uint (month x)) \<and>
        uint (day y) = daysIn (sint (year y)) (uint (month y)) \<or> microSecond x = microSecond y then 0
     else 4294967296 / 2678400000000)"
proof -
  let ?whole = "uint (day x) = uint (day y) \<or> uint (day x) = daysIn (sint (year x)) (uint (month x)) \<and>
    uint (day y) = daysIn (sint (year y)) (uint (month y))"
  have whole: "(uint (day y) = uint (day x) \<or> uint (day y) = daysIn (sint (year y)) (uint (month y)) \<and>
    uint (day x) = daysIn (sint (year x)) (uint (month x))) = ?whole" by auto
  note lasts = lastDays_month [OF assms(1)] lastDays_month [OF assms(2)]
  show ?thesis
  proof (cases ?whole)
    case True
    then have "monthsBetween x y + monthsBetween y x = 0"
      unfolding monthsBetween_def Let_def lasts whole by simp
    then show ?thesis using True by auto
  next
    case False
    then have "monthsBetween x y + monthsBetween y x =
        (of_int (uint (microSecond x - microSecond y)) + of_int (uint (microSecond y - microSecond x))) / 2678400000000"
      unfolding monthsBetween_def Let_def lasts whole
      by (simp only: if_False months_sum
          of_int_swap [of "sint (year y)" "sint (year x)"] of_int_swap [of "uint (month y)" "uint (month x)"]
          of_int_swap [of "uint (day y)" "uint (day x)"] of_int_swap [of "uint (hour y)" "uint (hour x)"]
          of_int_swap [of "uint (minute y)" "uint (minute x)"] of_int_swap [of "uint (second y)" "uint (second x)"])
    also have "\<dots> = of_int (uint (microSecond x - microSecond y) + uint (microSecond y - microSecond x)) / 2678400000000"
      by simp
    finally have "monthsBetween x y + monthsBetween y x =
      of_int (if microSecond x = microSecond y then 0 else 4294967296) / 2678400000000"
      unfolding uint_minus_swap .
    then show ?thesis using False by auto
  qed
qed

subsection \<open>Unix time\<close>

abbreviation MTF_BASE_UNIX_DATE :: int where "MTF_BASE_UNIX_DATE \<equiv> 62135769600"
abbreviation MTF_MAX_UNIX_DATE :: int where "MTF_MAX_UNIX_DATE \<equiv> 64060588799"

definition mtfDateToUnixCalculate :: "mtdDateType \<Rightarrow> int option" where
  "mtfDateToUnixCalculate sDate =
     (if dateIsNull sDate then Some mtdBigintNull
      else do {
        sSec \<leftarrow> convertDate2Interval sDate;
        if ivSecond sSec \<le> MTF_BASE_UNIX_DATE then Some 0
        else
          let second = ivSecond sSec - MTF_BASE_UNIX_DATE in
          if second \<ge> MTF_MAX_UNIX_DATE then Some MTF_MAX_UNIX_DATE else Some second })"

text \<open>\<open>struct tm\<close>, as far as the code reads it; \<open>gmtime_r\<close> is the function of the C library.\<close>

record tm =
  tm_year :: int
  tm_mon :: int
  tm_mday :: int
  tm_hour :: int
  tm_min :: int
  tm_sec :: int

definition mtfUnixToDateCalculate :: "(int \<Rightarrow> tm) \<Rightarrow> mtdDateType \<Rightarrow> int \<Rightarrow> mtdDateType option" where
  "mtfUnixToDateCalculate gmtime_r sDate sSec =
     (if sSec = mtdBigintNull then Some mtdDateNull
      else
        let sTime = (if sSec \<le> 0 then 0 else if sSec \<ge> MTF_MAX_UNIX_DATE then MTF_MAX_UNIX_DATE else sSec);
            sGlobaltime = gmtime_r sTime in
        makeDate sDate (word_of_int (tm_year sGlobaltime + 1900)) (word_of_int (tm_mon sGlobaltime + 1))
          (word_of_int (tm_mday sGlobaltime)) (word_of_int (tm_hour sGlobaltime))
          (word_of_int (tm_min sGlobaltime)) (word_of_int (tm_sec sGlobaltime)) 0)"

lemma date_to_unix:
  assumes "validDate x"
  shows "mtfDateToUnixCalculate x =
    Some (max 0 (min MTF_MAX_UNIX_DATE (instant x div 1000000 - MTF_BASE_UNIX_DATE)))"
proof -
  obtain i where i: "convertDate2Interval x = Some i" "normalInterval i" "duration i = instant x"
    using convertDate2Interval_ok [OF assms] by blast
  have null: "dateIsNull x = False" using valid_not_null [OF assms] by simp
  define q where "q = instant x div 1000000"
  have q: "instant x = q * 1000000 + instant x mod 1000000" "0 \<le> instant x mod 1000000" "instant x mod 1000000 < 1000000"
    by (simp_all add: q_def)
  have d: "ivSecond i * 1000000 + ivMicrosecond i = instant x" using i(3) by (simp add: duration_def)
  have n: "\<bar>ivMicrosecond i\<bar> < 1000000" "ivSecond i > 0 \<Longrightarrow> ivMicrosecond i \<ge> 0" using i(2) by (simp_all add: normalInterval_def)
  have "ivSecond i = q \<or> ivSecond i \<le> 0 \<and> q \<le> 0"
  proof (cases "ivSecond i > 0")
    case True
    then have "ivSecond i = q" using n q d by linarith
    then show ?thesis ..
  next
    case False
    then have "q \<le> 0" using n(1) q d by linarith
    then show ?thesis using False by simp
  qed
  then show ?thesis
    unfolding mtfDateToUnixCalculate_def null if_False i(1) bind.bind_lunit Let_def q_def [symmetric]
    by (auto simp: max_def min_def)
qed

text \<open>The documented result of \<open>gmtime_r\<close>: the date and time of day of a Gregorian calendar.\<close>

definition utcTime :: "int \<Rightarrow> tm \<Rightarrow> bool" where
  "utcTime t g \<longleftrightarrow>
     (let y = tm_year g + 1900; m = tm_mon g + 1 in
      1970 \<le> y \<and> y \<le> 9999 \<and> fieldsOk y m (tm_mday g) (tm_hour g) (tm_min g) (tm_sec g) 0 \<and>
      t = (365 * (y - 1) + (y - 1) div 4 - (y - 1) div 100 + (y - 1) div 400 + monthStart y m + tm_mday g - 719163) * 86400 +
        tm_hour g * 3600 + tm_min g * 60 + tm_sec g)"

lemma unix_to_date:
  assumes "utcTime t (gmtime_r t)" "0 \<le> t" "t \<le> MTF_MAX_UNIX_DATE"
  shows "\<exists>x. mtfUnixToDateCalculate gmtime_r D t = Some x \<and> validDate x \<and>
    instant x = (t + MTF_BASE_UNIX_DATE) * 1000000"
proof -
  define g where "g = gmtime_r t"
  define y m where "y = tm_year g + 1900" and "m = tm_mon g + 1"
  have f: "fieldsOk y m (tm_mday g) (tm_hour g) (tm_min g) (tm_sec g) 0" and y: "1970 \<le> y" "y \<le> 9999"
    and t: "t = (365 * (y - 1) + (y - 1) div 4 - (y - 1) div 100 + (y - 1) div 400 + monthStart y m + tm_mday g - 719163) * 86400 +
        tm_hour g * 3600 + tm_min g * 60 + tm_sec g"
    using assms(1) by (simp_all add: utcTime_def Let_def g_def y_def m_def)
  note b = fieldsOk_bounds [OF f]
  let ?x = "packDate y m (tm_mday g) (tm_hour g) (tm_min g) (tm_sec g) 0"
  have gap: "\<not> gapDay y m (tm_mday g)" using y by (simp add: gapDay_def)
  have w: "sint (word_of_int y :: 16 word) = y"
    using y by (simp add: signed_of_int signed_take_bit_int_eq_self)
  have clamp: "(if t \<le> 0 then 0 else if t \<ge> MTF_MAX_UNIX_DATE then MTF_MAX_UNIX_DATE else t) = t"
    using assms(2,3) by auto
  have null: "(t = mtdBigintNull) = False" using assms(2) by simp
  have words: "uint (word_of_int m :: 8 word) = m" "uint (word_of_int (tm_mday g) :: 8 word) = tm_mday g"
    "uint (word_of_int (tm_hour g) :: 8 word) = tm_hour g" "uint (word_of_int (tm_min g) :: 8 word) = tm_min g"
    "uint (word_of_int (tm_sec g) :: 8 word) = tm_sec g"
    using b by (auto simp: uint_word_of_int mod_pos_pos_trivial)
  have run: "mtfUnixToDateCalculate gmtime_r D t = Some ?x"
    unfolding mtfUnixToDateCalculate_def Let_def null if_False clamp g_def [symmetric] y_def [symmetric] m_def [symmetric]
    using f gap unfolding makeDate_pack w words by simp
  have v: "validDate ?x" using y gap by (intro packDate_valid [OF f]) simp_all
  have r: "- 32768 \<le> y" "y < 32768" using y by simp_all
  note P = packDate_fields [OF f r]
  have md: "1 \<le> m" "m \<le> 12" using f by (simp_all add: fieldsOk_def)
  have c: "(y - 1) div 100 = (y - 1601) div 100 + 16" "(y - 1) div 400 = (y - 1601) div 400 + 4"
  proof -
    have e: "y - 1 = (y - 1601) + 16 * 100" "y - 1 = (y - 1601) + 4 * 400" by simp_all
    show "(y - 1) div 100 = (y - 1601) div 100 + 16" unfolding e(1) by (subst div_mult_self1) simp_all
    show "(y - 1) div 400 = (y - 1601) div 400 + 4" unfolding e(2) by (subst div_mult_self1) simp_all
  qed
  have n: "dayNumber ?x = yearStart y + monthStart y m + tm_mday g - 11"
    using y by (simp add: dayNumber_def P dayOfCommonEra_eq [OF md r] gregorian_def)
  have s: "secondOfDay ?x = tm_hour g * 3600 + tm_min g * 60 + tm_sec g" by (simp add: secondOfDay_def P)
  have "dayNumber ?x * 86400 + secondOfDay ?x = t + MTF_BASE_UNIX_DATE"
    using t y c unfolding n s yearStart_def by (simp add: algebra_simps)
  moreover have "instant ?x = (dayNumber ?x * 86400 + secondOfDay ?x) * 1000000"
    by (simp add: instant_def P(7))
  ultimately have "instant ?x = (t + MTF_BASE_UNIX_DATE) * 1000000" by simp
  then show ?thesis using run v by blast
qed

text \<open>The functions are inverse to each other on the seconds of Unix time.\<close>

lemma unix_date_unix:
  assumes "utcTime t (gmtime_r t)" "0 \<le> t" "t \<le> MTF_MAX_UNIX_DATE"
  shows "mtfUnixToDateCalculate gmtime_r D t \<bind> mtfDateToUnixCalculate = Some t"
proof -
  obtain x where x: "mtfUnixToDateCalculate gmtime_r D t = Some x" "validDate x"
    "instant x = (t + MTF_BASE_UNIX_DATE) * 1000000" using unix_to_date [of t gmtime_r D] assms by blast
  then show ?thesis using assms(2,3) by (simp add: date_to_unix)
qed

subsection \<open>Values of the types\<close>

text \<open>The values of \<open>DATE\<close> and \<open>INTERVAL\<close> that the functions are made for, nulls included.\<close>

definition dateValue :: "mtdDateType \<Rightarrow> bool" where
  "dateValue x \<longleftrightarrow> validDate x \<or> x = mtdDateNull"

definition intervalValue :: "mtdIntervalType \<Rightarrow> bool" where
  "intervalValue d \<longleftrightarrow> longInterval d \<or> d = mtdIntervalNull"

definition dateResult :: "mtdDateType option \<Rightarrow> bool" where
  "dateResult r \<longleftrightarrow> (\<forall>y. r = Some y \<longrightarrow> dateValue y)"

lemma dateResult_simps [simp]:
  "dateResult None" "dateResult (Some mtdDateNull)"
  by (simp_all add: dateResult_def dateValue_def)

lemma dateResult_at: "dateAt t r \<Longrightarrow> dateResult r"
  by (cases r) (simp_all add: dateAt_def dateResult_def dateValue_def)

lemma null_facts: "dateIsNull mtdDateNull" "convertDate2Interval mtdDateNull = None" "MTD_INTERVAL_IS_NULL mtdIntervalNull"
  by (simp_all add: dateIsNull_def MTD_DATE_IS_NULL_iff convertDate2Interval_def MTD_INTERVAL_IS_NULL_def)

lemma addMonth_result: "dateResult (addMonth D x n)"
proof -
  have "validDate y" if Y: "addMonth D x n = Some y" for y
  proof -
    obtain e m where em: "(if uint (month x) + n smod 12 < 1
        then (sint (year x) + n sdiv 12 - 1, uint (month x) + n smod 12 + 12)
        else if uint (month x) + n smod 12 > 12 then (sint (year x) + n sdiv 12 + 1, uint (month x) + n smod 12 - 12)
        else (sint (year x) + n sdiv 12, uint (month x) + n smod 12)) = (e, m)" by (meson surj_pair)
    have "\<exists>d. addMonth D x n = (if e < -9999 \<or> e > 9999 then None
        else makeDate D (word_of_int e) (word_of_int m) d (hour x) (minute x) (second x) (microSecond x))"
      unfolding addMonth_def Let_def em prod.case by blast
    then obtain d where e: "- 9999 \<le> e" "e \<le> 9999"
      and y: "makeDate D (word_of_int e) (word_of_int m) d (hour x) (minute x) (second x) (microSecond x) = Some y"
      using Y by (auto split: if_splits)
    show ?thesis
      using e by (intro makeDate_valid [OF y]) (simp_all add: signed_of_int signed_take_bit_int_eq_self)
  qed
  then show ?thesis by (simp add: dateResult_def dateValue_def)
qed

lemma last_day_result:
  assumes "validDate x"
  shows "dateResult (mtfLast_dayCalculate x)"
proof -
  let ?y = "sint (year x)" and ?m = "uint (month x)"
  note X = validDateD [OF assms]
  have "fieldsOk ?y ?m (daysIn ?y ?m) (uint (hour x)) (uint (minute x)) (uint (second x)) (uint (microSecond x))"
    "\<not> gapDay ?y ?m (daysIn ?y ?m)"
    using X(1) daysIn_bounds [of ?y ?m] by (auto simp: fieldsOk_def gapDay_def)
  then have "validDate (packDate ?y ?m (daysIn ?y ?m) (uint (hour x)) (uint (minute x)) (uint (second x)) (uint (microSecond x)))"
    using X(3,4) by (intro packDate_valid)
  then show ?thesis by (simp add: last_day [OF assms] dateResult_def dateValue_def)
qed

lemma dateadd_result:
  assumes "validDate x"
  shows "dateResult (mtfDateaddCalculate E D x n s)"
proof (cases "n = mtdBigintNull \<or> s = []")
  case True
  then show ?thesis by (auto simp: mtfDateaddCalculate_def)
next
  case False
  then have f: "fieldAdded x n (dateFieldOf E s) (mtfDateaddCalculate E D x n s)"
    using dateadd_field [OF assms] by blast
  have "dateResult r" if "dateAdded f x n r" for f r
    using that inMonth_valid [OF assms]
    by (cases "fieldUnit f") (auto simp: dateAdded_def Let_def dateResult_def dateValue_def dateAt_def split: if_splits)
  then show ?thesis using f by (auto simp: fieldAdded_def split: option.splits)
qed

lemma next_day_result:
  assumes "validDate x"
  shows "dateResult (mtfNext_dayCalculate S D x s)"
proof (cases "s = [] \<or> weekdayOf S s = None")
  case True
  then show ?thesis by (auto simp: mtfNext_dayCalculate_def)
next
  case False
  then show ?thesis using next_day [OF assms, of S s _ D] dateResult_at by fastforce
qed



end
