(* ===== verification/IduHeap.thy ===== *)
theory IduHeap
  imports KeyOrder
begin

text \<open>
  The binary heap of the infrastructure library, \<open>src/src/id/include/iduHeapSort.h\<close>,
  \<open>src/src/id/idu/iduHeapSort.cpp\<close>, \<open>iduHeap\<close> and \<open>iduPriorityQueue\<close>.  The array holds values of
  a type \<open>'a\<close> (the code copies \<open>mDataSize\<close> bytes per element and never looks into them) and is
  numbered from 1, as the code shifts its base pointer one element down.  The user's comparison
  is a parameter.  \<open>None\<close> is a failed assertion or a loop that does not end: the left child
  \<open>i << 1\<close> is computed on 32 bits and wraps for indexes from \<open>2^31\<close> on, so \<open>maxHeapify\<close> is a partial
  function and that it returns is a theorem.
\<close>

section \<open>The array\<close>

definition getNthData :: "'a list \<Rightarrow> nat \<Rightarrow> 'a" where
  "getNthData a idx = a ! (idx - 1)"

definition setNthData :: "'a list \<Rightarrow> nat \<Rightarrow> 'a \<Rightarrow> 'a list" where
  "setNthData a idx x = a[idx - 1 := x]"

definition heapSwap :: "'a list \<Rightarrow> nat \<Rightarrow> nat \<Rightarrow> 'a list" where
  "heapSwap a i j = setNthData (setNthData a i (getNthData a j)) j (getNthData a i)"

definition getLeftChildIdx :: "nat \<Rightarrow> nat" where
  "getLeftChildIdx i = (2 * i) mod 2 ^ 32"

definition getParentIdx :: "nat \<Rightarrow> nat" where
  "getParentIdx i = i div 2"

lemma getParentIdx_less [termination_simp]: "1 < i \<Longrightarrow> getParentIdx i < i"
  by (simp add: getParentIdx_def)

lemma getParentIdx_less_Suc [termination_simp]: "Suc 0 < i \<Longrightarrow> getParentIdx i < i"
  by (simp add: getParentIdx_def)

lemma length_setNthData [simp]: "length (setNthData a i x) = length a"
  by (simp add: setNthData_def)

lemma length_heapSwap [simp]: "length (heapSwap a i j) = length a"
  by (simp add: heapSwap_def)

lemma getNthData_setNthData:
  assumes "1 \<le> i" "i \<le> length a" "1 \<le> j"
  shows "getNthData (setNthData a i x) j = (if i = j then x else getNthData a j)"
proof -
  from assms have "i - 1 < length a" and "i - 1 = j - 1 \<longleftrightarrow> i = j"
    by auto
  then show ?thesis
    by (simp add: getNthData_def setNthData_def nth_list_update)
qed

lemma getNthData_heapSwap:
  assumes "1 \<le> i" "i \<le> length a" "1 \<le> j" "j \<le> length a" "1 \<le> k"
  shows "getNthData (heapSwap a i j) k =
    (if k = j then getNthData a i else if k = i then getNthData a j else getNthData a k)"
  using assms by (auto simp: heapSwap_def getNthData_setNthData)

lemma mset_heapSwap [simp]:
  assumes "1 \<le> i" "i \<le> length a" "1 \<le> j" "j \<le> length a"
  shows "mset (heapSwap a i j) = mset a"
proof -
  from assms have "i - 1 < length a" and "j - 1 < length a"
    by auto
  then show ?thesis
    using mset_swap [of "j - 1" a "i - 1"]
    by (simp add: heapSwap_def setNthData_def getNthData_def)
qed

lemma drop_heapSwap:
  assumes "1 \<le> i" "i \<le> n" "1 \<le> j" "j \<le> n"
  shows "drop n (heapSwap a i j) = drop n a"
  using assms by (simp add: heapSwap_def setNthData_def)

section \<open>\<open>MAX_HEAPIFY\<close> and heap sort\<close>

definition greaterChild :: "('a \<Rightarrow> 'a \<Rightarrow> int) \<Rightarrow> nat \<Rightarrow> 'a list \<Rightarrow> nat \<Rightarrow> nat" where
  "greaterChild compar n a j =
     (if j < n \<and> compar (getNthData a j) (getNthData a (j + 1)) < 0 then j + 1 else j)"

partial_function (option) maxHeapify ::
  "('a \<Rightarrow> 'a \<Rightarrow> int) \<Rightarrow> nat \<Rightarrow> nat \<Rightarrow> 'a list \<Rightarrow> 'a list option" where
  "maxHeapify compar n i a =
     (if getLeftChildIdx i \<le> n
      then if compar (getNthData a (greaterChild compar n a (getLeftChildIdx i))) (getNthData a i) \<le> 0
           then Some a
           else maxHeapify compar n (greaterChild compar n a (getLeftChildIdx i))
                  (heapSwap a i (greaterChild compar n a (getLeftChildIdx i)))
      else Some a)"

fun buildHeap_loop :: "('a \<Rightarrow> 'a \<Rightarrow> int) \<Rightarrow> nat \<Rightarrow> nat \<Rightarrow> 'a list \<Rightarrow> 'a list option" where
  "buildHeap_loop compar n 0 a = Some a"
| "buildHeap_loop compar n (Suc i) a = do {
     b \<leftarrow> maxHeapify compar n (Suc i) a;
     buildHeap_loop compar n i b
   }"

fun sort_loop :: "('a \<Rightarrow> 'a \<Rightarrow> int) \<Rightarrow> nat \<Rightarrow> 'a list \<Rightarrow> 'a list option" where
  "sort_loop compar n a =
     (if n > 1 then do {
        b \<leftarrow> maxHeapify compar (n - 1) 1 (heapSwap a 1 n);
        sort_loop compar (n - 1) b
      } else Some a)"

declare sort_loop.simps [simp del]

definition iduHeapSort_sort ::
  "('a \<Rightarrow> 'a \<Rightarrow> int) \<Rightarrow> 'a list \<Rightarrow> nat \<Rightarrow> nat \<Rightarrow> 'a list option" where
  "iduHeapSort_sort compar aArray aArrayNum aDataSize = do {
     ide_assert (aDataSize > 0);
     ide_assert (aArrayNum > 0);
     if aArrayNum \<noteq> 1 then do {
       b \<leftarrow> buildHeap_loop compar aArrayNum (aArrayNum div 2) aArray;
       sort_loop compar aArrayNum b
     } else Some aArray
   }"

section \<open>The heap object\<close>

record 'a iduHeap =
  mArray :: "'a list"
  mDataMaxCnt :: nat
  mDataCnt :: nat
  mComparUser :: "'a \<Rightarrow> 'a \<Rightarrow> int"

text \<open>The comparison the heap works with is the user's one with its sign reversed.\<close>

definition mCompar :: "'a iduHeap \<Rightarrow> 'a \<Rightarrow> 'a \<Rightarrow> int" where
  "mCompar h a b = (-1) * mComparUser h a b"

text \<open>The memory that the allocator returns holds \<open>aDataMaxCnt\<close> arbitrary elements; the
  allocation may fail.\<close>

definition iduHeap_initialize ::
  "'a list option \<Rightarrow> nat \<Rightarrow> ('a \<Rightarrow> 'a \<Rightarrow> int) \<Rightarrow> IDE_RC \<times> 'a iduHeap option" where
  "iduHeap_initialize alloc aDataMaxCnt aCompar =
     (case alloc of
        None \<Rightarrow> (IDE_FAILURE, None)
      | Some mem \<Rightarrow> (IDE_SUCCESS,
          Some \<lparr>mArray = mem, mDataMaxCnt = aDataMaxCnt, mDataCnt = 0, mComparUser = aCompar\<rparr>))"

text \<open>The loop of \<open>maxHeapInsert\<close> that lifts the new element.\<close>

fun siftUp_loop :: "('a \<Rightarrow> 'a \<Rightarrow> int) \<Rightarrow> nat \<Rightarrow> 'a list \<Rightarrow> 'a list" where
  "siftUp_loop compar i a =
     (if i > 1
      then if compar (getNthData a (getParentIdx i)) (getNthData a i) \<ge> 0 then a
           else siftUp_loop compar (getParentIdx i) (heapSwap a (getParentIdx i) i)
      else a)"

declare siftUp_loop.simps [simp del]

definition maxHeapInsert :: "'a \<Rightarrow> 'a iduHeap \<Rightarrow> 'a iduHeap option" where
  "maxHeapInsert aKey h = do {
     ide_assert (mDataCnt h < mDataMaxCnt h);
     let n = mDataCnt h + 1;
     Some (h\<lparr>mDataCnt := n,
             mArray := siftUp_loop (mCompar h) n (setNthData (mArray h) n aKey)\<rparr>)
   }"

definition iduHeap_insert :: "'a \<Rightarrow> 'a iduHeap \<Rightarrow> (bool \<times> 'a iduHeap) option" where
  "iduHeap_insert aData h =
     (if mDataCnt h > mDataMaxCnt h then Some (True, h)
      else do { h1 \<leftarrow> maxHeapInsert aData h; Some (False, h1) })"

text \<open>\<open>remove\<close> returns the underflow flag and the removed element.  The root is replaced by the
  last element and pushed down while \<open>mDataCnt\<close> still counts that last element.\<close>

definition iduHeap_remove :: "'a iduHeap \<Rightarrow> (bool \<times> 'a option \<times> 'a iduHeap) option" where
  "iduHeap_remove h =
     (if mDataCnt h = 0 then Some (True, None, h)
      else do {
        let a1 = (if mDataCnt h \<noteq> 1
                  then setNthData (mArray h) 1 (getNthData (mArray h) (mDataCnt h))
                  else mArray h);
        a2 \<leftarrow> maxHeapify (mCompar h) (mDataCnt h) 1 a1;
        Some (False, Some (getNthData (mArray h) 1),
              h\<lparr>mArray := a2, mDataCnt := mDataCnt h - 1\<rparr>)
      })"

definition iduHeap_empty :: "'a iduHeap \<Rightarrow> 'a iduHeap" where
  "iduHeap_empty h = h\<lparr>mDataCnt := 0\<rparr>"

subsection \<open>The priority queue\<close>

type_synonym 'a iduPriorityQueue = "'a iduHeap"

definition enqueue :: "'a \<Rightarrow> 'a iduPriorityQueue \<Rightarrow> (bool \<times> 'a iduPriorityQueue) option" where
  "enqueue = iduHeap_insert"

definition dequeue ::
  "'a iduPriorityQueue \<Rightarrow> (bool \<times> 'a option \<times> 'a iduPriorityQueue) option" where
  "dequeue = iduHeap_remove"

section \<open>The heap property\<close>

text \<open>No element from position \<open>2l\<close> on exceeds its parent.\<close>

definition heapFrom :: "('a \<Rightarrow> 'a \<Rightarrow> int) \<Rightarrow> nat \<Rightarrow> nat \<Rightarrow> 'a list \<Rightarrow> bool" where
  "heapFrom compar n l a \<longleftrightarrow>
     (\<forall>k. 2 \<le> k \<and> k \<le> n \<and> l \<le> k div 2 \<longrightarrow> compar (getNthData a k) (getNthData a (k div 2)) \<le> 0)"

lemma heapFromD:
  "heapFrom compar n l a \<Longrightarrow> 2 \<le> k \<Longrightarrow> k \<le> n \<Longrightarrow> l \<le> k div 2 \<Longrightarrow>
     compar (getNthData a k) (getNthData a (k div 2)) \<le> 0"
  by (simp add: heapFrom_def)

lemma heapFrom_fewer: "heapFrom compar n l a \<Longrightarrow> m \<le> n \<Longrightarrow> heapFrom compar m l a"
  by (simp add: heapFrom_def)

lemma heapFrom_cong:
  assumes "\<And>x y. x \<in> set (take n a) \<Longrightarrow> y \<in> set (take n a) \<Longrightarrow> c x y = d x y"
    and n: "n \<le> length a" and h: "heapFrom c n 1 a"
  shows "heapFrom d n 1 a"
proof -
  have "getNthData a k \<in> set (take n a)" if "1 \<le> k" "k \<le> n" for k
    using that n by (auto simp: getNthData_def in_set_conv_nth intro!: exI [of _ "k - 1"])
  then have "d (getNthData a k) (getNthData a (k div 2)) \<le> 0" if "2 \<le> k" "k \<le> n" for k
    using heapFromD [OF h, of k] assms(1) [of "getNthData a k" "getNthData a (k div 2)"] that
    by fastforce
  then show ?thesis
    by (simp add: heapFrom_def)
qed

lemma set_take_getNthData:
  "n \<le> length a \<Longrightarrow> set (take n a) = {getNthData a k | k. 1 \<le> k \<and> k \<le> n}"
proof (intro equalityI subsetI)
  fix x
  assume "n \<le> length a" "x \<in> set (take n a)"
  then obtain m where "m < n" "x = a ! m"
    by (auto simp: in_set_conv_nth)
  then show "x \<in> {getNthData a k | k. 1 \<le> k \<and> k \<le> n}"
    by (auto simp: getNthData_def intro!: exI [of _ "Suc m"])
next
  fix x
  assume "n \<le> length a" "x \<in> {getNthData a k | k. 1 \<le> k \<and> k \<le> n}"
  then obtain k where "1 \<le> k" "k \<le> n" "x = a ! (k - 1)"
    by (auto simp: getNthData_def)
  with \<open>n \<le> length a\<close> show "x \<in> set (take n a)"
    by (auto simp: in_set_conv_nth intro!: exI [of _ "k - 1"])
qed

lemma take_Suc_getNthData:
  "n < length a \<Longrightarrow> take (Suc n) a = take n a @ [getNthData a (Suc n)]"
  by (simp add: getNthData_def take_Suc_conv_app_nth)

lemma drop_getNthData:
  "1 \<le> n \<Longrightarrow> n \<le> length a \<Longrightarrow> drop (n - 1) a = getNthData a n # drop n a"
  using Cons_nth_drop_Suc [of "n - 1" a] by (simp add: getNthData_def)

lemma mset_take_same:
  assumes "mset b = mset a" "drop n b = drop n a"
  shows "mset (take n b) = mset (take n a)"
  using assms by (metis add_right_imp_eq append_take_drop_id mset_append)

subsection \<open>Working with a comparison that is a total preorder\<close>

locale heap_compar = key_order cmp "\<lambda>_. False" for cmp :: "'a \<Rightarrow> 'a \<Rightarrow> int"
begin

lemma heap_root:
  assumes h: "heapFrom cmp n 1 a" and "1 \<le> k" "k \<le> n"
  shows "cmp (getNthData a k) (getNthData a 1) \<le> 0"
  using assms(2-)
proof (induction k rule: less_induct)
  case (less k)
  show ?case
  proof (cases "k = 1")
    case False
    then have k: "2 \<le> k" "1 \<le> k div 2" "k div 2 < k" "k div 2 \<le> n"
      using less.prems by auto
    show ?thesis
      using heapFromD [OF h k(1) less.prems(2) k(2)] less.IH [OF k(3,2,4)] by (rule cmp_trans)
  qed simp
qed

lemma greaterChild_props:
  assumes "1 \<le> i" "2 * i \<le> n"
  shows "greaterChild cmp n a (2 * i) div 2 = i" "greaterChild cmp n a (2 * i) \<le> n"
    "i < greaterChild cmp n a (2 * i)"
    "2 \<le> k \<Longrightarrow> k \<le> n \<Longrightarrow> k div 2 = i \<Longrightarrow>
       cmp (getNthData a k) (getNthData a (greaterChild cmp n a (2 * i))) \<le> 0"
proof -
  show "greaterChild cmp n a (2 * i) div 2 = i" "greaterChild cmp n a (2 * i) \<le> n"
    "i < greaterChild cmp n a (2 * i)"
    using assms by (auto simp: greaterChild_def)
  assume "2 \<le> k" "k \<le> n" "k div 2 = i"
  then consider "k = 2 * i" | "k = 2 * i + 1" "2 * i < n"
    by linarith
  then show "cmp (getNthData a k) (getNthData a (greaterChild cmp n a (2 * i))) \<le> 0"
  proof cases
    case 1
    then show ?thesis
      by (simp add: greaterChild_def)
  next
    case 2
    then show ?thesis
      using cmp_flip [of "getNthData a k" "getNthData a (2 * i)"]
        cmp_flip [of "getNthData a (2 * i)" "getNthData a k"]
      by (auto simp: greaterChild_def)
  qed
qed

lemma heapify_swap:
  assumes i: "1 \<le> l" "l \<le> i" "2 * i \<le> n" "n \<le> length a"
    and others: "\<And>k. 2 \<le> k \<Longrightarrow> k \<le> n \<Longrightarrow> l \<le> k div 2 \<Longrightarrow> k div 2 \<noteq> i \<Longrightarrow>
                   cmp (getNthData a k) (getNthData a (k div 2)) \<le> 0"
    and bridge: "\<And>k. l \<le> i div 2 \<Longrightarrow> 2 \<le> k \<Longrightarrow> k \<le> n \<Longrightarrow> k div 2 = i \<Longrightarrow>
                   cmp (getNthData a k) (getNthData a (i div 2)) \<le> 0"
    and c: "c = greaterChild cmp n a (2 * i)"
    and less: "\<not> cmp (getNthData a c) (getNthData a i) \<le> 0"
  shows "2 \<le> k \<Longrightarrow> k \<le> n \<Longrightarrow> l \<le> k div 2 \<Longrightarrow> k div 2 \<noteq> c \<Longrightarrow>
           cmp (getNthData (heapSwap a i c) k) (getNthData (heapSwap a i c) (k div 2)) \<le> 0"
    and "2 \<le> k \<Longrightarrow> k \<le> n \<Longrightarrow> k div 2 = c \<Longrightarrow>
           cmp (getNthData (heapSwap a i c) k) (getNthData (heapSwap a i c) (c div 2)) \<le> 0"
proof -
  have i1: "1 \<le> i"
    using i by simp
  note ch = greaterChild_props [OF i1 i(3), where a = a, folded c]
  have g: "getNthData (heapSwap a i c) m =
      (if m = c then getNthData a i else if m = i then getNthData a c else getNthData a m)"
    if "1 \<le> m" for m
    using getNthData_heapSwap [of i a c m] i ch that by simp
  have le: "cmp (getNthData a i) (getNthData a c) \<le> 0"
    using less cmp_total by blast
  show "cmp (getNthData (heapSwap a i c) k) (getNthData (heapSwap a i c) (k div 2)) \<le> 0"
    if k: "2 \<le> k" "k \<le> n" "l \<le> k div 2" "k div 2 \<noteq> c"
  proof (cases "k div 2 = i")
    case True
    then show ?thesis
      using g [of k] g [of i] k i1 ch(3) ch(4) [of k] le by auto
  next
    case False
    have "cmp (getNthData a c) (getNthData a (i div 2)) \<le> 0" if "k = i"
      using bridge [of c] that k ch i1 by simp
    then show ?thesis
      using g [of k] g [of "k div 2"] k False ch(1) others [of k] by auto
  qed
  show "cmp (getNthData (heapSwap a i c) k) (getNthData (heapSwap a i c) (c div 2)) \<le> 0"
    if k: "2 \<le> k" "k \<le> n" "k div 2 = c"
  proof -
    have "k \<noteq> c" "k \<noteq> i"
      using k ch(3) i1 by auto
    then show ?thesis
      using g [of k] g [of i] k ch others [of k] i i1 by simp
  qed
qed

text \<open>\<open>MAX_HEAPIFY\<close> repairs a tree whose only defect is below position \<open>i\<close>, and returns.\<close>

lemma maxHeapify_heap:
  assumes n: "n < 2 ^ 31" "n \<le> length a" and i: "1 \<le> l" "l \<le> i" "i \<le> n"
    and others: "\<And>k. 2 \<le> k \<Longrightarrow> k \<le> n \<Longrightarrow> l \<le> k div 2 \<Longrightarrow> k div 2 \<noteq> i \<Longrightarrow>
                   cmp (getNthData a k) (getNthData a (k div 2)) \<le> 0"
    and bridge: "\<And>k. l \<le> i div 2 \<Longrightarrow> 2 \<le> k \<Longrightarrow> k \<le> n \<Longrightarrow> k div 2 = i \<Longrightarrow>
                   cmp (getNthData a k) (getNthData a (i div 2)) \<le> 0"
  shows "\<exists>b. maxHeapify cmp n i a = Some b \<and> heapFrom cmp n l b \<and> mset b = mset a \<and>
           drop n b = drop n a"
  using assms(2-)
proof (induction "n - i" arbitrary: i a rule: less_induct)
  case less
  note i = less.prems(2-4)
  have left: "getLeftChildIdx i = 2 * i"
    using n(1) i(3) by (simp add: getLeftChildIdx_def)
  define c where "c = greaterChild cmp n a (2 * i)"
  consider (leaf) "n < 2 * i" | (stop) "2 * i \<le> n" "cmp (getNthData a c) (getNthData a i) \<le> 0"
    | (down) "2 * i \<le> n" "\<not> cmp (getNthData a c) (getNthData a i) \<le> 0"
    by linarith
  then show ?case
  proof cases
    case leaf
    then have "k div 2 \<noteq> i" if "k \<le> n" for k
      using that by linarith
    then have "heapFrom cmp n l a"
      using less.prems(5) by (simp add: heapFrom_def)
    then show ?thesis
      using leaf by (simp add: maxHeapify.simps [of cmp n i] left)
  next
    case stop
    have i1: "1 \<le> i"
      using i by simp
    have "cmp (getNthData a k) (getNthData a i) \<le> 0" if "2 \<le> k" "k \<le> n" "k div 2 = i" for k
      using greaterChild_props(4) [OF i1 stop(1) that, where a = a] stop(2) cmp_trans
      unfolding c_def by blast
    then have "heapFrom cmp n l a"
      using less.prems(5) by (auto simp: heapFrom_def)
    then show ?thesis
      using stop by (simp add: maxHeapify.simps [of cmp n i] left c_def)
  next
    case down
    have i1: "1 \<le> i"
      using i by simp
    note ch = greaterChild_props [OF i1 down(1), where a = a, folded c_def]
    note sw = heapify_swap [OF i(1,2) down(1) less.prems(1,5,6) c_def down(2)]
    have "\<exists>b. maxHeapify cmp n c (heapSwap a i c) = Some b \<and> heapFrom cmp n l b \<and>
        mset b = mset (heapSwap a i c) \<and> drop n b = drop n (heapSwap a i c)"
    proof (rule less.hyps)
      show "n - c < n - i"
        using ch i by linarith
      show "n \<le> length (heapSwap a i c)"
        using less.prems(1) by simp
      show "1 \<le> l" "l \<le> c" "c \<le> n"
        using ch i by auto
    qed (use sw in \<open>blast+\<close>)
    moreover have "maxHeapify cmp n i a = maxHeapify cmp n c (heapSwap a i c)"
      using down by (simp add: maxHeapify.simps [of cmp n i] left c_def)
    ultimately show ?thesis
      using ch i i1 less.prems(1) by (simp add: drop_heapSwap)
  qed
qed

text \<open>While the last element equals the one at the top, counting it or not makes no difference.\<close>

lemma maxHeapify_last:
  assumes n: "n < 2 ^ 31" "n \<le> length a" and i: "1 \<le> i" "i \<le> n"
    and x: "getNthData a n = getNthData a i"
  shows "maxHeapify cmp n i a = maxHeapify cmp (n - 1) i a"
  using assms(2-)
proof (induction "n - i" arbitrary: i a rule: less_induct)
  case less
  note i = less.prems(2,3) and x = less.prems(4)
  have left: "getLeftChildIdx i = 2 * i"
    using n(1) i by (simp add: getLeftChildIdx_def)
  define c where "c = greaterChild cmp n a (2 * i)"
  have c': "greaterChild cmp (n - 1) a (2 * i) = (if n = 2 * i + 1 then 2 * i else c)"
    if "2 * i \<le> n - 1"
    using that by (auto simp: c_def greaterChild_def)
  consider (leaf) "n < 2 * i" | (child) "n = 2 * i"
    | (pair) "n = 2 * i + 1" | (inner) "2 * i + 1 < n"
    by linarith
  then show ?case
  proof cases
    case leaf
    then have "\<not> 2 * i \<le> n - Suc 0"
      by linarith
    then show ?thesis
      using leaf by (simp add: maxHeapify.simps [of cmp n i] maxHeapify.simps [of cmp "n - Suc 0" i] left)
  next
    case child
    then show ?thesis
      using x by (simp add: maxHeapify.simps [of cmp _ i] left greaterChild_def)
  next
    case pair
    have "maxHeapify cmp m (2 * i) b = Some b" if "m \<le> n" for m b
      using that pair i n(1)
      by (simp add: maxHeapify.simps [of cmp _ "2 * i"] getLeftChildIdx_def)
    moreover have "cmp (getNthData a (2 * i)) (getNthData a i) \<le> 0"
      if "cmp (getNthData a (2 * i)) (getNthData a n) < 0"
      using that x by simp
    ultimately show ?thesis
      using pair x by (simp add: maxHeapify.simps [of cmp _ i] left greaterChild_def)
  next
    case inner
    then have le: "2 * i \<le> n" and le': "2 * i \<le> n - 1"
      by simp_all
    note ch = greaterChild_props [OF i(1) le, where a = a, folded c_def]
    have "c < n"
      using inner by (simp add: c_def greaterChild_def)
    have "maxHeapify cmp n c (heapSwap a i c) = maxHeapify cmp (n - 1) c (heapSwap a i c)"
    proof (rule less.hyps)
      show "n - c < n - i" "n \<le> length (heapSwap a i c)" "1 \<le> c" "c \<le> n"
        using ch i less.prems(1) \<open>c < n\<close> by simp_all
      show "getNthData (heapSwap a i c) n = getNthData (heapSwap a i c) c"
        using x inner \<open>c < n\<close> ch i less.prems(1) by (simp add: getNthData_heapSwap)
    qed
    then show ?thesis
      using le le' inner c' by (simp add: maxHeapify.simps [of cmp _ i] left c_def [symmetric])
  qed
qed

text \<open>Lifting a new element repairs a heap whose only defect is at that element.\<close>

lemma siftUp_heap:
  assumes "n \<le> length a" "1 \<le> i" "i \<le> n"
    and "\<And>k. 2 \<le> k \<Longrightarrow> k \<le> n \<Longrightarrow> k \<noteq> i \<Longrightarrow> cmp (getNthData a k) (getNthData a (k div 2)) \<le> 0"
    and "\<And>k. 2 \<le> i \<Longrightarrow> 2 \<le> k \<Longrightarrow> k \<le> n \<Longrightarrow> k div 2 = i \<Longrightarrow>
           cmp (getNthData a k) (getNthData a (i div 2)) \<le> 0"
  shows "heapFrom cmp n 1 (siftUp_loop cmp i a) \<and> mset (siftUp_loop cmp i a) = mset a \<and>
    drop n (siftUp_loop cmp i a) = drop n a"
  using assms
proof (induction i arbitrary: a rule: less_induct)
  case (less i)
  note others = less.prems(4) and bridge = less.prems(5)
  consider (root) "i = 1" | (stop) "2 \<le> i" "cmp (getNthData a (i div 2)) (getNthData a i) \<ge> 0"
    | (up) "2 \<le> i" "cmp (getNthData a (i div 2)) (getNthData a i) < 0"
    using less.prems(2) by linarith
  then show ?case
  proof cases
    case root
    then have "heapFrom cmp n 1 a"
      using others by (simp add: heapFrom_def)
    then show ?thesis
      using root by (simp add: siftUp_loop.simps [of cmp "Suc 0"])
  next
    case stop
    then have "cmp (getNthData a i) (getNthData a (i div 2)) \<le> 0"
      using cmp_flip [of "getNthData a (i div 2)" "getNthData a i"]
        cmp_flip [of "getNthData a i" "getNthData a (i div 2)"] by linarith
    then have "cmp (getNthData a k) (getNthData a (k div 2)) \<le> 0" if "2 \<le> k" "k \<le> n" for k
      using others that by (cases "k = i") auto
    then have "heapFrom cmp n 1 a"
      by (simp add: heapFrom_def)
    then show ?thesis
      using stop by (simp add: siftUp_loop.simps [of cmp i] getParentIdx_def)
  next
    case up
    define p where "p = i div 2"
    have p: "1 \<le> p" "p < i" "p \<le> n" "i \<le> n" "i div 2 = p"
      using up(1) less.prems(3) by (auto simp: p_def)
    have g: "getNthData (heapSwap a p i) m =
        (if m = i then getNthData a p else if m = p then getNthData a i else getNthData a m)"
      if "1 \<le> m" for m
      using getNthData_heapSwap [of p a i m] p less.prems(1) that by simp
    have pi: "cmp (getNthData a p) (getNthData a i) < 0"
      using up(2) by (simp add: p_def)
    have below: "cmp (getNthData a k) (getNthData a i) \<le> 0"
      if "2 \<le> k" "k \<le> n" "k div 2 = p" "k \<noteq> i" for k
      using others [OF that(1,2,4)] that(3) pi cmp_trans [of "getNthData a k" "getNthData a p"]
      by simp
    have "heapFrom cmp n 1 (siftUp_loop cmp p (heapSwap a p i)) \<and>
      mset (siftUp_loop cmp p (heapSwap a p i)) = mset (heapSwap a p i) \<and>
      drop n (siftUp_loop cmp p (heapSwap a p i)) = drop n (heapSwap a p i)"
    proof (rule less.IH)
      show "p < i" "n \<le> length (heapSwap a p i)" "1 \<le> p" "p \<le> n"
        using p less.prems(1) by auto
      fix k
      assume k: "2 \<le> k" "k \<le> n" "k \<noteq> p"
      show "cmp (getNthData (heapSwap a p i) k) (getNthData (heapSwap a p i) (k div 2)) \<le> 0"
      proof (cases "k = i")
        case True
        then show ?thesis
          using g [of i] g [of p] p pi k by simp
      next
        case False
        then consider "k div 2 = p" | "k div 2 = i" | "k div 2 \<noteq> p" "k div 2 \<noteq> i"
          by blast
        then show ?thesis
        proof cases
          case 1
          then show ?thesis
            using g [of k] g [of p] p k False below by simp
        next
          case 2
          then show ?thesis
            using g [of k] g [of i] k False bridge [OF up(1) k(1,2)] p by simp
        next
          case 3
          then show ?thesis
            using g [of k] g [of "k div 2"] k False others by auto
        qed
      qed
    next
      fix k
      assume k: "2 \<le> p" "2 \<le> k" "k \<le> n" "k div 2 = p"
      have pp: "cmp (getNthData a p) (getNthData a (p div 2)) \<le> 0"
        using others [of p] k p by simp
      have "p div 2 \<noteq> i" "p div 2 \<noteq> p" "k \<noteq> p" "1 \<le> p div 2"
        using p k by auto
      then show "cmp (getNthData (heapSwap a p i) k) (getNthData (heapSwap a p i) (p div 2)) \<le> 0"
        using g [of k] g [of "p div 2"] k pp others [of k] cmp_trans [OF _ pp, of "getNthData a k"]
        by auto
    qed
    moreover have "siftUp_loop cmp i a = siftUp_loop cmp p (heapSwap a p i)"
      using up p by (simp add: siftUp_loop.simps [of cmp i] getParentIdx_def)
    ultimately show ?thesis
      using p less.prems(1) by (simp add: drop_heapSwap)
  qed
qed

lemma maxHeapify_root:
  assumes n: "n < 2 ^ 31" "1 \<le> n" "n \<le> length a"
    and others: "\<And>k. 4 \<le> k \<Longrightarrow> k \<le> n \<Longrightarrow> cmp (getNthData a k) (getNthData a (k div 2)) \<le> 0"
  shows "\<exists>b. maxHeapify cmp n 1 a = Some b \<and> heapFrom cmp n 1 b \<and> mset b = mset a \<and>
    drop n b = drop n a"
proof (rule maxHeapify_heap)
  fix k
  assume k: "2 \<le> k" "k \<le> n" "1 \<le> k div 2" "k div 2 \<noteq> 1"
  then have "4 \<le> k"
    by linarith
  then show "cmp (getNthData a k) (getNthData a (k div 2)) \<le> 0"
    using others k by blast
qed (use n in simp_all)

lemma buildHeap_loop_heap:
  assumes "n < 2 ^ 31" "n \<le> length a" "i \<le> n" "heapFrom cmp n (Suc i) a"
  shows "\<exists>b. buildHeap_loop cmp n i a = Some b \<and> heapFrom cmp n 1 b \<and> mset b = mset a \<and>
    drop n b = drop n a"
  using assms
proof (induction i arbitrary: a)
  case 0
  then show ?case
    by simp
next
  case (Suc i)
  have "\<exists>b. maxHeapify cmp n (Suc i) a = Some b \<and> heapFrom cmp n (Suc i) b \<and> mset b = mset a \<and>
      drop n b = drop n a"
  proof (rule maxHeapify_heap)
    fix k
    assume "2 \<le> k" "k \<le> n" "Suc i \<le> k div 2" "k div 2 \<noteq> Suc i"
    then show "cmp (getNthData a k) (getNthData a (k div 2)) \<le> 0"
      using heapFromD [OF Suc.prems(4)] by simp
  next
    fix k
    assume "Suc i \<le> Suc i div 2"
    then show "cmp (getNthData a k) (getNthData a (Suc i div 2)) \<le> 0"
      by linarith
  qed (use Suc.prems in simp_all)
  then obtain b where b: "maxHeapify cmp n (Suc i) a = Some b" "heapFrom cmp n (Suc i) b"
    "mset b = mset a" "drop n b = drop n a"
    by blast
  moreover have "length b = length a"
    using b(3) by (rule mset_eq_length)
  ultimately show ?case
    using Suc.IH [of b] Suc.prems by simp
qed

text \<open>Moving the root of a heap behind the rest keeps the tail sorted.\<close>

lemma heap_tail_step:
  assumes n: "2 \<le> n" "n \<le> length a" and h: "heapFrom cmp n 1 a"
    and tail: "sorted_wrt (\<lambda>x y. cmp x y \<le> 0) (drop n a)"
      "\<And>x y. x \<in> set (take n a) \<Longrightarrow> y \<in> set (drop n a) \<Longrightarrow> cmp x y \<le> 0"
    and b: "mset b = mset (heapSwap a 1 n)" "drop (n - 1) b = drop (n - 1) (heapSwap a 1 n)"
  shows "sorted_wrt (\<lambda>x y. cmp x y \<le> 0) (drop (n - 1) b)"
    and "x \<in> set (take (n - 1) b) \<Longrightarrow> y \<in> set (drop (n - 1) b) \<Longrightarrow> cmp x y \<le> 0"
    and "drop n b = drop n a" and "mset b = mset a"
proof -
  have n1: "1 \<le> n" "1 \<le> length a"
    using n by auto
  have g: "getNthData (heapSwap a 1 n) n = getNthData a 1"
    using n n1 by (simp add: getNthData_heapSwap)
  have dn: "drop n (heapSwap a 1 n) = drop n a"
    using n by (intro drop_heapSwap) auto
  have d: "drop (n - 1) b = getNthData a 1 # drop n a"
    using drop_getNthData [of n "heapSwap a 1 n"] n b(2) g dn by simp
  have root: "getNthData a 1 \<in> set (take n a)"
    using n n1 by (auto simp: set_take_getNthData)
  show "sorted_wrt (\<lambda>x y. cmp x y \<le> 0) (drop (n - 1) b)"
    unfolding d using tail root by simp
  show m: "mset b = mset a"
    using b(1) n n1 by simp
  have "drop n b = drop 1 (drop (n - 1) b)"
    using n by simp
  also have "\<dots> = drop n a"
    unfolding d by simp
  finally show dnb: "drop n b = drop n a" .
  have "set (take n b) = set (take n a)"
    using mset_take_same [OF m dnb] by (rule mset_eq_setD)
  moreover have "set (take (n - 1) b) \<subseteq> set (take n b)"
    by (rule set_take_subset_set_take) simp
  ultimately have sub: "set (take (n - 1) b) \<subseteq> set (take n a)"
    by simp
  show "cmp x y \<le> 0" if xy: "x \<in> set (take (n - 1) b)" "y \<in> set (drop (n - 1) b)"
  proof -
    have x: "x \<in> set (take n a)"
      using xy(1) sub by blast
    then obtain k where "x = getNthData a k" "1 \<le> k" "k \<le> n"
      using n by (auto simp: set_take_getNthData)
    then have "cmp x (getNthData a 1) \<le> 0"
      using heap_root [OF h] by blast
    then show ?thesis
      using xy(2) tail(2) x unfolding d by auto
  qed
qed

lemma sort_loop_sorted:
  assumes "n < 2 ^ 31" "n \<le> length a" "heapFrom cmp n 1 a"
    and "sorted_wrt (\<lambda>x y. cmp x y \<le> 0) (drop n a)"
    and "\<And>x y. x \<in> set (take n a) \<Longrightarrow> y \<in> set (drop n a) \<Longrightarrow> cmp x y \<le> 0"
  shows "\<exists>b. sort_loop cmp n a = Some b \<and> sorted_wrt (\<lambda>x y. cmp x y \<le> 0) b \<and> mset b = mset a"
  using assms
proof (induction n arbitrary: a rule: less_induct)
  case (less n)
  show ?case
  proof (cases "n \<le> 1")
    case True
    then have "sorted_wrt (\<lambda>x y. cmp x y \<le> 0) (take n a)"
      by (intro sorted_wrt01) simp
    then have "sorted_wrt (\<lambda>x y. cmp x y \<le> 0) (take n a @ drop n a)"
      unfolding sorted_wrt_append using less.prems(4,5) by blast
    then show ?thesis
      using True by (simp add: sort_loop.simps [of cmp n])
  next
    case False
    have "\<exists>b. maxHeapify cmp (n - 1) 1 (heapSwap a 1 n) = Some b \<and> heapFrom cmp (n - 1) 1 b \<and>
        mset b = mset (heapSwap a 1 n) \<and> drop (n - 1) b = drop (n - 1) (heapSwap a 1 n)"
    proof (rule maxHeapify_root)
      fix k
      assume k: "4 \<le> k" "k \<le> n - 1"
      then have "k \<noteq> n" "k div 2 \<noteq> n" "k div 2 \<noteq> 1" "1 \<le> k div 2"
        by linarith+
      then show "cmp (getNthData (heapSwap a 1 n) k) (getNthData (heapSwap a 1 n) (k div 2)) \<le> 0"
        using k less.prems(2) heapFromD [OF less.prems(3), of k] by (simp add: getNthData_heapSwap)
    qed (use less.prems False in simp_all)
    then obtain b where b: "maxHeapify cmp (n - 1) 1 (heapSwap a 1 n) = Some b"
      "heapFrom cmp (n - 1) 1 b" "mset b = mset (heapSwap a 1 n)"
      "drop (n - 1) b = drop (n - 1) (heapSwap a 1 n)"
      by blast
    have n2: "2 \<le> n"
      using False by simp
    note st = heap_tail_step [OF n2 less.prems(2-5) b(3,4)]
    have len: "length b = length a"
      using st(4) by (rule mset_eq_length)
    have "\<exists>r. sort_loop cmp (n - 1) b = Some r \<and> sorted_wrt (\<lambda>x y. cmp x y \<le> 0) r \<and> mset r = mset b"
      by (rule less.IH) (use False less.prems(1,2) len b(2) st in auto)
    then show ?thesis
      using b(1) False st(4) by (simp add: sort_loop.simps [of cmp n])
  qed
qed

text \<open>Inserting and removing, on the array alone.\<close>

lemma insert_heap:
  assumes n: "n < length a" and h: "heapFrom cmp n 1 a"
  shows "heapFrom cmp (n + 1) 1 (siftUp_loop cmp (n + 1) (setNthData a (n + 1) x))"
    and "mset (take (n + 1) (siftUp_loop cmp (n + 1) (setNthData a (n + 1) x))) =
           add_mset x (mset (take n a))"
    and "length (siftUp_loop cmp (n + 1) (setNthData a (n + 1) x)) = length a"
proof -
  define b where "b = setNthData a (n + 1) x"
  have g: "getNthData b k = (if k = n + 1 then x else getNthData a k)" if "1 \<le> k" for k
    using getNthData_setNthData [of "n + 1" a k x] n that by (auto simp: b_def)
  have r: "heapFrom cmp (n + 1) 1 (siftUp_loop cmp (n + 1) b) \<and>
      mset (siftUp_loop cmp (n + 1) b) = mset b \<and>
      drop (n + 1) (siftUp_loop cmp (n + 1) b) = drop (n + 1) b"
  proof (rule siftUp_heap)
    fix k
    assume k: "2 \<le> k" "k \<le> n + 1" "k \<noteq> n + 1"
    then have "k div 2 \<noteq> n + 1" "1 \<le> k div 2"
      by linarith+
    then show "cmp (getNthData b k) (getNthData b (k div 2)) \<le> 0"
      using g [of k] g [of "k div 2"] k heapFromD [OF h, of k] by simp
  next
    fix k
    assume "2 \<le> k" "k \<le> n + 1" "k div 2 = n + 1"
    then show "cmp (getNthData b k) (getNthData b ((n + 1) div 2)) \<le> 0"
      by linarith
  qed (use n in \<open>simp_all add: b_def\<close>)
  then show "heapFrom cmp (n + 1) 1 (siftUp_loop cmp (n + 1) (setNthData a (n + 1) x))"
    by (simp add: b_def)
  have "mset (take (n + 1) (siftUp_loop cmp (n + 1) b)) = mset (take (n + 1) b)"
    using r by (intro mset_take_same) auto
  also have "take (n + 1) b = take n a @ [x]"
    using n by (simp add: b_def setNthData_def take_Suc_conv_app_nth)
  finally show "mset (take (n + 1) (siftUp_loop cmp (n + 1) (setNthData a (n + 1) x))) =
      add_mset x (mset (take n a))"
    by (simp add: b_def)
  have "length (siftUp_loop cmp (n + 1) b) = length b"
    using r by (intro mset_eq_length) auto
  then show "length (siftUp_loop cmp (n + 1) (setNthData a (n + 1) x)) = length a"
    by (simp add: b_def)
qed

lemma remove_heap:
  assumes n: "n < 2 ^ 31" "1 \<le> n" "n \<le> length a" and h: "heapFrom cmp n 1 a"
  shows "\<exists>b. maxHeapify cmp n 1
               (if n \<noteq> 1 then setNthData a 1 (getNthData a n) else a) = Some b \<and>
           heapFrom cmp (n - 1) 1 b \<and> length b = length a \<and>
           mset (take n a) = add_mset (getNthData a 1) (mset (take (n - 1) b))"
proof (cases "n = 1")
  case True
  then have "maxHeapify cmp n 1 a = Some a"
    by (simp add: maxHeapify.simps [of cmp "Suc 0"] getLeftChildIdx_def)
  moreover have "take 1 a = [getNthData a 1]"
    using n True by (cases a) (simp_all add: getNthData_def)
  ultimately show ?thesis
    using True by (simp add: heapFrom_def)
next
  case False
  define x where "x = getNthData a n"
  define a1 where "a1 = setNthData a 1 x"
  have n2: "2 \<le> n" "1 \<le> length a"
    using n False by auto
  have g: "getNthData a1 k = (if k = 1 then x else getNthData a k)" if "1 \<le> k" for k
    using getNthData_setNthData [of 1 a k x] n2 that by (auto simp: a1_def)
  have "maxHeapify cmp n 1 a1 = maxHeapify cmp (n - 1) 1 a1"
    using n n2 g [of n] g [of 1] by (intro maxHeapify_last) (auto simp: a1_def x_def)
  moreover have "\<exists>b. maxHeapify cmp (n - 1) 1 a1 = Some b \<and> heapFrom cmp (n - 1) 1 b \<and>
      mset b = mset a1 \<and> drop (n - 1) b = drop (n - 1) a1"
  proof (rule maxHeapify_root)
    fix k
    assume k: "4 \<le> k" "k \<le> n - 1"
    then have "k div 2 \<noteq> 1" "1 \<le> k div 2"
      by linarith+
    then show "cmp (getNthData a1 k) (getNthData a1 (k div 2)) \<le> 0"
      using g [of k] g [of "k div 2"] k heapFromD [OF h, of k] by simp
  qed (use n n2 in \<open>simp_all add: a1_def\<close>)
  ultimately obtain b where b: "maxHeapify cmp n 1 a1 = Some b" "heapFrom cmp (n - 1) 1 b"
    "mset b = mset a1" "drop (n - 1) b = drop (n - 1) a1"
    by auto
  have "mset (take (n - 1) b) = mset (take (n - 1) a1)"
    using b by (intro mset_take_same) auto
  moreover have "take n a = getNthData a 1 # tl (take (n - 1) a) @ [x]"
  proof -
    have "take n a = take (n - 1) a @ [x]"
      using take_Suc_getNthData [of "n - 1" a] n n2 by (simp add: x_def)
    moreover have "take (n - 1) a = getNthData a 1 # tl (take (n - 1) a)"
      using n2 by (cases a; cases "n - 1") (auto simp: getNthData_def)
    ultimately show ?thesis
      by (metis append_Cons)
  qed
  moreover have "take (n - 1) a1 = x # tl (take (n - 1) a)"
    using n2 by (cases a; cases "n - 1") (auto simp: a1_def setNthData_def)
  moreover have "length b = length a"
    using mset_eq_length [OF b(3)] by (simp add: a1_def)
  ultimately show ?thesis
    using b(1,2) False by (intro exI [of _ b]) (simp add: a1_def x_def)
qed

end

section \<open>What heap sort and the priority queue promise\<close>

lemma key_order_neg: "key_order c (\<lambda>_. False) \<Longrightarrow> key_order (\<lambda>a b. - c a b) (\<lambda>_. False)"
  unfolding key_order_def by (smt (verit))

text \<open>The elements of a queue and what is true of it between two calls.\<close>

definition pqContents :: "'a iduPriorityQueue \<Rightarrow> 'a multiset" where
  "pqContents q = mset (take (mDataCnt q) (mArray q))"

definition pqOk :: "'a iduPriorityQueue \<Rightarrow> bool" where
  "pqOk q \<longleftrightarrow> mDataCnt q \<le> mDataMaxCnt q \<and> length (mArray q) = mDataMaxCnt q \<and>
     mDataMaxCnt q < 2 ^ 31 \<and> heapFrom (mCompar q) (mDataCnt q) 1 (mArray q)"

lemma mCompar_fun: "mCompar q = (\<lambda>a b. - mComparUser q a b)"
  by (simp add: mCompar_def fun_eq_iff)

lemma size_pqContents: "pqOk q \<Longrightarrow> size (pqContents q) = mDataCnt q"
  by (simp add: pqOk_def pqContents_def)

text \<open>Taking up to \<open>n\<close> elements out of a queue.\<close>

fun drain :: "('q \<Rightarrow> (bool \<times> 'a option \<times> 'q) option) \<Rightarrow> nat \<Rightarrow> 'q \<Rightarrow> 'a list option" where
  "drain deq 0 q = Some []"
| "drain deq (Suc n) q = do {
     (underflow, x, q1) \<leftarrow> deq q;
     (case x of
        None \<Rightarrow> Some []
      | Some y \<Rightarrow> do { ys \<leftarrow> drain deq n q1; Some (y # ys) })
   }"

fun fill :: "('a \<Rightarrow> 'q \<Rightarrow> (bool \<times> 'q) option) \<Rightarrow> 'a list \<Rightarrow> 'q \<Rightarrow> 'q option" where
  "fill enq [] q = Some q"
| "fill enq (x # xs) q = do { (overflow, q1) \<leftarrow> enq x q; fill enq xs q1 }"

text \<open>What the users of the queue rely on.  \<open>le\<close> is the order of the user's comparison:
  \<open>deq\<close> hands out a least element, although the comments of the code promise the greatest.\<close>

locale priority_queue =
  fixes ok :: "'q \<Rightarrow> bool" and contents :: "'q \<Rightarrow> 'a multiset" and capacity :: "'q \<Rightarrow> nat"
    and le :: "'q \<Rightarrow> 'a \<Rightarrow> 'a \<Rightarrow> bool"
    and enq :: "'a \<Rightarrow> 'q \<Rightarrow> (bool \<times> 'q) option" and deq :: "'q \<Rightarrow> (bool \<times> 'a option \<times> 'q) option"
  assumes enq_room: "ok q \<Longrightarrow> size (contents q) < capacity q \<Longrightarrow>
      \<exists>q'. enq x q = Some (False, q') \<and> ok q' \<and> contents q' = add_mset x (contents q) \<and>
           capacity q' = capacity q \<and> le q' = le q"
    and deq_none: "ok q \<Longrightarrow> contents q = {#} \<Longrightarrow> deq q = Some (True, None, q)"
    and deq_least: "ok q \<Longrightarrow> contents q \<noteq> {#} \<Longrightarrow>
      \<exists>x q'. deq q = Some (False, Some x, q') \<and> ok q' \<and> contents q = add_mset x (contents q') \<and>
             (\<forall>y \<in># contents q. le q x y) \<and> capacity q' = capacity q \<and> le q' = le q"
begin

lemma drain_sorted:
  "ok q \<Longrightarrow> size (contents q) \<le> n \<Longrightarrow>
   \<exists>xs. drain deq n q = Some xs \<and> mset xs = contents q \<and> sorted_wrt (le q) xs"
proof (induction n arbitrary: q)
  case (Suc n)
  show ?case
  proof (cases "contents q = {#}")
    case True
    then show ?thesis
      using Suc.prems deq_none by auto
  next
    case False
    then obtain x q' where d: "deq q = Some (False, Some x, q')" "ok q'"
      "contents q = add_mset x (contents q')" "\<forall>y \<in># contents q. le q x y" "le q' = le q"
      using deq_least [OF Suc.prems(1)] by blast
    then obtain xs where "drain deq n q' = Some xs" "mset xs = contents q'" "sorted_wrt (le q') xs"
      using Suc.IH [OF d(2)] Suc.prems(2) by auto
    then show ?thesis
      using d by (auto simp flip: set_mset_mset)
  qed
qed simp

lemma fill_contents:
  "ok q \<Longrightarrow> size (contents q) + length xs \<le> capacity q \<Longrightarrow>
   \<exists>q'. fill enq xs q = Some q' \<and> ok q' \<and> contents q' = contents q + mset xs \<and>
        capacity q' = capacity q \<and> le q' = le q"
proof (induction xs arbitrary: q)
  case (Cons x xs)
  then obtain q1 where e: "enq x q = Some (False, q1)" "ok q1" "contents q1 = add_mset x (contents q)"
    "capacity q1 = capacity q" "le q1 = le q"
    using enq_room [of q x] by auto
  then obtain q' where "fill enq xs q1 = Some q'" "ok q'" "contents q' = contents q1 + mset xs"
    "capacity q' = capacity q1" "le q' = le q1"
    using Cons.IH [OF e(2)] Cons.prems(2) by auto
  then show ?case
    using e by simp
qed simp

text \<open>A queue filled from a list and emptied again sorts the list.\<close>

lemma fill_drain:
  assumes "ok q" "contents q = {#}" "length xs \<le> capacity q"
  shows "\<exists>q' ys. fill enq xs q = Some q' \<and> drain deq (length xs) q' = Some ys \<and>
    mset ys = mset xs \<and> sorted_wrt (le q) ys"
proof -
  obtain q' where "fill enq xs q = Some q'" "ok q'" "contents q' = mset xs" "le q' = le q"
    using fill_contents [of q xs] assms by auto
  then show ?thesis
    using drain_sorted [of q' "length xs"] by auto
qed

end

definition pqReady :: "'a iduPriorityQueue \<Rightarrow> bool" where
  "pqReady q \<longleftrightarrow> key_order (mComparUser q) (\<lambda>_. False) \<and> pqOk q"

definition pqLe :: "'a iduPriorityQueue \<Rightarrow> 'a \<Rightarrow> 'a \<Rightarrow> bool" where
  "pqLe q a b \<longleftrightarrow> mComparUser q a b \<le> 0"

lemma pqReady_compar: "pqReady q \<Longrightarrow> heap_compar (mCompar q)"
  unfolding heap_compar_def mCompar_fun pqReady_def by (simp add: key_order_neg)

lemma pq_enqueue:
  assumes ok: "pqReady q" and room: "size (pqContents q) < mDataMaxCnt q"
  shows "\<exists>q'. enqueue x q = Some (False, q') \<and> pqReady q' \<and>
    pqContents q' = add_mset x (pqContents q) \<and> mDataMaxCnt q' = mDataMaxCnt q \<and>
    mComparUser q' = mComparUser q"
proof -
  have o: "pqOk q"
    using ok by (simp add: pqReady_def)
  have n: "mDataCnt q < mDataMaxCnt q"
    using room size_pqContents [OF o] by simp
  define b where "b = siftUp_loop (mCompar q) (mDataCnt q + 1) (setNthData (mArray q) (mDataCnt q + 1) x)"
  note ins = heap_compar.insert_heap [OF pqReady_compar [OF ok], of "mDataCnt q" "mArray q" x,
      folded b_def]
  have e: "enqueue x q = Some (False, q\<lparr>mDataCnt := mDataCnt q + 1, mArray := b\<rparr>)"
    using n by (simp add: enqueue_def iduHeap_insert_def maxHeapInsert_def b_def)
  have c: "mCompar (q\<lparr>mDataCnt := mDataCnt q + 1, mArray := b\<rparr>) = mCompar q"
    by (simp add: mCompar_fun)
  show ?thesis
    using e c ins n o ok by (simp add: pqReady_def pqOk_def pqContents_def)
qed

lemma pq_dequeue_none:
  assumes "pqReady q" "pqContents q = {#}"
  shows "dequeue q = Some (True, None, q)"
proof -
  have "mDataCnt q = 0"
    using assms size_pqContents [of q] by (simp add: pqReady_def)
  then show ?thesis
    by (simp add: dequeue_def iduHeap_remove_def)
qed

lemma pq_dequeue:
  assumes ok: "pqReady q" and ne: "pqContents q \<noteq> {#}"
  shows "\<exists>x q'. dequeue q = Some (False, Some x, q') \<and> pqReady q' \<and>
    pqContents q = add_mset x (pqContents q') \<and> (\<forall>y \<in># pqContents q. mComparUser q x y \<le> 0) \<and>
    mDataMaxCnt q' = mDataMaxCnt q \<and> mComparUser q' = mComparUser q"
proof -
  have o: "pqOk q"
    using ok by (simp add: pqReady_def)
  then have n: "mDataCnt q < 2 ^ 31" "1 \<le> mDataCnt q" "mDataCnt q \<le> length (mArray q)"
    and h: "heapFrom (mCompar q) (mDataCnt q) 1 (mArray q)"
    using ne size_pqContents [OF o]
    by (auto simp: pqOk_def Suc_le_eq simp flip: size_eq_0_iff_empty)
  note hc = pqReady_compar [OF ok]
  obtain b where b: "maxHeapify (mCompar q) (mDataCnt q) 1
      (if mDataCnt q \<noteq> 1 then setNthData (mArray q) 1 (getNthData (mArray q) (mDataCnt q))
       else mArray q) = Some b"
    "heapFrom (mCompar q) (mDataCnt q - 1) 1 b" "length b = length (mArray q)"
    "pqContents q = add_mset (getNthData (mArray q) 1) (mset (take (mDataCnt q - 1) b))"
    using heap_compar.remove_heap [OF hc n h] unfolding pqContents_def by blast
  define q' where "q' = q\<lparr>mArray := b, mDataCnt := mDataCnt q - 1\<rparr>"
  have "dequeue q = Some (False, Some (getNthData (mArray q) 1), q')"
    using b(1) n(2) by (simp add: dequeue_def iduHeap_remove_def q'_def)
  moreover have "mCompar q' = mCompar q"
    by (simp add: q'_def mCompar_fun)
  moreover have "mComparUser q (getNthData (mArray q) 1) y \<le> 0" if y: "y \<in># pqContents q" for y
  proof -
    from y n(3) obtain k where "1 \<le> k" "k \<le> mDataCnt q" "y = getNthData (mArray q) k"
      by (auto simp: pqContents_def set_take_getNthData)
    then have "mCompar q y (getNthData (mArray q) 1) \<le> 0"
      using heap_compar.heap_root [OF hc h] by blast
    then have "0 \<le> mComparUser q y (getNthData (mArray q) 1)"
      by (simp add: mCompar_def)
    then show ?thesis
      using ok key_order.cmp_flip unfolding pqReady_def by (metis leD leI)
  qed
  moreover have "pqReady q'"
    using b(2,3) o ok \<open>mCompar q' = mCompar q\<close> by (auto simp: pqReady_def pqOk_def q'_def)
  moreover have "pqContents q = add_mset (getNthData (mArray q) 1) (pqContents q')"
    using b(4) by (simp add: pqContents_def q'_def)
  moreover have "mDataMaxCnt q' = mDataMaxCnt q" "mComparUser q' = mComparUser q"
    by (simp_all add: q'_def)
  ultimately show ?thesis
    by blast
qed

interpretation pq: priority_queue pqReady pqContents mDataMaxCnt pqLe enqueue dequeue
proof
  fix q :: "'a iduPriorityQueue" and x
  assume "pqReady q" "size (pqContents q) < mDataMaxCnt q"
  then show "\<exists>q'. enqueue x q = Some (False, q') \<and> pqReady q' \<and>
      pqContents q' = add_mset x (pqContents q) \<and> mDataMaxCnt q' = mDataMaxCnt q \<and> pqLe q' = pqLe q"
    using pq_enqueue [of q x] by (auto simp: pqLe_def fun_eq_iff)
next
  fix q :: "'a iduPriorityQueue"
  assume "pqReady q" "pqContents q \<noteq> {#}"
  then show "\<exists>x q'. dequeue q = Some (False, Some x, q') \<and> pqReady q' \<and>
      pqContents q = add_mset x (pqContents q') \<and> (\<forall>y \<in># pqContents q. pqLe q x y) \<and>
      mDataMaxCnt q' = mDataMaxCnt q \<and> pqLe q' = pqLe q"
    using pq_dequeue [of q] by (auto simp: pqLe_def fun_eq_iff)
qed (rule pq_dequeue_none)

subsection \<open>Properties\<close>



text \<open>C31: A priority queue made by \<open>initialize\<close> and filled with \<open>enqueue\<close> hands its elements
  back in ascending order of the user's comparison: \<open>dequeue\<close> always returns a least element,
  the loops return, and neither call reports an error while the number of elements respects the
  capacity.\<close>

theorem priority_queue_ascending:
  assumes k: "key_order aCompar (\<lambda>_. False)" and mem: "length mem = aMax" "aMax < 2 ^ 31"
    and xs: "length xs \<le> aMax"
  shows "\<exists>q q' ys. iduHeap_initialize (Some mem) aMax aCompar = (IDE_SUCCESS, Some q) \<and>
    fill enqueue xs q = Some q' \<and> drain dequeue (length xs) q' = Some ys \<and>
    mset ys = mset xs \<and> sorted_wrt (\<lambda>x y. aCompar x y \<le> 0) ys"
proof -
  define q where "q = \<lparr>mArray = mem, mDataMaxCnt = aMax, mDataCnt = 0, mComparUser = aCompar\<rparr>"
  have "pqReady q" and "pqContents q = {#}"
    using k mem by (simp_all add: q_def pqReady_def pqOk_def pqContents_def heapFrom_def)
  moreover have "pqLe q = (\<lambda>x y. aCompar x y \<le> 0)"
    by (simp add: q_def pqLe_def fun_eq_iff)
  ultimately show ?thesis
    using pq.fill_drain [of q xs] xs by (auto simp: q_def iduHeap_initialize_def)
qed

theorem priority_queue_ascending_witness:
  "\<exists>q q' ys. iduHeap_initialize (Some [0, 0, 0]) 3 (\<lambda>x y. x - y) = (IDE_SUCCESS, Some q) \<and>
    fill enqueue [7, 2, 5 :: int] q = Some q' \<and> drain dequeue 3 q' = Some ys \<and>
    mset ys = {#7, 2, 5#} \<and> sorted_wrt (\<lambda>x y. x - y \<le> 0) ys"
proof -
  have "key_order (\<lambda>x y. x - y) (\<lambda>_ :: int. False)"
    by unfold_locales auto
  moreover have l: "length [7, 2, 5 :: int] = 3"
    by simp
  ultimately show ?thesis
    using priority_queue_ascending [of "\<lambda>x y. x - y" "[0, 0, 0]" 3 "[7, 2, 5]", unfolded l] by simp
qed

text \<open>The overflow flag is raised only past the capacity, and the call that would overflow
  fails the assertion of \<open>maxHeapInsert\<close> instead.\<close>

lemma enqueue_full: "mDataCnt q = mDataMaxCnt q \<Longrightarrow> enqueue x q = None"
  by (simp add: enqueue_def iduHeap_insert_def maxHeapInsert_def)

end
