(* ===== verification/RestartUndo.thy ===== *)
theory RestartUndo
  imports IduHeap
begin

text \<open>
  The undo pass of restart recovery and the rollback of one transaction:
  \<open>src/src/sm/smr/smrCompareLSN.cpp\<close>, \<open>src/src/sm/smr/smrUTransQueue.cpp\<close>,
  \<open>undoAll\<close>, \<open>undo\<close> and \<open>undoTrans\<close> of \<open>src/src/sm/smr/smrRecoveryMgr.cpp\<close> and
  \<open>insertUndoLSNs\<close> of \<open>src/src/sm/smx/smxTransMgr.cpp\<close>.

  Transactions are numbers.  What the pass calls of other components is a field of \<open>smrEnv\<close>:
  reading a log record at an LSN, the decompression resource of a transaction, the part of
  \<open>undo\<close> that applies a record by its type and writes the compensation log (its result is the
  return code and the previous LSN it leaves in the log head), the policy of
  \<open>startupFailure\<close>, and the calls that end the pass (\<open>closeLogFile\<close> also stands for the
  case that no log file is open, which succeeds).  Log buffers are left out.  The results carry the list of the records undone, in the order of the calls of \<open>undo\<close>.
\<close>

section \<open>Log sequence numbers\<close>

datatype smLSN = LSN (mFileNo: u32) (mOffset: u32)

definition SM_LSN_MAX :: smLSN where
  "SM_LSN_MAX = LSN 0xFFFFFFFF 0xFFFFFFFF"

definition SM_IS_LSN_MAX :: "smLSN \<Rightarrow> bool" where
  "SM_IS_LSN_MAX l \<longleftrightarrow> mFileNo l = 0xFFFFFFFF \<and> mOffset l = 0xFFFFFFFF"

definition isGT :: "smLSN \<Rightarrow> smLSN \<Rightarrow> bool" where
  "isGT a b = (if mFileNo a > mFileNo b then True
     else if mFileNo a = mFileNo b then mOffset a > mOffset b else False)"

definition isGTE :: "smLSN \<Rightarrow> smLSN \<Rightarrow> bool" where
  "isGTE a b = (if mFileNo a > mFileNo b then True
     else if mFileNo a = mFileNo b then mOffset a \<ge> mOffset b else False)"

definition isEQ :: "smLSN \<Rightarrow> smLSN \<Rightarrow> bool" where
  "isEQ a b \<longleftrightarrow> mFileNo a = mFileNo b \<and> mOffset a = mOffset b"

definition isLTE :: "smLSN \<Rightarrow> smLSN \<Rightarrow> bool" where
  "isLTE a b = (if mFileNo a < mFileNo b then True
     else if mFileNo a = mFileNo b then mOffset a \<le> mOffset b else False)"

definition isLT :: "smLSN \<Rightarrow> smLSN \<Rightarrow> bool" where
  "isLT a b = (if mFileNo a < mFileNo b then True
     else if mFileNo a = mFileNo b then mOffset a < mOffset b else False)"

definition isZero :: "smLSN \<Rightarrow> bool" where
  "isZero l = isEQ (LSN 0 0) l"

text \<open>The comparisons of the code make the LSNs a linear order.\<close>

instantiation smLSN :: linorder
begin

definition less_eq_smLSN :: "smLSN \<Rightarrow> smLSN \<Rightarrow> bool" where
  "less_eq_smLSN a b = isLTE a b"

definition less_smLSN :: "smLSN \<Rightarrow> smLSN \<Rightarrow> bool" where
  "less_smLSN a b = isLT a b"

instance
proof
  fix a b c :: smLSN
  show "a < b \<longleftrightarrow> a \<le> b \<and> \<not> b \<le> a"
    by (auto simp: less_eq_smLSN_def less_smLSN_def isLTE_def isLT_def)
  show "a \<le> a"
    by (simp add: less_eq_smLSN_def isLTE_def)
  show "a \<le> b \<Longrightarrow> b \<le> c \<Longrightarrow> a \<le> c"
    by (auto simp: less_eq_smLSN_def isLTE_def split: if_splits)
  show "a \<le> b \<Longrightarrow> b \<le> a \<Longrightarrow> a = b"
    by (cases a; cases b) (auto simp: less_eq_smLSN_def isLTE_def split: if_splits)
  show "a \<le> b \<or> b \<le> a"
    by (auto simp: less_eq_smLSN_def isLTE_def)
qed

end

lemma lsn_less_iff: "a < b \<longleftrightarrow> mFileNo a < mFileNo b \<or> mFileNo a = mFileNo b \<and> mOffset a < mOffset b"
  by (auto simp: less_smLSN_def isLT_def)

lemma lsn_le_iff: "a \<le> b \<longleftrightarrow> mFileNo a < mFileNo b \<or> mFileNo a = mFileNo b \<and> mOffset a \<le> mOffset b"
  by (auto simp: less_eq_smLSN_def isLTE_def)

lemma lsn_compare [simp]:
  "isGT a b \<longleftrightarrow> b < a" "isGTE a b \<longleftrightarrow> b \<le> a" "isLT a b \<longleftrightarrow> a < b" "isLTE a b \<longleftrightarrow> a \<le> b"
  "isEQ a b \<longleftrightarrow> a = b"
  by (cases a; cases b;
      auto simp: lsn_less_iff lsn_le_iff isGT_def isGTE_def isLT_def isLTE_def isEQ_def)+

lemma SM_IS_LSN_MAX_iff [simp]: "SM_IS_LSN_MAX l \<longleftrightarrow> l = SM_LSN_MAX"
  by (cases l) (simp add: SM_IS_LSN_MAX_def SM_LSN_MAX_def)

section \<open>The queue of transactions to undo\<close>

record smrLogHead =
  mLSN :: smLSN
  mPrevUndoLSN :: smLSN

record smrUndoTransInfo =
  mTrans :: nat
  mLogHead :: smrLogHead
  mIsValid :: bool

record smrEnv =
  readLog :: "smLSN \<Rightarrow> IDE_RC \<times> smrLogHead \<times> bool"
  getTransCompRes :: "nat \<Rightarrow> IDE_RC"
  undoByType :: "nat \<Rightarrow> smrLogHead \<Rightarrow> IDE_RC \<times> smLSN"
  startupFailure :: "nat \<Rightarrow> IDE_RC"
  abortAllActiveTrans :: IDE_RC
  closeLogFile :: IDE_RC
  setRowSCNForInDoubtTrans :: IDE_RC

text \<open>The queue holds pointers into \<open>mArrUndoTransInfo\<close>, here indexes.\<close>

record smrUTransQueue =
  mCurUndoTransCount :: nat
  mMaxTransCount :: nat
  mArrUndoTransInfo :: "smrUndoTransInfo list"
  mPQueueTransInfo :: "nat iduPriorityQueue"

definition smrUTransQueue_compare :: "smrUndoTransInfo list \<Rightarrow> nat \<Rightarrow> nat \<Rightarrow> int" where
  "smrUTransQueue_compare arr arg1 arg2 =
     (let sLSN1 = mLSN (mLogHead (arr ! arg1)); sLSN2 = mLSN (mLogHead (arr ! arg2))
      in if isGT sLSN1 sLSN2 then -1 else if isLT sLSN1 sLSN2 then 1 else 0)"

text \<open>The comparison follows its pointers when it is called: every call of the queue sees the
  array as it is then.\<close>

definition pqueueNow :: "smrUTransQueue \<Rightarrow> nat iduPriorityQueue" where
  "pqueueNow q = (mPQueueTransInfo q)\<lparr>mComparUser := smrUTransQueue_compare (mArrUndoTransInfo q)\<rparr>"

definition smrUTransQueue_initialize ::
  "nat list option \<Rightarrow> smrUndoTransInfo list option \<Rightarrow> nat \<Rightarrow> IDE_RC \<times> smrUTransQueue option" where
  "smrUTransQueue_initialize heapMem infoMem aTransCount =
     (case iduHeap_initialize heapMem aTransCount (smrUTransQueue_compare []) of
        (IDE_SUCCESS, Some pq) \<Rightarrow>
          (case infoMem of
             None \<Rightarrow> (IDE_FAILURE, None)
           | Some arr \<Rightarrow> (IDE_SUCCESS, Some \<lparr>mCurUndoTransCount = 0, mMaxTransCount = aTransCount,
                mArrUndoTransInfo = arr, mPQueueTransInfo = pq\<rparr>))
      | _ \<Rightarrow> (IDE_FAILURE, None))"

text \<open>What \<open>readLog\<close> writes into the entry at \<open>i\<close>.\<close>

definition setInfo :: "nat \<Rightarrow> smrLogHead \<Rightarrow> bool \<Rightarrow> smrUTransQueue \<Rightarrow> smrUTransQueue" where
  "setInfo i head valid q = q\<lparr>mArrUndoTransInfo := (mArrUndoTransInfo q)
      [i := (mArrUndoTransInfo q ! i)\<lparr>mLogHead := head, mIsValid := valid\<rparr>]\<rparr>"

definition enqueueInfo :: "nat \<Rightarrow> smrUTransQueue \<Rightarrow> smrUTransQueue option" where
  "enqueueInfo i q = do {
     (sOverflow, pq) \<leftarrow> enqueue i (pqueueNow q);
     ide_assert (\<not> sOverflow);
     Some (q\<lparr>mPQueueTransInfo := pq\<rparr>)
   }"

type_synonym curLSNs = "nat \<Rightarrow> smLSN"

definition insertActiveTrans ::
  "smrEnv \<Rightarrow> (nat \<Rightarrow> smLSN) \<Rightarrow> nat \<Rightarrow> smrUTransQueue \<times> curLSNs \<Rightarrow>
   (IDE_RC \<times> smrUTransQueue \<times> curLSNs) option" where
  "insertActiveTrans env lst aTrans = (\<lambda>(q, cur). do {
     let i = mCurUndoTransCount q;
     ide_assert (i < mMaxTransCount q);
     let q1 = q\<lparr>mArrUndoTransInfo := (mArrUndoTransInfo q)
                 [i := (mArrUndoTransInfo q ! i)\<lparr>mTrans := aTrans\<rparr>]\<rparr>;
     let sLSN = lst aTrans;
     let cur1 = cur(aTrans := sLSN);
     if getTransCompRes env aTrans = IDE_FAILURE then Some (IDE_FAILURE, q1, cur1)
     else (case readLog env sLSN of (rc, head, valid) \<Rightarrow>
       if rc = IDE_FAILURE then Some (IDE_FAILURE, setInfo i head valid q1, cur1)
       else do {
         let q2 = setInfo i head valid q1;
         ide_assert valid;
         q3 \<leftarrow> enqueueInfo i q2;
         Some (IDE_SUCCESS, q3\<lparr>mCurUndoTransCount := i + 1\<rparr>, cur1)
       })
   })"

definition smrUTransQueue_insert ::
  "smrEnv \<Rightarrow> nat \<Rightarrow> smrUTransQueue \<times> curLSNs \<Rightarrow> (IDE_RC \<times> smrUTransQueue) option" where
  "smrUTransQueue_insert env i = (\<lambda>(q, cur). do {
     ide_assert (mCurUndoTransCount q < mMaxTransCount q);
     let q1 = q\<lparr>mCurUndoTransCount := mCurUndoTransCount q + 1\<rparr>;
     let aTrans = mTrans (mArrUndoTransInfo q1 ! i);
     let sLSN = cur aTrans;
     if getTransCompRes env aTrans = IDE_FAILURE then Some (IDE_FAILURE, q1)
     else (case readLog env sLSN of (rc, head, valid) \<Rightarrow>
       if rc = IDE_FAILURE then Some (IDE_FAILURE, setInfo i head valid q1)
       else do {
         let q2 = setInfo i head valid q1;
         ide_assert valid;
         q3 \<leftarrow> enqueueInfo i q2;
         Some (IDE_SUCCESS, q3)
       })
   })"

definition smrUTransQueue_remove :: "smrUTransQueue \<Rightarrow> (nat option \<times> smrUTransQueue) option" where
  "smrUTransQueue_remove q =
     (if mCurUndoTransCount q \<noteq> 0 then do {
        (sUnderflow, x, pq) \<leftarrow> dequeue (pqueueNow q);
        Some (if sUnderflow then None else x,
              q\<lparr>mCurUndoTransCount := mCurUndoTransCount q - 1, mPQueueTransInfo := pq\<rparr>)
      } else Some (None, q))"

fun insertUndoLSNs ::
  "smrEnv \<Rightarrow> (nat \<Rightarrow> smLSN) \<Rightarrow> nat list \<Rightarrow> smrUTransQueue \<times> curLSNs \<Rightarrow>
   (IDE_RC \<times> smrUTransQueue \<times> curLSNs) option" where
  "insertUndoLSNs env lst [] (q, cur) = Some (IDE_SUCCESS, q, cur)"
| "insertUndoLSNs env lst (t # ts) (q, cur) = do {
     (rc, q1, cur1) \<leftarrow> insertActiveTrans env lst t (q, cur);
     insertUndoLSNs env lst ts (q1, cur1)
   }"

section \<open>Undoing one record, one transaction, all transactions\<close>

definition undo :: "smrEnv \<Rightarrow> nat \<Rightarrow> curLSNs \<Rightarrow> IDE_RC \<times> curLSNs" where
  "undo env aTrans cur =
     (let sCurUndoLSN = cur aTrans in
      if getTransCompRes env aTrans = IDE_FAILURE then (IDE_FAILURE, cur)
      else (case readLog env sCurUndoLSN of (rc, sLogHead, sIsValid) \<Rightarrow>
        if rc = IDE_FAILURE then (IDE_FAILURE, cur)
        else if \<not> sIsValid then (IDE_FAILURE, cur)
        else (case undoByType env aTrans sLogHead of (rc1, sPrevUndoLSN) \<Rightarrow>
          (rc1, cur(aTrans := sPrevUndoLSN)))))"

partial_function (option) undoAll_loop ::
  "smrEnv \<Rightarrow> nat \<Rightarrow> smrUTransQueue \<times> curLSNs \<Rightarrow>
   (IDE_RC \<times> (nat \<times> smLSN) list \<times> curLSNs) option" where
  "undoAll_loop env i s =
     (case s of (q, cur) \<Rightarrow>
      case undo env (mTrans (mArrUndoTransInfo q ! i)) cur of (rc, cur1) \<Rightarrow>
      if rc = IDE_FAILURE \<and> startupFailure env (mTrans (mArrUndoTransInfo q ! i)) = IDE_FAILURE
      then Some (IDE_FAILURE, [(mTrans (mArrUndoTransInfo q ! i),
             cur (mTrans (mArrUndoTransInfo q ! i)))], cur1)
      else do {
        (rc1, q1) \<leftarrow> (if mFileNo (cur1 (mTrans (mArrUndoTransInfo q ! i))) = 0xFFFFFFFF \<and>
                          mOffset (cur1 (mTrans (mArrUndoTransInfo q ! i))) = 0xFFFFFFFF
                       then Some (IDE_SUCCESS, q)
                       else smrUTransQueue_insert env i (q, cur1));
        if rc1 = IDE_FAILURE
        then Some (IDE_FAILURE, [(mTrans (mArrUndoTransInfo q ! i),
               cur (mTrans (mArrUndoTransInfo q ! i)))], cur1)
        else do {
          (sTransInfo, q2) \<leftarrow> smrUTransQueue_remove q1;
          (case sTransInfo of
             None \<Rightarrow> Some (IDE_SUCCESS, [(mTrans (mArrUndoTransInfo q ! i),
                       cur (mTrans (mArrUndoTransInfo q ! i)))], cur1)
           | Some i' \<Rightarrow> do {
               (rc2, trace, cur2) \<leftarrow> undoAll_loop env i' (q2, cur1);
               Some (rc2, (mTrans (mArrUndoTransInfo q ! i),
                       cur (mTrans (mArrUndoTransInfo q ! i))) # trace, cur2)
             })
        }
      })"

definition undoAll ::
  "smrEnv \<Rightarrow> nat list option \<Rightarrow> smrUndoTransInfo list option \<Rightarrow> nat list \<Rightarrow> (nat \<Rightarrow> smLSN) \<Rightarrow> curLSNs \<Rightarrow>
   (IDE_RC \<times> (nat \<times> smLSN) list \<times> curLSNs) option" where
  "undoAll env heapMem infoMem activeTrans lst cur =
     (if activeTrans \<noteq> [] then
        (case smrUTransQueue_initialize heapMem infoMem (length activeTrans) of
           (IDE_SUCCESS, Some q0) \<Rightarrow> do {
             (rc1, q1, cur1) \<leftarrow> insertUndoLSNs env lst activeTrans (q0, cur);
             (sTransInfo, q2) \<leftarrow> smrUTransQueue_remove q1;
             ide_assert (sTransInfo \<noteq> None);
             (rc2, trace, cur2) \<leftarrow> undoAll_loop env (the sTransInfo) (q2, cur1);
             if rc2 = IDE_FAILURE \<or> abortAllActiveTrans env = IDE_FAILURE then do {
               ide_assert (closeLogFile env = IDE_SUCCESS);
               Some (IDE_FAILURE, trace, cur2)
             } else if closeLogFile env = IDE_FAILURE then Some (IDE_FAILURE, trace, cur2)
             else Some (setRowSCNForInDoubtTrans env, trace, cur2)
           }
         | _ \<Rightarrow> Some (IDE_FAILURE, [], cur))
      else Some (setRowSCNForInDoubtTrans env, [], cur))"

partial_function (option) undoTrans_loop ::
  "smrEnv \<Rightarrow> nat \<Rightarrow> smLSN \<Rightarrow> curLSNs \<Rightarrow> (IDE_RC \<times> smLSN list \<times> curLSNs) option" where
  "undoTrans_loop env aTrans aLSN cur =
     (if \<not> SM_IS_LSN_MAX aLSN \<and> mFileNo aLSN \<ge> mFileNo (cur aTrans) \<and>
         mOffset aLSN \<ge> mOffset (cur aTrans)
      then Some (IDE_SUCCESS, [], cur)
      else if mFileNo (cur aTrans) = 0xFFFFFFFF \<or> mOffset (cur aTrans) = 0xFFFFFFFF
      then do {
        ide_assert (mFileNo (cur aTrans) = 0xFFFFFFFF);
        ide_assert (mOffset (cur aTrans) = 0xFFFFFFFF);
        Some (IDE_SUCCESS, [], cur)
      }
      else case undo env aTrans cur of (rc, cur1) \<Rightarrow>
        if rc = IDE_FAILURE then Some (IDE_FAILURE, [cur aTrans], cur1)
        else do {
          (rc1, trace, cur2) \<leftarrow> undoTrans_loop env aTrans aLSN cur1;
          Some (rc1, cur aTrans # trace, cur2)
        })"

definition undoTrans ::
  "smrEnv \<Rightarrow> nat \<Rightarrow> smLSN \<Rightarrow> (nat \<Rightarrow> smLSN) \<Rightarrow> curLSNs \<Rightarrow> (IDE_RC \<times> smLSN list \<times> curLSNs) option" where
  "undoTrans env aTrans aLSN lst cur = do {
     (rc, trace, cur1) \<leftarrow> undoTrans_loop env aTrans aLSN (cur(aTrans := lst aTrans));
     if rc = IDE_FAILURE then do {
       ide_assert (closeLogFile env = IDE_SUCCESS);
       Some (IDE_FAILURE, trace, cur1)
     } else Some (closeLogFile env, trace, cur1)
   }"

section \<open>The records a transaction still has to undo\<close>

text \<open>\<open>xs\<close> are the LSNs that undoing \<open>t\<close> from \<open>l\<close> visits: each record can be read, its head
  carries its LSN, undoing it succeeds (or, with \<open>tol\<close>, its failure is tolerated), and it leads
  to an earlier record or to the end mark.\<close>

fun undoChain :: "smrEnv \<Rightarrow> bool \<Rightarrow> nat \<Rightarrow> smLSN \<Rightarrow> smLSN list \<Rightarrow> bool" where
  "undoChain env tol t l [] \<longleftrightarrow> l = SM_LSN_MAX"
| "undoChain env tol t l (x # xs) \<longleftrightarrow> x = l \<and> l \<noteq> SM_LSN_MAX \<and> getTransCompRes env t = IDE_SUCCESS \<and>
     (case readLog env l of (rc, head, valid) \<Rightarrow> rc = IDE_SUCCESS \<and> valid \<and> mLSN head = l \<and>
        (case undoByType env t head of (rc1, prev) \<Rightarrow>
           (rc1 = IDE_SUCCESS \<or> tol \<and> startupFailure env t = IDE_SUCCESS) \<and>
           (prev < l \<or> prev = SM_LSN_MAX) \<and> undoChain env tol t prev xs))"

lemma undoChain_Nil: "undoChain env tol t l xs \<Longrightarrow> xs = [] \<longleftrightarrow> l = SM_LSN_MAX"
  by (cases xs) auto

lemma undoChain_hd: "undoChain env tol t l (x # xs) \<Longrightarrow> x = l \<and> l \<noteq> SM_LSN_MAX"
  by simp

lemma undoChain_read:
  assumes "undoChain env tol t l xs" "xs \<noteq> []"
  shows "\<exists>head. readLog env l = (IDE_SUCCESS, head, True) \<and> mLSN head = l \<and>
    getTransCompRes env t = IDE_SUCCESS"
  using assms by (cases xs) (auto split: prod.splits)

lemma undo_step:
  assumes "undoChain env tol t (cur t) (x # xs)"
  shows "\<exists>rc prev. undo env t cur = (rc, cur(t := prev)) \<and>
    (rc = IDE_SUCCESS \<or> tol \<and> startupFailure env t = IDE_SUCCESS) \<and>
    (prev < cur t \<or> prev = SM_LSN_MAX) \<and> undoChain env tol t prev xs"
  using assms by (auto simp: undo_def split: prod.splits)

lemma undoChain_sorted:
  "undoChain env tol t l xs \<Longrightarrow> sorted_wrt (>) xs \<and> (\<forall>x \<in> set xs. x \<le> l)"
proof (induction xs arbitrary: l)
  case (Cons x xs)
  obtain rc head valid where r: "readLog env l = (rc, head, valid)"
    by (cases "readLog env l") auto
  obtain rc1 prev where u: "undoByType env t head = (rc1, prev)"
    by (cases "undoByType env t head") auto
  have c: "x = l" "prev < l \<or> prev = SM_LSN_MAX" "undoChain env tol t prev xs"
    using Cons.prems r u by auto
  show ?case
  proof (cases "prev = SM_LSN_MAX")
    case True
    then have "xs = []"
      using undoChain_Nil [OF c(3)] by simp
    then show ?thesis
      using c(1) by simp
  next
    case False
    then have "\<forall>y \<in> set xs. y < l"
      using c Cons.IH [OF c(3)] by (auto intro: le_less_trans)
    then show ?thesis
      using c(1) Cons.IH [OF c(3)] by auto
  qed
qed simp

section \<open>The queue between two steps\<close>

interpretation undoOrder: heap_compar "smrUTransQueue_compare arr" for arr
  by unfold_locales (auto simp: smrUTransQueue_compare_def Let_def split: if_splits)

lemma compare_le: "smrUTransQueue_compare arr i j \<le> 0 \<longleftrightarrow>
    mLSN (mLogHead (arr ! j)) \<le> mLSN (mLogHead (arr ! i))"
  by (auto simp: smrUTransQueue_compare_def Let_def)

definition uqContents :: "smrUTransQueue \<Rightarrow> nat multiset" where
  "uqContents q = pqContents (mPQueueTransInfo q)"

definition infoTrans :: "smrUTransQueue \<Rightarrow> nat \<Rightarrow> nat" where
  "infoTrans q k = mTrans (mArrUndoTransInfo q ! k)"

definition infoLSN :: "smrUTransQueue \<Rightarrow> nat \<Rightarrow> smLSN" where
  "infoLSN q k = mLSN (mLogHead (mArrUndoTransInfo q ! k))"

text \<open>Every entry in the queue is that of another transaction, carries the LSN the transaction is
  at, and has the records \<open>R t\<close> still to undo.\<close>

definition queueInv :: "smrEnv \<Rightarrow> (nat \<Rightarrow> smLSN list) \<Rightarrow> smrUTransQueue \<Rightarrow> curLSNs \<Rightarrow> bool" where
  "queueInv env R q cur \<longleftrightarrow> pqOk (pqueueNow q) \<and> mCurUndoTransCount q = size (uqContents q) \<and>
     mMaxTransCount q = mDataMaxCnt (mPQueueTransInfo q) \<and>
     length (mArrUndoTransInfo q) = mMaxTransCount q \<and>
     (\<forall>k \<in># uqContents q. count (uqContents q) k = 1 \<and> k < length (mArrUndoTransInfo q) \<and>
        R (infoTrans q k) \<noteq> [] \<and> infoLSN q k = cur (infoTrans q k) \<and>
        undoChain env True (infoTrans q k) (cur (infoTrans q k)) (R (infoTrans q k))) \<and>
     inj_on (infoTrans q) (set_mset (uqContents q))"

text \<open>The entry \<open>i\<close> has been taken out to be undone.\<close>

definition running :: "smrEnv \<Rightarrow> (nat \<Rightarrow> smLSN list) \<Rightarrow> nat \<Rightarrow> smrUTransQueue \<Rightarrow> curLSNs \<Rightarrow> bool" where
  "running env R i q cur \<longleftrightarrow> queueInv env R q cur \<and> i < length (mArrUndoTransInfo q) \<and>
     i \<notin># uqContents q \<and> mCurUndoTransCount q < mMaxTransCount q \<and>
     infoTrans q i \<notin> infoTrans q ` set_mset (uqContents q) \<and> R (infoTrans q i) \<noteq> [] \<and>
     undoChain env True (infoTrans q i) (cur (infoTrans q i)) (R (infoTrans q i)) \<and>
     (\<forall>k \<in># uqContents q. cur (infoTrans q k) \<le> cur (infoTrans q i))"

lemma pqContents_pqueueNow [simp]: "pqContents (pqueueNow q) = uqContents q"
  by (simp add: pqueueNow_def uqContents_def pqContents_def)

lemma pqReady_pqueueNow: "pqReady (pqueueNow q) \<longleftrightarrow> pqOk (pqueueNow q)"
  using undoOrder.key_order_axioms by (simp add: pqReady_def pqueueNow_def)

lemma mDataMaxCnt_pqueueNow [simp]: "mDataMaxCnt (pqueueNow q) = mDataMaxCnt (mPQueueTransInfo q)"
  by (simp add: pqueueNow_def)

lemma uqContents_simps [simp]:
  "uqContents (q\<lparr>mArrUndoTransInfo := a\<rparr>) = uqContents q"
  "uqContents (q\<lparr>mCurUndoTransCount := c\<rparr>) = uqContents q"
  "uqContents (q\<lparr>mPQueueTransInfo := p\<rparr>) = pqContents p"
  by (simp_all add: uqContents_def)

lemma info_simps [simp]:
  "infoTrans (q\<lparr>mCurUndoTransCount := c\<rparr>) = infoTrans q"
  "infoTrans (q\<lparr>mPQueueTransInfo := p\<rparr>) = infoTrans q"
  "infoLSN (q\<lparr>mCurUndoTransCount := c\<rparr>) = infoLSN q"
  "infoLSN (q\<lparr>mPQueueTransInfo := p\<rparr>) = infoLSN q"
  by (simp_all add: infoTrans_def infoLSN_def fun_eq_iff)

lemma pqueueNow_count [simp]: "pqueueNow (q\<lparr>mCurUndoTransCount := c\<rparr>) = pqueueNow q"
  by (simp add: pqueueNow_def)

text \<open>An entry that is not in the queue may change.\<close>

lemma pqOk_entry:
  assumes ok: "pqOk (pqueueNow q)" and i: "i \<notin># uqContents q"
  shows "pqOk (pqueueNow (q\<lparr>mArrUndoTransInfo := (mArrUndoTransInfo q)[i := e]\<rparr>))"
proof -
  let ?p = "mPQueueTransInfo q"
  have n: "mDataCnt ?p \<le> length (mArray ?p)"
    using ok by (simp add: pqOk_def pqueueNow_def)
  have "heapFrom (mCompar (pqueueNow (q\<lparr>mArrUndoTransInfo := (mArrUndoTransInfo q)[i := e]\<rparr>)))
      (mDataCnt ?p) 1 (mArray ?p)"
  proof (rule heapFrom_cong [OF _ n])
    show "heapFrom (mCompar (pqueueNow q)) (mDataCnt ?p) 1 (mArray ?p)"
      using ok by (simp add: pqOk_def pqueueNow_def)
    fix x y
    assume "x \<in> set (take (mDataCnt ?p) (mArray ?p))" "y \<in> set (take (mDataCnt ?p) (mArray ?p))"
    then have "x \<noteq> i" "y \<noteq> i"
      using i by (auto simp: uqContents_def pqContents_def)
    then show "mCompar (pqueueNow q) x y =
        mCompar (pqueueNow (q\<lparr>mArrUndoTransInfo := (mArrUndoTransInfo q)[i := e]\<rparr>)) x y"
      by (simp add: mCompar_def pqueueNow_def smrUTransQueue_compare_def)
  qed
  then show ?thesis
    using ok by (simp add: pqOk_def pqueueNow_def)
qed

lemma info_entry:
  "k \<noteq> i \<Longrightarrow> infoTrans (q\<lparr>mArrUndoTransInfo := (mArrUndoTransInfo q)[i := e]\<rparr>) k = infoTrans q k"
  "k \<noteq> i \<Longrightarrow> infoLSN (q\<lparr>mArrUndoTransInfo := (mArrUndoTransInfo q)[i := e]\<rparr>) k = infoLSN q k"
  "i < length (mArrUndoTransInfo q) \<Longrightarrow>
     infoTrans (q\<lparr>mArrUndoTransInfo := (mArrUndoTransInfo q)[i := e]\<rparr>) i = mTrans e"
  "i < length (mArrUndoTransInfo q) \<Longrightarrow>
     infoLSN (q\<lparr>mArrUndoTransInfo := (mArrUndoTransInfo q)[i := e]\<rparr>) i = mLSN (mLogHead e)"
  by (simp_all add: infoTrans_def infoLSN_def)

lemma queueInv_size: "queueInv env R q cur \<Longrightarrow> size (uqContents q) \<le> mMaxTransCount q"
proof -
  assume q: "queueInv env R q cur"
  then have ok: "pqOk (pqueueNow q)"
    by (simp add: queueInv_def)
  then have "size (uqContents q) = mDataCnt (pqueueNow q)"
    using size_pqContents [OF ok] by simp
  then show ?thesis
    using q ok by (simp add: queueInv_def pqOk_def)
qed

lemma queueInv_entry:
  assumes q: "queueInv env R q cur" and i: "i \<notin># uqContents q"
  shows "queueInv env R (q\<lparr>mArrUndoTransInfo := (mArrUndoTransInfo q)[i := e]\<rparr>) cur"
proof -
  have ne: "k \<noteq> i" if "k \<in># uqContents q" for k
    using that i by blast
  have "inj_on (infoTrans (q\<lparr>mArrUndoTransInfo := (mArrUndoTransInfo q)[i := e]\<rparr>))
      (set_mset (uqContents q)) \<longleftrightarrow> inj_on (infoTrans q) (set_mset (uqContents q))"
    by (rule inj_on_cong) (simp add: ne info_entry)
  then show ?thesis
    using q pqOk_entry [OF _ i, of e] by (auto simp: queueInv_def info_entry ne)
qed

lemma queueInv_other:
  assumes "queueInv env R q cur" and "t \<notin> infoTrans q ` set_mset (uqContents q)"
  shows "queueInv env (R(t := xs)) q (cur(t := l))"
proof -
  have ne: "infoTrans q k \<noteq> t" if "k \<in># uqContents q" for k
    using that assms(2) by blast
  then show ?thesis
    using assms(1) unfolding queueInv_def by auto
qed

text \<open>Putting an entry whose log head has just been read into the queue.\<close>

lemma enqueueInfo_queueInv:
  assumes q: "queueInv env R q cur" and i: "i < length (mArrUndoTransInfo q)" "i \<notin># uqContents q"
    and room: "mCurUndoTransCount q < mMaxTransCount q"
    and t: "infoTrans q i = t" "t \<notin> infoTrans q ` set_mset (uqContents q)"
    and c: "R t \<noteq> []" "undoChain env True t (cur t) (R t)" "infoLSN q i = cur t"
  shows "\<exists>q3. enqueueInfo i q = Some q3 \<and>
    queueInv env R (q3\<lparr>mCurUndoTransCount := mCurUndoTransCount q + 1\<rparr>) cur \<and>
    uqContents q3 = add_mset i (uqContents q) \<and> infoTrans q3 = infoTrans q \<and>
    mMaxTransCount q3 = mMaxTransCount q \<and> mArrUndoTransInfo q3 = mArrUndoTransInfo q \<and>
    mCurUndoTransCount q3 = mCurUndoTransCount q"
proof -
  have ready: "pqReady (pqueueNow q)"
    using q by (simp add: queueInv_def pqReady_pqueueNow)
  have "size (pqContents (pqueueNow q)) < mDataMaxCnt (pqueueNow q)"
    using q room by (simp add: queueInv_def)
  then obtain p where p: "enqueue i (pqueueNow q) = Some (False, p)" "pqReady p"
    "pqContents p = add_mset i (uqContents q)" "mDataMaxCnt p = mDataMaxCnt (mPQueueTransInfo q)"
    "mComparUser p = mComparUser (pqueueNow q)"
    using pq_enqueue [OF ready] by auto
  define q3 where "q3 = q\<lparr>mPQueueTransInfo := p\<rparr>"
  have "pqueueNow q3 = p"
    using p(5) by (simp add: q3_def pqueueNow_def)
  moreover have "inj_on (infoTrans q) (set_mset (add_mset i (uqContents q)))"
    using q t by (auto simp: queueInv_def inj_on_insert)
  moreover have "count (uqContents q) i = 0"
    using i(2) by (simp add: count_eq_zero_iff)
  ultimately have "queueInv env R (q3\<lparr>mCurUndoTransCount := mCurUndoTransCount q + 1\<rparr>) cur"
    using q p t c i unfolding queueInv_def pqReady_pqueueNow pqueueNow_count
    by (auto simp: q3_def pqReady_def)
  then show ?thesis
    using p by (intro exI [of _ q3]) (simp add: q3_def enqueueInfo_def)
qed

lemma enqueueInfo_count:
  "enqueueInfo i (q\<lparr>mCurUndoTransCount := c\<rparr>) =
     map_option (\<lambda>r. r\<lparr>mCurUndoTransCount := c\<rparr>) (enqueueInfo i q)"
  by (auto simp: enqueueInfo_def ide_assert_def split: option.splits bind_splits)

lemma setInfo_count:
  "setInfo i h v (q\<lparr>mCurUndoTransCount := c\<rparr>) = (setInfo i h v q)\<lparr>mCurUndoTransCount := c\<rparr>"
  by (simp add: setInfo_def)

lemma info_setInfo:
  assumes "i < length (mArrUndoTransInfo q)"
  shows "infoTrans (setInfo i h v q) = infoTrans q" "infoLSN (setInfo i h v q) i = mLSN h"
    "uqContents (setInfo i h v q) = uqContents q"
    "length (mArrUndoTransInfo (setInfo i h v q)) = length (mArrUndoTransInfo q)"
    "mCurUndoTransCount (setInfo i h v q) = mCurUndoTransCount q"
    "mMaxTransCount (setInfo i h v q) = mMaxTransCount q"
  using assms by (auto simp: setInfo_def infoTrans_def infoLSN_def fun_eq_iff nth_list_update)

lemma setInfo_enqueue:
  assumes q: "queueInv env R q cur" and i: "i < length (mArrUndoTransInfo q)" "i \<notin># uqContents q"
    and room: "mCurUndoTransCount q < mMaxTransCount q"
    and t: "infoTrans q i = t" "t \<notin> infoTrans q ` set_mset (uqContents q)"
    and c: "xs \<noteq> []" "undoChain env True t l xs" and h: "mLSN h = l"
  shows "\<exists>q3. enqueueInfo i (setInfo i h True q) = Some q3 \<and>
    queueInv env (R(t := xs)) (q3\<lparr>mCurUndoTransCount := mCurUndoTransCount q + 1\<rparr>) (cur(t := l)) \<and>
    uqContents q3 = add_mset i (uqContents q) \<and> infoTrans q3 = infoTrans q \<and>
    mMaxTransCount q3 = mMaxTransCount q \<and>
    length (mArrUndoTransInfo q3) = length (mArrUndoTransInfo q)"
proof -
  note s = info_setInfo [OF i(1), of h True]
  have "queueInv env (R(t := xs)) (setInfo i h True q) (cur(t := l))"
    unfolding setInfo_def by (intro queueInv_entry queueInv_other q i t)
  from enqueueInfo_queueInv [OF this, of i t] show ?thesis
    using s i room t c h by auto
qed

text \<open>The two ways into the queue and the way out.\<close>

lemma insertActiveTrans_queueInv:
  assumes q: "queueInv env R q cur" and room: "mCurUndoTransCount q < mMaxTransCount q"
    and new: "mCurUndoTransCount q \<notin># uqContents q" "t \<notin> infoTrans q ` set_mset (uqContents q)"
    and c: "xs \<noteq> []" "undoChain env True t (lst t) xs"
  shows "\<exists>q3. insertActiveTrans env lst t (q, cur) = Some (IDE_SUCCESS, q3, cur(t := lst t)) \<and>
    queueInv env (R(t := xs)) q3 (cur(t := lst t)) \<and>
    uqContents q3 = add_mset (mCurUndoTransCount q) (uqContents q) \<and>
    infoTrans q3 ` set_mset (uqContents q3) = insert t (infoTrans q ` set_mset (uqContents q)) \<and>
    mCurUndoTransCount q3 = mCurUndoTransCount q + 1 \<and> mMaxTransCount q3 = mMaxTransCount q"
proof -
  define i where "i = mCurUndoTransCount q"
  define q1 where "q1 = q\<lparr>mArrUndoTransInfo := (mArrUndoTransInfo q)
      [i := (mArrUndoTransInfo q ! i)\<lparr>mTrans := t\<rparr>]\<rparr>"
  have i: "i < length (mArrUndoTransInfo q)" "i \<notin># uqContents q"
    using q room new by (simp_all add: queueInv_def i_def)
  obtain h where h: "readLog env (lst t) = (IDE_SUCCESS, h, True)" "mLSN h = lst t"
    "getTransCompRes env t = IDE_SUCCESS"
    using undoChain_read [OF c(2,1)] by blast
  have im: "infoTrans q1 ` set_mset (uqContents q) = infoTrans q ` set_mset (uqContents q)"
  proof (rule image_cong [OF refl])
    fix k
    assume "k \<in># uqContents q"
    then have "k \<noteq> i"
      using i(2) by blast
    then show "infoTrans q1 k = infoTrans q k"
      by (simp add: q1_def info_entry)
  qed
  have q1: "queueInv env R q1 cur"
    unfolding q1_def by (intro queueInv_entry q i)
  have "uqContents q1 = uqContents q" "infoTrans q1 i = t"
    "mCurUndoTransCount q1 = i" "mMaxTransCount q1 = mMaxTransCount q" "i < length (mArrUndoTransInfo q1)"
    using i by (simp_all add: q1_def info_entry i_def)
  note q1s = this
  obtain q3 where q3: "enqueueInfo i (setInfo i h True q1) = Some q3"
    "queueInv env (R(t := xs)) (q3\<lparr>mCurUndoTransCount := i + 1\<rparr>) (cur(t := lst t))"
    "uqContents q3 = add_mset i (uqContents q)" "infoTrans q3 = infoTrans q1"
    "mMaxTransCount q3 = mMaxTransCount q"
    using setInfo_enqueue [OF q1, of i t xs "lst t" h] q1s i im new c h room
    by (auto simp: i_def)
  have "insertActiveTrans env lst t (q, cur) =
      Some (IDE_SUCCESS, q3\<lparr>mCurUndoTransCount := i + 1\<rparr>, cur(t := lst t))"
    using room h q3(1) by (simp add: insertActiveTrans_def Let_def q1_def i_def)
  then show ?thesis
    using q3 q1s im by (simp add: i_def)
qed

lemma smrUTransQueue_insert_queueInv:
  assumes r: "running env R i q cur" and c: "xs \<noteq> []" "undoChain env True (infoTrans q i) l xs"
  shows "\<exists>q3. smrUTransQueue_insert env i (q, cur(infoTrans q i := l)) = Some (IDE_SUCCESS, q3) \<and>
    queueInv env (R(infoTrans q i := xs)) q3 (cur(infoTrans q i := l)) \<and>
    uqContents q3 = add_mset i (uqContents q) \<and> infoTrans q3 = infoTrans q"
proof -
  obtain h where h: "readLog env l = (IDE_SUCCESS, h, True)" "mLSN h = l"
    "getTransCompRes env (infoTrans q i) = IDE_SUCCESS"
    using undoChain_read [OF c(2,1)] by blast
  have q: "queueInv env R q cur" and i: "i < length (mArrUndoTransInfo q)" "i \<notin># uqContents q"
    and room: "mCurUndoTransCount q < mMaxTransCount q"
    and t: "infoTrans q i \<notin> infoTrans q ` set_mset (uqContents q)"
    using r by (simp_all add: running_def)
  obtain q3 where q3: "enqueueInfo i (setInfo i h True q) = Some q3"
    "queueInv env (R(infoTrans q i := xs)) (q3\<lparr>mCurUndoTransCount := mCurUndoTransCount q + 1\<rparr>)
       (cur(infoTrans q i := l))"
    "uqContents q3 = add_mset i (uqContents q)" "infoTrans q3 = infoTrans q"
    using setInfo_enqueue [OF q i room refl t c h(2)] by blast
  have "smrUTransQueue_insert env i (q, cur(infoTrans q i := l)) =
      Some (IDE_SUCCESS, q3\<lparr>mCurUndoTransCount := mCurUndoTransCount q + 1\<rparr>)"
    using room h q3(1) enqueueInfo_count
    by (simp add: smrUTransQueue_insert_def Let_def setInfo_count infoTrans_def)
  then show ?thesis
    using q3 by simp
qed

lemma remove_none:
  assumes "queueInv env R q cur" "uqContents q = {#}"
  shows "smrUTransQueue_remove q = Some (None, q)"
  using assms by (simp add: queueInv_def smrUTransQueue_remove_def)

lemma remove_greatest:
  assumes q: "queueInv env R q cur" and ne: "uqContents q \<noteq> {#}"
  shows "\<exists>i q'. smrUTransQueue_remove q = Some (Some i, q') \<and> running env R i q' cur \<and>
    uqContents q = add_mset i (uqContents q') \<and> infoTrans q' = infoTrans q"
proof -
  have ready: "pqReady (pqueueNow q)"
    using q by (simp add: queueInv_def pqReady_pqueueNow)
  obtain i p where p: "dequeue (pqueueNow q) = Some (False, Some i, p)" "pqReady p"
    "uqContents q = add_mset i (pqContents p)"
    "\<forall>y \<in># uqContents q. mComparUser (pqueueNow q) i y \<le> 0"
    "mDataMaxCnt p = mDataMaxCnt (mPQueueTransInfo q)" "mComparUser p = mComparUser (pqueueNow q)"
    using pq_dequeue [OF ready] ne by auto
  define q' where "q' = q\<lparr>mCurUndoTransCount := mCurUndoTransCount q - 1, mPQueueTransInfo := p\<rparr>"
  have n: "mCurUndoTransCount q = Suc (size (pqContents p))"
    using q p(3) by (simp add: queueInv_def)
  have "pqueueNow q' = p"
    using p(6) by (simp add: q'_def pqueueNow_def)
  have one: "count (uqContents q) k = 1" if "k \<in># uqContents q" for k
    using q that by (simp add: queueInv_def)
  then have i: "i \<notin># pqContents p"
    using one [of i] p(3) by (simp add: count_eq_zero_iff [symmetric])
  have inj: "inj_on (infoTrans q) (insert i (set_mset (pqContents p)))"
    using q p(3) by (simp add: queueInv_def)
  have contents: "uqContents q' = pqContents p" "infoTrans q' = infoTrans q" "infoLSN q' = infoLSN q"
    "mArrUndoTransInfo q' = mArrUndoTransInfo q" "mCurUndoTransCount q' = size (pqContents p)"
    "mMaxTransCount q' = mMaxTransCount q" "mPQueueTransInfo q' = p"
    using n by (simp_all add: q'_def)
  have "count (pqContents p) k = 1" if "k \<in># pqContents p" for k
    using one [of k] that i p(3) by (metis count_add_mset union_iff add_mset_add_single)
  then have "queueInv env R q' cur"
    using q p(2,3,5) inj \<open>pqueueNow q' = p\<close> unfolding queueInv_def contents
    by (auto simp: pqReady_def inj_on_insert)
  moreover have "cur (infoTrans q k) \<le> cur (infoTrans q i)" if "k \<in># uqContents q" for k
  proof -
    have "infoLSN q k \<le> infoLSN q i"
      using p(4) that by (simp add: pqueueNow_def compare_le infoLSN_def)
    moreover have "infoLSN q j = cur (infoTrans q j)" if "j \<in># uqContents q" for j
      using q that by (simp add: queueInv_def)
    ultimately show ?thesis
      using that p(3) by simp
  qed
  moreover have "infoTrans q i \<notin> infoTrans q ` set_mset (pqContents p)"
    using inj i by (auto simp: inj_on_insert)
  moreover have "size (pqContents p) < mMaxTransCount q"
    using queueInv_size [OF q] p(3) by simp
  moreover have "i < length (mArrUndoTransInfo q)" "R (infoTrans q i) \<noteq> []" "undoChain env True (infoTrans q i) (cur (infoTrans q i)) (R (infoTrans q i))"
    using q p(3) by (simp_all add: queueInv_def)
  ultimately have "running env R i q' cur"
    using i p(3) unfolding running_def contents by auto
  moreover have "smrUTransQueue_remove q = Some (Some i, q')"
    using p(1) n by (simp add: smrUTransQueue_remove_def q'_def)
  ultimately show ?thesis
    using p(3) contents by (intro exI [of _ i] exI [of _ q']) simp
qed

section \<open>The undo pass\<close>

text \<open>What the pass leaves: the records come in descending order, those of each transaction are
  exactly its chain, and every transaction has reached the end mark.\<close>

definition undone :: "(nat \<Rightarrow> smLSN list) \<Rightarrow> nat set \<Rightarrow> (nat \<times> smLSN) list \<Rightarrow> curLSNs \<Rightarrow> bool" where
  "undone R T trace cur \<longleftrightarrow> sorted_wrt (\<lambda>a b. snd b \<le> snd a) trace \<and> fst ` set trace \<subseteq> T \<and>
     (\<forall>t \<in> T. map snd (filter (\<lambda>a. fst a = t) trace) = R t \<and> cur t = SM_LSN_MAX)"

lemma undone_Cons:
  assumes u: "undone (R(t := xs)) T trace cur" and t: "t \<in> T" "R t = l # xs"
    and le: "\<forall>a \<in> set trace. snd a \<le> l"
  shows "undone R T ((t, l) # trace) cur"
  using assms by (auto simp: undone_def)

lemma undone_last:
  assumes u: "undone (R(t := xs)) T trace cur" and t: "t \<notin> T" "R t = [l]" "cur t = SM_LSN_MAX"
    and le: "\<forall>a \<in> set trace. snd a \<le> l"
  shows "undone R (insert t T) ((t, l) # trace) cur"
proof -
  have "filter (\<lambda>a. fst a = t) trace = []"
    using u t(1) by (auto simp: undone_def filter_empty_conv)
  moreover have "map snd (filter (\<lambda>a. fst a = t') trace) = R t' \<and> cur t' = SM_LSN_MAX"
    if "t' \<in> T" for t'
    using u t(1) that by (auto simp: undone_def)
  ultimately show ?thesis
    using assms by (auto simp: undone_def)
qed

text \<open>The transactions that are in the queue or being undone, and the number of records left.\<close>

definition todo :: "(nat \<Rightarrow> smLSN list) \<Rightarrow> smrUTransQueue \<Rightarrow> nat" where
  "todo R q = (\<Sum>k \<in># uqContents q. length (R (infoTrans q k)))"

lemma todo_add:
  "uqContents q = add_mset i (uqContents q') \<Longrightarrow> infoTrans q' = infoTrans q \<Longrightarrow>
     todo R q = length (R (infoTrans q i)) + todo R q'"
  by (simp add: todo_def)

lemma todo_other:
  assumes "t \<notin> infoTrans q ` set_mset (uqContents q)"
  shows "todo (R(t := xs)) q = todo R q"
proof -
  have "image_mset (\<lambda>k. length ((R(t := xs)) (infoTrans q k))) (uqContents q) =
      image_mset (\<lambda>k. length (R (infoTrans q k))) (uqContents q)"
    by (rule image_mset_cong) (use assms in auto)
  then show ?thesis
    by (simp only: todo_def)
qed

text \<open>One round of the loop: undo the record, put the transaction back unless it is finished,
  take out the next.\<close>

lemma running_round:
  assumes r: "running env R i q cur" and l: "R (infoTrans q i) = l # xs"
  obtains rc prev q1 where "undo env (infoTrans q i) cur = (rc, cur(infoTrans q i := prev))"
    "rc = IDE_SUCCESS \<or> startupFailure env (infoTrans q i) = IDE_SUCCESS" "l = cur (infoTrans q i)"
    "if prev = SM_LSN_MAX then xs = [] \<and> q1 = q
     else xs \<noteq> [] \<and> prev < l \<and>
       smrUTransQueue_insert env i (q, cur(infoTrans q i := prev)) = Some (IDE_SUCCESS, q1) \<and>
       uqContents q1 = add_mset i (uqContents q)"
    "queueInv env (R(infoTrans q i := xs)) q1 (cur(infoTrans q i := prev))"
    "infoTrans q1 = infoTrans q"
proof -
  define t where "t = infoTrans q i"
  have c: "undoChain env True t (cur t) (l # xs)"
    using r l by (simp add: running_def t_def)
  obtain rc prev where u: "undo env t cur = (rc, cur(t := prev))"
    "rc = IDE_SUCCESS \<or> startupFailure env t = IDE_SUCCESS"
    "prev < cur t \<or> prev = SM_LSN_MAX" "undoChain env True t prev xs"
    using undo_step [where cur = cur, OF c] by auto
  have xs: "xs = [] \<longleftrightarrow> prev = SM_LSN_MAX"
    using undoChain_Nil [OF u(4)] .
  show ?thesis
  proof (cases "prev = SM_LSN_MAX")
    case True
    have "queueInv env (R(t := xs)) q (cur(t := prev))"
      by (intro queueInv_other) (use r in \<open>simp_all add: running_def t_def\<close>)
    then show ?thesis
      using u undoChain_hd [OF c] xs True unfolding t_def by (intro that [of rc prev q]) simp_all
  next
    case False
    then obtain q1 where "smrUTransQueue_insert env i (q, cur(t := prev)) = Some (IDE_SUCCESS, q1)"
      "queueInv env (R(t := xs)) q1 (cur(t := prev))" "uqContents q1 = add_mset i (uqContents q)"
      "infoTrans q1 = infoTrans q"
      using smrUTransQueue_insert_queueInv [OF r, of xs prev] u(4) xs unfolding t_def by blast
    then show ?thesis
      using u undoChain_hd [OF c] xs False unfolding t_def by (intro that [of rc prev q1]) simp_all
  qed
qed

lemma undoAll_loop_unfold:
  assumes "undo env (infoTrans q i) cur = (rc, cur1)"
    and "rc = IDE_SUCCESS \<or> startupFailure env (infoTrans q i) = IDE_SUCCESS"
    and "if cur1 (infoTrans q i) = SM_LSN_MAX then q1 = q
         else smrUTransQueue_insert env i (q, cur1) = Some (IDE_SUCCESS, q1)"
    and "smrUTransQueue_remove q1 = Some (x, q2)"
  shows "undoAll_loop env i (q, cur) =
    (case x of
       None \<Rightarrow> Some (IDE_SUCCESS, [(infoTrans q i, cur (infoTrans q i))], cur1)
     | Some i' \<Rightarrow> do {
         (rc2, trace, cur2) \<leftarrow> undoAll_loop env i' (q2, cur1);
         Some (rc2, (infoTrans q i, cur (infoTrans q i)) # trace, cur2)
       })"
proof -
  have m: "mFileNo l = 0xFFFFFFFF \<and> mOffset l = 0xFFFFFFFF \<longleftrightarrow> l = SM_LSN_MAX" for l
    using SM_IS_LSN_MAX_iff [of l] by (simp only: SM_IS_LSN_MAX_def)
  have ok: "\<not> (rc = IDE_FAILURE \<and> startupFailure env (infoTrans q i) = IDE_FAILURE)"
    using assms(2) by auto
  show ?thesis
    using assms(1,3,4) ok unfolding infoTrans_def
    by (subst undoAll_loop.simps) (auto simp: m split: if_splits)
qed

lemma undoAll_loop_undone:
  assumes "running env R i q cur"
  shows "\<exists>trace cur'. undoAll_loop env i (q, cur) = Some (IDE_SUCCESS, trace, cur') \<and>
    undone R (infoTrans q ` insert i (set_mset (uqContents q))) trace cur' \<and>
    (\<forall>a \<in> set trace. snd a \<le> cur (infoTrans q i)) \<and>
    (\<forall>t. t \<notin> infoTrans q ` insert i (set_mset (uqContents q)) \<longrightarrow> cur' t = cur t)"
  using assms
proof (induction "length (R (infoTrans q i)) + todo R q" arbitrary: R i q cur rule: less_induct)
  case less
  note r = less.prems
  define t where "t = infoTrans q i"
  obtain l xs where l: "R t = l # xs"
    using r by (auto simp: running_def t_def neq_Nil_conv)
  obtain rc prev q1 where u: "undo env t cur = (rc, cur(t := prev))"
    "rc = IDE_SUCCESS \<or> startupFailure env t = IDE_SUCCESS" "l = cur t"
    "if prev = SM_LSN_MAX then xs = [] \<and> q1 = q
     else xs \<noteq> [] \<and> prev < l \<and>
       smrUTransQueue_insert env i (q, cur(t := prev)) = Some (IDE_SUCCESS, q1) \<and>
       uqContents q1 = add_mset i (uqContents q)"
    "queueInv env (R(t := xs)) q1 (cur(t := prev))" "infoTrans q1 = infoTrans q"
    using running_round [OF r l [unfolded t_def]] unfolding t_def by blast
  define cur1 where "cur1 = cur(t := prev)"
  have below: "cur (infoTrans q k) \<le> l" if "k \<in># uqContents q" for k
    using r u(3) that by (simp add: running_def t_def)
  have new: "t \<notin> infoTrans q ` set_mset (uqContents q)"
    using r by (simp add: running_def t_def)
  have q1: "if cur1 (infoTrans q i) = SM_LSN_MAX then q1 = q
      else smrUTransQueue_insert env i (q, cur1) = Some (IDE_SUCCESS, q1)"
    using u(4) by (simp add: cur1_def t_def [symmetric] split: if_splits)
  have un: "undo env (infoTrans q i) cur = (rc, cur1)"
    "rc = IDE_SUCCESS \<or> startupFailure env (infoTrans q i) = IDE_SUCCESS"
    using u(1,2) by (simp_all add: cur1_def t_def)
  note unfold = undoAll_loop_unfold [OF un q1]
  show ?case
  proof (cases "uqContents q1 = {#}")
    case True
    then have "prev = SM_LSN_MAX" "xs = []" "uqContents q = {#}"
      using u(4) by (auto split: if_splits)
    moreover have "undoAll_loop env i (q, cur) = Some (IDE_SUCCESS, [(t, l)], cur1)"
      using unfold [OF remove_none [OF u(5) True, folded cur1_def]] u(3) by (simp add: t_def)
    ultimately show ?thesis
      using l u(3) by (auto simp: undone_def cur1_def t_def)
  next
    case False
    then obtain j q2 where j: "smrUTransQueue_remove q1 = Some (Some j, q2)"
      "running env (R(t := xs)) j q2 cur1" "uqContents q1 = add_mset j (uqContents q2)"
      "infoTrans q2 = infoTrans q1"
      using remove_greatest [OF u(5)] unfolding cur1_def by blast
    have T: "infoTrans q2 = infoTrans q"
      using j(4) u(6) by simp
    have "length ((R(t := xs)) (infoTrans q2 j)) + todo (R(t := xs)) q2 = todo (R(t := xs)) q1"
      using todo_add [OF j(3,4), of "R(t := xs)"] j(4) by simp
    also have "\<dots> < length (R t) + todo R q"
      using u(4) todo_other [OF new, of R xs] todo_add [of q1 i q "R(t := xs)"] u(6) l
      by (auto simp: t_def split: if_splits)
    finally obtain trace cur' where ih: "undoAll_loop env j (q2, cur1) = Some (IDE_SUCCESS, trace, cur')"
      "undone (R(t := xs)) (infoTrans q ` set_mset (uqContents q1)) trace cur'"
      "\<forall>a \<in> set trace. snd a \<le> cur1 (infoTrans q j)"
      "\<forall>t'. t' \<notin> infoTrans q ` set_mset (uqContents q1) \<longrightarrow> cur' t' = cur1 t'"
      using less.hyps [OF _ j(2)] unfolding t_def T j(3) set_mset_add_mset_insert by blast
    have run: "undoAll_loop env i (q, cur) = Some (IDE_SUCCESS, (t, l) # trace, cur')"
      using unfold [OF j(1)] ih(1) u(3) by (simp add: t_def)
    have "cur1 (infoTrans q j) \<le> l"
    proof (cases "infoTrans q j = t")
      case True
      then have "j \<notin># uqContents q"
        using new by blast
      then have "prev \<noteq> SM_LSN_MAX"
        using u(4) j(3) by auto
      then show ?thesis
        using u(4) True by (simp add: cur1_def less_imp_le)
    next
      case False
      moreover have "j \<in># uqContents q1"
        using j(3) by simp
      ultimately have "j \<in># uqContents q"
        using u(4) by (auto simp: t_def split: if_splits)
      then show ?thesis
        using below False by (simp add: cur1_def)
    qed
    then have le: "\<forall>a \<in> set trace. snd a \<le> l"
      using ih(3) by (meson order_trans)
    have "undone R (insert t (infoTrans q ` set_mset (uqContents q))) ((t, l) # trace) cur'"
    proof (cases "prev = SM_LSN_MAX")
      case True
      then have "xs = []" "q1 = q"
        using u(4) by auto
      then show ?thesis
        using undone_last [OF ih(2) _ _ _ le] new l ih(4) True by (simp add: cur1_def)
    next
      case False
      then have "set_mset (uqContents q1) = insert i (set_mset (uqContents q))"
        using u(4) by simp
      then show ?thesis
        using undone_Cons [OF ih(2) _ l le] by (simp add: t_def)
    qed
    moreover have "cur' t' = cur t'" if "t' \<notin> insert t (infoTrans q ` set_mset (uqContents q))" for t'
      using ih(4) that u(4) by (auto simp: cur1_def t_def split: if_splits)
    ultimately show ?thesis
      using run le u(3) unfolding t_def by auto
  qed
qed

lemma insertUndoLSNs_queueInv:
  assumes "queueInv env R q cur" "set_mset (uqContents q) = {..<mCurUndoTransCount q}"
    and "distinct ts" "infoTrans q ` set_mset (uqContents q) \<inter> set ts = {}"
    and "mCurUndoTransCount q + length ts \<le> mMaxTransCount q"
    and "\<And>t. t \<in> set ts \<Longrightarrow> R t \<noteq> [] \<and> undoChain env True t (lst t) (R t)"
  shows "\<exists>q' cur'. insertUndoLSNs env lst ts (q, cur) = Some (IDE_SUCCESS, q', cur') \<and>
    queueInv env R q' cur' \<and>
    infoTrans q' ` set_mset (uqContents q') = infoTrans q ` set_mset (uqContents q) \<union> set ts"
  using assms
proof (induction ts arbitrary: q cur)
  case Nil
  then show ?case
    by simp
next
  case (Cons t ts)
  have "mCurUndoTransCount q \<notin># uqContents q" "t \<notin> infoTrans q ` set_mset (uqContents q)"
    "mCurUndoTransCount q < mMaxTransCount q"
    using Cons.prems(2,4,5) by auto
  then obtain q1 where q1: "insertActiveTrans env lst t (q, cur) = Some (IDE_SUCCESS, q1, cur(t := lst t))"
    "queueInv env (R(t := R t)) q1 (cur(t := lst t))"
    "uqContents q1 = add_mset (mCurUndoTransCount q) (uqContents q)"
    "infoTrans q1 ` set_mset (uqContents q1) = insert t (infoTrans q ` set_mset (uqContents q))"
    "mCurUndoTransCount q1 = mCurUndoTransCount q + 1" "mMaxTransCount q1 = mMaxTransCount q"
    using insertActiveTrans_queueInv [OF Cons.prems(1), of t "R t" lst] Cons.prems(6) by auto
  have "set_mset (uqContents q1) = {..<mCurUndoTransCount q1}"
    using q1(3,5) Cons.prems(2) by (simp add: lessThan_Suc)
  moreover have "infoTrans q1 ` set_mset (uqContents q1) \<inter> set ts = {}"
    unfolding q1(4) using Cons.prems(3,4) by auto
  moreover have "mCurUndoTransCount q1 + length ts \<le> mMaxTransCount q1" "distinct ts"
    using Cons.prems(3,5) q1(5,6) by simp_all
  moreover have "queueInv env R q1 (cur(t := lst t))"
    using q1(2) by simp
  ultimately obtain q' cur' where "insertUndoLSNs env lst ts (q1, cur(t := lst t)) =
      Some (IDE_SUCCESS, q', cur')" "queueInv env R q' cur'"
    "infoTrans q' ` set_mset (uqContents q') = infoTrans q1 ` set_mset (uqContents q1) \<union> set ts"
    using Cons.IH Cons.prems(6) by (meson list.set_intros(2))
  then show ?case
    using q1(1) unfolding q1(4) by simp
qed

lemma initialize_queueInv:
  assumes "length heapMem = n" "length infoMem = n" "n < 2 ^ 31"
  shows "\<exists>q0. smrUTransQueue_initialize (Some heapMem) (Some infoMem) n = (IDE_SUCCESS, Some q0) \<and>
    queueInv env R q0 cur \<and> uqContents q0 = {#} \<and> mCurUndoTransCount q0 = 0 \<and> mMaxTransCount q0 = n"
  using assms
  by (simp add: smrUTransQueue_initialize_def iduHeap_initialize_def queueInv_def pqueueNow_def
      pqOk_def heapFrom_def uqContents_def pqContents_def)

subsection \<open>Properties\<close>

text \<open>C29: The undo pass of restart recovery returns, and undoes the records of all active
  transactions in one descending sequence of LSNs: for each transaction exactly the records of its
  chain, in the order of the chain, until all of them have reached the end mark.  A record whose
  undo fails is passed over when \<open>startupFailure\<close> tolerates it.\<close>

theorem undoAll_descending:
  assumes mem: "length heapMem = length ts" "length infoMem = length ts" "length ts < 2 ^ 31"
    and ts: "ts \<noteq> []" "distinct ts"
    and chains: "\<And>t. t \<in> set ts \<Longrightarrow> R t \<noteq> [] \<and> undoChain env True t (lst t) (R t)"
    and calls: "abortAllActiveTrans env = IDE_SUCCESS" "closeLogFile env = IDE_SUCCESS"
      "setRowSCNForInDoubtTrans env = IDE_SUCCESS"
  shows "\<exists>trace cur'. undoAll env (Some heapMem) (Some infoMem) ts lst cur =
      Some (IDE_SUCCESS, trace, cur') \<and> sorted_wrt (\<lambda>a b. snd a \<ge> snd b) trace \<and>
    fst ` set trace \<subseteq> set ts \<and>
    (\<forall>t \<in> set ts. map snd (filter (\<lambda>a. fst a = t) trace) = R t \<and> cur' t = SM_LSN_MAX)"
proof -
  obtain q0 where q0: "smrUTransQueue_initialize (Some heapMem) (Some infoMem) (length ts) =
      (IDE_SUCCESS, Some q0)" "queueInv env R q0 cur" "uqContents q0 = {#}"
    "mCurUndoTransCount q0 = 0" "mMaxTransCount q0 = length ts"
    using initialize_queueInv [OF mem] by blast
  obtain q1 cur1 where q1: "insertUndoLSNs env lst ts (q0, cur) = Some (IDE_SUCCESS, q1, cur1)"
    "queueInv env R q1 cur1" "infoTrans q1 ` set_mset (uqContents q1) = set ts"
    using insertUndoLSNs_queueInv [OF q0(2) _ ts(2) _ _ chains] q0(3-) by auto
  then have "uqContents q1 \<noteq> {#}"
    using ts(1) by auto
  from remove_greatest [OF q1(2) this] obtain i q2 where
    q2: "smrUTransQueue_remove q1 = Some (Some i, q2)" "running env R i q2 cur1"
    "uqContents q1 = add_mset i (uqContents q2)" "infoTrans q2 = infoTrans q1"
    by blast
  have "infoTrans q2 ` insert i (set_mset (uqContents q2)) = set ts"
    using q1(3) q2(3,4) by simp
  then obtain trace cur' where "undoAll_loop env i (q2, cur1) = Some (IDE_SUCCESS, trace, cur')"
    "undone R (set ts) trace cur'"
    using undoAll_loop_undone [OF q2(2)] by auto
  then show ?thesis
    using q0(1) q1(1) q2(1) ts(1) calls by (simp add: undoAll_def undone_def)
qed

text \<open>Two transactions with interleaved records.\<close>

definition sampleEnv :: smrEnv where
  "sampleEnv = \<lparr>readLog = (\<lambda>l. (IDE_SUCCESS, \<lparr>mLSN = l, mPrevUndoLSN =
       (if mOffset l > 20 then LSN (mFileNo l) (mOffset l - 20) else SM_LSN_MAX)\<rparr>, True)),
     getTransCompRes = (\<lambda>t. IDE_SUCCESS),
     undoByType = (\<lambda>t h. (IDE_SUCCESS, mPrevUndoLSN h)),
     startupFailure = (\<lambda>t. IDE_SUCCESS), abortAllActiveTrans = IDE_SUCCESS,
     closeLogFile = IDE_SUCCESS, setRowSCNForInDoubtTrans = IDE_SUCCESS\<rparr>"

lemma sample_chain:
  "undoChain sampleEnv tol 7 (LSN 1 50) [LSN 1 50, LSN 1 30, LSN 1 10]"
  "undoChain sampleEnv tol 8 (LSN 1 40) [LSN 1 40, LSN 1 20]"
  by (simp_all add: sampleEnv_def SM_LSN_MAX_def lsn_less_iff)

theorem undoAll_descending_witness:
  "\<exists>trace cur'. undoAll sampleEnv (Some [0, 0])
      (Some (replicate 2 \<lparr>mTrans = 0, mLogHead = \<lparr>mLSN = LSN 0 0, mPrevUndoLSN = LSN 0 0\<rparr>, mIsValid = False\<rparr>))
      [7, 8] (\<lambda>t. if t = 7 then LSN 1 50 else LSN 1 40) (\<lambda>_. LSN 0 0) = Some (IDE_SUCCESS, trace, cur') \<and>
    sorted_wrt (\<lambda>a b. snd a \<ge> snd b) trace \<and> fst ` set trace \<subseteq> set [7, 8] \<and>
    (\<forall>t \<in> set [7, 8]. map snd (filter (\<lambda>a. fst a = t) trace) =
       (if t = 7 then [LSN 1 50, LSN 1 30, LSN 1 10] else [LSN 1 40, LSN 1 20]) \<and> cur' t = SM_LSN_MAX)"
proof (rule undoAll_descending)
  fix t :: nat
  assume "t \<in> set [7, 8]"
  then show "(if t = 7 then [LSN 1 50, LSN 1 30, LSN 1 10] else [LSN 1 40, LSN 1 20]) \<noteq> [] \<and>
      undoChain sampleEnv True t (if t = 7 then LSN 1 50 else LSN 1 40)
        (if t = 7 then [LSN 1 50, LSN 1 30, LSN 1 10] else [LSN 1 40, LSN 1 20])"
    using sample_chain by auto
qed (simp_all add: sampleEnv_def)

text \<open>C30: Rolling one transaction back to an LSN of its chain (or completely, for the end mark)
  undoes exactly the later records of the chain, newest first, and leaves the transaction at that
  LSN; other transactions are not touched.\<close>

theorem undoTrans_to_savepoint:
  assumes c: "undoChain env False t (lst t) xs"
    and proper: "\<And>x. x \<in> set xs \<Longrightarrow> mFileNo x \<noteq> 0xFFFFFFFF \<and> mOffset x \<noteq> 0xFFFFFFFF"
    and target: "aLSN = SM_LSN_MAX \<or> aLSN \<in> set xs" and close: "closeLogFile env = IDE_SUCCESS"
  shows "\<exists>cur'. undoTrans env t aLSN lst cur =
      Some (IDE_SUCCESS, takeWhile (\<lambda>x. x \<noteq> aLSN) xs, cur') \<and>
    cur' t = aLSN \<and> (\<forall>u. u \<noteq> t \<longrightarrow> cur' u = cur u)"
proof -
  have "\<exists>cur'. undoTrans_loop env t aLSN c0 = Some (IDE_SUCCESS, takeWhile (\<lambda>x. x \<noteq> aLSN) xs, cur') \<and>
      cur' t = aLSN \<and> (\<forall>u. u \<noteq> t \<longrightarrow> cur' u = c0 u)"
    if "undoChain env False t (c0 t) xs" for c0
    using that proper target
  proof (induction xs arbitrary: c0)
    case Nil
    then show ?case
      by (subst undoTrans_loop.simps) (auto simp: SM_LSN_MAX_def)
  next
    case (Cons x xs)
    have x: "x = c0 t" "c0 t \<noteq> SM_LSN_MAX"
      using Cons.prems(1) by auto
    show ?case
    proof (cases "aLSN = x")
      case True
      then show ?thesis
        using x by (subst undoTrans_loop.simps) auto
    next
      case False
      then have a: "aLSN = SM_LSN_MAX \<or> aLSN \<in> set xs"
        using Cons.prems(3) by auto
      have "aLSN < c0 t" if "aLSN \<noteq> SM_LSN_MAX"
        using undoChain_sorted [OF Cons.prems(1)] a that x(1) by auto
      then have go: "\<not> (\<not> SM_IS_LSN_MAX aLSN \<and> mFileNo aLSN \<ge> mFileNo (c0 t) \<and>
          mOffset aLSN \<ge> mOffset (c0 t))"
        by (auto simp: lsn_less_iff)
      obtain prev where u: "undo env t c0 = (IDE_SUCCESS, c0(t := prev))" "undoChain env False t prev xs"
        using undo_step [where cur = c0, OF Cons.prems(1)] by auto
      have "\<exists>cur'. undoTrans_loop env t aLSN (c0(t := prev)) =
          Some (IDE_SUCCESS, takeWhile (\<lambda>x. x \<noteq> aLSN) xs, cur') \<and>
          cur' t = aLSN \<and> (\<forall>u. u \<noteq> t \<longrightarrow> cur' u = (c0(t := prev)) u)"
        by (rule Cons.IH) (use u Cons.prems(2) a in auto)
      then show ?thesis
        using go u(1) False x Cons.prems(2) [of x] by (subst undoTrans_loop.simps) auto
    qed
  qed
  from this [of "cur(t := lst t)"] show ?thesis
    using c close by (auto simp: undoTrans_def)
qed

theorem undoTrans_to_savepoint_witness:
  "\<exists>cur'. undoTrans sampleEnv 7 (LSN 1 30) (\<lambda>_. LSN 1 50) (\<lambda>_. LSN 0 0) =
      Some (IDE_SUCCESS, takeWhile (\<lambda>x. x \<noteq> LSN 1 30) [LSN 1 50, LSN 1 30, LSN 1 10], cur') \<and>
    cur' 7 = LSN 1 30 \<and> (\<forall>u. u \<noteq> 7 \<longrightarrow> cur' u = LSN 0 0)"
  by (rule undoTrans_to_savepoint) (use sample_chain in \<open>auto simp: sampleEnv_def\<close>)

text \<open>The stop test compares file number and offset separately.  For an LSN that is not on the
  chain it can miss the place: here the target lies between the two records of the chain, and the
  record before it is undone as well.\<close>

definition crossFileEnv :: smrEnv where
  "crossFileEnv = sampleEnv\<lparr>undoByType :=
     (\<lambda>t h. (IDE_SUCCESS, if mLSN h = LSN 5 10 then LSN 4 50 else SM_LSN_MAX))\<rparr>"

lemma undoTrans_passes_target:
  "\<exists>cur'. undoTrans crossFileEnv 1 (LSN 5 5) (\<lambda>_. LSN 5 10) (\<lambda>_. LSN 0 0) =
     Some (IDE_SUCCESS, [LSN 5 10, LSN 4 50], cur')"
  by (simp add: undoTrans_def undoTrans_loop.simps undo_def crossFileEnv_def sampleEnv_def
      SM_LSN_MAX_def)

end
