(* ===== verification/IntegerFunctions.thy ===== *)
theory IntegerFunctions
  imports CInt
begin

text \<open>
  The arithmetic of \<open>INTEGER\<close>, \<open>SMALLINT\<close> and \<open>BIGINT\<close> values in SQL: addition and subtraction
  (\<open>src/src/mt/mtf/mtfAdd2.cpp\<close>, \<open>mtfSubtract2.cpp\<close>), \<open>MOD\<close> (\<open>mtfMod.cpp\<close>), negation
  (\<open>mtfMinus.cpp\<close>), \<open>ABS\<close> (\<open>mtfAbs.cpp\<close>) and \<open>SIGN\<close> (\<open>mtfSign.cpp\<close>).  A value is a machine word
  whose least number is the null.  An \<open>Inl\<close> result is the error the function raises.  The
  arguments are the values that \<open>mtf::postfixCalculate\<close> leaves on the stack.
\<close>

datatype mtError = ERR_OVERFLOW | ERR_DIVIDE_BY_ZERO

type_synonym mtdSmallintType = "16 word"
type_synonym mtdBigintType = "64 word"

definition MTD_INTEGER_NULL :: "32 word" where "MTD_INTEGER_NULL = 0x80000000"
definition MTD_INTEGER_MAXIMUM :: "32 word" where "MTD_INTEGER_MAXIMUM = 0x7FFFFFFF"
definition MTD_INTEGER_MINIMUM :: "32 word" where "MTD_INTEGER_MINIMUM = 0x80000001"
definition MTD_SMALLINT_NULL :: mtdSmallintType where "MTD_SMALLINT_NULL = 0x8000"
definition MTD_BIGINT_NULL :: mtdBigintType where "MTD_BIGINT_NULL = 0x8000000000000000"
definition MTD_BIGINT_MAXIMUM :: mtdBigintType where "MTD_BIGINT_MAXIMUM = 0x7FFFFFFFFFFFFFFF"
definition MTD_BIGINT_MINIMUM :: mtdBigintType where "MTD_BIGINT_MINIMUM = 0x8000000000000001"

section \<open>Addition and subtraction\<close>

definition mtfAdd2CalculateInteger :: "32 word \<Rightarrow> 32 word \<Rightarrow> mtError + 32 word" where
  "mtfAdd2CalculateInteger v1 v2 =
     (if v1 = MTD_INTEGER_NULL \<or> v2 = MTD_INTEGER_NULL then Inr MTD_INTEGER_NULL
      else let sValue1 = sint v1; sValue2 = sint v2; sValue3 = toSLong (sValue1 + sValue2) in
        if sValue3 > sint MTD_INTEGER_MAXIMUM then Inl ERR_OVERFLOW
        else if sValue3 < sint MTD_INTEGER_MINIMUM then Inl ERR_OVERFLOW
        else Inr (word_of_int sValue3))"

definition mtfSubtract2CalculateInteger :: "32 word \<Rightarrow> 32 word \<Rightarrow> mtError + 32 word" where
  "mtfSubtract2CalculateInteger v1 v2 =
     (if v1 = MTD_INTEGER_NULL \<or> v2 = MTD_INTEGER_NULL then Inr MTD_INTEGER_NULL
      else let sValue1 = sint v1; sValue2 = sint v2; sValue3 = toSLong (sValue1 - sValue2) in
        if sValue3 > sint MTD_INTEGER_MAXIMUM then Inl ERR_OVERFLOW
        else if sValue3 < sint MTD_INTEGER_MINIMUM then Inl ERR_OVERFLOW
        else Inr (word_of_int sValue3))"

text \<open>There is no wider type for \<open>BIGINT\<close>: the overflow is tested before adding.\<close>

definition mtfAdd2CalculateBigint ::
  "mtdBigintType \<Rightarrow> mtdBigintType \<Rightarrow> mtError + mtdBigintType" where
  "mtfAdd2CalculateBigint v1 v2 =
     (if v1 = MTD_BIGINT_NULL \<or> v2 = MTD_BIGINT_NULL then Inr MTD_BIGINT_NULL
      else let sValue1 = sint v1; sValue2 = sint v2 in
        if sValue1 > 0 \<and> sValue2 > 0 then
          if toSLong (sint MTD_BIGINT_MAXIMUM - sValue1) < sValue2 then Inl ERR_OVERFLOW
          else Inr (v1 + v2)
        else if sValue1 < 0 \<and> sValue2 < 0 then
          if toSLong (sint MTD_BIGINT_MINIMUM - sValue1) > sValue2 then Inl ERR_OVERFLOW
          else Inr (v1 + v2)
        else Inr (v1 + v2))"

definition mtfSubtract2CalculateBigint ::
  "mtdBigintType \<Rightarrow> mtdBigintType \<Rightarrow> mtError + mtdBigintType" where
  "mtfSubtract2CalculateBigint v1 v2 =
     (if v1 = MTD_BIGINT_NULL \<or> v2 = MTD_BIGINT_NULL then Inr MTD_BIGINT_NULL
      else let sValue1 = sint v1; sValue2 = sint v2 in
        if sValue1 > 0 \<and> sValue2 < 0 then
          if toSLong (sint MTD_BIGINT_MAXIMUM + sValue2) < sValue1 then Inl ERR_OVERFLOW
          else Inr (v1 - v2)
        else if sValue1 < 0 \<and> sValue2 > 0 then
          if toSLong (sint MTD_BIGINT_MINIMUM + sValue2) > sValue1 then Inl ERR_OVERFLOW
          else Inr (v1 - v2)
        else Inr (v1 - v2))"

section \<open>\<open>MOD\<close>\<close>

definition mtfModCalculateInteger :: "32 word \<Rightarrow> 32 word \<Rightarrow> mtError + 32 word" where
  "mtfModCalculateInteger v1 v2 =
     (if v1 = MTD_INTEGER_NULL \<or> v2 = MTD_INTEGER_NULL then Inr MTD_INTEGER_NULL
      else if v2 = 0 then Inl ERR_DIVIDE_BY_ZERO
      else Inr (word_of_int (sint v1 smod sint v2)))"

definition mtfModCalculateSmallint ::
  "mtdSmallintType \<Rightarrow> mtdSmallintType \<Rightarrow> mtError + mtdSmallintType" where
  "mtfModCalculateSmallint v1 v2 =
     (if v1 = MTD_SMALLINT_NULL \<or> v2 = MTD_SMALLINT_NULL then Inr MTD_SMALLINT_NULL
      else if v2 = 0 then Inl ERR_DIVIDE_BY_ZERO
      else Inr (word_of_int (sint v1 smod sint v2)))"

definition mtfModCalculateBigint ::
  "mtdBigintType \<Rightarrow> mtdBigintType \<Rightarrow> mtError + mtdBigintType" where
  "mtfModCalculateBigint v1 v2 =
     (if v1 = MTD_BIGINT_NULL \<or> v2 = MTD_BIGINT_NULL then Inr MTD_BIGINT_NULL
      else if v2 = 0 then Inl ERR_DIVIDE_BY_ZERO
      else Inr (word_of_int (sint v1 smod sint v2)))"

section \<open>Functions of one value\<close>

definition mtfMinusCalculateInteger :: "32 word \<Rightarrow> 32 word" where
  "mtfMinusCalculateInteger v =
     (if v = MTD_INTEGER_NULL then MTD_INTEGER_NULL else word_of_int (- sint v))"

definition mtfMinusCalculateSmallint :: "mtdSmallintType \<Rightarrow> mtdSmallintType" where
  "mtfMinusCalculateSmallint v =
     (if v = MTD_SMALLINT_NULL then MTD_SMALLINT_NULL else word_of_int (- sint v))"

definition mtfMinusCalculateBigint :: "mtdBigintType \<Rightarrow> mtdBigintType" where
  "mtfMinusCalculateBigint v =
     (if v = MTD_BIGINT_NULL then MTD_BIGINT_NULL else word_of_int (- sint v))"

definition mtfAbsCalculateInteger :: "32 word \<Rightarrow> 32 word" where
  "mtfAbsCalculateInteger v =
     (if v = MTD_INTEGER_NULL then MTD_INTEGER_NULL
      else if sint v \<ge> 0 then v else word_of_int (- sint v))"

definition mtfAbsCalculateSmallint :: "mtdSmallintType \<Rightarrow> mtdSmallintType" where
  "mtfAbsCalculateSmallint v =
     (if v = MTD_SMALLINT_NULL then MTD_SMALLINT_NULL
      else if sint v \<ge> 0 then v else word_of_int (- sint v))"

definition mtfAbsCalculateBigint :: "mtdBigintType \<Rightarrow> mtdBigintType" where
  "mtfAbsCalculateBigint v =
     (if v = MTD_BIGINT_NULL then MTD_BIGINT_NULL
      else if sint v \<ge> 0 then v else word_of_int (- sint v))"

definition mtfSignCalculateInteger :: "32 word \<Rightarrow> 32 word" where
  "mtfSignCalculateInteger v =
     (if v = MTD_INTEGER_NULL then MTD_INTEGER_NULL
      else if sint v > 0 then 1 else if sint v < 0 then -1 else 0)"

definition mtfSignCalculateSmallint :: "mtdSmallintType \<Rightarrow> mtdSmallintType" where
  "mtfSignCalculateSmallint v =
     (if v = MTD_SMALLINT_NULL then MTD_SMALLINT_NULL
      else if sint v > 0 then 1 else if sint v < 0 then -1 else 0)"

definition mtfSignCalculateBigint :: "mtdBigintType \<Rightarrow> mtdBigintType" where
  "mtfSignCalculateBigint v =
     (if v = MTD_BIGINT_NULL then MTD_BIGINT_NULL
      else if sint v > 0 then 1 else if sint v < 0 then -1 else 0)"

section \<open>Nullable numbers\<close>

text \<open>The number a word stands for, and what a result with a number has to be: the number
  itself, or an overflow.\<close>

definition nullWord :: "'a::len word" where
  "nullWord = word_of_int (- (2 ^ (LENGTH('a) - 1)))"

definition valueOf :: "'a::len word \<Rightarrow> int option" where
  "valueOf w = (if w = nullWord then None else Some (sint w))"

definition checked :: "int \<Rightarrow> mtError + 'a::len word" where
  "checked x = (if \<bar>x\<bar> < 2 ^ (LENGTH('a) - 1) then Inr (word_of_int x) else Inl ERR_OVERFLOW)"

definition nullable ::
  "(int \<Rightarrow> int \<Rightarrow> mtError + 'a::len word) \<Rightarrow> 'a word \<Rightarrow> 'a word \<Rightarrow> mtError + 'a word" where
  "nullable f v1 v2 = (case (valueOf v1, valueOf v2) of
     (Some a, Some b) \<Rightarrow> f a b | _ \<Rightarrow> Inr nullWord)"

lemma sint_word_of_int_id:
  assumes "- (2 ^ (LENGTH('a) - 1)) \<le> x" "x < 2 ^ (LENGTH('a) - 1)"
  shows "sint (word_of_int x :: 'a::len word) = x"
  using assms by (simp add: sint_sbintrunc' signed_take_bit_int_eq_self)

lemma sint_nullWord [simp]: "sint (nullWord :: 'a::len word) = - (2 ^ (LENGTH('a) - 1))"
  unfolding nullWord_def by (rule sint_word_of_int_id) simp_all

lemma valueOf_SomeD: "valueOf (w :: 'a::len word) = Some x \<Longrightarrow> sint w = x \<and> \<bar>x\<bar> < 2 ^ (LENGTH('a) - 1)"
proof -
  assume v: "valueOf w = Some x"
  then have "sint w = x" "w \<noteq> nullWord"
    by (auto simp: valueOf_def split: if_splits)
  moreover from this have "sint w \<noteq> sint (nullWord :: 'a word)"
    by (metis signed_word_eqI)
  ultimately show ?thesis
    using sint_greater_eq [of w] sint_less [of w] by simp
qed

lemma valueOf_word_of_int [simp]:
  "\<bar>x\<bar> < 2 ^ (LENGTH('a) - 1) \<Longrightarrow> valueOf (word_of_int x :: 'a::len word) = Some x"
proof -
  assume x: "\<bar>x\<bar> < 2 ^ (LENGTH('a) - 1)"
  then have s: "sint (word_of_int x :: 'a word) = x"
    by (intro sint_word_of_int_id) auto
  then have "(word_of_int x :: 'a word) \<noteq> nullWord"
    using x sint_nullWord [where 'a = 'a] by (metis abs_minus_cancel abs_of_nonneg less_irrefl zero_le_numeral zero_le_power)
  then show ?thesis
    using s by (simp add: valueOf_def)
qed

lemma valueOf_nullWord [simp]: "valueOf nullWord = None"
  by (simp add: valueOf_def)

lemma valueOf_None: "valueOf w = None \<longleftrightarrow> w = nullWord"
  by (simp add: valueOf_def)

lemma nulls: "MTD_INTEGER_NULL = nullWord" "MTD_SMALLINT_NULL = nullWord" "MTD_BIGINT_NULL = nullWord"
  by (simp_all add: MTD_INTEGER_NULL_def MTD_SMALLINT_NULL_def MTD_BIGINT_NULL_def nullWord_def)

lemma limits: "sint MTD_INTEGER_MAXIMUM = 2147483647" "sint MTD_INTEGER_MINIMUM = - 2147483647"
  "sint MTD_BIGINT_MAXIMUM = 9223372036854775807" "sint MTD_BIGINT_MINIMUM = - 9223372036854775807"
  by (simp_all add: MTD_INTEGER_MAXIMUM_def MTD_INTEGER_MINIMUM_def MTD_BIGINT_MAXIMUM_def
      MTD_BIGINT_MINIMUM_def)

lemma nullableI:
  assumes "v1 = nullWord \<or> v2 = nullWord \<Longrightarrow> r = Inr nullWord"
    and "\<And>a b. sint v1 = a \<Longrightarrow> sint v2 = b \<Longrightarrow> v1 \<noteq> nullWord \<Longrightarrow> v2 \<noteq> nullWord \<Longrightarrow>
      \<bar>a\<bar> < 2 ^ (LENGTH('a) - 1) \<Longrightarrow> \<bar>b\<bar> < 2 ^ (LENGTH('a) - 1) \<Longrightarrow> r = f a b"
  shows "r = nullable f v1 (v2 :: 'a::len word)"
proof (cases "valueOf v1 = None \<or> valueOf v2 = None")
  case True
  then show ?thesis
    using assms(1) by (auto simp: nullable_def valueOf_None split: option.splits)
next
  case False
  then obtain a b where v: "valueOf v1 = Some a" "valueOf v2 = Some b"
    by auto
  have n: "v1 \<noteq> nullWord" "v2 \<noteq> nullWord"
    using v by auto
  have "r = f a b"
    by (rule assms(2)) (use n valueOf_SomeD [OF v(1)] valueOf_SomeD [OF v(2)] in auto)
  then show ?thesis
    using v by (simp add: nullable_def)
qed

lemma unaryI:
  assumes "v = nullWord \<Longrightarrow> r = nullWord"
    and "v \<noteq> nullWord \<Longrightarrow> \<bar>sint v\<bar> < 2 ^ (LENGTH('a) - 1) \<Longrightarrow> valueOf r = Some (f (sint v))"
  shows "valueOf r = map_option f (valueOf (v :: 'a::len word))"
proof (cases "v = nullWord")
  case False
  then have v: "valueOf v = Some (sint v)"
    by (simp add: valueOf_def)
  have "valueOf r = Some (f (sint v))"
    using valueOf_SomeD [OF v] False by (intro assms(2)) blast+
  then show ?thesis
    by (simp add: v)
qed (use assms(1) in simp)

lemma valueOf_uminus:
  "\<bar>sint w\<bar> < 2 ^ (LENGTH('a) - 1) \<Longrightarrow> valueOf (- w :: 'a::len word) = Some (- sint w)"
  using valueOf_word_of_int [of "- sint w", where 'a = 'a] by simp

lemma sint_zero [simp]: "sint (w :: 'a::len word) = 0 \<longleftrightarrow> w = 0"
  by (metis signed_0 signed_word_eqI)

lemma smod_le: "\<bar>(a :: int) smod b\<bar> \<le> \<bar>a\<bar>"
  by (cases "b = 0") (simp_all add: smod_int_alt_def abs_mult zmod_le_nonneg_dividend abs_sgn_eq)

lemma valueOf_number: "w \<noteq> nullWord \<Longrightarrow> valueOf w = Some (sint w)"
  by (simp add: valueOf_def)

lemma valueOf_small:
  assumes "1 < LENGTH('a)"
  shows "valueOf (1 :: 'a::len word) = Some 1" "valueOf (- 1 :: 'a word) = Some (- 1)"
    "valueOf (0 :: 'a word) = Some 0"
proof -
  have "1 < (2 :: int) ^ (LENGTH('a) - 1)"
    using assms by (intro one_less_power) auto
  then show "valueOf (1 :: 'a word) = Some 1" "valueOf (- 1 :: 'a word) = Some (- 1)"
    "valueOf (0 :: 'a word) = Some 0"
    using valueOf_word_of_int [of 1, where 'a = 'a] valueOf_word_of_int [of "- 1", where 'a = 'a]
      valueOf_word_of_int [of 0, where 'a = 'a] by simp_all
qed

section \<open>Properties\<close>

text \<open>C33: Adding and subtracting \<open>INTEGER\<close> and \<open>BIGINT\<close> values gives the exact sum or
  difference, or an overflow error precisely when that is not a value of the type; a null operand
  gives the null, and numbers never do.  The tests before a \<open>BIGINT\<close> operation are as good as a
  wider type.\<close>

theorem integer_sums_exact:
  "mtfAdd2CalculateInteger i j = nullable (\<lambda>a b. checked (a + b)) i j \<and>
   mtfSubtract2CalculateInteger i j = nullable (\<lambda>a b. checked (a - b)) i j \<and>
   mtfAdd2CalculateBigint k l = nullable (\<lambda>a b. checked (a + b)) k l \<and>
   mtfSubtract2CalculateBigint k l = nullable (\<lambda>a b. checked (a - b)) k l"
proof (intro conjI)
  show "mtfAdd2CalculateInteger i j = nullable (\<lambda>a b. checked (a + b)) i j"
    by (rule nullableI)
      (auto simp: mtfAdd2CalculateInteger_def nulls limits checked_def Let_def toSLong_id)
  show "mtfSubtract2CalculateInteger i j = nullable (\<lambda>a b. checked (a - b)) i j"
    by (rule nullableI)
      (auto simp: mtfSubtract2CalculateInteger_def nulls limits checked_def Let_def toSLong_id)
  show "mtfAdd2CalculateBigint k l = nullable (\<lambda>a b. checked (a + b)) k l"
    by (rule nullableI)
      (auto simp: mtfAdd2CalculateBigint_def nulls limits checked_def Let_def toSLong_id)
  show "mtfSubtract2CalculateBigint k l = nullable (\<lambda>a b. checked (a - b)) k l"
    by (rule nullableI)
      (auto simp: mtfSubtract2CalculateBigint_def nulls limits checked_def Let_def toSLong_id)
qed

definition remainder :: "int \<Rightarrow> int \<Rightarrow> mtError + 'a::len word" where
  "remainder a b = (if b = 0 then Inl ERR_DIVIDE_BY_ZERO else checked (a smod b))"

text \<open>\<open>MOD\<close> of two numbers is the remainder of the truncating division, with the sign of the
  dividend and smaller in magnitude than the divisor, in all three integer types; a zero divisor
  is an error, a null operand gives the null, and no operands make the machine division trap.\<close>

theorem mod_exact:
  "mtfModCalculateInteger i j = nullable remainder i j \<and>
   mtfModCalculateSmallint s t = nullable remainder s t \<and>
   mtfModCalculateBigint k l = nullable remainder k l"
proof (intro conjI)
  have le: "\<bar>a smod b\<bar> < c" if "\<bar>a\<bar> < c" for a b c :: int
    using smod_le [of a b] that by linarith
  show "mtfModCalculateInteger i j = nullable remainder i j"
    by (rule nullableI) (auto simp: mtfModCalculateInteger_def nulls remainder_def checked_def le)
  show "mtfModCalculateSmallint s t = nullable remainder s t"
    by (rule nullableI) (auto simp: mtfModCalculateSmallint_def nulls remainder_def checked_def le)
  show "mtfModCalculateBigint k l = nullable remainder k l"
    by (rule nullableI) (auto simp: mtfModCalculateBigint_def nulls remainder_def checked_def le)
qed

text \<open>Negation, \<open>ABS\<close> and \<open>SIGN\<close> of a number is the exact result in each integer type, never
  the null, and of the null is the null.\<close>

theorem unary_exact:
  "valueOf (mtfMinusCalculateInteger i) = map_option uminus (valueOf i) \<and>
   valueOf (mtfMinusCalculateSmallint s) = map_option uminus (valueOf s) \<and>
   valueOf (mtfMinusCalculateBigint k) = map_option uminus (valueOf k) \<and>
   valueOf (mtfAbsCalculateInteger i) = map_option abs (valueOf i) \<and>
   valueOf (mtfAbsCalculateSmallint s) = map_option abs (valueOf s) \<and>
   valueOf (mtfAbsCalculateBigint k) = map_option abs (valueOf k) \<and>
   valueOf (mtfSignCalculateInteger i) = map_option sgn (valueOf i) \<and>
   valueOf (mtfSignCalculateSmallint s) = map_option sgn (valueOf s) \<and>
   valueOf (mtfSignCalculateBigint k) = map_option sgn (valueOf k)"
  by (intro conjI unaryI)
    (auto simp: mtfMinusCalculateInteger_def mtfMinusCalculateSmallint_def mtfMinusCalculateBigint_def
      mtfAbsCalculateInteger_def mtfAbsCalculateSmallint_def mtfAbsCalculateBigint_def
      mtfSignCalculateInteger_def mtfSignCalculateSmallint_def mtfSignCalculateBigint_def
      nulls valueOf_small not_le sgn_if valueOf_number valueOf_uminus)

end
