(* ===== verification/IntervalType.thy ===== *)
theory IntervalType
  imports DateArith
begin

text \<open>
  The \<open>INTERVAL\<close> type module (\<open>src/src/mt/mtd/mtdInterval.cpp\<close>): null handling, stored form and
  key comparisons, and the sum and difference of two intervals (\<open>mtfAdd2.cpp\<close>,
  \<open>mtfSubtract2.cpp\<close>).  The comparisons interpret \<open>key_order\<close>; on balanced intervals they are the
  order of the durations.
\<close>

section \<open>Null and stored values\<close>

definition intervalSetNull :: "mtdIntervalType option \<Rightarrow> mtdIntervalType option" where
  "intervalSetNull aRow = (case aRow of None \<Rightarrow> None | Some _ \<Rightarrow> Some mtdIntervalNull)"

definition intervalIsNull :: "mtdIntervalType \<Rightarrow> bool" where
  "intervalIsNull aRow = (if MTD_INTERVAL_IS_NULL aRow then True else False)"

definition intervalForModule :: "mtdIntervalType option \<Rightarrow> mtdIntervalType" where
  "intervalForModule v = (case v of None \<Rightarrow> mtdIntervalNull | Some x \<Rightarrow> x)"

text \<open>\<open>ID_LONG_BYTE_ASSIGN\<close> copies eight bytes, little endian.\<close>

definition longWordAt :: "8 word list \<Rightarrow> nat \<Rightarrow> 64 word" where
  "longWordAt b n = ucast (b ! n) OR push_bit 8 (ucast (b ! (n + 1))) OR
     push_bit 16 (ucast (b ! (n + 2))) OR push_bit 24 (ucast (b ! (n + 3))) OR
     push_bit 32 (ucast (b ! (n + 4))) OR push_bit 40 (ucast (b ! (n + 5))) OR
     push_bit 48 (ucast (b ! (n + 6))) OR push_bit 56 (ucast (b ! (n + 7)))"

definition bytesOfLongWord :: "64 word \<Rightarrow> 8 word list" where
  "bytesOfLongWord w = [ucast w, ucast (drop_bit 8 w), ucast (drop_bit 16 w), ucast (drop_bit 24 w),
     ucast (drop_bit 32 w), ucast (drop_bit 40 w), ucast (drop_bit 48 w), ucast (drop_bit 56 w)]"

definition intervalOfBytes :: "8 word list \<Rightarrow> mtdIntervalType" where
  "intervalOfBytes b = \<lparr> ivSecond = sint (longWordAt b 0), ivMicrosecond = sint (longWordAt b 8) \<rparr>"

definition bytesOfInterval :: "mtdIntervalType \<Rightarrow> 8 word list" where
  "bytesOfInterval i = bytesOfLongWord (word_of_int (ivSecond i)) @
     bytesOfLongWord (word_of_int (ivMicrosecond i))"

definition intervalEndian :: "mtdIntervalType \<Rightarrow> mtdIntervalType" where
  "intervalEndian i = (let b = bytesOfInterval i in
     intervalOfBytes [b ! 7, b ! 6, b ! 5, b ! 4, b ! 3, b ! 2, b ! 1, b ! 0,
       b ! 15, b ! 14, b ! 13, b ! 12, b ! 11, b ! 10, b ! 9, b ! 8])"

definition intervalValidate :: "mtdIntervalType option \<Rightarrow> nat \<Rightarrow> IDE_RC \<Rightarrow> IDE_RC" where
  "intervalValidate aValue aValueSize initializeColumn =
     (if aValue = None then IDE_FAILURE
      else if aValueSize \<noteq> 16 then IDE_FAILURE
      else initializeColumn)"

definition intervalStoredValue2MtdValue ::
  "nat \<Rightarrow> nat \<Rightarrow> 8 word list \<Rightarrow> mtdIntervalType option" where
  "intervalStoredValue2MtdValue aColumnSize aLength aValue =
     (if aLength = 0 then Some mtdIntervalNull
      else if aLength \<noteq> aColumnSize then None
      else Some (intervalOfBytes aValue))"

section \<open>Comparisons\<close>

definition mtdIntervalFixedMtdFixedMtdKeyAscComp ::
  "mtdIntervalType mtdValueInfo \<Rightarrow> mtdIntervalType mtdValueInfo \<Rightarrow> int" where
  "mtdIntervalFixedMtdFixedMtdKeyAscComp a1 a2 =
     (let sIntervalValue1 = viValue a1; sSecond1 = ivSecond sIntervalValue1;
          sMicrosecond1 = ivMicrosecond sIntervalValue1;
          sNull1 = (sSecond1 = ivSecond mtdIntervalNull \<and> sMicrosecond1 = ivMicrosecond mtdIntervalNull);
          sIntervalValue2 = viValue a2; sSecond2 = ivSecond sIntervalValue2;
          sMicrosecond2 = ivMicrosecond sIntervalValue2;
          sNull2 = (sSecond2 = ivSecond mtdIntervalNull \<and> sMicrosecond2 = ivMicrosecond mtdIntervalNull) in
      if \<not> sNull1 \<and> \<not> sNull2 then
        if sSecond1 > sSecond2 then 1 else if sSecond1 < sSecond2 then -1
        else if sMicrosecond1 > sMicrosecond2 then 1 else if sMicrosecond1 < sMicrosecond2 then -1
        else 0
      else if sNull1 \<and> \<not> sNull2 then 1
      else if \<not> sNull1 \<and> sNull2 then -1
      else 0)"

definition mtdIntervalFixedMtdFixedMtdKeyDescComp ::
  "mtdIntervalType mtdValueInfo \<Rightarrow> mtdIntervalType mtdValueInfo \<Rightarrow> int" where
  "mtdIntervalFixedMtdFixedMtdKeyDescComp a1 a2 =
     (let sIntervalValue1 = viValue a1; sSecond1 = ivSecond sIntervalValue1;
          sMicrosecond1 = ivMicrosecond sIntervalValue1;
          sNull1 = (sSecond1 = ivSecond mtdIntervalNull \<and> sMicrosecond1 = ivMicrosecond mtdIntervalNull);
          sIntervalValue2 = viValue a2; sSecond2 = ivSecond sIntervalValue2;
          sMicrosecond2 = ivMicrosecond sIntervalValue2;
          sNull2 = (sSecond2 = ivSecond mtdIntervalNull \<and> sMicrosecond2 = ivMicrosecond mtdIntervalNull) in
      if \<not> sNull1 \<and> \<not> sNull2 then
        if sSecond1 < sSecond2 then 1 else if sSecond1 > sSecond2 then -1
        else if sMicrosecond1 < sMicrosecond2 then 1 else if sMicrosecond1 > sMicrosecond2 then -1
        else 0
      else if sNull1 \<and> \<not> sNull2 then 1
      else if \<not> sNull1 \<and> sNull2 then -1
      else 0)"

definition mtdIntervalMtdMtdKeyAscComp ::
  "mtdIntervalType option mtdValueInfo \<Rightarrow> mtdIntervalType option mtdValueInfo \<Rightarrow> int" where
  "mtdIntervalMtdMtdKeyAscComp a1 a2 =
     (let sIntervalValue1 = intervalForModule (viValue a1); sSecond1 = ivSecond sIntervalValue1;
          sMicrosecond1 = ivMicrosecond sIntervalValue1;
          sNull1 = (sSecond1 = ivSecond mtdIntervalNull \<and> sMicrosecond1 = ivMicrosecond mtdIntervalNull);
          sIntervalValue2 = intervalForModule (viValue a2); sSecond2 = ivSecond sIntervalValue2;
          sMicrosecond2 = ivMicrosecond sIntervalValue2;
          sNull2 = (sSecond2 = ivSecond mtdIntervalNull \<and> sMicrosecond2 = ivMicrosecond mtdIntervalNull) in
      if \<not> sNull1 \<and> \<not> sNull2 then
        if sSecond1 > sSecond2 then 1 else if sSecond1 < sSecond2 then -1
        else if sMicrosecond1 > sMicrosecond2 then 1 else if sMicrosecond1 < sMicrosecond2 then -1
        else 0
      else if sNull1 \<and> \<not> sNull2 then 1
      else if \<not> sNull1 \<and> sNull2 then -1
      else 0)"

definition mtdIntervalMtdMtdKeyDescComp ::
  "mtdIntervalType option mtdValueInfo \<Rightarrow> mtdIntervalType option mtdValueInfo \<Rightarrow> int" where
  "mtdIntervalMtdMtdKeyDescComp a1 a2 =
     (let sIntervalValue1 = intervalForModule (viValue a1); sSecond1 = ivSecond sIntervalValue1;
          sMicrosecond1 = ivMicrosecond sIntervalValue1;
          sNull1 = (sSecond1 = ivSecond mtdIntervalNull \<and> sMicrosecond1 = ivMicrosecond mtdIntervalNull);
          sIntervalValue2 = intervalForModule (viValue a2); sSecond2 = ivSecond sIntervalValue2;
          sMicrosecond2 = ivMicrosecond sIntervalValue2;
          sNull2 = (sSecond2 = ivSecond mtdIntervalNull \<and> sMicrosecond2 = ivMicrosecond mtdIntervalNull) in
      if \<not> sNull1 \<and> \<not> sNull2 then
        if sSecond1 < sSecond2 then 1 else if sSecond1 > sSecond2 then -1
        else if sMicrosecond1 < sMicrosecond2 then 1 else if sMicrosecond1 > sMicrosecond2 then -1
        else 0
      else if sNull1 \<and> \<not> sNull2 then 1
      else if \<not> sNull1 \<and> sNull2 then -1
      else 0)"

definition mtdIntervalStoredMtdKeyAscComp ::
  "8 word list mtdValueInfo \<Rightarrow> mtdIntervalType option mtdValueInfo \<Rightarrow> int" where
  "mtdIntervalStoredMtdKeyAscComp a1 a2 =
     (let sSecond1 = sint (longWordAt (viValue a1) 0);
          sMicrosecond1 = sint (longWordAt (viValue a1) 8);
          sNull1 = (sSecond1 = ivSecond mtdIntervalNull \<and> sMicrosecond1 = ivMicrosecond mtdIntervalNull);
          sIntervalValue2 = intervalForModule (viValue a2); sSecond2 = ivSecond sIntervalValue2;
          sMicrosecond2 = ivMicrosecond sIntervalValue2;
          sNull2 = (sSecond2 = ivSecond mtdIntervalNull \<and> sMicrosecond2 = ivMicrosecond mtdIntervalNull) in
      if \<not> sNull1 \<and> \<not> sNull2 then
        if sSecond1 > sSecond2 then 1 else if sSecond1 < sSecond2 then -1
        else if sMicrosecond1 > sMicrosecond2 then 1 else if sMicrosecond1 < sMicrosecond2 then -1
        else 0
      else if sNull1 \<and> \<not> sNull2 then 1
      else if \<not> sNull1 \<and> sNull2 then -1
      else 0)"

definition mtdIntervalStoredMtdKeyDescComp ::
  "8 word list mtdValueInfo \<Rightarrow> mtdIntervalType option mtdValueInfo \<Rightarrow> int" where
  "mtdIntervalStoredMtdKeyDescComp a1 a2 =
     (let sSecond1 = sint (longWordAt (viValue a1) 0);
          sMicrosecond1 = sint (longWordAt (viValue a1) 8);
          sNull1 = (sSecond1 = ivSecond mtdIntervalNull \<and> sMicrosecond1 = ivMicrosecond mtdIntervalNull);
          sIntervalValue2 = intervalForModule (viValue a2); sSecond2 = ivSecond sIntervalValue2;
          sMicrosecond2 = ivMicrosecond sIntervalValue2;
          sNull2 = (sSecond2 = ivSecond mtdIntervalNull \<and> sMicrosecond2 = ivMicrosecond mtdIntervalNull) in
      if \<not> sNull1 \<and> \<not> sNull2 then
        if sSecond1 < sSecond2 then 1 else if sSecond1 > sSecond2 then -1
        else if sMicrosecond1 < sMicrosecond2 then 1 else if sMicrosecond1 > sMicrosecond2 then -1
        else 0
      else if sNull1 \<and> \<not> sNull2 then 1
      else if \<not> sNull1 \<and> sNull2 then -1
      else 0)"

section \<open>Sums and differences\<close>

definition mtfAdd2CalculateIntervalInterval ::
  "mtdIntervalType \<Rightarrow> mtdIntervalType \<Rightarrow> mtdIntervalType option" where
  "mtfAdd2CalculateIntervalInterval sArgument1 sArgument2 =
     (if intervalIsNull sArgument1 \<or> intervalIsNull sArgument2 then Some mtdIntervalNull
      else let sValue = balance (toSLong (ivSecond sArgument1 + ivSecond sArgument2))
                 (toSLong (ivMicrosecond sArgument1 + ivMicrosecond sArgument2)) in
        if invalidYear sValue then None else Some sValue)"

definition mtfSubtract2CalculateIntervalInterval ::
  "mtdIntervalType \<Rightarrow> mtdIntervalType \<Rightarrow> mtdIntervalType option" where
  "mtfSubtract2CalculateIntervalInterval sArgument1 sArgument2 =
     (if intervalIsNull sArgument1 \<or> intervalIsNull sArgument2 then Some mtdIntervalNull
      else let sValue = balance (toSLong (ivSecond sArgument1 - ivSecond sArgument2))
                 (toSLong (ivMicrosecond sArgument1 - ivMicrosecond sArgument2)) in
        if invalidYear sValue then None else Some sValue)"

section \<open>One order\<close>

definition intervalKey :: "bool \<Rightarrow> mtdIntervalType \<Rightarrow> mtdIntervalType \<Rightarrow> int" where
  "intervalKey desc x y =
     (if intervalIsNull x \<and> intervalIsNull y then 0 else if intervalIsNull x then 1
      else if intervalIsNull y then -1
      else (if desc then -1 else 1) *
        (if ivSecond x = ivSecond y then sgn (ivMicrosecond x - ivMicrosecond y)
         else sgn (ivSecond x - ivSecond y)))"

lemma mtdInterval_agree:
  "mtdIntervalFixedMtdFixedMtdKeyAscComp a1 a2 = intervalKey False (viValue a1) (viValue a2)"
  "mtdIntervalFixedMtdFixedMtdKeyDescComp a1 a2 = intervalKey True (viValue a1) (viValue a2)"
  "mtdIntervalMtdMtdKeyAscComp b1 b2 =
     intervalKey False (intervalForModule (viValue b1)) (intervalForModule (viValue b2))"
  "mtdIntervalMtdMtdKeyDescComp b1 b2 =
     intervalKey True (intervalForModule (viValue b1)) (intervalForModule (viValue b2))"
  "mtdIntervalStoredMtdKeyAscComp s1 b2 =
     intervalKey False (intervalOfBytes (viValue s1)) (intervalForModule (viValue b2))"
  "mtdIntervalStoredMtdKeyDescComp s1 b2 =
     intervalKey True (intervalOfBytes (viValue s1)) (intervalForModule (viValue b2))"
  by (simp_all add: intervalKey_def intervalIsNull_def MTD_INTERVAL_IS_NULL_def Let_def
      intervalOfBytes_def
      mtdIntervalFixedMtdFixedMtdKeyAscComp_def mtdIntervalFixedMtdFixedMtdKeyDescComp_def
      mtdIntervalMtdMtdKeyAscComp_def mtdIntervalMtdMtdKeyDescComp_def
      mtdIntervalStoredMtdKeyAscComp_def mtdIntervalStoredMtdKeyDescComp_def)

interpretation interval: key_order "intervalKey desc" intervalIsNull for desc
  by unfold_locales (auto simp: intervalKey_def sgn_if split: if_splits)

section \<open>Stored values\<close>

text \<open>The values the type can hold: two 64 bit numbers.\<close>

definition longPair :: "mtdIntervalType \<Rightarrow> bool" where
  "longPair i \<longleftrightarrow> toSLong (ivSecond i) = ivSecond i \<and> toSLong (ivMicrosecond i) = ivMicrosecond i"

lemma byte_of_long: "(ucast (ucast (w :: 64 word) :: 8 word) :: 64 word) = take_bit 8 w"
  by (rule bit_word_eqI) (auto simp: bit_simps)

lemma take_bit_byte:
  "take_bit n w OR push_bit n (take_bit 8 (drop_bit n w)) = take_bit (n + 8) (w :: 64 word)"
  by (rule bit_word_eqI) (auto simp: bit_simps)

lemma join_bytes:
  "take_bit 8 w OR push_bit 8 (take_bit 8 (drop_bit 8 w)) OR push_bit 16 (take_bit 8 (drop_bit 16 w)) OR
   push_bit 24 (take_bit 8 (drop_bit 24 w)) OR push_bit 32 (take_bit 8 (drop_bit 32 w)) OR
   push_bit 40 (take_bit 8 (drop_bit 40 w)) OR push_bit 48 (take_bit 8 (drop_bit 48 w)) OR
   push_bit 56 (take_bit 8 (drop_bit 56 w)) = (w :: 64 word)"
proof -
  have "take_bit 64 w = w"
    by (rule bit_word_eqI) (simp add: bit_simps)
  then show ?thesis
    using take_bit_byte [of 8 w] take_bit_byte [of 16 w] take_bit_byte [of 24 w] take_bit_byte [of 32 w]
      take_bit_byte [of 40 w] take_bit_byte [of 48 w] take_bit_byte [of 56 w]
    by (simp add: or.assoc [symmetric])
qed

lemma longWordAt_bytes:
  "longWordAt (bytesOfLongWord w @ bs) 0 = w"
  "length as = 8 \<Longrightarrow> longWordAt (as @ bytesOfLongWord w) 8 = w"
  by (simp_all add: longWordAt_def bytesOfLongWord_def nth_append byte_of_long join_bytes)

lemma length_bytesOfLongWord [simp]: "length (bytesOfLongWord w) = 8"
  by (simp add: bytesOfLongWord_def)

lemma sint_toSLong: "toSLong x = x \<Longrightarrow> sint (word_of_int x :: 64 word) = x"
  using toSLong_range [of x] by (simp add: sint_sbintrunc' signed_take_bit_int_eq_self)

text \<open>An interval written as its bytes is read back, and no bytes are the null.\<close>

lemma intervalOfBytes_bytesOfInterval [simp]:
  "longPair i \<Longrightarrow> intervalOfBytes (bytesOfInterval i) = i"
  by (simp add: intervalOfBytes_def bytesOfInterval_def longWordAt_bytes longPair_def sint_toSLong)

lemma interval_stored_roundtrip:
  "longPair i \<Longrightarrow>
     intervalStoredValue2MtdValue 16 (length (bytesOfInterval i)) (bytesOfInterval i) = Some i"
  "intervalStoredValue2MtdValue n 0 bs = Some mtdIntervalNull"
  by (simp_all add: intervalStoredValue2MtdValue_def bytesOfInterval_def)
    (simp add: bytesOfInterval_def [symmetric])

section \<open>Properties\<close>

lemma normal_lex:
  assumes "normalInterval x" "normalInterval y"
  shows "(if ivSecond x = ivSecond y then sgn (ivMicrosecond x - ivMicrosecond y)
     else sgn (ivSecond x - ivSecond y)) = sgn (duration x - duration y)"
proof -
  have less: "duration a < duration b"
    if "normalInterval a" "normalInterval b" "ivSecond a < ivSecond b" for a b
    using that by (auto simp: normalInterval_def duration_def abs_less_iff)
  show ?thesis
    using less [OF assms] less [OF assms(2,1)]
    by (cases "ivSecond x" "ivSecond y" rule: linorder_cases) (auto simp: duration_def sgn_if)
qed

text \<open>The comparisons of the \<open>INTERVAL\<close> module, of values in memory and of stored values,
  ascending and descending, order balanced intervals by their durations and put the null after
  every interval in both directions.\<close>

theorem interval_keys_by_duration:
  assumes "normalInterval x" "normalInterval y" "longPair x"
  shows "mtdIntervalFixedMtdFixedMtdKeyAscComp (valueInfo x n p) (valueInfo y m q) =
      sgn (duration x - duration y) \<and>
    mtdIntervalFixedMtdFixedMtdKeyDescComp (valueInfo x n p) (valueInfo y m q) =
      sgn (duration y - duration x) \<and>
    mtdIntervalMtdMtdKeyAscComp (valueInfo (Some x) n p) (valueInfo (Some y) m q) =
      sgn (duration x - duration y) \<and>
    mtdIntervalMtdMtdKeyDescComp (valueInfo (Some x) n p) (valueInfo (Some y) m q) =
      sgn (duration y - duration x) \<and>
    mtdIntervalStoredMtdKeyAscComp (valueInfo (bytesOfInterval x) n p) (valueInfo (Some y) m q) =
      sgn (duration x - duration y) \<and>
    mtdIntervalStoredMtdKeyDescComp (valueInfo (bytesOfInterval x) n p) (valueInfo (Some y) m q) =
      sgn (duration y - duration x) \<and>
    mtdIntervalMtdMtdKeyAscComp (valueInfo (Some x) n p) (valueInfo None m q) = -1 \<and>
    mtdIntervalMtdMtdKeyDescComp (valueInfo (Some x) n p) (valueInfo None m q) = -1"
proof -
  have null: "\<not> intervalIsNull x" "\<not> intervalIsNull y" "intervalIsNull mtdIntervalNull"
    using normal_not_null [OF assms(1)] normal_not_null [OF assms(2)]
    by (simp_all add: intervalIsNull_def MTD_INTERVAL_IS_NULL_def)
  have "intervalKey desc x y =
      (if desc then sgn (duration y - duration x) else sgn (duration x - duration y))"
    "intervalKey desc x mtdIntervalNull = -1" for desc
    using null normal_lex [OF assms(1,2)] sgn_minus [of "duration x - duration y"]
    by (auto simp: intervalKey_def)
  then show ?thesis
    using assms(3) by (simp add: mtdInterval_agree intervalForModule_def valueInfo_def)
qed

theorem interval_keys_by_duration_witness:
  "mtdIntervalStoredMtdKeyAscComp
     (valueInfo (bytesOfInterval \<lparr>ivSecond = 0, ivMicrosecond = -5\<rparr>) 0 False)
     (valueInfo (Some \<lparr>ivSecond = 0, ivMicrosecond = 7\<rparr>) 0 False) = -1"
proof -
  have "normalInterval \<lparr>ivSecond = 0, ivMicrosecond = -5\<rparr>" "normalInterval \<lparr>ivSecond = 0, ivMicrosecond = 7\<rparr>"
    "longPair \<lparr>ivSecond = 0, ivMicrosecond = -5\<rparr>"
    by (simp_all add: normalInterval_def longPair_def toSLong_id)
  from interval_keys_by_duration [OF this, of 0 False 0 False] show ?thesis
    by (simp add: duration_def)
qed

text \<open>The sum and the difference of two intervals within the years of the calendar are the
  exact ones, balanced, or the error that is raised precisely when they leave the calendar; and
  taking an interval off a sum gives the other interval back.\<close>

theorem interval_sums_exact:
  assumes a: "normalInterval a" "\<not> invalidYear a" and b: "normalInterval b" "\<not> invalidYear b"
  shows "(case mtfAdd2CalculateIntervalInterval a b of
      Some c \<Rightarrow> normalInterval c \<and> duration c = duration a + duration b \<and>
        mtfSubtract2CalculateIntervalInterval c b = Some a
    | None \<Rightarrow> duration a + duration b < firstInstant \<or> duration a + duration b > lastInstant) \<and>
    (case mtfSubtract2CalculateIntervalInterval a b of
      Some c \<Rightarrow> normalInterval c \<and> duration c = duration a - duration b
    | None \<Rightarrow> duration a - duration b < firstInstant \<or> duration a - duration b > lastInstant)"
proof -
  have small: "\<bar>ivSecond i\<bar> < 400000000000 \<and> \<bar>ivMicrosecond i\<bar> < 1000000"
    if "normalInterval i" "\<not> invalidYear i" for i
    using that by (auto simp: invalidYear_def normalInterval_def)
  have id: "toSLong x = x" if "\<bar>x\<bar> < 800000000000" for x
    using that by (intro toSLong_id) linarith+
  have sub: "mtfSubtract2CalculateIntervalInterval i j =
      (if invalidYear (balance (ivSecond i - ivSecond j) (ivMicrosecond i - ivMicrosecond j)) then None
       else Some (balance (ivSecond i - ivSecond j) (ivMicrosecond i - ivMicrosecond j))) \<and>
    duration (balance (ivSecond i - ivSecond j) (ivMicrosecond i - ivMicrosecond j)) =
      duration i - duration j"
    if i: "normalInterval i" "\<not> invalidYear i" and j: "normalInterval j" "\<not> invalidYear j" for i j
  proof -
    have "\<bar>ivSecond i - ivSecond j\<bar> < 800000000000" "\<bar>ivMicrosecond i - ivMicrosecond j\<bar> < 800000000000"
      using small [OF i] small [OF j] by linarith+
    note d = this
    have "duration (balance (ivSecond i - ivSecond j) (ivMicrosecond i - ivMicrosecond j)) =
        (ivSecond i - ivSecond j) * 1000000 + (ivMicrosecond i - ivMicrosecond j)"
      using d by (intro balance_exact) linarith+
    then show ?thesis
      using normal_not_null [OF i(1)] normal_not_null [OF j(1)] d
      by (simp add: mtfSubtract2CalculateIntervalInterval_def intervalIsNull_def id Let_def
          duration_def [of i] duration_def [of j] left_diff_distrib)
  qed
  have add: "mtfAdd2CalculateIntervalInterval a b =
      (if invalidYear (balance (ivSecond a + ivSecond b) (ivMicrosecond a + ivMicrosecond b)) then None
       else Some (balance (ivSecond a + ivSecond b) (ivMicrosecond a + ivMicrosecond b))) \<and>
    duration (balance (ivSecond a + ivSecond b) (ivMicrosecond a + ivMicrosecond b)) =
      duration a + duration b"
  proof -
    have "\<bar>ivSecond a + ivSecond b\<bar> < 800000000000" "\<bar>ivMicrosecond a + ivMicrosecond b\<bar> < 800000000000"
      using small [OF a] small [OF b] by linarith+
    note d = this
    have "duration (balance (ivSecond a + ivSecond b) (ivMicrosecond a + ivMicrosecond b)) =
        (ivSecond a + ivSecond b) * 1000000 + (ivMicrosecond a + ivMicrosecond b)"
      using d by (intro balance_exact) linarith+
    then show ?thesis
      using normal_not_null [OF a(1)] normal_not_null [OF b(1)] d
      by (simp add: mtfAdd2CalculateIntervalInterval_def intervalIsNull_def id Let_def
          duration_def [of a] duration_def [of b] distrib_right)
  qed
  note year = invalidYear_duration [OF balance_normal]
  define c where "c = balance (ivSecond a + ivSecond b) (ivMicrosecond a + ivMicrosecond b)"
  have takeOff: "mtfSubtract2CalculateIntervalInterval c b = Some a" if "\<not> invalidYear c"
  proof -
    define d where "d = balance (ivSecond c - ivSecond b) (ivMicrosecond c - ivMicrosecond b)"
    have c: "normalInterval c"
      unfolding c_def by (rule balance_normal)
    note s = sub [OF c that b]
    have "duration d = duration a"
      using s add by (simp add: c_def d_def)
    then have "d = a"
      using normalInterval_unique [OF balance_normal a(1)] unfolding d_def by blast
    then show ?thesis
      using s a(2) by (simp add: d_def)
  qed
  show ?thesis
    using add sub [OF a b] year balance_normal takeOff unfolding c_def by auto
qed

theorem interval_sums_exact_witness:
  "duration (the (mtfAdd2CalculateIntervalInterval \<lparr>ivSecond = 1, ivMicrosecond = 600000\<rparr>
      \<lparr>ivSecond = -3, ivMicrosecond = -200000\<rparr>)) = -1600000"
proof -
  have "normalInterval \<lparr>ivSecond = 1, ivMicrosecond = 600000\<rparr>" "\<not> invalidYear \<lparr>ivSecond = 1, ivMicrosecond = 600000\<rparr>"
    "normalInterval \<lparr>ivSecond = -3, ivMicrosecond = -200000\<rparr>" "\<not> invalidYear \<lparr>ivSecond = -3, ivMicrosecond = -200000\<rparr>"
    by (simp_all add: normalInterval_def invalidYear_def)
  from interval_sums_exact [OF this] show ?thesis
    by (simp add: duration_def split: option.splits)
qed

end
