(* ===== verification/DepInfo.thy ===== *)
theory DepInfo
  imports Prelude
begin

text \<open>
  The tables an expression depends on, \<open>qcDepInfo\<close> of \<open>src/src/qp/include/qc.h\<close> with the operations
  \<open>qtc::dependency...\<close> of \<open>src/src/qp/qtc/qtc.cpp\<close>: a sorted array of at most
  \<open>QC_MAX_REF_TABLE_CNT\<close> tuple numbers, each with the flags of the outer join operator.  The array is
  a list of pairs; its length is \<open>depCount\<close>.  The operations implement those on finite maps.

  \<open>Inl\<close> is an error: the code returns \<open>IDE_FAILURE\<close> (\<open>TooManyTables\<close>), an assertion fails, or a
  null pointer is followed.
\<close>

datatype qpError = TooManyTables | AssertFailed | NullDereference

definition andThen :: "qpError + 'a \<Rightarrow> ('a \<Rightarrow> qpError + 'b) \<Rightarrow> qpError + 'b" where
  "andThen r f = (case r of Inl e \<Rightarrow> Inl e | Inr x \<Rightarrow> f x)"

lemma andThen_simps [simp]: "andThen (Inl e) f = Inl e" "andThen (Inr x) f = f x"
  by (simp_all add: andThen_def)

lemma andThen_Inr_iff [simp]: "andThen r f = Inr y \<longleftrightarrow> (\<exists>x. r = Inr x \<and> f x = Inr y)"
  by (simp add: andThen_def split: sum.split)

section \<open>The operations\<close>

type_synonym qcDepInfo = "(u16 \<times> 8 word) list"

definition QC_MAX_REF_TABLE_CNT :: nat where
  "QC_MAX_REF_TABLE_CNT = 32"

definition QMO_JOIN_OPER_FALSE :: "8 word" where
  "QMO_JOIN_OPER_FALSE = 0x01"

definition dependencySet :: "u16 \<Rightarrow> qcDepInfo" where
  "dependencySet aTupleID = [(aTupleID, QMO_JOIN_OPER_FALSE)]"

definition dependencyClear :: qcDepInfo where
  "dependencyClear = []"

fun dependencyAnd :: "qcDepInfo \<Rightarrow> qcDepInfo \<Rightarrow> qcDepInfo" where
  "dependencyAnd ((s, j) # l) ((t, k) # r) =
     (if s = t then (s, j AND k) # dependencyAnd l r
      else if s > t then dependencyAnd ((s, j) # l) r
      else dependencyAnd l ((t, k) # r))"
| "dependencyAnd _ _ = []"

text \<open>The three loops of \<open>dependencyOr\<close>; \<open>n\<close> is \<open>sResult.depCount\<close>.\<close>

fun depCopy_loop :: "nat \<Rightarrow> qcDepInfo \<Rightarrow> qpError + qcDepInfo" where
  "depCopy_loop n [] = Inr []"
| "depCopy_loop n (d # ds) =
     (if n \<ge> QC_MAX_REF_TABLE_CNT then Inl TooManyTables
      else andThen (depCopy_loop (n + 1) ds) (\<lambda>r. Inr (d # r)))"

fun dependencyOr_loop :: "nat \<Rightarrow> qcDepInfo \<Rightarrow> qcDepInfo \<Rightarrow> qpError + qcDepInfo" where
  "dependencyOr_loop n ((s, j) # l) ((t, k) # r) =
     (if n \<ge> QC_MAX_REF_TABLE_CNT then Inl TooManyTables
      else if s = t then andThen (dependencyOr_loop (n + 1) l r) (\<lambda>x. Inr ((s, j OR k) # x))
      else if s > t
      then andThen (dependencyOr_loop (n + 1) ((s, j) # l) r) (\<lambda>x. Inr ((t, k) # x))
      else andThen (dependencyOr_loop (n + 1) l ((t, k) # r)) (\<lambda>x. Inr ((s, j) # x)))"
| "dependencyOr_loop n l r =
     (if l \<noteq> [] then depCopy_loop n l else depCopy_loop n r)"

definition dependencyOr :: "qcDepInfo \<Rightarrow> qcDepInfo \<Rightarrow> qpError + qcDepInfo" where
  "dependencyOr aOperand1 aOperand2 =
     (if length aOperand1 > QC_MAX_REF_TABLE_CNT \<or> length aOperand2 > QC_MAX_REF_TABLE_CNT
      then Inl AssertFailed
      else dependencyOr_loop 0 aOperand1 aOperand2)"

primrec dependencyRemove :: "u16 \<Rightarrow> qcDepInfo \<Rightarrow> qcDepInfo" where
  "dependencyRemove aTupleID [] = []"
| "dependencyRemove aTupleID (d # ds) =
     (if fst d \<noteq> aTupleID then d # dependencyRemove aTupleID ds else dependencyRemove aTupleID ds)"

definition dependencyMinus :: "qcDepInfo \<Rightarrow> qcDepInfo \<Rightarrow> qcDepInfo" where
  "dependencyMinus aOperand1 aOperand2 = fold (\<lambda>d. dependencyRemove (fst d)) aOperand2 aOperand1"

fun depEqual_loop :: "qcDepInfo \<Rightarrow> qcDepInfo \<Rightarrow> bool" where
  "depEqual_loop (c # cs) (d # ds) = (if fst c \<noteq> fst d then False else depEqual_loop cs ds)"
| "depEqual_loop _ _ = True"

definition dependencyEqual :: "qcDepInfo \<Rightarrow> qcDepInfo \<Rightarrow> bool" where
  "dependencyEqual aOperand1 aOperand2 =
     (if length aOperand1 \<noteq> length aOperand2 then False else depEqual_loop aOperand1 aOperand2)"

definition haveDependencies :: "qcDepInfo \<Rightarrow> bool" where
  "haveDependencies aOperand1 = (if length aOperand1 = 0 then False else True)"

text \<open>The loop gives the part of the target that was not found.\<close>

fun depContains_loop :: "qcDepInfo \<Rightarrow> qcDepInfo \<Rightarrow> qcDepInfo" where
  "depContains_loop ((s, j) # l) ((t, k) # r) =
     (if s = t then depContains_loop l r
      else if s > t then (t, k) # r
      else depContains_loop l ((t, k) # r))"
| "depContains_loop _ r = r"

definition dependencyContains :: "qcDepInfo \<Rightarrow> qcDepInfo \<Rightarrow> bool" where
  "dependencyContains aSubject aTarget =
     (if length aSubject \<ge> length aTarget then depContains_loop aSubject aTarget = []
      else aTarget = [])"

text \<open>\<open>dependencyChange\<close> fills the tuple numbers of its local result only: the join operators that
  \<open>dependencySetWithDep\<close> then copies are what the memory held, here \<open>stack\<close>.\<close>

definition changedTuples :: "u16 \<Rightarrow> u16 \<Rightarrow> u16 list \<Rightarrow> u16 list" where
  "changedTuples src dest ts =
     (if dest \<in> set ts then filter (\<lambda>t. t \<noteq> src) ts
      else if src < dest then
        (let a = takeWhile (\<lambda>t. t < src) ts; rest = drop (length a + 1) ts;
             b = takeWhile (\<lambda>t. t < dest) rest
         in a @ b @ [dest] @ drop (length b) rest)
      else
        (let a = takeWhile (\<lambda>t. t < dest) ts; rest = drop (length a) ts;
             b = takeWhile (\<lambda>t. t < src) rest
         in a @ [dest] @ b @ drop (length b + 1) rest))"

definition dependencyChange :: "u16 \<Rightarrow> u16 \<Rightarrow> (nat \<Rightarrow> 8 word) \<Rightarrow> qcDepInfo \<Rightarrow> qcDepInfo" where
  "dependencyChange aSourceTupleID aDestTupleID stack aOperand1 =
     (if aSourceTupleID \<noteq> aDestTupleID then
        (if aSourceTupleID \<in> set (map fst aOperand1)
         then map (\<lambda>(i, t). (t, stack i))
                (enumerate 0 (changedTuples aSourceTupleID aDestTupleID (map fst aOperand1)))
         else aOperand1)
      else aOperand1)"

section \<open>Finite maps\<close>

definition tuplesOf :: "qcDepInfo \<Rightarrow> u16 set" where
  "tuplesOf d = fst ` set d"

definition depOk :: "qcDepInfo \<Rightarrow> bool" where
  "depOk d \<longleftrightarrow> sorted_wrt (<) (map fst d) \<and> length d \<le> QC_MAX_REF_TABLE_CNT"

lemma tuplesOf_simps [simp]:
  "tuplesOf [] = {}" "tuplesOf (d # ds) = insert (fst d) (tuplesOf ds)"
  "tuplesOf (xs @ ys) = tuplesOf xs \<union> tuplesOf ys"
  by (auto simp: tuplesOf_def)

lemma finite_tuplesOf [simp]: "finite (tuplesOf d)"
  by (simp add: tuplesOf_def)

lemma map_of_None_tuples: "map_of d t = None \<longleftrightarrow> t \<notin> tuplesOf d"
  by (simp add: map_of_eq_None_iff tuplesOf_def)

lemma tuplesOf_dom: "tuplesOf d = dom (map_of d)"
  using map_of_None_tuples by (metis (no_types) domIff subsetI subset_antisym)

abbreviation ascending :: "qcDepInfo \<Rightarrow> bool" where
  "ascending d \<equiv> sorted_wrt (<) (map fst d)"

lemma ascending_Cons: "ascending (c # d) \<longleftrightarrow> (\<forall>t \<in> tuplesOf d. fst c < t) \<and> ascending d"
  by (auto simp: tuplesOf_def)

lemma map_of_below: "ascending ((s, j) # d) \<Longrightarrow> t \<le> s \<Longrightarrow> map_of d t = None"
  unfolding map_of_None_tuples ascending_Cons by auto

definition bothWith :: "('a \<Rightarrow> 'a \<Rightarrow> 'a) \<Rightarrow> 'a option \<Rightarrow> 'a option \<Rightarrow> 'a option" where
  "bothWith f x y = (case (x, y) of (Some a, Some b) \<Rightarrow> Some (f a b) | _ \<Rightarrow> None)"

definition eitherWith :: "('a \<Rightarrow> 'a \<Rightarrow> 'a) \<Rightarrow> 'a option \<Rightarrow> 'a option \<Rightarrow> 'a option" where
  "eitherWith f x y = (case (x, y) of (Some a, Some b) \<Rightarrow> Some (f a b)
     | (Some a, None) \<Rightarrow> Some a | (None, _) \<Rightarrow> y)"

lemma with_simps [simp]:
  "bothWith f (Some a) (Some b) = Some (f a b)" "bothWith f None y = None" "bothWith f x None = None"
  "eitherWith f (Some a) (Some b) = Some (f a b)" "eitherWith f None y = y" "eitherWith f x None = x"
  by (cases x; cases y; simp add: bothWith_def eitherWith_def)+

lemma dom_with [simp]:
  "dom (\<lambda>t. bothWith f (m t) (n t)) = dom m \<inter> dom n"
  "dom (\<lambda>t. eitherWith f (m t) (n t)) = dom m \<union> dom n"
  by (auto simp: bothWith_def eitherWith_def dom_def split: option.splits)

subsection \<open>Intersection\<close>

lemma dependencyAnd_map:
  assumes "ascending l" "ascending r"
  shows "map_of (dependencyAnd l r) = (\<lambda>t. bothWith (AND) (map_of l t) (map_of r t)) \<and>
    ascending (dependencyAnd l r) \<and> length (dependencyAnd l r) \<le> length l"
  using assms
proof (induction l r rule: dependencyAnd.induct)
  case (1 s j l t k r)
  have asc: "ascending l" "ascending r"
    using "1.prems" by simp_all
  consider (eq) "s = t" | (gt) "s \<noteq> t" "s > t" | (lt) "s \<noteq> t" "\<not> s > t" "s < t"
    by fastforce
  then show ?case
  proof cases
    case eq
    note ih = "1.IH"(1) [OF eq asc]
    then have "tuplesOf (dependencyAnd l r) = tuplesOf l \<inter> tuplesOf r"
      by (simp add: tuplesOf_dom)
    then have "ascending ((t, j AND k) # dependencyAnd l r)"
      using ih "1.prems"(2) unfolding ascending_Cons by auto
    then show ?thesis
      using ih eq by (auto simp: fun_eq_iff)
  next
    case gt
    have "map_of ((s, j) # l) t = None"
      using map_of_below [OF "1.prems"(1), of t] gt by simp
    then show ?thesis
      using gt "1.IH"(2) [OF gt "1.prems"(1) asc(2)] by (auto simp: fun_eq_iff)
  next
    case lt
    have "map_of ((t, k) # r) s = None"
      using map_of_below [OF "1.prems"(2), of s] lt by simp
    then show ?thesis
      using lt "1.IH"(3) [OF lt(1,2) asc(1) "1.prems"(2)] by (auto simp: fun_eq_iff)
  qed
qed simp_all

subsection \<open>Union\<close>

fun mergedDeps :: "qcDepInfo \<Rightarrow> qcDepInfo \<Rightarrow> qcDepInfo" where
  "mergedDeps ((s, j) # l) ((t, k) # r) =
     (if s = t then (s, j OR k) # mergedDeps l r
      else if s > t then (t, k) # mergedDeps ((s, j) # l) r
      else (s, j) # mergedDeps l ((t, k) # r))"
| "mergedDeps l r = l @ r"

lemma depCopy_loop_result:
  "depCopy_loop n d = (if d = [] \<or> n + length d \<le> QC_MAX_REF_TABLE_CNT then Inr d else Inl TooManyTables)"
  by (induction d arbitrary: n) auto

lemma dependencyOr_loop_result:
  "dependencyOr_loop n l r = (if mergedDeps l r = [] \<or> n + length (mergedDeps l r) \<le> QC_MAX_REF_TABLE_CNT
     then Inr (mergedDeps l r) else Inl TooManyTables)"
  by (induction n l r rule: dependencyOr_loop.induct) (simp_all add: depCopy_loop_result)

lemma mergedDeps_map:
  assumes "ascending l" "ascending r"
  shows "map_of (mergedDeps l r) = (\<lambda>t. eitherWith (OR) (map_of l t) (map_of r t)) \<and>
    ascending (mergedDeps l r)"
  using assms
proof (induction l r rule: mergedDeps.induct)
  case (1 s j l t k r)
  have asc: "ascending l" "ascending r"
    using "1.prems" by simp_all
  have tuples: "tuplesOf m = tuplesOf a \<union> tuplesOf b"
    if "map_of m = (\<lambda>t. eitherWith (OR) (map_of a t) (map_of b t))" for m a b
    using that by (simp add: tuplesOf_dom)
  consider (eq) "s = t" | (gt) "s \<noteq> t" "s > t" | (lt) "s \<noteq> t" "\<not> s > t" "s < t"
    by fastforce
  then show ?case
  proof cases
    case eq
    note ih = "1.IH"(1) [OF eq asc]
    have "ascending ((t, j OR k) # mergedDeps l r)"
      using ih "1.prems" eq tuples [OF conjunct1 [OF ih]] unfolding ascending_Cons by auto
    then show ?thesis
      using ih eq by (auto simp: fun_eq_iff)
  next
    case gt
    note ih = "1.IH"(2) [OF gt "1.prems"(1) asc(2)]
    have none: "map_of ((s, j) # l) t = None"
      using map_of_below [OF "1.prems"(1), of t] gt by simp
    have "ascending ((t, k) # mergedDeps ((s, j) # l) r)"
      using ih "1.prems" gt(2) tuples [OF conjunct1 [OF ih]] unfolding ascending_Cons
      by (auto intro: less_trans)
    then show ?thesis
      using gt ih none by (auto simp: fun_eq_iff)
  next
    case lt
    note ih = "1.IH"(3) [OF lt(1,2) asc(1) "1.prems"(2)]
    have none: "map_of ((t, k) # r) s = None"
      using map_of_below [OF "1.prems"(2), of s] lt by simp
    have "ascending ((s, j) # mergedDeps l ((t, k) # r))"
      using ih "1.prems" lt(3) tuples [OF conjunct1 [OF ih]] unfolding ascending_Cons
      by (auto intro: less_trans)
    then show ?thesis
      using lt ih none by (auto simp: fun_eq_iff)
  qed
qed simp_all

lemma card_tuplesOf: "ascending d \<Longrightarrow> card (tuplesOf d) = length d"
  unfolding tuplesOf_def
  by (metis distinct_card length_map list.set_map strict_sorted_iff)

lemma dependencyOr_result:
  assumes "depOk l" "depOk r"
  shows "dependencyOr l r = (if card (tuplesOf l \<union> tuplesOf r) \<le> QC_MAX_REF_TABLE_CNT
    then Inr (mergedDeps l r) else Inl TooManyTables)"
proof -
  have asc: "ascending l" "ascending r" "length l \<le> QC_MAX_REF_TABLE_CNT" "length r \<le> QC_MAX_REF_TABLE_CNT"
    using assms by (auto simp: depOk_def)
  note m = mergedDeps_map [OF asc(1,2)]
  have "tuplesOf (mergedDeps l r) = tuplesOf l \<union> tuplesOf r"
    using m by (simp add: tuplesOf_dom)
  then have "length (mergedDeps l r) = card (tuplesOf l \<union> tuplesOf r)"
    using card_tuplesOf [OF conjunct2 [OF m]] by simp
  then show ?thesis
    using asc by (auto simp: dependencyOr_def dependencyOr_loop_result)
qed

subsection \<open>Removal, comparison, replacement\<close>

lemma dependencyRemove_filter: "dependencyRemove t d = filter (\<lambda>e. fst e \<noteq> t) d"
  by (induction d) auto

lemma dependencyMinus_filter: "dependencyMinus l r = filter (\<lambda>e. fst e \<notin> tuplesOf r) l"
  unfolding dependencyMinus_def
  by (induction r arbitrary: l) (auto simp: dependencyRemove_filter intro: filter_cong)

lemma map_of_filter_fst: "map_of (filter (\<lambda>e. P (fst e)) d) t = (if P t then map_of d t else None)"
  by (induction d) auto

lemma ascending_filter: "ascending d \<Longrightarrow> ascending (filter P d)"
  by (induction d) (auto simp: tuplesOf_def ascending_Cons)

lemma depEqual_loop_map: "length l = length r \<Longrightarrow> depEqual_loop l r \<longleftrightarrow> map fst l = map fst r"
  by (induction l r rule: depEqual_loop.induct) auto

lemma ascending_map_eq: "ascending l \<Longrightarrow> ascending r \<Longrightarrow> map fst l = map fst r \<longleftrightarrow> tuplesOf l = tuplesOf r"
  by (metis list.set_map sorted_distinct_set_unique strict_sorted_iff tuplesOf_def)

lemma depContains_loop_subset:
  "ascending l \<Longrightarrow> ascending r \<Longrightarrow> depContains_loop l r = [] \<longleftrightarrow> tuplesOf r \<subseteq> tuplesOf l"
proof (induction l r rule: depContains_loop.induct)
  case (1 s j l t k r)
  have asc: "ascending l" "ascending r"
    and below: "\<forall>x \<in> tuplesOf l. s < x" "\<forall>x \<in> tuplesOf r. t < x"
    using "1.prems" unfolding ascending_Cons by auto
  consider (eq) "s = t" | (gt) "s \<noteq> t" "s > t" | (lt) "s \<noteq> t" "\<not> s > t" "s < t"
    by fastforce
  then show ?case
  proof cases
    case eq
    then show ?thesis
      using "1.IH"(1) [OF eq asc] below by auto
  next
    case gt
    then show ?thesis
      using below by auto
  next
    case lt
    then show ?thesis
      using "1.IH"(2) [OF lt(1,2) asc(1) "1.prems"(2)] below by auto
  qed
qed (auto simp: tuplesOf_def)

lemma dependencyContains_subset:
  assumes "depOk l" "depOk r"
  shows "dependencyContains l r \<longleftrightarrow> tuplesOf r \<subseteq> tuplesOf l"
proof -
  have asc: "ascending l" "ascending r"
    using assms by (auto simp: depOk_def)
  have "length r \<le> length l" if "tuplesOf r \<subseteq> tuplesOf l"
    using card_mono [OF finite_tuplesOf that] card_tuplesOf asc by simp
  then show ?thesis
    using depContains_loop_subset [OF asc] by (auto simp: dependencyContains_def)
qed

lemma sorted_takeWhile_less:
  fixes x :: u16
  assumes "sorted_wrt (<) ts"
  shows "takeWhile (\<lambda>t. t < x) ts = filter (\<lambda>t. t < x) ts"
    "drop (length (filter (\<lambda>t. t < x) ts)) ts = filter (\<lambda>t. x \<le> t) ts"
proof -
  have "takeWhile (\<lambda>t. t < x) ts = filter (\<lambda>t. t < x) ts \<and>
      dropWhile (\<lambda>t. t < x) ts = filter (\<lambda>t. x \<le> t) ts"
    using assms
  proof (induction ts)
    case (Cons a ts)
    show ?case
    proof (cases "a < x")
      case False
      then have "\<forall>t \<in> set ts. x \<le> t"
        using Cons.prems by fastforce
      then have "filter (\<lambda>t. t < x) ts = []" "filter (\<lambda>t. x \<le> t) ts = ts"
        by (auto simp: filter_empty_conv)
      then show ?thesis
        using False by simp
    qed (use Cons in auto)
  qed simp
  then show tw: "takeWhile (\<lambda>t. t < x) ts = filter (\<lambda>t. t < x) ts"
    and "drop (length (filter (\<lambda>t. t < x) ts)) ts = filter (\<lambda>t. x \<le> t) ts"
    by (simp, metis dropWhile_eq_drop)
qed

lemma sorted_drop_found:
  fixes x :: u16
  assumes "sorted_wrt (<) ts" "x \<in> set ts"
  shows "drop (Suc (length (filter (\<lambda>t. t < x) ts))) ts = filter (\<lambda>t. x < t) ts"
  using assms
proof (induction ts)
  case (Cons a ts)
  show ?case
  proof (cases "a = x")
    case True
    then have "filter (\<lambda>t. t < x) ts = []" "filter (\<lambda>t. x < t) ts = ts"
      using Cons.prems by (auto simp: filter_empty_conv filter_id_conv)
    then show ?thesis
      using True by simp
  next
    case False
    then have "a < x" "x \<in> set ts" "sorted_wrt (<) ts" "\<not> x < a"
      using Cons.prems by auto
    then show ?thesis
      using Cons.IH by auto
  qed
qed simp

lemma changedTuples_set:
  fixes src :: u16
  assumes ts: "sorted_wrt (<) ts" "src \<in> set ts" and ne: "src \<noteq> dest"
  shows "set (changedTuples src dest ts) = insert dest (set ts - {src})"
    and "sorted_wrt (<) (changedTuples src dest ts)"
proof -
  have srt: "sorted_wrt (<) (filter P ts)" for P
    using ts(1) by (simp add: sorted_wrt_filter)
  have "set (changedTuples src dest ts) = insert dest (set ts - {src}) \<and>
      sorted_wrt (<) (changedTuples src dest ts)"
  proof (cases "dest \<in> set ts")
    case True
    then show ?thesis
      using ne srt by (auto simp: changedTuples_def)
  next
    case new: False
    show ?thesis
    proof (cases "src < dest")
      case True
      have "changedTuples src dest ts = filter (\<lambda>t. t < src) ts @ filter (\<lambda>t. src < t \<and> t < dest) ts @
          [dest] @ filter (\<lambda>t. src < t \<and> dest \<le> t) ts"
        using new True sorted_takeWhile_less(2) [OF srt [of "\<lambda>t. src < t"], of dest]
        by (simp add: changedTuples_def Let_def sorted_drop_found [OF ts]
            sorted_takeWhile_less [OF srt, unfolded filter_filter]
            sorted_takeWhile_less(1) [OF ts(1)] conj_commute del: drop_drop)
      then show ?thesis
        using srt True new ne by (auto simp: sorted_wrt_append le_less)
    next
      case False
      then have "dest < src" using ne by simp
      have "changedTuples src dest ts = filter (\<lambda>t. t < dest) ts @ [dest] @
          filter (\<lambda>t. dest \<le> t \<and> t < src) ts @ filter (\<lambda>t. dest \<le> t \<and> src < t) ts"
        using new False sorted_drop_found [OF srt, of src "\<lambda>t. dest \<le> t"] ts(2) \<open>dest < src\<close>
        by (simp add: changedTuples_def Let_def sorted_takeWhile_less [OF ts(1)]
            sorted_takeWhile_less(1) [OF srt] conj_commute del: drop_drop)
      then show ?thesis
        using srt \<open>dest < src\<close> new ne by (auto simp: sorted_wrt_append le_less)
    qed
  qed
  then show "set (changedTuples src dest ts) = insert dest (set ts - {src})"
    "sorted_wrt (<) (changedTuples src dest ts)"
    by simp_all
qed

lemma dependencyChange_tuples:
  assumes "depOk d" "src \<noteq> dest"
  shows "depOk (dependencyChange src dest stack d) \<and>
    tuplesOf (dependencyChange src dest stack d) =
      (if src \<in> tuplesOf d then insert dest (tuplesOf d - {src}) else tuplesOf d)"
proof (cases "src \<in> tuplesOf d")
  case True
  then have src: "src \<in> set (map fst d)" and asc: "ascending d"
    using assms(1) by (auto simp: tuplesOf_def depOk_def)
  define ts where "ts = changedTuples src dest (map fst d)"
  note ts = changedTuples_set [OF asc src assms(2), folded ts_def]
  have fst: "map fst (dependencyChange src dest stack d) = ts"
    using src assms(2) by (simp add: dependencyChange_def ts_def case_prod_unfold comp_def)
  have card: "card (insert dest (set (map fst d) - {src})) \<le> card (set (map fst d))"
    using card_Suc_Diff1 [OF _ src] by (simp add: card_insert_if)
  have "length ts = card (set ts)"
    using ts(2) by (metis distinct_card strict_sorted_iff)
  also have "\<dots> \<le> length d"
    using card ts(1) by (metis card_length length_map order_trans)
  finally have "length (dependencyChange src dest stack d) \<le> QC_MAX_REF_TABLE_CNT"
    using fst assms(1) by (metis depOk_def length_map order_trans)
  moreover have "tuplesOf (dependencyChange src dest stack d) = set ts" "tuplesOf d = set (map fst d)"
    using fst by (metis list.set_map tuplesOf_def)+
  ultimately show ?thesis
    using True ts fst by (simp add: depOk_def)
next
  case False
  then show ?thesis
    using assms by (simp add: dependencyChange_def tuplesOf_def)
qed



end
