(* ===== verification/Conditions.thy ===== *)
theory Conditions
  imports DepInfo
begin

text \<open>
  Conditions of a query as the optimizer sees them: the tree of \<open>qtcNode\<close>s
  (\<open>src/src/qp/include/qtcDef.h\<close>) over the logical operators, and its value under a row by
  \<open>mtfAndCalculate\<close>, \<open>mtfOrCalculate\<close> and \<open>mtfNotCalculate\<close> of \<open>src/src/mt/mtf\<close>.

  Of the flag words \<open>node.lflag\<close> and \<open>lflag\<close> a node has the flags that the normalisation reads or
  writes.  \<open>'p\<close> stands for everything else of a predicate (a comparison with its operands); its
  value under a row is an argument; its evaluation does not fail, and the stack of the calculation
  is large enough.  The argument list of a node is a list, its \<open>next\<close> links; a
  condition is a tree whose nodes are not shared.
\<close>

section \<open>Three-valued logic\<close>

datatype mtdBooleanType = MTD_BOOLEAN_TRUE | MTD_BOOLEAN_FALSE | MTD_BOOLEAN_NULL

fun andMatrix :: "mtdBooleanType \<Rightarrow> mtdBooleanType \<Rightarrow> mtdBooleanType" where
  "andMatrix MTD_BOOLEAN_TRUE MTD_BOOLEAN_TRUE = MTD_BOOLEAN_TRUE"
| "andMatrix MTD_BOOLEAN_TRUE MTD_BOOLEAN_FALSE = MTD_BOOLEAN_FALSE"
| "andMatrix MTD_BOOLEAN_TRUE MTD_BOOLEAN_NULL = MTD_BOOLEAN_NULL"
| "andMatrix MTD_BOOLEAN_FALSE MTD_BOOLEAN_TRUE = MTD_BOOLEAN_FALSE"
| "andMatrix MTD_BOOLEAN_FALSE MTD_BOOLEAN_FALSE = MTD_BOOLEAN_FALSE"
| "andMatrix MTD_BOOLEAN_FALSE MTD_BOOLEAN_NULL = MTD_BOOLEAN_FALSE"
| "andMatrix MTD_BOOLEAN_NULL MTD_BOOLEAN_TRUE = MTD_BOOLEAN_NULL"
| "andMatrix MTD_BOOLEAN_NULL MTD_BOOLEAN_FALSE = MTD_BOOLEAN_FALSE"
| "andMatrix MTD_BOOLEAN_NULL MTD_BOOLEAN_NULL = MTD_BOOLEAN_NULL"

fun orMatrix :: "mtdBooleanType \<Rightarrow> mtdBooleanType \<Rightarrow> mtdBooleanType" where
  "orMatrix MTD_BOOLEAN_TRUE MTD_BOOLEAN_TRUE = MTD_BOOLEAN_TRUE"
| "orMatrix MTD_BOOLEAN_TRUE MTD_BOOLEAN_FALSE = MTD_BOOLEAN_TRUE"
| "orMatrix MTD_BOOLEAN_TRUE MTD_BOOLEAN_NULL = MTD_BOOLEAN_TRUE"
| "orMatrix MTD_BOOLEAN_FALSE MTD_BOOLEAN_TRUE = MTD_BOOLEAN_TRUE"
| "orMatrix MTD_BOOLEAN_FALSE MTD_BOOLEAN_FALSE = MTD_BOOLEAN_FALSE"
| "orMatrix MTD_BOOLEAN_FALSE MTD_BOOLEAN_NULL = MTD_BOOLEAN_NULL"
| "orMatrix MTD_BOOLEAN_NULL MTD_BOOLEAN_TRUE = MTD_BOOLEAN_TRUE"
| "orMatrix MTD_BOOLEAN_NULL MTD_BOOLEAN_FALSE = MTD_BOOLEAN_NULL"
| "orMatrix MTD_BOOLEAN_NULL MTD_BOOLEAN_NULL = MTD_BOOLEAN_NULL"

fun notMatrix :: "mtdBooleanType \<Rightarrow> mtdBooleanType" where
  "notMatrix MTD_BOOLEAN_TRUE = MTD_BOOLEAN_FALSE"
| "notMatrix MTD_BOOLEAN_FALSE = MTD_BOOLEAN_TRUE"
| "notMatrix MTD_BOOLEAN_NULL = MTD_BOOLEAN_NULL"

text \<open>The loops over the arguments' values, which end early.\<close>

fun mtfAnd_loop :: "mtdBooleanType \<Rightarrow> mtdBooleanType list \<Rightarrow> mtdBooleanType" where
  "mtfAnd_loop sValue [] = sValue"
| "mtfAnd_loop sValue (x # xs) =
     (if sValue \<noteq> MTD_BOOLEAN_FALSE then mtfAnd_loop (andMatrix sValue x) xs else sValue)"

fun mtfOr_loop :: "mtdBooleanType \<Rightarrow> mtdBooleanType list \<Rightarrow> mtdBooleanType" where
  "mtfOr_loop sValue [] = sValue"
| "mtfOr_loop sValue (x # xs) =
     (if sValue \<noteq> MTD_BOOLEAN_TRUE then mtfOr_loop (orMatrix sValue x) xs else sValue)"

section \<open>Nodes\<close>

record qtcFlags =
  cnfUnusable :: bool
  pushedPredForce :: bool
  subqueryExist :: bool
  joinOperatorExist :: bool
  columnRidExist :: bool
  comparison :: bool

datatype mtcOperator = OPERATOR_AND | OPERATOR_OR

datatype 'p qtcNode =
    LogicalNode mtcOperator qtcFlags qcDepInfo "'p qtcNode list"
  | NotNode qtcFlags qcDepInfo "'p qtcNode"
  | PredicateNode qtcFlags qcDepInfo 'p

fun lflag :: "'p qtcNode \<Rightarrow> qtcFlags" where
  "lflag (LogicalNode oper f d args) = f"
| "lflag (NotNode f d a) = f"
| "lflag (PredicateNode f d p) = f"

fun updFlag :: "(qtcFlags \<Rightarrow> qtcFlags) \<Rightarrow> 'p qtcNode \<Rightarrow> 'p qtcNode" where
  "updFlag g (LogicalNode oper f d args) = LogicalNode oper (g f) d args"
| "updFlag g (NotNode f d a) = NotNode (g f) d a"
| "updFlag g (PredicateNode f d p) = PredicateNode (g f) d p"

fun depInfo :: "'p qtcNode \<Rightarrow> qcDepInfo" where
  "depInfo (LogicalNode oper f d args) = d"
| "depInfo (NotNode f d a) = d"
| "depInfo (PredicateNode f d p) = d"

text \<open>The arguments of a logical node; those of a predicate belong to \<open>'p\<close>.\<close>

fun arguments :: "'p qtcNode \<Rightarrow> 'p qtcNode list" where
  "arguments (LogicalNode oper f d args) = args"
| "arguments (NotNode f d a) = [a]"
| "arguments (PredicateNode f d p) = []"

fun setArguments :: "'p qtcNode list \<Rightarrow> 'p qtcNode \<Rightarrow> 'p qtcNode" where
  "setArguments args (LogicalNode oper f d _) = LogicalNode oper f d args"
| "setArguments args n = n"

fun isLogical :: "mtcOperator \<Rightarrow> 'p qtcNode \<Rightarrow> bool" where
  "isLogical oper (LogicalNode oper' f d args) \<longleftrightarrow> oper' = oper"
| "isLogical oper _ \<longleftrightarrow> False"

fun isAndOr :: "'p qtcNode \<Rightarrow> bool" where
  "isAndOr (LogicalNode oper f d args) = True"
| "isAndOr _ = False"

fun calculate :: "('p \<Rightarrow> mtdBooleanType) \<Rightarrow> 'p qtcNode \<Rightarrow> mtdBooleanType" where
  "calculate v (LogicalNode OPERATOR_AND f d args) =
     mtfAnd_loop MTD_BOOLEAN_TRUE (map (calculate v) args)"
| "calculate v (LogicalNode OPERATOR_OR f d args) =
     mtfOr_loop MTD_BOOLEAN_FALSE (map (calculate v) args)"
| "calculate v (NotNode f d a) = notMatrix (calculate v a)"
| "calculate v (PredicateNode f d p) = v p"

subsection \<open>New nodes\<close>

text \<open>A node made by \<open>qtc::makeNode\<close> has the flags of its module, none of those above.\<close>

definition noFlags :: qtcFlags where
  "noFlags = \<lparr>cnfUnusable = False, pushedPredForce = False, subqueryExist = False,
     joinOperatorExist = False, columnRidExist = False, comparison = False\<rparr>"

text \<open>\<open>aNode->lflag |= sNode->lflag & QTC_NODE_MASK\<close>.\<close>

definition orFlags :: "qtcFlags \<Rightarrow> qtcFlags \<Rightarrow> qtcFlags" where
  "orFlags f g = f\<lparr>subqueryExist := subqueryExist f \<or> subqueryExist g,
     joinOperatorExist := joinOperatorExist f \<or> joinOperatorExist g,
     columnRidExist := columnRidExist f \<or> columnRidExist g\<rparr>"

fun collect_loop ::
  "qtcFlags \<Rightarrow> qcDepInfo \<Rightarrow> 'p qtcNode list \<Rightarrow> qpError + (qtcFlags \<times> qcDepInfo)" where
  "collect_loop f d [] = Inr (f, d)"
| "collect_loop f d (n # ns) =
     andThen (dependencyOr d (depInfo n)) (\<lambda>d1. collect_loop (orFlags f (lflag n)) d1 ns)"

text \<open>\<open>qtc::estimateNodeWithoutArgument\<close>, as far as flags and dependencies go: those of the
  arguments are collected in the node.\<close>

definition estimateNodeWithoutArgument :: "'p qtcNode \<Rightarrow> qpError + 'p qtcNode" where
  "estimateNodeWithoutArgument n =
     (case n of
        LogicalNode oper f d args \<Rightarrow>
          andThen (collect_loop f dependencyClear args) (\<lambda>(f1, d1). Inr (LogicalNode oper f1 d1 args))
      | _ \<Rightarrow> Inr n)"

section \<open>Values above a threshold\<close>

text \<open>\<open>FALSE < NULL < TRUE\<close>.  The conjunction is the minimum and the disjunction the maximum, so a
  condition reaches a given threshold when the tree, read with \<open>\<forall>\<close> and \<open>\<exists>\<close>, does.\<close>

fun truthRank :: "mtdBooleanType \<Rightarrow> nat" where
  "truthRank MTD_BOOLEAN_FALSE = 0"
| "truthRank MTD_BOOLEAN_NULL = 1"
| "truthRank MTD_BOOLEAN_TRUE = 2"

instantiation mtdBooleanType :: linorder
begin

definition less_eq_mtdBooleanType :: "mtdBooleanType \<Rightarrow> mtdBooleanType \<Rightarrow> bool" where
  "less_eq_mtdBooleanType x y \<longleftrightarrow> truthRank x \<le> truthRank y"

definition less_mtdBooleanType :: "mtdBooleanType \<Rightarrow> mtdBooleanType \<Rightarrow> bool" where
  "less_mtdBooleanType x y \<longleftrightarrow> truthRank x < truthRank y"

instance
proof
  fix x y :: mtdBooleanType
  show "x \<le> y \<Longrightarrow> y \<le> x \<Longrightarrow> x = y"
    by (cases x; cases y) (simp_all add: less_eq_mtdBooleanType_def)
qed (auto simp: less_eq_mtdBooleanType_def less_mtdBooleanType_def)

end

lemma truth_bounds [simp]: "MTD_BOOLEAN_FALSE \<le> x" "x \<le> MTD_BOOLEAN_TRUE"
  "MTD_BOOLEAN_TRUE \<le> x \<longleftrightarrow> x = MTD_BOOLEAN_TRUE" "x \<le> MTD_BOOLEAN_FALSE \<longleftrightarrow> x = MTD_BOOLEAN_FALSE"
  by (cases x; simp add: less_eq_mtdBooleanType_def)+

lemma andMatrix_min: "andMatrix x y = min x y"
  by (cases x; cases y) (simp_all add: min_def less_eq_mtdBooleanType_def)

lemma orMatrix_max: "orMatrix x y = max x y"
  by (cases x; cases y) (simp_all add: max_def less_eq_mtdBooleanType_def)

lemma mtfAnd_loop_ge: "x \<le> mtfAnd_loop s vs \<longleftrightarrow> x \<le> s \<and> (\<forall>y \<in> set vs. x \<le> y)"
  by (induction s vs rule: mtfAnd_loop.induct) (auto simp: andMatrix_min)

lemma mtfOr_loop_ge: "x \<le> mtfOr_loop s vs \<longleftrightarrow> x \<le> s \<or> (\<exists>y \<in> set vs. x \<le> y)"
  by (induction s vs rule: mtfOr_loop.induct) (auto simp: orMatrix_max le_max_iff_disj)

definition holds :: "('p \<Rightarrow> mtdBooleanType) \<Rightarrow> mtdBooleanType \<Rightarrow> 'p qtcNode \<Rightarrow> bool" where
  "holds v x n \<longleftrightarrow> x \<le> calculate v n"

lemma holds_logical [simp]:
  "holds v x (LogicalNode OPERATOR_AND f d args) \<longleftrightarrow> (\<forall>a \<in> set args. holds v x a)"
  "x \<noteq> MTD_BOOLEAN_FALSE \<Longrightarrow>
     holds v x (LogicalNode OPERATOR_OR f d args) \<longleftrightarrow> (\<exists>a \<in> set args. holds v x a)"
  by (simp_all add: holds_def mtfAnd_loop_ge mtfOr_loop_ge)

lemma calculate_eq_iff:
  "calculate v m = calculate v n \<longleftrightarrow> (\<forall>x. x \<noteq> MTD_BOOLEAN_FALSE \<longrightarrow> holds v x m = holds v x n)"
  unfolding holds_def by (metis order_antisym order_refl truth_bounds(1))

lemma calculate_eqI:
  "(\<And>x. x \<noteq> MTD_BOOLEAN_FALSE \<Longrightarrow> holds v x m = holds v x n) \<Longrightarrow> calculate v m = calculate v n"
  by (simp add: calculate_eq_iff)

lemma calculate_updFlag [simp]: "calculate v (updFlag g n) = calculate v n"
proof (cases n)
  case (LogicalNode oper f d args)
  then show ?thesis by (cases oper) simp_all
qed simp_all

lemma holds_updFlag [simp]: "holds v x (updFlag g n) = holds v x n"
  by (simp add: holds_def)

end
