(* ===== verification/NormalForm.thy ===== *)
theory NormalForm
  imports Conditions
begin

text \<open>
  Normal forms of conditions, \<open>src/src/qp/qmo/qmoNormalForm.cpp\<close>: the conjunctive and disjunctive
  normal form by distribution, the estimates of their size, and the partial conjunctive normal
  form, which leaves out the parts that would grow beyond a limit; these become a filter of
  their own.

  Allocation succeeds.  A pointer that may be null is an option; \<open>Inl\<close> is an error of the code, a
  failed \<open>IDE_FT_ASSERT\<close> or the use of a null pointer.  The counters of type \<open>SDouble\<close> are numbers: they
  are compared with 32 bit limits only, before which they are exact.
\<close>

section \<open>Construction\<close>

text \<open>\<open>productToMerge\<close>: first the clauses of \<open>aPrevNF\<close> are copied for all but one clause of
  \<open>aCurrNF\<close>, then each block of clauses is extended by the terms of one clause of \<open>aCurrNF\<close>.\<close>

definition appendTerms :: "'p qtcNode \<Rightarrow> 'p qtcNode \<Rightarrow> qpError + 'p qtcNode" where
  "appendTerms sNode sLastNode =
     (if arguments sLastNode = [] then Inl NullDereference
      else Inr (setArguments (arguments sLastNode @ arguments sNode) sLastNode))"

fun product_inner :: "'p qtcNode \<Rightarrow> 'p qtcNode list \<Rightarrow> qpError + 'p qtcNode list" where
  "product_inner sNode [] = Inr []"
| "product_inner sNode (n # ns) =
     andThen (appendTerms sNode n) (\<lambda>n1. andThen (product_inner sNode ns) (\<lambda>r. Inr (n1 # r)))"

fun product_outer ::
  "nat \<Rightarrow> 'p qtcNode list \<Rightarrow> 'p qtcNode list \<Rightarrow> qpError + 'p qtcNode list" where
  "product_outer sPrevCnt [] sLast = Inr sLast"
| "product_outer sPrevCnt (n # ns) sLast =
     andThen (product_inner n (take sPrevCnt sLast)) (\<lambda>r.
     andThen (product_outer sPrevCnt ns (drop sPrevCnt sLast)) (\<lambda>rs. Inr (r @ rs)))"

definition productToMerge :: "'p qtcNode \<Rightarrow> 'p qtcNode \<Rightarrow> qpError + 'p qtcNode" where
  "productToMerge aPrevNF aCurrNF =
     (let sPrev = arguments aPrevNF; sCurr = arguments aCurrNF in
      if sPrev = [] \<and> length sCurr > 1 then Inl NullDereference
      else andThen (product_outer (length sPrev) sCurr
             (sPrev @ concat (replicate (length sCurr - 1) sPrev)))
             (\<lambda>args. Inr (setArguments args aPrevNF)))"

definition addToMerge :: "'p qtcNode \<Rightarrow> 'p qtcNode \<Rightarrow> qpError + 'p qtcNode" where
  "addToMerge aPrevNF aCurrNF =
     (if arguments aPrevNF = [] then Inl NullDereference
      else Inr (setArguments (arguments aPrevNF @ arguments aCurrNF) aPrevNF))"

definition addToMerge2 ::
  "'p qtcNode option \<Rightarrow> 'p qtcNode option \<Rightarrow> qpError + 'p qtcNode option" where
  "addToMerge2 aPrevNF aCurrNF =
     (case aPrevNF of
        None \<Rightarrow> Inr aCurrNF
      | Some sPrevNF \<Rightarrow>
          (case aCurrNF of
             None \<Rightarrow> Inr aPrevNF
           | Some sCurrNF \<Rightarrow> andThen (addToMerge sPrevNF sCurrNF) (\<lambda>n. Inr (Some n))))"

text \<open>The loops over the arguments of \<open>AND\<close> and \<open>OR\<close>; the results of the recursive calls are given
  in order.\<close>

fun merge_loop :: "('a \<Rightarrow> 'a \<Rightarrow> qpError + 'a) \<Rightarrow> 'a \<Rightarrow> (qpError + 'a) list \<Rightarrow> qpError + 'a" where
  "merge_loop m sPrev [] = Inr sPrev"
| "merge_loop m sPrev (r # rs) =
     andThen r (\<lambda>sCurr. andThen (m sPrev sCurr) (\<lambda>sNF. merge_loop m sNF rs))"

fun mergeArguments :: "qpError \<Rightarrow> ('a \<Rightarrow> 'a \<Rightarrow> qpError + 'a) \<Rightarrow> (qpError + 'a) list \<Rightarrow> qpError + 'a" where
  "mergeArguments e m [] = Inl e"
| "mergeArguments e m (r # rs) = andThen r (\<lambda>sPrev. merge_loop m sPrev rs)"

text \<open>A terminal node under two new logical nodes.\<close>

definition makeTerminal ::
  "mtcOperator \<Rightarrow> mtcOperator \<Rightarrow> qtcFlags \<Rightarrow> 'p qtcNode \<Rightarrow> qpError + 'p qtcNode" where
  "makeTerminal outer inner f aNode =
     andThen (estimateNodeWithoutArgument (LogicalNode inner f dependencyClear [aNode])) (\<lambda>sNode.
     estimateNodeWithoutArgument (LogicalNode outer noFlags dependencyClear [sNode]))"

fun makeDNF :: "'p qtcNode \<Rightarrow> qpError + 'p qtcNode" where
  "makeDNF (LogicalNode OPERATOR_AND f d args) =
     mergeArguments AssertFailed productToMerge (map makeDNF args)"
| "makeDNF (LogicalNode OPERATOR_OR f d args) =
     mergeArguments AssertFailed addToMerge (map makeDNF args)"
| "makeDNF aNode = makeTerminal OPERATOR_OR OPERATOR_AND noFlags aNode"

definition productToMerge2 ::
  "'p qtcNode option \<Rightarrow> 'p qtcNode option \<Rightarrow> qpError + 'p qtcNode option" where
  "productToMerge2 aPrevNF aCurrNF =
     (case (aPrevNF, aCurrNF) of
        (Some sPrevNF, Some sCurrNF) \<Rightarrow> andThen (productToMerge sPrevNF sCurrNF) (\<lambda>n. Inr (Some n))
      | _ \<Rightarrow> Inl NullDereference)"

text \<open>\<open>makeCNF\<close> hands the flag \<open>MTC_NODE_PUSHED_PRED_FORCE\<close> on to the first argument before it
  visits it; \<open>forced\<close> says that the node got it that way.\<close>

definition forceFlag :: "bool \<Rightarrow> 'p qtcNode \<Rightarrow> 'p qtcNode" where
  "forceFlag forced = updFlag (\<lambda>f. f\<lparr>pushedPredForce := pushedPredForce f \<or> forced\<rparr>)"

fun makeCNF :: "bool \<Rightarrow> 'p qtcNode \<Rightarrow> qpError + 'p qtcNode option" where
  "makeCNF forced (LogicalNode oper f d args) =
     (if cnfUnusable f then Inr None
      else mergeArguments NullDereference
        (case oper of OPERATOR_AND \<Rightarrow> addToMerge2 | OPERATOR_OR \<Rightarrow> productToMerge2)
        (case args of [] \<Rightarrow> []
         | a # as \<Rightarrow> makeCNF (pushedPredForce f \<or> forced) a # map (makeCNF False) as))"
| "makeCNF forced aNode =
     (if cnfUnusable (lflag aNode) then Inr None
      else andThen (makeTerminal OPERATOR_AND OPERATOR_OR
             (noFlags\<lparr>pushedPredForce := pushedPredForce (lflag aNode) \<or> forced\<rparr>)
             (forceFlag forced aNode)) (\<lambda>n. Inr (Some n)))"

text \<open>The tree \<open>makeCNF\<close> leaves behind.\<close>

fun afterMakeCNF :: "bool \<Rightarrow> 'p qtcNode \<Rightarrow> 'p qtcNode" where
  "afterMakeCNF forced (LogicalNode oper f d args) = forceFlag forced
     (LogicalNode oper f d
        (if cnfUnusable f then args
         else (case args of [] \<Rightarrow> []
               | a # as \<Rightarrow> afterMakeCNF (pushedPredForce f \<or> forced) a # map (afterMakeCNF False) as)))"
| "afterMakeCNF forced aNode = forceFlag forced aNode"

section \<open>Flags, dependencies and superfluous nodes\<close>

fun setFlag_loop ::
  "qtcFlags \<Rightarrow> qcDepInfo \<Rightarrow> (qpError + 'p qtcNode) list \<Rightarrow>
   qpError + (qtcFlags \<times> qcDepInfo \<times> 'p qtcNode list)" where
  "setFlag_loop f d [] = Inr (f, d, [])"
| "setFlag_loop f d (r # rs) =
     andThen r (\<lambda>sNode.
     andThen (dependencyOr d (depInfo sNode)) (\<lambda>d1.
     andThen (setFlag_loop (orFlags f (lflag sNode)) d1 rs) (\<lambda>(f2, d2, ns). Inr (f2, d2, sNode # ns))))"

fun setFlagAndDependencies :: "'p qtcNode \<Rightarrow> qpError + 'p qtcNode" where
  "setFlagAndDependencies (LogicalNode oper f d args) =
     andThen (setFlag_loop f dependencyClear (map setFlagAndDependencies args))
       (\<lambda>(f1, d1, ns). Inr (LogicalNode oper f1 d1 ns))"
| "setFlagAndDependencies (NotNode f d a) =
     andThen (setFlagAndDependencies a) (\<lambda>n.
     andThen (dependencyOr dependencyClear (depInfo n)) (\<lambda>d1. Inr (NotNode (orFlags f (lflag n)) d1 n)))"
| "setFlagAndDependencies (PredicateNode f d p) = Inr (PredicateNode f d p)"

fun all_loop :: "(qpError + 'a) list \<Rightarrow> qpError + 'a list" where
  "all_loop [] = Inr []"
| "all_loop (r # rs) = andThen r (\<lambda>x. andThen (all_loop rs) (\<lambda>xs. Inr (x # xs)))"

fun optimizeForm :: "'p qtcNode \<Rightarrow> qpError + 'p qtcNode" where
  "optimizeForm (LogicalNode oper f d args) =
     (case args of
        [] \<Rightarrow> Inl AssertFailed
      | [a] \<Rightarrow> optimizeForm a
      | _ \<Rightarrow> andThen (all_loop (map optimizeForm args)) (\<lambda>ns. Inr (LogicalNode oper f d ns)))"
| "optimizeForm (NotNode f d a) = andThen (optimizeForm a) (\<lambda>n. Inr (NotNode f d n))"
| "optimizeForm (PredicateNode f d p) = Inr (PredicateNode f d p)"

section \<open>The part left out of a partial conjunctive normal form\<close>

fun copyNodeTree :: "'p qtcNode \<Rightarrow> qpError + 'p qtcNode" where
  "copyNodeTree (LogicalNode oper f d args) =
     (if args = [] then Inl NullDereference
      else andThen (all_loop (map copyNodeTree args)) (\<lambda>ns. Inr (LogicalNode oper f d ns)))"
| "copyNodeTree (NotNode f d a) = andThen (copyNodeTree a) (\<lambda>n. Inr (NotNode f d n))"
| "copyNodeTree (PredicateNode f d p) = Inr (PredicateNode f d p)"

definition copyUnusable :: "'p qtcNode \<Rightarrow> qpError + 'p qtcNode option" where
  "copyUnusable aNode =
     andThen (copyNodeTree aNode) (\<lambda>sNode.
     andThen (estimateNodeWithoutArgument (LogicalNode OPERATOR_AND noFlags dependencyClear [sNode]))
       (\<lambda>n. Inr (Some n)))"

fun makeNNF4CNFByCopyNodeTree :: "'p qtcNode \<Rightarrow> qpError + 'p qtcNode option" where
  "makeNNF4CNFByCopyNodeTree (LogicalNode oper f d args) =
     (if cnfUnusable f then copyUnusable (LogicalNode oper f d args)
      else (case oper of
              OPERATOR_AND \<Rightarrow> mergeArguments NullDereference addToMerge2 (map makeNNF4CNFByCopyNodeTree args)
            | OPERATOR_OR \<Rightarrow> Inr None))"
| "makeNNF4CNFByCopyNodeTree aNode =
     (if cnfUnusable (lflag aNode) then copyUnusable aNode else Inr None)"

definition extractNNFFilter4CNF :: "'p qtcNode \<Rightarrow> qpError + 'p qtcNode option" where
  "extractNNFFilter4CNF aNode =
     (if cnfUnusable (lflag aNode) then Inr (Some aNode)
      else andThen (makeNNF4CNFByCopyNodeTree aNode) (\<lambda>aNNF.
        (case aNNF of
           None \<Rightarrow> Inr None
         | Some n \<Rightarrow> andThen (setFlagAndDependencies n) (\<lambda>n1. Inr (Some n1)))))"

section \<open>Estimates\<close>

definition UINT_MAX :: nat where
  "UINT_MAX = 4294967295"

definition toUInt :: "nat \<Rightarrow> nat" where
  "toUInt sCount = (if sCount \<ge> UINT_MAX then UINT_MAX else sCount)"

text \<open>\<open>None\<close>: the loop returns \<open>UINT_MAX\<close> early.\<close>

fun estimateProduct_loop :: "nat \<Rightarrow> nat \<Rightarrow> nat list \<Rightarrow> nat option" where
  "estimateProduct_loop sCount sNNFCount [] = Some (sCount * sNNFCount)"
| "estimateProduct_loop sCount sNNFCount (c # cs) =
     (if sNNFCount + 1 \<noteq> 0 \<and> sCount \<ge> UINT_MAX div 2 then None
      else estimateProduct_loop (sCount * c) (sNNFCount + 1) cs)"

fun estimateSum_loop :: "nat \<Rightarrow> nat list \<Rightarrow> nat option" where
  "estimateSum_loop sCount [] = Some sCount"
| "estimateSum_loop sCount (c # cs) =
     (if c \<noteq> 0 \<and> sCount \<ge> UINT_MAX div 2 then None else estimateSum_loop (sCount + c) cs)"

definition countOf :: "nat option \<Rightarrow> nat" where
  "countOf r = (case r of None \<Rightarrow> UINT_MAX | Some sCount \<Rightarrow> toUInt sCount)"

fun estimateDNF :: "'p qtcNode \<Rightarrow> nat" where
  "estimateDNF (LogicalNode OPERATOR_AND f d args) =
     countOf (estimateProduct_loop 1 0 (map estimateDNF args))"
| "estimateDNF (LogicalNode OPERATOR_OR f d args) = countOf (estimateSum_loop 0 (map estimateDNF args))"
| "estimateDNF aNode = toUInt 1"

fun estimateCNF :: "'p qtcNode \<Rightarrow> nat" where
  "estimateCNF (LogicalNode OPERATOR_OR f d args) =
     countOf (estimateProduct_loop 1 0 (map estimateCNF args))"
| "estimateCNF (LogicalNode OPERATOR_AND f d args) = countOf (estimateSum_loop 0 (map estimateCNF args))"
| "estimateCNF aNode = toUInt 1"

text \<open>\<open>estimatePartialCNF\<close> marks the node \<open>aRoot\<close>, an ancestor or the node itself, as not usable for
  the normal form when the count grows beyond the limit.  Here \<open>hasRoot\<close> says that \<open>aRoot\<close> is an
  ancestor, and the result has the count, whether that ancestor is to be marked, and the node with
  the marks below it.  A loop that breaks leaves the rest of the arguments as they are.\<close>

definition markUnusable :: "bool \<Rightarrow> qtcFlags \<Rightarrow> qtcFlags" where
  "markUnusable b f = f\<lparr>cnfUnusable := cnfUnusable f \<or> b\<rparr>"

fun partialOr_loop ::
  "nat \<Rightarrow> nat \<Rightarrow> nat \<Rightarrow> ((nat \<times> bool \<times> 'p qtcNode) \<times> 'p qtcNode) list \<Rightarrow>
   nat \<times> bool \<times> 'p qtcNode list" where
  "partialOr_loop aNFMaximum sCount sNNFCount [] = (sCount * sNNFCount, False, [])"
| "partialOr_loop aNFMaximum sCount sNNFCount (((c, marked, n), _) # rs) =
     (if sCount * c * (sNNFCount + 1) > aNFMaximum
      then (sCount * c * (sNNFCount + 1), True, n # map snd rs)
      else (case partialOr_loop aNFMaximum (sCount * c) (sNNFCount + 1) rs of
              (c2, marked2, ns) \<Rightarrow> (c2, marked \<or> marked2, n # ns)))"

fun partialAnd_loop ::
  "nat \<Rightarrow> nat \<Rightarrow> ((nat \<times> bool \<times> 'p qtcNode) \<times> 'p qtcNode) list \<Rightarrow> nat \<times> bool \<times> 'p qtcNode list" where
  "partialAnd_loop aNFMaximum sCount [] = (sCount, False, [])"
| "partialAnd_loop aNFMaximum sCount (((c, marked, n), _) # rs) =
     (if sCount + c > aNFMaximum then (sCount + c, True, n # map snd rs)
      else (case partialAnd_loop aNFMaximum (sCount + c) rs of
              (c2, marked2, ns) \<Rightarrow> (c2, marked \<or> marked2, n # ns)))"

definition partialResult ::
  "bool \<Rightarrow> mtcOperator \<Rightarrow> qtcFlags \<Rightarrow> qcDepInfo \<Rightarrow> nat \<times> bool \<times> 'p qtcNode list \<Rightarrow>
   nat \<times> bool \<times> 'p qtcNode" where
  "partialResult hasRoot oper f d r =
     (case r of (sCount, marked, ns) \<Rightarrow>
       (toUInt (if cnfUnusable (markUnusable (\<not> hasRoot \<and> marked) f) then 0 else sCount),
        hasRoot \<and> marked,
        LogicalNode oper (markUnusable (\<not> hasRoot \<and> marked) f) d ns))"

fun estimatePartialCNF :: "nat \<Rightarrow> bool \<Rightarrow> 'p qtcNode \<Rightarrow> nat \<times> bool \<times> 'p qtcNode" where
  "estimatePartialCNF aNFMaximum hasRoot (LogicalNode oper f d args) =
     (case oper of
        OPERATOR_OR \<Rightarrow> partialResult hasRoot oper f d
          (partialOr_loop aNFMaximum 1 0 (map (\<lambda>a. (estimatePartialCNF aNFMaximum True a, a)) args))
      | OPERATOR_AND \<Rightarrow> partialResult hasRoot oper f d
          (partialAnd_loop aNFMaximum 0 (map (\<lambda>a. (estimatePartialCNF aNFMaximum hasRoot a, a)) args)))"
| "estimatePartialCNF aNFMaximum hasRoot aNode =
     (toUInt (if cnfUnusable (lflag aNode) then 0 else 1), False, aNode)"

text \<open>\<open>normalizeCheckCNFOnly\<close>: conditions for which only the conjunctive form is considered.\<close>

definition logicalCondition :: "'p qtcNode \<Rightarrow> bool" where
  "logicalCondition n = (case n of PredicateNode f d p \<Rightarrow> False | _ \<Rightarrow> True)"

definition normalizeCheckCNFOnly :: "'p qtcNode \<Rightarrow> bool" where
  "normalizeCheckCNFOnly aNode =
     (if subqueryExist (lflag aNode) then True
      else if columnRidExist (lflag aNode) then True
      else if isLogical OPERATOR_AND aNode then \<not> list_ex logicalCondition (arguments aNode)
      else if comparison (lflag aNode) then True
      else False)"

end
