(* ===== verification/NormalFormProps.thy ===== *)
theory NormalFormProps
  imports NormalForm
begin

text \<open>
  What the normalisation of \<open>NormalForm\<close> promises: the shape of the result, its three-valued value,
  and its size.  The clauses of a normal form are a list of lists of terms; \<open>addToMerge\<close> appends two
  such lists and \<open>productToMerge\<close> takes all unions of a clause of each.
\<close>

section \<open>Shape\<close>

fun dual :: "mtcOperator \<Rightarrow> mtcOperator" where
  "dual OPERATOR_AND = OPERATOR_OR"
| "dual OPERATOR_OR = OPERATOR_AND"

fun isClause :: "mtcOperator \<Rightarrow> 'p qtcNode \<Rightarrow> bool" where
  "isClause inner (LogicalNode oper f d args) \<longleftrightarrow>
     oper = inner \<and> args \<noteq> [] \<and> list_all (\<lambda>a. \<not> isAndOr a) args"
| "isClause inner n \<longleftrightarrow> False"

text \<open>A non-empty \<open>outer\<close> of non-empty clauses of terminal nodes.\<close>

fun isNF :: "mtcOperator \<Rightarrow> 'p qtcNode \<Rightarrow> bool" where
  "isNF outer (LogicalNode oper f d cs) \<longleftrightarrow> oper = outer \<and> cs \<noteq> [] \<and> list_all (isClause (dual outer)) cs"
| "isNF outer n \<longleftrightarrow> False"

definition terms :: "'p qtcNode \<Rightarrow> 'p qtcNode list list" where
  "terms n = map arguments (arguments n)"

definition termCount :: "'p qtcNode \<Rightarrow> nat" where
  "termCount n = sum_list (map length (terms n))"

fun nonEmpty :: "'p qtcNode \<Rightarrow> bool" where
  "nonEmpty (LogicalNode oper f d args) \<longleftrightarrow> args \<noteq> [] \<and> list_all nonEmpty args"
| "nonEmpty (NotNode f d a) \<longleftrightarrow> nonEmpty a"
| "nonEmpty (PredicateNode f d p) \<longleftrightarrow> True"

text \<open>Every node depends on tuples of \<open>S\<close>, the tables of the statement.\<close>

fun depsIn :: "u16 set \<Rightarrow> 'p qtcNode \<Rightarrow> bool" where
  "depsIn S (LogicalNode oper f d args) \<longleftrightarrow> depOk d \<and> tuplesOf d \<subseteq> S \<and> list_all (depsIn S) args"
| "depsIn S (NotNode f d a) \<longleftrightarrow> depOk d \<and> tuplesOf d \<subseteq> S \<and> depsIn S a"
| "depsIn S (PredicateNode f d p) \<longleftrightarrow> depOk d \<and> tuplesOf d \<subseteq> S"

fun noMarks :: "'p qtcNode \<Rightarrow> bool" where
  "noMarks (LogicalNode oper f d args) \<longleftrightarrow> \<not> cnfUnusable f \<and> list_all noMarks args"
| "noMarks n \<longleftrightarrow> \<not> cnfUnusable (lflag n)"

text \<open>No node outside a \<open>NOT\<close> has the subquery flag.\<close>

fun noSubquery :: "'p qtcNode \<Rightarrow> bool" where
  "noSubquery (LogicalNode oper f d args) \<longleftrightarrow> \<not> subqueryExist f \<and> list_all noSubquery args"
| "noSubquery n \<longleftrightarrow> \<not> subqueryExist (lflag n)"

lemma noSubquery_flag: "noSubquery n \<Longrightarrow> \<not> subqueryExist (lflag n)"
  by (cases n) auto

lemma isClause_obtain:
  assumes "isClause inner c"
  obtains f d args where "c = LogicalNode inner f d args" "args \<noteq> []" "\<forall>a \<in> set args. \<not> isAndOr a"
  using assms by (cases c) (auto simp: list_all_iff)

lemma isNF_obtain:
  assumes "isNF outer n"
  obtains f d cs where "n = LogicalNode outer f d cs" "cs \<noteq> []" "\<forall>c \<in> set cs. isClause (dual outer) c"
  using assms by (cases n) (auto simp: list_all_iff)

lemma depsIn_depInfo: "depsIn S n \<Longrightarrow> depOk (depInfo n) \<and> tuplesOf (depInfo n) \<subseteq> S"
  by (cases n) auto

section \<open>Values of normal forms\<close>

text \<open>\<open>clausesHold outer\<close>: for \<open>OPERATOR_OR\<close> all terms of some clause, for \<open>OPERATOR_AND\<close> some term
  of every clause.\<close>

fun clausesHold ::
  "('p \<Rightarrow> mtdBooleanType) \<Rightarrow> mtdBooleanType \<Rightarrow> mtcOperator \<Rightarrow> 'p qtcNode list list \<Rightarrow> bool" where
  "clausesHold v x OPERATOR_OR ts \<longleftrightarrow> (\<exists>c \<in> set ts. \<forall>a \<in> set c. holds v x a)"
| "clausesHold v x OPERATOR_AND ts \<longleftrightarrow> (\<forall>c \<in> set ts. \<exists>a \<in> set c. holds v x a)"

lemma holds_clause:
  "x \<noteq> MTD_BOOLEAN_FALSE \<Longrightarrow> isClause OPERATOR_AND c \<Longrightarrow>
     holds v x c \<longleftrightarrow> (\<forall>a \<in> set (arguments c). holds v x a)"
  "x \<noteq> MTD_BOOLEAN_FALSE \<Longrightarrow> isClause OPERATOR_OR c \<Longrightarrow>
     holds v x c \<longleftrightarrow> (\<exists>a \<in> set (arguments c). holds v x a)"
  by (auto elim!: isClause_obtain)

lemma holds_NF:
  assumes "x \<noteq> MTD_BOOLEAN_FALSE" "isNF outer n"
  shows "holds v x n \<longleftrightarrow> clausesHold v x outer (terms n)"
  using assms(2)
proof (rule isNF_obtain)
  fix f d cs
  assume n: "n = LogicalNode outer f d cs" and cs: "\<forall>c \<in> set cs. isClause (dual outer) c"
  show ?thesis
  proof (cases outer)
    case OPERATOR_AND
    then have "\<forall>c \<in> set cs. holds v x c \<longleftrightarrow> (\<exists>a \<in> set (arguments c). holds v x a)"
      using cs holds_clause(2) [OF assms(1)] by auto
    then show ?thesis
      using n OPERATOR_AND by (simp add: terms_def)
  next
    case OPERATOR_OR
    then have "\<forall>c \<in> set cs. holds v x c \<longleftrightarrow> (\<forall>a \<in> set (arguments c). holds v x a)"
      using cs holds_clause(1) [OF assms(1)] by auto
    then show ?thesis
      using n OPERATOR_OR assms(1) by (simp add: terms_def)
  qed
qed

definition products :: "'a list list \<Rightarrow> 'a list list \<Rightarrow> 'a list list" where
  "products ts us = concat (map (\<lambda>u. map (\<lambda>t. t @ u) ts) us)"

lemma clausesHold_products:
  "clausesHold v x OPERATOR_OR (products ts us) \<longleftrightarrow>
     clausesHold v x OPERATOR_OR ts \<and> clausesHold v x OPERATOR_OR us"
  "clausesHold v x OPERATOR_AND (products ts us) \<longleftrightarrow>
     clausesHold v x OPERATOR_AND ts \<or> clausesHold v x OPERATOR_AND us"
  by (simp_all add: products_def ball_Un bex_Un)

lemma clausesHold_append:
  "clausesHold v x OPERATOR_OR (ts @ us) \<longleftrightarrow>
     clausesHold v x OPERATOR_OR ts \<or> clausesHold v x OPERATOR_OR us"
  "clausesHold v x OPERATOR_AND (ts @ us) \<longleftrightarrow>
     clausesHold v x OPERATOR_AND ts \<and> clausesHold v x OPERATOR_AND us"
  by auto

lemma products_counts:
  "length (products ts us) = length ts * length us"
  "sum_list (map length (products ts us)) =
     sum_list (map length ts) * length us + length ts * sum_list (map length us)"
  by (induction us) (simp_all add: products_def comp_def sum_list_addf algebra_simps sum_list_triv)

section \<open>Merging\<close>

lemma addToMerge_NF:
  assumes "isNF outer m" "isNF outer n"
  shows "\<exists>r. addToMerge m n = Inr r \<and> isNF outer r \<and> terms r = terms m @ terms n"
  using assms by (auto elim!: isNF_obtain simp: addToMerge_def terms_def list_all_iff)

lemma appendTerms_clause:
  assumes "isClause inner c" "isClause inner n"
  shows "\<exists>r. appendTerms n c = Inr r \<and> isClause inner r \<and> arguments r = arguments c @ arguments n"
  using assms by (auto elim!: isClause_obtain simp: appendTerms_def list_all_iff)

lemma product_inner_clauses:
  assumes "isClause inner n" "\<forall>c \<in> set cs. isClause inner c"
  shows "\<exists>r. product_inner n cs = Inr r \<and> (\<forall>c \<in> set r. isClause inner c) \<and>
    map arguments r = map (\<lambda>t. t @ arguments n) (map arguments cs)"
  using assms(2)
proof (induction cs)
  case (Cons c cs)
  then obtain r where r: "product_inner n cs = Inr r" "\<forall>c \<in> set r. isClause inner c"
    "map arguments r = map (\<lambda>t. t @ arguments n) (map arguments cs)" by auto
  obtain c' where "appendTerms n c = Inr c'" "isClause inner c'" "arguments c' = arguments c @ arguments n"
    using appendTerms_clause [OF _ assms(1), of c] Cons.prems by auto
  then show ?case
    using r by simp
qed simp

lemma product_outer_clauses:
  assumes "\<forall>c \<in> set ps. isClause inner c" "\<forall>c \<in> set cs. isClause inner c"
  shows "\<exists>r. product_outer (length ps) cs (concat (replicate (length cs) ps)) = Inr r \<and>
    (\<forall>c \<in> set r. isClause inner c) \<and>
    map arguments r = products (map arguments ps) (map arguments cs)"
  using assms(2)
proof (induction cs)
  case (Cons c cs)
  then obtain r where r: "product_outer (length ps) cs (concat (replicate (length cs) ps)) = Inr r"
    "\<forall>c \<in> set r. isClause inner c" "map arguments r = products (map arguments ps) (map arguments cs)"
    by auto
  obtain q where q: "product_inner c ps = Inr q" "\<forall>c \<in> set q. isClause inner c"
    "map arguments q = map (\<lambda>t. t @ arguments c) (map arguments ps)"
    using product_inner_clauses [OF _ assms(1), of c] Cons.prems by auto
  have "product_outer (length ps) (c # cs) (concat (replicate (length (c # cs)) ps)) = Inr (q @ r)"
    using q(1) r(1) by simp
  moreover have "map arguments (q @ r) = products (map arguments ps) (map arguments (c # cs))"
    using q(3) r(3) by (simp add: products_def)
  ultimately show ?case
    using q(2) r(2) by (auto simp del: concat.simps)
qed (simp add: products_def)

lemma productToMerge_NF:
  assumes "isNF outer m" "isNF outer n"
  shows "\<exists>r. productToMerge m n = Inr r \<and> isNF outer r \<and> terms r = products (terms m) (terms n)"
proof -
  obtain f d ps where m: "m = LogicalNode outer f d ps" "ps \<noteq> []" "\<forall>c \<in> set ps. isClause (dual outer) c"
    using assms(1) by (rule isNF_obtain)
  obtain g e cs where n: "n = LogicalNode outer g e cs" "cs \<noteq> []" "\<forall>c \<in> set cs. isClause (dual outer) c"
    using assms(2) by (rule isNF_obtain)
  obtain r where r: "product_outer (length ps) cs (concat (replicate (length cs) ps)) = Inr r"
    "\<forall>c \<in> set r. isClause (dual outer) c" "map arguments r = products (map arguments ps) (map arguments cs)"
    using product_outer_clauses [OF m(3) n(3)] by auto
  have "ps @ concat (replicate (length cs - 1) ps) = concat (replicate (length cs) ps)"
    using n(2) by (cases cs) auto
  then have "productToMerge m n = Inr (LogicalNode outer f d r)"
    using m n r(1) by (simp add: productToMerge_def)
  moreover have "r \<noteq> []"
    using r(3) m(2) n(2) by (auto simp: products_def concat_eq_Nil_conv)
  ultimately show ?thesis
    using m n r by (auto simp: terms_def list_all_iff)
qed

lemma terminal_NF:
  assumes "\<not> isAndOr a" "depOk (depInfo a)"
  shows "\<exists>r. makeTerminal outer (dual outer) f a = Inr r \<and> isNF outer r \<and> terms r = [[a]]"
proof -
  have or: "dependencyOr [] d = Inr d" if "depOk d" for d
    using dependencyOr_result [OF _ that, of "[]"] that card_tuplesOf [of d]
    by (auto simp: depOk_def)
  show ?thesis
    using assms by (auto simp: makeTerminal_def estimateNodeWithoutArgument_def dependencyClear_def or terms_def)
qed

section \<open>Distribution\<close>

text \<open>The clauses of the disjunctive normal form.\<close>

fun clausesDNF :: "'p qtcNode \<Rightarrow> 'p qtcNode list list" where
  "clausesDNF (LogicalNode OPERATOR_AND f d args) = foldl products [[]] (map clausesDNF args)"
| "clausesDNF (LogicalNode OPERATOR_OR f d args) = concat (map clausesDNF args)"
| "clausesDNF a = [[a]]"

text \<open>The clauses of the conjunctive normal form, without the parts that are marked.\<close>

fun clausesCNF :: "bool \<Rightarrow> 'p qtcNode \<Rightarrow> 'p qtcNode list list" where
  "clausesCNF forced (LogicalNode oper f d args) =
     (if cnfUnusable f then []
      else (case oper of OPERATOR_AND \<Rightarrow> concat | OPERATOR_OR \<Rightarrow> foldl products [[]])
        (case args of [] \<Rightarrow> []
         | a # as \<Rightarrow> clausesCNF (pushedPredForce f \<or> forced) a # map (clausesCNF False) as))"
| "clausesCNF forced a = (if cnfUnusable (lflag a) then [] else [[forceFlag forced a]])"

lemma products_unit [simp]: "products [[]] ts = ts"
  by (induction ts) (simp_all add: products_def)

lemma clausesHold_concat:
  "clausesHold v x OPERATOR_OR (concat tss) \<longleftrightarrow> (\<exists>ts \<in> set tss. clausesHold v x OPERATOR_OR ts)"
  "clausesHold v x OPERATOR_AND (concat tss) \<longleftrightarrow> (\<forall>ts \<in> set tss. clausesHold v x OPERATOR_AND ts)"
  by auto

lemma clausesHold_foldl_products:
  "clausesHold v x OPERATOR_OR (foldl products ts tss) \<longleftrightarrow>
     clausesHold v x OPERATOR_OR ts \<and> (\<forall>us \<in> set tss. clausesHold v x OPERATOR_OR us)"
  "clausesHold v x OPERATOR_AND (foldl products ts tss) \<longleftrightarrow>
     clausesHold v x OPERATOR_AND ts \<or> (\<exists>us \<in> set tss. clausesHold v x OPERATOR_AND us)"
  by (induction tss arbitrary: ts) (auto simp only: clausesHold_products foldl.simps list.set ball_simps bex_simps)

lemma clausesDNF_holds:
  "x \<noteq> MTD_BOOLEAN_FALSE \<Longrightarrow> clausesHold v x OPERATOR_OR (clausesDNF n) \<longleftrightarrow> holds v x n"
proof (induction n rule: clausesDNF.induct)
  case (1 f d args)
  then show ?case
    unfolding clausesDNF.simps clausesHold_foldl_products by simp
next
  case (2 f d args)
  then show ?case
    unfolding clausesDNF.simps clausesHold_concat by simp
qed simp_all

lemma merge_loop_sum:
  assumes "isNF outer m" "list_all (isNF outer) ms"
  shows "\<exists>r. merge_loop addToMerge m (map Inr ms) = Inr r \<and> isNF outer r \<and>
    terms r = terms m @ concat (map terms ms)"
  using assms
proof (induction ms arbitrary: m)
  case (Cons n ms)
  then obtain r where "addToMerge m n = Inr r" "isNF outer r" "terms r = terms m @ terms n"
    using addToMerge_NF [of outer m n] by auto
  then show ?case
    using Cons.IH [of r] Cons.prems by simp
qed simp

lemma merge_loop_product:
  assumes "isNF outer m" "list_all (isNF outer) ms"
  shows "\<exists>r. merge_loop productToMerge m (map Inr ms) = Inr r \<and> isNF outer r \<and>
    terms r = foldl products (terms m) (map terms ms)"
  using assms
proof (induction ms arbitrary: m)
  case (Cons n ms)
  then obtain r where "productToMerge m n = Inr r" "isNF outer r" "terms r = products (terms m) (terms n)"
    using productToMerge_NF [of outer m n] by auto
  then show ?case
    using Cons.IH [of r] Cons.prems by simp
qed simp

lemma makeDNF_clauses:
  assumes "nonEmpty n" "depsIn S n"
  shows "\<exists>m. makeDNF n = Inr m \<and> isNF OPERATOR_OR m \<and> terms m = clausesDNF n"
  using assms
proof (induction n rule: makeDNF.induct [case_names "1" "2" notNode predicate])
  case (1 f d args)
  then have "\<forall>a \<in> set args. \<exists>m. makeDNF a = Inr m \<and> isNF OPERATOR_OR m \<and> terms m = clausesDNF a"
    by (auto simp: list_all_iff)
  then obtain g where g: "\<forall>a \<in> set args. makeDNF a = Inr (g a) \<and> isNF OPERATOR_OR (g a) \<and>
      terms (g a) = clausesDNF a"
    by metis
  obtain a as where args: "args = a # as"
    using "1.prems"(1) by (cases args) auto
  have eq: "map makeDNF as = map (Inr \<circ> g) as" "map clausesDNF as = map (terms \<circ> g) as"
    using g args by auto
  show ?case
    using merge_loop_product [of OPERATOR_OR "g a" "map g as"] g
    by (simp add: args eq list_all_iff)
next
  case (2 f d args)
  then have "\<forall>a \<in> set args. \<exists>m. makeDNF a = Inr m \<and> isNF OPERATOR_OR m \<and> terms m = clausesDNF a"
    by (auto simp: list_all_iff)
  then obtain g where g: "\<forall>a \<in> set args. makeDNF a = Inr (g a) \<and> isNF OPERATOR_OR (g a) \<and>
      terms (g a) = clausesDNF a"
    by metis
  obtain a as where args: "args = a # as"
    using "2.prems"(1) by (cases args) auto
  have eq: "map makeDNF as = map (Inr \<circ> g) as" "map clausesDNF as = map (terms \<circ> g) as"
    using g args by auto
  show ?case
    using merge_loop_sum [of OPERATOR_OR "g a" "map g as"] g
    by (simp add: args eq list_all_iff)
next
  case (notNode f d a)
  then show ?case
    using terminal_NF [of "NotNode f d a" OPERATOR_OR] by simp
next
  case (predicate f d p)
  then show ?case
    using terminal_NF [of "PredicateNode f d p" OPERATOR_OR] by simp
qed

section \<open>Parts left out\<close>

definition optNF :: "mtcOperator \<Rightarrow> 'p qtcNode option \<Rightarrow> bool" where
  "optNF outer r = (case r of None \<Rightarrow> True | Some m \<Rightarrow> isNF outer m)"

definition optTerms :: "'p qtcNode option \<Rightarrow> 'p qtcNode list list" where
  "optTerms r = (case r of None \<Rightarrow> [] | Some m \<Rightarrow> terms m)"

lemma opt_simps [simp]:
  "optNF outer None" "optNF outer (Some m) = isNF outer m" "optTerms None = []" "optTerms (Some m) = terms m"
  by (simp_all add: optNF_def optTerms_def)

text \<open>No part below an \<open>OR\<close> that is normalised is left out.\<close>

fun marksOk :: "'p qtcNode \<Rightarrow> bool" where
  "marksOk (LogicalNode oper f d args) \<longleftrightarrow> cnfUnusable f \<or>
     (case oper of OPERATOR_AND \<Rightarrow> list_all marksOk args | OPERATOR_OR \<Rightarrow> list_all noMarks args)"
| "marksOk n \<longleftrightarrow> \<not> cnfUnusable (lflag n)"

lemma noMarks_marksOk: "noMarks n \<Longrightarrow> marksOk n"
  by (induction n rule: marksOk.induct) (auto simp: list_all_iff split: mtcOperator.splits)

lemma merge_loop_sum2:
  assumes "optNF outer m" "list_all (optNF outer) ms"
  shows "\<exists>r. merge_loop addToMerge2 m (map Inr ms) = Inr r \<and> optNF outer r \<and>
    optTerms r = optTerms m @ concat (map optTerms ms) \<and> (m \<noteq> None \<longrightarrow> r \<noteq> None)"
  using assms
proof (induction ms arbitrary: m)
  case (Cons n ms)
  have "\<exists>r. addToMerge2 m n = Inr r \<and> optNF outer r \<and> optTerms r = optTerms m @ optTerms n \<and>
      (m \<noteq> None \<longrightarrow> r \<noteq> None)"
    using Cons.prems addToMerge_NF [of outer "the m" "the n"]
    by (cases m; cases n) (auto simp: addToMerge2_def)
  then obtain r where r: "addToMerge2 m n = Inr r" "optNF outer r" "optTerms r = optTerms m @ optTerms n"
    "m \<noteq> None \<longrightarrow> r \<noteq> None"
    by blast
  then show ?case
    using Cons.IH [of r] Cons.prems by auto
qed simp

lemma merge_loop_product2:
  assumes "isNF outer m" "list_all (isNF outer) ms"
  shows "\<exists>r. merge_loop productToMerge2 (Some m) (map (\<lambda>m. Inr (Some m)) ms) = Inr (Some r) \<and>
    isNF outer r \<and> terms r = foldl products (terms m) (map terms ms)"
  using assms
proof (induction ms arbitrary: m)
  case (Cons n ms)
  then obtain r where "productToMerge m n = Inr r" "isNF outer r" "terms r = products (terms m) (terms n)"
    using productToMerge_NF [of outer m n] by auto
  then show ?case
    using Cons.IH [of r] Cons.prems by (simp add: productToMerge2_def)
qed simp

lemma forceFlag_simps [simp]:
  "isAndOr (forceFlag forced n) = isAndOr n" "depInfo (forceFlag forced n) = depInfo n"
  "lflag (forceFlag forced n) = (lflag n)\<lparr>pushedPredForce := pushedPredForce (lflag n) \<or> forced\<rparr>"
  "holds v x (forceFlag forced n) = holds v x n" "calculate v (forceFlag forced n) = calculate v n"
proof -
  show "holds v x (forceFlag forced n) = holds v x n" "calculate v (forceFlag forced n) = calculate v n"
    by (simp_all add: forceFlag_def)
  show "isAndOr (forceFlag forced n) = isAndOr n" "depInfo (forceFlag forced n) = depInfo n"
    "lflag (forceFlag forced n) = (lflag n)\<lparr>pushedPredForce := pushedPredForce (lflag n) \<or> forced\<rparr>"
    unfolding forceFlag_def by (cases n, simp_all)+
qed

lemma terminal_CNF:
  assumes "\<not> isAndOr a" "depsIn S a" "\<not> cnfUnusable (lflag a)"
  shows "\<exists>r. makeCNF forced a = Inr r \<and> optNF OPERATOR_AND r \<and> optTerms r = clausesCNF forced a \<and>
    (noMarks a \<longrightarrow> r \<noteq> None)"
proof -
  have deps: "depOk (depInfo (forceFlag forced a))"
    using depsIn_depInfo [OF assms(2)] by simp
  obtain r where r: "makeTerminal OPERATOR_AND OPERATOR_OR
        (noFlags\<lparr>pushedPredForce := pushedPredForce (lflag a) \<or> forced\<rparr>) (forceFlag forced a) = Inr r"
      "isNF OPERATOR_AND r" "terms r = [[forceFlag forced a]]"
    using terminal_NF [OF _ deps, of OPERATOR_AND] assms(1) by auto
  show ?thesis
    using r assms(1,3) by (cases a) auto
qed

lemma makeCNF_clauses:
  assumes "nonEmpty n" "depsIn S n" "marksOk n"
  shows "\<exists>r. makeCNF forced n = Inr r \<and> optNF OPERATOR_AND r \<and> optTerms r = clausesCNF forced n \<and>
    (noMarks n \<longrightarrow> r \<noteq> None)"
  using assms
proof (induction forced n rule: makeCNF.induct [case_names "1" notNode predicate])
  case (1 forced oper f d args)
  show ?case
  proof (cases "cnfUnusable f")
    case False
    obtain a as where args: "args = a # as"
      using "1.prems"(1) by (cases args) auto
    have ok: "\<forall>b \<in> set args. nonEmpty b \<and> depsIn S b \<and> marksOk b"
      using "1.prems" False noMarks_marksOk by (cases oper) (auto simp: list_all_iff)
    obtain m where m: "makeCNF (pushedPredForce f \<or> forced) a = Inr m" "optNF OPERATOR_AND m"
        "optTerms m = clausesCNF (pushedPredForce f \<or> forced) a" "noMarks a \<longrightarrow> m \<noteq> None"
      using "1.IH"(1) [OF False args] ok args by auto
    have "\<forall>b \<in> set as. \<exists>r. makeCNF False b = Inr r \<and> optNF OPERATOR_AND r \<and>
        optTerms r = clausesCNF False b \<and> (noMarks b \<longrightarrow> r \<noteq> None)"
      using "1.IH"(2) [OF False args] ok args by auto
    then obtain g where g: "\<forall>b \<in> set as. makeCNF False b = Inr (g b) \<and> optNF OPERATOR_AND (g b) \<and>
        optTerms (g b) = clausesCNF False b \<and> (noMarks b \<longrightarrow> g b \<noteq> None)"
      by metis
    have eq: "map (makeCNF False) as = map Inr (map g as)" "map optTerms (map g as) = map (clausesCNF False) as"
      "list_all (optNF OPERATOR_AND) (map g as)"
      using g by (auto simp: list_all_iff)
    show ?thesis
    proof (cases oper)
      case OPERATOR_AND
      then show ?thesis
        using merge_loop_sum2 [OF m(2) eq(3), unfolded eq m(3)] False m
        by (auto simp: args eq(1) simp del: map_map)
    next
      case OPERATOR_OR
      then have marks: "\<forall>b \<in> set args. noMarks b"
        using "1.prems"(3) False by (simp add: list_all_iff)
      obtain m' where m': "m = Some m'"
        using m(4) marks args by auto
      define h where "h = the \<circ> g"
      have g': "\<forall>b \<in> set as. makeCNF False b = Inr (Some (h b)) \<and> isNF OPERATOR_AND (h b) \<and>
          terms (h b) = clausesCNF False b"
        using g marks args by (auto simp: h_def)
      then have eq': "map (makeCNF False) as = map (\<lambda>m. Inr (Some m)) (map h as)"
        "map (clausesCNF False) as = map terms (map h as)" "list_all (isNF OPERATOR_AND) (map h as)"
        by (auto simp: list_all_iff)
      show ?thesis
        using merge_loop_product2 [OF _ eq'(3), of m', folded eq'(1,2)] m m' False OPERATOR_OR
        by (auto simp: args)
    qed
  qed simp
next
  case (notNode forced f d a)
  then show ?case
    using terminal_CNF [of "NotNode f d a" S forced] by simp
next
  case (predicate forced f d p)
  then show ?case
    using terminal_CNF [of "PredicateNode f d p" S forced] by simp
qed

text \<open>The parts left out of the normal form, for the filter.\<close>

fun leftOut :: "'p qtcNode \<Rightarrow> 'p qtcNode list" where
  "leftOut (LogicalNode oper f d args) =
     (if cnfUnusable f then [LogicalNode oper f d args]
      else (case oper of OPERATOR_AND \<Rightarrow> concat (map leftOut args) | OPERATOR_OR \<Rightarrow> []))"
| "leftOut n = (if cnfUnusable (lflag n) then [n] else [])"

lemma all_loop_Inr: "\<forall>a \<in> set as. g a = Inr (h a) \<Longrightarrow> all_loop (map g as) = Inr (map h as)"
  by (induction as) auto

lemma copyNodeTree_id: "nonEmpty n \<Longrightarrow> copyNodeTree n = Inr n"
proof (induction n rule: copyNodeTree.induct)
  case (1 oper f d args)
  then show ?case
    using all_loop_Inr [of args copyNodeTree "\<lambda>n. n"] by (auto simp: list_all_iff)
qed auto

lemma dependencyOr_empty [simp]: "depOk d \<Longrightarrow> dependencyOr [] d = Inr d"
  using dependencyOr_result [of "[]" d] card_tuplesOf [of d] by (auto simp: depOk_def)

lemma copyUnusable_result:
  assumes "nonEmpty n" "depsIn S n"
  shows "\<exists>f d. copyUnusable n = Inr (Some (LogicalNode OPERATOR_AND f d [n]))"
  using assms depsIn_depInfo [of S n]
  by (auto simp: copyUnusable_def copyNodeTree_id estimateNodeWithoutArgument_def dependencyClear_def)

definition isFilter :: "'p qtcNode list \<Rightarrow> 'p qtcNode option \<Rightarrow> bool" where
  "isFilter ns r \<longleftrightarrow> (case r of None \<Rightarrow> ns = []
     | Some m \<Rightarrow> ns \<noteq> [] \<and> (\<exists>f d. m = LogicalNode OPERATOR_AND f d ns))"

lemma addToMerge2_filter:
  "isFilter ms m \<Longrightarrow> isFilter ns n \<Longrightarrow> \<exists>r. addToMerge2 m n = Inr r \<and> isFilter (ms @ ns) r"
  by (cases m; cases n) (auto simp: isFilter_def addToMerge2_def addToMerge_def)

lemma merge_loop_filter:
  assumes "isFilter ms m" "\<forall>n \<in> set ns. isFilter (l n) (g n)"
  shows "\<exists>r. merge_loop addToMerge2 m (map (Inr \<circ> g) ns) = Inr r \<and> isFilter (ms @ concat (map l ns)) r"
  using assms
proof (induction ns arbitrary: m ms)
  case (Cons n ns)
  then obtain r where "addToMerge2 m (g n) = Inr r" "isFilter (ms @ l n) r"
    using addToMerge2_filter [of ms m "l n" "g n"] by auto
  then show ?case
    using Cons.IH [of "ms @ l n" r] Cons.prems by simp
qed simp

lemma makeNNF_leftOut:
  assumes "nonEmpty n" "depsIn S n"
  shows "\<exists>r. makeNNF4CNFByCopyNodeTree n = Inr r \<and> isFilter (leftOut n) r"
  using assms
proof (induction n rule: makeNNF4CNFByCopyNodeTree.induct [case_names "1" notNode predicate])
  case (1 oper f d args)
  consider (marked) "cnfUnusable f" | (and_) "\<not> cnfUnusable f" "oper = OPERATOR_AND"
    | (or_) "\<not> cnfUnusable f" "oper = OPERATOR_OR"
    by (cases oper) auto
  then show ?case
  proof cases
    case marked
    then show ?thesis
      using copyUnusable_result [OF "1.prems"] by (auto simp: isFilter_def)
  next
    case and_
    obtain a as where args: "args = a # as"
      using "1.prems"(1) by (cases args) auto
    have "\<forall>b \<in> set args. \<exists>r. makeNNF4CNFByCopyNodeTree b = Inr r \<and> isFilter (leftOut b) r"
      using "1.IH" [OF and_] "1.prems" by (auto simp: list_all_iff)
    then obtain g where g: "\<forall>b \<in> set args. makeNNF4CNFByCopyNodeTree b = Inr (g b) \<and> isFilter (leftOut b) (g b)"
      by metis
    have eq: "map makeNNF4CNFByCopyNodeTree as = map (Inr \<circ> g) as"
      using g args by auto
    show ?thesis
      using merge_loop_filter [of "leftOut a" "g a" as leftOut g] g and_ by (simp add: args eq)
  next
    case or_
    then show ?thesis by (simp add: isFilter_def)
  qed
next
  case (notNode f d a)
  then show ?case
    using copyUnusable_result [of "NotNode f d a" S] by (auto simp: isFilter_def)
next
  case (predicate f d p)
  then show ?case
    using copyUnusable_result [of "PredicateNode f d p" S] by (auto simp: isFilter_def)
qed

subsection \<open>Value of the parts\<close>

lemma afterMakeCNF_flags [simp]:
  "cnfUnusable (lflag (afterMakeCNF forced n)) = cnfUnusable (lflag n)"
  by (cases n) (simp_all add: forceFlag_def)

lemma calculate_args_cong:
  "map (calculate v) args = map (calculate v) args' \<Longrightarrow>
   calculate v (LogicalNode oper f d args) = calculate v (LogicalNode oper f' d' args')"
  by (cases oper) simp_all

lemma forceFlag_kept [simp]:
  "nonEmpty (forceFlag forced n) = nonEmpty n" "depsIn S (forceFlag forced n) = depsIn S n"
  unfolding forceFlag_def by (cases n, simp_all)+

lemma afterMakeCNF_kept [simp]:
  "nonEmpty (afterMakeCNF forced n) \<longleftrightarrow> nonEmpty n"
  "depsIn S (afterMakeCNF forced n) \<longleftrightarrow> depsIn S n"
  "calculate v (afterMakeCNF forced n) = calculate v n"
proof -
  have "(nonEmpty (afterMakeCNF forced n) \<longleftrightarrow> nonEmpty n) \<and>
    (depsIn S (afterMakeCNF forced n) \<longleftrightarrow> depsIn S n) \<and> calculate v (afterMakeCNF forced n) = calculate v n"
  proof (induction forced n rule: afterMakeCNF.induct)
    case (1 forced oper f d args)
    show ?case
    proof (cases "cnfUnusable f \<or> args = []")
      case False
      then obtain a as where args: "args = a # as" by (cases args) auto
      have f: "\<not> cnfUnusable f" using False by simp
      note ih = "1.IH"(1) [OF f args] "1.IH"(2) [OF f args]
      have "calculate v (afterMakeCNF forced (LogicalNode oper f d args)) =
          calculate v (LogicalNode oper f d args)"
        using ih f unfolding args by (simp, intro calculate_args_cong) simp
      then show ?thesis
        using ih f by (auto simp: args list_all_iff)
    qed auto
  qed simp_all
  then show "nonEmpty (afterMakeCNF forced n) \<longleftrightarrow> nonEmpty n"
    "depsIn S (afterMakeCNF forced n) \<longleftrightarrow> depsIn S n" "calculate v (afterMakeCNF forced n) = calculate v n"
    by simp_all
qed

lemma holds_afterMakeCNF [simp]: "holds v x (afterMakeCNF forced n) = holds v x n"
  by (simp add: holds_def)

lemma clausesCNF_holds:
  assumes "x \<noteq> MTD_BOOLEAN_FALSE" "nonEmpty n" "noMarks n"
  shows "clausesHold v x OPERATOR_AND (clausesCNF forced n) \<longleftrightarrow> holds v x n"
  using assms(2,3)
proof (induction forced n rule: clausesCNF.induct)
  case (1 forced oper f d args)
  then obtain a as where args: "args = a # as" by (cases args) auto
  have f: "\<not> cnfUnusable f" using "1.prems" by simp
  note ih = "1.IH"(1) [OF f args] "1.IH"(2) [OF f args]
  show ?case
  proof (cases oper)
    case OPERATOR_AND
    then show ?thesis
      using ih f "1.prems" unfolding args
      by (simp del: concat.simps clausesHold.simps add: clausesHold_concat list_all_iff)
  next
    case OPERATOR_OR
    then show ?thesis
      using ih f "1.prems" assms(1) unfolding args
      by (simp del: foldl.simps clausesHold.simps add: clausesHold_foldl_products list_all_iff) simp
  qed
qed simp_all

lemma clausesCNF_leftOut:
  assumes "x \<noteq> MTD_BOOLEAN_FALSE" "nonEmpty n" "marksOk n"
  shows "holds v x n \<longleftrightarrow> clausesHold v x OPERATOR_AND (clausesCNF forced n) \<and>
    (\<forall>m \<in> set (leftOut (afterMakeCNF forced n)). holds v x m)"
  using assms(2,3)
proof (induction forced n rule: clausesCNF.induct)
  case (1 forced oper f d args)
  then obtain a as where args: "args = a # as" by (cases args) auto
  consider (marked) "cnfUnusable f" | (and_) "\<not> cnfUnusable f" "oper = OPERATOR_AND"
    | (or_) "\<not> cnfUnusable f" "oper = OPERATOR_OR"
    by (cases oper) auto
  then show ?case
  proof cases
    case marked
    then have "leftOut (afterMakeCNF forced (LogicalNode oper f d args)) =
        [forceFlag forced (LogicalNode oper f d args)]"
      by (simp add: forceFlag_def)
    then show ?thesis
      using marked by (simp del: afterMakeCNF.simps)
  next
    case and_
    note ih = "1.IH"(1) [OF and_(1) args] "1.IH"(2) [OF and_(1) args]
    show ?thesis
      using ih and_ "1.prems" unfolding args
      by (auto simp del: concat.simps clausesHold.simps simp: clausesHold_concat list_all_iff forceFlag_def)
  next
    case or_
    then have "noMarks (LogicalNode oper f d args)"
      using "1.prems" by simp
    then show ?thesis
      using clausesCNF_holds [OF assms(1) "1.prems"(1)] or_ by (auto simp: forceFlag_def)
  qed
qed (simp_all add: forceFlag_def holds_def)

section \<open>Flags and dependencies\<close>

text \<open>A tree up to the flags and dependencies of its inner nodes.\<close>

fun erase :: "'p qtcNode \<Rightarrow> 'p qtcNode" where
  "erase (LogicalNode oper f d args) = LogicalNode oper noFlags [] (map erase args)"
| "erase (NotNode f d a) = NotNode noFlags [] (erase a)"
| "erase (PredicateNode f d p) = PredicateNode f d p"

fun leafTuples :: "'p qtcNode \<Rightarrow> u16 set" where
  "leafTuples (LogicalNode oper f d args) = \<Union> (set (map leafTuples args))"
| "leafTuples (NotNode f d a) = leafTuples a"
| "leafTuples (PredicateNode f d p) = tuplesOf d"

fun leavesOk :: "'p qtcNode \<Rightarrow> bool" where
  "leavesOk (LogicalNode oper f d args) \<longleftrightarrow> list_all leavesOk args"
| "leavesOk (NotNode f d a) \<longleftrightarrow> leavesOk a"
| "leavesOk (PredicateNode f d p) \<longleftrightarrow> depOk d"

lemma finite_leafTuples [simp]: "finite (leafTuples n)"
  by (induction n) auto

lemma calculate_erase [simp]: "calculate v (erase n) = calculate v n"
proof (induction n)
  case (LogicalNode oper f d args)
  then show ?case
    by (simp, intro calculate_args_cong) simp
qed simp_all

lemma erase_calculate: "erase m = erase n \<Longrightarrow> calculate v m = calculate v n"
  by (metis calculate_erase)

lemma isAndOr_erase [simp]: "isAndOr (erase n) = isAndOr n"
  by (cases n) simp_all

lemma isClause_erase [simp]: "isClause inner (erase n) = isClause inner n"
  by (cases n) (auto simp: list_all_iff)

lemma isNF_erase [simp]: "isNF outer (erase n) = isNF outer n"
  by (cases n) (auto simp: list_all_iff)

lemma arguments_erase [simp]: "arguments (erase n) = map erase (arguments n)"
  by (cases n) simp_all

lemma termCount_erase [simp]: "termCount (erase n) = termCount n"
  by (simp add: termCount_def terms_def comp_def)

lemma dependencyOr_union:
  assumes "depOk a" "depOk b"
  shows "(\<exists>d. dependencyOr a b = Inr d \<and> depOk d \<and> tuplesOf d = tuplesOf a \<union> tuplesOf b) \<or>
    dependencyOr a b = Inl TooManyTables \<and> card (tuplesOf a \<union> tuplesOf b) > QC_MAX_REF_TABLE_CNT"
proof -
  have asc: "sorted_wrt (<) (map fst a)" "sorted_wrt (<) (map fst b)"
    using assms by (auto simp: depOk_def)
  note m = mergedDeps_map [OF asc]
  have t: "tuplesOf (mergedDeps a b) = tuplesOf a \<union> tuplesOf b"
    using m by (simp add: tuplesOf_dom)
  moreover have "length (mergedDeps a b) = card (tuplesOf a \<union> tuplesOf b)"
    using card_tuplesOf [OF conjunct2 [OF m]] t by simp
  ultimately show ?thesis
    using m by (auto simp: dependencyOr_result [OF assms] depOk_def)
qed

text \<open>The outcome of a computation over a tree \<open>n\<close> whose tuples are \<open>T\<close>.\<close>

definition collected :: "u16 set \<Rightarrow> ('a \<Rightarrow> bool) \<Rightarrow> qpError + 'a \<Rightarrow> bool" where
  "collected T P r \<longleftrightarrow> (\<exists>m. r = Inr m \<and> P m) \<or> r = Inl TooManyTables \<and> card T > QC_MAX_REF_TABLE_CNT"

lemma setFlag_loop_collected:
  assumes "depOk d" "tuplesOf d \<subseteq> T" "finite T"
    "\<forall>n \<in> set ns. leafTuples n \<subseteq> T \<and>
       collected T (\<lambda>m. erase m = erase n \<and> depOk (depInfo m) \<and> tuplesOf (depInfo m) = leafTuples n) (g n)"
  shows "collected T (\<lambda>(f1, d1, ms). map erase ms = map erase ns \<and> depOk d1 \<and>
    tuplesOf d1 = tuplesOf d \<union> \<Union> (leafTuples ` set ns)) (setFlag_loop f d (map g ns))"
  using assms
proof (induction ns arbitrary: f d)
  case (Cons n ns)
  have "collected T (\<lambda>m. erase m = erase n \<and> depOk (depInfo m) \<and> tuplesOf (depInfo m) = leafTuples n) (g n)"
    and sub: "leafTuples n \<subseteq> T"
    using Cons.prems(4) by auto
  then consider (ok) m where "g n = Inr m" "erase m = erase n" "depOk (depInfo m)"
      "tuplesOf (depInfo m) = leafTuples n"
    | (err) "g n = Inl TooManyTables" "card T > QC_MAX_REF_TABLE_CNT"
    by (auto simp: collected_def)
  then show ?case
  proof cases
    case ok
    have big: "card T > QC_MAX_REF_TABLE_CNT" if "card (tuplesOf d \<union> tuplesOf (depInfo m)) > QC_MAX_REF_TABLE_CNT"
    proof -
      have "card (tuplesOf d \<union> tuplesOf (depInfo m)) \<le> card T"
        by (rule card_mono) (use Cons.prems(2,3) sub ok(4) in auto)
      then show ?thesis using that by simp
    qed
    from dependencyOr_union [OF Cons.prems(1) ok(3)] show ?thesis
    proof (elim disjE exE conjE)
      fix e assume e: "dependencyOr d (depInfo m) = Inr e" "depOk e" "tuplesOf e = tuplesOf d \<union> tuplesOf (depInfo m)"
      have "tuplesOf e \<subseteq> T"
        using e(3) Cons.prems(2) sub ok(4) by simp
      from Cons.IH [OF e(2) this Cons.prems(3), of "orFlags f (lflag m)"] Cons.prems(4) show ?thesis
        using e ok by (auto simp: collected_def)
    qed (use ok big in \<open>auto simp: collected_def\<close>)
  qed (simp add: collected_def)
qed (simp add: collected_def)

lemma leafTuples_member: "a \<in> set args \<Longrightarrow> leafTuples a \<subseteq> leafTuples (LogicalNode oper f d args)"
  by auto

lemma collected_mono:
  assumes "collected T P r" "T \<subseteq> U" "finite U" "\<And>m. P m \<Longrightarrow> Q m"
  shows "collected U Q r"
  using assms card_mono [OF assms(3,2)] by (auto simp: collected_def)

lemma setFlagAndDependencies_collected:
  assumes "leavesOk n"
  shows "collected (leafTuples n) (\<lambda>m. erase m = erase n \<and> depOk (depInfo m) \<and>
    tuplesOf (depInfo m) = leafTuples n) (setFlagAndDependencies n)"
  using assms
proof (induction n)
  case (LogicalNode oper f d args)
  let ?T = "leafTuples (LogicalNode oper f d args)"
  have "\<forall>a \<in> set args. leafTuples a \<subseteq> ?T \<and> collected ?T (\<lambda>m. erase m = erase a \<and> depOk (depInfo m) \<and>
      tuplesOf (depInfo m) = leafTuples a) (setFlagAndDependencies a)"
  proof
    fix a assume a: "a \<in> set args"
    then have "leavesOk a"
      using LogicalNode.prems by (auto simp: list_all_iff)
    from collected_mono [OF LogicalNode.IH [OF a this] leafTuples_member [OF a] finite_leafTuples]
    show "leafTuples a \<subseteq> ?T \<and> collected ?T (\<lambda>m. erase m = erase a \<and> depOk (depInfo m) \<and>
      tuplesOf (depInfo m) = leafTuples a) (setFlagAndDependencies a)"
      using leafTuples_member [OF a, of oper f d] by simp
  qed
  from setFlag_loop_collected [OF _ _ finite_leafTuples this, of "[]" f] show ?case
    by (auto simp: collected_def dependencyClear_def depOk_def)
next
  case (NotNode f d a)
  then have "collected (leafTuples a) (\<lambda>m. erase m = erase a \<and> depOk (depInfo m) \<and>
      tuplesOf (depInfo m) = leafTuples a) (setFlagAndDependencies a)" by simp
  then show ?case
    by (auto simp: collected_def dependencyClear_def)
qed (simp add: collected_def)

text \<open>C39: \<open>setFlagAndDependencies\<close> changes neither the tree nor its value, and gives the root the
  tuples of all its predicates; it fails only when these are more than \<open>QC_MAX_REF_TABLE_CNT\<close>.\<close>

theorem setFlagAndDependencies_tuples:
  assumes "leavesOk n"
  shows "case setFlagAndDependencies n of
      Inr m \<Rightarrow> erase m = erase n \<and> calculate v m = calculate v n \<and> depOk (depInfo m) \<and>
        tuplesOf (depInfo m) = leafTuples n
    | Inl e \<Rightarrow> e = TooManyTables \<and> card (leafTuples n) > QC_MAX_REF_TABLE_CNT"
  using setFlagAndDependencies_collected [OF assms] erase_calculate
  by (auto simp: collected_def)

theorem setFlagAndDependencies_tuples_witness:
  "case setFlagAndDependencies (LogicalNode OPERATOR_OR noFlags []
      [PredicateNode noFlags [(3, 1)] False, PredicateNode noFlags [(1, 1)] True]) of
      Inr m \<Rightarrow> erase m = erase (LogicalNode OPERATOR_OR noFlags []
          [PredicateNode noFlags [(3, 1)] False, PredicateNode noFlags [(1, 1)] True]) \<and>
        calculate (\<lambda>b. if b then MTD_BOOLEAN_TRUE else MTD_BOOLEAN_NULL) m =
          calculate (\<lambda>b. if b then MTD_BOOLEAN_TRUE else MTD_BOOLEAN_NULL) (LogicalNode OPERATOR_OR noFlags []
            [PredicateNode noFlags [(3, 1)] False, PredicateNode noFlags [(1, 1)] True]) \<and>
        depOk (depInfo m) \<and> tuplesOf (depInfo m) = leafTuples (LogicalNode OPERATOR_OR noFlags []
          [PredicateNode noFlags [(3, 1)] False, PredicateNode noFlags [(1, 1)] True])
    | Inl e \<Rightarrow> e = TooManyTables \<and> card (leafTuples (LogicalNode OPERATOR_OR noFlags []
        [PredicateNode noFlags [(3, 1)] False, PredicateNode noFlags [(1, 1)] True])) > QC_MAX_REF_TABLE_CNT"
  by (rule setFlagAndDependencies_tuples) (simp add: depOk_def QC_MAX_REF_TABLE_CNT_def)

section \<open>Superfluous nodes\<close>

fun predicatesOf :: "'p qtcNode \<Rightarrow> 'p list" where
  "predicatesOf (LogicalNode oper f d args) = concat (map predicatesOf args)"
| "predicatesOf (NotNode f d a) = predicatesOf a"
| "predicatesOf (PredicateNode f d p) = [p]"

fun compact :: "'p qtcNode \<Rightarrow> bool" where
  "compact (LogicalNode oper f d args) \<longleftrightarrow> length args \<ge> 2 \<and> list_all compact args"
| "compact (NotNode f d a) \<longleftrightarrow> compact a"
| "compact (PredicateNode f d p) \<longleftrightarrow> True"

lemma calculate_single: "calculate v (LogicalNode oper f d [a]) = calculate v a"
  by (cases oper; cases "calculate v a") simp_all

text \<open>\<open>optimizeForm\<close> gives a condition with the same value and the same predicates in the same
  order, in which every \<open>AND\<close> and \<open>OR\<close> has at least two arguments.\<close>

theorem optimizeForm_compact:
  assumes "nonEmpty n"
  shows "\<exists>m. optimizeForm n = Inr m \<and> compact m \<and> predicatesOf m = predicatesOf n \<and>
    (\<forall>v. calculate v m = calculate v n)"
  using assms
proof (induction n rule: optimizeForm.induct)
  case (1 oper f d args)
  consider (one) a where "args = [a]" | (more) a b as where "args = a # b # as"
    using "1.prems" by (cases args rule: list.exhaust; cases "tl args") auto
  then show ?case
  proof cases
    case one
    then show ?thesis
      using "1.IH"(1) [OF one refl] "1.prems" by (simp add: calculate_single)
  next
    case more
    have "\<forall>c \<in> set args. \<exists>m. optimizeForm c = Inr m \<and> compact m \<and> predicatesOf m = predicatesOf c \<and>
        (\<forall>v. calculate v m = calculate v c)"
      using "1.IH"(2) [OF more refl] "1.prems" by (auto simp: list_all_iff)
    then obtain g where g: "\<forall>c \<in> set args. optimizeForm c = Inr (g c) \<and> compact (g c) \<and>
        predicatesOf (g c) = predicatesOf c \<and> (\<forall>v. calculate v (g c) = calculate v c)"
      by metis
    have "optimizeForm (LogicalNode oper f d args) = Inr (LogicalNode oper f d (map g args))"
      using all_loop_Inr [of args optimizeForm g] g more by simp
    moreover have "calculate v (LogicalNode oper f d (map g args)) = calculate v (LogicalNode oper f d args)" for v
      using g by (intro calculate_args_cong) simp
    moreover have "compact (LogicalNode oper f d (map g args))"
      using g more by (simp add: list_all_iff)
    moreover have "map predicatesOf (map g args) = map predicatesOf args"
      using g by simp
    ultimately show ?thesis
      by (metis predicatesOf.simps(1))
  qed
qed auto

theorem optimizeForm_compact_witness:
  "\<exists>m. optimizeForm (LogicalNode OPERATOR_AND noFlags [] [LogicalNode OPERATOR_OR noFlags []
      [PredicateNode noFlags [] True]]) = Inr m \<and> compact m \<and>
    predicatesOf m = predicatesOf (LogicalNode OPERATOR_AND noFlags [] [LogicalNode OPERATOR_OR noFlags []
      [PredicateNode noFlags [] True]]) \<and>
    (\<forall>v. calculate v m = calculate v (LogicalNode OPERATOR_AND noFlags [] [LogicalNode OPERATOR_OR noFlags []
      [PredicateNode noFlags [] True]]))"
  by (rule optimizeForm_compact) simp

end
