(* ===== verification/PartialNormalForm.thy ===== *)
theory PartialNormalForm
  imports NormalFormProps
begin

text \<open>
  The properties of the normal forms of \<open>NormalForm\<close>: value, shape and size of the disjunctive and
  conjunctive normal form, and of the partial conjunctive normal form with the filter that holds
  what was left out.
\<close>

section \<open>Sizes\<close>

definition sizes :: "'a list list \<Rightarrow> nat" where
  "sizes ts = sum_list (map length ts)"

text \<open>A list of clauses within an estimate \<open>c\<close>: at most so many clauses, and so many terms.\<close>

definition within :: "nat \<Rightarrow> 'a list list \<Rightarrow> bool" where
  "within c ts \<longleftrightarrow> length ts \<le> c \<and> sizes ts \<le> c"

lemma within_simps [simp]: "within 0 []" "within 1 [[a]]" "within (Suc 0) [[a]]"
  by (simp_all add: within_def sizes_def)

lemma foldl_products_bound:
  assumes "length ts \<le> P" "sizes ts \<le> k * P" "\<forall>a \<in> set as. within (e a) (h a)"
  shows "length (foldl products ts (map h as)) \<le> P * prod_list (map e as) \<and>
    sizes (foldl products ts (map h as)) \<le> (k + length as) * (P * prod_list (map e as))"
  using assms
proof (induction as arbitrary: ts P k)
  case (Cons a as)
  have a: "length (h a) \<le> e a" "sizes (h a) \<le> e a"
    using Cons.prems(3) by (auto simp: within_def)
  have "sizes (products ts (h a)) \<le> k * P * e a + P * e a"
    unfolding sizes_def products_counts(2)
    by (intro add_mono mult_le_mono) (use Cons.prems(1,2) a in \<open>simp_all add: sizes_def\<close>)
  then have "sizes (products ts (h a)) \<le> (k + 1) * (P * e a)"
    by (simp add: algebra_simps)
  moreover have "length (products ts (h a)) \<le> P * e a"
    unfolding products_counts(1) by (intro mult_le_mono Cons.prems(1) a(1))
  ultimately show ?case
    using Cons.IH [of "products ts (h a)" "P * e a" "k + 1"] Cons.prems(3)
    by (simp add: algebra_simps)
qed simp

lemma within_products:
  assumes "as \<noteq> []" "\<forall>a \<in> set as. within (e a) (h a)"
  shows "within (prod_list (map e as) * length as) (foldl products [[]] (map h as))"
proof -
  let ?P = "prod_list (map e as)"
  have P: "?P \<le> ?P * length as"
    using assms(1) by (cases as) simp_all
  have "length (foldl products [[]] (map h as)) \<le> ?P \<and>
      sizes (foldl products [[]] (map h as)) \<le> ?P * length as"
    using foldl_products_bound [of "[[]]" 1 0 as e h] assms(2) by (simp add: sizes_def mult.commute)
  then show ?thesis
    unfolding within_def using P order_trans by blast
qed

lemma within_concat:
  assumes "\<forall>a \<in> set as. within (e a) (h a)"
  shows "within (sum_list (map e as)) (concat (map h as))"
  using assms by (induction as) (auto simp: within_def sizes_def)

lemma within_concat2: "list_all2 within cs tss \<Longrightarrow> within (sum_list cs) (concat tss)"
  by (induction rule: list_all2_induct) (auto simp: within_def sizes_def)

lemma within_mono: "within c ts \<Longrightarrow> c \<le> d \<Longrightarrow> within d ts"
  by (auto simp: within_def)

section \<open>Estimates\<close>

lemma estimateProduct_loop_result:
  "estimateProduct_loop s k cs = None \<or> estimateProduct_loop s k cs = Some (s * prod_list cs * (k + length cs))"
  by (induction s k cs rule: estimateProduct_loop.induct) (auto simp: algebra_simps)

lemma estimateSum_loop_result:
  "estimateSum_loop s cs = None \<or> estimateSum_loop s cs = Some (s + sum_list cs)"
  by (induction s cs rule: estimateSum_loop.induct) auto

lemma countOf_exact:
  "countOf (estimateProduct_loop 1 0 cs) < UINT_MAX \<Longrightarrow>
     countOf (estimateProduct_loop 1 0 cs) = prod_list cs * length cs"
  "countOf (estimateSum_loop 0 cs) < UINT_MAX \<Longrightarrow> countOf (estimateSum_loop 0 cs) = sum_list cs"
  using estimateProduct_loop_result [of 1 0 cs] estimateSum_loop_result [of 0 cs]
  by (auto simp: countOf_def toUInt_def split: if_splits)

lemma prod_list_pos: "\<forall>c \<in> set cs. 1 \<le> (c :: nat) \<Longrightarrow> 1 \<le> prod_list cs"
  by (induction cs) auto

lemma countOf_pos:
  "cs \<noteq> [] \<Longrightarrow> \<forall>c \<in> set cs. 1 \<le> c \<Longrightarrow> 1 \<le> countOf (estimateProduct_loop 1 0 cs)"
  "cs \<noteq> [] \<Longrightarrow> \<forall>c \<in> set cs. 1 \<le> c \<Longrightarrow> 1 \<le> countOf (estimateSum_loop 0 cs)"
proof -
  assume cs: "cs \<noteq> []" "\<forall>c \<in> set cs. 1 \<le> c"
  then have "1 * 1 \<le> prod_list cs * length cs"
    by (intro mult_le_mono prod_list_pos) (simp_all add: Suc_le_eq)
  then show "1 \<le> countOf (estimateProduct_loop 1 0 cs)"
    using estimateProduct_loop_result [of 1 0 cs] by (auto simp: countOf_def toUInt_def UINT_MAX_def)
  have "1 \<le> sum_list cs"
    using cs by (cases cs) auto
  then show "1 \<le> countOf (estimateSum_loop 0 cs)"
    using estimateSum_loop_result [of 0 cs] by (auto simp: countOf_def toUInt_def UINT_MAX_def)
qed

lemma member_le_prod: "\<forall>c \<in> set cs. 1 \<le> (c :: nat) \<Longrightarrow> c \<in> set cs \<Longrightarrow> c \<le> prod_list cs * length cs"
proof (induction cs)
  case (Cons b cs)
  have pos: "1 \<le> prod_list cs" "1 \<le> b"
    using prod_list_pos [of cs] Cons.prems(1) by auto
  show ?case
  proof (cases "c = b")
    case True
    have "b * 1 \<le> b * prod_list cs * Suc (length cs)"
      unfolding mult.assoc by (intro mult_le_mono2) (use pos in simp)
    then show ?thesis using True by simp
  next
    case False
    then have "c \<le> prod_list cs * length cs" using Cons by auto
    also have "\<dots> \<le> b * prod_list cs * Suc (length cs)"
      using pos by (intro mult_le_mono) simp_all
    finally show ?thesis by simp
  qed
qed simp

lemma member_le_sum: "(c :: nat) \<in> set cs \<Longrightarrow> c \<le> sum_list cs"
  by (induction cs) auto

lemma estimate_pos:
  "nonEmpty n \<Longrightarrow> 1 \<le> estimateDNF n" "nonEmpty n \<Longrightarrow> 1 \<le> estimateCNF n"
proof -
  show "nonEmpty n \<Longrightarrow> 1 \<le> estimateDNF n"
  proof (induction n rule: estimateDNF.induct)
    case (1 f d args)
    then show ?case
      unfolding estimateDNF.simps by (intro countOf_pos) (auto simp: list_all_iff)
  next
    case (2 f d args)
    then show ?case
      unfolding estimateDNF.simps by (intro countOf_pos) (auto simp: list_all_iff)
  qed (simp_all add: toUInt_def UINT_MAX_def)
  show "nonEmpty n \<Longrightarrow> 1 \<le> estimateCNF n"
  proof (induction n rule: estimateCNF.induct)
    case (1 f d args)
    then show ?case
      unfolding estimateCNF.simps by (intro countOf_pos) (auto simp: list_all_iff)
  next
    case (2 f d args)
    then show ?case
      unfolding estimateCNF.simps by (intro countOf_pos) (auto simp: list_all_iff)
  qed (simp_all add: toUInt_def UINT_MAX_def)
qed

text \<open>The two steps of the estimates, for either normal form.\<close>

lemma product_step:
  assumes "as \<noteq> []" "\<forall>a \<in> set as. 1 \<le> e a \<and> (e a < UINT_MAX \<longrightarrow> within (e a) (h a))"
    "countOf (estimateProduct_loop 1 0 (map e as)) < UINT_MAX"
  shows "within (countOf (estimateProduct_loop 1 0 (map e as))) (foldl products [[]] (map h as))"
proof -
  note eq = countOf_exact(1) [OF assms(3)]
  have "e a < UINT_MAX" if "a \<in> set as" for a
    using member_le_prod [of "map e as" "e a"] that assms(2,3) eq by force
  then show ?thesis
    using within_products [OF assms(1), of e h] assms(2) eq by simp
qed

lemma sum_step:
  assumes "\<forall>a \<in> set as. e a < UINT_MAX \<longrightarrow> within (e a) (h a)"
    "countOf (estimateSum_loop 0 (map e as)) < UINT_MAX"
  shows "within (countOf (estimateSum_loop 0 (map e as))) (concat (map h as))"
proof -
  note eq = countOf_exact(2) [OF assms(2)]
  have "e a < UINT_MAX" if "a \<in> set as" for a
    using member_le_sum [of "e a" "map e as"] that assms(2) eq by force
  then show ?thesis
    using within_concat [of as e h] assms(1) eq by simp
qed

lemma estimateDNF_within:
  "nonEmpty n \<Longrightarrow> estimateDNF n < UINT_MAX \<Longrightarrow> within (estimateDNF n) (clausesDNF n)"
proof (induction n rule: estimateDNF.induct)
  case (1 f d args)
  then show ?case
    unfolding estimateDNF.simps clausesDNF.simps
    by (intro product_step) (auto simp: list_all_iff intro: estimate_pos [simplified])
next
  case (2 f d args)
  then show ?case
    unfolding estimateDNF.simps clausesDNF.simps
    by (intro sum_step) (auto simp: list_all_iff intro: estimate_pos [simplified])
qed (simp_all add: toUInt_def UINT_MAX_def)

text \<open>For the conjunctive form the arguments carry the flag handed on, which changes no number.\<close>

lemma map_first:
  fixes h :: "bool \<Rightarrow> 'a \<Rightarrow> 'b"
  obtains bs where "args = map snd bs" "\<forall>p \<in> set bs. snd p \<in> set args"
    "(case args of [] \<Rightarrow> [] | a # as \<Rightarrow> h u a # map (h w) as) = map (\<lambda>p. h (fst p) (snd p)) bs"
proof (cases args)
  case Nil
  then show thesis using that [of "[]"] by simp
next
  case (Cons a as)
  then show thesis
    by (intro that [of "(u, a) # map (Pair w) as"]) (auto simp: comp_def)
qed

lemma estimateCNF_within:
  "nonEmpty n \<Longrightarrow> noMarks n \<Longrightarrow> estimateCNF n < UINT_MAX \<Longrightarrow> within (estimateCNF n) (clausesCNF forced n)"
proof (induction n arbitrary: forced rule: estimateCNF.induct)
  case (1 f d args)
  obtain bs where bs: "args = map snd bs" "\<forall>p \<in> set bs. snd p \<in> set args"
    "(case args of [] \<Rightarrow> [] | a # as \<Rightarrow> clausesCNF (pushedPredForce f \<or> forced) a # map (clausesCNF False) as) =
        map (\<lambda>p. clausesCNF (fst p) (snd p)) bs"
    by (rule map_first)
  have "1 \<le> estimateCNF (snd p) \<and> (estimateCNF (snd p) < UINT_MAX \<longrightarrow>
      within (estimateCNF (snd p)) (clausesCNF (fst p) (snd p)))" if "p \<in> set bs" for p
    using "1.IH" [of "snd p"] "1.prems"(1,2) bs(2) that estimate_pos(2) [of "snd p"] by (auto simp: list_all_iff)
  then have "within (countOf (estimateProduct_loop 1 0 (map (\<lambda>p. estimateCNF (snd p)) bs)))
      (foldl products [[]] (map (\<lambda>p. clausesCNF (fst p) (snd p)) bs))"
    using "1.prems"(1,3) bs(1) by (intro product_step) (auto simp: comp_def)
  moreover have "map estimateCNF args = map (\<lambda>p. estimateCNF (snd p)) bs"
    using bs(1) by simp
  ultimately show ?case
    using "1.prems"(2) by (simp add: bs(3))
next
  case (2 f d args)
  obtain bs where bs: "args = map snd bs" "\<forall>p \<in> set bs. snd p \<in> set args"
    "(case args of [] \<Rightarrow> [] | a # as \<Rightarrow> clausesCNF (pushedPredForce f \<or> forced) a # map (clausesCNF False) as) =
        map (\<lambda>p. clausesCNF (fst p) (snd p)) bs"
    by (rule map_first)
  have "estimateCNF (snd p) < UINT_MAX \<longrightarrow>
      within (estimateCNF (snd p)) (clausesCNF (fst p) (snd p))" if "p \<in> set bs" for p
    using "2.IH" [of "snd p"] "2.prems"(1,2) bs(2) that by (auto simp: list_all_iff)
  then have "within (countOf (estimateSum_loop 0 (map (\<lambda>p. estimateCNF (snd p)) bs)))
      (concat (map (\<lambda>p. clausesCNF (fst p) (snd p)) bs))"
    using "2.prems"(3) bs(1) by (intro sum_step) (auto simp: comp_def)
  moreover have "map estimateCNF args = map (\<lambda>p. estimateCNF (snd p)) bs"
    using bs(1) by simp
  ultimately show ?case
    using "2.prems"(2) by (simp add: bs(3))
qed (simp_all add: toUInt_def UINT_MAX_def)

text \<open>\<open>makeDNF\<close> gives a disjunction of conjunctions of the terminal nodes with the same value under
  every row, \<open>NULL\<close> included; its number of terms is at most the estimate, unless that is
  \<open>UINT_MAX\<close>.\<close>

theorem makeDNF_normal:
  assumes "nonEmpty n" "depsIn S n"
  shows "\<exists>m. makeDNF n = Inr m \<and> isNF OPERATOR_OR m \<and> (\<forall>v. calculate v m = calculate v n) \<and>
    (estimateDNF n < UINT_MAX \<longrightarrow> termCount m \<le> estimateDNF n)"
proof -
  obtain m where m: "makeDNF n = Inr m" "isNF OPERATOR_OR m" "terms m = clausesDNF n"
    using makeDNF_clauses [OF assms] by blast
  have "calculate v m = calculate v n" for v
    using clausesDNF_holds [of _ v n] holds_NF [OF _ m(2), of _ v] m(3) by (intro calculate_eqI) metis
  then show ?thesis
    using m estimateDNF_within [OF assms(1)] by (auto simp: termCount_def within_def sizes_def)
qed

text \<open>\<open>makeCNF\<close> gives a conjunction of disjunctions of the terminal nodes with the same value under
  every row, when no part is marked as unusable; its number of terms is at most the estimate, unless
  that is \<open>UINT_MAX\<close>.\<close>

theorem makeCNF_normal:
  assumes "nonEmpty n" "depsIn S n" "noMarks n"
  shows "\<exists>m. makeCNF forced n = Inr (Some m) \<and> isNF OPERATOR_AND m \<and> (\<forall>v. calculate v m = calculate v n) \<and>
    (estimateCNF n < UINT_MAX \<longrightarrow> termCount m \<le> estimateCNF n)"
proof -
  obtain m where m: "makeCNF forced n = Inr (Some m)" "isNF OPERATOR_AND m" "terms m = clausesCNF forced n"
    using makeCNF_clauses [OF assms(1,2) noMarks_marksOk, of forced] assms(3) by fastforce
  have "calculate v m = calculate v n" for v
    using clausesCNF_holds [OF _ assms(1,3), of _ v forced] holds_NF [OF _ m(2), of _ v] m(3)
    by (intro calculate_eqI) metis
  then show ?thesis
    using m estimateCNF_within [OF assms(1,3)] by (auto simp: termCount_def within_def sizes_def)
qed

text \<open>A condition of the form \<open>(1 OR (2 AND 3)) AND NOT 4\<close>.\<close>

definition sampleCondition :: "nat qtcNode" where
  "sampleCondition = LogicalNode OPERATOR_AND noFlags []
     [LogicalNode OPERATOR_OR noFlags [] [PredicateNode noFlags [] 1,
        LogicalNode OPERATOR_AND noFlags [] [PredicateNode noFlags [] 2, PredicateNode noFlags [] 3]],
      NotNode noFlags [] (PredicateNode noFlags [] 4)]"

lemma sampleCondition_ok:
  "nonEmpty sampleCondition" "depsIn {} sampleCondition" "noMarks sampleCondition"
  by (simp_all add: sampleCondition_def depOk_def noFlags_def)

theorem makeDNF_normal_witness:
  "\<exists>m. makeDNF sampleCondition = Inr m \<and> isNF OPERATOR_OR m \<and>
    (\<forall>v. calculate v m = calculate v sampleCondition) \<and>
    (estimateDNF sampleCondition < UINT_MAX \<longrightarrow> termCount m \<le> estimateDNF sampleCondition)"
  by (rule makeDNF_normal [OF sampleCondition_ok(1,2)])

theorem makeCNF_normal_witness:
  "\<exists>m. makeCNF False sampleCondition = Inr (Some m) \<and> isNF OPERATOR_AND m \<and>
    (\<forall>v. calculate v m = calculate v sampleCondition) \<and>
    (estimateCNF sampleCondition < UINT_MAX \<longrightarrow> termCount m \<le> estimateCNF sampleCondition)"
  by (rule makeCNF_normal [OF sampleCondition_ok])

section \<open>The partial estimate\<close>

lemma markUnusable_False [simp]: "markUnusable False f = f"
  by (simp add: markUnusable_def)

lemma partialOr_loop_result:
  assumes "partialOr_loop mx s k (map (\<lambda>a. (e a, a)) as) = (c, marked, ns)"
    "\<forall>a \<in> set as. snd (snd (e a)) = a"
  shows "ns = as \<and> (\<not> marked \<longrightarrow> c = s * prod_list (map (fst \<circ> e) as) * (k + length as) \<and>
    (\<forall>a \<in> set as. \<not> fst (snd (e a))) \<and> (as \<noteq> [] \<longrightarrow> c \<le> mx))"
  using assms
proof (induction as arbitrary: s k c marked ns)
  case (Cons a as)
  obtain c1 m1 where e: "e a = (c1, m1, a)"
    using Cons.prems(2) by (cases "e a") auto
  show ?case
  proof (cases "s * c1 * (k + 1) > mx")
    case True
    then show ?thesis
      using Cons.prems e by (auto simp: comp_def)
  next
    case False
    obtain c2 m2 ns2 where r: "partialOr_loop mx (s * c1) (k + 1) (map (\<lambda>a. (e a, a)) as) = (c2, m2, ns2)"
      by (cases "partialOr_loop mx (s * c1) (k + 1) (map (\<lambda>a. (e a, a)) as)") auto
    have c: "c = c2" "marked = (m1 \<or> m2)" "ns = a # ns2"
      using Cons.prems(1) e r False by simp_all
    have "\<not> m2 \<Longrightarrow> c2 \<le> mx"
      using Cons.IH [OF r] Cons.prems(2) r False by (cases "as = []") auto
    then show ?thesis
      using Cons.IH [OF r] Cons.prems(2) e c by (simp add: mult.assoc)
  qed
qed auto

lemma partialAnd_loop_result:
  assumes "partialAnd_loop mx s (map (\<lambda>a. (e a, a)) as) = (c, marked, ns)"
    "\<forall>a \<in> set as. R (snd (snd (e a))) a \<and> R a a"
  shows "list_all2 R ns as \<and> (\<not> marked \<longrightarrow> ns = map (snd \<circ> snd \<circ> e) as \<and>
    c = s + sum_list (map (fst \<circ> e) as) \<and> (\<forall>a \<in> set as. \<not> fst (snd (e a))) \<and> (as \<noteq> [] \<longrightarrow> c \<le> mx))"
  using assms
proof (induction as arbitrary: s c marked ns)
  case (Cons a as)
  obtain c1 m1 n1 where e: "e a = (c1, m1, n1)"
    by (cases "e a") auto
  show ?case
  proof (cases "s + c1 > mx")
    case True
    then show ?thesis
      using Cons.prems e by (auto simp: comp_def intro!: list.rel_refl_strong)
  next
    case False
    obtain c2 m2 ns2 where r: "partialAnd_loop mx (s + c1) (map (\<lambda>a. (e a, a)) as) = (c2, m2, ns2)"
      by (cases "partialAnd_loop mx (s + c1) (map (\<lambda>a. (e a, a)) as)") auto
    have c: "c = c2" "marked = (m1 \<or> m2)" "ns = n1 # ns2"
      using Cons.prems(1) e r False by simp_all
    have "\<not> m2 \<Longrightarrow> c2 \<le> mx"
      using Cons.IH [OF r] Cons.prems(2) r False by (cases "as = []") auto
    then show ?thesis
      using Cons.IH [OF r] Cons.prems(2) e c by simp
  qed
qed auto

text \<open>Below a root nothing is marked, and without an overflow the count bounds the clauses.\<close>

lemma toUInt_le: "c \<le> mx \<Longrightarrow> mx \<le> UINT_MAX \<Longrightarrow> toUInt c = c"
  by (auto simp: toUInt_def)

lemma estimatePartial_below:
  assumes "nonEmpty n" "noMarks n" "mx \<le> UINT_MAX"
  shows "snd (snd (estimatePartialCNF mx True n)) = n \<and>
    (\<not> fst (snd (estimatePartialCNF mx True n)) \<longrightarrow>
       (\<forall>forced. within (fst (estimatePartialCNF mx True n)) (clausesCNF forced n)))"
  using assms(1,2)
proof (induction n)
  case (LogicalNode oper f d args)
  let ?e = "estimatePartialCNF mx True"
  have f: "\<not> cnfUnusable f" "args \<noteq> []"
    using LogicalNode.prems by auto
  have ih: "snd (snd (?e a)) = a" "\<not> fst (snd (?e a)) \<Longrightarrow> within (fst (?e a)) (clausesCNF b a)"
    if "a \<in> set args" for a b
    using LogicalNode.IH [OF that] LogicalNode.prems that by (auto simp: list_all_iff)
  have within: "within (case oper of OPERATOR_OR \<Rightarrow> prod_list (map (fst \<circ> ?e) args) * length args
        | OPERATOR_AND \<Rightarrow> sum_list (map (fst \<circ> ?e) args)) (clausesCNF forced (LogicalNode oper f d args))"
    if "\<forall>a \<in> set args. \<not> fst (snd (?e a))" for forced
  proof -
    obtain bs where bs: "args = map snd bs" "\<forall>p \<in> set bs. snd p \<in> set args"
      "(case args of [] \<Rightarrow> [] | a # as \<Rightarrow> clausesCNF (pushedPredForce f \<or> forced) a # map (clausesCNF False) as) =
          map (\<lambda>p. clausesCNF (fst p) (snd p)) bs"
      by (rule map_first)
    have w: "\<forall>p \<in> set bs. within ((fst \<circ> ?e) (snd p)) (clausesCNF (fst p) (snd p))"
      using bs(2) that ih(2) by auto
    have "map (fst \<circ> ?e) args = map (\<lambda>p. (fst \<circ> ?e) (snd p)) bs" "length args = length bs" "bs \<noteq> []"
      using bs(1) f(2) by auto
    then show ?thesis
      using within_products [OF _ w] within_concat [OF w] f(1)
      by (simp add: bs(3) split: mtcOperator.split)
  qed
  show ?case
  proof (cases oper)
    case OPERATOR_AND
    obtain c m ns where r: "partialAnd_loop mx 0 (map (\<lambda>a. (?e a, a)) args) = (c, m, ns)"
      by (cases "partialAnd_loop mx 0 (map (\<lambda>a. (?e a, a)) args)") auto
    have h: "list_all2 (=) ns args \<and> (\<not> m \<longrightarrow> c = sum_list (map (fst \<circ> ?e) args) \<and>
        (\<forall>a \<in> set args. \<not> fst (snd (?e a))) \<and> c \<le> mx)"
      using partialAnd_loop_result [OF r, of "(=)", unfolded add_0] ih(1) f(2) by blast
    then have "\<not> m \<Longrightarrow> toUInt c = c"
      using toUInt_le [OF _ assms(3)] by blast
    then show ?thesis
      using h within f OPERATOR_AND r
      by (simp add: partialResult_def list.rel_eq del: clausesCNF.simps)
  next
    case OPERATOR_OR
    obtain c m ns where r: "partialOr_loop mx 1 0 (map (\<lambda>a. (?e a, a)) args) = (c, m, ns)"
      by (cases "partialOr_loop mx 1 0 (map (\<lambda>a. (?e a, a)) args)") auto
    have h: "ns = args \<and> (\<not> m \<longrightarrow> c = prod_list (map (fst \<circ> ?e) args) * length args \<and>
        (\<forall>a \<in> set args. \<not> fst (snd (?e a))) \<and> c \<le> mx)"
      using partialOr_loop_result [OF r, unfolded mult_1 add_0] ih(1) f(2) by blast
    then have "\<not> m \<Longrightarrow> toUInt c = c"
      using toUInt_le [OF _ assms(3)] by blast
    then show ?thesis
      using h within f OPERATOR_OR r
      by (simp add: partialResult_def del: clausesCNF.simps)
  qed
qed (simp_all add: toUInt_def UINT_MAX_def)

text \<open>The marks keep the tree and its value; what they leave is within the limit.\<close>

definition keeps :: "'p qtcNode \<Rightarrow> 'p qtcNode \<Rightarrow> bool" where
  "keeps m n \<longleftrightarrow> (nonEmpty m \<longleftrightarrow> nonEmpty n) \<and> (\<forall>S. depsIn S m \<longleftrightarrow> depsIn S n) \<and>
     (noSubquery m \<longleftrightarrow> noSubquery n) \<and> (\<forall>v. calculate v m = calculate v n)"

lemma keeps_same [simp]: "keeps n n"
  by (simp add: keeps_def)

lemma keeps_logical:
  assumes "list_all2 keeps ms ns" "subqueryExist g = subqueryExist f"
  shows "keeps (LogicalNode oper g d ms) (LogicalNode oper f d ns)"
proof -
  have eq: "ms = [] \<longleftrightarrow> ns = []" "list_all nonEmpty ms \<longleftrightarrow> list_all nonEmpty ns"
    "list_all (depsIn S) ms \<longleftrightarrow> list_all (depsIn S) ns" "list_all noSubquery ms \<longleftrightarrow> list_all noSubquery ns"
    "map (calculate v) ms = map (calculate v) ns" for S v
    using assms(1) by (induction rule: list_all2_induct) (auto simp: keeps_def)
  show ?thesis
    unfolding keeps_def using eq(1-4) calculate_args_cong [OF eq(5)] assms(2) by simp
qed

lemma estimatePartial_root:
  assumes "nonEmpty n" "noMarks n" "mx \<le> UINT_MAX"
  shows "\<exists>c m. estimatePartialCNF mx False n = (c, False, m) \<and> keeps m n \<and> marksOk m \<and>
    (\<forall>forced. within c (clausesCNF forced m)) \<and> c \<le> max 1 mx"
  using assms(1,2)
proof (induction n)
  case (LogicalNode oper f d args)
  have f: "\<not> cnfUnusable f" "args \<noteq> []"
    using LogicalNode.prems by auto
  show ?case
  proof (cases oper)
    case OPERATOR_OR
    let ?e = "estimatePartialCNF mx True"
    obtain c m ns where r: "partialOr_loop mx 1 0 (map (\<lambda>a. (?e a, a)) args) = (c, m, ns)"
      by (cases "partialOr_loop mx 1 0 (map (\<lambda>a. (?e a, a)) args)") auto
    have "snd (snd (?e a)) = a" if "a \<in> set args" for a
      using estimatePartial_below [OF _ _ assms(3), of a] LogicalNode.prems that by (auto simp: list_all_iff)
    then have ns: "ns = args" "\<not> m \<longrightarrow> c \<le> mx"
      using partialOr_loop_result [OF r] f(2) by auto
    show ?thesis
    proof (cases m)
      case True
      then have "estimatePartialCNF mx False (LogicalNode oper f d args) =
          (0, False, LogicalNode oper (markUnusable True f) d args)"
        using OPERATOR_OR r ns by (simp add: partialResult_def markUnusable_def toUInt_def UINT_MAX_def)
      moreover have "keeps (LogicalNode oper (markUnusable True f) d args) (LogicalNode oper f d args)"
        by (intro keeps_logical list.rel_refl_strong keeps_same) (simp add: markUnusable_def)
      ultimately show ?thesis
        by (simp add: markUnusable_def within_def sizes_def)
    next
      case False
      then have e: "estimatePartialCNF mx False (LogicalNode oper f d args) = (c, False, LogicalNode oper f d args)"
        and e': "estimatePartialCNF mx True (LogicalNode oper f d args) = (c, False, LogicalNode oper f d args)"
        using OPERATOR_OR r ns f toUInt_le [OF _ assms(3)] by (simp_all add: partialResult_def)
      show ?thesis
        using e e' estimatePartial_below [OF LogicalNode.prems assms(3)] False ns(2)
          noMarks_marksOk [OF LogicalNode.prems(2)] by (simp del: clausesCNF.simps)
    qed
  next
    case OPERATOR_AND
    let ?e = "estimatePartialCNF mx False"
    have ih: "\<exists>c m. ?e a = (c, False, m) \<and> keeps m a \<and> marksOk m \<and>
        (\<forall>forced. within c (clausesCNF forced m))" if "a \<in> set args" for a
      using LogicalNode.IH [OF that] LogicalNode.prems that by (auto simp: list_all_iff)
    obtain c m ns where r: "partialAnd_loop mx 0 (map (\<lambda>a. (?e a, a)) args) = (c, m, ns)"
      by (cases "partialAnd_loop mx 0 (map (\<lambda>a. (?e a, a)) args)") auto
    have ns: "list_all2 keeps ns args" "\<not> m \<longrightarrow> ns = map (snd \<circ> snd \<circ> ?e) args \<and>
        c = sum_list (map (fst \<circ> ?e) args) \<and> c \<le> mx"
      using partialAnd_loop_result [OF r, of keeps] ih f(2) by fastforce+
    have k: "keeps (LogicalNode oper (markUnusable b f) d ns) (LogicalNode oper f d args)" for b
      by (rule keeps_logical [OF ns(1)]) (simp add: markUnusable_def)
    show ?thesis
    proof (cases m)
      case True
      then have "estimatePartialCNF mx False (LogicalNode oper f d args) =
          (0, False, LogicalNode oper (markUnusable True f) d ns)"
        using OPERATOR_AND r by (simp add: partialResult_def markUnusable_def toUInt_def UINT_MAX_def)
      then show ?thesis
        using k [of True] by (simp add: markUnusable_def within_def sizes_def)
    next
      case False
      then have e: "estimatePartialCNF mx False (LogicalNode oper f d args) = (c, False, LogicalNode oper f d ns)"
        using OPERATOR_AND r ns f toUInt_le [OF _ assms(3)] by (simp add: partialResult_def)
      have w: "within c (clausesCNF forced (LogicalNode oper f d ns))" for forced
      proof -
        obtain a as where args: "args = a # as"
          using f(2) by (cases args) auto
        have "list_all2 within (map (fst \<circ> ?e) args) (case ns of [] \<Rightarrow> []
            | b # bs \<Rightarrow> clausesCNF (pushedPredForce f \<or> forced) b # map (clausesCNF False) bs)"
          using ns(2) False ih unfolding args
          by (fastforce simp: list.rel_map intro!: list.rel_refl_strong)
        from within_concat2 [OF this] show ?thesis
          using ns(2) False f(1) OPERATOR_AND by simp
      qed
      have le: "c \<le> max 1 mx"
        using ns(2) False by linarith
      have "marksOk (LogicalNode oper f d ns)"
        using False ns(2) ih OPERATOR_AND by (fastforce simp: list_all_iff)
      then show ?thesis
        using e k [of False] w le by auto
    qed
  qed
qed (auto simp: toUInt_def UINT_MAX_def)

section \<open>The partial normal form\<close>

definition valueOf :: "('p \<Rightarrow> mtdBooleanType) \<Rightarrow> 'p qtcNode option \<Rightarrow> mtdBooleanType" where
  "valueOf v r = (case r of None \<Rightarrow> MTD_BOOLEAN_TRUE | Some n \<Rightarrow> calculate v n)"

lemma le_valueOf: "x \<le> valueOf v r \<longleftrightarrow> (\<forall>n. r = Some n \<longrightarrow> holds v x n)"
  by (cases r) (auto simp: valueOf_def holds_def)

lemma andMatrix_eqI:
  assumes "\<And>x. x \<noteq> MTD_BOOLEAN_FALSE \<Longrightarrow> holds v x n \<longleftrightarrow> x \<le> a \<and> x \<le> b"
  shows "calculate v n = andMatrix a b"
proof -
  have "x \<le> calculate v n \<longleftrightarrow> x \<le> andMatrix a b" for x
    using assms [of x] by (cases "x = MTD_BOOLEAN_FALSE") (auto simp: andMatrix_min holds_def)
  then show ?thesis
    by (metis order_antisym order_refl)
qed

lemma depsIn_leaves: "depsIn S n \<Longrightarrow> leavesOk n \<and> leafTuples n \<subseteq> S"
  by (induction n) (auto simp: list_all_iff)

lemma depsIn_leftOut: "depsIn S n \<Longrightarrow> m \<in> set (leftOut n) \<Longrightarrow> depsIn S m"
proof (induction n arbitrary: m)
  case (LogicalNode oper f d args)
  then show ?case
    by (auto simp: list_all_iff split: if_splits mtcOperator.splits)
qed (auto split: if_splits)

text \<open>The filter that \<open>extractNNFFilter4CNF\<close> gives has the conjunction of the parts left out as its
  value.\<close>

lemma extractNNF_value:
  assumes "nonEmpty n" "depsIn S n" "card S \<le> QC_MAX_REF_TABLE_CNT" "finite S"
  shows "\<exists>r. extractNNFFilter4CNF n = Inr r \<and>
    (\<forall>v x. x \<noteq> MTD_BOOLEAN_FALSE \<longrightarrow> (x \<le> valueOf v r \<longleftrightarrow> (\<forall>m \<in> set (leftOut n). holds v x m)))"
proof (cases "cnfUnusable (lflag n)")
  case True
  then have "leftOut n = [n]"
    by (cases n) auto
  then show ?thesis
    using True by (auto simp: extractNNFFilter4CNF_def le_valueOf)
next
  case False
  obtain r where r: "makeNNF4CNFByCopyNodeTree n = Inr r" "isFilter (leftOut n) r"
    using makeNNF_leftOut [OF assms(1,2)] by blast
  show ?thesis
  proof (cases r)
    case None
    then show ?thesis
      using False r by (simp add: extractNNFFilter4CNF_def isFilter_def le_valueOf)
  next
    case (Some m)
    then obtain f d where m: "m = LogicalNode OPERATOR_AND f d (leftOut n)"
      using r(2) by (auto simp: isFilter_def)
    have leaves: "leavesOk m" "leafTuples m \<subseteq> S"
      using depsIn_leaves depsIn_leftOut [OF assms(2)] by (fastforce simp: m list_all_iff)+
    have "card (leafTuples m) \<le> QC_MAX_REF_TABLE_CNT"
      using card_mono [OF assms(4) leaves(2)] assms(3) by simp
    then obtain m' where "setFlagAndDependencies m = Inr m'" "erase m' = erase m"
      using setFlagAndDependencies_collected [OF leaves(1)] by (auto simp: collected_def)
    moreover from this(2) have "holds v x m' \<longleftrightarrow> (\<forall>k \<in> set (leftOut n). holds v x k)" for v x
      using erase_calculate [of m' m v] holds_logical(1) [of v x f d "leftOut n"]
      by (simp add: holds_def [of v x m'] holds_def [of v x m, symmetric] flip: m)
    ultimately show ?thesis
      using False r(1) Some by (simp add: extractNNFFilter4CNF_def le_valueOf del: setFlagAndDependencies.simps)
  qed
qed

lemma partial_split:
  assumes "nonEmpty m" "depsIn S m" "marksOk m" "finite S" "card S \<le> QC_MAX_REF_TABLE_CNT"
  shows "\<exists>cnf nnf. makeCNF False m = Inr cnf \<and> extractNNFFilter4CNF (afterMakeCNF False m) = Inr nnf \<and>
    optNF OPERATOR_AND cnf \<and> optTerms cnf = clausesCNF False m \<and>
    (\<forall>v. calculate v m = andMatrix (valueOf v cnf) (valueOf v nnf))"
proof -
  obtain cnf where cnf: "makeCNF False m = Inr cnf" "optNF OPERATOR_AND cnf" "optTerms cnf = clausesCNF False m"
    using makeCNF_clauses [OF assms(1-3), of False] by blast
  obtain nnf where nnf: "extractNNFFilter4CNF (afterMakeCNF False m) = Inr nnf"
      "\<forall>v x. x \<noteq> MTD_BOOLEAN_FALSE \<longrightarrow>
        (x \<le> valueOf v nnf \<longleftrightarrow> (\<forall>k \<in> set (leftOut (afterMakeCNF False m)). holds v x k))"
    using extractNNF_value [of "afterMakeCNF False m" S] assms by auto
  have "calculate v m = andMatrix (valueOf v cnf) (valueOf v nnf)" for v
  proof (rule andMatrix_eqI)
    fix x :: mtdBooleanType assume x: "x \<noteq> MTD_BOOLEAN_FALSE"
    have "x \<le> valueOf v cnf \<longleftrightarrow> clausesHold v x OPERATOR_AND (clausesCNF False m)"
      using cnf(2,3) holds_NF [OF x, of OPERATOR_AND _ v]
      by (cases cnf) (auto simp: le_valueOf simp del: clausesHold.simps simp: clausesHold.simps(2) [of v x "[]"])
    then show "holds v x m \<longleftrightarrow> x \<le> valueOf v cnf \<and> x \<le> valueOf v nnf"
      using clausesCNF_leftOut [OF x assms(1,3), of v False] nnf(2) x by simp
  qed
  then show ?thesis
    using cnf nnf(1) by blast
qed



end
