(* ===== verification/CSETransform.thy ===== *)
theory CSETransform
  imports PartialNormalForm
begin

text \<open>
  Elimination of common subexpressions in conditions, \<open>src/src/qp/qmo/qmoCSETransform.cpp\<close>: nested
  \<open>AND\<close>s and \<open>OR\<close>s are flattened, arguments that another one absorbs are removed, and logical nodes
  with one argument are replaced by it.

  The comparison of two predicates is an argument, \<open>eqP\<close>; on logical nodes
  \<open>qtc::isEquivalentExpression\<close> is modelled.  Logical nodes have arguments.
\<close>

section \<open>Comparison\<close>

fun args_loop :: "('a \<Rightarrow> bool) list \<Rightarrow> 'a list \<Rightarrow> bool" where
  "args_loop (g # gs) (b # bs) = (if g b then args_loop gs bs else False)"
| "args_loop [] [] = True"
| "args_loop _ _ = False"

text \<open>\<open>isSameModule\<close> holds for equal operators; \<open>AND\<close>, \<open>OR\<close> and \<open>NOT\<close> are not among the commutative
  modules, whose arguments are also compared in reverse order.\<close>

fun isEquivalentExpression :: "('p \<Rightarrow> 'p \<Rightarrow> bool) \<Rightarrow> 'p qtcNode \<Rightarrow> 'p qtcNode \<Rightarrow> bool" where
  "isEquivalentExpression eqP (LogicalNode oper f d args) n =
     (case n of
        LogicalNode oper2 f2 d2 args2 \<Rightarrow>
          args \<noteq> [] \<and> args2 \<noteq> [] \<and> oper = oper2 \<and> args_loop (map (isEquivalentExpression eqP) args) args2
      | _ \<Rightarrow> False)"
| "isEquivalentExpression eqP (NotNode f d a) n =
     (case n of NotNode f2 d2 b \<Rightarrow> isEquivalentExpression eqP a b | _ \<Rightarrow> False)"
| "isEquivalentExpression eqP (PredicateNode f d p) n =
     (case n of PredicateNode f2 d2 q \<Rightarrow> eqP p q | _ \<Rightarrow> False)"

datatype qmoCSECompareResult = RESULT_BOTH | RESULT_WIN | RESULT_LOSE

definition compareNode ::
  "('p qtcNode \<Rightarrow> 'p qtcNode \<Rightarrow> bool) \<Rightarrow> 'p qtcNode \<Rightarrow> 'p qtcNode \<Rightarrow> qmoCSECompareResult" where
  "compareNode isEq sTarget sCompare =
     (if subqueryExist (lflag sTarget) \<or> subqueryExist (lflag sCompare) then RESULT_BOTH
      else if \<not> isAndOr sTarget \<and> \<not> isAndOr sCompare then
        (if isEq sTarget sCompare then RESULT_WIN else RESULT_BOTH)
      else if isAndOr sTarget \<and> \<not> isAndOr sCompare then
        (if list_ex (\<lambda>a. isEq a sCompare) (arguments sTarget) then RESULT_LOSE else RESULT_BOTH)
      else if \<not> isAndOr sTarget \<and> isAndOr sCompare then
        (if list_ex (isEq sTarget) (arguments sCompare) then RESULT_WIN else RESULT_BOTH)
      else
        (let sArgMatchCnt =
           length (filter (\<lambda>a. list_ex (isEq a) (arguments sCompare)) (arguments sTarget))
         in if sArgMatchCnt = length (arguments sTarget) then RESULT_WIN
            else if sArgMatchCnt = length (arguments sCompare) then RESULT_LOSE
            else RESULT_BOTH))"

section \<open>Idempotent law and absorption\<close>

text \<open>The inner loop, over the nodes after the target: \<open>g\<close> is the recursive call.  The result says
  whether the target lost, and has the nodes that remain after it; a loss ends the loop.\<close>

fun compare_loop ::
  "('a \<Rightarrow> 'a) \<Rightarrow> ('a \<Rightarrow> 'a \<Rightarrow> qmoCSECompareResult) \<Rightarrow> 'a \<Rightarrow> 'a list \<Rightarrow> bool \<times> 'a list" where
  "compare_loop g cmp sTarget [] = (False, [])"
| "compare_loop g cmp sTarget (c # cs) =
     (case cmp sTarget (g c) of
        RESULT_WIN \<Rightarrow> compare_loop g cmp sTarget cs
      | RESULT_LOSE \<Rightarrow> (True, g c # cs)
      | RESULT_BOTH \<Rightarrow> (case compare_loop g cmp sTarget cs of (lose, ks) \<Rightarrow> (lose, g c # ks)))"

lemma compare_loop_length: "length (snd (compare_loop g cmp t cs)) \<le> length cs"
  by (induction cs) (auto split: qmoCSECompareResult.splits prod.splits)

function target_loop :: "('a \<Rightarrow> 'a) \<Rightarrow> ('a \<Rightarrow> 'a \<Rightarrow> qmoCSECompareResult) \<Rightarrow> 'a list \<Rightarrow> 'a list" where
  "target_loop g cmp [] = []"
| "target_loop g cmp (t # ts) =
     (if fst (compare_loop g cmp t ts) then target_loop g cmp (snd (compare_loop g cmp t ts))
      else t # target_loop g cmp (snd (compare_loop g cmp t ts)))"
  by pat_completeness auto
termination
  by (relation "measure (\<lambda>(g, cmp, ts). length ts)")
    (simp_all add: less_Suc_eq_le compare_loop_length)

text \<open>The recursion descends one level of the tree; a node that is compared several times is
  processed each time.  The fuel is the depth.\<close>

fun depth :: "'p qtcNode \<Rightarrow> nat" where
  "depth (LogicalNode oper f d args) = Suc (Max (insert 0 (depth ` set args)))"
| "depth n = 0"

fun absorb :: "('p qtcNode \<Rightarrow> 'p qtcNode \<Rightarrow> bool) \<Rightarrow> nat \<Rightarrow> 'p qtcNode \<Rightarrow> 'p qtcNode" where
  "absorb isEq 0 n = n"
| "absorb isEq (Suc k) n =
     (case n of
        LogicalNode oper f d args \<Rightarrow> LogicalNode oper f d
          (case args of [] \<Rightarrow> []
           | t # ts \<Rightarrow> target_loop (absorb isEq k) (compareNode isEq) (absorb isEq k t # ts))
      | _ \<Rightarrow> n)"

definition idempotentAndAbsorption :: "('p \<Rightarrow> 'p \<Rightarrow> bool) \<Rightarrow> 'p qtcNode \<Rightarrow> 'p qtcNode" where
  "idempotentAndAbsorption eqP n = absorb (isEquivalentExpression eqP) (depth n) n"

section \<open>Flattening\<close>

text \<open>\<open>unnestArguments oper\<close>: the loop over the arguments of a node with operator \<open>oper\<close>; the arguments
  of an argument with the same operator take its place and are visited next.\<close>

function unnestArguments :: "mtcOperator \<Rightarrow> 'p qtcNode list \<Rightarrow> 'p qtcNode list" where
  "unnestArguments oper [] = []"
| "unnestArguments oper (LogicalNode oper2 f d args # ns) =
     (if oper2 = oper then unnestArguments oper (unnestArguments oper2 args @ ns)
      else LogicalNode oper2 f d (unnestArguments oper2 args) # unnestArguments oper ns)"
| "unnestArguments oper (NotNode f d a # ns) = NotNode f d a # unnestArguments oper ns"
| "unnestArguments oper (PredicateNode f d p # ns) = PredicateNode f d p # unnestArguments oper ns"
  by pat_completeness auto

abbreviation sizes_of :: "'p qtcNode list \<Rightarrow> nat" where
  "sizes_of ns \<equiv> size_list size ns"

lemma unnestArguments_size:
  "unnestArguments_dom (oper, ns) \<Longrightarrow> sizes_of (unnestArguments oper ns) \<le> sizes_of ns"
  by (induction oper ns rule: unnestArguments.pinduct) (auto simp: unnestArguments.psimps)

termination unnestArguments
proof (relation "measure (\<lambda>(oper, ns). sizes_of ns)")
  fix oper oper2 :: mtcOperator and f d and args ns :: "'p qtcNode list"
  assume "unnestArguments_dom (oper2, args)"
  then show "((oper, unnestArguments oper2 args @ ns), (oper, LogicalNode oper2 f d args # ns)) \<in>
      measure (\<lambda>(oper, ns). sizes_of ns)"
    using unnestArguments_size [of oper2 args] by (simp add: size_list_append)
qed simp_all

definition unnestingAndOr4NNF :: "'p qtcNode \<Rightarrow> 'p qtcNode" where
  "unnestingAndOr4NNF aNode =
     (case aNode of LogicalNode oper f d args \<Rightarrow> LogicalNode oper f d (unnestArguments oper args) | _ \<Rightarrow> aNode)"

section \<open>Logical nodes with one argument\<close>

fun removeLogicalNode4NNF :: "'p qtcNode \<Rightarrow> qpError + 'p qtcNode" where
  "removeLogicalNode4NNF (LogicalNode oper f d args) =
     andThen (all_loop (map removeLogicalNode4NNF args)) (\<lambda>ns.
       (case ns of [] \<Rightarrow> Inl NullDereference | [n] \<Rightarrow> Inr n | _ \<Rightarrow> Inr (LogicalNode oper f d ns)))"
| "removeLogicalNode4NNF n = Inr n"

section \<open>The transformation\<close>

fun check_loop :: "(qpError + bool) list \<Rightarrow> qpError + bool" where
  "check_loop [] = Inr False"
| "check_loop (r # rs) = andThen r (\<lambda>sExistOuter. if sExistOuter then Inr True else check_loop rs)"

fun doCheckOuter :: "'p qtcNode \<Rightarrow> qpError + bool" where
  "doCheckOuter (LogicalNode oper f d args) =
     (if args = [] then Inl NullDereference else check_loop (map doCheckOuter args))"
| "doCheckOuter n = Inr (joinOperatorExist (lflag n))"

text \<open>\<open>partialCSE\<close>: the hint of that name, \<open>None\<close> without hints.  \<open>eliminate\<close>: the session's
  property \<open>__OPTIMIZER_ELIMINATE_COMMON_SUBEXPRESSION\<close>.\<close>

definition isTransform :: "bool option \<Rightarrow> nat \<Rightarrow> bool \<Rightarrow> 'p qtcNode option \<Rightarrow> bool" where
  "isTransform partialCSE eliminate aIsWhere aNode =
     (if aNode = None then False
      else if partialCSE = Some True \<and> aIsWhere then False
      else if eliminate = 0 then False
      else if eliminate = 2 then \<not> aIsWhere
      else True)"

definition doTransform ::
  "('p \<Rightarrow> 'p \<Rightarrow> bool) \<Rightarrow> nat \<Rightarrow> bool \<Rightarrow> bool \<Rightarrow> bool option \<Rightarrow> 'p qtcNode option \<Rightarrow> qpError + 'p qtcNode option"
where
  "doTransform eqP eliminate aIsNNF aIsWhere partialCSE aNode =
     (case aNode of
        None \<Rightarrow> Inr None
      | Some n \<Rightarrow>
          (if isTransform partialCSE eliminate aIsWhere aNode then
             andThen (doCheckOuter n) (\<lambda>sExistOuter.
               if sExistOuter then Inr (Some n)
               else if aIsNNF then
                 andThen (removeLogicalNode4NNF (idempotentAndAbsorption eqP (unnestingAndOr4NNF n)))
                   (\<lambda>m. Inr (Some m))
               else Inr (Some (idempotentAndAbsorption eqP n)))
           else Inr (Some n)))"

end
