(* ===== verification/CSEProps.thy ===== *)
theory CSEProps
  imports CSETransform
begin

text \<open>
  The elimination of common subexpressions keeps the value of a condition.  The laws hold when the
  comparison of predicates is an equivalence that respects their values, when a node under an
  operator is a terminal or has the dual operator, and when the subquery flag of a node covers
  those of its arguments; the last matters because the comparison of two lists of arguments
  counts matches, and lists with subqueries may have repeated arguments.
\<close>

section \<open>The loops\<close>

lemma compare_loop_closed:
  "\<forall>c \<in> D. g c \<in> D \<Longrightarrow> set cs \<subseteq> D \<Longrightarrow> set (snd (compare_loop g cmp t cs)) \<subseteq> D"
  by (induction cs) (auto split: qmoCSECompareResult.splits prod.splits)

lemma target_loop_closed:
  "\<forall>c \<in> D. g c \<in> D \<Longrightarrow> set ts \<subseteq> D \<Longrightarrow> set (target_loop g cmp ts) \<subseteq> D"
  by (induction g cmp ts rule: target_loop.induct) (simp_all add: compare_loop_closed)

text \<open>The value of arguments joined by an operator.\<close>

fun both :: "mtcOperator \<Rightarrow> bool \<Rightarrow> bool \<Rightarrow> bool" where
  "both OPERATOR_AND a b \<longleftrightarrow> a \<and> b"
| "both OPERATOR_OR a b \<longleftrightarrow> a \<or> b"

fun joint :: "mtcOperator \<Rightarrow> ('a \<Rightarrow> bool) \<Rightarrow> 'a list \<Rightarrow> bool" where
  "joint OPERATOR_AND H xs \<longleftrightarrow> (\<forall>x \<in> set xs. H x)"
| "joint OPERATOR_OR H xs \<longleftrightarrow> (\<exists>x \<in> set xs. H x)"

lemma joint_Cons: "joint oper H (x # xs) \<longleftrightarrow> both oper (H x) (joint oper H xs)"
  by (cases oper) auto

lemma joint_append: "joint oper H (xs @ ys) \<longleftrightarrow> both oper (joint oper H xs) (joint oper H ys)"
  by (cases oper) auto

lemma both_ac: "both oper a (both oper b c) = both oper b (both oper a c)"
  "both oper (both oper a b) c = both oper a (both oper b c)" "both oper a a = a"
  by (cases oper; auto)+

lemma joint_cong: "map H xs = map H ys \<Longrightarrow> joint oper H xs = joint oper H ys"
proof -
  assume "map H xs = map H ys"
  then have "H ` set xs = H ` set ys"
    by (metis list.set_map)
  moreover have "joint OPERATOR_AND H zs \<longleftrightarrow> False \<notin> H ` set zs" "joint OPERATOR_OR H zs \<longleftrightarrow> True \<in> H ` set zs" for zs
    by auto
  ultimately show ?thesis
    by (cases oper) (simp_all only:)
qed

lemma holds_joint:
  "x \<noteq> MTD_BOOLEAN_FALSE \<Longrightarrow> holds v x (LogicalNode oper f d args) \<longleftrightarrow> joint oper (holds v x) args"
  by (cases oper) simp_all

lemma compare_loop_result:
  assumes g: "\<And>c. Pre c \<Longrightarrow> Good (g c) \<and> H (g c) = H c"
    and win: "\<And>t c. Good t \<Longrightarrow> Good c \<Longrightarrow> cmp t c = RESULT_WIN \<Longrightarrow> both oper (H t) (H c) = H t"
    and lose: "\<And>t c. Good t \<Longrightarrow> Good c \<Longrightarrow> cmp t c = RESULT_LOSE \<Longrightarrow> both oper (H t) (H c) = H c"
    and pre: "\<And>c. Good c \<Longrightarrow> Pre c"
    and t: "Good t" "\<forall>c \<in> set cs. Pre c"
    and r: "compare_loop g cmp t cs = (b, ks)"
  shows "(\<forall>k \<in> set ks. Pre k) \<and>
    (b \<longrightarrow> ks \<noteq> [] \<and> Good (hd ks) \<and> both oper (H t) (joint oper H cs) = joint oper H ks) \<and>
    (\<not> b \<longrightarrow> (\<forall>k \<in> set ks. Good k \<and> cmp t k = RESULT_BOTH) \<and>
       both oper (H t) (joint oper H cs) = both oper (H t) (joint oper H ks))"
  using t(2) r
proof (induction cs arbitrary: ks)
  case (Cons c cs)
  have c: "Good (g c)" "H (g c) = H c" "Pre (g c)"
    using g [of c] pre [of "g c"] Cons.prems(1) by auto
  show ?case
  proof (cases "cmp t (g c)")
    case RESULT_BOTH
    obtain b' ks' where r': "compare_loop g cmp t cs = (b', ks')"
      by (cases "compare_loop g cmp t cs")
    then have ks: "ks = g c # ks'" "b' = b"
      using Cons.prems(2) RESULT_BOTH by simp_all
    show ?thesis
      using Cons.IH [OF _ r'[unfolded ks(2)]] Cons.prems(1) c RESULT_BOTH
      by (simp add: ks(1) joint_Cons both_ac(1) [of oper "H t" "H c"] del: joint.simps)
  next
    case RESULT_WIN
    have "both oper (H t) (joint oper H (c # cs)) = both oper (H t) (joint oper H cs)"
      using win [OF t(1) c(1) RESULT_WIN] c(2) by (simp add: joint_Cons flip: both_ac(2))
    then show ?thesis
      using Cons.IH [of ks] Cons.prems RESULT_WIN by simp
  next
    case RESULT_LOSE
    have "both oper (H t) (joint oper H (c # cs)) = joint oper H (g c # cs)"
      using lose [OF t(1) c(1) RESULT_LOSE] c(2) by (simp add: joint_Cons flip: both_ac(2))
    then show ?thesis
      using Cons.prems RESULT_LOSE c by auto
  qed
qed auto

lemma target_loop_result:
  assumes g: "\<And>c. Pre c \<Longrightarrow> Good (g c) \<and> H (g c) = H c"
    and stable: "\<And>c. Good c \<Longrightarrow> g c = c"
    and win: "\<And>t c. Good t \<Longrightarrow> Good c \<Longrightarrow> cmp t c = RESULT_WIN \<Longrightarrow> both oper (H t) (H c) = H t"
    and lose: "\<And>t c. Good t \<Longrightarrow> Good c \<Longrightarrow> cmp t c = RESULT_LOSE \<Longrightarrow> both oper (H t) (H c) = H c"
    and pre: "\<And>c. Good c \<Longrightarrow> Pre c"
    and ts: "ts \<noteq> []" "Good (hd ts)" "\<forall>c \<in> set ts. Pre c"
  shows "target_loop g cmp ts \<noteq> [] \<and> (\<forall>c \<in> set (target_loop g cmp ts). Good c) \<and>
    sorted_wrt (\<lambda>t c. cmp t c = RESULT_BOTH) (target_loop g cmp ts) \<and>
    joint oper H (target_loop g cmp ts) = joint oper H ts"
  using ts
proof (induction "length ts" arbitrary: ts rule: less_induct)
  case less
  obtain t us where ts: "ts = t # us"
    using less.prems(1) by (cases ts) auto
  obtain b ks where r: "compare_loop g cmp t us = (b, ks)"
    by (cases "compare_loop g cmp t us")
  have len: "length ks < length ts"
    using compare_loop_length [of g cmp t us] r ts by simp
  have t: "Good t" "\<forall>c \<in> set us. Pre c"
    using less.prems ts by auto
  note c = compare_loop_result [of Pre Good g H cmp oper, OF g win lose pre t r]
  show ?case
  proof (cases b)
    case True
    then have ks: "ks \<noteq> []" "Good (hd ks)" "\<forall>k \<in> set ks. Pre k" "joint oper H ts = joint oper H ks"
      using c unfolding ts joint_Cons by blast+
    have "target_loop g cmp ts = target_loop g cmp ks"
      using True by (simp add: ts r)
    then show ?thesis
      using less.hyps [OF len ks(1-3)] ks(4) by simp
  next
    case False
    then have good: "\<forall>k \<in> set ks. Good k \<and> cmp t k = RESULT_BOTH"
      using c by blast
    have step: "target_loop g cmp ts = t # target_loop g cmp ks"
      using False r ts by simp
    show ?thesis
    proof (cases "ks = []")
      case True
      have "joint oper H ts = joint oper H [t]"
        using c False unfolding ts joint_Cons True by blast
      moreover have "target_loop g cmp ts = [t]"
        unfolding step True by simp
      ultimately show ?thesis
        using t(1) by simp
    next
      case ne: False
      have "set (target_loop g cmp ks) \<subseteq> set ks"
        by (rule target_loop_closed) (use good stable in auto)
      then have bothAll: "\<forall>k \<in> set (target_loop g cmp ks). cmp t k = RESULT_BOTH"
        using good by blast
      have "Good (hd ks)" "\<forall>k \<in> set ks. Pre k"
        using good hd_in_set [OF ne] pre by blast+
      note ih = less.hyps [OF len ne this]
      have "joint oper H ts = both oper (H t) (joint oper H ks)"
        using c False unfolding ts joint_Cons by blast
      then have "joint oper H ts = joint oper H (target_loop g cmp ts)"
        using ih unfolding step joint_Cons by simp
      then show ?thesis
        using ih bothAll t(1) unfolding step by simp
    qed
  qed
qed

section \<open>The comparison\<close>

lemma args_loop_all2 [simp]: "args_loop (map E as) bs \<longleftrightarrow> list_all2 E as bs"
proof (induction as arbitrary: bs)
  case Nil
  then show ?case by (cases bs) simp_all
next
  case (Cons a as)
  then show ?case by (cases bs) simp_all
qed

lemma isEquivalent_logical [simp]:
  "isEquivalentExpression eqP (LogicalNode oper f d as) (LogicalNode oper2 f2 d2 bs) \<longleftrightarrow>
     as \<noteq> [] \<and> oper = oper2 \<and> list_all2 (isEquivalentExpression eqP) as bs"
  by (auto simp: args_loop_all2)

lemma isEquivalent_sym:
  assumes "equivp eqP" "isEquivalentExpression eqP a b"
  shows "isEquivalentExpression eqP b a"
  using assms(2)
proof (induction a arbitrary: b)
  case (LogicalNode oper f d as)
  then obtain f2 d2 bs where b: "b = LogicalNode oper f2 d2 bs" "as \<noteq> []"
      "list_all2 (isEquivalentExpression eqP) as bs"
    by (cases b) (auto simp: args_loop_all2)
  then have "list_all2 (isEquivalentExpression eqP) bs as"
    using LogicalNode.IH by (auto simp: list_all2_conv_all_nth)
  moreover have "bs \<noteq> []" using b(2,3) by auto
  ultimately show ?case
    using b by simp
next
  case (NotNode f d a)
  then show ?case by (cases b) auto
next
  case (PredicateNode f d p)
  then show ?case using equivp_symp [OF assms(1)] by (cases b) auto
qed

lemma isEquivalent_trans:
  assumes "equivp eqP" "isEquivalentExpression eqP a b" "isEquivalentExpression eqP b c"
  shows "isEquivalentExpression eqP a c"
  using assms(2,3)
proof (induction a arbitrary: b c)
  case (LogicalNode oper f d as)
  then obtain f2 d2 bs where b: "b = LogicalNode oper f2 d2 bs" "as \<noteq> []"
      "list_all2 (isEquivalentExpression eqP) as bs"
    by (cases b) (auto simp: args_loop_all2)
  then obtain f3 d3 cs where c: "c = LogicalNode oper f3 d3 cs" "list_all2 (isEquivalentExpression eqP) bs cs"
    using LogicalNode.prems(2) by (cases c) (auto simp: args_loop_all2)
  have "list_all2 (isEquivalentExpression eqP) as cs"
    using b(3) c(2) LogicalNode.IH unfolding list_all2_conv_all_nth by (metis nth_mem)
  then show ?case
    using b c by auto
next
  case (NotNode f d a)
  then obtain f2 d2 b' where b: "b = NotNode f2 d2 b'" "isEquivalentExpression eqP a b'"
    by (cases b) auto
  then obtain f3 d3 c' where c: "c = NotNode f3 d3 c'" "isEquivalentExpression eqP b' c'"
    using NotNode.prems(2) by (cases c) auto
  show ?case
    using NotNode.IH [OF b(2) c(2)] c(1) by simp
next
  case (PredicateNode f d p)
  then obtain f2 d2 q where b: "b = PredicateNode f2 d2 q" "eqP p q"
    by (cases b) auto
  then obtain f3 d3 r where c: "c = PredicateNode f3 d3 r" "eqP q r"
    using PredicateNode.prems(2) by (cases c) auto
  show ?case
    using equivp_transp [OF assms(1) b(2) c(2)] c(1) by simp
qed

lemma isEquivalent_value:
  assumes "\<And>p q. eqP p q \<Longrightarrow> v p = v q" "isEquivalentExpression eqP a b"
  shows "calculate v a = calculate v b"
  using assms(2)
proof (induction a arbitrary: b)
  case (LogicalNode oper f d as)
  then obtain f2 d2 bs where b: "b = LogicalNode oper f2 d2 bs" "list_all2 (isEquivalentExpression eqP) as bs"
    by (cases b) (auto simp: args_loop_all2)
  then have "map (calculate v) as = map (calculate v) bs"
    using LogicalNode.IH by (auto simp: list_all2_conv_all_nth intro: nth_equalityI)
  then show ?case
    unfolding b(1) by (rule calculate_args_cong)
next
  case (NotNode f d a)
  then show ?case by (cases b) auto
next
  case (PredicateNode f d p)
  then show ?case using assms(1) by (cases b) auto
qed

text \<open>When no two of \<open>xs\<close> are equivalent and as many of them have an equivalent in \<open>ys\<close> as \<open>ys\<close> has
  members, every member of \<open>ys\<close> has one in \<open>xs\<close>.\<close>

lemma matched_all:
  assumes "\<And>a b c. E a b \<Longrightarrow> E c b \<Longrightarrow> E a c"
  shows "sorted_wrt (\<lambda>a b. \<not> E a b) xs \<Longrightarrow> length (filter (\<lambda>a. \<exists>b \<in> set ys. E a b) xs) = length ys \<Longrightarrow>
    \<forall>b \<in> set ys. \<exists>a \<in> set xs. E a b"
proof (induction xs arbitrary: ys)
  case (Cons a xs)
  show ?case
  proof (cases "\<exists>b \<in> set ys. E a b")
    case True
    then obtain b where b: "b \<in> set ys" "E a b" by blast
    have iff: "(\<exists>c \<in> set ys. E x c) \<longleftrightarrow> (\<exists>c \<in> set (remove1 b ys). E x c)" if "x \<in> set xs" for x
    proof -
      have "\<not> E a x" using Cons.prems(1) that by simp
      then have "\<not> E x b" using assms b(2) by blast
      then show ?thesis
        by (metis in_set_remove1 notin_set_remove1)
    qed
    have "length (filter (\<lambda>x. \<exists>c \<in> set (remove1 b ys). E x c) xs) = length (remove1 b ys)"
      using Cons.prems(2) True b(1) iff
      by (simp add: length_remove1 cong: filter_cong)
    then have "\<forall>c \<in> set (remove1 b ys). \<exists>x \<in> set xs. E x c"
      using Cons.IH Cons.prems(1) by simp
    then show ?thesis
      using b(2) by (metis in_set_remove1 list.set_intros)
  next
    case False
    then show ?thesis
      using Cons.IH [of ys] Cons.prems by simp
  qed
qed simp

section \<open>Conditions to which the laws apply\<close>

fun canAbsorb :: "'p qtcNode \<Rightarrow> bool" where
  "canAbsorb (LogicalNode oper f d args) \<longleftrightarrow> args \<noteq> [] \<and>
     list_all (\<lambda>a. canAbsorb a \<and> \<not> isLogical oper a \<and> (subqueryExist (lflag a) \<longrightarrow> subqueryExist f)) args"
| "canAbsorb n \<longleftrightarrow> True"

text \<open>Nothing is left to remove.\<close>

fun reduced :: "('p qtcNode \<Rightarrow> 'p qtcNode \<Rightarrow> bool) \<Rightarrow> 'p qtcNode \<Rightarrow> bool" where
  "reduced isEq (LogicalNode oper f d args) \<longleftrightarrow>
     sorted_wrt (\<lambda>t c. compareNode isEq t c = RESULT_BOTH) args \<and> list_all (reduced isEq) args"
| "reduced isEq n \<longleftrightarrow> True"

lemma isAndOr_cases:
  "isAndOr n \<Longrightarrow> \<exists>oper f d args. n = LogicalNode oper f d args"
  by (cases n) auto

lemma equivalent_not_both:
  assumes "isEquivalentExpression eqP a b" "\<not> subqueryExist (lflag a)" "\<not> subqueryExist (lflag b)"
  shows "compareNode (isEquivalentExpression eqP) a b = RESULT_WIN"
proof (cases a)
  case (LogicalNode oper f d as)
  then obtain f2 d2 bs where b: "b = LogicalNode oper f2 d2 bs" "list_all2 (isEquivalentExpression eqP) as bs"
    using assms(1) by (cases b) auto
  then have "\<forall>x \<in> set as. \<exists>y \<in> set bs. isEquivalentExpression eqP x y"
    by (metis in_set_conv_nth list_all2_conv_all_nth)
  then have "filter (\<lambda>x. list_ex (isEquivalentExpression eqP x) bs) as = as"
    by (simp add: filter_id_conv list_ex_iff)
  then show ?thesis
    using assms(2,3) LogicalNode b(1) by (simp add: compareNode_def)
next
  case (NotNode f d x)
  then show ?thesis
    using assms by (cases b) (auto simp: compareNode_def)
next
  case (PredicateNode f d p)
  then show ?thesis
    using assms by (cases b) (auto simp: compareNode_def)
qed

lemma reduced_distinct:
  assumes "reduced (isEquivalentExpression eqP) (LogicalNode oper f d args)"
    "canAbsorb (LogicalNode oper f d args)" "\<not> subqueryExist f"
  shows "sorted_wrt (\<lambda>a b. \<not> isEquivalentExpression eqP a b) args"
proof -
  have "\<not> subqueryExist (lflag a)" if "a \<in> set args" for a
    using assms(2,3) that by (auto simp: list_all_iff)
  then show ?thesis
    using assms(1) equivalent_not_both [of eqP]
    by (auto simp: elim!: sorted_wrt_mono_rel [rotated])
qed

lemma filter_all_length: "length (filter P xs) = length xs \<longleftrightarrow> (\<forall>x \<in> set xs. P x)"
  by (metis filter_True length_filter_less less_irrefl)

lemma both_comm: "both oper a b = both oper b a"
  by (cases oper) auto

lemma absorbed: "a \<in> set as \<Longrightarrow> both oper (H a) (joint (dual oper) H as) = H a"
  by (cases oper) auto

lemma absorbed_all:
  "\<forall>a \<in> set as. \<exists>b \<in> set bs. H a = H b \<Longrightarrow>
   both oper (joint (dual oper) H as) (joint (dual oper) H bs) = joint (dual oper) H as"
  by (cases oper) (simp, metis)+

text \<open>The results of \<open>compareNode\<close> for two arguments of an operator.\<close>

lemma compareNode_sound:
  fixes eqP v
  defines "isEq \<equiv> isEquivalentExpression eqP"
  assumes eq: "equivp eqP" and val: "\<And>p q. eqP p q \<Longrightarrow> v p = v q" and x: "x \<noteq> MTD_BOOLEAN_FALSE"
    and t: "canAbsorb t" "\<not> isLogical oper t" "reduced isEq t"
    and c: "canAbsorb c" "\<not> isLogical oper c" "reduced isEq c"
  shows "compareNode isEq t c = RESULT_WIN \<Longrightarrow> both oper (holds v x t) (holds v x c) = holds v x t"
    and "compareNode isEq t c = RESULT_LOSE \<Longrightarrow> both oper (holds v x t) (holds v x c) = holds v x c"
proof -
  have H: "holds v x a = holds v x b" if "isEq a b" for a b
    using isEquivalent_value [where v = v, OF val] that by (simp add: isEq_def holds_def)
  have joined: "holds v x n \<longleftrightarrow> joint (dual oper) (holds v x) (arguments n)"
    if n1: "isAndOr n" and n2: "\<not> isLogical oper n" for n
  proof -
    obtain oper2 f d as where n: "n = LogicalNode oper2 f d as"
      using isAndOr_cases [OF n1] by blast
    then have "oper2 = dual oper"
      using n2 by (cases oper; cases oper2) auto
    then show ?thesis
      unfolding n by (simp only: holds_joint [OF x] arguments.simps)
  qed
  show "both oper (holds v x t) (holds v x c) = holds v x t" if win: "compareNode isEq t c = RESULT_WIN"
  proof -
    consider (op_op) "isEq t c"
      | (op_lo) b where "isAndOr c" "b \<in> set (arguments c)" "isEq t b"
      | (lo_lo) "isAndOr t" "isAndOr c" "\<forall>a \<in> set (arguments t). \<exists>b \<in> set (arguments c). isEq a b"
      using win by (auto simp: compareNode_def Let_def list_ex_iff filter_all_length split: if_splits)
    then show ?thesis
    proof cases
      case op_op
      then show ?thesis using H by (simp add: both_ac)
    next
      case op_lo
      then show ?thesis
        using absorbed [OF op_lo(2), of oper "holds v x"] H [OF op_lo(3)]
        unfolding joined [OF op_lo(1) c(2)] by simp
    next
      case lo_lo
      then have "\<forall>a \<in> set (arguments t). \<exists>b \<in> set (arguments c). holds v x a = holds v x b"
        using H by blast
      from absorbed_all [OF this, of oper] show ?thesis
        unfolding joined [OF lo_lo(1) t(2)] joined [OF lo_lo(2) c(2)] .
    qed
  qed
  show "both oper (holds v x t) (holds v x c) = holds v x c" if lose: "compareNode isEq t c = RESULT_LOSE"
  proof -
    consider (lo_op) a where "isAndOr t" "a \<in> set (arguments t)" "isEq a c"
      | (lo_lo) "isAndOr t" "isAndOr c" "\<not> subqueryExist (lflag t)"
        "length (filter (\<lambda>a. \<exists>b \<in> set (arguments c). isEq a b) (arguments t)) = length (arguments c)"
      using lose by (auto simp: compareNode_def Let_def list_ex_iff split: if_splits)
    then show ?thesis
    proof cases
      case lo_op
      then show ?thesis
        using absorbed [OF lo_op(2), of oper "holds v x"] H [OF lo_op(3)]
        unfolding joined [OF lo_op(1) t(2)] by (simp add: both_comm)
    next
      case lo_lo
      obtain oper2 f d as where n: "t = LogicalNode oper2 f d as"
        using isAndOr_cases [OF lo_lo(1)] by blast
      have distinct: "sorted_wrt (\<lambda>a b. \<not> isEq a b) as"
        using reduced_distinct [of eqP oper2 f d as] t lo_lo(3) unfolding n isEq_def by simp
      have same: "isEq a b" if "isEq a y" "isEq b y" for a b y
        using that isEquivalent_sym [OF eq] isEquivalent_trans [OF eq] unfolding isEq_def by blast
      have "\<forall>b \<in> set (arguments c). \<exists>a \<in> set as. isEq a b"
        by (rule matched_all [OF _ distinct lo_lo(4) [unfolded n arguments.simps]]) (rule same)
      then have "\<forall>b \<in> set (arguments c). \<exists>a \<in> set (arguments t). holds v x b = holds v x a"
        unfolding n arguments.simps using H by metis
      from absorbed_all [OF this, of oper] show ?thesis
        unfolding joined [OF lo_lo(1) t(2)] joined [OF lo_lo(2) c(2)] by (subst both_comm)
    qed
  qed
qed

section \<open>The recursion\<close>

lemma compare_loop_id:
  "\<forall>c \<in> set cs. g c = c \<and> cmp t c = RESULT_BOTH \<Longrightarrow> compare_loop g cmp t cs = (False, cs)"
  by (induction cs) auto

lemma target_loop_id:
  "\<forall>c \<in> set ts. g c = c \<Longrightarrow> sorted_wrt (\<lambda>t c. cmp t c = RESULT_BOTH) ts \<Longrightarrow> target_loop g cmp ts = ts"
  by (induction ts) (auto simp: compare_loop_id)

lemma absorb_stable: "reduced isEq n \<Longrightarrow> absorb isEq k n = n"
proof (induction k arbitrary: n)
  case (Suc k)
  show ?case
  proof (cases n)
    case (LogicalNode oper f d args)
    then have "\<forall>a \<in> set args. absorb isEq k a = a"
      using Suc by (auto simp: list_all_iff)
    then show ?thesis
      using target_loop_id [of args "absorb isEq k" "compareNode isEq"] Suc.prems LogicalNode
      by (cases args) (auto simp del: target_loop.simps)
  qed simp_all
qed simp

lemma depth_arguments: "depth (LogicalNode oper f d args) \<le> Suc k \<longleftrightarrow> (\<forall>a \<in> set args. depth a \<le> k)"
  by (auto simp: Max_le_iff)

lemma absorb_result:
  fixes eqP v
  defines "isEq \<equiv> isEquivalentExpression eqP"
  assumes eq: "equivp eqP" and val: "\<And>p q. eqP p q \<Longrightarrow> v p = v q" and x: "x \<noteq> MTD_BOOLEAN_FALSE"
  shows "canAbsorb n \<Longrightarrow> depth n \<le> k \<Longrightarrow>
    canAbsorb (absorb isEq k n) \<and> reduced isEq (absorb isEq k n) \<and> depth (absorb isEq k n) \<le> k \<and>
    lflag (absorb isEq k n) = lflag n \<and> (\<forall>oper. isLogical oper (absorb isEq k n) = isLogical oper n) \<and>
    holds v x (absorb isEq k n) = holds v x n"
proof (induction k arbitrary: n)
  case 0
  then show ?case by (cases n) auto
next
  case (Suc k)
  show ?case
  proof (cases n)
    case (LogicalNode oper f d args)
    define Pre where "Pre c \<longleftrightarrow> canAbsorb c \<and> \<not> isLogical oper c \<and>
      (subqueryExist (lflag c) \<longrightarrow> subqueryExist f) \<and> depth c \<le> k" for c :: "'a qtcNode"
    define Good where "Good c \<longleftrightarrow> Pre c \<and> reduced isEq c" for c :: "'a qtcNode"
    obtain t ts where args: "args = t # ts"
      using Suc.prems(1) LogicalNode by (cases args) auto
    have g: "Good (absorb isEq k c) \<and> holds v x (absorb isEq k c) = holds v x c" if "Pre c" for c
      using Suc.IH [of c] that by (simp add: Pre_def Good_def)
    have pre: "\<forall>c \<in> set args. Pre c"
      using Suc.prems depth_arguments [of oper f d args k] unfolding LogicalNode Pre_def
      by (auto simp: list_all_iff simp del: depth.simps)
    define rs where "rs = target_loop (absorb isEq k) (compareNode isEq) (absorb isEq k t # ts)"
    have "rs \<noteq> [] \<and> (\<forall>c \<in> set rs. Good c) \<and> sorted_wrt (\<lambda>t c. compareNode isEq t c = RESULT_BOTH) rs \<and>
        joint oper (holds v x) rs = joint oper (holds v x) (absorb isEq k t # ts)"
      unfolding rs_def
    proof (rule target_loop_result [of Pre Good])
      fix c c' assume "Good c" "Good c'"
      then show "compareNode isEq c c' = RESULT_WIN \<Longrightarrow> both oper (holds v x c) (holds v x c') = holds v x c"
        "compareNode isEq c c' = RESULT_LOSE \<Longrightarrow> both oper (holds v x c) (holds v x c') = holds v x c'"
        unfolding isEq_def Good_def Pre_def by (intro compareNode_sound [OF eq val x]; simp)+
    qed (use g pre args in \<open>auto simp: Good_def absorb_stable\<close>)
    moreover have "absorb isEq (Suc k) n = LogicalNode oper f d rs"
      unfolding LogicalNode args rs_def by simp
    moreover have "holds v x (absorb isEq k t) = holds v x t"
      using g pre args by simp
    ultimately show ?thesis
      using holds_joint [OF x, of v oper f d]
      by (auto simp: LogicalNode args joint_Cons Good_def Pre_def list_all_iff simp del: joint.simps absorb.simps)
  qed simp_all
qed

text \<open>More fuel than the depth changes nothing.\<close>

lemma compare_loop_cong:
  "\<forall>c \<in> D. g c = h c \<Longrightarrow> set cs \<subseteq> D \<Longrightarrow> compare_loop g cmp t cs = compare_loop h cmp t cs"
  by (induction cs) (simp_all split: qmoCSECompareResult.split)

lemma target_loop_cong:
  "\<forall>c \<in> D. g c = h c \<and> g c \<in> D \<Longrightarrow> set ts \<subseteq> D \<Longrightarrow> target_loop g cmp ts = target_loop h cmp ts"
proof (induction g cmp ts rule: target_loop.induct)
  case (2 g cmp t ts)
  have "compare_loop g cmp t ts = compare_loop h cmp t ts" "set (snd (compare_loop g cmp t ts)) \<subseteq> D"
    using 2(3,4) by (intro compare_loop_cong compare_loop_closed; auto)+
  moreover have "\<forall>c \<in> D. h c \<in> D"
    using 2(3) by metis
  ultimately show ?case
    using 2 by (cases "fst (compare_loop h cmp t ts)") auto
qed simp

lemma absorb_depth: "depth n \<le> k \<Longrightarrow> depth (absorb isEq k n) \<le> k"
proof (induction k arbitrary: n)
  case (Suc k)
  show ?case
  proof (cases n)
    case (LogicalNode oper f d args)
    have "set (target_loop (absorb isEq k) (compareNode isEq) (absorb isEq k t # ts)) \<subseteq> {a. depth a \<le> k}"
      if "args = t # ts" for t ts
      using Suc depth_arguments [of oper f d args k] that LogicalNode
      by (intro target_loop_closed) (auto simp del: depth.simps)
    then show ?thesis
      using depth_arguments [of oper f d _ k] LogicalNode
      by (cases args) (auto simp del: depth.simps target_loop.simps)
  qed simp_all
qed (cases n; simp)

lemma absorb_enough_fuel: "depth n \<le> k \<Longrightarrow> k \<le> m \<Longrightarrow> absorb isEq k n = absorb isEq m n"
proof (induction k arbitrary: n m)
  case 0
  then show ?case by (cases n; cases m) auto
next
  case (Suc k)
  obtain m' where m: "m = Suc m'" "k \<le> m'"
    using Suc.prems(2) by (cases m) auto
  show ?case
  proof (cases n)
    case (LogicalNode oper f d args)
    have ih: "\<forall>a \<in> {a. depth a \<le> k}. absorb isEq k a = absorb isEq m' a \<and> absorb isEq k a \<in> {a. depth a \<le> k}"
      using Suc.IH [OF _ m(2)] absorb_depth by blast
    have args: "\<forall>a \<in> set args. depth a \<le> k"
      using Suc.prems(1) depth_arguments unfolding LogicalNode by blast
    have "target_loop (absorb isEq k) (compareNode isEq) (absorb isEq k t # ts) =
        target_loop (absorb isEq m') (compareNode isEq) (absorb isEq m' t # ts)" if ts: "args = t # ts" for t ts
    proof -
      have "absorb isEq k t = absorb isEq m' t" "set (absorb isEq k t # ts) \<subseteq> {a. depth a \<le> k}"
        using ih args ts by auto
      then show ?thesis
        using target_loop_cong [OF ih] by (simp only:)
    qed
    then show ?thesis
      unfolding LogicalNode m(1) by (cases args) (simp_all del: target_loop.simps)
  qed (simp_all add: m(1))
qed

section \<open>Flattening and removal\<close>

fun flagsCover :: "'p qtcNode \<Rightarrow> bool" where
  "flagsCover (LogicalNode oper f d args) \<longleftrightarrow>
     list_all (\<lambda>a. flagsCover a \<and> (subqueryExist (lflag a) \<longrightarrow> subqueryExist f)) args"
| "flagsCover n \<longleftrightarrow> True"

definition argumentsOk :: "bool \<Rightarrow> 'p qtcNode list \<Rightarrow> bool" where
  "argumentsOk B ns \<longleftrightarrow> (\<forall>n \<in> set ns. nonEmpty n \<and> flagsCover n \<and> (subqueryExist (lflag n) \<longrightarrow> B))"

definition flatArguments :: "mtcOperator \<Rightarrow> 'p qtcNode list \<Rightarrow> bool" where
  "flatArguments oper ns \<longleftrightarrow> (\<forall>n \<in> set ns. canAbsorb n \<and> \<not> isLogical oper n)"

lemma arguments_simps [simp]:
  "argumentsOk B []" "argumentsOk B (n # ns) \<longleftrightarrow>
     nonEmpty n \<and> flagsCover n \<and> (subqueryExist (lflag n) \<longrightarrow> B) \<and> argumentsOk B ns"
  "argumentsOk B (ms @ ns) \<longleftrightarrow> argumentsOk B ms \<and> argumentsOk B ns"
  "flatArguments oper []" "flatArguments oper (n # ns) \<longleftrightarrow> canAbsorb n \<and> \<not> isLogical oper n \<and> flatArguments oper ns"
  by (auto simp: argumentsOk_def flatArguments_def)

lemma logical_ok:
  "nonEmpty (LogicalNode oper f d args) \<and> flagsCover (LogicalNode oper f d args) \<longleftrightarrow>
     args \<noteq> [] \<and> argumentsOk (subqueryExist f) args"
  "canAbsorb (LogicalNode oper f d args) \<longleftrightarrow>
     args \<noteq> [] \<and> flatArguments oper args \<and> (\<forall>a \<in> set args. subqueryExist (lflag a) \<longrightarrow> subqueryExist f)"
  by (auto simp: argumentsOk_def flatArguments_def list_all_iff)

lemma unnestArguments_result:
  assumes "x \<noteq> MTD_BOOLEAN_FALSE"
  shows "argumentsOk B ns \<Longrightarrow> argumentsOk B (unnestArguments oper ns) \<and> flatArguments oper (unnestArguments oper ns) \<and>
    (ns \<noteq> [] \<longrightarrow> unnestArguments oper ns \<noteq> []) \<and>
    joint oper (holds v x) (unnestArguments oper ns) = joint oper (holds v x) ns"
proof (induction oper ns arbitrary: B rule: unnestArguments.induct)
  case (2 oper oper2 f d args ns)
  have args: "args \<noteq> []" "argumentsOk (subqueryExist f) args" "subqueryExist f \<longrightarrow> B" "argumentsOk B ns"
    using "2.prems" logical_ok(1) [of oper2 f d args] by auto
  show ?case
  proof (cases "oper2 = oper")
    case True
    have "argumentsOk B args"
      using args(2,3) by (auto simp: argumentsOk_def)
    note ih1 = "2.IH"(1) [OF True this]
    have "argumentsOk B (unnestArguments oper2 args @ ns)"
      using ih1 args(4) by simp
    note ih2 = "2.IH"(2) [OF True this]
    have "joint oper (holds v x) (unnestArguments oper2 args @ ns) =
        joint oper (holds v x) (LogicalNode oper2 f d args # ns)"
      using ih1 True holds_joint [OF assms, of v oper f d args]
      by (simp only: joint_append joint_Cons)
    then show ?thesis
      using ih1 ih2 args(1) True by (simp del: joint.simps)
  next
    case False
    note ih1 = "2.IH"(3) [OF False args(2)] and ih2 = "2.IH"(4) [OF False args(4)]
    let ?n = "LogicalNode oper2 f d (unnestArguments oper2 args)"
    have "nonEmpty ?n \<and> flagsCover ?n" "canAbsorb ?n"
      using ih1 args(1) unfolding logical_ok by (auto simp: argumentsOk_def)
    moreover have "holds v x ?n = holds v x (LogicalNode oper2 f d args)"
      using ih1 by (simp only: holds_joint [OF assms])
    ultimately show ?thesis
      using ih2 args(3) False
      by (simp add: joint_Cons del: joint.simps nonEmpty.simps flagsCover.simps canAbsorb.simps)
  qed
qed (auto simp: joint_Cons simp del: joint.simps)

lemma unnestingAndOr_result:
  assumes "nonEmpty n" "flagsCover n"
  shows "canAbsorb (unnestingAndOr4NNF n) \<and> calculate v (unnestingAndOr4NNF n) = calculate v n"
proof (cases n)
  case (LogicalNode oper f d args)
  have ok: "args \<noteq> []" "argumentsOk (subqueryExist f) args"
    using assms logical_ok(1) [of oper f d args] LogicalNode by auto
  note r = unnestArguments_result [OF _ ok(2), of _ oper v]
  have "calculate v (unnestingAndOr4NNF n) = calculate v n"
    using r by (intro calculate_eqI) (simp add: unnestingAndOr4NNF_def LogicalNode holds_joint del: joint.simps holds_logical)
  moreover have "canAbsorb (unnestingAndOr4NNF n)"
    using r [of MTD_BOOLEAN_TRUE] ok(1) unfolding unnestingAndOr4NNF_def LogicalNode
    by (auto simp: logical_ok(2) argumentsOk_def simp del: canAbsorb.simps joint.simps)
  ultimately show ?thesis by simp
qed (simp_all add: unnestingAndOr4NNF_def)

text \<open>Every \<open>AND\<close> and \<open>OR\<close> outside a \<open>NOT\<close> has at least two arguments.\<close>

fun compactOutside :: "'p qtcNode \<Rightarrow> bool" where
  "compactOutside (LogicalNode oper f d args) \<longleftrightarrow> length args \<ge> 2 \<and> list_all compactOutside args"
| "compactOutside n \<longleftrightarrow> True"

lemma removeLogicalNode_result:
  assumes "canAbsorb n"
  shows "\<exists>m. removeLogicalNode4NNF n = Inr m \<and> compactOutside m \<and> (\<forall>v. calculate v m = calculate v n)"
  using assms
proof (induction n rule: removeLogicalNode4NNF.induct)
  case (1 oper f d args)
  then have "\<forall>a \<in> set args. \<exists>m. removeLogicalNode4NNF a = Inr m \<and> compactOutside m \<and> (\<forall>v. calculate v m = calculate v a)"
    by (auto simp: list_all_iff)
  then obtain g where g: "\<forall>a \<in> set args. removeLogicalNode4NNF a = Inr (g a) \<and> compactOutside (g a) \<and>
      (\<forall>v. calculate v (g a) = calculate v a)"
    by metis
  have all: "all_loop (map removeLogicalNode4NNF args) = Inr (map g args)"
    using all_loop_Inr [of args removeLogicalNode4NNF g] g by blast
  have eq: "calculate v (LogicalNode oper f d (map g args)) = calculate v (LogicalNode oper f d args)" for v
    using g by (intro calculate_args_cong) simp
  consider (one) a where "args = [a]" | (more) a b as where "args = a # b # as"
    using "1.prems" by (cases args rule: list.exhaust; cases "tl args") auto
  then show ?case
  proof cases
    case one
    then show ?thesis using all g by (simp add: calculate_single)
  next
    case more
    have "compactOutside (LogicalNode oper f d (map g args))"
      using g more by (simp add: list_all_iff)
    moreover have "removeLogicalNode4NNF (LogicalNode oper f d args) = Inr (LogicalNode oper f d (map g args))"
      using all more by simp
    ultimately show ?thesis using eq by blast
  qed
qed simp_all

lemma idempotent_shape:
  assumes "equivp eqP" "canAbsorb n"
  shows "canAbsorb (idempotentAndAbsorption eqP n) \<and>
    reduced (isEquivalentExpression eqP) (idempotentAndAbsorption eqP n)"
  using absorb_result [of eqP "\<lambda>_. MTD_BOOLEAN_TRUE" MTD_BOOLEAN_TRUE n "depth n"] assms
  by (simp add: idempotentAndAbsorption_def)

lemma idempotent_value:
  assumes "equivp eqP" "canAbsorb n" "\<And>p q. eqP p q \<Longrightarrow> v p = v q"
  shows "calculate v (idempotentAndAbsorption eqP n) = calculate v n"
  using absorb_result [of eqP v _ n "depth n"] assms
  by (intro calculate_eqI) (simp add: idempotentAndAbsorption_def)

lemma check_loop_Inr: "\<forall>r \<in> set rs. \<exists>b. r = Inr b \<Longrightarrow> \<exists>b. check_loop rs = Inr b"
proof (induction rs)
  case (Cons r rs)
  then obtain b where "r = Inr b" "\<exists>b. check_loop rs = Inr b" by auto
  then show ?case by (cases b) auto
qed (auto intro: exI [of _ False])

lemma doCheckOuter_Inr: "canAbsorb n \<or> nonEmpty n \<Longrightarrow> \<exists>b. doCheckOuter n = Inr b"
proof (induction n rule: doCheckOuter.induct)
  case (1 oper f d args)
  then show ?case
    by (auto simp: list_all_iff intro!: check_loop_Inr)
qed simp_all


text \<open>A condition \<open>(1 OR 2) AND (1 OR (2 OR 3)) AND 4\<close>.\<close>

definition sampleCSE :: "nat qtcNode" where
  "sampleCSE = LogicalNode OPERATOR_AND noFlags []
     [LogicalNode OPERATOR_OR noFlags [] [PredicateNode noFlags [] 1, PredicateNode noFlags [] 2],
      LogicalNode OPERATOR_OR noFlags [] [PredicateNode noFlags [] 1,
        LogicalNode OPERATOR_OR noFlags [] [PredicateNode noFlags [] 2, PredicateNode noFlags [] 3]],
      PredicateNode noFlags [] 4]"


section \<open>Normal forms\<close>

lemma clause_canAbsorb:
  "isClause inner c \<Longrightarrow> noSubquery c \<Longrightarrow> canAbsorb c \<and> isLogical inner c"
proof (cases c)
  case (LogicalNode oper f d args)
  assume c: "isClause inner c" "noSubquery c"
  have "canAbsorb a \<and> \<not> isLogical oper a" if "a \<in> set args" for a
    using c(1) that LogicalNode by (cases a) (auto simp: list_all_iff)
  then show ?thesis
    using c LogicalNode noSubquery_flag by (auto simp: list_all_iff)
qed simp_all

lemma isLogical_dual [simp]: "isLogical (dual oper) n \<Longrightarrow> \<not> isLogical oper n"
  by (cases n; cases oper) auto

lemma NF_canAbsorb: "isNF outer n \<Longrightarrow> noSubquery n \<Longrightarrow> canAbsorb n"
  using clause_canAbsorb noSubquery_flag
  by (cases n) (fastforce simp: list_all_iff)+

lemma target_loop_nonempty:
  assumes "ts \<noteq> []" shows "target_loop g cmp ts \<noteq> []"
  using assms
proof (induction g cmp ts rule: target_loop.induct)
  case (2 g cmp t ts)
  have "fst (compare_loop g cmp t cs) \<Longrightarrow> snd (compare_loop g cmp t cs) \<noteq> []" for cs
    by (induction cs) (auto split: qmoCSECompareResult.splits prod.splits)
  then show ?case using 2 by simp
qed simp

lemma absorb_terminal: "\<not> isAndOr a \<Longrightarrow> absorb isEq k a = a"
  by (cases k; cases a) auto

lemma absorb_clause: "isClause inner c \<Longrightarrow> isClause inner (absorb isEq k c)"
proof (cases k)
  case (Suc j)
  assume c: "isClause inner c"
  obtain f d args where n: "c = LogicalNode inner f d args" "args \<noteq> []" "\<forall>a \<in> set args. \<not> isAndOr a"
    using c by (rule isClause_obtain)
  obtain t ts where args: "args = t # ts"
    using n(2) by (cases args) auto
  have "set (target_loop (absorb isEq j) (compareNode isEq) (absorb isEq j t # ts)) \<subseteq> {a. \<not> isAndOr a}"
    using n(3) args by (intro target_loop_closed) (auto simp: absorb_terminal)
  then show ?thesis
    using target_loop_nonempty [of "absorb isEq j t # ts"]
    by (auto simp: Suc n(1) args list_all_iff simp del: target_loop.simps)
qed simp

lemma absorb_NF: "isNF outer n \<Longrightarrow> isNF outer (absorb isEq k n)"
proof (cases k)
  case (Suc j)
  assume c: "isNF outer n"
  obtain f d args where n: "n = LogicalNode outer f d args" "args \<noteq> []" "\<forall>c \<in> set args. isClause (dual outer) c"
    using c by (rule isNF_obtain)
  obtain t ts where args: "args = t # ts"
    using n(2) by (cases args) auto
  have "set (target_loop (absorb isEq j) (compareNode isEq) (absorb isEq j t # ts)) \<subseteq> {c. isClause (dual outer) c}"
    using n(3) args by (intro target_loop_closed) (auto simp: absorb_clause)
  then show ?thesis
    using target_loop_nonempty [of "absorb isEq j t # ts"]
    by (auto simp: Suc n(1) args list_all_iff simp del: target_loop.simps)
qed simp

text \<open>On a normal form without subqueries \<open>doTransform\<close> gives a normal form of the same kind with
  the same value; when it applies, \<open>compareNode\<close> finds nothing to remove among the clauses, nor among
  the terms of a clause.\<close>

theorem doTransform_NF:
  assumes "isNF outer n" "noSubquery n" "equivp eqP"
  shows "\<exists>m. doTransform eqP eliminate False aIsWhere hint (Some n) = Inr (Some m) \<and> isNF outer m \<and>
    (\<forall>v. (\<forall>p q. eqP p q \<longrightarrow> v p = v q) \<longrightarrow> calculate v m = calculate v n) \<and>
    (isTransform hint eliminate aIsWhere (Some n) \<and> doCheckOuter n = Inr False \<longrightarrow>
       reduced (isEquivalentExpression eqP) m)"
proof -
  have ok: "canAbsorb n" by (rule NF_canAbsorb [OF assms(1,2)])
  obtain b where b: "doCheckOuter n = Inr b"
    using doCheckOuter_Inr ok by blast
  show ?thesis
  proof (cases "isTransform hint eliminate aIsWhere (Some n) \<and> \<not> b")
    case True
    then have "doTransform eqP eliminate False aIsWhere hint (Some n) =
        Inr (Some (idempotentAndAbsorption eqP n))"
      using b by (simp add: doTransform_def)
    moreover have "isNF outer (idempotentAndAbsorption eqP n)"
      unfolding idempotentAndAbsorption_def by (rule absorb_NF [OF assms(1)])
    ultimately show ?thesis
      using idempotent_shape [OF assms(3) ok] idempotent_value [OF assms(3) ok] by auto
  next
    case False
    then show ?thesis
      using b assms(1) by (auto simp: doTransform_def)
  qed
qed

theorem doTransform_NF_witness:
  "\<exists>m. doTransform (=) 1 False True None (Some (LogicalNode OPERATOR_AND noFlags []
        [LogicalNode OPERATOR_OR noFlags [] [PredicateNode noFlags [] (1 :: nat), PredicateNode noFlags [] 1]])) =
      Inr (Some m) \<and> isNF OPERATOR_AND m \<and>
    (\<forall>v. (\<forall>p q. p = q \<longrightarrow> v p = v q) \<longrightarrow> calculate v m = calculate v (LogicalNode OPERATOR_AND noFlags []
        [LogicalNode OPERATOR_OR noFlags [] [PredicateNode noFlags [] 1, PredicateNode noFlags [] 1]])) \<and>
    (isTransform None 1 True (Some (LogicalNode OPERATOR_AND noFlags []
        [LogicalNode OPERATOR_OR noFlags [] [PredicateNode noFlags [] (1 :: nat), PredicateNode noFlags [] 1]])) \<and>
      doCheckOuter (LogicalNode OPERATOR_AND noFlags []
        [LogicalNode OPERATOR_OR noFlags [] [PredicateNode noFlags [] (1 :: nat), PredicateNode noFlags [] 1]]) = Inr False \<longrightarrow>
       reduced (isEquivalentExpression (=)) m)"
  by (rule doTransform_NF) (simp_all add: noFlags_def identity_equivp)

end
