(* ===== verification/Normalization.thy ===== *)
theory Normalization
  imports CSEProps
begin

text \<open>
  The normalisation of a \<open>WHERE\<close> clause: the choice of the normal form by
  \<open>qmoCrtPathMgr::decideNormalType4Where\<close> (and \<open>decideNormalType\<close> for other clauses) of
  \<open>src/src/qp/qmo/qmoCrtPathMgr.cpp\<close>, \<open>normalizeCNF\<close> and \<open>normalizeDNF\<close> of \<open>qmoNormalForm.cpp\<close>, and
  the part of \<open>qmoCrtPathMgr::init\<close> that makes the conjunctive normal form with its filter.
\<close>

section \<open>Normal forms\<close>

text \<open>\<open>setFlagAndDependencies\<close> is called with the result, which may be null.\<close>

definition setFlagOf :: "'p qtcNode option \<Rightarrow> qpError + 'p qtcNode" where
  "setFlagOf r = (case r of None \<Rightarrow> Inl NullDereference | Some n \<Rightarrow> setFlagAndDependencies n)"

definition normalizeDNF :: "('p \<Rightarrow> 'p \<Rightarrow> bool) \<Rightarrow> nat \<Rightarrow> 'p qtcNode \<Rightarrow> qpError + 'p qtcNode" where
  "normalizeDNF eqP eliminate aNode =
     andThen (makeDNF aNode) (\<lambda>aDNF.
     andThen (doTransform eqP eliminate False False None (Some aDNF)) setFlagOf)"

definition normalizeCNF ::
  "('p \<Rightarrow> 'p \<Rightarrow> bool) \<Rightarrow> nat \<Rightarrow> bool \<Rightarrow> bool option \<Rightarrow> 'p qtcNode \<Rightarrow> qpError + 'p qtcNode" where
  "normalizeCNF eqP eliminate aIsWhere aHints aNode =
     andThen (makeCNF False aNode) (\<lambda>aCNF.
     andThen (doTransform eqP eliminate False aIsWhere aHints aCNF) setFlagOf)"

text \<open>The conjunctive normal form and the filter of \<open>WHERE\<close>, in \<open>init\<close>.\<close>

definition normalizeWhere ::
  "('p \<Rightarrow> 'p \<Rightarrow> bool) \<Rightarrow> nat \<Rightarrow> bool option \<Rightarrow> 'p qtcNode option \<Rightarrow>
   qpError + ('p qtcNode option \<times> 'p qtcNode option)" where
  "normalizeWhere eqP eliminate aHints sWhere =
     (case sWhere of
        None \<Rightarrow> Inr (None, None)
      | Some w \<Rightarrow>
          andThen (normalizeCNF eqP eliminate True aHints w) (\<lambda>sNormalForm.
          andThen (extractNNFFilter4CNF (afterMakeCNF False w)) (\<lambda>sNNFFilter.
          Inr (Some sNormalForm, sNNFFilter))))"

section \<open>Choice\<close>

datatype qmoNormalType = NORMAL_TYPE_NOT_DEFINED | NORMAL_TYPE_DNF | NORMAL_TYPE_CNF | NORMAL_TYPE_NNF

datatype qciStmtType = STMT_UPDATE | STMT_DELETE | STMT_MOVE | STMT_SELECT_FOR_UPDATE | STMT_OTHER

text \<open>A node of the \<open>FROM\<close> clause: \<open>left\<close> and \<open>right\<close>, each with its \<open>next\<close> nodes, and whether
  \<open>tableRef->view\<close> is set.\<close>

datatype qmsFrom = QmsFrom "qmsFrom list" "qmsFrom list" bool

fun existsViewinFrom :: "qmsFrom list \<Rightarrow> bool" where
  "existsViewinFrom [] = False"
| "existsViewinFrom (QmsFrom l r view # fs) =
     (if l = [] \<and> r = [] then (if view then True else existsViewinFrom fs)
      else existsViewinFrom l \<or> existsViewinFrom r \<or> existsViewinFrom fs)"

text \<open>Step (0): whether only the conjunctive form is allowed, and whether the outer join operator
  was found.  \<open>dnfDisable\<close>: \<open>QCU_OPTIMIZER_DNF_DISABLE\<close>.\<close>

definition checkCNFOnly ::
  "bool \<Rightarrow> qmoNormalType \<Rightarrow> bool \<Rightarrow> qciStmtType \<Rightarrow> qmsFrom list \<Rightarrow> 'p qtcNode option \<Rightarrow> bool \<times> bool" where
  "checkCNFOnly dnfDisable sHint aIsCNFOnly stmtKind sFrom sWhere =
     (if dnfDisable \<and> sHint \<noteq> NORMAL_TYPE_DNF then (True, False)
      else if aIsCNFOnly then (True, False)
      else if stmtKind = STMT_UPDATE \<or> stmtKind = STMT_DELETE \<or> stmtKind = STMT_MOVE \<or>
              stmtKind = STMT_SELECT_FOR_UPDATE then (True, False)
      else if existsViewinFrom sFrom then (True, False)
      else (case sWhere of
              None \<Rightarrow> (True, False)
            | Some w \<Rightarrow>
                (if joinOperatorExist (lflag w) then (True, True)
                 else (normalizeCheckCNFOnly w, False))))"

text \<open>Steps (1) and (2): the type, from the two estimates.\<close>

definition chooseType :: "bool \<Rightarrow> qmoNormalType \<Rightarrow> nat \<Rightarrow> nat \<Rightarrow> nat \<Rightarrow> qmoNormalType" where
  "chooseType sIsCNFOnly sHint sNormalFormMaximum sEstimateCnfCnt sEstimateDnfCnt =
     (if sEstimateCnfCnt > sNormalFormMaximum \<and> sEstimateDnfCnt > sNormalFormMaximum then NORMAL_TYPE_NNF
      else if sEstimateCnfCnt \<le> sNormalFormMaximum \<and> sEstimateDnfCnt > sNormalFormMaximum then NORMAL_TYPE_CNF
      else if sEstimateCnfCnt > sNormalFormMaximum \<and> sEstimateDnfCnt \<le> sNormalFormMaximum then
        (if sIsCNFOnly then NORMAL_TYPE_NNF else NORMAL_TYPE_DNF)
      else if sIsCNFOnly then NORMAL_TYPE_CNF
      else sHint)"

text \<open>The error is \<open>ERR_OUTER_JOIN_OPERATOR_NOT_ALLOW_NOCNF\<close>.\<close>

datatype qmoError = OUTER_JOIN_OPERATOR_NOT_ALLOW_NOCNF

definition checkJoinOper :: "bool \<Rightarrow> qmoNormalType \<Rightarrow> qmoError + qmoNormalType" where
  "checkJoinOper sExistsJoinOper sNormalType =
     (if sExistsJoinOper \<and> sNormalType \<noteq> NORMAL_TYPE_CNF then Inl OUTER_JOIN_OPERATOR_NOT_ALLOW_NOCNF
      else Inr sNormalType)"

definition decideNormalType ::
  "bool \<Rightarrow> qmoNormalType \<Rightarrow> bool \<Rightarrow> qciStmtType \<Rightarrow> qmsFrom list \<Rightarrow> nat \<Rightarrow> 'p qtcNode option \<Rightarrow>
   qmoError + qmoNormalType" where
  "decideNormalType dnfDisable sHint aIsCNFOnly stmtKind sFrom sNormalFormMaximum sWhere =
     (case checkCNFOnly dnfDisable sHint aIsCNFOnly stmtKind sFrom sWhere of
        (sIsCNFOnly, sExistsJoinOper) \<Rightarrow>
          checkJoinOper sExistsJoinOper
            (chooseType sIsCNFOnly sHint sNormalFormMaximum
              (case sWhere of None \<Rightarrow> 0 | Some w \<Rightarrow> estimateCNF w)
              (case sWhere of None \<Rightarrow> 0 | Some w \<Rightarrow> estimateDNF w)))"

text \<open>The estimates for \<open>WHERE\<close>, with the condition as \<open>estimatePartialCNF\<close> marks it.
  \<open>partialNormalize\<close>: \<open>QCU_OPTIMIZER_PARTIAL_NORMALIZE\<close>.\<close>

definition estimateWhere ::
  "bool \<Rightarrow> nat \<Rightarrow> 'p qtcNode option \<Rightarrow> nat \<times> nat \<times> 'p qtcNode option" where
  "estimateWhere partialNormalize sNormalFormMaximum sWhere =
     (case sWhere of
        None \<Rightarrow> (0, 0, None)
      | Some w \<Rightarrow>
          (if sNormalFormMaximum > 0 then
             (if \<not> partialNormalize then (estimateCNF w, estimateDNF w, Some w)
              else (case estimatePartialCNF sNormalFormMaximum False w of
                      (c, _, m) \<Rightarrow>
                        (if cnfUnusable (lflag m) then UINT_MAX else c, estimateDNF m, Some m)))
           else (UINT_MAX, UINT_MAX, Some w)))"

definition decideNormalType4Where ::
  "bool \<Rightarrow> bool \<Rightarrow> qmoNormalType \<Rightarrow> bool \<Rightarrow> qciStmtType \<Rightarrow> qmsFrom list \<Rightarrow> nat \<Rightarrow> 'p qtcNode option \<Rightarrow>
   (qmoError + qmoNormalType) \<times> 'p qtcNode option" where
  "decideNormalType4Where partialNormalize dnfDisable sHint aIsCNFOnly stmtKind sFrom sNormalFormMaximum sWhere =
     (case checkCNFOnly dnfDisable sHint aIsCNFOnly stmtKind sFrom sWhere of
        (sIsCNFOnly, sExistsJoinOper) \<Rightarrow>
          (case estimateWhere partialNormalize sNormalFormMaximum sWhere of
             (sEstimateCnfCnt, sEstimateDnfCnt, sWhere1) \<Rightarrow>
               (checkJoinOper sExistsJoinOper
                  (chooseType sIsCNFOnly sHint sNormalFormMaximum sEstimateCnfCnt sEstimateDnfCnt),
                sWhere1)))"

end
