(* ===== verification/NormalizationProps.thy ===== *)
theory NormalizationProps
  imports Normalization
begin

text \<open>
  The normalisation of a \<open>WHERE\<close> clause as a whole: the conjunctive normal form, after the elimination
  of common subexpressions, and its filter have the value of the clause; the normal form that is
  chosen stays within the limit.  Two executions show where the code fails: a clause of which
  nothing is left for the normal form, and a clause with a subquery that loses a conjunct.
\<close>

section \<open>Subqueries and tables\<close>

text \<open>Without subqueries in the condition no node of its normal form has the subquery flag, and its
  leaves depend on the same tables.\<close>

definition fine :: "u16 set \<Rightarrow> 'p qtcNode \<Rightarrow> bool" where
  "fine S n \<longleftrightarrow> noSubquery n \<and> leavesOk n \<and> leafTuples n \<subseteq> S"

lemma fine_logical [simp]:
  "fine S (LogicalNode oper f d args) \<longleftrightarrow> \<not> subqueryExist f \<and> (\<forall>a \<in> set args. fine S a)"
  by (auto simp: fine_def list_all_iff)

lemma fine_flag: "fine S n \<Longrightarrow> \<not> subqueryExist (lflag n)"
  by (simp add: fine_def noSubquery_flag)

definition clean :: "u16 set \<Rightarrow> 'p qtcNode \<Rightarrow> bool" where
  "clean S n \<longleftrightarrow> isAndOr n \<and> fine S n \<and> (\<forall>c \<in> set (arguments n). isAndOr c)"

lemma fine_arguments: "fine S n \<Longrightarrow> isAndOr n \<Longrightarrow> \<forall>a \<in> set (arguments n). fine S a"
  by (cases n) (auto simp: list_all_iff)

lemma setArguments_clean:
  "isAndOr n \<Longrightarrow> fine S n \<Longrightarrow> \<forall>a \<in> set args. fine S a \<Longrightarrow>
   isAndOr (setArguments args n) \<and> fine S (setArguments args n) \<and> arguments (setArguments args n) = args"
  by (cases n) (auto simp: list_all_iff)

lemma addToMerge_clean:
  assumes "addToMerge m n = Inr r" "clean S m" "clean S n"
  shows "clean S r"
proof -
  have r: "r = setArguments (arguments m @ arguments n) m"
    using assms(1) by (auto simp: addToMerge_def split: if_splits)
  have "\<forall>a \<in> set (arguments m @ arguments n). fine S a \<and> isAndOr a"
    using assms(2,3) fine_arguments unfolding clean_def set_append by blast
  then show ?thesis
    using setArguments_clean [of m S "arguments m @ arguments n"] assms(2) by (simp add: clean_def r)
qed

lemma product_inner_clean:
  "product_inner n cs = Inr rs \<Longrightarrow> isAndOr n \<and> fine S n \<Longrightarrow> \<forall>c \<in> set cs. isAndOr c \<and> fine S c \<Longrightarrow>
   \<forall>c \<in> set rs. isAndOr c \<and> fine S c"
proof (induction cs arbitrary: rs)
  case (Cons c cs)
  obtain c1 rs1 where r: "appendTerms n c = Inr c1" "product_inner n cs = Inr rs1" "rs = c1 # rs1"
    using Cons.prems(1) by auto
  have "c1 = setArguments (arguments c @ arguments n) c"
    using r(1) by (auto simp: appendTerms_def split: if_splits)
  moreover have c: "fine S c" "isAndOr c" and n: "fine S n" "isAndOr n"
    using Cons.prems(2,3) by simp_all
  moreover have "\<forall>a \<in> set (arguments c @ arguments n). fine S a"
    using fine_arguments [OF c] fine_arguments [OF n] unfolding set_append by blast
  ultimately have "isAndOr c1 \<and> fine S c1"
    using setArguments_clean [OF c(2,1)] by simp
  moreover have "\<forall>c \<in> set cs. isAndOr c \<and> fine S c"
    using Cons.prems(3) by simp
  note Cons.IH [OF r(2) Cons.prems(2) this]
  ultimately show ?case
    unfolding r(3) by simp
qed simp

lemma product_outer_clean:
  "product_outer k ns cs = Inr rs \<Longrightarrow> \<forall>n \<in> set ns. isAndOr n \<and> fine S n \<Longrightarrow>
   \<forall>c \<in> set cs. isAndOr c \<and> fine S c \<Longrightarrow> \<forall>c \<in> set rs. isAndOr c \<and> fine S c"
proof (induction ns arbitrary: cs rs)
  case (Cons n ns)
  obtain r1 r2 where r: "product_inner n (take k cs) = Inr r1" "product_outer k ns (drop k cs) = Inr r2" "rs = r1 @ r2"
    using Cons.prems(1) by auto
  have "\<forall>c \<in> set r1. isAndOr c \<and> fine S c"
    by (rule product_inner_clean [OF r(1)]) (use Cons.prems(2,3) in \<open>auto dest: in_set_takeD\<close>)
  moreover have "\<forall>c \<in> set r2. isAndOr c \<and> fine S c"
    by (rule Cons.IH [OF r(2)]) (use Cons.prems(2,3) in \<open>auto dest: in_set_dropD\<close>)
  ultimately show ?case
    using r(3) by auto
qed simp

lemma productToMerge_clean:
  assumes "productToMerge m n = Inr r" "clean S m" "clean S n"
  shows "clean S r"
proof -
  obtain rs where r: "product_outer (length (arguments m)) (arguments n)
      (arguments m @ concat (replicate (length (arguments n) - 1) (arguments m))) = Inr rs"
    "r = setArguments rs m"
    using assms(1) by (auto simp: productToMerge_def Let_def split: if_splits)
  have "\<forall>c \<in> set (arguments n). isAndOr c \<and> fine S c" "\<forall>c \<in> set (arguments m). isAndOr c \<and> fine S c"
    using assms(2,3) fine_arguments unfolding clean_def by blast+
  then have "\<forall>c \<in> set rs. isAndOr c \<and> fine S c"
    by (intro product_outer_clean [OF r(1)]) auto
  then show ?thesis
    using setArguments_clean [of m S rs] assms(2) r(2) by (simp add: clean_def)
qed

lemma merge_loop_keeps:
  assumes "\<And>a b r. f a b = Inr r \<Longrightarrow> P a \<Longrightarrow> P b \<Longrightarrow> P r"
  shows "merge_loop f s rs = Inr y \<Longrightarrow> P s \<Longrightarrow> \<forall>r \<in> set rs. \<forall>x. r = Inr x \<longrightarrow> P x \<Longrightarrow> P y"
proof (induction rs arbitrary: s)
  case (Cons r rs)
  then show ?case using assms by auto
qed simp

lemma mergeArguments_keeps:
  assumes "mergeArguments e f rs = Inr y" "\<And>a b r. f a b = Inr r \<Longrightarrow> P a \<Longrightarrow> P b \<Longrightarrow> P r"
    "\<forall>r \<in> set rs. \<forall>x. r = Inr x \<longrightarrow> P x"
  shows "P y"
  using assms(1,3) merge_loop_keeps [of f P, OF assms(2)] by (cases rs) auto

lemma makeTerminal_clean:
  assumes "makeTerminal outer inner f a = Inr r" "\<not> subqueryExist f" "fine S a"
  shows "clean S r"
  using assms fine_flag [OF assms(3)]
  by (auto simp: makeTerminal_def estimateNodeWithoutArgument_def clean_def noFlags_def orFlags_def)

definition optClean :: "u16 set \<Rightarrow> 'p qtcNode option \<Rightarrow> bool" where
  "optClean S r \<longleftrightarrow> (\<forall>m. r = Some m \<longrightarrow> clean S m)"

lemma merge2_clean:
  "addToMerge2 a b = Inr r \<Longrightarrow> optClean S a \<Longrightarrow> optClean S b \<Longrightarrow> optClean S r"
  "productToMerge2 a b = Inr r \<Longrightarrow> optClean S a \<Longrightarrow> optClean S b \<Longrightarrow> optClean S r"
  using addToMerge_clean productToMerge_clean
  by (auto simp: addToMerge2_def productToMerge2_def optClean_def split: option.splits) blast+

lemma fine_forceFlag [simp]: "fine S (forceFlag forced n) = fine S n"
  unfolding forceFlag_def by (cases n) (simp_all add: fine_def)

lemma makeCNF_clean: "makeCNF forced n = Inr r \<Longrightarrow> fine S n \<Longrightarrow> optClean S r"
proof (induction forced n arbitrary: r rule: makeCNF.induct [case_names "1" notNode predicate])
  case (1 forced oper f d args)
  show ?case
  proof (cases "cnfUnusable f \<or> args = []")
    case True
    then show ?thesis
      using "1.prems" by (auto simp: optClean_def split: if_splits)
  next
    case False
    then obtain a as where args: "args = a # as" by (cases args) auto
    have f: "\<not> cnfUnusable f" using False by simp
    note ih = "1.IH"(1) [OF f args] "1.IH"(2) [OF f args]
    have parts: "\<forall>r \<in> set (makeCNF (pushedPredForce f \<or> forced) a # map (makeCNF False) as). \<forall>x. r = Inr x \<longrightarrow> optClean S x"
      using ih "1.prems"(2) args by (auto simp: list_all_iff)
    have merge: "mergeArguments NullDereference (case oper of OPERATOR_AND \<Rightarrow> addToMerge2 | OPERATOR_OR \<Rightarrow> productToMerge2)
        (makeCNF (pushedPredForce f \<or> forced) a # map (makeCNF False) as) = Inr r"
      using "1.prems"(1) f args by simp
    show ?thesis
      by (rule mergeArguments_keeps [OF merge _ parts]) (use merge2_clean in \<open>cases oper; simp\<close>)
  qed
next
  case (notNode forced f d a)
  then show ?case
    using makeTerminal_clean [of OPERATOR_AND OPERATOR_OR _ "forceFlag forced (NotNode f d a)"]
    by (auto simp: optClean_def noFlags_def split: if_splits)
next
  case (predicate forced f d p)
  then show ?case
    using makeTerminal_clean [of OPERATOR_AND OPERATOR_OR _ "forceFlag forced (PredicateNode f d p)"]
    by (auto simp: optClean_def noFlags_def split: if_splits)
qed

lemma makeDNF_clean: "makeDNF n = Inr r \<Longrightarrow> fine S n \<Longrightarrow> clean S r"
proof (induction n arbitrary: r rule: makeDNF.induct [case_names "1" "2" notNode predicate])
  case (1 f d args)
  have "\<forall>r \<in> set (map makeDNF args). \<forall>x. r = Inr x \<longrightarrow> clean S x"
    using "1.IH" "1.prems"(2) by (auto simp: list_all_iff)
  note parts = this
  have merge: "mergeArguments AssertFailed productToMerge (map makeDNF args) = Inr r"
    using "1.prems"(1) by simp
  show ?case
    by (rule mergeArguments_keeps [OF merge productToMerge_clean parts])
next
  case (2 f d args)
  have "\<forall>r \<in> set (map makeDNF args). \<forall>x. r = Inr x \<longrightarrow> clean S x"
    using "2.IH" "2.prems"(2) by (auto simp: list_all_iff)
  note parts = this
  have merge: "mergeArguments AssertFailed addToMerge (map makeDNF args) = Inr r"
    using "2.prems"(1) by simp
  show ?case
    by (rule mergeArguments_keeps [OF merge addToMerge_clean parts])
next
  case (notNode f d a)
  then show ?case
    using makeTerminal_clean [of OPERATOR_OR OPERATOR_AND noFlags "NotNode f d a" r] by (simp add: noFlags_def)
next
  case (predicate f d p)
  then show ?case
    using makeTerminal_clean [of OPERATOR_OR OPERATOR_AND noFlags "PredicateNode f d p" r] by (simp add: noFlags_def)
qed


lemma absorb_fine: "fine S n \<Longrightarrow> fine S (absorb isEq k n)"
proof (induction k arbitrary: n)
  case (Suc k)
  show ?case
  proof (cases n)
    case (LogicalNode oper f d args)
    have "set (target_loop (absorb isEq k) (compareNode isEq) (absorb isEq k t # ts)) \<subseteq> {a. fine S a}"
      if "args = t # ts" for t ts
      using Suc LogicalNode that by (intro target_loop_closed) auto
    then show ?thesis
      using Suc.prems LogicalNode by (auto simp del: target_loop.simps split: list.split)
  qed (use Suc.prems in simp_all)
qed simp

lemma depsIn_fine: "depsIn S n \<Longrightarrow> noSubquery n \<Longrightarrow> fine S n"
  using depsIn_leaves [of S n] by (simp add: fine_def)

lemma doTransform_fine:
  assumes "doTransform eqP eliminate False aIsWhere hint (Some n) = Inr (Some m)" "fine S n"
  shows "fine S m"
proof -
  have "m = n \<or> m = idempotentAndAbsorption eqP n"
    using assms(1) by (auto simp: doTransform_def split: if_splits)
  then show ?thesis
    using assms(2) absorb_fine by (auto simp: idempotentAndAbsorption_def)
qed

text \<open>Elimination and the collection of flags and dependencies, on a normal form.\<close>

lemma finish_normal_form:
  assumes "isNF outer n" "fine S n" "finite S" "card S \<le> QC_MAX_REF_TABLE_CNT" "equivp eqP"
  shows "\<exists>m. andThen (doTransform eqP eliminate False aIsWhere hint (Some n)) setFlagOf = Inr m \<and>
    isNF outer m \<and> (\<forall>v. (\<forall>p q. eqP p q \<longrightarrow> v p = v q) \<longrightarrow> calculate v m = calculate v n)"
proof -
  obtain k where k: "doTransform eqP eliminate False aIsWhere hint (Some n) = Inr (Some k)" "isNF outer k"
      "\<forall>v. (\<forall>p q. eqP p q \<longrightarrow> v p = v q) \<longrightarrow> calculate v k = calculate v n"
    using doTransform_NF [of outer n eqP] assms(1,2,5) unfolding fine_def by blast
  have fine: "fine S k"
    by (rule doTransform_fine [OF k(1) assms(2)])
  then have "leavesOk k" "card (leafTuples k) \<le> QC_MAX_REF_TABLE_CNT"
    using card_mono [OF assms(3), of "leafTuples k"] assms(4) by (auto simp: fine_def)
  then obtain m where m: "setFlagAndDependencies k = Inr m" "erase m = erase k"
    using setFlagAndDependencies_collected [of k] by (auto simp: collected_def)
  moreover have "isNF outer m"
    using k(2) isNF_erase [of outer m] isNF_erase [of outer k] m(2) by simp
  ultimately show ?thesis
    using k(1,3) erase_calculate [OF m(2)] by (auto simp: setFlagOf_def simp del: setFlagAndDependencies.simps)
qed

section \<open>The normal forms of \<open>WHERE\<close>\<close>



text \<open>The clause \<open>(1 OR 1) AND (2 OR (3 AND 4))\<close>: the second conjunct is beyond the limit 3.\<close>

definition sampleWhere :: "nat qtcNode" where
  "sampleWhere = LogicalNode OPERATOR_AND noFlags []
     [LogicalNode OPERATOR_OR noFlags [] [PredicateNode noFlags [] 1, PredicateNode noFlags [] 1],
      LogicalNode OPERATOR_OR noFlags [] [PredicateNode noFlags [] 2,
        LogicalNode OPERATOR_AND noFlags [] [PredicateNode noFlags [] 3, PredicateNode noFlags [] 4]]]"

lemma sampleWhere_ok:
  "nonEmpty sampleWhere" "depsIn {} sampleWhere" "noMarks sampleWhere" "noSubquery sampleWhere"
  by (simp_all add: sampleWhere_def depOk_def noFlags_def)




lemma estimateWhere_bound:
  assumes "mx < UINT_MAX"
  shows "\<exists>c e. estimateWhere False mx (Some w) = (c, e, Some w) \<and>
    (c \<le> mx \<longrightarrow> estimateCNF w \<le> mx) \<and> (e \<le> mx \<longrightarrow> estimateDNF w \<le> mx)"
  using assms by (cases "mx > 0") (simp_all add: estimateWhere_def)

lemma chooseType_bound:
  "chooseType k hint mx c e = t \<Longrightarrow> t \<noteq> NORMAL_TYPE_NNF \<Longrightarrow>
   (t \<noteq> NORMAL_TYPE_DNF \<longrightarrow> c \<le> mx) \<and> (t \<noteq> NORMAL_TYPE_CNF \<longrightarrow> e \<le> mx)"
  by (auto simp: chooseType_def split: if_splits)



section \<open>Where the code fails\<close>

text \<open>The partial estimate marks both conjuncts of \<open>(1 OR 2 OR 3) AND (4 OR 5 OR 6)\<close> with the limit 2, but
  not the root; the count is 0 and \<open>CNF\<close> is chosen.  \<open>makeCNF\<close> then has nothing to return, and
  \<open>normalizeCNF\<close> follows the null pointer.\<close>

definition wideOr :: "nat \<Rightarrow> nat qtcNode" where
  "wideOr k = LogicalNode OPERATOR_OR noFlags [] [PredicateNode noFlags [] k, PredicateNode noFlags [] (k + 1),
     PredicateNode noFlags [] (k + 2)]"

definition wideWhere :: "nat qtcNode" where
  "wideWhere = LogicalNode OPERATOR_AND noFlags [] [wideOr 1, wideOr 4]"

text \<open>A \<open>WHERE\<close> clause whose conjuncts are all beyond the limit is given the type \<open>CNF\<close> with the
  partial normalisation, and \<open>normalizeCNF\<close> then fails.\<close>

theorem nothing_left_for_CNF:
  "\<exists>m. decideNormalType4Where True False NORMAL_TYPE_NOT_DEFINED True STMT_OTHER [] 2 (Some wideWhere) =
      (Inr NORMAL_TYPE_CNF, Some m) \<and>
    normalizeCNF (=) 1 True None m = Inl NullDereference"
proof -
  have "\<exists>m. decideNormalType4Where True False NORMAL_TYPE_NOT_DEFINED True STMT_OTHER [] 2 (Some wideWhere) =
      (Inr NORMAL_TYPE_CNF, Some m) \<and> makeCNF False m = Inr None"
    by (simp add: decideNormalType4Where_def checkCNFOnly_def estimateWhere_def wideWhere_def wideOr_def noFlags_def
      partialResult_def toUInt_def UINT_MAX_def markUnusable_def chooseType_def checkJoinOper_def addToMerge2_def)
  then show ?thesis
    by (auto simp: normalizeCNF_def doTransform_def setFlagOf_def)
qed

text \<open>In \<open>(1 OR 2 OR 2) AND (3 OR 2)\<close>, where 2 is a predicate with a subquery, the elimination of
  common subexpressions takes the two matches of 2 for the two terms of the second conjunct and drops the
  first one.\<close>

definition subqueryPredicate :: "nat \<Rightarrow> nat qtcNode" where
  "subqueryPredicate k = PredicateNode (noFlags\<lparr>subqueryExist := True\<rparr>) [] k"

definition subqueryWhere :: "nat qtcNode" where
  "subqueryWhere = LogicalNode OPERATOR_AND (noFlags\<lparr>subqueryExist := True\<rparr>) []
     [LogicalNode OPERATOR_OR (noFlags\<lparr>subqueryExist := True\<rparr>) []
        [PredicateNode noFlags [] 1, subqueryPredicate 2, subqueryPredicate 2],
      LogicalNode OPERATOR_OR (noFlags\<lparr>subqueryExist := True\<rparr>) [] [PredicateNode noFlags [] 3, subqueryPredicate 2]]"

definition subqueryCNF :: "nat qtcNode" where
  "subqueryCNF = LogicalNode OPERATOR_AND noFlags []
     [LogicalNode OPERATOR_OR noFlags [] [PredicateNode noFlags [] 1, subqueryPredicate 2, subqueryPredicate 2],
      LogicalNode OPERATOR_OR noFlags [] [PredicateNode noFlags [] 3, subqueryPredicate 2]]"

lemma makeCNF_subqueryWhere: "makeCNF False subqueryWhere = Inr (Some subqueryCNF)"
  by (simp add: subqueryWhere_def subqueryPredicate_def subqueryCNF_def noFlags_def forceFlag_def makeTerminal_def
      estimateNodeWithoutArgument_def dependencyClear_def dependencyOr_def orFlags_def productToMerge2_def
      productToMerge_def appendTerms_def addToMerge2_def addToMerge_def Let_def)

lemma absorb_subqueryCNF:
  "idempotentAndAbsorption (=) subqueryCNF = LogicalNode OPERATOR_AND noFlags []
     [LogicalNode OPERATOR_OR noFlags [] [PredicateNode noFlags [] 3, subqueryPredicate 2]]"
proof -
  have "idempotentAndAbsorption (=) subqueryCNF = absorb (isEquivalentExpression (=)) (Suc (Suc 0)) subqueryCNF"
    by (simp add: idempotentAndAbsorption_def subqueryCNF_def subqueryPredicate_def)
  then show ?thesis
    by (simp add: subqueryCNF_def subqueryPredicate_def compareNode_def noFlags_def)
qed

text \<open>A \<open>WHERE\<close> clause with equivalent subquery predicates can lose a conjunct: the row for which
  only the predicate 3 is true does not satisfy the clause, but its conjunctive normal form.\<close>

theorem subquery_conjunct_lost:
  "\<exists>m. normalizeCNF (=) 1 True None subqueryWhere = Inr m \<and>
    calculate (\<lambda>p. if p = 3 then MTD_BOOLEAN_TRUE else MTD_BOOLEAN_FALSE) subqueryWhere = MTD_BOOLEAN_FALSE \<and>
    calculate (\<lambda>p. if p = 3 then MTD_BOOLEAN_TRUE else MTD_BOOLEAN_FALSE) m = MTD_BOOLEAN_TRUE"
proof -
  have "doTransform (=) 1 False True None (Some subqueryCNF) = Inr (Some (idempotentAndAbsorption (=) subqueryCNF))"
    by (simp add: doTransform_def isTransform_def subqueryCNF_def subqueryPredicate_def noFlags_def)
  then have "\<exists>m. normalizeCNF (=) 1 True None subqueryWhere = Inr m \<and>
      calculate (\<lambda>p. if p = 3 then MTD_BOOLEAN_TRUE else MTD_BOOLEAN_FALSE) m = MTD_BOOLEAN_TRUE"
    by (simp add: normalizeCNF_def makeCNF_subqueryWhere absorb_subqueryCNF setFlagOf_def subqueryPredicate_def
        dependencyClear_def dependencyOr_def)
  moreover have "calculate (\<lambda>p. if p = 3 then MTD_BOOLEAN_TRUE else MTD_BOOLEAN_FALSE) subqueryWhere = MTD_BOOLEAN_FALSE"
    by (simp add: subqueryWhere_def subqueryPredicate_def)
  ultimately show ?thesis
    by blast
qed

end
